(* ===== verification/Raids_Prelude.thy ===== *)
theory Raids_Prelude
  imports Main "HOL-Library.Word"
begin

text \<open>
  Shared vocabulary of the development: the machine types of the C++ code as words, byte
  strings, the character classes the parsers test, and the generic facts on lists, words and
  decimal numbers that the component theories share. The collections \<open>raids_simps\<close> and
  \<open>byte_simps\<close> gather the facts that carry the component proofs.
\<close>

unbundle bit_operations_syntax

named_theorems raids_simps
named_theorems byte_simps

type_synonym byte = "8 word"
type_synonym u16 = "16 word"
type_synonym u32 = "32 word"
type_synonym u64 = "64 word"

section \<open>Characters\<close>

text \<open>Character constants of the source, by their code.\<close>

abbreviation CR :: byte where "CR \<equiv> 13"
abbreviation LF :: byte where "LF \<equiv> 10"
abbreviation SP :: byte where "SP \<equiv> 32"
abbreviation MINUS :: byte where "MINUS \<equiv> 45"

text \<open>A string constant of the source as bytes.\<close>

definition ascii :: "string \<Rightarrow> byte list" where
  "ascii s = map of_char s"

lemma ascii_simps [simp, byte_simps]:
  "ascii [] = []"
  "ascii (c # s) = of_char c # ascii s"
  by (simp_all add: ascii_def)

text \<open>\<open>str[ j ] < '0' || str[ j ] > '9'\<close>, negated: a byte from 0x80 is a negative \<open>char\<close>, so
  the signed and the unsigned test agree.\<close>

definition is_digit :: "byte \<Rightarrow> bool" where
  "is_digit b \<longleftrightarrow> 48 \<le> b \<and> b \<le> 57"

lemma mod_shift_byte:
  "0 \<le> (u::int) \<Longrightarrow> u < 256 \<Longrightarrow> (u + 128) mod 256 - 128 = (if u < 128 then u else u - 256)"
proof (cases "u < 128")
  case False
  moreover assume "0 \<le> u" "u < 256"
  ultimately have "(u + 128) mod 256 = (u - 128) mod 256" and "0 \<le> u - 128" "u - 128 < 256"
    using mod_add_self2 [of "u - 128" 256] by (simp_all add: algebra_simps)
  with False show ?thesis by (simp add: mod_pos_pos_trivial)
qed simp

lemma sint_byte: "sint (b :: byte) = (if uint b < 128 then uint b else uint b - 256)"
proof -
  have "sint b = (uint b + 128) mod 256 - 128"
    by (simp add: sint_uint signed_take_bit_eq_take_bit_shift take_bit_eq_mod)
  moreover have "0 \<le> uint b" "uint b < 256" using uint_range_size [of b] by (simp_all add: word_size)
  ultimately show ?thesis by (simp only: mod_shift_byte)
qed

lemma is_digit_signed: "is_digit b \<longleftrightarrow> \<not> (sint b < 48 \<or> 57 < sint b)"
proof -
  have "is_digit b \<longleftrightarrow> 48 \<le> uint b \<and> uint b \<le> 57"
    by (simp add: is_digit_def word_le_def)
  then show ?thesis using uint_range_size [of b] by (auto simp: sint_byte word_size)
qed

text \<open>The value of a digit: \<open>str[ j ] - '0'\<close>.\<close>

definition digit_val :: "byte \<Rightarrow> nat" where
  "digit_val b = unat (b - 48)"

lemma digit_val_unat: "is_digit b \<Longrightarrow> digit_val b = unat b - 48"
  by (simp add: is_digit_def digit_val_def unat_sub)

lemma digit_val_bound [raids_simps]: "is_digit b \<Longrightarrow> digit_val b \<le> 9"
  by (simp add: digit_val_unat) (auto simp add: is_digit_def word_le_nat_alt)

lemma is_digit_digit [simp]: "n < 10 \<Longrightarrow> is_digit (48 + of_nat n)"
  by (simp add: is_digit_def word_le_nat_alt unat_word_ariths unat_of_nat)

lemma digit_val_digit [simp]: "n < 10 \<Longrightarrow> digit_val (48 + of_nat n) = n"
  by (simp add: digit_val_def unat_of_nat)

section \<open>Decimal numbers\<close>

text \<open>
  The reference notion the integer routines are measured against: the value of a digit
  string, most significant digit first, and the canonical digits of a number.
\<close>

definition dec_val :: "byte list \<Rightarrow> nat" where
  "dec_val ds = foldl (\<lambda>n d. 10 * n + digit_val d) 0 ds"

fun dec_nat :: "nat \<Rightarrow> byte list" where
  "dec_nat n = (if n < 10 then [48 + of_nat n]
                else dec_nat (n div 10) @ [48 + of_nat (n mod 10)])"

declare dec_nat.simps [simp del]

definition dec_int :: "int \<Rightarrow> byte list" where
  "dec_int i = (if i < 0 then MINUS # dec_nat (nat (- i)) else dec_nat (nat i))"

lemma dec_val_Nil [simp]: "dec_val [] = 0"
  by (simp add: dec_val_def)

lemma dec_val_snoc [simp]: "dec_val (ds @ [d]) = 10 * dec_val ds + digit_val d"
  by (simp add: dec_val_def)

lemma dec_val_append: "dec_val (xs @ ys) = 10 ^ length ys * dec_val xs + dec_val ys"
  by (induction ys rule: rev_induct) (simp_all add: algebra_simps flip: append_assoc)

lemma dec_val_single [simp]: "dec_val [d] = digit_val d"
  by (simp add: dec_val_def)

lemma dec_val_Cons: "dec_val (d # ds) = 10 ^ length ds * digit_val d + dec_val ds"
  using dec_val_append [of "[d]" ds] by simp

lemma dec_val_bound: "\<forall>d\<in>set ds. is_digit d \<Longrightarrow> dec_val ds < 10 ^ length ds"
proof (induction ds rule: rev_induct)
  case (snoc d ds)
  then show ?case using digit_val_bound [of d] by simp
qed simp

lemma dec_val_dec_nat [simp]: "dec_val (dec_nat n) = n"
proof (induction n rule: dec_nat.induct)
  case (1 n)
  show ?case by (cases "n < 10") (simp_all add: dec_nat.simps [of n] 1)
qed

lemma dec_nat_digits: "d \<in> set (dec_nat n) \<Longrightarrow> is_digit d"
proof (induction n rule: dec_nat.induct)
  case (1 n)
  then show ?case by (cases "n < 10") (auto simp: dec_nat.simps [of n])
qed

lemma dec_nat_nonempty [simp]: "dec_nat n \<noteq> []"
  by (subst dec_nat.simps) simp

lemma length_dec_nat_le: "n < 10 ^ k \<Longrightarrow> 0 < k \<Longrightarrow> length (dec_nat n) \<le> k"
proof (induction n arbitrary: k rule: dec_nat.induct)
  case (1 n)
  show ?case
  proof (cases "n < 10")
    case True
    then show ?thesis using 1 by (simp add: dec_nat.simps [of n])
  next
    case False
    then obtain j where k: "k = Suc j" "0 < j"
      using "1.prems" by (cases k) (fastforce intro: Nat.gr0I)+
    then have "n div 10 < 10 ^ j" using "1.prems" by auto
    with False k 1 show ?thesis by (simp add: dec_nat.simps [of n])
  qed
qed

lemma length_dec_nat_ge: "10 ^ k \<le> n \<Longrightarrow> k < length (dec_nat n)"
proof -
  assume "10 ^ k \<le> n"
  also have "n < 10 ^ length (dec_nat n)"
    using dec_val_bound [of "dec_nat n"] dec_nat_digits [of _ n] by simp
  finally show ?thesis by (rule power_less_imp_less_exp [rotated]) simp
qed

lemma dec_nat_hd_not_minus: "hd (dec_nat n) \<noteq> MINUS"
proof -
  have "is_digit (hd (dec_nat n))" using dec_nat_digits [of "hd (dec_nat n)" n] by simp
  then show ?thesis by (auto simp: is_digit_def)
qed

section \<open>Generic facts\<close>

text \<open>Updating a list just below a position: how the backward writes of the integer
  formatting fill their buffer.\<close>

lemma drop_list_update_last: "p < length xs \<Longrightarrow> drop p (xs[p := x]) = x # drop (Suc p) xs"
  by (simp add: Cons_nth_drop_Suc [symmetric])

lemma u64_of_nat_inverse [raids_simps]: "n < 2 ^ 64 \<Longrightarrow> unat (of_nat n :: u64) = n"
  by (simp add: unat_of_nat take_bit_nat_eq_self)

lemma map_sum_simps_Inl_iff: "map_sum f g x = Inl y \<longleftrightarrow> (\<exists>z. x = Inl z \<and> y = f z)"
  by (cases x) auto

lemma map_sum_Inr_iff: "map_sum f g x = Inr y \<longleftrightarrow> (\<exists>z. x = Inr z \<and> y = g z)"
  by (cases x) auto

end
