(* ===== verification/Kv_Util.thy ===== *)
theory Kv_Util
  imports Raids_Prelude
begin

text \<open>
  The primitives of raikv (\<open>raikv/util.h\<close>, a submodule whose directory is empty in this
  tree) that the modelled code calls: integer formatting, bit scans and byte swaps. They are
  a record of functions, an argument of every definition that uses one; what the code relies
  on is the assumptions of two locales, \<open>kv_format\<close> and \<open>kv_bitops\<close>, one per group of
  primitives. The formatting laws are discharged in \<open>Int_Str\<close> by the routines that
  \<open>include/raids/int_str.h\<close> carries; the bit laws here by plain loops over the bits.
\<close>

record kv_util =
  int64_digits :: "int \<Rightarrow> nat"
  int64_to_string :: "int \<Rightarrow> byte list"
  uint64_digits :: "nat \<Rightarrow> nat"
  uint64_to_string :: "nat \<Rightarrow> byte list"
  kv_clzl :: "u64 \<Rightarrow> nat"
  kv_ctzl :: "u64 \<Rightarrow> nat"
  kv_ffsl :: "u64 \<Rightarrow> nat"
  kv_popcountl :: "u64 \<Rightarrow> nat"
  kv_bswap16 :: "u16 \<Rightarrow> u16"
  kv_bswap32 :: "u32 \<Rightarrow> u32"
  kv_bswap64 :: "u64 \<Rightarrow> u64"

section \<open>Integer formatting\<close>

definition int64_range :: "int \<Rightarrow> bool" where
  "int64_range i \<longleftrightarrow> - (2 ^ 63) \<le> i \<and> i < 2 ^ 63"

locale kv_format =
  fixes U :: kv_util
  assumes u2s: "n < 2 ^ 64 \<Longrightarrow> uint64_to_string U n = dec_nat n"
    and udig: "n < 2 ^ 64 \<Longrightarrow> uint64_digits U n = length (dec_nat n)"
    and i2s: "int64_range i \<Longrightarrow> int64_to_string U i = dec_int i"
    and idig: "int64_range i \<Longrightarrow> int64_digits U i = length (dec_int i)"
begin

lemma length_i2s: "int64_range i \<Longrightarrow> length (int64_to_string U i) = int64_digits U i"
  by (simp add: i2s idig)

lemma length_u2s: "n < 2 ^ 64 \<Longrightarrow> length (uint64_to_string U n) = uint64_digits U n"
  by (simp add: u2s udig)

lemma i2s_nonempty: "int64_range i \<Longrightarrow> int64_to_string U i \<noteq> []"
  by (simp add: i2s dec_int_def)

end

section \<open>Little-endian bytes\<close>

text \<open>The value of bytes in memory order on the little-endian targets of the program.\<close>

fun le_val :: "byte list \<Rightarrow> nat" where
  "le_val [] = 0"
| "le_val (b # bs) = unat b + 256 * le_val bs"

fun le_bytes :: "nat \<Rightarrow> nat \<Rightarrow> byte list" where
  "le_bytes 0 n = []"
| "le_bytes (Suc k) n = of_nat n # le_bytes k (n div 256)"

lemma length_le_bytes [simp]: "length (le_bytes k n) = k"
  by (induction k arbitrary: n) simp_all

lemma unat_byte_less: "unat (b :: byte) < 256"
  using unsigned_less [of b] by simp

lemma le_val_bound: "le_val bs < 256 ^ length bs"
proof (induction bs)
  case (Cons b bs)
  have "unat b < 256" by (rule unat_byte_less)
  with Cons show ?case by simp
qed simp

lemma le_val_le_bytes: "n < 256 ^ k \<Longrightarrow> le_val (le_bytes k n) = n"
proof (induction k arbitrary: n)
  case (Suc k)
  then have "n div 256 < 256 ^ k" by (simp add: less_mult_imp_div_less mult.commute)
  with Suc.IH show ?case by (simp add: unat_of_nat)
qed simp

lemma le_bytes_le_val: "le_bytes (length bs) (le_val bs) = bs"
proof (induction bs)
  case (Cons b bs)
  have "unat b < 256" by (rule unat_byte_less)
  then have "(unat b + 256 * le_val bs) div 256 = le_val bs"
    and "(of_nat (unat b + 256 * le_val bs) :: byte) = b"
    by (simp_all add: word_unat_eq_iff unat_of_nat take_bit_eq_mod del: of_nat_add of_nat_mult)
  with Cons show ?case by (simp del: of_nat_add of_nat_mult)
qed simp

section \<open>Bit scans and byte swaps\<close>

locale kv_bitops =
  fixes U :: kv_util
  assumes clzl: "w \<noteq> 0 \<Longrightarrow> kv_clzl U w \<le> 63 \<and> bit w (63 - kv_clzl U w)
                   \<and> (\<forall>k. 63 - kv_clzl U w < k \<longrightarrow> \<not> bit w k)"
    and ctzl: "w \<noteq> 0 \<Longrightarrow> bit w (kv_ctzl U w) \<and> (\<forall>k < kv_ctzl U w. \<not> bit w k)"
    and ffsl: "kv_ffsl U w = (if w = 0 then 0 else Suc (kv_ctzl U w))"
    and popcountl: "kv_popcountl U w = card {k. bit w k}"
    and bswap16: "length bs = 2 \<Longrightarrow> kv_bswap16 U (of_nat (le_val bs)) = of_nat (le_val (rev bs))"
    and bswap32: "length bs = 4 \<Longrightarrow> kv_bswap32 U (of_nat (le_val bs)) = of_nat (le_val (rev bs))"
    and bswap64: "length bs = 8 \<Longrightarrow> kv_bswap64 U (of_nat (le_val bs)) = of_nat (le_val (rev bs))"
begin

lemma ctzl_lt: "w \<noteq> 0 \<Longrightarrow> kv_ctzl U w < 64"
  using ctzl [of w] bit_imp_le_length [of w "kv_ctzl U w"] by simp

lemma ctzl_eqI: "bit w n \<Longrightarrow> (\<And>k. k < n \<Longrightarrow> \<not> bit w k) \<Longrightarrow> kv_ctzl U w = n"
  using ctzl [of w] by (metis bit_0_eq bot_apply bot_bool_def linorder_neqE_nat)

lemma clzl_eqI: "bit w n \<Longrightarrow> n \<le> 63 \<Longrightarrow> (\<And>k. n < k \<Longrightarrow> \<not> bit w k) \<Longrightarrow> kv_clzl U w = 63 - n"
proof -
  assume b: "bit w n" and n: "n \<le> 63" and above: "\<And>k. n < k \<Longrightarrow> \<not> bit w k"
  then have "w \<noteq> 0" by auto
  then have c: "kv_clzl U w \<le> 63" "bit w (63 - kv_clzl U w)"
    "\<not> 63 - kv_clzl U w < n" using clzl b by auto
  then have "63 - kv_clzl U w = n" using above by (meson linorder_neqE_nat)
  with c n show ?thesis by linarith
qed

lemma popcount_zero [simp]: "kv_popcountl U 0 = 0"
  by (simp add: popcountl)

end

text \<open>Plain loops over the bits, and the swaps through the byte list.\<close>

definition scan_clz :: "u64 \<Rightarrow> nat" where
  "scan_clz w = length (takeWhile (\<lambda>k. \<not> bit w (63 - k)) [0..<64])"

definition scan_ctz :: "u64 \<Rightarrow> nat" where
  "scan_ctz w = length (takeWhile (\<lambda>k. \<not> bit w k) [0..<64])"

definition scan_popcount :: "u64 \<Rightarrow> nat" where
  "scan_popcount w = length (filter (bit w) [0..<64])"

definition swap_bytes :: "nat \<Rightarrow> 'a::len word \<Rightarrow> 'a word" where
  "swap_bytes k w = of_nat (le_val (rev (le_bytes k (unat w))))"

definition scan_util :: "kv_util \<Rightarrow> kv_util" where
  "scan_util U = U\<lparr>kv_clzl := scan_clz, kv_ctzl := scan_ctz,
     kv_ffsl := (\<lambda>w. if w = 0 then 0 else Suc (scan_ctz w)),
     kv_popcountl := scan_popcount, kv_bswap16 := swap_bytes 2, kv_bswap32 := swap_bytes 4, kv_bswap64 := swap_bytes 8\<rparr>"

lemma takeWhile_upt_first:
  "n < m \<Longrightarrow> \<not> P n \<Longrightarrow> let l = length (takeWhile P [0..<m]) in l < m \<and> \<not> P l \<and> (\<forall>k<l. P k)"
proof -
  assume n: "n < m" "\<not> P n"
  let ?l = "length (takeWhile P [0..<m])"
  have le: "?l \<le> m" using length_takeWhile_le [of P "[0..<m]"] by simp
  have below: "P k" if "k < ?l" for k
  proof -
    have "takeWhile P [0..<m] ! k = [0..<m] ! k" using that by (rule takeWhile_nth)
    then show ?thesis using that le nth_mem [OF that] by (auto dest: set_takeWhileD)
  qed
  then have "?l \<le> n" using n by (meson not_le)
  then show ?thesis using n below nth_length_takeWhile [of P "[0..<m]"] by (simp add: Let_def)
qed

lemma u64_nonzero_bit: "w \<noteq> (0::u64) \<Longrightarrow> \<exists>n<64. bit w n"
  using bit_eq_iff [of w 0] bit_imp_le_length [of w] by auto

interpretation scan: kv_bitops "scan_util U" for U
proof
  fix w :: u64
  assume "w \<noteq> 0"
  then obtain n where n: "n < 64" "bit w n" using u64_nonzero_bit by blast
  have z: "63 - n < 64" "\<not> \<not> bit w (63 - (63 - n))" using n by simp_all
  from takeWhile_upt_first [where P = "\<lambda>k. \<not> bit w k" and n = n and m = 64] n
  show "bit w (kv_ctzl (scan_util U) w) \<and> (\<forall>k<kv_ctzl (scan_util U) w. \<not> bit w k)"
    by (simp add: scan_util_def scan_ctz_def Let_def)
  from takeWhile_upt_first [where P = "\<lambda>k. \<not> bit w (63 - k)" and n = "63 - n" and m = 64] z
  have l: "scan_clz w < 64" "bit w (63 - scan_clz w)"
    and below: "\<And>k. k < scan_clz w \<Longrightarrow> \<not> bit w (63 - k)" by (simp_all add: scan_clz_def Let_def)
  have "\<not> bit w k" if "63 - scan_clz w < k" for k
  proof (cases "k < 64")
    case True
    then show ?thesis using below [of "63 - k"] that l by simp
  next
    case False
    then show ?thesis using bit_imp_le_length [of w k] by auto
  qed
  with l show "kv_clzl (scan_util U) w \<le> 63 \<and> bit w (63 - kv_clzl (scan_util U) w)
      \<and> (\<forall>k. 63 - kv_clzl (scan_util U) w < k \<longrightarrow> \<not> bit w k)"
    by (simp add: scan_util_def)
next
  fix w :: u64
  have "{k. bit w k} = set (filter (bit w) [0..<64])"
    using bit_imp_le_length [of w] by auto
  moreover have "card (set (filter (bit w) [0..<64])) = length (filter (bit w) [0..<64])"
    by (rule distinct_card) simp
  ultimately show "kv_popcountl (scan_util U) w = card {k. bit w k}"
    by (simp add: scan_util_def scan_popcount_def del: set_filter)
next
  fix bs :: "byte list" assume "length bs = 2"
  then show "kv_bswap16 (scan_util U) (of_nat (le_val bs)) = of_nat (le_val (rev bs))"
    using le_bytes_le_val [of bs] le_val_bound [of bs]
    by (simp add: scan_util_def swap_bytes_def unat_of_nat take_bit_nat_eq_self)
next
  fix bs :: "byte list" assume "length bs = 4"
  then show "kv_bswap32 (scan_util U) (of_nat (le_val bs)) = of_nat (le_val (rev bs))"
    using le_bytes_le_val [of bs] le_val_bound [of bs]
    by (simp add: scan_util_def swap_bytes_def unat_of_nat take_bit_nat_eq_self)
next
  fix bs :: "byte list" assume "length bs = 8"
  then show "kv_bswap64 (scan_util U) (of_nat (le_val bs)) = of_nat (le_val (rev bs))"
    using le_bytes_le_val [of bs] le_val_bound [of bs]
    by (simp add: scan_util_def swap_bytes_def unat_of_nat take_bit_nat_eq_self)
qed (simp add: scan_util_def)

end
