(* ===== verification/Int_Str.thy ===== *)
theory Int_Str
  imports Kv_Util
begin

text \<open>
  Integers and their decimal strings: \<open>include/raids/int_str.h\<close> and the conversions at the
  middle of \<open>src/redis_msg.cpp\<close>. The formatting routines are those the header carries under
  \<open>#if 0\<close>; the program calls the same routines from raikv, so they discharge the laws of
  \<open>kv_format\<close>. The two parsers are the ones every RESP length, integer and numeric command
  argument goes through; both are proved equal to a reference reading of the digits.
\<close>

section \<open>Status codes\<close>

datatype ds_msg_status =
    MSG_OK | INT_OVERFLOW | BAD_INT | FLOAT_OVERFLOW | BAD_FLOAT
  | BAD_TYPE | PARTIAL | ALLOC_FAIL | BAD_JSON

section \<open>Formatting\<close>

text \<open>\<open>negate\<close>: the magnitude of a negative \<open>int64_t\<close>, the least value included.\<close>

definition negate :: "int \<Rightarrow> u64" where
  "negate v = (if (of_int v :: u64) = push_bit 63 1 then push_bit 63 1 else of_int (- v))"

text \<open>\<open>uint_digits\<close>: four digits per turn of the loop, \<open>n\<close> the digits counted so far plus one.\<close>

function uint_digits_loop :: "u64 \<Rightarrow> nat \<Rightarrow> nat" where
  "uint_digits_loop v n =
     (if v < 10 then n
      else if v < 100 then n + 1
      else if v < 1000 then n + 2
      else if v < 10000 then n + 3
      else uint_digits_loop (v div 10000) (n + 4))"
  by pat_completeness auto
termination
  by (relation "measure (\<lambda>(v, n). unat v)") (auto simp: unat_div word_less_nat_alt not_less)

declare uint_digits_loop.simps [simp del]

definition uint_digits :: "u64 \<Rightarrow> nat" where
  "uint_digits v = uint_digits_loop v 1"

definition int_digits :: "int \<Rightarrow> nat" where
  "int_digits v = (if v < 0 then 1 + uint_digits (negate v) else uint_digits (of_int v))"

text \<open>\<open>uint_to_str\<close> writes backward from the end of the buffer, then the first digit.\<close>

function uint_to_str_loop :: "byte list \<Rightarrow> nat \<Rightarrow> u64 \<Rightarrow> byte list" where
  "uint_to_str_loop buf pos v =
     (if v \<ge> 10 then uint_to_str_loop (buf[pos - 1 := 48 + ucast (v mod 10)]) (pos - 1) (v div 10)
      else buf[0 := 48 + ucast v])"
  by pat_completeness auto
termination
  by (relation "measure (\<lambda>(b, p, v). unat v)") (auto simp: unat_div word_le_nat_alt)

declare uint_to_str_loop.simps [simp del]

definition uint_to_str_len :: "u64 \<Rightarrow> byte list \<Rightarrow> nat \<Rightarrow> byte list" where
  "uint_to_str_len v buf len = uint_to_str_loop buf len v"

text \<open>The buffer has room for the digits; its former contents do not show in the result.\<close>

definition uint_to_str :: "u64 \<Rightarrow> byte list" where
  "uint_to_str v = uint_to_str_len v (replicate (uint_digits v) 0) (uint_digits v)"

definition int_to_str :: "int \<Rightarrow> byte list" where
  "int_to_str v =
     (if v < 0 then MINUS # uint_to_str_len (negate v) (replicate (int_digits v - 1) 0) (int_digits v - 1)
      else uint_to_str_len (of_int v) (replicate (int_digits v) 0) (int_digits v))"

text \<open>The routines as the raikv primitives the rest of the program calls.\<close>

definition int_str_util :: kv_util where
  "int_str_util = scan_util
     \<lparr>int64_digits = int_digits, int64_to_string = int_to_str,
      uint64_digits = (\<lambda>n. uint_digits (of_nat n)), uint64_to_string = (\<lambda>n. uint_to_str (of_nat n)),
      kv_clzl = scan_clz, kv_ctzl = scan_ctz, kv_ffsl = scan_ctz, kv_popcountl = scan_popcount,
      kv_bswap16 = swap_bytes 2, kv_bswap32 = swap_bytes 4, kv_bswap64 = swap_bytes 8\<rparr>"

subsection \<open>The formatting routines print canonical decimals\<close>

lemma length_dec_nat_one: "n < 10 \<Longrightarrow> length (dec_nat n) = 1"
  by (simp add: dec_nat.simps [of n])

lemma length_dec_nat_step: "10 \<le> n \<Longrightarrow> length (dec_nat n) = Suc (length (dec_nat (n div 10)))"
  by (simp add: dec_nat.simps [of n])

lemma length_dec_nat_10000: "10000 \<le> n \<Longrightarrow> length (dec_nat n) = 4 + length (dec_nat (n div 10000))"
  by (simp add: length_dec_nat_step less_eq_div_iff_mult_less_eq div_mult2_eq [symmetric])

lemma length_dec_nat_small:
  "n < 10 \<Longrightarrow> length (dec_nat n) = 1"
  "10 \<le> n \<Longrightarrow> n < 100 \<Longrightarrow> length (dec_nat n) = 2"
  "100 \<le> n \<Longrightarrow> n < 1000 \<Longrightarrow> length (dec_nat n) = 3"
  "1000 \<le> n \<Longrightarrow> n < 10000 \<Longrightarrow> length (dec_nat n) = 4"
  by (simp_all add: length_dec_nat_step length_dec_nat_one less_eq_div_iff_mult_less_eq
      div_less_iff_less_mult div_mult2_eq [symmetric])

lemma uint_digits_loop_eq: "0 < n \<Longrightarrow> uint_digits_loop v n = n - 1 + length (dec_nat (unat v))"
proof (induction v n rule: uint_digits_loop.induct)
  case (1 v n)
  show ?case
  proof (cases "v < 10000")
    case True
    then show ?thesis using "1.prems" length_dec_nat_small [of "unat v"]
      by (subst uint_digits_loop.simps) (auto simp: word_less_nat_alt)
  next
    case False
    then have "\<not> v < 10" "\<not> v < 100" "\<not> v < 1000" by (auto simp: word_less_nat_alt)
    moreover have "10000 \<le> unat v" using False by (simp add: word_less_nat_alt)
    ultimately show ?thesis using False "1.prems" "1.IH" length_dec_nat_10000 [of "unat v"]
      by (subst uint_digits_loop.simps) (simp add: unat_div)
  qed
qed

lemma uint_digits_eq [raids_simps]: "uint_digits v = length (dec_nat (unat v))"
  by (simp add: uint_digits_def uint_digits_loop_eq)

lemma ucast_digit: "unat (w :: u64) < 256 \<Longrightarrow> (ucast w :: byte) = of_nat (unat w)"
  by (simp add: word_unat_eq_iff unat_of_nat unsigned_ucast_eq take_bit_eq_mod)

lemma uint_to_str_loop_eq:
  "pos = length (dec_nat (unat v)) \<Longrightarrow> pos \<le> length buf \<Longrightarrow>
   uint_to_str_loop buf pos v = dec_nat (unat v) @ drop pos buf"
proof (induction buf pos v rule: uint_to_str_loop.induct)
  case (1 buf pos v)
  have small: "unat (v mod 10) < 256" by (simp add: unat_mod)
  show ?case
  proof (cases "v \<ge> 10")
    case True
    then have len: "pos = Suc (length (dec_nat (unat v div 10)))"
      using "1.prems" by (simp add: length_dec_nat_step word_le_nat_alt)
    have "uint_to_str_loop buf pos v =
        dec_nat (unat v div 10) @ drop (pos - 1) (buf[pos - 1 := 48 + ucast (v mod 10)])"
      using "1.IH" True len "1.prems" by (subst uint_to_str_loop.simps) (simp add: unat_div)
    also have "\<dots> = dec_nat (unat v) @ drop pos buf"
      using True len "1.prems" dec_nat.simps [of "unat v"]
      by (simp add: drop_list_update_last ucast_digit small unat_mod word_le_nat_alt del: One_nat_def)
    finally show ?thesis .
  next
    case False
    then have "unat v < 10" by (simp add: word_le_nat_alt)
    moreover from this obtain b bs where "buf = b # bs" "pos = 1"
      using "1.prems" by (cases buf) (simp_all add: length_dec_nat_one)
    ultimately show ?thesis using False
      by (subst uint_to_str_loop.simps, subst dec_nat.simps) simp
  qed
qed

lemma uint_to_str_len_eq:
  "len = length (dec_nat (unat v)) \<Longrightarrow> uint_to_str_len v (replicate len x) len = dec_nat (unat v)"
  by (simp add: uint_to_str_len_def uint_to_str_loop_eq)

lemma uint_to_str_eq [raids_simps]: "uint_to_str v = dec_nat (unat v)"
  by (simp add: uint_to_str_def uint_to_str_len_eq uint_digits_eq)

lemma unat_of_int: "0 \<le> i \<Longrightarrow> i < 2 ^ 64 \<Longrightarrow> unat (of_int i :: u64) = nat i"
  by (simp add: unat_eq_nat_uint uint_word_of_int_eq take_bit_int_eq_self)

lemma unat_negate: "int64_range v \<Longrightarrow> v < 0 \<Longrightarrow> unat (negate v) = nat (- v)"
proof (cases "v = - (2 ^ 63)")
  case True
  then show ?thesis by (simp add: negate_def)
next
  case False
  assume "int64_range v" "v < 0"
  then have "unat (of_int (- v) :: u64) = nat (- v)" by (intro unat_of_int) (auto simp: int64_range_def)
  moreover have "(of_int v :: u64) \<noteq> push_bit 63 1"
  proof
    assume "(of_int v :: u64) = push_bit 63 1"
    then have "(of_int (- v) :: u64) = push_bit 63 1" by (simp add: of_int_minus)
    with \<open>unat (of_int (- v) :: u64) = nat (- v)\<close> have "nat (- v) = 2 ^ 63" by simp
    with False \<open>v < 0\<close> show False by simp
  qed
  ultimately show ?thesis by (simp add: negate_def)
qed

lemma int_digits_eq: "int64_range v \<Longrightarrow> int_digits v = length (dec_int v)"
  by (cases "v < 0") (simp_all add: int_digits_def dec_int_def uint_digits_eq unat_negate unat_of_int
      int64_range_def)

lemma int_to_str_eq: "int64_range v \<Longrightarrow> int_to_str v = dec_int v"
  by (cases "v < 0") (simp_all add: int_to_str_def int_digits_eq dec_int_def uint_to_str_len_eq
      unat_negate unat_of_int int64_range_def)

interpretation fmt: kv_format int_str_util
  by unfold_locales (simp_all add: int_str_util_def scan_util_def uint_to_str_eq uint_digits_eq
      int_to_str_eq int_digits_eq unat_of_nat take_bit_nat_eq_self)

interpretation bits: kv_bitops int_str_util
  unfolding int_str_util_def by (rule scan.kv_bitops_axioms)

section \<open>Parsing\<close>

text \<open>The table \<open>pow10\<close> of both parsers.\<close>

definition pow10_tab :: "u64 list" where
  "pow10_tab = [1000000000, 100000000, 10000000, 1000000, 100000, 10000, 1000, 100, 10, 1]"

text \<open>
  One \<open>for (;;)\<close> loop of the parsers: at most ten digits, the weight of each read from the
  table. \<open>None\<close> is \<open>return DS_MSG_STATUS_BAD_INT\<close>.
\<close>

function digits_loop :: "byte list \<Rightarrow> nat \<Rightarrow> nat \<Rightarrow> u64 \<Rightarrow> u64 option" where
  "digits_loop str i j n =
     (if \<not> is_digit (str ! j) then None
      else let n' = n + pow10_tab ! i * ucast (str ! j - 48) in
        if 10 \<le> i + 1 then Some n' else digits_loop str (i + 1) (j + 1) n')"
  by pat_completeness auto
termination
  by (relation "measure (\<lambda>(s, i, j, n). 10 - i)") auto

declare digits_loop.simps [simp del]

text \<open>The sign applied at the end: \<open>-(int64_t) n\<close> or \<open>(int64_t) n\<close>.\<close>

definition signed_result :: "bool \<Rightarrow> u64 \<Rightarrow> int" where
  "signed_result neg n = (if neg then - sint n else sint n)"

text \<open>The digits after the sign, \<open>sz\<close> not zero: first the last ten, then the rest.\<close>

definition digits_to_int :: "bool \<Rightarrow> byte list \<Rightarrow> ds_msg_status + int" where
  "digits_to_int neg str =
     (let sz = length str;
          i = (if sz < 10 then 10 - sz else 0); j = (if sz < 10 then 0 else sz - 10) in
      case digits_loop str i j 0 of None \<Rightarrow> Inl BAD_INT
      | Some n \<Rightarrow>
        if j \<noteq> 0 then
          if 10 < j then Inl INT_OVERFLOW
          else case digits_loop str (10 - j) 0 0 of None \<Rightarrow> Inl BAD_INT
          | Some nn \<Rightarrow>
            if nn > 922337203 \<or> nn = 922337203 \<and> n > 6854775807 then
              if neg \<and> nn = 922337203 \<and> n = 6854775808 then Inr (- (2 ^ 63)) else Inl INT_OVERFLOW
            else Inr (signed_result neg (n + 10 * pow10_tab ! 0 * nn))
        else Inr (signed_result neg n))"

definition string_to_int :: "byte list \<Rightarrow> ds_msg_status + int" where
  "string_to_int s =
     (if s = [] then Inl BAD_INT else
      let neg = (hd s = MINUS); str = (if neg then tl s else s) in
      if str = [] then Inl BAD_INT else digits_to_int neg str)"

definition digits_to_uint :: "bool \<Rightarrow> byte list \<Rightarrow> ds_msg_status + u64" where
  "digits_to_uint neg str =
     (let sz = length str;
          i = (if sz < 10 then 10 - sz else 0); j = (if sz < 10 then 0 else sz - 10);
          fin = (\<lambda>n. if neg then - n else n) in
      case digits_loop str i j 0 of None \<Rightarrow> Inl BAD_INT
      | Some n \<Rightarrow>
        if j \<noteq> 0 then
          if 10 < j then Inl INT_OVERFLOW
          else case digits_loop str (10 - j) 0 0 of None \<Rightarrow> Inl BAD_INT
          | Some nn \<Rightarrow>
            if neg then
              if nn > 922337203 \<or> nn = 922337203 \<and> n > 6854775807 then
                if nn = 922337203 \<and> n = 6854775808 then Inr 0x8000000000000000
                else Inl INT_OVERFLOW
              else Inr (fin (n + 10 * pow10_tab ! 0 * nn))
            else
              if nn > 1844674407 \<or> nn = 1844674407 \<and> n > 3709551615 then Inl INT_OVERFLOW
              else Inr (fin (n + 10 * pow10_tab ! 0 * nn))
        else Inr (fin n))"

definition string_to_uint :: "byte list \<Rightarrow> ds_msg_status + u64" where
  "string_to_uint s =
     (if s = [] then Inl BAD_INT else
      let neg = (hd s = MINUS); str = (if neg then tl s else s) in
      if str = [] then Inl BAD_INT else digits_to_uint neg str)"

section \<open>The reference reading\<close>

text \<open>
  What the parsers compute, said without tables and halves: an optional minus and at most
  twenty digits, the number if it fits. The order of the two failures follows the code: the
  last ten digits are looked at before the length is.
\<close>

definition read_decimal :: "(bool \<Rightarrow> nat \<Rightarrow> ds_msg_status + 'a) \<Rightarrow> byte list \<Rightarrow> ds_msg_status + 'a" where
  "read_decimal fits s =
     (let neg = (s \<noteq> [] \<and> hd s = MINUS); ds = (if neg then tl s else s) in
      if ds = [] \<or> \<not> (\<forall>d \<in> set (drop (length ds - 10) ds). is_digit d) then Inl BAD_INT
      else if 20 < length ds then Inl INT_OVERFLOW
      else if \<not> (\<forall>d \<in> set ds. is_digit d) then Inl BAD_INT
      else fits neg (dec_val ds))"

definition fits_int64 :: "bool \<Rightarrow> nat \<Rightarrow> ds_msg_status + int" where
  "fits_int64 neg v = (let i = (if neg then - int v else int v) in
     if int64_range i then Inr i else Inl INT_OVERFLOW)"

definition fits_uint64 :: "bool \<Rightarrow> nat \<Rightarrow> ds_msg_status + u64" where
  "fits_uint64 neg v =
     (if neg then (if v \<le> 2 ^ 63 then Inr (- of_nat v) else Inl INT_OVERFLOW)
      else if v < 2 ^ 64 then Inr (of_nat v) else Inl INT_OVERFLOW)"

section \<open>The parsers read decimals\<close>

lemma pow10_tab_nth: "i < 10 \<Longrightarrow> pow10_tab ! i = of_nat (10 ^ (9 - i))"
proof -
  assume "i < 10"
  then have "i \<in> {0, 1, 2, 3, 4, 5, 6, 7, 8, 9}" by auto
  then show ?thesis by (auto simp: pow10_tab_def)
qed

lemma ucast_digit_sub: "(ucast (d - 48 :: byte) :: u64) = of_nat (digit_val d)"
  by (simp add: digit_val_def unsigned_of_nat) 

lemma digits_loop_eq:
  "i + k = 10 \<Longrightarrow> 0 < k \<Longrightarrow> j + k \<le> length str \<Longrightarrow>
   digits_loop str i j n =
     (if \<forall>d \<in> set (take k (drop j str)). is_digit d
      then Some (n + of_nat (dec_val (take k (drop j str)))) else None)"
proof (induction k arbitrary: i j n)
  case (Suc k)
  have split: "take (Suc k) (drop j str) = str ! j # take k (drop (Suc j) str)"
    using Suc.prems by (simp add: Cons_nth_drop_Suc [symmetric])
  have tab: "pow10_tab ! i = of_nat (10 ^ k)" proof -
    have "9 - i = k" "i < 10" using Suc.prems by auto
    then show ?thesis by (metis pow10_tab_nth)
  qed
  show ?case
  proof (cases "is_digit (str ! j)")
    case False
    then show ?thesis by (simp add: split digits_loop.simps [of str i])
  next
    case dig: True
    show ?thesis
    proof (cases "k = 0")
      case True
      then have "take (Suc k) (drop j str) = [str ! j]" using split by simp
      then show ?thesis using True dig Suc.prems tab
        by (subst digits_loop.simps) (simp add: ucast_digit_sub)
    next
      case False
      then have "digits_loop str i j n =
          digits_loop str (i + 1) (j + 1) (n + of_nat (10 ^ k) * of_nat (digit_val (str ! j)))"
        using dig Suc.prems tab by (subst digits_loop.simps) (simp add: ucast_digit_sub)
      then show ?thesis using dig Suc.IH [of "i + 1" "j + 1"] Suc.prems False
        by (simp add: split dec_val_Cons)
    qed
  qed
qed simp

lemma dec_val_split:
  assumes "10 < length ds" "\<forall>d \<in> set ds. is_digit d" "length ds \<le> 20"
  shows "dec_val ds = 10 ^ 10 * dec_val (take (length ds - 10) ds) + dec_val (drop (length ds - 10) ds)"
    and "dec_val (take (length ds - 10) ds) < 10 ^ 10"
    and "dec_val (drop (length ds - 10) ds) < 10 ^ 10"
proof -
  let ?k = "length ds - 10"
  show "dec_val ds = 10 ^ 10 * dec_val (take ?k ds) + dec_val (drop ?k ds)"
    using dec_val_append [of "take ?k ds" "drop ?k ds"] assms(1) by simp
  have "dec_val (take ?k ds) < 10 ^ length (take ?k ds)"
    using assms(2) by (intro dec_val_bound) (auto dest: in_set_takeD)
  also have "\<dots> \<le> 10 ^ 10" using assms(3) by (intro power_increasing) auto
  finally show "dec_val (take ?k ds) < 10 ^ 10" .
  have "dec_val (drop ?k ds) < 10 ^ length (drop ?k ds)"
    using assms(2) by (intro dec_val_bound) (auto dest: in_set_dropD)
  then show "dec_val (drop ?k ds) < 10 ^ 10" using assms(1) by simp
qed

lemma dec_val_short: "length ds \<le> 10 \<Longrightarrow> \<forall>d \<in> set ds. is_digit d \<Longrightarrow> dec_val ds < 10 ^ 10"
  using power_increasing [of "length ds" 10 "10::nat"] dec_val_bound [of ds] by linarith

lemma sint_u64: "v < 2 ^ 63 \<Longrightarrow> sint (of_nat v :: u64) = int v"
  by (simp add: signed_of_nat signed_take_bit_int_eq_self)

lemma u64_cmp:
  assumes "a < 2 ^ 64" "c < 2 ^ 64"
  shows "(of_nat a :: u64) < of_nat c \<longleftrightarrow> a < c" and "(of_nat a :: u64) = of_nat c \<longleftrightarrow> a = c"
  using assms by (auto simp: word_less_nat_alt word_unat_eq_iff u64_of_nat_inverse simp del: of_nat_eq_iff)

text \<open>The two loops of a parser, on the digits after the sign.\<close>

lemma digits_loop_last:
  "ds \<noteq> [] \<Longrightarrow> digits_loop ds (if length ds < 10 then 10 - length ds else 0)
      (if length ds < 10 then 0 else length ds - 10) 0 =
   (if \<forall>d \<in> set (drop (length ds - 10) ds). is_digit d
    then Some (of_nat (dec_val (drop (length ds - 10) ds))) else None)"
  by (subst digits_loop_eq [where k = "min 10 (length ds)"]) (auto simp: min_def)

lemma digits_loop_first:
  "10 < length ds \<Longrightarrow> length ds \<le> 20 \<Longrightarrow>
   digits_loop ds (20 - length ds) 0 0 =
   (if \<forall>d \<in> set (take (length ds - 10) ds). is_digit d
    then Some (of_nat (dec_val (take (length ds - 10) ds))) else None)"
  by (subst digits_loop_eq [where k = "length ds - 10"]) auto

lemma all_digits_split:
  "(\<forall>d \<in> set ds. is_digit d) \<longleftrightarrow>
   (\<forall>d \<in> set (take k ds). is_digit d) \<and> (\<forall>d \<in> set (drop k ds). is_digit d)"
  by (metis (no_types, lifting) Un_iff append_take_drop_id set_append)

lemma lex_less:
  assumes "n < m" "b < (m::nat)"
  shows "m * a + b < m * c + n \<longleftrightarrow> a < c \<or> c = a \<and> b < n"
proof (cases "a < c")
  case True
  then have "m * Suc a \<le> m * c" by (intro mult_le_mono2) simp
  with True assms show ?thesis by (simp add: algebra_simps)
next
  case False
  show ?thesis
  proof (cases "a = c")
    case le: False
    with False have "m * Suc c \<le> m * a" by (intro mult_le_mono2) simp
    with False le assms show ?thesis by (simp add: algebra_simps)
  qed simp
qed

lemma lex_eq: "n < m \<Longrightarrow> b < (m::nat) \<Longrightarrow> m * c + n = m * a + b \<longleftrightarrow> c = a \<and> n = b"
  by (metis add_left_cancel div_mult_self4 div_less add.right_neutral add_cancel_left_right
      add.commute div_eq_0_iff less_nat_zero_code mult.commute)

text \<open>The number the two halves stand for, and the tests on the halves as tests on it.\<close>

definition ten_ten :: "nat \<Rightarrow> nat \<Rightarrow> nat" where
  "ten_ten nn n = 10000000000 * nn + n"

lemma half_less:
  assumes "nn < 10000000000" "n < 10000000000" "a < 10000000000" "b < 10000000000"
  shows "(of_nat nn :: u64) > of_nat a \<or> (of_nat nn :: u64) = of_nat a \<and> (of_nat n :: u64) > of_nat b
    \<longleftrightarrow> ten_ten a b < ten_ten nn n"
  using assms by (simp add: ten_ten_def lex_less u64_cmp)

lemma half_eq:
  assumes "nn < 10000000000" "n < 10000000000" "a < 10000000000" "b < 10000000000"
  shows "(of_nat nn :: u64) = of_nat a \<and> (of_nat n :: u64) = of_nat b \<longleftrightarrow> ten_ten nn n = ten_ten a b"
  using assms by (simp add: ten_ten_def lex_eq u64_cmp)

lemma two_halves:
  assumes "nn < 10000000000" "n < 10000000000" 
  shows "((of_nat nn :: u64) > 922337203 \<or> (of_nat nn :: u64) = 922337203 \<and> (of_nat n :: u64) > 6854775807)
       \<longleftrightarrow> 9223372036854775807 < ten_ten nn n"
    and "((of_nat nn :: u64) = 922337203 \<and> (of_nat n :: u64) = 6854775808) \<longleftrightarrow> ten_ten nn n = 9223372036854775808"
    and "((of_nat nn :: u64) > 1844674407 \<or> (of_nat nn :: u64) = 1844674407 \<and> (of_nat n :: u64) > 3709551615)
       \<longleftrightarrow> 18446744073709551615 < ten_ten nn n"
    and "(of_nat n :: u64) + 10 * pow10_tab ! 0 * of_nat nn = of_nat (ten_ten nn n)"
  using half_less [OF assms, of 922337203 6854775807] half_eq [OF assms, of 922337203 6854775808]
    half_less [OF assms, of 1844674407 3709551615]
  by (simp_all add: ten_ten_def pow10_tab_def)

definition read_digits :: "(bool \<Rightarrow> nat \<Rightarrow> ds_msg_status + 'a) \<Rightarrow> bool \<Rightarrow> byte list \<Rightarrow> ds_msg_status + 'a" where
  "read_digits fits neg ds =
     (if \<not> (\<forall>d \<in> set (drop (length ds - 10) ds). is_digit d) then Inl BAD_INT
      else if 20 < length ds then Inl INT_OVERFLOW
      else if \<not> (\<forall>d \<in> set ds. is_digit d) then Inl BAD_INT
      else fits neg (dec_val ds))"

lemma digits_to_int_short:
  assumes "ds \<noteq> []" "length ds \<le> 10"
  shows "digits_to_int neg ds = read_digits fits_int64 neg ds"
proof (cases "\<forall>d \<in> set ds. is_digit d")
  case True
  have "dec_val ds < 10 ^ 10" by (rule dec_val_short [OF assms(2) True])
  then have "sint (of_nat (dec_val ds) :: u64) = int (dec_val ds)"
    "int64_range (int (dec_val ds))" "int64_range (- int (dec_val ds))"
    by (simp_all add: sint_u64 int64_range_def)
  then show ?thesis using digits_loop_last [OF assms(1)] assms(2) True
    by (simp add: digits_to_int_def read_digits_def fits_int64_def signed_result_def Let_def)
next
  case False
  then have "digits_loop ds (if length ds < 10 then 10 - length ds else 0)
      (if length ds < 10 then 0 else length ds - 10) 0 = None"
    using digits_loop_last [OF assms(1)] assms(2) by (simp only: diff_is_0_eq' drop_0 if_False)
  then show ?thesis using assms(2) False by (simp add: digits_to_int_def read_digits_def Let_def)
qed

lemma long_index:
  "10 < length ds \<Longrightarrow> (10 < length ds - 10) = (20 < length ds)"
  "10 < length ds \<Longrightarrow> 10 - (length ds - 10) = 20 - length ds"
  "10 < length ds \<Longrightarrow> (length ds - 10 = 0) = False"
  "10 < length ds \<Longrightarrow> (length ds < 10) = False"
  by auto

lemma long_fail:
  assumes "10 < length ds" "\<not> (length ds \<le> 20 \<and> (\<forall>d \<in> set ds. is_digit d))"
  shows "digits_loop ds 0 (length ds - 10) 0 = None
           \<and> (\<forall>d \<in> set (drop (length ds - 10) ds). is_digit d) = False
       \<or> (\<exists>n. digits_loop ds 0 (length ds - 10) 0 = Some n
           \<and> (\<forall>d \<in> set (drop (length ds - 10) ds). is_digit d) = True
           \<and> (20 < length ds) = True)
       \<or> (\<exists>n. digits_loop ds 0 (length ds - 10) 0 = Some n
           \<and> (\<forall>d \<in> set (drop (length ds - 10) ds). is_digit d) = True
           \<and> (20 < length ds) = False \<and> (\<forall>d \<in> set ds. is_digit d) = False
           \<and> digits_loop ds (20 - length ds) 0 0 = None)"
proof -
  have last: "digits_loop ds 0 (length ds - 10) 0 =
     (if \<forall>d \<in> set (drop (length ds - 10) ds). is_digit d
      then Some (of_nat (dec_val (drop (length ds - 10) ds))) else None)"
    using digits_loop_last [of ds] assms by (cases "ds = []") simp_all
  show ?thesis
  proof (cases "(\<forall>d \<in> set (drop (length ds - 10) ds). is_digit d) \<and> length ds \<le> 20")
    case True
    then have "\<not> (\<forall>d \<in> set (take (length ds - 10) ds). is_digit d)"
      using assms all_digits_split [of ds "length ds - 10"] by blast
    then show ?thesis using True assms last digits_loop_first [of ds] by (simp only: if_True if_False) auto
  next
    case False
    then show ?thesis using last by auto
  qed
qed

lemma digits_to_int_long:
  assumes "10 < length ds"
  shows "digits_to_int neg ds = read_digits fits_int64 neg ds"
proof -
  let ?k = "length ds - 10"
  let ?n = "dec_val (drop ?k ds)" and ?nn = "dec_val (take ?k ds)"
  have last: "digits_loop ds 0 ?k 0 =
     (if \<forall>d \<in> set (drop ?k ds). is_digit d then Some (of_nat ?n) else None)"
    using digits_loop_last [of ds] assms by (cases "ds = []") simp_all
  have unfold: "digits_to_int neg ds =
     (case digits_loop ds 0 ?k 0 of None \<Rightarrow> Inl BAD_INT
      | Some n \<Rightarrow> if 20 < length ds then Inl INT_OVERFLOW
        else case digits_loop ds (20 - length ds) 0 0 of None \<Rightarrow> Inl BAD_INT
          | Some nn \<Rightarrow>
            if nn > 922337203 \<or> nn = 922337203 \<and> n > 6854775807 then
              if neg \<and> nn = 922337203 \<and> n = 6854775808 then Inr (- (2 ^ 63)) else Inl INT_OVERFLOW
            else Inr (signed_result neg (n + 10 * pow10_tab ! 0 * nn)))"
    by (simp only: digits_to_int_def Let_def long_index [OF assms] if_True if_False simp_thms)
  show ?thesis
  proof (cases "length ds \<le> 20 \<and> (\<forall>d \<in> set ds. is_digit d)")
    case True
    then have len: "length ds \<le> 20" and all: "\<forall>d \<in> set ds. is_digit d" by auto
    note halves = dec_val_split [OF assms all len]
    have v: "dec_val ds = ten_ten ?nn ?n" using halves(1) by (simp add: ten_ten_def)
    have first: "digits_loop ds (20 - length ds) 0 0 = Some (of_nat ?nn)"
      using digits_loop_first [OF assms len] all by (auto dest: in_set_takeD)
    have last': "digits_loop ds 0 ?k 0 = Some (of_nat ?n)"
      using last all by (auto dest: in_set_dropD)
    have range: "\<forall>d \<in> set (drop ?k ds). is_digit d" using all by (auto dest: in_set_dropD)
    have h: "?nn < 10000000000" "?n < 10000000000" using halves(2,3) by simp_all
    have "digits_to_int neg ds =
       (if 9223372036854775807 < ten_ten ?nn ?n then
          if neg \<and> ten_ten ?nn ?n = 9223372036854775808 then Inr (- (2 ^ 63)) else Inl INT_OVERFLOW
        else Inr (signed_result neg (of_nat (ten_ten ?nn ?n))))"
      using len by (simp only: unfold first last' option.case two_halves [OF h] not_less [symmetric] if_False)
    also have "\<dots> = fits_int64 neg (ten_ten ?nn ?n)"
      by (cases "ten_ten ?nn ?n < 2 ^ 63")
        (auto simp: fits_int64_def Let_def sint_u64 signed_result_def int64_range_def)
    also have "\<dots> = read_digits fits_int64 neg ds"
      using len by (simp add: read_digits_def v all range)
    finally show ?thesis .
  next
    case False
    from long_fail [OF assms this] show ?thesis
      by (elim disjE exE conjE) (simp_all add: unfold read_digits_def)
  qed
qed

lemma uint_sign: "(if neg then - (of_nat v :: u64) else of_nat v) = of_int (if neg then - int v else int v)"
  by simp

lemma digits_to_uint_short:
  assumes "ds \<noteq> []" "length ds \<le> 10"
  shows "digits_to_uint neg ds = read_digits fits_uint64 neg ds"
proof (cases "\<forall>d \<in> set ds. is_digit d")
  case True
  have "dec_val ds < 10 ^ 10" by (rule dec_val_short [OF assms(2) True])
  then have "dec_val ds \<le> 9223372036854775808" "dec_val ds < 18446744073709551616" by simp_all
  then show ?thesis using digits_loop_last [OF assms(1)] assms(2) True
    by (simp add: digits_to_uint_def read_digits_def fits_uint64_def Let_def)
next
  case False
  then have "digits_loop ds (if length ds < 10 then 10 - length ds else 0)
      (if length ds < 10 then 0 else length ds - 10) 0 = None"
    using digits_loop_last [OF assms(1)] assms(2) by (simp only: diff_is_0_eq' drop_0 if_False)
  then show ?thesis using assms(2) False by (simp add: digits_to_uint_def read_digits_def Let_def)
qed

lemma digits_to_uint_long:
  assumes "10 < length ds"
  shows "digits_to_uint neg ds = read_digits fits_uint64 neg ds"
proof -
  let ?k = "length ds - 10"
  let ?n = "dec_val (drop ?k ds)" and ?nn = "dec_val (take ?k ds)"
  have last: "digits_loop ds 0 ?k 0 =
     (if \<forall>d \<in> set (drop ?k ds). is_digit d then Some (of_nat ?n) else None)"
    using digits_loop_last [of ds] assms by (cases "ds = []") simp_all
  have unfold: "digits_to_uint neg ds =
     (case digits_loop ds 0 ?k 0 of None \<Rightarrow> Inl BAD_INT
      | Some n \<Rightarrow> if 20 < length ds then Inl INT_OVERFLOW
        else case digits_loop ds (20 - length ds) 0 0 of None \<Rightarrow> Inl BAD_INT
          | Some nn \<Rightarrow>
            if neg then
              if nn > 922337203 \<or> nn = 922337203 \<and> n > 6854775807 then
                if nn = 922337203 \<and> n = 6854775808 then Inr 0x8000000000000000
                else Inl INT_OVERFLOW
              else Inr (if neg then - (n + 10 * pow10_tab ! 0 * nn) else n + 10 * pow10_tab ! 0 * nn)
            else
              if nn > 1844674407 \<or> nn = 1844674407 \<and> n > 3709551615 then Inl INT_OVERFLOW
              else Inr (if neg then - (n + 10 * pow10_tab ! 0 * nn) else n + 10 * pow10_tab ! 0 * nn))"
    by (simp only: digits_to_uint_def Let_def long_index [OF assms] if_True if_False simp_thms)
  show ?thesis
  proof (cases "length ds \<le> 20 \<and> (\<forall>d \<in> set ds. is_digit d)")
    case True
    then have len: "length ds \<le> 20" and all: "\<forall>d \<in> set ds. is_digit d" by auto
    note halves = dec_val_split [OF assms all len]
    have v: "dec_val ds = ten_ten ?nn ?n" using halves(1) by (simp add: ten_ten_def)
    have first: "digits_loop ds (20 - length ds) 0 0 = Some (of_nat ?nn)"
      using digits_loop_first [OF assms len] all by (auto dest: in_set_takeD)
    have range: "\<forall>d \<in> set (drop ?k ds). is_digit d" using all by (auto dest: in_set_dropD)
    then have last': "digits_loop ds 0 ?k 0 = Some (of_nat ?n)" using last by simp
    have h: "?nn < 10000000000" "?n < 10000000000" using halves(2,3) by simp_all
    have "digits_to_uint neg ds =
       (if neg then
          if 9223372036854775807 < ten_ten ?nn ?n then
            if ten_ten ?nn ?n = 9223372036854775808 then Inr 0x8000000000000000 else Inl INT_OVERFLOW
          else Inr (- of_nat (ten_ten ?nn ?n))
        else if 18446744073709551615 < ten_ten ?nn ?n then Inl INT_OVERFLOW
        else Inr (of_nat (ten_ten ?nn ?n)))"
      using len unfolding unfold first last' option.case two_halves [OF h]
      by (cases neg) (simp_all only: not_less [symmetric] if_False if_True two_halves [OF h])
    also have "\<dots> = fits_uint64 neg (ten_ten ?nn ?n)"
      by (cases "ten_ten ?nn ?n = 9223372036854775808") (auto simp: fits_uint64_def)
    also have "\<dots> = read_digits fits_uint64 neg ds"
      using len by (simp add: read_digits_def v all range)
    finally show ?thesis .
  next
    case False
    from long_fail [OF assms this] show ?thesis
      by (elim disjE exE conjE) (simp_all add: unfold read_digits_def)
  qed
qed

lemma digits_to_int_eq: "ds \<noteq> [] \<Longrightarrow> digits_to_int neg ds = read_digits fits_int64 neg ds"
  by (cases "length ds \<le> 10") (simp_all add: digits_to_int_short digits_to_int_long)

lemma digits_to_uint_eq: "ds \<noteq> [] \<Longrightarrow> digits_to_uint neg ds = read_digits fits_uint64 neg ds"
  by (cases "length ds \<le> 10") (simp_all add: digits_to_uint_short digits_to_uint_long)

lemma string_to_int_read [raids_simps]: "string_to_int s = read_decimal fits_int64 s"
  by (auto simp: string_to_int_def read_decimal_def Let_def digits_to_int_eq read_digits_def)

lemma string_to_uint_read [raids_simps]: "string_to_uint s = read_decimal fits_uint64 s"
  by (auto simp: string_to_uint_def read_decimal_def Let_def digits_to_uint_eq read_digits_def)

section \<open>Round trips\<close>

lemma dec_nat_u64: "n < 2 ^ 64 \<Longrightarrow> length (dec_nat n) \<le> 20"
  by (rule length_dec_nat_le) simp_all

lemma dec_int_digits_of: "(if i < 0 then tl (dec_int i) else dec_int i) = dec_nat (nat \<bar>i\<bar>)"
  by (simp add: dec_int_def)

lemma read_decimal_dec_int [raids_simps]:
  "int64_range i \<Longrightarrow> read_decimal fits (dec_int i) = fits (i < 0) (nat \<bar>i\<bar>)"
proof -
  assume "int64_range i"
  then have "length (dec_nat (nat \<bar>i\<bar>)) \<le> 20"
    by (intro dec_nat_u64) (auto simp: int64_range_def abs_if)
  then show ?thesis using dec_nat_hd_not_minus [of "nat i"]
    by (cases "i < 0") (auto simp: read_decimal_def dec_int_def Let_def
        intro: dec_nat_digits dest!: in_set_dropD)
qed

lemma fits_int64_dec [raids_simps]: "int64_range i \<Longrightarrow> fits_int64 (i < 0) (nat \<bar>i\<bar>) = Inr i"
  by (simp add: fits_int64_def)

lemma read_decimal_dec_nat [raids_simps]:
  "n < 2 ^ 64 \<Longrightarrow> read_decimal fits (dec_nat n) = fits False n"
  using dec_nat_u64 [of n] dec_nat_hd_not_minus [of n]
  by (auto simp: read_decimal_def Let_def intro: dec_nat_digits dest!: in_set_dropD)

lemma string_to_int_dec_int: "int64_range i \<Longrightarrow> string_to_int (dec_int i) = Inr i"
  by (simp add: string_to_int_read read_decimal_dec_int fits_int64_dec)

lemma string_to_uint_dec_nat: "n < 2 ^ 64 \<Longrightarrow> string_to_uint (dec_nat n) = Inr (of_nat n)"
  by (simp add: string_to_uint_read read_decimal_dec_nat fits_uint64_def)

section \<open>Properties\<close>

text \<open>C29: \<open>string_to_int\<close>, with its table of powers and its two halves of ten digits, is the
  reference reading of a signed decimal on every byte string: an optional minus and one to
  twenty digits give the value when it is an \<open>int64_t\<close> and \<open>INT_OVERFLOW\<close> when it is not;
  more digits overflow; anything else is \<open>BAD_INT\<close>. No intermediate sum wraps.\<close>

theorem string_to_int_eq: "string_to_int s = read_decimal fits_int64 s"
  by (rule string_to_int_read)

text \<open>\<open>string_to_uint\<close> is the reference reading of an unsigned decimal on every byte
  string; a minus sign is taken, down to the least \<open>int64_t\<close>, and gives the two's complement.\<close>

theorem string_to_uint_eq: "string_to_uint s = read_decimal fits_uint64 s"
  by (rule string_to_uint_read)

text \<open>the formatting loops of \<open>int_str.h\<close> print canonical decimals, digit counts included,
  and the parser reads each \<open>int64_t\<close> back, the least one included.\<close>

theorem int_to_str_roundtrip:
  assumes "int64_range i"
  shows "int_to_str i = dec_int i \<and> int_digits i = length (int_to_str i)
    \<and> string_to_int (int_to_str i) = Inr i"
  using assms by (simp add: int_to_str_eq int_digits_eq string_to_int_dec_int)

theorem int_to_str_roundtrip_witness:
  "int_to_str (- 9223372036854775808) = dec_int (- 9223372036854775808)
    \<and> string_to_int (int_to_str (- 9223372036854775808)) = Inr (- 9223372036854775808)"
proof -
  have "int64_range (- 9223372036854775808)" by (simp add: int64_range_def)
  from int_to_str_roundtrip [OF this] show ?thesis by blast
qed

end
