(* ===== verification/Redis_Msg.thy ===== *)
theory Redis_Msg
  imports Int_Str
begin

text \<open>
  The RESP codec, \<open>include/raids/redis_msg.h\<close> and the first half of \<open>src/redis_msg.cpp\<close>: the
  message value, \<open>pack\<close>, \<open>pack2\<close>, \<open>pack_size\<close>, \<open>unpack\<close> with its inline commands
  (\<open>split\<close>), \<open>dup\<close>, and the argument readers every command uses.

  A \<open>ds_msg_s\<close> is a tag, a length and a union. The three string tags share \<open>strval\<close>; the
  length field is kept beside the bytes, since the decoder lets any negative length stand for
  nil. The tag is an enumeration of five values, so the \<open>else\<close> branches of the packers
  that return \<open>BAD_TYPE\<close> have no counterpart. Scratch memory is a parameter: \<open>al n\<close> says
  whether \<open>ScratchMem::alloc\<close> of \<open>n\<close> bytes succeeds.
\<close>

section \<open>Messages\<close>

datatype str_type = DS_BULK_STRING | DS_SIMPLE_STRING | DS_ERROR_STRING

datatype redis_msg =
    RStr str_type int "byte list"
  | RArr int "redis_msg list"
  | RInt int

fun type_char :: "str_type \<Rightarrow> byte" where
  "type_char DS_BULK_STRING = 36"
| "type_char DS_SIMPLE_STRING = 43"
| "type_char DS_ERROR_STRING = 45"

definition crlf :: "byte list" where
  "crlf = [CR, LF]"

lemma length_crlf [simp]: "length crlf = 2"
  by (simp add: crlf_def)

definition mk_str :: "byte list \<Rightarrow> redis_msg" where
  "mk_str buf = RStr DS_BULK_STRING (int (length buf)) buf"

definition mk_int :: "int \<Rightarrow> redis_msg" where
  "mk_int i = RInt i"

definition mk_arr :: "redis_msg list \<Rightarrow> redis_msg" where
  "mk_arr ms = RArr (int (length ms)) ms"

definition set_nil :: redis_msg where
  "set_nil = RStr DS_BULK_STRING (- 1) []"

definition set_null :: redis_msg where
  "set_null = RArr (- 1) []"

definition set_mt_array :: redis_msg where
  "set_mt_array = RArr 0 []"

text \<open>\<open>(int32_t) j\<close>\<close>

definition to_int32 :: "int \<Rightarrow> int" where
  "to_int32 j = signed_take_bit 31 j"

definition int32_range :: "int \<Rightarrow> bool" where
  "int32_range i \<longleftrightarrow> - (2 ^ 31) \<le> i \<and> i < 2 ^ 31"

lemma to_int32_id [raids_simps]: "int32_range i \<Longrightarrow> to_int32 i = i"
  by (simp add: to_int32_def int32_range_def signed_take_bit_int_eq_self)

lemma to_int32_range [raids_simps]: "int32_range (to_int32 i)"
  using signed_take_bit_int_greater_eq_minus_exp [of 31 i] signed_take_bit_int_less_exp [of 31 i]
  by (simp add: to_int32_def int32_range_def)

lemma int32_int64 [raids_simps]: "int32_range i \<Longrightarrow> int64_range i"
  by (simp add: int32_range_def int64_range_def)

text \<open>The overload of \<open>str_to_int\<close> for an \<open>int32_t\<close> keeps the low 32 bits.\<close>

definition str_to_int32 :: "byte list \<Rightarrow> ds_msg_status + int" where
  "str_to_int32 s = (case string_to_int s of Inl e \<Rightarrow> Inl e | Inr j \<Rightarrow> Inr (to_int32 j))"

section \<open>Encoding\<close>

fun pack :: "kv_util \<Rightarrow> redis_msg \<Rightarrow> byte list" where
  "pack U (RStr DS_BULK_STRING len s) =
     [36] @ int64_to_string U len @ (if len \<ge> 0 then crlf @ take (nat len) s else []) @ crlf"
| "pack U (RStr t len s) = [type_char t] @ take (nat len) s @ crlf"
| "pack U (RArr len ms) =
     [42] @ int64_to_string U len @ crlf @
     (if len \<ge> 0 then concat (take (nat len) (map (pack U) ms)) else [])"
| "pack U (RInt i) = [58] @ int64_to_string U i @ crlf"

fun pack_size :: "kv_util \<Rightarrow> redis_msg \<Rightarrow> nat" where
  "pack_size U (RStr DS_BULK_STRING len s) =
     1 + int64_digits U len + (if len \<ge> 0 then 2 + nat len else 0) + 2"
| "pack_size U (RStr t len s) = 1 + nat len + 2"
| "pack_size U (RArr len ms) =
     1 + int64_digits U len + 2 +
     (if len \<ge> 0 then sum_list (take (nat len) (map (pack_size U) ms)) else 0)"
| "pack_size U (RInt i) = 1 + int64_digits U i + 2"

text \<open>
  \<open>pack2\<close> writes into a buffer of \<open>n\<close> bytes or says \<open>PARTIAL\<close>; what it writes is the
  result. \<open>pack2_elems\<close> is the loop over the elements of an array, \<open>acc\<close> the bytes written
  so far (the index \<open>i\<close> of the code is their number).
\<close>

fun pack2 :: "kv_util \<Rightarrow> redis_msg \<Rightarrow> nat \<Rightarrow> ds_msg_status + byte list"
and pack2_elems :: "kv_util \<Rightarrow> nat \<Rightarrow> redis_msg list \<Rightarrow> nat \<Rightarrow> byte list \<Rightarrow> ds_msg_status + byte list" where
  "pack2 U (RStr DS_BULK_STRING len s) n =
     (if int64_digits U len + 2 + (if len > 0 then nat len else 0) + 2 \<ge> n then Inl PARTIAL
      else Inr ([36] @ int64_to_string U len @ (if len \<ge> 0 then crlf @ take (nat len) s else []) @ crlf))"
| "pack2 U (RStr t len s) n =
     (if 1 + nat len + 2 \<ge> n then Inl PARTIAL
      else Inr ([type_char t] @ take (nat len) s @ crlf))"
| "pack2 U (RArr len ms) n =
     (if int64_digits U len + 2 + (if len > 0 then nat len else 0) + 2 \<ge> n then Inl PARTIAL
      else let hdr = [42] @ int64_to_string U len @ crlf in
        if len \<ge> 0 then pack2_elems U (nat len) ms n hdr else Inr hdr)"
| "pack2 U (RInt i) n =
     (if int64_digits U i + 2 \<ge> n then Inl PARTIAL
      else Inr ([58] @ int64_to_string U i @ crlf))"
| "pack2_elems U 0 ms n acc = Inr acc"
| "pack2_elems U (Suc k) [] n acc = Inr acc"
| "pack2_elems U (Suc k) (m # ms) n acc =
     (case pack2 U m (n - length acc) of Inl e \<Rightarrow> Inl e
      | Inr b \<Rightarrow> pack2_elems U k ms n (acc @ b))"

section \<open>Decoding\<close>

text \<open>Leading whitespace, as \<open>unpack\<close> skips it: unsigned bytes up to the space.\<close>

definition skip_space :: "byte list \<Rightarrow> nat" where
  "skip_space buf = length (takeWhile (\<lambda>b. b \<le> SP) buf)"

text \<open>
  The first line: \<open>eol\<close> is the first newline after the type character. The result is
  \<open>i\<close>, the characters between type and line end, and \<open>j\<close>, the offset after the newline.
\<close>

definition scan_line :: "byte list \<Rightarrow> (nat \<times> nat) option" where
  "scan_line ptr =
     (let eol = 1 + length (takeWhile (\<lambda>b. b \<noteq> LF) (tl ptr)) in
      if eol \<ge> length ptr then None
      else let i = eol - 1; j = i + 2 in
        Some (if ptr ! i = CR then i - 1 else i, j))"

lemma scan_line_bounds:
  "scan_line ptr = Some (i, j) \<Longrightarrow> 2 \<le> j \<and> j \<le> length ptr \<and> i + 2 \<le> j"
  by (auto simp: scan_line_def Let_def split: if_splits)

text \<open>
  \<open>split\<close>: the words of an inline command. \<open>*ptr > ' '\<close> compares a signed \<open>char\<close>. The
  argument array starts with four slots and is copied to a larger one at every fourth word.
\<close>

definition split_space :: "byte \<Rightarrow> bool" where
  "split_space b \<longleftrightarrow> sint b \<le> 32"

function split_words :: "(nat \<Rightarrow> bool) \<Rightarrow> nat \<Rightarrow> byte list \<Rightarrow> ds_msg_status + byte list list" where
  "split_words al cnt ptr =
     (if ptr = [] then Inr []
      else let tok = hd ptr # takeWhile (\<lambda>b. \<not> split_space b) (tl ptr);
               rest = dropWhile split_space (drop (length tok) ptr); cnt' = cnt + 1 in
        if rest = [] then Inr [tok]
        else if cnt' mod 4 = 0 \<and> \<not> al (16 * (cnt' + 4)) then Inl ALLOC_FAIL
        else map_sum id (\<lambda>ws. tok # ws) (split_words al cnt' rest))"
  by pat_completeness auto
termination
  by (relation "measure (\<lambda>(al, c, p). length p)")
    (auto intro: le_less_trans [OF length_dropWhile_le])

declare split_words.simps [simp del]

definition split_msg :: "(nat \<Rightarrow> bool) \<Rightarrow> byte list \<Rightarrow> ds_msg_status + redis_msg" where
  "split_msg al s =
     (if \<not> al (16 * 4) then Inl ALLOC_FAIL
      else map_sum id (\<lambda>ws. RArr (to_int32 (int (length ws))) (map mk_str ws))
        (split_words al 0 (dropWhile split_space s)))"

text \<open>After a bulk string: an optional CR, then an optional LF.\<close>

definition skip_crlf :: "byte list \<Rightarrow> nat \<Rightarrow> nat" where
  "skip_crlf ptr j =
     (let j1 = (if j < length ptr \<and> ptr ! j = CR then j + 1 else j) in
      if j1 < length ptr \<and> ptr ! j1 = LF then j1 + 1 else j1)"

text \<open>
  \<open>unpack\<close>: the message and the number of bytes it took, or the status of the failure.
  \<open>unpack_elems\<close> is the loop that decodes the elements of an array.
\<close>

function unpack :: "(nat \<Rightarrow> bool) \<Rightarrow> byte list \<Rightarrow> ds_msg_status + redis_msg \<times> nat"
and unpack_elems :: "(nat \<Rightarrow> bool) \<Rightarrow> nat \<Rightarrow> byte list \<Rightarrow> ds_msg_status + redis_msg list \<times> nat" where
  "unpack al buf =
     (let off = skip_space buf; ptr = drop off buf in
      case scan_line ptr of None \<Rightarrow> Inl PARTIAL
      | Some (i, j) \<Rightarrow>
        let ty = ptr ! 0; line = take i (tl ptr) in
        if ty = 36 then
          (case str_to_int32 line of Inl e \<Rightarrow> Inl e
           | Inr len \<Rightarrow>
             if len > 0 then
               if j + nat len > length ptr then Inl PARTIAL
               else Inr (RStr DS_BULK_STRING len (take (nat len) (drop j ptr)),
                         skip_crlf ptr (j + nat len) + off)
             else Inr (RStr DS_BULK_STRING len [],
                       (if len \<ge> 0 then skip_crlf ptr j else j) + off))
        else if ty = 42 then
          (case str_to_int32 line of Inl e \<Rightarrow> Inl e
           | Inr len \<Rightarrow>
             if len > 0 then
               if \<not> al (16 * nat len) then Inl ALLOC_FAIL
               else (case unpack_elems al (nat len) (drop j ptr) of Inl e \<Rightarrow> Inl e
                     | Inr (ms, n) \<Rightarrow> Inr (RArr len ms, j + n + off))
             else Inr (RArr len [], j + off))
        else if ty = 58 then
          (case string_to_int line of Inl e \<Rightarrow> Inl e
           | Inr ival \<Rightarrow> Inr (RInt ival, j + off))
        else if ty = 43 then Inr (RStr DS_SIMPLE_STRING (to_int32 (int i)) line, j + off)
        else if ty = 45 then Inr (RStr DS_ERROR_STRING (to_int32 (int i)) line, j + off)
        else (case split_msg al (take (i + 1) ptr) of Inl e \<Rightarrow> Inl e
              | Inr m \<Rightarrow> Inr (m, j + off)))"
| "unpack_elems al 0 buf = Inr ([], 0)"
| "unpack_elems al (Suc k) buf =
     (if buf = [] then Inl PARTIAL
      else case unpack al buf of Inl e \<Rightarrow> Inl e
        | Inr (m, n) \<Rightarrow>
          (case unpack_elems al k (drop n buf) of Inl e \<Rightarrow> Inl e
           | Inr (ms, n') \<Rightarrow> Inr (m # ms, n + n')))"
  by pat_completeness auto
termination
  by (relation "measures
       [\<lambda>x. case x of Inl (al, buf) \<Rightarrow> length buf | Inr (al, k, buf) \<Rightarrow> length buf,
        \<lambda>x. case x of Inl (al, buf) \<Rightarrow> 0 | Inr (al, k, buf) \<Rightarrow> k]")
    (auto dest: scan_line_bounds)

declare unpack.simps [simp del] unpack_elems.simps(2) [simp del]

section \<open>Copies and argument readers\<close>

text \<open>\<open>dup2\<close>: a deep copy. A null message in a string or an empty array copies no data.\<close>

fun dup :: "(nat \<Rightarrow> bool) \<Rightarrow> redis_msg \<Rightarrow> redis_msg option"
and dup_elems :: "(nat \<Rightarrow> bool) \<Rightarrow> nat \<Rightarrow> redis_msg list \<Rightarrow> redis_msg list option" where
  "dup al (RInt i) = Some (RInt i)"
| "dup al (RStr t len s) =
     (if len < 0 then Some (RStr t len [])
      else if \<not> al (nat len + 1) then None
      else Some (RStr t len (take (nat len) s)))"
| "dup al (RArr len ms) =
     (if len \<le> 0 then Some (RArr len [])
      else if \<not> al (16 * nat len) then None
      else map_option (RArr len) (dup_elems al (nat len) ms))"
| "dup_elems al 0 ms = Some []"
| "dup_elems al (Suc k) [] = Some []"
| "dup_elems al (Suc k) (m # ms) =
     (case dup al m of None \<Rightarrow> None
      | Some c \<Rightarrow> map_option ((#) c) (dup_elems al k ms))"

text \<open>\<open>get_arg( n )\<close>: an element of an array, or a message that is no array itself.\<close>

fun get_arg :: "redis_msg \<Rightarrow> nat \<Rightarrow> redis_msg option" where
  "get_arg (RArr len ms) n =
     (if len < 0 \<or> int n \<ge> len then None
      else if n < length ms then Some (ms ! n) else None)"
| "get_arg m n = Some m"

text \<open>\<open>get_arg( n, str, sz )\<close>: bulk and simple strings that are not empty.\<close>

definition get_arg_str :: "redis_msg \<Rightarrow> nat \<Rightarrow> byte list option" where
  "get_arg_str m n =
     (case get_arg m n of
        Some (RStr t len s) \<Rightarrow> if t \<noteq> DS_ERROR_STRING \<and> len > 0 then Some (take (nat len) s) else None
      | _ \<Rightarrow> None)"

text \<open>\<open>get_arg( n, i )\<close>: the same strings as a number, and integers.\<close>

definition get_arg_int :: "redis_msg \<Rightarrow> nat \<Rightarrow> int option" where
  "get_arg_int m n =
     (case get_arg m n of
        Some (RStr t len s) \<Rightarrow>
          if t \<noteq> DS_ERROR_STRING \<and> len > 0
          then (case string_to_int (take (nat len) s) of Inl e \<Rightarrow> None | Inr i \<Rightarrow> Some i) else None
      | Some (RInt i) \<Rightarrow> Some i
      | _ \<Rightarrow> None)"

definition msg_len :: "redis_msg \<Rightarrow> int" where
  "msg_len m = (case m of RStr t len s \<Rightarrow> len | RArr len ms \<Rightarrow> len | RInt i \<Rightarrow> 0)"

text \<open>\<open>kv_strncasecmp\<close> is raikv's; on arguments of equal length it compares up to ASCII case.\<close>

definition to_upper :: "byte \<Rightarrow> byte" where
  "to_upper b = (if 97 \<le> b \<and> b \<le> 122 then b - 32 else b)"

definition same_nocase :: "byte list \<Rightarrow> byte list \<Rightarrow> bool" where
  "same_nocase a b \<longleftrightarrow> map to_upper a = map to_upper b"

text \<open>The loop over the alternatives: the number of the first match, counted from \<open>k\<close>, else 0.\<close>

fun match_alts :: "byte list \<Rightarrow> nat \<Rightarrow> byte list list \<Rightarrow> nat" where
  "match_alts s k [] = 0"
| "match_alts s k (a # as) = (if length s = length a \<and> same_nocase a s then k else match_alts s (k + 1) as)"

text \<open>
  \<open>match_arg\<close> looks at \<open>len\<close> and then at \<open>array[ n ]\<close> without asking whether the message is
  an array: \<open>None\<close> is the read through the wrong member of the union.
\<close>

definition match_arg :: "redis_msg \<Rightarrow> nat \<Rightarrow> byte list list \<Rightarrow> nat option" where
  "match_arg m n alts =
     (if msg_len m \<le> 0 \<or> int n \<ge> msg_len m then Some 0
      else case m of
        RArr len ms \<Rightarrow>
          (case ms ! n of
             RStr t l s \<Rightarrow> if t = DS_ERROR_STRING then Some 0 else Some (match_alts (take (nat l) s) 1 alts)
           | _ \<Rightarrow> Some 0)
      | _ \<Rightarrow> None)"

section \<open>Well-formed messages\<close>

abbreviation enough_mem :: "nat \<Rightarrow> bool" where
  "enough_mem \<equiv> \<lambda>_. True"

fun wf_msg :: "redis_msg \<Rightarrow> bool" where
  "wf_msg (RStr DS_BULK_STRING len s) \<longleftrightarrow> int32_range len \<and> length s = nat len"
| "wf_msg (RStr t len s) \<longleftrightarrow> int32_range len \<and> len = int (length s) \<and> LF \<notin> set s"
| "wf_msg (RArr len ms) \<longleftrightarrow> int32_range len \<and> length ms = nat len \<and> (\<forall>m\<in>set ms. wf_msg m)"
| "wf_msg (RInt i) \<longleftrightarrow> int64_range i"

lemma str_type_cases_simps [simp]:
  "t \<noteq> DS_BULK_STRING \<Longrightarrow> pack U (RStr t len s) = [type_char t] @ take (nat len) s @ crlf"
  "t \<noteq> DS_BULK_STRING \<Longrightarrow> pack_size U (RStr t len s) = 3 + nat len"
  "t \<noteq> DS_BULK_STRING \<Longrightarrow> wf_msg (RStr t len s) \<longleftrightarrow> int32_range len \<and> len = int (length s) \<and> LF \<notin> set s"
  "t \<noteq> DS_BULK_STRING \<Longrightarrow> pack2 U (RStr t len s) n =
     (if 1 + nat len + 2 \<ge> n then Inl PARTIAL else Inr ([type_char t] @ take (nat len) s @ crlf))"
  by (cases t; simp)+

lemma length_pack:
  assumes "kv_format U"
  shows "wf_msg m \<Longrightarrow> length (pack U m) = pack_size U m"
proof (induction m)
  case (RStr t len s)
  then show ?case
    by (cases "t = DS_BULK_STRING") (auto simp: kv_format.length_i2s [OF assms] int32_int64)
next
  case (RArr len ms)
  then have "map (\<lambda>m. length (pack U m)) ms = map (pack_size U) ms" by auto
  with RArr.prems show ?case
    by (auto simp: kv_format.length_i2s [OF assms] int32_int64 length_concat comp_def cong: map_cong)
next
  case (RInt i)
  then show ?case by (simp add: kv_format.length_i2s [OF assms])
qed

section \<open>Decoding what was encoded\<close>

lemma scan_line_crlf: "LF \<notin> set line \<Longrightarrow> scan_line (c # line @ crlf @ rest) = Some (length line, length line + 3)"
proof -
  assume "LF \<notin> set line"
  then have "takeWhile (\<lambda>b. b \<noteq> LF) (line @ CR # LF # rest) = line @ [CR]"
    by (subst takeWhile_append2) auto
  then show ?thesis by (simp add: scan_line_def crlf_def Let_def nth_append)
qed

lemma skip_space_zero: "SP < c \<Longrightarrow> skip_space (c # bs) = 0"
  by (simp add: skip_space_def)

lemma LF_not_dec_int: "LF \<notin> set (dec_int i)"
  by (auto simp: dec_int_def dest: dec_nat_digits) (auto dest!: dec_nat_digits simp: is_digit_def)

lemma str_to_int32_dec_int: "int32_range i \<Longrightarrow> str_to_int32 (dec_int i) = Inr i"
  by (simp add: str_to_int32_def string_to_int_dec_int int32_int64 to_int32_id)

lemma skip_crlf_crlf: "length pre = j \<Longrightarrow> skip_crlf (pre @ crlf @ rest) j = j + 2"
  by (auto simp: skip_crlf_def crlf_def nth_append)

lemma skip_crlf_append: "skip_crlf (pre @ b) (length pre + k) = length pre + skip_crlf b k"
  by (simp add: skip_crlf_def Let_def nth_append)

lemma skip_crlf_line:
  "skip_crlf (c # line @ crlf @ rest) (length line + 3 + k) = length line + 3 + skip_crlf rest k"
  "skip_crlf (c # line @ crlf @ rest) (length line + 3) = length line + 3 + skip_crlf rest 0"
  using skip_crlf_append [of "c # line @ crlf" rest k] skip_crlf_append [of "c # line @ crlf" rest 0]
  by (simp_all add: numeral_3_eq_3)

lemma drop_line: "drop (length line + 3) (c # line @ crlf @ rest) = rest"
  by (simp add: crlf_def numeral_3_eq_3)

lemma unpack_bulk:
  assumes "LF \<notin> set line" "str_to_int32 line = Inr len"
  shows "unpack al (36 # line @ crlf @ rest) =
    (if len > 0 then
       if nat len > length rest then Inl PARTIAL
       else Inr (RStr DS_BULK_STRING len (take (nat len) rest),
         length line + 3 + skip_crlf rest (nat len))
     else Inr (RStr DS_BULK_STRING len [],
       length line + 3 + (if len \<ge> 0 then skip_crlf rest 0 else 0)))"
  using assms skip_crlf_line [of 36 line rest]
  by (subst unpack.simps) (simp add: skip_space_zero scan_line_crlf Let_def drop_line)

lemma unpack_array:
  assumes "LF \<notin> set line" "str_to_int32 line = Inr len"
  shows "unpack al (42 # line @ crlf @ rest) =
    (if len > 0 then
       if \<not> al (16 * nat len) then Inl ALLOC_FAIL
       else (case unpack_elems al (nat len) rest of Inl e \<Rightarrow> Inl e
             | Inr (ms, n) \<Rightarrow> Inr (RArr len ms, length line + 3 + n))
     else Inr (RArr len [], length line + 3))"
  using assms by (subst unpack.simps)
    (simp add: skip_space_zero scan_line_crlf Let_def drop_line split: sum.splits)

lemma unpack_int:
  assumes "LF \<notin> set line" "string_to_int line = Inr i"
  shows "unpack al (58 # line @ crlf @ rest) = Inr (RInt i, length line + 3)"
  using assms by (subst unpack.simps) (simp add: skip_space_zero scan_line_crlf Let_def)

lemma unpack_line:
  assumes "LF \<notin> set line" "t \<noteq> DS_BULK_STRING"
  shows "unpack al (type_char t # line @ crlf @ rest)
    = Inr (RStr t (to_int32 (int (length line))) line, length line + 3)"
  using assms by (cases t; subst unpack.simps) (simp_all add: skip_space_zero scan_line_crlf Let_def)

lemma unpack_inline:
  assumes "LF \<notin> set line" "SP < c" "c \<notin> {36, 42, 58, 43, 45}"
  shows "unpack al (c # line @ crlf @ rest)
    = (case split_msg al (c # line) of Inl e \<Rightarrow> Inl e | Inr m \<Rightarrow> Inr (m, length line + 3))"
  using assms by (subst unpack.simps)
    (simp add: skip_space_zero scan_line_crlf Let_def split: sum.splits)

lemma unpack_elems_Suc:
  "buf \<noteq> [] \<Longrightarrow> unpack al buf = Inr (m, n) \<Longrightarrow> unpack_elems al (Suc k) buf =
     (case unpack_elems al k (drop n buf) of Inl e \<Rightarrow> Inl e | Inr (ms, n') \<Rightarrow> Inr (m # ms, n + n'))"
  by (simp add: unpack_elems.simps(2))

lemma pack_nonempty: "pack U m \<noteq> []"
  by (cases "(U, m)" rule: pack.cases) simp_all

lemma unpack_elems_pack:
  assumes "\<And>m rest. m \<in> set ms \<Longrightarrow> unpack al (pack U m @ rest) = Inr (m, length (pack U m))"
  shows "unpack_elems al (length ms) (concat (map (pack U) ms) @ rest)
    = Inr (ms, length (concat (map (pack U) ms)))"
  using assms
proof (induction ms)
  case (Cons m ms)
  then show ?case
    by (simp add: unpack_elems_Suc [of _ _ m "length (pack U m)"] pack_nonempty)
qed simp

lemma unpack_pack:
  assumes "kv_format U" and al: "al = enough_mem"
  shows "wf_msg m \<Longrightarrow> unpack al (pack U m @ rest) = Inr (m, length (pack U m))"
proof (induction m arbitrary: rest)
  case (RStr t len s)
  show ?case
  proof (cases "t = DS_BULK_STRING")
    case False
    with RStr have "unpack al (type_char t # s @ crlf @ rest) = Inr (RStr t (to_int32 len) s, length s + 3)"
      by (simp add: unpack_line)
    moreover have "int32_range len" "len = int (length s)" using RStr False by auto
    ultimately show ?thesis using False by (simp add: to_int32_id)
  next
    case True
    with RStr have len: "int32_range len" "length s = nat len" by simp_all
    show ?thesis
    proof (cases "0 \<le> len")
      case True
      have "unpack al (36 # dec_int len @ crlf @ (s @ crlf @ rest)) =
        Inr (RStr DS_BULK_STRING len s, length (dec_int len) + 3 + (nat len + 2))"
        using len True skip_crlf_crlf [of s _ rest]
        by (cases "len = 0") (simp_all add: unpack_bulk LF_not_dec_int str_to_int32_dec_int)
      with True len \<open>t = _\<close> show ?thesis
        by (simp add: kv_format.i2s [OF assms(1)] int32_int64)
    next
      case False
      with len \<open>t = _\<close> show ?thesis
        by (simp add: kv_format.i2s [OF assms(1)] int32_int64 unpack_bulk LF_not_dec_int str_to_int32_dec_int)
    qed
  qed
next
  case (RArr len ms)
  then have "unpack_elems al (length ms) (concat (map (pack U) ms) @ rest)
    = Inr (ms, length (concat (map (pack U) ms)))" by (intro unpack_elems_pack) simp_all
  with RArr.prems al show ?case
    by (auto simp: kv_format.i2s [OF assms(1)] int32_int64 unpack_array LF_not_dec_int str_to_int32_dec_int)
next
  case (RInt i)
  then show ?case
    by (simp add: kv_format.i2s [OF assms(1)] unpack_int LF_not_dec_int string_to_int_dec_int)
qed


section \<open>Cut messages\<close>

lemma scan_line_none: "LF \<notin> set (tl p) \<Longrightarrow> scan_line p = None"
proof -
  assume "LF \<notin> set (tl p)"
  then have "takeWhile (\<lambda>b. b \<noteq> LF) (tl p) = tl p" by (auto simp: takeWhile_eq_all_conv)
  then show ?thesis by (cases p) (simp_all only: scan_line_def Let_def, simp_all)
qed

lemma unpack_no_line: "SP < c \<Longrightarrow> LF \<notin> set p \<Longrightarrow> unpack al (c # p) = Inl PARTIAL"
  by (subst unpack.simps) (simp add: skip_space_zero scan_line_none)

lemma unpack_Nil: "unpack al [] = Inl PARTIAL"
  by (subst unpack.simps) (simp add: skip_space_def scan_line_none)

text \<open>A cut in the first line leaves no newline, else the cut is in the body.\<close>

lemma cut_line:
  assumes "c # line @ crlf @ body = p @ q" "q \<noteq> []" "SP < c" "LF \<notin> set line"
  shows "unpack al p = Inl PARTIAL \<or> (\<exists>b. p = c # line @ crlf @ b \<and> body = b @ q)"
proof (cases "p = [] \<or> LF \<notin> set (tl p)")
  case True
  then show ?thesis using assms by (cases p) (auto simp: unpack_Nil unpack_no_line)
next
  case False
  then obtain p' where p: "p = c # p'" "LF \<in> set p'" using assms(1) by (cases p) auto
  then have "(line @ [CR]) @ LF # body = p' @ q" using assms(1) by (simp add: crlf_def)
  then obtain us where "(line @ [CR] = p' @ us \<and> us @ LF # body = q) \<or>
      ((line @ [CR]) @ us = p' \<and> LF # body = us @ q)" unfolding append_eq_append_conv2 by blast
  moreover have "line @ [CR] \<noteq> p' @ us"
  proof
    assume "line @ [CR] = p' @ us"
    then have "set p' \<subseteq> set (line @ [CR])" by (metis set_append Un_upper1)
    then show False using p(2) assms(4) by auto
  qed
  ultimately obtain us where us: "p' = line @ CR # us" "LF # body = us @ q" by auto
  then have "us \<noteq> []" using p(2) assms(4) by auto
  then show ?thesis using us p by (cases us) (auto simp: crlf_def)
qed

lemma unpack_elems_cut:
  assumes "\<And>m p q. m \<in> set ms \<Longrightarrow> pack U m = p @ q \<Longrightarrow> q \<noteq> [] \<Longrightarrow>
      unpack al p = Inl PARTIAL \<or> unpack al p = Inr (m, length p)"
    and "\<And>m rest. m \<in> set ms \<Longrightarrow> unpack al (pack U m @ rest) = Inr (m, length (pack U m))"
    and "concat (map (pack U) ms) = b @ q" "q \<noteq> []"
  shows "unpack_elems al (length ms) b = Inl PARTIAL \<or> unpack_elems al (length ms) b = Inr (ms, length b)"
  using assms
proof (induction ms arbitrary: b)
  case (Cons m ms)
  show ?case
  proof (cases "length b < length (pack U m)")
    case True
    with Cons.prems(3) obtain r where r: "pack U m = b @ r" "r \<noteq> []"
      by (auto simp: append_eq_append_conv2)
    show ?thesis using Cons.prems(1) [of m, OF _ r]
      by (cases ms; cases b) (auto simp: unpack_elems.simps(2))
  next
    case False
    with Cons.prems(3) obtain b' where b': "b = pack U m @ b'" "concat (map (pack U) ms) = b' @ q"
      by (auto simp: append_eq_append_conv2)
    have "unpack_elems al (length ms) b' = Inl PARTIAL \<or> unpack_elems al (length ms) b' = Inr (ms, length b')"
      using Cons.prems b' by (intro Cons.IH) auto
    then show ?thesis using b' Cons.prems(2)
      by (auto simp: unpack_elems_Suc [of _ _ m "length (pack U m)"] pack_nonempty)
  qed
qed simp

lemma unpack_cut:
  assumes U: "kv_format U" and al: "al = enough_mem"
  shows "wf_msg m \<Longrightarrow> pack U m = p @ q \<Longrightarrow> q \<noteq> [] \<Longrightarrow>
    unpack al p = Inl PARTIAL \<or> unpack al p = Inr (m, length p)"
proof (induction m arbitrary: p q)
  case (RStr t len s)
  show ?case
  proof (cases "t = DS_BULK_STRING \<and> 0 \<le> len")
    case False
    then have "\<exists>c line. pack U (RStr t len s) = c # line @ crlf @ [] \<and> SP < c \<and> LF \<notin> set line"
      using RStr.prems(1) LF_not_dec_int [of len]
      by (cases t) (auto simp: kv_format.i2s [OF U] int32_int64 dest: in_set_takeD)
    then show ?thesis using RStr.prems cut_line [of _ _ "[]" p q al] by auto
  next
    case True
    with RStr.prems have len: "int32_range len" "length s = nat len"
      and pq: "36 # dec_int len @ crlf @ (s @ crlf) = p @ q"
      by (auto simp: kv_format.i2s [OF U] int32_int64)
    from cut_line [OF pq RStr.prems(3), of al] obtain b where
      "unpack al p = Inl PARTIAL \<or> (p = 36 # dec_int len @ crlf @ b \<and> s @ crlf = b @ q)"
      by (auto simp: LF_not_dec_int)
    moreover have ?thesis if p: "p = 36 # dec_int len @ crlf @ b" and b: "s @ crlf = b @ q"
    proof (cases "length b < nat len")
      case c: True
      then have "0 < len" by simp
      with c show ?thesis using p len by (simp add: unpack_bulk LF_not_dec_int str_to_int32_dec_int)
    next
      case c: False
      then have "length s \<le> length b" using len by simp
      then obtain us where "b = s @ us" "[CR, LF] = us @ q"
        using b by (auto simp: append_eq_append_conv2 crlf_def)
      then have "b = s \<or> b = s @ [CR]"
        using RStr.prems(3) by (cases us; cases "tl us") auto
      then have "skip_crlf b (nat len) = length b" "take (nat len) b = s"
        using len by (auto simp: skip_crlf_def nth_append)
      then show ?thesis using p len True c
        by (cases "len = 0") (auto simp: unpack_bulk LF_not_dec_int str_to_int32_dec_int)
    qed
    ultimately show ?thesis by blast
  qed
next
  case (RArr len ms)
  then have len: "int32_range len" "length ms = nat len" "\<And>m. m \<in> set ms \<Longrightarrow> wf_msg m" by auto
  have pq: "42 # dec_int len @ crlf @ concat (map (pack U) ms) = p @ q"
    using RArr.prems by (cases "0 \<le> len") (auto simp: kv_format.i2s [OF U] int32_int64)
  from cut_line [OF pq RArr.prems(3), of al] obtain b where
    "unpack al p = Inl PARTIAL \<or> (p = 42 # dec_int len @ crlf @ b \<and> concat (map (pack U) ms) = b @ q)"
    by (auto simp: LF_not_dec_int)
  moreover have ?case if p: "p = 42 # dec_int len @ crlf @ b" and b: "concat (map (pack U) ms) = b @ q"
  proof -
    have "unpack_elems al (length ms) b = Inl PARTIAL \<or> unpack_elems al (length ms) b = Inr (ms, length b)"
      by (rule unpack_elems_cut [OF RArr.IH unpack_pack [OF U al] b RArr.prems(3)]) (simp_all add: len)
    moreover have "0 < len" using b RArr.prems(3) len(2) by (cases ms) auto
    ultimately show ?thesis using p len al
      by (auto simp: unpack_array LF_not_dec_int str_to_int32_dec_int)
  qed
  ultimately show ?case by blast
next
  case (RInt i)
  then have "58 # dec_int i @ crlf @ [] = p @ q" by (simp add: kv_format.i2s [OF U])
  from cut_line [OF this RInt.prems(3), of al] show ?case
    using RInt.prems(3) by (auto simp: LF_not_dec_int)
qed


section \<open>The bounded encoder\<close>

lemma pack_size_ge3: "3 \<le> pack_size U m"
  by (cases "(U, m)" rule: pack_size.cases) simp_all

lemma sum_pack_size_ge: "3 * length ms \<le> sum_list (map (pack_size U) ms)"
proof (induction ms)
  case (Cons m ms)
  then show ?case using pack_size_ge3 [of U m] by simp
qed simp

text \<open>What a bounded run may give for a message of \<open>bs\<close> bytes.\<close>

definition bounded_pack :: "byte list \<Rightarrow> nat \<Rightarrow> ds_msg_status + byte list \<Rightarrow> bool" where
  "bounded_pack bs n r \<longleftrightarrow>
     (r = Inl PARTIAL \<and> n < length bs + 2 \<or> r = Inr bs \<and> length bs \<le> n)"

lemma pack2_elems_bounded:
  assumes "\<And>m n. m \<in> set ms \<Longrightarrow> bounded_pack (pack U m) n (pack2 U m n)" "length acc \<le> n"
  shows "bounded_pack (acc @ concat (map (pack U) ms)) n (pack2_elems U (length ms) ms n acc)"
  using assms
proof (induction ms arbitrary: acc)
  case Nil
  then show ?case by (simp add: bounded_pack_def)
next
  case (Cons m ms)
  from Cons.prems(1) [of m "n - length acc"] Cons.prems(2)
  consider "pack2 U m (n - length acc) = Inl PARTIAL" "n < length acc + length (pack U m) + 2"
    | "pack2 U m (n - length acc) = Inr (pack U m)" "length (acc @ pack U m) \<le> n"
    by (auto simp: bounded_pack_def)
  then show ?case
  proof cases
    case 2
    then show ?thesis using Cons.IH [of "acc @ pack U m"] Cons.prems by simp
  qed (simp add: bounded_pack_def)
qed

lemma pack2_bounded:
  assumes U: "kv_format U"
  shows "wf_msg m \<Longrightarrow> bounded_pack (pack U m) n (pack2 U m n)"
proof (induction m arbitrary: n)
  case (RStr t len s)
  then show ?case
    by (cases "t = DS_BULK_STRING")
      (auto simp: bounded_pack_def kv_format.length_i2s [OF U] int32_int64)
next
  case (RArr len ms)
  then have len: "int32_range len" "length ms = nat len" "\<And>m. m \<in> set ms \<Longrightarrow> wf_msg m" by auto
  let ?hdr = "[42] @ int64_to_string U len @ crlf"
  have hdr: "length ?hdr = int64_digits U len + 3"
    by (simp add: kv_format.length_i2s [OF U] int32_int64 len)
  have p: "pack U (RArr len ms) = ?hdr @ concat (map (pack U) ms)" using len by auto
  have "map (length \<circ> pack U) ms = map (pack_size U) ms"
    using len(3) by (auto simp: length_pack [OF U])
  then have body: "3 * length ms \<le> length (concat (map (pack U) ms))"
    using sum_pack_size_ge [of ms U] by (simp only: length_concat map_map)
  show ?case
  proof (cases "int64_digits U len + 2 + (if len > 0 then nat len else 0) + 2 \<ge> n")
    case True
    then show ?thesis using body hdr len by (auto simp: bounded_pack_def p split: if_splits)
  next
    case False
    then have "bounded_pack (?hdr @ concat (map (pack U) ms)) n (pack2_elems U (length ms) ms n ?hdr)"
      using RArr.IH len hdr by (intro pack2_elems_bounded) auto
    with False len show ?thesis unfolding p by (cases "0 \<le> len") auto
  qed
next
  case (RInt i)
  then show ?case by (auto simp: bounded_pack_def kv_format.length_i2s [OF U])
qed

section \<open>What the decoder returns\<close>

lemma scan_line_line:
  "scan_line ptr = Some (i, j) \<Longrightarrow> LF \<notin> set (take i (tl ptr)) \<and> length (take i (tl ptr)) = i"
proof -
  let ?t = "takeWhile (\<lambda>b. b \<noteq> LF) (tl ptr)"
  assume s: "scan_line ptr = Some (i, j)"
  then have i: "i \<le> length ?t" by (auto simp: scan_line_def Let_def split: if_splits)
  have "take i (tl ptr) = take i (take (length ?t) (tl ptr))" using i by (simp add: min_absorb1)
  also have "take (length ?t) (tl ptr) = ?t" by (rule takeWhile_eq_take [symmetric])
  finally have "take i (tl ptr) = take i ?t" .
  moreover have "LF \<notin> set ?t" by (auto dest: set_takeWhileD)
  moreover have "length ?t \<le> length (tl ptr)" by (rule length_takeWhile_le)
  ultimately show ?thesis using i by (auto dest: in_set_takeD)
qed

lemma string_to_int_range: "string_to_int s = Inr i \<Longrightarrow> int64_range i"
  by (auto simp: string_to_int_read read_decimal_def fits_int64_def Let_def split: if_splits)

lemma str_to_int32_range: "str_to_int32 s = Inr i \<Longrightarrow> int32_range i"
  by (auto simp: str_to_int32_def to_int32_range split: sum.splits)

lemma split_words_Nil [simp]: "split_words al cnt [] = Inr []"
  by (simp add: split_words.simps)

text \<open>One turn of the loop: the first word, the rest after the separators that follow it.\<close>

lemma split_words_step:
  assumes "ptr \<noteq> []" "tok = hd ptr # takeWhile (\<lambda>b. \<not> split_space b) (tl ptr)"
    "rest = dropWhile split_space (drop (length tok) ptr)"
  shows "split_words al cnt ptr =
    (if rest = [] then Inr [tok]
     else if (cnt + 1) mod 4 = 0 \<and> \<not> al (16 * (cnt + 1 + 4)) then Inl ALLOC_FAIL
     else map_sum id ((#) tok) (split_words al (cnt + 1) rest))"
  using assms(1) by (subst split_words.simps) (simp only: assms(2,3) Let_def if_False simp_thms)

lemma split_words_bounds:
  "split_words al k ptr = Inr ws \<Longrightarrow> sum_list (map length ws) \<le> length ptr \<and> [] \<notin> set ws"
proof (induction "length ptr" arbitrary: k ptr ws rule: less_induct)
  case less
  show ?case
  proof (cases "ptr = []")
    case True
    with less show ?thesis by simp
  next
    case False
    define tok where "tok = hd ptr # takeWhile (\<lambda>b. \<not> split_space b) (tl ptr)"
    define rest where "rest = dropWhile split_space (drop (length tok) ptr)"
    have tok: "length tok \<le> length ptr" "tok \<noteq> []" "0 < length ptr"
      using False length_takeWhile_le [of "\<lambda>b. \<not> split_space b" "tl ptr"]
      by (cases ptr; simp add: tok_def)+
    have rest: "length rest \<le> length ptr - length tok"
      using length_dropWhile_le [of split_space "drop (length tok) ptr"] by (simp add: rest_def)
    have "ws = [tok] \<or> (\<exists>ws'. split_words al (k + 1) rest = Inr ws' \<and> ws = tok # ws')"
      using less(2) unfolding split_words_step [OF False tok_def rest_def]
      by (auto simp: map_sum_Inr_iff split: if_splits)
    moreover have "sum_list (map length ws') \<le> length rest \<and> [] \<notin> set ws'"
      if "split_words al (k + 1) rest = Inr ws'" for ws'
      using less(1) [OF _ that] rest tok by (simp add: tok_def)
    ultimately show ?thesis using tok rest by fastforce
  qed
qed

lemma length_le_sum_nonempty: "[] \<notin> set ws \<Longrightarrow> length ws \<le> sum_list (map length ws)"
proof (induction ws)
  case (Cons w ws)
  then show ?case by (cases w) auto
qed simp

lemma wf_mk_str: "length s < 2 ^ 31 \<Longrightarrow> wf_msg (mk_str s)"
  by (simp add: mk_str_def int32_range_def)

lemma split_msg_wf: "split_msg al s = Inr m \<Longrightarrow> length s < 2 ^ 31 \<Longrightarrow> wf_msg m"
proof -
  assume m: "split_msg al s = Inr m" and s: "length s < 2 ^ 31"
  then obtain ws where ws: "split_words al 0 (dropWhile split_space s) = Inr ws"
    and m: "m = RArr (to_int32 (int (length ws))) (map mk_str ws)"
    by (auto simp: split_msg_def map_sum_Inr_iff split: if_splits)
  have sum: "sum_list (map length ws) < 2 ^ 31" "[] \<notin> set ws"
    using split_words_bounds [OF ws] length_dropWhile_le [of split_space s] s by simp_all
  then have "int32_range (int (length ws))"
    using length_le_sum_nonempty [of ws] by (simp add: int32_range_def)
  moreover have "length w < 2 ^ 31" if "w \<in> set ws" for w
    using member_le_sum_list [of "length w" "map length ws"] that sum by simp
  ultimately show ?thesis using m by (auto simp: to_int32_id wf_mk_str)
qed

definition unpack_ok :: "byte list \<Rightarrow> redis_msg \<Rightarrow> nat \<Rightarrow> bool" where
  "unpack_ok buf m n \<longleftrightarrow> 2 \<le> n \<and> n \<le> length buf \<and> (length buf < 2 ^ 31 \<longrightarrow> wf_msg m)"

lemma skip_crlf_le: "j \<le> length p \<Longrightarrow> j \<le> skip_crlf p j \<and> skip_crlf p j \<le> length p"
  by (auto simp: skip_crlf_def Let_def)

lemma unpack_elems_bounds_and:
  "\<forall>m n. unpack al buf = Inr (m, n) \<longrightarrow> unpack_ok buf m n"
  "\<forall>ms n. unpack_elems al k buf = Inr (ms, n) \<longrightarrow>
     n \<le> length buf \<and> length ms = k \<and> (length buf < 2 ^ 31 \<longrightarrow> (\<forall>m\<in>set ms. wf_msg m))"
proof (induction al buf and al k buf rule: unpack_unpack_elems.induct)
  case (1 al buf)
  define off where "off = skip_space buf"
  define ptr where "ptr = drop off buf"
  have off: "off \<le> length buf" "length ptr = length buf - off"
    by (simp_all add: off_def ptr_def skip_space_def length_takeWhile_le)
  show ?case
  proof (intro allI impI)
    fix m n assume u: "unpack al buf = Inr (m, n)"
    then obtain i j where sl: "scan_line ptr = Some (i, j)"
      by (subst (asm) unpack.simps) (auto simp: Let_def off_def ptr_def split: option.splits)
    note b = scan_line_bounds [OF sl] scan_line_line [OF sl]
    have elems: "unpack_elems al (nat len) (drop j ptr) = Inr (ms, k) \<Longrightarrow> ptr ! 0 = 42 \<Longrightarrow>
        str_to_int32 (take i (tl ptr)) = Inr len \<Longrightarrow> 0 < len \<Longrightarrow> al (16 * nat len) \<Longrightarrow>
        k \<le> length ptr - j \<and> length ms = nat len \<and> (length buf < 2 ^ 31 \<longrightarrow> (\<forall>m\<in>set ms. wf_msg m))"
      for len ms k
      using 1 [of off ptr "(i, j)" i j "ptr ! 0" "take i (tl ptr)" len] sl off
      by (simp add: off_def [symmetric] ptr_def [symmetric])
    have i: "length buf < 2 ^ 31 \<Longrightarrow> int32_range (int i)"
    proof -
      assume "length buf < 2 ^ 31"
      then have "i < 2 ^ 31" using b(1) off by linarith
      then show ?thesis by (simp add: int32_range_def)
    qed
    have le: "nat len + j \<le> length ptr \<Longrightarrow> j \<le> skip_crlf ptr (j + nat len) \<and> skip_crlf ptr (j + nat len) \<le> length ptr"
      for len using skip_crlf_le [of "j + nat len" ptr] by simp
    consider
        (bulk) len where "str_to_int32 (take i (tl ptr)) = Inr len" "0 < len" "j + nat len \<le> length ptr"
          "m = RStr DS_BULK_STRING len (take (nat len) (drop j ptr))" "n = skip_crlf ptr (j + nat len) + off"
      | (bulk0) len where "str_to_int32 (take i (tl ptr)) = Inr len" "\<not> 0 < len"
          "m = RStr DS_BULK_STRING len []" "n = (if len \<ge> 0 then skip_crlf ptr j else j) + off"
      | (arr) len ms k where "ptr ! 0 = 42" "str_to_int32 (take i (tl ptr)) = Inr len" "0 < len"
          "al (16 * nat len)" "unpack_elems al (nat len) (drop j ptr) = Inr (ms, k)"
          "m = RArr len ms" "n = j + k + off"
      | (arr0) len where "str_to_int32 (take i (tl ptr)) = Inr len" "\<not> 0 < len" "m = RArr len []" "n = j + off"
      | (int) ival where "string_to_int (take i (tl ptr)) = Inr ival" "m = RInt ival" "n = j + off"
      | (line) t where "t \<noteq> DS_BULK_STRING" "m = RStr t (to_int32 (int i)) (take i (tl ptr))" "n = j + off"
      | (inline) "split_msg al (take (i + 1) ptr) = Inr m" "n = j + off"
    proof -
      note u' = u [unfolded unpack.simps [of al buf] Let_def, folded off_def, folded ptr_def,
          unfolded sl option.case prod.case]
      show thesis
      proof (cases "ptr ! 0 = 36 \<or> ptr ! 0 = 42")
        case True
        with u' show ?thesis
          by (auto split: if_splits sum.splits prod.splits intro: bulk bulk0 arr arr0)
      next
        case False
        with u' line [of DS_SIMPLE_STRING] line [of DS_ERROR_STRING] show ?thesis
          by (auto split: if_splits sum.splits intro: int inline)
      qed
    qed
    then show "unpack_ok buf m n"
    proof cases
      case bulk
      then show ?thesis using b off le [of len] str_to_int32_range [OF bulk(1)] by (auto simp: unpack_ok_def)
    next
      case bulk0
      then show ?thesis using b off le [of 0] str_to_int32_range [OF bulk0(1)] by (auto simp: unpack_ok_def)
    next
      case arr
      then show ?thesis using b off elems [OF arr(5,1,2,3,4)] str_to_int32_range [OF arr(2)]
        by (auto simp: unpack_ok_def)
    next
      case arr0
      then show ?thesis using b off str_to_int32_range [OF arr0(1)] by (auto simp: unpack_ok_def)
    next
      case int
      then show ?thesis using b off string_to_int_range [OF int(1)] by (auto simp: unpack_ok_def)
    next
      case line
      then show ?thesis using b off i by (auto simp: unpack_ok_def to_int32_id)
    next
      case inline
      then show ?thesis using b off split_msg_wf [OF inline(1)] by (auto simp: unpack_ok_def)
    qed
  qed
next
  case (2 al buf)
  then show ?case by simp
next
  case (3 al k buf)
  show ?case
  proof (intro allI impI)
    fix ms n assume "unpack_elems al (Suc k) buf = Inr (ms, n)"
    then obtain m n1 ms' n2 where e: "buf \<noteq> []" "unpack al buf = Inr (m, n1)"
      "unpack_elems al k (drop n1 buf) = Inr (ms', n2)" "ms = m # ms'" "n = n1 + n2"
      by (auto simp: unpack_elems.simps(2) split: if_splits sum.splits)
    from 3(1) [OF e(1)] 3(2) [OF e(1,2) refl] e
    show "n \<le> length buf \<and> length ms = Suc k \<and> (length buf < 2 ^ 31 \<longrightarrow> (\<forall>m\<in>set ms. wf_msg m))"
      by (auto simp: unpack_ok_def)
  qed
qed

section \<open>Copies\<close>

lemma dup_elems_all:
  "(\<And>m. m \<in> set ms \<Longrightarrow> dup al m = Some m) \<Longrightarrow> dup_elems al (length ms) ms = Some ms"
  by (induction ms) simp_all

lemma dup_id: "wf_msg m \<Longrightarrow> dup enough_mem m = Some m"
proof (induction m)
  case (RStr t len s)
  then show ?case by (cases "t = DS_BULK_STRING") auto
next
  case (RArr len ms)
  then have "dup_elems enough_mem (nat len) ms = Some ms"
    using dup_elems_all [of ms] by simp
  with RArr show ?case by auto
qed simp

section \<open>Inline commands\<close>

definition inline_word :: "byte list \<Rightarrow> bool" where
  "inline_word w \<longleftrightarrow> w \<noteq> [] \<and> (\<forall>b\<in>set w. \<not> split_space b)"

fun join_words :: "byte list list \<Rightarrow> byte list" where
  "join_words [] = []"
| "join_words [w] = w"
| "join_words (w # ws) = w @ SP # join_words ws"

lemma split_space_SP [simp]: "split_space SP"
  by (simp add: split_space_def)

lemma inline_word_cases: "inline_word w \<Longrightarrow> \<exists>b w'. w = b # w' \<and> \<not> split_space b \<and> (\<forall>b\<in>set w'. \<not> split_space b)"
  by (cases w) (auto simp: inline_word_def)

lemma split_words_join:
  "\<forall>w\<in>set ws. inline_word w \<Longrightarrow> split_words enough_mem cnt (join_words ws) = Inr ws"
proof (induction ws arbitrary: cnt rule: join_words.induct)
  case (2 w)
  then obtain b w' where w: "w = b # w'" "\<forall>b\<in>set w'. \<not> split_space b"
    using inline_word_cases [of w] by auto
  then have tok: "hd w # takeWhile (\<lambda>b. \<not> split_space b) (tl w) = w"
    by (simp add: takeWhile_eq_all_conv)
  have "w \<noteq> []" using w by simp
  then show ?case unfolding join_words.simps
    by (subst split_words_step [OF \<open>w \<noteq> []\<close> tok [symmetric] refl]) simp
next
  case (3 w v ws)
  then obtain b w' where w: "w = b # w'" "\<forall>b\<in>set w'. \<not> split_space b"
    using inline_word_cases [of w] by auto
  have tok: "hd (w @ SP # join_words (v # ws)) # takeWhile (\<lambda>b. \<not> split_space b) (tl (w @ SP # join_words (v # ws))) = w"
    using w by (simp add: takeWhile_append2 del: join_words.simps)
  obtain c v' where "v = c # v'" "\<not> split_space c" using 3(2) inline_word_cases [of v] by auto
  then have v: "join_words (v # ws) \<noteq> []" "dropWhile split_space (join_words (v # ws)) = join_words (v # ws)"
    by (cases ws; simp)+
  have IH: "split_words enough_mem (cnt + 1) (join_words (v # ws)) = Inr (v # ws)"
    using 3 by (simp del: join_words.simps)
  have "split_words enough_mem cnt (w @ SP # join_words (v # ws)) = Inr (w # v # ws)"
    using v IH by (subst split_words_step [OF _ tok [symmetric] refl]) (simp_all del: join_words.simps)
  then show ?case by simp
qed simp

lemma split_space_low: "\<not> split_space b \<Longrightarrow> SP < b"
  by (auto simp: split_space_def sint_byte word_less_def split: if_splits)

lemma LF_not_join: "\<forall>w\<in>set ws. inline_word w \<Longrightarrow> LF \<notin> set (join_words ws)"
  by (induction ws rule: join_words.induct) (auto simp: inline_word_def split_space_def)

lemma hd_join: "ws \<noteq> [] \<Longrightarrow> hd ws \<noteq> [] \<Longrightarrow> join_words ws = hd (hd ws) # tl (join_words ws)"
  by (cases ws rule: join_words.cases) auto

text \<open>A command line as a client sends it: an array of bulk strings, or the words in line.\<close>

definition resp_type_char :: "byte \<Rightarrow> bool" where
  "resp_type_char c \<longleftrightarrow> c \<in> {36, 42, 58, 43, 45}"

lemma unpack_inline_words:
  assumes "ws \<noteq> []" "\<forall>w\<in>set ws. inline_word w" "\<not> resp_type_char (hd (hd ws))" "int32_range (int (length ws))"
  shows "unpack enough_mem (join_words ws @ crlf @ rest)
    = Inr (mk_arr (map mk_str ws), length (join_words ws) + 2)"
proof -
  have "inline_word (hd ws)" using assms by simp
  then obtain c w where c: "hd ws = c # w" "\<not> split_space c" using inline_word_cases by blast
  then have j: "join_words ws = c # tl (join_words ws)" using hd_join [OF assms(1)] by simp
  then obtain r where r: "join_words ws = c # r" by blast
  have "split_msg enough_mem (c # r) = Inr (mk_arr (map mk_str ws))"
    using split_words_join [OF assms(2), of 0] c(2) assms(4)
    by (simp add: split_msg_def r mk_arr_def to_int32_id)
  moreover have "LF \<notin> set r" using LF_not_join [OF assms(2)] r by simp
  moreover have "c \<notin> {36, 42, 58, 43, 45}" using assms(3) c by (simp add: resp_type_char_def)
  ultimately show ?thesis
    using unpack_inline [of r c enough_mem rest] split_space_low [OF c(2)] by (simp add: r)
qed

lemma wf_command:
  "int32_range (int (length ws)) \<Longrightarrow> \<forall>w\<in>set ws. length w < 2 ^ 31 \<Longrightarrow> wf_msg (mk_arr (map mk_str ws))"
  by (auto simp: mk_arr_def wf_mk_str)

lemma get_arg_str_command:
  "get_arg_str (mk_arr (map mk_str ws)) n = (if n < length ws \<and> ws ! n \<noteq> [] then Some (ws ! n) else None)"
  by (simp add: get_arg_str_def mk_arr_def mk_str_def)

lemma skip_space_append: "\<forall>b\<in>set sp. b \<le> SP \<Longrightarrow> skip_space (sp @ buf) = length sp + skip_space buf"
  by (simp add: skip_space_def)

section \<open>Properties\<close>

text \<open>C1: the decoder inverts the encoder. For every well-formed message (lengths that match the
  data, no newline in a status line) the packed bytes, with any bytes after them, decode to
  the message and to their own number, which is the size \<open>pack_size\<close> reserved for them.\<close>

theorem unpack_pack_roundtrip:
  assumes "kv_format U" "wf_msg m"
  shows "unpack enough_mem (pack U m @ rest) = Inr (m, length (pack U m))
    \<and> length (pack U m) = pack_size U m"
  using assms unpack_pack length_pack by blast

definition sample_msg :: redis_msg where
  "sample_msg = mk_arr [mk_str (ascii ''GET''), set_nil, RStr DS_SIMPLE_STRING 2 (ascii ''OK''), mk_int (- 7), set_null]"

lemma wf_sample_msg: "wf_msg sample_msg"
  by (simp add: sample_msg_def mk_arr_def mk_str_def set_nil_def set_null_def mk_int_def
      int32_range_def int64_range_def)

theorem unpack_pack_roundtrip_witness:
  "wf_msg sample_msg \<and> length (pack int_str_util sample_msg) = pack_size int_str_util sample_msg
   \<and> unpack enough_mem (pack int_str_util sample_msg @ [36]) = Inr (sample_msg, length (pack int_str_util sample_msg))"
  using unpack_pack_roundtrip [OF fmt.kv_format_axioms wf_sample_msg] wf_sample_msg by blast

text \<open>C30: no message is made out of a part of one. A packet that ends inside an encoded message
  decodes to \<open>PARTIAL\<close>, or, where only the newline that closes the message is missing, to the
  message itself with the packet used up; what is then left of the newline is skipped in front
  of the next message.\<close>

theorem unpack_cut_message:
  assumes "kv_format U" "wf_msg m" "pack U m = p @ q" "q \<noteq> []"
  shows "unpack enough_mem p = Inl PARTIAL \<or> unpack enough_mem p = Inr (m, length p)"
  using unpack_cut [OF assms(1) refl assms(2-4)] .

theorem unpack_cut_message_witness:
  "pack int_str_util (mk_int 12) = [58, 49] @ [50, CR, LF]
    \<and> (unpack enough_mem [58, 49] = Inl PARTIAL \<or> unpack enough_mem [58, 49] = Inr (mk_int 12, 2))"
proof -
  have p: "pack int_str_util (mk_int 12) = [58, 49] @ [50, CR, LF]"
    by (simp add: mk_int_def fmt.i2s int64_range_def dec_int_def dec_nat.simps crlf_def)
  have "wf_msg (mk_int 12)" by (simp add: mk_int_def int64_range_def)
  from unpack_cut_message [OF fmt.kv_format_axioms this p] p show ?thesis
    by (simp add: numeral_2_eq_2)
qed

text \<open>C12: what the decoder returns is sound whatever the bytes and whatever allocations fail: it
  takes at least two bytes and never more than there are, and from a buffer below 2 GB the
  message is well formed, every declared length that of its data.\<close>

theorem unpack_sound:
  assumes "unpack al buf = Inr (m, n)" "length buf < 2 ^ 31"
  shows "2 \<le> n \<and> n \<le> length buf \<and> wf_msg m"
  using unpack_elems_bounds_and(1) [of al buf] assms by (simp add: unpack_ok_def)

theorem unpack_sound_witness:
  "unpack (\<lambda>n. n < 100) (ascii ''$3'' @ crlf @ ascii ''abcdef'') = Inr (mk_str (ascii ''abc''), 7) \<and> wf_msg (mk_str (ascii ''abc''))"
proof -
  have "str_to_int32 [51] = Inr 3"
    by (simp add: str_to_int32_def string_to_int_read read_decimal_def fits_int64_def Let_def
        is_digit_def digit_val_def int64_range_def to_int32_id int32_range_def)
  then have u: "unpack (\<lambda>n. n < 100) (ascii ''$3'' @ crlf @ ascii ''abcdef'') = Inr (mk_str (ascii ''abc''), 7)"
    using unpack_bulk [of "[51]" 3 "\<lambda>n. n < 100" "ascii ''abcdef''"]
    by (simp add: mk_str_def skip_crlf_def of_char_def)
  from unpack_sound [OF u] u show ?thesis by (simp add: crlf_def)
qed

text \<open>C33: \<open>pack2\<close> never writes past its buffer and never writes anything but the encoding: it gives
  the bytes of \<open>pack\<close>, which then fit, or \<open>PARTIAL\<close>, and \<open>PARTIAL\<close> only when the buffer has
  less than two bytes to spare.\<close>

theorem pack2_bounded_pack:
  assumes "kv_format U" "wf_msg m"
  shows "pack2 U m n = Inr (pack U m) \<and> pack_size U m \<le> n
    \<or> pack2 U m n = Inl PARTIAL \<and> n < pack_size U m + 2"
  using pack2_bounded [OF assms, of n] length_pack [OF assms] by (auto simp: bounded_pack_def)

theorem pack2_bounded_pack_witness:
  "pack2 int_str_util sample_msg 20 = Inr (pack int_str_util sample_msg) \<and> pack_size int_str_util sample_msg \<le> 20
    \<or> pack2 int_str_util sample_msg 20 = Inl PARTIAL \<and> 20 < pack_size int_str_util sample_msg + 2"
  by (rule pack2_bounded_pack [OF fmt.kv_format_axioms wf_sample_msg])

text \<open>C34: the two framings of a command agree. Words without spaces or control characters, sent in
  line with a space between them or as an array of bulk strings, decode to the same message,
  whose arguments are the words.\<close>

theorem command_framings_agree:
  assumes "kv_format U" "ws \<noteq> []" "\<forall>w\<in>set ws. inline_word w \<and> length w < 2 ^ 31"
    "int32_range (int (length ws))" "\<not> resp_type_char (hd (hd ws))"
  shows "map_sum id fst (unpack enough_mem (join_words ws @ crlf @ rest)) = Inr (mk_arr (map mk_str ws))
    \<and> map_sum id fst (unpack enough_mem (pack U (mk_arr (map mk_str ws)) @ rest)) = Inr (mk_arr (map mk_str ws))
    \<and> (n < length ws \<longrightarrow> get_arg_str (mk_arr (map mk_str ws)) n = Some (ws ! n))"
proof -
  have wf: "wf_msg (mk_arr (map mk_str ws))" using assms by (intro wf_command) auto
  have "ws ! n \<noteq> []" if "n < length ws" using assms(3) that by (auto simp: inline_word_def dest: nth_mem)
  then show ?thesis
    using unpack_inline_words [of ws rest] unpack_pack [OF assms(1) refl wf, of rest] assms
    by (simp add: get_arg_str_command)
qed

theorem command_framings_agree_witness:
  "map_sum id fst (unpack enough_mem (ascii ''get key'' @ crlf)) = Inr (mk_arr [mk_str (ascii ''get''), mk_str (ascii ''key'')])"
proof -
  have "\<forall>w\<in>set [ascii ''get'', ascii ''key'']. inline_word w \<and> length w < 2 ^ 31"
    by (simp add: inline_word_def split_space_def of_char_def)
  from command_framings_agree [OF fmt.kv_format_axioms _ this, of "[]" 0] show ?thesis
    by (simp add: int32_range_def resp_type_char_def of_char_def)
qed

end
