(* ===== verification/Json.thy ===== *)
theory Json
  imports Redis_Msg "HOL-Library.Monad_Syntax"
begin

text \<open>
  The JSON form of messages, the second half of \<open>src/redis_msg.cpp\<close>: \<open>to_almost_json\<close> with its size
  and escapes, and the parser \<open>unpack_json\<close> over \<open>JsonInput\<close>. The parser is a pair of nested
  recursive functions; that it ends is proved from the offset, which every value read moves on.

  A string is built in room that grows; \<open>parse_string\<close> keeps the bytes, their number and the room,
  so that what the code writes past the string into fresh memory shows. The printer writes into a buffer that
  is given to it, a zero behind each string included; the text it leaves there is \<open>json_text\<close>.
\<close>

section \<open>Printing\<close>

definition json_plain :: "byte \<Rightarrow> bool" where
  "json_plain b \<longleftrightarrow> 32 \<le> b \<and> b \<le> 126"

fun json_escape_strlen :: "byte list \<Rightarrow> nat" where
  "json_escape_strlen [] = 0"
| "json_escape_strlen (b # s) =
     (if json_plain b then (if b = 39 \<or> b = 34 then 2 else 1)
      else if b \<in> {8, 12, 10, 13, 9} then 2 else 6) + json_escape_strlen s"

text \<open>One escaped character; the digits behind \<open>\u0\<close> are the decimal digits of the byte.\<close>

definition json_escape_char :: "byte \<Rightarrow> byte list" where
  "json_escape_char b =
     (if json_plain b then (if b = 39 \<or> b = 34 then [92, b] else [b])
      else if b = 8 then [92, 98] else if b = 12 then [92, 102] else if b = 10 then [92, 110]
      else if b = 13 then [92, 114] else if b = 9 then [92, 116]
      else [92, 117, 48, 48 + (b div 100) mod 10, 48 + (b div 10) mod 10, 48 + b mod 10])"

definition json_escape_string :: "byte list \<Rightarrow> byte list" where
  "json_escape_string s = concat (map json_escape_char s)"

fun weird_quote :: "str_type \<Rightarrow> byte" where
  "weird_quote DS_SIMPLE_STRING = 39"
| "weird_quote DS_ERROR_STRING = 96"
| "weird_quote DS_BULK_STRING = 34"

text \<open>The text of a message, the reference for what the printer leaves in its buffer.\<close>

fun json_text :: "kv_util \<Rightarrow> bool \<Rightarrow> redis_msg \<Rightarrow> byte list"
and json_text_elems :: "kv_util \<Rightarrow> bool \<Rightarrow> nat \<Rightarrow> redis_msg list \<Rightarrow> byte list" where
  "json_text U weird (RStr t len s) =
     (if len \<ge> 0 then
        (if weird then [weird_quote t] @ json_escape_string (take (nat len) s) @ [weird_quote t]
         else [34] @ (if t = DS_BULK_STRING then [] else [type_char t])
              @ json_escape_string (take (nat len) s) @ [34])
      else if weird then ascii ''nil'' else ascii ''null'')"
| "json_text U weird (RInt i) = int64_to_string U i"
| "json_text U weird (RArr len ms) =
     (if len \<ge> 0 then [91] @ json_text_elems U weird (nat len) ms @ [93] else ascii ''null'')"
| "json_text_elems U weird 0 ms = []"
| "json_text_elems U weird (Suc k) [] = []"
| "json_text_elems U weird (Suc k) (m # ms) =
     json_text U weird m @ (if k = 0 then [] else 44 # json_text_elems U weird k ms)"

text \<open>Bytes written at a place of a buffer; \<open>None\<close> is a write beyond its end.\<close>

definition put_at :: "nat \<Rightarrow> byte list \<Rightarrow> byte list \<Rightarrow> byte list option" where
  "put_at off bs buf = (if off + length bs \<le> length buf then Some (take off buf @ bs @ drop (off + length bs) buf) else None)"

text \<open>\<open>to_almost_json\<close>: how many bytes the text has, and the buffer. Behind the closing quote of a string it
  writes a zero that is not counted.\<close>

fun to_almost_json :: "kv_util \<Rightarrow> bool \<Rightarrow> redis_msg \<Rightarrow> nat \<Rightarrow> byte list \<Rightarrow> (nat \<times> byte list) option"
and to_almost_json_elems :: "kv_util \<Rightarrow> bool \<Rightarrow> nat \<Rightarrow> redis_msg list \<Rightarrow> nat \<Rightarrow> byte list \<Rightarrow> (nat \<times> byte list) option" where
  "to_almost_json U weird (RStr t len s) off buf =
     (if len \<ge> 0 then
        let q = (if weird then weird_quote t else 34); mark = (if weird \<or> t = DS_BULK_STRING then [] else [type_char t]);
            body = mark @ json_escape_string (take (nat len) s) in
        map_option (Pair (length body + 2)) (put_at off ([q] @ body @ [q, 0]) buf)
      else if weird then map_option (Pair 3) (put_at off (ascii ''nil'') buf)
      else map_option (Pair 4) (put_at off (ascii ''null'') buf))"
| "to_almost_json U weird (RInt i) off buf =
     (let s = int64_to_string U i in map_option (Pair (length s)) (put_at off s buf))"
| "to_almost_json U weird (RArr len ms) off buf =
     (if len \<ge> 0 then do {
        b1 \<leftarrow> put_at off [91] buf;
        (n, b2) \<leftarrow> to_almost_json_elems U weird (nat len) ms (off + 1) b1;
        map_option (Pair (n + 2)) (put_at (off + 1 + n) [93] b2) }
      else map_option (Pair 4) (put_at off (ascii ''null'') buf))"
| "to_almost_json_elems U weird 0 ms off buf = Some (0, buf)"
| "to_almost_json_elems U weird (Suc k) [] off buf = Some (0, buf)"
| "to_almost_json_elems U weird (Suc k) (m # ms) off buf = do {
     (n, b1) \<leftarrow> to_almost_json U weird m off buf;
     if k = 0 then Some (n, b1)
     else do {
       b2 \<leftarrow> put_at (off + n) [44] b1;
       map_option (\<lambda>(j, b). (n + 1 + j, b)) (to_almost_json_elems U weird k ms (off + n + 1) b2) } }"

text \<open>With room for the text and one byte more it leaves the text at its place, and nothing in front changes.\<close>

definition leaves :: "byte list \<Rightarrow> nat \<Rightarrow> byte list \<Rightarrow> (nat \<times> byte list) option \<Rightarrow> bool" where
  "leaves s off buf r \<longleftrightarrow> (\<exists>b. r = Some (length s, b) \<and> length b = length buf \<and> take (off + length s) b = take off buf @ s)"

lemma put_at_leaves: "off + length s + length z \<le> length buf \<Longrightarrow> leaves s off buf (map_option (Pair (length s)) (put_at off (s @ z) buf))"
  by (simp add: leaves_def put_at_def)

lemma leaves_append:
  assumes "leaves s off buf (Some (length s, b))" "leaves t (off + length s) b (Some (length t, c))"
  shows "leaves (s @ t) off buf (Some (length (s @ t), c))"
  using assms by (auto simp: leaves_def add.assoc)

lemma to_almost_json_leaves:
  "off + length (json_text U w m) < length buf \<Longrightarrow> leaves (json_text U w m) off buf (to_almost_json U w m off buf)"
  "off + length (json_text_elems U w k ms) < length buf \<Longrightarrow>
    leaves (json_text_elems U w k ms) off buf (to_almost_json_elems U w k ms off buf)"
proof (induction U w m and U w k ms arbitrary: off buf and off buf rule: json_text_json_text_elems.induct)
  case (1 U w t len s)
  let ?z = "[0] :: byte list"
  show ?case
  proof (cases "len \<ge> 0")
    case True
    define x where "x = json_text U w (RStr t len s)"
    have e: "to_almost_json U w (RStr t len s) off buf = map_option (Pair (length x)) (put_at off (x @ ?z) buf)"
      using True by (simp add: x_def Let_def)
    have "off + length x < length buf" using 1 by (simp only: x_def)
    then show ?thesis unfolding x_def [symmetric] e using put_at_leaves [of off x ?z buf] by simp
  next
    case False
    then show ?thesis using put_at_leaves [of off "ascii (if w then ''nil'' else ''null'')" "[]" buf] 1 by (auto simp: ascii_def eval_nat_numeral)
  qed
next
  case (2 U w i)
  then show ?case using put_at_leaves [of off "int64_to_string U i" "[]" buf] by (simp add: Let_def)
next
  case (3 U w len ms)
  show ?case
  proof (cases "len \<ge> 0")
    case True
    let ?e = "json_text_elems U w (nat len) ms"
    obtain b1 where b1: "put_at off [91] buf = Some b1" "leaves [91] off buf (Some (1, b1))" "length b1 = length buf"
      using 3(2) True by (auto simp: put_at_def leaves_def)
    have "leaves ?e (off + 1) b1 (to_almost_json_elems U w (nat len) ms (off + 1) b1)"
      using 3 True b1(3) by simp
    then obtain b2 where b2: "to_almost_json_elems U w (nat len) ms (off + 1) b1 = Some (length ?e, b2)"
      "leaves ?e (off + 1) b1 (Some (length ?e, b2))" "length b2 = length buf" using b1(3) by (auto simp: leaves_def)
    obtain b3 where b3: "put_at (off + 1 + length ?e) [93] b2 = Some b3" "leaves [93] (off + 1 + length ?e) b2 (Some (1, b3))"
      using 3(2) True b2(3) by (auto simp: put_at_def leaves_def)
    have "leaves (([91] @ ?e) @ [93]) off buf (Some (length (([91] @ ?e) @ [93]), b3))"
      by (rule leaves_append [OF leaves_append]) (use b1 b2 b3 in \<open>simp_all add: add.assoc\<close>)
    then show ?thesis using True b1(1) b2(1) b3(1) by (simp add: add.assoc)
  next
    case False
    then show ?thesis using put_at_leaves [of off "ascii ''null''" "[]" buf] 3 by (simp add: ascii_def eval_nat_numeral)
  qed
next
  case (6 U w k m ms)
  let ?m = "json_text U w m" and ?e = "json_text_elems U w k ms"
  have "leaves ?m off buf (to_almost_json U w m off buf)" using 6 by (auto split: if_splits)
  then obtain b1 where b1: "to_almost_json U w m off buf = Some (length ?m, b1)" "leaves ?m off buf (Some (length ?m, b1))"
    "length b1 = length buf" by (auto simp: leaves_def)
  show ?case
  proof (cases "k = 0")
    case True
    then show ?thesis using b1 by simp
  next
    case False
    obtain b2 where b2: "put_at (off + length ?m) [44] b1 = Some b2" "leaves [44] (off + length ?m) b1 (Some (1, b2))" "length b2 = length buf"
      using 6(3) False b1(3) by (auto simp: put_at_def leaves_def)
    have "leaves ?e (off + length ?m + 1) b2 (to_almost_json_elems U w k ms (off + length ?m + 1) b2)"
      using 6 False b2(3) by simp
    then obtain b3 where b3: "to_almost_json_elems U w k ms (off + length ?m + 1) b2 = Some (length ?e, b3)"
      "leaves ?e (off + length ?m + 1) b2 (Some (length ?e, b3))" by (auto simp: leaves_def)
    have "leaves ((?m @ [44]) @ ?e) off buf (Some (length ((?m @ [44]) @ ?e), b3))"
      by (rule leaves_append [OF leaves_append]) (use b1 b2 b3 in \<open>simp_all add: add.assoc\<close>)
    then show ?thesis using False b1(1) b2(1) b3(1) by (simp add: add.assoc)
  qed
qed (simp_all add: leaves_def)

text \<open>A buffer of just the size that \<open>to_almost_json_size\<close> says is too small for a string: the zero lies behind it.\<close>

lemma string_needs_more:
  "0 \<le> len \<Longrightarrow> length buf = length (json_text U w (RStr t len s)) \<Longrightarrow> to_almost_json U w (RStr t len s) 0 buf = None"
  by (auto simp: put_at_def Let_def)

text \<open>The size comes out as 0 for a whole array when it is 0 for an element.\<close>

fun to_almost_json_size :: "kv_util \<Rightarrow> bool \<Rightarrow> redis_msg \<Rightarrow> nat"
and to_almost_json_size_elems :: "kv_util \<Rightarrow> bool \<Rightarrow> nat \<Rightarrow> nat \<Rightarrow> redis_msg list \<Rightarrow> nat" where
  "to_almost_json_size U weird (RStr t len s) =
     (if len \<ge> 0 then
        (if weird then 0 else if t = DS_BULK_STRING then 0 else 1)
        + json_escape_strlen (take (nat len) s) + 2
      else if weird then 3 else 4)"
| "to_almost_json_size U weird (RInt i) = int64_digits U i"
| "to_almost_json_size U weird (RArr len ms) =
     (if len \<ge> 0 then to_almost_json_size_elems U weird 1 (nat len) ms else 4)"
| "to_almost_json_size_elems U weird elen 0 ms = elen + 1"
| "to_almost_json_size_elems U weird elen (Suc k) [] = elen + 1"
| "to_almost_json_size_elems U weird elen (Suc k) (m # ms) =
     (let sz = to_almost_json_size U weird m in
      if sz = 0 then 0
      else to_almost_json_size_elems U weird (elen + sz + (if k = 0 then 0 else 1)) k ms)"

section \<open>The input\<close>

text \<open>\<open>JsonInput\<close>: the text, the read offset and the line bookkeeping. A character is a byte
  or \<open>JSON_EOF\<close>.\<close>

record json_input =
  json :: "byte list"
  offset :: nat
  line_start :: nat
  line_count :: nat

definition JSON_EOF :: nat where
  "JSON_EOF = 256"

definition init_input :: "byte list \<Rightarrow> json_input" where
  "init_input js = \<lparr>json = js, offset = 0, line_start = 0, line_count = 0\<rparr>"

definition cur :: "json_input \<Rightarrow> nat" where
  "cur inp = (if offset inp < length (json inp) then unat (json inp ! offset inp) else JSON_EOF)"

definition next_char :: "json_input \<Rightarrow> nat \<times> json_input" where
  "next_char inp =
     (if offset inp < length (json inp)
      then (unat (json inp ! offset inp), inp\<lparr>offset := offset inp + 1\<rparr>) else (JSON_EOF, inp))"

definition forward :: "json_input \<Rightarrow> json_input" where
  "forward inp = inp\<lparr>offset := offset inp + 1\<rparr>"

definition consume :: "nat \<Rightarrow> json_input \<Rightarrow> json_input" where
  "consume n inp = inp\<lparr>offset := offset inp + n\<rparr>"

definition json_isspace :: "nat \<Rightarrow> bool" where
  "json_isspace c \<longleftrightarrow> 9 \<le> c \<and> c \<le> 13 \<or> c = 32"

definition json_isdigit :: "nat \<Rightarrow> bool" where
  "json_isdigit c \<longleftrightarrow> 48 \<le> c \<and> c \<le> 57"

lemma cur_in: "cur inp \<noteq> 256 \<Longrightarrow> offset inp < length (json inp)"
  by (simp add: cur_def JSON_EOF_def split: if_splits)

lemma json_isspace_in: "json_isspace (cur inp) \<Longrightarrow> offset inp < length (json inp)"
  by (rule cur_in) (auto simp: json_isspace_def)

lemma json_isdigit_in: "json_isdigit (cur inp) \<Longrightarrow> offset inp < length (json inp)"
  by (rule cur_in) (auto simp: json_isdigit_def)

function eat_white :: "json_input \<Rightarrow> json_input" where
  "eat_white inp =
     (if json_isspace (cur inp) then
        eat_white (forward (if cur inp = 10
          then inp\<lparr>line_count := line_count inp + 1, line_start := offset inp + 1\<rparr> else inp))
      else inp)"
  by pat_completeness auto
termination
  by (relation "measure (\<lambda>inp. length (json inp) - offset inp)")
    (auto simp: forward_def dest: json_isspace_in)

declare eat_white.simps [simp del]

definition json_match :: "json_input \<Rightarrow> byte \<Rightarrow> byte \<Rightarrow> byte \<Rightarrow> byte \<Rightarrow> byte \<Rightarrow> bool" where
  "json_match inp c1 c2 c3 c4 c5 =
     (let o1 = offset inp; n = length (json inp); js = json inp in
      if o1 + 3 > n \<or> c1 \<noteq> js ! o1 \<or> c2 \<noteq> js ! (o1 + 1) \<or> c3 \<noteq> js ! (o1 + 2) then False
      else if c4 = 0 then True
      else if o1 + 4 > n \<or> c4 \<noteq> js ! (o1 + 3) then False
      else c5 = 0 \<or> (o1 + 5 \<le> n \<and> c5 = js ! (o1 + 4)))"

section \<open>Numbers and strings\<close>

function number_loop :: "u64 \<Rightarrow> json_input \<Rightarrow> u64 \<times> json_input" where
  "number_loop integral inp =
     (if json_isdigit (cur inp) then number_loop (integral * 10 + of_nat (cur inp - 48)) (forward inp)
      else (integral, inp))"
  by pat_completeness auto
termination
  by (relation "measure (\<lambda>(n, inp). length (json inp) - offset inp)")
    (auto simp: forward_def dest: json_isdigit_in)

declare number_loop.simps [simp del]

definition parse_number :: "json_input \<Rightarrow> redis_msg \<times> json_input" where
  "parse_number inp =
     (let isneg = (cur inp = 45);
          (integral, inp') = number_loop 0 (if isneg then forward inp else inp) in
      (RInt (if isneg then sint (- integral) else sint integral), inp'))"

definition hex_value :: "nat \<Rightarrow> nat" where
  "hex_value c =
     (if 48 \<le> c \<and> c \<le> 57 then c - 48
      else if 97 \<le> c \<and> c \<le> 102 then c - 97 + 10
      else if 65 \<le> c \<and> c \<le> 70 then c - 65 + 10
      else 0xff)"

text \<open>
  \<open>parse_string\<close>: \<open>acc\<close> is the string so far and \<open>sz\<close> the room for it. Where a two or three
  byte character does not fit, the code goes on at the start of the new room and so takes the
  bytes left in the old room into the string: \<open>junk\<close> stands for the contents of fresh memory.
\<close>

definition grow_string :: "byte \<Rightarrow> nat \<Rightarrow> byte list \<Rightarrow> byte list \<times> nat" where
  "grow_string junk sz acc = (acc @ replicate (sz - length acc) junk, sz + 16)"

definition utf8_char :: "nat \<Rightarrow> byte list" where
  "utf8_char u =
     (if u \<le> 0x7f then [of_nat u]
      else if u \<le> 0x7ff then [of_nat (0xc0 OR (u div 64)), of_nat (0x80 OR (u mod 64))]
      else [of_nat (0xe0 OR (u div 4096)), of_nat (0x80 OR ((u div 64) mod 64)), of_nat (0x80 OR (u mod 64))])"

definition hex4 :: "json_input \<Rightarrow> (nat \<times> json_input) option" where
  "hex4 inp =
     (let (c1, i1) = next_char inp in if hex_value c1 = 0xff then None else
      let (c2, i2) = next_char i1 in if hex_value c2 = 0xff then None else
      let (c3, i3) = next_char i2 in if hex_value c3 = 0xff then None else
      let (c4, i4) = next_char i3 in if hex_value c4 = 0xff then None else
      Some (hex_value c1 * 4096 + hex_value c2 * 256 + hex_value c3 * 16 + hex_value c4, i4))"

definition hex2 :: "json_input \<Rightarrow> (nat \<times> json_input) option" where
  "hex2 inp =
     (let (c1, i1) = next_char inp in if hex_value c1 = 0xff then None else
      let (c2, i2) = next_char i1 in if hex_value c2 = 0xff then None else
      Some (hex_value c1 * 256 + hex_value c2, i2))"

lemma next_char_offset:
  "next_char inp = (c, inp') \<Longrightarrow> json inp' = json inp \<and> offset inp \<le> offset inp'
     \<and> (c \<noteq> JSON_EOF \<longrightarrow> offset inp < offset inp' \<and> offset inp' \<le> length (json inp))"
  by (auto simp: next_char_def split: if_splits)

lemma hex4_offset: "hex4 inp = Some (u, inp') \<Longrightarrow> json inp' = json inp \<and> offset inp \<le> offset inp'"
  by (auto simp: hex4_def Let_def split: prod.splits if_splits dest!: next_char_offset)

lemma hex2_offset: "hex2 inp = Some (u, inp') \<Longrightarrow> json inp' = json inp \<and> offset inp \<le> offset inp'"
  by (auto simp: hex2_def Let_def split: prod.splits if_splits dest!: next_char_offset)

text \<open>One turn of the loop of \<open>parse_string\<close>: whether the closing quote was read, the string,
  the room and the input.\<close>

definition string_step :: "(nat \<Rightarrow> bool) \<Rightarrow> byte \<Rightarrow> nat \<Rightarrow> nat \<Rightarrow> byte list \<Rightarrow> json_input
    \<Rightarrow> ds_msg_status + bool \<times> byte list \<times> nat \<times> json_input" where
  "string_step al junk quote sz acc inp =
     (case next_char inp of (c, inp1) \<Rightarrow>
      if c = JSON_EOF then Inl PARTIAL
      else if length acc = sz \<and> \<not> al (sz + 16) then Inl ALLOC_FAIL
      else let sz1 = (if length acc = sz then sz + 16 else sz) in
        if c = quote then Inr (True, acc, sz1, inp1)
        else if c \<noteq> 92 then Inr (False, acc @ [of_nat c], sz1, inp1)
        else case next_char inp1 of (b, inp2) \<Rightarrow>
          if b = JSON_EOF then Inl PARTIAL
          else if b = 98 then Inr (False, acc @ [8], sz1, inp2)
          else if b = 102 then Inr (False, acc @ [12], sz1, inp2)
          else if b = 110 then Inr (False, acc @ [10], sz1, inp2)
          else if b = 114 then Inr (False, acc @ [13], sz1, inp2)
          else if b = 116 then Inr (False, acc @ [9], sz1, inp2)
          else if b = 120 then
            (case hex2 inp2 of None \<Rightarrow> Inl BAD_JSON
             | Some (u, inp3) \<Rightarrow> Inr (False, acc @ [of_nat u], sz1, inp3))
          else if b = 117 then
            (case hex4 inp2 of None \<Rightarrow> Inl BAD_JSON
             | Some (u, inp3) \<Rightarrow>
               if u \<le> 0x7f then Inr (False, acc @ utf8_char u, sz1, inp3)
               else if (if u \<le> 0x7ff then length acc + 1 = sz1 else length acc + 2 \<ge> sz1) then
                 (if \<not> al (sz1 + 16) then Inl ALLOC_FAIL
                  else case grow_string junk sz1 acc of (acc', sz2) \<Rightarrow>
                    Inr (False, acc' @ utf8_char u, sz2, inp3))
               else Inr (False, acc @ utf8_char u, sz1, inp3))
          else Inr (False, acc @ [of_nat b], sz1, inp2))"

lemma string_step_offset:
  assumes "string_step al junk q sz acc inp = Inr (fin, acc', sz', inp')"
  shows "json inp' = json inp \<and> offset inp < offset inp' \<and> offset inp < length (json inp)"
proof -
  obtain c inp1 where c: "next_char inp = (c, inp1)" by force
  obtain b inp2 where b: "next_char inp1 = (b, inp2)" by force
  from assms next_char_offset [OF c] next_char_offset [OF b] show ?thesis
    by (auto simp: string_step_def c b Let_def split: if_splits option.splits prod.splits
        dest!: hex2_offset hex4_offset)
qed

text \<open>The string never outgrows its room, and the closing zero has its place.\<close>

lemma string_step_room:
  assumes "string_step al junk q sz acc inp = Inr (fin, acc', sz', inp')" "length acc \<le> sz"
  shows "length acc' \<le> sz' \<and> (fin \<longrightarrow> length acc' < sz')"
  using assms
  by (auto simp: string_step_def Let_def utf8_char_def grow_string_def Suc_le_eq
      split: if_splits option.splits prod.splits dest: le_neq_implies_less)

function string_loop :: "(nat \<Rightarrow> bool) \<Rightarrow> byte \<Rightarrow> nat \<Rightarrow> nat \<Rightarrow> byte list \<Rightarrow> json_input
    \<Rightarrow> ds_msg_status + byte list \<times> nat \<times> json_input" where
  "string_loop al junk quote sz acc inp =
     (case string_step al junk quote sz acc inp of Inl e \<Rightarrow> Inl e
      | Inr (True, acc', sz', inp') \<Rightarrow> Inr (acc', sz', inp')
      | Inr (False, acc', sz', inp') \<Rightarrow> string_loop al junk quote sz' acc' inp')"
  by pat_completeness auto
termination
  by (relation "measure (\<lambda>(al, junk, q, sz, acc, inp). length (json inp) - offset inp)")
    (auto dest!: string_step_offset)

declare string_loop.simps [simp del]

lemma string_loop_result:
  "string_loop al junk q sz acc inp = Inr (s, sz', inp') \<Longrightarrow>
    json inp' = json inp \<and> offset inp < offset inp' \<and> (length acc \<le> sz \<longrightarrow> length s < sz')"
proof (induction al junk q sz acc inp rule: string_loop.induct)
  case (1 al junk q sz acc inp)
  from 1(2) obtain fin acc1 sz1 inp1 where step: "string_step al junk q sz acc inp = Inr (fin, acc1, sz1, inp1)"
    by (subst (asm) string_loop.simps) (auto split: sum.splits)
  note off = string_step_offset [OF step] and room = string_step_room [OF step]
  show ?case
  proof (cases fin)
    case True
    with 1(2) step off room show ?thesis by (subst (asm) string_loop.simps) auto
  next
    case False
    then have "string_loop al junk q sz1 acc1 inp1 = Inr (s, sz', inp')"
      using 1(2) step by (subst (asm) string_loop.simps) simp
    from 1(1) [OF step refl _ refl refl this] False off room show ?thesis by auto
  qed
qed

definition parse_string :: "(nat \<Rightarrow> bool) \<Rightarrow> byte \<Rightarrow> json_input \<Rightarrow> ds_msg_status + redis_msg \<times> json_input" where
  "parse_string al junk inp =
     (if \<not> al 8 then Inl ALLOC_FAIL
      else case next_char inp of (quote, inp1) \<Rightarrow>
        (case string_loop al junk quote 8 [] inp1 of Inl e \<Rightarrow> Inl e
         | Inr (s, sz, inp2) \<Rightarrow>
             Inr (RStr (if quote = 34 then DS_BULK_STRING else if quote = 39 then DS_SIMPLE_STRING
                        else DS_ERROR_STRING) (to_int32 (int (length s))) s, inp2)))"

section \<open>Arrays\<close>

text \<open>The values parsed so far, in chunks that grow by half: \<open>sz\<close> is the size of the last
  chunk, \<open>tos\<close> its number and \<open>ix\<close> the values in it.\<close>

record json_stack =
  st_sz :: nat
  st_tos :: nat
  st_ix :: nat
  st_vals :: "redis_msg list"

definition empty_stack :: json_stack where
  "empty_stack = \<lparr>st_sz = 0, st_tos = 0, st_ix = 0, st_vals = []\<rparr>"

definition push_value :: "(nat \<Rightarrow> bool) \<Rightarrow> json_stack \<Rightarrow> redis_msg \<Rightarrow> ds_msg_status + json_stack" where
  "push_value al st v =
     (if st_tos st = 0 \<or> st_ix st = st_sz st then
        let newsz = (st_sz st + 2) * 3 div 2; tos = st_tos st + 1 in
        if tos = 40 then Inl BAD_JSON
        else if \<not> al (16 * newsz) then Inl ALLOC_FAIL
        else Inr \<lparr>st_sz = newsz, st_tos = tos, st_ix = 1, st_vals = st_vals st @ [v]\<rparr>
      else Inr (st\<lparr>st_ix := st_ix st + 1, st_vals := st_vals st @ [v]\<rparr>))"

definition finish_array :: "(nat \<Rightarrow> bool) \<Rightarrow> json_stack \<Rightarrow> ds_msg_status + redis_msg" where
  "finish_array al st =
     (if st_tos st = 0 then Inr (RArr 0 [])
      else if st_tos st = 1 then Inr (RArr (to_int32 (int (st_ix st))) (st_vals st))
      else if \<not> al (16 * length (st_vals st)) then Inl ALLOC_FAIL
      else Inr (RArr (to_int32 (int (length (st_vals st)))) (st_vals st)))"

text \<open>\<open>parse_array\<close> is the first equation of the bracket case; \<open>parse_elems\<close> its loop, at a
  character that is not white.\<close>

function parse_json :: "(nat \<Rightarrow> bool) \<Rightarrow> byte \<Rightarrow> json_input \<Rightarrow> ds_msg_status + redis_msg \<times> json_input"
and parse_elems :: "(nat \<Rightarrow> bool) \<Rightarrow> byte \<Rightarrow> json_stack \<Rightarrow> json_input \<Rightarrow> ds_msg_status + json_stack \<times> json_input" where
  "parse_json al junk inp0 =
     (let inp = eat_white inp0; c = cur inp in
      if c = 91 then
        (case parse_elems al junk empty_stack (eat_white (snd (next_char inp))) of Inl e \<Rightarrow> Inl e
         | Inr (st, inp1) \<Rightarrow>
           if cur inp1 \<noteq> 93 then Inl (if cur inp1 = JSON_EOF then PARTIAL else BAD_JSON)
           else (case finish_array al st of Inl e \<Rightarrow> Inl e
                 | Inr m \<Rightarrow> Inr (m, snd (next_char inp1))))
      else if c = 39 \<or> c = 96 \<or> c = 34 then parse_string al junk inp
      else if json_isdigit c \<or> c = 45 then Inr (parse_number inp)
      else if c = JSON_EOF then Inl PARTIAL
      else if c = 116 \<and> json_match inp 116 114 117 101 0 then Inr (RInt 1, consume 4 inp)
      else if c = 102 \<and> json_match inp 102 97 108 115 101 then Inr (RInt 0, consume 5 inp)
      else if c = 110 \<and> json_match inp 110 117 108 108 0 then Inr (RArr (- 1) [], consume 4 inp)
      else if c = 110 \<and> json_match inp 110 105 108 0 0 then Inr (RStr DS_BULK_STRING (- 1) [], consume 3 inp)
      else Inl BAD_JSON)"
| "parse_elems al junk st inp =
     (if cur inp = 93 then Inr (st, inp)
      else case parse_json al junk inp of Inl e \<Rightarrow> Inl e
        | Inr (v, inp1) \<Rightarrow>
          (case push_value al st v of Inl e \<Rightarrow> Inl e
           | Inr st' \<Rightarrow>
             let inp2 = eat_white inp1 in
             if cur inp2 \<noteq> 44 then Inr (st', inp2)
             else parse_elems al junk st' (eat_white (snd (next_char inp2)))))"
  by pat_completeness auto

lemma eat_white_offset: "json (eat_white inp) = json inp \<and> offset inp \<le> offset (eat_white inp)"
proof (induction inp rule: eat_white.induct)
  case (1 inp)
  show ?case
    by (subst (1 2) eat_white.simps) (use 1 in \<open>auto simp: forward_def split: if_splits\<close>)
qed

lemma number_loop_offset:
  "number_loop n inp = (m, inp') \<Longrightarrow> json inp' = json inp \<and> offset inp \<le> offset inp'"
proof (induction n inp rule: number_loop.induct)
  case (1 n inp)
  then show ?case
    by (subst (asm) (2) number_loop.simps) (auto simp: forward_def split: if_splits)
qed

lemma number_loop_step:
  "json_isdigit (cur inp) \<Longrightarrow> number_loop n inp = number_loop (n * 10 + of_nat (cur inp - 48)) (forward inp)"
  "\<not> json_isdigit (cur inp) \<Longrightarrow> number_loop n inp = (n, inp)"
  by (subst number_loop.simps; simp)+

lemma parse_number_offset:
  "parse_number inp = (m, inp') \<Longrightarrow> json_isdigit (cur inp) \<or> cur inp = 45 \<Longrightarrow>
    json inp' = json inp \<and> offset inp < offset inp'"
  by (auto simp: parse_number_def Let_def number_loop_step(1) forward_def json_isdigit_def
      split: prod.splits if_splits dest!: number_loop_offset)

lemma parse_string_offset:
  "parse_string al junk inp = Inr (m, inp') \<Longrightarrow> json inp' = json inp \<and> offset inp < offset inp'"
  by (auto simp: parse_string_def split: if_splits prod.splits sum.splits
      dest!: string_loop_result next_char_offset)

lemma next_char_ne: "cur inp \<noteq> JSON_EOF \<Longrightarrow> next_char inp = (cur inp, forward inp)"
  by (auto simp: cur_def next_char_def forward_def)

lemma parse_offset:
  "parse_json_parse_elems_dom (Inl (al, junk, inp)) \<Longrightarrow> parse_json al junk inp = Inr (m, inp') \<Longrightarrow>
     json inp' = json inp \<and> offset inp < offset inp'"
  "parse_json_parse_elems_dom (Inr (al, junk, st, inp)) \<Longrightarrow> parse_elems al junk st inp = Inr (st', inp') \<Longrightarrow>
     json inp' = json inp \<and> offset inp \<le> offset inp'"
proof (induction al junk inp and al junk st inp arbitrary: m inp' and st' inp'
    rule: parse_json_parse_elems.pinduct)
  case (1 al junk inp0)
  define inp where "inp = eat_white inp0"
  define inp1 where "inp1 = eat_white (snd (next_char inp))"
  have w: "json inp = json inp0" "offset inp0 \<le> offset inp"
    using eat_white_offset [of inp0] by (simp_all add: inp_def)
  note u = 1(3) [unfolded parse_json.psimps [OF 1(1)] Let_def, folded inp_def, folded inp1_def]
  show ?case
  proof (cases "cur inp = 91")
    case True
    then have n: "json inp1 = json inp" "offset inp < offset inp1"
      using eat_white_offset [of "snd (next_char inp)"] next_char_ne [of inp]
      by (simp_all add: inp1_def forward_def JSON_EOF_def)
    from u True obtain st inp2 where e: "parse_elems al junk empty_stack inp1 = Inr (st, inp2)"
      "cur inp2 = 93" "inp' = snd (next_char inp2)"
      by (auto split: sum.splits if_splits)
    have "json inp2 = json inp1 \<and> offset inp1 \<le> offset inp2"
      using 1(2) [OF inp_def refl True e(1) [unfolded inp1_def]] by (simp add: inp1_def)
    then show ?thesis using e n w next_char_ne [of inp2] by (simp add: forward_def JSON_EOF_def)
  next
    case False
    with u w show ?thesis
      by (auto simp: consume_def split: if_splits sum.splits
          dest!: parse_string_offset parse_number_offset)
  qed
next
  case (2 al junk st inp)
  note u = 2(4) [unfolded parse_elems.psimps [OF 2(1)] Let_def]
  show ?case
  proof (cases "cur inp = 93")
    case True
    with u show ?thesis by simp
  next
    case False
    with u obtain v inp1 st1 where e: "parse_json al junk inp = Inr (v, inp1)" "push_value al st v = Inr st1"
      by (auto split: sum.splits)
    note p = 2(2) [OF False e(1)] eat_white_offset [of inp1]
    show ?thesis
    proof (cases "cur (eat_white inp1) = 44")
      case c: False
      with u False e p show ?thesis by simp
    next
      case c: True
      with u False e have "parse_elems al junk st1 (eat_white (snd (next_char (eat_white inp1)))) = Inr (st', inp')"
        by simp
      from 2(3) [OF False e(1) refl e(2) refl _ this] c p
        eat_white_offset [of "snd (next_char (eat_white inp1))"] next_char_ne [of "eat_white inp1"]
      show ?thesis by (simp add: forward_def JSON_EOF_def)
    qed
  qed
qed

termination parse_json
proof (relation "measures
    [\<lambda>x. case x of Inl (al, junk, inp) \<Rightarrow> length (json inp) - offset inp
        | Inr (al, junk, st, inp) \<Rightarrow> length (json inp) - offset inp,
     \<lambda>x. case x of Inl _ \<Rightarrow> 0 | Inr _ \<Rightarrow> 1]", goal_cases)
  case 1
  show ?case by simp
next
  case (2 al junk inp0 x c)
  then have "offset x < length (json x)" by (intro cur_in) simp
  then show ?case using 2 eat_white_offset [of inp0] next_char_ne [of x]
      eat_white_offset [of "snd (next_char x)"]
    by (auto simp: forward_def JSON_EOF_def)
next
  case (3 al junk st inp)
  show ?case by simp
next
  case (4 al junk st inp y v inp1 st1 inp2)
  then have "offset inp2 < length (json inp2)" by (intro cur_in) simp
  moreover have "parse_json al junk inp = Inr (v, inp1)" using 4(2,3) by simp
  ultimately show ?case using 4 parse_offset(1) [OF 4(7), of v inp1] eat_white_offset [of inp1] next_char_ne [of inp2]
      eat_white_offset [of "snd (next_char inp2)"]
    by (auto simp: forward_def JSON_EOF_def)
qed

declare parse_json.simps [simp del] parse_elems.simps [simp del]

definition unpack_json :: "(nat \<Rightarrow> bool) \<Rightarrow> byte \<Rightarrow> byte list \<Rightarrow> ds_msg_status + redis_msg \<times> nat" where
  "unpack_json al junk js =
     (case parse_json al junk (init_input js) of Inl e \<Rightarrow> Inl e
      | Inr (m, inp) \<Rightarrow> Inr (m, offset inp))"

section \<open>The size of the text\<close>

lemma length_json_escape_char: "length (json_escape_char b) =
   (if json_plain b then (if b = 39 \<or> b = 34 then 2 else 1) else if b \<in> {8, 12, 10, 13, 9} then 2 else 6)"
  by (simp add: json_escape_char_def)

lemma length_json_escape_string: "length (json_escape_string s) = json_escape_strlen s"
  by (induction s) (simp_all add: json_escape_string_def length_json_escape_char)

lemma to_almost_json_size_elems:
  assumes "\<And>m. m \<in> set ms \<Longrightarrow> length (json_text U w m) = to_almost_json_size U w m
      \<and> 0 < to_almost_json_size U w m"
  shows "elen + length (json_text_elems U w (length ms) ms) + 1
    = to_almost_json_size_elems U w elen (length ms) ms"
  using assms
proof (induction ms arbitrary: elen)
  case (Cons m ms)
  have "length (json_text U w m) = to_almost_json_size U w m" "0 < to_almost_json_size U w m"
    using Cons.prems [of m] by simp_all
  with Cons.IH [of "elen + to_almost_json_size U w m + (if ms = [] then 0 else 1)"] Cons.prems
  show ?case by (cases ms) (auto simp: Let_def)
qed simp

lemma to_almost_json_elems_size_pos: "0 < elen \<Longrightarrow>
   (\<And>m. m \<in> set ms \<Longrightarrow> 0 < to_almost_json_size U w m) \<Longrightarrow> 0 < to_almost_json_size_elems U w elen (length ms) ms"
  by (induction ms arbitrary: elen) (simp_all add: Let_def)

text \<open>Arrays have as many elements as their length says, integers have 64 bits.\<close>

fun whole_msg :: "redis_msg \<Rightarrow> bool" where
  "whole_msg (RStr t len s) = True"
| "whole_msg (RArr len ms) \<longleftrightarrow> length ms = nat len \<and> (\<forall>m\<in>set ms. whole_msg m)"
| "whole_msg (RInt i) \<longleftrightarrow> int64_range i"

lemma wf_whole: "wf_msg m \<Longrightarrow> whole_msg m"
  by (induction m) auto

lemma length_to_almost_json:
  assumes U: "kv_format U"
  shows "whole_msg m \<Longrightarrow> length (json_text U w m) = to_almost_json_size U w m
    \<and> 0 < to_almost_json_size U w m"
proof (induction m)
  case (RStr t len s)
  then show ?case by (simp add: length_json_escape_string)
next
  case (RArr len ms)
  then have len: "length ms = nat len" by simp
  have "\<And>m. m \<in> set ms \<Longrightarrow> length (json_text U w m) = to_almost_json_size U w m
      \<and> 0 < to_almost_json_size U w m" using RArr by simp
  from to_almost_json_size_elems [of ms U w 1] to_almost_json_elems_size_pos [of 1 ms U w] this
  show ?case by (auto simp: len)
next
  case (RInt i)
  then show ?case
    using kv_format.length_i2s [OF U, of i] kv_format.i2s_nonempty [OF U, of i] by (cases "int64_to_string U i") auto
qed

section \<open>Reading the text back\<close>

text \<open>What is left of the input.\<close>

definition rest_of :: "json_input \<Rightarrow> byte list" where
  "rest_of inp = drop (offset inp) (json inp)"

lemma rest_of_init [simp]: "rest_of (init_input js) = js"
  by (simp add: rest_of_def init_input_def)

lemma consume_add [simp]: "consume n (consume m inp) = consume (m + n) inp"
  by (simp add: consume_def)

lemma consume_0 [simp]: "consume 0 inp = inp"
  by (simp add: consume_def)

lemma forward_consume: "forward inp = consume 1 inp"
  by (simp add: forward_def consume_def)

lemma rest_of_consume [simp]: "rest_of (consume n inp) = drop n (rest_of inp)"
  by (simp add: rest_of_def consume_def add.commute)

lemma rest_of_Cons: "rest_of inp = c # t \<Longrightarrow> offset inp < length (json inp) \<and> json inp ! offset inp = c"
  unfolding rest_of_def by (metis drop_eq_Nil linorder_not_le list.distinct(1) hd_drop_conv_nth list.sel(1))

lemma cur_Cons [simp]: "rest_of inp = c # t \<Longrightarrow> cur inp = unat c"
  using rest_of_Cons [of inp c t] by (simp add: cur_def)

lemma cur_Nil [simp]: "rest_of inp = [] \<Longrightarrow> cur inp = JSON_EOF"
  by (simp add: rest_of_def cur_def)

lemma unat_byte_JSON_EOF: "unat (c :: byte) \<noteq> JSON_EOF"
  using unat_byte_less [of c] by (simp add: JSON_EOF_def)

lemma next_char_Cons: "rest_of inp = c # t \<Longrightarrow> next_char inp = (unat c, consume 1 inp)"
  using next_char_ne [of inp] unat_byte_JSON_EOF [of c] by (simp add: forward_consume)

lemma eat_white_id: "\<not> json_isspace (cur inp) \<Longrightarrow> eat_white inp = inp"
  by (subst eat_white.simps) simp

subsection \<open>Numbers\<close>

definition starts_no_digit :: "byte list \<Rightarrow> bool" where
  "starts_no_digit t \<longleftrightarrow> (t \<noteq> [] \<longrightarrow> \<not> is_digit (hd t))"

lemma json_isdigit_unat: "json_isdigit (unat b) \<longleftrightarrow> is_digit b"
  by (simp add: json_isdigit_def is_digit_def word_le_nat_alt)

lemma number_loop_digits:
  "rest_of inp = ds @ t \<Longrightarrow> \<forall>d\<in>set ds. is_digit d \<Longrightarrow> starts_no_digit t \<Longrightarrow>
    number_loop (of_nat v) inp = (of_nat (10 ^ length ds * v + dec_val ds), consume (length ds) inp)"
proof (induction ds arbitrary: v inp)
  case Nil
  then have "\<not> json_isdigit (cur inp)"
    by (cases t) (simp_all add: json_isdigit_unat starts_no_digit_def, simp add: json_isdigit_def JSON_EOF_def)
  then show ?case by (simp add: number_loop_step(2))
next
  case (Cons d ds)
  then have d: "json_isdigit (cur inp)" "cur inp - 48 = digit_val d"
    by (simp_all add: json_isdigit_unat digit_val_unat)
  have "number_loop (of_nat v) inp = number_loop (of_nat (v * 10 + digit_val d)) (consume 1 inp)"
    using number_loop_step(1) [OF d(1), of "of_nat v"] d(2) by (simp add: forward_consume)
  also have "\<dots> = (of_nat (10 ^ length ds * (v * 10 + digit_val d) + dec_val ds), consume (length ds) (consume 1 inp))"
    using Cons.prems by (intro Cons.IH) simp_all
  finally show ?case by (simp add: dec_val_Cons algebra_simps)
qed

lemma sint_of_int_u64: "int64_range i \<Longrightarrow> sint (of_int i :: u64) = i"
  by (simp add: int64_range_def signed_of_int signed_take_bit_int_eq_self)

lemma parse_number_dec_int:
  assumes "rest_of inp = dec_int i @ t" "int64_range i" "starts_no_digit t"
  shows "parse_number inp = (RInt i, consume (length (dec_int i)) inp)"
proof (cases "i < 0")
  case True
  then have "number_loop (of_nat 0) (consume 1 inp) = (of_nat (nat (- i)), consume (length (dec_nat (nat (- i)))) (consume 1 inp))"
    using assms number_loop_digits [of "consume 1 inp" "dec_nat (nat (- i))" t 0]
    by (simp add: dec_int_def dec_nat_digits)
  moreover have "cur inp = 45" using assms(1) True by (simp add: dec_int_def)
  ultimately show ?thesis using True assms(2) sint_of_int_u64 [of i]
    by (simp add: parse_number_def dec_int_def forward_consume)
next
  case False
  then have "number_loop (of_nat 0) inp = (of_nat (nat i), consume (length (dec_nat (nat i))) inp)"
    using assms number_loop_digits [of inp "dec_nat (nat i)" t 0]
    by (simp add: dec_int_def dec_nat_digits)
  moreover have "cur inp \<noteq> 45"
  proof -
    have d: "dec_nat (nat i) \<noteq> []" "is_digit (hd (dec_nat (nat i)))"
      using dec_nat_digits [of "hd (dec_nat (nat i))" "nat i"] by simp_all
    then have "rest_of inp = hd (dec_nat (nat i)) # tl (dec_nat (nat i)) @ t"
      using assms(1) False by (simp add: dec_int_def)
    with d(2) show ?thesis by (auto simp: is_digit_def word_le_nat_alt)
  qed
  ultimately show ?thesis using False assms(2) sint_of_int_u64 [of i]
    by (simp add: parse_number_def dec_int_def)
qed

subsection \<open>Strings\<close>

text \<open>The characters whose escaped form the parser reads back, inside the quote \<open>q\<close>.\<close>

definition json_safe :: "byte \<Rightarrow> byte \<Rightarrow> bool" where
  "json_safe q b \<longleftrightarrow> (json_plain b \<and> b \<noteq> 92 \<and> (b = 96 \<longrightarrow> q \<noteq> 96)) \<or> b \<in> {8, 12, 10, 13, 9}"

definition json_quote :: "byte \<Rightarrow> bool" where
  "json_quote q \<longleftrightarrow> q = 34 \<or> q = 39 \<or> q = 96"

lemma string_step_char:
  assumes "rest_of inp = json_escape_char b @ t" "json_safe q b" "json_quote q"
  shows "\<exists>sz'. string_step enough_mem junk (unat q) sz acc inp
    = Inr (False, acc @ [b], sz', consume (length (json_escape_char b)) inp)"
proof (cases "json_plain b \<and> b \<noteq> 39 \<and> b \<noteq> 34")
  case True
  then have e: "json_escape_char b = [b]" by (simp add: json_escape_char_def)
  have "unat b \<noteq> unat q" "unat b \<noteq> 92"
    using True assms(2,3) by (auto simp: json_safe_def json_quote_def json_plain_def word_unat_eq_iff)
  then show ?thesis using assms(1) unat_byte_JSON_EOF [of b]
    by (simp add: e string_step_def next_char_Cons)
next
  case False
  then obtain x where e: "json_escape_char b = [92, x]" and
    x: "if b = 39 \<or> b = 34 then x = b else (b, x) \<in> {(8, 98), (12, 102), (10, 110), (13, 114), (9, 116)}"
    using assms(2) by (auto simp: json_safe_def json_escape_char_def json_plain_def)
  have r: "rest_of inp = 92 # x # t" "rest_of (consume 1 inp) = x # t" using assms(1) e by simp_all
  have "unat q \<noteq> 92" using assms(3) by (auto simp: json_quote_def)
  moreover have "unat x \<noteq> JSON_EOF" by (rule unat_byte_JSON_EOF)
  ultimately show ?thesis using x next_char_Cons [OF r(1)] next_char_Cons [OF r(2)]
    by (auto simp: string_step_def e JSON_EOF_def split: if_splits)
qed

lemma string_loop_escaped:
  "rest_of inp = json_escape_string s @ q # t \<Longrightarrow> \<forall>b\<in>set s. json_safe q b \<Longrightarrow> json_quote q \<Longrightarrow>
    \<exists>sz'. string_loop enough_mem junk (unat q) sz acc inp
      = Inr (acc @ s, sz', consume (length (json_escape_string s) + 1) inp)"
proof (induction s arbitrary: inp sz acc)
  case Nil
  then have "next_char inp = (unat q, consume 1 inp)" by (simp add: json_escape_string_def next_char_Cons)
  with Nil unat_byte_JSON_EOF [of q] show ?case
    by (subst string_loop.simps) (simp add: string_step_def json_escape_string_def)
next
  case (Cons b s)
  let ?inp = "consume (length (json_escape_char b)) inp"
  from Cons.prems string_step_char [of inp b "json_escape_string s @ q # t" q junk sz acc] obtain sz1 where
    s1: "string_step enough_mem junk (unat q) sz acc inp = Inr (False, acc @ [b], sz1, ?inp)"
    by (auto simp: json_escape_string_def)
  have "rest_of ?inp = json_escape_string s @ q # t"
    using Cons.prems by (simp add: json_escape_string_def)
  from Cons.IH [OF this, of sz1 "acc @ [b]"] Cons.prems obtain sz2 where
    s2: "string_loop enough_mem junk (unat q) sz1 (acc @ [b]) ?inp
      = Inr ((acc @ [b]) @ s, sz2, consume (length (json_escape_string s) + 1) ?inp)" by auto
  show ?case
    by (subst string_loop.simps) (simp add: s1 s2 [simplified] json_escape_string_def add.assoc)
qed

lemma json_quote_weird: "json_quote (weird_quote t)"
  by (cases t) (simp_all add: json_quote_def)

lemma parse_string_weird:
  assumes "rest_of inp = weird_quote ty # json_escape_string s @ weird_quote ty # t"
    "\<forall>b\<in>set s. json_safe (weird_quote ty) b"
  shows "parse_string enough_mem junk inp
    = Inr (RStr ty (to_int32 (int (length s))) s, consume (length (json_escape_string s) + 2) inp)"
proof -
  have "rest_of (consume 1 inp) = json_escape_string s @ weird_quote ty # t" using assms(1) by simp
  from string_loop_escaped [OF this assms(2) json_quote_weird, of junk 8 "[]"] obtain sz where
    "string_loop enough_mem junk (unat (weird_quote ty)) 8 [] (consume 1 inp)
      = Inr (s, sz, consume (length (json_escape_string s) + 2) inp)" by auto
  then show ?thesis
    by (cases ty) (simp_all add: parse_string_def next_char_Cons [OF assms(1)])
qed

subsection \<open>Arrays\<close>

text \<open>The size of the k-th chunk and of the chunks up to it.\<close>

fun chunk_size :: "nat \<Rightarrow> nat" where
  "chunk_size 0 = 0"
| "chunk_size (Suc k) = (chunk_size k + 2) * 3 div 2"

fun chunks_total :: "nat \<Rightarrow> nat" where
  "chunks_total 0 = 0"
| "chunks_total (Suc k) = chunks_total k + chunk_size (Suc k)"

declare chunk_size.simps(2) [simp del] chunks_total.simps(2) [simp del]

definition stack_ok :: "json_stack \<Rightarrow> bool" where
  "stack_ok st \<longleftrightarrow> st = empty_stack
     \<or> (0 < st_tos st \<and> st_tos st < 40 \<and> st_sz st = chunk_size (st_tos st)
        \<and> 0 < st_ix st \<and> st_ix st \<le> st_sz st
        \<and> length (st_vals st) = chunks_total (st_tos st - 1) + st_ix st)"

lemma chunk_size_pos: "0 < chunk_size (Suc k)"
  by (simp add: chunk_size.simps(2))

lemma chunks_total_ge: "k \<le> chunks_total k"
proof (induction k)
  case (Suc k)
  then show ?case using chunk_size_pos [of k] by (simp add: chunks_total.simps(2))
qed simp

lemma push_value_ok:
  assumes "stack_ok st" "length (st_vals st) < chunks_total 39"
  shows "\<exists>st'. push_value enough_mem st v = Inr st' \<and> stack_ok st' \<and> st_vals st' = st_vals st @ [v]"
proof (cases "st = empty_stack")
  case True
  then show ?thesis by (simp add: push_value_def empty_stack_def stack_ok_def Let_def chunk_size.simps(2))
next
  case False
  with assms(1) have st: "0 < st_tos st" "st_tos st < 40" "st_sz st = chunk_size (st_tos st)"
    "0 < st_ix st" "st_ix st \<le> st_sz st" "length (st_vals st) = chunks_total (st_tos st - 1) + st_ix st"
    by (auto simp: stack_ok_def)
  obtain k where k: "st_tos st = Suc k" using st(1) by (cases "st_tos st") auto
  show ?thesis
  proof (cases "st_ix st = st_sz st")
    case True
    then have "length (st_vals st) = chunks_total (st_tos st)" using st k by (simp add: chunks_total.simps(2))
    moreover from this have "st_tos st \<noteq> 39" using assms(2) by auto
    moreover have "(st_sz st + 2) * 3 div 2 = chunk_size (Suc (st_tos st))"
      by (simp only: chunk_size.simps(2) st(3))
    ultimately show ?thesis using True st(1,2) chunk_size_pos [of "st_tos st"]
      by (simp add: push_value_def Let_def stack_ok_def Suc_leI)
  next
    case c: False
    with st k show ?thesis by (simp add: push_value_def stack_ok_def)
  qed
qed

lemma finish_array_ok:
  "stack_ok st \<Longrightarrow> finish_array enough_mem st = Inr (RArr (to_int32 (int (length (st_vals st)))) (st_vals st))"
  by (auto simp: stack_ok_def finish_array_def empty_stack_def to_int32_def)

fun json_ok :: "redis_msg \<Rightarrow> bool" where
  "json_ok (RStr t len s) \<longleftrightarrow> int32_range len \<and>
     (if len < 0 then t = DS_BULK_STRING \<and> len = - 1 \<and> s = []
      else length s = nat len \<and> (\<forall>b\<in>set s. json_safe (weird_quote t) b))"
| "json_ok (RArr len ms) \<longleftrightarrow> int32_range len \<and>
     (if len < 0 then len = - 1 \<and> ms = []
      else length ms = nat len \<and> length ms \<le> chunks_total 39 \<and> (\<forall>m\<in>set ms. json_ok m))"
| "json_ok (RInt i) \<longleftrightarrow> int64_range i"

lemma json_ok_whole: "json_ok m \<Longrightarrow> whole_msg m"
  by (induction m) (auto split: if_splits)

text \<open>What may follow a value so that the parser stops behind it.\<close>

definition json_delim :: "byte list \<Rightarrow> bool" where
  "json_delim t \<longleftrightarrow> t = [] \<or> hd t = 44 \<or> hd t = 93"

lemma json_delim_no_digit: "json_delim t \<Longrightarrow> starts_no_digit t"
  by (auto simp: json_delim_def starts_no_digit_def is_digit_def)

lemma json_delim_white: "json_delim (rest_of inp) \<Longrightarrow> eat_white inp = inp"
  by (rule eat_white_id, cases "rest_of inp") (auto simp: json_delim_def json_isspace_def JSON_EOF_def)


lemma rest_of_nth:
  "rest_of inp = xs @ t \<Longrightarrow> k < length xs \<Longrightarrow>
    offset inp + length xs \<le> length (json inp) \<and> json inp ! (offset inp + k) = xs ! k"
proof -
  assume r: "rest_of inp = xs @ t" and k: "k < length xs"
  have "length (rest_of inp) = length (json inp) - offset inp" by (simp add: rest_of_def)
  then have le: "offset inp + length xs \<le> length (json inp)" using r k by auto
  then have "json inp ! (offset inp + k) = rest_of inp ! k" by (simp add: rest_of_def)
  then show ?thesis using r k le by (simp add: nth_append)
qed

lemma parse_json_null:
  assumes "rest_of inp = ascii ''null'' @ t"
  shows "parse_json al junk inp = Inr (RArr (- 1) [], consume 4 inp)"
proof -
  have r: "rest_of inp = [110, 117, 108, 108] @ t" using assms by (simp add: of_char_def)
  then have c: "cur inp = 110" by simp
  then have w: "eat_white inp = inp" by (simp add: eat_white_id json_isspace_def)
  have "json_match inp 110 117 108 108 0"
    using rest_of_nth [OF r, of 0] rest_of_nth [OF r, of 1] rest_of_nth [OF r, of 2] rest_of_nth [OF r, of 3]
    by (simp add: json_match_def Let_def)
  then show ?thesis using c w by (subst parse_json.simps) (simp add: Let_def json_isdigit_def JSON_EOF_def)
qed

lemma parse_json_nil:
  assumes "rest_of inp = ascii ''nil'' @ t"
  shows "parse_json al junk inp = Inr (RStr DS_BULK_STRING (- 1) [], consume 3 inp)"
proof -
  have r: "rest_of inp = [110, 105, 108] @ t" using assms by (simp add: of_char_def)
  then have c: "cur inp = 110" by simp
  then have w: "eat_white inp = inp" by (simp add: eat_white_id json_isspace_def)
  have "json_match inp 110 105 108 0 0" "\<not> json_match inp 110 117 108 108 0"
    using rest_of_nth [OF r, of 0] rest_of_nth [OF r, of 1] rest_of_nth [OF r, of 2]
    by (simp_all add: json_match_def Let_def)
  then show ?thesis using c w by (subst parse_json.simps) (simp add: Let_def json_isdigit_def JSON_EOF_def)
qed

lemma parse_json_string:
  assumes "rest_of inp = weird_quote ty # t"
  shows "parse_json al junk inp = parse_string al junk inp"
proof -
  have "eat_white inp = inp" using assms by (cases ty) (simp_all add: eat_white_id json_isspace_def)
  moreover have "cur inp \<noteq> 91" using assms by (cases ty) simp_all
  moreover have "cur inp = 39 \<or> cur inp = 96 \<or> cur inp = 34" using assms by (cases ty) simp_all
  ultimately show ?thesis by (subst parse_json.simps) (simp only: Let_def if_False if_True)
qed

lemma parse_json_number:
  assumes "rest_of inp = dec_int i @ t"
  shows "parse_json al junk inp = Inr (parse_number inp)"
proof -
  obtain c r where c: "dec_int i = c # r" "is_digit c \<or> c = 45"
    using dec_nat_digits [of "hd (dec_nat (nat i))" "nat i"]
    by (cases "i < 0"; cases "dec_nat (nat i)") (auto simp: dec_int_def)
  then have "cur inp = unat c" using assms by simp
  then have d: "json_isdigit (cur inp) \<or> cur inp = 45" using c by (auto simp: json_isdigit_unat)
  then have "eat_white inp = inp" by (auto simp: eat_white_id json_isspace_def json_isdigit_def)
  moreover have "cur inp \<noteq> 91" "\<not> (cur inp = 39 \<or> cur inp = 96 \<or> cur inp = 34)"
    using d by (auto simp: json_isdigit_def)
  ultimately show ?thesis using d by (subst parse_json.simps) (simp only: Let_def if_False if_True)
qed

lemma parse_json_array:
  assumes "rest_of inp = 91 # t"
  shows "parse_json al junk inp =
    (case parse_elems al junk empty_stack (eat_white (consume 1 inp)) of Inl e \<Rightarrow> Inl e
         | Inr (st, inp1) \<Rightarrow>
           if cur inp1 \<noteq> 93 then Inl (if cur inp1 = JSON_EOF then PARTIAL else BAD_JSON)
           else (case finish_array al st of Inl e \<Rightarrow> Inl e
                 | Inr m \<Rightarrow> Inr (m, snd (next_char inp1))))"
proof -
  have "eat_white inp = inp" "cur inp = 91" using assms by (simp_all add: eat_white_id json_isspace_def)
  then show ?thesis using next_char_Cons [OF assms]
    by (subst parse_json.simps) (simp add: Let_def cong: if_cong)
qed

lemma parse_elems_text:
  assumes "\<And>m inp t. m \<in> set ms \<Longrightarrow> rest_of inp = json_text U True m @ t \<Longrightarrow> json_delim t \<Longrightarrow>
      parse_json enough_mem junk inp = Inr (m, consume (length (json_text U True m)) inp)"
    and "\<And>m t. m \<in> set ms \<Longrightarrow> json_text U True m \<noteq> []
       \<and> hd (json_text U True m) \<noteq> 93 \<and> \<not> json_isspace (unat (hd (json_text U True m)))"
    and "rest_of inp = json_text_elems U True (length ms) ms @ 93 # t"
    and "stack_ok st" "length (st_vals st) + length ms \<le> chunks_total 39"
  shows "\<exists>st'. parse_elems enough_mem junk st inp
      = Inr (st', consume (length (json_text_elems U True (length ms) ms)) inp)
    \<and> stack_ok st' \<and> st_vals st' = st_vals st @ ms"
  using assms
proof (induction ms arbitrary: st inp)
  case Nil
  then show ?case by (subst parse_elems.simps) simp
next
  case (Cons m ms)
  let ?m = "json_text U True m"
  define r where "r = (if ms = [] then [] else 44 # json_text_elems U True (length ms) ms)"
  have body: "json_text_elems U True (length (m # ms)) (m # ms) = ?m @ r" by (simp add: r_def)
  have rest: "rest_of inp = ?m @ r @ 93 # t" using Cons.prems(3) body by simp
  have d: "json_delim (r @ 93 # t)" by (simp add: json_delim_def r_def)
  have p: "parse_json enough_mem junk inp = Inr (m, consume (length ?m) inp)"
    using Cons.prems(1) [of m inp] rest d by simp
  obtain c m' where "?m = c # m'" "c \<noteq> 93" using Cons.prems(2) [of m] by (cases ?m) auto
  then have c: "cur inp \<noteq> 93" using rest by (auto simp: word_unat_eq_iff)
  obtain st1 where st1: "push_value enough_mem st m = Inr st1" "stack_ok st1" "st_vals st1 = st_vals st @ [m]"
    using push_value_ok [of st m] Cons.prems by auto
  have w: "rest_of (consume (length ?m) inp) = r @ 93 # t"
    "eat_white (consume (length ?m) inp) = consume (length ?m) inp"
    using rest d by (simp_all add: json_delim_white)
  show ?case
  proof (cases "ms = []")
    case True
    then show ?thesis using w c p st1
      by (subst parse_elems.simps) (simp add: body r_def)
  next
    case False
    let ?inp = "consume (length ?m + 1) inp"
    have rest': "rest_of ?inp = json_text_elems U True (length ms) ms @ 93 # t"
      using rest False by (simp add: r_def)
    have "\<not> json_isspace (cur ?inp)"
    proof -
      obtain n ns where ms: "ms = n # ns" using False by (cases ms) auto
      then obtain c n' where "json_text U True n = c # n'" "\<not> json_isspace (unat c)"
        using Cons.prems(2) [of n] by (cases "json_text U True n") auto
      then show ?thesis using rest' by (simp add: ms)
    qed
    then have white: "eat_white ?inp = ?inp" by (rule eat_white_id)
    obtain st2 where "parse_elems enough_mem junk st1 ?inp
      = Inr (st2, consume (length (json_text_elems U True (length ms) ms)) ?inp)"
      "stack_ok st2" "st_vals st2 = st_vals st1 @ ms"
      using Cons.IH [of ?inp st1] Cons.prems st1 rest' by fastforce
    moreover have "next_char (consume (length ?m) inp) = (44, ?inp)"
      using w(1) False next_char_Cons [of "consume (length ?m) inp" 44] by (simp add: r_def)
    ultimately show ?thesis using w c p st1 white False
      by (subst parse_elems.simps) (simp add: body r_def)
  qed
qed


lemma to_almost_json_head:
  assumes U: "kv_format U" and ok: "json_ok m"
  shows "json_text U True m \<noteq> [] \<and> hd (json_text U True m) \<noteq> 93
    \<and> \<not> json_isspace (unat (hd (json_text U True m)))"
proof (cases m)
  case (RStr t len s)
  then show ?thesis by (cases t) (auto simp: json_isspace_def of_char_def)
next
  case (RArr len ms)
  then show ?thesis by (auto simp: json_isspace_def of_char_def)
next
  case (RInt i)
  then have i: "json_text U True m = dec_int i" using ok by (simp add: kv_format.i2s [OF U])
  have "is_digit (hd (dec_nat (nat i)))" using dec_nat_digits [of "hd (dec_nat (nat i))" "nat i"] by simp
  then have "hd (dec_int i) \<noteq> 93 \<and> \<not> json_isspace (unat (hd (dec_int i)))"
    by (auto simp: dec_int_def is_digit_def json_isspace_def word_le_nat_alt)
  then show ?thesis unfolding i by (simp add: dec_int_def)
qed

lemma parse_to_almost_json:
  assumes U: "kv_format U"
  shows "json_ok m \<Longrightarrow> rest_of inp = json_text U True m @ t \<Longrightarrow> json_delim t \<Longrightarrow>
    parse_json enough_mem junk inp = Inr (m, consume (length (json_text U True m)) inp)"
proof (induction m arbitrary: inp t)
  case (RStr ty len s)
  show ?case
  proof (cases "len < 0")
    case True
    with RStr show ?thesis by (auto simp: parse_json_nil [of inp t] eval_nat_numeral)
  next
    case False
    with RStr have "rest_of inp = weird_quote ty # json_escape_string s @ weird_quote ty # t"
      "\<forall>b\<in>set s. json_safe (weird_quote ty) b" "int32_range len" "length s = nat len" by auto
    with False show ?thesis
      using parse_string_weird [of inp ty s t junk] parse_json_string [of inp ty]
      by (simp add: to_int32_id)
  qed
next
  case (RInt i)
  then have r: "rest_of inp = dec_int i @ t" "int64_range i" by (simp_all add: kv_format.i2s [OF U])
  with RInt show ?case
    by (simp add: parse_json_number [OF r(1)] parse_number_dec_int json_delim_no_digit kv_format.i2s [OF U])
next
  case (RArr len ms)
  show ?case
  proof (cases "len < 0")
    case True
    with RArr show ?thesis by (auto simp: parse_json_null [of inp t] eval_nat_numeral)
  next
    case False
    with RArr.prems have len: "length ms = nat len" "length ms \<le> chunks_total 39" "int32_range len"
      "\<And>m. m \<in> set ms \<Longrightarrow> json_ok m" by auto
    define body where "body = json_text_elems U True (length ms) ms"
    have r: "rest_of inp = 91 # body @ 93 # t"
      using RArr.prems(2) False by (simp add: body_def len)
    have rest1: "rest_of (consume 1 inp) = body @ 93 # t" using r by simp
    have "\<not> json_isspace (cur (consume 1 inp))"
    proof (cases ms)
      case Nil
      then show ?thesis using rest1 by (simp add: body_def json_isspace_def)
    next
      case (Cons m ms')
      then show ?thesis using to_almost_json_head [OF U, of m] len(4) [of m] rest1
        by (cases "json_text U True m") (auto simp: body_def)
    qed
    then have w: "eat_white (consume 1 inp) = consume 1 inp" by (rule eat_white_id)
    obtain st where st: "parse_elems enough_mem junk empty_stack (consume 1 inp) = Inr (st, consume (length body) (consume 1 inp))"
      "stack_ok st" "st_vals st = ms"
      using parse_elems_text [of ms U junk "consume 1 inp" t empty_stack] RArr.IH to_almost_json_head [OF U] len
        rest1 by (auto simp: body_def stack_ok_def empty_stack_def)
    have "rest_of (consume (length body + 1) inp) = 93 # t" using r by simp
    then have "cur (consume (length body + 1) inp) = 93"
      "next_char (consume (length body + 1) inp) = (93, consume (length body + 2) inp)"
      using next_char_Cons by fastforce+
    then show ?thesis using st w False finish_array_ok [OF st(2)] len
      by (simp add: parse_json_array [OF r] to_int32_id body_def)
  qed
qed

section \<open>Properties\<close>

text \<open>\<open>to_almost_json_size\<close> is the number of bytes that \<open>to_almost_json\<close> says it wrote, in both quoting styles,
  for every well-formed message; it is never the 0 that stands for a bad type. The buffer needs one byte more.\<close>

lemma to_almost_json_fits:
  assumes "kv_format U" "whole_msg m" "to_almost_json_size U weird m < length buf"
  shows "\<exists>b. to_almost_json U weird m 0 buf = Some (to_almost_json_size U weird m, b)
    \<and> take (to_almost_json_size U weird m) b = json_text U weird m"
proof -
  have "length (json_text U weird m) = to_almost_json_size U weird m" using length_to_almost_json [OF assms(1,2)] by simp
  then show ?thesis using to_almost_json_leaves(1) [of 0 U weird m buf] assms(3) by (simp add: leaves_def) blast
qed


text \<open>C32: the parser reads back what the printer writes in its own quoting style, with \<open>be_weird\<close>: into a buffer
  with one byte more than \<open>to_almost_json_size\<close> says the printer puts so many bytes, and the parser makes the
  message of them: bulk, simple and error strings by their quotes, nil, null, integers and nested arrays, up to
  the 39 chunks of values an array may have. The strings are those of printable bytes other than the backslash,
  which is printed as it is, and of the five control characters with an escape of their own; other strings do
  not come back.\<close>

theorem unpack_json_roundtrip:
  assumes "kv_format U" "json_ok m" "to_almost_json_size U True m < length buf"
  shows "\<exists>b. to_almost_json U True m 0 buf = Some (to_almost_json_size U True m, b)
    \<and> unpack_json enough_mem junk (take (to_almost_json_size U True m) b) = Inr (m, to_almost_json_size U True m)"
proof -
  have size: "length (json_text U True m) = to_almost_json_size U True m"
    using length_to_almost_json [OF assms(1)] json_ok_whole [OF assms(2)] by simp
  have "unpack_json enough_mem junk (json_text U True m) = Inr (m, length (json_text U True m))"
    using parse_to_almost_json [OF assms(1,2), of "init_input (json_text U True m)" "[]" junk]
    by (simp add: unpack_json_def json_delim_def consume_def) (simp add: init_input_def)
  then show ?thesis using to_almost_json_fits [OF assms(1) json_ok_whole [OF assms(2)] assms(3)] size by auto
qed

definition sample_json :: redis_msg where
  "sample_json = mk_arr [mk_str [105, 116, 39, 115], set_nil, mk_arr [mk_int 3]]"

lemma json_ok_sample: "json_ok sample_json"
  by (simp add: sample_json_def mk_arr_def mk_str_def set_nil_def mk_int_def json_safe_def json_plain_def
      int32_range_def int64_range_def le_trans [OF _ chunks_total_ge])

theorem unpack_json_roundtrip_witness:
  "\<exists>b. to_almost_json int_str_util True sample_json 0 (replicate 20 0) = Some (17, b)
    \<and> unpack_json enough_mem 0 (take 17 b) = Inr (sample_json, 17)"
proof -
  have "to_almost_json_size int_str_util True sample_json = 17" by code_simp
  then show ?thesis using unpack_json_roundtrip [OF fmt.kv_format_axioms json_ok_sample, of "replicate 20 0" 0] by simp
qed

text \<open>What does not come back: a backslash, which is printed as it is, and a control character, whose escape is
  printed in decimal and read as hexadecimal.\<close>

lemma backslash_not_read_back:
  "unpack_json enough_mem 0 (json_text int_str_util True (mk_str [92, 110])) = Inr (mk_str [10], 4)"
  by code_simp

lemma control_not_read_back:
  "unpack_json enough_mem 0 (json_text int_str_util True (mk_str [16])) = Inr (mk_str [22], 8)"
  by code_simp




text \<open>C36: memory safety of the string parser: the bytes read so far and the closing zero lie inside
  the room allocated for them, whatever the input and wherever it ends.\<close>

theorem parse_string_in_room:
  assumes "string_loop al junk quote 8 [] inp = Inr (s, room, inp')"
  shows "length s < room \<and> offset inp < offset inp'"
  using string_loop_result [OF assms] by simp

theorem parse_string_in_room_witness:
  "\<exists>room inp'. string_loop enough_mem 0 34 8 [] (init_input (ascii ''ab'' @ [34])) = Inr (ascii ''ab'', room, inp') \<and> 2 < room"
proof -
  have "rest_of (init_input (ascii ''ab'' @ [34])) = json_escape_string (ascii ''ab'') @ 34 # []"
    by (simp add: json_escape_string_def json_escape_char_def json_plain_def of_char_def)
  from string_loop_escaped [OF this, of 0 8 "[]"] obtain room inp' where
    "string_loop enough_mem 0 34 8 [] (init_input (ascii ''ab'' @ [34])) = Inr (ascii ''ab'', room, inp')"
    by (auto simp: json_safe_def json_plain_def json_quote_def of_char_def)
  with parse_string_in_room [OF this] show ?thesis by auto
qed

text \<open>The bytes a multi-byte character leaves in the old room are taken into the string: seven
  characters, one that takes two bytes, and the last byte of the first eight is whatever the
  memory held.\<close>

lemma parse_string_takes_junk:
  "unpack_json enough_mem junk ([34] @ replicate 7 49 @ [92, 117, 48, 48, 101, 57, 34])
    = Inr (RStr DS_BULK_STRING 10 (replicate 7 49 @ [junk, 195, 169]), 15)"
  by code_simp

end
