(* ===== verification/Redis_Cmd.thy ===== *)
theory Redis_Cmd
  imports Redis_Msg
begin

text \<open>
  The command table, \<open>include/raids/redis_cmd_db.h\<close> and the tables of
  \<open>include/raids/redis_cmd.h\<close>: one row per command with its hash, flags, arity and key
  positions, the hash table that finds the row, and the hash of a command name. A command is
  the number of its row, as in the enumeration \<open>ds_command\<close>. The checksum is raikv's
  \<open>kv_crc_c\<close>, a parameter of the lookup; the checksum the table was built with is CRC-32C
  without the final complement, which is what the name of the primitive promises.
\<close>

section \<open>Rows\<close>

datatype redis_catg =
    NO_CATG | CONNECTION_CATG | SERVER_CATG | KEY_CATG | STRING_CATG | LIST_CATG | HASH_CATG
  | SET_CATG | SORTED_SET_CATG | GEO_CATG | HYPERLOGLOG_CATG | PUBSUB_CATG | TRANSACTION_CATG
  | STREAM_CATG

record redis_cmd_data =
  cmd_name :: string
  cmd_hash :: u32
  cmd_id :: nat
  cmd_flag :: u16
  cmd_len :: nat
  cmd_catg :: redis_catg
  cmd_arity :: int
  cmd_first :: int
  cmd_last :: int
  cmd_step :: int

definition cmd_row :: "string \<Rightarrow> u32 \<Rightarrow> nat \<Rightarrow> u16 \<Rightarrow> nat \<Rightarrow> redis_catg \<Rightarrow> int \<Rightarrow> int \<Rightarrow> int \<Rightarrow> int
    \<Rightarrow> redis_cmd_data" where
  "cmd_row name h c f len catg ar fi la st =
     \<lparr>cmd_name = name, cmd_hash = h, cmd_id = c, cmd_flag = f, cmd_len = len, cmd_catg = catg,
      cmd_arity = ar, cmd_first = fi, cmd_last = la, cmd_step = st\<rparr>"

abbreviation CMD_NOFLAGS :: u16 where "CMD_NOFLAGS \<equiv> 0"
abbreviation CMD_ADMIN_FLAG :: u16 where "CMD_ADMIN_FLAG \<equiv> 1"
abbreviation CMD_READ_FLAG :: u16 where "CMD_READ_FLAG \<equiv> 2"
abbreviation CMD_WRITE_FLAG :: u16 where "CMD_WRITE_FLAG \<equiv> 4"
abbreviation CMD_MOVABLE_FLAG :: u16 where "CMD_MOVABLE_FLAG \<equiv> 8"
abbreviation CMD_READ_MV_FLAG :: u16 where "CMD_READ_MV_FLAG \<equiv> 10"
abbreviation CMD_WRITE_MV_FLAG :: u16 where "CMD_WRITE_MV_FLAG \<equiv> 12"

definition MAX_CMD_LEN :: nat where
  "MAX_CMD_LEN = 32"

definition REDIS_CMD_DB_SIZE :: nat where
  "REDIS_CMD_DB_SIZE = 169"

text \<open>The commands the dispatcher names.\<close>

abbreviation EXEC_CMD :: nat where "EXEC_CMD \<equiv> 151"
abbreviation MULTI_CMD :: nat where "MULTI_CMD \<equiv> 152"
abbreviation DISCARD_CMD :: nat where "DISCARD_CMD \<equiv> 150"
abbreviation GEORADIUS_CMD :: nat where "GEORADIUS_CMD \<equiv> 139"
abbreviation GEORADIUSBYMEMBER_CMD :: nat where "GEORADIUSBYMEMBER_CMD \<equiv> 140"
abbreviation ZINTERSTORE_CMD :: nat where "ZINTERSTORE_CMD \<equiv> 114"
abbreviation ZUNIONSTORE_CMD :: nat where "ZUNIONSTORE_CMD \<equiv> 129"
abbreviation XREAD_CMD :: nat where "XREAD_CMD \<equiv> 162"
abbreviation XREADGROUP_CMD :: nat where "XREADGROUP_CMD \<equiv> 164"
abbreviation MGET_CMD :: nat where "MGET_CMD \<equiv> 52"
abbreviation MSET_CMD :: nat where "MSET_CMD \<equiv> 53"
abbreviation MSETNX_CMD :: nat where "MSETNX_CMD \<equiv> 54"
abbreviation GET_CMD :: nat where "GET_CMD \<equiv> 45"
abbreviation OBJECT_CMD :: nat where "OBJECT_CMD \<equiv> 24"

section \<open>The tables\<close>

definition cmd_db :: "redis_cmd_data list" where
  "cmd_db =
   [cmd_row ''none'' 0 0 CMD_NOFLAGS 4 NO_CATG 0 0 0 0,
    cmd_row ''echo'' 0x9580359e 1 CMD_NOFLAGS 4 CONNECTION_CATG 2 0 0 0,
    cmd_row ''ping'' 0x4eab7add 2 CMD_NOFLAGS 4 CONNECTION_CATG (- 1) 0 0 0,
    cmd_row ''quit'' 0x3ca0caee 3 CMD_NOFLAGS 4 CONNECTION_CATG (- 1) 0 0 0,
    cmd_row ''select'' 0x5d8ee9d7 4 CMD_NOFLAGS 6 CONNECTION_CATG 2 0 0 0,
    cmd_row ''client'' 0x6af1c8c 5 CMD_ADMIN_FLAG 6 SERVER_CATG (- 2) 0 0 0,
    cmd_row ''command'' 0xa2da9fe0 6 CMD_NOFLAGS 7 SERVER_CATG (- 1) 0 0 0,
    cmd_row ''config'' 0xc4d1291f 7 CMD_ADMIN_FLAG 6 SERVER_CATG (- 2) 0 0 0,
    cmd_row ''dbsize'' 0x405435ec 8 CMD_NOFLAGS 6 SERVER_CATG 1 0 0 0,
    cmd_row ''debug'' 0xa50aa993 9 CMD_ADMIN_FLAG 5 SERVER_CATG (- 1) 0 0 0,
    cmd_row ''flushall'' 0xbf12593a 10 CMD_ADMIN_FLAG 8 SERVER_CATG (- 1) 0 0 0,
    cmd_row ''flushdb'' 0xcb45afcd 11 CMD_ADMIN_FLAG 7 SERVER_CATG (- 1) 0 0 0,
    cmd_row ''info'' 0xeff3fda0 12 CMD_NOFLAGS 4 SERVER_CATG (- 1) 0 0 0,
    cmd_row ''monitor'' 0xc4608ceb 13 CMD_ADMIN_FLAG 7 SERVER_CATG 1 0 0 0,
    cmd_row ''save'' 0x57328fef 14 CMD_ADMIN_FLAG 4 SERVER_CATG 1 0 0 0,
    cmd_row ''load'' 0xf3196eb 15 CMD_ADMIN_FLAG 4 SERVER_CATG 1 0 0 0,
    cmd_row ''shutdown'' 0x4d5814c1 16 CMD_ADMIN_FLAG 8 SERVER_CATG (- 1) 0 0 0,
    cmd_row ''time'' 0xe0559340 17 CMD_NOFLAGS 4 SERVER_CATG 1 0 0 0,
    cmd_row ''del'' 0x3a589d5b 18 CMD_WRITE_FLAG 3 KEY_CATG (- 2) 1 (- 1) 1,
    cmd_row ''dump'' 0xfab3165b 19 CMD_READ_FLAG 4 KEY_CATG 2 1 1 1,
    cmd_row ''exists'' 0xf0fcb9fa 20 CMD_READ_FLAG 6 KEY_CATG (- 2) 1 (- 1) 1,
    cmd_row ''expire'' 0x6a35a16e 21 CMD_WRITE_FLAG 6 KEY_CATG 3 1 1 1,
    cmd_row ''expireat'' 0x5e6df8a3 22 CMD_WRITE_FLAG 8 KEY_CATG 3 1 1 1,
    cmd_row ''keys'' 0x74ad354 23 CMD_READ_FLAG 4 KEY_CATG 2 0 0 0,
    cmd_row ''object'' 0x2342eab7 24 CMD_READ_FLAG 6 KEY_CATG (- 2) 2 2 2,
    cmd_row ''persist'' 0xd3ae3e55 25 CMD_WRITE_FLAG 7 KEY_CATG 2 1 1 1,
    cmd_row ''pexpire'' 0xf55ebfbe 26 CMD_WRITE_FLAG 7 KEY_CATG 3 1 1 1,
    cmd_row ''pexpireat'' 0xd95ad2fc 27 CMD_WRITE_FLAG 9 KEY_CATG 3 1 1 1,
    cmd_row ''pttl'' 0x21daa61a 28 CMD_READ_FLAG 4 KEY_CATG 2 1 1 1,
    cmd_row ''randomkey'' 0x97057a 29 CMD_READ_FLAG 9 KEY_CATG 1 0 0 0,
    cmd_row ''rename'' 0x85e9d3b3 30 CMD_WRITE_FLAG 6 KEY_CATG 3 1 2 1,
    cmd_row ''renamenx'' 0x9fd901c7 31 CMD_WRITE_FLAG 8 KEY_CATG 3 1 2 1,
    cmd_row ''restore'' 0x29f9aaf 32 CMD_WRITE_FLAG 7 KEY_CATG (- 4) 1 1 1,
    cmd_row ''touch'' 0x6f400d53 33 CMD_WRITE_FLAG 5 KEY_CATG (- 2) 1 1 1,
    cmd_row ''ttl'' 0x669d8927 34 CMD_READ_FLAG 3 KEY_CATG 2 1 1 1,
    cmd_row ''type'' 0x6f0e2558 35 CMD_READ_FLAG 4 KEY_CATG 2 1 1 1,
    cmd_row ''unlink'' 0x915d9e81 36 CMD_WRITE_FLAG 6 KEY_CATG (- 2) 1 (- 1) 1,
    cmd_row ''scan'' 0xc47c4e1d 37 CMD_READ_FLAG 4 KEY_CATG (- 2) 0 0 0,
    cmd_row ''append'' 0xa518d7b1 38 CMD_WRITE_FLAG 6 STRING_CATG 3 1 1 1,
    cmd_row ''bitcount'' 0x7940f690 39 CMD_READ_FLAG 8 STRING_CATG (- 2) 1 1 1,
    cmd_row ''bitfield'' 0x22e8bff5 40 CMD_WRITE_FLAG 8 STRING_CATG (- 2) 1 1 1,
    cmd_row ''bitop'' 0x5818b0a0 41 CMD_WRITE_FLAG 5 STRING_CATG (- 4) 2 (- 1) 1,
    cmd_row ''bitpos'' 0x4d9586b 42 CMD_READ_FLAG 6 STRING_CATG (- 3) 1 1 1,
    cmd_row ''decr'' 0x9ff189ac 43 CMD_WRITE_FLAG 4 STRING_CATG 2 1 1 1,
    cmd_row ''decrby'' 0x5c57332f 44 CMD_WRITE_FLAG 6 STRING_CATG 3 1 1 1,
    cmd_row ''get'' 0x4af1c288 45 CMD_READ_FLAG 3 STRING_CATG 2 1 1 1,
    cmd_row ''getbit'' 0xfef6ab7a 46 CMD_READ_FLAG 6 STRING_CATG 3 1 1 1,
    cmd_row ''getrange'' 0xb1c0d22c 47 CMD_READ_FLAG 8 STRING_CATG 4 1 1 1,
    cmd_row ''getset'' 0xf88be6ea 48 CMD_WRITE_FLAG 6 STRING_CATG 3 1 1 1,
    cmd_row ''incr'' 0x1dad8fb7 49 CMD_WRITE_FLAG 4 STRING_CATG 2 1 1 1,
    cmd_row ''incrby'' 0xecc0cc3b 50 CMD_WRITE_FLAG 6 STRING_CATG 3 1 1 1,
    cmd_row ''incrbyfloat'' 0xf905ee53 51 CMD_WRITE_FLAG 11 STRING_CATG 3 1 1 1,
    cmd_row ''mget'' 0xb4f1a425 52 CMD_READ_FLAG 4 STRING_CATG (- 2) 1 (- 1) 1,
    cmd_row ''mset'' 0x5a8d7db5 53 CMD_WRITE_FLAG 4 STRING_CATG (- 3) 1 (- 1) 2,
    cmd_row ''msetnx'' 0xf8258510 54 CMD_WRITE_FLAG 6 STRING_CATG (- 3) 1 (- 1) 2,
    cmd_row ''psetex'' 0xac199a7e 55 CMD_WRITE_FLAG 6 STRING_CATG 4 1 1 1,
    cmd_row ''set'' 0xa48d1b18 56 CMD_WRITE_FLAG 3 STRING_CATG (- 3) 1 1 1,
    cmd_row ''setbit'' 0x8c0fac33 57 CMD_WRITE_FLAG 6 STRING_CATG 4 1 1 1,
    cmd_row ''setex'' 0x52c54753 58 CMD_WRITE_FLAG 5 STRING_CATG 4 1 1 1,
    cmd_row ''setnx'' 0xfb362c72 59 CMD_WRITE_FLAG 5 STRING_CATG 3 1 1 1,
    cmd_row ''setrange'' 0x14ab59f5 60 CMD_WRITE_FLAG 8 STRING_CATG 4 1 1 1,
    cmd_row ''strlen'' 0xbebb35df 61 CMD_READ_FLAG 6 STRING_CATG 2 1 1 1,
    cmd_row ''blpop'' 0x60a18ff1 62 CMD_WRITE_FLAG 5 LIST_CATG (- 3) 1 (- 2) 1,
    cmd_row ''brpop'' 0xbbc44f58 63 CMD_WRITE_FLAG 5 LIST_CATG (- 3) 1 (- 2) 1,
    cmd_row ''brpoplpush'' 0x1a6a74f1 64 CMD_WRITE_FLAG 10 LIST_CATG 4 1 2 1,
    cmd_row ''lindex'' 0x6045a767 65 CMD_READ_FLAG 6 LIST_CATG 3 1 1 1,
    cmd_row ''linsert'' 0x69e60543 66 CMD_WRITE_FLAG 7 LIST_CATG 5 1 1 1,
    cmd_row ''llen'' 0xc0771f7c 67 CMD_READ_FLAG 4 LIST_CATG 2 1 1 1,
    cmd_row ''lpop'' 0x102d7337 68 CMD_WRITE_FLAG 4 LIST_CATG 2 1 1 1,
    cmd_row ''lpush'' 0x1ce0fc81 69 CMD_WRITE_FLAG 5 LIST_CATG (- 3) 1 1 1,
    cmd_row ''lpushx'' 0xab7dda9b 70 CMD_WRITE_FLAG 6 LIST_CATG (- 3) 1 1 1,
    cmd_row ''lrange'' 0x727a7167 71 CMD_READ_FLAG 6 LIST_CATG 4 1 1 1,
    cmd_row ''lrem'' 0x4a6559d0 72 CMD_WRITE_FLAG 4 LIST_CATG 4 1 1 1,
    cmd_row ''lset'' 0x87c8d70d 73 CMD_WRITE_FLAG 4 LIST_CATG 4 1 1 1,
    cmd_row ''ltrim'' 0xa357bfd0 74 CMD_WRITE_FLAG 5 LIST_CATG 4 1 1 1,
    cmd_row ''rpop'' 0xcb48b39e 75 CMD_WRITE_FLAG 4 LIST_CATG 2 1 1 1,
    cmd_row ''rpoplpush'' 0xb2ef28b 76 CMD_WRITE_FLAG 9 LIST_CATG 3 1 2 1,
    cmd_row ''rpush'' 0xc6c2f72b 77 CMD_WRITE_FLAG 5 LIST_CATG (- 3) 1 1 1,
    cmd_row ''rpushx'' 0x620e650e 78 CMD_WRITE_FLAG 6 LIST_CATG (- 3) 1 1 1,
    cmd_row ''happend'' 0xe805ce94 79 CMD_WRITE_FLAG 7 HASH_CATG (- 4) 1 1 1,
    cmd_row ''hdel'' 0x623f60bd 80 CMD_WRITE_FLAG 4 HASH_CATG (- 3) 1 1 1,
    cmd_row ''hexists'' 0xbde1a0df 81 CMD_READ_FLAG 7 HASH_CATG 3 1 1 1,
    cmd_row ''hget'' 0x12963f6e 82 CMD_READ_FLAG 4 HASH_CATG 3 1 1 1,
    cmd_row ''hgetall'' 0x9e6a1427 83 CMD_READ_FLAG 7 HASH_CATG 2 1 1 1,
    cmd_row ''hincrby'' 0xa1ddd51e 84 CMD_WRITE_FLAG 7 HASH_CATG 4 1 1 1,
    cmd_row ''hincrbyfloat'' 0xb4db7b47 85 CMD_WRITE_FLAG 12 HASH_CATG 4 1 1 1,
    cmd_row ''hkeys'' 0xc283fb5b 86 CMD_READ_FLAG 5 HASH_CATG 2 1 1 1,
    cmd_row ''hlen'' 0xbb552e8f 87 CMD_READ_FLAG 4 HASH_CATG 2 1 1 1,
    cmd_row ''hmget'' 0x71388c2a 88 CMD_READ_FLAG 5 HASH_CATG (- 3) 1 1 1,
    cmd_row ''hmset'' 0x9f4455ba 89 CMD_WRITE_FLAG 5 HASH_CATG (- 4) 1 1 1,
    cmd_row ''hset'' 0xfceae6fe 90 CMD_WRITE_FLAG 4 HASH_CATG (- 4) 1 1 1,
    cmd_row ''hsetnx'' 0xa5e0d97e 91 CMD_WRITE_FLAG 6 HASH_CATG 4 1 1 1,
    cmd_row ''hstrlen'' 0xf3a62cfa 92 CMD_READ_FLAG 7 HASH_CATG 3 1 1 1,
    cmd_row ''hvals'' 0x87f71efb 93 CMD_READ_FLAG 5 HASH_CATG 2 1 1 1,
    cmd_row ''hscan'' 0x1b56612 94 CMD_READ_FLAG 5 HASH_CATG (- 3) 1 1 1,
    cmd_row ''sadd'' 0xbdd9cd83 95 CMD_WRITE_FLAG 4 SET_CATG (- 3) 1 1 1,
    cmd_row ''scard'' 0xc5082eb4 96 CMD_READ_FLAG 5 SET_CATG 2 1 1 1,
    cmd_row ''sdiff'' 0x742d4811 97 CMD_READ_FLAG 5 SET_CATG (- 2) 1 (- 1) 1,
    cmd_row ''sdiffstore'' 0x28f1c48e 98 CMD_WRITE_FLAG 10 SET_CATG (- 3) 1 (- 1) 1,
    cmd_row ''sinter'' 0x5d462659 99 CMD_READ_FLAG 6 SET_CATG (- 2) 1 (- 1) 1,
    cmd_row ''sinterstore'' 0x9126a2ff 100 CMD_WRITE_FLAG 11 SET_CATG (- 3) 1 (- 1) 1,
    cmd_row ''sismember'' 0x97ed994b 101 CMD_READ_FLAG 9 SET_CATG 3 1 1 1,
    cmd_row ''smembers'' 0x73c6c4a5 102 CMD_READ_FLAG 8 SET_CATG 2 1 1 1,
    cmd_row ''smove'' 0xa208752d 103 CMD_WRITE_FLAG 5 SET_CATG 4 1 2 1,
    cmd_row ''spop'' 0x160d1926 104 CMD_WRITE_FLAG 4 SET_CATG (- 2) 1 1 1,
    cmd_row ''srandmember'' 0x38ebbda3 105 CMD_READ_FLAG 11 SET_CATG (- 2) 1 1 1,
    cmd_row ''srem'' 0x4c4533c1 106 CMD_WRITE_FLAG 4 SET_CATG (- 3) 1 1 1,
    cmd_row ''sunion'' 0x63667c69 107 CMD_READ_FLAG 6 SET_CATG (- 2) 1 (- 1) 1,
    cmd_row ''sunionstore'' 0x5b9ca3db 108 CMD_WRITE_FLAG 11 SET_CATG (- 3) 1 (- 1) 1,
    cmd_row ''sscan'' 0x3c3bca4 109 CMD_READ_FLAG 5 SET_CATG (- 3) 1 1 1,
    cmd_row ''zadd'' 0x96d804dd 110 CMD_WRITE_FLAG 4 SORTED_SET_CATG (- 4) 1 1 1,
    cmd_row ''zcard'' 0x387e4a89 111 CMD_READ_FLAG 5 SORTED_SET_CATG 2 1 1 1,
    cmd_row ''zcount'' 0x90633599 112 CMD_READ_FLAG 6 SORTED_SET_CATG 4 1 1 1,
    cmd_row ''zincrby'' 0xed807628 113 CMD_WRITE_FLAG 7 SORTED_SET_CATG 4 1 1 1,
    cmd_row ''zinterstore'' 0xaa6930f2 114 CMD_WRITE_MV_FLAG 11 SORTED_SET_CATG (- 4) 1 1 1,
    cmd_row ''zlexcount'' 0x63f59f2a 115 CMD_READ_FLAG 9 SORTED_SET_CATG 4 1 1 1,
    cmd_row ''zrange'' 0xdb0fd6ed 116 CMD_READ_FLAG 6 SORTED_SET_CATG (- 4) 1 1 1,
    cmd_row ''zrangebylex'' 0x63952c89 117 CMD_READ_FLAG 11 SORTED_SET_CATG (- 4) 1 1 1,
    cmd_row ''zrevrangebylex'' 0xb4c98dd2 118 CMD_READ_FLAG 14 SORTED_SET_CATG (- 4) 1 1 1,
    cmd_row ''zrangebyscore'' 0xa9b2e2f1 119 CMD_READ_FLAG 13 SORTED_SET_CATG (- 4) 1 1 1,
    cmd_row ''zrank'' 0xbe173ecd 120 CMD_READ_FLAG 5 SORTED_SET_CATG 3 1 1 1,
    cmd_row ''zrem'' 0x6744fa9f 121 CMD_WRITE_FLAG 4 SORTED_SET_CATG (- 3) 1 1 1,
    cmd_row ''zremrangebylex'' 0xf9193bc5 122 CMD_WRITE_FLAG 14 SORTED_SET_CATG 4 1 1 1,
    cmd_row ''zremrangebyrank'' 0x3dc65964 123 CMD_WRITE_FLAG 15 SORTED_SET_CATG 4 1 1 1,
    cmd_row ''zremrangebyscore'' 0x41afbf99 124 CMD_WRITE_FLAG 16 SORTED_SET_CATG 4 1 1 1,
    cmd_row ''zrevrange'' 0x54ce86b8 125 CMD_READ_FLAG 9 SORTED_SET_CATG (- 4) 1 1 1,
    cmd_row ''zrevrangebyscore'' 0x90b35fac 126 CMD_READ_FLAG 16 SORTED_SET_CATG (- 4) 1 1 1,
    cmd_row ''zrevrank'' 0xb44209f0 127 CMD_READ_FLAG 8 SORTED_SET_CATG 3 1 1 1,
    cmd_row ''zscore'' 0x9bd50094 128 CMD_READ_FLAG 6 SORTED_SET_CATG 3 1 1 1,
    cmd_row ''zunionstore'' 0x60d331d6 129 CMD_WRITE_MV_FLAG 11 SORTED_SET_CATG (- 4) 1 1 1,
    cmd_row ''zscan'' 0xfeb5d899 130 CMD_READ_FLAG 5 SORTED_SET_CATG (- 3) 1 1 1,
    cmd_row ''zpopmin'' 0x40898d3b 131 CMD_WRITE_FLAG 7 SORTED_SET_CATG (- 2) 1 1 1,
    cmd_row ''zpopmax'' 0xeb626e04 132 CMD_WRITE_FLAG 7 SORTED_SET_CATG (- 2) 1 1 1,
    cmd_row ''bzpopmin'' 0x85cbf474 133 CMD_WRITE_FLAG 8 SORTED_SET_CATG (- 3) 1 (- 2) 1,
    cmd_row ''bzpopmax'' 0x2e20174b 134 CMD_WRITE_FLAG 8 SORTED_SET_CATG (- 3) 1 (- 2) 1,
    cmd_row ''geoadd'' 0xb9b8cd97 135 CMD_WRITE_FLAG 6 GEO_CATG (- 5) 1 1 1,
    cmd_row ''geohash'' 0xd84fa2bc 136 CMD_READ_FLAG 7 GEO_CATG (- 2) 1 1 1,
    cmd_row ''geopos'' 0x13ceac6 137 CMD_READ_FLAG 6 GEO_CATG (- 2) 1 1 1,
    cmd_row ''geodist'' 0x3065c6d3 138 CMD_READ_FLAG 7 GEO_CATG (- 4) 1 1 1,
    cmd_row ''georadius'' 0xda4fa362 139 CMD_WRITE_MV_FLAG 9 GEO_CATG (- 6) 1 1 1,
    cmd_row ''georadiusbymember'' 0x8b414043 140 CMD_WRITE_MV_FLAG 17 GEO_CATG (- 5) 1 1 1,
    cmd_row ''pfadd'' 0x7d56a5b8 141 CMD_WRITE_FLAG 5 HYPERLOGLOG_CATG (- 2) 1 1 1,
    cmd_row ''pfcount'' 0x1df7341f 142 CMD_READ_FLAG 7 HYPERLOGLOG_CATG (- 2) 1 (- 1) 1,
    cmd_row ''pfmerge'' 0x19a765cb 143 CMD_WRITE_FLAG 7 HYPERLOGLOG_CATG (- 2) 1 (- 1) 1,
    cmd_row ''psubscribe'' 0xb8e631e0 144 CMD_NOFLAGS 10 PUBSUB_CATG (- 2) 0 0 0,
    cmd_row ''pubsub'' 0x15f739e3 145 CMD_NOFLAGS 6 PUBSUB_CATG (- 2) 0 0 0,
    cmd_row ''publish'' 0xc7bd0d16 146 CMD_NOFLAGS 7 PUBSUB_CATG 3 0 0 0,
    cmd_row ''punsubscribe'' 0xb4abbb36 147 CMD_NOFLAGS 12 PUBSUB_CATG (- 1) 0 0 0,
    cmd_row ''subscribe'' 0xb757e03d 148 CMD_NOFLAGS 9 PUBSUB_CATG (- 2) 0 0 0,
    cmd_row ''unsubscribe'' 0x6e3e2140 149 CMD_NOFLAGS 11 PUBSUB_CATG (- 1) 0 0 0,
    cmd_row ''discard'' 0xd23e9106 150 CMD_NOFLAGS 7 TRANSACTION_CATG 1 0 0 0,
    cmd_row ''exec'' 0xba224361 151 CMD_NOFLAGS 4 TRANSACTION_CATG 1 0 0 0,
    cmd_row ''multi'' 0xe7229311 152 CMD_NOFLAGS 5 TRANSACTION_CATG 1 0 0 0,
    cmd_row ''unwatch'' 0xd514cb3c 153 CMD_NOFLAGS 7 TRANSACTION_CATG 1 0 0 0,
    cmd_row ''watch'' 0xb0335e4d 154 CMD_READ_FLAG 5 TRANSACTION_CATG (- 2) 1 (- 1) 1,
    cmd_row ''xinfo'' 0xa518b47c 155 CMD_READ_FLAG 5 STREAM_CATG (- 2) 2 2 1,
    cmd_row ''xadd'' 0x29bf275c 156 CMD_WRITE_FLAG 4 STREAM_CATG (- 5) 1 1 1,
    cmd_row ''xtrim'' 0xcc3060b3 157 CMD_WRITE_FLAG 5 STREAM_CATG (- 2) 1 1 1,
    cmd_row ''xdel'' 0x8b5bd180 158 CMD_WRITE_FLAG 4 STREAM_CATG (- 2) 1 1 1,
    cmd_row ''xrange'' 0x83762e 159 CMD_READ_FLAG 6 STREAM_CATG (- 4) 1 1 1,
    cmd_row ''xrevrange'' 0xb95f5cd9 160 CMD_READ_FLAG 9 STREAM_CATG (- 4) 1 1 1,
    cmd_row ''xlen'' 0x52319fb2 161 CMD_READ_FLAG 4 STREAM_CATG 2 1 1 1,
    cmd_row ''xread'' 0xe9817356 162 CMD_READ_MV_FLAG 5 STREAM_CATG (- 3) 1 1 1,
    cmd_row ''xgroup'' 0x44dd7e87 163 CMD_WRITE_FLAG 6 STREAM_CATG (- 2) 2 2 1,
    cmd_row ''xreadgroup'' 0x21c71fc9 164 CMD_WRITE_MV_FLAG 10 STREAM_CATG (- 3) 1 1 1,
    cmd_row ''xack'' 0xdc1d23d 165 CMD_WRITE_FLAG 4 STREAM_CATG (- 4) 1 1 1,
    cmd_row ''xclaim'' 0xd5301015 166 CMD_WRITE_FLAG 6 STREAM_CATG (- 5) 1 1 1,
    cmd_row ''xpending'' 0xe44a9236 167 CMD_READ_FLAG 8 STREAM_CATG (- 3) 1 1 1,
    cmd_row ''xsetid'' 0x429c28ba 168 CMD_WRITE_FLAG 6 STREAM_CATG 4 1 1 1]"

definition cmd_hash_ht :: "nat list" where
  "cmd_hash_ht =
   [0,0,0,0,0,0,0,0,0,0,0,0,0,0,0,0,0,97,0,0,0,166,0,0,0,0,0,0,0,0,0,142,
    0,0,0,0,0,52,0,83,0,0,88,0,0,0,0,0,0,0,0,57,0,0,0,0,0,0,0,50,0,148,0,0,
    0,0,0,140,0,0,0,0,0,0,0,0,0,0,0,0,0,0,0,0,0,0,0,0,0,0,0,0,0,0,0,0,
    0,0,0,0,0,0,0,0,0,107,0,42,0,0,0,0,0,0,59,0,133,0,0,0,0,0,0,0,155,0,0,0,
    0,69,0,0,0,0,0,0,0,117,0,0,5,0,98,0,0,0,0,0,128,0,0,0,0,130,0,0,0,0,0,0,
    41,0,0,22,109,102,0,0,0,0,0,0,0,0,0,0,0,0,0,157,0,0,0,0,0,0,168,0,0,80,0,0,
    0,16,0,0,0,0,0,0,0,0,0,0,0,0,0,0,0,0,0,0,0,0,0,0,0,160,0,0,0,110,0,81,
    0,0,0,0,0,0,0,0,0,0,0,13,0,0,0,0,0,64,114,0,0,0,0,0,0,0,92,0,0,0,0,0,
    0,0,0,0,0,0,150,0,0,0,0,0,0,0,78,0,54,0,0,0,0,0,146,0,0,0,0,0,0,0,84,7,
    0,0,0,0,0,0,104,34,0,0,0,0,0,103,0,0,0,0,0,0,0,0,0,0,0,0,10,131,0,0,0,0,
    149,0,0,66,0,0,0,0,0,0,0,101,0,0,0,0,0,0,0,33,0,0,0,0,35,0,0,18,0,0,0,0,
    0,0,0,0,123,0,0,71,0,0,0,0,0,0,21,0,0,0,0,0,0,0,0,0,0,0,29,0,0,0,91,0,
    158,0,0,95,0,0,0,0,0,0,0,0,0,0,0,0,0,0,0,9,0,0,0,135,0,112,0,0,0,0,1,0,
    12,0,0,105,0,0,0,0,0,0,0,0,43,0,0,0,0,0,0,0,0,53,0,0,141,0,89,0,0,0,0,0,
    0,0,0,0,0,0,0,31,0,0,0,143,0,0,0,0,72,0,118,0,0,0,129,4,0,0,0,0,0,0,0,61,
    144,0,0,145,0,0,0,0,0,0,0,0,8,0,0,0,127,0,0,0,0,60,0,0,0,0,20,0,0,0,0,0,
    0,0,0,0,132,0,0,0,0,0,0,0,0,0,0,0,0,0,94,0,0,0,0,0,0,0,28,0,0,37,0,0,
    0,0,0,0,0,0,0,0,113,0,0,0,47,0,159,0,0,0,0,0,0,0,167,0,0,0,0,0,0,165,0,0,
    0,0,0,0,0,0,0,0,0,0,0,0,0,154,0,0,0,0,0,51,0,25,0,0,0,99,0,19,0,0,0,0,
    0,0,0,0,0,0,0,0,0,0,0,0,0,0,0,0,0,0,0,0,0,0,0,0,0,0,0,0,0,0,55,0,
    0,36,0,0,0,0,0,163,45,111,0,76,0,0,0,87,39,0,0,0,79,0,0,0,0,0,0,70,0,0,0,121,
    0,0,0,0,0,0,0,0,0,0,0,0,0,0,0,32,0,0,0,0,96,0,0,24,125,0,0,0,136,0,0,0,
    0,0,0,0,0,0,137,0,0,0,0,0,0,120,0,0,0,0,0,138,0,0,0,0,0,0,0,0,0,2,0,0,
    0,0,0,0,0,0,0,0,0,0,48,15,0,116,3,0,0,119,0,0,0,0,0,0,0,0,0,93,27,0,90,100,
    0,0,0,0,0,0,0,0,0,0,0,0,0,73,0,0,0,152,0,0,0,0,0,0,56,0,0,0,0,0,0,0,
    0,0,0,0,0,0,0,0,0,0,115,77,0,0,0,44,0,0,0,0,0,0,147,68,0,0,0,0,153,0,0,0,
    17,0,0,0,0,0,0,85,0,0,0,134,0,0,0,0,0,0,0,58,23,0,162,0,63,0,0,86,156,0,0,0,
    0,151,139,0,0,0,0,65,0,0,0,0,0,0,82,0,0,0,0,0,0,0,0,0,0,0,46,0,67,0,0,0,
    0,0,0,0,0,0,0,0,0,0,0,0,0,0,0,0,0,0,0,0,0,0,0,0,0,124,0,0,0,0,75,0,
    0,0,0,0,0,0,0,0,0,0,0,0,126,0,0,0,0,38,161,30,0,0,0,49,0,0,0,0,0,0,26,0,
    0,106,0,0,0,122,0,0,0,164,0,0,0,11,0,0,74,0,0,0,0,0,0,0,0,0,0,108,0,0,0,0,
    6,0,0,0,0,0,0,0,0,0,0,0,0,0,0,14,0,62,0,0,0,40,0,0,0,0,0,0,0,0,0,0]"

section \<open>The hash of a name\<close>

text \<open>
  The name is masked four bytes at a time, the last word past its end, but only the bytes of
  the name are hashed: the mask takes lower case to upper case.
\<close>

definition mask_byte :: "byte \<Rightarrow> byte" where
  "mask_byte b = b AND 0xdf"

definition get_redis_cmd_hash :: "(byte list \<Rightarrow> u32 \<Rightarrow> u32) \<Rightarrow> byte list \<Rightarrow> u32" where
  "get_redis_cmd_hash crc cmd = crc (map mask_byte cmd) 0x36fbdccd"

definition get_redis_cmd :: "u32 \<Rightarrow> nat" where
  "get_redis_cmd h = cmd_hash_ht ! (unat (h mod 1024))"

text \<open>CRC-32C, one bit at a time, the polynomial reflected.\<close>

definition crc32c_bit :: "u32 \<Rightarrow> u32" where
  "crc32c_bit c = drop_bit 1 c XOR (if bit c 0 then 0x82f63b78 else 0)"

definition crc32c_byte :: "u32 \<Rightarrow> byte \<Rightarrow> u32" where
  "crc32c_byte c b =
     crc32c_bit (crc32c_bit (crc32c_bit (crc32c_bit (crc32c_bit (crc32c_bit (crc32c_bit (crc32c_bit
       (c XOR ucast b))))))))"

definition crc32c :: "byte list \<Rightarrow> u32 \<Rightarrow> u32" where
  "crc32c bs c = foldl crc32c_byte c bs"

section \<open>The tables fit together\<close>

lemma length_cmd_db: "length cmd_db = REDIS_CMD_DB_SIZE"
  by (simp add: cmd_db_def REDIS_CMD_DB_SIZE_def)

lemma cmd_ids: "map cmd_id cmd_db = [0..<REDIS_CMD_DB_SIZE]"
  by (simp add: cmd_db_def cmd_row_def REDIS_CMD_DB_SIZE_def upt_rec [of 0] upt_rec [of "Suc 0"]
      numeral_2_eq_2 [symmetric])

lemma cmd_id_nth: "k < REDIS_CMD_DB_SIZE \<Longrightarrow> cmd_id (cmd_db ! k) = k"
  using cmd_ids length_cmd_db by (metis nth_map nth_upt add_0)

lemma cmd_hash_found: "list_all (\<lambda>r. get_redis_cmd (cmd_hash r) = cmd_id r) (tl cmd_db)"
  by (simp add: cmd_db_def cmd_row_def get_redis_cmd_def cmd_hash_ht_def)

lemma get_redis_cmd_row: "0 < k \<Longrightarrow> k < REDIS_CMD_DB_SIZE \<Longrightarrow> get_redis_cmd (cmd_hash (cmd_db ! k)) = k"
proof -
  assume k: "0 < k" "k < REDIS_CMD_DB_SIZE"
  then have "cmd_db ! k = tl cmd_db ! (k - 1)" "k - 1 < length (tl cmd_db)"
    by (simp_all add: length_cmd_db nth_tl)
  then have "cmd_db ! k \<in> set (tl cmd_db)" by (metis nth_mem)
  then show ?thesis using cmd_hash_found k by (auto simp: list_all_iff cmd_id_nth)
qed

lemma cmd_db_get: "cmd_db ! GET_CMD = cmd_row ''get'' 0x4af1c288 GET_CMD CMD_READ_FLAG 3 STRING_CATG 2 1 1 1"
  by (simp add: cmd_db_def)

lemma cmd_db_mset: "cmd_db ! MSET_CMD = cmd_row ''mset'' 0x5a8d7db5 MSET_CMD CMD_WRITE_FLAG 4 STRING_CATG (- 3) 1 (- 1) 2"
  by (simp add: cmd_db_def)

lemma crc32c_get: "get_redis_cmd_hash crc32c (ascii ''get'') = 0x4af1c288"
proof -
  have "crc32c_byte 0x36fbdccd 71 = 0xe922e89c" "crc32c_byte 0xe922e89c 69 = 0xab88188f"
    "crc32c_byte 0xab88188f 84 = 0x4af1c288"
    by (simp_all add: crc32c_byte_def crc32c_bit_def)
  then show ?thesis by (simp add: get_redis_cmd_hash_def crc32c_def mask_byte_def of_char_def)
qed

section \<open>Property\<close>

text \<open>C35: every command is found by its name: the slot of the hash table that the hash of a row
  selects holds the number of that row, so an argument that hashes to the row's hash, as the name of
  the command does in upper and in lower case, is that command. The 168 hashes collide nowhere.\<close>

theorem command_found:
  assumes "0 < k" "k < REDIS_CMD_DB_SIZE" "get_redis_cmd_hash crc arg = cmd_hash (cmd_db ! k)"
  shows "get_redis_cmd (get_redis_cmd_hash crc arg) = k \<and> cmd_id (cmd_db ! k) = k"
  using get_redis_cmd_row [OF assms(1,2)] cmd_id_nth [OF assms(2)] assms(3) by simp

theorem command_found_witness:
  "get_redis_cmd (get_redis_cmd_hash crc32c (ascii ''get'')) = GET_CMD"
proof -
  have "get_redis_cmd_hash crc32c (ascii ''get'') = cmd_hash (cmd_db ! GET_CMD)"
    unfolding cmd_db_get crc32c_get by (simp add: cmd_row_def)
  from command_found [OF _ _ this] show ?thesis by (simp add: REDIS_CMD_DB_SIZE_def)
qed

end
