(* ===== verification/Redis_Exec.thy ===== *)
theory Redis_Exec
  imports Redis_Cmd "HOL-Library.Signed_Division"
begin

text \<open>
  The front of the command executor, \<open>src/redis_exec.cpp\<close> from \<open>locate_movablekeys\<close> to the key
  setup of \<open>exec\<close>: how an argument array becomes a command, its geometry and its keys. The state
  is the part of \<open>RedisExec\<close> these functions use. \<open>None\<close> stands for behaviour the language leaves
  open: a read outside the command table or through the wrong member of a message, or a loop that
  does not end.
\<close>

section \<open>Status\<close>

text \<open>
  \<open>ExecStatus\<close> in the order of the enumeration, which the code compares; three values are those of
  raikv's \<open>EvKeyCtx\<close> and stand where the enumeration puts them.
\<close>

datatype exec_status =
    EXEC_OK | EXEC_SETUP_OK | EXEC_SEND_OK | EXEC_SEND_NIL | EXEC_SEND_NULL | EXEC_SEND_INT
  | EXEC_SEND_ZERO | EXEC_SEND_ZEROARR | EXEC_SEND_ONE | EXEC_SEND_NEG_ONE | EXEC_SEND_ZERO_STRING
  | EXEC_SUCCESS | EXEC_DEPENDS | EXEC_CONTINUE | EXEC_QUEUED | EXEC_BLOCKED | EXEC_QUIT
  | EXEC_DEBUG | EXEC_SKIP | EXEC_ABORT_SEND_ZERO | EXEC_ABORT_SEND_NIL | EXEC_SEND_DATA
  | ERR_KV_STATUS | ERR_MSG_STATUS | ERR_BAD_CMD | ERR_BAD_ARGS | ERR_BAD_TYPE | ERR_BAD_RANGE
  | ERR_NO_GROUP | ERR_GROUP_EXISTS | ERR_STREAM_ID | ERR_ALLOC_FAIL | ERR_KEY_EXISTS
  | ERR_KEY_DOESNT_EXIST | ERR_BAD_MULTI | ERR_BAD_EXEC | ERR_BAD_DISCARD | ERR_ABORT_TRANS
  | ERR_SAVE | ERR_LOAD

definition exec_statuses :: "exec_status list" where
  "exec_statuses =
     [EXEC_OK, EXEC_SETUP_OK, EXEC_SEND_OK, EXEC_SEND_NIL, EXEC_SEND_NULL, EXEC_SEND_INT,
      EXEC_SEND_ZERO, EXEC_SEND_ZEROARR, EXEC_SEND_ONE, EXEC_SEND_NEG_ONE, EXEC_SEND_ZERO_STRING,
      EXEC_SUCCESS, EXEC_DEPENDS, EXEC_CONTINUE, EXEC_QUEUED, EXEC_BLOCKED, EXEC_QUIT,
      EXEC_DEBUG, EXEC_SKIP, EXEC_ABORT_SEND_ZERO, EXEC_ABORT_SEND_NIL, EXEC_SEND_DATA,
      ERR_KV_STATUS, ERR_MSG_STATUS, ERR_BAD_CMD, ERR_BAD_ARGS, ERR_BAD_TYPE, ERR_BAD_RANGE,
      ERR_NO_GROUP, ERR_GROUP_EXISTS, ERR_STREAM_ID, ERR_ALLOC_FAIL, ERR_KEY_EXISTS,
      ERR_KEY_DOESNT_EXIST, ERR_BAD_MULTI, ERR_BAD_EXEC, ERR_BAD_DISCARD, ERR_ABORT_TRANS,
      ERR_SAVE, ERR_LOAD]"

definition status_code :: "exec_status \<Rightarrow> nat" where
  "status_code s = length (takeWhile (\<lambda>t. t \<noteq> s) exec_statuses)"

lemma exec_statuses_nth: "exec_statuses ! status_code s = s"
  by (cases s) (simp_all add: exec_statuses_def status_code_def)

instantiation exec_status :: linorder
begin

definition less_eq_exec_status :: "exec_status \<Rightarrow> exec_status \<Rightarrow> bool" where
  "less_eq_exec_status s t \<longleftrightarrow> status_code s \<le> status_code t"

definition less_exec_status :: "exec_status \<Rightarrow> exec_status \<Rightarrow> bool" where
  "less_exec_status s t \<longleftrightarrow> status_code s < status_code t"

instance
proof
  fix s t u :: exec_status
  show "s < t \<longleftrightarrow> s \<le> t \<and> \<not> t \<le> s" by (auto simp: less_eq_exec_status_def less_exec_status_def)
  show "s \<le> s" by (simp add: less_eq_exec_status_def)
  show "s \<le> t \<Longrightarrow> t \<le> u \<Longrightarrow> s \<le> u" by (simp add: less_eq_exec_status_def)
  show "s \<le> t \<or> t \<le> s" by (auto simp: less_eq_exec_status_def)
  assume "s \<le> t" "t \<le> s"
  then have "status_code s = status_code t" by (simp add: less_eq_exec_status_def)
  then show "s = t" using exec_statuses_nth by metis
qed

end

definition exec_status_success :: "exec_status \<Rightarrow> bool" where
  "exec_status_success s \<longleftrightarrow> s \<le> EXEC_SUCCESS"

definition exec_status_fail :: "exec_status \<Rightarrow> bool" where
  "exec_status_fail s \<longleftrightarrow> s > EXEC_SUCCESS"

section \<open>State\<close>

record redis_exec =
  ex_msg :: redis_msg
  ex_cmd :: nat
  ex_catg :: redis_catg
  cmd_flags :: u16
  ex_arity :: int
  key_first :: int
  key_last :: int
  key_step :: int
  step_mask :: u64
  argc :: nat
  cmd_state :: byte
  key_cnt :: nat
  key_done :: nat

text \<open>The bits of \<open>cmd_state\<close>.\<close>

abbreviation CMD_STATE_MONITOR :: byte where "CMD_STATE_MONITOR \<equiv> 1"
abbreviation CMD_STATE_CLIENT_REPLY_SKIP :: byte where "CMD_STATE_CLIENT_REPLY_SKIP \<equiv> 2"
abbreviation CMD_STATE_CLIENT_REPLY_OFF :: byte where "CMD_STATE_CLIENT_REPLY_OFF \<equiv> 4"
abbreviation CMD_STATE_MULTI_QUEUED :: byte where "CMD_STATE_MULTI_QUEUED \<equiv> 8"
abbreviation CMD_STATE_EXEC_MULTI :: byte where "CMD_STATE_EXEC_MULTI \<equiv> 16"
abbreviation CMD_STATE_SAVE :: byte where "CMD_STATE_SAVE \<equiv> 32"
abbreviation CMD_STATE_LOAD :: byte where "CMD_STATE_LOAD \<equiv> 64"

text \<open>\<open>(uint16_t) i\<close> stored in an \<open>int16_t\<close>\<close>

definition to_int16 :: "int \<Rightarrow> int" where
  "to_int16 i = signed_take_bit 15 i"

definition setup_cmd :: "redis_cmd_data \<Rightarrow> redis_exec \<Rightarrow> redis_exec" where
  "setup_cmd c ex = ex\<lparr>ex_catg := cmd_catg c, ex_arity := cmd_arity c, key_first := cmd_first c,
     key_last := cmd_last c, key_step := cmd_step c, cmd_flags := cmd_flag c, step_mask := 0\<rparr>"

definition cmd_db_row :: "nat \<Rightarrow> redis_cmd_data option" where
  "cmd_db_row k = (if k < length cmd_db then Some (cmd_db ! k) else None)"

section \<open>The command\<close>

definition check_arity :: "redis_exec \<Rightarrow> exec_status" where
  "check_arity ex =
     (if ex_arity ex > 0 then (if ex_arity ex \<noteq> int (argc ex) then ERR_BAD_ARGS else EXEC_OK)
      else if - ex_arity ex > int (argc ex) then ERR_BAD_ARGS else EXEC_OK)"

definition prepare_exec_command :: "(byte list \<Rightarrow> u32 \<Rightarrow> u32) \<Rightarrow> redis_exec \<Rightarrow> (exec_status \<times> redis_exec) option" where
  "prepare_exec_command crc ex0 =
     (case get_arg (ex_msg ex0) 0 of None \<Rightarrow> Some (ERR_BAD_CMD, ex0)
      | Some arg0 \<Rightarrow>
        let ex = ex0\<lparr>argc := (case ex_msg ex0 of RArr len ms \<Rightarrow> nat len | _ \<Rightarrow> 1)\<rparr> in
        (case arg0 of
           RStr t len s \<Rightarrow>
             if t = DS_ERROR_STRING then Some (ERR_BAD_CMD, ex)
             else if len \<le> 0 \<or> nat len \<ge> MAX_CMD_LEN then Some (ERR_BAD_CMD, ex)
             else let h = get_redis_cmd_hash crc (take (nat len) s); cmd = get_redis_cmd h in
               (case cmd_db_row cmd of None \<Rightarrow> None
                | Some c \<Rightarrow>
                  let ex' = setup_cmd c (ex\<lparr>ex_cmd := cmd\<rparr>) in
                  if cmd_hash c \<noteq> h then Some (ERR_BAD_CMD, ex')
                  else Some (check_arity ex', ex'))
         | RInt ival \<Rightarrow>
             if ival \<le> 0 \<or> ival > int REDIS_CMD_DB_SIZE then Some (ERR_BAD_CMD, ex)
             else (case cmd_db_row (nat ival) of None \<Rightarrow> None
                | Some c \<Rightarrow>
                  let ex' = setup_cmd c (ex\<lparr>ex_cmd := nat ival\<rparr>) in Some (check_arity ex', ex'))
         | RArr len ms \<Rightarrow> Some (ERR_BAD_CMD, ex)))"

section \<open>Key positions\<close>

text \<open>\<open>(uint64_t) 1 << i\<close>; the count of a shift is taken modulo the width.\<close>

definition shl1 :: "int \<Rightarrow> u64" where
  "shl1 i = push_bit (nat (i mod 64)) 1"

text \<open>The argument loops of XREAD and XREADGROUP: the number of arguments an option takes with
  its name, the last option of the list being STREAMS.\<close>

definition streams_geometry :: "int \<Rightarrow> redis_exec \<Rightarrow> (bool \<times> redis_exec) option" where
  "streams_geometry i ex =
     (if i < int (argc ex) then
        let ex' = ex\<lparr>key_first := to_int16 i,
                     key_last := to_int16 (i + (int (argc ex) - i) div 2 - 1), key_step := 1\<rparr> in
        Some (key_first ex' + (key_last ex' - key_first ex' + 1) * 2 = int (argc ex), ex')
      else Some (False, ex))"

function streams_loop :: "(byte list \<times> nat) list \<Rightarrow> nat \<Rightarrow> redis_exec \<Rightarrow> (bool \<times> redis_exec) option" where
  "streams_loop opts i ex =
     (if i \<ge> argc ex then Some (False, ex)
      else case match_arg (ex_msg ex) i (map fst opts @ [ascii ''streams'']) of None \<Rightarrow> None
        | Some n \<Rightarrow>
          if n = 0 then Some (False, ex)
          else if n > length opts then streams_geometry (int i + 1) ex
          else streams_loop opts (i + max 1 (snd (opts ! (n - 1)))) ex)"
  by pat_completeness auto
termination
  by (relation "measure (\<lambda>(opts, i, ex). argc ex - i)") auto

declare streams_loop.simps [simp del]

definition xread_opts :: "(byte list \<times> nat) list" where
  "xread_opts = [(ascii ''count'', 2), (ascii ''block'', 2)]"

definition xreadgroup_opts :: "(byte list \<times> nat) list" where
  "xreadgroup_opts = [(ascii ''group'', 3), (ascii ''count'', 2), (ascii ''block'', 2), (ascii ''noack'', 1)]"

definition locate_movablekeys :: "redis_exec \<Rightarrow> (bool \<times> redis_exec) option" where
  "locate_movablekeys ex0 =
     (let ex = ex0\<lparr>key_first := 0, key_last := 0, key_step := 0\<rparr>; cmd = ex_cmd ex in
      if cmd = GEORADIUS_CMD \<or> cmd = GEORADIUSBYMEMBER_CMD then
        let ex1 = ex\<lparr>key_first := 1, key_last := 1, key_step := 1, step_mask := shl1 1\<rparr> in
        if argc ex > 2 then
          (case match_arg (ex_msg ex) (argc ex - 2) [ascii ''STORE'', ascii ''STOREDIST''] of
             None \<Rightarrow> None
           | Some n \<Rightarrow>
             if n \<noteq> 0 then
               let l = to_int16 (int (argc ex) - 1) in
               Some (True, ex1\<lparr>key_last := l, step_mask := shl1 l, key_step := to_int16 (l - 1)\<rparr>)
             else Some (True, ex1))
        else Some (True, ex1)
      else if cmd = ZINTERSTORE_CMD \<or> cmd = ZUNIONSTORE_CMD then
        (case get_arg_int (ex_msg ex) 2 of None \<Rightarrow> Some (False, ex)
         | Some i \<Rightarrow>
           let ex1 = ex\<lparr>step_mask := push_bit 3 (shl1 i - 1) OR shl1 1,
                        key_first := 1, key_last := to_int16 (2 + i), key_step := 1\<rparr> in
           Some (\<not> (of_int (3 + i) :: u64) > of_nat (argc ex), ex1))
      else if cmd = XREAD_CMD then streams_loop xread_opts 1 ex
      else if cmd = XREADGROUP_CMD then streams_loop xreadgroup_opts 1 ex
      else Some (False, ex))"

partial_function (option) next_masked :: "redis_exec \<Rightarrow> int \<Rightarrow> (bool \<times> int) option" where
  "next_masked ex i =
     (if shl1 i AND step_mask ex \<noteq> 0 then Some (True, i)
      else if i + key_step ex > key_last ex then Some (False, i + key_step ex)
      else next_masked ex (i + key_step ex))"

definition next_key :: "redis_exec \<Rightarrow> int \<Rightarrow> (bool \<times> int) option" where
  "next_key ex i0 =
     (let i = i0 + key_step ex in
      if key_last ex < 0 \<and> i < int (argc ex) + key_last ex + 1 then Some (True, i)
      else if step_mask ex \<noteq> 0 then next_masked ex i
      else Some (i \<le> key_last ex, i))"

definition calc_key_count :: "kv_util \<Rightarrow> redis_exec \<Rightarrow> u64" where
  "calc_key_count U ex =
     (if step_mask ex \<noteq> 0 then of_nat (kv_popcountl U (step_mask ex))
      else if key_last ex > 0 then of_int ((key_last ex + 1 - key_first ex) sdiv key_step ex)
      else if key_last ex < 0 then (of_nat (argc ex) - of_int (key_first ex)) div of_int (key_step ex)
      else 0)"

text \<open>
  \<open>exec_key_setup\<close>, for argument \<open>n\<close> and key number \<open>idx\<close>; \<open>mem idx\<close> says whether the key context
  is allocated and queued.
\<close>

definition exec_key_setup :: "(nat \<Rightarrow> bool) \<Rightarrow> redis_exec \<Rightarrow> int \<Rightarrow> nat \<Rightarrow> exec_status" where
  "exec_key_setup mem ex n idx =
     (case get_arg_str (ex_msg ex) (nat n) of None \<Rightarrow> ERR_BAD_ARGS
      | Some key \<Rightarrow> if mem idx then EXEC_SETUP_OK else ERR_ALLOC_FAIL)"

text \<open>The rest of the keys of \<open>exec\<close>: \<open>keys\<close> the arguments that are set up, the first of the array
  included; the array has room for \<open>calc_key_count\<close>.\<close>

partial_function (option) setup_keys_loop :: "(nat \<Rightarrow> bool) \<Rightarrow> redis_exec \<Rightarrow> int \<Rightarrow> int list
    \<Rightarrow> (exec_status \<times> int list) option" where
  "setup_keys_loop mem ex i keys =
     (let status = exec_key_setup mem ex i (length keys) in
      if status \<noteq> EXEC_SETUP_OK then Some (status, keys)
      else case next_key ex i of None \<Rightarrow> None
        | Some (again, i') \<Rightarrow>
          if again then setup_keys_loop mem ex i' (keys @ [i])
          else Some (EXEC_SETUP_OK, keys @ [i]))"

definition exec_setup_keys :: "kv_util \<Rightarrow> (nat \<Rightarrow> bool) \<Rightarrow> bool \<Rightarrow> redis_exec \<Rightarrow> (exec_status \<times> int list \<times> nat) option" where
  "exec_setup_keys U mem arr_ok ex =
     (let i = key_first ex; status = exec_key_setup mem ex i 0 in
      if status \<noteq> EXEC_SETUP_OK then Some (status, [], 1)
      else case next_key ex i of None \<Rightarrow> None
        | Some (again, i') \<Rightarrow>
          if \<not> again then Some (EXEC_SETUP_OK, [i], 1)
          else if calc_key_count U ex = 0 then Some (ERR_BAD_ARGS, [i], 1)
          else if \<not> arr_ok then Some (ERR_ALLOC_FAIL, [i], 1)
          else map_option (\<lambda>(st, keys). (st, keys, unat (calc_key_count U ex)))
                 (setup_keys_loop mem ex i' [i]))"

section \<open>Regular commands\<close>

text \<open>Where the keys of a command without a key mask end.\<close>

definition key_stop :: "redis_exec \<Rightarrow> int" where
  "key_stop ex = (if key_last ex < 0 then int (argc ex) + key_last ex + 1 else key_last ex + 1)"

lemma next_key_regular:
  "step_mask ex = 0 \<Longrightarrow> 0 < i + key_step ex \<Longrightarrow>
    next_key ex i = Some (i + key_step ex < key_stop ex, i + key_step ex)"
  by (auto simp: next_key_def key_stop_def Let_def)

text \<open>The number of keys from the position \<open>i\<close> on.\<close>

definition keys_from :: "redis_exec \<Rightarrow> int \<Rightarrow> nat" where
  "keys_from ex i = nat ((key_stop ex - i + key_step ex - 1) div key_step ex)"

lemma keys_from_step:
  assumes "0 < key_step ex" "i < key_stop ex"
  shows "keys_from ex i = Suc (keys_from ex (i + key_step ex))"
proof -
  have "(key_stop ex - i + key_step ex - 1) div key_step ex
      = (key_stop ex - (i + key_step ex) + key_step ex - 1) div key_step ex + 1"
    using assms(1) div_add_self2 [of "key_step ex" "key_stop ex - i - 1"] by (simp add: algebra_simps)
  moreover have "0 \<le> (key_stop ex - (i + key_step ex) + key_step ex - 1) div key_step ex"
    using assms by (simp add: pos_imp_zdiv_nonneg_iff)
  ultimately show ?thesis by (simp add: keys_from_def nat_add_distrib)
qed

text \<open>The positions, one step apart.\<close>

definition key_args :: "redis_exec \<Rightarrow> int \<Rightarrow> int list" where
  "key_args ex i = map (\<lambda>k. i + int k * key_step ex) [0..<keys_from ex i]"

lemma key_args_step:
  assumes "0 < key_step ex" "i < key_stop ex"
  shows "key_args ex i = i # key_args ex (i + key_step ex)"
proof -
  have "[0..<Suc n] = 0 # map Suc [0..<n]" for n by (simp add: map_Suc_upt upt_conv_Cons)
  then show ?thesis unfolding key_args_def keys_from_step [OF assms] by (simp add: algebra_simps)
qed

lemma key_args_empty: "0 < key_step ex \<Longrightarrow> key_stop ex \<le> i \<Longrightarrow> key_args ex i = []"
proof -
  assume "0 < key_step ex" "key_stop ex \<le> i"
  then have "(key_stop ex - i + key_step ex - 1) div key_step ex \<le> 0"
    using zdiv_mono1 [of "key_stop ex - i + key_step ex - 1" "key_step ex - 1" "key_step ex"] by simp
  then show ?thesis by (simp add: key_args_def keys_from_def)
qed

text \<open>The arguments are keys, and there is memory for them.\<close>

definition keys_ok :: "(nat \<Rightarrow> bool) \<Rightarrow> redis_exec \<Rightarrow> bool" where
  "keys_ok mem ex \<longleftrightarrow> (\<forall>n. n < argc ex \<longrightarrow> get_arg_str (ex_msg ex) n \<noteq> None) \<and> (\<forall>k. mem k)"

text \<open>Whatever the arguments are, the loop ends, and the keys it sets up are the positions in their
  order, up to the first argument that is no key.\<close>

lemma setup_keys_loop_regular:
  assumes "step_mask ex = 0" "0 < key_step ex" "0 < i" "i < key_stop ex"
  shows "\<exists>st n. setup_keys_loop mem ex i keys = Some (st, keys @ take n (key_args ex i))
    \<and> (keys_ok mem ex \<and> key_stop ex \<le> int (argc ex) \<longrightarrow> st = EXEC_SETUP_OK \<and> n = length (key_args ex i))
    \<and> (st = EXEC_SETUP_OK \<longrightarrow> n = length (key_args ex i))"
  using assms(3,4)
proof (induction "nat (key_stop ex - i)" arbitrary: i keys rule: less_induct)
  case less
  let ?i = "i + key_step ex"
  have args: "key_args ex i = i # key_args ex ?i" by (rule key_args_step) (use assms less in auto)
  have nxt: "next_key ex i = Some (?i < key_stop ex, ?i)"
    using assms less by (intro next_key_regular) auto
  have ok: "exec_key_setup mem ex i (length keys) = EXEC_SETUP_OK" if "keys_ok mem ex" "key_stop ex \<le> int (argc ex)"
    using that less by (auto simp: exec_key_setup_def keys_ok_def split: option.split)
  show ?case
  proof (cases "exec_key_setup mem ex i (length keys) = EXEC_SETUP_OK")
    case False
    then have "setup_keys_loop mem ex i keys = Some (exec_key_setup mem ex i (length keys), keys @ take 0 (key_args ex i))"
      by (subst setup_keys_loop.simps) (simp add: Let_def)
    with False ok show ?thesis by blast
  next
    case True
    show ?thesis
    proof (cases "?i < key_stop ex")
      case False
      then have "setup_keys_loop mem ex i keys = Some (EXEC_SETUP_OK, keys @ take 1 (key_args ex i))"
        using True nxt by (subst setup_keys_loop.simps) (simp add: Let_def args)
      moreover have "length (key_args ex i) = 1"
        using False key_args_empty [of ex ?i] assms args by simp
      ultimately show ?thesis by fastforce
    next
      case again: True
      have "setup_keys_loop mem ex i keys = setup_keys_loop mem ex ?i (keys @ [i])"
        using True nxt again by (subst setup_keys_loop.simps) (simp add: Let_def)
      moreover obtain st n where "setup_keys_loop mem ex ?i (keys @ [i]) = Some (st, (keys @ [i]) @ take n (key_args ex ?i))"
        "keys_ok mem ex \<and> key_stop ex \<le> int (argc ex) \<longrightarrow> st = EXEC_SETUP_OK \<and> n = length (key_args ex ?i)"
        "st = EXEC_SETUP_OK \<longrightarrow> n = length (key_args ex ?i)"
        using less.hyps [of ?i "keys @ [i]"] again assms less.prems by auto
      ultimately show ?thesis by (intro exI [of _ st] exI [of _ "Suc n"]) (simp add: args)
    qed
  qed
qed

text \<open>What the key setup of a command without a key mask may give: a status, the keys set up and the
  room of the array they are in.\<close>

definition keys_result :: "kv_util \<Rightarrow> redis_exec \<Rightarrow> exec_status \<times> int list \<times> nat \<Rightarrow> bool" where
  "keys_result U ex r \<longleftrightarrow>
     (case r of (st, keys, room) \<Rightarrow>
        (\<exists>n. keys = take n (key_args ex (key_first ex)))
        \<and> (length keys \<le> 1 \<and> room = 1 \<or> calc_key_count U ex \<noteq> 0 \<and> room = unat (calc_key_count U ex))
        \<and> (st = EXEC_SETUP_OK \<longrightarrow> keys = key_args ex (key_first ex)))"

lemma length_key_args [simp]: "length (key_args ex i) = keys_from ex i"
  by (simp add: key_args_def)

lemma setup_keys_regular:
  assumes "step_mask ex = 0" "0 < key_step ex" "0 < key_first ex" "key_first ex < key_stop ex"
  shows "\<exists>r. exec_setup_keys U mem arr_ok ex = Some r \<and> keys_result U ex r
    \<and> (keys_ok mem ex \<and> arr_ok \<and> key_stop ex \<le> int (argc ex) \<and> calc_key_count U ex \<noteq> 0 \<longrightarrow> fst r = EXEC_SETUP_OK)"
proof -
  let ?i = "key_first ex"
  let ?i2 = "?i + key_step ex"
  have args: "key_args ex ?i = ?i # key_args ex ?i2" by (rule key_args_step [OF assms(2,4)])
  have nxt: "next_key ex ?i = Some (?i2 < key_stop ex, ?i2)"
    using assms by (intro next_key_regular) auto
  have take0: "\<exists>n. [] = take n (key_args ex ?i)" by (rule exI [of _ 0]) simp
  have take1: "\<exists>n. [?i] = take n (key_args ex ?i)" by (rule exI [of _ 1]) (simp add: args)
  have ok: "exec_key_setup mem ex ?i 0 = EXEC_SETUP_OK" if "keys_ok mem ex" "key_stop ex \<le> int (argc ex)"
    using that assms by (auto simp: exec_key_setup_def keys_ok_def split: option.split)
  note run = exec_setup_keys_def [of U mem arr_ok ex] Let_def nxt
  consider (first) "exec_key_setup mem ex ?i 0 \<noteq> EXEC_SETUP_OK"
    | (one) "exec_key_setup mem ex ?i 0 = EXEC_SETUP_OK" "\<not> ?i2 < key_stop ex"
    | (room) "exec_key_setup mem ex ?i 0 = EXEC_SETUP_OK" "?i2 < key_stop ex" "calc_key_count U ex = 0 \<or> \<not> arr_ok"
    | (more) "exec_key_setup mem ex ?i 0 = EXEC_SETUP_OK" "?i2 < key_stop ex" "calc_key_count U ex \<noteq> 0" "arr_ok"
    by blast
  then show ?thesis
  proof cases
    case first
    then have "exec_setup_keys U mem arr_ok ex = Some (exec_key_setup mem ex ?i 0, [], 1)" by (simp add: run)
    moreover have "keys_result U ex (exec_key_setup mem ex ?i 0, [], 1)"
      using take0 first unfolding keys_result_def by simp
    ultimately show ?thesis using first ok by auto
  next
    case one
    then have r: "exec_setup_keys U mem arr_ok ex = Some (EXEC_SETUP_OK, [?i], 1)" by (simp add: run)
    have "key_args ex ?i = [?i]" using one key_args_empty [OF assms(2)] args by simp
    then have "keys_result U ex (EXEC_SETUP_OK, [?i], 1)"
      using take1 unfolding keys_result_def by simp
    with r show ?thesis by auto
  next
    case room
    define st where "st = (if calc_key_count U ex = 0 then ERR_BAD_ARGS else ERR_ALLOC_FAIL)"
    have "exec_setup_keys U mem arr_ok ex = Some (st, [?i], 1)" "st \<noteq> EXEC_SETUP_OK"
      using room by (auto simp: run st_def)
    moreover from this have "keys_result U ex (st, [?i], 1)"
      using take1 unfolding keys_result_def by simp
    ultimately show ?thesis using room by auto
  next
    case more
    have "0 < ?i2" using assms by simp
    from setup_keys_loop_regular [OF assms(1,2) this more(2), of mem "[?i]"] obtain st n where
      l: "setup_keys_loop mem ex ?i2 [?i] = Some (st, [?i] @ take n (key_args ex ?i2))"
      "keys_ok mem ex \<and> key_stop ex \<le> int (argc ex) \<longrightarrow> st = EXEC_SETUP_OK \<and> n = length (key_args ex ?i2)"
      "st = EXEC_SETUP_OK \<longrightarrow> n = length (key_args ex ?i2)" by blast
    then have "exec_setup_keys U mem arr_ok ex = Some (st, [?i] @ take n (key_args ex ?i2), unat (calc_key_count U ex))"
      using more unfolding run by simp
    moreover have "[?i] @ take n (key_args ex ?i2) = take (Suc n) (key_args ex ?i)" by (simp add: args)
    moreover have "keys_result U ex (st, take (Suc n) (key_args ex ?i), unat (calc_key_count U ex))"
    proof -
      have "st = EXEC_SETUP_OK \<longrightarrow> take (Suc n) (key_args ex ?i) = key_args ex ?i"
        using l(3) by (simp add: args)
      then show ?thesis using more(3) unfolding keys_result_def prod.case by blast
    qed
    ultimately show ?thesis using l(2) by auto
  qed
qed

section \<open>The rows of the table\<close>

text \<open>A row with keys at fixed places, and the array of arguments that fits its arity.\<close>

definition regular_row :: "redis_cmd_data \<Rightarrow> bool" where
  "regular_row c \<longleftrightarrow> cmd_flag c AND CMD_MOVABLE_FLAG = 0 \<and> cmd_first c \<noteq> 0"

text \<open>The facts on a regular row the setup needs: the keys run to the same place or to the end, and the
  step is one but for the pairs of MSET and the single key of OBJECT.\<close>

definition row_ok :: "redis_cmd_data \<Rightarrow> bool" where
  "row_ok c \<longleftrightarrow> 0 < cmd_first c \<and> 0 < cmd_step c \<and> cmd_first c \<le> 127 \<and> cmd_last c \<le> 127
     \<and> (0 < cmd_last c \<and> cmd_first c \<le> cmd_last c \<and> (cmd_step c = 1 \<or> cmd_last c = cmd_first c)
          \<and> cmd_id c \<notin> {MSET_CMD, MSETNX_CMD}
        \<or> cmd_last c < 0 \<and> cmd_first c < - cmd_last c + \<bar>cmd_arity c\<bar> \<and> - 2 \<le> cmd_last c \<and> cmd_arity c < 0
          \<and> cmd_first c - cmd_last c \<le> - cmd_arity c
          \<and> (cmd_step c = 1 \<and> cmd_id c \<notin> {MSET_CMD, MSETNX_CMD} \<or> cmd_step c = 2 \<and> cmd_last c = - 1 \<and> cmd_first c = 1 \<and> cmd_arity c \<le> - 3 \<and> cmd_id c \<in> {MSET_CMD, MSETNX_CMD}))"

lemma rows_ok: "list_all (\<lambda>c. regular_row c \<longrightarrow> row_ok c) cmd_db"
  by code_simp

lemma regular_row_ok: "k < REDIS_CMD_DB_SIZE \<Longrightarrow> regular_row (cmd_db ! k) \<Longrightarrow> row_ok (cmd_db ! k)"
  using rows_ok by (simp add: list_all_length length_cmd_db)

lemma unat_of_int_u64: "0 \<le> a \<Longrightarrow> a < 2 ^ 63 \<Longrightarrow> unat (of_int a :: u64) = nat a"
  by (simp add: unat_eq_nat_uint uint_word_of_int)

lemma u64_div_int:
  "0 \<le> a \<Longrightarrow> a < 2 ^ 63 \<Longrightarrow> 0 < b \<Longrightarrow> b < 2 ^ 63 \<Longrightarrow> unat (of_int a div of_int b :: u64) = nat (a div b)"
proof -
  assume a: "0 \<le> a" "a < 2 ^ 63" and b: "0 < b" "b < 2 ^ 63"
  then have "unat (of_int a :: u64) = nat a" "unat (of_int b :: u64) = nat b"
    by (simp_all only: unat_of_int_u64)
  then show ?thesis using a b by (simp add: unat_div nat_div_distrib)
qed

text \<open>MSET and MSETNX with a key that has no value: their arguments are even in number.\<close>

definition unpaired :: "redis_cmd_data \<Rightarrow> redis_exec \<Rightarrow> bool" where
  "unpaired c ex \<longleftrightarrow> cmd_id c \<in> {MSET_CMD, MSETNX_CMD} \<and> even (argc ex)"

lemma regular_room:
  assumes "row_ok c" "ex = setup_cmd c ex0" "check_arity ex = EXEC_OK" "argc ex < 2 ^ 31"
  shows "key_first ex < key_stop ex
    \<and> (\<not> unpaired c ex \<longrightarrow> keys_from ex (key_first ex) \<le> 1 \<or> keys_from ex (key_first ex) \<le> unat (calc_key_count U ex))
    \<and> (unpaired c ex \<longrightarrow> 1 \<le> unat (calc_key_count U ex) \<and> keys_from ex (key_first ex) = unat (calc_key_count U ex) + 1)"
proof -
  have f: "key_first ex = cmd_first c" "key_last ex = cmd_last c" "key_step ex = cmd_step c"
    "ex_arity ex = cmd_arity c" "step_mask ex = 0"
    using assms(2) by (simp_all add: setup_cmd_def)
  note row = assms(1) [unfolded row_ok_def]
  have div1: "x sdiv 1 = x" for x :: int by (simp add: signed_divide_int_def sgn_mult_abs)
  show ?thesis
  proof (cases "0 < cmd_last c")
    case True
    then have r: "0 < cmd_first c" "cmd_first c \<le> cmd_last c" "cmd_step c = 1 \<or> cmd_last c = cmd_first c" "0 < cmd_step c"
      "cmd_first c \<le> 127" "cmd_last c \<le> 127" "\<not> unpaired c ex"
      using row by (auto simp: unpaired_def)
    have stop: "key_stop ex = cmd_last c + 1" using True by (simp add: key_stop_def f)
    have "keys_from ex (key_first ex) \<le> unat (calc_key_count U ex)" if "cmd_step c = 1"
    proof -
      have "calc_key_count U ex = of_int (cmd_last c + 1 - cmd_first c)"
        using True that div1 by (simp add: calc_key_count_def f)
      moreover have "unat (of_int (cmd_last c + 1 - cmd_first c) :: u64) = nat (cmd_last c + 1 - cmd_first c)"
        by (rule unat_of_int_u64) (use r in auto)
      ultimately show ?thesis using that by (simp add: keys_from_def f stop)
    qed
    moreover have "keys_from ex (key_first ex) = 1" if "cmd_last c = cmd_first c"
      using that r(4) by (simp add: keys_from_def f stop)
    ultimately show ?thesis using r(2,3,7) stop by (auto simp: f)
  next
    case False
    then have r: "0 < cmd_first c" "0 < cmd_step c" "- 2 \<le> cmd_last c" "cmd_last c < 0" "cmd_arity c < 0"
      "cmd_first c - cmd_last c \<le> - cmd_arity c"
      "cmd_step c = 1 \<and> \<not> unpaired c ex \<or> cmd_step c = 2 \<and> cmd_last c = - 1 \<and> cmd_first c = 1 \<and> cmd_arity c \<le> - 3 \<and> cmd_id c \<in> {MSET_CMD, MSETNX_CMD}"
      using row by (auto simp: unpaired_def)
    have n: "- cmd_arity c \<le> int (argc ex)"
      using assms(3) r(5) by (simp add: check_arity_def f split: if_splits)
    have stop: "key_stop ex = int (argc ex) + cmd_last c + 1" using r by (simp add: key_stop_def f)
    have "calc_key_count U ex = of_int (int (argc ex) - cmd_first c) div of_int (cmd_step c)"
      using r(4) by (simp add: calc_key_count_def f)
    moreover have "unat (of_int (int (argc ex) - cmd_first c) div of_int (cmd_step c) :: u64)
        = nat ((int (argc ex) - cmd_first c) div cmd_step c)"
      by (rule u64_div_int) (use r n assms(4) in auto)
    ultimately have calc: "unat (calc_key_count U ex) = nat ((int (argc ex) - cmd_first c) div cmd_step c)" by simp
    have "\<not> unpaired c ex \<and> keys_from ex (key_first ex) \<le> unat (calc_key_count U ex)
      \<or> unpaired c ex \<and> 1 \<le> unat (calc_key_count U ex) \<and> keys_from ex (key_first ex) = unat (calc_key_count U ex) + 1"
    proof (cases "cmd_step c = 1")
      case True
      then show ?thesis using r by (simp add: calc keys_from_def f stop)
    next
      case False
      then have two: "cmd_step c = 2" "cmd_last c = - 1" "cmd_first c = 1" "cmd_arity c \<le> - 3" "unpaired c ex \<longleftrightarrow> even (argc ex)"
        using r(7) by (auto simp: unpaired_def)
      show ?thesis
      proof (cases "even (argc ex)")
        case True
        then obtain j where j: "argc ex = 2 * j" by (elim evenE)
        moreover have "1 < j" using n two(4) j by linarith
        ultimately show ?thesis using two by (simp add: calc keys_from_def f stop) linarith
      next
        case odd: False
        then show ?thesis using two by (elim oddE) (simp add: calc keys_from_def f stop)
      qed
    qed
    moreover have "key_first ex < key_stop ex" using r n by (simp add: stop f)
    ultimately show ?thesis by blast
  qed
qed

section \<open>Movable keys\<close>

text \<open>ZINTERSTORE and ZUNIONSTORE: the destination and the \<open>n\<close> keys behind the count.\<close>

definition zstore_exec :: "redis_exec \<Rightarrow> nat \<Rightarrow> redis_exec" where
  "zstore_exec ex n = ex\<lparr>step_mask := push_bit 3 (shl1 (int n) - 1) OR shl1 1, key_first := 1,
     key_last := int n + 2, key_step := 1\<rparr>"

lemma bit_zstore_mask:
  assumes "n \<le> 60" "i < 64"
  shows "bit (step_mask (zstore_exec ex n)) i \<longleftrightarrow> i = 1 \<or> 3 \<le> i \<and> i < n + 3"
proof -
  have "shl1 (int n) - 1 = mask n"
    using assms(1) by (simp add: shl1_def mask_eq_exp_minus_1 nat_mod_distrib)
  then show ?thesis using assms
    by (auto simp: zstore_exec_def shl1_def bit_or_iff bit_push_bit_iff bit_mask_iff bit_2_iff)
qed

lemma shl1_and_mask: "i < 64 \<Longrightarrow> shl1 (int i) AND m \<noteq> 0 \<longleftrightarrow> bit m i"
proof -
  assume "i < 64"
  then have "shl1 (int i) = push_bit i 1" by (simp add: shl1_def nat_mod_distrib)
  then show ?thesis using bit_iff_and_push_bit_not_eq_0 [of m i] by (simp add: and.commute)
qed

lemma calc_zstore:
  assumes "kv_bitops U" "n \<le> 60" "0 < n"
  shows "unat (calc_key_count U (zstore_exec ex n)) = n + 1"
proof -
  let ?m = "step_mask (zstore_exec ex n)"
  have "bit ?m 1" using assms bit_zstore_mask [of n 1 ex] by simp
  then have nz: "?m \<noteq> 0" by auto
  have "{i. bit ?m i} = insert 1 {3..<n + 3}"
    using bit_zstore_mask [OF assms(2)] bit_imp_le_length [of ?m] assms(2) by fastforce
  then have "kv_popcountl U ?m = n + 1"
    using kv_bitops.popcountl [OF assms(1), of ?m] by simp
  then have c: "calc_key_count U (zstore_exec ex n) = of_nat (n + 1)"
    using nz by (simp only: calc_key_count_def if_True simp_thms)
  show ?thesis unfolding c by (rule u64_of_nat_inverse) (use assms(2) in simp)
qed

lemma zstore_fields [simp]:
  "key_first (zstore_exec ex n) = 1" "key_last (zstore_exec ex n) = int n + 2"
  "key_step (zstore_exec ex n) = 1" "argc (zstore_exec ex n) = argc ex" "ex_msg (zstore_exec ex n) = ex_msg ex"
  by (simp_all add: zstore_exec_def)

lemma next_masked_zstore:
  assumes "n \<le> 60" "i < 64"
  shows "next_masked (zstore_exec ex n) (int i) =
    (if i = 1 \<or> 3 \<le> i \<and> i < n + 3 then Some (True, int i)
     else if n + 2 \<le> i then Some (False, int i + 1)
     else next_masked (zstore_exec ex n) (int (i + 1)))"
  using assms shl1_and_mask [of i "step_mask (zstore_exec ex n)"] bit_zstore_mask [of n i ex]
  by (subst next_masked.simps) (auto simp: add.commute)

lemma next_key_zstore:
  assumes "n \<le> 60" "0 < n"
  shows "next_key (zstore_exec ex n) 1 = Some (True, 3)"
    and "3 \<le> i \<Longrightarrow> i \<le> n + 2 \<Longrightarrow> next_key (zstore_exec ex n) (int i) = Some (i < n + 2, int i + 1 + (if i < n + 2 then 0 else 1))"
proof -
  have nz: "step_mask (zstore_exec ex n) \<noteq> 0"
    using assms bit_zstore_mask [of n 1 ex] by auto
  show "next_key (zstore_exec ex n) 1 = Some (True, 3)"
    using nz next_masked_zstore [of n 2 ex] next_masked_zstore [of n 3 ex] assms by (simp add: next_key_def)
  show "next_key (zstore_exec ex n) (int i) = Some (i < n + 2, int i + 1 + (if i < n + 2 then 0 else 1))"
    if "3 \<le> i" "i \<le> n + 2"
    using nz next_masked_zstore [of n "i + 1" ex] assms that by (auto simp: next_key_def add.commute)
qed

lemma setup_keys_loop_zstore:
  assumes "n \<le> 60" "0 < n" "keys_ok mem ex" "n + 3 \<le> argc ex"
  shows "3 \<le> i \<Longrightarrow> i \<le> n + 2 \<Longrightarrow> setup_keys_loop mem (zstore_exec ex n) (int i) keys
    = Some (EXEC_SETUP_OK, keys @ map int [i..<n + 3])"
proof (induction "n + 2 - i" arbitrary: i keys)
  case 0
  then have "exec_key_setup mem (zstore_exec ex n) (int i) (length keys) = EXEC_SETUP_OK" "[i..<n + 3] = [i]"
    using assms by (auto simp: exec_key_setup_def keys_ok_def upt_conv_Cons split: option.split)
  with 0 next_key_zstore(2) [OF assms(1,2), of i ex] show ?case
    by (subst setup_keys_loop.simps) simp
next
  case (Suc k)
  then have "exec_key_setup mem (zstore_exec ex n) (int i) (length keys) = EXEC_SETUP_OK"
    using assms by (auto simp: exec_key_setup_def keys_ok_def split: option.split)
  moreover have "setup_keys_loop mem (zstore_exec ex n) (int (i + 1)) (keys @ [int i])
      = Some (EXEC_SETUP_OK, (keys @ [int i]) @ map int [i + 1..<n + 3])"
    using Suc by (intro Suc.hyps) auto
  moreover have "[i..<n + 3] = i # [i + 1..<n + 3]" using Suc by (simp add: upt_conv_Cons)
  moreover have "next_key (zstore_exec ex n) (int i) = Some (True, int (i + 1))"
    using next_key_zstore(2) [OF assms(1,2), of i ex] Suc by simp
  ultimately show ?case by (subst setup_keys_loop.simps) simp
qed

lemma locate_zstore:
  assumes "ex_cmd ex = ZINTERSTORE_CMD \<or> ex_cmd ex = ZUNIONSTORE_CMD" "get_arg_int (ex_msg ex) 2 = Some (int n)"
    "n \<le> 60" "argc ex < 2 ^ 63"
  shows "locate_movablekeys ex = Some (n + 3 \<le> argc ex, zstore_exec ex n)"
proof -
  have "to_int16 (2 + int n) = int n + 2"
    using assms(3) by (simp add: to_int16_def signed_take_bit_int_eq_self)
  moreover have "\<not> (of_int (3 + int n) :: u64) > of_nat (argc ex) \<longleftrightarrow> n + 3 \<le> argc ex"
  proof -
    have "(of_int (3 + int n) :: u64) = of_nat (n + 3)" by simp
    then show ?thesis using assms(3,4)
      by (simp only: not_less word_le_nat_alt) (simp add: u64_of_nat_inverse del: of_nat_add)
  qed
  ultimately show ?thesis using assms(1,2)
    by (auto simp: locate_movablekeys_def Let_def zstore_exec_def)
qed

section \<open>Properties\<close>

text \<open>C15: the array of the keys. For every row of the table whose keys do not move, and any arguments that
  fit its arity, the key setup ends, and when it succeeds the keys it writes are all the positions from the first, one
  step apart, up to the last. The array was allocated for at least that many keys, but in one case: MSET and MSETNX
  with a key that has no value write exactly one key behind the end of the array.\<close>

theorem table_keys_in_room:
  assumes "k < REDIS_CMD_DB_SIZE" "regular_row (cmd_db ! k)" "ex = setup_cmd (cmd_db ! k) ex0"
    "check_arity ex = EXEC_OK" "argc ex < 2 ^ 31"
  shows "\<exists>st keys room. exec_setup_keys U mem arr_ok ex = Some (st, keys, room)
    \<and> (st = EXEC_SETUP_OK \<longrightarrow> keys = key_args ex (key_first ex))
    \<and> (if k \<in> {MSET_CMD, MSETNX_CMD} \<and> even (argc ex)
       then length keys \<le> room + 1 \<and> (st = EXEC_SETUP_OK \<longrightarrow> length keys = room + 1)
       else length keys \<le> room)"
proof -
  note row = regular_row_ok [OF assms(1,2)]
  have id: "cmd_id (cmd_db ! k) = k" by (rule cmd_id_nth [OF assms(1)])
  note room = regular_room [OF row assms(3,4,5), of U]
  from room have first: "key_first ex < key_stop ex" ..
  have "step_mask ex = 0" "0 < key_step ex" "0 < key_first ex"
    using row assms(3) by (auto simp: setup_cmd_def row_ok_def)
  from setup_keys_regular [OF this first, of U mem arr_ok] obtain st keys rm where
    run: "exec_setup_keys U mem arr_ok ex = Some (st, keys, rm)" and res: "keys_result U ex (st, keys, rm)"
    by (metis prod_cases3)
  from res obtain n where r: "keys = take n (key_args ex (key_first ex))"
      "length keys \<le> 1 \<and> rm = 1 \<or> calc_key_count U ex \<noteq> 0 \<and> rm = unat (calc_key_count U ex)"
      "st = EXEC_SETUP_OK \<longrightarrow> keys = key_args ex (key_first ex)"
    unfolding keys_result_def prod.case by blast
  have len: "length keys \<le> keys_from ex (key_first ex)" "st = EXEC_SETUP_OK \<longrightarrow> length keys = keys_from ex (key_first ex)"
    using r(3) by (simp add: r(1), auto)
  have pos: "calc_key_count U ex \<noteq> 0 \<Longrightarrow> 1 \<le> unat (calc_key_count U ex)"
    by (simp add: Suc_le_eq unat_gt_0)
  show ?thesis
  proof (cases "unpaired (cmd_db ! k) ex")
    case True
    then have "1 \<le> unat (calc_key_count U ex)" "keys_from ex (key_first ex) = unat (calc_key_count U ex) + 1" using room by auto
    then have "length keys \<le> rm + 1" "st = EXEC_SETUP_OK \<longrightarrow> length keys = rm + 1" using r(2) len by auto
    with run r(3) True show ?thesis by (simp add: unpaired_def id)
  next
    case False
    then have "length keys \<le> rm" using r(2) room pos len(1) by (meson le_trans linorder_linear)
    with run r(3) False show ?thesis unfolding unpaired_def id by auto
  qed
qed

definition sample_exec :: "string list \<Rightarrow> redis_exec" where
  "sample_exec args = \<lparr>ex_msg = mk_arr (map (\<lambda>s. mk_str (ascii s)) args), ex_cmd = 0, ex_catg = NO_CATG,
     cmd_flags = 0, ex_arity = 0, key_first = 0, key_last = 0, key_step = 0, step_mask = 0,
     argc = length args, cmd_state = 0, key_cnt = 0, key_done = 0\<rparr>"

lemma mset_rows: "regular_row (cmd_db ! MSET_CMD)" "MSET_CMD < REDIS_CMD_DB_SIZE"
    "2 < length args \<Longrightarrow> check_arity (setup_cmd (cmd_db ! MSET_CMD) (sample_exec args)) = EXEC_OK"
    "argc (setup_cmd (cmd_db ! MSET_CMD) (sample_exec args)) = length args"
  unfolding cmd_db_mset
  by (simp_all add: regular_row_def cmd_row_def check_arity_def setup_cmd_def sample_exec_def REDIS_CMD_DB_SIZE_def)

theorem table_keys_in_room_witness:
  "(\<exists>st keys room. exec_setup_keys int_str_util enough_mem True
      (setup_cmd (cmd_db ! MSET_CMD) (sample_exec [''mset'', ''a'', ''1'', ''b'', ''2''])) = Some (st, keys, room)
    \<and> length keys \<le> room)
  \<and> (\<exists>st keys room. exec_setup_keys int_str_util enough_mem True
      (setup_cmd (cmd_db ! MSET_CMD) (sample_exec [''mset'', ''a'', ''1'', ''b''])) = Some (st, keys, room)
    \<and> length keys \<le> room + 1)"
  using table_keys_in_room [OF mset_rows(2,1) refl mset_rows(3), of "[''mset'', ''a'', ''1'', ''b'', ''2'']" int_str_util enough_mem True]
    table_keys_in_room [OF mset_rows(2,1) refl mset_rows(3), of "[''mset'', ''a'', ''1'', ''b'']" int_str_util enough_mem True]
  by (fastforce simp: mset_rows)

text \<open>The exception: a pair and a key without a value are two keys in an array of one.\<close>

lemma mset_key_past_room:
  "exec_setup_keys U enough_mem True (setup_cmd (cmd_db ! MSET_CMD) (sample_exec [''mset'', ''a'', ''1'', ''b'']))
    = Some (EXEC_SETUP_OK, [1, 3], 1)"
  unfolding cmd_db_mset
  by (simp add: exec_setup_keys_def setup_keys_loop.simps next_key_def exec_key_setup_def calc_key_count_def
      cmd_row_def setup_cmd_def sample_exec_def get_arg_str_def mk_arr_def mk_str_def Let_def)

text \<open>C31: ZINTERSTORE and ZUNIONSTORE with a count of 1 to 60 run on the destination and exactly the
  counted keys: they are refused unless that many arguments follow the count, and else the keys
  are argument 1 and the \<open>n\<close> arguments from 3 on, in an array made for \<open>n + 1\<close>.\<close>

theorem zstore_keys:
  assumes "kv_bitops U" "ex_cmd ex \<in> {ZINTERSTORE_CMD, ZUNIONSTORE_CMD}"
    "get_arg_int (ex_msg ex) 2 = Some (int n)" "0 < n" "n \<le> 60" "argc ex < 2 ^ 63" "keys_ok mem ex"
  shows "locate_movablekeys ex = Some (n + 3 \<le> argc ex, zstore_exec ex n)
    \<and> (n + 3 \<le> argc ex \<longrightarrow> exec_setup_keys U mem True (zstore_exec ex n)
         = Some (EXEC_SETUP_OK, 1 # map int [3..<n + 3], n + 1))"
proof (intro conjI impI)
  show "locate_movablekeys ex = Some (n + 3 \<le> argc ex, zstore_exec ex n)"
    using assms by (intro locate_zstore) auto
  assume n: "n + 3 \<le> argc ex"
  then have "exec_key_setup mem (zstore_exec ex n) 1 0 = EXEC_SETUP_OK"
    using assms(7) by (auto simp: exec_key_setup_def keys_ok_def split: option.split)
  moreover have "calc_key_count U (zstore_exec ex n) \<noteq> 0"
    using calc_zstore [OF assms(1,5,4), of ex] by auto
  ultimately show "exec_setup_keys U mem True (zstore_exec ex n)
      = Some (EXEC_SETUP_OK, 1 # map int [3..<n + 3], n + 1)"
    using setup_keys_loop_zstore [OF assms(5,4,7) n, of 3 "[1]"] next_key_zstore(1) [OF assms(5,4), of ex]
      calc_zstore [OF assms(1,5,4), of ex] assms(4)
    by (simp add: exec_setup_keys_def Let_def)
qed

theorem zstore_keys_witness:
  "exec_setup_keys int_str_util enough_mem True
      (zstore_exec ((sample_exec [''zunionstore'', ''d'', ''2'', ''a'', ''b''])\<lparr>ex_cmd := ZUNIONSTORE_CMD\<rparr>) 2)
    = Some (EXEC_SETUP_OK, [1, 3, 4], 3)"
proof -
  let ?ex = "(sample_exec [''zunionstore'', ''d'', ''2'', ''a'', ''b''])\<lparr>ex_cmd := ZUNIONSTORE_CMD\<rparr>"
  have "get_arg_int (ex_msg ?ex) 2 = Some (int 2)"
    by (simp add: sample_exec_def get_arg_int_def mk_arr_def mk_str_def string_to_int_read read_decimal_def
        fits_int64_def Let_def is_digit_def digit_val_def int64_range_def of_char_def)
  moreover have "keys_ok enough_mem ?ex"
    using get_arg_str_command [of "map ascii [''zunionstore'', ''d'', ''2'', ''a'', ''b'']"]
    by (auto simp: keys_ok_def sample_exec_def comp_def nth_Cons split: nat.split)
  ultimately have "exec_setup_keys int_str_util enough_mem True (zstore_exec ?ex 2)
      = Some (EXEC_SETUP_OK, 1 # map int [3..<2 + 3], 2 + 1)"
    using zstore_keys [OF bits.kv_bitops_axioms, of ?ex 2 enough_mem] by (simp add: sample_exec_def)
  then show ?thesis by (simp add: upt_conv_Cons)
qed

text \<open>The store form of GEORADIUS: the mask names one key, the setup writes two.\<close>

lemma georadius_store_past_room:
  assumes "kv_bitops U" "ex = ex0\<lparr>key_first := 1, key_last := 7, step_mask := shl1 7, key_step := 6, argc := 8\<rparr>"
  shows "calc_key_count U ex = 1 \<and> next_key ex 1 = Some (True, 7)"
proof -
  have m: "step_mask ex = push_bit 7 1" by (simp add: assms(2) shl1_def)
  have "{k. bit (push_bit 7 (1 :: u64)) k} = {7}"
    unfolding bit_push_bit_iff bit_1_iff by auto
  then have "kv_popcountl U (step_mask ex) = 1"
    unfolding m using kv_bitops.popcountl [OF assms(1), of "push_bit 7 1"] by simp
  moreover have "shl1 7 AND step_mask ex \<noteq> 0" "step_mask ex \<noteq> 0" by (simp_all add: m shl1_def)
  moreover from this have "next_masked ex 7 = Some (True, 7)" by (subst next_masked.simps) simp
  ultimately show ?thesis by (simp add: calc_key_count_def next_key_def assms(2))
qed

lemma cmd_hash_ht_small: "list_all (\<lambda>c. c < 169) cmd_hash_ht \<and> length cmd_hash_ht = 1024"
  by (simp add: cmd_hash_ht_def)

lemma get_redis_cmd_small: "get_redis_cmd h < REDIS_CMD_DB_SIZE"
proof -
  have "unat (h mod 1024) < 1024" by (simp add: unat_mod)
  then show ?thesis using cmd_hash_ht_small
    by (simp add: get_redis_cmd_def list_all_length REDIS_CMD_DB_SIZE_def)
qed

lemma cmd_db_row_in: "k < REDIS_CMD_DB_SIZE \<Longrightarrow> cmd_db_row k = Some (cmd_db ! k)"
  by (simp add: cmd_db_row_def length_cmd_db)

text \<open>C37: the only command number that leads past the table is the size of the table itself, sent as
  an integer in the place of the name; every other message gives a status.\<close>

theorem prepare_total:
  "prepare_exec_command crc ex = None \<longleftrightarrow> get_arg (ex_msg ex) 0 = Some (RInt 169)"
proof (cases "get_arg (ex_msg ex) 0")
  case (Some arg0)
  show ?thesis
  proof (cases arg0)
    case (RInt i)
    show ?thesis
    proof (cases "0 < i \<and> i < 169")
      case True
      then have "cmd_db_row (nat i) = Some (cmd_db ! nat i)"
        by (intro cmd_db_row_in) (simp add: REDIS_CMD_DB_SIZE_def nat_less_iff)
      with True Some RInt show ?thesis by (auto simp: prepare_exec_command_def Let_def)
    next
      case False
      moreover have "cmd_db_row 169 = None" by (simp add: cmd_db_row_def length_cmd_db REDIS_CMD_DB_SIZE_def)
      ultimately show ?thesis using Some RInt
        by (cases "i = 169") (auto simp: prepare_exec_command_def Let_def REDIS_CMD_DB_SIZE_def)
    qed
  next
    case (RStr t len s)
    then show ?thesis using Some cmd_db_row_in [OF get_redis_cmd_small]
      by (simp add: prepare_exec_command_def Let_def)
  qed (use Some in \<open>simp add: prepare_exec_command_def Let_def\<close>)
qed (simp add: prepare_exec_command_def)

end
