(* ===== verification/Redis_Store.thy ===== *)
theory Redis_Store
  imports Redis_Exec "HOL-Library.Monad_Syntax"
begin

text \<open>
  The key a command works on. The entry is raikv's: its operations are a record of functions over
  an abstract entry, an argument of every handler, and the locale \<open>kv_entry\<close> states what the
  handlers rely on. What the handlers add to it, the fields of \<open>EvKeyCtx\<close> and the reply stream of
  \<open>RedisExec\<close>, is the state \<open>xst\<close>. The fetch functions are those of \<open>src/redis_exec.cpp\<close> and
  \<open>include/raids/redis_exec.h\<close>.

  A handler gives \<open>None\<close> where the code does not return or goes on through a null pointer.
\<close>

section \<open>Status, types and flags\<close>

text \<open>The statuses of the key store the code names; \<open>KEY_OTHER\<close> is any other.\<close>

datatype key_status =
    KEY_OK | KEY_IS_NEW | KEY_NOT_FOUND | KEY_NO_VALUE | KEY_BUSY | KEY_MUTATED | KEY_OTHER nat

datatype md_type =
    MD_NODATA | MD_STRING | MD_LIST | MD_HASH | MD_SET | MD_ZSET | MD_GEO | MD_HYPERLOGLOG
  | MD_STREAM | MD_OTHER nat

datatype ekf =
    EKF_IS_NEW | EKF_IS_READ_ONLY | EKF_IS_EXPIRED | EKF_KEYSPACE_EVENT | EKF_KEYSPACE_STRING
  | EKF_KEYSPACE_DEL | EKF_MONITOR | EKF_KEYSPACE_LIST | EKF_LISTBLKD_NOT | EKF_KEYSPACE_HASH | EKF_KEYSPACE_SET

section \<open>The entry\<close>

text \<open>
  The data pointer a handler gets is the memory of the entry: \<open>op_data\<close> reads it and \<open>op_set_data\<close>
  stores it back, with the length it has. \<open>multi_fetch\<close> is the fetch of a transaction, which takes
  the place of \<open>find\<close> and \<open>acquire\<close> while EXEC runs.
\<close>

record 'e kv_ops =
  op_find :: "'e \<Rightarrow> key_status \<times> 'e"
  op_acquire :: "'e \<Rightarrow> key_status \<times> 'e"
  op_is_expired :: "'e \<Rightarrow> bool"
  op_expire :: "'e \<Rightarrow> 'e"
  op_release :: "'e \<Rightarrow> 'e"
  op_get_type :: "'e \<Rightarrow> md_type"
  op_value :: "'e \<Rightarrow> key_status"
  op_get_size :: "'e \<Rightarrow> key_status"
  op_resize :: "'e \<Rightarrow> nat \<Rightarrow> bool \<Rightarrow> key_status \<times> 'e"
  op_validate :: "'e \<Rightarrow> key_status"
  op_data :: "'e \<Rightarrow> byte list"
  op_set_data :: "'e \<Rightarrow> byte list \<Rightarrow> 'e"
  op_update_stamps :: "'e \<Rightarrow> u64 \<Rightarrow> u64 \<Rightarrow> 'e"
  op_clear_stamps :: "'e \<Rightarrow> bool \<Rightarrow> bool \<Rightarrow> 'e"
  op_current_stamp :: "'e \<Rightarrow> u64"
  op_set_type :: "'e \<Rightarrow> md_type \<Rightarrow> 'e"
  op_set_val :: "'e \<Rightarrow> 'e"
  multi_fetch :: "'e \<Rightarrow> bool \<Rightarrow> ekf set \<Rightarrow> key_status \<Rightarrow> key_status \<times> ekf set \<times> 'e"

locale kv_entry =
  fixes K :: "'e kv_ops"
  assumes resize_length: "op_resize K e n cp = (KEY_OK, e') \<Longrightarrow> length (op_data K e') = n"
    and resize_copy: "op_resize K e n True = (KEY_OK, e') \<Longrightarrow> k < n \<Longrightarrow> k < length (op_data K e)
          \<Longrightarrow> op_data K e' ! k = op_data K e ! k"
    and set_data: "length bs = length (op_data K e) \<Longrightarrow> op_data K (op_set_data K e bs) = bs"
    and update_stamps: "op_data K (op_update_stamps K e a b) = op_data K e"
    and clear_stamps: "op_data K (op_clear_stamps K e x y) = op_data K e"
    and set_type: "op_data K (op_set_type K e ty) = op_data K e"
    and set_val: "op_data K (op_set_val K e) = op_data K e"
    and release_gone: "op_acquire K e = (KEY_OK, e1) \<Longrightarrow> op_is_expired K e1
          \<Longrightarrow> op_find K (op_release K (op_expire K e1)) = (st, e2) \<Longrightarrow> st \<noteq> KEY_OK \<or> \<not> op_is_expired K e2"
begin

text \<open>The data behind a resize that keeps the old data.\<close>

lemma resize_take:
  assumes "op_resize K e n True = (KEY_OK, e')" "k \<le> n" "k \<le> length (op_data K e)"
  shows "take k (op_data K e') = take k (op_data K e)"
proof (rule nth_equalityI)
  show "length (take k (op_data K e')) = length (take k (op_data K e))"
    using resize_length [OF assms(1)] assms(2,3) by simp
  fix i assume "i < length (take k (op_data K e'))"
  then show "take k (op_data K e') ! i = take k (op_data K e) ! i"
    using resize_copy [OF assms(1), of i] resize_length [OF assms(1)] assms(2,3) by simp
qed

end

section \<open>The state of a command on its key\<close>

record 'e xst =
  x_ent :: 'e
  x_kstatus :: key_status
  x_status :: exec_status
  x_type :: md_type
  x_flags :: "ekf set"
  x_ival :: int
  x_argn :: nat
  x_dep :: nat
  x_part :: "byte list option"
  x_out :: "byte list"
  x_strm_ok :: bool
  x_mstatus :: ds_msg_status
  x_no_update :: bool

definition is_new :: "'e xst \<Rightarrow> bool" where
  "is_new x \<longleftrightarrow> EKF_IS_NEW \<in> x_flags x"

definition is_read_only :: "'e xst \<Rightarrow> bool" where
  "is_read_only x \<longleftrightarrow> EKF_IS_READ_ONLY \<in> x_flags x"

definition set_flags :: "ekf set \<Rightarrow> 'e xst \<Rightarrow> 'e xst" where
  "set_flags fs x = x\<lparr>x_flags := x_flags x \<union> fs\<rparr>"

definition to_int64 :: "int \<Rightarrow> int" where
  "to_int64 i = signed_take_bit 63 i"

lemma to_int64_id: "int64_range i \<Longrightarrow> to_int64 i = i"
  by (simp add: to_int64_def int64_range_def signed_take_bit_int_eq_self)

lemma to_int64_range: "int64_range (to_int64 i)"
  using signed_take_bit_int_greater_eq_minus_exp [of 63 i] signed_take_bit_int_less_exp [of 63 i]
  by (simp add: to_int64_def int64_range_def)

section \<open>Fetching the key\<close>

text \<open>The read of a key: an expired entry is acquired, expired and released, and looked up again.\<close>

partial_function (option) find_loop :: "'e kv_ops \<Rightarrow> 'e xst \<Rightarrow> 'e xst option" where
  "find_loop K x =
     (let (st, e) = op_find K (x_ent x);
          x1 = x\<lparr>x_kstatus := st, x_ent := e, x_flags := x_flags x \<union> {EKF_IS_READ_ONLY}\<rparr> in
      if st \<noteq> KEY_OK \<or> \<not> op_is_expired K e then Some x1
      else let (st2, e2) = op_acquire K e in
        if st2 = KEY_OK \<and> op_is_expired K e2 then
          find_loop K (x1\<lparr>x_kstatus := st2, x_ent := op_release K (op_expire K e2),
            x_flags := x_flags x1 \<union> {EKF_IS_EXPIRED, EKF_KEYSPACE_EVENT}\<rparr>)
        else find_loop K (x1\<lparr>x_kstatus := st2, x_ent := op_release K e2\<rparr>))"

definition acquire_key :: "'e kv_ops \<Rightarrow> 'e xst \<Rightarrow> 'e xst" where
  "acquire_key K x =
     (let (st, e) = op_acquire K (x_ent x) in
      if st = KEY_OK \<and> op_is_expired K e then
        x\<lparr>x_kstatus := KEY_IS_NEW, x_ent := op_expire K e,
          x_flags := (x_flags x \<union> {EKF_IS_EXPIRED, EKF_KEYSPACE_EVENT, EKF_IS_NEW}) - {EKF_IS_READ_ONLY}\<rparr>
      else x\<lparr>x_kstatus := st, x_ent := e,
          x_flags := (x_flags x \<union> (if st = KEY_IS_NEW then {EKF_IS_NEW} else {})) - {EKF_IS_READ_ONLY}\<rparr>)"

definition exec_key_fetch :: "'e kv_ops \<Rightarrow> redis_exec \<Rightarrow> bool \<Rightarrow> 'e xst \<Rightarrow> (key_status \<times> 'e xst) option" where
  "exec_key_fetch K ex force_read x =
     do {
       x1 \<leftarrow>
         (if cmd_state ex AND (CMD_STATE_EXEC_MULTI OR CMD_STATE_SAVE) = 0 then
            if cmd_flags ex AND CMD_READ_FLAG \<noteq> 0 \<or> force_read then find_loop K x
            else if cmd_flags ex AND CMD_WRITE_FLAG \<noteq> 0 \<or> cmd_state ex AND CMD_STATE_LOAD \<noteq> 0
            then Some (acquire_key K x)
            else Some (x\<lparr>x_kstatus := KEY_NO_VALUE, x_status := ERR_BAD_CMD,
                         x_flags := x_flags x \<union> {EKF_IS_READ_ONLY}\<rparr>)
          else if cmd_state ex AND CMD_STATE_EXEC_MULTI \<noteq> 0 then
            (case multi_fetch K (x_ent x) force_read (x_flags x) (x_kstatus x) of (st, fl, e) \<Rightarrow>
               Some (x\<lparr>x_kstatus := st, x_flags := fl, x_ent := e\<rparr>))
          else Some (x\<lparr>x_kstatus := KEY_OK, x_flags := x_flags x \<union> {EKF_IS_READ_ONLY}\<rparr>));
       let x2 = (if x_kstatus x1 = KEY_OK then x1\<lparr>x_type := op_get_type K (x_ent x1)\<rparr> else x1);
       Some (x_kstatus x2, x2)
     }"

definition get_key_write :: "'e kv_ops \<Rightarrow> redis_exec \<Rightarrow> 'e xst \<Rightarrow> md_type \<Rightarrow> (key_status \<times> 'e xst) option" where
  "get_key_write K ex x ty =
     do {
       (st, x1) \<leftarrow> exec_key_fetch K ex False x;
       if st = KEY_OK \<and> x_type x1 \<noteq> ty then
         if x_type x1 = MD_NODATA then Some (KEY_IS_NEW, set_flags {EKF_IS_NEW} x1)
         else Some (KEY_NO_VALUE, x1)
       else Some (st, x1)
     }"

definition get_key_read :: "'e kv_ops \<Rightarrow> redis_exec \<Rightarrow> 'e xst \<Rightarrow> md_type \<Rightarrow> (key_status \<times> 'e xst) option" where
  "get_key_read K ex x ty =
     do {
       (st, x1) \<leftarrow> exec_key_fetch K ex True x;
       if st = KEY_OK \<and> x_type x1 \<noteq> ty then
         Some (if x_type x1 = MD_NODATA then KEY_NOT_FOUND else KEY_NO_VALUE, x1)
       else Some (st, x1)
     }"

section \<open>A store in memory\<close>

text \<open>An entry that is absent, or has a type, data and an expiry time; no other process works on it,
  so no operation fails. New memory holds zeros.\<close>

record mem_entry =
  me_exists :: bool
  me_type :: md_type
  me_data :: "byte list"
  me_expires :: u64
  me_now :: u64

definition mem_ops :: "mem_entry kv_ops" where
  "mem_ops =
     \<lparr>op_find = (\<lambda>e. (if me_exists e then KEY_OK else KEY_NOT_FOUND, e)),
      op_acquire = (\<lambda>e. if me_exists e then (KEY_OK, e)
                        else (KEY_IS_NEW, e\<lparr>me_exists := True, me_type := MD_NODATA, me_data := [], me_expires := 0\<rparr>)),
      op_is_expired = (\<lambda>e. me_expires e \<noteq> 0 \<and> me_expires e \<le> me_now e),
      op_expire = (\<lambda>e. e\<lparr>me_exists := False, me_type := MD_NODATA, me_data := [], me_expires := 0\<rparr>),
      op_release = (\<lambda>e. e),
      op_get_type = me_type,
      op_value = (\<lambda>e. KEY_OK),
      op_get_size = (\<lambda>e. KEY_OK),
      op_resize = (\<lambda>e n cp. (KEY_OK, e\<lparr>me_data := take n (me_data e) @ replicate (n - length (me_data e)) 0\<rparr>)),
      op_validate = (\<lambda>e. KEY_OK),
      op_data = me_data,
      op_set_data = (\<lambda>e bs. e\<lparr>me_data := bs\<rparr>),
      op_update_stamps = (\<lambda>e exp upd. e\<lparr>me_expires := exp\<rparr>),
      op_clear_stamps = (\<lambda>e exp upd. if exp then e\<lparr>me_expires := 0\<rparr> else e),
      op_current_stamp = me_now,
      op_set_type = (\<lambda>e ty. e\<lparr>me_type := ty\<rparr>),
      op_set_val = (\<lambda>e. e),
      multi_fetch = (\<lambda>e force fl st. (if me_exists e then KEY_OK else KEY_IS_NEW, fl, e))\<rparr>"

interpretation mem: kv_entry mem_ops
  by unfold_locales (auto simp: mem_ops_def nth_append split: if_splits)

section \<open>The fetch ends\<close>

lemma find_loop_some:
  assumes "kv_entry K" "\<And>e st e1. op_find K e = (KEY_OK, e1) \<Longrightarrow> op_is_expired K e1 \<Longrightarrow>
      fst (op_acquire K e1) = KEY_OK \<and> op_is_expired K (snd (op_acquire K e1))"
  shows "\<exists>x'. find_loop K x = Some x' \<and> EKF_IS_READ_ONLY \<in> x_flags x'
    \<and> (x_kstatus x' = KEY_OK \<longrightarrow> \<not> op_is_expired K (x_ent x'))"
proof -
  obtain st e where f: "op_find K (x_ent x) = (st, e)" by force
  show ?thesis
  proof (cases "st = KEY_OK \<and> op_is_expired K e")
    case False
    then show ?thesis by (subst find_loop.simps) (auto simp: f)
  next
    case True
    then obtain e1 where a: "op_acquire K e = (KEY_OK, e1)" "op_is_expired K e1"
      using assms(2) [of "x_ent x" e] f by (cases "op_acquire K e") auto
    obtain st2 e2 where g: "op_find K (op_release K (op_expire K e1)) = (st2, e2)" by force
    then have "st2 \<noteq> KEY_OK \<or> \<not> op_is_expired K e2" using kv_entry.release_gone [OF assms(1) a] by blast
    then show ?thesis using True
      by (subst find_loop.simps) (subst find_loop.simps, auto simp: f a g)
  qed
qed

end
