(* ===== verification/Redis_Reply.thy ===== *)
theory Redis_Reply
  imports Redis_Store
begin

text \<open>
  The replies, the first and the last part of \<open>src/redis_exec.cpp\<close>: what a status, an integer or
  a string adds to the output stream, and the result queue of the commands that list elements.
  A function gives the bytes it appends; \<open>ok\<close> says whether the stream has memory for them. The
  texts of the key store's statuses are raikv's, a parameter.
\<close>

section \<open>Replies of the executor\<close>

definition send_string :: "kv_util \<Rightarrow> bool \<Rightarrow> byte list \<Rightarrow> byte list" where
  "send_string U ok data =
     (if ok then [36] @ uint64_to_string U (length data) @ crlf @ data @ crlf else [])"

definition send_simple_string :: "bool \<Rightarrow> byte list \<Rightarrow> byte list" where
  "send_simple_string ok data = (if ok then [43] @ data @ crlf else [])"

definition send_concat_string :: "kv_util \<Rightarrow> bool \<Rightarrow> byte list \<Rightarrow> byte list \<Rightarrow> byte list" where
  "send_concat_string U ok data data2 =
     (if ok then [36] @ uint64_to_string U (length data + length data2) @ crlf @ data @
        (if length data2 > 0 then data2 else []) @ crlf else [])"

text \<open>\<open>save_string_result\<close> keeps the same bytes in the key's part, if there is memory for it.\<close>

definition save_string_result :: "kv_util \<Rightarrow> bool \<Rightarrow> byte list \<Rightarrow> 'e xst \<Rightarrow> bool \<times> 'e xst" where
  "save_string_result U ok data x =
     (if ok then (True, x\<lparr>x_part := Some ([36] @ uint64_to_string U (length data) @ crlf @ data @ crlf)\<rparr>)
      else (False, x))"

definition save_data :: "bool \<Rightarrow> byte list \<Rightarrow> 'e xst \<Rightarrow> bool \<times> 'e xst" where
  "save_data ok data x = (if ok then (True, x\<lparr>x_part := Some data\<rparr>) else (False, x))"

definition nil_reply :: "byte list" where
  "nil_reply = ascii ''$-1'' @ crlf"

definition array_string_result :: "kv_util \<Rightarrow> bool \<Rightarrow> byte list option list \<Rightarrow> byte list" where
  "array_string_result U ok parts =
     (if ok then [42] @ uint64_to_string U (length parts) @ crlf @
        concat (map (\<lambda>p. case p of Some s \<Rightarrow> s | None \<Rightarrow> nil_reply) parts) else [])"

definition send_int_val :: "kv_util \<Rightarrow> bool \<Rightarrow> int \<Rightarrow> byte list" where
  "send_int_val U ok ival =
     (if \<not> ok then []
      else if ival \<ge> 0 \<and> ival < 10 then [58, of_int ival + 48] @ crlf
      else [58] @ int64_to_string U ival @ crlf)"

definition send_int :: "kv_util \<Rightarrow> bool \<Rightarrow> int list \<Rightarrow> byte list" where
  "send_int U ok ivals =
     (if length ivals = 1 then send_int_val U ok (ivals ! 0)
      else if length ivals > 1 then send_int_val U ok (foldl (\<lambda>a i. to_int64 (a + i)) 0 ivals)
      else send_int_val U ok (- 1))"

subsection \<open>Errors\<close>

fun ds_msg_status_string :: "ds_msg_status \<Rightarrow> string" where
  "ds_msg_status_string MSG_OK = ''OK''"
| "ds_msg_status_string BAD_TYPE = ''BAD_TYPE''"
| "ds_msg_status_string PARTIAL = ''PARTIAL''"
| "ds_msg_status_string ALLOC_FAIL = ''ALLOC_FAIL''"
| "ds_msg_status_string BAD_JSON = ''BAD_JSON''"
| "ds_msg_status_string BAD_INT = ''BAD_INT''"
| "ds_msg_status_string INT_OVERFLOW = ''INT_OVERFLOW''"
| "ds_msg_status_string BAD_FLOAT = ''BAD_FLOAT''"
| "ds_msg_status_string FLOAT_OVERFLOW = ''FLOAT_OVERFLOW''"

fun ds_msg_status_description :: "ds_msg_status \<Rightarrow> string" where
  "ds_msg_status_description MSG_OK = ''OK''"
| "ds_msg_status_description BAD_TYPE = ''Message decoding error, bad type char''"
| "ds_msg_status_description PARTIAL = ''Partial value''"
| "ds_msg_status_description ALLOC_FAIL = ''Alloc failed''"
| "ds_msg_status_description BAD_JSON = ''Unable to parse JSON message''"
| "ds_msg_status_description BAD_INT = ''Unable to parse integer''"
| "ds_msg_status_description INT_OVERFLOW = ''Integer overflow''"
| "ds_msg_status_description BAD_FLOAT = ''Unable to parse float number''"
| "ds_msg_status_description FLOAT_OVERFLOW = ''Float number overflow''"

fun msg_status_code :: "ds_msg_status \<Rightarrow> nat" where
  "msg_status_code MSG_OK = 0"
| "msg_status_code INT_OVERFLOW = 1"
| "msg_status_code BAD_INT = 2"
| "msg_status_code FLOAT_OVERFLOW = 3"
| "msg_status_code BAD_FLOAT = 4"
| "msg_status_code BAD_TYPE = 5"
| "msg_status_code PARTIAL = 6"
| "msg_status_code ALLOC_FAIL = 7"
| "msg_status_code BAD_JSON = 8"

definition err_str :: "exec_status \<Rightarrow> string" where
  "err_str stat =
     (case stat of
        ERR_BAD_CMD \<Rightarrow> ''-ERR unknown''
      | ERR_BAD_ARGS \<Rightarrow> ''-ERR arguments format''
      | ERR_BAD_TYPE \<Rightarrow> ''-ERR type invalid''
      | ERR_BAD_RANGE \<Rightarrow> ''-ERR index invalid''
      | ERR_NO_GROUP \<Rightarrow> ''-ERR group missing''
      | ERR_GROUP_EXISTS \<Rightarrow> ''-ERR group exists''
      | ERR_STREAM_ID \<Rightarrow> ''-ERR stream id invalid''
      | ERR_ALLOC_FAIL \<Rightarrow> ''-ERR alloc failed''
      | ERR_KEY_EXISTS \<Rightarrow> ''-ERR key exists''
      | ERR_KEY_DOESNT_EXIST \<Rightarrow> ''-ERR key missing''
      | ERR_BAD_MULTI \<Rightarrow> ''-ERR bad multi, no nesting''
      | ERR_BAD_EXEC \<Rightarrow> ''-ERR bad exec, no multi''
      | ERR_BAD_DISCARD \<Rightarrow> ''-ERR bad discard, no multi''
      | ERR_ABORT_TRANS \<Rightarrow> ''-ERR transaction aborted, error''
      | ERR_SAVE \<Rightarrow> ''-ERR save failed, file error''
      | ERR_LOAD \<Rightarrow> ''-ERR load failed, file error''
      | _ \<Rightarrow> ''-ERR'')"

text \<open>What an error reply depends on beside the status: the status of the key and its texts, the
  status of the message and the first argument of the command.\<close>

record reply_env =
  re_kstat :: key_status
  re_kcode :: "key_status \<Rightarrow> nat"
  re_kstring :: "key_status \<Rightarrow> string"
  re_kdescr :: "key_status \<Rightarrow> string"
  re_mstatus :: ds_msg_status
  re_msg :: redis_msg

text \<open>\<open>snprintf\<close> into the 288 bytes of the buffer keeps 287.\<close>

definition err_detail :: "string \<Rightarrow> nat \<Rightarrow> string \<Rightarrow> string \<Rightarrow> byte list" where
  "err_detail kind code str descr =
     take 287 (ascii (''-ERR '' @ kind @ '' '') @ dec_nat code @ [47] @ ascii str @ [32] @ ascii descr)"

definition send_err_string :: "bool \<Rightarrow> reply_env \<Rightarrow> exec_status \<Rightarrow> byte list" where
  "send_err_string ok re stat =
     (let arg0 = (case get_arg_str (re_msg re) 0 of Some s \<Rightarrow> s | None \<Rightarrow> []);
          arg = (if length arg0 > MAX_CMD_LEN then take MAX_CMD_LEN arg0
                 else if length arg0 = 0 then ascii ''???'' else arg0);
          buf = (case stat of
              ERR_KV_STATUS \<Rightarrow> err_detail ''kv'' (re_kcode re (re_kstat re)) (re_kstring re (re_kstat re))
                                (re_kdescr re (re_kstat re))
            | ERR_MSG_STATUS \<Rightarrow> err_detail ''message'' (msg_status_code (re_mstatus re))
                                (ds_msg_status_string (re_mstatus re)) (ds_msg_status_description (re_mstatus re))
            | _ \<Rightarrow> ascii (err_str stat)) in
      if ok then buf @ ascii '' cmd: '' @ [39] @ arg @ [39] @ crlf else [])"

definition send_status :: "kv_util \<Rightarrow> bool \<Rightarrow> reply_env \<Rightarrow> int list \<Rightarrow> exec_status \<Rightarrow> byte list" where
  "send_status U ok re ivals stat =
     (if stat \<in> {EXEC_OK, EXEC_SETUP_OK, EXEC_SEND_DATA} then []
      else if stat = EXEC_SEND_OK then ascii ''+OK'' @ crlf
      else if stat \<in> {EXEC_ABORT_SEND_NIL, EXEC_SEND_NIL} then nil_reply
      else if stat = EXEC_SEND_NULL then ascii ''*-1'' @ crlf
      else if stat = EXEC_SEND_INT then send_int U ok ivals
      else if stat \<in> {EXEC_ABORT_SEND_ZERO, EXEC_SEND_ZEROARR} then ascii ''*0'' @ crlf
      else if stat = EXEC_SEND_ZERO then ascii '':0'' @ crlf
      else if stat = EXEC_SEND_ONE then ascii '':1'' @ crlf
      else if stat = EXEC_SEND_NEG_ONE then ascii '':-1'' @ crlf
      else if stat = EXEC_SEND_ZERO_STRING then ascii ''$0'' @ crlf @ crlf
      else if stat = EXEC_QUEUED then ascii ''+QUEUED'' @ crlf
      else if stat \<in> {EXEC_BLOCKED, EXEC_SUCCESS, EXEC_DEPENDS, EXEC_CONTINUE} then []
      else if stat \<in> {EXEC_QUIT, EXEC_DEBUG} then ascii ''+OK'' @ crlf
      else if stat = EXEC_SKIP then []
      else send_err_string ok re stat)"

section \<open>The result queue\<close>

text \<open>\<open>RedisBufQueue\<close>: elements are appended, the count goes in front at the end.\<close>

definition append_string :: "kv_util \<Rightarrow> byte list \<Rightarrow> byte list \<Rightarrow> byte list" where
  "append_string U str str2 =
     [36] @ uint64_to_string U (length str + length str2) @ crlf @ str @
     (if length str2 > 0 then str2 else []) @ crlf"

definition append_nil :: "bool \<Rightarrow> byte list" where
  "append_nil is_null = [if is_null then 42 else 36, 45, 49] @ crlf"

definition append_zero_array :: "byte list" where
  "append_zero_array = [42, 48] @ crlf"

definition append_uint :: "kv_util \<Rightarrow> nat \<Rightarrow> byte list" where
  "append_uint U val = [58] @ uint64_to_string U val @ crlf"

definition prepend_array :: "kv_util \<Rightarrow> nat \<Rightarrow> byte list \<Rightarrow> byte list" where
  "prepend_array U nitems q = [42] @ uint64_to_string U nitems @ crlf @ q"

definition prepend_cursor_array :: "kv_util \<Rightarrow> nat \<Rightarrow> nat \<Rightarrow> byte list \<Rightarrow> byte list" where
  "prepend_cursor_array U curs nitems q =
     [42, 50] @ crlf @ [36] @ uint64_to_string U (uint64_digits U curs) @ crlf @
     uint64_to_string U curs @ crlf @ [42] @ uint64_to_string U nitems @ crlf @ q"

section \<open>Replies are messages\<close>

lemma dec_int_nat: "dec_int (int n) = dec_nat n"
  by (simp add: dec_int_def)

lemma u2s_len:
  assumes "kv_format U" "n < 2 ^ 31"
  shows "uint64_to_string U n = int64_to_string U (int n)"
  using assms kv_format.u2s [OF assms(1), of n] kv_format.i2s [OF assms(1), of "int n"]
  by (simp add: dec_int_nat int64_range_def)

lemma send_string_pack:
  "kv_format U \<Longrightarrow> length data < 2 ^ 31 \<Longrightarrow> send_string U True data = pack U (mk_str data)"
  by (simp add: send_string_def mk_str_def u2s_len)

lemma send_concat_pack:
  "kv_format U \<Longrightarrow> length data + length data2 < 2 ^ 31 \<Longrightarrow>
    send_concat_string U True data data2 = pack U (mk_str (data @ data2))"
  by (simp add: send_concat_string_def mk_str_def u2s_len)

lemma append_string_pack:
  "kv_format U \<Longrightarrow> length data + length data2 < 2 ^ 31 \<Longrightarrow>
    append_string U data data2 = pack U (mk_str (data @ data2))"
  by (simp add: append_string_def mk_str_def u2s_len)

lemma nil_reply_pack: "kv_format U \<Longrightarrow> nil_reply = pack U set_nil"
  by (simp add: nil_reply_def set_nil_def kv_format.i2s int64_range_def dec_int_def dec_nat.simps of_char_def)

lemma append_nil_pack: "kv_format U \<Longrightarrow> append_nil b = pack U (if b then set_null else set_nil)"
  by (simp add: append_nil_def set_nil_def set_null_def kv_format.i2s int64_range_def dec_int_def dec_nat.simps)

lemma append_zero_array_pack: "kv_format U \<Longrightarrow> append_zero_array = pack U set_mt_array"
  by (simp add: append_zero_array_def set_mt_array_def kv_format.i2s int64_range_def dec_int_def dec_nat.simps)

lemma append_uint_pack: "kv_format U \<Longrightarrow> n < 2 ^ 63 \<Longrightarrow> append_uint U n = pack U (mk_int (int n))"
  using kv_format.u2s [of U n] kv_format.i2s [of U "int n"]
  by (simp add: append_uint_def mk_int_def dec_int_nat int64_range_def)

lemma prepend_array_pack:
  "kv_format U \<Longrightarrow> length ms < 2 ^ 31 \<Longrightarrow> prepend_array U (length ms) (concat (map (pack U) ms)) = pack U (mk_arr ms)"
  by (simp add: prepend_array_def mk_arr_def u2s_len)

lemma send_int_val_pack:
  assumes "kv_format U" "int64_range i"
  shows "send_int_val U True i = pack U (mk_int i)"
proof (cases "0 \<le> i \<and> i < 10")
  case True
  then have "nat i < 10" by linarith
  with True have "dec_int i = [48 + of_int i]"
    by (simp add: dec_int_def dec_nat.simps [of "nat i"])
  then show ?thesis using True assms by (simp add: send_int_val_def mk_int_def kv_format.i2s add.commute)
next
  case False
  then show ?thesis using assms by (auto simp: send_int_val_def mk_int_def)
qed

text \<open>The arrays of replies.\<close>

lemma array_string_result_pack:
  assumes "kv_format U" "length ds < 2 ^ 31" "\<forall>d\<in>set ds. case d of Some b \<Rightarrow> length b < 2 ^ 31 | None \<Rightarrow> True"
  shows "array_string_result U True (map (map_option (send_string U True)) ds)
    = pack U (mk_arr (map (\<lambda>d. case d of Some b \<Rightarrow> mk_str b | None \<Rightarrow> set_nil) ds))"
proof -
  have "(case map_option (send_string U True) d of Some s \<Rightarrow> s | None \<Rightarrow> nil_reply)
      = pack U (case d of Some b \<Rightarrow> mk_str b | None \<Rightarrow> set_nil)" if "d \<in> set ds" for d
  proof (cases d)
    case None
    then show ?thesis using nil_reply_pack [OF assms(1)] by simp
  next
    case (Some b)
    with bspec [OF assms(3) that] have "length b < 2 ^ 31" by simp
    then show ?thesis using send_string_pack [OF assms(1)] Some by simp
  qed
  then have "map (\<lambda>p. case p of Some s \<Rightarrow> s | None \<Rightarrow> nil_reply) (map (map_option (send_string U True)) ds)
      = map (pack U) (map (\<lambda>d. case d of Some b \<Rightarrow> mk_str b | None \<Rightarrow> set_nil) ds)"
    unfolding map_map comp_def by (intro map_cong refl)
  then show ?thesis using assms(1,2)
    by (simp add: array_string_result_def mk_arr_def u2s_len del: map_map)
qed

lemma prepend_cursor_pack:
  assumes "kv_format U" "curs < 2 ^ 64" "length ms < 2 ^ 31"
  shows "prepend_cursor_array U curs (length ms) (concat (map (pack U) ms))
    = pack U (mk_arr [mk_str (dec_nat curs), mk_arr ms])"
proof -
  have "uint64_digits U curs = length (dec_nat curs)" using assms(1,2) by (simp add: kv_format.udig)
  moreover have "length (dec_nat curs) < 2 ^ 31" using dec_nat_u64 [OF assms(2)] by simp
  moreover have "int64_to_string U 2 = [50]"
    using assms(1) by (simp add: kv_format.i2s int64_range_def dec_int_def dec_nat.simps)
  ultimately show ?thesis using assms
    by (simp add: prepend_cursor_array_def mk_arr_def mk_str_def u2s_len kv_format.u2s)
qed

text \<open>The message a status replies with.\<close>

definition reply_msg :: "reply_env \<Rightarrow> int list \<Rightarrow> exec_status \<Rightarrow> redis_msg option" where
  "reply_msg re ivals stat =
     (if stat \<in> {EXEC_OK, EXEC_SETUP_OK, EXEC_SEND_DATA, EXEC_BLOCKED, EXEC_SUCCESS, EXEC_DEPENDS, EXEC_CONTINUE, EXEC_SKIP} then None
      else if stat \<in> {EXEC_SEND_OK, EXEC_QUIT, EXEC_DEBUG} then Some (RStr DS_SIMPLE_STRING 2 (ascii ''OK''))
      else if stat \<in> {EXEC_ABORT_SEND_NIL, EXEC_SEND_NIL} then Some set_nil
      else if stat = EXEC_SEND_NULL then Some set_null
      else if stat = EXEC_SEND_INT then
        Some (mk_int (case ivals of [] \<Rightarrow> - 1 | [i] \<Rightarrow> i | _ \<Rightarrow> foldl (\<lambda>a i. to_int64 (a + i)) 0 ivals))
      else if stat \<in> {EXEC_ABORT_SEND_ZERO, EXEC_SEND_ZEROARR} then Some set_mt_array
      else if stat = EXEC_SEND_ZERO then Some (mk_int 0)
      else if stat = EXEC_SEND_ONE then Some (mk_int 1)
      else if stat = EXEC_SEND_NEG_ONE then Some (mk_int (- 1))
      else if stat = EXEC_SEND_ZERO_STRING then Some (mk_str [])
      else if stat = EXEC_QUEUED then Some (RStr DS_SIMPLE_STRING 6 (ascii ''QUEUED''))
      else let s = send_err_string True re stat; t = drop 1 (take (length s - 2) s) in
        Some (RStr DS_ERROR_STRING (int (length t)) t))"

lemma foldl_int64_range: "int64_range a \<Longrightarrow> int64_range (foldl (\<lambda>a i. to_int64 (a + i)) a js)"
  by (induction js arbitrary: a) (simp_all add: to_int64_range)

lemma send_int_pack:
  assumes "kv_format U" "\<forall>i\<in>set ivals. int64_range i"
  shows "send_int U True ivals
    = pack U (mk_int (case ivals of [] \<Rightarrow> - 1 | [i] \<Rightarrow> i | _ \<Rightarrow> foldl (\<lambda>a i. to_int64 (a + i)) 0 ivals))"
proof (cases ivals rule: remdups_adj.cases)
  case 1
  then show ?thesis using send_int_val_pack [OF assms(1), of "- 1"] by (simp add: send_int_def int64_range_def)
next
  case (2 i)
  then show ?thesis using send_int_val_pack [OF assms(1), of i] assms(2) by (simp add: send_int_def)
next
  case (3 i j js)
  have "int64_range (foldl (\<lambda>a i. to_int64 (a + i)) 0 ivals)"
    by (rule foldl_int64_range) (simp add: int64_range_def)
  from send_int_val_pack [OF assms(1) this] show ?thesis by (simp add: send_int_def 3)
qed

text \<open>An error reply is one line: a minus, the text, the command in quotes.\<close>

text \<open>The part of the command's name that the line repeats.\<close>

definition cmd_echo :: "reply_env \<Rightarrow> byte list" where
  "cmd_echo re = take MAX_CMD_LEN (case get_arg_str (re_msg re) 0 of Some s \<Rightarrow> s | None \<Rightarrow> [])"

lemma LF_not_dec_nat: "LF \<notin> set (dec_nat n)"
  using dec_nat_digits [of LF n] by (auto simp: is_digit_def)

lemma LF_ascii: "LF \<notin> set (ascii s) \<Longrightarrow> LF \<notin> set (take n (ascii s))"
  using set_take_subset by fast

lemma LF_err_detail:
  assumes "LF \<notin> set (ascii s)" "LF \<notin> set (ascii d)" "LF \<notin> set (ascii k)"
  shows "\<exists>t. err_detail k n s d = 45 # t \<and> LF \<notin> set t \<and> length t < 287"
proof -
  define u where "u = ascii ''ERR '' @ ascii k @ [32] @ dec_nat n @ [47] @ ascii s @ [32] @ ascii d"
  have "err_detail k n s d = take 287 (45 # u)" by (simp add: err_detail_def ascii_def u_def)
  moreover have "LF \<notin> set u" using assms LF_not_dec_nat by (auto simp: u_def)
  then have "LF \<notin> set (take 286 u)" by (meson in_set_takeD)
  ultimately show ?thesis by (intro exI [of _ "take 286 u"]) simp
qed

lemma LF_err_str: "\<exists>t. ascii (err_str stat) = 45 # t \<and> LF \<notin> set t \<and> length t < 287"
  by (cases stat) (simp_all add: err_str_def)

lemma LF_msg_status:
  "LF \<notin> set (ascii (ds_msg_status_string s))" "LF \<notin> set (ascii (ds_msg_status_description s))"
  by (cases s; simp)+

lemma send_err_line:
  assumes "LF \<notin> set (cmd_echo re)"
    and "stat = ERR_KV_STATUS \<Longrightarrow> LF \<notin> set (ascii (re_kstring re (re_kstat re))) \<and> LF \<notin> set (ascii (re_kdescr re (re_kstat re)))"
  shows "\<exists>t. send_err_string True re stat = 45 # t @ crlf \<and> LF \<notin> set t \<and> length t < 2 ^ 31"
proof -
  define arg where "arg = (let a = (case get_arg_str (re_msg re) 0 of Some s \<Rightarrow> s | None \<Rightarrow> []) in
    if length a > MAX_CMD_LEN then take MAX_CMD_LEN a else if length a = 0 then ascii ''???'' else a)"
  have "arg = (if cmd_echo re = [] then ascii ''???'' else cmd_echo re)"
    by (auto simp: arg_def cmd_echo_def Let_def MAX_CMD_LEN_def split: option.split)
  moreover have "length (cmd_echo re) \<le> 32" by (simp add: cmd_echo_def MAX_CMD_LEN_def)
  ultimately have arg: "LF \<notin> set arg" "length arg \<le> 32"
    using assms(1) by simp_all
  define buf where "buf = (case stat of
              ERR_KV_STATUS \<Rightarrow> err_detail ''kv'' (re_kcode re (re_kstat re)) (re_kstring re (re_kstat re))
                                (re_kdescr re (re_kstat re))
            | ERR_MSG_STATUS \<Rightarrow> err_detail ''message'' (msg_status_code (re_mstatus re))
                                (ds_msg_status_string (re_mstatus re)) (ds_msg_status_description (re_mstatus re))
            | _ \<Rightarrow> ascii (err_str stat))"
  have "\<exists>t. buf = 45 # t \<and> LF \<notin> set t \<and> length t < 287"
    using LF_err_str LF_err_detail LF_msg_status assms(2) unfolding buf_def
    by (cases stat) (simp_all only: exec_status.case, auto)
  then obtain t where t: "buf = 45 # t" "LF \<notin> set t" "length t < 287" by blast
  have "send_err_string True re stat = 45 # (t @ ascii '' cmd: '' @ [39] @ arg @ [39]) @ crlf"
    by (simp add: send_err_string_def arg_def [symmetric] buf_def [symmetric] t(1) Let_def)
      (simp add: arg_def Let_def)
  moreover have "LF \<notin> set (t @ ascii '' cmd: '' @ [39] @ arg @ [39])" using t(2) arg(1) by simp
  moreover have "length (t @ ascii '' cmd: '' @ [39] @ arg @ [39]) < 2 ^ 31" using t(3) arg(2) by simp
  ultimately show ?thesis by blast
qed

lemma reply_msg_ok:
  assumes "kv_format U" "\<forall>i\<in>set ivals. int64_range i"
    and "stat \<ge> ERR_KV_STATUS \<Longrightarrow> LF \<notin> set (cmd_echo re)"
    and "stat = ERR_KV_STATUS \<Longrightarrow> LF \<notin> set (ascii (re_kstring re (re_kstat re))) \<and> LF \<notin> set (ascii (re_kdescr re (re_kstat re)))"
  shows "case reply_msg re ivals stat of None \<Rightarrow> send_status U True re ivals stat = []
    | Some m \<Rightarrow> wf_msg m \<and> send_status U True re ivals stat = pack U m"
proof (cases "stat \<ge> ERR_KV_STATUS")
  case True
  obtain t where t: "send_err_string True re stat = 45 # t @ crlf" "LF \<notin> set t" "length t < 2 ^ 31"
    using send_err_line [OF assms(3) [OF True] assms(4)] by blast
  have "drop 1 (take (length (send_err_string True re stat) - 2) (send_err_string True re stat)) = t"
    by (simp add: t(1) crlf_def)
  with t True show ?thesis
    by (cases stat) (simp_all add: reply_msg_def send_status_def Let_def int32_range_def
        less_eq_exec_status_def status_code_def exec_statuses_def)
next
  case False
  have int: "int64_range (case ivals of [] \<Rightarrow> - 1 | [i] \<Rightarrow> i | _ \<Rightarrow> foldl (\<lambda>a i. to_int64 (a + i)) 0 ivals)"
    using assms(2) foldl_int64_range [of 0 ivals]
    by (cases ivals rule: remdups_adj.cases) (auto simp: int64_range_def)
  have nums: "int64_to_string U 0 = [48]" "int64_to_string U 1 = [49]" "int64_to_string U (- 1) = [45, 49]"
    using assms(1) by (simp_all add: kv_format.i2s int64_range_def dec_int_def dec_nat.simps)
  from False int send_int_pack [OF assms(1,2)] show ?thesis
    by (cases stat) (simp_all add: reply_msg_def send_status_def Let_def nil_reply_def set_nil_def
        set_null_def set_mt_array_def mk_int_def mk_str_def nums int32_range_def int64_range_def
        less_eq_exec_status_def status_code_def exec_statuses_def)
qed

section \<open>Properties\<close>

text \<open>C28: the client can read every reply. Whatever its status, a command adds nothing to the
  output stream, or one whole message that the decoder takes off the stream again, with the
  bytes of the replies behind it untouched; a status from \<open>ERR_KV_STATUS\<close> on is an error line. An
  error line repeats the first 32 bytes of the command's name as they are, and the texts of the key store with
  \<open>ERR_KV_STATUS\<close>: for these statuses there must be no line feed in them.\<close>

theorem status_replies_one_message:
  assumes "kv_format U" "\<forall>i\<in>set ivals. int64_range i"
    and "stat \<ge> ERR_KV_STATUS \<Longrightarrow> LF \<notin> set (cmd_echo re)"
    and "stat = ERR_KV_STATUS \<Longrightarrow> LF \<notin> set (ascii (re_kstring re (re_kstat re))) \<and> LF \<notin> set (ascii (re_kdescr re (re_kstat re)))"
  shows "case reply_msg re ivals stat of
      None \<Rightarrow> send_status U True re ivals stat = []
    | Some m \<Rightarrow> unpack enough_mem (send_status U True re ivals stat @ rest)
          = Inr (m, length (send_status U True re ivals stat))
        \<and> (stat \<ge> ERR_KV_STATUS \<longleftrightarrow> (\<exists>n t. m = RStr DS_ERROR_STRING n t))"
proof -
  have "stat \<ge> ERR_KV_STATUS \<longleftrightarrow> (\<exists>n t. m = RStr DS_ERROR_STRING n t)" if "reply_msg re ivals stat = Some m" for m
    using that by (cases stat) (auto simp: reply_msg_def Let_def less_eq_exec_status_def status_code_def
        exec_statuses_def set_nil_def set_null_def set_mt_array_def mk_int_def mk_str_def)
  then show ?thesis
    using reply_msg_ok [where stat = stat and re = re, OF assms] unpack_pack [OF assms(1) refl]
    by (cases "reply_msg re ivals stat") auto
qed

definition sample_env :: reply_env where
  "sample_env = \<lparr>re_kstat = KEY_BUSY, re_kcode = (\<lambda>_. 7), re_kstring = (\<lambda>_. ''KEY_BUSY''), re_kdescr = (\<lambda>_. ''busy''),
     re_mstatus = MSG_OK, re_msg = mk_arr [mk_str (ascii ''GET''), mk_str (ascii ''k'')]\<rparr>"

lemma sample_env_echo: "cmd_echo sample_env = ascii ''GET''" "LF \<notin> set (ascii (re_kstring sample_env (re_kstat sample_env)))"
    "LF \<notin> set (ascii (re_kdescr sample_env (re_kstat sample_env)))"
  by (simp_all add: sample_env_def cmd_echo_def get_arg_str_def mk_arr_def mk_str_def MAX_CMD_LEN_def)

theorem status_replies_one_message_witness:
  "unpack enough_mem (send_status int_str_util True sample_env [] ERR_KV_STATUS @ [36])
   = Inr (RStr DS_ERROR_STRING 33 (ascii (''ERR kv 7/KEY_BUSY busy cmd: '' @ [CHR 39] @ ''GET'' @ [CHR 39])),
        length (send_status int_str_util True sample_env [] ERR_KV_STATUS))"
proof -
  have "reply_msg sample_env [] ERR_KV_STATUS
      = Some (RStr DS_ERROR_STRING 33 (ascii (''ERR kv 7/KEY_BUSY busy cmd: '' @ [CHR 39] @ ''GET'' @ [CHR 39])))"
    by code_simp
  then show ?thesis
    using status_replies_one_message [OF fmt.kv_format_axioms, of "[]" ERR_KV_STATUS sample_env "[36]"]
    by (simp add: sample_env_echo del: ascii_simps) (simp add: sample_env_echo)
qed

text \<open>With a line feed in the name of an unknown command the line is cut: the client reads an error that ends
  inside the name, and takes the rest for a reply of its own.\<close>

lemma name_with_line_feed:
  "unpack enough_mem (send_status int_str_util True (sample_env\<lparr>re_msg := mk_arr [mk_str [120, LF, 58, 49]]\<rparr>) [] ERR_BAD_CMD)
    = Inr (RStr DS_ERROR_STRING 19 (ascii (''ERR unknown cmd: '' @ [CHR 39]) @ [120]), 21)"
  by code_simp

lemma cursor_reply_unpack:
  assumes "kv_format U" "curs < 2 ^ 64" "length ss < 2 ^ 31" "\<forall>s\<in>set ss. length s < 2 ^ 31"
  shows "unpack enough_mem (prepend_cursor_array U curs (length ss) (concat (map (\<lambda>s. append_string U s []) ss)))
    = Inr (mk_arr [mk_str (dec_nat curs), mk_arr (map mk_str ss)],
        length (prepend_cursor_array U curs (length ss) (concat (map (\<lambda>s. append_string U s []) ss))))"
proof -
  have eq: "map (\<lambda>s. append_string U s []) ss = map (pack U) (map mk_str ss)"
    using assms(4) append_string_pack [OF assms(1), of _ "[]"] by (simp add: comp_def)
  have "wf_msg (mk_arr [mk_str (dec_nat curs), mk_arr (map mk_str ss)])"
    using assms(3,4) dec_nat_u64 [OF assms(2)]
    by (auto simp: mk_arr_def int32_range_def wf_mk_str)
  from unpack_pack [OF assms(1) refl this, of "[]"] show ?thesis
    using prepend_cursor_pack [OF assms(1,2), of "map mk_str ss"] assms(3) by (simp add: eq)
qed

text \<open>C38: the reply of a cursor command, the cursor in decimal and the array of the elements that
  were appended to the queue, is an array of two messages whose elements come back in order.\<close>

theorem cursor_reply_roundtrip:
  assumes "kv_format U" "curs < 2 ^ 64" "length ss < 2 ^ 31" "\<forall>s\<in>set ss. length s < 2 ^ 31"
  shows "unpack enough_mem (prepend_cursor_array U curs (length ss) (concat (map (\<lambda>s. append_string U s []) ss)))
    = Inr (mk_arr [mk_str (dec_nat curs), mk_arr (map mk_str ss)],
        length (prepend_cursor_array U curs (length ss) (concat (map (\<lambda>s. append_string U s []) ss))))"
  using assms by (rule cursor_reply_unpack)

theorem cursor_reply_roundtrip_witness:
  "unpack enough_mem (prepend_cursor_array int_str_util 12 2 (ascii (''$1'' @ [CHR 13, CHR 10] @ ''a'' @ [CHR 13, CHR 10]
      @ ''$0'' @ [CHR 13, CHR 10, CHR 13, CHR 10])))
   = Inr (mk_arr [mk_str (ascii ''12''), mk_arr [mk_str (ascii ''a''), mk_str []]], 29)"
  using cursor_reply_roundtrip [OF fmt.kv_format_axioms, of 12 "[ascii ''a'', []]"]
  by (simp add: append_string_def fmt.u2s dec_nat.simps fmt.udig prepend_cursor_array_def of_char_def crlf_def)

end
