(* ===== verification/Redis_String.thy ===== *)
theory Redis_String
  imports Redis_Reply
begin

text \<open>
  The string commands of \<open>src/redis_string.cpp\<close> on one key: APPEND, STRLEN, GET, GETRANGE, GETSET,
  INCR and its relatives, INCRBYFLOAT, MGET, SET and its relatives, SETBIT, GETBIT, SETRANGE. A
  handler takes the operations of the entry, the command and the state of the key, and gives a
  status and the new state, or \<open>None\<close> where the code writes outside of the data or goes through a
  null pointer. The part of a handler behind the fetch, which several cases of its switch share,
  is a definition of its own.
\<close>

section \<open>Access to the data\<close>

text \<open>\<open>memcpy\<close> and \<open>memset\<close> into the data of the key; outside of it there is no result.\<close>

definition mem_copy :: "nat \<Rightarrow> byte list \<Rightarrow> byte list \<Rightarrow> byte list option" where
  "mem_copy off src bs =
     (if off + length src \<le> length bs then Some (take off bs @ src @ drop (off + length src) bs) else None)"

definition x_data :: "'e kv_ops \<Rightarrow> 'e xst \<Rightarrow> byte list" where
  "x_data K x = op_data K (x_ent x)"

definition put_data :: "'e kv_ops \<Rightarrow> 'e xst \<Rightarrow> byte list \<Rightarrow> 'e xst" where
  "put_data K x bs = x\<lparr>x_ent := op_set_data K (x_ent x) bs\<rparr>"

definition k_get_size :: "'e kv_ops \<Rightarrow> 'e xst \<Rightarrow> 'e xst" where
  "k_get_size K x = x\<lparr>x_kstatus := op_get_size K (x_ent x)\<rparr>"

definition k_value :: "'e kv_ops \<Rightarrow> 'e xst \<Rightarrow> 'e xst" where
  "k_value K x = x\<lparr>x_kstatus := op_value K (x_ent x)\<rparr>"

definition k_validate :: "'e kv_ops \<Rightarrow> 'e xst \<Rightarrow> 'e xst" where
  "k_validate K x = x\<lparr>x_kstatus := op_validate K (x_ent x)\<rparr>"

definition k_resize :: "'e kv_ops \<Rightarrow> nat \<Rightarrow> bool \<Rightarrow> 'e xst \<Rightarrow> 'e xst" where
  "k_resize K n cp x = (case op_resize K (x_ent x) n cp of (st, e) \<Rightarrow> x\<lparr>x_kstatus := st, x_ent := e\<rparr>)"

abbreviation keyspace_string :: "'e xst \<Rightarrow> 'e xst" where
  "keyspace_string \<equiv> set_flags {EKF_KEYSPACE_EVENT, EKF_KEYSPACE_STRING}"

abbreviation send :: "byte list \<Rightarrow> 'e xst \<Rightarrow> 'e xst" where
  "send bs x \<equiv> x\<lparr>x_out := x_out x @ bs\<rparr>"

section \<open>Handlers\<close>

subsection \<open>APPEND, STRLEN, GET, GETRANGE, GETSET\<close>

definition append_store :: "'e kv_ops \<Rightarrow> byte list \<Rightarrow> nat \<Rightarrow> 'e xst \<Rightarrow> (exec_status \<times> 'e xst) option" where
  "append_store K val data_sz x1 =
     (let x2 = k_resize K (nat (to_int64 (int (data_sz + length val)))) True
                 (x1\<lparr>x_ival := to_int64 (int (data_sz + length val))\<rparr>) in
      if x_kstatus x2 = KEY_OK then do {
        d \<leftarrow> mem_copy data_sz val (x_data K x2);
        Some (EXEC_SEND_INT, keyspace_string (put_data K x2 d)) }
      else Some (ERR_KV_STATUS, x2))"

definition exec_append :: "'e kv_ops \<Rightarrow> redis_exec \<Rightarrow> 'e xst \<Rightarrow> (exec_status \<times> 'e xst) option" where
  "exec_append K ex x =
     (case get_arg_str (ex_msg ex) 2 of None \<Rightarrow> Some (ERR_BAD_ARGS, x)
      | Some val \<Rightarrow>
        do {
          (st, x1) \<leftarrow> get_key_write K ex x MD_STRING;
          (case st of
             KEY_OK \<Rightarrow>
               let x2 = k_get_size K x1 in
               if x_kstatus x2 = KEY_OK then append_store K val (length (x_data K x2)) x2 else Some (ERR_KV_STATUS, x2)
           | KEY_IS_NEW \<Rightarrow> append_store K val 0 x1
           | KEY_NO_VALUE \<Rightarrow> Some (ERR_BAD_TYPE, x1)
           | _ \<Rightarrow> Some (ERR_KV_STATUS, x1))
        })"

definition exec_strlen :: "'e kv_ops \<Rightarrow> redis_exec \<Rightarrow> 'e xst \<Rightarrow> (exec_status \<times> 'e xst) option" where
  "exec_strlen K ex x = do {
     (st, x1) \<leftarrow> get_key_read K ex x MD_STRING;
     (case st of
        KEY_OK \<Rightarrow>
          let x2 = k_get_size K x1 in
          if x_kstatus x2 = KEY_OK
          then Some (EXEC_SEND_INT, x2\<lparr>x_ival := to_int64 (int (length (x_data K x2)))\<rparr>)
          else Some (ERR_KV_STATUS, x2)
      | KEY_NOT_FOUND \<Rightarrow> Some (EXEC_SEND_INT, x1\<lparr>x_ival := 0\<rparr>)
      | KEY_NO_VALUE \<Rightarrow> Some (ERR_BAD_TYPE, x1)
      | _ \<Rightarrow> Some (ERR_KV_STATUS, x1))
   }"

definition exec_get :: "kv_util \<Rightarrow> 'e kv_ops \<Rightarrow> redis_exec \<Rightarrow> 'e xst \<Rightarrow> (exec_status \<times> 'e xst) option" where
  "exec_get U K ex x = do {
     (st, x1) \<leftarrow> get_key_read K ex x MD_STRING;
     (case st of
        KEY_OK \<Rightarrow>
          let x2 = k_value K x1 in
          if x_kstatus x2 = KEY_OK then
            let reply = send_string U (x_strm_ok x2) (x_data K x2); x3 = k_validate K x2 in
            if x_kstatus x3 = KEY_OK then Some (EXEC_OK, send reply x3) else Some (ERR_KV_STATUS, x3)
          else Some (ERR_KV_STATUS, x2)
      | KEY_NOT_FOUND \<Rightarrow> Some (EXEC_SEND_NIL, x1)
      | KEY_NO_VALUE \<Rightarrow> Some (ERR_BAD_TYPE, x1)
      | _ \<Rightarrow> Some (ERR_KV_STATUS, x1))
   }"

text \<open>An argument that may be left out: it is read if the command has that many.\<close>

definition opt_int :: "redis_exec \<Rightarrow> nat \<Rightarrow> int \<Rightarrow> int option" where
  "opt_int ex n d = (if argc ex > n then get_arg_int (ex_msg ex) n else Some d)"

text \<open>The end points of a range, negative ones counted from the end, and their clipping.\<close>

definition end_point :: "nat \<Rightarrow> int \<Rightarrow> int" where
  "end_point sz i = (if i < 0 then int sz + i else i)"

definition clip_start :: "nat \<Rightarrow> int \<Rightarrow> int" where
  "clip_start sz i = min (max i 0) (int sz - 1)"

definition clip_end :: "nat \<Rightarrow> int \<Rightarrow> int" where
  "clip_end sz i = max (min i (int sz - 1)) 0"

definition clip_len :: "nat \<Rightarrow> int \<Rightarrow> int \<Rightarrow> nat" where
  "clip_len sz s e =
     (if clip_end sz e \<ge> clip_start sz s then nat (clip_end sz e + 1 - clip_start sz s) else 0)"

definition exec_getrange :: "kv_util \<Rightarrow> 'e kv_ops \<Rightarrow> redis_exec \<Rightarrow> 'e xst \<Rightarrow> (exec_status \<times> 'e xst) option" where
  "exec_getrange U K ex x =
     (case opt_int ex 2 0 of None \<Rightarrow> Some (ERR_BAD_ARGS, x)
      | Some st0 \<Rightarrow> (case opt_int ex 3 (- 1) of None \<Rightarrow> Some (ERR_BAD_ARGS, x)
      | Some en0 \<Rightarrow> do {
        (st, x1) \<leftarrow> get_key_read K ex x MD_STRING;
        (case st of
           KEY_OK \<Rightarrow>
             let x2 = k_value K x1; sz = length (x_data K x2);
                 start_off = end_point sz st0; end_off = end_point sz en0 in
             if x_kstatus x2 = KEY_OK then
               let res = (if sz = 0 then None
                 else if start_off > end_off \<or> (start_off < 0 \<and> end_off < 0)
                    \<or> (start_off \<ge> int sz \<and> end_off \<ge> int sz) then None
                 else Some (send_string U (x_strm_ok x2)
                   (take (clip_len sz start_off end_off) (drop (nat (clip_start sz start_off)) (x_data K x2)))));
                 x3 = k_validate K x2 in
               if x_kstatus x3 = KEY_OK then
                 (case res of None \<Rightarrow> Some (EXEC_SEND_ZERO_STRING, x3) | Some reply \<Rightarrow> Some (EXEC_OK, send reply x3))
               else Some (ERR_KV_STATUS, x3)
             else Some (ERR_KV_STATUS, x2)
         | KEY_NOT_FOUND \<Rightarrow> Some (EXEC_SEND_ZERO_STRING, x1)
         | KEY_NO_VALUE \<Rightarrow> Some (ERR_BAD_TYPE, x1)
         | _ \<Rightarrow> Some (ERR_KV_STATUS, x1))
      }))"

definition getset_store :: "'e kv_ops \<Rightarrow> byte list \<Rightarrow> byte list \<Rightarrow> 'e xst \<Rightarrow> (exec_status \<times> 'e xst) option" where
  "getset_store K val reply x1 =
     (let x2 = k_resize K (length val) False (x1\<lparr>x_ent := op_clear_stamps K (x_ent x1) True False\<rparr>) in
      if x_kstatus x2 = KEY_OK then do {
        d \<leftarrow> mem_copy 0 val (x_data K x2);
        let x3 = keyspace_string (put_data K x2 d);
        Some (if is_new x3 then (EXEC_SEND_NIL, x3) else (EXEC_OK, send reply x3)) }
      else Some (ERR_KV_STATUS, x2))"

definition exec_getset :: "kv_util \<Rightarrow> 'e kv_ops \<Rightarrow> redis_exec \<Rightarrow> 'e xst \<Rightarrow> (exec_status \<times> 'e xst) option" where
  "exec_getset U K ex x =
     (case get_arg_str (ex_msg ex) 2 of None \<Rightarrow> Some (ERR_BAD_ARGS, x)
      | Some val \<Rightarrow>
        do {
          (st, x1) \<leftarrow> get_key_write K ex x MD_STRING;
          (case st of
             KEY_OK \<Rightarrow>
               let x2 = k_value K x1 in
               if x_kstatus x2 \<noteq> KEY_OK then Some (ERR_KV_STATUS, x2)
               else getset_store K val (send_string U (x_strm_ok x2) (x_data K x2)) x2
           | KEY_IS_NEW \<Rightarrow> getset_store K val [] x1
           | KEY_NO_VALUE \<Rightarrow> Some (ERR_BAD_TYPE, x1)
           | _ \<Rightarrow> Some (ERR_KV_STATUS, x1))
        })"

subsection \<open>INCR, DECR and INCRBYFLOAT\<close>

text \<open>A value that does not parse leaves the sum at the increment. The reply is written into the
  stream before it is known to have room: without it there is no result.\<close>

definition do_add_store :: "kv_util \<Rightarrow> 'e kv_ops \<Rightarrow> int \<Rightarrow> 'e xst \<Rightarrow> (exec_status \<times> 'e xst) option" where
  "do_add_store U K incr x1 =
     (let x2 = x1\<lparr>x_ival := to_int64 (x_ival x1 + incr)\<rparr> in
      if \<not> x_strm_ok x2 then None
      else let digits = int64_to_string U (x_ival x2); x3 = k_resize K (length digits) False x2 in
        if x_kstatus x3 = KEY_OK then do {
          d \<leftarrow> mem_copy 0 digits (x_data K x3);
          Some (EXEC_OK, keyspace_string (send ([58] @ digits @ crlf) (put_data K x3 d))) }
        else Some (ERR_KV_STATUS, x3))"

definition do_add :: "kv_util \<Rightarrow> 'e kv_ops \<Rightarrow> redis_exec \<Rightarrow> 'e xst \<Rightarrow> int \<Rightarrow> (exec_status \<times> 'e xst) option" where
  "do_add U K ex x incr =
     (do {
        (st, x1) \<leftarrow> get_key_write K ex (x\<lparr>x_ival := 0\<rparr>) MD_STRING;
        (case st of
           KEY_OK \<Rightarrow>
             let x2 = k_value K x1 in
             if x_kstatus x2 \<noteq> KEY_OK then Some (ERR_KV_STATUS, x2)
             else if length (x_data K x2) > 0 then
               (case string_to_int (x_data K x2) of
                  Inl e \<Rightarrow> do_add_store U K incr (x2\<lparr>x_mstatus := e\<rparr>)
                | Inr i \<Rightarrow> do_add_store U K incr (x2\<lparr>x_mstatus := MSG_OK, x_ival := i\<rparr>))
             else do_add_store U K incr x2
         | KEY_IS_NEW \<Rightarrow> do_add_store U K incr x1
         | KEY_NO_VALUE \<Rightarrow> Some (ERR_BAD_TYPE, x1)
         | _ \<Rightarrow> Some (ERR_KV_STATUS, x1))
      })"

definition exec_incr :: "kv_util \<Rightarrow> 'e kv_ops \<Rightarrow> redis_exec \<Rightarrow> 'e xst \<Rightarrow> (exec_status \<times> 'e xst) option" where
  "exec_incr U K ex x = do_add U K ex x 1"

definition exec_incrby :: "kv_util \<Rightarrow> 'e kv_ops \<Rightarrow> redis_exec \<Rightarrow> 'e xst \<Rightarrow> (exec_status \<times> 'e xst) option" where
  "exec_incrby U K ex x =
     (case get_arg_int (ex_msg ex) 2 of None \<Rightarrow> Some (ERR_BAD_ARGS, x) | Some incr \<Rightarrow> do_add U K ex x incr)"

definition exec_decr :: "kv_util \<Rightarrow> 'e kv_ops \<Rightarrow> redis_exec \<Rightarrow> 'e xst \<Rightarrow> (exec_status \<times> 'e xst) option" where
  "exec_decr U K ex x = do_add U K ex x (- 1)"

definition exec_decrby :: "kv_util \<Rightarrow> 'e kv_ops \<Rightarrow> redis_exec \<Rightarrow> 'e xst \<Rightarrow> (exec_status \<times> 'e xst) option" where
  "exec_decrby U K ex x =
     (case get_arg_int (ex_msg ex) 2 of None \<Rightarrow> Some (ERR_BAD_ARGS, x)
      | Some decr \<Rightarrow> do_add U K ex x (to_int64 (- decr)))"

text \<open>The decimal arithmetic is raimd's, a parameter.\<close>

record 'd decimal =
  dec_zero :: 'd
  dec_parse :: "byte list \<Rightarrow> 'd"
  dec_plus :: "'d \<Rightarrow> 'd \<Rightarrow> 'd"
  dec_string :: "'d \<Rightarrow> byte list"

definition incrbyfloat_store :: "'d decimal \<Rightarrow> kv_util \<Rightarrow> 'e kv_ops \<Rightarrow> byte list \<Rightarrow> 'd \<Rightarrow> 'e xst \<Rightarrow> (exec_status \<times> 'e xst) option" where
  "incrbyfloat_store D U K fval fp x1 =
     (let fpdata = dec_string D (dec_plus D fp (dec_parse D fval)) in
      if \<not> x_strm_ok x1 then None
      else let x2 = k_resize K (length fpdata) False x1 in
        if x_kstatus x2 = KEY_OK then do {
          d \<leftarrow> mem_copy 0 fpdata (x_data K x2);
          Some (EXEC_OK, keyspace_string (send ([36] @ int64_to_string U (int (length fpdata)) @ crlf
            @ fpdata @ crlf) (put_data K x2 d))) }
        else Some (ERR_KV_STATUS, x2))"

definition exec_incrbyfloat :: "'d decimal \<Rightarrow> kv_util \<Rightarrow> 'e kv_ops \<Rightarrow> redis_exec \<Rightarrow> 'e xst \<Rightarrow> (exec_status \<times> 'e xst) option" where
  "exec_incrbyfloat D U K ex x =
     (case get_arg_str (ex_msg ex) 2 of None \<Rightarrow> Some (ERR_BAD_ARGS, x)
      | Some fval \<Rightarrow>
        do {
          (st, x1) \<leftarrow> get_key_write K ex x MD_STRING;
          (case st of
             KEY_OK \<Rightarrow>
               let x2 = k_value K x1 in
               if x_kstatus x2 \<noteq> KEY_OK then Some (ERR_KV_STATUS, x2)
               else if length (x_data K x2) > 0 then incrbyfloat_store D U K fval (dec_parse D (x_data K x2)) x2
               else incrbyfloat_store D U K fval (dec_zero D) x2
           | KEY_IS_NEW \<Rightarrow> incrbyfloat_store D U K fval (dec_zero D) x1
           | KEY_NO_VALUE \<Rightarrow> Some (ERR_BAD_TYPE, x1)
           | _ \<Rightarrow> Some (ERR_KV_STATUS, x1))
        })"

subsection \<open>MGET, SET and its relatives\<close>

definition exec_mget :: "kv_util \<Rightarrow> 'e kv_ops \<Rightarrow> redis_exec \<Rightarrow> 'e xst \<Rightarrow> (exec_status \<times> 'e xst) option" where
  "exec_mget U K ex x = do {
     (st, x1) \<leftarrow> get_key_read K ex x MD_STRING;
     (case st of
        KEY_OK \<Rightarrow>
          let x2 = k_value K x1 in
          if x_kstatus x2 = KEY_OK then
            (case save_string_result U (x_strm_ok x2) (x_data K x2) x2 of (ok, x3) \<Rightarrow>
               if \<not> ok then Some (ERR_ALLOC_FAIL, x3)
               else let x4 = k_validate K x3 in
                 if x_kstatus x4 = KEY_OK then Some (EXEC_OK, x4) else Some (ERR_KV_STATUS, x4))
          else Some (ERR_KV_STATUS, x2)
      | KEY_NOT_FOUND \<Rightarrow> Some (EXEC_OK, x1\<lparr>x_part := None\<rparr>)
      | KEY_NO_VALUE \<Rightarrow> Some (EXEC_OK, x1\<lparr>x_part := None\<rparr>)
      | _ \<Rightarrow> Some (ERR_KV_STATUS, x1))
   }"

datatype set_flag = HAS_EXPIRE_NS | K_MUST_NOT_EXIST | K_MUST_EXIST

definition TEN_YEARS_NS :: u64 where
  "TEN_YEARS_NS = (10 * 12) * (30 * 24 * 60 * 60) * (1000 * 1000 * 1000)"

definition MSETNX_CMD :: nat where
  "MSETNX_CMD = 54"

text \<open>NX and XX: whether the key has to be left as it is.\<close>

definition set_refused :: "set_flag set \<Rightarrow> 'e xst \<Rightarrow> bool" where
  "set_refused flags x \<longleftrightarrow>
     is_new x \<and> K_MUST_EXIST \<in> flags \<or> \<not> is_new x \<and> K_MUST_NOT_EXIST \<in> flags"

definition set_expire_store :: "'e kv_ops \<Rightarrow> byte list \<Rightarrow> u64 \<Rightarrow> set_flag set \<Rightarrow> 'e xst \<Rightarrow> (exec_status \<times> 'e xst) option" where
  "set_expire_store K val ns flags x1 =
     (if set_refused flags x1 then Some (EXEC_SEND_NIL, x1)
      else let x2 = k_resize K (length val) False x1 in
        if x_kstatus x2 = KEY_OK then do {
          d \<leftarrow> mem_copy 0 val (x_data K x2);
          let x3 = put_data K x2 d;
          let exp = (if ns \<noteq> 0 \<and> ns < TEN_YEARS_NS then ns + op_current_stamp K (x_ent x3) else ns);
          let x4 = x3\<lparr>x_ent := op_update_stamps K (x_ent x3) exp 0\<rparr>;
          Some (EXEC_SEND_OK, keyspace_string x4) }
        else Some (ERR_KV_STATUS, x2))"

definition do_set_value_expire :: "'e kv_ops \<Rightarrow> redis_exec \<Rightarrow> 'e xst \<Rightarrow> nat \<Rightarrow> u64 \<Rightarrow> set_flag set
    \<Rightarrow> (exec_status \<times> 'e xst) option" where
  "do_set_value_expire K ex x n ns flags =
     (case get_arg_str (ex_msg ex) n of None \<Rightarrow> Some (ERR_BAD_ARGS, x)
      | Some val \<Rightarrow>
        do {
          (st, x1) \<leftarrow> get_key_write K ex x MD_STRING;
          (case st of
             KEY_NO_VALUE \<Rightarrow> set_expire_store K val ns flags ((set_flags {EKF_IS_NEW} x1)\<lparr>x_type := MD_STRING\<rparr>)
           | KEY_OK \<Rightarrow> set_expire_store K val ns flags x1
           | KEY_IS_NEW \<Rightarrow> set_expire_store K val ns flags x1
           | _ \<Rightarrow> Some (ERR_KV_STATUS, x1))
        })"

definition set_store :: "'e kv_ops \<Rightarrow> redis_exec \<Rightarrow> byte list \<Rightarrow> set_flag set \<Rightarrow> 'e xst \<Rightarrow> (exec_status \<times> 'e xst) option" where
  "set_store K ex val flags x1 =
     (if set_refused flags x1 then Some (EXEC_SEND_NIL, x1)
      else let x2 = k_resize K (length val) False (x1\<lparr>x_ent := op_clear_stamps K (x_ent x1) True False\<rparr>) in
        if x_kstatus x2 = KEY_OK then do {
          d \<leftarrow> mem_copy 0 val (x_data K x2);
          Some (if ex_cmd ex = MSETNX_CMD then EXEC_SEND_ONE else EXEC_SEND_OK, keyspace_string (put_data K x2 d)) }
        else Some (ERR_KV_STATUS, x2))"

definition do_set_value :: "'e kv_ops \<Rightarrow> redis_exec \<Rightarrow> 'e xst \<Rightarrow> nat \<Rightarrow> set_flag set
    \<Rightarrow> (exec_status \<times> 'e xst) option" where
  "do_set_value K ex x n flags =
     (case get_arg_str (ex_msg ex) n of None \<Rightarrow> Some (ERR_BAD_ARGS, x)
      | Some val \<Rightarrow>
        do {
          (st, x1) \<leftarrow> get_key_write K ex x MD_STRING;
          (case st of
             KEY_NO_VALUE \<Rightarrow> set_store K ex val flags ((set_flags {EKF_IS_NEW} x1)\<lparr>x_type := MD_STRING\<rparr>)
           | KEY_OK \<Rightarrow> set_store K ex val flags x1
           | KEY_IS_NEW \<Rightarrow> set_store K ex val flags x1
           | _ \<Rightarrow> Some (ERR_KV_STATUS, x1))
        })"

text \<open>The options of SET, \<open>None\<close> where they do not parse.\<close>

function set_options :: "redis_exec \<Rightarrow> nat \<Rightarrow> u64 \<Rightarrow> set_flag set \<Rightarrow> (u64 \<times> set_flag set) option" where
  "set_options ex i ns flags =
     (if i < argc ex then
        (case get_arg_str (ex_msg ex) i of None \<Rightarrow> None
         | Some opt \<Rightarrow>
           if length opt \<noteq> 2 \<or> to_upper (opt ! 1) \<noteq> of_char CHR ''X'' then None
           else if to_upper (opt ! 0) = of_char CHR ''E'' then
             (case get_arg_int (ex_msg ex) (i + 1) of None \<Rightarrow> None
              | Some ival \<Rightarrow> set_options ex (i + 2) (of_int ival * 1000 * 1000 * 1000) (flags \<union> {HAS_EXPIRE_NS}))
           else if to_upper (opt ! 0) = of_char CHR ''P'' then
             (case get_arg_int (ex_msg ex) (i + 1) of None \<Rightarrow> None
              | Some ival \<Rightarrow> set_options ex (i + 2) (of_int ival * 1000 * 1000) (flags \<union> {HAS_EXPIRE_NS}))
           else if to_upper (opt ! 0) = of_char CHR ''N'' then set_options ex (i + 1) ns (flags \<union> {K_MUST_NOT_EXIST})
           else if to_upper (opt ! 0) = of_char CHR ''X'' then set_options ex (i + 1) ns (flags \<union> {K_MUST_EXIST})
           else None)
      else Some (ns, flags))"
  by pat_completeness auto
termination
  by (relation "measure (\<lambda>(ex, i, ns, flags). argc ex - i)") auto

declare set_options.simps [simp del]

definition exec_set :: "'e kv_ops \<Rightarrow> redis_exec \<Rightarrow> 'e xst \<Rightarrow> (exec_status \<times> 'e xst) option" where
  "exec_set K ex x =
     (case set_options ex 3 0 {} of None \<Rightarrow> Some (ERR_BAD_ARGS, x)
      | Some (ns, flags) \<Rightarrow>
        if HAS_EXPIRE_NS \<in> flags then do_set_value_expire K ex x 2 ns flags
        else do_set_value K ex x 2 flags)"

definition exec_setex :: "'e kv_ops \<Rightarrow> redis_exec \<Rightarrow> 'e xst \<Rightarrow> (exec_status \<times> 'e xst) option" where
  "exec_setex K ex x =
     (case get_arg_int (ex_msg ex) 2 of None \<Rightarrow> Some (ERR_BAD_ARGS, x)
      | Some ival \<Rightarrow> do_set_value_expire K ex x 3 (of_int ival * 1000 * 1000 * 1000) {HAS_EXPIRE_NS})"

definition exec_psetex :: "'e kv_ops \<Rightarrow> redis_exec \<Rightarrow> 'e xst \<Rightarrow> (exec_status \<times> 'e xst) option" where
  "exec_psetex K ex x =
     (case get_arg_int (ex_msg ex) 2 of None \<Rightarrow> Some (ERR_BAD_ARGS, x)
      | Some ival \<Rightarrow> do_set_value_expire K ex x 3 (of_int ival * 1000 * 1000) {HAS_EXPIRE_NS})"

definition exec_setnx :: "'e kv_ops \<Rightarrow> redis_exec \<Rightarrow> 'e xst \<Rightarrow> (exec_status \<times> 'e xst) option" where
  "exec_setnx K ex x = do_set_value K ex x 2 {K_MUST_NOT_EXIST}"

definition exec_mset :: "'e kv_ops \<Rightarrow> redis_exec \<Rightarrow> 'e xst \<Rightarrow> (exec_status \<times> 'e xst) option" where
  "exec_mset K ex x = do_set_value K ex x (x_argn x + 1) {}"

text \<open>The first round, while nothing depends on the key, only looks for a key that is there.\<close>

definition exec_msetnx :: "'e kv_ops \<Rightarrow> redis_exec \<Rightarrow> 'e xst \<Rightarrow> (exec_status \<times> 'e xst) option" where
  "exec_msetnx K ex x =
     (if x_dep x = 0 then do {
        (st, x1) \<leftarrow> exec_key_fetch K ex True x;
        if st = KEY_OK then Some (EXEC_ABORT_SEND_ZERO, x1)
        else if key_done ex + 1 < key_cnt ex then Some (EXEC_DEPENDS, x1)
        else do_set_value K ex x1 (x_argn x1 + 1) {} }
      else do_set_value K ex x (x_argn x + 1) {})"

subsection \<open>Bits and ranges\<close>

definition setbit_store :: "'e kv_ops \<Rightarrow> nat \<Rightarrow> byte \<Rightarrow> int \<Rightarrow> nat \<Rightarrow> 'e xst \<Rightarrow> (exec_status \<times> 'e xst) option" where
  "setbit_store K byte_off bit_mask bitval data_sz x1 =
     (let new_sz = max data_sz (byte_off + 1); x2 = k_resize K new_sz True x1 in
      if x_kstatus x2 = KEY_OK then do {
        d \<leftarrow> (if new_sz > data_sz then mem_copy data_sz (replicate (new_sz - data_sz) 0) (x_data K x2)
              else Some (x_data K x2));
        if byte_off < length d then
          let v = d ! byte_off in
          Some (EXEC_SEND_INT, put_data K (x2\<lparr>x_ival := if v AND bit_mask \<noteq> 0 then 1 else 0\<rparr>)
            (d[byte_off := if bitval = 0 then v AND NOT bit_mask else v OR bit_mask]))
        else None }
      else Some (ERR_KV_STATUS, x2))"

definition exec_setbit :: "'e kv_ops \<Rightarrow> redis_exec \<Rightarrow> 'e xst \<Rightarrow> (exec_status \<times> 'e xst) option" where
  "exec_setbit K ex x =
     (case get_arg_int (ex_msg ex) 2 of None \<Rightarrow> Some (ERR_BAD_ARGS, x)
      | Some off \<Rightarrow>
        if off < 0 then Some (ERR_BAD_ARGS, x)
        else (case get_arg_int (ex_msg ex) 3 of None \<Rightarrow> Some (ERR_BAD_ARGS, x)
        | Some bitval \<Rightarrow>
          if (of_int bitval :: u64) > 1 then Some (ERR_BAD_ARGS, x)
          else
            let byte_off = nat off div 8; bit_mask = push_bit (nat off mod 8) 1 :: byte in
        do {
              (st, x1) \<leftarrow> get_key_write K ex x MD_STRING;
              (case st of
                 KEY_OK \<Rightarrow>
                   let x2 = k_get_size K x1 in
                   if x_kstatus x2 = KEY_OK then setbit_store K byte_off bit_mask bitval (length (x_data K x2)) x2 else Some (ERR_KV_STATUS, x2)
               | KEY_IS_NEW \<Rightarrow> setbit_store K byte_off bit_mask bitval 0 x1
               | KEY_NO_VALUE \<Rightarrow> Some (ERR_BAD_TYPE, x1)
               | _ \<Rightarrow> Some (ERR_KV_STATUS, x1))
            }))"

definition exec_getbit :: "'e kv_ops \<Rightarrow> redis_exec \<Rightarrow> 'e xst \<Rightarrow> (exec_status \<times> 'e xst) option" where
  "exec_getbit K ex x =
     (case get_arg_int (ex_msg ex) 2 of None \<Rightarrow> Some (ERR_BAD_ARGS, x)
      | Some off \<Rightarrow>
        if off < 0 then Some (EXEC_SEND_ZERO, x)
        else
          let byte_off = nat off div 8; mask = push_bit (nat off mod 8) 1 :: byte in
          do {
            (st, x1) \<leftarrow> get_key_read K ex x MD_STRING;
            (case st of
               KEY_OK \<Rightarrow>
                 let x2 = k_value K x1 in
                 if x_kstatus x2 = KEY_OK then
                   let is_one = (byte_off < length (x_data K x2) \<and> (x_data K x2 ! byte_off) AND mask \<noteq> 0);
                       x3 = k_validate K x2 in
                   if x_kstatus x3 = KEY_OK then Some (if is_one then EXEC_SEND_ONE else EXEC_SEND_ZERO, x3)
                   else Some (ERR_KV_STATUS, x3)
                 else Some (ERR_KV_STATUS, x2)
             | KEY_NOT_FOUND \<Rightarrow> Some (EXEC_SEND_ZERO, x1)
             | KEY_NO_VALUE \<Rightarrow> Some (ERR_BAD_TYPE, x1)
             | _ \<Rightarrow> Some (ERR_KV_STATUS, x1))
          })"

definition setrange_store :: "'e kv_ops \<Rightarrow> nat \<Rightarrow> byte list \<Rightarrow> nat \<Rightarrow> 'e xst \<Rightarrow> (exec_status \<times> 'e xst) option" where
  "setrange_store K off val data_sz x1 =
     (let new_sz = max data_sz (off + length val);
          x2 = k_resize K new_sz True (x1\<lparr>x_ival := to_int64 (int new_sz)\<rparr>) in
      if x_kstatus x2 = KEY_OK then do {
        d1 \<leftarrow> (if off > data_sz then mem_copy data_sz (replicate (off - data_sz) 0) (x_data K x2)
               else Some (x_data K x2));
        d2 \<leftarrow> mem_copy off val d1;
        Some (EXEC_SEND_INT, keyspace_string (put_data K x2 d2)) }
      else Some (ERR_KV_STATUS, x2))"

definition exec_setrange :: "'e kv_ops \<Rightarrow> redis_exec \<Rightarrow> 'e xst \<Rightarrow> (exec_status \<times> 'e xst) option" where
  "exec_setrange K ex x =
     (case get_arg_int (ex_msg ex) 2 of None \<Rightarrow> Some (ERR_BAD_ARGS, x)
      | Some ioff \<Rightarrow>
        if ioff < 0 then Some (ERR_BAD_ARGS, x)
        else (case get_arg_str (ex_msg ex) 3 of None \<Rightarrow> Some (ERR_BAD_ARGS, x)
        | Some val \<Rightarrow>
          let off = nat ioff in
        do {
            (st, x1) \<leftarrow> get_key_write K ex x MD_STRING;
            (case st of
               KEY_OK \<Rightarrow>
                 let x2 = k_get_size K x1 in
                 if x_kstatus x2 = KEY_OK then setrange_store K off val (length (x_data K x2)) x2 else Some (ERR_KV_STATUS, x2)
             | KEY_IS_NEW \<Rightarrow> setrange_store K off val 0 x1
             | KEY_NO_VALUE \<Rightarrow> Some (ERR_BAD_TYPE, x1)
             | _ \<Rightarrow> Some (ERR_KV_STATUS, x1))
          }))"

section \<open>What the handlers rely on\<close>

lemma mem_copy_in: "off + length src \<le> length bs \<Longrightarrow> mem_copy off src bs = Some (take off bs @ src @ drop (off + length src) bs)"
  by (simp add: mem_copy_def)

lemma x_data_upd [simp]:
  "x_data K (x\<lparr>x_kstatus := a\<rparr>) = x_data K x" "x_data K (x\<lparr>x_ival := i\<rparr>) = x_data K x"
  "x_data K (x\<lparr>x_out := bs\<rparr>) = x_data K x" "x_data K (x\<lparr>x_mstatus := m\<rparr>) = x_data K x"
  "x_data K (x\<lparr>x_part := p\<rparr>) = x_data K x" "x_data K (x\<lparr>x_type := ty\<rparr>) = x_data K x"
  "x_data K (set_flags fs x) = x_data K x"
  "x_data K (x\<lparr>x_flags := fs\<rparr>) = x_data K x"
  "x_data K (x\<lparr>x_ent := e\<rparr>) = op_data K e"
  by (simp_all add: x_data_def set_flags_def)

lemma x_data_k [simp]:
  "x_data K (k_get_size K x) = x_data K x" "x_data K (k_value K x) = x_data K x"
  "x_data K (k_validate K x) = x_data K x"
  by (simp_all add: k_get_size_def k_value_def k_validate_def)

lemma set_flags_sel [simp]:
  "x_ival (set_flags fs x) = x_ival x" "x_out (set_flags fs x) = x_out x" "x_ent (set_flags fs x) = x_ent x"
  "x_strm_ok (set_flags fs x) = x_strm_ok x" "x_kstatus (set_flags fs x) = x_kstatus x"
  "x_flags (set_flags fs x) = x_flags x \<union> fs"
  by (simp_all add: set_flags_def)

lemma put_data_sel [simp]:
  "x_ival (put_data K x d) = x_ival x" "x_out (put_data K x d) = x_out x"
  "x_flags (put_data K x d) = x_flags x" "x_strm_ok (put_data K x d) = x_strm_ok x"
  by (simp_all add: put_data_def)

lemma k_sel [simp]:
  "x_ival (k_get_size K x) = x_ival x" "x_ival (k_value K x) = x_ival x" "x_ival (k_validate K x) = x_ival x"
  "x_out (k_get_size K x) = x_out x" "x_out (k_value K x) = x_out x" "x_out (k_validate K x) = x_out x"
  "x_strm_ok (k_get_size K x) = x_strm_ok x" "x_strm_ok (k_value K x) = x_strm_ok x"
  "x_flags (k_get_size K x) = x_flags x" "x_flags (k_value K x) = x_flags x"
  by (simp_all add: k_get_size_def k_value_def k_validate_def)

lemma k_resize_sel [simp]:
  "x_ival (k_resize K n cp x) = x_ival x" "x_out (k_resize K n cp x) = x_out x"
  "x_strm_ok (k_resize K n cp x) = x_strm_ok x" "x_flags (k_resize K n cp x) = x_flags x"
  by (simp_all add: k_resize_def split: prod.split)

text \<open>The value a write starts from: that of the key, or nothing if the key is new.\<close>

definition old_value :: "'e kv_ops \<Rightarrow> key_status \<Rightarrow> 'e xst \<Rightarrow> byte list" where
  "old_value K st x = (if st = KEY_OK then x_data K x else [])"

text \<open>What a store leaves: the new data, or a status of the key store.\<close>

definition stored :: "'e kv_ops \<Rightarrow> exec_status \<Rightarrow> exec_status \<Rightarrow> 'e xst \<Rightarrow> byte list \<Rightarrow> bool" where
  "stored K good stat x new \<longleftrightarrow>
     (if stat = good then x_data K x = new else stat = ERR_KV_STATUS \<and> x_kstatus x \<noteq> KEY_OK)"

definition pad_to :: "nat \<Rightarrow> byte list \<Rightarrow> byte list" where
  "pad_to n bs = bs @ replicate (n - length bs) 0"

lemma length_pad_to [simp]: "length (pad_to n bs) = max n (length bs)"
  by (simp add: pad_to_def)

lemma padded:
  assumes "n \<le> length d" "off \<le> length d"
  shows "(if off > n then mem_copy n (replicate (off - n) 0) d else Some d)
    = Some (pad_to off (take n d) @ drop (max off n) d)"
  using assms by (cases "off > n") (simp_all add: mem_copy_in pad_to_def min_absorb2 max_def)

lemma mask_test:
  "(v AND push_bit j 1 \<noteq> (0 :: byte)) \<longleftrightarrow> bit v j" "(v AND 2 ^ j \<noteq> (0 :: byte)) \<longleftrightarrow> bit v j"
  by (simp_all add: and_exp_eq_0_iff_not_bit push_bit_eq_mult)

context kv_entry
begin

lemma data_put [simp]: "length d = length (x_data K x) \<Longrightarrow> x_data K (put_data K x d) = d"
  by (simp add: put_data_def x_data_def set_data)

lemma data_resized [simp]: "x_kstatus (k_resize K n cp x) = KEY_OK \<Longrightarrow> length (x_data K (k_resize K n cp x)) = n"
  using resize_length by (simp add: k_resize_def x_data_def split: prod.splits)

lemma data_resize_take:
  "x_kstatus (k_resize K n True x) = KEY_OK \<Longrightarrow> k \<le> n \<Longrightarrow> k \<le> length (x_data K x) \<Longrightarrow>
    take k (x_data K (k_resize K n True x)) = take k (x_data K x)"
  using resize_take by (simp add: k_resize_def x_data_def split: prod.splits)

text \<open>A resize that keeps the old data, filled behind it: memory that holds \<open>old @ new\<close>.\<close>

lemma append_resized:
  assumes "x_kstatus (k_resize K n True x) = KEY_OK" "length old + length new = n"
    "old = take (length old) (x_data K x)"
  shows "mem_copy (length old) new (x_data K (k_resize K n True x)) = Some (old @ new)"
proof -
  have "length old \<le> length (x_data K x)" using assms(3) by (metis length_take min.cobounded1)
  then have "take (length old) (x_data K (k_resize K n True x)) = old"
    using data_resize_take [OF assms(1), of "length old"] assms(2,3) by simp
  then show ?thesis using assms(1,2) by (simp add: mem_copy_in)
qed

lemma fill_resized:
  "x_kstatus (k_resize K (length new) cp x) = KEY_OK \<Longrightarrow>
    mem_copy 0 new (x_data K (k_resize K (length new) cp x)) = Some new"
  by (simp add: mem_copy_in)

lemma append_store_spec:
  assumes "n \<le> length (x_data K x)" "n + length val < 2 ^ 63"
  shows "\<exists>stat x'. append_store K val n x = Some (stat, x') \<and> stored K EXEC_SEND_INT stat x' (take n (x_data K x) @ val)
    \<and> (stat = EXEC_SEND_INT \<longrightarrow> x_ival x' = int (n + length val))"
proof -
  define m where "m = n + length val"
  define y where "y = x\<lparr>x_ival := int m\<rparr>"
  define z where "z = k_resize K m True y"
  have i: "to_int64 (int m) = int m"
    using assms(2) by (simp add: to_int64_id int64_range_def m_def)
  have unf: "append_store K val n x = (if x_kstatus z = KEY_OK then do {
        d \<leftarrow> mem_copy n val (x_data K z); Some (EXEC_SEND_INT, keyspace_string (put_data K z d)) }
      else Some (ERR_KV_STATUS, z))"
    using i by (simp add: append_store_def Let_def m_def [symmetric] y_def [symmetric] z_def [symmetric] del: of_nat_add)
  show ?thesis
  proof (cases "x_kstatus z = KEY_OK")
    case True
    then have "mem_copy n val (x_data K z) = Some (take n (x_data K x) @ val)"
      using append_resized [of m y "take n (x_data K x)" val] assms(1) by (simp add: z_def y_def m_def)
    moreover have "length (x_data K z) = m" using True by (simp add: z_def)
    ultimately show ?thesis using True assms(1) unfolding unf
      by (simp add: stored_def m_def) (simp add: z_def y_def m_def)
  next
    case False
    then show ?thesis unfolding unf by (simp add: stored_def)
  qed
qed

lemma setrange_store_spec:
  assumes "n \<le> length (x_data K x)" "off + length val < 2 ^ 63" "n < 2 ^ 63"
  shows "\<exists>stat x'. setrange_store K off val n x = Some (stat, x')
    \<and> stored K EXEC_SEND_INT stat x' (take off (pad_to off (take n (x_data K x))) @ val @ drop (off + length val) (take n (x_data K x)))
    \<and> (stat = EXEC_SEND_INT \<longrightarrow> x_ival x' = int (max n (off + length val)))"
proof -
  define m where "m = max n (off + length val)"
  define y where "y = x\<lparr>x_ival := int m\<rparr>"
  define z where "z = k_resize K m True y"
  define old where "old = take n (x_data K x)"
  have old: "length old = n" "old = take n (x_data K y)" using assms(1) by (simp_all add: old_def y_def)
  have i: "to_int64 (int m) = int m" using assms(2,3) by (simp add: m_def to_int64_id int64_range_def)
  have unf: "setrange_store K off val n x = (if x_kstatus z = KEY_OK then do {
        d1 \<leftarrow> (if off > n then mem_copy n (replicate (off - n) 0) (x_data K z) else Some (x_data K z));
        d2 \<leftarrow> mem_copy off val d1;
        Some (EXEC_SEND_INT, keyspace_string (put_data K z d2)) }
      else Some (ERR_KV_STATUS, z))"
    using i by (simp add: setrange_store_def Let_def m_def [symmetric] y_def [symmetric] z_def [symmetric])
  show ?thesis
  proof (cases "x_kstatus z = KEY_OK")
    case True
    then have len: "length (x_data K z) = m" by (simp add: z_def)
    have t: "take n (x_data K z) = old"
      using data_resize_take [of m y n] True assms(1) old by (simp add: z_def m_def y_def)
    have pd: "(if off > n then mem_copy n (replicate (off - n) 0) (x_data K z) else Some (x_data K z))
        = Some (pad_to off old @ drop (max off n) (x_data K z))"
      using padded [of n "x_data K z" off] len t by (simp add: m_def)
    have mc: "mem_copy off val (pad_to off old @ drop (max off n) (x_data K z))
        = Some (take off (pad_to off old) @ val @ drop (off + length val) old)" (is "_ = Some ?new")
    proof -
      have "take off (pad_to off old @ drop (max off n) (x_data K z)) = take off (pad_to off old)"
        by simp
      moreover have "drop (off + length val) (pad_to off old @ drop (max off n) (x_data K z)) = drop (off + length val) old"
        using old(1) len by (cases "off \<le> n") (simp_all add: pad_to_def m_def)
      moreover have "off + length val \<le> length (pad_to off old @ drop (max off n) (x_data K z))"
        using old(1) len by (cases "off \<le> n") (simp_all add: m_def)
      ultimately show ?thesis by (simp add: mem_copy_in)
    qed
    have "length ?new = m" using old(1) by (auto simp: m_def max_def)
    with True len pd mc show ?thesis unfolding unf old_def [symmetric]
      by (simp add: stored_def) (simp add: z_def y_def m_def)
  next
    case False
    then show ?thesis unfolding unf by (simp add: stored_def)
  qed
qed

lemma setbit_store_spec:
  fixes k :: nat
  assumes "n \<le> length (x_data K x)" "msk = push_bit j 1" "j < 8"
  defines "p \<equiv> pad_to (k + 1) (take n (x_data K x))"
  shows "\<exists>stat x'. setbit_store K k msk b n x = Some (stat, x')
    \<and> stored K EXEC_SEND_INT stat x' (p[k := if b = 0 then p ! k AND NOT msk else p ! k OR msk])
    \<and> (stat = EXEC_SEND_INT \<longrightarrow> x_ival x' = of_bool (bit (p ! k) j))"
proof -
  define m where "m = max n (k + 1)"
  define z where "z = k_resize K m True x"
  have unf: "setbit_store K k msk b n x = (if x_kstatus z = KEY_OK then do {
        d \<leftarrow> (if m > n then mem_copy n (replicate (m - n) 0) (x_data K z) else Some (x_data K z));
        if k < length d then
          Some (EXEC_SEND_INT, put_data K (z\<lparr>x_ival := if (d ! k) AND msk \<noteq> 0 then 1 else 0\<rparr>)
            (d[k := if b = 0 then (d ! k) AND NOT msk else (d ! k) OR msk]))
        else None }
      else Some (ERR_KV_STATUS, z))"
    unfolding setbit_store_def Let_def m_def [symmetric] z_def [symmetric] by (rule refl)
  show ?thesis
  proof (cases "x_kstatus z = KEY_OK")
    case True
    then have len: "length (x_data K z) = m" by (simp add: z_def)
    have "pad_to m (take n (x_data K x)) = p" using assms(1) by (simp add: m_def p_def pad_to_def max_def)
    then have pd: "(if m > n then mem_copy n (replicate (m - n) 0) (x_data K z) else Some (x_data K z)) = Some p"
      using padded [of n "x_data K z" m] len data_resize_take [of m x n] True assms(1) by (simp add: z_def m_def)
    have "length p = m" "k < m" using assms(1) by (auto simp: p_def m_def)
    with True len pd assms(2,3) show ?thesis unfolding unf
      by (simp add: stored_def mask_test [symmetric])
  next
    case False
    then show ?thesis unfolding unf by (simp add: stored_def)
  qed
qed

lemma getset_store_spec:
  "\<exists>stat x'. getset_store K val reply x = Some (stat, x') \<and>
     (if stat = ERR_KV_STATUS then x_kstatus x' \<noteq> KEY_OK
      else x_data K x' = val \<and> stat = (if is_new x then EXEC_SEND_NIL else EXEC_OK)
        \<and> x_out x' = (if is_new x then x_out x else x_out x @ reply))"
proof -
  define z where "z = k_resize K (length val) False (x\<lparr>x_ent := op_clear_stamps K (x_ent x) True False\<rparr>)"
  have "is_new (keyspace_string (put_data K z d)) \<longleftrightarrow> is_new x" for d by (simp add: is_new_def z_def)
  moreover have "x_out z = x_out x" by (simp add: z_def)
  moreover have "x_kstatus z = KEY_OK \<Longrightarrow> mem_copy 0 val (x_data K z) = Some val \<and> length (x_data K z) = length val"
    unfolding z_def using fill_resized by simp
  ultimately show ?thesis
    by (cases "x_kstatus z = KEY_OK") (simp_all add: getset_store_def z_def [symmetric])
qed

lemma do_add_store_spec:
  assumes "x_strm_ok x" "kv_format U"
  shows "\<exists>stat x'. do_add_store U K incr x = Some (stat, x')
    \<and> stored K EXEC_OK stat x' (dec_int (to_int64 (x_ival x + incr)))
    \<and> (stat = EXEC_OK \<longrightarrow> x_out x' = x_out x @ pack U (mk_int (to_int64 (x_ival x + incr))))"
proof -
  define i where "i = to_int64 (x_ival x + incr)"
  have s: "int64_to_string U i = dec_int i"
    using assms(2) to_int64_range by (simp add: kv_format.i2s i_def)
  define z where "z = k_resize K (length (dec_int i)) False (x\<lparr>x_ival := i\<rparr>)"
  have "x_kstatus z = KEY_OK \<Longrightarrow> mem_copy 0 (dec_int i) (x_data K z) = Some (dec_int i)
      \<and> length (x_data K z) = length (dec_int i)"
    unfolding z_def using fill_resized by simp
  then show ?thesis using assms(1) s
    by (cases "x_kstatus z = KEY_OK")
      (simp_all add: do_add_store_def Let_def i_def [symmetric] z_def [symmetric] stored_def mk_int_def,
        simp add: z_def)
qed

end

text \<open>What a write did: a store on the value of the key, or an error with the entry as it was.\<close>

definition wrote :: "'e kv_ops \<Rightarrow> exec_status \<Rightarrow> key_status \<Rightarrow> 'e xst \<Rightarrow> exec_status \<Rightarrow> 'e xst \<Rightarrow> byte list \<Rightarrow> bool" where
  "wrote K good st x1 stat x new \<longleftrightarrow>
     (if st = KEY_OK \<or> st = KEY_IS_NEW then stored K good stat x new
      else x = x1 \<and> stat = (if st = KEY_NO_VALUE then ERR_BAD_TYPE else ERR_KV_STATUS))"

text \<open>The bits of a string, numbered from the low bit of the first byte.\<close>

definition data_bit :: "byte list \<Rightarrow> nat \<Rightarrow> bool" where
  "data_bit d n \<longleftrightarrow> n div 8 < length d \<and> bit (d ! (n div 8)) (n mod 8)"

lemma pad_bit [simp]: "data_bit (pad_to n d) k \<longleftrightarrow> data_bit d k"
  by (auto simp: data_bit_def pad_to_def nth_append)

lemma data_bit_ext:
  assumes "length d = length e" "\<And>k. data_bit d k \<longleftrightarrow> data_bit e k"
  shows "d = e"
proof (rule nth_equalityI [OF assms(1)])
  fix i assume i: "i < length d"
  show "d ! i = e ! i"
  proof (rule bit_word_eqI)
    fix n assume "n < LENGTH(8)"
    then show "bit (d ! i) n \<longleftrightarrow> bit (e ! i) n"
      using assms(2) [of "8 * i + n"] i assms(1) by (simp add: data_bit_def)
  qed
qed

lemma set_bit_at:
  assumes "k < length p" "j < 8"
  shows "data_bit (p[k := if b then p ! k OR push_bit j 1 else p ! k AND NOT (push_bit j 1)]) n
    \<longleftrightarrow> (if n = 8 * k + j then b else data_bit p n)"
proof (cases "n div 8 = k")
  case True
  then have n: "n = 8 * k + n mod 8" "n mod 8 < 8" by auto
  have "bit (if b then p ! k OR push_bit j 1 else p ! k AND NOT (push_bit j 1)) (n mod 8)
      \<longleftrightarrow> (if n mod 8 = j then b else bit (p ! k) (n mod 8))"
    using assms(2) n(2) by (auto simp: bit_simps)
  moreover have "n = 8 * k + j \<longleftrightarrow> n mod 8 = j" using n(1) by linarith
  ultimately show ?thesis using True assms(1) by (simp add: data_bit_def)
next
  case False
  then show ?thesis using assms by (auto simp: data_bit_def nth_list_update)
qed

context kv_entry
begin

lemma exec_append_spec:
  assumes "get_arg_str (ex_msg ex) 2 = Some val" "get_key_write K ex x MD_STRING = Some (st, x1)"
    "length (x_data K x1) + length val < 2 ^ 63"
  shows "\<exists>stat x'. exec_append K ex x = Some (stat, x')
    \<and> wrote K EXEC_SEND_INT st x1 stat x' (old_value K st x1 @ val)
    \<and> (stat = EXEC_SEND_INT \<longrightarrow> x_ival x' = int (length (old_value K st x1 @ val)))"
proof -
  obtain s1 y1 where 1: "append_store K val (length (x_data K x1)) (k_get_size K x1) = Some (s1, y1)"
    "stored K EXEC_SEND_INT s1 y1 (x_data K x1 @ val)"
    "s1 = EXEC_SEND_INT \<Longrightarrow> x_ival y1 = int (length (x_data K x1) + length val)"
    using append_store_spec [of "length (x_data K x1)" "k_get_size K x1" val] assms(3) by auto
  obtain s2 y2 where 2: "append_store K val 0 x1 = Some (s2, y2)" "stored K EXEC_SEND_INT s2 y2 val"
    "s2 = EXEC_SEND_INT \<Longrightarrow> x_ival y2 = int (length val)"
    using append_store_spec [of 0 x1 val] assms(3) by auto
  show ?thesis
  proof (cases st)
    case KEY_OK
    then show ?thesis using 1 by (simp add: exec_append_def assms(1,2) wrote_def old_value_def Let_def stored_def)
  next
    case KEY_IS_NEW
    then show ?thesis using 2 by (simp add: exec_append_def assms(1,2) wrote_def old_value_def)
  qed (simp_all add: exec_append_def assms(1,2) wrote_def)
qed

lemma exec_setrange_spec:
  assumes "get_arg_int (ex_msg ex) 2 = Some (int off)" "get_arg_str (ex_msg ex) 3 = Some val"
    "get_key_write K ex x MD_STRING = Some (st, x1)"
    "length (x_data K x1) < 2 ^ 63" "off + length val < 2 ^ 63"
  defines "old \<equiv> old_value K st x1"
  shows "\<exists>stat x'. exec_setrange K ex x = Some (stat, x')
    \<and> wrote K EXEC_SEND_INT st x1 stat x' (take off (pad_to off old) @ val @ drop (off + length val) old)
    \<and> (stat = EXEC_SEND_INT \<longrightarrow> x_ival x' = int (max (length old) (off + length val)))"
proof -
  obtain s1 y1 where 1: "setrange_store K off val (length (x_data K x1)) (k_get_size K x1) = Some (s1, y1)"
    "stored K EXEC_SEND_INT s1 y1 (take off (pad_to off (x_data K x1)) @ val @ drop (off + length val) (x_data K x1))"
    "s1 = EXEC_SEND_INT \<Longrightarrow> x_ival y1 = int (max (length (x_data K x1)) (off + length val))"
    using setrange_store_spec [of "length (x_data K x1)" "k_get_size K x1" off val] assms(4,5) by auto
  obtain s2 y2 where 2: "setrange_store K off val 0 x1 = Some (s2, y2)"
    "stored K EXEC_SEND_INT s2 y2 (take off (pad_to off []) @ val)"
    "s2 = EXEC_SEND_INT \<Longrightarrow> x_ival y2 = int (off + length val)"
    using setrange_store_spec [of 0 x1 off val] assms(5) by auto
  show ?thesis
  proof (cases st)
    case KEY_OK
    then show ?thesis using 1
      by (simp add: exec_setrange_def assms(1-3) wrote_def old_def old_value_def Let_def stored_def)
  next
    case KEY_IS_NEW
    then show ?thesis using 2 by (simp add: exec_setrange_def assms(1-3) wrote_def old_def old_value_def)
  qed (simp_all add: exec_setrange_def assms(1-3) wrote_def)
qed

lemma exec_setbit_spec:
  assumes "get_arg_int (ex_msg ex) 2 = Some (int off)" "get_arg_int (ex_msg ex) 3 = Some (of_bool b)"
    "get_key_write K ex x MD_STRING = Some (st, x1)"
  defines "p \<equiv> pad_to (off div 8 + 1) (old_value K st x1)"
  defines "msk \<equiv> push_bit (off mod 8) 1"
  shows "\<exists>stat x'. exec_setbit K ex x = Some (stat, x')
    \<and> wrote K EXEC_SEND_INT st x1 stat x' (p[off div 8 := if b then p ! (off div 8) OR msk else p ! (off div 8) AND NOT msk])
    \<and> (stat = EXEC_SEND_INT \<longrightarrow> x_ival x' = of_bool (bit (p ! (off div 8)) (off mod 8)))"
proof -
  define new where "new p = p[off div 8 := if b then p ! (off div 8) OR msk else p ! (off div 8) AND NOT msk]" for p
  have b: "(of_int (of_bool b) :: u64) \<le> 1" "\<not> (1 :: u64) < of_int (of_bool b)" by (cases b; simp)+
  have store: "\<exists>s y. setbit_store K (off div 8) msk (of_bool b) n x = Some (s, y)
      \<and> stored K EXEC_SEND_INT s y (new (pad_to (off div 8 + 1) (take n (x_data K x))))
      \<and> (s = EXEC_SEND_INT \<longrightarrow> x_ival y = of_bool (bit (pad_to (off div 8 + 1) (take n (x_data K x)) ! (off div 8)) (off mod 8)))"
    if "n \<le> length (x_data K x)" for n x
    using setbit_store_spec [OF that, of msk "off mod 8" "off div 8" "of_bool b"] by (cases b) (simp_all add: msk_def new_def)
  obtain s1 y1 where 1: "setbit_store K (off div 8) msk (of_bool b) (length (x_data K x1)) (k_get_size K x1) = Some (s1, y1)"
    "stored K EXEC_SEND_INT s1 y1 (new (pad_to (off div 8 + 1) (x_data K x1)))"
    "s1 = EXEC_SEND_INT \<longrightarrow> x_ival y1 = of_bool (bit (pad_to (off div 8 + 1) (x_data K x1) ! (off div 8)) (off mod 8))"
    using store [of "length (x_data K x1)" "k_get_size K x1"] by auto
  obtain s2 y2 where 2: "setbit_store K (off div 8) msk (of_bool b) 0 x1 = Some (s2, y2)"
    "stored K EXEC_SEND_INT s2 y2 (new (pad_to (off div 8 + 1) []))"
    "s2 = EXEC_SEND_INT \<longrightarrow> x_ival y2 = of_bool (bit (pad_to (off div 8 + 1) [] ! (off div 8)) (off mod 8))"
    using store [of 0 x1] by auto
  have m: "push_bit (off mod 8) 1 = msk" by (simp add: msk_def)
  show ?thesis
  proof (cases st)
    case KEY_OK
    with 1 show ?thesis
      by (simp add: exec_setbit_def assms(1-3) b m wrote_def p_def new_def old_value_def Let_def stored_def del: push_bit_of_1)
  next
    case KEY_IS_NEW
    with 2 show ?thesis
      by (cases b) (simp_all add: exec_setbit_def assms(1-3) b m wrote_def p_def new_def old_value_def Let_def del: push_bit_of_1)
  qed (simp_all add: exec_setbit_def assms(1-3) b wrote_def Let_def)
qed

lemma do_add_spec:
  assumes "kv_format U" "get_key_write K ex (x\<lparr>x_ival := 0\<rparr>) MD_STRING = Some (st, x1)"
    "x_strm_ok x1" "x_ival x1 = 0"
  defines "v \<equiv> (case string_to_int (old_value K st x1) of Inr i \<Rightarrow> i | Inl e \<Rightarrow> 0)"
  shows "\<exists>stat x'. do_add U K ex x incr = Some (stat, x')
    \<and> wrote K EXEC_OK st x1 stat x' (dec_int (to_int64 (v + incr)))
    \<and> (stat = EXEC_OK \<longrightarrow> x_out x' = x_out x1 @ pack U (mk_int (to_int64 (v + incr))))"
proof -
  have e: "string_to_int [] = Inl BAD_INT" by (simp add: string_to_int_def)
  show ?thesis
  proof (cases st)
    case KEY_OK
    then show ?thesis using assms(2-4) e
        do_add_store_spec [OF _ assms(1), of "k_value K x1" incr]
        do_add_store_spec [OF _ assms(1), of "k_value K x1\<lparr>x_mstatus := projl (string_to_int (x_data K x1))\<rparr>" incr]
        do_add_store_spec [OF _ assms(1), of "k_value K x1\<lparr>x_mstatus := MSG_OK, x_ival := v\<rparr>" incr]
      by (cases "string_to_int (x_data K x1)"; cases "x_data K x1 = []")
        (auto simp: do_add_def wrote_def v_def old_value_def stored_def Let_def)
  qed (use assms e do_add_store_spec [OF _ assms(1), of x1 incr] in
      \<open>auto simp: do_add_def wrote_def old_value_def\<close>)
qed

lemma exec_getset_spec:
  assumes "kv_format U" "get_arg_str (ex_msg ex) 2 = Some val" "get_key_write K ex x MD_STRING = Some (st, x1)"
    "x_strm_ok x1" "length (x_data K x1) < 2 ^ 31" "is_new x1 \<longleftrightarrow> st = KEY_IS_NEW"
  shows "\<exists>stat x'. exec_getset U K ex x = Some (stat, x') \<and>
     (if stat = EXEC_SEND_NIL then st = KEY_IS_NEW \<and> x_data K x' = val \<and> x_out x' = x_out x1
      else if stat = EXEC_OK then st = KEY_OK \<and> x_data K x' = val \<and> x_out x' = x_out x1 @ pack U (mk_str (x_data K x1))
      else stat = (if st = KEY_NO_VALUE then ERR_BAD_TYPE else ERR_KV_STATUS))"
  using assms getset_store_spec [of val "send_string U True (x_data K x1)" "k_value K x1"] getset_store_spec [of val "[]" x1]
    send_string_pack [OF assms(1), of "x_data K x1"]
  by (cases st) (auto simp: exec_getset_def Let_def is_new_def split: if_splits)

end

section \<open>Replies from the data\<close>

text \<open>The part of a string between two end points, counted as the command counts them.\<close>

definition redis_slice :: "byte list \<Rightarrow> int \<Rightarrow> int \<Rightarrow> byte list" where
  "redis_slice d s e =
     map ((!) d) (filter (\<lambda>i. end_point (length d) s \<le> int i \<and> int i \<le> end_point (length d) e) [0..<length d])"

lemma filter_upt_bounds:
  "filter (\<lambda>i. a \<le> int i \<and> int i \<le> b) [0..<n] = [nat a..<min n (nat (b + 1))]"
proof (induction n)
  case (Suc n)
  show ?case
  proof (cases "a \<le> int n \<and> int n \<le> b")
    case True
    then have "min n (nat (b + 1)) = n" "min (Suc n) (nat (b + 1)) = Suc n" "nat a \<le> n" by auto
    then show ?thesis using Suc True by simp
  next
    case False
    then have "[nat a..<min (Suc n) (nat (b + 1))] = [nat a..<min n (nat (b + 1))]"
    proof (cases "int n \<le> b")
      case True
      with False have "Suc n \<le> nat a" by linarith
      then show ?thesis by (auto simp: min_def)
    next
      case False
      then have "nat (b + 1) \<le> n" by linarith
      then show ?thesis by simp
    qed
    then show ?thesis using Suc False by simp
  qed
qed simp

lemma map_nth_upt: "j \<le> length d \<Longrightarrow> map ((!) d) [i..<j] = take (j - i) (drop i d)"
  by (rule nth_equalityI) auto

lemma redis_slice_take:
  "redis_slice d s e = (let a = nat (end_point (length d) s); b = nat (end_point (length d) e + 1) in
     take (min (length d) b - a) (drop a d))"
  by (simp add: redis_slice_def filter_upt_bounds map_nth_upt Let_def)

lemma clip_slice:
  fixes d :: "byte list" and s e :: int
  defines "a \<equiv> end_point (length d) s" and "b \<equiv> end_point (length d) e" and "n \<equiv> length d"
  shows "redis_slice d s e =
    (if n = 0 \<or> a > b \<or> a < 0 \<and> b < 0 \<or> a \<ge> int n \<and> b \<ge> int n then []
     else take (clip_len n a b) (drop (nat (clip_start n a)) d))"
proof (cases "n = 0 \<or> a > b \<or> a < 0 \<and> b < 0 \<or> a \<ge> int n \<and> b \<ge> int n")
  case True
  then have "min n (nat (b + 1)) - nat a = 0" by auto
  then show ?thesis using True by (simp add: redis_slice_take a_def b_def n_def Let_def)
next
  case False
  then have "nat (clip_start n a) = nat a" "clip_len n a b = min n (nat (b + 1)) - nat a"
    by (auto simp: clip_start_def clip_end_def clip_len_def min_def max_def)
  then show ?thesis using False by (auto simp: redis_slice_take a_def b_def n_def Let_def)
qed

context kv_entry
begin

lemma exec_getrange_spec:
  assumes "kv_format U" "opt_int ex 2 0 = Some s" "opt_int ex 3 (- 1) = Some e"
    "get_key_read K ex x MD_STRING = Some (KEY_OK, x1)" "op_value K (x_ent x1) = KEY_OK" "op_validate K (x_ent x1) = KEY_OK"
    "x_strm_ok x1" "length (x_data K x1) < 2 ^ 31"
  shows "\<exists>stat x'. exec_getrange U K ex x = Some (stat, x') \<and> x_ent x' = x_ent x1
    \<and> x_out x' @ send_status U True re [] stat = x_out x1 @ pack U (mk_str (redis_slice (x_data K x1) s e))"
proof -
  define sl where "sl = redis_slice (x_data K x1) s e"
  have len: "length sl < 2 ^ 31"
    using assms(8) by (simp add: sl_def redis_slice_take Let_def)
  have z: "send_status U True re [] EXEC_SEND_ZERO_STRING = pack U (mk_str [])" "send_status U True re [] EXEC_OK = []"
    using assms(1) by (simp_all add: send_status_def mk_str_def kv_format.i2s int64_range_def dec_int_def dec_nat.simps)
  have k: "x_kstatus (k_value K x1) = KEY_OK" "x_kstatus (k_validate K (k_value K x1)) = KEY_OK"
    "x_ent (k_validate K (k_value K x1)) = x_ent x1"
    using assms(5,6) by (simp_all add: k_value_def k_validate_def)
  show ?thesis
    unfolding sl_def [symmetric] using assms(2-4,7) k z len clip_slice [of "x_data K x1" s e] send_string_pack [OF assms(1) len]
    by (auto simp: exec_getrange_def Let_def sl_def [symmetric] split: if_splits)
qed

lemma exec_getbit_spec:
  assumes "get_arg_int (ex_msg ex) 2 = Some (int off)"
    "get_key_read K ex x MD_STRING = Some (KEY_OK, x1)" "op_value K (x_ent x1) = KEY_OK" "op_validate K (x_ent x1) = KEY_OK"
  shows "\<exists>x'. exec_getbit K ex x = Some (if data_bit (x_data K x1) off then EXEC_SEND_ONE else EXEC_SEND_ZERO, x') \<and> x_ent x' = x_ent x1"
  using assms
  by (auto simp: exec_getbit_def Let_def k_value_def k_validate_def data_bit_def mask_test x_data_def
      simp del: push_bit_of_1)

lemma set_store_spec:
  "\<exists>stat x'. set_store K ex val flags x = Some (stat, x') \<and>
     (if set_refused flags x then stat = EXEC_SEND_NIL \<and> x' = x
      else stored K (if ex_cmd ex = MSETNX_CMD then EXEC_SEND_ONE else EXEC_SEND_OK) stat x' val)"
proof -
  define z where "z = k_resize K (length val) False (x\<lparr>x_ent := op_clear_stamps K (x_ent x) True False\<rparr>)"
  have "x_kstatus z = KEY_OK \<Longrightarrow> mem_copy 0 val (x_data K z) = Some val \<and> length (x_data K z) = length val"
    unfolding z_def using fill_resized by simp
  then show ?thesis
    by (cases "x_kstatus z = KEY_OK") (auto simp: set_store_def z_def [symmetric] stored_def)
qed

lemma set_expire_store_spec:
  "\<exists>stat x'. set_expire_store K val ns flags x = Some (stat, x') \<and>
     (if set_refused flags x then stat = EXEC_SEND_NIL \<and> x' = x
      else stored K EXEC_SEND_OK stat x' val \<and> (stat = EXEC_SEND_OK \<longrightarrow>
        (\<exists>e. x_ent x' = op_update_stamps K e (if ns \<noteq> 0 \<and> ns < TEN_YEARS_NS then ns + op_current_stamp K e else ns) 0)))"
proof -
  define z where "z = k_resize K (length val) False x"
  have *: "mem_copy 0 val (x_data K z) = Some val" "x_data K (put_data K z val) = val" if "x_kstatus z = KEY_OK"
    using that unfolding z_def by (simp_all add: fill_resized)
  show ?thesis
  proof (cases "x_kstatus z = KEY_OK")
    case True
    define e where "e = x_ent (put_data K z val)"
    define e2 where "e2 = op_update_stamps K e (if ns \<noteq> 0 \<and> ns < TEN_YEARS_NS then ns + op_current_stamp K e else ns) 0"
    have d: "op_data K e2 = val" using *(2) [OF True] by (simp add: e2_def e_def update_stamps x_data_def)
    have "set_expire_store K val ns flags x = (if set_refused flags x then Some (EXEC_SEND_NIL, x)
        else Some (EXEC_SEND_OK, keyspace_string ((put_data K z val)\<lparr>x_ent := e2\<rparr>)))"
      using True *(1) by (simp add: set_expire_store_def z_def [symmetric] Let_def e_def [symmetric] e2_def)
    moreover have "\<exists>e'. e2 = op_update_stamps K e' (if ns \<noteq> 0 \<and> ns < TEN_YEARS_NS then ns + op_current_stamp K e' else ns) 0"
      using e2_def by blast
    ultimately show ?thesis using d by (cases "set_refused flags x") (simp_all add: stored_def)
  next
    case False
    then show ?thesis by (auto simp: set_expire_store_def z_def [symmetric] stored_def)
  qed
qed

lemma exec_set_spec:
  assumes "set_options ex 3 0 {} = Some (ns, flags)" "get_arg_str (ex_msg ex) 2 = Some val"
    "get_key_write K ex x MD_STRING = Some (st, x1)" "st \<in> {KEY_OK, KEY_IS_NEW, KEY_NO_VALUE}" "ex_cmd ex \<noteq> MSETNX_CMD"
  defines "absent \<equiv> st = KEY_NO_VALUE \<or> is_new x1"
  shows "\<exists>stat x'. exec_set K ex x = Some (stat, x') \<and>
     (if absent \<and> K_MUST_EXIST \<in> flags \<or> \<not> absent \<and> K_MUST_NOT_EXIST \<in> flags
      then stat = EXEC_SEND_NIL \<and> x_ent x' = x_ent x1
      else stored K EXEC_SEND_OK stat x' val \<and> (stat = EXEC_SEND_OK \<and> HAS_EXPIRE_NS \<in> flags \<longrightarrow>
        (\<exists>e. x_ent x' = op_update_stamps K e (if ns \<noteq> 0 \<and> ns < TEN_YEARS_NS then ns + op_current_stamp K e else ns) 0)))"
proof -
  define y where "y = (if st = KEY_NO_VALUE then (set_flags {EKF_IS_NEW} x1)\<lparr>x_type := MD_STRING\<rparr> else x1)"
  have run: "exec_set K ex x = (if HAS_EXPIRE_NS \<in> flags then set_expire_store K val ns flags y else set_store K ex val flags y)"
    using assms(1-4) by (auto simp: exec_set_def do_set_value_expire_def do_set_value_def y_def)
  have ref: "set_refused flags y \<longleftrightarrow> absent \<and> K_MUST_EXIST \<in> flags \<or> \<not> absent \<and> K_MUST_NOT_EXIST \<in> flags"
    by (auto simp: set_refused_def absent_def y_def is_new_def)
  have ent: "x_ent y = x_ent x1" by (simp add: y_def)
  show ?thesis
  proof (cases "HAS_EXPIRE_NS \<in> flags")
    case True
    obtain stat x' where "set_expire_store K val ns flags y = Some (stat, x')"
      "if set_refused flags y then stat = EXEC_SEND_NIL \<and> x' = y
       else stored K EXEC_SEND_OK stat x' val \<and> (stat = EXEC_SEND_OK \<longrightarrow>
        (\<exists>e. x_ent x' = op_update_stamps K e (if ns \<noteq> 0 \<and> ns < TEN_YEARS_NS then ns + op_current_stamp K e else ns) 0))"
      using set_expire_store_spec [of val ns flags y] by blast
    then show ?thesis using True unfolding run ref [symmetric]
      by (intro exI [of _ stat] exI [of _ x']) (simp add: ent split: if_splits)
  next
    case False
    obtain stat x' where "set_store K ex val flags y = Some (stat, x')"
      "if set_refused flags y then stat = EXEC_SEND_NIL \<and> x' = y
       else stored K (if ex_cmd ex = MSETNX_CMD then EXEC_SEND_ONE else EXEC_SEND_OK) stat x' val"
      using set_store_spec [of ex val flags y] by blast
    then show ?thesis using False assms(5) unfolding run ref [symmetric]
      by (intro exI [of _ stat] exI [of _ x']) (simp add: ent split: if_splits)
  qed
qed

end

section \<open>A key to try the handlers on\<close>

definition sample_key :: "byte list \<Rightarrow> mem_entry xst" where
  "sample_key d = \<lparr>x_ent = \<lparr>me_exists = True, me_type = MD_STRING, me_data = d, me_expires = 0, me_now = 5\<rparr>,
     x_kstatus = KEY_OK, x_status = EXEC_OK, x_type = MD_NODATA, x_flags = {}, x_ival = 0, x_argn = 1, x_dep = 0,
     x_part = None, x_out = [], x_strm_ok = True, x_mstatus = MSG_OK, x_no_update = False\<rparr>"

definition sample_write :: "string list \<Rightarrow> redis_exec" where
  "sample_write args = (sample_exec args)\<lparr>cmd_flags := CMD_WRITE_FLAG\<rparr>"

definition sample_read :: "string list \<Rightarrow> redis_exec" where
  "sample_read args = (sample_exec args)\<lparr>cmd_flags := CMD_READ_FLAG\<rparr>"

lemma sample_arg:
  "get_arg_str (ex_msg (sample_write args)) n
    = (if n < length args \<and> args ! n \<noteq> [] then Some (ascii (args ! n)) else None)"
  "get_arg_str (ex_msg (sample_read args)) n
    = (if n < length args \<and> args ! n \<noteq> [] then Some (ascii (args ! n)) else None)"
  by (auto simp: sample_write_def sample_read_def sample_exec_def get_arg_str_def mk_arr_def mk_str_def ascii_def)

lemma sample_int:
  "get_arg_int (ex_msg (sample_write args)) n = (case get_arg_str (ex_msg (sample_write args)) n of None \<Rightarrow> None
     | Some s \<Rightarrow> (case string_to_int s of Inl e \<Rightarrow> None | Inr i \<Rightarrow> Some i))"
  "get_arg_int (ex_msg (sample_read args)) n = (case get_arg_str (ex_msg (sample_read args)) n of None \<Rightarrow> None
     | Some s \<Rightarrow> (case string_to_int s of Inl e \<Rightarrow> None | Inr i \<Rightarrow> Some i))"
  by (auto simp: sample_write_def sample_read_def sample_exec_def get_arg_int_def get_arg_str_def mk_arr_def mk_str_def ascii_def)

lemma sample_fetch_write:
  "get_key_write mem_ops (sample_write args) ((sample_key d)\<lparr>x_ival := i\<rparr>) MD_STRING
    = Some (KEY_OK, (sample_key d)\<lparr>x_ival := i, x_type := MD_STRING\<rparr>)"
  "get_key_write mem_ops (sample_write args) (sample_key d) MD_STRING
    = Some (KEY_OK, (sample_key d)\<lparr>x_type := MD_STRING\<rparr>)"
  by (simp_all add: get_key_write_def exec_key_fetch_def acquire_key_def sample_write_def sample_exec_def sample_key_def mem_ops_def Let_def)

lemma sample_fetch_read:
  "get_key_read mem_ops (sample_read args) (sample_key d) MD_STRING
    = Some (KEY_OK, (sample_key d)\<lparr>x_flags := {EKF_IS_READ_ONLY}, x_type := MD_STRING\<rparr>)"
  by (simp add: get_key_read_def exec_key_fetch_def sample_read_def sample_exec_def sample_key_def mem_ops_def Let_def)
    (subst find_loop.simps, simp)

lemma sample_data: "x_data mem_ops ((sample_key d)\<lparr>x_type := t\<rparr>) = d" "x_data mem_ops (sample_key d) = d"
  "x_data mem_ops ((sample_key d)\<lparr>x_ival := i, x_type := t\<rparr>) = d"
  "x_data mem_ops ((sample_key d)\<lparr>x_flags := f, x_type := t\<rparr>) = d"
  by (simp_all add: x_data_def sample_key_def mem_ops_def)

lemma mem_always: "op_value mem_ops e = KEY_OK" "op_validate mem_ops e = KEY_OK" "op_get_size mem_ops e = KEY_OK"
  "fst (op_resize mem_ops e n c) = KEY_OK"
  by (simp_all add: mem_ops_def)

lemma one_digit: "string_to_int [49] = Inr 1" "string_to_int [52] = Inr 4" "string_to_int [57] = Inr 9"
  "string_to_int [50] = Inr 2" "string_to_int [51] = Inr 3" "string_to_int [48] = Inr 0"
  using string_to_int_dec_int [of 1] string_to_int_dec_int [of 4] string_to_int_dec_int [of 9]
    string_to_int_dec_int [of 2] string_to_int_dec_int [of 3] string_to_int_dec_int [of 0]
  by (simp_all add: dec_int_def dec_nat.simps int64_range_def)

lemmas sample_simps = one_digit sample_arg sample_int sample_fetch_write sample_fetch_read sample_data mem_always

section \<open>Properties\<close>

text \<open>C18: APPEND. Whatever the key store answers, the command returns and never writes outside the
  memory of the key: the key holds its old value (nothing, if it is new) with the argument
  behind it and the reply is the new length; or it holds another type, or the store refused, and
  the command says so.\<close>

theorem append_appends:
  assumes "kv_entry K" "get_arg_str (ex_msg ex) 2 = Some val" "get_key_write K ex x MD_STRING = Some (st, x1)"
    "length (x_data K x1) + length val < 2 ^ 63"
  shows "\<exists>stat x'. exec_append K ex x = Some (stat, x')
    \<and> wrote K EXEC_SEND_INT st x1 stat x' (old_value K st x1 @ val)
    \<and> (stat = EXEC_SEND_INT \<longrightarrow> x_ival x' = int (length (old_value K st x1 @ val)))"
  by (rule kv_entry.exec_append_spec [OF assms])

theorem append_appends_witness:
  "\<exists>stat x'. exec_append mem_ops (sample_write [''append'', ''k'', ''cd'']) (sample_key [97, 98]) = Some (stat, x')
    \<and> stored mem_ops EXEC_SEND_INT stat x' [97, 98, 99, 100] \<and> (stat = EXEC_SEND_INT \<longrightarrow> x_ival x' = 4)"
  using append_appends [OF mem.kv_entry_axioms, of "sample_write [''append'', ''k'', ''cd'']" "[99, 100]" "sample_key [97, 98]"
      KEY_OK "(sample_key [97, 98])\<lparr>x_type := MD_STRING\<rparr>"]
  by (simp add: sample_simps wrote_def old_value_def)

text \<open>SETRANGE. The argument lands at its offset, a gap in front of it is filled with zeros,
  what was behind it stays, and the reply is the new length.\<close>

theorem setrange_overwrites:
  assumes "kv_entry K" "get_arg_int (ex_msg ex) 2 = Some (int off)" "get_arg_str (ex_msg ex) 3 = Some val"
    "get_key_write K ex x MD_STRING = Some (st, x1)" "length (x_data K x1) < 2 ^ 63" "off + length val < 2 ^ 63"
  shows "\<exists>stat x'. exec_setrange K ex x = Some (stat, x')
    \<and> wrote K EXEC_SEND_INT st x1 stat x'
        (take off (pad_to off (old_value K st x1)) @ val @ drop (off + length val) (old_value K st x1))
    \<and> (stat = EXEC_SEND_INT \<longrightarrow> x_ival x' = int (max (length (old_value K st x1)) (off + length val)))"
  by (rule kv_entry.exec_setrange_spec [OF assms])

lemma pad_four: "take 4 (pad_to 4 [97, 98]) = [97, 98, 0, 0 :: byte]"
  by code_simp

theorem setrange_overwrites_witness:
  "\<exists>stat x'. exec_setrange mem_ops (sample_write [''setrange'', ''k'', ''4'', ''x'']) (sample_key [97, 98]) = Some (stat, x')
    \<and> stored mem_ops EXEC_SEND_INT stat x' [97, 98, 0, 0, 120] \<and> (stat = EXEC_SEND_INT \<longrightarrow> x_ival x' = 5)"
  using setrange_overwrites [OF mem.kv_entry_axioms, of "sample_write [''setrange'', ''k'', ''4'', ''x'']" 4 "[120]" "sample_key [97, 98]"
      KEY_OK "(sample_key [97, 98])\<lparr>x_type := MD_STRING\<rparr>"]
    pad_four
  by (simp add: sample_simps wrote_def old_value_def)

text \<open>C17: SETBIT and GETBIT. SETBIT replies with the bit that was there; after it, GETBIT finds the
  bit as it was set and every other bit as it was before, also behind the old end of the value.\<close>

theorem setbit_then_getbit:
  assumes "kv_entry K"
    and w: "get_arg_int (ex_msg ex) 2 = Some (int off)" "get_arg_int (ex_msg ex) 3 = Some (of_bool b)"
      "get_key_write K ex x MD_STRING = Some (st, x1)" "exec_setbit K ex x = Some (EXEC_SEND_INT, x')"
    and r: "get_arg_int (ex_msg ex2) 2 = Some (int n)" "get_key_read K ex2 y MD_STRING = Some (KEY_OK, y1)"
      "op_value K (x_ent y1) = KEY_OK" "op_validate K (x_ent y1) = KEY_OK" "x_data K y1 = x_data K x'"
  shows "x_ival x' = of_bool (data_bit (old_value K st x1) off)
    \<and> (\<exists>y'. exec_getbit K ex2 y = Some (if (if n = off then b else data_bit (old_value K st x1) n)
          then EXEC_SEND_ONE else EXEC_SEND_ZERO, y'))"
proof -
  define old where "old = old_value K st x1"
  define p where "p = pad_to (off div 8 + 1) old"
  define new where "new = p[off div 8 := if b then p ! (off div 8) OR push_bit (off mod 8) 1 else p ! (off div 8) AND NOT (push_bit (off mod 8) 1)]"
  have len: "off div 8 < length p" by (simp add: p_def)
  from kv_entry.exec_setbit_spec [OF assms(1) w(1-3)] obtain stat x2 where
    1: "exec_setbit K ex x = Some (stat, x2)" "wrote K EXEC_SEND_INT st x1 stat x2 new"
      "stat = EXEC_SEND_INT \<longrightarrow> x_ival x2 = of_bool (bit (p ! (off div 8)) (off mod 8))"
    unfolding new_def p_def old_def by blast
  then have "wrote K EXEC_SEND_INT st x1 EXEC_SEND_INT x' new" "x_ival x' = of_bool (bit (p ! (off div 8)) (off mod 8))"
    using w(4) by simp_all
  moreover from this(1) have "x_data K x' = new" by (auto simp: wrote_def stored_def split: if_splits)
  moreover have "bit (p ! (off div 8)) (off mod 8) \<longleftrightarrow> data_bit old off"
    using pad_bit [of "off div 8 + 1" old off] len by (simp add: p_def data_bit_def)
  moreover have "data_bit new n \<longleftrightarrow> (if n = off then b else data_bit old n)"
    using set_bit_at [OF len, of "off mod 8" b n] pad_bit [of "off div 8 + 1" old n] by (simp add: new_def p_def)
  ultimately show ?thesis
    using kv_entry.exec_getbit_spec [OF assms(1) r(1-4)] r(5) by (auto simp: old_def)
qed

definition bit_was_set :: "mem_entry xst" where
  "bit_was_set = (case exec_setbit mem_ops (sample_write [''setbit'', ''k'', ''9'', ''1'']) (sample_key [1]) of
     Some (stat, x') \<Rightarrow> x' | None \<Rightarrow> sample_key [])"

theorem setbit_then_getbit_witness:
  "x_ival bit_was_set = 0 \<and> (\<exists>y'. exec_getbit mem_ops (sample_read [''getbit'', ''k'', ''9'']) (sample_key [1, 2]) = Some (EXEC_SEND_ONE, y'))"
proof -
  have run: "exec_setbit mem_ops (sample_write [''setbit'', ''k'', ''9'', ''1'']) (sample_key [1]) = Some (EXEC_SEND_INT, bit_was_set)
    \<and> x_data mem_ops bit_was_set = [1, 2]"
    by (simp add: bit_was_set_def exec_setbit_def sample_simps Let_def k_get_size_def setbit_store_def k_resize_def
        mem_copy_def put_data_def x_data_def) (simp add: sample_key_def mem_ops_def numeral_eq_Suc)
  show ?thesis
    using setbit_then_getbit [OF mem.kv_entry_axioms, of "sample_write [''setbit'', ''k'', ''9'', ''1'']" 9 True "sample_key [1]"
        KEY_OK "(sample_key [1])\<lparr>x_type := MD_STRING\<rparr>" bit_was_set "sample_read [''getbit'', ''k'', ''9'']" 9 "sample_key [1, 2]"
        "(sample_key [1, 2])\<lparr>x_flags := {EKF_IS_READ_ONLY}, x_type := MD_STRING\<rparr>"] run
    by (simp add: sample_simps old_value_def data_bit_def)
qed

text \<open>C39: INCR, DECR and their relatives. The new value is the decimal form of the sum in 64 bits,
  and the reply is that number as an integer message. A value that is no number counts as zero.\<close>

theorem incr_adds:
  assumes "kv_entry K" "kv_format U" "get_key_write K ex (x\<lparr>x_ival := 0\<rparr>) MD_STRING = Some (st, x1)"
    "x_strm_ok x1" "x_ival x1 = 0"
  defines "v \<equiv> (case string_to_int (old_value K st x1) of Inr i \<Rightarrow> i | Inl e \<Rightarrow> 0)"
  shows "\<exists>stat x'. do_add U K ex x incr = Some (stat, x')
    \<and> wrote K EXEC_OK st x1 stat x' (dec_int (to_int64 (v + incr)))
    \<and> (stat = EXEC_OK \<longrightarrow> x_out x' = x_out x1 @ pack U (mk_int (to_int64 (v + incr))))"
  unfolding v_def by (rule kv_entry.do_add_spec [OF assms(1-5)])

theorem incr_adds_witness:
  "\<exists>stat x'. do_add int_str_util mem_ops (sample_write [''incr'', ''k'']) (sample_key [57]) 1 = Some (stat, x')
    \<and> stored mem_ops EXEC_OK stat x' [49, 48] \<and> (stat = EXEC_OK \<longrightarrow> x_out x' = [58, 49, 48, 13, 10])"
proof -
  have "to_int64 10 = 10" by (rule to_int64_id) (simp add: int64_range_def)
  moreover have "int64_to_string int_str_util 10 = [49, 48]"
    by (simp add: fmt.i2s int64_range_def dec_int_def dec_nat.simps)
  moreover have "dec_int 10 = [49, 48]" by (simp add: dec_int_def dec_nat.simps)
  ultimately show ?thesis
    using incr_adds [OF mem.kv_entry_axioms fmt.kv_format_axioms, of "sample_write [''incr'', ''k'']" "sample_key [57]" KEY_OK
      "(sample_key [57])\<lparr>x_ival := 0, x_type := MD_STRING\<rparr>" 1]
    by (simp add: sample_simps wrote_def old_value_def mk_int_def crlf_def)
      (simp add: sample_key_def)
qed

text \<open>A value that is no number is replaced by the increment.\<close>

lemma incr_replaces_text:
  assumes "kv_entry K" "kv_format U" "get_key_write K ex (x\<lparr>x_ival := 0\<rparr>) MD_STRING = Some (KEY_OK, x1)"
    "x_strm_ok x1" "x_ival x1 = 0" "string_to_int (x_data K x1) = Inl e"
  shows "\<exists>stat x'. do_add U K ex x incr = Some (stat, x') \<and> stored K EXEC_OK stat x' (dec_int (to_int64 incr))"
  using kv_entry.do_add_spec [OF assms(1-5), of incr] assms(6) by (auto simp: wrote_def old_value_def)

text \<open>GETRANGE replies with the characters between its end points, negative ones counted from
  the end, as a bulk string; there is an empty one where there are none. The key is not touched.\<close>

theorem getrange_slices:
  assumes "kv_entry K" "kv_format U" "opt_int ex 2 0 = Some s" "opt_int ex 3 (- 1) = Some e"
    "get_key_read K ex x MD_STRING = Some (KEY_OK, x1)" "op_value K (x_ent x1) = KEY_OK" "op_validate K (x_ent x1) = KEY_OK"
    "x_strm_ok x1" "length (x_data K x1) < 2 ^ 31"
  shows "\<exists>stat x'. exec_getrange U K ex x = Some (stat, x') \<and> x_ent x' = x_ent x1
    \<and> x_out x' @ send_status U True re [] stat = x_out x1 @ pack U (mk_str (redis_slice (x_data K x1) s e))"
  by (rule kv_entry.exec_getrange_spec [OF assms])

lemma two_digits: "string_to_int [45, 50] = Inr (- 2)"
  using string_to_int_dec_int [of "- 2"] by (simp add: dec_int_def dec_nat.simps int64_range_def)

theorem getrange_slices_witness:
  "\<exists>stat x'. exec_getrange int_str_util mem_ops (sample_read [''getrange'', ''k'', ''1'', ''-2'']) (sample_key [97, 98, 99, 100])
      = Some (stat, x')
    \<and> x_out x' @ send_status int_str_util True sample_env [] stat = pack int_str_util (mk_str [98, 99])"
proof -
  have "redis_slice [97, 98, 99, 100] 1 (- 2) = [98, 99]" by code_simp
  moreover have "opt_int (sample_read [''getrange'', ''k'', ''1'', ''-2'']) 2 0 = Some 1"
    "opt_int (sample_read [''getrange'', ''k'', ''1'', ''-2'']) 3 (- 1) = Some (- 2)"
    using two_digits by (simp_all add: opt_int_def sample_simps) (simp_all add: sample_read_def sample_exec_def)
  ultimately show ?thesis
    using getrange_slices [OF mem.kv_entry_axioms fmt.kv_format_axioms, of "sample_read [''getrange'', ''k'', ''1'', ''-2'']" 1 "- 2"
        "sample_key [97, 98, 99, 100]" "(sample_key [97, 98, 99, 100])\<lparr>x_flags := {EKF_IS_READ_ONLY}, x_type := MD_STRING\<rparr>" sample_env]
    by (auto simp: sample_simps) (auto simp: sample_key_def)
qed

text \<open>The options of SET as they are documented, and the arguments from \<open>i\<close> on that spell them.\<close>

datatype set_opt = Opt_EX int | Opt_PX int | Opt_NX | Opt_XX

definition arg_reads :: "redis_exec \<Rightarrow> nat \<Rightarrow> string \<Rightarrow> bool" where
  "arg_reads ex i s \<longleftrightarrow> i < argc ex \<and> map_option (map to_upper) (get_arg_str (ex_msg ex) i) = Some (ascii s)"

fun opts_read :: "redis_exec \<Rightarrow> nat \<Rightarrow> set_opt list \<Rightarrow> bool" where
  "opts_read ex i [] \<longleftrightarrow> argc ex \<le> i"
| "opts_read ex i (Opt_EX n # os) \<longleftrightarrow> arg_reads ex i ''EX'' \<and> get_arg_int (ex_msg ex) (i + 1) = Some n \<and> opts_read ex (i + 2) os"
| "opts_read ex i (Opt_PX n # os) \<longleftrightarrow> arg_reads ex i ''PX'' \<and> get_arg_int (ex_msg ex) (i + 1) = Some n \<and> opts_read ex (i + 2) os"
| "opts_read ex i (Opt_NX # os) \<longleftrightarrow> arg_reads ex i ''NX'' \<and> opts_read ex (i + 1) os"
| "opts_read ex i (Opt_XX # os) \<longleftrightarrow> arg_reads ex i ''XX'' \<and> opts_read ex (i + 1) os"

text \<open>The last of several times counts: seconds or milliseconds, in nanoseconds.\<close>

fun opts_time :: "set_opt list \<Rightarrow> int option \<Rightarrow> int option" where
  "opts_time [] t = t"
| "opts_time (Opt_EX n # os) t = opts_time os (Some (n * 10 ^ 9))"
| "opts_time (Opt_PX n # os) t = opts_time os (Some (n * 10 ^ 6))"
| "opts_time (o1 # os) t = opts_time os t"

lemma arg_reads_two:
  assumes "arg_reads ex i [a, b]"
  obtains w v where "get_arg_str (ex_msg ex) i = Some [w, v]" "to_upper w = of_char a" "to_upper v = of_char b" "i < argc ex"
  using assms by (auto simp: arg_reads_def ascii_def map_eq_Cons_conv)

definition opts_flags :: "set_opt list \<Rightarrow> set_flag set" where
  "opts_flags os = (if opts_time os None \<noteq> None then {HAS_EXPIRE_NS} else {})
     \<union> (if Opt_NX \<in> set os then {K_MUST_NOT_EXIST} else {}) \<union> (if Opt_XX \<in> set os then {K_MUST_EXIST} else {})"

lemma opts_time_none: "opts_time os t = (case opts_time os None of None \<Rightarrow> t | s \<Rightarrow> s)"
proof (induction os arbitrary: t)
  case (Cons a os)
  show ?case
  proof (cases a)
    case (Opt_EX n) then show ?thesis using Cons [of "Some (n * 10 ^ 9)"] by (auto split: option.splits)
  next
    case (Opt_PX n) then show ?thesis using Cons [of "Some (n * 10 ^ 6)"] by (auto split: option.splits)
  qed (simp_all add: Cons [of t])
qed simp

lemma opts_flags_cons:
  "opts_flags (Opt_EX n # os) = opts_flags os \<union> {HAS_EXPIRE_NS}" "opts_flags (Opt_PX n # os) = opts_flags os \<union> {HAS_EXPIRE_NS}"
  "opts_flags (Opt_NX # os) = opts_flags os \<union> {K_MUST_NOT_EXIST}" "opts_flags (Opt_XX # os) = opts_flags os \<union> {K_MUST_EXIST}"
  "opts_flags [] = {}"
  using opts_time_none [of os "Some (n * 10 ^ 9)"] opts_time_none [of os "Some (n * 10 ^ 6)"]
  by (auto simp: opts_flags_def split: option.splits)

lemma option_letters:
  "(of_char CHR ''P'' :: byte) \<noteq> of_char CHR ''E''" "(of_char CHR ''N'' :: byte) \<noteq> of_char CHR ''E''"
  "(of_char CHR ''N'' :: byte) \<noteq> of_char CHR ''P''" "(of_char CHR ''X'' :: byte) \<noteq> of_char CHR ''E''"
  "(of_char CHR ''X'' :: byte) \<noteq> of_char CHR ''P''" "(of_char CHR ''X'' :: byte) \<noteq> of_char CHR ''N''"
  by code_simp+

lemma set_options_arg:
  assumes "arg_reads ex i [c, CHR ''X'']"
  shows "set_options ex i ns flags =
    (if (of_char c :: byte) = of_char CHR ''E'' then
       (case get_arg_int (ex_msg ex) (i + 1) of None \<Rightarrow> None
        | Some ival \<Rightarrow> set_options ex (i + 2) (of_int ival * 1000 * 1000 * 1000) (flags \<union> {HAS_EXPIRE_NS}))
     else if (of_char c :: byte) = of_char CHR ''P'' then
       (case get_arg_int (ex_msg ex) (i + 1) of None \<Rightarrow> None
        | Some ival \<Rightarrow> set_options ex (i + 2) (of_int ival * 1000 * 1000) (flags \<union> {HAS_EXPIRE_NS}))
     else if (of_char c :: byte) = of_char CHR ''N'' then set_options ex (i + 1) ns (flags \<union> {K_MUST_NOT_EXIST})
     else if (of_char c :: byte) = of_char CHR ''X'' then set_options ex (i + 1) ns (flags \<union> {K_MUST_EXIST})
     else None)"
  using assms by (rule arg_reads_two) (subst set_options.simps, simp)

lemmas set_options_read = set_options_arg option_letters if_True if_False option.case refl not_False_eq_True

lemma set_options_reads:
  assumes "opts_read ex i os"
  shows "set_options ex i ns flags = Some (case opts_time os None of None \<Rightarrow> ns | Some t \<Rightarrow> of_int t, flags \<union> opts_flags os)"
  using assms
proof (induction ex i os arbitrary: ns flags rule: opts_read.induct)
  case (1 ex i)
  then show ?case by (subst set_options.simps) (simp add: opts_flags_cons)
next
  case (2 ex i n os)
  then show ?case using opts_time_none [of os "Some (n * 10 ^ 9)"]
    by (auto simp: set_options_arg opts_flags_cons ac_simps split: option.splits)
next
  case (3 ex i n os)
  from 3(2) have "set_options ex i ns flags = set_options ex (i + 2) (of_int n * 1000 * 1000) (flags \<union> {HAS_EXPIRE_NS})"
    by (auto simp only: opts_read.simps set_options_read)
  then show ?case using 3 opts_time_none [of os "Some (n * 10 ^ 6)"]
    by (auto simp: opts_flags_cons ac_simps split: option.splits)
next
  case (4 ex i os)
  from 4(2) have "set_options ex i ns flags = set_options ex (i + 1) ns (flags \<union> {K_MUST_NOT_EXIST})"
    by (auto simp only: opts_read.simps set_options_read)
  then show ?case using 4 by (simp add: opts_flags_cons)
next
  case (5 ex i os)
  from 5(2) have "set_options ex i ns flags = set_options ex (i + 1) ns (flags \<union> {K_MUST_EXIST})"
    by (auto simp only: opts_read.simps set_options_read)
  then show ?case using 5 by (simp add: opts_flags_cons)
qed

lemma length_two: "length xs = 2 \<Longrightarrow> xs = [xs ! 0, xs ! 1]"
  by (cases xs rule: remdups_adj.cases) auto

lemma set_options_only:
  assumes "set_options ex i ns flags \<noteq> None"
  shows "\<exists>os. opts_read ex i os"
  using assms
proof (induction ex i ns flags rule: set_options.induct)
  case (1 ex i ns flags)
  show ?case
  proof (cases "i < argc ex")
    case False
    then have "opts_read ex i []" by simp
    then show ?thesis ..
  next
    case True
    from 1(5) True obtain w where w: "get_arg_str (ex_msg ex) i = Some w" by (subst (asm) set_options.simps) (auto split: option.splits)
    have l1: "length w = 2"
      using 1(5) True w by (subst (asm) set_options.simps) (auto split: if_splits)
    have l2: "to_upper (w ! 1) = of_char CHR ''X''"
      using 1(5) True w l1 by (subst (asm) set_options.simps) (auto split: if_splits)
    note l = l1 l2
    have a: "arg_reads ex i [c, CHR ''X'']" if "to_upper (w ! 0) = of_char c" for c
      using True w that l length_two [OF l(1)] by (auto simp: arg_reads_def ascii_def) (metis list.simps(8,9))
    consider "to_upper (w ! 0) = of_char CHR ''E''" | "to_upper (w ! 0) = of_char CHR ''P''"
      | "to_upper (w ! 0) = of_char CHR ''N''" | "to_upper (w ! 0) = of_char CHR ''X''"
      using 1(5) True w l by (subst (asm) set_options.simps) (auto split: if_splits)
    then show ?thesis
    proof cases
      case c: 1
      from 1(5) obtain n where n: "get_arg_int (ex_msg ex) (i + 1) = Some n"
        by (simp only: set_options_arg [OF a [OF c]] set_options_read split: option.splits) blast
      with 1(5) have "set_options ex (i + 2) (of_int n * 1000 * 1000 * 1000) (flags \<union> {HAS_EXPIRE_NS}) \<noteq> None"
        by (simp only: set_options_arg [OF a [OF c]] set_options_read)
      then show ?thesis using 1(1) [OF True w _ c n] l a [OF c] n by (metis opts_read.simps(2))
    next
      case c: 2
      from 1(5) obtain n where n: "get_arg_int (ex_msg ex) (i + 1) = Some n"
        by (simp only: set_options_arg [OF a [OF c]] set_options_read split: option.splits) blast
      with 1(5) have "set_options ex (i + 2) (of_int n * 1000 * 1000) (flags \<union> {HAS_EXPIRE_NS}) \<noteq> None"
        by (simp only: set_options_arg [OF a [OF c]] set_options_read)
      then show ?thesis using 1(2) [OF True w _ _ c n] l a [OF c] n c option_letters by (metis opts_read.simps(3))
    next
      case c: 3
      from 1(5) have "set_options ex (i + 1) ns (flags \<union> {K_MUST_NOT_EXIST}) \<noteq> None"
        by (simp only: set_options_arg [OF a [OF c]] set_options_read)
      then show ?thesis using 1(3) [OF True w _ _ _ c] l a [OF c] c option_letters by (metis opts_read.simps(4))
    next
      case c: 4
      from 1(5) have "set_options ex (i + 1) ns (flags \<union> {K_MUST_EXIST}) \<noteq> None"
        by (simp only: set_options_arg [OF a [OF c]] set_options_read)
      then show ?thesis using 1(4) [OF True w _ _ _ _ c] l a [OF c] c option_letters by (metis opts_read.simps(5))
    qed
  qed
qed

text \<open>C13: SET with its options, read off the arguments by \<open>opts_read\<close>. NX refuses a key that is there, XX one
  that is not, and a refusal leaves the entry as it was; a key of another type counts as absent. Otherwise the key
  holds the argument, and with EX or PX, the last of them, it is stamped: an amount below ten years from now on, an
  absolute time above. Arguments that spell no options are refused and nothing is fetched.\<close>

theorem set_conditions:
  assumes "kv_entry K" "get_arg_str (ex_msg ex) 2 = Some val"
    "get_key_write K ex x MD_STRING = Some (st, x1)" "st \<in> {KEY_OK, KEY_IS_NEW, KEY_NO_VALUE}" "ex_cmd ex \<noteq> MSETNX_CMD"
  defines "absent \<equiv> st = KEY_NO_VALUE \<or> is_new x1"
  shows "(\<forall>opts. opts_read ex 3 opts \<longrightarrow> (\<exists>stat x'. exec_set K ex x = Some (stat, x') \<and>
     (if absent \<and> Opt_XX \<in> set opts \<or> \<not> absent \<and> Opt_NX \<in> set opts
      then stat = EXEC_SEND_NIL \<and> x_ent x' = x_ent x1
      else stored K EXEC_SEND_OK stat x' val \<and>
        (\<forall>t. stat = EXEC_SEND_OK \<and> opts_time opts None = Some t \<longrightarrow>
          (let ns = of_int t in
           \<exists>e. x_ent x' = op_update_stamps K e (if ns \<noteq> 0 \<and> ns < TEN_YEARS_NS then ns + op_current_stamp K e else ns) 0)))))
    \<and> ((\<nexists>opts. opts_read ex 3 opts) \<longrightarrow> exec_set K ex x = Some (ERR_BAD_ARGS, x))"
proof (intro conjI allI impI)
  fix opts assume o: "opts_read ex 3 opts"
  have f: "HAS_EXPIRE_NS \<in> opts_flags opts \<longleftrightarrow> opts_time opts None \<noteq> None" "K_MUST_EXIST \<in> opts_flags opts \<longleftrightarrow> Opt_XX \<in> set opts"
    "K_MUST_NOT_EXIST \<in> opts_flags opts \<longleftrightarrow> Opt_NX \<in> set opts" by (auto simp: opts_flags_def)
  have "set_options ex 3 0 {} = Some (case opts_time opts None of None \<Rightarrow> 0 | Some t \<Rightarrow> of_int t, opts_flags opts)"
    using set_options_reads [OF o, of 0 "{}"] by simp
  note run = kv_entry.exec_set_spec [OF assms(1) this assms(2-5), folded absent_def, unfolded f]
  define stamp where "stamp x' ns \<longleftrightarrow> (\<exists>e. x_ent x' = op_update_stamps K e (if ns \<noteq> 0 \<and> ns < TEN_YEARS_NS then ns + op_current_stamp K e else ns) 0)"
    for x' :: "'a xst" and ns
  obtain stat x' where 1: "exec_set K ex x = Some (stat, x')"
    and 2: "if absent \<and> Opt_XX \<in> set opts \<or> \<not> absent \<and> Opt_NX \<in> set opts then stat = EXEC_SEND_NIL \<and> x_ent x' = x_ent x1
      else stored K EXEC_SEND_OK stat x' val \<and> (stat = EXEC_SEND_OK \<and> opts_time opts None \<noteq> None \<longrightarrow>
        stamp x' (case opts_time opts None of None \<Rightarrow> 0 | Some t \<Rightarrow> of_int t))"
    using run unfolding stamp_def by (elim exE conjE) 
  have "if absent \<and> Opt_XX \<in> set opts \<or> \<not> absent \<and> Opt_NX \<in> set opts then stat = EXEC_SEND_NIL \<and> x_ent x' = x_ent x1
      else stored K EXEC_SEND_OK stat x' val \<and> (\<forall>t. stat = EXEC_SEND_OK \<and> opts_time opts None = Some t \<longrightarrow> stamp x' (of_int t))"
    using 2 by (cases "opts_time opts None") (auto split: if_splits)
  with 1 show "\<exists>stat x'. exec_set K ex x = Some (stat, x') \<and>
     (if absent \<and> Opt_XX \<in> set opts \<or> \<not> absent \<and> Opt_NX \<in> set opts
      then stat = EXEC_SEND_NIL \<and> x_ent x' = x_ent x1
      else stored K EXEC_SEND_OK stat x' val \<and>
        (\<forall>t. stat = EXEC_SEND_OK \<and> opts_time opts None = Some t \<longrightarrow>
          (let ns = of_int t in
           \<exists>e. x_ent x' = op_update_stamps K e (if ns \<noteq> 0 \<and> ns < TEN_YEARS_NS then ns + op_current_stamp K e else ns) 0)))"
    unfolding Let_def stamp_def by blast
next
  assume "\<nexists>opts. opts_read ex 3 opts"
  then have "set_options ex 3 0 {} = None" using set_options_only by blast
  then show "exec_set K ex x = Some (ERR_BAD_ARGS, x)" by (simp add: exec_set_def)
qed

theorem set_conditions_witness:
  "\<exists>x'. exec_set mem_ops (sample_write [''set'', ''k'', ''v'', ''nx'', ''ex'', ''9'']) (sample_key [97]) = Some (EXEC_SEND_NIL, x')
    \<and> x_ent x' = x_ent (sample_key [97])"
proof -
  let ?ex = "sample_write [''set'', ''k'', ''v'', ''nx'', ''ex'', ''9'']"
  have a: "argc ?ex = 6" "ex_cmd ?ex = 0" by (simp_all add: sample_write_def sample_exec_def)
  have "opts_read ?ex 3 [Opt_NX, Opt_EX 9]" by (simp add: arg_reads_def sample_simps a to_upper_def)
  moreover have "\<not> is_new ((sample_key [97])\<lparr>x_type := MD_STRING\<rparr>)" "x_ent ((sample_key [97])\<lparr>x_type := MD_STRING\<rparr>) = x_ent (sample_key [97])"
    by (simp_all add: sample_key_def is_new_def)
  ultimately show ?thesis
    using set_conditions [OF mem.kv_entry_axioms, of ?ex "[118]" "sample_key [97]" KEY_OK "(sample_key [97])\<lparr>x_type := MD_STRING\<rparr>"] a
    by (fastforce simp: sample_simps MSETNX_CMD_def)
qed

end
