(* ===== verification/Redis_Bits.thy ===== *)
theory Redis_Bits
  imports Redis_String
begin

text \<open>
  BITCOUNT, BITOP and BITPOS of \<open>src/redis_string.cpp\<close>: loops over the data in words of eight, four,
  two and one bytes, which the proofs reduce to the bits of the string.
\<close>

subsection \<open>BITCOUNT\<close>

text \<open>A value of \<open>n\<close> bytes read through a pointer, and stored through it.\<close>

definition load_le :: "nat \<Rightarrow> byte list \<Rightarrow> 'a::len word" where
  "load_le n bs = of_nat (le_val (take n bs))"

definition store_le :: "nat \<Rightarrow> 'a::len word \<Rightarrow> byte list" where
  "store_le n w = le_bytes n (unat w)"

text \<open>Eight bytes at a time while more than eight are left.\<close>

function count_words :: "kv_util \<Rightarrow> byte list \<Rightarrow> nat \<times> byte list" where
  "count_words U p =
     (if 8 < length p then
        (case count_words U (drop 8 p) of (cnt, tail) \<Rightarrow> (kv_popcountl U (load_le 8 p) + cnt, tail))
      else (0, p))"
  by pat_completeness auto
termination
  by (relation "measure (\<lambda>(U, p). length p)") auto

declare count_words.simps [simp del]

text \<open>Four, two and one bytes, as the low bits of the length left say.\<close>

definition count_tail :: "byte list \<Rightarrow> u64" where
  "count_tail p =
     (let i = length p;
          (t4, p4) = (if bit i 2 then (load_le 4 p, drop 4 p) else (0, p));
          (t2, p2) = (if bit i 1 then (push_bit 16 t4 OR load_le 2 p4, drop 2 p4) else (t4, p4)) in
      if bit i 0 then push_bit 8 t2 OR load_le 1 p2 else t2)"

definition count_bits :: "kv_util \<Rightarrow> byte list \<Rightarrow> nat" where
  "count_bits U p = (case count_words U p of (cnt, tail) \<Rightarrow> cnt + kv_popcountl U (count_tail tail))"

definition exec_bitcount :: "kv_util \<Rightarrow> 'e kv_ops \<Rightarrow> redis_exec \<Rightarrow> 'e xst \<Rightarrow> (exec_status \<times> 'e xst) option" where
  "exec_bitcount U K ex x =
     (case opt_int ex 2 0 of None \<Rightarrow> Some (ERR_BAD_ARGS, x)
      | Some st0 \<Rightarrow> (case opt_int ex 3 (- 1) of None \<Rightarrow> Some (ERR_BAD_ARGS, x)
      | Some en0 \<Rightarrow> do {
        (st, x1) \<leftarrow> get_key_read K ex x MD_STRING;
        (case st of
           KEY_OK \<Rightarrow>
             let x2 = k_value K x1; sz = length (x_data K x2);
                 start_off = end_point sz st0; end_off = end_point sz en0 in
             if sz = 0 then Some (EXEC_SEND_ZERO, x2)
             else if x_kstatus x2 = KEY_OK then
               let p = take (clip_len sz start_off end_off) (drop (nat (clip_start sz start_off)) (x_data K x2));
                   x3 = k_validate K (x2\<lparr>x_ival := int (count_bits U p)\<rparr>) in
               if x_kstatus x3 = KEY_OK then Some (EXEC_SEND_INT, x3) else Some (ERR_KV_STATUS, x3)
             else Some (ERR_KV_STATUS, x2)
         | KEY_NOT_FOUND \<Rightarrow> Some (EXEC_SEND_ZERO, x1)
         | KEY_NO_VALUE \<Rightarrow> Some (ERR_BAD_TYPE, x1)
         | _ \<Rightarrow> Some (ERR_KV_STATUS, x1))
      }))"

subsection \<open>BITOP\<close>

definition andt :: "'a::len word \<Rightarrow> 'a word \<Rightarrow> 'a word" where "andt x y = x AND y"
definition ort :: "'a::len word \<Rightarrow> 'a word \<Rightarrow> 'a word" where "ort x y = x OR y"
definition xort :: "'a::len word \<Rightarrow> 'a word \<Rightarrow> 'a word" where "xort x y = x XOR y"
definition nott :: "'a::len word \<Rightarrow> 'a word \<Rightarrow> 'a word" where "nott x y = NOT y"

text \<open>One operation on the next \<open>n\<close> bytes, if there are as many: the bytes done and those left.\<close>

definition bitop_step :: "nat \<Rightarrow> ('a::len word \<Rightarrow> 'a word \<Rightarrow> 'a word) \<Rightarrow> byte list \<Rightarrow> byte list
    \<Rightarrow> byte list \<times> byte list \<times> byte list" where
  "bitop_step n f x y =
     (if n \<le> length x then (store_le n (f (load_le n x) (load_le n y)), drop n x, drop n y) else ([], x, y))"

function bitop_loop :: "(u64 \<Rightarrow> u64 \<Rightarrow> u64) \<Rightarrow> byte list \<Rightarrow> byte list \<Rightarrow> byte list \<times> byte list \<times> byte list" where
  "bitop_loop f x y =
     (if 8 \<le> length x then
        (case bitop_loop f (drop 8 x) (drop 8 y) of
           (done, x', y') \<Rightarrow> (store_le 8 (f (load_le 8 x) (load_le 8 y)) @ done, x', y'))
      else ([], x, y))"
  by pat_completeness auto
termination
  by (relation "measure (\<lambda>(f, x, y). length x)") auto

declare bitop_loop.simps [simp del]

definition bitop :: "(u64 \<Rightarrow> u64 \<Rightarrow> u64) \<Rightarrow> (u32 \<Rightarrow> u32 \<Rightarrow> u32) \<Rightarrow> (u16 \<Rightarrow> u16 \<Rightarrow> u16) \<Rightarrow> (byte \<Rightarrow> byte \<Rightarrow> byte)
    \<Rightarrow> byte list \<Rightarrow> byte list \<Rightarrow> nat \<Rightarrow> byte list option" where
  "bitop op64 op32 op16 op8 x y sz =
     (if sz \<le> length x \<and> sz \<le> length y then
        let (d8, x8, y8) = bitop_loop op64 (take sz x) (take sz y);
            (d4, x4, y4) = bitop_step 4 op32 x8 y8;
            (d2, x2, y2) = bitop_step 2 op16 x4 y4;
            (d1, x1, y1) = bitop_step 1 op8 x2 y2 in
        Some (d8 @ d4 @ d2 @ d1 @ x1 @ drop sz x)
      else None)"

definition and_bits :: "byte list \<Rightarrow> byte list \<Rightarrow> nat \<Rightarrow> byte list option" where
  "and_bits x y sz = bitop andt andt andt andt x y sz"

definition or_bits :: "byte list \<Rightarrow> byte list \<Rightarrow> nat \<Rightarrow> byte list option" where
  "or_bits x y sz = bitop ort ort ort ort x y sz"

definition xor_bits :: "byte list \<Rightarrow> byte list \<Rightarrow> nat \<Rightarrow> byte list option" where
  "xor_bits x y sz = bitop xort xort xort xort x y sz"

definition not_bits :: "byte list \<Rightarrow> nat \<Rightarrow> byte list option" where
  "not_bits x sz = bitop nott nott nott nott x x sz"

datatype bit_op = BIT_AND_OP | BIT_OR_OP | BIT_XOR_OP | BIT_NOT_OP

text \<open>One more source: what it does to the data, of \<open>ival\<close> bytes.\<close>

definition bitop_source :: "bit_op \<Rightarrow> nat \<Rightarrow> byte list \<Rightarrow> byte list \<Rightarrow> byte list option" where
  "bitop_source bop ival data part =
     (let sz = min (length part) ival; extra_sz = ival - length part in
      case bop of
        BIT_AND_OP \<Rightarrow> do {
          d \<leftarrow> and_bits data part sz;
          if extra_sz > 0 then mem_copy sz (replicate extra_sz 0) d else Some d }
      | BIT_OR_OP \<Rightarrow> or_bits data part sz
      | BIT_XOR_OP \<Rightarrow> do {
          d \<leftarrow> xor_bits data part sz;
          if extra_sz > 0 then do { e \<leftarrow> not_bits (drop sz d) extra_sz; Some (take sz d @ e) } else Some d }
      | BIT_NOT_OP \<Rightarrow> Some data)"

fun bitop_sources :: "bit_op \<Rightarrow> nat \<Rightarrow> byte list \<Rightarrow> byte list list \<Rightarrow> byte list option" where
  "bitop_sources bop ival data [] = Some data"
| "bitop_sources bop ival data (p # ps) = do { d \<leftarrow> bitop_source bop ival data p; bitop_sources bop ival d ps }"

definition bitop_args :: "redis_exec \<Rightarrow> bit_op option option" where
  "bitop_args ex = do {
     n \<leftarrow> match_arg (ex_msg ex) 1 [ascii ''and'', ascii ''or'', ascii ''xor'', ascii ''not''];
     Some (if n = 1 then Some BIT_AND_OP else if n = 2 then Some BIT_OR_OP else if n = 3 then Some BIT_XOR_OP
       else if n = 4 then (if argc ex > 4 then None else Some BIT_NOT_OP) else None) }"

text \<open>The destination is computed when all the sources have left their data; \<open>parts\<close> are those of
  the keys, the destination first.\<close>

definition bitop_dest :: "'e kv_ops \<Rightarrow> redis_exec \<Rightarrow> byte list list \<Rightarrow> 'e xst \<Rightarrow> (exec_status \<times> 'e xst) option" where
  "bitop_dest K ex srcs x =
     (let ival = foldl (\<lambda>n p. max (length p) n) 0 srcs; x0 = x\<lparr>x_ival := int ival\<rparr> in do {
      bop \<leftarrow> bitop_args ex;
      (case bop of None \<Rightarrow> Some (ERR_BAD_ARGS, x0)
       | Some bop \<Rightarrow> do {
         (st, x1) \<leftarrow> get_key_write K ex x0 MD_STRING;
         if st = KEY_OK \<or> st = KEY_IS_NEW then
           let x2 = k_resize K ival False x1 in
           if x_kstatus x2 = KEY_OK then
             (case srcs of [] \<Rightarrow> None
              | p1 # ps \<Rightarrow> do {
                d1 \<leftarrow> mem_copy 0 p1 (x_data K x2);
                d2 \<leftarrow> (if ival - length p1 > 0 then mem_copy (length p1) (replicate (ival - length p1) 0) d1 else Some d1);
                d3 \<leftarrow> (if bop = BIT_NOT_OP then not_bits d2 ival else Some d2);
                d4 \<leftarrow> bitop_sources bop ival d3 ps;
                Some (EXEC_SEND_INT, keyspace_string (put_data K x2 d4)) })
           else Some (ERR_KV_STATUS, x2)
         else if st = KEY_NO_VALUE then Some (ERR_BAD_TYPE, x1)
         else Some (ERR_KV_STATUS, x1) }) })"

definition exec_bitop :: "'e kv_ops \<Rightarrow> redis_exec \<Rightarrow> byte list option list \<Rightarrow> 'e xst \<Rightarrow> (exec_status \<times> 'e xst) option" where
  "exec_bitop K ex parts x =
     (if x_argn x = 2 then
        if x_dep x = 0 then Some (EXEC_DEPENDS, x)
        else do { srcs \<leftarrow> those (drop 1 parts); bitop_dest K ex srcs x }
      else
        let save = (\<lambda>data x1.
          let x2 = k_validate K (snd (save_data (x_strm_ok x1) data x1)) in
          if x_kstatus x2 = KEY_OK then Some (EXEC_OK, x2) else Some (ERR_KV_STATUS, x2)) in
        do {
          (st, x1) \<leftarrow> get_key_read K ex x MD_STRING;
          (case st of
             KEY_OK \<Rightarrow>
               let x2 = k_value K x1 in
               if x_kstatus x2 = KEY_OK then save (x_data K x2) x2 else Some (ERR_KV_STATUS, x2)
           | KEY_NOT_FOUND \<Rightarrow> save [] x1
           | KEY_NO_VALUE \<Rightarrow> Some (ERR_BAD_TYPE, x1)
           | _ \<Rightarrow> Some (ERR_KV_STATUS, x1))
        })"

subsection \<open>BITPOS\<close>

function bitpos_loop :: "kv_util \<Rightarrow> bool \<Rightarrow> byte list \<Rightarrow> nat \<Rightarrow> nat \<Rightarrow> int" where
  "bitpos_loop U b data p q =
     (if p < q then
        let z = (if q - p \<ge> 8 then 8 else if q - p \<ge> 4 then 4 else if q - p \<ge> 2 then 2 else 1);
            w = load_le z (drop p data) :: u64; x = (if b then w else NOT w) in
        if x \<noteq> 0 then
          let ival = p * 8 + kv_ctzl U x in
          if ival \<ge> length data * 8 then - 1 else int ival
        else bitpos_loop U b data (p + z) q
      else - 1)"
  by pat_completeness auto
termination
  by (relation "measure (\<lambda>(U, b, data, p, q). q - p)") auto

declare bitpos_loop.simps [simp del]

definition exec_bitpos :: "kv_util \<Rightarrow> 'e kv_ops \<Rightarrow> redis_exec \<Rightarrow> 'e xst \<Rightarrow> (exec_status \<times> 'e xst) option" where
  "exec_bitpos U K ex x =
     (case get_arg_int (ex_msg ex) 2 of None \<Rightarrow> Some (ERR_BAD_ARGS, x)
      | Some b \<Rightarrow>
        if (of_int b :: u64) > 1 then Some (ERR_BAD_ARGS, x)
        else (case opt_int ex 3 0 of None \<Rightarrow> Some (ERR_BAD_ARGS, x)
        | Some start_off \<Rightarrow> (case opt_int ex 4 (- 1) of None \<Rightarrow> Some (ERR_BAD_ARGS, x)
        | Some end_off \<Rightarrow>
          if start_off < 0 then Some (ERR_BAD_ARGS, x)
          else do {
            (st, x1) \<leftarrow> get_key_read K ex x MD_STRING;
            (case st of
               KEY_OK \<Rightarrow>
                 let x2 = k_value K x1; data = x_data K x2 in
                 if x_kstatus x2 = KEY_OK then
                   let q = (if end_off > start_off \<and> nat end_off < length data then nat end_off else length data);
                       x3 = k_validate K (x2\<lparr>x_ival := bitpos_loop U (b \<noteq> 0) data (nat start_off) q\<rparr>) in
                   if x_kstatus x3 = KEY_OK then Some (EXEC_SEND_INT, x3) else Some (ERR_KV_STATUS, x3)
                 else Some (ERR_KV_STATUS, x2)
             | KEY_NOT_FOUND \<Rightarrow> Some (EXEC_SEND_ZERO, x1)
             | KEY_NO_VALUE \<Rightarrow> Some (ERR_BAD_TYPE, x1)
             | _ \<Rightarrow> Some (ERR_KV_STATUS, x1))
          })))"

section \<open>Bytes in words\<close>

lemma bit_le_step:
  assumes "u < 256"
  shows "bit (u + 256 * v :: nat) k \<longleftrightarrow> (if k < 8 then bit u k else bit v (k - 8))"
proof (cases "k < 8")
  case True
  then have "(256 :: nat) = 2 ^ k * 2 ^ (8 - k)" using power_add [of "2 :: nat" k "8 - k"] by simp
  then have "u + 256 * v = 2 ^ k * (2 ^ (8 - k) * v) + u" by (simp only: mult.assoc add.commute)
  then have "(u + 256 * v) div 2 ^ k = 2 ^ (8 - k) * v + u div 2 ^ k" by (simp only:) simp
  then show ?thesis using True by (simp add: bit_iff_odd)
next
  case False
  then have "2 ^ k = (256 :: nat) * 2 ^ (k - 8)" using power_add [of "2 :: nat" 8 "k - 8"] by simp
  then have "(u + 256 * v) div 2 ^ k = (u + 256 * v) div 256 div 2 ^ (k - 8)" by (simp add: div_mult2_eq)
  then show ?thesis using False assms by (simp add: bit_iff_odd)
qed

lemma bit_le_val: "bit (le_val bs) k \<longleftrightarrow> data_bit bs k"
proof (induction bs arbitrary: k)
  case Nil
  then show ?case by (simp add: data_bit_def)
next
  case (Cons b bs)
  have "unat b < 256" by (rule unat_byte_less)
  then show ?case
    by (auto simp: bit_le_step Cons data_bit_def bit_unsigned_iff nth_Cons' le_div_geq le_mod_geq dest: bit_imp_le_length)
qed

lemma bit_load_le: "bit (load_le n bs :: 'a::len word) k \<longleftrightarrow> k < LENGTH('a) \<and> data_bit (take n bs) k"
  by (simp add: load_le_def bit_of_nat_iff bit_le_val)

lemma data_bit_length: "data_bit bs k \<Longrightarrow> k < 8 * length bs"
  by (simp add: data_bit_def) linarith

lemma data_bit_store:
  fixes w :: "'a::len word"
  assumes "LENGTH('a) = 8 * n"
  shows "data_bit (store_le n w) k \<longleftrightarrow> bit w k"
proof -
  have "unat w < 256 ^ n" using unsigned_less [of w] assms by (simp add: power_mult)
  then have "le_val (store_le n w) = unat w" by (simp add: store_le_def le_val_le_bytes)
  then show ?thesis using bit_le_val [of "store_le n w" k] by (simp add: bit_unsigned_iff)
qed

text \<open>The number of bits that are set in a string.\<close>

definition bits_set :: "byte list \<Rightarrow> nat" where
  "bits_set bs = sum_list (map (\<lambda>b. length (filter (bit b) [0..<8])) bs)"

lemma bits_set_append [simp]: "bits_set (xs @ ys) = bits_set xs + bits_set ys"
  by (simp add: bits_set_def)

lemma card_data_bit: "card {k. data_bit bs k} = bits_set bs"
proof (induction bs)
  case Nil
  then show ?case by (simp add: data_bit_def bits_set_def)
next
  case (Cons b bs)
  have *: "{k. data_bit (b # bs) k} = set (filter (bit b) [0..<8]) \<union> (\<lambda>k. k + 8) ` {k. data_bit bs k}"
  proof (rule set_eqI)
    fix k show "k \<in> {k. data_bit (b # bs) k} \<longleftrightarrow> k \<in> set (filter (bit b) [0..<8]) \<union> (\<lambda>k. k + 8) ` {k. data_bit bs k}"
      using bit_le_step [OF unat_byte_less [of b], of "le_val bs" k] bit_le_val [of "b # bs" k]
      by (auto simp: bit_le_val bit_unsigned_iff image_iff split: if_splits
          intro: exI [of _ "k - 8"] dest: bit_imp_le_length spec [of _ "k - 8"])
  qed
  have "finite {k. data_bit bs k}" by (rule finite_subset [of _ "{..<8 * length bs}"]) (auto dest: data_bit_length)
  then have "card {k. data_bit (b # bs) k} = card (set (filter (bit b) [0..<8])) + card ((\<lambda>k. k + 8) ` {k. data_bit bs k})"
    unfolding * by (intro card_Un_disjoint) auto
  also have "card ((\<lambda>k. k + 8) ` {k. data_bit bs k}) = bits_set bs"
    using Cons by (subst card_image) (auto simp: inj_on_def)
  also have "card (set (filter (bit b) [0..<8])) = length (filter (bit b) [0..<8])"
    by (rule distinct_card) simp
  finally show ?case by (simp add: bits_set_def)
qed

lemma card_load:
  assumes "8 * n \<le> LENGTH('a)"
  shows "card {k. bit (load_le n bs :: 'a::len word) k} = bits_set (take n bs)"
proof -
  have "{k. bit (load_le n bs :: 'a word) k} = {k. data_bit (take n bs) k}"
    using assms data_bit_length [of "take n bs"] by (fastforce simp: bit_load_le min_def split: if_splits)
  then show ?thesis by (simp add: card_data_bit)
qed

lemma card_shift_or:
  fixes t l :: u64
  assumes "\<And>k. bit t k \<Longrightarrow> k + n < 64" "\<And>k. bit l k \<Longrightarrow> k < n"
  shows "card {k. bit (push_bit n t OR l) k} = card {k. bit t k} + card {k. bit l k}"
proof -
  have "{k. bit (push_bit n t OR l) k} = (\<lambda>k. k + n) ` {k. bit t k} \<union> {k. bit l k}"
    using assms by (force simp: bit_simps image_iff)
  moreover have "finite {k. bit t k}" "finite {k. bit l k}"
    by (rule finite_subset [of _ "{..<64}"]; auto dest: bit_imp_le_length)+
  ultimately have "card {k. bit (push_bit n t OR l) k} = card ((\<lambda>k. k + n) ` {k. bit t k}) + card {k. bit l k}"
    using assms(2) by (simp, subst card_Un_disjoint) fastforce+
  also have "card ((\<lambda>k. k + n) ` {k. bit t k}) = card {k. bit t k}"
    by (rule card_image) (simp add: inj_on_def)
  finally show ?thesis .
qed

section \<open>BITCOUNT\<close>

lemma take_one: "Suc 0 \<le> length p \<Longrightarrow> take (Suc 0) p @ drop (Suc 0) p = p"
  by simp

text \<open>The tail of less than eight bytes is counted; of eight bytes nothing is.\<close>

lemma popcount_tail:
  assumes "kv_bitops U" "length p < 8"
  shows "kv_popcountl U (count_tail p) = bits_set p"
proof -
  have pc: "kv_popcountl U w = card {k. bit w k}" for w using assms(1) by (simp add: kv_bitops.popcountl)
  define i where "i = length p"
  have i: "i = 4 * of_bool (bit i 2) + 2 * of_bool (bit i 1) + of_bool (bit i 0)"
  proof -
    have "i < 8" using assms(2) by (simp add: i_def)
    then have "i \<in> {0, 1, 2, 3, 4, 5, 6, 7}" by auto
    then show ?thesis by (elim insertE emptyE) (simp_all add: bit_iff_odd)
  qed
  define t4 p4 where "t4 = (if bit i 2 then load_le 4 p else 0 :: u64)" and "p4 = (if bit i 2 then drop 4 p else p)"
  define t2 p2 where "t2 = (if bit i 1 then push_bit 16 t4 OR load_le 2 p4 else t4)"
    and "p2 = (if bit i 1 then drop 2 p4 else p4)"
  have l4: "length p4 = 2 * of_bool (bit i 1) + of_bool (bit i 0)" using i by (auto simp: p4_def i_def)
  then have l2: "length p2 = of_bool (bit i 0)" by (auto simp: p2_def)
  have c4: "card {k. bit t4 k} + bits_set p4 = bits_set p"
    using card_load [where 'a = 64, of 4 p] bits_set_append [of "take 4 p" "drop 4 p"] by (simp add: t4_def p4_def)
  have b4: "bit t4 k \<Longrightarrow> k < 32" for k
    using data_bit_length [of "take 4 p" k] by (auto simp: t4_def bit_load_le split: if_splits)
  have c2: "card {k. bit t2 k} + bits_set p2 = bits_set p"
    using c4 card_load [where 'a = 64, of 2 p4] bits_set_append [of "take 2 p4" "drop 2 p4"]
      card_shift_or [of t4 16 "load_le 2 p4"] b4 data_bit_length [of "take 2 p4"]
    by (fastforce simp: t2_def p2_def bit_load_le)
  have b2: "bit t2 k \<Longrightarrow> k < 48" for k
    using b4 [of "k - 16"] b4 [of k] data_bit_length [of "take 2 p4" k]
    by (auto simp: t2_def bit_load_le bit_simps split: if_splits)
  have "card {k. bit (if bit i 0 then push_bit 8 t2 OR load_le 1 p2 else t2) k} = bits_set p"
  proof (cases "bit i 0")
    case True
    then have "take 1 p2 = p2" using l2 by simp
    then show ?thesis using True c2 card_load [where 'a = 64, of 1 p2]
        card_shift_or [of t2 8 "load_le 1 p2"] b2 data_bit_length [of "take 1 p2"]
      by (fastforce simp: bit_load_le)
  next
    case False
    then show ?thesis using c2 l2 by (simp add: bits_set_def)
  qed
  moreover have "count_tail p = (if bit i 0 then push_bit 8 t2 OR load_le 1 p2 else t2)"
    by (simp add: count_tail_def Let_def i_def [symmetric] t4_def p4_def t2_def p2_def)
  ultimately show ?thesis by (simp only: pc)
qed

lemma count_tail_eight: "length p = 8 \<Longrightarrow> count_tail p = 0"
  by (simp add: count_tail_def bit_iff_odd)

text \<open>What is counted: everything, but for the last eight bytes of a length that is a multiple of eight.\<close>

definition counted :: "byte list \<Rightarrow> byte list" where
  "counted p = (if p \<noteq> [] \<and> length p mod 8 = 0 then take (length p - 8) p else p)"

lemma count_bits_counted:
  assumes "kv_bitops U"
  shows "count_bits U p = bits_set (counted p)"
proof (induction p rule: length_induct)
  case (1 p)
  show ?case
  proof (cases "8 < length p")
    case True
    have "count_bits U p = kv_popcountl U (load_le 8 p) + count_bits U (drop 8 p)"
      by (subst count_bits_def, subst count_words.simps) (simp add: True count_bits_def split: prod.split)
    also have "kv_popcountl U (load_le 8 p) = bits_set (take 8 p)"
      using assms card_load [where 'a = 64, of 8 p] by (simp add: kv_bitops.popcountl)
    also have "count_bits U (drop 8 p) = bits_set (counted (drop 8 p))" using 1 True by simp
    also have "bits_set (take 8 p) + bits_set (counted (drop 8 p)) = bits_set (take 8 p @ counted (drop 8 p))" by simp
    also have "take 8 p @ counted (drop 8 p) = counted p"
    proof -
      have "length (drop 8 p) mod 8 = length p mod 8" using True by (simp add: mod_if)
      moreover have "take 8 p @ take (length p - 16) (drop 8 p) = take (length p - 8) p" if "length p mod 8 = 0"
      proof -
        have "16 \<le> length p" using True that by presburger
        then have "length p - 8 = 8 + (length p - 16)" by simp
        then show ?thesis by (simp only: take_add)
      qed
      ultimately show ?thesis using True by (auto simp: counted_def)
    qed
    finally show ?thesis .
  next
    case False
    then have "count_bits U p = kv_popcountl U (count_tail p)"
      by (subst count_bits_def, subst count_words.simps) simp
    moreover have "length p < 8 \<or> length p = 8" using False by linarith
    ultimately show ?thesis
      using popcount_tail [OF assms, of p] count_tail_eight [of p] kv_bitops.popcount_zero [OF assms]
      by (auto simp: counted_def bits_set_def)
  qed
qed

section \<open>BITOP\<close>

text \<open>A word operation that works bit by bit.\<close>

definition bitwise :: "(bool \<Rightarrow> bool \<Rightarrow> bool) \<Rightarrow> ('a::len word \<Rightarrow> 'a word \<Rightarrow> 'a word) \<Rightarrow> bool" where
  "bitwise h f \<longleftrightarrow> (\<forall>a b k. k < LENGTH('a) \<longrightarrow> bit (f a b) k = h (bit a k) (bit b k))"

lemma bitwiseD: "bitwise h f \<Longrightarrow> k < LENGTH('a) \<Longrightarrow> bit (f a b :: 'a::len word) k = h (bit a k) (bit b k)"
  by (simp add: bitwise_def)

lemma step_bytes:
  fixes f :: "'a::len word \<Rightarrow> 'a word \<Rightarrow> 'a word"
  assumes "LENGTH('a) = 8 * n" "bitwise h f" "bitwise h (g :: byte \<Rightarrow> byte \<Rightarrow> byte)"
    "n \<le> length x" "n \<le> length y"
  shows "store_le n (f (load_le n x) (load_le n y)) = map2 g (take n x) (take n y)"
proof (rule data_bit_ext)
  show "length (store_le n (f (load_le n x) (load_le n y))) = length (map2 g (take n x) (take n y))"
    using assms(4,5) by (simp add: store_le_def)
  fix k
  show "data_bit (store_le n (f (load_le n x) (load_le n y))) k \<longleftrightarrow> data_bit (map2 g (take n x) (take n y)) k"
  proof (cases "k < 8 * n")
    case True
    then have "k div 8 < n" by auto
    then show ?thesis using assms(1,4,5) True bitwiseD [OF assms(2)] bitwiseD [OF assms(3)]
      by (simp add: data_bit_store bit_load_le) (simp add: data_bit_def)
  next
    case False
    then have "\<not> bit (f (load_le n x) (load_le n y)) k" using assms(1) bit_imp_le_length [of "f (load_le n x) (load_le n y)" k] by auto
    moreover have "\<not> data_bit (map2 g (take n x) (take n y)) k"
      using False data_bit_length [of "map2 g (take n x) (take n y)" k] assms(4,5) by auto
    ultimately show ?thesis using assms(1) by (simp add: data_bit_store)
  qed
qed

text \<open>Bytes done from the front, and those left.\<close>

definition done_bytes :: "(byte \<Rightarrow> byte \<Rightarrow> byte) \<Rightarrow> byte list \<Rightarrow> byte list \<Rightarrow> byte list \<Rightarrow> byte list \<Rightarrow> byte list \<Rightarrow> bool" where
  "done_bytes g x y d x' y' \<longleftrightarrow>
     length d \<le> length x \<and> d = map2 g (take (length d) x) (take (length d) y)
     \<and> x' = drop (length d) x \<and> y' = drop (length d) y"

lemma done_bytes_trans:
  assumes "done_bytes g x y d x' y'" "done_bytes g x' y' e x'' y''" "length x \<le> length y"
  shows "done_bytes g x y (d @ e) x'' y''"
proof -
  define m n where "m = length d" and "n = length e"
  have d: "m \<le> length x" "d = map2 g (take m x) (take m y)" "x' = drop m x" "y' = drop m y"
    using assms(1) by (simp_all add: done_bytes_def m_def)
  have e: "n \<le> length x'" "e = map2 g (take n x') (take n y')" "x'' = drop n x'" "y'' = drop n y'"
    using assms(2) by (simp_all add: done_bytes_def n_def)
  have "d @ e = map2 g (take (m + n) x) (take (m + n) y)"
    using d e assms(3) by (simp add: take_add zip_append)
  moreover have "m + n \<le> length y" using d(1) e(1,3) assms(3) by (simp add: d(3))
  ultimately show ?thesis using d(1,3,4) e(1,3,4)
    by (simp add: done_bytes_def m_def [symmetric] n_def [symmetric] add.commute)
qed

lemma done_bytes_refl: "done_bytes g x y [] x y"
  by (simp add: done_bytes_def)

lemma bitop_step_done:
  fixes f :: "'a::len word \<Rightarrow> 'a word \<Rightarrow> 'a word"
  assumes "LENGTH('a) = 8 * n" "bitwise h f" "bitwise h (g :: byte \<Rightarrow> byte \<Rightarrow> byte)" "length x \<le> length y"
  shows "\<exists>d x' y'. bitop_step n f x y = (d, x', y') \<and> done_bytes g x y d x' y' \<and> length x' \<le> length y'
    \<and> length x' = (if n \<le> length x then length x - n else length x)"
  using step_bytes [OF assms(1-3), of x y] assms(4)
  by (auto simp: bitop_step_def done_bytes_def store_le_def)

lemma bitop_loop_done:
  assumes "bitwise h f" "bitwise h g"
  shows "length x \<le> length y \<Longrightarrow>
    \<exists>d x' y'. bitop_loop f x y = (d, x', y') \<and> done_bytes g x y d x' y' \<and> length x' \<le> length y' \<and> length x' < 8"
proof (induction x arbitrary: y rule: length_induct)
  case (1 x)
  show ?case
  proof (cases "8 \<le> length x")
    case True
    have s: "done_bytes g x y (store_le 8 (f (load_le 8 x) (load_le 8 y))) (drop 8 x) (drop 8 y)"
      using step_bytes [where n = 8 and f = f and h = h and g = g and x = x and y = y] assms True 1 by (auto simp: done_bytes_def store_le_def)
    obtain d x' y' where l: "bitop_loop f (drop 8 x) (drop 8 y) = (d, x', y')" "done_bytes g (drop 8 x) (drop 8 y) d x' y'"
      "length x' \<le> length y'" "length x' < 8"
    proof -
      have "length (drop 8 x) < length x" "length (drop 8 x) \<le> length (drop 8 y)" using True 1 by auto
      with 1 that show thesis by blast
    qed
    show ?thesis using done_bytes_trans [OF s l(2)] l 1 by (subst bitop_loop.simps) (simp add: True)
  next
    case False
    then show ?thesis using 1 by (subst bitop_loop.simps) (simp add: done_bytes_refl)
  qed
qed

lemma bitop_bytes:
  assumes f: "bitwise h f64" "bitwise h f32" "bitwise h f16" "bitwise h g"
    and sz: "sz \<le> length x" "sz \<le> length y"
  shows "bitop f64 f32 f16 g x y sz = Some (map2 g (take sz x) (take sz y) @ drop sz x)"
proof -
  let ?x = "take sz x" and ?y = "take sz y"
  have len: "length ?x \<le> length ?y" using sz by simp
  obtain d8 x8 y8 where 8: "bitop_loop f64 ?x ?y = (d8, x8, y8)" "done_bytes g ?x ?y d8 x8 y8" "length x8 \<le> length y8" "length x8 < 8"
    using bitop_loop_done [OF f(1,4) len] by blast
  obtain d4 x4 y4 where 4: "bitop_step 4 f32 x8 y8 = (d4, x4, y4)" "done_bytes g x8 y8 d4 x4 y4" "length x4 \<le> length y4" "length x4 < 4"
    using bitop_step_done [where n = 4 and f = f32 and h = h and g = g and x = x8 and y = y8] f 8 by (auto split: if_splits)
  obtain d2 x2 y2 where 2: "bitop_step 2 f16 x4 y4 = (d2, x2, y2)" "done_bytes g x4 y4 d2 x2 y2" "length x2 \<le> length y2" "length x2 < 2"
    using bitop_step_done [where n = 2 and f = f16 and h = h and g = g and x = x4 and y = y4] f 4 by (auto split: if_splits)
  obtain d1 x1 y1 where 1: "bitop_step 1 g x2 y2 = (d1, x1, y1)" "done_bytes g x2 y2 d1 x1 y1" "length x1 = 0"
    using bitop_step_done [where n = 1 and f = g and h = h and g = g and x = x2 and y = y2] f 2 by (cases x2) (auto split: if_splits)
  have "done_bytes g x4 y4 (d2 @ d1) x1 y1" using done_bytes_trans [OF 2(2) 1(2) 4(3)] .
  from done_bytes_trans [OF 4(2) this 8(3)] have "done_bytes g x8 y8 (d4 @ d2 @ d1) x1 y1" .
  from done_bytes_trans [OF 8(2) this len] have "done_bytes g ?x ?y (d8 @ d4 @ d2 @ d1) x1 y1" .
  then have "d8 @ d4 @ d2 @ d1 = map2 g ?x ?y" using 1(3) sz by (auto simp: done_bytes_def)
  then show ?thesis using sz 8(1) 4(1) 2(1) 1 by (simp add: bitop_def)
qed

lemma bits_maps:
  assumes "sz \<le> length x" "sz \<le> length y"
  shows "and_bits x y sz = Some (map2 (AND) (take sz x) (take sz y) @ drop sz x)"
    "or_bits x y sz = Some (map2 (OR) (take sz x) (take sz y) @ drop sz x)"
    "xor_bits x y sz = Some (map2 (XOR) (take sz x) (take sz y) @ drop sz x)"
proof -
  note b = bitop_bytes [OF _ _ _ _ assms]
  show "and_bits x y sz = Some (map2 (AND) (take sz x) (take sz y) @ drop sz x)"
    unfolding and_bits_def by (subst b [where h = "(\<and>)"]) (simp_all add: bitwise_def andt_def [abs_def] bit_simps)
  show "or_bits x y sz = Some (map2 (OR) (take sz x) (take sz y) @ drop sz x)"
    unfolding or_bits_def by (subst b [where h = "(\<or>)"]) (simp_all add: bitwise_def ort_def [abs_def] bit_simps)
  show "xor_bits x y sz = Some (map2 (XOR) (take sz x) (take sz y) @ drop sz x)"
    unfolding xor_bits_def by (subst b [where h = "(\<noteq>)"]) (simp_all add: bitwise_def xort_def [abs_def] bit_simps)
qed

lemma not_bits_map:
  assumes "sz \<le> length x"
  shows "not_bits x sz = Some (map NOT (take sz x) @ drop sz x)"
proof -
  have "not_bits x sz = Some (map2 nott (take sz x) (take sz x) @ drop sz x)"
    unfolding not_bits_def by (rule bitop_bytes [where h = "\<lambda>a b. \<not> b"]) (simp_all add: bitwise_def nott_def bit_simps assms)
  moreover have "map2 nott (take sz x) (take sz x) = map NOT (take sz x)"
    by (simp add: nott_def [abs_def] zip_same_conv_map)
  ultimately show ?thesis by simp
qed

text \<open>The operation the sources are meant to be combined with, short sources padded with zeros.\<close>

definition byte_at :: "byte list \<Rightarrow> nat \<Rightarrow> byte" where
  "byte_at p i = (if i < length p then p ! i else 0)"

fun bit_fn :: "bit_op \<Rightarrow> byte \<Rightarrow> byte \<Rightarrow> byte" where
  "bit_fn BIT_AND_OP a b = a AND b"
| "bit_fn BIT_OR_OP a b = a OR b"
| "bit_fn BIT_XOR_OP a b = a XOR b"
| "bit_fn BIT_NOT_OP a b = a"

definition combine :: "bit_op \<Rightarrow> nat \<Rightarrow> byte list \<Rightarrow> byte list list \<Rightarrow> byte list" where
  "combine bop n p ps =
     map (\<lambda>i. let v = foldl (\<lambda>a q. bit_fn bop a (byte_at q i)) (byte_at p i) ps in
        if bop = BIT_NOT_OP then NOT v else v) [0..<n]"

text \<open>XOR flips what is behind a short source; the other operations pad.\<close>

definition padding_ok :: "bit_op \<Rightarrow> nat \<Rightarrow> byte list list \<Rightarrow> bool" where
  "padding_ok bop n ps \<longleftrightarrow> (bop = BIT_XOR_OP \<longrightarrow> (\<forall>p\<in>set ps. length p = n))"

lemma bitop_source_combine:
  assumes "length data = n" "length p \<le> n" "padding_ok bop n [p]"
  shows "bitop_source bop n data p = Some (map (\<lambda>i. bit_fn bop (data ! i) (byte_at p i)) [0..<n])"
proof -
  have eq: "map2 f (take (length p) data) (take (length p) p) @ drop (length p) (map h [0..<n])
      = map (\<lambda>i. if i < length p then f (data ! i) (p ! i) else h i) [0..<n]" for f :: "byte \<Rightarrow> byte \<Rightarrow> byte" and h
    by (rule nth_equalityI) (use assms in \<open>auto simp: nth_append\<close>)
  show ?thesis
  proof (cases bop)
    case BIT_AND_OP
    have "mem_copy (length p) (replicate (n - length p) 0) (map2 (AND) (take (length p) data) (take (length p) p) @ drop (length p) data)
        = Some (map2 (AND) (take (length p) data) (take (length p) p) @ replicate (n - length p) 0)"
      using assms(1,2) by (subst mem_copy_in) auto
    moreover have "map2 (AND) (take (length p) data) (take (length p) p) @ replicate (n - length p) 0
        = map (\<lambda>i. bit_fn BIT_AND_OP (data ! i) (byte_at p i)) [0..<n]"
      by (rule nth_equalityI) (use assms in \<open>auto simp: nth_append byte_at_def\<close>)
    moreover have "n - length p = 0 \<Longrightarrow> map2 (AND) (take (length p) data) (take (length p) p) @ drop (length p) data
        = map2 (AND) (take (length p) data) (take (length p) p) @ replicate (n - length p) 0"
      using assms(1,2) by simp
    ultimately show ?thesis using assms(1,2) BIT_AND_OP
      by (auto simp: bitop_source_def bits_maps min_absorb1 Let_def)
  next
    case BIT_OR_OP
    have "map2 (OR) (take (length p) data) (take (length p) p) @ drop (length p) data
        = map (\<lambda>i. bit_fn BIT_OR_OP (data ! i) (byte_at p i)) [0..<n]"
      by (rule nth_equalityI) (use assms in \<open>auto simp: nth_append byte_at_def\<close>)
    then show ?thesis using assms(1,2) BIT_OR_OP by (simp add: bitop_source_def bits_maps min_absorb1 Let_def)
  next
    case BIT_XOR_OP
    then have l: "length p = n" using assms(3) by (simp add: padding_ok_def)
    have "map2 (XOR) (take n data) (take n p) @ drop n data
        = map (\<lambda>i. bit_fn BIT_XOR_OP (data ! i) (byte_at p i)) [0..<n]"
      by (rule nth_equalityI) (use assms l in \<open>auto simp: nth_append byte_at_def\<close>)
    then show ?thesis using assms(1) l BIT_XOR_OP by (simp add: bitop_source_def bits_maps Let_def)
  next
    case BIT_NOT_OP
    have "data = map (\<lambda>i. bit_fn BIT_NOT_OP (data ! i) (byte_at p i)) [0..<n]"
      by (rule nth_equalityI) (use assms in auto)
    then show ?thesis using BIT_NOT_OP by (simp add: bitop_source_def Let_def)
  qed
qed

lemma bitop_sources_combine:
  assumes "length data = n" "\<forall>p\<in>set ps. length p \<le> n" "padding_ok bop n ps"
  shows "bitop_sources bop n data ps
    = Some (map (\<lambda>i. foldl (\<lambda>a q. bit_fn bop a (byte_at q i)) (data ! i) ps) [0..<n])"
  using assms
proof (induction ps arbitrary: data)
  case Nil
  then show ?case by (auto intro: nth_equalityI)
next
  case (Cons p ps)
  have "bitop_source bop n data p = Some (map (\<lambda>i. bit_fn bop (data ! i) (byte_at p i)) [0..<n])"
    using Cons.prems by (intro bitop_source_combine) (auto simp: padding_ok_def)
  with Cons.prems Cons.IH [of "map (\<lambda>i. bit_fn bop (data ! i) (byte_at p i)) [0..<n]"]
  show ?case by (auto simp: padding_ok_def)
qed

lemma foldl_max: "foldl (\<lambda>n p. max (length p) n) k ps = Max (insert k (length ` set ps))"
proof (induction ps arbitrary: k)
  case (Cons p ps)
  then show ?case by (cases "ps = []") (simp_all add: max.left_commute max.commute)
qed simp

context kv_entry
begin

lemma bitop_dest_spec:
  assumes "bitop_args ex = Some (Some bop)" "srcs = p # ps" "padding_ok bop n ps"
    "n = Max (length ` set srcs)" "get_key_write K ex (x\<lparr>x_ival := int n\<rparr>) MD_STRING = Some (st, x1)"
    "x_ival x1 = int n" "bop = BIT_NOT_OP \<Longrightarrow> ps = []"
  shows "\<exists>stat x'. bitop_dest K ex srcs x = Some (stat, x')
    \<and> wrote K EXEC_SEND_INT st x1 stat x' (combine bop n p ps)
    \<and> (stat = EXEC_SEND_INT \<longrightarrow> x_ival x' = int n)"
proof -
  have n: "foldl (\<lambda>n p. max (length p) n) 0 srcs = n" "length p \<le> n" "\<forall>q\<in>set ps. length q \<le> n"
    using assms(2,4) by (auto simp: foldl_max)
  define z where "z = k_resize K n False x1"
  show ?thesis
  proof (cases "st = KEY_OK \<or> st = KEY_IS_NEW")
    case True
    show ?thesis
    proof (cases "x_kstatus z = KEY_OK")
      case ok: True
      then have len: "length (x_data K z) = n" by (simp add: z_def)
      define d where "d = map (byte_at p) [0..<n]"
      have d: "d = p @ replicate (n - length p) 0"
        by (rule nth_equalityI) (use n in \<open>auto simp: d_def byte_at_def nth_append\<close>)
      have 1: "mem_copy 0 p (x_data K z) = Some (p @ drop (length p) (x_data K z))" using n len by (simp add: mem_copy_in)
      have 2: "(if n - length p > 0 then mem_copy (length p) (replicate (n - length p) 0) (p @ drop (length p) (x_data K z))
          else Some (p @ drop (length p) (x_data K z))) = Some d"
        using n len by (auto simp: d mem_copy_in)
      have 3: "(if bop = BIT_NOT_OP then not_bits d n else Some d)
          = Some (if bop = BIT_NOT_OP then map NOT d else d)" (is "_ = Some ?e")
        by (simp add: not_bits_map d_def)
      have 4: "bitop_sources bop n ?e ps = Some (combine bop n p ps)"
        using n assms(3,7) bitop_sources_combine [of ?e n ps bop]
        by (auto simp: d_def combine_def Let_def)
      have "x_data K (put_data K z (combine bop n p ps)) = combine bop n p ps"
        by (rule data_put) (simp add: len combine_def)
      then show ?thesis using True ok n(1) assms(1,2,5,6) 1 2 3 4
        by (auto simp: bitop_dest_def Let_def z_def [symmetric] wrote_def stored_def) (simp_all add: z_def)
    next
      case False
      then show ?thesis using True n(1) assms(1,5)
        by (auto simp: bitop_dest_def Let_def z_def [symmetric] wrote_def stored_def)
    qed
  next
    case False
    then show ?thesis using n(1) assms(1,5) by (auto simp: bitop_dest_def Let_def wrote_def)
  qed
qed

end

section \<open>BITPOS\<close>

lemma bitpos_loop_spec:
  assumes "kv_bitops U" "q \<le> length data"
  shows "case bitpos_loop U True data p q of r \<Rightarrow>
    if r = - 1 then \<forall>k. 8 * p \<le> k \<and> k < 8 * q \<longrightarrow> \<not> data_bit data k
    else 8 * p \<le> nat r \<and> 0 \<le> r \<and> nat r < 8 * q \<and> data_bit data (nat r) \<and> (\<forall>k. 8 * p \<le> k \<and> k < nat r \<longrightarrow> \<not> data_bit data k)"
proof (induction "q - p" arbitrary: p rule: less_induct)
  case less
  show ?case
  proof (cases "p < q")
    case True
    define z where "z = (if q - p \<ge> 8 then 8 else if q - p \<ge> 4 then 4 else if q - p \<ge> 2 then 2 else 1 :: nat)"
    have z: "0 < z" "p + z \<le> q" "z \<le> 8" using True by (auto simp: z_def)
    define w where "w = (load_le z (drop p data) :: u64)"
    have w: "bit w k \<longleftrightarrow> k < 8 * z \<and> data_bit data (8 * p + k)" for k
    proof -
      have "k div 8 < z \<longleftrightarrow> k < 8 * z" by auto
      moreover have "(8 * p + k) div 8 = p + k div 8" "(8 * p + k) mod 8 = k mod 8" by simp_all
      ultimately show ?thesis using z assms(2) by (auto simp: w_def bit_load_le data_bit_def)
    qed
    have unf: "bitpos_loop U True data p q = (if w \<noteq> 0 then
        (if p * 8 + kv_ctzl U w \<ge> length data * 8 then - 1 else int (p * 8 + kv_ctzl U w))
        else bitpos_loop U True data (p + z) q)"
      by (subst bitpos_loop.simps) (simp add: True Let_def z_def [symmetric] w_def [symmetric])
    show ?thesis
    proof (cases "w = 0")
      case True
      then have none: "\<not> data_bit data k" if "8 * p \<le> k" "k < 8 * (p + z)" for k
        using w [of "k - 8 * p"] that by auto
      have "q - (p + z) < q - p" using z by auto
      from less [OF this] show ?thesis
        using True none by (auto simp: unf Let_def split: if_splits) (meson not_le)+
    next
      case False
      let ?c = "kv_ctzl U w"
      have c: "bit w ?c" "\<And>k. k < ?c \<Longrightarrow> \<not> bit w k" using kv_bitops.ctzl [OF assms(1) False] by auto
      have "?c < 8 * z" "data_bit data (8 * p + ?c)" using c(1) w by auto
      moreover have "\<not> data_bit data k" if "8 * p \<le> k" "k < 8 * p + ?c" for k
        using c(2) [of "k - 8 * p"] w [of "k - 8 * p"] that \<open>?c < 8 * z\<close> by auto
      ultimately show ?thesis using False z assms(2) by (auto simp: unf mult.commute nat_add_distrib nat_mult_distrib)
    qed
  next
    case False
    then have "\<not> (8 * p \<le> k \<and> k < 8 * q)" for k by auto
    with False show ?thesis by (subst bitpos_loop.simps) auto
  qed
qed

section \<open>Properties\<close>

context kv_entry
begin

lemma exec_bitcount_spec:
  assumes "kv_bitops U" "opt_int ex 2 0 = Some s" "opt_int ex 3 (- 1) = Some e"
    "get_key_read K ex x MD_STRING = Some (KEY_OK, x1)" "op_value K (x_ent x1) = KEY_OK" "op_validate K (x_ent x1) = KEY_OK"
  defines "d \<equiv> x_data K x1"
  defines "part \<equiv> take (clip_len (length d) (end_point (length d) s) (end_point (length d) e))
      (drop (nat (clip_start (length d) (end_point (length d) s))) d)"
  shows "\<exists>stat x'. exec_bitcount U K ex x = Some (stat, x') \<and> x_ent x' = x_ent x1 \<and>
     (if d = [] then stat = EXEC_SEND_ZERO else stat = EXEC_SEND_INT \<and> x_ival x' = int (bits_set (counted part)))"
proof -
  have k: "x_kstatus (k_value K x1) = KEY_OK" "x_kstatus (k_validate K ((k_value K x1)\<lparr>x_ival := i\<rparr>)) = KEY_OK"
    "x_ent (k_validate K ((k_value K x1)\<lparr>x_ival := i\<rparr>)) = x_ent x1" "x_ent (k_value K x1) = x_ent x1" for i
    using assms(5,6) by (simp_all add: k_value_def k_validate_def)
  show ?thesis
    using assms(2-4) k by (simp add: exec_bitcount_def Let_def d_def [symmetric] part_def [symmetric] count_bits_counted [OF assms(1)])
qed

end

text \<open>BITCOUNT replies with the number of bits set in the bytes between its end points, clipped
  to the value, except that the last eight of those bytes are left out where their number is a
  multiple of eight: the word loop stops one word early and the tail then reads nothing.\<close>

theorem bitcount_counts:
  assumes "kv_entry K" "kv_bitops U" "opt_int ex 2 0 = Some s" "opt_int ex 3 (- 1) = Some e"
    "get_key_read K ex x MD_STRING = Some (KEY_OK, x1)" "op_value K (x_ent x1) = KEY_OK" "op_validate K (x_ent x1) = KEY_OK"
  defines "d \<equiv> x_data K x1"
  defines "part \<equiv> take (clip_len (length d) (end_point (length d) s) (end_point (length d) e))
      (drop (nat (clip_start (length d) (end_point (length d) s))) d)"
  shows "\<exists>stat x'. exec_bitcount U K ex x = Some (stat, x') \<and> x_ent x' = x_ent x1 \<and>
     (if d = [] then stat = EXEC_SEND_ZERO
      else stat = EXEC_SEND_INT \<and> x_ival x' =
        (if part \<noteq> [] \<and> length part mod 8 = 0 then int (bits_set (take (length part - 8) part)) else int (bits_set part)))"
proof -
  have "(if part \<noteq> [] \<and> length part mod 8 = 0 then int (bits_set (take (length part - 8) part)) else int (bits_set part))
      = int (bits_set (counted part))" by (simp add: counted_def)
  then show ?thesis using kv_entry.exec_bitcount_spec [OF assms(1-7)] unfolding d_def part_def by (simp only:)
qed

lemma eight_ones: "bits_set [1, 1, 1, 1, 1, 1, 1, 1, 1] = 9"
  by code_simp

theorem bitcount_counts_witness:
  "\<exists>x'. exec_bitcount int_str_util mem_ops (sample_read [''bitcount'', ''k'']) (sample_key [1, 1, 1, 1, 1, 1, 1, 1, 1]) = Some (EXEC_SEND_INT, x')
    \<and> x_ival x' = 9"
proof -
  let ?ex = "sample_read [''bitcount'', ''k'']" and ?d = "[1, 1, 1, 1, 1, 1, 1, 1, 1] :: byte list"
  have a: "opt_int ?ex 2 0 = Some 0" "opt_int ?ex 3 (- 1) = Some (- 1)"
    by (simp_all add: opt_int_def sample_read_def sample_exec_def)
  define x1 where "x1 = (sample_key ?d)\<lparr>x_flags := {EKF_IS_READ_ONLY}, x_type := MD_STRING\<rparr>"
  have d: "x_data mem_ops x1 = ?d" by (simp add: x1_def sample_simps)
  have f: "get_key_read mem_ops ?ex (sample_key ?d) MD_STRING = Some (KEY_OK, x1)" by (simp add: x1_def sample_simps)
  have part: "take (clip_len (length (x_data mem_ops x1)) (end_point (length (x_data mem_ops x1)) 0) (end_point (length (x_data mem_ops x1)) (- 1)))
      (drop (nat (clip_start (length (x_data mem_ops x1)) (end_point (length (x_data mem_ops x1)) 0))) (x_data mem_ops x1)) = ?d"
    unfolding d by code_simp
  show ?thesis
    using bitcount_counts [OF mem.kv_entry_axioms bits.kv_bitops_axioms a f mem_always(1,2)] unfolding part
    by (auto simp: d eight_ones)
qed

text \<open>A string of eight bytes counts as empty.\<close>

lemma bitcount_of_eight: "count_bits int_str_util [1, 1, 1, 1, 1, 1, 1, 1] = 0"
  using count_bits_counted [OF bits.kv_bitops_axioms, of "[1, 1, 1, 1, 1, 1, 1, 1]"] by (simp add: counted_def bits_set_def)

text \<open>BITOP. The destination holds, byte for byte, the operation applied to the sources in order,
  shorter ones padded with zeros, and the reply is the length of the longest; XOR only if no source
  behind the first is shorter than that. Word, half word and byte steps agree.\<close>

theorem bitop_combines:
  assumes "kv_entry K" "bitop_args ex = Some (Some bop)" "srcs = p # ps" "padding_ok bop n ps"
    "n = Max (length ` set srcs)" "get_key_write K ex (x\<lparr>x_ival := int n\<rparr>) MD_STRING = Some (st, x1)"
    "x_ival x1 = int n" "bop = BIT_NOT_OP \<Longrightarrow> ps = []"
  shows "\<exists>stat x'. bitop_dest K ex srcs x = Some (stat, x')
    \<and> wrote K EXEC_SEND_INT st x1 stat x' (combine bop n p ps)
    \<and> (stat = EXEC_SEND_INT \<longrightarrow> x_ival x' = int n)"
  by (rule kv_entry.bitop_dest_spec [OF assms])

theorem bitop_combines_witness:
  "\<exists>stat x'. bitop_dest mem_ops (sample_write [''bitop'', ''or'', ''k'', ''a'', ''b'']) [[1, 2], [4]] (sample_key [9]) = Some (stat, x')
    \<and> stored mem_ops EXEC_SEND_INT stat x' [5, 2]"
proof -
  let ?ex = "sample_write [''bitop'', ''or'', ''k'', ''a'', ''b'']"
  have a: "bitop_args ?ex = Some (Some BIT_OR_OP)" by code_simp
  have "combine BIT_OR_OP 2 [1, 2] [[4]] = [5, 2]" by code_simp
  moreover have "Max (length ` set [[1, 2], [4 :: byte]]) = 2" by simp
  moreover have "padding_ok BIT_OR_OP k xs" for k xs by (simp add: padding_ok_def)
  ultimately show ?thesis
    using bitop_combines [OF mem.kv_entry_axioms a, of "[[1, 2], [4]]" "[1, 2]" "[[4]]" 2 "sample_key [9]" KEY_OK
        "(sample_key [9])\<lparr>x_ival := 2, x_type := MD_STRING\<rparr>"]
    by (auto simp: sample_simps wrote_def)
qed

text \<open>XOR with a short source flips what is behind it.\<close>

lemma bitop_xor_short: "bitop_source BIT_XOR_OP 2 [1, 2] [1] = Some [0, 253]"
  by code_simp

text \<open>BITPOS for a one. The search over words, half words and bytes stops at the first bit that
  is set between the start byte and the end byte, or says there is none; it stays inside the value.\<close>

theorem bitpos_finds_one:
  assumes "kv_bitops U" "q \<le> length data"
  shows "case bitpos_loop U True data p q of r \<Rightarrow>
    if r = - 1 then \<forall>k. 8 * p \<le> k \<and> k < 8 * q \<longrightarrow> \<not> data_bit data k
    else 8 * p \<le> nat r \<and> 0 \<le> r \<and> nat r < 8 * q \<and> data_bit data (nat r)
      \<and> (\<forall>k. 8 * p \<le> k \<and> k < nat r \<longrightarrow> \<not> data_bit data k)"
  by (rule bitpos_loop_spec [OF assms])

lemma bitpos_hit:
  assumes "w = (load_le z (drop p data) :: u64)" "z = (if q - p \<ge> 8 then 8 else if q - p \<ge> 4 then 4 else if q - p \<ge> 2 then 2 else 1)"
    "p < q" "bit (if b then w else NOT w) n" "\<And>k. k < n \<Longrightarrow> \<not> bit (if b then w else NOT w) k" "p * 8 + n < length data * 8"
  shows "bitpos_loop int_str_util b data p q = int (p * 8 + n)"
proof -
  have "kv_ctzl int_str_util (if b then w else NOT w) = n" by (rule bits.ctzl_eqI [OF assms(4,5)])
  moreover have "(if b then w else NOT w) \<noteq> 0" using assms(4) by (metis bit_0_eq bot_apply bot_bool_def)
  ultimately show ?thesis using assms(3,6)
    by (subst bitpos_loop.simps) (simp only: Let_def assms(1,2) [symmetric] if_True, simp add: not_le)
qed

theorem bitpos_finds_one_witness:
  "bitpos_loop int_str_util True [0, 0, 0, 0, 4] 1 5 = 34 \<and> data_bit [0, 0, 0, 0, 4] 34"
proof -
  have "bitpos_loop int_str_util True [0, 0, 0, 0, 4] 1 5 = int (1 * 8 + 26)"
  proof -
    have w: "(load_le 4 [0, 0, 0, 4] :: u64) = push_bit 26 1" by (simp add: load_le_def)
    show ?thesis
      by (rule bitpos_hit [where w = "push_bit 26 1" and z = 4]) (use w in \<open>simp_all add: bit_push_bit_iff del: push_bit_of_1\<close>)
  qed
  then show ?thesis
    using bitpos_finds_one [OF bits.kv_bitops_axioms, of 5 "[0, 0, 0, 0, 4]" 1] by simp
qed

text \<open>For a zero the bits above a short chunk count as zeros: five bytes of ones are taken to have one
  behind the first four.\<close>

lemma bitpos_zero_short: "bitpos_loop int_str_util False [255, 255, 255, 255, 255] 0 5 = 32 \<and> data_bit [255, 255, 255, 255, 255] 32"
proof -
  have w: "(load_le 4 [255, 255, 255, 255, 255] :: u64) = mask 32" by (simp add: load_le_def mask_eq_exp_minus_1)
  have "bitpos_loop int_str_util False [255, 255, 255, 255, 255] 0 5 = int (0 * 8 + 32)"
    by (rule bitpos_hit [where w = "mask 32" and z = 4]) (use w in \<open>simp_all add: bit_not_iff bit_mask_iff\<close>)
  then show ?thesis by (simp add: data_bit_def)
qed

end
