(* ===== verification/Redis_Bitfield.thy ===== *)
theory Redis_Bitfield
  imports Redis_Bits
begin

text \<open>
  BITFIELD of \<open>src/redis_string.cpp\<close> over the 72 bit word of \<open>include/raids/redis_bitfield.h\<close>: the
  parser of its arguments, the access to the key, and each operation on the data.
\<close>

section \<open>BITFIELD\<close>

datatype bitfield_op = OP_GET | OP_SET | OP_INCRBY
datatype bitfield_over = OV_WRAP | OV_SAT | OV_FAIL

record bitfield =
  bf_off :: u64
  bf_val :: int
  bf_width :: nat
  bf_char :: byte
  bf_op :: bitfield_op
  bf_overflow :: bitfield_over

text \<open>A word of 72 bits: eight bytes that are read as a number, and one more. A shift count of 64
  is taken modulo 64.\<close>

record int72 =
  i_ival :: u64
  i_b8 :: byte

definition i72_of :: "u64 \<Rightarrow> int72" where
  "i72_of v = \<lparr>i_ival = v, i_b8 = 0\<rparr>"

definition i72_put :: "int72 \<Rightarrow> nat \<Rightarrow> byte \<Rightarrow> int72" where
  "i72_put v j b =
     (if j = 8 then v\<lparr>i_b8 := b\<rparr>
      else v\<lparr>i_ival := (i_ival v AND NOT (push_bit (8 * j) 0xff)) OR push_bit (8 * j) (ucast b)\<rparr>)"

definition i72_get :: "int72 \<Rightarrow> nat \<Rightarrow> byte" where
  "i72_get v j = (if j = 8 then i_b8 v else ucast (drop_bit (8 * j) (i_ival v)))"

definition i72_shl :: "int72 \<Rightarrow> nat \<Rightarrow> int72" where
  "i72_shl v i =
     (let tmp = drop_bit ((64 - i) mod 64) (i_ival v);
          tmp2 = (if i < 8 then tmp OR push_bit i (ucast (i_b8 v)) else tmp) in
      \<lparr>i_ival = push_bit i (i_ival v), i_b8 = ucast tmp2\<rparr>)"

definition i72_shr :: "int72 \<Rightarrow> nat \<Rightarrow> int72" where
  "i72_shr v i = \<lparr>i_ival = drop_bit i (i_ival v) OR push_bit ((64 - i) mod 64) (ucast (i_b8 v)), i_b8 = drop_bit i (i_b8 v)\<rparr>"

definition i72_or :: "int72 \<Rightarrow> int72 \<Rightarrow> int72" where
  "i72_or v w = \<lparr>i_ival = i_ival v OR i_ival w, i_b8 = i_b8 v OR i_b8 w\<rparr>"

definition i72_and :: "int72 \<Rightarrow> int72 \<Rightarrow> int72" where
  "i72_and v w = \<lparr>i_ival = i_ival v AND i_ival w, i_b8 = i_b8 v AND i_b8 w\<rparr>"

definition i72_and_u64 :: "int72 \<Rightarrow> u64 \<Rightarrow> int72" where
  "i72_and_u64 v w = \<lparr>i_ival = i_ival v AND w, i_b8 = 0\<rparr>"

definition i72_not :: "int72 \<Rightarrow> int72" where
  "i72_not v = \<lparr>i_ival = NOT (i_ival v), i_b8 = NOT (i_b8 v)\<rparr>"

subsection \<open>The arguments\<close>

text \<open>\<open>None\<close> inside: the arguments are wrong. The parser's status is not kept: no reply of the
  command reads it.\<close>

definition overflow_arg :: "redis_exec \<Rightarrow> nat \<Rightarrow> bitfield_over \<Rightarrow> (bitfield_over \<times> nat) option option" where
  "overflow_arg ex i dflt = do {
     n \<leftarrow> match_arg (ex_msg ex) i [ascii ''overflow''];
     if n = 1 then do {
       over \<leftarrow> match_arg (ex_msg ex) (i + 1) [ascii ''wrap'', ascii ''sat'', ascii ''fail''];
       Some (if over = 0 then None
         else Some (if over = 1 then OV_WRAP else if over = 2 then OV_SAT else OV_FAIL, i + 2)) }
     else Some (Some (dflt, i)) }"

text \<open>The type, a letter and a width, and the offset, a bit number or with \<open>#\<close> an element number.\<close>

definition type_arg :: "redis_exec \<Rightarrow> nat \<Rightarrow> (byte \<times> nat) option" where
  "type_arg ex i =
     (case get_arg_str (ex_msg ex) i of None \<Rightarrow> None
      | Some ty \<Rightarrow>
        if length ty < 2 then None
        else (case string_to_int (tl ty) of Inl e \<Rightarrow> None
          | Inr v \<Rightarrow>
            if to_upper (hd ty) = of_char CHR ''I'' then
              (if v < 2 \<or> v > 64 then None else Some (to_upper (hd ty), nat v))
            else if to_upper (hd ty) = of_char CHR ''U'' then
              (if v < 1 \<or> v > 63 then None else Some (to_upper (hd ty), nat v))
            else None))"

definition offset_arg :: "redis_exec \<Rightarrow> nat \<Rightarrow> nat \<Rightarrow> u64 option" where
  "offset_arg ex i width =
     (case get_arg_str (ex_msg ex) i of None \<Rightarrow> None
      | Some off \<Rightarrow>
        if hd off = of_char CHR ''#'' then
          (case string_to_int (tl off) of Inl e \<Rightarrow> None | Inr v \<Rightarrow> Some (of_int v * of_nat width))
        else (case string_to_int off of Inl e \<Rightarrow> None | Inr v \<Rightarrow> Some (of_int v)))"

definition bitfield_arg :: "redis_exec \<Rightarrow> nat \<Rightarrow> (bitfield \<times> nat) option option" where
  "bitfield_arg ex i0 = do {
     ov \<leftarrow> overflow_arg ex i0 OV_WRAP;
     (case ov of None \<Rightarrow> Some None
      | Some (over, i) \<Rightarrow>
        (case type_arg ex (i + 1) of None \<Rightarrow> Some None
         | Some (tchar, width) \<Rightarrow>
           (case offset_arg ex (i + 2) width of None \<Rightarrow> Some None
            | Some off \<Rightarrow> do {
              n \<leftarrow> match_arg (ex_msg ex) i [ascii ''get'', ascii ''set'', ascii ''incrby''];
              let field = (\<lambda>v bop ovf. \<lparr>bf_off = off, bf_val = v, bf_width = width, bf_char = tchar,
                bf_op = bop, bf_overflow = ovf\<rparr>);
              if n = 1 then Some (Some (field 0 OP_GET over, i + 3))
              else if n = 2 then
                Some (map_option (\<lambda>v. (field v OP_SET over, i + 4)) (get_arg_int (ex_msg ex) (i + 3)))
              else if n = 3 then
                (case get_arg_int (ex_msg ex) (i + 3) of None \<Rightarrow> Some None
                 | Some v \<Rightarrow> do {
                   ov2 \<leftarrow> overflow_arg ex (i + 4) over;
                   Some (map_option (\<lambda>(ovf, i'). (field v OP_INCRBY ovf, i')) ov2) })
              else Some None }))) }"

lemma overflow_arg_ge: "overflow_arg ex i d = Some (Some (ov, j)) \<Longrightarrow> i \<le> j"
  by (auto simp: overflow_arg_def bind_eq_Some_conv split: if_splits)

text \<open>An operation takes at least three arguments of the message, which bounds the loop.\<close>

lemma match_arg_inside: "match_arg m i alts = Some n \<Longrightarrow> n \<noteq> 0 \<Longrightarrow> int i < msg_len m"
  by (auto simp: match_arg_def split: if_splits)

lemma bitfield_arg_inside:
  assumes "bitfield_arg ex i = Some (Some (bf, j))"
  shows "i < j \<and> int i < msg_len (ex_msg ex)"
proof -
  obtain ov where ov: "overflow_arg ex i OV_WRAP = Some ov"
    using assms by (auto simp: bitfield_arg_def bind_eq_Some_conv)
  with assms obtain over k where k: "ov = Some (over, k)" by (cases ov) (auto simp: bitfield_arg_def)
  with assms ov obtain tc w where t: "type_arg ex (k + 1) = Some (tc, w)"
    by (cases "type_arg ex (k + 1)") (auto simp: bitfield_arg_def)
  with assms ov k obtain off where off: "offset_arg ex (k + 2) w = Some off"
    by (cases "offset_arg ex (k + 2) w") (auto simp: bitfield_arg_def)
  define alts where "alts = [ascii ''get'', ascii ''set'', ascii ''incrby'']"
  from assms ov k t off obtain n where n: "match_arg (ex_msg ex) k alts = Some n"
    by (cases "match_arg (ex_msg ex) k alts") (simp_all add: bitfield_arg_def alts_def)
  have "n \<noteq> 0" using assms ov k t off n by (cases "n = 0") (auto simp: bitfield_arg_def alts_def)
  have "k < j"
    using assms ov k t off n \<open>n \<noteq> 0\<close>
    by (auto simp: bitfield_arg_def alts_def Let_def bind_eq_Some_conv split: if_splits option.splits
        dest!: overflow_arg_ge)
  moreover have "i \<le> k" using ov k overflow_arg_ge by simp
  moreover have "int k < msg_len (ex_msg ex)" using match_arg_inside [OF n \<open>n \<noteq> 0\<close>] .
  ultimately show ?thesis by simp
qed

function bitfield_args :: "redis_exec \<Rightarrow> nat \<Rightarrow> u64 \<Rightarrow> (bitfield list \<times> u64) option option" where
  "bitfield_args ex i max_off =
     (case bitfield_arg ex i of None \<Rightarrow> None
      | Some None \<Rightarrow> Some None
      | Some (Some (bf, i')) \<Rightarrow>
        let type_end = bf_off bf + of_nat (bf_width bf);
            max_off' = (if bf_op bf \<noteq> OP_GET \<and> type_end > max_off then type_end else max_off) in
        if i' = argc ex then Some (Some ([bf], max_off'))
        else map_option (map_option (\<lambda>(bfs, m). (bf # bfs, m))) (bitfield_args ex i' max_off'))"
  by pat_completeness auto
termination
  by (relation "measure (\<lambda>(ex, i, m). nat (msg_len (ex_msg ex)) - i)")
    (auto dest!: bitfield_arg_inside)

declare bitfield_args.simps [simp del]

subsection \<open>One operation on the data\<close>

text \<open>The bytes from the one the field starts in, as long as the data and the field last.\<close>

function read_bits :: "byte list \<Rightarrow> nat \<Rightarrow> nat \<Rightarrow> nat \<Rightarrow> nat \<Rightarrow> int72 \<Rightarrow> int72 \<times> nat" where
  "read_bits data need off j w v =
     (if off < length data then
        let v' = i72_put v j (data ! off) in
        if j + 1 = 9 \<or> w + 8 \<ge> need then (v', off + 1)
        else read_bits data need (off + 1) (j + 1) (w + 8) v'
      else (v, off))"
  by pat_completeness auto
termination
  by (relation "measure (\<lambda>(data, need, off, j, w, v). length data - off)") auto

declare read_bits.simps [simp del]

function write_bits :: "byte list \<Rightarrow> nat \<Rightarrow> nat \<Rightarrow> nat \<Rightarrow> int72 \<Rightarrow> byte list" where
  "write_bits data start off j v =
     (if j < 9 \<and> start < off then write_bits (data[start := i72_get v j]) (start + 1) off (j + 1) v else data)"
  by pat_completeness auto
termination
  by (relation "measure (\<lambda>(data, start, off, j, v). 9 - j)") auto

declare write_bits.simps [simp del]

definition width_mask :: "nat \<Rightarrow> u64" where
  "width_mask width = (if width = 64 then - 1 else push_bit width 1 - 1)"

text \<open>The sum with the increment under the overflow mode, and whether it fails.\<close>

definition bitfield_incr :: "bitfield \<Rightarrow> u64 \<Rightarrow> u64 \<Rightarrow> u64 \<Rightarrow> u64 \<times> bool" where
  "bitfield_incr bf msk signb old =
     (let incr = bf_val bf; new_val = of_int incr + old; fails = (bf_overflow bf = OV_FAIL) in
      if bf_char bf = of_char CHR ''I'' then
        if bf_overflow bf = OV_WRAP then
          (if new_val AND signb = 0 then new_val AND msk else new_val OR NOT msk, False)
        else
          let max_val = msk div 2; min_val = - (msk div 2 + 1);
              max_diff = max_val - old; min_diff = old - min_val in
          if incr > 0 \<and> (of_int incr :: u64) > max_diff then (max_val, fails)
          else if incr < 0 \<and> (of_int (- incr) :: u64) > min_diff then (min_val, fails)
          else (new_val, False)
      else if bf_overflow bf = OV_WRAP then (new_val AND msk, False)
      else if incr > 0 \<and> new_val > msk then (msk, fails)
      else if incr < 0 \<and> sint new_val < 0 then (0, fails)
      else (new_val, False))"

definition bitfield_apply :: "kv_util \<Rightarrow> bitfield \<Rightarrow> byte list \<Rightarrow> byte list \<times> byte list" where
  "bitfield_apply U bf data =
     (let width = bf_width bf; msk = width_mask width; signb = drop_bit 1 msk + 1;
          start = unat (bf_off bf div 8); shift = unat (bf_off bf mod 8);
          (upd_val, off) = read_bits data (width + shift) start 0 0 (i72_of 0);
          old0 = i72_and_u64 (i72_shr upd_val shift) msk;
          old_val = (if bf_char bf = of_char CHR ''I'' \<and> i_ival old0 AND signb \<noteq> 0
                     then i72_or old0 (i72_not (i72_of msk)) else old0);
          (result, fail) = (if bf_op bf = OP_INCRBY then bitfield_incr bf msk signb (i_ival old_val)
                            else (i_ival old_val, False));
          newv = (if bf_op bf = OP_INCRBY then result else of_int (bf_val bf));
          data' = (if bf_op bf \<noteq> OP_GET \<and> \<not> fail then
              let keep = i72_and upd_val (i72_not (i72_shl (i72_of msk) shift)) in
              write_bits data start off 0 (i72_or keep (i72_shl (i72_of (newv AND msk)) shift))
            else data);
          reply = (if \<not> fail then [58] @
              (if bf_char bf = of_char CHR ''I'' then int64_to_string U (sint result) else uint64_to_string U (unat result))
            else ascii ''$-1'') in
      (data', reply @ crlf))"

fun bitfield_run :: "kv_util \<Rightarrow> bitfield list \<Rightarrow> byte list \<Rightarrow> byte list \<times> byte list" where
  "bitfield_run U [] data = (data, [])"
| "bitfield_run U (bf # bfs) data =
     (case bitfield_apply U bf data of (d, reply) \<Rightarrow>
      case bitfield_run U bfs d of (d', replies) \<Rightarrow> (d', reply @ replies))"

subsection \<open>The command\<close>

definition bitfield_grow :: "'e kv_ops \<Rightarrow> nat \<Rightarrow> nat \<Rightarrow> 'e xst \<Rightarrow> (exec_status option \<times> 'e xst) option" where
  "bitfield_grow K sz old_size x1 =
     (let x2 = k_resize K sz False x1 in do {
      x3 \<leftarrow> (if old_size < sz then
          if x_kstatus x2 = KEY_OK
          then map_option (put_data K x2) (mem_copy old_size (replicate (sz - old_size) 0) (x_data K x2))
          else None
        else Some x2);
      Some (if x_kstatus x2 = KEY_OK then (None, keyspace_string x3) else (Some ERR_KV_STATUS, x3)) })"

definition bitfield_access :: "'e kv_ops \<Rightarrow> redis_exec \<Rightarrow> u64 \<Rightarrow> 'e xst \<Rightarrow> (exec_status option \<times> byte list \<times> 'e xst) option" where
  "bitfield_access K ex max_off x =
     (if max_off > 0 then
        let sz = unat ((max_off + 7) AND NOT 7) div 8 in
        do {
          (st, x1) \<leftarrow> get_key_write K ex x MD_STRING;
          (err, x4) \<leftarrow> (case st of
              KEY_OK \<Rightarrow>
                let x2 = k_get_size K x1; old_size = length (x_data K x2) in
                if x_kstatus x2 = KEY_OK then bitfield_grow K (max sz old_size) old_size x2
                else Some (Some ERR_KV_STATUS, x2)
            | KEY_IS_NEW \<Rightarrow> bitfield_grow K sz 0 x1
            | KEY_NO_VALUE \<Rightarrow> Some (Some ERR_BAD_TYPE, x1)
            | _ \<Rightarrow> Some (Some ERR_KV_STATUS, x1));
          Some (err, x_data K x4, x4) }
      else do {
          (st, x1) \<leftarrow> get_key_read K ex x MD_STRING;
          (case st of
             KEY_OK \<Rightarrow>
               let x2 = k_value K x1 in
               Some (if x_kstatus x2 = KEY_OK then (None, x_data K x2, x2) else (Some ERR_KV_STATUS, [], x2))
           | KEY_NOT_FOUND \<Rightarrow> Some (None, [], x1)
           | KEY_NO_VALUE \<Rightarrow> Some (Some ERR_BAD_TYPE, [], x1)
           | _ \<Rightarrow> Some (Some ERR_KV_STATUS, [], x1)) })"

definition exec_bitfield :: "kv_util \<Rightarrow> 'e kv_ops \<Rightarrow> redis_exec \<Rightarrow> 'e xst \<Rightarrow> (exec_status \<times> 'e xst) option" where
  "exec_bitfield U K ex x =
     (if argc ex < 3 then Some (ERR_BAD_ARGS, x)
      else if \<not> x_strm_ok x then Some (ERR_ALLOC_FAIL, x)
      else do {
        args \<leftarrow> bitfield_args ex 2 0;
        (case args of None \<Rightarrow> Some (ERR_BAD_ARGS, x)
         | Some (bfs, max_off) \<Rightarrow> do {
           (err, data, x1) \<leftarrow> bitfield_access K ex max_off x;
           (case err of Some e \<Rightarrow> Some (e, x1)
            | None \<Rightarrow>
              let (data', replies) = bitfield_run U bfs data;
                  x2 = (if max_off > 0 then put_data K x1 data' else x1);
                  x3 = (if is_read_only x2 then k_validate K x2 else x2) in
              if is_read_only x2 \<and> x_kstatus x3 \<noteq> KEY_OK then Some (ERR_KV_STATUS, x3)
              else Some (EXEC_OK, send ([42] @ uint64_to_string U (length bfs) @ crlf @ replies) x3)) }) })"

subsection \<open>The bits of the wide word\<close>

definition i72_bit :: "int72 \<Rightarrow> nat \<Rightarrow> bool" where
  "i72_bit v k \<longleftrightarrow> (if k < 64 then bit (i_ival v) k else bit (i_b8 v) (k - 64))"

lemma bit_ff: "bit (0xff :: u64) n \<longleftrightarrow> n < 8" "bit (0xff :: int) n \<longleftrightarrow> n < 8" "bit (0xff :: nat) n \<longleftrightarrow> n < 8"
proof -
  have 1: "(0xff :: u64) = mask 8" by (simp add: mask_eq_exp_minus_1)
  have "bit (0xff :: u64) n \<longleftrightarrow> bit (mask 8 :: u64) n" by (simp only: 1)
  then show "bit (0xff :: u64) n \<longleftrightarrow> n < 8" by (auto simp: bit_mask_iff)
  have 2: "(0xff :: int) = mask 8" by (simp add: mask_eq_exp_minus_1)
  have "bit (0xff :: int) n \<longleftrightarrow> bit (mask 8 :: int) n" by (simp only: 2)
  then show "bit (0xff :: int) n \<longleftrightarrow> n < 8" by (simp add: bit_mask_iff)
  have 3: "(0xff :: nat) = mask 8" by (simp add: mask_eq_exp_minus_1)
  have "bit (0xff :: nat) n \<longleftrightarrow> bit (mask 8 :: nat) n" by (simp only: 3)
  then show "bit (0xff :: nat) n \<longleftrightarrow> n < 8" by (simp add: bit_mask_iff)
qed

lemma i72_bit_of: "i72_bit (i72_of v) k \<longleftrightarrow> k < 64 \<and> bit v k"
  by (simp add: i72_bit_def i72_of_def)

lemma i72_bit_put:
  assumes "j \<le> 8" "k < 72"
  shows "i72_bit (i72_put v j b) k \<longleftrightarrow> (if k div 8 = j then bit b (k mod 8) else i72_bit v k)"
proof (cases "j = 8")
  case True
  then have "k div 8 = j \<longleftrightarrow> 64 \<le> k" using assms(2) by auto
  moreover have "64 \<le> k \<Longrightarrow> k mod 8 = k - 64" using assms(2) by (simp add: mod_if)
  ultimately show ?thesis using True by (auto simp: i72_bit_def i72_put_def)
next
  case False
  have "8 * j \<le> k \<and> k - 8 * j < 8 \<longleftrightarrow> k div 8 = j" by auto
  moreover have "k div 8 = j \<Longrightarrow> k mod 8 = k - 8 * j" by (simp add: minus_div_mult_eq_mod [symmetric] mult.commute)
  moreover have "k < 64 \<or> k div 8 = 8" using assms(2) by auto
  ultimately show ?thesis using False assms(1)
    by (auto simp: i72_bit_def i72_put_def bit_push_bit_iff bit_and_iff bit_or_iff bit_not_iff bit_unsigned_iff bit_ff
        dest: bit_imp_le_length)
qed

lemma i72_bit_get: "j \<le> 8 \<Longrightarrow> n < 8 \<Longrightarrow> bit (i72_get v j) n \<longleftrightarrow> i72_bit v (8 * j + n)"
  by (cases "j = 8") (auto simp: i72_get_def i72_bit_def bit_simps)

lemma i72_bit_ops:
  "k < 72 \<Longrightarrow> i72_bit (i72_and v w) k \<longleftrightarrow> i72_bit v k \<and> i72_bit w k"
  "k < 72 \<Longrightarrow> i72_bit (i72_or v w) k \<longleftrightarrow> i72_bit v k \<or> i72_bit w k"
  "k < 72 \<Longrightarrow> i72_bit (i72_not v) k \<longleftrightarrow> \<not> i72_bit v k"
  "i72_bit (i72_and_u64 v m) k \<longleftrightarrow> k < 64 \<and> bit (i_ival v) k \<and> bit m k"
  by (auto simp: i72_bit_def i72_and_def i72_or_def i72_not_def i72_and_u64_def bit_simps)

text \<open>The shift by nothing leaves the ninth byte undefined; it is not looked at then.\<close>

lemma i72_bit_shl:
  assumes "s < 8" "k < 72" "k < 64 \<or> 0 < s"
  shows "i72_bit (i72_shl (i72_of m) s) k \<longleftrightarrow> s \<le> k \<and> k - s < 64 \<and> bit m (k - s)"
proof (cases "k < 64")
  case True
  then show ?thesis by (auto simp: i72_bit_def i72_shl_def i72_of_def Let_def bit_simps)
next
  case False
  then have s: "0 < s" "(64 - s) mod 64 = 64 - s" "64 - s + (k - 64) = k - s" using assms by auto
  then show ?thesis using False assms
    by (auto simp: i72_bit_def i72_shl_def i72_of_def Let_def bit_simps dest: bit_imp_le_length)
qed

lemma i72_ival_shr:
  assumes "s < 8" "k < 64" "s = 0 \<Longrightarrow> i_b8 v = 0"
  shows "bit (i_ival (i72_shr v s)) k \<longleftrightarrow> i72_bit v (k + s)"
proof (cases "s = 0")
  case True
  then show ?thesis using assms by (simp add: i72_shr_def i72_bit_def bit_simps)
next
  case False
  then have "(64 - s) mod 64 = 64 - s" by simp
  then show ?thesis using assms False
    by (auto simp: i72_shr_def i72_bit_def bit_simps add.commute dest: bit_imp_le_length)
qed

subsection \<open>The bytes of a field\<close>

definition bytes_of_bits :: "nat \<Rightarrow> nat" where
  "bytes_of_bits n = (n + 7) div 8"

lemma read_bits_spec:
  assumes "off + m \<le> length data" "w = 8 * j" "need \<le> w + 8 * m" "w + 8 * m < need + 8" "j + m \<le> 9" "0 < m"
    "\<And>k. k < 72 \<Longrightarrow> i72_bit v k \<longleftrightarrow> k < 8 * j \<and> P k"
  shows "\<exists>v'. read_bits data need off j w v = (v', off + m)
    \<and> (\<forall>k<72. i72_bit v' k \<longleftrightarrow> (if k < 8 * j then P k else k < 8 * (j + m) \<and> data_bit data (8 * off + (k - 8 * j))))"
  using assms
proof (induction m arbitrary: off j w v P)
  case (Suc m)
  define v1 where "v1 = i72_put v j (data ! off)"
  have off: "off < length data" using Suc.prems(1) by simp
  have v1: "i72_bit v1 k \<longleftrightarrow> k < 8 * (j + 1) \<and> (if k < 8 * j then P k else data_bit data (8 * off + (k - 8 * j)))"
    if "k < 72" for k
  proof -
    have j: "j \<le> 8" using Suc.prems(5) by simp
    have "k div 8 = j \<longleftrightarrow> 8 * j \<le> k \<and> k < 8 * (j + 1)" by auto
    moreover have "8 * j \<le> k \<Longrightarrow> k < 8 * (j + 1) \<Longrightarrow> (8 * off + (k - 8 * j)) div 8 = off \<and> (8 * off + (k - 8 * j)) mod 8 = k mod 8"
    proof -
      assume k: "8 * j \<le> k" "k < 8 * (j + 1)"
      then obtain i where "k = 8 * j + i" "i < 8" by (metis add_mult_distrib2 le_add_diff_inverse nat_add_left_cancel_less nat_mult_1_right)
      then show ?thesis by simp
    qed
    ultimately show ?thesis using i72_bit_put [OF j that, of v "data ! off"] Suc.prems(7) [OF that] off
      by (auto simp: v1_def data_bit_def)
  qed
  have unf: "read_bits data need off j w v
      = (if j + 1 = 9 \<or> w + 8 \<ge> need then (v1, off + 1) else read_bits data need (off + 1) (j + 1) (w + 8) v1)"
    by (subst read_bits.simps) (simp add: off Let_def v1_def)
  show ?case
  proof (cases "m = 0")
    case True
    then have "w + 8 \<ge> need" using Suc.prems(3) by simp
    then show ?thesis using v1 True by (auto simp: unf)
  next
    case False
    have "\<not> (j + 1 = 9 \<or> w + 8 \<ge> need)" using Suc.prems False by auto
    moreover have "\<exists>v'. read_bits data need (off + 1) (j + 1) (w + 8) v1 = (v', (off + 1) + m)
      \<and> (\<forall>k<72. i72_bit v' k \<longleftrightarrow> (if k < 8 * (j + 1) then (if k < 8 * j then P k else data_bit data (8 * off + (k - 8 * j)))
            else k < 8 * (j + 1 + m) \<and> data_bit data (8 * (off + 1) + (k - 8 * (j + 1)))))"
      by (rule Suc.IH) (use Suc.prems False v1 in auto)
    moreover have "8 * (off + 1) + (k - 8 * (j + 1)) = 8 * off + (k - 8 * j)" if "\<not> k < 8 * (j + 1)" for k
      using that by simp
    ultimately show ?thesis by (auto simp: unf)
  qed
qed simp

lemma write_bits_spec:
  assumes "off \<le> length data" "off - start + j \<le> 9"
  shows "length (write_bits data start off j v) = length data
    \<and> (\<forall>k. data_bit (write_bits data start off j v) k
         \<longleftrightarrow> (if 8 * start \<le> k \<and> k < 8 * off then i72_bit v (8 * j + (k - 8 * start)) else data_bit data k))"
  using assms
proof (induction "off - start" arbitrary: data start j)
  case 0
  then show ?case by (subst write_bits.simps, subst write_bits.simps) auto
next
  case (Suc n)
  define d where "d = data[start := i72_get v j]"
  have j: "j < 9" "start < off" using Suc.hyps(2) Suc.prems by auto
  have unf: "write_bits data start off j v = write_bits d (start + 1) off (j + 1) v"
    by (subst write_bits.simps) (simp add: j d_def)
  have ih: "length (write_bits d (start + 1) off (j + 1) v) = length d
    \<and> (\<forall>k. data_bit (write_bits d (start + 1) off (j + 1) v) k
         \<longleftrightarrow> (if 8 * (start + 1) \<le> k \<and> k < 8 * off then i72_bit v (8 * (j + 1) + (k - 8 * (start + 1))) else data_bit d k))"
    by (rule Suc.hyps(1)) (use Suc.hyps(2) Suc.prems in \<open>auto simp: d_def\<close>)
  have db: "data_bit d k \<longleftrightarrow> (if k div 8 = start then i72_bit v (8 * j + k mod 8) else data_bit data k)" for k
    using j Suc.prems(1) i72_bit_get [of j "k mod 8" v] by (auto simp: d_def data_bit_def nth_list_update)
  have "8 * (j + 1) + (k - 8 * (start + 1)) = 8 * j + (k - 8 * start)" if "8 * (start + 1) \<le> k" for k using that by simp
  moreover have "k div 8 = start \<longleftrightarrow> 8 * start \<le> k \<and> k < 8 * (start + 1)" for k by auto
  moreover have "k div 8 = start \<Longrightarrow> k mod 8 = k - 8 * start" for k
    by (simp add: minus_div_mult_eq_mod [symmetric] mult.commute)
  ultimately show ?case using ih j unfolding unf by (auto simp: db) (simp add: d_def)
qed

subsection \<open>Fields\<close>

text \<open>The number in a field: the bits of the data from \<open>off\<close> on, signed fields extended.\<close>

definition field_is :: "byte list \<Rightarrow> nat \<Rightarrow> nat \<Rightarrow> bool \<Rightarrow> u64 \<Rightarrow> bool" where
  "field_is data off w sg v \<longleftrightarrow>
     (\<forall>k<64. bit v k \<longleftrightarrow> (if k < w then data_bit data (off + k) else sg \<and> data_bit data (off + w - 1)))"

lemma bit_width_mask: "w \<le> 64 \<Longrightarrow> bit (width_mask w) k \<longleftrightarrow> k < w"
proof (cases "w = 64")
  case True
  then show ?thesis by (auto simp: width_mask_def dest: bit_imp_le_length)
next
  case False
  assume "w \<le> 64"
  moreover have "push_bit w 1 - 1 = (mask w :: u64)" by (simp add: mask_eq_exp_minus_1 push_bit_eq_mult)
  ultimately show ?thesis using False by (auto simp: width_mask_def bit_mask_iff)
qed

lemma sign_bit:
  assumes "0 < w" "w \<le> 64"
  shows "drop_bit 1 (width_mask w) + 1 = push_bit (w - 1) (1 :: u64)"
proof -
  have "drop_bit 1 (width_mask w) = mask (w - 1)"
    using assms by (auto simp: bit_eq_iff bit_drop_bit_eq bit_width_mask bit_mask_iff)
  then show ?thesis by (simp add: mask_eq_exp_minus_1 push_bit_eq_mult)
qed

lemma test_sign: "k < 64 \<Longrightarrow> (v AND push_bit k 1 \<noteq> (0 :: u64)) \<longleftrightarrow> bit v k"
  by (simp add: and_exp_eq_0_iff_not_bit push_bit_eq_mult)

definition in_data :: "bitfield \<Rightarrow> byte list \<Rightarrow> bool" where
  "in_data bf data \<longleftrightarrow> 0 < bf_width bf \<and> bf_width bf \<le> 64 \<and> unat (bf_off bf) + bf_width bf \<le> 8 * length data"

text \<open>The bytes a field reads, the value it has, and what writing the field back changes; the field
  starts at bit \<open>r\<close> of byte \<open>d\<close>.\<close>

lemma field_read:
  assumes "in_data bf data" "unat (bf_off bf) = 8 * d + r" "r < 8"
  defines "w \<equiv> bf_width bf"
  obtains upd m where
    "read_bits data (w + r) d 0 0 (i72_of 0) = (upd, d + m)"
    "d + m \<le> length data" "m \<le> 9" "w + r \<le> 8 * m" "r = 0 \<Longrightarrow> m \<le> 8"
    "\<And>k. k < 72 \<Longrightarrow> i72_bit upd k \<longleftrightarrow> k < 8 * m \<and> data_bit data (8 * d + k)"
proof -
  define m where "m = (w + r + 7) div 8"
  have w: "0 < w" "w \<le> 64" "8 * d + r + w \<le> 8 * length data" using assms by (simp_all add: in_data_def)
  have m: "w + r \<le> 8 * m" "8 * m < w + r + 8" unfolding m_def by linarith+
  have 1: "d + m \<le> length data" "m \<le> 9" "0 < m" using m w assms(3) by linarith+
  have 2: "m \<le> 8" if "r = 0" using m w that by linarith
  have "\<exists>v'. read_bits data (w + r) d 0 0 (i72_of 0) = (v', d + m)
    \<and> (\<forall>k<72. i72_bit v' k \<longleftrightarrow> (if k < 8 * 0 then False else k < 8 * (0 + m) \<and> data_bit data (8 * d + (k - 8 * 0))))"
    by (rule read_bits_spec [where P = "\<lambda>_. False"]) (use 1 m in \<open>auto simp: i72_bit_of\<close>)
  then obtain v' where "read_bits data (w + r) d 0 0 (i72_of 0) = (v', d + m)"
    "\<And>k. k < 72 \<Longrightarrow> i72_bit v' k \<longleftrightarrow> k < 8 * m \<and> data_bit data (8 * d + k)" by auto
  from that [OF this(1) 1(1,2) m(1) 2 this(2)] show thesis by simp
qed

lemma field_value:
  assumes "in_data bf data" "unat (bf_off bf) = 8 * d + r" "r < 8"
  defines "w \<equiv> bf_width bf"
  assumes rd: "m \<le> 9" "w + r \<le> 8 * m" "r = 0 \<Longrightarrow> m \<le> 8"
    "\<And>k. k < 72 \<Longrightarrow> i72_bit upd k \<longleftrightarrow> k < 8 * m \<and> data_bit data (8 * d + k)"
  defines "old0 \<equiv> i72_and_u64 (i72_shr upd r) (width_mask w)"
  shows "field_is data (8 * d + r) w sg (i_ival (if sg \<and> i_ival old0 AND (drop_bit 1 (width_mask w) + 1) \<noteq> 0
      then i72_or old0 (i72_not (i72_of (width_mask w))) else old0))" (is "field_is _ _ _ _ (i_ival ?old)")
proof -
  have w: "0 < w" "w \<le> 64" using assms(1) by (simp_all add: in_data_def w_def)
  have b8: "i_b8 upd = 0" if "r = 0"
  proof (rule bit_word_eqI)
    fix n assume "n < LENGTH(8)"
    then show "bit (i_b8 upd) n \<longleftrightarrow> bit 0 n" using rd(3) [OF that] rd(4) [of "64 + n"] by (simp add: i72_bit_def)
  qed
  have old0: "bit (i_ival old0) k \<longleftrightarrow> k < w \<and> data_bit data (8 * d + r + k)" if "k < 64" for k
  proof -
    have "bit (i_ival (i72_shr upd r)) k \<longleftrightarrow> i72_bit upd (k + r)"
      by (rule i72_ival_shr) (use assms(3) that b8 in auto)
    moreover have "k < w \<Longrightarrow> k + r < 8 * m" using rd(2) by linarith
    moreover have "8 * d + (k + r) = 8 * d + r + k" by simp
    ultimately show ?thesis using rd(4) [of "k + r"] that assms(3) w
      by (simp add: old0_def i72_and_u64_def bit_and_iff bit_width_mask) auto
  qed
  have sgn: "i_ival old0 AND (drop_bit 1 (width_mask w) + 1) \<noteq> 0 \<longleftrightarrow> data_bit data (8 * d + r + w - 1)"
    using w old0 [of "w - 1"] by (subst sign_bit [OF w], subst test_sign) auto
  have "bit (i_ival ?old) k \<longleftrightarrow> (if k < w then data_bit data (8 * d + r + k) else sg \<and> data_bit data (8 * d + r + w - 1))"
    if "k < 64" for k
    unfolding sgn using old0 [OF that] that w
    by (auto simp: i72_or_def i72_not_def i72_of_def bit_or_iff bit_not_iff bit_width_mask)
  then show ?thesis by (simp add: field_is_def)
qed

lemma field_write:
  fixes v :: u64
  assumes "in_data bf data" "unat (bf_off bf) = 8 * d + r" "r < 8"
  defines "w \<equiv> bf_width bf"
  assumes rd: "d + m \<le> length data" "m \<le> 9" "w + r \<le> 8 * m" "r = 0 \<Longrightarrow> m \<le> 8"
    "\<And>k. k < 72 \<Longrightarrow> i72_bit upd k \<longleftrightarrow> k < 8 * m \<and> data_bit data (8 * d + k)"
  defines "new \<equiv> i72_or (i72_and upd (i72_not (i72_shl (i72_of (width_mask w)) r))) (i72_shl (i72_of (v AND width_mask w)) r)"
  defines "data' \<equiv> write_bits data d (d + m) 0 new"
  shows "length data' = length data"
    "data_bit data' n \<longleftrightarrow> (if 8 * d + r \<le> n \<and> n < 8 * d + r + w then bit v (n - (8 * d + r)) else data_bit data n)"
proof -
  have w: "0 < w" "w \<le> 64" using assms(1) by (simp_all add: in_data_def w_def)
  have new: "i72_bit new k \<longleftrightarrow> (if r \<le> k \<and> k < r + w then bit v (k - r) else i72_bit upd k)"
    if "k < 8 * m" for k
  proof -
    have k: "k < 72" "k < 64 \<or> 0 < r" using that rd(2,4) by auto
    have s: "i72_bit (i72_shl (i72_of u) r) k \<longleftrightarrow> r \<le> k \<and> k - r < 64 \<and> bit u (k - r)" for u
      by (rule i72_bit_shl) (use assms(3) k in auto)
    have e: "r \<le> k \<and> k - r < w \<longleftrightarrow> r \<le> k \<and> k < r + w" by auto
    have "i72_bit new k \<longleftrightarrow> i72_bit upd k \<and> \<not> (r \<le> k \<and> k - r < w) \<or> (r \<le> k \<and> k - r < w) \<and> bit v (k - r)"
      using k(1) w by (auto simp: new_def i72_bit_ops s bit_width_mask bit_and_iff)
    then show ?thesis unfolding e by auto
  qed
  have wr: "length data' = length data
    \<and> (\<forall>k. data_bit data' k \<longleftrightarrow> (if 8 * d \<le> k \<and> k < 8 * (d + m) then i72_bit new (8 * 0 + (k - 8 * d)) else data_bit data k))"
    unfolding data'_def by (rule write_bits_spec) (use rd in auto)
  then show "length data' = length data" by blast
  show "data_bit data' n \<longleftrightarrow> (if 8 * d + r \<le> n \<and> n < 8 * d + r + w then bit v (n - (8 * d + r)) else data_bit data n)"
  proof (cases "8 * d \<le> n \<and> n < 8 * (d + m)")
    case True
    then have k: "n = 8 * d + (n - 8 * d)" "n - 8 * d < 8 * m" by auto
    have "8 * d + r \<le> n \<longleftrightarrow> r \<le> n - 8 * d" "n < 8 * d + r + w \<longleftrightarrow> n - 8 * d < r + w" "n - (8 * d + r) = n - 8 * d - r"
      using True by auto
    moreover have "data_bit data' n \<longleftrightarrow> i72_bit new (n - 8 * d)" using wr True by simp
    moreover have "i72_bit upd (n - 8 * d) \<longleftrightarrow> data_bit data n" using rd(2) rd(5) [of "n - 8 * d"] k by auto
    ultimately show ?thesis using new [OF k(2)] by simp
  next
    case False
    then have "\<not> (8 * d + r \<le> n \<and> n < 8 * d + r + w)" using rd(3) by auto
    moreover have "data_bit data' n \<longleftrightarrow> data_bit data n" using wr False by auto
    ultimately show ?thesis by auto
  qed
qed

text \<open>SET: the field has the new value, its old value is the reply, no other bit changes.\<close>

lemma unat_div_mod: "unat (x div 8 :: u64) = unat x div 8" "unat (x mod 8 :: u64) = unat x mod 8"
  by (simp_all add: unat_div unat_mod)

lemma bitfield_apply_spec:
  assumes "in_data bf data" "bf_op bf \<noteq> OP_INCRBY"
  defines "off \<equiv> unat (bf_off bf)" and "sg \<equiv> bf_char bf = of_char CHR ''I''"
  shows "\<exists>data' old. bitfield_apply U bf data
      = (data', [58] @ (if sg then int64_to_string U (sint old) else uint64_to_string U (unat old)) @ crlf)
    \<and> field_is data off (bf_width bf) sg old \<and> length data' = length data
    \<and> (\<forall>n. data_bit data' n \<longleftrightarrow> (if bf_op bf = OP_SET \<and> off \<le> n \<and> n < off + bf_width bf
          then bit (of_int (bf_val bf) :: u64) (n - off) else data_bit data n))"
proof -
  define d r w where "d = off div 8" and "r = off mod 8" and "w = bf_width bf"
  have off: "unat (bf_off bf) = 8 * d + r" "r < 8" "8 * d + r = off" by (simp_all add: d_def r_def off_def)
  obtain upd m where rd: "read_bits data (w + r) d 0 0 (i72_of 0) = (upd, d + m)"
    "d + m \<le> length data" "m \<le> 9" "w + r \<le> 8 * m" "r = 0 \<Longrightarrow> m \<le> 8"
    "\<And>k. k < 72 \<Longrightarrow> i72_bit upd k \<longleftrightarrow> k < 8 * m \<and> data_bit data (8 * d + k)"
    using field_read [OF assms(1) off(1,2)] unfolding w_def by blast
  note fv = field_value [OF assms(1) off(1,2), folded w_def, OF rd(3-6), of sg, unfolded off(3)]
  note fw = field_write [OF assms(1) off(1,2), folded w_def, OF rd(2-6), of "of_int (bf_val bf)", unfolded off(3)]
  have dr: "unat (bf_off bf div 8) = d" "unat (bf_off bf mod 8) = r"
    by (simp_all add: unat_div_mod d_def r_def off_def)
  define old0 where "old0 = i72_and_u64 (i72_shr upd r) (width_mask w)"
  define old where "old = i_ival (if sg \<and> i_ival old0 AND (drop_bit 1 (width_mask w) + 1) \<noteq> 0
      then i72_or old0 (i72_not (i72_of (width_mask w))) else old0)"
  define new where "new = i72_or (i72_and upd (i72_not (i72_shl (i72_of (width_mask w)) r)))
      (i72_shl (i72_of (of_int (bf_val bf) AND width_mask w)) r)"
  have eq: "bitfield_apply U bf data = (if bf_op bf = OP_SET then write_bits data d (d + m) 0 new else data,
      [58] @ (if sg then int64_to_string U (sint old) else uint64_to_string U (unat old)) @ crlf)"
    using assms(2)
    unfolding bitfield_apply_def Let_def dr w_def [symmetric] rd(1) prod.case sg_def [symmetric]
      old0_def [symmetric] old_def [symmetric]
    by (cases "bf_op bf") (simp_all add: new_def)
  have "field_is data off w sg old" using fv by (simp only: old_def old0_def)
  moreover have "length (write_bits data d (d + m) 0 new) = length data"
    "data_bit (write_bits data d (d + m) 0 new) n
      \<longleftrightarrow> (if off \<le> n \<and> n < off + w then bit (of_int (bf_val bf) :: u64) (n - off) else data_bit data n)" for n
    using fw by (simp_all only: new_def)
  ultimately show ?thesis unfolding eq w_def [symmetric] by auto
qed

subsection \<open>The arguments\<close>

text \<open>Widths the parser lets through.\<close>

lemma type_arg_width: "type_arg ex i = Some (c, w) \<Longrightarrow> 0 < w \<and> w \<le> 64
    \<and> (c = of_char CHR ''I'' \<or> c = of_char CHR ''U'' \<and> w \<le> 63)"
  by (auto simp: type_arg_def split: option.splits sum.splits if_splits)

section \<open>Properties\<close>

text \<open>C40: GET and SET of a field. A field may start at any bit and have up to 64 bits, over as many
  as nine bytes. GET replies with its number, sign-extended for a signed one; SET replies with
  the old number, leaves the low bits of the argument in the field and no other bit of the data,
  and no byte behind it, changed.\<close>

theorem bitfield_get_set:
  assumes "in_data bf data" "bf_op bf \<noteq> OP_INCRBY"
  defines "off \<equiv> unat (bf_off bf)" and "sg \<equiv> bf_char bf = of_char CHR ''I''"
  shows "\<exists>data' old. bitfield_apply U bf data
      = (data', [58] @ (if sg then int64_to_string U (sint old) else uint64_to_string U (unat old)) @ crlf)
    \<and> field_is data off (bf_width bf) sg old \<and> length data' = length data
    \<and> (\<forall>n. data_bit data' n \<longleftrightarrow> (if bf_op bf = OP_SET \<and> off \<le> n \<and> n < off + bf_width bf
          then bit (of_int (bf_val bf) :: u64) (n - off) else data_bit data n))"
  unfolding off_def sg_def by (rule bitfield_apply_spec [OF assms(1,2)])

definition sample_field :: bitfield where
  "sample_field = \<lparr>bf_off = 4, bf_val = 0xab, bf_width = 8, bf_char = of_char CHR ''U'', bf_op = OP_SET, bf_overflow = OV_WRAP\<rparr>"

theorem bitfield_get_set_witness:
  "\<exists>data' old. bitfield_apply int_str_util sample_field [0xff, 0xff] = (data', [58] @ uint64_to_string int_str_util (unat old) @ crlf)
    \<and> field_is [0xff, 0xff] 4 8 False old \<and> length data' = length [0xff, 0xff :: byte]
    \<and> (\<forall>n. data_bit data' n \<longleftrightarrow> (if 4 \<le> n \<and> n < 12 then bit (0xab :: u64) (n - 4) else data_bit [0xff, 0xff] n))"
proof -
  have 1: "in_data sample_field [0xff, 0xff]" "bf_op sample_field \<noteq> OP_INCRBY" by (simp_all add: in_data_def sample_field_def)
  have 2: "unat (bf_off sample_field) = 4" "bf_width sample_field = 8" "(of_int (bf_val sample_field) :: u64) = 0xab"
    "bf_op sample_field = OP_SET" "(bf_char sample_field = of_char CHR ''I'') = False" by (simp_all add: sample_field_def)
  have 3: "(4::nat) + 8 = 12" by simp
  show ?thesis using bitfield_get_set [OF 1, of int_str_util] unfolding 2 3 if_False simp_thms .
qed

end
