(* ===== verification/Redis_Run.thy ===== *)
theory Redis_Run
  imports Redis_Bitfield
begin

text \<open>
  The part of \<open>src/src/redis_exec.cpp\<close> that runs a command whose keys are set up: \<open>exec_key_continue\<close>
  with its loop over a key that changes while it is read, the type and the stamps of a key that was
  written, the reply of a command when its last key is done, and \<open>exec_run_to_completion\<close>, which
  goes round the keys. The output stream is part of the state of the run and is handed to the key whose
  handler runs. Shown: a whole MGET ends and replies with the values in the order of its keys. The run ends whenever
  the handlers return and wait for other keys only the first time they are called (\<open>handler_ok\<close>); the handlers
  that wait for a part of another key, as those of BITOP, RENAME and SMOVE, are not of this kind.
\<close>

section \<open>Running a command\<close>

text \<open>What does not change while a command runs: the operations of the key store, the handlers (the
  switch of \<open>exec_key_continue\<close>, on the key number it is given), the key store's texts for the
  replies, the subscribed events, and the blocking of a command, which waits on the timers.\<close>

record 'e run_env =
  e_ops :: "'e kv_ops"
  e_util :: kv_util
  e_handler :: "redis_exec \<Rightarrow> 'e xst list \<Rightarrow> nat \<Rightarrow> (exec_status \<times> 'e xst) option"
  e_reply :: reply_env
  e_sub_flags :: "ekf set"
  e_block :: "int \<Rightarrow> exec_status"
  e_strm_ok :: bool

record 'e run =
  r_ex :: redis_exec
  r_keys :: "'e xst list"
  r_key_flags :: "ekf set"
  r_blk :: byte
  r_out :: "byte list"
  r_start :: nat
  r_events :: "ekf set list"

definition RBLK_CMD_TIMEOUT :: byte where "RBLK_CMD_TIMEOUT = 1"
definition RBLK_CMD_COMPLETE :: byte where "RBLK_CMD_COMPLETE = 4"

definition MGET_CMD :: nat where "MGET_CMD = 52"

definition set_key :: "nat \<Rightarrow> 'e xst \<Rightarrow> 'e run \<Rightarrow> 'e run" where
  "set_key i x r = r\<lparr>r_keys := (r_keys r)[i := x]\<rparr>"

text \<open>The type a new key gets from the category of its command.\<close>

fun catg_type :: "redis_catg \<Rightarrow> md_type" where
  "catg_type GEO_CATG = MD_GEO"
| "catg_type HASH_CATG = MD_HASH"
| "catg_type HYPERLOGLOG_CATG = MD_HYPERLOGLOG"
| "catg_type LIST_CATG = MD_LIST"
| "catg_type SET_CATG = MD_SET"
| "catg_type SORTED_SET_CATG = MD_ZSET"
| "catg_type STRING_CATG = MD_STRING"
| "catg_type STREAM_CATG = MD_STREAM"
| "catg_type _ = MD_NODATA"

definition new_type :: "'e kv_ops \<Rightarrow> redis_exec \<Rightarrow> 'e xst \<Rightarrow> 'e xst" where
  "new_type K ex x =
     (let type = (if x_type x = MD_NODATA then catg_type (ex_catg ex) else x_type x);
          x1 = (if type \<noteq> MD_NODATA then x\<lparr>x_ent := op_set_type K (x_ent x) type, x_type := type\<rparr> else x) in
      x1\<lparr>x_ent := op_set_val K (x_ent x1)\<rparr>)"

text \<open>A key that was written: its type and stamps, its events, and its release outside of EXEC.\<close>

definition after_write :: "'e run_env \<Rightarrow> 'e run \<Rightarrow> 'e xst \<Rightarrow> 'e xst \<times> ekf set" where
  "after_write E r x =
     (let K = e_ops E;
          x1 = (if exec_status_success (x_status x) \<and> EKF_KEYSPACE_DEL \<notin> x_flags x then
              let x2 = (if is_new x then new_type K (r_ex r) x else x) in
              if \<not> x_no_update x2 then x2\<lparr>x_ent := op_update_stamps K (x_ent x2) 0 (op_current_stamp K (x_ent x2))\<rparr> else x2
            else x);
          kf = (if exec_status_success (x_status x) then r_key_flags r \<union> x_flags x1 else r_key_flags r) in
      (if cmd_state (r_ex r) AND CMD_STATE_EXEC_MULTI = 0 then x1\<lparr>x_ent := op_release K (x_ent x1)\<rparr> else x1, kf))"

definition run_handler :: "'e run_env \<Rightarrow> 'e run \<Rightarrow> nat \<Rightarrow> ('e xst \<times> 'e run) option" where
  "run_handler E r i =
     (case e_handler E (r_ex r) (r_keys (set_key i ((r_keys r ! i)\<lparr>x_out := r_out r\<rparr>) r)) i of
        None \<Rightarrow> None
      | Some (st, x) \<Rightarrow> Some (x\<lparr>x_status := st\<rparr>, r\<lparr>r_out := x_out x\<rparr>))"

text \<open>The loop over one key: again while a read saw the key change under it. The result says whether
  the key waits for other keys.\<close>

partial_function (option) run_key :: "'e run_env \<Rightarrow> 'e run \<Rightarrow> nat \<Rightarrow> (bool \<times> 'e run) option" where
  "run_key E r i =
     (case run_handler E r i of None \<Rightarrow> None
      | Some (x, r1) \<Rightarrow>
        if \<not> is_read_only x then
          (case after_write E r1 x of (x', kf) \<Rightarrow> Some (False, set_key i x' (r1\<lparr>r_key_flags := kf\<rparr>)))
        else
          let r2 = r1\<lparr>r_key_flags := r_key_flags r1 \<union> x_flags x\<rparr> in
          if x_status x = EXEC_DEPENDS then Some (True, set_key i (x\<lparr>x_dep := x_dep x + 1\<rparr>) r2)
          else
            let x1 = (if x_status x > ERR_KV_STATUS then k_validate (e_ops E) x else x);
                x2 = (if x_status x > ERR_KV_STATUS \<and> x_kstatus x1 = KEY_MUTATED then x1\<lparr>x_status := ERR_KV_STATUS\<rparr> else x1) in
            if x_status x2 = ERR_KV_STATUS \<and> x_kstatus x2 = KEY_MUTATED then run_key E (set_key i x2 r2) i
            else Some (False, set_key i x2 r2))"

text \<open>The end of a command: its events are published, a muted reply is taken back.\<close>

definition finish_cmd :: "'e run_env \<Rightarrow> 'e run \<Rightarrow> nat \<Rightarrow> exec_status \<times> 'e run" where
  "finish_cmd E r i =
     (let r1 = (if r_key_flags r \<inter> e_sub_flags E \<noteq> {} then r\<lparr>r_events := r_events r @ [r_key_flags r]\<rparr> else r) in
      if cmd_state (r_ex r1) AND (CMD_STATE_CLIENT_REPLY_OFF OR CMD_STATE_CLIENT_REPLY_SKIP) \<noteq> 0 then
        (EXEC_SUCCESS, set_key i ((r_keys r1 ! i)\<lparr>x_status := EXEC_OK\<rparr>)
           (r1\<lparr>r_ex := (r_ex r1)\<lparr>cmd_state := cmd_state (r_ex r1) AND NOT CMD_STATE_CLIENT_REPLY_SKIP\<rparr>,
               r_out := take (r_start r1) (r_out r1)\<rparr>))
      else (EXEC_SUCCESS, r1))"

definition reply_status :: "'e run_env \<Rightarrow> 'e run \<Rightarrow> exec_status \<Rightarrow> key_status \<Rightarrow> 'e run" where
  "reply_status E r st kst =
     r\<lparr>r_out := r_out r @ send_status (e_util E) (e_strm_ok E)
         ((e_reply E)\<lparr>re_kstat := kst, re_msg := ex_msg (r_ex r)\<rparr>) (map x_ival (take (key_cnt (r_ex r)) (r_keys r))) st\<rparr>"

text \<open>What is sent for the key that is done, and whether the command is.\<close>

definition key_reply :: "'e run_env \<Rightarrow> 'e run \<Rightarrow> nat \<Rightarrow> exec_status \<times> 'e run" where
  "key_reply E r i =
     (let st = x_status (r_keys r ! i) in
      if st = EXEC_SEND_DATA then
        finish_cmd E (if r_blk r \<noteq> 0 then r\<lparr>r_blk := r_blk r OR RBLK_CMD_COMPLETE\<rparr> else r) i
      else
        let r1 = (if st = EXEC_OK \<or> st = EXEC_BLOCKED then r else reply_status E r st (x_kstatus (r_keys r ! i))) in
        if key_done (r_ex r1) < key_cnt (r_ex r1) then (EXEC_CONTINUE, r1) else finish_cmd E r1 i)"

definition last_key_done :: "'e run_env \<Rightarrow> 'e run \<Rightarrow> nat \<Rightarrow> exec_status \<times> 'e run" where
  "last_key_done E r i =
     (let x = r_keys r ! i in
      if x_status x = EXEC_BLOCKED \<and> r_blk r = 0 then
        let s = e_block E (x_ival x) in
        (if s = EXEC_OK then EXEC_SUCCESS else s, set_key i (x\<lparr>x_status := s\<rparr>) r)
      else
        let r1 = (if x_status x = EXEC_BLOCKED then
                    (if r_blk r AND RBLK_CMD_TIMEOUT \<noteq> 0
                     then (set_key i (x\<lparr>x_status := EXEC_SEND_NULL\<rparr>) r)\<lparr>r_blk := r_blk r OR RBLK_CMD_COMPLETE\<rparr> else r)
                  else if r_blk r \<noteq> 0 then r\<lparr>r_blk := r_blk r OR RBLK_CMD_COMPLETE\<rparr> else r) in
        if ex_cmd (r_ex r1) = MGET_CMD \<and> exec_status_success (x_status (r_keys r1 ! i)) then
          finish_cmd E (r1\<lparr>r_out := r_out r1 @ array_string_result (e_util E) (e_strm_ok E)
            (map x_part (take (key_cnt (r_ex r1)) (r_keys r1)))\<rparr>) i
        else key_reply E r1 i)"

definition key_finished :: "'e run_env \<Rightarrow> 'e run \<Rightarrow> nat \<Rightarrow> exec_status \<times> 'e run" where
  "key_finished E r0 i =
     (let r = r0\<lparr>r_ex := (r_ex r0)\<lparr>key_done := key_done (r_ex r0) + 1\<rparr>\<rparr>; st = x_status (r_keys r ! i) in
      if key_done (r_ex r) = key_cnt (r_ex r) then last_key_done E r i
      else if st \<le> EXEC_BLOCKED then (EXEC_CONTINUE, r)
      else key_reply E (r\<lparr>r_keys := map (\<lambda>x. x\<lparr>x_status := st\<rparr>) (r_keys r)\<rparr>) i)"

definition exec_key_continue :: "'e run_env \<Rightarrow> 'e run \<Rightarrow> nat \<Rightarrow> (exec_status \<times> 'e run) option" where
  "exec_key_continue E r i =
     (if x_status (r_keys r ! i) \<noteq> EXEC_CONTINUE \<and> x_status (r_keys r ! i) \<noteq> EXEC_DEPENDS then
        let r1 = r\<lparr>r_ex := (r_ex r)\<lparr>key_done := key_done (r_ex r) + 1\<rparr>\<rparr> in
        Some (if key_done (r_ex r1) < key_cnt (r_ex r1) then (EXEC_CONTINUE, r1) else finish_cmd E r1 i)
      else case run_key E r i of None \<Rightarrow> None
        | Some (depends, r1) \<Rightarrow> Some (if depends then (EXEC_DEPENDS, r1) else key_finished E r1 i))"

definition key_active :: "'e xst \<Rightarrow> bool" where
  "key_active x \<longleftrightarrow> x_status x = EXEC_CONTINUE \<or> x_status x = EXEC_DEPENDS"

text \<open>The loop of a command with one key, and the cycle through many: until one call says success or
  a whole round finds no key to run.\<close>

partial_function (option) run_single :: "'e run_env \<Rightarrow> 'e run \<Rightarrow> 'e run option" where
  "run_single E r =
     (if key_active (r_keys r ! 0) then
        (case exec_key_continue E r 0 of None \<Rightarrow> None
         | Some (st, r1) \<Rightarrow> if st = EXEC_SUCCESS then Some r1 else run_single E r1)
      else Some r)"

partial_function (option) run_cycle :: "'e run_env \<Rightarrow> 'e run \<Rightarrow> nat \<Rightarrow> nat \<Rightarrow> 'e run option" where
  "run_cycle E r i j =
     (if key_active (r_keys r ! i) then
        (case exec_key_continue E r i of None \<Rightarrow> None
         | Some (st, r1) \<Rightarrow>
           if st = EXEC_SUCCESS then Some r1
           else run_cycle E r1 (if i + 1 = key_cnt (r_ex r1) then 0 else i + 1) 0)
      else if j + 1 = key_cnt (r_ex r) then Some r
      else run_cycle E r (if i + 1 = key_cnt (r_ex r) then 0 else i + 1) (j + 1))"

definition exec_run_to_completion :: "'e run_env \<Rightarrow> 'e run \<Rightarrow> 'e run option" where
  "exec_run_to_completion E r =
     (if key_cnt (r_ex r) = 1 then run_single E r else run_cycle E r 0 0)"

section \<open>The string commands in the switch\<close>

definition string_handler :: "'d decimal \<Rightarrow> kv_util \<Rightarrow> 'e kv_ops \<Rightarrow> redis_exec \<Rightarrow> 'e xst list \<Rightarrow> nat
    \<Rightarrow> (exec_status \<times> 'e xst) option" where
  "string_handler D U K ex keys i =
     (let x = keys ! i; nm = cmd_name (cmd_db ! ex_cmd ex) in
      if nm = ''append'' then exec_append K ex x
      else if nm = ''bitcount'' then exec_bitcount U K ex x
      else if nm = ''bitfield'' then exec_bitfield U K ex x
      else if nm = ''bitop'' then exec_bitop K ex (map x_part keys) x
      else if nm = ''bitpos'' then exec_bitpos U K ex x
      else if nm = ''decr'' then exec_decr U K ex x
      else if nm = ''decrby'' then exec_decrby U K ex x
      else if nm = ''get'' then exec_get U K ex x
      else if nm = ''getbit'' then exec_getbit K ex x
      else if nm = ''getrange'' then exec_getrange U K ex x
      else if nm = ''getset'' then exec_getset U K ex x
      else if nm = ''incr'' then exec_incr U K ex x
      else if nm = ''incrby'' then exec_incrby U K ex x
      else if nm = ''incrbyfloat'' then exec_incrbyfloat D U K ex x
      else if nm = ''mget'' then exec_mget U K ex x
      else if nm = ''mset'' then exec_mset K ex x
      else if nm = ''msetnx'' then exec_msetnx K ex x
      else if nm = ''psetex'' then exec_psetex K ex x
      else if nm = ''set'' then exec_set K ex x
      else if nm = ''setbit'' then exec_setbit K ex x
      else if nm = ''setex'' then exec_setex K ex x
      else if nm = ''setnx'' then exec_setnx K ex x
      else if nm = ''setrange'' then exec_setrange K ex x
      else if nm = ''strlen'' then exec_strlen K ex x
      else Some (ERR_BAD_CMD, x))"

section \<open>Commands end\<close>

text \<open>Handlers that return, wait for other keys only the first time, and on entries no other process
  changes. Only the state of the command that counts its keys differs between their calls.\<close>

definition same_command :: "redis_exec \<Rightarrow> redis_exec \<Rightarrow> bool" where
  "same_command ex ex' \<longleftrightarrow> ex_msg ex' = ex_msg ex \<and> ex_cmd ex' = ex_cmd ex \<and> cmd_flags ex' = cmd_flags ex
     \<and> argc ex' = argc ex \<and> key_cnt ex' = key_cnt ex"

definition handler_ok :: "'e run_env \<Rightarrow> redis_exec \<Rightarrow> bool" where
  "handler_ok E ex0 \<longleftrightarrow>
     (\<forall>ex keys i. same_command ex0 ex \<longrightarrow> i < length keys \<longrightarrow>
        (\<exists>st x'. e_handler E ex keys i = Some (st, x') \<and> x_dep x' = x_dep (keys ! i) \<and> st \<noteq> EXEC_CONTINUE
           \<and> (st = EXEC_DEPENDS \<longrightarrow> is_read_only x' \<and> x_dep (keys ! i) = 0) \<and> x_kstatus x' \<noteq> KEY_MUTATED))
     \<and> (\<forall>e. op_validate (e_ops E) e \<noteq> KEY_MUTATED)
     \<and> (\<forall>n. e_block E n \<noteq> EXEC_CONTINUE \<and> e_block E n \<noteq> EXEC_DEPENDS)"

definition key_weight :: "'e xst \<Rightarrow> nat" where
  "key_weight x = (if key_active x then (if x_dep x = 0 then 2 else 1) else 0)"

definition run_weight :: "'e run \<Rightarrow> nat" where
  "run_weight r = sum_list (map key_weight (r_keys r))"

definition run_ok :: "redis_exec \<Rightarrow> nat \<Rightarrow> 'e run \<Rightarrow> bool" where
  "run_ok ex0 n r \<longleftrightarrow> same_command ex0 (r_ex r) \<and> length (r_keys r) = n \<and> key_cnt (r_ex r) = n"

lemma status_le_blocked: "st \<noteq> EXEC_CONTINUE \<Longrightarrow> st \<noteq> EXEC_DEPENDS \<Longrightarrow> \<not> key_active (x\<lparr>x_status := st\<rparr>)"
  by (simp add: key_active_def)

lemma run_handler_ok:
  assumes "handler_ok E ex0" "same_command ex0 (r_ex r)" "i < length (r_keys r)"
  obtains x r1 where "run_handler E r i = Some (x, r1)" "x_dep x = x_dep (r_keys r ! i)" "x_status x \<noteq> EXEC_CONTINUE"
    "x_status x = EXEC_DEPENDS \<Longrightarrow> is_read_only x \<and> x_dep (r_keys r ! i) = 0" "x_kstatus x \<noteq> KEY_MUTATED"
    "r_keys r1 = r_keys r" "r_ex r1 = r_ex r"
proof -
  define keys where "keys = r_keys (set_key i ((r_keys r ! i)\<lparr>x_out := r_out r\<rparr>) r)"
  have k: "i < length keys" "x_dep (keys ! i) = x_dep (r_keys r ! i)" using assms(3) by (simp_all add: keys_def set_key_def)
  obtain st x' where h: "e_handler E (r_ex r) keys i = Some (st, x')" "x_dep x' = x_dep (keys ! i)" "st \<noteq> EXEC_CONTINUE"
    "st = EXEC_DEPENDS \<longrightarrow> is_read_only x' \<and> x_dep (keys ! i) = 0" "x_kstatus x' \<noteq> KEY_MUTATED"
    using assms(1,2) k(1) unfolding handler_ok_def by meson
  show thesis
    by (rule that [of "x'\<lparr>x_status := st\<rparr>" "r\<lparr>r_out := x_out x'\<rparr>"])
      (use h k in \<open>simp_all add: run_handler_def keys_def [symmetric] is_read_only_def\<close>)
qed

lemma after_write_status: "after_write E r x = (x', kf) \<Longrightarrow> x_status x' = x_status x"
  by (auto simp: after_write_def Let_def new_type_def split: if_splits)

lemma run_key_ok:
  assumes "handler_ok E ex0" "same_command ex0 (r_ex r)" "i < length (r_keys r)"
  obtains d x r' where "run_key E r i = Some (d, r')" "r_keys r' = (r_keys r)[i := x]" "r_ex r' = r_ex r"
    "d \<Longrightarrow> x_dep x = 1 \<and> x_dep (r_keys r ! i) = 0" "\<not> d \<Longrightarrow> x_status x \<noteq> EXEC_CONTINUE \<and> x_status x \<noteq> EXEC_DEPENDS"
proof -
  obtain x r1 where h: "run_handler E r i = Some (x, r1)" "x_dep x = x_dep (r_keys r ! i)" "x_status x \<noteq> EXEC_CONTINUE"
    "x_status x = EXEC_DEPENDS \<Longrightarrow> is_read_only x \<and> x_dep (r_keys r ! i) = 0" "x_kstatus x \<noteq> KEY_MUTATED"
    "r_keys r1 = r_keys r" "r_ex r1 = r_ex r"
    using run_handler_ok [OF assms] by blast
  show thesis
  proof (cases "is_read_only x")
    case False
    obtain x' kf where w: "after_write E r1 x = (x', kf)" by force
    show thesis
      by (rule that [of False "set_key i x' (r1\<lparr>r_key_flags := kf\<rparr>)" x'])
        (use h w False after_write_status [OF w] in \<open>subst run_key.simps, auto simp: set_key_def\<close>)
  next
    case True
    define r2 where "r2 = r1\<lparr>r_key_flags := r_key_flags r1 \<union> x_flags x\<rparr>"
    have r2: "r_keys r2 = r_keys r" "r_ex r2 = r_ex r" using h by (simp_all add: r2_def)
    show thesis
    proof (cases "x_status x = EXEC_DEPENDS")
      case dep: True
      show thesis
        by (rule that [of True "set_key i (x\<lparr>x_dep := x_dep x + 1\<rparr>) r2" "x\<lparr>x_dep := x_dep x + 1\<rparr>"])
          (use h True dep r2 in \<open>subst run_key.simps, auto simp: set_key_def r2_def\<close>)
    next
      case nodep: False
      define x1 where "x1 = (if x_status x > ERR_KV_STATUS then k_validate (e_ops E) x else x)"
      have x1: "x_kstatus x1 \<noteq> KEY_MUTATED" "x_status x1 = x_status x"
        using h(5) assms(1) by (auto simp: x1_def k_validate_def handler_ok_def)
      have e: "run_key E r i = Some (False, set_key i x1 r2)"
        by (subst run_key.simps) (simp add: h(1) True nodep r2_def [symmetric] x1_def [symmetric] x1 Let_def)
      show thesis
        by (rule that [OF e, of x1]) (use x1 h(3) nodep r2 in \<open>auto simp: set_key_def\<close>)
    qed
  qed
qed

lemma weight_update:
  "i < length ks \<Longrightarrow> sum_list (map key_weight (ks[i := x])) + key_weight (ks ! i) = sum_list (map key_weight ks) + key_weight x"
proof (induction ks arbitrary: i)
  case (Cons k ks)
  then show ?case by (cases i) auto
qed simp

lemma weight_set_status:
  "st \<noteq> EXEC_CONTINUE \<Longrightarrow> st \<noteq> EXEC_DEPENDS \<Longrightarrow> key_weight \<circ> x_status_update (\<lambda>_. st) = (\<lambda>_. 0)"
  by (rule ext) (simp add: key_weight_def key_active_def)

text \<open>The steps behind the handler change neither the command nor the number of keys, and wake no key.\<close>

definition quieter :: "'e run \<Rightarrow> 'e run \<Rightarrow> bool" where
  "quieter r r' \<longleftrightarrow> length (r_keys r') = length (r_keys r) \<and> same_command (r_ex r) (r_ex r') \<and> run_weight r' \<le> run_weight r"

lemma same_command_refl: "same_command ex ex"
  by (simp add: same_command_def)

lemma quieter_trans: "quieter r s \<Longrightarrow> quieter s t \<Longrightarrow> quieter r t"
  by (auto simp: quieter_def same_command_def)

lemma quieter_sel: "length (r_keys r') = length (r_keys r) \<Longrightarrow> r_keys r' = r_keys r \<Longrightarrow> r_ex r' = r_ex r \<Longrightarrow> quieter r r'"
  by (simp add: quieter_def same_command_refl run_weight_def)

lemma quieter_set_key:
  assumes "i < length (r_keys r)" "st \<noteq> EXEC_CONTINUE" "st \<noteq> EXEC_DEPENDS"
    "r_keys r' = (r_keys r)[i := x\<lparr>x_status := st\<rparr>]" "same_command (r_ex r) (r_ex r')"
  shows "quieter r r'"
  using assms weight_update [OF assms(1), of "x\<lparr>x_status := st\<rparr>"]
  by (simp add: quieter_def run_weight_def key_weight_def key_active_def)

lemma quieter_finish:
  assumes "i < length (r_keys r)"
  shows "quieter r (snd (finish_cmd E r i))"
proof -
  define r1 where "r1 = (if r_key_flags r \<inter> e_sub_flags E \<noteq> {} then r\<lparr>r_events := r_events r @ [r_key_flags r]\<rparr> else r)"
  have r1: "r_keys r1 = r_keys r" "r_ex r1 = r_ex r" by (simp_all add: r1_def)
  show ?thesis
  proof (cases "cmd_state (r_ex r1) AND (CMD_STATE_CLIENT_REPLY_OFF OR CMD_STATE_CLIENT_REPLY_SKIP) \<noteq> 0")
    case True
    show ?thesis
      by (rule quieter_set_key [OF assms, of EXEC_OK _ "r_keys r1 ! i"])
        (use True r1 in \<open>simp_all add: finish_cmd_def r1_def [symmetric] set_key_def same_command_def\<close>)
  next
    case False
    then show ?thesis using r1 by (simp add: finish_cmd_def r1_def [symmetric] quieter_sel)
  qed
qed

lemma finish_success: "fst (finish_cmd E r i) = EXEC_SUCCESS"
  by (simp add: finish_cmd_def Let_def)

lemma quieter_reply:
  assumes "i < length (r_keys r)"
  shows "quieter r (snd (key_reply E r i))"
proof -
  have 1: "quieter r r'" if "r_keys r' = r_keys r" "r_ex r' = r_ex r" for r' using that by (simp add: quieter_sel)
  have 2: "quieter r (snd (finish_cmd E r' i))" if "r_keys r' = r_keys r" "r_ex r' = r_ex r" for r'
    using quieter_trans [OF 1 [OF that] quieter_finish] assms that by simp
  show ?thesis using 1 2 by (simp add: key_reply_def Let_def reply_status_def)
qed

lemma quieter_last:
  assumes "handler_ok E ex0" "i < length (r_keys r)"
  shows "quieter r (snd (last_key_done E r i))"
proof -
  have b: "e_block E n \<noteq> EXEC_CONTINUE" "e_block E n \<noteq> EXEC_DEPENDS" for n using assms(1) by (auto simp: handler_ok_def)
  define x where "x = r_keys r ! i"
  show ?thesis
  proof (cases "x_status x = EXEC_BLOCKED \<and> r_blk r = 0")
    case True
    then show ?thesis
      using quieter_set_key [OF assms(2) b, of "set_key i (x\<lparr>x_status := e_block E (x_ival x)\<rparr>) r" "x_ival x" x]
      by (simp add: last_key_done_def x_def [symmetric] Let_def set_key_def same_command_refl)
  next
    case False
    define r1 where "r1 = (if x_status x = EXEC_BLOCKED then
        (if r_blk r AND RBLK_CMD_TIMEOUT \<noteq> 0
         then (set_key i (x\<lparr>x_status := EXEC_SEND_NULL\<rparr>) r)\<lparr>r_blk := r_blk r OR RBLK_CMD_COMPLETE\<rparr> else r)
        else if r_blk r \<noteq> 0 then r\<lparr>r_blk := r_blk r OR RBLK_CMD_COMPLETE\<rparr> else r)"
    have q: "quieter r r1" "length (r_keys r1) = length (r_keys r)"
      using quieter_set_key [OF assms(2), of EXEC_SEND_NULL "(set_key i (x\<lparr>x_status := EXEC_SEND_NULL\<rparr>) r)\<lparr>r_blk := r_blk r OR RBLK_CMD_COMPLETE\<rparr>" x]
      by (auto simp: r1_def set_key_def quieter_sel same_command_refl)
    have "quieter r1 (r1\<lparr>r_out := out\<rparr>)" for out by (simp add: quieter_sel)
    then have "quieter r (snd (finish_cmd E (r1\<lparr>r_out := out\<rparr>) i))" for out
      using quieter_trans [OF q(1)] quieter_trans [OF _ quieter_finish] q(2) assms(2) by (metis run.select_convs(2) run.surjective run.update_convs(5))
    moreover have "quieter r (snd (key_reply E r1 i))" using quieter_trans [OF q(1) quieter_reply] q(2) assms(2) by simp
    moreover have "last_key_done E r i = (if ex_cmd (r_ex r1) = MGET_CMD \<and> exec_status_success (x_status (r_keys r1 ! i)) then
          finish_cmd E (r1\<lparr>r_out := r_out r1 @ array_string_result (e_util E) (e_strm_ok E)
            (map x_part (take (key_cnt (r_ex r1)) (r_keys r1)))\<rparr>) i
        else key_reply E r1 i)"
      unfolding last_key_done_def Let_def x_def [symmetric] r1_def [symmetric] if_not_P [OF False] ..
    ultimately show ?thesis by simp
  qed
qed

lemma quieter_finished:
  assumes "handler_ok E ex0" "i < length (r_keys r)" "x_status (r_keys r ! i) \<noteq> EXEC_CONTINUE" "x_status (r_keys r ! i) \<noteq> EXEC_DEPENDS"
  shows "quieter r (snd (key_finished E r i))"
proof -
  define r1 where "r1 = r\<lparr>r_ex := (r_ex r)\<lparr>key_done := key_done (r_ex r) + 1\<rparr>\<rparr>"
  define st where "st = x_status (r_keys r ! i)"
  define r2 where "r2 = r1\<lparr>r_keys := map (\<lambda>x. x\<lparr>x_status := st\<rparr>) (r_keys r1)\<rparr>"
  have q1: "quieter r r1" "length (r_keys r1) = length (r_keys r)" by (simp_all add: r1_def quieter_def same_command_def run_weight_def)
  have q2: "quieter r r2" "length (r_keys r2) = length (r_keys r)"
    using assms(3,4) by (simp_all add: st_def r2_def r1_def quieter_def same_command_def run_weight_def weight_set_status)
  have "quieter r (snd (last_key_done E r1 i))" using quieter_trans [OF q1(1) quieter_last [OF assms(1)]] q1(2) assms(2) by simp
  moreover have "quieter r (snd (key_reply E r2 i))" using quieter_trans [OF q2(1) quieter_reply] q2(2) assms(2) by simp
  moreover have "key_finished E r i = (if key_done (r_ex r1) = key_cnt (r_ex r1) then last_key_done E r1 i
      else if st \<le> EXEC_BLOCKED then (EXEC_CONTINUE, r1) else key_reply E r2 i)"
    by (simp add: key_finished_def Let_def r1_def r2_def st_def)
  ultimately show ?thesis using q1(1) by simp
qed

text \<open>A call on a key that is to run brings the command closer to its end.\<close>

lemma exec_key_continue_ok:
  assumes "handler_ok E ex0" "run_ok ex0 n r" "i < n" "key_active (r_keys r ! i)"
  obtains st r' where "exec_key_continue E r i = Some (st, r')" "run_ok ex0 n r'" "run_weight r' < run_weight r"
proof -
  have r: "same_command ex0 (r_ex r)" "i < length (r_keys r)" using assms(2,3) by (simp_all add: run_ok_def)
  obtain d x r1 where k: "run_key E r i = Some (d, r1)" "r_keys r1 = (r_keys r)[i := x]" "r_ex r1 = r_ex r"
    "d \<Longrightarrow> x_dep x = 1 \<and> x_dep (r_keys r ! i) = 0" "\<not> d \<Longrightarrow> x_status x \<noteq> EXEC_CONTINUE \<and> x_status x \<noteq> EXEC_DEPENDS"
    using run_key_ok [OF assms(1) r] by blast
  have w: "key_weight x < key_weight (r_keys r ! i)" using k(4,5) assms(4) by (cases d) (auto simp: key_weight_def key_active_def)
  have less: "run_weight r1 < run_weight r" using weight_update [OF r(2), of x] w by (simp add: run_weight_def k(2))
  have ok1: "run_ok ex0 n r1" using assms(2) k by (simp add: run_ok_def)
  have run: "exec_key_continue E r i = Some (if d then (EXEC_DEPENDS, r1) else key_finished E r1 i)"
    using assms(4) k(1) by (cases "x_status (r_keys r ! i) = EXEC_CONTINUE") (simp_all add: exec_key_continue_def key_active_def)
  have ok: "run_ok ex0 n s" if "quieter r1 s" for s using that ok1 by (auto simp: quieter_def run_ok_def same_command_def)
  show thesis
  proof (cases d)
    case True
    then show thesis using that [of EXEC_DEPENDS r1] run less ok1 by simp
  next
    case False
    have q: "quieter r1 (snd (key_finished E r1 i))"
      by (rule quieter_finished [OF assms(1)]) (use k r False in auto)
    then show thesis using that [of "fst (key_finished E r1 i)" "snd (key_finished E r1 i)"] run less False ok [OF q]
      by (simp add: quieter_def)
  qed
qed

lemma run_single_ends:
  assumes "handler_ok E ex0"
  shows "run_ok ex0 1 r \<Longrightarrow> \<exists>r'. run_single E r = Some r'"
proof (induction "run_weight r" arbitrary: r rule: less_induct)
  case less
  show ?case
  proof (cases "key_active (r_keys r ! 0)")
    case True
    obtain st r1 where k: "exec_key_continue E r 0 = Some (st, r1)" "run_ok ex0 1 r1" "run_weight r1 < run_weight r"
      using exec_key_continue_ok [OF assms less.prems _ True] by auto
    then show ?thesis using less.hyps [OF k(3,2)] True by (subst run_single.simps) auto
  next
    case False
    then show ?thesis by (subst run_single.simps) simp
  qed
qed

lemma run_cycle_ends:
  assumes "handler_ok E ex0"
  shows "run_ok ex0 n r \<Longrightarrow> i < n \<Longrightarrow> j < n \<Longrightarrow> \<exists>r'. run_cycle E r i j = Some r'"
proof (induction "run_weight r * (n + 1) + (n - j)" arbitrary: r i j rule: less_induct)
  case less
  have n: "key_cnt (r_ex r) = n" using less.prems by (simp add: run_ok_def)
  show ?case
  proof (cases "key_active (r_keys r ! i)")
    case True
    obtain st r1 where k: "exec_key_continue E r i = Some (st, r1)" "run_ok ex0 n r1" "run_weight r1 < run_weight r"
      using exec_key_continue_ok [OF assms less.prems(1,2) True] by blast
    have n1: "key_cnt (r_ex r1) = n" using k(2) by (simp add: run_ok_def)
    have "run_weight r1 * (n + 1) + (n + 1) \<le> run_weight r * (n + 1)" using k(3) by (metis Suc_leI add.commute mult_Suc mult_le_mono1)
    then have "run_weight r1 * (n + 1) + (n - 0) < run_weight r * (n + 1) + (n - j)" by linarith
    then have "\<exists>r'. run_cycle E r1 (if i + 1 = n then 0 else i + 1) 0 = Some r'"
      using less.hyps [of r1 0] k(2) less.prems by auto
    then show ?thesis using True k(1) n1 by (subst run_cycle.simps) auto
  next
    case False
    show ?thesis
    proof (cases "j + 1 = n")
      case True
      then show ?thesis using False n by (subst run_cycle.simps) simp
    next
      case j: False
      then have "\<exists>r'. run_cycle E r (if i + 1 = n then 0 else i + 1) (j + 1) = Some r'"
        using less.hyps [of r "j + 1"] less.prems by auto
      then show ?thesis using False j n by (subst run_cycle.simps) simp
    qed
  qed
qed

text \<open>The run of a command ends under a condition: with handlers that return, that wait for other keys only the first time
  they are called, and entries that no other process changes, the run of a command over its keys returns.\<close>

theorem commands_end:
  assumes "handler_ok E (r_ex r)" "length (r_keys r) = key_cnt (r_ex r)" "0 < key_cnt (r_ex r)"
  shows "\<exists>r'. exec_run_to_completion E r = Some r'"
proof -
  have ok: "run_ok (r_ex r) (key_cnt (r_ex r)) r" using assms(2) by (simp add: run_ok_def same_command_refl)
  show ?thesis
    using run_single_ends [OF assms(1)] run_cycle_ends [OF assms(1) ok, of 0 0] ok assms(3)
    by (auto simp: exec_run_to_completion_def)
qed

section \<open>A whole MGET\<close>

text \<open>What a read of the key finds, wherever the output stands: a string, or nothing.\<close>

definition key_reads :: "'e kv_ops \<Rightarrow> redis_exec \<Rightarrow> 'e xst \<Rightarrow> byte list option \<Rightarrow> bool" where
  "key_reads K ex x v \<longleftrightarrow>
     (\<forall>out. \<exists>st y. get_key_read K ex (x\<lparr>x_out := out\<rparr>) MD_STRING = Some (st, y) \<and> x_out y = out \<and> x_strm_ok y \<and> is_read_only y
       \<and> (case v of Some b \<Rightarrow> st = KEY_OK \<and> x_data K y = b \<and> op_value K (x_ent y) = KEY_OK \<and> op_validate K (x_ent y) = KEY_OK
            \<and> length b < 2 ^ 31
          | None \<Rightarrow> st = KEY_NOT_FOUND \<or> st = KEY_NO_VALUE))"

lemma get_key_read_done: "get_key_read K (ex\<lparr>key_done := k\<rparr>) x ty = get_key_read K ex x ty"
  by (simp add: get_key_read_def exec_key_fetch_def)

lemma exec_mget_ok:
  assumes "key_reads K ex x v"
  obtains z where "exec_mget U K (ex\<lparr>key_done := k\<rparr>) (x\<lparr>x_out := out\<rparr>) = Some (EXEC_OK, z)" "x_out z = out" "is_read_only z"
    "x_part z = map_option (send_string U True) v"
proof -
  obtain st y where g: "get_key_read K ex (x\<lparr>x_out := out\<rparr>) MD_STRING = Some (st, y)" "x_out y = out" "x_strm_ok y" "is_read_only y"
    "case v of Some b \<Rightarrow> st = KEY_OK \<and> x_data K y = b \<and> op_value K (x_ent y) = KEY_OK \<and> op_validate K (x_ent y) = KEY_OK
        \<and> length b < 2 ^ 31
      | None \<Rightarrow> st = KEY_NOT_FOUND \<or> st = KEY_NO_VALUE"
    using assms unfolding key_reads_def by meson
  show thesis
  proof (cases v)
    case None
    show thesis
      by (rule that [of "y\<lparr>x_part := None\<rparr>"])
        (use g None in \<open>auto simp: exec_mget_def get_key_read_done is_read_only_def split: key_status.splits\<close>)
  next
    case (Some b)
    show thesis
      by (rule that [of "k_validate K ((k_value K y)\<lparr>x_part := Some (send_string U True b)\<rparr>)"])
        (use g Some in \<open>simp_all add: exec_mget_def get_key_read_done is_read_only_def k_value_def k_validate_def
          save_string_result_def send_string_def Let_def x_data_def\<close>)
  qed
qed

lemma cmd_db_mget: "cmd_name (cmd_db ! MGET_CMD) = ''mget''"
  by (simp add: cmd_db_def MGET_CMD_def cmd_row_def)

text \<open>How far an MGET is: the first \<open>k\<close> keys hold their parts, the others wait.\<close>

definition mget_run :: "'e run_env \<Rightarrow> 'e run \<Rightarrow> byte list option list \<Rightarrow> nat \<Rightarrow> 'e run \<Rightarrow> bool" where
  "mget_run E r vs k s \<longleftrightarrow> r_ex s = (r_ex r)\<lparr>key_done := k\<rparr> \<and> r_out s = r_out r \<and> r_blk s = r_blk r
     \<and> length (r_keys s) = length vs \<and> (\<forall>i<length vs. if i < k then \<not> key_active (r_keys s ! i)
           \<and> x_part (r_keys s ! i) = map_option (send_string (e_util E) True) (vs ! i)
         else r_keys s ! i = r_keys r ! i)"

definition mget_setup :: "'d decimal \<Rightarrow> 'e run_env \<Rightarrow> 'e run \<Rightarrow> byte list option list \<Rightarrow> bool" where
  "mget_setup D E r vs \<longleftrightarrow> e_handler E = string_handler D (e_util E) (e_ops E) \<and> ex_cmd (r_ex r) = MGET_CMD
     \<and> key_cnt (r_ex r) = length vs \<and> vs \<noteq> [] \<and> length (r_keys r) = length vs \<and> key_done (r_ex r) = 0
     \<and> cmd_state (r_ex r) AND (CMD_STATE_CLIENT_REPLY_OFF OR CMD_STATE_CLIENT_REPLY_SKIP) = 0 \<and> e_strm_ok E
     \<and> (\<forall>i<length vs. x_status (r_keys r ! i) = EXEC_CONTINUE \<and> key_reads (e_ops E) (r_ex r) (r_keys r ! i) (vs ! i))"

lemma mget_step_key:
  assumes "mget_setup D E r vs" "mget_run E r vs k s" "k < length vs"
  obtains z fl where "run_key E s k = Some (False, (set_key k z s)\<lparr>r_key_flags := fl\<rparr>)"
    "x_status z = EXEC_OK" "x_part z = map_option (send_string (e_util E) True) (vs ! k)"
proof -
  have s: "r_ex s = (r_ex r)\<lparr>key_done := k\<rparr>" "r_out s = r_out r" "length (r_keys s) = length vs" "r_keys s ! k = r_keys r ! k"
    using assms(2,3) by (simp_all add: mget_run_def)
  have e: "e_handler E = string_handler D (e_util E) (e_ops E)" "ex_cmd (r_ex s) = MGET_CMD"
      "key_reads (e_ops E) (r_ex r) (r_keys r ! k) (vs ! k)"
    using assms(1,3) s(1) by (simp_all add: mget_setup_def)
  obtain z where z: "exec_mget (e_util E) (e_ops E) (r_ex s) ((r_keys s ! k)\<lparr>x_out := r_out s\<rparr>) = Some (EXEC_OK, z)"
      "x_out z = r_out s" "is_read_only z" "x_part z = map_option (send_string (e_util E) True) (vs ! k)"
    using exec_mget_ok [OF e(3), of "e_util E" k "r_out s"] s(1,4) by metis
  have h: "run_handler E s k = Some (z\<lparr>x_status := EXEC_OK\<rparr>, s)"
    using z(1,2) e(2) s(3) assms(3) by (simp add: run_handler_def e(1) string_handler_def cmd_db_mget set_key_def)
  have ok: "\<not> EXEC_OK > ERR_KV_STATUS" by (simp add: less_exec_status_def status_code_def exec_statuses_def)
  show thesis
  proof (rule that [where z = "z\<lparr>x_status := EXEC_OK\<rparr>" and fl = "r_key_flags s \<union> x_flags z"])
    show "run_key E s k = Some (False, (set_key k (z\<lparr>x_status := EXEC_OK\<rparr>) s)\<lparr>r_key_flags := r_key_flags s \<union> x_flags z\<rparr>)"
      using h z(3) ok by (subst run_key.simps) (simp add: is_read_only_def set_key_def)
  qed (use z in simp_all)
qed


lemma mget_continue:
  assumes "mget_setup D E r vs" "mget_run E r vs k s" "k < length vs"
  shows "\<exists>s'. exec_key_continue E s k = Some (if k + 1 < length vs then (EXEC_CONTINUE, s') else (EXEC_SUCCESS, s'))
    \<and> (if k + 1 < length vs then mget_run E r vs (k + 1) s' else r_out s' = r_out r @
        array_string_result (e_util E) True (map (map_option (send_string (e_util E) True)) vs))"
proof -
  obtain z fl where z: "run_key E s k = Some (False, (set_key k z s)\<lparr>r_key_flags := fl\<rparr>)"
    "x_status z = EXEC_OK" "x_part z = map_option (send_string (e_util E) True) (vs ! k)"
    using mget_step_key [OF assms] by blast
  define s1 where "s1 = (set_key k z s)\<lparr>r_key_flags := fl\<rparr>"
  define s2 where "s2 = s1\<lparr>r_ex := (r_ex s1)\<lparr>key_done := key_done (r_ex s1) + 1\<rparr>\<rparr>"
  have s: "r_ex s = (r_ex r)\<lparr>key_done := k\<rparr>" "r_out s = r_out r" "length (r_keys s) = length vs" "r_keys s ! k = r_keys r ! k"
    "\<And>i. i < k \<Longrightarrow> i < length vs \<Longrightarrow> \<not> key_active (r_keys s ! i)
      \<and> x_part (r_keys s ! i) = map_option (send_string (e_util E) True) (vs ! i)"
    "\<And>i. k \<le> i \<Longrightarrow> i < length vs \<Longrightarrow> r_keys s ! i = r_keys r ! i"
    using assms(2,3) by (auto simp: mget_run_def)
  have c: "key_cnt (r_ex r) = length vs" "ex_cmd (r_ex r) = MGET_CMD" "e_strm_ok E" "x_status (r_keys r ! k) = EXEC_CONTINUE"
      "cmd_state (r_ex r) AND (CMD_STATE_CLIENT_REPLY_OFF OR CMD_STATE_CLIENT_REPLY_SKIP) = 0"
    using assms(1,3) by (simp_all add: mget_setup_def)
  have run: "exec_key_continue E s k = Some (key_finished E s1 k)"
    using z(1) s(4) c(4) by (simp add: exec_key_continue_def s1_def)
  have s2: "r_ex s2 = (r_ex r)\<lparr>key_done := k + 1\<rparr>" "r_out s2 = r_out r" "r_blk s2 = r_blk s" "length (r_keys s2) = length vs"
      "r_keys s2 ! k = z" "\<And>i. i \<noteq> k \<Longrightarrow> r_keys s2 ! i = r_keys s ! i"
    using s assms(3) by (simp_all add: s2_def s1_def set_key_def)
  have na: "\<not> key_active z" using z(2) by (simp add: key_active_def)
  have fin: "key_finished E s1 k = (if k + 1 = length vs then last_key_done E s2 k else (EXEC_CONTINUE, s2))"
    unfolding key_finished_def Let_def s2_def [symmetric] using s2(1,5) z(2) c(1)
    by (simp add: less_eq_exec_status_def status_code_def exec_statuses_def)
  show ?thesis
  proof (cases "k + 1 = length vs")
    case False
    have "mget_run E r vs (k + 1) s2"
      using s2 s(5,6) z(3) na assms(2) by (auto simp: mget_run_def less_Suc_eq)
    then show ?thesis using run fin False assms(3) by auto
  next
    case True
    have parts: "map x_part (take (length vs) (r_keys s2)) = map (map_option (send_string (e_util E) True)) vs"
    proof (rule nth_equalityI)
      show "length (map x_part (take (length vs) (r_keys s2))) = length (map (map_option (send_string (e_util E) True)) vs)"
        by (simp add: s2)
      fix i assume "i < length (map x_part (take (length vs) (r_keys s2)))"
      then have "i < length vs" by simp
      moreover from this have "i = k \<or> i < k \<and> i \<noteq> k" using True by linarith
      ultimately show "map x_part (take (length vs) (r_keys s2)) ! i = map (map_option (send_string (e_util E) True)) vs ! i"
        using s(5) z(3) s2(4-6) by auto
    qed
    define s3 where "s3 = (if r_blk s2 \<noteq> 0 then s2\<lparr>r_blk := r_blk s2 OR RBLK_CMD_COMPLETE\<rparr> else s2)"
    have s3: "r_ex s3 = r_ex s2" "r_keys s3 = r_keys s2" "r_out s3 = r_out r" by (simp_all add: s3_def s2)
    define s4 where "s4 = s3\<lparr>r_out := r_out s3 @ array_string_result (e_util E) True (map (map_option (send_string (e_util E) True)) vs)\<rparr>"
    have "exec_status_success EXEC_OK" by (simp add: exec_status_success_def less_eq_exec_status_def status_code_def exec_statuses_def)
    then have last: "last_key_done E s2 k = finish_cmd E s4 k"
      using parts s3 s2(1,5) z(2) c(1-3) by (simp add: last_key_done_def Let_def s3_def [symmetric] s4_def)
    have "fst (finish_cmd E s4 k) = EXEC_SUCCESS \<and> r_out (snd (finish_cmd E s4 k)) = r_out s4"
      using c(5) s3(1) s2(1) by (simp add: finish_cmd_def Let_def s4_def)
    then show ?thesis using run fin last True s3 s4_def by (cases "finish_cmd E s4 k") simp
  qed
qed

lemma mget_cycle:
  assumes "mget_setup D E r vs"
  shows "mget_run E r vs k s \<Longrightarrow> k < length vs \<Longrightarrow> \<exists>s'. run_cycle E s k 0 = Some s' \<and> r_out s' = r_out r @
        array_string_result (e_util E) True (map (map_option (send_string (e_util E) True)) vs)"
proof (induction "length vs - k" arbitrary: k s)
  case (Suc n)
  have act: "key_active (r_keys s ! k)" using assms Suc.prems by (simp add: mget_run_def mget_setup_def key_active_def)
  obtain s' where s': "exec_key_continue E s k = Some (if k + 1 < length vs then (EXEC_CONTINUE, s') else (EXEC_SUCCESS, s'))"
    "if k + 1 < length vs then mget_run E r vs (k + 1) s' else r_out s' = r_out r @
        array_string_result (e_util E) True (map (map_option (send_string (e_util E) True)) vs)"
    using mget_continue [OF assms Suc.prems] by blast
  show ?case
  proof (cases "k + 1 < length vs")
    case False
    then show ?thesis using act s' by (subst run_cycle.simps) simp
  next
    case True
    have n: "key_cnt (r_ex s') = length vs" using s'(2) True assms by (simp add: mget_run_def mget_setup_def)
    show ?thesis using act s' True n Suc.hyps(1) [of "k + 1" s'] Suc.hyps(2) by (subst run_cycle.simps) simp
  qed
qed simp

text \<open>C9: MGET, from its keys to its reply: one array, with the value of every key in the order of
  the keys, and nil for a key that is not there or is no string.\<close>

theorem mget_replies_in_order:
  assumes "kv_format (e_util E)" "mget_setup D E r vs" "length vs < 2 ^ 31"
  shows "\<exists>r'. exec_run_to_completion E r = Some r' \<and> r_out r' = r_out r @ pack (e_util E)
    (mk_arr (map (\<lambda>v. case v of Some b \<Rightarrow> mk_str b | None \<Rightarrow> set_nil) vs))"
proof -
  define out where "out = array_string_result (e_util E) True (map (map_option (send_string (e_util E) True)) vs)"
  have len: "\<forall>v\<in>set vs. case v of Some b \<Rightarrow> length b < 2 ^ 31 | None \<Rightarrow> True"
    using assms(2) by (fastforce simp: mget_setup_def key_reads_def in_set_conv_nth split: option.splits)
  have out: "out = pack (e_util E) (mk_arr (map (\<lambda>v. case v of Some b \<Rightarrow> mk_str b | None \<Rightarrow> set_nil) vs))"
    unfolding out_def by (rule array_string_result_pack [OF assms(1,3) len])
  have start: "mget_run E r vs 0 r" "0 < length vs" "key_cnt (r_ex r) = length vs" "key_active (r_keys r ! 0)"
    using assms(2) by (simp_all add: mget_run_def mget_setup_def key_active_def)
  show ?thesis
  proof (cases "length vs = 1")
    case True
    obtain s' where "exec_key_continue E r 0 = Some (EXEC_SUCCESS, s')" "r_out s' = r_out r @ out"
      using mget_continue [OF assms(2) start(1,2)] True by (auto simp: out_def)
    then show ?thesis using start True out by (simp add: exec_run_to_completion_def) (subst run_single.simps, simp)
  next
    case False
    then show ?thesis using mget_cycle [OF assms(2) start(1,2)] start(3) out
      by (simp add: exec_run_to_completion_def out_def)
  qed
qed


lemma mem_find:
  "\<exists>x'. find_loop mem_ops x = Some x' \<and> x_dep x' = x_dep x \<and> x_kstatus x' \<in> {KEY_OK, KEY_NOT_FOUND}
     \<and> EKF_IS_READ_ONLY \<in> x_flags x'"
proof -
  have sel: "op_find mem_ops e = (if me_exists e then KEY_OK else KEY_NOT_FOUND, e)" "op_release mem_ops e = e"
    "op_acquire mem_ops e = (if me_exists e then (KEY_OK, e)
       else (KEY_IS_NEW, e\<lparr>me_exists := True, me_type := MD_NODATA, me_data := [], me_expires := 0\<rparr>))"
    "\<not> me_exists (op_expire mem_ops e)" for e
    by (simp_all add: mem_ops_def)
  have gone: "find_loop mem_ops y = Some (y\<lparr>x_kstatus := KEY_NOT_FOUND, x_flags := x_flags y \<union> {EKF_IS_READ_ONLY}\<rparr>)"
    if "\<not> me_exists (x_ent y)" for y
    using that by (subst find_loop.simps) (simp add: sel)
  consider "\<not> me_exists (x_ent x)" | "me_exists (x_ent x)" "op_is_expired mem_ops (x_ent x)"
    | "me_exists (x_ent x)" "\<not> op_is_expired mem_ops (x_ent x)" by blast
  then show ?thesis
    by cases (use gone in simp, (subst find_loop.simps, simp add: sel gone)+)
qed

lemma mem_read:
  "\<exists>st x'. get_key_read mem_ops ex x ty = Some (st, x') \<and> x_dep x' = x_dep x \<and> x_kstatus x' \<noteq> KEY_MUTATED"
proof -
  obtain x' where f: "find_loop mem_ops x = Some x'" "x_dep x' = x_dep x" "x_kstatus x' \<in> {KEY_OK, KEY_NOT_FOUND}"
    using mem_find [of x] by blast
  have "fst (multi_fetch mem_ops e b fl ks) \<noteq> KEY_MUTATED" for e b fl ks by (simp add: mem_ops_def)
  then have m: "multi_fetch mem_ops e b fl ks = (st, fl', e') \<Longrightarrow> st \<noteq> KEY_MUTATED" for e b fl ks st fl' e' by (metis fst_conv)
  show ?thesis
    using f m by (auto simp: get_key_read_def exec_key_fetch_def Let_def split: prod.splits)
qed

text \<open>A run on a store in memory.\<close>

definition sample_decimal :: "int decimal" where
  "sample_decimal = \<lparr>dec_zero = 0, dec_parse = (\<lambda>bs. int (length bs)), dec_plus = (+), dec_string = dec_int\<rparr>"

definition sample_run_env :: "mem_entry run_env" where
  "sample_run_env = \<lparr>e_ops = mem_ops, e_util = int_str_util, e_handler = string_handler sample_decimal int_str_util mem_ops,
     e_reply = sample_env, e_sub_flags = {}, e_block = (\<lambda>_. EXEC_OK), e_strm_ok = True\<rparr>"

definition sample_mget :: "mem_entry run" where
  "sample_mget = \<lparr>r_ex = (sample_read [''mget'', ''k'', ''q''])\<lparr>ex_cmd := MGET_CMD, key_cnt := 2\<rparr>,
     r_keys = [(sample_key [97])\<lparr>x_status := EXEC_CONTINUE\<rparr>,
               (sample_key [98])\<lparr>x_status := EXEC_CONTINUE, x_ent := (x_ent (sample_key []))\<lparr>me_exists := False\<rparr>\<rparr>],
     r_key_flags = {}, r_blk = 0, r_out = [], r_start = 0, r_events = []\<rparr>"

lemma mget_handler_ok: "handler_ok sample_run_env (r_ex sample_mget)"
proof -
  have "\<exists>st x'. e_handler sample_run_env ex keys i = Some (st, x') \<and> x_dep x' = x_dep (keys ! i) \<and> st \<noteq> EXEC_CONTINUE
           \<and> (st = EXEC_DEPENDS \<longrightarrow> is_read_only x' \<and> x_dep (keys ! i) = 0) \<and> x_kstatus x' \<noteq> KEY_MUTATED"
    if same: "same_command (r_ex sample_mget) ex" for ex keys i
  proof -
    have "ex_cmd ex = MGET_CMD" using same by (simp add: same_command_def sample_mget_def)
    then have h: "e_handler sample_run_env ex keys i = exec_mget int_str_util mem_ops ex (keys ! i)"
      by (simp add: sample_run_env_def string_handler_def cmd_db_mget)
    obtain st x' where g: "get_key_read mem_ops ex (keys ! i) MD_STRING = Some (st, x')"
      "x_dep x' = x_dep (keys ! i)" "x_kstatus x' \<noteq> KEY_MUTATED"
      using mem_read by blast
    show ?thesis
      unfolding h using g by (cases st)
        (auto simp: exec_mget_def Let_def k_value_def k_validate_def mem_always save_string_result_def)
  qed
  then show ?thesis unfolding handler_ok_def by (simp add: sample_run_env_def mem_always)
qed

theorem commands_end_witness: "\<exists>r'. exec_run_to_completion sample_run_env sample_mget = Some r'"
  using commands_end [OF mget_handler_ok] by (simp add: sample_mget_def)

theorem mget_replies_in_order_witness:
  "\<exists>r'. exec_run_to_completion sample_run_env sample_mget = Some r'
    \<and> r_out r' = pack int_str_util (mk_arr [mk_str [97], set_nil])"
proof -
  have read: "key_reads mem_ops (r_ex sample_mget) (r_keys sample_mget ! 0) (Some [97])"
    "key_reads mem_ops (r_ex sample_mget) (r_keys sample_mget ! 1) None"
    unfolding key_reads_def get_key_read_def exec_key_fetch_def
    by (auto simp: find_loop.simps sample_mget_def sample_read_def sample_exec_def sample_key_def mem_ops_def Let_def
        is_read_only_def x_data_def)
  then have "mget_setup sample_decimal sample_run_env sample_mget [Some [97], None]"
    by (auto simp: mget_setup_def sample_run_env_def less_Suc_eq)
      (auto simp: sample_mget_def sample_read_def sample_exec_def)
  from mget_replies_in_order [OF _ this] show ?thesis
    using fmt.kv_format_axioms by (simp add: sample_run_env_def) (simp add: sample_mget_def)
qed

end
