(* ===== verification/Redis_Transaction.thy ===== *)
theory Redis_Transaction
  imports Redis_Run
begin

text \<open>
  \<open>src/src/redis_transaction.cpp\<close> and its header: MULTI, the queue of commands, WATCH and UNWATCH, EXEC
  and DISCARD. A queued message has a key context for each of its keys; a key whose hash occurred before
  points to the context of its first occurrence, which a filter over the hashes helps to find. EXEC locks
  all the contexts, releasing and trying again while a key is busy, compares the watched keys, runs the
  messages in their order and releases the locks. A pointer is the address of a key: the number of its
  message and its index. The locks are the key store's, a parameter.
\<close>

section \<open>The messages of a transaction\<close>

text \<open>The two halves of a key's hash, and the place of a key: the message it is in and its number.\<close>

type_synonym key_hash = "u64 \<times> u64"
type_synonym key_addr = "nat \<times> nat"

record 'e mkey =
  mk_hash :: key_hash
  mk_ctx :: "'e xst"

abbreviation WATCH_CMD :: nat where "WATCH_CMD \<equiv> 154"

text \<open>A queued message has an array of key contexts, and for each key the place of the context it uses:
  its own, or that of the first key with the same hash.\<close>

record 'e multi_msg =
  mm_id :: nat
  mm_msg :: "redis_msg option"
  mm_cmd :: nat
  mm_keys :: "'e mkey list"
  mm_kptr :: "key_addr list"
  mm_karr :: "'e list"
  mm_n :: nat

record 'e watch =
  wl_serial :: u64
  wl_key :: "'e mkey"

record 'e multi =
  mu_list :: "'e multi_msg list"
  mu_watch :: "'e watch list"
  mu_watch_count :: nat
  mu_msg_count :: nat
  mu_lock :: "nat option"
  mu_filter :: "u64 list"
  mu_start :: bool
  mu_abort :: bool

definition new_multi :: "'e multi" where
  "new_multi = \<lparr>mu_list = [], mu_watch = [], mu_watch_count = 0, mu_msg_count = 0, mu_lock = None,
     mu_filter = replicate 4 0, mu_start = False, mu_abort = False\<rparr>"

definition test_set_filter :: "u64 list \<Rightarrow> u64 \<Rightarrow> bool \<times> u64 list" where
  "test_set_filter flt h =
     (let msk = push_bit (unat (h mod 64)) 1; off = unat ((h div 64) mod 4) in
      (flt ! off AND msk \<noteq> 0, flt[off := flt ! off OR msk]))"

text \<open>What the key store does for a transaction, on a key context and on the state of the locks:
  \<open>lk_ctx\<close> and \<open>lk_set\<close> make a key and its context, \<open>lk_acquire\<close> locks the entry, \<open>lk_copy\<close>
  takes over the state of the second context and keeps the key of the first.\<close>

record ('e, 'w) lock_ops =
  lk_hash :: "byte list \<Rightarrow> key_hash"
  lk_ctx :: "byte list \<Rightarrow> nat \<Rightarrow> 'e xst"
  lk_set :: "key_hash \<Rightarrow> 'e"
  lk_key :: "'e \<Rightarrow> key_hash"
  lk_serial :: "'e \<Rightarrow> u64"
  lk_acquire :: "'w \<Rightarrow> 'e \<Rightarrow> key_status \<times> 'e \<times> 'w"
  lk_release :: "'w \<Rightarrow> 'e \<Rightarrow> 'e \<times> 'w"
  lk_copy :: "'e \<Rightarrow> 'e \<Rightarrow> 'e"

subsection \<open>Keys that occur again\<close>

fun dup_pos :: "key_hash \<Rightarrow> 'e mkey list \<Rightarrow> nat option" where
  "dup_pos h [] = None"
| "dup_pos h (k # ks) = (if mk_hash k = h then Some 0 else map_option Suc (dup_pos h ks))"

fun get_dup_kctx :: "key_hash \<Rightarrow> 'e multi_msg list \<Rightarrow> key_addr option" where
  "get_dup_kctx h [] = None"
| "get_dup_kctx h (m # ms) =
     (case dup_pos h (mm_keys m) of Some k \<Rightarrow> Some (mm_id m, k) | None \<Rightarrow> get_dup_kctx h ms)"

definition msg_places :: "'e multi_msg \<Rightarrow> (key_addr \<times> 'e mkey) list" where
  "msg_places m = map (\<lambda>k. ((mm_id m, k), mm_keys m ! k)) [0..<length (mm_keys m)]"

text \<open>The scan of \<open>get_dup_key\<close>: before EXEC the first key with the hash, while it runs the last one
  before the key itself that was written or has expired.\<close>

fun dup_scan :: "bool \<Rightarrow> key_hash \<Rightarrow> key_addr \<Rightarrow> 'e mkey option \<Rightarrow> (key_addr \<times> 'e mkey) list \<Rightarrow> 'e mkey option" where
  "dup_scan post h self prev [] = prev"
| "dup_scan post h self prev ((a, k) # ks) =
     (if mk_hash k = h then
        if \<not> post then Some k
        else if a = self then (case prev of None \<Rightarrow> Some k | Some k2 \<Rightarrow> Some k2)
        else dup_scan post h self
          (if EKF_IS_READ_ONLY \<notin> x_flags (mk_ctx k) \<or> EKF_IS_EXPIRED \<in> x_flags (mk_ctx k) then Some k else prev) ks
      else dup_scan post h self prev ks)"

definition get_dup_key :: "key_hash \<Rightarrow> key_addr \<Rightarrow> bool \<Rightarrow> 'e multi_msg list \<Rightarrow> 'e mkey option" where
  "get_dup_key h self post ms = dup_scan post h self None (concat (map msg_places ms))"

section \<open>Locking\<close>

definition own_key :: "'e multi_msg \<Rightarrow> nat \<Rightarrow> bool" where
  "own_key m n \<longleftrightarrow> mm_kptr m ! n = (mm_id m, n)"

definition set_kstatus :: "nat \<Rightarrow> key_status \<Rightarrow> 'e multi_msg \<Rightarrow> 'e multi_msg" where
  "set_kstatus n st m = m\<lparr>mm_keys := (mm_keys m)[n := (mm_keys m ! n)\<lparr>mk_ctx := (mk_ctx (mm_keys m ! n))\<lparr>x_kstatus := st\<rparr>\<rparr>]\<rparr>"

text \<open>The keys \<open>ns\<close> of message \<open>m\<close> between the messages in front of it and behind it; a busy key ends it.
  The first key with the hash of a key is in the worst case the key itself, so there is one.\<close>

fun lock_keys :: "('e, 'w) lock_ops \<Rightarrow> 'e multi_msg list \<Rightarrow> 'e multi_msg list \<Rightarrow> nat list \<Rightarrow> 'e multi_msg \<Rightarrow> 'w
    \<Rightarrow> bool \<times> 'e multi_msg \<times> 'w" where
  "lock_keys L front rest [] m w = (True, m\<lparr>mm_n := length (mm_keys m)\<rparr>, w)"
| "lock_keys L front rest (n # ns) m w =
     (let m1 = m\<lparr>mm_n := n\<rparr> in
      if own_key m1 n then
        (case lk_acquire L w (mm_karr m1 ! n) of (st, e, w1) \<Rightarrow>
          let m2 = set_kstatus n st (m1\<lparr>mm_karr := (mm_karr m1)[n := e]\<rparr>) in
          if st = KEY_BUSY then (False, m2, w1) else lock_keys L front rest ns m2 w1)
      else
        let k = the (get_dup_key (mk_hash (mm_keys m1 ! n)) (mm_id m1, n) False (front @ [m1] @ rest)) in
        lock_keys L front rest ns (set_kstatus n (x_kstatus (mk_ctx k)) m1) w)"

fun try_lock_list :: "('e, 'w) lock_ops \<Rightarrow> 'e multi_msg list \<Rightarrow> nat option \<Rightarrow> 'e multi_msg list \<Rightarrow> 'w
    \<Rightarrow> bool \<times> nat option \<times> 'e multi_msg list \<times> 'w" where
  "try_lock_list L front lck [] w = (True, lck, front, w)"
| "try_lock_list L front lck (m # rest) w =
     (case lock_keys L front rest [0..<length (mm_keys m)] m w of (ok, m', w') \<Rightarrow>
        if ok then try_lock_list L (front @ [m']) (Some (mm_id m)) rest w'
        else (False, Some (mm_id m), front @ [m'] @ rest, w'))"

definition multi_try_lock :: "('e, 'w) lock_ops \<Rightarrow> 'e multi \<Rightarrow> 'w \<Rightarrow> bool \<times> 'e multi \<times> 'w" where
  "multi_try_lock L mu w =
     (case try_lock_list L [] None (mu_list mu) w of (ok, lck, ms, w') \<Rightarrow> (ok, mu\<lparr>mu_lock := lck, mu_list := ms\<rparr>, w'))"

fun release_keys :: "('e, 'w) lock_ops \<Rightarrow> nat \<Rightarrow> 'e multi_msg \<Rightarrow> 'w \<Rightarrow> 'e multi_msg \<times> 'w" where
  "release_keys L 0 m w = (m\<lparr>mm_n := 0\<rparr>, w)"
| "release_keys L (Suc n) m w =
     (if own_key m n then
        (case lk_release L w (mm_karr m ! n) of (e, w1) \<Rightarrow> release_keys L n (m\<lparr>mm_karr := (mm_karr m)[n := e]\<rparr>) w1)
      else release_keys L n m w)"

text \<open>From the message that is being locked back to the first; the messages come last one first.\<close>

fun release_back :: "('e, 'w) lock_ops \<Rightarrow> 'e multi_msg list \<Rightarrow> 'w \<Rightarrow> 'e multi_msg list \<times> 'w" where
  "release_back L [] w = ([], w)"
| "release_back L (m # ms) w =
     (case release_keys L (length (mm_keys m)) m w of (m', w1) \<Rightarrow>
      case release_back L ms w1 of (ms', w2) \<Rightarrow> (ms' @ [m'], w2))"

definition multi_release_lock :: "('e, 'w) lock_ops \<Rightarrow> 'e multi \<Rightarrow> 'w \<Rightarrow> 'e multi \<times> 'w" where
  "multi_release_lock L mu w =
     (case mu_lock mu of None \<Rightarrow> (mu, w)
      | Some i \<Rightarrow>
        let front = takeWhile (\<lambda>m. mm_id m \<noteq> i) (mu_list mu) in
        (case dropWhile (\<lambda>m. mm_id m \<noteq> i) (mu_list mu) of [] \<Rightarrow> (mu\<lparr>mu_lock := None\<rparr>, w)
         | m # rest \<Rightarrow>
           (case release_keys L (mm_n m) m w of (m', w1) \<Rightarrow>
            case release_back L (rev front) w1 of (front', w2) \<Rightarrow>
              (mu\<lparr>mu_lock := None, mu_list := front' @ [m'] @ rest\<rparr>, w2))))"

partial_function (option) lock_loop :: "('e, 'w) lock_ops \<Rightarrow> 'e multi \<Rightarrow> 'w \<Rightarrow> ('e multi \<times> 'w) option" where
  "lock_loop L mu w =
     (case multi_try_lock L mu w of (ok, mu1, w1) \<Rightarrow>
        if ok then Some (mu1, w1)
        else (case multi_release_lock L mu1 w1 of (mu2, w2) \<Rightarrow> lock_loop L mu2 w2))"

section \<open>Queueing\<close>

text \<open>One more key of the message: its own context, or that of the first key with its hash when the
  filter may have seen the hash; \<open>ms\<close> are all messages, this one included.\<close>

definition queue_key :: "('e, 'w) lock_ops \<Rightarrow> 'e multi_msg list \<Rightarrow> 'e mkey \<Rightarrow> 'e multi_msg \<Rightarrow> u64 list
    \<Rightarrow> 'e multi_msg \<times> u64 list" where
  "queue_key L ms k mm flt =
     (let self = (mm_id mm, length (mm_keys mm)); h = mk_hash k;
          (is_set, flt') = test_set_filter flt (fst h);
          ptr = (if is_set then (case get_dup_kctx h ms of Some kp \<Rightarrow> kp | None \<Rightarrow> self) else self) in
      (mm\<lparr>mm_keys := mm_keys mm @ [k], mm_kptr := mm_kptr mm @ [ptr], mm_karr := mm_karr mm @ [lk_set L h]\<rparr>, flt'))"

partial_function (option) queue_keys :: "('e, 'w) lock_ops \<Rightarrow> (nat \<Rightarrow> bool) \<Rightarrow> redis_exec \<Rightarrow> nat \<Rightarrow> 'e multi_msg list \<Rightarrow> int
    \<Rightarrow> 'e multi_msg \<Rightarrow> u64 list \<Rightarrow> (exec_status \<times> 'e multi_msg \<times> u64 list) option" where
  "queue_keys L mem ex room ms i mm flt =
     (case get_arg_str (ex_msg ex) (nat i) of None \<Rightarrow> Some (ERR_BAD_ARGS, mm, flt)
      | Some key \<Rightarrow>
        if \<not> mem (length (mm_keys mm)) then Some (ERR_ALLOC_FAIL, mm, flt)
        else if room \<le> length (mm_keys mm) then None
        else let k = \<lparr>mk_hash = lk_hash L key, mk_ctx = (lk_ctx L key (nat i))\<lparr>x_status := EXEC_CONTINUE\<rparr>\<rparr> in
          (case queue_key L (ms @ [mm]) k mm flt of (mm', flt') \<Rightarrow>
             (case next_key ex i of None \<Rightarrow> None
              | Some (again, i') \<Rightarrow>
                if again then queue_keys L mem ex room ms i' mm' flt'
                else Some (if length (mm_keys mm') \<noteq> room then ERR_BAD_ARGS else EXEC_OK, mm', flt'))))"

definition multi_queued :: "('e, 'w) lock_ops \<Rightarrow> kv_util \<Rightarrow> (nat \<Rightarrow> bool) \<Rightarrow> bool \<Rightarrow> redis_exec \<Rightarrow> 'e multi
    \<Rightarrow> (exec_status \<times> 'e multi) option" where
  "multi_queued L U mem mem_ok ex mu =
     (let room = (if key_first ex > 0 then unat (calc_key_count U ex) else 0) in
      if \<not> mem_ok then Some (ERR_ALLOC_FAIL, mu)
      else let mm = \<lparr>mm_id = Suc (mu_msg_count mu), mm_msg = dup mem (ex_msg ex), mm_cmd = ex_cmd ex,
                 mm_keys = [], mm_kptr = [], mm_karr = [], mm_n = 0\<rparr>;
               mu1 = mu\<lparr>mu_list := mu_list mu @ [mm], mu_msg_count := Suc (mu_msg_count mu)\<rparr> in
        if room = 0 then Some (EXEC_OK, mu1)
        else map_option (\<lambda>(st, mm', flt'). (st, mu1\<lparr>mu_list := mu_list mu @ [mm'], mu_filter := flt'\<rparr>))
          (queue_keys L mem ex room (mu_list mu) (key_first ex) mm (mu_filter mu)))"

text \<open>A command that arrives behind MULTI: \<open>Inl\<close> what is replied, \<open>Inr\<close> the commands that run at once.\<close>

definition queue_command :: "('e, 'w) lock_ops \<Rightarrow> kv_util \<Rightarrow> (nat \<Rightarrow> bool) \<Rightarrow> bool \<Rightarrow> exec_status \<Rightarrow> redis_exec \<Rightarrow> 'e multi
    \<Rightarrow> (exec_status + unit) option \<times> 'e multi" where
  "queue_command L U mem mem_ok status ex mu =
     (if status \<noteq> EXEC_OK then (Some (Inl status), mu\<lparr>mu_abort := True\<rparr>)
      else if ex_cmd ex = EXEC_CMD \<or> ex_cmd ex = MULTI_CMD \<or> ex_cmd ex = DISCARD_CMD then (Some (Inr ()), mu)
      else (case multi_queued L U mem mem_ok ex mu of None \<Rightarrow> (None, mu)
        | Some (st, mu1) \<Rightarrow> (Some (Inl (if st \<noteq> EXEC_OK then st else EXEC_QUEUED)), mu1)))"

section \<open>MULTI, WATCH and their ends\<close>

fun watch_keys :: "('e, 'w) lock_ops \<Rightarrow> 'e multi_msg list \<Rightarrow> 'e watch list \<Rightarrow> 'e multi_msg \<Rightarrow> u64 list
    \<Rightarrow> 'e multi_msg \<times> u64 list" where
  "watch_keys L rest [] mm flt = (mm, flt)"
| "watch_keys L rest (wl # wls) mm flt =
     (case queue_key L (mm # rest) (wl_key wl) mm flt of (mm', flt') \<Rightarrow> watch_keys L rest wls mm' flt')"

text \<open>\<open>make_ok\<close> and \<open>mem_ok\<close>: the state of the transaction and the message of the watched keys are allocated.\<close>

definition exec_multi :: "('e, 'w) lock_ops \<Rightarrow> bool \<Rightarrow> bool \<Rightarrow> byte \<Rightarrow> 'e multi option \<Rightarrow> exec_status \<times> byte \<times> 'e multi option" where
  "exec_multi L make_ok mem_ok cs multi =
     (if (case multi of Some mu \<Rightarrow> mu_start mu | None \<Rightarrow> False) then (ERR_BAD_MULTI, cs, multi)
      else if multi = None \<and> \<not> make_ok then (ERR_ALLOC_FAIL, cs, multi)
      else let mu = (case multi of Some mu \<Rightarrow> mu | None \<Rightarrow> new_multi)\<lparr>mu_start := True\<rparr>; cs1 = cs OR CMD_STATE_MULTI_QUEUED in
        if mu_watch_count mu \<noteq> 0 then
          if \<not> mem_ok then (ERR_ALLOC_FAIL, cs1, Some mu)
          else let mm = \<lparr>mm_id = 0, mm_msg = None, mm_cmd = WATCH_CMD, mm_keys = [], mm_kptr = [], mm_karr = [], mm_n = 0\<rparr> in
            (case watch_keys L (mu_list mu) (mu_watch mu) mm (mu_filter mu) of (mm', flt') \<Rightarrow>
              (EXEC_SEND_OK, cs1, Some (mu\<lparr>mu_list := mm' # mu_list mu, mu_msg_count := Suc (mu_msg_count mu), mu_filter := flt'\<rparr>)))
        else (EXEC_SEND_OK, cs1, Some mu))"

definition discard_multi :: "('e, 'w) lock_ops \<Rightarrow> byte \<Rightarrow> 'e multi option \<Rightarrow> 'w \<Rightarrow> byte \<times> 'e multi option \<times> 'w" where
  "discard_multi L cs multi w =
     (case multi of None \<Rightarrow> (cs, None, w)
      | Some mu \<Rightarrow> (cs AND NOT (CMD_STATE_MULTI_QUEUED OR CMD_STATE_EXEC_MULTI), None,
          if mu_lock mu \<noteq> None then snd (multi_release_lock L mu w) else w))"

definition exec_discard :: "('e, 'w) lock_ops \<Rightarrow> byte \<Rightarrow> 'e multi option \<Rightarrow> 'w \<Rightarrow> exec_status \<times> byte \<times> 'e multi option \<times> 'w" where
  "exec_discard L cs multi w =
     (if multi = None then (ERR_BAD_DISCARD, cs, multi, w) else (EXEC_SEND_OK, discard_multi L cs multi w))"

definition exec_unwatch :: "('e, 'w) lock_ops \<Rightarrow> byte \<Rightarrow> 'e multi option \<Rightarrow> 'w \<Rightarrow> exec_status \<times> byte \<times> 'e multi option \<times> 'w" where
  "exec_unwatch L cs multi w =
     (EXEC_SEND_OK,
      (case multi of None \<Rightarrow> (cs, None, w)
       | Some mu \<Rightarrow>
         let mu1 = mu\<lparr>mu_watch := [], mu_watch_count := 0\<rparr> in
         if mu_msg_count mu1 = 0 \<and> \<not> mu_start mu1 then discard_multi L cs (Some mu1) w else (cs, Some mu1, w)))"

definition exec_watch :: "('e, 'w) lock_ops \<Rightarrow> 'e kv_ops \<Rightarrow> bool \<Rightarrow> bool \<Rightarrow> redis_exec \<Rightarrow> key_hash \<Rightarrow> 'e xst \<Rightarrow> 'e multi option
    \<Rightarrow> (exec_status \<times> 'e xst \<times> 'e multi option) option" where
  "exec_watch L K make_ok mem_ok ex h x multi = do {
     (st, x1) \<leftarrow> exec_key_fetch K ex True x;
     Some (if st \<noteq> KEY_OK \<and> st \<noteq> KEY_NOT_FOUND then (ERR_KV_STATUS, x1, multi)
       else if multi = None \<and> \<not> make_ok then (ERR_ALLOC_FAIL, x1, multi)
       else let mu = (case multi of Some mu \<Rightarrow> mu | None \<Rightarrow> new_multi);
                sn = (if st = KEY_OK then lk_serial L (x_ent x1) else 0) in
         if \<not> mem_ok then (ERR_ALLOC_FAIL, x1, Some mu)
         else (EXEC_SEND_OK, x1, Some (mu\<lparr>mu_watch := mu_watch mu @ [\<lparr>wl_serial = sn, wl_key = \<lparr>mk_hash = h, mk_ctx = x1\<rparr>\<rparr>],
           mu_watch_count := Suc (mu_watch_count mu)\<rparr>))) }"

section \<open>EXEC\<close>

definition kctx_at :: "'e multi_msg list \<Rightarrow> key_addr \<Rightarrow> 'e" where
  "kctx_at ms a = mm_karr (the (find (\<lambda>m. mm_id m = fst a) ms)) ! snd a"

definition put_kctx :: "key_addr \<Rightarrow> 'e \<Rightarrow> 'e multi_msg list \<Rightarrow> 'e multi_msg list" where
  "put_kctx a e = map (\<lambda>m. if mm_id m = fst a then m\<lparr>mm_karr := (mm_karr m)[snd a := e]\<rparr> else m)"

definition put_ctxs :: "'e xst list \<Rightarrow> 'e multi_msg \<Rightarrow> 'e multi_msg" where
  "put_ctxs xs m = m\<lparr>mm_keys := map2 (\<lambda>k x. k\<lparr>mk_ctx := x\<rparr>) (mm_keys m) xs\<rparr>"

text \<open>The fetch of a key in EXEC. Its lock status is what it was when the transaction started; of a key
  that occurs again the last one written decides. There is such a key: at least the key itself. The status
  \<open>ERR_BAD_CMD\<close> that the code puts into the context of a command that neither reads nor writes is not kept
  here: the loop of the run overwrites it with what the handler returns.\<close>

definition multi_key_fetch :: "'e kv_ops \<Rightarrow> redis_exec \<Rightarrow> 'e multi_msg list \<Rightarrow> 'e multi_msg \<Rightarrow> nat \<Rightarrow> 'e \<Rightarrow> bool \<Rightarrow> ekf set \<Rightarrow> key_status
    \<Rightarrow> key_status \<times> ekf set \<times> 'e" where
  "multi_key_fetch K ex ms m i e force_read fl st =
     (let reads = (cmd_flags ex AND CMD_READ_FLAG \<noteq> 0 \<or> force_read) in
      if own_key m i then
        if reads then
          let fl1 = fl \<union> {EKF_IS_READ_ONLY} in
          if st = KEY_IS_NEW then (KEY_NOT_FOUND, fl1, e)
          else if st = KEY_OK \<and> op_is_expired K e
          then (KEY_NOT_FOUND, fl1 \<union> {EKF_IS_EXPIRED, EKF_KEYSPACE_EVENT}, op_expire K e)
          else (st, fl1, e)
        else if cmd_flags ex AND CMD_WRITE_FLAG \<noteq> 0 then
          if st = KEY_OK \<and> op_is_expired K e
          then (KEY_IS_NEW, (fl \<union> {EKF_IS_EXPIRED, EKF_KEYSPACE_EVENT, EKF_IS_NEW}) - {EKF_IS_READ_ONLY}, op_expire K e)
          else (st, (if st = KEY_IS_NEW then fl \<union> {EKF_IS_NEW} else fl) - {EKF_IS_READ_ONLY}, e)
        else (KEY_NO_VALUE, fl \<union> {EKF_IS_READ_ONLY}, e)
      else
        let key = mk_ctx (the (get_dup_key (mk_hash (mm_keys m ! i)) (mm_id m, i) True ms));
            st1 = (if x_kstatus key = KEY_OK \<and> st = KEY_IS_NEW \<and> EKF_IS_NEW \<in> x_flags key then KEY_OK else st);
            st2 = (if x_kstatus key = KEY_OK \<and> st1 = KEY_OK \<and> EKF_KEYSPACE_DEL \<in> x_flags key then KEY_IS_NEW else st1) in
        if reads then (if st2 = KEY_IS_NEW then KEY_NOT_FOUND else st2, fl \<union> {EKF_IS_READ_ONLY}, e)
        else let st3 = (if st2 = KEY_NOT_FOUND then KEY_IS_NEW else st2) in
          (st3, (if st3 = KEY_IS_NEW then fl \<union> {EKF_IS_NEW} else fl) - {EKF_IS_READ_ONLY}, e))"

text \<open>One call on key \<open>i\<close> of message \<open>p\<close>: the handlers get the context the key points to, and a key that
  was fetched to be written leaves its state there.\<close>

definition tx_key :: "'e run_env \<Rightarrow> ('e kv_ops \<Rightarrow> redis_exec \<Rightarrow> 'e xst list \<Rightarrow> nat \<Rightarrow> (exec_status \<times> 'e xst) option)
    \<Rightarrow> ('e, 'w) lock_ops \<Rightarrow> 'e multi_msg list \<Rightarrow> nat \<Rightarrow> 'e run \<Rightarrow> nat \<Rightarrow> (exec_status \<times> 'e multi_msg list \<times> 'e run) option" where
  "tx_key E H L ms p r i =
     (let m = ms ! p; ptr = mm_kptr m ! i; e = kctx_at ms ptr;
          K = (e_ops E)\<lparr>multi_fetch := multi_key_fetch (e_ops E) (r_ex r) ms m i\<rparr> in
      case exec_key_continue (E\<lparr>e_ops := K, e_handler := H K\<rparr>) (set_key i ((r_keys r ! i)\<lparr>x_ent := e\<rparr>) r) i of
        None \<Rightarrow> None
      | Some (st, r1) \<Rightarrow>
        let ms1 = ms[p := put_ctxs (r_keys r1) m]; x = r_keys r1 ! i in
        Some (st, if is_read_only x then ms1 else put_kctx ptr (lk_copy L e (x_ent x)) ms1, r1))"

partial_function (option) tx_cycle :: "'e run_env \<Rightarrow> ('e kv_ops \<Rightarrow> redis_exec \<Rightarrow> 'e xst list \<Rightarrow> nat \<Rightarrow> (exec_status \<times> 'e xst) option)
    \<Rightarrow> ('e, 'w) lock_ops \<Rightarrow> nat \<Rightarrow> 'e multi_msg list \<Rightarrow> 'e run \<Rightarrow> nat \<Rightarrow> nat \<Rightarrow> ('e multi_msg list \<times> 'e run) option" where
  "tx_cycle E H L p ms r i j =
     (if key_active (r_keys r ! i) then
        (case tx_key E H L ms p r i of None \<Rightarrow> None
         | Some (st, ms1, r1) \<Rightarrow>
           if st = EXEC_SUCCESS then Some (ms1, r1)
           else tx_cycle E H L p ms1 r1 (if i + 1 = key_cnt (r_ex r1) then 0 else i + 1) 0)
      else if j + 1 = key_cnt (r_ex r) then Some (ms, r)
      else tx_cycle E H L p ms r (if i + 1 = key_cnt (r_ex r) then 0 else i + 1) (j + 1))"

text \<open>The command of a message is set up from its row; the count of its arguments is not.\<close>

definition tx_setup :: "'e multi_msg \<Rightarrow> 'e run \<Rightarrow> 'e run option" where
  "tx_setup m r = do {
     msg \<leftarrow> mm_msg m;
     c \<leftarrow> cmd_db_row (mm_cmd m);
     Some (r\<lparr>r_ex := (setup_cmd c ((r_ex r)\<lparr>ex_msg := msg\<rparr>))\<lparr>ex_cmd := mm_cmd m, key_cnt := length (mm_keys m), key_done := 0\<rparr>,
             r_key_flags := {EKF_MONITOR}, r_keys := map mk_ctx (mm_keys m)\<rparr>) }"

fun tx_messages :: "'e run_env \<Rightarrow> ('e kv_ops \<Rightarrow> redis_exec \<Rightarrow> 'e xst list \<Rightarrow> nat \<Rightarrow> (exec_status \<times> 'e xst) option)
    \<Rightarrow> ('e run \<Rightarrow> (exec_status \<times> 'e run) option) \<Rightarrow> ('e, 'w) lock_ops \<Rightarrow> nat list \<Rightarrow> 'e multi_msg list \<Rightarrow> 'e run
    \<Rightarrow> ('e multi_msg list \<times> 'e run) option" where
  "tx_messages E H nokeys L [] ms r = Some (ms, r)"
| "tx_messages E H nokeys L (p # ps) ms r = do {
     r1 \<leftarrow> tx_setup (ms ! p) r;
     (ms2, r2) \<leftarrow>
       (if mm_keys (ms ! p) \<noteq> [] then tx_cycle E H L p ms r1 0 0
        else map_option (\<lambda>(st, r2). (ms, reply_status E r2 st KEY_OK)) (nokeys r1));
     tx_messages E H nokeys L ps ms2 (if \<not> e_strm_ok E then reply_status E r2 ERR_ALLOC_FAIL KEY_OK else r2) }"

text \<open>The watch list against the contexts that were locked. The status is that of the watched key,
  which is a key of the first message.\<close>

definition watch_holds :: "('e, 'w) lock_ops \<Rightarrow> 'e multi_msg list \<Rightarrow> nat \<Rightarrow> 'e watch \<Rightarrow> bool" where
  "watch_holds L ms i wl =
     (let m = hd ms; e = kctx_at ms (mm_kptr m ! i) in
      if x_kstatus (mk_ctx (mm_keys m ! i)) = KEY_OK
      then wl_serial wl = lk_serial L e \<and> mk_hash (wl_key wl) = lk_key L e
      else wl_serial wl = 0)"

definition watches_hold :: "('e, 'w) lock_ops \<Rightarrow> 'e multi \<Rightarrow> bool" where
  "watches_hold L mu = list_all (\<lambda>(i, wl). watch_holds L (mu_list mu) i wl) (enumerate 0 (mu_watch mu))"

definition set_cmd_state :: "byte \<Rightarrow> 'e run \<Rightarrow> 'e run" where
  "set_cmd_state cs r = r\<lparr>r_ex := (r_ex r)\<lparr>cmd_state := cs\<rparr>\<rparr>"

definition tx_end :: "('e, 'w) lock_ops \<Rightarrow> exec_status \<Rightarrow> 'e run \<Rightarrow> 'e multi \<Rightarrow> 'w \<Rightarrow> exec_status \<times> 'e run \<times> 'e multi option \<times> 'w" where
  "tx_end L st r mu w =
     (case discard_multi L (cmd_state (r_ex r)) (Some mu) w of (cs, multi, w') \<Rightarrow> (st, set_cmd_state cs r, multi, w'))"

definition exec_exec :: "'e run_env \<Rightarrow> ('e kv_ops \<Rightarrow> redis_exec \<Rightarrow> 'e xst list \<Rightarrow> nat \<Rightarrow> (exec_status \<times> 'e xst) option)
    \<Rightarrow> ('e run \<Rightarrow> (exec_status \<times> 'e run) option) \<Rightarrow> ('e, 'w) lock_ops \<Rightarrow> 'e run \<Rightarrow> 'e multi option \<Rightarrow> 'w
    \<Rightarrow> (exec_status \<times> 'e run \<times> 'e multi option \<times> 'w) option" where
  "exec_exec E H nokeys L r multi w =
     (case multi of None \<Rightarrow> Some (ERR_BAD_EXEC, r, None, w)
      | Some mu \<Rightarrow>
        if mu_abort mu then Some (tx_end L ERR_ABORT_TRANS r mu w)
        else let r1 = set_cmd_state ((cmd_state (r_ex r) AND NOT CMD_STATE_MULTI_QUEUED) OR CMD_STATE_EXEC_MULTI) r in do {
          (mu1, w1) \<leftarrow> lock_loop L mu w;
          let watched = (mu_watch_count mu1 > 0);
          if watched \<and> (mu_msg_count mu1 = 0 \<or> \<not> watches_hold L mu1) then Some (tx_end L EXEC_SEND_NULL r1 mu1 w1)
          else if \<not> e_strm_ok E then Some (tx_end L ERR_ALLOC_FAIL r1 mu1 w1)
          else let cnt = mu_msg_count mu1 - of_bool watched;
                   r2 = r1\<lparr>r_out := r_out r1 @ [42] @ uint64_to_string (e_util E) cnt @ crlf\<rparr> in do {
            (ms, r3) \<leftarrow> tx_messages E H nokeys L [of_bool watched..<length (mu_list mu1)] (mu_list mu1) r2;
            Some (tx_end L EXEC_OK r3 (mu1\<lparr>mu_list := ms\<rparr>) w1) } })"

end
