(* ===== verification/Transaction_Locks.thy ===== *)
theory Transaction_Locks
  imports Redis_Transaction
begin

text \<open>
  The locks and the queue of a transaction. The laws of the locks are the locale \<open>key_locks\<close>, those of
  the filter \<open>dup_filter\<close>. Shown: what \<open>multi_try_lock\<close> takes, \<open>multi_release_lock\<close> gives back,
  wherever a busy key stopped it; free keys are had at the first try; queueing keeps one context for each hash.
\<close>

section \<open>No lock is lost\<close>

text \<open>The hashes of the keys \<open>a\<close> to \<open>b\<close> that have a context of their own, and what locking leaves as it is.\<close>

definition own_set :: "'e multi_msg \<Rightarrow> nat \<Rightarrow> nat \<Rightarrow> key_hash set" where
  "own_set m a b = {mk_hash (mm_keys m ! n) | n. a \<le> n \<and> n < b \<and> own_key m n}"

definition owned :: "'e multi_msg \<Rightarrow> key_hash set" where
  "owned m = own_set m 0 (length (mm_keys m))"

definition msg_ok :: "('e, 'w) lock_ops \<Rightarrow> 'e multi_msg \<Rightarrow> bool" where
  "msg_ok L m \<longleftrightarrow> length (mm_kptr m) = length (mm_keys m) \<and> length (mm_karr m) = length (mm_keys m)
     \<and> (\<forall>n<length (mm_keys m). lk_key L (mm_karr m ! n) = mk_hash (mm_keys m ! n))"

definition same_shape :: "('e, 'w) lock_ops \<Rightarrow> 'e multi_msg \<Rightarrow> 'e multi_msg \<Rightarrow> bool" where
  "same_shape L m m' \<longleftrightarrow> mm_id m' = mm_id m \<and> mm_kptr m' = mm_kptr m \<and> mm_cmd m' = mm_cmd m \<and> mm_msg m' = mm_msg m
     \<and> map mk_hash (mm_keys m') = map mk_hash (mm_keys m) \<and> map (lk_key L) (mm_karr m') = map (lk_key L) (mm_karr m)"

lemma same_shape_refl [simp]: "same_shape L m m"
  by (simp add: same_shape_def)

lemma same_shape_id: "same_shape L m m' \<Longrightarrow> mm_id m' = mm_id m"
  by (simp add: same_shape_def)

lemma same_shape_trans: "same_shape L a b \<Longrightarrow> same_shape L b c \<Longrightarrow> same_shape L a c"
  by (simp add: same_shape_def)

lemma same_shape_n [simp]: "same_shape L a (b\<lparr>mm_n := n\<rparr>) \<longleftrightarrow> same_shape L a b" "same_shape L (a\<lparr>mm_n := n\<rparr>) b \<longleftrightarrow> same_shape L a b"
  by (simp_all add: same_shape_def)

lemma same_shape_len: "same_shape L m m' \<Longrightarrow> length (mm_keys m') = length (mm_keys m)"
  unfolding same_shape_def by (metis length_map)

lemma same_shape_hash:
  assumes "same_shape L m m'" "n < length (mm_keys m)"
  shows "mk_hash (mm_keys m' ! n) = mk_hash (mm_keys m ! n)"
proof -
  have "map mk_hash (mm_keys m') ! n = map mk_hash (mm_keys m) ! n" using assms(1) by (simp add: same_shape_def)
  then show ?thesis using assms same_shape_len [OF assms(1)] by simp
qed

lemma same_shape_karr:
  assumes "same_shape L m m'" "msg_ok L m"
  shows "msg_ok L m'"
proof -
  have len: "length (mm_karr m') = length (mm_karr m)" using assms(1) unfolding same_shape_def by (metis length_map)
  have "lk_key L (mm_karr m' ! n) = lk_key L (mm_karr m ! n)" if "n < length (mm_karr m)" for n
  proof -
    have "map (lk_key L) (mm_karr m') ! n = map (lk_key L) (mm_karr m) ! n" using assms(1) by (simp add: same_shape_def)
    then show ?thesis using that len by simp
  qed
  then show ?thesis using assms same_shape_len [OF assms(1)] same_shape_hash [OF assms(1)] len
    by (auto simp: msg_ok_def same_shape_def)
qed

lemma same_shape_own: "same_shape L m m' \<Longrightarrow> own_key m' n \<longleftrightarrow> own_key m n"
  by (simp add: same_shape_def own_key_def)

lemma same_shape_set: "same_shape L m m' \<Longrightarrow> b \<le> length (mm_keys m) \<Longrightarrow> own_set m' a b = own_set m a b"
  unfolding own_set_def using same_shape_own [of L m m'] same_shape_hash [of L m m'] by (metis (no_types, lifting) le_trans not_le)

lemma same_shape_owned: "same_shape L m m' \<Longrightarrow> owned m' = owned m"
  unfolding owned_def using same_shape_set [of L m m' "length (mm_keys m')" 0] same_shape_len by fastforce

lemma map_update_same: "f x = f (xs ! n) \<Longrightarrow> map f (xs[n := x]) = map f xs"
  by (cases "n < length xs") (auto intro!: nth_equalityI simp: nth_list_update list_update_beyond)

lemma same_shape_status: "same_shape L m (set_kstatus n st m)"
  by (simp add: same_shape_def set_kstatus_def map_update_same)

lemma same_shape_karr_set:
  "lk_key L e = lk_key L (mm_karr m ! n) \<Longrightarrow> same_shape L m (m\<lparr>mm_karr := (mm_karr m)[n := e]\<rparr>)"
  by (simp add: same_shape_def map_update_same)

lemma own_set_n [simp]: "own_set (m\<lparr>mm_n := x\<rparr>) a b = own_set m a b" "own_key (m\<lparr>mm_n := x\<rparr>) n = own_key m n"
  by (simp_all add: own_set_def own_key_def)

lemma own_set_step:
  "k < b \<Longrightarrow> own_set m k b = (if own_key m k then insert (mk_hash (mm_keys m ! k)) (own_set m (Suc k) b) else own_set m (Suc k) b)"
  by (auto simp: own_set_def Suc_le_eq le_less)

lemma own_set_last:
  "own_set m 0 (Suc n) = (if own_key m n then insert (mk_hash (mm_keys m ! n)) (own_set m 0 n) else own_set m 0 n)"
  by (auto simp: own_set_def less_Suc_eq)

lemma own_set_mono: "b \<le> c \<Longrightarrow> own_set m a b \<subseteq> own_set m a c"
  by (auto simp: own_set_def)

lemma own_set_empty [simp]: "own_set m k k = {}"
  by (auto simp: own_set_def)

text \<open>The laws of the locks: a lock that is held is not given again, also not to its holder; nothing
  but the key asked for changes; what is free can be had.\<close>

locale key_locks =
  fixes L :: "('e, 'w) lock_ops" and held :: "'w \<Rightarrow> key_hash set" and others :: "'w \<Rightarrow> key_hash set"
  assumes busy: "lk_acquire L w e = (KEY_BUSY, e', w') \<Longrightarrow> held w' = held w"
    and acquired: "lk_acquire L w e = (st, e', w') \<Longrightarrow> st \<noteq> KEY_BUSY \<Longrightarrow>
          lk_key L e \<notin> held w \<and> held w \<subseteq> held w' \<and> held w' \<subseteq> insert (lk_key L e) (held w)"
    and kept: "lk_acquire L w e = (st, e', w') \<Longrightarrow> st = KEY_OK \<or> st = KEY_IS_NEW \<Longrightarrow> lk_key L e \<in> held w'"
    and acquire_key: "lk_acquire L w e = (st, e', w') \<Longrightarrow> lk_key L e' = lk_key L e"
    and released: "lk_release L w e = (e', w') \<Longrightarrow> held w' = held w - {lk_key L e}"
    and release_key: "lk_release L w e = (e', w') \<Longrightarrow> lk_key L e' = lk_key L e"
    and set_key: "lk_key L (lk_set L h) = h"
    and copy_key: "lk_key L (lk_copy L e e2) = lk_key L e"
    and free: "lk_key L e \<notin> held w \<Longrightarrow> lk_key L e \<notin> others w \<Longrightarrow> fst (lk_acquire L w e) \<noteq> KEY_BUSY"
    and others: "lk_acquire L w e = (st, e', w') \<Longrightarrow> others w' = others w"
begin

lemma lock_keys_spec:
  "msg_ok L m \<Longrightarrow> k \<le> length (mm_keys m) \<Longrightarrow> lock_keys L front rest [k..<length (mm_keys m)] m w = (ok, m', w') \<Longrightarrow>
    same_shape L m m' \<and> k \<le> mm_n m' \<and> mm_n m' \<le> length (mm_keys m) \<and> (ok \<longrightarrow> mm_n m' = length (mm_keys m))
    \<and> held w \<subseteq> held w' \<and> held w' \<subseteq> held w \<union> own_set m k (mm_n m') \<and> own_set m k (mm_n m') \<inter> held w = {}"
proof (induction "length (mm_keys m) - k" arbitrary: k m w)
  case 0
  then have "m' = m\<lparr>mm_n := length (mm_keys m)\<rparr> \<and> w' = w \<and> k = length (mm_keys m)" by simp
  then show ?case by simp
next
  case (Suc x)
  then have k: "k < length (mm_keys m)" by simp
  define m1 where "m1 = m\<lparr>mm_n := k\<rparr>"
  have ns: "[k..<length (mm_keys m)] = k # [Suc k..<length (mm_keys m)]" using k by (simp add: upt_conv_Cons)
  have m1: "same_shape L m m1" "mm_karr m1 = mm_karr m" "mm_keys m1 = mm_keys m" by (simp_all add: m1_def same_shape_def)
  have key: "lk_key L (mm_karr m ! k) = mk_hash (mm_keys m ! k)" using Suc.prems(1) k by (simp add: msg_ok_def)
  show ?case
  proof (cases "own_key m k")
    case True
    obtain st e w1 where a: "lk_acquire L w (mm_karr m ! k) = (st, e, w1)" by (cases "lk_acquire L w (mm_karr m ! k)") auto
    define m2 where "m2 = set_kstatus k st (m1\<lparr>mm_karr := (mm_karr m1)[k := e]\<rparr>)"
    have sh: "same_shape L m m2"
      unfolding m2_def using m1 acquire_key [OF a]
      by (metis same_shape_trans same_shape_status same_shape_karr_set)
    have n2: "mm_n m2 = k" by (simp add: m2_def m1_def set_kstatus_def)
    have run: "lock_keys L front rest [k..<length (mm_keys m)] m w
        = (if st = KEY_BUSY then (False, m2, w1) else lock_keys L front rest [Suc k..<length (mm_keys m)] m2 w1)"
      unfolding ns using True a by (simp add: m2_def m1_def Let_def)
    show ?thesis
    proof (cases "st = KEY_BUSY")
      case True
      then have "(ok, m', w') = (False, m2, w1)" using run Suc.prems(3) by simp
      then show ?thesis using busy [OF a [unfolded True]] sh n2 k by simp
    next
      case False
      have "lock_keys L front rest [Suc k..<length (mm_keys m2)] m2 w1 = (ok, m', w')"
        using run False Suc.prems(3) same_shape_len [OF sh] by simp
      moreover have "msg_ok L m2" using same_shape_karr [OF sh Suc.prems(1)] .
      ultimately have ih: "same_shape L m2 m' \<and> Suc k \<le> mm_n m' \<and> mm_n m' \<le> length (mm_keys m2) \<and> (ok \<longrightarrow> mm_n m' = length (mm_keys m2))
        \<and> held w1 \<subseteq> held w' \<and> held w' \<subseteq> held w1 \<union> own_set m2 (Suc k) (mm_n m') \<and> own_set m2 (Suc k) (mm_n m') \<inter> held w1 = {}"
        using Suc.hyps(1) [of m2 "Suc k" w1] Suc.hyps(2) k same_shape_len [OF sh] by simp
      have set2: "own_set m2 (Suc k) (mm_n m') = own_set m (Suc k) (mm_n m')"
        using ih same_shape_len [OF sh] by (intro same_shape_set [OF sh]) simp
      have step: "own_set m k (mm_n m') = insert (mk_hash (mm_keys m ! k)) (own_set m (Suc k) (mm_n m'))"
        using own_set_step [of k "mm_n m'" m] ih True by simp
      show ?thesis
        using ih acquired [OF a False] key same_shape_trans [OF sh] same_shape_len [OF sh] unfolding set2 step by auto
    qed
  next
    case False
    define m2 where "m2 = set_kstatus k (x_kstatus (mk_ctx (the (get_dup_key (mk_hash (mm_keys m1 ! k)) (mm_id m1, k) False
      (front @ [m1] @ rest))))) m1"
    have sh: "same_shape L m m2" unfolding m2_def using m1 by (metis same_shape_trans same_shape_status)
    have run: "lock_keys L front rest [k..<length (mm_keys m)] m w = lock_keys L front rest [Suc k..<length (mm_keys m)] m2 w"
      unfolding ns using False by (simp add: m2_def m1_def Let_def)
    have "lock_keys L front rest [Suc k..<length (mm_keys m2)] m2 w = (ok, m', w')"
      using run Suc.prems(3) same_shape_len [OF sh] by simp
    moreover have "msg_ok L m2" using same_shape_karr [OF sh Suc.prems(1)] .
    ultimately have ih: "same_shape L m2 m' \<and> Suc k \<le> mm_n m' \<and> mm_n m' \<le> length (mm_keys m2) \<and> (ok \<longrightarrow> mm_n m' = length (mm_keys m2))
        \<and> held w \<subseteq> held w' \<and> held w' \<subseteq> held w \<union> own_set m2 (Suc k) (mm_n m') \<and> own_set m2 (Suc k) (mm_n m') \<inter> held w = {}"
      using Suc.hyps(1) [of m2 "Suc k" w] Suc.hyps(2) k same_shape_len [OF sh] by simp
    have set2: "own_set m2 (Suc k) (mm_n m') = own_set m k (mm_n m')"
      using ih same_shape_len [OF sh] own_set_step [of k "mm_n m'" m] False
      by (subst same_shape_set [OF sh]) simp_all
    show ?thesis using ih same_shape_trans [OF sh] same_shape_len [OF sh] unfolding set2 by auto
  qed
qed

lemma release_keys_spec:
  "msg_ok L m \<Longrightarrow> n \<le> length (mm_keys m) \<Longrightarrow> release_keys L n m w = (m', w') \<Longrightarrow>
    same_shape L m m' \<and> mm_n m' = 0 \<and> held w' = held w - own_set m 0 n"
proof (induction n arbitrary: m w)
  case (Suc n)
  show ?case
  proof (cases "own_key m n")
    case True
    obtain e w1 where a: "lk_release L w (mm_karr m ! n) = (e, w1)" by force
    define m1 where "m1 = m\<lparr>mm_karr := (mm_karr m)[n := e]\<rparr>"
    have sh: "same_shape L m m1" unfolding m1_def using release_key [OF a] same_shape_karr_set by metis
    have "lk_key L (mm_karr m ! n) = mk_hash (mm_keys m ! n)" using Suc.prems(1,2) by (simp add: msg_ok_def)
    then have w1: "held w1 = held w - {mk_hash (mm_keys m ! n)}" using released [OF a] by simp
    have "release_keys L n m1 w1 = (m', w')" using Suc.prems(3) True a by (simp add: m1_def)
    then have "same_shape L m1 m' \<and> mm_n m' = 0 \<and> held w' = held w1 - own_set m1 0 n"
      using Suc.IH [of m1 w1] same_shape_karr [OF sh Suc.prems(1)] same_shape_len [OF sh] Suc.prems(2) by simp
    then show ?thesis
      using w1 True same_shape_trans [OF sh] same_shape_set [OF sh, of n 0] Suc.prems(2) by (auto simp: own_set_last)
  next
    case False
    then show ?thesis using Suc.IH [of m w] Suc.prems by (simp add: own_set_last)
  qed
qed auto

lemma release_back_spec:
  "\<forall>m\<in>set ms. msg_ok L m \<Longrightarrow> release_back L ms w = (ms', w') \<Longrightarrow>
    list_all2 (same_shape L) (rev ms) ms' \<and> held w' = held w - (\<Union>m\<in>set ms. owned m)"
proof (induction ms arbitrary: w ms' w')
  case (Cons m ms)
  obtain m' w1 where r: "release_keys L (length (mm_keys m)) m w = (m', w1)" by force
  obtain ms1 w2 where b: "release_back L ms w1 = (ms1, w2)" by force
  have "same_shape L m m' \<and> held w1 = held w - owned m"
    using release_keys_spec [OF _ _ r] Cons.prems(1) by (simp add: owned_def)
  then show ?case using Cons.IH [OF _ b] Cons.prems r b by (auto simp: list_all2_appendI)
qed simp

text \<open>How the locks stand relative to those that were held before: the messages up to the one that is
  being locked hold at most their own keys, which were not held.\<close>

definition lock_at :: "'e multi_msg list \<Rightarrow> 'e multi_msg \<Rightarrow> 'w \<Rightarrow> 'w \<Rightarrow> bool" where
  "lock_at front m w0 w \<longleftrightarrow> mm_n m \<le> length (mm_keys m)
     \<and> held w0 \<subseteq> held w \<and> held w \<subseteq> held w0 \<union> (\<Union>x\<in>set front. owned x) \<union> own_set m 0 (mm_n m)
     \<and> ((\<Union>x\<in>set front. owned x) \<union> own_set m 0 (mm_n m)) \<inter> held w0 = {}"

definition locked :: "'e multi_msg list \<Rightarrow> nat option \<Rightarrow> 'w \<Rightarrow> 'w \<Rightarrow> bool" where
  "locked ms lck w0 w \<longleftrightarrow>
     (case lck of None \<Rightarrow> held w = held w0
      | Some i \<Rightarrow> \<exists>front m rest. ms = front @ m # rest \<and> mm_id m = i \<and> lock_at front m w0 w)"

lemma release_locked:
  assumes "locked (mu_list mu) (mu_lock mu) w0 w" "distinct (map mm_id (mu_list mu))" "\<forall>m\<in>set (mu_list mu). msg_ok L m"
    "multi_release_lock L mu w = (mu', w')"
  shows "held w' = held w0 \<and> mu_lock mu' = None \<and> list_all2 (same_shape L) (mu_list mu) (mu_list mu')
    \<and> (\<exists>ms. mu' = mu\<lparr>mu_lock := None, mu_list := ms\<rparr>)"
proof (cases "mu_lock mu")
  case None
  then show ?thesis using assms by (auto simp: multi_release_lock_def locked_def list_all2_refl intro: exI [of _ "mu_list mu"])
next
  case (Some i)
  obtain front m rest where l: "mu_list mu = front @ m # rest" "mm_id m = i" "mm_n m \<le> length (mm_keys m)"
    "held w0 \<subseteq> held w" "held w \<subseteq> held w0 \<union> (\<Union>x\<in>set front. owned x) \<union> own_set m 0 (mm_n m)"
    "((\<Union>x\<in>set front. owned x) \<union> own_set m 0 (mm_n m)) \<inter> held w0 = {}"
    using assms(1) Some by (auto simp: locked_def lock_at_def)
  have "\<forall>x\<in>set front. mm_id x \<noteq> i" using assms(2) l(1,2) by (metis IntI Un_iff distinct_append emptyE image_eqI insertCI
      list.simps(9) list.set(2) list.set_map map_append)
  then have split: "takeWhile (\<lambda>x. mm_id x \<noteq> i) (mu_list mu) = front" "dropWhile (\<lambda>x. mm_id x \<noteq> i) (mu_list mu) = m # rest"
    using l(1,2) by (auto simp: takeWhile_append2 dropWhile_append2)
  obtain m' w1 where r: "release_keys L (mm_n m) m w = (m', w1)" by force
  obtain front' w2 where b: "release_back L (rev front) w1 = (front', w2)" by force
  have run: "mu' = mu\<lparr>mu_lock := None, mu_list := front' @ [m'] @ rest\<rparr>" "w' = w2"
    using assms(4) Some split r b by (simp_all add: multi_release_lock_def)
  have rs: "same_shape L m m' \<and> mm_n m' = 0 \<and> held w1 = held w - own_set m 0 (mm_n m)"
    using release_keys_spec [OF _ l(3) r] assms(3) l(1) by simp
  have bs: "list_all2 (same_shape L) front front' \<and> held w2 = held w1 - (\<Union>x\<in>set front. owned x)"
    using release_back_spec [OF _ b] assms(3) l(1) by simp
  have "list_all2 (same_shape L) (front @ m # rest) (front' @ [m'] @ rest)"
    using rs bs by (simp add: list_all2_appendI list_all2_refl)
  moreover have "held w2 = held w0" using rs bs l(4-6) by auto
  ultimately show ?thesis using run l(1) by auto
qed

lemma lock_at_append:
  assumes "lock_at [] m1 w w1" "mm_n m1 = length (mm_keys m1)" "lock_at pre m w1 w2"
  shows "lock_at (m1 # pre) m w w2"
proof -
  have "own_set m1 0 (mm_n m1) = owned m1" by (simp add: owned_def assms(2))
  then show ?thesis using assms(1,3) by (auto simp: lock_at_def)
qed

lemma try_lock_spec:
  "\<forall>m\<in>set ms. msg_ok L m \<Longrightarrow> try_lock_list L front lck ms w = (ok, lck', ms', w') \<Longrightarrow>
    \<exists>ds. ms' = front @ ds \<and> list_all2 (same_shape L) ms ds \<and>
      (if ms = [] then ok \<and> lck' = lck \<and> w' = w
       else \<exists>pre m post. ds = pre @ m # post \<and> lck' = Some (mm_id m) \<and> lock_at pre m w w')"
proof (induction ms arbitrary: front lck w)
  case (Cons m rest)
  obtain ok1 m1 w1 where k: "lock_keys L front rest [0..<length (mm_keys m)] m w = (ok1, m1, w1)"
    by (cases "lock_keys L front rest [0..<length (mm_keys m)] m w") auto
  have sp: "same_shape L m m1" "mm_n m1 \<le> length (mm_keys m)" "ok1 \<longrightarrow> mm_n m1 = length (mm_keys m)"
    "held w \<subseteq> held w1" "held w1 \<subseteq> held w \<union> own_set m 0 (mm_n m1)" "own_set m 0 (mm_n m1) \<inter> held w = {}"
    using lock_keys_spec [OF _ _ k] Cons.prems(1) by simp_all
  have len: "length (mm_keys m1) = length (mm_keys m)" by (rule same_shape_len [OF sp(1)])
  have id: "mm_id m1 = mm_id m" using sp(1) by (simp add: same_shape_def)
  have at: "lock_at [] m1 w w1" using sp same_shape_set [OF sp(1,2)] len by (simp add: lock_at_def)
  show ?case
  proof (cases ok1)
    case False
    then have r: "ms' = front @ [m1] @ rest" "lck' = Some (mm_id m1)" "w' = w1" using Cons.prems(2) k id by auto
    have "\<exists>pre x post. m1 # rest = pre @ x # post \<and> lck' = Some (mm_id x) \<and> lock_at pre x w w'"
      using at r by (intro exI [of _ "[]"] exI [of _ m1] exI [of _ rest]) simp
    then show ?thesis using r sp(1) by (intro exI [of _ "m1 # rest"]) (simp add: list_all2_refl)
  next
    case True
    have "try_lock_list L (front @ [m1]) (Some (mm_id m)) rest w1 = (ok, lck', ms', w')"
      using Cons.prems(2) k True by simp
    then obtain ds where ds: "ms' = (front @ [m1]) @ ds" "list_all2 (same_shape L) rest ds"
      "if rest = [] then ok \<and> lck' = Some (mm_id m) \<and> w' = w1
       else \<exists>pre m post. ds = pre @ m # post \<and> lck' = Some (mm_id m) \<and> lock_at pre m w1 w'"
      using Cons.IH [of "front @ [m1]" "Some (mm_id m)" w1] Cons.prems(1) by auto
    have "\<exists>pre x post. m1 # ds = pre @ x # post \<and> lck' = Some (mm_id x) \<and> lock_at pre x w w'"
    proof (cases "rest = []")
      case True
      then show ?thesis using ds(3) at id by (intro exI [of _ "[]"] exI [of _ m1] exI [of _ ds]) simp
    next
      case False
      then obtain pre x post where p: "ds = pre @ x # post" "lck' = Some (mm_id x)" "lock_at pre x w1 w'" using ds(3) by auto
      have "lock_at (m1 # pre) x w w'" using lock_at_append [OF at _ p(3)] sp(3) len True by simp
      then show ?thesis using p(1,2) by (intro exI [of _ "m1 # pre"] exI [of _ x] exI [of _ post]) simp
    qed
    then show ?thesis using ds(1,2) sp(1) by (intro exI [of _ "m1 # ds"]) simp
  qed
qed simp

lemma shape_list:
  assumes "list_all2 (same_shape L) ms ms'"
  shows "map mm_id ms' = map mm_id ms" "(\<forall>m\<in>set ms. msg_ok L m) \<Longrightarrow> (\<forall>m\<in>set ms'. msg_ok L m)"
    "map owned ms' = map owned ms"
  using assms
  by (induction rule: list_all2_induct) (auto simp: same_shape_id same_shape_karr same_shape_owned)

lemma lock_then_release:
  assumes "distinct (map mm_id (mu_list mu))" "\<forall>m\<in>set (mu_list mu). msg_ok L m"
    "multi_try_lock L mu w = (ok, mu1, w1)"
  shows "locked (mu_list mu1) (mu_lock mu1) w w1 \<and> list_all2 (same_shape L) (mu_list mu) (mu_list mu1)
    \<and> (\<exists>ms lck. mu1 = mu\<lparr>mu_lock := lck, mu_list := ms\<rparr>)"
proof -
  obtain lck ms where t: "try_lock_list L [] None (mu_list mu) w = (ok, lck, ms, w1)" "mu1 = mu\<lparr>mu_lock := lck, mu_list := ms\<rparr>"
    using assms(3) by (auto simp: multi_try_lock_def split: prod.splits)
  obtain ds where ds: "ms = ds" "list_all2 (same_shape L) (mu_list mu) ds"
     "if mu_list mu = [] then lck = None \<and> w1 = w
       else \<exists>pre m post. ds = pre @ m # post \<and> lck = Some (mm_id m) \<and> lock_at pre m w w1"
    using try_lock_spec [OF assms(2) t(1)] by (auto split: if_splits)
  have "locked ds lck w w1"
  proof (cases "mu_list mu = []")
    case True
    then show ?thesis using ds(3) by (simp add: locked_def)
  next
    case False
    then obtain pre m post where "ds = pre @ m # post" "lck = Some (mm_id m)" "lock_at pre m w w1" using ds(3) by auto
    then show ?thesis unfolding locked_def by auto
  qed
  then show ?thesis using ds(1,2) t(2) by auto
qed


end

section \<open>What is free is locked at the first try\<close>

definition own_hashes :: "'e multi_msg \<Rightarrow> nat \<Rightarrow> key_hash list" where
  "own_hashes m k = map (\<lambda>n. mk_hash (mm_keys m ! n)) (filter (own_key m) [k..<length (mm_keys m)])"

lemma own_hashes_step:
  "k < length (mm_keys m) \<Longrightarrow>
    own_hashes m k = (if own_key m k then mk_hash (mm_keys m ! k) # own_hashes m (Suc k) else own_hashes m (Suc k))"
  by (simp add: own_hashes_def upt_conv_Cons)

lemma own_hashes_shape: "same_shape L m m' \<Longrightarrow> own_hashes m' k = own_hashes m k"
  using same_shape_len [of L m m'] same_shape_hash [of L m m'] same_shape_own [of L m m']
  by (auto simp: own_hashes_def cong: filter_cong)

lemma set_own_hashes: "set (own_hashes m 0) = owned m"
  by (auto simp: own_hashes_def owned_def own_set_def)

context key_locks
begin

lemma lock_keys_free:
  "msg_ok L m \<Longrightarrow> k \<le> length (mm_keys m) \<Longrightarrow> distinct (own_hashes m k) \<Longrightarrow>
    set (own_hashes m k) \<inter> (held w \<union> others w) = {} \<Longrightarrow>
    lock_keys L front rest [k..<length (mm_keys m)] m w = (ok, m', w') \<Longrightarrow> ok \<and> others w' = others w"
proof (induction "length (mm_keys m) - k" arbitrary: k m w)
  case (Suc x)
  then have k: "k < length (mm_keys m)" by simp
  have ns: "[k..<length (mm_keys m)] = k # [Suc k..<length (mm_keys m)]" using k by (simp add: upt_conv_Cons)
  have key: "lk_key L (mm_karr m ! k) = mk_hash (mm_keys m ! k)" using Suc.prems(1) k by (simp add: msg_ok_def)
  have ih: ?case if "lock_keys L front rest [k..<length (mm_keys m)] m w = lock_keys L front rest [Suc k..<length (mm_keys m)] m2 w2"
    "same_shape L m m2" "others w2 = others w" "held w2 \<subseteq> held w \<union> (set (own_hashes m k) - set (own_hashes m (Suc k)))" for m2 w2
  proof -
    have len: "length (mm_keys m2) = length (mm_keys m)" by (rule same_shape_len [OF that(2)])
    have "set (own_hashes m (Suc k)) \<subseteq> set (own_hashes m k)" using own_hashes_step [OF k] by auto
    then have "set (own_hashes m2 (Suc k)) \<inter> (held w2 \<union> others w2) = {}"
      using that(3,4) Suc.prems(4) own_hashes_shape [OF that(2)] by auto
    moreover have "distinct (own_hashes m2 (Suc k))"
      using Suc.prems(3) own_hashes_step [OF k] own_hashes_shape [OF that(2)] by (auto split: if_splits)
    ultimately show ?thesis
      using Suc.hyps(1) [of m2 "Suc k" w2] Suc.hyps(2) Suc.prems(5) that same_shape_karr [OF that(2) Suc.prems(1)] k
      by (simp add: len)
  qed
  show ?case
  proof (cases "own_key m k")
    case True
    obtain st e w1 where a: "lk_acquire L w (mm_karr m ! k) = (st, e, w1)" by (cases "lk_acquire L w (mm_karr m ! k)") auto
    have h: "mk_hash (mm_keys m ! k) \<notin> held w" "mk_hash (mm_keys m ! k) \<notin> others w"
      "mk_hash (mm_keys m ! k) \<notin> set (own_hashes m (Suc k))"
      using Suc.prems(3,4) own_hashes_step [OF k] True by auto
    then have nb: "st \<noteq> KEY_BUSY" using free [of "mm_karr m ! k" w] key a by simp
    define m2 where "m2 = set_kstatus k st ((m\<lparr>mm_n := k\<rparr>)\<lparr>mm_karr := (mm_karr m)[k := e]\<rparr>)"
    have "same_shape L (m\<lparr>mm_n := k\<rparr>) ((m\<lparr>mm_n := k\<rparr>)\<lparr>mm_karr := (mm_karr (m\<lparr>mm_n := k\<rparr>))[k := e]\<rparr>)"
      using acquire_key [OF a] by (intro same_shape_karr_set) simp
    then have sh: "same_shape L m m2"
      unfolding m2_def by (intro same_shape_trans [OF _ same_shape_status]) simp
    show ?thesis
    proof (rule ih [OF _ sh others [OF a]])
      show "lock_keys L front rest [k..<length (mm_keys m)] m w = lock_keys L front rest [Suc k..<length (mm_keys m)] m2 w1"
        unfolding ns using True a nb by (simp add: m2_def Let_def)
      show "held w1 \<subseteq> held w \<union> (set (own_hashes m k) - set (own_hashes m (Suc k)))"
        using acquired [OF a nb] key h(3) own_hashes_step [OF k] True by auto
    qed
  next
    case False
    define m1 where "m1 = m\<lparr>mm_n := k\<rparr>"
    define m2 where "m2 = set_kstatus k (x_kstatus (mk_ctx (the (get_dup_key (mk_hash (mm_keys m1 ! k)) (mm_id m1, k) False
      (front @ [m1] @ rest))))) m1"
    have sh: "same_shape L m m2"
      unfolding m2_def m1_def by (rule same_shape_trans [OF _ same_shape_status]) simp
    show ?thesis
      by (rule ih [OF _ sh refl]) (unfold ns, use False in \<open>simp_all add: m2_def m1_def Let_def\<close>)
  qed
qed simp

lemma try_lock_free:
  "\<forall>m\<in>set ms. msg_ok L m \<Longrightarrow> distinct (concat (map (\<lambda>m. own_hashes m 0) ms)) \<Longrightarrow>
    (\<Union>m\<in>set ms. owned m) \<inter> (held w \<union> others w) = {} \<Longrightarrow> fst (try_lock_list L front lck ms w)"
proof (induction ms arbitrary: front lck w)
  case (Cons m ms)
  obtain ok m' w' where k: "lock_keys L front ms [0..<length (mm_keys m)] m w = (ok, m', w')"
    by (cases "lock_keys L front ms [0..<length (mm_keys m)] m w") auto
  have f: "ok \<and> others w' = others w"
    using lock_keys_free [OF _ _ _ _ k] Cons.prems by (simp add: set_own_hashes Int_Un_distrib2)
  have s: "held w' \<subseteq> held w \<union> owned m"
    using lock_keys_spec [OF _ _ k] Cons.prems(1) own_set_mono [of "mm_n m'" "length (mm_keys m)" m 0] by (auto simp: owned_def)
  have d: "owned m \<inter> (\<Union>x\<in>set ms. owned x) = {}"
    using Cons.prems(2) by (auto simp: set_own_hashes)
  have "fst (try_lock_list L (front @ [m']) (Some (mm_id m)) ms w')"
    by (rule Cons.IH) (use Cons.prems f s d in \<open>auto\<close>)
  then show ?case using k f by simp
qed simp

end

section \<open>The filter hides no duplicate\<close>

text \<open>A set that may answer yes too often; \<open>seen\<close> are the elements it has to say yes to.\<close>

locale dup_filter =
  fixes test_set :: "'f \<Rightarrow> u64 \<Rightarrow> bool \<times> 'f" and seen :: "'f \<Rightarrow> u64 set" and valid :: "'f \<Rightarrow> bool"
  assumes test_seen: "valid f \<Longrightarrow> h \<in> seen f \<Longrightarrow> fst (test_set f h)"
    and set_seen: "valid f \<Longrightarrow> insert h (seen f) \<subseteq> seen (snd (test_set f h))"
    and set_valid: "valid f \<Longrightarrow> valid (snd (test_set f h))"
begin

text \<open>A search behind the filter finds what the search finds.\<close>

lemma filtered_search:
  assumes "valid f" "search \<noteq> None \<Longrightarrow> h \<in> seen f"
  shows "(if fst (test_set f h) then (case search of Some a \<Rightarrow> a | None \<Rightarrow> dflt) else dflt)
    = (case search of Some a \<Rightarrow> a | None \<Rightarrow> dflt)"
  using assms test_seen by (cases search) auto

end

definition filter_seen :: "u64 list \<Rightarrow> u64 set" where
  "filter_seen flt = {h. flt ! unat ((h div 64) mod 4) AND push_bit (unat (h mod 64)) 1 \<noteq> 0}"

lemma word_mod_4: "unat ((h div 64) mod 4 :: u64) < 4"
  by (simp add: unat_mod)

lemma filter_seen_bit: "h \<in> filter_seen flt \<longleftrightarrow> bit (flt ! unat ((h div 64) mod 4)) (unat (h mod 64))"
  unfolding filter_seen_def by (simp only: mem_Collect_eq bit_iff_and_push_bit_not_eq_0)

interpretation tf: dup_filter test_set_filter filter_seen "\<lambda>f. length f = 4"
proof
  fix f :: "u64 list" and h :: u64
  assume len: "length f = 4"
  show "h \<in> filter_seen f \<Longrightarrow> fst (test_set_filter f h)"
    by (simp add: test_set_filter_def filter_seen_def Let_def)
  show "length (snd (test_set_filter f h)) = 4" using len by (simp add: test_set_filter_def Let_def)
  have b: "unat (h mod 64) < 64" by (simp add: unat_mod)
  show "insert h (filter_seen f) \<subseteq> filter_seen (snd (test_set_filter f h))"
    using len b word_mod_4
    by (auto simp: filter_seen_bit test_set_filter_def Let_def nth_list_update bit_or_iff bit_push_bit_iff
        simp del: push_bit_of_1)
qed

section \<open>The queue of messages\<close>

definition msg_hashes :: "'e multi_msg \<Rightarrow> key_hash set" where
  "msg_hashes m = mk_hash ` set (mm_keys m)"

text \<open>A key points to the context of a key with its hash, and that key uses it itself. How the code has it: each
  key points to the first one with its hash.\<close>

definition keys_point :: "'e multi_msg list \<Rightarrow> bool" where
  "keys_point ms \<longleftrightarrow> (\<forall>m\<in>set ms. \<forall>n<length (mm_keys m). \<exists>m'\<in>set ms. \<exists>k<length (mm_keys m').
     mm_kptr m ! n = (mm_id m', k) \<and> own_key m' k \<and> mk_hash (mm_keys m' ! k) = mk_hash (mm_keys m ! n))"

definition first_ctx :: "'e multi_msg list \<Rightarrow> bool" where
  "first_ctx ms \<longleftrightarrow> (\<forall>m\<in>set ms. \<forall>n<length (mm_keys m). get_dup_kctx (mk_hash (mm_keys m ! n)) ms = Some (mm_kptr m ! n))"

text \<open>Messages with addresses of their own, with one context for each hash.\<close>

definition list_ok :: "('e, 'w) lock_ops \<Rightarrow> 'e multi_msg list \<Rightarrow> bool" where
  "list_ok L ms \<longleftrightarrow> distinct (map mm_id ms) \<and> (\<forall>m\<in>set ms. msg_ok L m) \<and> first_ctx ms
     \<and> distinct (concat (map (\<lambda>m. own_hashes m 0) ms)) \<and> (\<Union>m\<in>set ms. msg_hashes m) \<subseteq> (\<Union>m\<in>set ms. owned m)"

definition filter_ok :: "u64 list \<Rightarrow> 'e multi_msg list \<Rightarrow> bool" where
  "filter_ok flt ms \<longleftrightarrow> length flt = 4 \<and> (\<forall>m\<in>set ms. \<forall>h\<in>msg_hashes m. fst h \<in> filter_seen flt)"

text \<open>What holds of the state of a transaction between commands: no message is being locked, before MULTI
  nothing is queued, and the message with the number zero is the one of the watched keys.\<close>

definition tx_inv :: "('e, 'w) lock_ops \<Rightarrow> 'e multi option \<Rightarrow> bool" where
  "tx_inv L multi \<longleftrightarrow>
     (case multi of None \<Rightarrow> True
      | Some mu \<Rightarrow> list_ok L (mu_list mu) \<and> filter_ok (mu_filter mu) (mu_list mu) \<and> (\<forall>m\<in>set (mu_list mu). mm_id m \<le> mu_msg_count mu)
          \<and> mu_msg_count mu = length (mu_list mu) \<and> mu_lock mu = None \<and> mu_watch_count mu = length (mu_watch mu)
          \<and> (\<not> mu_start mu \<longrightarrow> mu_list mu = [])
          \<and> (\<forall>m\<in>set (mu_list mu). mm_id m = 0 \<longrightarrow> map mk_hash (mm_keys m) = map (mk_hash \<circ> wl_key) (mu_watch mu)))"

lemma dup_pos_some: "dup_pos h ks = Some k \<Longrightarrow> k < length ks \<and> mk_hash (ks ! k) = h"
  by (induction ks arbitrary: k) (auto split: if_splits)

lemma dup_pos_none: "dup_pos h ks = None \<longleftrightarrow> h \<notin> mk_hash ` set ks"
  by (induction ks) auto

lemma get_dup_kctx_some:
  "get_dup_kctx h ms = Some (i, n) \<Longrightarrow> \<exists>m\<in>set ms. mm_id m = i \<and> n < length (mm_keys m) \<and> mk_hash (mm_keys m ! n) = h"
  by (induction ms) (auto split: option.splits dest: dup_pos_some)

lemma get_dup_kctx_none: "get_dup_kctx h ms = None \<longleftrightarrow> (\<forall>m\<in>set ms. h \<notin> msg_hashes m)"
proof (induction ms)
  case (Cons m ms)
  then show ?case
    using dup_pos_none [of h "mm_keys m"] by (cases "dup_pos h (mm_keys m)") (auto simp: msg_hashes_def)
qed simp

lemma dup_pos_snoc: "dup_pos h (ks @ [k]) = (case dup_pos h ks of Some i \<Rightarrow> Some i | None \<Rightarrow> if mk_hash k = h then Some (length ks) else None)"
  by (induction ks) (auto split: option.splits)

lemma get_dup_kctx_append:
  "get_dup_kctx h (xs @ ys) = (case get_dup_kctx h xs of Some a \<Rightarrow> Some a | None \<Rightarrow> get_dup_kctx h ys)"
  by (induction xs) (auto split: option.splits)

lemma get_dup_kctx_snoc:
  assumes "mm_id mm' = mm_id mm" "mm_keys mm' = mm_keys mm @ [k]"
  shows "get_dup_kctx h (front @ [mm']) = (case get_dup_kctx h (front @ [mm]) of Some a \<Rightarrow> Some a
    | None \<Rightarrow> if mk_hash k = h then Some (mm_id mm, length (mm_keys mm)) else None)"
  by (simp add: get_dup_kctx_append dup_pos_snoc assms split: option.split)

lemma first_ctx_empty [simp]: "first_ctx []"
  by (simp add: first_ctx_def)

lemma first_ctx_new [simp]: "mm_keys mm = [] \<Longrightarrow> first_ctx (ms @ [mm]) = first_ctx ms"
proof -
  assume k: "mm_keys mm = []"
  then have "get_dup_kctx h (ms @ [mm]) = get_dup_kctx h ms" for h by (simp add: get_dup_kctx_append split: option.split)
  then show ?thesis using k by (auto simp: first_ctx_def)
qed

lemma first_points:
  assumes "first_ctx ms" "distinct (map mm_id ms)"
  shows "keys_point ms"
  unfolding keys_point_def
proof (intro ballI allI impI)
  fix m n
  assume m: "m \<in> set ms" "n < length (mm_keys m)"
  let ?h = "mk_hash (mm_keys m ! n)"
  have p: "get_dup_kctx ?h ms = Some (mm_kptr m ! n)" using assms(1) m by (simp add: first_ctx_def)
  obtain i k where ik: "mm_kptr m ! n = (i, k)" by force
  obtain m' where m': "m' \<in> set ms" "mm_id m' = i" "k < length (mm_keys m')" "mk_hash (mm_keys m' ! k) = ?h"
    using get_dup_kctx_some [of ?h ms i k] p ik by auto
  have "get_dup_kctx (mk_hash (mm_keys m' ! k)) ms = Some (mm_kptr m' ! k)" using assms(1) m'(1,3) by (simp add: first_ctx_def)
  then have "get_dup_kctx ?h ms = Some (mm_kptr m' ! k)" using m'(4) by simp
  then have "own_key m' k" using p ik m'(2) by (simp add: own_key_def)
  then show "\<exists>m'\<in>set ms. \<exists>k<length (mm_keys m'). mm_kptr m ! n = (mm_id m', k) \<and> own_key m' k \<and> mk_hash (mm_keys m' ! k) = ?h"
    using m' ik by blast
qed

lemma own_hashes_append:
  assumes "length (mm_kptr mm) = length (mm_keys mm)"
  shows "own_hashes (mm\<lparr>mm_keys := mm_keys mm @ [k], mm_kptr := mm_kptr mm @ [p], mm_karr := ka\<rparr>) 0
    = own_hashes mm 0 @ (if p = (mm_id mm, length (mm_keys mm)) then [mk_hash k] else [])"
proof -
  let ?m = "mm\<lparr>mm_keys := mm_keys mm @ [k], mm_kptr := mm_kptr mm @ [p], mm_karr := ka\<rparr>"
  have "own_key ?m n \<longleftrightarrow> own_key mm n" "mk_hash (mm_keys ?m ! n) = mk_hash (mm_keys mm ! n)" if "n < length (mm_keys mm)" for n
    using that assms by (simp_all add: own_key_def nth_append)
  then have "map (\<lambda>n. mk_hash (mm_keys ?m ! n)) (filter (own_key ?m) [0..<length (mm_keys mm)]) = own_hashes mm 0"
    unfolding own_hashes_def by (intro map_cong filter_cong) auto
  moreover have "own_key ?m (length (mm_keys mm)) \<longleftrightarrow> p = (mm_id mm, length (mm_keys mm))"
    using assms by (simp add: own_key_def nth_append)
  ultimately show ?thesis by (simp add: own_hashes_def)
qed

context key_locks
begin

text \<open>One more key keeps the queue in order; its message is the last one.\<close>

lemma queue_key_ok:
  assumes "list_ok L (front @ mm # rest)" "filter_ok flt (front @ mm # rest)"
    "queue_key L (front @ mm # rest) k mm flt = (mm', flt')" "rest = []"
  shows "list_ok L (front @ mm' # rest) \<and> filter_ok flt' (front @ mm' # rest) \<and> mm_id mm' = mm_id mm
    \<and> mm_keys mm' = mm_keys mm @ [k]"
proof -
  let ?h = "mk_hash k" and ?self = "(mm_id mm, length (mm_keys mm))" and ?ms = "front @ mm # rest"
  define ptr where "ptr = (case get_dup_kctx ?h ?ms of Some kp \<Rightarrow> kp | None \<Rightarrow> ?self)"
  have seen: "get_dup_kctx ?h ?ms \<noteq> None \<Longrightarrow> fst ?h \<in> filter_seen flt"
    using assms(2) get_dup_kctx_none [of ?h ?ms] by (auto simp: filter_ok_def)
  have len: "length flt = 4" using assms(2) by (simp add: filter_ok_def)
  have mm': "mm' = mm\<lparr>mm_keys := mm_keys mm @ [k], mm_kptr := mm_kptr mm @ [ptr], mm_karr := mm_karr mm @ [lk_set L ?h]\<rparr>"
    "flt' = snd (test_set_filter flt (fst ?h))"
    using assms(3) tf.filtered_search [where dflt = ?self, OF len seen] unfolding queue_key_def ptr_def Let_def
    by (auto split: prod.splits)
  have lens: "length (mm_kptr mm) = length (mm_keys mm)" "length (mm_karr mm) = length (mm_keys mm)"
    using assms(1) by (auto simp: list_ok_def msg_ok_def)
  have self: "ptr = ?self \<longleftrightarrow> get_dup_kctx ?h ?ms = None"
  proof (cases "get_dup_kctx ?h ?ms")
    case (Some a)
    then obtain i n m where a: "a = (i, n)" "m \<in> set ?ms" "mm_id m = i" "n < length (mm_keys m)"
      using get_dup_kctx_some [of ?h ?ms] by (cases a) auto
    have inj: "inj_on mm_id (set ?ms)" using assms(1) unfolding list_ok_def distinct_map by blast
    have "mm \<in> set ?ms" by simp
    then have "mm_id m = mm_id mm \<Longrightarrow> m = mm" using inj_onD [OF inj _ a(2)] by blast
    then show ?thesis using Some a by (auto simp: ptr_def)
  qed (simp add: ptr_def)
  have oh: "own_hashes mm' 0 = own_hashes mm 0 @ (if get_dup_kctx ?h ?ms = None then [?h] else [])"
    unfolding mm'(1) own_hashes_append [OF lens(1)] self by simp
  have owned': "owned mm' = owned mm \<union> (if get_dup_kctx ?h ?ms = None then {?h} else {})"
    unfolding set_own_hashes [symmetric] oh by auto
  have hashes': "msg_hashes mm' = insert ?h (msg_hashes mm)" by (auto simp: mm'(1) msg_hashes_def)
  have ok': "msg_ok L mm'"
    using assms(1) lens set_key by (auto simp: mm'(1) list_ok_def msg_ok_def nth_append less_Suc_eq)
  have ownh: "m \<in> set ?ms \<Longrightarrow> owned m \<subseteq> msg_hashes m" for m
    by (auto simp: owned_def own_set_def msg_hashes_def)
  have cover: "?h \<in> owned mm' \<union> (\<Union>m\<in>set front \<union> set rest. owned m)"
  proof (cases "get_dup_kctx ?h ?ms = None")
    case False
    then obtain m where "m \<in> set ?ms" "?h \<in> msg_hashes m" using get_dup_kctx_none [of ?h ?ms] by auto
    then have "?h \<in> (\<Union>m\<in>set ?ms. owned m)" using assms(1) by (auto simp: list_ok_def)
    then show ?thesis using owned' by auto
  qed (simp add: owned')
  have "list_ok L (front @ mm' # rest)"
    unfolding list_ok_def
  proof (intro conjI)
    show "distinct (map mm_id (front @ mm' # rest))" using assms(1) by (simp add: list_ok_def mm'(1))
    show "\<forall>m\<in>set (front @ mm' # rest). msg_ok L m" using assms(1) ok' by (auto simp: list_ok_def)
    have fst': "get_dup_kctx h (front @ mm' # rest) = (case get_dup_kctx h ?ms of Some a \<Rightarrow> Some a
      | None \<Rightarrow> if mk_hash k = h then Some ?self else None)" for h
      unfolding assms(4) by (rule get_dup_kctx_snoc) (simp_all add: mm'(1))
    have old: "first_ctx ?ms" using assms(1) by (simp add: list_ok_def)
    show "first_ctx (front @ mm' # rest)"
      unfolding first_ctx_def
    proof (intro ballI allI impI)
      fix m n
      assume m: "m \<in> set (front @ mm' # rest)" "n < length (mm_keys m)"
      show "get_dup_kctx (mk_hash (mm_keys m ! n)) (front @ mm' # rest) = Some (mm_kptr m ! n)"
      proof (cases "m = mm'")
        case True
        show ?thesis
        proof (cases "n < length (mm_keys mm)")
          case n: True
          have "get_dup_kctx (mk_hash (mm_keys mm ! n)) ?ms = Some (mm_kptr mm ! n)" using old n by (auto simp: first_ctx_def)
          moreover have "mm_keys m ! n = mm_keys mm ! n" "mm_kptr m ! n = mm_kptr mm ! n"
            using True n lens by (simp_all add: mm'(1) nth_append)
          ultimately show ?thesis by (simp add: fst')
        next
          case False
          then have "n = length (mm_keys mm)" using m(2) True by (simp add: mm'(1))
          then have "mm_keys m ! n = k" "mm_kptr m ! n = ptr" using True lens by (simp_all add: mm'(1) nth_append)
          then show ?thesis by (simp add: fst' ptr_def split: option.split)
        qed
      next
        case False
        then have "m \<in> set ?ms" using m(1) by auto
        then have "get_dup_kctx (mk_hash (mm_keys m ! n)) ?ms = Some (mm_kptr m ! n)" using old m(2) unfolding first_ctx_def by blast
        then show ?thesis by (simp add: fst')
      qed
    qed
    have "get_dup_kctx ?h ?ms = None \<Longrightarrow> ?h \<notin> (\<Union>m\<in>set ?ms. owned m)" using get_dup_kctx_none ownh by blast
    moreover define A B where "A = concat (map (\<lambda>m. own_hashes m 0) front)" and "B = concat (map (\<lambda>m. own_hashes m 0) rest)"
    moreover have "set A = (\<Union>m\<in>set front. owned m)" "set B = (\<Union>m\<in>set rest. owned m)"
      by (simp_all add: A_def B_def set_own_hashes)
    ultimately have n: "get_dup_kctx ?h ?ms = None \<Longrightarrow> ?h \<notin> set A \<and> ?h \<notin> set B \<and> ?h \<notin> set (own_hashes mm 0)"
      by (simp add: set_own_hashes)
    have "distinct (A @ own_hashes mm 0 @ B)" using assms(1) by (simp add: list_ok_def A_def B_def)
    then have "distinct (A @ own_hashes mm' 0 @ B)" using n unfolding oh by auto
    then show "distinct (concat (map (\<lambda>m. own_hashes m 0) (front @ mm' # rest)))" by (simp add: A_def B_def)
    show "(\<Union>m\<in>set (front @ mm' # rest). msg_hashes m) \<subseteq> (\<Union>m\<in>set (front @ mm' # rest). owned m)"
    proof -
      define R where "R = (\<Union>m\<in>set front \<union> set rest. owned m)"
      define Q where "Q = (\<Union>m\<in>set front \<union> set rest. msg_hashes m)"
      have sp: "(\<Union>m\<in>set (front @ x # rest). f m) = f x \<union> (\<Union>m\<in>set front \<union> set rest. f m)" for f :: "'e multi_msg \<Rightarrow> key_hash set" and x
        by auto
      have "msg_hashes mm \<union> Q \<subseteq> owned mm \<union> R" using assms(1) unfolding list_ok_def sp Q_def R_def by blast
      moreover have "?h \<in> owned mm' \<union> R" using cover by (simp add: R_def)
      moreover have "owned mm \<subseteq> owned mm'" using owned' by auto
      ultimately show ?thesis unfolding sp hashes' Q_def [symmetric] R_def [symmetric] by blast
    qed
  qed
  moreover have "filter_ok flt' (front @ mm' # rest)"
    unfolding filter_ok_def
  proof (intro conjI ballI)
    show "length flt' = 4" unfolding mm'(2) by (rule tf.set_valid [OF len])
    have sub: "insert (fst ?h) (filter_seen flt) \<subseteq> filter_seen flt'" unfolding mm'(2) by (rule tf.set_seen [OF len])
    fix m h assume "m \<in> set (front @ mm' # rest)" "h \<in> msg_hashes m"
    then have "h = ?h \<or> (\<exists>m\<in>set ?ms. h \<in> msg_hashes m)" using hashes' by auto
    then show "fst h \<in> filter_seen flt'" using assms(2) sub unfolding filter_ok_def by blast
  qed
  ultimately show ?thesis by (simp add: mm'(1))
qed

lemma queue_keys_ok:
  assumes "queue_keys L mem ex room ms i mm flt = Some (st, mm', flt')"
    "list_ok L (ms @ [mm])" "filter_ok flt (ms @ [mm])"
  shows "list_ok L (ms @ [mm']) \<and> filter_ok flt' (ms @ [mm']) \<and> mm_id mm' = mm_id mm"
proof -
  let ?P = "\<lambda>L' mem ex room ms i mm flt y. L' = L \<longrightarrow> list_ok L (ms @ [mm]) \<longrightarrow> filter_ok flt (ms @ [mm]) \<longrightarrow>
    (case y of (st, mm', flt') \<Rightarrow> list_ok L (ms @ [mm']) \<and> filter_ok flt' (ms @ [mm']) \<and> mm_id mm' = mm_id mm)"
  have "?P L mem ex room ms i mm flt (st, mm', flt')"
  proof (rule queue_keys.raw_induct [where P = ?P, OF _ assms(1)], goal_cases)
    case (1 qk L' mem ex room ms i mm flt y)
    note ih = 1(1) and eq = 1(2)
    show ?case
    proof (intro impI)
      assume L: "L' = L" and ok: "list_ok L (ms @ [mm])" "filter_ok flt (ms @ [mm])"
      show "case y of (st, mm', flt') \<Rightarrow> list_ok L (ms @ [mm']) \<and> filter_ok flt' (ms @ [mm']) \<and> mm_id mm' = mm_id mm"
      proof (cases "get_arg_str (ex_msg ex) (nat i) = None \<or> \<not> mem (length (mm_keys mm))")
        case True
        then show ?thesis using eq ok by (auto split: option.splits if_splits)
      next
        case False
        then obtain key where key: "get_arg_str (ex_msg ex) (nat i) = Some key" "mem (length (mm_keys mm))" by auto
        define k where "k = \<lparr>mk_hash = lk_hash L key, mk_ctx = (lk_ctx L key (nat i))\<lparr>x_status := EXEC_CONTINUE\<rparr>\<rparr>"
        obtain mm1 flt1 where q: "queue_key L (ms @ [mm]) k mm flt = (mm1, flt1)" by force
        have ok1: "list_ok L (ms @ [mm1])" "filter_ok flt1 (ms @ [mm1])" "mm_id mm1 = mm_id mm"
          using queue_key_ok [where rest = "[]", OF ok q refl] by simp_all
        show ?thesis
          using eq key q ok1 ih [of L mem ex room ms _ mm1 flt1 y]
          by (auto simp: L k_def [symmetric] split: option.splits if_splits)
      qed
    qed
  qed
  then show ?thesis using assms by simp
qed


lemma tx_inv_new: "tx_inv L (Some (new_multi\<lparr>mu_start := b\<rparr>))"
  by (simp add: tx_inv_def new_multi_def list_ok_def filter_ok_def)

lemma queued_ok:
  assumes "tx_inv L (Some mu)" "mu_start mu" "multi_queued L U mem mem_ok ex mu = Some (st, mu')"
  shows "tx_inv L (Some mu') \<and> mu_start mu'"
proof -
  define room where "room = (if key_first ex > 0 then unat (calc_key_count U ex) else 0)"
  define mm where "mm = (\<lparr>mm_id = Suc (mu_msg_count mu), mm_msg = dup mem (ex_msg ex), mm_cmd = ex_cmd ex,
                 mm_keys = [], mm_kptr = [], mm_karr = [], mm_n = 0\<rparr> :: 'e multi_msg)"
  have inv: "list_ok L (mu_list mu)" "filter_ok (mu_filter mu) (mu_list mu)" "\<forall>m\<in>set (mu_list mu). mm_id m \<le> mu_msg_count mu"
    "mu_msg_count mu = length (mu_list mu)" "mu_lock mu = None" "mu_watch_count mu = length (mu_watch mu)"
    using assms(1) unfolding tx_inv_def option.case by blast+
  have watched: "mm_id m = 0 \<Longrightarrow> map mk_hash (mm_keys m) = map (mk_hash \<circ> wl_key) (mu_watch mu)" if "m \<in> set (mu_list mu)" for m
    using assms(1) that unfolding tx_inv_def option.case by blast
  have "list_ok L (mu_list mu @ [mm])"
    using inv(1,3) by (auto simp: list_ok_def mm_def msg_ok_def own_hashes_def msg_hashes_def owned_def)
  moreover have "filter_ok (mu_filter mu) (mu_list mu @ [mm])" using inv(2) by (auto simp: filter_ok_def mm_def msg_hashes_def)
  ultimately have mm: "list_ok L (mu_list mu @ [mm])" "filter_ok (mu_filter mu) (mu_list mu @ [mm])" "mm_id mm = Suc (mu_msg_count mu)"
    by (simp_all add: mm_def)
  note run = assms(3) [unfolded multi_queued_def room_def [symmetric] mm_def [symmetric] Let_def]
  consider "\<not> mem_ok" | "mem_ok" "room = 0" | "mem_ok" "room \<noteq> 0" by blast
  then show ?thesis
  proof cases
    case 1
    then show ?thesis using run assms(1,2) by simp
  next
    case 2
    then have "mu' = mu\<lparr>mu_list := mu_list mu @ [mm], mu_msg_count := Suc (mu_msg_count mu)\<rparr>" using run by simp
    then show ?thesis using mm inv watched assms(2) by (auto simp: tx_inv_def)
  next
    case 3
    then obtain st' mm' flt' where q: "queue_keys L mem ex room (mu_list mu) (key_first ex) mm (mu_filter mu) = Some (st', mm', flt')"
      "mu' = mu\<lparr>mu_list := mu_list mu @ [mm'], mu_msg_count := Suc (mu_msg_count mu), mu_filter := flt'\<rparr>" using run by auto
    have ok: "list_ok L (mu_list mu @ [mm'])" "filter_ok flt' (mu_list mu @ [mm'])" "mm_id mm' = Suc (mu_msg_count mu)"
      using queue_keys_ok [OF q(1) mm(1,2)] mm(3) by auto
    have "\<forall>m\<in>set (mu_list mu @ [mm']). mm_id m \<le> Suc (mu_msg_count mu)" using inv(3) ok(3) by (auto intro: le_SucI)
    moreover have "\<forall>m\<in>set (mu_list mu @ [mm']). mm_id m = 0 \<longrightarrow> map mk_hash (mm_keys m) = map (mk_hash \<circ> wl_key) (mu_watch mu)"
      using watched ok(3) by auto
    moreover have "Suc (mu_msg_count mu) = length (mu_list mu @ [mm'])" using inv(4) by simp
    moreover have sel: "mu_list mu' = mu_list mu @ [mm']" "mu_filter mu' = flt'" "mu_msg_count mu' = Suc (mu_msg_count mu)"
      "mu_lock mu' = mu_lock mu" "mu_watch mu' = mu_watch mu" "mu_watch_count mu' = mu_watch_count mu" "mu_start mu' = mu_start mu"
      by (simp_all add: q(2))
    ultimately show ?thesis unfolding tx_inv_def option.case sel using inv(5,6) ok(1,2) assms(2) by blast
  qed
qed

lemma watch_keys_ok:
  "watch_keys L [] wls mm flt = (mm', flt') \<Longrightarrow> list_ok L [mm] \<Longrightarrow> filter_ok flt [mm] \<Longrightarrow>
    list_ok L [mm'] \<and> filter_ok flt' [mm'] \<and> mm_id mm' = mm_id mm \<and> mm_keys mm' = mm_keys mm @ map wl_key wls"
proof (induction wls arbitrary: mm flt)
  case (Cons wl wls)
  obtain mm1 flt1 where q: "queue_key L [mm] (wl_key wl) mm flt = (mm1, flt1)" by force
  have "list_ok L [mm1] \<and> filter_ok flt1 [mm1] \<and> mm_id mm1 = mm_id mm \<and> mm_keys mm1 = mm_keys mm @ [wl_key wl]"
    using queue_key_ok [of "[]" mm "[]" flt "wl_key wl" mm1 flt1] Cons.prems(2,3) q by simp
  then show ?case using Cons.IH [of mm1 flt1] Cons.prems(1) q by simp
qed simp

lemma multi_ok:
  assumes "tx_inv L multi" "exec_multi L make_ok mem_ok cs multi = (st, cs', multi')"
  shows "tx_inv L multi'"
proof (cases "(case multi of Some mu \<Rightarrow> mu_start mu | None \<Rightarrow> False) \<or> (multi = None \<and> \<not> make_ok)")
  case True
  then have "multi' = multi" using assms(2) by (auto simp: exec_multi_def split: if_splits)
  then show ?thesis using assms(1) by simp
next
  case False
  define mu where "mu = (case multi of Some mu \<Rightarrow> mu | None \<Rightarrow> new_multi)\<lparr>mu_start := True\<rparr>"
  define mm where "mm = (\<lparr>mm_id = 0, mm_msg = None, mm_cmd = WATCH_CMD, mm_keys = [], mm_kptr = [], mm_karr = [], mm_n = 0\<rparr> :: 'e multi_msg)"
  have inv: "tx_inv L (Some mu)" "mu_list mu = []"
    using assms(1) False tx_inv_new [of True] by (auto simp: mu_def tx_inv_def new_multi_def split: option.splits)
  obtain mm' flt' where q: "watch_keys L (mu_list mu) (mu_watch mu) mm (mu_filter mu) = (mm', flt')" by force
  have "list_ok L (mm # mu_list mu)" "filter_ok (mu_filter mu) (mm # mu_list mu)"
    using inv first_ctx_new [of mm "[]"] by (auto simp: tx_inv_def list_ok_def filter_ok_def mm_def msg_ok_def own_hashes_def msg_hashes_def owned_def)
  then have ok: "list_ok L [mm'] \<and> filter_ok flt' [mm'] \<and> mm_id mm' = 0 \<and> mm_keys mm' = map wl_key (mu_watch mu)"
    using watch_keys_ok [of "mu_watch mu" mm] q inv(2) by (simp add: mm_def)
  have "multi' = Some mu \<or> multi' = Some (mu\<lparr>mu_list := mm' # mu_list mu, mu_msg_count := Suc (mu_msg_count mu), mu_filter := flt'\<rparr>)"
    using assms(2) False q by (auto simp: exec_multi_def mu_def mm_def Let_def split: if_splits)
  moreover have "mu_start mu" by (simp add: mu_def)
  ultimately show ?thesis using inv ok by (auto simp: tx_inv_def)
qed

end

end
