(* ===== verification/Transaction_Exec.thy ===== *)
theory Transaction_Exec
  imports Transaction_Locks
begin

text \<open>
  EXEC and the states of a transaction: the reachable states as a step relation over the commands of a
  client, their invariant, that EXEC gives back the locks it took on every path, and that it has free keys at
  the first try. A table of locks is the sample.
\<close>

section \<open>Running the messages keeps the locks\<close>

lemma run_key_length:
  assumes "run_key E r i = Some y"
  shows "length (r_keys (snd y)) = length (r_keys r)"
proof (rule run_key.raw_induct [where P = "\<lambda>E r i y. length (r_keys (snd y)) = length (r_keys r)", OF _ assms], goal_cases)
  case (1 rk E r i y)
  show ?case
  proof (cases "run_handler E r i")
    case None
    then show ?thesis using 1(2) by simp
  next
    case (Some a)
    obtain x r1 where a: "a = (x, r1)" by force
    have keys: "r_keys r1 = r_keys r" using Some a by (auto simp: run_handler_def split: option.splits)
    show ?thesis
    proof (cases "is_read_only x")
      case False
      obtain x' kf where "after_write E r1 x = (x', kf)" by force
      then have "y = (False, set_key i x' (r1\<lparr>r_key_flags := kf\<rparr>))" using 1(2) Some a False by simp
      then show ?thesis using keys by (simp add: set_key_def)
    next
      case True
      then show ?thesis
        using 1(2) Some a keys 1(1) [of E _ i y] by (auto simp: set_key_def Let_def split: if_splits)
    qed
  qed
qed

lemma exec_key_continue_length:
  assumes "exec_key_continue E r i = Some (st, r')"
  shows "length (r_keys r') = length (r_keys r)"
proof -
  have fin: "length (r_keys (snd (finish_cmd E r i))) = length (r_keys r)" for r
    by (simp add: finish_cmd_def Let_def set_key_def)
  have rep: "length (r_keys (snd (key_reply E r i))) = length (r_keys r)" for r
    by (simp add: key_reply_def Let_def reply_status_def fin)
  have last: "length (r_keys (snd (last_key_done E r i))) = length (r_keys r)" for r
    by (simp add: last_key_done_def Let_def set_key_def fin rep)
  have kf: "length (r_keys (snd (key_finished E r i))) = length (r_keys r)" for r
    by (simp add: key_finished_def Let_def rep last)
  have snds: "z = (st, r') \<Longrightarrow> r' = snd z" for z :: "exec_status \<times> 'a run" by simp
  have one: "length (r_keys r1) = length (r_keys r)" if "run_key E r i = Some (d, r1)" for d r1
    using run_key_length [OF that] by simp
  show ?thesis
    using assms one kf fin
    by (auto simp: exec_key_continue_def Let_def split: if_splits option.splits dest!: snds)
qed

context key_locks
begin

definition same_msg :: "'e multi_msg \<Rightarrow> 'e multi_msg \<Rightarrow> bool" where
  "same_msg m m' \<longleftrightarrow> same_shape L m m' \<and> mm_n m' = mm_n m"

lemma same_msg_trans: "same_msg a b \<Longrightarrow> same_msg b c \<Longrightarrow> same_msg a c"
  using same_shape_trans by (auto simp: same_msg_def)

lemma same_msgs_trans: "list_all2 same_msg a b \<Longrightarrow> list_all2 same_msg b c \<Longrightarrow> list_all2 same_msg a c"
  by (rule list_all2_trans [OF same_msg_trans])

lemma same_msgs_refl: "list_all2 same_msg ms ms"
  by (simp add: list_all2_refl same_msg_def)

lemma locked_same:
  assumes "locked ms lck w0 w" "list_all2 same_msg ms ms'"
  shows "locked ms' lck w0 w"
proof (cases lck)
  case None
  then show ?thesis using assms(1) by (simp add: locked_def)
next
  case (Some i)
  then obtain front m rest where l: "ms = front @ m # rest" "mm_id m = i" "lock_at front m w0 w"
    using assms(1) by (auto simp: locked_def)
  obtain front' m' rest' where s: "ms' = front' @ m' # rest'" "list_all2 same_msg front front'" "same_msg m m'"
    using assms(2) unfolding l(1) list_all2_append1 list_all2_Cons1 by blast
  have "(\<Union>x\<in>set front'. owned x) = (\<Union>x\<in>set front. owned x)"
    using s(2) by (induction rule: list_all2_induct) (auto simp: same_msg_def same_shape_owned)
  moreover have "own_set m' 0 (mm_n m') = own_set m 0 (mm_n m)"
    using same_shape_set [of L m m' "mm_n m" 0] s(3) l(3) by (simp add: same_msg_def lock_at_def)
  ultimately have "lock_at front' m' w0 w"
    using l(3) s(3) using same_shape_len [of L m m'] by (simp add: lock_at_def same_msg_def)
  moreover have "mm_id m' = i" using s(3) l(2) same_shape_id by (auto simp: same_msg_def)
  ultimately have "\<exists>front m rest. ms' = front @ m # rest \<and> mm_id m = i \<and> lock_at front m w0 w"
    using s(1) by (intro exI [of _ front'] exI [of _ m'] exI [of _ rest']) simp
  then show ?thesis using Some by (simp add: locked_def)
qed

lemma kctx_at_key:
  assumes "lk_key L e' = lk_key L (kctx_at ms a)" "distinct (map mm_id ms)"
  shows "list_all2 same_msg ms (put_kctx a e' ms)"
proof -
  have "same_msg m (if mm_id m = fst a then m\<lparr>mm_karr := (mm_karr m)[snd a := e']\<rparr> else m)" if "m \<in> set ms" for m
  proof (cases "mm_id m = fst a")
    case True
    have "find (\<lambda>m. mm_id m = fst a) ms \<noteq> None" using that True by (auto simp: find_None_iff)
    then obtain m2 where f: "find (\<lambda>m. mm_id m = fst a) ms = Some m2" by auto
    then have "m2 \<in> set ms" "mm_id m2 = fst a" by (auto simp: find_Some_iff)
    then have "m2 = m" using assms(2) that True by (auto simp: distinct_map inj_on_def)
    then have "lk_key L e' = lk_key L (mm_karr m ! snd a)" using assms(1) f by (simp add: kctx_at_def)
    then show ?thesis using True same_shape_karr_set by (simp add: same_msg_def)
  qed (simp add: same_msg_def)
  then show ?thesis unfolding put_kctx_def by (auto simp: list_all2_conv_all_nth)
qed

lemma put_ctxs_same: "length xs = length (mm_keys m) \<Longrightarrow> same_msg m (put_ctxs xs m)"
  by (auto simp: same_msg_def same_shape_def put_ctxs_def intro!: nth_equalityI)

lemma same_msgs_ids: "list_all2 same_msg ms ms' \<Longrightarrow> map mm_id ms' = map mm_id ms"
  by (induction rule: list_all2_induct) (auto simp: same_msg_def same_shape_id)

lemma same_msgs_nth: "list_all2 same_msg ms ms' \<Longrightarrow> p < length ms \<Longrightarrow> length (mm_keys (ms' ! p)) = length (mm_keys (ms ! p))"
  by (auto simp: list_all2_conv_all_nth same_msg_def same_shape_len)

lemma tx_key_same:
  assumes "tx_key E H L ms p r i = Some (st, ms', r')" "p < length ms" "length (r_keys r) = length (mm_keys (ms ! p))"
    "distinct (map mm_id ms)"
  shows "list_all2 same_msg ms ms' \<and> length (r_keys r') = length (r_keys r)"
proof -
  define e where "e = kctx_at ms (mm_kptr (ms ! p) ! i)"
  obtain E2 r1 where run: "exec_key_continue E2 (set_key i ((r_keys r ! i)\<lparr>x_ent := e\<rparr>) r) i = Some (st, r')"
    "ms' = (let ms1 = ms[p := put_ctxs (r_keys r') (ms ! p)] in if is_read_only (r_keys r' ! i) then ms1
       else put_kctx (mm_kptr (ms ! p) ! i) (lk_copy L e (x_ent (r_keys r' ! i))) ms1)"
    using assms(1) by (auto simp: tx_key_def e_def Let_def split: option.splits)
  have len: "length (r_keys r') = length (r_keys r)"
    using exec_key_continue_length [OF run(1)] by (simp add: set_key_def)
  define ms1 where "ms1 = ms[p := put_ctxs (r_keys r') (ms ! p)]"
  have s1: "list_all2 same_msg ms ms1"
    unfolding ms1_def using put_ctxs_same [of "r_keys r'" "ms ! p"] len assms(2,3)
    by (auto simp: list_all2_conv_all_nth nth_list_update same_msg_def)
  have karr: "mm_karr (put_ctxs xs m) = mm_karr m" "mm_id (put_ctxs xs m) = mm_id m" for xs and m :: "'e multi_msg"
    by (simp_all add: put_ctxs_def)
  have "kctx_at ms1 a = kctx_at ms a" if "find (\<lambda>m. mm_id m = fst a) ms \<noteq> None \<or> True" for a
  proof -
    have "map_option mm_karr (find P (ms[p := put_ctxs xs (ms ! p)])) = map_option mm_karr (find P ms)"
      if "\<And>m m'. mm_id m = mm_id m' \<Longrightarrow> P m = P m'" for P xs
      using assms(2)
    proof (induction ms arbitrary: p)
      case (Cons m ms)
      then show ?case using that [of "put_ctxs xs m" m] karr by (cases p) (auto split: nat.splits)
    qed simp
    from this [of "\<lambda>m. mm_id m = fst a" "r_keys r'"]
    have "map_option mm_karr (find (\<lambda>m. mm_id m = fst a) ms1) = map_option mm_karr (find (\<lambda>m. mm_id m = fst a) ms)"
      unfolding ms1_def by simp
    then show ?thesis unfolding kctx_at_def
      by (cases "find (\<lambda>m. mm_id m = fst a) ms1"; cases "find (\<lambda>m. mm_id m = fst a) ms") auto
  qed
  then have "lk_key L (lk_copy L e (x_ent (r_keys r' ! i))) = lk_key L (kctx_at ms1 (mm_kptr (ms ! p) ! i))"
    by (simp add: copy_key e_def)
  then have "list_all2 same_msg ms1 (put_kctx (mm_kptr (ms ! p) ! i) (lk_copy L e (x_ent (r_keys r' ! i))) ms1)"
    by (rule kctx_at_key) (simp add: same_msgs_ids [OF s1] assms(4))
  then show ?thesis using s1 len same_msgs_trans [OF s1] run(2) by (auto simp: ms1_def [symmetric] Let_def)
qed

lemma tx_cycle_same:
  assumes "tx_cycle E H L p ms r i j = Some (ms', r')" "p < length ms" "length (r_keys r) = length (mm_keys (ms ! p))"
    "distinct (map mm_id ms)"
  shows "list_all2 same_msg ms ms'"
proof -
  let ?P = "\<lambda>E H L' p ms r i j y. L' = L \<longrightarrow> p < length ms \<longrightarrow> length (r_keys r) = length (mm_keys (ms ! p)) \<longrightarrow>
    distinct (map mm_id ms) \<longrightarrow> list_all2 same_msg ms (fst y)"
  have "?P E H L p ms r i j (ms', r')"
  proof (rule tx_cycle.raw_induct [where P = ?P, OF _ assms(1)], goal_cases)
    case (1 tc E H L' p ms r i j y)
    show ?case
    proof (intro impI)
      assume a: "L' = L" "p < length ms" "length (r_keys r) = length (mm_keys (ms ! p))" "distinct (map mm_id ms)"
      show "list_all2 same_msg ms (fst y)"
      proof (cases "key_active (r_keys r ! i)")
        case False
        show ?thesis
        proof (cases "j + 1 = key_cnt (r_ex r)")
          case True
          then show ?thesis using 1(2) False by (auto simp: same_msgs_refl)
        next
          case j: False
          show ?thesis using 1(2) False j 1(1) [of E H L' p ms r _ "j + 1" y] a by (auto split: if_splits)
        qed
      next
        case True
        then obtain st ms1 r1 where k: "tx_key E H L ms p r i = Some (st, ms1, r1)"
          "(if st = EXEC_SUCCESS then Some (ms1, r1)
            else tc E H L' p ms1 r1 (if i + 1 = key_cnt (r_ex r1) then 0 else i + 1) 0) = Some y"
          using 1(2) a(1) by (auto split: option.splits prod.splits)
        have s: "list_all2 same_msg ms ms1 \<and> length (r_keys r1) = length (r_keys r)" by (rule tx_key_same [OF k(1) a(2-4)])
        show ?thesis
        proof (cases "st = EXEC_SUCCESS")
          case False
          have "list_all2 same_msg ms1 (fst y)"
            using k(2) False 1(1) [of E H L' p ms1 r1 _ 0 y] s a same_msgs_nth [of ms ms1 p] same_msgs_ids [of ms ms1]
              list_all2_lengthD [of same_msg ms ms1] by auto
          then show ?thesis using s same_msgs_trans by blast
        qed (use k(2) s in auto)
      qed
    qed
  qed
  then show ?thesis using assms by simp
qed

lemma tx_messages_same:
  "tx_messages E H nokeys L ps ms r = Some (ms', r') \<Longrightarrow> \<forall>p\<in>set ps. p < length ms \<Longrightarrow> distinct (map mm_id ms) \<Longrightarrow>
    list_all2 same_msg ms ms'"
proof (induction ps arbitrary: ms r)
  case Nil
  then show ?case by (simp add: same_msgs_refl)
next
  case (Cons p ps)
  obtain r1 ms2 r2 where s: "tx_setup (ms ! p) r = Some r1"
    "(if mm_keys (ms ! p) \<noteq> [] then tx_cycle E H L p ms r1 0 0
        else map_option (\<lambda>(st, r2). (ms, reply_status E r2 st KEY_OK)) (nokeys r1)) = Some (ms2, r2)"
    "tx_messages E H nokeys L ps ms2 (if \<not> e_strm_ok E then reply_status E r2 ERR_ALLOC_FAIL KEY_OK else r2) = Some (ms', r')"
    using Cons.prems(1) by (auto simp: bind_eq_Some_conv)
  have "length (r_keys r1) = length (mm_keys (ms ! p))" using s(1) by (auto simp: tx_setup_def bind_eq_Some_conv)
  then have 2: "list_all2 same_msg ms ms2"
    using s(2) tx_cycle_same [of E H p ms r1 0 0 ms2 r2] Cons.prems(2,3) by (auto simp: same_msgs_refl split: if_splits)
  have "list_all2 same_msg ms2 ms'"
    using Cons.IH [OF s(3)] Cons.prems(2,3) list_all2_lengthD [OF 2] same_msgs_ids [OF 2] by simp
  then show ?case by (rule same_msgs_trans [OF 2])
qed

lemma lock_loop_locked:
  assumes "lock_loop L mu w = Some (mu1, w1)" "distinct (map mm_id (mu_list mu))" "\<forall>m\<in>set (mu_list mu). msg_ok L m"
  shows "locked (mu_list mu1) (mu_lock mu1) w w1 \<and> list_all2 (same_shape L) (mu_list mu) (mu_list mu1)
    \<and> (\<exists>ms lck. mu1 = mu\<lparr>mu_lock := lck, mu_list := ms\<rparr>)"
proof -
  let ?P = "\<lambda>L' mu w y. L' = L \<longrightarrow> distinct (map mm_id (mu_list mu)) \<longrightarrow> (\<forall>m\<in>set (mu_list mu). msg_ok L m) \<longrightarrow>
    (case y of (mu1, w1) \<Rightarrow> locked (mu_list mu1) (mu_lock mu1) w w1 \<and> list_all2 (same_shape L) (mu_list mu) (mu_list mu1)
    \<and> (\<exists>ms lck. mu1 = mu\<lparr>mu_lock := lck, mu_list := ms\<rparr>))"
  have "?P L mu w (mu1, w1)"
  proof (rule lock_loop.raw_induct [where P = ?P, OF _ assms(1)], goal_cases)
    case (1 ll L' mu w y)
    show ?case
    proof (intro impI)
      assume a: "L' = L" "distinct (map mm_id (mu_list mu))" "\<forall>m\<in>set (mu_list mu). msg_ok L m"
      obtain ok mu1 w1 where t: "multi_try_lock L mu w = (ok, mu1, w1)" by (cases "multi_try_lock L mu w") auto
      have l: "locked (mu_list mu1) (mu_lock mu1) w w1" "list_all2 (same_shape L) (mu_list mu) (mu_list mu1)"
        "\<exists>ms lck. mu1 = mu\<lparr>mu_lock := lck, mu_list := ms\<rparr>" using lock_then_release [OF a(2,3) t] by auto
      show "case y of (mu1, w1) \<Rightarrow> locked (mu_list mu1) (mu_lock mu1) w w1 \<and> list_all2 (same_shape L) (mu_list mu) (mu_list mu1)
        \<and> (\<exists>ms lck. mu1 = mu\<lparr>mu_lock := lck, mu_list := ms\<rparr>)"
      proof (cases ok)
        case True
        then show ?thesis using 1(2) t l a(1) by auto
      next
        case False
        obtain mu2 w2 where r: "multi_release_lock L mu1 w1 = (mu2, w2)" by force
        have ids: "distinct (map mm_id (mu_list mu1))" "\<forall>m\<in>set (mu_list mu1). msg_ok L m"
          using shape_list [OF l(2)] a by simp_all
        have f: "held w2 = held w" "list_all2 (same_shape L) (mu_list mu1) (mu_list mu2)"
          "\<exists>ms. mu2 = mu1\<lparr>mu_lock := None, mu_list := ms\<rparr>" using release_locked [OF l(1) ids r] by auto
        have ids2: "distinct (map mm_id (mu_list mu2))" "\<forall>m\<in>set (mu_list mu2). msg_ok L m"
          using shape_list [OF f(2)] ids by simp_all
        have "ll L' mu2 w2 = Some y" using 1(2) False t r a(1) by simp
        then have "case y of (mu1, w1) \<Rightarrow> locked (mu_list mu1) (mu_lock mu1) w2 w1 \<and> list_all2 (same_shape L) (mu_list mu2) (mu_list mu1)
          \<and> (\<exists>ms lck. mu1 = mu2\<lparr>mu_lock := lck, mu_list := ms\<rparr>)" using 1(1) a(1) ids2 by blast
        moreover have "locked ms lck w2 w3 = locked ms lck w w3" for ms lck w3
          unfolding locked_def lock_at_def f(1) ..
        moreover have "list_all2 (same_shape L) (mu_list mu) (mu_list mu2)"
          using list_all2_trans [OF same_shape_trans l(2) f(2)] .
        ultimately show ?thesis
          using l(3) f(3) list_all2_trans [of "same_shape L" "same_shape L" "same_shape L", OF same_shape_trans] by fastforce
      qed
    qed
  qed
  then show ?thesis using assms by simp
qed

end

section \<open>Reachable transactions\<close>

text \<open>The states a client's commands lead to. WATCH and UNWATCH run at once only before MULTI; behind
  it they are queued.\<close>

inductive tx_reach :: "('e, 'w) lock_ops \<Rightarrow> 'e kv_ops \<Rightarrow> kv_util \<Rightarrow> 'e multi option \<Rightarrow> bool" for L K U where
  start: "tx_reach L K U None"
| multi: "tx_reach L K U s \<Longrightarrow> exec_multi L make_ok mem_ok cs s = (st, cs', s') \<Longrightarrow> tx_reach L K U s'"
| queue: "tx_reach L K U (Some mu) \<Longrightarrow> mu_start mu \<Longrightarrow> queue_command L U mem mem_ok status ex mu = (Some res, mu')
    \<Longrightarrow> tx_reach L K U (Some mu')"
| watch: "tx_reach L K U s \<Longrightarrow> (case s of Some mu \<Rightarrow> \<not> mu_start mu | None \<Rightarrow> True)
    \<Longrightarrow> exec_watch L K make_ok mem_ok ex h x s = Some (st, x', s') \<Longrightarrow> tx_reach L K U s'"
| unwatch: "tx_reach L K U s \<Longrightarrow> (case s of Some mu \<Rightarrow> \<not> mu_start mu | None \<Rightarrow> True)
    \<Longrightarrow> exec_unwatch L cs s w = (st, cs', s', w') \<Longrightarrow> tx_reach L K U s'"
| discard: "tx_reach L K U s \<Longrightarrow> exec_discard L cs s w = (st, cs', s', w') \<Longrightarrow> tx_reach L K U s'"
| exec: "tx_reach L K U s \<Longrightarrow> exec_exec E H nokeys L r s w = Some (st, r', s', w') \<Longrightarrow> tx_reach L K U s'"

lemma exec_gone: "exec_exec E H nokeys L r s w = Some (st, r', s', w') \<Longrightarrow> s' = None"
  by (auto simp: exec_exec_def tx_end_def discard_multi_def Let_def bind_eq_Some_conv split: option.splits if_splits prod.splits)

lemma discard_gone: "exec_discard L cs s w = (st, cs', s', w') \<Longrightarrow> s' = None"
  by (cases s) (simp_all add: exec_discard_def discard_multi_def)

lemma unwatch_state:
  assumes "tx_inv L s" "case s of Some mu \<Rightarrow> \<not> mu_start mu | None \<Rightarrow> True" "exec_unwatch L cs s w = (st, cs', s', w')"
  shows "tx_inv L s'"
proof (cases s)
  case None
  then show ?thesis using assms(1,3) by (simp add: exec_unwatch_def)
next
  case (Some mu)
  then have "s' = None \<or> s' = Some (mu\<lparr>mu_watch := [], mu_watch_count := 0\<rparr>)"
    using assms(3) by (simp add: exec_unwatch_def discard_multi_def Let_def split: if_splits)
  then show ?thesis using assms(1,2) Some by (auto simp: tx_inv_def)
qed

context key_locks
begin

lemma reach_inv: "tx_reach L K U s \<Longrightarrow> tx_inv L s"
proof (induction rule: tx_reach.induct)
  case start
  then show ?case by (simp add: tx_inv_def)
next
  case (multi s)
  then show ?case using multi_ok by blast
next
  case (queue mu mem mem_ok status ex res mu')
  have abort: "tx_inv L (Some (mu\<lparr>mu_abort := True\<rparr>))" using queue.IH by (auto simp: tx_inv_def)
  show ?case using queue.hyps(2,3) queue.IH abort queued_ok [OF queue.IH queue.hyps(2)]
    by (auto simp: queue_command_def split: if_splits option.splits)
next
  case (watch s make_ok mem_ok ex h x st x' s')
  have new: "tx_inv L (Some new_multi)" using tx_inv_new [of False] by (simp add: new_multi_def)
  show ?case using watch.hyps(2,3) watch.IH new
    by (auto simp: exec_watch_def bind_eq_Some_conv Let_def tx_inv_def new_multi_def split: if_splits option.splits)
next
  case (unwatch s cs w st cs' s' w')
  show ?case by (rule unwatch_state [OF unwatch.IH unwatch.hyps(2,3)])
next
  case (discard s cs w st cs' s' w')
  have "s' = None" by (rule discard_gone [OF discard.hyps(2)])
  then show ?case by (simp add: tx_inv_def)
next
  case (exec s E H nokeys r w st r' s' w')
  have "s' = None" by (rule exec_gone [OF exec.hyps(2)])
  then show ?case by (simp add: tx_inv_def)
qed

text \<open>However a transaction ends, the locks are as they were.\<close>

lemma end_released:
  assumes "locked (mu_list mu) (mu_lock mu) w0 w" "distinct (map mm_id (mu_list mu))" "\<forall>m\<in>set (mu_list mu). msg_ok L m"
    "tx_end L st r mu w = (st', r', multi', w')"
  shows "held w' = held w0 \<and> multi' = None \<and> st' = st
    \<and> r' = set_cmd_state (cmd_state (r_ex r) AND NOT (CMD_STATE_MULTI_QUEUED OR CMD_STATE_EXEC_MULTI)) r"
proof (cases "mu_lock mu")
  case None
  then show ?thesis using assms(1,4) by (auto simp: tx_end_def discard_multi_def locked_def)
next
  case (Some i)
  obtain mu2 w2 where r: "multi_release_lock L mu w = (mu2, w2)" by force
  then show ?thesis using release_locked [OF assms(1-3) r] assms(4) Some by (auto simp: tx_end_def discard_multi_def)
qed

lemma exec_released:
  assumes "tx_inv L (Some mu)" "exec_exec E H nokeys L r (Some mu) w = Some (st, r', multi', w')"
  shows "held w' = held w \<and> multi' = None \<and> (\<exists>r1. r' = set_cmd_state (cmd_state (r_ex r1) AND NOT (CMD_STATE_MULTI_QUEUED OR CMD_STATE_EXEC_MULTI)) r1)"
proof -
  have ok: "distinct (map mm_id (mu_list mu))" "\<forall>m\<in>set (mu_list mu). msg_ok L m" and lck: "mu_lock mu = None"
    using assms(1) by (auto simp: tx_inv_def list_ok_def)
  have lk: "locked (mu_list mu) (mu_lock mu) w w" by (simp add: lck locked_def)
  define r1 where "r1 = set_cmd_state ((cmd_state (r_ex r) AND NOT CMD_STATE_MULTI_QUEUED) OR CMD_STATE_EXEC_MULTI) r"
  show ?thesis
  proof (cases "mu_abort mu")
    case True
    then have "tx_end L ERR_ABORT_TRANS r mu w = (st, r', multi', w')" using assms(2) by (simp add: exec_exec_def)
    from end_released [OF lk ok this] show ?thesis by blast
  next
    case False
    then obtain mu1 w1 where l: "lock_loop L mu w = Some (mu1, w1)"
      using assms(2) by (auto simp: exec_exec_def Let_def bind_eq_Some_conv)
    have l1: "locked (mu_list mu1) (mu_lock mu1) w w1" "list_all2 (same_shape L) (mu_list mu) (mu_list mu1)"
      using lock_loop_locked [OF l ok] by auto
    have ok1: "distinct (map mm_id (mu_list mu1))" "\<forall>m\<in>set (mu_list mu1). msg_ok L m"
      using shape_list [OF l1(2)] ok by simp_all
    consider (early) st' r2 where "tx_end L st' r2 mu1 w1 = (st, r', multi', w')"
      | (run) b r2 ms r3 where "tx_messages E H nokeys L [b..<length (mu_list mu1)] (mu_list mu1) r2 = Some (ms, r3)"
          "tx_end L EXEC_OK r3 (mu1\<lparr>mu_list := ms\<rparr>) w1 = (st, r', multi', w')"
    proof -
      define failed where "failed = (mu_watch_count mu1 > 0 \<and> (mu_msg_count mu1 = 0 \<or> \<not> watches_hold L mu1))"
      define r2 where "r2 = r1\<lparr>r_out := r_out r1 @ [42] @ uint64_to_string (e_util E) (mu_msg_count mu1 - of_bool (mu_watch_count mu1 > 0)) @ crlf\<rparr>"
      have x: "exec_exec E H nokeys L r (Some mu) w =
        (if failed then Some (tx_end L EXEC_SEND_NULL r1 mu1 w1)
         else if \<not> e_strm_ok E then Some (tx_end L ERR_ALLOC_FAIL r1 mu1 w1)
         else do { (ms, r3) \<leftarrow> tx_messages E H nokeys L [of_bool (mu_watch_count mu1 > 0)..<length (mu_list mu1)] (mu_list mu1) r2;
            Some (tx_end L EXEC_OK r3 (mu1\<lparr>mu_list := ms\<rparr>) w1) })"
        unfolding exec_exec_def r1_def [symmetric] r2_def failed_def by (simp add: False l Let_def r1_def [symmetric])
      show thesis
      proof (cases "failed \<or> \<not> e_strm_ok E")
        case True
        then have "exec_exec E H nokeys L r (Some mu) w = Some (tx_end L (if failed then EXEC_SEND_NULL else ERR_ALLOC_FAIL) r1 mu1 w1)"
          using x by (simp split: if_splits)
        then have "tx_end L (if failed then EXEC_SEND_NULL else ERR_ALLOC_FAIL) r1 mu1 w1 = (st, r', multi', w')" using assms(2) by simp
        then show thesis by (rule that(1))
      next
        case False
        then obtain ms r3 where "tx_messages E H nokeys L [of_bool (mu_watch_count mu1 > 0)..<length (mu_list mu1)] (mu_list mu1) r2 = Some (ms, r3)"
          "tx_end L EXEC_OK r3 (mu1\<lparr>mu_list := ms\<rparr>) w1 = (st, r', multi', w')"
          using assms(2) unfolding x by (simp add: bind_eq_Some_conv split: prod.splits) blast
        then show thesis by (rule that(2))
      qed
    qed
    then show ?thesis
    proof cases
      case early
      from end_released [OF l1(1) ok1 early] show ?thesis by blast
    next
      case run
      have s: "list_all2 same_msg (mu_list mu1) ms" by (rule tx_messages_same [OF run(1) _ ok1(1)]) simp
      have sh: "list_all2 (same_shape L) (mu_list mu1) ms"
        by (rule list_all2_mono [OF s]) (simp add: same_msg_def)
      have "locked (mu_list (mu1\<lparr>mu_list := ms\<rparr>)) (mu_lock (mu1\<lparr>mu_list := ms\<rparr>)) w w1"
        using locked_same [OF l1(1) s] by simp
      from end_released [OF this _ _ run(2)] show ?thesis using shape_list [OF sh] ok1 by auto
    qed
  qed
qed

lemma locks_at_once:
  assumes "tx_inv L (Some mu)" "(\<Union>m\<in>set (mu_list mu). msg_hashes m) \<inter> (held w \<union> others w) = {}"
  shows "\<exists>mu1 w1. lock_loop L mu w = Some (mu1, w1) \<and> multi_try_lock L mu w = (True, mu1, w1)"
proof -
  have ok: "\<forall>m\<in>set (mu_list mu). msg_ok L m" "distinct (concat (map (\<lambda>m. own_hashes m 0) (mu_list mu)))"
    using assms(1) unfolding tx_inv_def list_ok_def option.case by blast+
  have "(\<Union>m\<in>set (mu_list mu). owned m) \<subseteq> (\<Union>m\<in>set (mu_list mu). msg_hashes m)"
    by (intro UN_mono subset_refl) (auto simp: owned_def own_set_def msg_hashes_def)
  then have "(\<Union>m\<in>set (mu_list mu). owned m) \<inter> (held w \<union> others w) = {}" using assms(2) by fastforce
  then have "fst (try_lock_list L [] None (mu_list mu) w)" by (rule try_lock_free [OF ok])
  then obtain mu1 w1 where "multi_try_lock L mu w = (True, mu1, w1)"
    by (cases "try_lock_list L [] None (mu_list mu) w") (simp add: multi_try_lock_def)
  then show ?thesis by (subst lock_loop.simps) simp
qed

end

section \<open>A table of locks\<close>

text \<open>Keys that this connection and others hold; the context of a key is its hash.\<close>

definition plain_ctx :: "key_hash \<Rightarrow> nat \<Rightarrow> key_hash xst" where
  "plain_ctx h n = \<lparr>x_ent = h, x_kstatus = KEY_OK, x_status = EXEC_CONTINUE, x_type = MD_NODATA, x_flags = {}, x_ival = 0,
     x_argn = n, x_dep = 0, x_part = None, x_out = [], x_strm_ok = True, x_mstatus = MSG_OK, x_no_update = False\<rparr>"

definition bytes_hash :: "byte list \<Rightarrow> key_hash" where
  "bytes_hash bs = (of_nat (le_val bs), of_nat (length bs))"

definition table_ops :: "(key_hash, key_hash list \<times> key_hash list) lock_ops" where
  "table_ops = \<lparr>lk_hash = bytes_hash, lk_ctx = (\<lambda>key n. plain_ctx (bytes_hash key) n), lk_set = (\<lambda>h. h), lk_key = (\<lambda>h. h),
     lk_serial = snd,
     lk_acquire = (\<lambda>(mine, theirs) h. if h \<in> set mine \<or> h \<in> set theirs then (KEY_BUSY, h, mine, theirs)
       else (KEY_OK, h, h # mine, theirs)),
     lk_release = (\<lambda>(mine, theirs) h. (h, removeAll h mine, theirs)), lk_copy = (\<lambda>e e2. e)\<rparr>"

interpretation tab: key_locks table_ops "\<lambda>w. set (fst w)" "\<lambda>w. set (snd w)"
  by unfold_locales (auto simp: table_ops_def split: if_splits prod.splits)

section \<open>Properties\<close>

text \<open>C10: the invariant of a transaction, over every state the commands of a client reach. The messages have
  addresses of their own and a context for each key; the context a key points to is that of a key with the same
  hash, which uses it itself, and no hash has two contexts in use. Between commands no message is being locked,
  and before MULTI nothing is queued.\<close>

theorem reachable_transaction:
  assumes "key_locks L held others" "tx_reach L K U (Some mu)"
  shows "distinct (map mm_id (mu_list mu)) \<and> (\<forall>m\<in>set (mu_list mu). msg_ok L m) \<and> keys_point (mu_list mu)
    \<and> distinct (concat (map (\<lambda>m. own_hashes m 0) (mu_list mu)))
    \<and> mu_lock mu = None \<and> mu_msg_count mu = length (mu_list mu) \<and> (\<not> mu_start mu \<longrightarrow> mu_list mu = [])"
  using key_locks.reach_inv [OF assms] first_points [of "mu_list mu"] by (auto simp: tx_inv_def list_ok_def)

text \<open>C2: EXEC gives back every lock it took, and no other, whether it runs the commands, is aborted or
  finds a watched key changed; the transaction is gone and its states are cleared.\<close>

theorem exec_keeps_locks:
  assumes "key_locks L held others" "tx_reach L K U (Some mu)"
    "exec_exec E H nokeys L r (Some mu) w = Some (st, r', multi', w')"
  shows "held w' = held w \<and> multi' = None \<and> cmd_state (r_ex r') AND (CMD_STATE_MULTI_QUEUED OR CMD_STATE_EXEC_MULTI) = 0"
  using key_locks.exec_released [OF assms(1) key_locks.reach_inv [OF assms(1,2)] assms(3)]
  by (auto simp: set_cmd_state_def and.assoc)

text \<open>C16: when no other connection holds a key of the transaction, EXEC has all its locks at the first
  try: a key that occurs again is not locked again, which would wait for ever.\<close>

theorem free_keys_lock:
  assumes "key_locks L held others" "tx_reach L K U (Some mu)"
    "(\<Union>m\<in>set (mu_list mu). msg_hashes m) \<inter> (held w \<union> others w) = {}"
  shows "\<exists>mu1 w1. multi_try_lock L mu w = (True, mu1, w1) \<and> lock_loop L mu w = Some (mu1, w1)"
  using key_locks.locks_at_once [OF assms(1) key_locks.reach_inv [OF assms(1,2)] assms(3)] by blast

text \<open>The commands of a transaction see the argument count of the EXEC that runs them, which is one: a
  SET has no options then.\<close>

lemma exec_keeps_argc: "tx_setup m r = Some r1 \<Longrightarrow> argc (r_ex r1) = argc (r_ex r)"
  by (auto simp: tx_setup_def setup_cmd_def bind_eq_Some_conv)

lemma exec_set_without_options:
  assumes "tx_setup m r = Some r1" "argc (r_ex r) = 1"
  shows "exec_set K (r_ex r1) x = do_set_value K (r_ex r1) x 2 {}"
proof -
  have "set_options (r_ex r1) 3 0 {} = Some (0, {})"
    using exec_keeps_argc [OF assms(1)] assms(2) by (subst set_options.simps) simp
  then show ?thesis using exec_keeps_argc [OF assms(1)] assms(2) by (simp add: exec_set_def)
qed

text \<open>A command that is refused while it is queued stays in the queue and does not abort the transaction.\<close>

lemma refused_stays_queued:
  assumes "multi_queued L U mem True ex mu = Some (st, mu')"
  shows "mu_abort mu' = mu_abort mu \<and> length (mu_list mu') = Suc (length (mu_list mu))"
  using assms by (auto simp: multi_queued_def Let_def split: if_splits)

section \<open>A sample\<close>

definition absent_ops :: "key_hash kv_ops" where
  "absent_ops = \<lparr>op_find = (\<lambda>e. (KEY_NOT_FOUND, e)), op_acquire = (\<lambda>e. (KEY_IS_NEW, e)), op_is_expired = (\<lambda>e. False),
     op_expire = (\<lambda>e. e), op_release = (\<lambda>e. e), op_get_type = (\<lambda>e. MD_NODATA), op_value = (\<lambda>e. KEY_OK), op_get_size = (\<lambda>e. KEY_OK),
     op_resize = (\<lambda>e n cp. (KEY_OK, e)), op_validate = (\<lambda>e. KEY_OK), op_data = (\<lambda>e. []), op_set_data = (\<lambda>e d. e),
     op_update_stamps = (\<lambda>e a b. e), op_clear_stamps = (\<lambda>e a b. e), op_current_stamp = (\<lambda>e. 0), op_set_type = (\<lambda>e t. e),
     op_set_val = (\<lambda>e. e), multi_fetch = (\<lambda>e force fl st. (st, fl, e))\<rparr>"

definition get_a :: redis_exec where
  "get_a = (setup_cmd (cmd_db ! GET_CMD) (sample_exec [''get'', ''a'']))\<lparr>ex_cmd := GET_CMD\<rparr>"

definition get_key :: "key_hash mkey" where
  "get_key = \<lparr>mk_hash = (97, 1), mk_ctx = plain_ctx (97, 1) 1\<rparr>"

definition get_msg :: "nat \<Rightarrow> key_addr \<Rightarrow> key_hash multi_msg" where
  "get_msg i p = \<lparr>mm_id = i, mm_msg = Some (ex_msg get_a), mm_cmd = GET_CMD, mm_keys = [get_key], mm_kptr = [p],
     mm_karr = [(97, 1)], mm_n = 0\<rparr>"

lemma get_a_fields:
  "key_first get_a = 1" "key_last get_a = 1" "key_step get_a = 1" "step_mask get_a = 0" "ex_cmd get_a = GET_CMD" "argc get_a = 2"
  "get_arg_str (ex_msg get_a) 1 = Some [97]" "dup (\<lambda>_. True) (ex_msg get_a) = Some (ex_msg get_a)"
  unfolding get_a_def cmd_db_get
  by (simp_all add: cmd_row_def setup_cmd_def sample_exec_def get_arg_str_def mk_arr_def mk_str_def ascii_def numeral_2_eq_2)

lemma queue_get:
  "queue_command table_ops int_str_util (\<lambda>_. True) True EXEC_OK get_a mu =
    (let p = (Suc (mu_msg_count mu), 0);
         m = get_msg (Suc (mu_msg_count mu)) (if fst (test_set_filter (mu_filter mu) 97)
           then (case get_dup_kctx (97, 1) (mu_list mu) of Some kp \<Rightarrow> kp | None \<Rightarrow> p) else p) in
     (Some (Inl EXEC_QUEUED), mu\<lparr>mu_list := mu_list mu @ [m], mu_msg_count := Suc (mu_msg_count mu),
        mu_filter := snd (test_set_filter (mu_filter mu) 97)\<rparr>))"
proof -
  have n: "next_key get_a 1 = Some (False, 2)" by (simp add: next_key_def get_a_fields)
  have c: "unat (calc_key_count int_str_util get_a) = 1" by (simp add: calc_key_count_def get_a_fields signed_divide_int_def)
  have none: "get_dup_kctx h (ms @ [mm]) = get_dup_kctx h ms" if "mm_keys mm = []" for h ms and mm :: "key_hash multi_msg"
    using that by (induction ms) (auto split: option.splits)
  define mm where "mm = (\<lparr>mm_id = Suc (mu_msg_count mu), mm_msg = Some (ex_msg get_a), mm_cmd = GET_CMD,
    mm_keys = [], mm_kptr = [], mm_karr = [], mm_n = 0\<rparr> :: key_hash multi_msg)"
  define m where "m = get_msg (Suc (mu_msg_count mu)) (if fst (test_set_filter (mu_filter mu) 97)
    then (case get_dup_kctx (97, 1) (mu_list mu) of Some kp \<Rightarrow> kp | None \<Rightarrow> (Suc (mu_msg_count mu), 0)) else (Suc (mu_msg_count mu), 0))"
  have k: "\<lparr>mk_hash = lk_hash table_ops [97], mk_ctx = (lk_ctx table_ops [97] (nat 1))\<lparr>x_status := EXEC_CONTINUE\<rparr>\<rparr> = get_key"
    by (simp add: table_ops_def bytes_hash_def get_key_def plain_ctx_def)
  have step: "queue_key table_ops (mu_list mu @ [mm]) get_key mm (mu_filter mu) = (m, snd (test_set_filter (mu_filter mu) 97))"
    by (cases "test_set_filter (mu_filter mu) 97")
      (simp add: queue_key_def Let_def get_key_def m_def get_msg_def mm_def none table_ops_def plain_ctx_def)
  have "length (mm_keys m) = 1" by (simp add: m_def get_msg_def)
  then have "queue_keys table_ops (\<lambda>_. True) get_a 1 (mu_list mu) 1 mm (mu_filter mu)
      = Some (EXEC_OK, m, snd (test_set_filter (mu_filter mu) 97))"
    using k step n get_a_fields(7) by (subst queue_keys.simps) (simp add: mm_def)
  then show ?thesis
    by (simp add: queue_command_def multi_queued_def Let_def c get_a_fields mm_def [symmetric] m_def [symmetric])
qed

text \<open>MULTI and the same GET twice: the second key uses the context of the first.\<close>

definition sample_tx :: "key_hash multi" where
  "sample_tx = new_multi\<lparr>mu_start := True, mu_list := [get_msg 1 (1, 0), get_msg 2 (1, 0)], mu_msg_count := 2,
     mu_filter := [0, 0x200000000, 0, 0]\<rparr>"

lemma sample_tx_reach: "tx_reach table_ops absent_ops int_str_util (Some sample_tx)"
proof -
  have f: "test_set_filter [0, 0, 0, 0] 97 = (False, [0, 0x200000000, 0, 0])"
    "test_set_filter [0, 0x200000000, 0, 0] 97 = (True, [0, 0x200000000, 0, 0])"
    by (simp_all add: test_set_filter_def Let_def)
  have r4: "replicate 4 0 = [0, 0, 0, 0 :: u64]" by code_simp
  let ?mu1 = "new_multi\<lparr>mu_start := True\<rparr>"
  let ?mu2 = "?mu1\<lparr>mu_list := [get_msg 1 (1, 0)], mu_msg_count := 1, mu_filter := [0, 0x200000000, 0, 0]\<rparr>"
  have 1: "tx_reach table_ops absent_ops int_str_util (Some ?mu1)"
    by (rule tx_reach.multi [OF tx_reach.start, of _ True True 0]) (simp add: exec_multi_def new_multi_def Let_def)
  have 2: "tx_reach table_ops absent_ops int_str_util (Some ?mu2)"
    by (rule tx_reach.queue [OF 1, of "\<lambda>_. True" True EXEC_OK get_a "Inl EXEC_QUEUED"])
      (simp_all add: queue_get Let_def numeral_2_eq_2 new_multi_def f r4)
  show ?thesis
    by (rule tx_reach.queue [OF 2, of "\<lambda>_. True" True EXEC_OK get_a "Inl EXEC_QUEUED"])
      (simp_all add: queue_get Let_def numeral_2_eq_2 new_multi_def f r4 sample_tx_def get_msg_def get_key_def)
qed


text \<open>The same with a watched key that was not there and is there now.\<close>

definition sample_watched :: "key_hash multi" where
  "sample_watched = new_multi\<lparr>mu_start := True, mu_watch_count := 1, mu_watch := [\<lparr>wl_serial = 0, wl_key = get_key\<lparr>mk_ctx :=
       (plain_ctx (97, 1) 1)\<lparr>x_kstatus := KEY_NOT_FOUND, x_flags := {EKF_IS_READ_ONLY}\<rparr>\<rparr>\<rparr>],
     mu_list := [(get_msg 0 (0, 0))\<lparr>mm_msg := None, mm_cmd := WATCH_CMD, mm_keys := [get_key\<lparr>mk_ctx :=
       (plain_ctx (97, 1) 1)\<lparr>x_kstatus := KEY_NOT_FOUND, x_flags := {EKF_IS_READ_ONLY}\<rparr>\<rparr>]\<rparr>],
     mu_msg_count := 1, mu_filter := [0, 0x200000000, 0, 0]\<rparr>"

lemma sample_watched_reach: "tx_reach table_ops absent_ops int_str_util (Some sample_watched)"
proof -
  have f: "test_set_filter [0, 0, 0, 0] 97 = (False, [0, 0x200000000, 0, 0])"
    by (simp_all add: test_set_filter_def Let_def)
  have r4: "replicate 4 0 = [0, 0, 0, 0 :: u64]" by code_simp
  let ?x = "(plain_ctx (97, 1) 1)\<lparr>x_kstatus := KEY_NOT_FOUND, x_flags := {EKF_IS_READ_ONLY}\<rparr>"
  let ?mu1 = "new_multi\<lparr>mu_watch_count := 1, mu_watch := [\<lparr>wl_serial = 0, wl_key = \<lparr>mk_hash = (97, 1), mk_ctx = ?x\<rparr>\<rparr>]\<rparr>"
  have "find_loop absent_ops (plain_ctx (97, 1) 1) = Some ?x"
    by (subst find_loop.simps) (simp add: absent_ops_def plain_ctx_def)
  then have w: "exec_watch table_ops absent_ops True True (sample_read [''watch'', ''a'']) (97, 1) (plain_ctx (97, 1) 1) None
      = Some (EXEC_SEND_OK, ?x, Some ?mu1)"
    by (simp add: exec_watch_def exec_key_fetch_def sample_read_def sample_exec_def Let_def new_multi_def plain_ctx_def)
  have 1: "tx_reach table_ops absent_ops int_str_util (Some ?mu1)" by (rule tx_reach.watch [OF tx_reach.start _ w]) simp
  show ?thesis
    by (rule tx_reach.multi [OF 1, of True True 0 EXEC_SEND_OK "0 OR CMD_STATE_MULTI_QUEUED"])
      (simp add: exec_multi_def new_multi_def sample_watched_def queue_key_def Let_def f r4 get_msg_def get_key_def table_ops_def
        plain_ctx_def)
qed

theorem reachable_transaction_witness: "keys_point (mu_list sample_tx) \<and> mm_kptr (mu_list sample_tx ! 1) = [(1, 0)]"
  using reachable_transaction [OF tab.key_locks_axioms sample_tx_reach] by (simp add: sample_tx_def get_msg_def)

theorem free_keys_lock_witness:
  "\<exists>mu1 w1. multi_try_lock table_ops sample_tx ([], [(98, 1)]) = (True, mu1, w1)
    \<and> lock_loop table_ops sample_tx ([], [(98, 1)]) = Some (mu1, w1)"
  using free_keys_lock [OF tab.key_locks_axioms sample_tx_reach, of "([], [(98, 1)])"]
  by (auto simp: sample_tx_def msg_hashes_def get_msg_def get_key_def)

text \<open>A connection whose handlers answer OK.\<close>

definition plain_env :: "key_hash run_env" where
  "plain_env = \<lparr>e_ops = absent_ops, e_util = int_str_util, e_handler = (\<lambda>ex keys i. Some (EXEC_SEND_OK, keys ! i)),
     e_reply = sample_env, e_sub_flags = {}, e_block = (\<lambda>_. EXEC_OK), e_strm_ok = True\<rparr>"

definition plain_run :: "key_hash run" where
  "plain_run = \<lparr>r_ex = sample_exec [''exec''], r_keys = [], r_key_flags = {}, r_blk = 0, r_out = [], r_start = 0, r_events = []\<rparr>"

definition locked_list :: "key_hash multi_msg list" where
  "locked_list = [(hd (mu_list sample_watched))\<lparr>mm_n := 1, mm_keys := [get_key\<lparr>mk_ctx :=
       (plain_ctx (97, 1) 1)\<lparr>x_flags := {EKF_IS_READ_ONLY}\<rparr>\<rparr>]\<rparr>]"

lemma lock_watched: "lock_loop table_ops sample_watched ([], []) = Some (sample_watched\<lparr>mu_lock := Some 0, mu_list := locked_list\<rparr>, [(97, 1)], [])"
  by (subst lock_loop.simps)
    (simp add: multi_try_lock_def sample_watched_def new_multi_def own_key_def get_msg_def table_ops_def set_kstatus_def
      get_key_def plain_ctx_def locked_list_def Let_def)

theorem exec_keeps_locks_witness:
  "\<exists>r' w'. exec_exec plain_env (\<lambda>K ex keys i. Some (EXEC_SEND_OK, keys ! i)) (\<lambda>r. None) table_ops plain_run (Some sample_watched) ([], [])
     = Some (EXEC_SEND_NULL, r', None, w') \<and> fst w' = [] \<and> cmd_state (r_ex r') AND 24 = 0"
proof -
  have "\<not> watches_hold table_ops (sample_watched\<lparr>mu_lock := Some 0, mu_list := locked_list\<rparr>)"
    by (simp add: watches_hold_def watch_holds_def kctx_at_def locked_list_def sample_watched_def get_msg_def get_key_def
        plain_ctx_def table_ops_def)
  moreover have "\<not> mu_abort sample_watched" "mu_watch_count sample_watched = 1" by (simp_all add: sample_watched_def new_multi_def)
  ultimately obtain r1 where run: "exec_exec plain_env (\<lambda>K ex keys i. Some (EXEC_SEND_OK, keys ! i)) (\<lambda>r. None) table_ops
      plain_run (Some sample_watched) ([], [])
    = Some (tx_end table_ops EXEC_SEND_NULL r1 (sample_watched\<lparr>mu_lock := Some 0, mu_list := locked_list\<rparr>) ([(97, 1)], []))"
    by (simp add: exec_exec_def lock_watched Let_def)
  obtain st r' multi' w' where e: "tx_end table_ops EXEC_SEND_NULL r1 (sample_watched\<lparr>mu_lock := Some 0, mu_list := locked_list\<rparr>) ([(97, 1)], [])
      = (st, r', multi', w')"
    using prod_cases4 by blast
  then have "st = EXEC_SEND_NULL" by (auto simp: tx_end_def split: prod.splits)
  with exec_keeps_locks [OF tab.key_locks_axioms sample_watched_reach run [unfolded e]] run e show ?thesis by auto
qed

end
