(* ===== verification/Transaction_Watch.thy ===== *)
theory Transaction_Watch
  imports Transaction_Exec
begin

text \<open>
  WATCH against the key store: what EXEC compares is what the store holds of the watched keys while they are
  locked. The laws that tie a locked entry to the store are the locale \<open>watch_locks\<close>. The keys of the first
  message are followed through the locking, also those that occur twice in the watch list.
\<close>

section \<open>What a locked entry shows\<close>

text \<open>\<open>serial w h\<close> is the serial number of the entry that the store holds for a key, if there is one. Locks do not
  change it, and a locked entry shows it.\<close>

locale watch_locks = key_locks L held others
  for L :: "('e, 'w) lock_ops" and held :: "'w \<Rightarrow> key_hash set" and others :: "'w \<Rightarrow> key_hash set" +
  fixes serial :: "'w \<Rightarrow> key_hash \<Rightarrow> u64 option"
  assumes acquire_serial: "lk_acquire L w e = (st, e', w') \<Longrightarrow> serial w' = serial w"
    and release_serial: "lk_release L w e = (e', w') \<Longrightarrow> serial w' = serial w"
    and acquire_shows: "lk_acquire L w e = (st, e', w') \<Longrightarrow> st \<noteq> KEY_BUSY \<Longrightarrow>
          (case serial w (lk_key L e) of Some n \<Rightarrow> st = KEY_OK \<and> lk_serial L e' = n | None \<Rightarrow> st \<noteq> KEY_OK)"

text \<open>A watched key is as it was: it has the serial number that WATCH saw, or it is still absent, which WATCH
  wrote down as zero.\<close>

definition unchanged :: "('w \<Rightarrow> key_hash \<Rightarrow> u64 option) \<Rightarrow> 'w \<Rightarrow> 'e watch \<Rightarrow> bool" where
  "unchanged serial w wl \<longleftrightarrow> wl_serial wl = (case serial w (mk_hash (wl_key wl)) of Some n \<Rightarrow> n | None \<Rightarrow> 0)"

lemma dup_pos_least: "dup_pos h ks = Some j \<Longrightarrow> n < length ks \<Longrightarrow> mk_hash (ks ! n) = h \<Longrightarrow> j \<le> n"
proof (induction ks arbitrary: j n)
  case (Cons k ks)
  then show ?case by (cases n) (auto split: if_splits)
qed simp

lemma dup_scan_places:
  "dup_scan False h self None (map (\<lambda>k. ((i, k), ks ! k)) [0..<length ks] @ ps)
    = (case dup_pos h ks of Some j \<Rightarrow> Some (ks ! j) | None \<Rightarrow> dup_scan False h self None ps)"
proof (induction ks arbitrary: ps rule: rev_induct)
  case (snoc k ks)
  have eq: "map (\<lambda>j. ((i, j), (ks @ [k]) ! j)) [0..<length (ks @ [k])] = map (\<lambda>j. ((i, j), ks ! j)) [0..<length ks] @ [((i, length ks), k)]"
    by (simp add: nth_append)
  have "dup_pos h ks = Some j \<Longrightarrow> (ks @ [k]) ! j = ks ! j" for j using dup_pos_some [of h ks j] by (simp add: nth_append)
  then show ?case unfolding eq using snoc [of "((i, length ks), k) # ps"] by (simp add: dup_pos_snoc split: option.split)
qed simp

lemma get_dup_key_first:
  "dup_pos h (mm_keys m) = Some j \<Longrightarrow> get_dup_key h self False (m # ms) = Some (mm_keys m ! j)"
  by (simp add: get_dup_key_def msg_places_def dup_scan_places)

lemma dup_pos_hashes: "map mk_hash ks = map mk_hash ks' \<Longrightarrow> dup_pos h ks = dup_pos h ks'"
proof (induction ks arbitrary: ks')
  case (Cons k ks)
  then show ?case by (cases ks') auto
qed simp

lemma get_dup_kctx_shape: "list_all2 (same_shape L) ms ms' \<Longrightarrow> get_dup_kctx h ms' = get_dup_kctx h ms"
proof (induction rule: list_all2_induct)
  case (Cons m ms m' ms')
  then have "dup_pos h (mm_keys m') = dup_pos h (mm_keys m)" "mm_id m' = mm_id m"
    by (auto simp: same_shape_def intro: dup_pos_hashes)
  then show ?case using Cons by (simp split: option.split)
qed simp

lemma first_ctx_shape:
  assumes "list_all2 (same_shape L) ms ms'" "first_ctx ms"
  shows "first_ctx ms'"
  unfolding first_ctx_def
proof (intro ballI allI impI)
  fix m' n
  assume m: "m' \<in> set ms'" "n < length (mm_keys m')"
  obtain i where i: "i < length ms" "m' = ms' ! i" "same_shape L (ms ! i) m'"
    using assms(1) m(1) by (auto simp: list_all2_conv_all_nth in_set_conv_nth)
  have n: "n < length (mm_keys (ms ! i))" using m(2) same_shape_len [OF i(3)] by simp
  have "get_dup_kctx (mk_hash (mm_keys (ms ! i) ! n)) ms = Some (mm_kptr (ms ! i) ! n)"
    using assms(2) i(1) n by (simp add: first_ctx_def)
  then show "get_dup_kctx (mk_hash (mm_keys m' ! n)) ms' = Some (mm_kptr m' ! n)"
    using same_shape_hash [OF i(3) n] i(3) by (simp add: get_dup_kctx_shape [OF assms(1)] same_shape_def)
qed

text \<open>A key of the first message points into it, to its own place or one in front.\<close>

lemma first_msg_ctx:
  assumes "first_ctx (m # ms)" "n < length (mm_keys m)"
  obtains j where "mm_kptr m ! n = (mm_id m, j)" "j \<le> n" "dup_pos (mk_hash (mm_keys m ! n)) (mm_keys m) = Some j"
    "mk_hash (mm_keys m ! j) = mk_hash (mm_keys m ! n)" "mm_kptr m ! j = (mm_id m, j)"
proof -
  let ?h = "mk_hash (mm_keys m ! n)"
  have "?h \<in> mk_hash ` set (mm_keys m)" using assms(2) by simp
  then obtain j where j: "dup_pos ?h (mm_keys m) = Some j" using dup_pos_none [of ?h "mm_keys m"] by blast
  have at: "get_dup_kctx ?h (m # ms) = Some (mm_kptr m ! n)" using assms by (simp add: first_ctx_def)
  have le: "j \<le> n" by (rule dup_pos_least [OF j assms(2) refl])
  have jk: "j < length (mm_keys m)" "mk_hash (mm_keys m ! j) = ?h" using dup_pos_some [OF j] by simp_all
  have "get_dup_kctx (mk_hash (mm_keys m ! j)) (m # ms) = Some (mm_kptr m ! j)" using assms(1) jk(1) by (simp add: first_ctx_def)
  then have at2: "get_dup_kctx ?h (m # ms) = Some (mm_kptr m ! j)" unfolding jk(2) .
  have e: "get_dup_kctx ?h (m # ms) = Some (mm_id m, j)" using j by simp
  show thesis
    by (rule that [OF _ le j jk(2)]) (use at at2 e in \<open>simp_all del: get_dup_kctx.simps\<close>)
qed

context watch_locks
begin

text \<open>The first \<open>k\<close> keys of the message show what the store holds.\<close>

definition shown :: "'e multi_msg \<Rightarrow> nat \<Rightarrow> 'w \<Rightarrow> bool" where
  "shown m k w \<longleftrightarrow> (\<forall>n<k. case serial w (mk_hash (mm_keys m ! n)) of
      Some s \<Rightarrow> x_kstatus (mk_ctx (mm_keys m ! n)) = KEY_OK \<and> lk_serial L (mm_karr m ! snd (mm_kptr m ! n)) = s
    | None \<Rightarrow> x_kstatus (mk_ctx (mm_keys m ! n)) \<noteq> KEY_OK)"

lemma shown_n [simp]: "shown (m\<lparr>mm_n := a\<rparr>) k w = shown m k w"
  by (simp add: shown_def cong: option.case_cong)

lemma lock_keys_serial: "lock_keys L front rest ns m w = (ok, m', w') \<Longrightarrow> serial w' = serial w"
proof (induction ns arbitrary: m w)
  case (Cons n ns)
  then show ?case by (auto simp: Let_def split: if_splits prod.splits dest: acquire_serial)
qed simp

lemma try_lock_serial: "try_lock_list L front lck ms w = (ok, lck', ms', w') \<Longrightarrow> serial w' = serial w"
proof (induction ms arbitrary: front lck w)
  case (Cons m ms)
  then show ?case by (auto split: if_splits prod.splits dest!: lock_keys_serial)
qed simp

lemma release_keys_serial: "release_keys L n m w = (m', w') \<Longrightarrow> serial w' = serial w"
proof (induction n arbitrary: m w)
  case (Suc n)
  then show ?case by (auto split: if_splits prod.splits dest: release_serial)
qed simp

lemma release_back_serial: "release_back L ms w = (ms', w') \<Longrightarrow> serial w' = serial w"
proof (induction ms arbitrary: w ms')
  case (Cons m ms)
  then show ?case by (auto split: prod.splits dest!: release_keys_serial)
qed simp

lemma release_lock_serial: "multi_release_lock L mu w = (mu', w') \<Longrightarrow> serial w' = serial w"
  by (auto simp: multi_release_lock_def Let_def split: option.splits list.splits prod.splits dest!: release_keys_serial release_back_serial)

lemma lock_keys_shown:
  "msg_ok L m \<Longrightarrow> first_ctx (m # rest) \<Longrightarrow> k \<le> length (mm_keys m) \<Longrightarrow> shown m k w \<Longrightarrow>
    lock_keys L [] rest [k..<length (mm_keys m)] m w = (True, m', w') \<Longrightarrow>
    shown m' (length (mm_keys m)) w \<and> same_shape L m m'"
proof (induction "length (mm_keys m) - k" arbitrary: k m w)
  case 0
  then have "m' = m\<lparr>mm_n := length (mm_keys m)\<rparr> \<and> k = length (mm_keys m)" by simp
  then show ?case using "0.prems"(4) by simp
next
  case (Suc x)
  then have k: "k < length (mm_keys m)" by simp
  have ns: "[k..<length (mm_keys m)] = k # [Suc k..<length (mm_keys m)]" using k by (simp add: upt_conv_Cons)
  have key: "lk_key L (mm_karr m ! k) = mk_hash (mm_keys m ! k)" and lens: "length (mm_karr m) = length (mm_keys m)"
    using Suc.prems(1) k by (simp_all add: msg_ok_def)
  have ih: ?case if "lock_keys L [] rest [Suc k..<length (mm_keys m)] m2 w2 = (True, m', w')" "same_shape L m m2"
    "serial w2 = serial w" "shown m2 (Suc k) w" for m2 w2
  proof -
    have len: "length (mm_keys m2) = length (mm_keys m)" by (rule same_shape_len [OF that(2)])
    have fc: "first_ctx (m2 # rest)"
      by (rule first_ctx_shape [OF _ Suc.prems(2), of L]) (simp add: that(2) list_all2_refl)
    have s: "shown m2 k2 w2 = shown m2 k2 w" "shown m' k2 w2 = shown m' k2 w" for k2 by (simp_all add: shown_def that(3))
    have "shown m' (length (mm_keys m2)) w2 \<and> same_shape L m2 m'"
      by (rule Suc.hyps(1)) (use Suc.hyps(2) that len fc k s same_shape_karr [OF that(2) Suc.prems(1)] in simp_all)
    then show ?thesis using s len same_shape_trans [OF that(2)] by auto
  qed
  obtain j where j: "mm_kptr m ! k = (mm_id m, j)" "j \<le> k" "dup_pos (mk_hash (mm_keys m ! k)) (mm_keys m) = Some j"
    "mk_hash (mm_keys m ! j) = mk_hash (mm_keys m ! k)" "mm_kptr m ! j = (mm_id m, j)"
    by (rule first_msg_ctx [OF Suc.prems(2) k])
  have before: "snd (mm_kptr m ! n) \<noteq> k" if "n < k" for n
  proof -
    have "n < length (mm_keys m)" using that k by simp
    then show ?thesis by (rule first_msg_ctx [OF Suc.prems(2)]) (use that in simp)
  qed
  show ?case
  proof (cases "own_key m k")
    case True
    then have own: "j = k" using j(1) by (simp add: own_key_def)
    obtain st e w1 where a: "lk_acquire L w (mm_karr m ! k) = (st, e, w1)" by (cases "lk_acquire L w (mm_karr m ! k)") auto
    define m2 where "m2 = set_kstatus k st ((m\<lparr>mm_n := k\<rparr>)\<lparr>mm_karr := (mm_karr m)[k := e]\<rparr>)"
    have run: "(if st = KEY_BUSY then (False, m2, w1) else lock_keys L [] rest [Suc k..<length (mm_keys m)] m2 w1) = (True, m', w')"
      using Suc.prems(5) True a unfolding ns by (simp add: m2_def Let_def split: if_splits)
    then have nb: "st \<noteq> KEY_BUSY" by auto
    have "same_shape L (m\<lparr>mm_n := k\<rparr>) ((m\<lparr>mm_n := k\<rparr>)\<lparr>mm_karr := (mm_karr (m\<lparr>mm_n := k\<rparr>))[k := e]\<rparr>)"
      using acquire_key [OF a] by (intro same_shape_karr_set) simp
    then have sh: "same_shape L m m2" unfolding m2_def by (intro same_shape_trans [OF _ same_shape_status]) simp
    have m2: "mm_keys m2 ! n = (if n = k then (mm_keys m ! k)\<lparr>mk_ctx := (mk_ctx (mm_keys m ! k))\<lparr>x_kstatus := st\<rparr>\<rparr> else mm_keys m ! n)"
      "mm_kptr m2 = mm_kptr m" "mm_karr m2 = (mm_karr m)[k := e]" for n
      using k by (auto simp: m2_def set_kstatus_def nth_list_update)
    have "shown m2 (Suc k) w"
      unfolding shown_def
    proof (intro allI impI)
      fix n assume "n < Suc k"
      then consider "n = k" | "n < k" by linarith
      then show "case serial w (mk_hash (mm_keys m2 ! n)) of
          Some s \<Rightarrow> x_kstatus (mk_ctx (mm_keys m2 ! n)) = KEY_OK \<and> lk_serial L (mm_karr m2 ! snd (mm_kptr m2 ! n)) = s
        | None \<Rightarrow> x_kstatus (mk_ctx (mm_keys m2 ! n)) \<noteq> KEY_OK"
      proof cases
        case 1
        then show ?thesis using acquire_shows [OF a nb] key k lens j(1) own by (simp add: m2 cong: option.case_cong)
      next
        case 2
        then show ?thesis using Suc.prems(4) before [OF 2] by (simp add: m2 shown_def cong: option.case_cong)
      qed
    qed
    then show ?thesis using ih [OF _ sh acquire_serial [OF a]] run nb by simp
  next
    case False
    then have lt: "j < k" using j(1,2) by (auto simp: own_key_def le_less)
    define m1 where "m1 = m\<lparr>mm_n := k\<rparr>"
    define m2 where "m2 = set_kstatus k (x_kstatus (mk_ctx (mm_keys m ! j))) m1"
    have "get_dup_key (mk_hash (mm_keys m1 ! k)) (mm_id m1, k) False (m1 # rest) = Some (mm_keys m ! j)"
      using get_dup_key_first [of _ m1 j] j(3) by (simp add: m1_def)
    then have run: "lock_keys L [] rest [Suc k..<length (mm_keys m)] m2 w = (True, m', w')"
      using Suc.prems(5) False unfolding ns by (simp add: m1_def m2_def Let_def)
    have sh: "same_shape L m m2" unfolding m2_def m1_def by (intro same_shape_trans [OF _ same_shape_status]) simp
    have m2: "mm_keys m2 ! n = (if n = k then (mm_keys m ! k)\<lparr>mk_ctx := (mk_ctx (mm_keys m ! k))\<lparr>x_kstatus := x_kstatus (mk_ctx (mm_keys m ! j))\<rparr>\<rparr>
        else mm_keys m ! n)" "mm_kptr m2 = mm_kptr m" "mm_karr m2 = mm_karr m" for n
      using k by (auto simp: m2_def m1_def set_kstatus_def nth_list_update)
    have at: "shown m (Suc n) w" if "n < k" for n using Suc.prems(4) that by (simp add: shown_def)
    have "shown m2 (Suc k) w"
      unfolding shown_def
    proof (intro allI impI)
      fix n assume "n < Suc k"
      then consider "n = k" | "n < k" by linarith
      then show "case serial w (mk_hash (mm_keys m2 ! n)) of
          Some s \<Rightarrow> x_kstatus (mk_ctx (mm_keys m2 ! n)) = KEY_OK \<and> lk_serial L (mm_karr m2 ! snd (mm_kptr m2 ! n)) = s
        | None \<Rightarrow> x_kstatus (mk_ctx (mm_keys m2 ! n)) \<noteq> KEY_OK"
      proof cases
        case 1
        then show ?thesis using at [OF lt, unfolded shown_def, rule_format, OF lessI] j(1,4,5) by (simp add: m2 cong: option.case_cong)
      next
        case 2
        then show ?thesis using Suc.prems(4) by (simp add: m2 shown_def cong: option.case_cong)
      qed
    qed
    then show ?thesis using ih [OF run sh refl] by simp
  qed
qed

lemma try_lock_front:
  "try_lock_list L (m # front) lck ms w = (ok, lck', ms', w') \<Longrightarrow> \<exists>ds. ms' = m # ds"
proof (induction ms arbitrary: front lck w)
  case (Cons x ms)
  then show ?case by (auto split: if_splits prod.splits)
qed auto

lemma try_lock_shown:
  assumes "multi_try_lock L mu w = (True, mu1, w1)" "mu_list mu = m # ms" "msg_ok L m" "first_ctx (m # ms)"
  shows "\<exists>m1 ds. mu_list mu1 = m1 # ds \<and> same_shape L m m1 \<and> shown m1 (length (mm_keys m)) w \<and> serial w1 = serial w"
proof -
  obtain ok m1 w2 where k: "lock_keys L [] ms [0..<length (mm_keys m)] m w = (ok, m1, w2)"
    by (cases "lock_keys L [] ms [0..<length (mm_keys m)] m w") auto
  obtain lck ds where t: "try_lock_list L [] None (m # ms) w = (True, lck, ds, w1)" "mu_list mu1 = ds"
    using assms(1,2) by (auto simp: multi_try_lock_def split: prod.splits)
  then have ok and rest: "try_lock_list L [m1] (Some (mm_id m)) ms w2 = (True, lck, ds, w1)" using k by (auto split: if_splits)
  have "shown m1 (length (mm_keys m)) w \<and> same_shape L m m1"
    by (rule lock_keys_shown [OF assms(3,4), of 0]) (use k \<open>ok\<close> in \<open>simp_all add: shown_def\<close>)
  moreover obtain ds' where "ds = m1 # ds'" using try_lock_front [OF rest] by blast
  moreover have "serial w1 = serial w" using try_lock_serial [OF t(1)] .
  ultimately show ?thesis using t(2) by auto
qed

lemma lock_loop_last:
  assumes "lock_loop L mu w = Some (mu1, w1)" "distinct (map mm_id (mu_list mu))" "\<forall>m\<in>set (mu_list mu). msg_ok L m"
  shows "\<exists>mu0 w0. multi_try_lock L mu0 w0 = (True, mu1, w1) \<and> list_all2 (same_shape L) (mu_list mu) (mu_list mu0) \<and> serial w0 = serial w"
proof -
  let ?Q = "\<lambda>mu w mu1 w1. \<exists>mu0 w0. multi_try_lock L mu0 w0 = (True, mu1, w1) \<and> list_all2 (same_shape L) (mu_list mu) (mu_list mu0)
    \<and> serial w0 = serial w"
  let ?P = "\<lambda>L' mu w y. L' = L \<longrightarrow> distinct (map mm_id (mu_list mu)) \<longrightarrow> (\<forall>m\<in>set (mu_list mu). msg_ok L m) \<longrightarrow> ?Q mu w (fst y) (snd y)"
  have "?P L mu w (mu1, w1)"
  proof (rule lock_loop.raw_induct [where P = ?P, OF _ assms(1)], goal_cases)
    case (1 ll L' mu w y)
    show ?case
    proof (intro impI)
      assume a: "L' = L" "distinct (map mm_id (mu_list mu))" "\<forall>m\<in>set (mu_list mu). msg_ok L m"
      obtain ok mu2 w2 where t: "multi_try_lock L mu w = (ok, mu2, w2)" by (cases "multi_try_lock L mu w") auto
      have l: "locked (mu_list mu2) (mu_lock mu2) w w2" "list_all2 (same_shape L) (mu_list mu) (mu_list mu2)"
        using lock_then_release [OF a(2,3) t] by auto
      have s2: "serial w2 = serial w" using t try_lock_serial by (auto simp: multi_try_lock_def split: prod.splits)
      show "?Q mu w (fst y) (snd y)"
      proof (cases ok)
        case True
        then have "y = (mu2, w2)" using 1(2) t a(1) by simp
        moreover have "list_all2 (same_shape L) (mu_list mu) (mu_list mu)" by (simp add: list_all2_refl)
        ultimately show ?thesis using t True by auto
      next
        case False
        obtain mu3 w3 where r: "multi_release_lock L mu2 w2 = (mu3, w3)" by force
        have ids: "distinct (map mm_id (mu_list mu2))" "\<forall>m\<in>set (mu_list mu2). msg_ok L m"
          using shape_list [OF l(2)] a by simp_all
        have f: "list_all2 (same_shape L) (mu_list mu2) (mu_list mu3)" using release_locked [OF l(1) ids r] by auto
        have ids3: "distinct (map mm_id (mu_list mu3))" "\<forall>m\<in>set (mu_list mu3). msg_ok L m"
          using shape_list [OF f] ids by simp_all
        have "ll L' mu3 w3 = Some y" using 1(2) False t r a(1) by simp
        then have "?Q mu3 w3 (fst y) (snd y)" using 1(1) a(1) ids3 by blast
        moreover have "serial w3 = serial w" using release_lock_serial [OF r] s2 by simp
        moreover have "list_all2 (same_shape L) (mu_list mu) (mu_list mu3)"
          using list_all2_trans [OF same_shape_trans l(2) f] .
        ultimately show ?thesis using list_all2_trans [of "same_shape L" "same_shape L" "same_shape L", OF same_shape_trans] by fastforce
      qed
    qed
  qed
  then show ?thesis using assms by simp
qed

lemma watches_hold_iff:
  assumes "lock_loop L mu w = Some (mu1, w1)" "tx_inv L (Some mu)" "mu_list mu = m # ms" "mm_id m = 0"
  shows "watches_hold L mu1 \<longleftrightarrow> (\<forall>wl\<in>set (mu_watch mu). unchanged serial w wl)"
proof -
  have inv: "distinct (map mm_id (mu_list mu))" "\<forall>m\<in>set (mu_list mu). msg_ok L m" "first_ctx (mu_list mu)"
    "map mk_hash (mm_keys m) = map (mk_hash \<circ> wl_key) (mu_watch mu)"
    using assms(2-4) by (auto simp: tx_inv_def list_ok_def)
  obtain mu0 w0 where l: "multi_try_lock L mu0 w0 = (True, mu1, w1)" "list_all2 (same_shape L) (mu_list mu) (mu_list mu0)" "serial w0 = serial w"
    using lock_loop_last [OF assms(1) inv(1,2)] by blast
  obtain m0 ms0 where m0: "mu_list mu0 = m0 # ms0" "same_shape L m m0" using l(2) unfolding assms(3) list_all2_Cons1 by blast
  have fc0: "first_ctx (m0 # ms0)" "msg_ok L m0"
    using first_ctx_shape [OF l(2) inv(3)] shape_list(2) [OF l(2) inv(2)] by (simp_all add: m0(1))
  obtain m1 ds where m1: "mu_list mu1 = m1 # ds" "same_shape L m0 m1" "shown m1 (length (mm_keys m0)) w0"
    using try_lock_shown [OF l(1) m0(1) fc0(2,1)] by blast
  obtain ds' where d: "list_all2 (same_shape L) (mu_list mu) (mu_list mu1)" "mu_watch mu1 = mu_watch mu"
    using lock_loop_locked [OF assms(1) inv(1,2)] by auto
  have fc1: "first_ctx (m1 # ds)" using first_ctx_shape [OF d(1) inv(3)] by (simp add: m1(1))
  have sh: "same_shape L m m1" by (rule same_shape_trans [OF m0(2) m1(2)])
  have len: "length (mm_keys m1) = length (mu_watch mu)" "length (mm_keys m0) = length (mu_watch mu)"
    using same_shape_len [OF sh] same_shape_len [OF m0(2)] inv(4) by (metis length_map)+
  have ok1: "msg_ok L m1" by (rule same_shape_karr [OF m1(2) fc0(2)])
  have one: "watch_holds L (mu_list mu1) i (mu_watch mu ! i) \<longleftrightarrow> unchanged serial w (mu_watch mu ! i)" if i: "i < length (mu_watch mu)" for i
  proof -
    have hash: "mk_hash (mm_keys m1 ! i) = mk_hash (wl_key (mu_watch mu ! i))"
    proof -
      have "map mk_hash (mm_keys m1) = map (mk_hash \<circ> wl_key) (mu_watch mu)" using sh inv(4) by (simp add: same_shape_def)
      then have "map mk_hash (mm_keys m1) ! i = map (mk_hash \<circ> wl_key) (mu_watch mu) ! i" by simp
      then show ?thesis using i len(1) by simp
    qed
    obtain j where j: "mm_kptr m1 ! i = (mm_id m1, j)" "j \<le> i" "mk_hash (mm_keys m1 ! j) = mk_hash (mm_keys m1 ! i)"
      using first_msg_ctx [OF fc1, of i] i len(1) by metis
    have ctx: "kctx_at (mu_list mu1) (mm_kptr m1 ! i) = mm_karr m1 ! j" by (simp add: kctx_at_def m1(1) j(1))
    have key: "lk_key L (mm_karr m1 ! j) = mk_hash (wl_key (mu_watch mu ! i))"
      using ok1 i j(2,3) len(1) hash by (simp add: msg_ok_def)
    have "case serial w (mk_hash (mm_keys m1 ! i)) of
        Some s \<Rightarrow> x_kstatus (mk_ctx (mm_keys m1 ! i)) = KEY_OK \<and> lk_serial L (mm_karr m1 ! snd (mm_kptr m1 ! i)) = s
      | None \<Rightarrow> x_kstatus (mk_ctx (mm_keys m1 ! i)) \<noteq> KEY_OK"
      using m1(3) i len(2) l(3) by (simp add: shown_def)
    then show ?thesis
      using ctx key hash j(1) by (auto simp: watch_holds_def unchanged_def m1(1) Let_def split: option.splits)
  qed
  have "watches_hold L mu1 \<longleftrightarrow> (\<forall>i<length (mu_watch mu). watch_holds L (mu_list mu1) i (mu_watch mu ! i))"
    by (auto simp: watches_hold_def list_all_iff in_set_enumerate_eq d(2))
  then show ?thesis using one by (auto simp: all_set_conv_all_nth)
qed

end

interpretation tabw: watch_locks table_ops "\<lambda>w. set (fst w)" "\<lambda>w. set (snd w)" "\<lambda>w h. Some (snd h)"
  by unfold_locales (auto simp: table_ops_def split: if_splits prod.splits)

section \<open>Properties\<close>

definition exec_state :: "'e run \<Rightarrow> 'e run" where
  "exec_state r = set_cmd_state ((cmd_state (r_ex r) AND NOT CMD_STATE_MULTI_QUEUED) OR CMD_STATE_EXEC_MULTI) r"

text \<open>C11: WATCH guards EXEC. When EXEC has its locks and every watched key has in the store the serial number that
  WATCH saw, or is still absent, the queued commands run behind the header of an array of their replies. When one
  key has another number, is gone or has come into being, EXEC replies with null, none of the commands has run,
  and the locks are back. Watched keys may repeat. The message of the watched keys is in the queue: MULTI had the
  memory for it.\<close>

theorem watch_guards_exec:
  assumes "watch_locks L held others serial" "tx_reach L K U (Some mu)" "\<not> mu_abort mu" "mu_watch mu \<noteq> []"
    "mu_list mu = m # ms" "mm_id m = 0" "lock_loop L mu w = Some (mu1, w1)" "e_strm_ok E"
  shows "if \<forall>wl\<in>set (mu_watch mu). unchanged serial w wl
    then exec_exec E H nokeys L r (Some mu) w = map_option (\<lambda>(ms', r'). tx_end L EXEC_OK r' (mu1\<lparr>mu_list := ms'\<rparr>) w1)
      (tx_messages E H nokeys L [1..<Suc (length ms)] (mu_list mu1)
        ((exec_state r)\<lparr>r_out := r_out r @ [42] @ uint64_to_string (e_util E) (length ms) @ crlf\<rparr>))
    else \<exists>r' w'. exec_exec E H nokeys L r (Some mu) w = Some (EXEC_SEND_NULL, r', None, w')
      \<and> r_out r' = r_out r \<and> r_keys r' = r_keys r \<and> held w' = held w"
proof -
  note kl = watch_locks.axioms(1) [OF assms(1)]
  have inv: "tx_inv L (Some mu)" by (rule key_locks.reach_inv [OF kl assms(2)])
  have ok: "distinct (map mm_id (mu_list mu))" "\<forall>m\<in>set (mu_list mu). msg_ok L m" "mu_msg_count mu = Suc (length ms)"
    "0 < mu_watch_count mu" using inv assms(4,5) by (auto simp: tx_inv_def list_ok_def)
  obtain ms1 lck where mu1: "mu1 = mu\<lparr>mu_lock := lck, mu_list := ms1\<rparr>" and len: "length ms1 = Suc (length ms)"
    using key_locks.lock_loop_locked [OF kl assms(7) ok(1,2)] assms(5) list_all2_lengthD by fastforce
  have iff: "watches_hold L mu1 \<longleftrightarrow> (\<forall>wl\<in>set (mu_watch mu). unchanged serial w wl)"
    by (rule watch_locks.watches_hold_iff [OF assms(1,7) inv assms(5,6)])
  have out: "r_out (exec_state r) = r_out r" "r_keys (exec_state r) = r_keys r" by (simp_all add: exec_state_def set_cmd_state_def)
  have run: "exec_exec E H nokeys L r (Some mu) w =
    (if \<not> watches_hold L mu1 then Some (tx_end L EXEC_SEND_NULL (exec_state r) mu1 w1)
     else map_option (\<lambda>(ms', r'). tx_end L EXEC_OK r' (mu1\<lparr>mu_list := ms'\<rparr>) w1)
      (tx_messages E H nokeys L [1..<Suc (length ms)] (mu_list mu1)
        ((exec_state r)\<lparr>r_out := r_out r @ [42] @ uint64_to_string (e_util E) (length ms) @ crlf\<rparr>)))"
  proof -
    define T where "T = tx_messages E H nokeys L [1..<Suc (length ms)] (mu_list mu1)
        ((exec_state r)\<lparr>r_out := r_out r @ [42] @ uint64_to_string (e_util E) (length ms) @ crlf\<rparr>)"
    have sel: "mu_watch_count mu1 = mu_watch_count mu" "mu_msg_count mu1 = Suc (length ms)" "length (mu_list mu1) = Suc (length ms)"
      using ok(3) len by (simp_all add: mu1)
    show ?thesis
      unfolding exec_exec_def exec_state_def [symmetric] using assms(3,7,8) ok(4)
      by (cases T) (auto simp: Let_def sel out T_def simp del: upt_Suc)
  qed
  show ?thesis
  proof (cases "\<forall>wl\<in>set (mu_watch mu). unchanged serial w wl")
    case True
    then show ?thesis using run iff by simp
  next
    case False
    obtain st r' multi' w' where e: "tx_end L EXEC_SEND_NULL (exec_state r) mu1 w1 = (st, r', multi', w')"
      by (cases "tx_end L EXEC_SEND_NULL (exec_state r) mu1 w1") auto
    have x: "exec_exec E H nokeys L r (Some mu) w = Some (st, r', multi', w')" using run iff False e by auto
    have "held w' = held w" using key_locks.exec_released [OF kl inv x] by simp
    moreover have "st = EXEC_SEND_NULL" "multi' = None" "r_out r' = r_out r" "r_keys r' = r_keys r"
      using e out by (auto simp: tx_end_def discard_multi_def set_cmd_state_def split: prod.splits)
    ultimately show ?thesis using x False by auto
  qed
qed

text \<open>A key that was absent for WATCH and is there now.\<close>

theorem watch_guards_exec_witness:
  "\<exists>r' w'. exec_exec plain_env (\<lambda>K ex keys i. Some (EXEC_SEND_OK, keys ! i)) (\<lambda>r. None) table_ops plain_run (Some sample_watched) ([], [])
     = Some (EXEC_SEND_NULL, r', None, w') \<and> r_out r' = [] \<and> fst w' = []"
proof -
  let ?w = "([], []) :: key_hash list \<times> key_hash list"
  have changed: "\<not> (\<forall>wl\<in>set (mu_watch sample_watched). unchanged (\<lambda>w h. Some (snd h)) ?w wl)"
    by (simp add: sample_watched_def unchanged_def get_key_def)
  obtain m where m: "\<not> mu_abort sample_watched" "mu_watch sample_watched \<noteq> []" "mu_list sample_watched = [m]" "mm_id m = 0"
    by (simp add: sample_watched_def new_multi_def get_msg_def)
  have ok: "e_strm_ok plain_env" by (simp add: plain_env_def)
  show ?thesis
    using watch_guards_exec [OF tabw.watch_locks_axioms sample_watched_reach m lock_watched ok,
        of "\<lambda>K ex keys i. Some (EXEC_SEND_OK, keys ! i)" "\<lambda>r. None" plain_run] unfolding if_not_P [OF changed]
    by (auto simp: plain_run_def)
qed

end
