(* ===== verification/Redis_Key.thy ===== *)
theory Redis_Key
  imports Redis_Run
begin

text \<open>
  The key commands of \<open>src/redis_key.cpp\<close>: DEL, EXISTS, EXPIRE and its relatives, TTL, PERSIST,
  OBJECT, RENAME, TOUCH, TYPE, and the walks over the table of the store, RANDOMKEY, KEYS and SCAN.
  Shown: a time to live reads back what was set, RENAME moves the value from key to key in a whole
  run, and a client that follows the cursors of SCAN is shown every key of the table once.
\<close>

section \<open>More of the entry\<close>

text \<open>What these commands call beside the operations of \<open>kv_ops\<close>: the removal of an entry, its stamps
  and its counter of updates, and the names of the types.\<close>

record 'e key_ops =
  op_tombstone :: "'e \<Rightarrow> 'e"
  op_get_stamps :: "'e \<Rightarrow> key_status \<times> u64 \<times> u64"
  op_freq :: "'e \<Rightarrow> int"
  type_name :: "md_type \<Rightarrow> byte list"

locale key_entry = kv_entry K for K :: "'e kv_ops" +
  fixes T :: "'e key_ops"
  assumes stamps: "exp \<noteq> 0 \<Longrightarrow> \<exists>st upd. op_get_stamps T (op_update_stamps K e exp 0) = (st, exp, upd)"
    and cleared: "\<exists>st upd. op_get_stamps T (op_clear_stamps K e True False) = (st, 0, upd)"
    and now: "op_current_stamp K (op_update_stamps K e exp upd) = op_current_stamp K e"
    and tombstone: "fst (op_find K (op_release K (op_tombstone T e))) \<noteq> KEY_OK"

section \<open>Handlers\<close>

definition exec_del :: "'e key_ops \<Rightarrow> 'e kv_ops \<Rightarrow> redis_exec \<Rightarrow> 'e xst \<Rightarrow> (exec_status \<times> 'e xst) option" where
  "exec_del T K ex x = do {
     (st, x1) \<leftarrow> exec_key_fetch K ex False x;
     Some (EXEC_SEND_INT,
       if st = KEY_OK
       then set_flags {EKF_KEYSPACE_EVENT, EKF_KEYSPACE_DEL} (x1\<lparr>x_ent := op_tombstone T (x_ent x1), x_ival := 1\<rparr>)
       else x1\<lparr>x_ival := 0\<rparr>) }"

definition exec_unlink :: "'e key_ops \<Rightarrow> 'e kv_ops \<Rightarrow> redis_exec \<Rightarrow> 'e xst \<Rightarrow> (exec_status \<times> 'e xst) option" where
  "exec_unlink T K ex x = exec_del T K ex x"

definition exec_exists :: "'e kv_ops \<Rightarrow> redis_exec \<Rightarrow> 'e xst \<Rightarrow> (exec_status \<times> 'e xst) option" where
  "exec_exists K ex x = do {
     (st, x1) \<leftarrow> exec_key_fetch K ex False x;
     Some (case st of
         KEY_OK \<Rightarrow> (EXEC_SEND_INT, x1\<lparr>x_ival := 1\<rparr>)
       | KEY_NOT_FOUND \<Rightarrow> (EXEC_SEND_INT, x1\<lparr>x_ival := 0\<rparr>)
       | _ \<Rightarrow> (ERR_KV_STATUS, x1)) }"

definition exec_touch :: "'e kv_ops \<Rightarrow> redis_exec \<Rightarrow> 'e xst \<Rightarrow> (exec_status \<times> 'e xst) option" where
  "exec_touch K ex x = do {
     (st, x1) \<leftarrow> exec_key_fetch K ex False x;
     Some (case st of
         KEY_OK \<Rightarrow> (EXEC_SEND_INT, x1\<lparr>x_ival := 1\<rparr>)
       | KEY_IS_NEW \<Rightarrow> (EXEC_SEND_INT, x1\<lparr>x_ival := 0\<rparr>)
       | _ \<Rightarrow> (ERR_KV_STATUS, x1)) }"

text \<open>A time of expiry is stored if the key is there.\<close>

definition expire_store :: "'e kv_ops \<Rightarrow> redis_exec \<Rightarrow> u64 \<Rightarrow> 'e xst \<Rightarrow> (exec_status \<times> 'e xst) option" where
  "expire_store K ex exp x = do {
     (st, x1) \<leftarrow> exec_key_fetch K ex False x;
     Some (EXEC_SEND_INT,
       if st = KEY_OK then set_flags {EKF_KEYSPACE_EVENT} (x1\<lparr>x_ent := op_update_stamps K (x_ent x1) exp 0, x_ival := 1\<rparr>)
       else x1\<lparr>x_ival := 0\<rparr>) }"

definition do_pexpire :: "'e kv_ops \<Rightarrow> redis_exec \<Rightarrow> 'e xst \<Rightarrow> u64 \<Rightarrow> (exec_status \<times> 'e xst) option" where
  "do_pexpire K ex x units =
     (case get_arg_int (ex_msg ex) 2 of None \<Rightarrow> Some (ERR_BAD_ARGS, x)
      | Some ival \<Rightarrow>
        let exp = of_int ival * units; now = op_current_stamp K (x_ent x) in
        expire_store K ex (if exp < now then exp + now else exp) x)"

definition do_pexpireat :: "'e kv_ops \<Rightarrow> redis_exec \<Rightarrow> 'e xst \<Rightarrow> u64 \<Rightarrow> (exec_status \<times> 'e xst) option" where
  "do_pexpireat K ex x units =
     (case get_arg_int (ex_msg ex) 2 of None \<Rightarrow> Some (ERR_BAD_ARGS, x)
      | Some ival \<Rightarrow> expire_store K ex (of_int ival * units) x)"

definition exec_expire where "exec_expire K ex x = do_pexpire K ex x (1000 * 1000 * 1000)"
definition exec_pexpire where "exec_pexpire K ex x = do_pexpire K ex x (1000 * 1000)"
definition exec_expireat where "exec_expireat K ex x = do_pexpireat K ex x (1000 * 1000 * 1000)"
definition exec_pexpireat where "exec_pexpireat K ex x = do_pexpireat K ex x (1000 * 1000)"

definition exec_persist :: "'e kv_ops \<Rightarrow> redis_exec \<Rightarrow> 'e xst \<Rightarrow> (exec_status \<times> 'e xst) option" where
  "exec_persist K ex x = do {
     (st, x1) \<leftarrow> exec_key_fetch K ex False x;
     Some (EXEC_SEND_INT,
       if st = KEY_OK then x1\<lparr>x_ent := op_clear_stamps K (x_ent x1) True False, x_ival := 1\<rparr>
       else x1\<lparr>x_ival := 0\<rparr>) }"

text \<open>\<open>(int64_t) exp / units\<close>: the division of C++ cuts towards zero.\<close>

definition do_pttl :: "'e key_ops \<Rightarrow> 'e kv_ops \<Rightarrow> redis_exec \<Rightarrow> 'e xst \<Rightarrow> int \<Rightarrow> (exec_status \<times> 'e xst) option" where
  "do_pttl T K ex x units = do {
     (st, x1) \<leftarrow> exec_key_fetch K ex False x;
     Some (case st of
         KEY_OK \<Rightarrow>
           (case op_get_stamps T (x_ent x1) of (_, exp, _) \<Rightarrow>
              let left = sint (exp - op_current_stamp K (x_ent x1)) in
              (EXEC_SEND_INT, x1\<lparr>x_ival := (if exp \<noteq> 0 then sgn left * (\<bar>left\<bar> div units) else - 1)\<rparr>))
       | KEY_NOT_FOUND \<Rightarrow> (EXEC_SEND_INT, x1\<lparr>x_ival := - 2\<rparr>)
       | _ \<Rightarrow> (ERR_KV_STATUS, x1)) }"

definition exec_ttl where "exec_ttl T K ex x = do_pttl T K ex x (1000 * 1000 * 1000)"
definition exec_pttl where "exec_pttl T K ex x = do_pttl T K ex x (1000 * 1000)"

definition object_subcmds :: "byte list list" where
  "object_subcmds = map ascii [''refcount'', ''encoding'', ''idletime'', ''freq'', ''help'']"

definition idle_secs :: "u64 \<Rightarrow> u64 \<Rightarrow> int" where
  "idle_secs now upd = (if upd \<noteq> 0 then to_int64 (uint ((now - upd) div (1000 * 1000 * 1000))) else 0)"

definition exec_object :: "'e key_ops \<Rightarrow> kv_util \<Rightarrow> 'e kv_ops \<Rightarrow> redis_exec \<Rightarrow> 'e xst \<Rightarrow> (exec_status \<times> 'e xst) option" where
  "exec_object T U K ex x = do {
     subcmd \<leftarrow> match_arg (ex_msg ex) 1 object_subcmds;
     if subcmd < 1 \<or> subcmd > 4 then Some (ERR_BAD_ARGS, x)
     else do {
       (st, x1) \<leftarrow> exec_key_fetch K ex False x;
       Some (case st of
           KEY_OK \<Rightarrow>
             if subcmd = 1 then (EXEC_SEND_INT, x1\<lparr>x_ival := 1\<rparr>)
             else if subcmd = 2 then (EXEC_OK, send (send_string U (x_strm_ok x1) (type_name T (x_type x1))) x1)
             else if subcmd = 3 then
               (case op_get_stamps T (x_ent x1) of (st2, exp, upd) \<Rightarrow>
                  let x2 = x1\<lparr>x_kstatus := st2\<rparr> in
                  if st2 \<noteq> KEY_OK then (ERR_KV_STATUS, x2)
                  else (EXEC_SEND_INT, x2\<lparr>x_ival := idle_secs (op_current_stamp K (x_ent x2)) upd\<rparr>))
             else (EXEC_SEND_INT, x1\<lparr>x_ival := op_freq T (x_ent x1)\<rparr>)
         | KEY_NOT_FOUND \<Rightarrow> (EXEC_SEND_NIL, x1)
         | _ \<Rightarrow> (ERR_KV_STATUS, x1)) } }"

definition exec_type :: "'e key_ops \<Rightarrow> 'e kv_ops \<Rightarrow> redis_exec \<Rightarrow> 'e xst \<Rightarrow> (exec_status \<times> 'e xst) option" where
  "exec_type T K ex x = do {
     (st, x1) \<leftarrow> exec_key_fetch K ex False x;
     Some (case st of
         KEY_OK \<Rightarrow> (EXEC_OK, send (send_simple_string (x_strm_ok x1) (type_name T (x_type x1))) x1)
       | KEY_NOT_FOUND \<Rightarrow> (EXEC_OK, send (send_simple_string (x_strm_ok x1) (ascii ''none'')) x1)
       | _ \<Rightarrow> (ERR_KV_STATUS, x1)) }"

subsection \<open>RENAME\<close>

definition RENAME_CMD :: nat where "RENAME_CMD = 30"
definition RENAMENX_CMD :: nat where "RENAMENX_CMD = 31"

text \<open>The new key: it waits until the value of the old one is saved, and takes it over.\<close>

definition rename_dest :: "'e kv_ops \<Rightarrow> redis_exec \<Rightarrow> 'e xst list \<Rightarrow> 'e xst \<Rightarrow> (exec_status \<times> 'e xst) option" where
  "rename_dest K ex keys x =
     (case x_part (keys ! 0) of
        None \<Rightarrow> Some (EXEC_DEPENDS, x)
      | Some saved \<Rightarrow>
        if saved = [] then Some (ERR_KEY_DOESNT_EXIST, x)
        else do {
          (st, x1) \<leftarrow> exec_key_fetch K ex False x;
          if st = KEY_OK \<or> st = KEY_IS_NEW then
            let x2 = k_resize K (length saved) False x1 in
            if x_kstatus x2 = KEY_OK then do {
              d \<leftarrow> mem_copy 0 saved (x_data K x2);
              let x3 = put_data K x2 d;
              Some (if ex_cmd ex = RENAME_CMD then EXEC_SEND_OK else EXEC_SEND_INT,
                set_flags {EKF_KEYSPACE_EVENT}
                  (x3\<lparr>x_ent := op_set_val K (op_set_type K (x_ent x3) (x_type (keys ! 0)))\<rparr>)) }
            else Some (ERR_KV_STATUS, x2)
          else Some (ERR_KV_STATUS, x1) })"

text \<open>The old key, first to be read and then to be removed. The result of \<open>save_data\<close> is not looked at.\<close>

definition rename_read :: "'e kv_ops \<Rightarrow> redis_exec \<Rightarrow> 'e xst \<Rightarrow> (exec_status \<times> 'e xst) option" where
  "rename_read K ex x = do {
     (st, x1) \<leftarrow> exec_key_fetch K ex True x;
     let x2 = (if st = KEY_OK then k_value K x1 else x1);
     Some (if st = KEY_OK \<and> x_kstatus x2 = KEY_OK \<or> st = KEY_NOT_FOUND then
         let x3 = k_validate K (snd (save_data (x_strm_ok x2) (if st = KEY_OK then x_data K x2 else []) x2)) in
         if x_kstatus x3 = KEY_OK then (EXEC_DEPENDS, x3) else (ERR_KV_STATUS, x3)
       else (ERR_KV_STATUS, x2)) }"

definition rename_remove :: "'e key_ops \<Rightarrow> 'e kv_ops \<Rightarrow> redis_exec \<Rightarrow> 'e xst \<Rightarrow> (exec_status \<times> 'e xst) option" where
  "rename_remove T K ex x = do {
     (st, x1) \<leftarrow> exec_key_fetch K ex False x;
     Some (if st = KEY_OK \<or> st = KEY_IS_NEW then
         let x2 = set_flags {EKF_KEYSPACE_EVENT, EKF_KEYSPACE_DEL} (x1\<lparr>x_ent := op_tombstone T (x_ent x1)\<rparr>) in
         if ex_cmd ex = RENAME_CMD then (EXEC_SEND_OK, x2) else (EXEC_SEND_INT, x2\<lparr>x_ival := 1\<rparr>)
       else (ERR_KV_STATUS, x1)) }"

definition exec_rename :: "'e key_ops \<Rightarrow> 'e kv_ops \<Rightarrow> redis_exec \<Rightarrow> 'e xst list \<Rightarrow> 'e xst \<Rightarrow> (exec_status \<times> 'e xst) option" where
  "exec_rename T K ex keys x =
     (if x_argn x = 2 then rename_dest K ex keys x
      else if x_dep x = 0 then rename_read K ex x
      else rename_remove T K ex x)"

definition exec_renamenx :: "'e key_ops \<Rightarrow> 'e kv_ops \<Rightarrow> redis_exec \<Rightarrow> 'e xst list \<Rightarrow> 'e xst \<Rightarrow> (exec_status \<times> 'e xst) option" where
  "exec_renamenx T K ex keys x =
     (if x_argn x = 2 \<and> x_dep x = 0 then do {
        (st, x1) \<leftarrow> exec_key_fetch K ex True x;
        (case st of
           KEY_NOT_FOUND \<Rightarrow> exec_rename T K ex keys x1
         | KEY_OK \<Rightarrow> Some (EXEC_ABORT_SEND_ZERO, x1)
         | _ \<Rightarrow> Some (ERR_KV_STATUS, x1)) }
      else exec_rename T K ex keys x)"

subsection \<open>The switch\<close>

definition key_handler :: "'e key_ops \<Rightarrow> kv_util \<Rightarrow> 'e kv_ops \<Rightarrow> redis_exec \<Rightarrow> 'e xst list \<Rightarrow> nat
    \<Rightarrow> (exec_status \<times> 'e xst) option" where
  "key_handler T U K ex keys i =
     (let x = keys ! i; nm = cmd_name (cmd_db ! ex_cmd ex) in
      if nm = ''del'' then exec_del T K ex x
      else if nm = ''exists'' then exec_exists K ex x
      else if nm = ''expire'' then exec_expire K ex x
      else if nm = ''expireat'' then exec_expireat K ex x
      else if nm = ''object'' then exec_object T U K ex x
      else if nm = ''persist'' then exec_persist K ex x
      else if nm = ''pexpire'' then exec_pexpire K ex x
      else if nm = ''pexpireat'' then exec_pexpireat K ex x
      else if nm = ''pttl'' then exec_pttl T K ex x
      else if nm = ''rename'' then exec_rename T K ex keys x
      else if nm = ''renamenx'' then exec_renamenx T K ex keys x
      else if nm = ''touch'' then exec_touch K ex x
      else if nm = ''ttl'' then exec_ttl T K ex x
      else if nm = ''type'' then exec_type T K ex x
      else if nm = ''unlink'' then exec_unlink T K ex x
      else Some (ERR_BAD_CMD, x))"

section \<open>Walks over the table\<close>

text \<open>The slots of the table: the key of a slot that holds an entry. The compiler of patterns, which
  is PCRE behind a conversion of globs, gives a matcher or refuses.\<close>

record ht_view =
  ht_size :: u64
  ht_key :: "u64 \<Rightarrow> byte list option"
  rx_compile :: "byte list \<Rightarrow> (byte list \<Rightarrow> bool) option"

text \<open>Keys are stored with a terminating zero.\<close>

definition stored_key :: "byte list \<Rightarrow> byte list" where
  "stored_key kb = (if kb \<noteq> [] \<and> kb ! (length kb - 1) = 0 then take (length kb - 1) kb else kb)"

fun randomkey_loop :: "ht_view \<Rightarrow> nat \<Rightarrow> u64 \<Rightarrow> byte list option" where
  "randomkey_loop H 0 pos = None"
| "randomkey_loop H (Suc n) pos =
     (case ht_key H pos of
        Some kb \<Rightarrow> Some (stored_key kb)
      | None \<Rightarrow> randomkey_loop H n (if pos + 1 = ht_size H then 0 else pos + 1))"

definition exec_randomkey :: "kv_util \<Rightarrow> bool \<Rightarrow> ht_view \<Rightarrow> u64 \<Rightarrow> exec_status \<times> byte list" where
  "exec_randomkey U ok H pos =
     (case randomkey_loop H (unat (ht_size H)) pos of
        Some kb \<Rightarrow> (EXEC_OK, send_string U ok kb)
      | None \<Rightarrow> (EXEC_SEND_NIL, []))"

lemma u64_suc: "pos < (n :: u64) \<Longrightarrow> unat (pos + 1) = unat pos + 1"
proof -
  have "unat n < 2 ^ LENGTH(64)" by (rule unsigned_less)
  moreover assume "pos < n"
  ultimately show ?thesis by (simp add: word_less_nat_alt unat_word_ariths)
qed

text \<open>The loop of \<open>scan_keys\<close>: the keys found, the position and what is left of the count.\<close>

function scan_loop :: "ht_view \<Rightarrow> (byte list \<Rightarrow> bool) \<Rightarrow> u64 \<Rightarrow> int \<Rightarrow> byte list list \<times> u64 \<times> int" where
  "scan_loop H rx pos maxcnt =
     (if pos < ht_size H then
        (case ht_key H pos of
           None \<Rightarrow> scan_loop H rx (pos + 1) maxcnt
         | Some kb \<Rightarrow>
           if rx (stored_key kb) then
             let m1 = to_int64 (maxcnt - 1) in
             if m1 = 0 then ([stored_key kb], pos, m1)
             else (case scan_loop H rx (pos + 1) m1 of (ks, r) \<Rightarrow> (stored_key kb # ks, r))
           else scan_loop H rx (pos + 1) maxcnt)
      else ([], pos, maxcnt))"
  by auto
termination
  by (relation "measure (\<lambda>(H, rx, pos, maxcnt). unat (ht_size H) - unat pos)")
    (auto simp: word_less_nat_alt u64_suc)

declare scan_loop.simps [simp del]

text \<open>A count that ran out or is left gives a cursor, a negative one asks for all keys at once.\<close>

definition scan_keys :: "kv_util \<Rightarrow> bool \<Rightarrow> ht_view \<Rightarrow> (byte list \<Rightarrow> bool) \<Rightarrow> u64 \<Rightarrow> int \<Rightarrow> exec_status \<times> byte list" where
  "scan_keys U ok H rx pos maxcnt =
     (case scan_loop H rx pos maxcnt of (ks, pos1, m1) \<Rightarrow>
        if ks \<noteq> [] \<and> \<not> ok then (ERR_ALLOC_FAIL, [])
        else
          let q = concat (map (\<lambda>k. append_string U k []) ks) in
          (EXEC_OK,
           if m1 \<ge> 0 then prepend_cursor_array U (unat (if pos1 = ht_size H then 0 else pos1 + 1)) (length ks) q
           else prepend_array U (length ks) q))"

function scan_options :: "redis_exec \<Rightarrow> nat \<Rightarrow> int \<Rightarrow> byte list option \<Rightarrow> (exec_status + int \<times> byte list option) option" where
  "scan_options ex i maxcnt pat =
     (if i < argc ex then do {
        opt \<leftarrow> match_arg (ex_msg ex) i [ascii ''match'', ascii ''count''];
        if opt = 1 then
          (case get_arg_str (ex_msg ex) (i + 1) of None \<Rightarrow> Some (Inl ERR_BAD_ARGS)
           | Some p \<Rightarrow> scan_options ex (i + 2) maxcnt (Some p))
        else if opt = 2 then
          (case get_arg_int (ex_msg ex) (i + 1) of None \<Rightarrow> Some (Inl ERR_BAD_ARGS)
           | Some n \<Rightarrow> scan_options ex (i + 2) n pat)
        else Some (Inl ERR_BAD_ARGS) }
      else Some (Inr (maxcnt, pat)))"
  by pat_completeness auto
termination by (relation "measure (\<lambda>(ex, i, maxcnt, pat). argc ex - i)") auto

declare scan_options.simps [simp del]

definition match_scan_args :: "ht_view \<Rightarrow> redis_exec \<Rightarrow> nat \<Rightarrow> (exec_status + u64 \<times> int \<times> (byte list \<Rightarrow> bool)) option" where
  "match_scan_args H ex i =
     (case get_arg_int (ex_msg ex) i of None \<Rightarrow> Some (Inl ERR_BAD_ARGS)
      | Some pos \<Rightarrow> do {
        r \<leftarrow> scan_options ex (i + 1) 10 None;
        Some (case r of
            Inl e \<Rightarrow> Inl e
          | Inr (maxcnt, None) \<Rightarrow> Inr (of_int pos, maxcnt, \<lambda>_. True)
          | Inr (maxcnt, Some p) \<Rightarrow>
              (case rx_compile H p of None \<Rightarrow> Inl ERR_BAD_ARGS | Some rx \<Rightarrow> Inr (of_int pos, maxcnt, rx))) })"

definition exec_scan :: "kv_util \<Rightarrow> bool \<Rightarrow> ht_view \<Rightarrow> redis_exec \<Rightarrow> (exec_status \<times> byte list) option" where
  "exec_scan U ok H ex = do {
     r \<leftarrow> match_scan_args H ex 1;
     Some (case r of Inl e \<Rightarrow> (e, []) | Inr (pos, maxcnt, rx) \<Rightarrow> scan_keys U ok H rx pos maxcnt) }"

definition exec_keys :: "kv_util \<Rightarrow> bool \<Rightarrow> ht_view \<Rightarrow> redis_exec \<Rightarrow> exec_status \<times> byte list" where
  "exec_keys U ok H ex =
     (case get_arg_str (ex_msg ex) 1 of None \<Rightarrow> (ERR_BAD_ARGS, [])
      | Some p \<Rightarrow>
        if length p > 1 \<or> p ! 0 \<noteq> of_char CHR ''*'' then
          (case rx_compile H p of None \<Rightarrow> (ERR_BAD_ARGS, []) | Some rx \<Rightarrow> scan_keys U ok H rx 0 (- 1))
        else scan_keys U ok H (\<lambda>_. True) 0 (- 1))"

text \<open>Not implemented by the server: MIGRATE, MOVE, SORT and WAIT.\<close>

definition exec_migrate :: "'e xst \<Rightarrow> exec_status \<times> 'e xst" where "exec_migrate x = (ERR_BAD_CMD, x)"
definition exec_move :: "'e xst \<Rightarrow> exec_status \<times> 'e xst" where "exec_move x = (ERR_BAD_CMD, x)"
definition exec_sort :: "'e xst \<Rightarrow> exec_status \<times> 'e xst" where "exec_sort x = (ERR_BAD_CMD, x)"
definition exec_wait :: exec_status where "exec_wait = ERR_BAD_CMD"

section \<open>Scanning\<close>

text \<open>The reference: the keys in the slots from a position on that match.\<close>

definition keys_in :: "ht_view \<Rightarrow> (byte list \<Rightarrow> bool) \<Rightarrow> nat \<Rightarrow> nat \<Rightarrow> byte list list" where
  "keys_in H rx a b = filter rx (map stored_key (List.map_filter (\<lambda>n. ht_key H (of_nat n)) [a..<b]))"

lemma keys_in_step:
  "a < b \<Longrightarrow> keys_in H rx a b =
     (case ht_key H (of_nat a) of None \<Rightarrow> keys_in H rx (a + 1) b
      | Some kb \<Rightarrow> if rx (stored_key kb) then stored_key kb # keys_in H rx (a + 1) b else keys_in H rx (a + 1) b)"
  by (simp add: keys_in_def upt_conv_Cons map_filter_simps split: option.splits)

lemma keys_in_split: "a \<le> b \<Longrightarrow> b \<le> c \<Longrightarrow> keys_in H rx a b @ keys_in H rx b c = keys_in H rx a c"
  using upt_add_eq_append [of a b "c - b"] by (simp add: keys_in_def List.map_filter_def)

lemma keys_in_empty [simp]: "b \<le> a \<Longrightarrow> keys_in H rx a b = []"
  by (simp add: keys_in_def List.map_filter_def)

text \<open>One scan with a count: it stops at the slot where the count runs out, or at the end.\<close>

lemma scan_loop_counts:
  "0 < m \<Longrightarrow> int64_range m \<Longrightarrow> scan_loop H rx pos m = (ks, pos1, m1) \<Longrightarrow>
   0 \<le> m1 \<and> pos \<le> pos1 \<and> int (length ks) + m1 = m \<and>
   (if pos1 < ht_size H then ks = keys_in H rx (unat pos) (unat pos1 + 1)
    else ks = keys_in H rx (unat pos) (unat (ht_size H)) \<and> (pos \<le> ht_size H \<longrightarrow> pos1 = ht_size H))"
proof (induction H rx pos m arbitrary: ks rule: scan_loop.induct)
  case (1 H rx pos m)
  have m1: "to_int64 (m - 1) = m - 1" using 1(4,5) by (simp add: to_int64_id int64_range_def)
  show ?case
  proof (cases "pos < ht_size H")
    case False
    then show ?thesis using 1(4,6) by (subst (asm) scan_loop.simps) (auto simp: word_less_nat_alt word_le_nat_alt word_unat_eq_iff)
  next
    case True
    note s = 1(6) [unfolded scan_loop.simps [of H rx pos m] if_P [OF True]]
    have p: "unat (pos + 1) = unat pos + 1" "unat pos < unat (ht_size H)" using u64_suc [OF True] True by (simp_all add: word_less_nat_alt)
    have next_pos: "pos + 1 \<le> q \<Longrightarrow> pos \<le> q" "pos + 1 \<le> ht_size H" for q
      using p by (simp_all add: word_le_nat_alt)
    have step: "keys_in H rx (unat pos) n = (case ht_key H pos of None \<Rightarrow> keys_in H rx (unat pos + 1) n
        | Some kb \<Rightarrow> if rx (stored_key kb) then stored_key kb # keys_in H rx (unat pos + 1) n else keys_in H rx (unat pos + 1) n)"
      if "unat pos < n" for n using keys_in_step [OF that, of H rx] by simp
    show ?thesis
    proof (cases "ht_key H pos")
      case None
      then have "scan_loop H rx (pos + 1) m = (ks, pos1, m1)" using s by simp
      from "1.IH"(1) [OF True None 1(4,5) this] show ?thesis
        using None p next_pos step by (auto simp: word_le_nat_alt word_less_nat_alt split: if_splits)
    next
      case (Some kb)
      show ?thesis
      proof (cases "rx (stored_key kb)")
        case False
        then have "scan_loop H rx (pos + 1) m = (ks, pos1, m1)" using s Some by simp
        from "1.IH"(3) [OF True Some False 1(4,5) this] show ?thesis
          using Some False p next_pos step by (auto simp: word_le_nat_alt word_less_nat_alt split: if_splits)
      next
        case rx: True
        show ?thesis
        proof (cases "m - 1 = 0")
          case True
          have "keys_in H rx (unat pos) (unat pos + 1) = [stored_key kb]"
            using step [of "unat pos + 1"] Some rx by simp
          moreover have "ks = [stored_key kb]" "pos1 = pos" "m1 = 0"
            using s Some rx m1 True by (auto simp: Let_def)
          ultimately show ?thesis using True \<open>pos < ht_size H\<close> by simp
        next
          case False
          obtain ks1 where k: "scan_loop H rx (pos + 1) (m - 1) = (ks1, pos1, m1)" "ks = stored_key kb # ks1"
            using s Some rx m1 False by (auto simp: Let_def split: prod.splits)
          have r: "0 < m - 1" "int64_range (m - 1)" using 1(4,5) False by (auto simp: int64_range_def)
          from "1.IH"(2) [OF \<open>pos < ht_size H\<close> Some rx refl, unfolded m1, OF False r k(1)] show ?thesis
            using False Some rx p next_pos step k(2) by (auto simp: word_le_nat_alt word_less_nat_alt split: if_splits)
        qed
      qed
    qed
  qed
qed


text \<open>A client that asks with the cursor of the last reply until it is zero, with any counts above zero.
  It reads the replies off the wire.\<close>

inductive scan_session :: "kv_util \<Rightarrow> ht_view \<Rightarrow> (byte list \<Rightarrow> bool) \<Rightarrow> nat \<Rightarrow> byte list list list \<Rightarrow> bool"
  for U H rx where
  scan_last: "0 < m \<Longrightarrow> m < 2 ^ 31 \<Longrightarrow> scan_keys U True H rx (of_nat c) m = (EXEC_OK, reply) \<Longrightarrow>
    unpack enough_mem reply = Inr (mk_arr [mk_str (dec_nat 0), mk_arr (map mk_str ks)], length reply) \<Longrightarrow>
    scan_session U H rx c [ks]"
| scan_more: "0 < m \<Longrightarrow> m < 2 ^ 31 \<Longrightarrow> scan_keys U True H rx (of_nat c) m = (EXEC_OK, reply) \<Longrightarrow>
    unpack enough_mem reply = Inr (mk_arr [mk_str (dec_nat c1), mk_arr (map mk_str ks)], length reply) \<Longrightarrow>
    c1 \<noteq> 0 \<Longrightarrow> c1 < 2 ^ 64 \<Longrightarrow> scan_session U H rx c1 kss \<Longrightarrow> scan_session U H rx c (ks # kss)"

definition short_keys :: "ht_view \<Rightarrow> bool" where
  "short_keys H \<longleftrightarrow> (\<forall>pos kb. ht_key H pos = Some kb \<longrightarrow> length kb < 2 ^ 16)"

lemma keys_in_short: "short_keys H \<Longrightarrow> k \<in> set (keys_in H rx a b) \<Longrightarrow> length k < 2 ^ 31"
  by (force simp: keys_in_def short_keys_def stored_key_def map_filter_def split: if_splits)

lemma ht_size_bound: "unat (ht_size H) < 2 ^ 64"
  using unsigned_less [of "ht_size H"] by simp

lemma mk_arr_inject: "mk_arr [mk_str a, mk_arr (map mk_str xs)] = mk_arr [mk_str b, mk_arr (map mk_str ys)] \<longleftrightarrow> a = b \<and> xs = ys"
proof -
  have i: "mk_str x = mk_str y \<longleftrightarrow> x = y" for x y by (auto simp: mk_str_def)
  have "inj mk_str" by (rule injI) (simp add: i)
  then show ?thesis by (auto simp: mk_arr_def i inj_map_eq_map)
qed

lemma dec_nat_inject: "dec_nat a = dec_nat b \<longleftrightarrow> a = b"
  by (metis dec_val_dec_nat)

text \<open>What one reply holds: the keys of the slots up to the next cursor.\<close>

lemma scan_keys_reply:
  assumes "kv_format U" "short_keys H" "0 < m" "m < 2 ^ 31" "c \<le> unat (ht_size H)"
  obtains reply ks c1 where "scan_keys U True H rx (of_nat c) m = (EXEC_OK, reply)"
    "unpack enough_mem reply = Inr (mk_arr [mk_str (dec_nat c1), mk_arr (map mk_str ks)], length reply)"
    "c1 \<le> unat (ht_size H)" "c1 = 0 \<longrightarrow> ks = keys_in H rx c (unat (ht_size H))"
    "c1 \<noteq> 0 \<longrightarrow> c < c1 \<and> ks = keys_in H rx c c1"
proof -
  have c: "unat (of_nat c :: u64) = c" using assms(5) ht_size_bound [of H] by (intro u64_of_nat_inverse) simp
  obtain ks p m1 where l: "scan_loop H rx (of_nat c) m = (ks, p, m1)" by (metis prod_cases3)
  have r: "0 \<le> m1" "of_nat c \<le> p" "int (length ks) + m1 = m"
    "if p < ht_size H then ks = keys_in H rx c (unat p + 1) else ks = keys_in H rx c (unat (ht_size H)) \<and> p = ht_size H"
    using scan_loop_counts [OF assms(3) _ l] assms(3-5) c
    by (simp_all add: int64_range_def word_le_nat_alt split: if_splits)
  define c1 where "c1 = unat (if p = ht_size H then 0 else p + 1)"
  have lt: "\<not> p < ht_size H \<Longrightarrow> p = ht_size H" using r(4) by (simp split: if_splits)
  have c1: "c1 = (if p < ht_size H then unat p + 1 else 0)" using lt u64_suc [of p "ht_size H"] by (auto simp: c1_def)
  have short: "\<forall>k\<in>set ks. length k < 2 ^ 31" using keys_in_short [OF assms(2)] r(4) by (auto split: if_splits)
  define reply where "reply = prepend_cursor_array U c1 (length ks) (concat (map (\<lambda>k. append_string U k []) ks))"
  have "scan_keys U True H rx (of_nat c) m = (EXEC_OK, reply)"
    using l r(1) by (simp add: scan_keys_def reply_def c1_def Let_def)
  moreover have "unpack enough_mem reply = Inr (mk_arr [mk_str (dec_nat c1), mk_arr (map mk_str ks)], length reply)"
    unfolding reply_def using r(1,3) assms(4) c1_def unsigned_less [of "if p = ht_size H then 0 else p + 1"] short
    by (intro cursor_reply_unpack [OF assms(1)]) simp_all
  moreover have "c1 \<le> unat (ht_size H)" "c1 = 0 \<longrightarrow> ks = keys_in H rx c (unat (ht_size H))"
    "c1 \<noteq> 0 \<longrightarrow> c < c1 \<and> ks = keys_in H rx c c1"
    using r(2,4) c c1 by (auto simp: word_less_nat_alt word_le_nat_alt)
  ultimately show thesis by (rule that)
qed


section \<open>Expiry\<close>

text \<open>A store in memory for these commands.\<close>

definition mem_key_ops :: "mem_entry key_ops" where
  "mem_key_ops =
     \<lparr>op_tombstone = (\<lambda>e. e\<lparr>me_exists := False, me_type := MD_NODATA, me_data := [], me_expires := 0\<rparr>),
      op_get_stamps = (\<lambda>e. (KEY_OK, me_expires e, me_now e)),
      op_freq = (\<lambda>e. 0),
      type_name = (\<lambda>ty. if ty = MD_STRING then ascii ''string'' else ascii ''other'')\<rparr>"

interpretation mem_key: key_entry mem_ops mem_key_ops
  by unfold_locales (simp_all add: mem_ops_def mem_key_ops_def)

text \<open>A fetch of one access that finds the key: the state of the key it leaves.\<close>

definition fetch_finds :: "'e kv_ops \<Rightarrow> redis_exec \<Rightarrow> 'e xst \<Rightarrow> 'e xst \<Rightarrow> bool" where
  "fetch_finds K ex x x1 \<longleftrightarrow> exec_key_fetch K ex False x = Some (KEY_OK, x1)"

text \<open>The time to live. After EXPIRE with n seconds, below the time of the clock, TTL replies
  n at the same time, PTTL the milliseconds; after PERSIST both reply -1.\<close>

theorem expire_then_ttl:
  assumes "key_entry K T" "get_arg_int (ex_msg ex) 2 = Some (int n)" "0 < n"
    and now: "op_current_stamp K (x_ent x) = now" "op_current_stamp K (x_ent x1) = now"
      "n * 10 ^ 9 < unat now" "unat now < 2 ^ 63" "n * 10 ^ 9 + unat now < 2 ^ 63"
    and fetch: "fetch_finds K ex x x1"
  shows "\<exists>x'. exec_expire K ex x = Some (EXEC_SEND_INT, x') \<and> x_ival x' = 1
    \<and> (\<forall>ex2 y y1. fetch_finds K ex2 y y1 \<longrightarrow> x_ent y1 = x_ent x' \<longrightarrow>
        (\<exists>z. exec_ttl T K ex2 y = Some (EXEC_SEND_INT, z) \<and> x_ival z = int n)
        \<and> (\<exists>z. exec_pttl T K ex2 y = Some (EXEC_SEND_INT, z) \<and> x_ival z = int n * 1000)
        \<and> (\<exists>p. exec_persist K ex2 y = Some (EXEC_SEND_INT, p) \<and> x_ival p = 1
           \<and> (\<forall>ex3 w w1. fetch_finds K ex3 w w1 \<longrightarrow> x_ent w1 = x_ent p \<longrightarrow>
               (\<exists>z. exec_ttl T K ex3 w = Some (EXEC_SEND_INT, z) \<and> x_ival z = - 1))))"
proof -
  let ?m = "of_nat (n * 10 ^ 9) :: u64"
  note K = assms(1) [unfolded key_entry_def key_entry_axioms_def, THEN conjunct2]
  have nb: "n * 10 ^ 9 < 2 ^ 63" using now(5) by simp
  then have m: "unat ?m = n * 10 ^ 9" by (intro u64_of_nat_inverse) simp
  have ex: "of_int (int n) * (1000 * 1000 * 1000) = ?m" by simp
  have lt: "?m < now" using m now(3) by (simp add: word_less_nat_alt)
  have "unat (?m + now) = n * 10 ^ 9 + unat now"
    using m now(5) by (subst unat_plus_if') simp
  then have nz: "?m + now \<noteq> 0" using assms(3) by (intro notI) simp
  have s: "sint ?m = int n * 10 ^ 9" 
  proof -
    have "int (n * 10 ^ 9) < 2 ^ 63" using nb [folded of_nat_less_iff [where 'a = int]] by simp
    then have "signed_take_bit 63 (int (n * 10 ^ 9)) = int (n * 10 ^ 9)"
      by (intro signed_take_bit_int_eq_self) simp_all
    then show ?thesis using m by (simp add: sint_uint uint_nat)
  qed
  define e where "e = op_update_stamps K (x_ent x1) (?m + now) 0"
  obtain st upd where e: "op_get_stamps T e = (st, ?m + now, upd)" "op_current_stamp K e = now"
    using K nz now(2) by (metis e_def)
  define x' where "x' = set_flags {EKF_KEYSPACE_EVENT} (x1\<lparr>x_ent := e, x_ival := 1\<rparr>)"
  have expire: "exec_expire K ex x = Some (EXEC_SEND_INT, x')"
    using fetch lt now(1) by (simp add: exec_expire_def do_pexpire_def assms(2) ex expire_store_def fetch_finds_def Let_def e_def x'_def)
  have x': "x_ent x' = e" "x_ival x' = 1" by (simp_all add: x'_def)
  have ttl: "\<exists>z. exec_ttl T K ex2 y = Some (EXEC_SEND_INT, z) \<and> x_ival z = int n"
    "\<exists>z. exec_pttl T K ex2 y = Some (EXEC_SEND_INT, z) \<and> x_ival z = int n * 1000"
    if "fetch_finds K ex2 y y1" "x_ent y1 = e" for ex2 y y1
    using that e s nz assms(3) by (simp_all add: exec_ttl_def exec_pttl_def do_pttl_def fetch_finds_def Let_def)
  have cleared: "\<exists>z. exec_ttl T K ex3 w = Some (EXEC_SEND_INT, z) \<and> x_ival z = - 1"
    if "fetch_finds K ex3 w w1" "x_ent w1 = op_clear_stamps K e True False" for ex3 w w1
  proof -
    obtain st2 upd2 where "op_get_stamps T (op_clear_stamps K e True False) = (st2, 0, upd2)" using K by blast
    then show ?thesis using that by (simp add: exec_ttl_def do_pttl_def fetch_finds_def Let_def)
  qed
  have persist: "\<exists>p. exec_persist K ex2 y = Some (EXEC_SEND_INT, p) \<and> x_ival p = 1
      \<and> (\<forall>ex3 w w1. fetch_finds K ex3 w w1 \<longrightarrow> x_ent w1 = x_ent p \<longrightarrow>
            (\<exists>z. exec_ttl T K ex3 w = Some (EXEC_SEND_INT, z) \<and> x_ival z = - 1))"
    if "fetch_finds K ex2 y y1" "x_ent y1 = e" for ex2 y y1
    by (rule exI [of _ "y1\<lparr>x_ent := op_clear_stamps K e True False, x_ival := 1\<rparr>"])
      (use that cleared in \<open>simp add: exec_persist_def fetch_finds_def\<close>)
  show ?thesis
  proof (rule exI [of _ x'], intro conjI allI impI)
    show "exec_expire K ex x = Some (EXEC_SEND_INT, x')" "x_ival x' = 1" by fact+
  qed (simp_all only: x'(1) ttl persist)
qed


definition sample_expire :: "redis_exec" where
  "sample_expire = (sample_exec [''expire'', ''k'', ''7''])\<lparr>cmd_flags := CMD_WRITE_FLAG\<rparr>"

definition sample_timed :: "mem_entry xst" where
  "sample_timed = (sample_key [97])\<lparr>x_ent := (x_ent (sample_key [97]))\<lparr>me_now := 10000000000\<rparr>\<rparr>"

theorem expire_then_ttl_witness:
  "\<exists>x'. exec_expire mem_ops sample_expire sample_timed = Some (EXEC_SEND_INT, x')
    \<and> (\<exists>z. exec_ttl mem_key_ops mem_ops (sample_read [''ttl'', ''k'']) (sample_timed\<lparr>x_ent := x_ent x'\<rparr>) = Some (EXEC_SEND_INT, z)
        \<and> x_ival z = 7)"
proof -
  have a: "get_arg_int (ex_msg sample_expire) 2 = Some (int 7)" by code_simp
  have n: "op_current_stamp mem_ops (x_ent sample_timed) = 10000000000"
    by (simp add: mem_ops_def sample_timed_def)
  define x1 where "x1 = sample_timed\<lparr>x_flags := {}, x_type := MD_STRING\<rparr>"
  have f: "fetch_finds mem_ops sample_expire sample_timed x1"
    by (simp add: fetch_finds_def exec_key_fetch_def sample_expire_def sample_exec_def sample_timed_def sample_key_def
        acquire_key_def mem_ops_def x1_def)
  obtain x' where x': "exec_expire mem_ops sample_expire sample_timed = Some (EXEC_SEND_INT, x')"
    "\<forall>ex2 y y1. fetch_finds mem_ops ex2 y y1 \<longrightarrow> x_ent y1 = x_ent x' \<longrightarrow>
        (\<exists>z. exec_ttl mem_key_ops mem_ops ex2 y = Some (EXEC_SEND_INT, z) \<and> x_ival z = int 7)"
    using expire_then_ttl [OF mem_key.key_entry_axioms a _ n _ _ _ _ f]
    by (auto simp: x1_def n)
  have "x_ent x' = (x_ent sample_timed)\<lparr>me_expires := 17000000000\<rparr>"
    using x'(1) f a n
    by (simp add: exec_expire_def do_pexpire_def expire_store_def fetch_finds_def Let_def)
      (auto simp: mem_ops_def x1_def set_flags_def)
  then have "fetch_finds mem_ops (sample_read [''ttl'', ''k'']) (sample_timed\<lparr>x_ent := x_ent x'\<rparr>)
      (sample_timed\<lparr>x_ent := x_ent x', x_flags := {EKF_IS_READ_ONLY}, x_type := MD_STRING\<rparr>)"
    by (simp add: fetch_finds_def exec_key_fetch_def sample_read_def sample_exec_def find_loop.simps sample_timed_def
        sample_key_def mem_ops_def Let_def)
  with x' show ?thesis by fastforce
qed

definition sample_table :: ht_view where
  "sample_table = \<lparr>ht_size = 3, ht_key = (\<lambda>n. if n = 0 then Some [97, 0] else if n = 2 then Some [98, 0] else None),
     rx_compile = (\<lambda>p. None)\<rparr>"


text \<open>EXPIRE with a negative time: the product wraps around to a time far ahead, and the key stays.\<close>

lemma expire_negative:
  assumes "get_arg_int (ex_msg ex) 2 = Some (- 1)" "fetch_finds K ex x x1"
    "op_current_stamp K (x_ent x) \<le> - 1000000000"
  shows "exec_expire K ex x = Some (EXEC_SEND_INT, set_flags {EKF_KEYSPACE_EVENT}
    (x1\<lparr>x_ent := op_update_stamps K (x_ent x1) (- 1000000000) 0, x_ival := 1\<rparr>))"
  using assms by (simp add: exec_expire_def do_pexpire_def expire_store_def fetch_finds_def Let_def not_less)

section \<open>RENAME as a whole\<close>

text \<open>What the store answers: the old key is there and not expired, for reading and for writing; the
  new key is there or new; the new data fits.\<close>

definition rename_entries :: "'e kv_ops \<Rightarrow> 'e \<Rightarrow> 'e \<Rightarrow> byte list \<Rightarrow> 'e \<Rightarrow> 'e \<Rightarrow> bool" where
  "rename_entries K src dst d src2 dst2 \<longleftrightarrow>
     (\<exists>src1 st dst1. op_find K src = (KEY_OK, src1) \<and> \<not> op_is_expired K src1 \<and> op_value K src1 = KEY_OK
        \<and> op_validate K src1 = KEY_OK \<and> op_data K src1 = d \<and> op_acquire K src1 = (KEY_OK, src2) \<and> \<not> op_is_expired K src2
        \<and> op_acquire K dst = (st, dst1) \<and> (st = KEY_OK \<or> st = KEY_IS_NEW) \<and> \<not> op_is_expired K dst1
        \<and> op_resize K dst1 (length d) False = (KEY_OK, dst2))"

definition rename_setup :: "'e key_ops \<Rightarrow> 'e run_env \<Rightarrow> 'e run \<Rightarrow> 'e xst \<Rightarrow> 'e xst \<Rightarrow> bool" where
  "rename_setup T E r x y \<longleftrightarrow>
     e_handler E = key_handler T (e_util E) (e_ops E) \<and> e_strm_ok E \<and> ex_cmd (r_ex r) = RENAME_CMD
     \<and> cmd_flags (r_ex r) AND CMD_READ_FLAG = 0 \<and> cmd_flags (r_ex r) AND CMD_WRITE_FLAG \<noteq> 0
     \<and> cmd_state (r_ex r) = 0 \<and> key_cnt (r_ex r) = 2 \<and> key_done (r_ex r) = 0 \<and> r_blk r = 0 \<and> r_keys r = [x, y]
     \<and> x_status x = EXEC_CONTINUE \<and> x_status y = EXEC_CONTINUE \<and> x_dep x = 0 \<and> x_dep y = 0 \<and> x_argn x = 1 \<and> x_argn y = 2
     \<and> x_strm_ok x \<and> x_part x = None \<and> EKF_KEYSPACE_DEL \<notin> x_flags y"

lemma cmd_db_rename: "cmd_name (cmd_db ! RENAME_CMD) = ''rename''"
  by code_simp

lemma rename_read_ok:
  assumes "op_find K (x_ent x) = (KEY_OK, e1)" "\<not> op_is_expired K e1" "op_value K e1 = KEY_OK" "op_validate K e1 = KEY_OK"
    "op_data K e1 = d" "cmd_state ex = 0" "x_strm_ok x"
  shows "rename_read K ex x = Some (EXEC_DEPENDS, x\<lparr>x_kstatus := KEY_OK, x_ent := e1,
    x_flags := x_flags x \<union> {EKF_IS_READ_ONLY}, x_type := op_get_type K e1, x_part := Some d\<rparr>)"
  using assms by (simp add: rename_read_def exec_key_fetch_def find_loop.simps k_value_def k_validate_def save_data_def x_data_def Let_def)

lemma rename_dest_ok:
  assumes "op_acquire K (x_ent y) = (st, e1)" "st = KEY_OK \<or> st = KEY_IS_NEW" "\<not> op_is_expired K e1"
    "op_resize K e1 (length d) False = (KEY_OK, e2)" "length (op_data K e2) = length d" "d \<noteq> []" "x_part (keys ! 0) = Some d"
    "cmd_state ex = 0" "cmd_flags ex AND CMD_READ_FLAG = 0" "cmd_flags ex AND CMD_WRITE_FLAG \<noteq> 0" "ex_cmd ex = RENAME_CMD"
  obtains fl ty where "rename_dest K ex keys y = Some (EXEC_SEND_OK, y\<lparr>x_kstatus := KEY_OK,
    x_ent := op_set_val K (op_set_type K (op_set_data K e2 d) (x_type (keys ! 0))), x_flags := fl, x_type := ty\<rparr>)"
    "EKF_IS_READ_ONLY \<notin> fl" "fl - {EKF_IS_NEW, EKF_KEYSPACE_EVENT} \<subseteq> x_flags y"
proof -
  have m: "mem_copy 0 d (op_data K e2) = Some d" using assms(5) by (simp add: mem_copy_def)
  define x1 where "x1 = acquire_key K y"
  define x2 where "x2 = (if st = KEY_OK then x1\<lparr>x_type := op_get_type K e1\<rparr> else x1)"
  have f: "exec_key_fetch K ex False y = Some (st, x2)"
    using assms(1-3,8-10) by (auto simp: exec_key_fetch_def acquire_key_def x1_def x2_def Let_def)
  have x1: "x1 = y\<lparr>x_kstatus := st, x_ent := e1,
      x_flags := (x_flags y \<union> (if st = KEY_IS_NEW then {EKF_IS_NEW} else {})) - {EKF_IS_READ_ONLY}\<rparr>"
    using assms(1-3) by (auto simp: x1_def acquire_key_def)
  show thesis
  proof (rule that)
    show "rename_dest K ex keys y = Some (EXEC_SEND_OK, y\<lparr>x_kstatus := KEY_OK,
        x_ent := op_set_val K (op_set_type K (op_set_data K e2 d) (x_type (keys ! 0))), x_flags := x_flags x2 \<union> {EKF_KEYSPACE_EVENT},
        x_type := x_type x2\<rparr>)"
      using f assms(2,4,6,7,11) m x1
      by (auto simp: rename_dest_def k_resize_def x_data_def put_data_def set_flags_def Let_def x2_def)
  qed (auto simp: x1 x2_def)
qed

lemma rename_remove_ok:
  assumes "op_acquire K (x_ent x) = (KEY_OK, e2)" "\<not> op_is_expired K e2" "cmd_state ex = 0"
    "cmd_flags ex AND CMD_READ_FLAG = 0" "cmd_flags ex AND CMD_WRITE_FLAG \<noteq> 0" "ex_cmd ex = RENAME_CMD"
  obtains fl where "rename_remove T K ex x = Some (EXEC_SEND_OK, x\<lparr>x_kstatus := KEY_OK, x_ent := op_tombstone T e2,
    x_flags := fl, x_type := op_get_type K e2\<rparr>)" "EKF_KEYSPACE_DEL \<in> fl" "EKF_IS_READ_ONLY \<notin> fl"
proof (rule that)
  show "rename_remove T K ex x = Some (EXEC_SEND_OK, x\<lparr>x_kstatus := KEY_OK, x_ent := op_tombstone T e2,
    x_flags := (x_flags x - {EKF_IS_READ_ONLY}) \<union> {EKF_KEYSPACE_EVENT, EKF_KEYSPACE_DEL}, x_type := op_get_type K e2\<rparr>)"
    using assms by (simp add: rename_remove_def exec_key_fetch_def acquire_key_def set_flags_def Let_def)
qed auto

lemma rename_handler:
  "ex_cmd ex = RENAME_CMD \<Longrightarrow> key_handler T U K ex keys i = exec_rename T K ex keys (keys ! i)"
  by (simp add: key_handler_def cmd_db_rename Let_def)

lemma status_codes [simp]:
  "\<not> ERR_KV_STATUS < EXEC_DEPENDS" "EXEC_SEND_OK \<le> EXEC_BLOCKED" "exec_status_success EXEC_SEND_OK"
  by (simp_all add: less_exec_status_def less_eq_exec_status_def status_code_def exec_statuses_def exec_status_success_def)

lemma rename_step_read:
  assumes "rename_setup T E r x y" "op_find (e_ops E) (x_ent x) = (KEY_OK, e1)" "\<not> op_is_expired (e_ops E) e1"
    "op_value (e_ops E) e1 = KEY_OK" "op_validate (e_ops E) e1 = KEY_OK" "op_data (e_ops E) e1 = d"
  obtains x1 r1 where "exec_key_continue E r 0 = Some (EXEC_DEPENDS, r1)" "r_keys r1 = [x1, y]" "r_ex r1 = r_ex r"
    "r_out r1 = r_out r" "r_blk r1 = 0" "x_part x1 = Some d" "x_dep x1 = 1" "x_argn x1 = 1" "x_status x1 = EXEC_DEPENDS" "x_ent x1 = e1"
proof -
  note s = assms(1) [unfolded rename_setup_def]
  have n: "x_argn x = 1" using s by simp
  define x0 where "x0 = x\<lparr>x_out := r_out r\<rparr>"
  define z where "z = x0\<lparr>x_kstatus := KEY_OK, x_ent := e1, x_flags := x_flags x0 \<union> {EKF_IS_READ_ONLY},
    x_type := op_get_type (e_ops E) e1, x_part := Some d\<rparr>"
  have rd: "rename_read (e_ops E) (r_ex r) x0 = Some (EXEC_DEPENDS, z)"
    unfolding z_def using assms(2-6) s by (intro rename_read_ok) (simp_all add: x0_def)
  then have run: "run_handler E r 0 = Some (z\<lparr>x_status := EXEC_DEPENDS\<rparr>, r)"
    using s by (simp add: run_handler_def rename_handler set_key_def exec_rename_def x0_def z_def)
  define r1 where "r1 = set_key 0 (z\<lparr>x_status := EXEC_DEPENDS, x_dep := 1\<rparr>) (r\<lparr>r_key_flags := r_key_flags r \<union> x_flags z\<rparr>)"
  have "run_key E r 0 = Some (True, r1)"
    using run s by (subst run_key.simps) (simp add: is_read_only_def z_def x0_def r1_def)
  then have "exec_key_continue E r 0 = Some (EXEC_DEPENDS, r1)"
    using s by (simp add: exec_key_continue_def)
  moreover have "r_keys r1 = [z\<lparr>x_status := EXEC_DEPENDS, x_dep := 1\<rparr>, y]" "r_ex r1 = r_ex r" "r_out r1 = r_out r" "r_blk r1 = 0"
    using s by (simp_all add: r1_def set_key_def)
  ultimately show thesis by (rule that) (simp_all add: z_def x0_def n)
qed

lemma rename_step_write:
  assumes "kv_entry (e_ops E)" "rename_setup T E r x y" "r_keys r1 = [x1, y]" "r_ex r1 = r_ex r" "r_blk r1 = 0" "x_part x1 = Some d" "d \<noteq> []"
    "op_acquire (e_ops E) (x_ent y) = (st, e1)" "st = KEY_OK \<or> st = KEY_IS_NEW" "\<not> op_is_expired (e_ops E) e1"
    "op_resize (e_ops E) e1 (length d) False = (KEY_OK, e2)"
  obtains y1 r2 f where "exec_key_continue E r1 1 = Some (EXEC_CONTINUE, r2)" "r_keys r2 = [x1, y1]"
    "r_ex r2 = (r_ex r)\<lparr>key_done := 1\<rparr>" "r_out r2 = r_out r1" "r_blk r2 = 0" "x_status y1 = EXEC_SEND_OK"
    "x_ent y1 = op_release (e_ops E) f" "op_data (e_ops E) f = d"
proof -
  let ?K = "e_ops E"
  note s = assms(2) [unfolded rename_setup_def]
  define y0 where "y0 = y\<lparr>x_out := r_out r1\<rparr>"
  have len: "length (op_data ?K e2) = length d" by (rule kv_entry.resize_length [OF assms(1,11)])
  define v where "v = op_set_val ?K (op_set_type ?K (op_set_data ?K e2 d) (x_type ([x1, y0] ! 0)))"
  obtain fl ty where w: "rename_dest ?K (r_ex r) [x1, y0] y0 = Some (EXEC_SEND_OK, y0\<lparr>x_kstatus := KEY_OK, x_ent := v,
      x_flags := fl, x_type := ty\<rparr>)" "EKF_IS_READ_ONLY \<notin> fl" "fl - {EKF_IS_NEW, EKF_KEYSPACE_EVENT} \<subseteq> x_flags y0"
    unfolding v_def
    by (rule rename_dest_ok [of ?K y0 st e1 d e2 "[x1, y0]" "r_ex r"]) (use assms s len in \<open>simp_all add: y0_def\<close>)
  define z where "z = y0\<lparr>x_kstatus := KEY_OK, x_ent := v, x_flags := fl, x_type := ty, x_status := EXEC_SEND_OK\<rparr>"
  have run: "run_handler E r1 1 = Some (z, r1)"
    using s w(1) assms(3,4) by (simp add: run_handler_def rename_handler set_key_def exec_rename_def y0_def z_def)
  have vd: "op_data ?K v = d" using assms(1) len by (simp add: v_def kv_entry.set_val kv_entry.set_type kv_entry.set_data)
  obtain y1 kf where a: "after_write E r1 z = (y1, kf)" by force
  have "EKF_KEYSPACE_DEL \<notin> fl" using w(3) s by (auto simp: y0_def)
  then obtain f where y1: "x_ent y1 = op_release ?K f" "op_data ?K f = d" "x_status y1 = EXEC_SEND_OK"
    using a s assms(1,4) vd
    by (auto simp: after_write_def Let_def z_def new_type_def kv_entry.set_val kv_entry.set_type kv_entry.update_stamps split: if_splits)
  define s1 where "s1 = set_key 1 y1 (r1\<lparr>r_key_flags := kf\<rparr>)"
  have "run_key E r1 1 = Some (False, s1)"
    using run a w(2) by (subst run_key.simps) (simp add: is_read_only_def z_def s1_def)
  moreover have "x_status (r_keys r1 ! 1) = EXEC_CONTINUE" using s assms(3) by simp
  ultimately have "exec_key_continue E r1 1 = Some (key_finished E s1 1)" by (simp add: exec_key_continue_def)
  also have "key_finished E s1 1 = (EXEC_CONTINUE, s1\<lparr>r_ex := (r_ex s1)\<lparr>key_done := 1\<rparr>\<rparr>)"
    using s assms(3,4) y1(3) by (simp add: key_finished_def s1_def set_key_def)
  finally show thesis
    by (rule that) (use y1 assms(3-5) in \<open>simp_all add: s1_def set_key_def\<close>)
qed

lemma send_ok: "send_status U b re ivals EXEC_SEND_OK = ascii ''+OK'' @ crlf"
  by (simp add: send_status_def)

lemma finish_loud:
  "cmd_state (r_ex r) = 0 \<Longrightarrow> \<exists>r'. finish_cmd E r i = (EXEC_SUCCESS, r') \<and> r_keys r' = r_keys r \<and> r_out r' = r_out r"
  by (cases "r_key_flags r \<inter> e_sub_flags E = {}") (simp_all add: finish_cmd_def Let_def)

lemma rename_step_remove:
  assumes "rename_setup T E r x y" "r_keys r2 = [x1, y1]" "r_ex r2 = (r_ex r)\<lparr>key_done := 1\<rparr>" "r_blk r2 = 0"
    "x_dep x1 = 1" "x_argn x1 = 1" "x_status x1 = EXEC_DEPENDS" "op_acquire (e_ops E) (x_ent x1) = (KEY_OK, e2)"
    "\<not> op_is_expired (e_ops E) e2"
  obtains x2 r3 where "exec_key_continue E r2 0 = Some (EXEC_SUCCESS, r3)" "r_keys r3 = [x2, y1]"
    "r_out r3 = r_out r2 @ ascii ''+OK'' @ crlf" "x_ent x2 = op_release (e_ops E) (op_tombstone T e2)"
proof -
  let ?K = "e_ops E"
  note s = assms(1) [unfolded rename_setup_def]
  define x0 where "x0 = x1\<lparr>x_out := r_out r2\<rparr>"
  obtain fl where w: "rename_remove T ?K (r_ex r2) x0 = Some (EXEC_SEND_OK, x0\<lparr>x_kstatus := KEY_OK,
      x_ent := op_tombstone T e2, x_flags := fl, x_type := op_get_type ?K e2\<rparr>)" "EKF_KEYSPACE_DEL \<in> fl" "EKF_IS_READ_ONLY \<notin> fl"
    by (rule rename_remove_ok [of ?K x0 e2 "r_ex r2" T]) (use assms s in \<open>simp_all add: x0_def\<close>)
  define z where "z = x0\<lparr>x_kstatus := KEY_OK, x_ent := op_tombstone T e2, x_flags := fl, x_type := op_get_type ?K e2,
    x_status := EXEC_SEND_OK\<rparr>"
  have run: "run_handler E r2 0 = Some (z, r2)"
    using s w(1) assms(2-7) by (simp add: run_handler_def rename_handler set_key_def exec_rename_def x0_def z_def)
  obtain x2 kf where a: "after_write E r2 z = (x2, kf)" by force
  then have x2: "x_ent x2 = op_release ?K (op_tombstone T e2)" "x_status x2 = EXEC_SEND_OK"
    using s assms(3) w(2) by (auto simp: after_write_def Let_def z_def)
  define s1 where "s1 = set_key 0 x2 (r2\<lparr>r_key_flags := kf\<rparr>)"
  have run_key: "run_key E r2 0 = Some (False, s1)"
    using run a w(3) by (subst run_key.simps) (simp add: is_read_only_def z_def s1_def)
  have c: "ex_cmd (r_ex r) \<noteq> MGET_CMD" using s by (simp add: RENAME_CMD_def MGET_CMD_def)
  define s2 where "s2 = s1\<lparr>r_ex := (r_ex s1)\<lparr>key_done := 2\<rparr>\<rparr>"
  have s2: "r_keys s2 = [x2, y1]" "r_out s2 = r_out r2" "r_blk s2 = 0" "key_done (r_ex s2) = 2" "key_cnt (r_ex s2) = 2"
    "ex_cmd (r_ex s2) = ex_cmd (r_ex r)" "cmd_state (r_ex s2) = 0"
    using s assms(2-4) by (simp_all add: s1_def s2_def set_key_def)
  have "key_finished E s1 0 = last_key_done E s2 0"
    using s2 s assms(2-4) by (simp add: key_finished_def Let_def s1_def s2_def set_key_def numeral_2_eq_2)
  also have "last_key_done E s2 0 = key_reply E s2 0"
    using s2 x2 c by (simp add: last_key_done_def Let_def)
  also have "key_reply E s2 0 = finish_cmd E (reply_status E s2 EXEC_SEND_OK (x_kstatus x2)) 0"
    using s2 x2 by (simp add: key_reply_def Let_def reply_status_def)
  finally have k: "exec_key_continue E r2 0 = Some (finish_cmd E (reply_status E s2 EXEC_SEND_OK (x_kstatus x2)) 0)"
    using run_key assms(2,7) by (simp add: exec_key_continue_def)
  obtain r3 where "finish_cmd E (reply_status E s2 EXEC_SEND_OK (x_kstatus x2)) 0 = (EXEC_SUCCESS, r3)"
    "r_keys r3 = [x2, y1]" "r_out r3 = r_out r2 @ ascii ''+OK'' @ crlf"
    using finish_loud [of "reply_status E s2 EXEC_SEND_OK (x_kstatus x2)" E 0] s2 by (auto simp: reply_status_def send_ok)
  then show thesis using that [of r3 x2] k x2 by simp
qed

text \<open>C14: RENAME as a whole. Its two keys wait for each other in the right order: the value of the old
  key is read, then stored under the new one, then the old key is removed, and the reply is one OK.\<close>

theorem rename_moves:
  assumes "kv_entry (e_ops E)" "rename_setup T E r x y" "d \<noteq> []"
    "rename_entries (e_ops E) (x_ent x) (x_ent y) d src dst"
  shows "\<exists>r' x' y' f. exec_run_to_completion E r = Some r' \<and> r_keys r' = [x', y'] \<and> r_out r' = r_out r @ ascii ''+OK'' @ crlf
    \<and> x_ent x' = op_release (e_ops E) (op_tombstone T src) \<and> x_ent y' = op_release (e_ops E) f \<and> op_data (e_ops E) f = d"
proof -
  let ?K = "e_ops E"
  note s = assms(2) [unfolded rename_setup_def]
  obtain src1 st dst1 where e: "op_find ?K (x_ent x) = (KEY_OK, src1)" "\<not> op_is_expired ?K src1" "op_value ?K src1 = KEY_OK"
    "op_validate ?K src1 = KEY_OK" "op_data ?K src1 = d" "op_acquire ?K src1 = (KEY_OK, src)" "\<not> op_is_expired ?K src"
    "op_acquire ?K (x_ent y) = (st, dst1)" "st = KEY_OK \<or> st = KEY_IS_NEW" "\<not> op_is_expired ?K dst1"
    "op_resize ?K dst1 (length d) False = (KEY_OK, dst)"
    using assms(4) unfolding rename_entries_def by blast
  obtain x1 r1 where r1: "exec_key_continue E r 0 = Some (EXEC_DEPENDS, r1)" "r_keys r1 = [x1, y]" "r_ex r1 = r_ex r"
    "r_out r1 = r_out r" "r_blk r1 = 0" "x_part x1 = Some d" "x_dep x1 = 1" "x_argn x1 = 1" "x_status x1 = EXEC_DEPENDS" "x_ent x1 = src1"
    by (rule rename_step_read [OF assms(2) e(1-5)])
  obtain y1 r2 f where r2: "exec_key_continue E r1 1 = Some (EXEC_CONTINUE, r2)" "r_keys r2 = [x1, y1]"
    "r_ex r2 = (r_ex r)\<lparr>key_done := 1\<rparr>" "r_out r2 = r_out r1" "r_blk r2 = 0" "x_status y1 = EXEC_SEND_OK"
    "x_ent y1 = op_release ?K f" "op_data ?K f = d"
    by (rule rename_step_write [OF assms(1,2) r1(2,3,5,6) assms(3) e(8-11)])
  have "op_acquire ?K (x_ent x1) = (KEY_OK, src)" using e(6) r1(10) by simp
  then obtain x2 r3 where r3: "exec_key_continue E r2 0 = Some (EXEC_SUCCESS, r3)" "r_keys r3 = [x2, y1]"
    "r_out r3 = r_out r2 @ ascii ''+OK'' @ crlf" "x_ent x2 = op_release ?K (op_tombstone T src)"
    by (rule rename_step_remove [OF assms(2) r2(2,3,5) r1(7-9) _ e(7)])
  have c2: "run_cycle E r2 0 0 = Some r3"
    using r3(1) r2(2) r1(9) by (subst run_cycle.simps) (simp add: key_active_def)
  have c1: "run_cycle E r1 1 0 = Some r3"
    using c2 r2(1,3) r1(2) s by (subst run_cycle.simps) (simp add: key_active_def)
  have "run_cycle E r 0 0 = Some r3"
    using c1 r1(1,3) s by (subst run_cycle.simps) (simp add: key_active_def)
  then have "exec_run_to_completion E r = Some r3" using s by (simp add: exec_run_to_completion_def)
  then show ?thesis using r1(4) r2 r3 by auto
qed

definition sample_rename_env :: "mem_entry run_env" where
  "sample_rename_env = sample_run_env\<lparr>e_handler := key_handler mem_key_ops int_str_util mem_ops\<rparr>"

definition sample_rename :: "mem_entry run" where
  "sample_rename = \<lparr>r_ex = (sample_write [''rename'', ''k'', ''q''])\<lparr>ex_cmd := RENAME_CMD, key_cnt := 2\<rparr>,
     r_keys = [(sample_key [97, 98])\<lparr>x_status := EXEC_CONTINUE\<rparr>, (sample_key [99])\<lparr>x_status := EXEC_CONTINUE, x_argn := 2\<rparr>],
     r_key_flags = {}, r_blk = 0, r_out = [], r_start = 0, r_events = []\<rparr>"

theorem rename_moves_witness:
  "\<exists>r' x' y'. exec_run_to_completion sample_rename_env sample_rename = Some r' \<and> r_keys r' = [x', y']
    \<and> \<not> me_exists (x_ent x') \<and> me_data (x_ent y') = [97, 98] \<and> r_out r' = ascii ''+OK'' @ crlf"
proof -
  let ?k = "x_ent (sample_key [97, 98])" and ?q = "x_ent (sample_key [99])"
  have e: "rename_entries mem_ops ?k ?q [97, 98] ?k (?q\<lparr>me_data := [99, 0]\<rparr>)"
    by (auto simp: rename_entries_def mem_ops_def sample_key_def)
  have s: "rename_setup mem_key_ops sample_rename_env sample_rename
      ((sample_key [97, 98])\<lparr>x_status := EXEC_CONTINUE\<rparr>) ((sample_key [99])\<lparr>x_status := EXEC_CONTINUE, x_argn := 2\<rparr>)"
    by (simp add: rename_setup_def sample_rename_env_def sample_run_env_def sample_rename_def sample_write_def sample_exec_def sample_key_def)
  have o: "e_ops sample_rename_env = mem_ops" by (simp add: sample_rename_env_def sample_run_env_def)
  show ?thesis
    using rename_moves [OF _ s, of "[97, 98]"] e mem.kv_entry_axioms
    unfolding o by (fastforce simp: mem_ops_def mem_key_ops_def sample_rename_def)
qed

end
