(* ===== verification/List_Ctx.thy ===== *)
theory List_Ctx
  imports Redis_Key
begin

text \<open>
  The context of the container commands, the template \<open>ExecListCtx\<close> of \<open>include/raids/exec_list_ctx.h\<close>:
  the fetch of a key of one type, the creation of an empty container in the memory of the entry, and its move
  to a larger segment when it is full. The container classes are raimd's; what the template calls of them is
  the record \<open>list_class\<close>, functions on the bytes of the container, and what it calls of the key store
  beside \<open>kv_ops\<close> is the record \<open>seg_ops\<close>. The laws of both are the locales \<open>container\<close> and \<open>seg_entry\<close>.
\<close>

section \<open>What is called\<close>

text \<open>The sizes that are passed by reference come back with the size of the memory.\<close>

record list_class =
  lc_alloc_size :: "nat \<Rightarrow> nat \<Rightarrow> nat \<times> nat \<times> nat"
  lc_resize_size :: "byte list \<Rightarrow> nat \<Rightarrow> nat \<Rightarrow> nat \<times> nat \<times> nat"
  lc_init :: "byte list \<Rightarrow> nat \<Rightarrow> nat \<Rightarrow> byte list"
  lc_copy :: "byte list \<Rightarrow> byte list \<Rightarrow> byte list"

record 'e seg_ops =
  sg_value_update :: "'e \<Rightarrow> key_status"
  sg_value_copy :: "'e \<Rightarrow> key_status"
  sg_tombstone :: "'e \<Rightarrow> key_status \<times> 'e"
  sg_alloc_segment :: "'e \<Rightarrow> nat \<Rightarrow> key_status \<times> byte list"
  sg_load :: "'e \<Rightarrow> byte list \<Rightarrow> key_status \<times> 'e"

section \<open>The template\<close>

definition do_key_fetch :: "'e kv_ops \<Rightarrow> redis_exec \<Rightarrow> md_type \<Rightarrow> bool \<Rightarrow> 'e xst \<Rightarrow> (key_status \<times> 'e xst) option" where
  "do_key_fetch K ex ty readonly x =
     do {
       (st, x1) \<leftarrow> exec_key_fetch K ex readonly x;
       Some (if st = KEY_OK \<and> x_type x1 \<noteq> ty then
           (if x_type x1 = MD_NODATA then if readonly then KEY_NOT_FOUND else KEY_IS_NEW else KEY_NO_VALUE)
         else st, x1)
     }"

definition lx_create :: "list_class \<Rightarrow> 'e kv_ops \<Rightarrow> md_type \<Rightarrow> nat \<Rightarrow> nat \<Rightarrow> 'e xst \<Rightarrow> 'e xst" where
  "lx_create C K ty count ndata x =
     (case lc_alloc_size C count ndata of (n, count1, ndata1) \<Rightarrow>
       let x1 = k_resize K n False x in
       if x_kstatus x1 = KEY_OK
       then set_flags {EKF_IS_NEW} ((put_data K x1 (lc_init C (x_data K x1) count1 ndata1))\<lparr>x_type := ty\<rparr>)
       else x1)"

definition lx_tombstone :: "'e seg_ops \<Rightarrow> 'e xst \<Rightarrow> 'e xst" where
  "lx_tombstone S x = (case sg_tombstone S (x_ent x) of (st, e) \<Rightarrow> x\<lparr>x_kstatus := st, x_ent := e\<rparr>)"

definition lx_open :: "'e seg_ops \<Rightarrow> 'e xst \<Rightarrow> 'e xst" where
  "lx_open S x = x\<lparr>x_kstatus := sg_value_update S (x_ent x)\<rparr>"

definition lx_open_readonly :: "'e seg_ops \<Rightarrow> 'e xst \<Rightarrow> 'e xst" where
  "lx_open_readonly S x = x\<lparr>x_kstatus := sg_value_copy S (x_ent x)\<rparr>"

text \<open>The move to a segment of more room, \<open>retry\<close> bytes more each time.\<close>

definition lx_realloc :: "list_class \<Rightarrow> 'e kv_ops \<Rightarrow> 'e seg_ops \<Rightarrow> nat \<Rightarrow> nat \<Rightarrow> 'e xst \<Rightarrow> 'e xst" where
  "lx_realloc C K S retry addsz x =
     (case lc_resize_size C (x_data K x) 2 (addsz + retry) of (n, count, ndata) \<Rightarrow>
      case sg_alloc_segment S (x_ent x) n of (st, mem) \<Rightarrow>
        if st = KEY_OK then
          (case sg_load S (x_ent x) (lc_copy C (x_data K x) (lc_init C mem count ndata)) of (st1, e) \<Rightarrow>
             x\<lparr>x_kstatus := st1, x_ent := e\<rparr>)
        else x\<lparr>x_kstatus := st\<rparr>)"

text \<open>The end of the commands that take elements out: an empty container is removed.\<close>

definition remove_empty :: "'e seg_ops \<Rightarrow> bool \<Rightarrow> exec_status \<Rightarrow> 'e xst \<Rightarrow> exec_status \<times> 'e xst" where
  "remove_empty S is_empty st x =
     (if is_empty then
        let x1 = lx_tombstone S (set_flags {EKF_KEYSPACE_DEL} x) in
        if x_kstatus x1 = KEY_OK then (st, x1) else (ERR_KV_STATUS, x1)
      else (st, x))"

section \<open>The laws\<close>

locale seg_entry = kv_entry K for K :: "'e kv_ops" +
  fixes S :: "'e seg_ops"
  assumes segment_length: "sg_alloc_segment S e n = (KEY_OK, m) \<Longrightarrow> length m = n"
    and load_data: "sg_load S e m = (KEY_OK, e') \<Longrightarrow> op_data K e' = m"

text \<open>A container class: \<open>valid\<close> holds of the bytes of a container and \<open>cont\<close> is what they stand for.
  \<open>room d n\<close> says that the container takes \<open>n\<close> more bytes; a resize by enough gives that room.\<close>

locale container =
  fixes C :: list_class and valid :: "byte list \<Rightarrow> bool" and cont :: "byte list \<Rightarrow> 'a" and mt :: 'a
    and room :: "byte list \<Rightarrow> nat \<Rightarrow> bool" and need :: "nat \<Rightarrow> nat"
  assumes init: "lc_alloc_size C c nd = (n, c1, nd1) \<Longrightarrow> length m = n
      \<Longrightarrow> valid (lc_init C m c1 nd1) \<and> cont (lc_init C m c1 nd1) = mt \<and> length (lc_init C m c1 nd1) = n"
    and copy: "valid d \<Longrightarrow> lc_resize_size C d 2 add = (n, c1, nd1) \<Longrightarrow> length m = n
      \<Longrightarrow> valid (lc_copy C d (lc_init C m c1 nd1)) \<and> cont (lc_copy C d (lc_init C m c1 nd1)) = cont d"
    and grown: "valid d \<Longrightarrow> lc_resize_size C d 2 add = (n, c1, nd1) \<Longrightarrow> length m = n \<Longrightarrow> need k \<le> add
      \<Longrightarrow> room (lc_copy C d (lc_init C m c1 nd1)) k"

text \<open>Both: what the template promises of a key whose entry holds a container.\<close>

locale list_ctx = seg_entry K S + container C valid cont mt room need
  for K :: "'e kv_ops" and S :: "'e seg_ops" and C :: list_class
    and valid :: "byte list \<Rightarrow> bool" and cont :: "byte list \<Rightarrow> 'a" and mt :: 'a
    and room :: "byte list \<Rightarrow> nat \<Rightarrow> bool" and need :: "nat \<Rightarrow> nat"
begin

lemma create_ok:
  assumes "x_kstatus (lx_create C K ty c nd x) = KEY_OK"
  shows "valid (x_data K (lx_create C K ty c nd x)) \<and> cont (x_data K (lx_create C K ty c nd x)) = mt"
proof -
  obtain n c1 nd1 where a: "lc_alloc_size C c nd = (n, c1, nd1)" by (metis prod_cases3)
  obtain st e where r: "op_resize K (x_ent x) n False = (st, e)" by force
  have st: "st = KEY_OK" using assms by (auto simp: lx_create_def a k_resize_def r Let_def split: if_splits)
  have len: "length (op_data K e) = n" using resize_length r st by blast
  note i = init [OF a len]
  then have "op_data K (op_set_data K e (lc_init C (op_data K e) c1 nd1)) = lc_init C (op_data K e) c1 nd1"
    using set_data len by simp
  then show ?thesis using i by (simp add: lx_create_def a k_resize_def r st Let_def put_data_def x_data_def set_flags_def)
qed

lemma realloc_ok:
  assumes "valid (x_data K x)" "x_kstatus (lx_realloc C K S retry add x) = KEY_OK"
  shows "valid (x_data K (lx_realloc C K S retry add x)) \<and> cont (x_data K (lx_realloc C K S retry add x)) = cont (x_data K x)
    \<and> (need k \<le> add + retry \<longrightarrow> room (x_data K (lx_realloc C K S retry add x)) k)"
proof -
  obtain n c1 nd1 where a: "lc_resize_size C (x_data K x) 2 (add + retry) = (n, c1, nd1)" by (metis prod_cases3)
  obtain st m where g: "sg_alloc_segment S (x_ent x) n = (st, m)" by force
  have st: "st = KEY_OK" using assms(2) by (auto simp: lx_realloc_def a g split: if_splits)
  obtain st1 e where l: "sg_load S (x_ent x) (lc_copy C (x_data K x) (lc_init C m c1 nd1)) = (st1, e)" by force
  have "st1 = KEY_OK" using assms(2) by (simp add: lx_realloc_def a g st l)
  then have d: "op_data K e = lc_copy C (x_data K x) (lc_init C m c1 nd1)" using load_data l by simp
  have "x_ent (lx_realloc C K S retry add x) = e" by (simp add: lx_realloc_def a g st l)
  then have x: "x_data K (lx_realloc C K S retry add x) = op_data K e" by (simp add: x_data_def)
  show ?thesis unfolding x d
    using copy [OF assms(1) a] grown [OF assms(1) a] segment_length g st by simp
qed

end

lemma create_keeps [simp]:
  "x_out (lx_create C K ty c nd x) = x_out x" "x_ival (lx_create C K ty c nd x) = x_ival x"
  "x_strm_ok (lx_create C K ty c nd x) = x_strm_ok x" "x_argn (lx_create C K ty c nd x) = x_argn x"
  by (simp_all add: lx_create_def k_resize_def put_data_def set_flags_def Let_def split: prod.split)

lemma realloc_keeps [simp]:
  "x_out (lx_realloc C K S r a x) = x_out x" "x_ival (lx_realloc C K S r a x) = x_ival x"
  "x_strm_ok (lx_realloc C K S r a x) = x_strm_ok x" "x_flags (lx_realloc C K S r a x) = x_flags x"
  by (simp_all add: lx_realloc_def split: prod.split)

lemma tombstone_keeps [simp]:
  "x_out (lx_tombstone S x) = x_out x" "x_ival (lx_tombstone S x) = x_ival x"
  by (simp_all add: lx_tombstone_def split: prod.split)

lemma open_keeps [simp]:
  "x_data K (lx_open S x) = x_data K x" "x_data K (lx_open_readonly S x) = x_data K x"
  "x_out (lx_open S x) = x_out x" "x_out (lx_open_readonly S x) = x_out x"
  "x_ival (lx_open S x) = x_ival x" "x_ival (lx_open_readonly S x) = x_ival x" "x_argn (lx_open S x) = x_argn x"
  "x_strm_ok (lx_open S x) = x_strm_ok x" "x_strm_ok (lx_open_readonly S x) = x_strm_ok x" "x_ent (lx_open S x) = x_ent x" "x_ent (lx_open_readonly S x) = x_ent x"
  by (simp_all add: lx_open_def lx_open_readonly_def x_data_def)

section \<open>Facts of the commands\<close>

lemma put_data_ok [simp]:
  "x_out (put_data K x d) = x_out x" "x_ival (put_data K x d) = x_ival x" "x_kstatus (put_data K x d) = x_kstatus x"
  "x_strm_ok (put_data K x d) = x_strm_ok x" "x_argn (put_data K x d) = x_argn x"
  by (simp_all add: put_data_def)

lemma set_flags_ok [simp]:
  "x_out (set_flags f x) = x_out x" "x_ival (set_flags f x) = x_ival x" "x_kstatus (set_flags f x) = x_kstatus x"
  "x_data K (set_flags f x) = x_data K x" "x_strm_ok (set_flags f x) = x_strm_ok x" "x_ent (set_flags f x) = x_ent x"
  by (simp_all add: set_flags_def x_data_def)

context kv_entry begin

lemma put_data_data:
  "length d = length (x_data K x) \<Longrightarrow> x_data K (put_data K x d) = d"
  using set_data by (simp add: put_data_def x_data_def)

end

text \<open>What a fetch gives: an entry with a container, or a key without one.\<close>

definition fetched :: "(byte list \<Rightarrow> bool) \<Rightarrow> (byte list \<Rightarrow> 'a) \<Rightarrow> 'a \<Rightarrow> 'e kv_ops \<Rightarrow> key_status \<Rightarrow> 'e xst \<Rightarrow> 'a \<Rightarrow> bool" where
  "fetched valid cont mt K st x a \<longleftrightarrow>
     st = KEY_OK \<and> valid (x_data K x) \<and> cont (x_data K x) = a \<or> (st = KEY_IS_NEW \<or> st = KEY_NOT_FOUND) \<and> a = mt"

lemma send_concat: "send_concat_string U ok v v2 = send_string U ok (v @ v2)"
  by (simp add: send_concat_string_def send_string_def)

lemma append_concat: "append_string U v v2 = append_string U (v @ v2) []"
  by (simp add: append_string_def)

text \<open>Strings as an array.\<close>

definition list_array :: "kv_util \<Rightarrow> byte list list \<Rightarrow> byte list" where
  "list_array U vs = prepend_array U (length vs) (concat (map (\<lambda>v. append_string U v []) vs))"

lemma remove_empty_cases:
  obtains "\<not> em" "remove_empty S em st x = (st, x)"
  | y where "em" "remove_empty S em st x = (ERR_KV_STATUS, y)" "x_kstatus y \<noteq> KEY_OK"
  | y e where "em" "remove_empty S em st x = (st, y)" "x_out y = x_out x" "x_ival y = x_ival x" "EKF_KEYSPACE_DEL \<in> x_flags y"
      "sg_tombstone S e = (KEY_OK, x_ent y)"
proof (cases em)
  case True
  let ?y = "lx_tombstone S (set_flags {EKF_KEYSPACE_DEL} x)"
  show thesis
  proof (cases "x_kstatus ?y = KEY_OK")
    case False
    then show thesis using that(2) [of ?y] True by (simp add: remove_empty_def Let_def)
  next
    case kst: True
    have "sg_tombstone S (x_ent x) = (KEY_OK, x_ent ?y)" "EKF_KEYSPACE_DEL \<in> x_flags ?y"
      using kst by (auto simp: lx_tombstone_def set_flags_def split: prod.splits)
    then show thesis using that(3) [of ?y "x_ent x"] True kst by (simp add: remove_empty_def Let_def)
  qed
qed (use that(1) in \<open>simp add: remove_empty_def\<close>)

section \<open>A store in memory\<close>

definition mem_seg :: "mem_entry seg_ops" where
  "mem_seg =
     \<lparr>sg_value_update = (\<lambda>e. KEY_OK), sg_value_copy = (\<lambda>e. KEY_OK),
      sg_tombstone = (\<lambda>e. (KEY_OK, op_tombstone mem_key_ops e)),
      sg_alloc_segment = (\<lambda>e n. (KEY_OK, replicate n 0)),
      sg_load = (\<lambda>e m. (KEY_OK, e\<lparr>me_data := m\<rparr>))\<rparr>"

interpretation mem_seg: seg_entry mem_ops mem_seg
  by unfold_locales (auto simp: mem_seg_def mem_ops_def)

text \<open>A container in memory: byte strings, each byte behind a one and each string closed by a two, and zeros.\<close>

fun pack_items :: "byte list list \<Rightarrow> byte list" where
  "pack_items [] = []"
| "pack_items (v # vs) = concat (map (\<lambda>b. [1, b]) v) @ 2 # pack_items vs"

fun unpack_items :: "byte list \<Rightarrow> byte list \<Rightarrow> byte list list" where
  "unpack_items cur [] = []"
| "unpack_items cur (t # r) =
     (if t = 1 then (case r of [] \<Rightarrow> [] | b # r1 \<Rightarrow> unpack_items (cur @ [b]) r1)
      else if t = 2 then cur # unpack_items [] r else [])"

definition fill :: "nat \<Rightarrow> byte list \<Rightarrow> byte list" where
  "fill n d = d @ replicate (n - length d) 0"

abbreviation mem_items :: "byte list \<Rightarrow> byte list list" where
  "mem_items d \<equiv> unpack_items [] d"

definition mem_wf :: "byte list \<Rightarrow> bool" where
  "mem_wf d \<longleftrightarrow> d = fill (length d) (pack_items (mem_items d))"

definition mem_room :: "byte list \<Rightarrow> nat \<Rightarrow> bool" where
  "mem_room d n \<longleftrightarrow> length (pack_items (mem_items d)) + 2 * n + 2 \<le> length d"

definition mem_class :: list_class where
  "mem_class =
     \<lparr>lc_alloc_size = (\<lambda>c nd. (2 * (c + nd), c, nd)),
      lc_resize_size = (\<lambda>d c nd. (length (pack_items (mem_items d)) + 2 * (c + nd), c, nd)),
      lc_init = (\<lambda>m c nd. fill (length m) []),
      lc_copy = (\<lambda>d m. fill (length m) (pack_items (mem_items d)))\<rparr>"

lemma unpack_value: "unpack_items cur (concat (map (\<lambda>b. [1, b]) v) @ 2 # r) = (cur @ v) # unpack_items [] r"
  by (induction v arbitrary: cur) simp_all

lemma unpack_pack_items [simp]: "unpack_items [] (pack_items vs @ replicate n 0) = vs"
proof (induction vs)
  case Nil
  then show ?case by (cases n) simp_all
next
  case (Cons v vs)
  then show ?case by (simp add: unpack_value)
qed

lemma mem_fill [simp]:
  "mem_items (fill n (pack_items vs)) = vs" "length (pack_items vs) \<le> n \<Longrightarrow> length (fill n (pack_items vs)) = n"
  "length (pack_items vs) \<le> n \<Longrightarrow> mem_wf (fill n (pack_items vs))" "length (fill n []) = n" "mem_items (fill n []) = []" "mem_wf (fill n [])"
  using unpack_pack_items [of "[]" n] by (simp_all add: fill_def mem_wf_def)

interpretation mem_box: container mem_class mem_wf mem_items "[]" mem_room "\<lambda>n. n"
  by unfold_locales (auto simp: mem_class_def mem_room_def)

interpretation mem_ctx: list_ctx mem_ops mem_seg mem_class mem_wf mem_items "[]" mem_room "\<lambda>n. n" ..

text \<open>The change of a container in memory, or its refusal.\<close>

definition mem_put :: "'s \<Rightarrow> 's \<Rightarrow> byte list \<Rightarrow> byte list list \<Rightarrow> 's \<times> byte list" where
  "mem_put ok full d vs =
     (if length (pack_items vs) \<le> length d then (ok, fill (length d) (pack_items vs)) else (full, d))"

lemma mem_put_cases:
  assumes "mem_wf d"
  obtains d' where "mem_put ok full d vs = (ok, d')" "mem_wf d'" "length d' = length d" "mem_items d' = vs"
  | "mem_put ok full d vs = (full, d)" "length d < length (pack_items vs)"
  using assms by (cases "length (pack_items vs) \<le> length d") (auto simp: mem_put_def)

lemma pack_append [simp]: "pack_items (as @ bs) = pack_items as @ pack_items bs"
  by (induction as) simp_all

lemma pack_length [simp]: "length (pack_items (v # vs)) = 2 * length v + 1 + length (pack_items vs)"
proof -
  have "length (concat (map (\<lambda>b. [1, b]) v)) = 2 * length v" by (induction v) simp_all
  then show ?thesis by simp
qed

declare pack_items.simps(2) [simp del]

lemma mem_wf_length: "mem_wf d \<Longrightarrow> length (pack_items (mem_items d)) \<le> length d"
  unfolding mem_wf_def fill_def by (metis le_add1 length_append)

end
