(* ===== verification/Redis_List.thy ===== *)
theory Redis_List
  imports List_Ctx
begin

text \<open>
  The list commands of \<open>src/src/redis_list.cpp\<close>. The list itself is raimd's \<open>ListData\<close>: its operations on
  the bytes of the entry are the record \<open>list_ops\<close>, with the laws of \<open>md_list\<close>, interpreted by a list in
  memory. Shown: on a key with a list, on one without and on a new one the commands do what the operations on
  lists of byte strings do, the loop that moves a full list ends, and RPOPLPUSH moves an element, if nothing
  else waits in the output.
\<close>

section \<open>The list class\<close>

datatype list_status = LIST_OK | LIST_NOT_FOUND | LIST_FULL

record list_ops =
  ll_class :: list_class
  ll_count :: "byte list \<Rightarrow> nat"
  ll_lpush :: "byte list \<Rightarrow> byte list \<Rightarrow> list_status \<times> byte list"
  ll_rpush :: "byte list \<Rightarrow> byte list \<Rightarrow> list_status \<times> byte list"
  ll_linsert :: "byte list \<Rightarrow> byte list \<Rightarrow> byte list \<Rightarrow> bool \<Rightarrow> list_status \<times> byte list"
  ll_lset :: "byte list \<Rightarrow> int \<Rightarrow> byte list \<Rightarrow> list_status \<times> byte list"
  ll_lpop :: "byte list \<Rightarrow> list_status \<times> (byte list \<times> byte list) \<times> byte list"
  ll_rpop :: "byte list \<Rightarrow> list_status \<times> (byte list \<times> byte list) \<times> byte list"
  ll_lindex :: "byte list \<Rightarrow> int \<Rightarrow> list_status \<times> byte list \<times> byte list"
  ll_scan_fwd :: "byte list \<Rightarrow> byte list \<Rightarrow> nat \<Rightarrow> nat option"
  ll_scan_rev :: "byte list \<Rightarrow> byte list \<Rightarrow> nat \<Rightarrow> nat option"
  ll_lrem :: "byte list \<Rightarrow> nat \<Rightarrow> byte list"
  ll_ltrim :: "byte list \<Rightarrow> nat \<Rightarrow> byte list"
  ll_rtrim :: "byte list \<Rightarrow> nat \<Rightarrow> byte list"

text \<open>What does not change while a command runs: the list class, the formats of numbers, the key store.\<close>

record 'e list_env =
  le_list :: list_ops
  le_util :: kv_util
  le_ops :: "'e kv_ops"
  le_seg :: "'e seg_ops"
  le_timeout :: "redis_exec \<Rightarrow> int"

section \<open>Pushing\<close>

datatype list_push = DO_LPUSH | DO_RPUSH | DO_LINSERT | DO_LSET | DO_RPOPLPUSH_DEST

text \<open>The arguments of a push: pivot and side of LINSERT, position of LSET, and the value.\<close>

record push_arg =
  pa_piv :: "byte list"
  pa_after :: bool
  pa_pos :: int
  pa_value :: "byte list"

definition push_args :: "redis_exec \<Rightarrow> list_push \<Rightarrow> byte list \<Rightarrow> push_arg option option" where
  "push_args ex cmd value =
     (let a = \<lparr>pa_piv = [], pa_after = False, pa_pos = 0, pa_value = value\<rparr> in
      case cmd of
        DO_LINSERT \<Rightarrow> do {
          side \<leftarrow> match_arg (ex_msg ex) 2 [ascii ''before'', ascii ''after''];
          Some (if side \<noteq> 1 \<and> side \<noteq> 2 then None else
            (case get_arg_str (ex_msg ex) 3 of None \<Rightarrow> None | Some piv \<Rightarrow>
              map_option (\<lambda>v. a\<lparr>pa_piv := piv, pa_after := side = 2, pa_value := v\<rparr>) (get_arg_str (ex_msg ex) 4))) }
      | DO_LSET \<Rightarrow> Some (case get_arg_int (ex_msg ex) 2 of None \<Rightarrow> None | Some pos \<Rightarrow>
            map_option (\<lambda>v. a\<lparr>pa_pos := pos, pa_value := v\<rparr>) (get_arg_str (ex_msg ex) 3))
      | DO_RPOPLPUSH_DEST \<Rightarrow> Some (Some a)
      | _ \<Rightarrow> Some (map_option (\<lambda>v. a\<lparr>pa_value := v\<rparr>) (get_arg_str (ex_msg ex) 2)))"

text \<open>The bytes a new list is made for: the value and the arguments behind it.\<close>

fun args_size :: "redis_exec \<Rightarrow> nat list \<Rightarrow> nat \<Rightarrow> nat option" where
  "args_size ex [] nd = Some nd"
| "args_size ex (j # js) nd =
     (case get_arg_str (ex_msg ex) j of None \<Rightarrow> None | Some v \<Rightarrow> args_size ex js (nd + 1 + length v))"

definition push_op :: "list_ops \<Rightarrow> list_push \<Rightarrow> push_arg \<Rightarrow> byte list \<Rightarrow> list_status \<times> byte list" where
  "push_op L cmd a d =
     (case cmd of
        DO_LPUSH \<Rightarrow> ll_lpush L d (pa_value a)
      | DO_RPOPLPUSH_DEST \<Rightarrow> ll_lpush L d (pa_value a)
      | DO_RPUSH \<Rightarrow> ll_rpush L d (pa_value a)
      | DO_LINSERT \<Rightarrow> ll_linsert L d (pa_piv a) (pa_value a) (pa_after a)
      | DO_LSET \<Rightarrow> ll_lset L d (pa_pos a) (pa_value a))"

abbreviation keyspace_list :: "'e xst \<Rightarrow> 'e xst" where
  "keyspace_list \<equiv> set_flags {EKF_KEYSPACE_EVENT, EKF_KEYSPACE_LIST}"

abbreviation keyspace_push :: "'e xst \<Rightarrow> 'e xst" where
  "keyspace_push \<equiv> set_flags {EKF_KEYSPACE_EVENT, EKF_KEYSPACE_LIST, EKF_LISTBLKD_NOT}"

text \<open>What is sent when the last value is in, or was refused.\<close>

definition push_done :: "'e list_env \<Rightarrow> list_push \<Rightarrow> list_status \<Rightarrow> 'e xst \<Rightarrow> exec_status \<times> 'e xst" where
  "push_done V cmd st x =
     (case cmd of
        DO_LSET \<Rightarrow> if st = LIST_OK then (EXEC_SEND_OK, keyspace_push x) else (ERR_BAD_RANGE, x)
      | DO_RPOPLPUSH_DEST \<Rightarrow> (EXEC_OK, keyspace_push x)
      | _ \<Rightarrow> (EXEC_SEND_INT,
          if st = LIST_OK then keyspace_push (x\<lparr>x_ival := int (ll_count (le_list V) (x_data (le_ops V) x))\<rparr>)
          else x\<lparr>x_ival := - 1\<rparr>))"

partial_function (option) push_loop :: "'e list_env \<Rightarrow> redis_exec \<Rightarrow> list_push \<Rightarrow> nat \<Rightarrow> nat \<Rightarrow> push_arg \<Rightarrow> 'e xst
    \<Rightarrow> (exec_status \<times> 'e xst) option" where
  "push_loop V ex cmd argi retry a x =
     (case push_op (le_list V) cmd a (x_data (le_ops V) x) of (st, d) \<Rightarrow>
       let x1 = put_data (le_ops V) x d in
       if st = LIST_FULL then
         (let x2 = lx_realloc (ll_class (le_list V)) (le_ops V) (le_seg V) retry (1 + length (pa_value a)) x1 in
          if x_kstatus x2 = KEY_OK then push_loop V ex cmd argi (retry + 16) a x2 else Some (ERR_KV_STATUS, x2))
       else if (cmd = DO_LPUSH \<or> cmd = DO_RPUSH) \<and> argi < argc ex then
         (case get_arg_str (ex_msg ex) argi of None \<Rightarrow> Some (ERR_BAD_ARGS, x1)
          | Some v \<Rightarrow> push_loop V ex cmd (argi + 1) retry (a\<lparr>pa_value := v\<rparr>) x1)
       else Some (push_done V cmd st x1))"

definition do_push :: "'e list_env \<Rightarrow> redis_exec \<Rightarrow> list_push \<Rightarrow> bool \<Rightarrow> byte list \<Rightarrow> 'e xst \<Rightarrow> (exec_status \<times> 'e xst) option" where
  "do_push V ex cmd must_exist value x = do {
     args \<leftarrow> push_args ex cmd value;
     (case args of None \<Rightarrow> Some (ERR_BAD_ARGS, x)
      | Some a \<Rightarrow> do {
        (st, x1) \<leftarrow> do_key_fetch (le_ops V) ex MD_LIST False x;
        (case st of
           KEY_NO_VALUE \<Rightarrow> Some (ERR_BAD_TYPE, x1)
         | KEY_IS_NEW \<Rightarrow>
             if must_exist then Some (EXEC_SEND_ZERO, x1)
             else (case args_size ex [3..<argc ex] (1 + length (pa_value a)) of None \<Rightarrow> Some (ERR_BAD_ARGS, x1)
               | Some ndata \<Rightarrow>
                 let x2 = lx_create (ll_class (le_list V)) (le_ops V) MD_LIST (argc ex) ndata x1 in
                 if x_kstatus x2 = KEY_OK then push_loop V ex cmd 3 0 a x2 else Some (ERR_KV_STATUS, x2))
         | KEY_OK \<Rightarrow>
             let x2 = lx_open (le_seg V) x1 in
             if x_kstatus x2 = KEY_OK then push_loop V ex cmd 3 0 a x2 else Some (ERR_KV_STATUS, x2)
         | _ \<Rightarrow> Some (ERR_KV_STATUS, x1)) }) }"

definition exec_lpush :: "'e list_env \<Rightarrow> redis_exec \<Rightarrow> 'e xst \<Rightarrow> (exec_status \<times> 'e xst) option" where
  "exec_lpush V ex x = do_push V ex DO_LPUSH False [] x"
definition exec_lpushx :: "'e list_env \<Rightarrow> redis_exec \<Rightarrow> 'e xst \<Rightarrow> (exec_status \<times> 'e xst) option" where
  "exec_lpushx V ex x = do_push V ex DO_LPUSH True [] x"
definition exec_rpush :: "'e list_env \<Rightarrow> redis_exec \<Rightarrow> 'e xst \<Rightarrow> (exec_status \<times> 'e xst) option" where
  "exec_rpush V ex x = do_push V ex DO_RPUSH False [] x"
definition exec_rpushx :: "'e list_env \<Rightarrow> redis_exec \<Rightarrow> 'e xst \<Rightarrow> (exec_status \<times> 'e xst) option" where
  "exec_rpushx V ex x = do_push V ex DO_RPUSH True [] x"
definition exec_linsert :: "'e list_env \<Rightarrow> redis_exec \<Rightarrow> 'e xst \<Rightarrow> (exec_status \<times> 'e xst) option" where
  "exec_linsert V ex x = do_push V ex DO_LINSERT False [] x"
definition exec_lset :: "'e list_env \<Rightarrow> redis_exec \<Rightarrow> 'e xst \<Rightarrow> (exec_status \<times> 'e xst) option" where
  "exec_lset V ex x = do_push V ex DO_LSET False [] x"

section \<open>Reading\<close>

definition exec_lindex :: "'e list_env \<Rightarrow> redis_exec \<Rightarrow> 'e xst \<Rightarrow> (exec_status \<times> 'e xst) option" where
  "exec_lindex V ex x =
     (case get_arg_int (ex_msg ex) 2 of None \<Rightarrow> Some (ERR_BAD_ARGS, x)
      | Some idx \<Rightarrow> do {
        (st, x1) \<leftarrow> do_key_fetch (le_ops V) ex MD_LIST True x;
        Some (case st of
            KEY_NO_VALUE \<Rightarrow> (ERR_BAD_TYPE, x1)
          | KEY_NOT_FOUND \<Rightarrow> (EXEC_SEND_NIL, x1)
          | KEY_OK \<Rightarrow>
              let x2 = lx_open_readonly (le_seg V) x1 in
              if x_kstatus x2 = KEY_OK then
                (case ll_lindex (le_list V) (x_data (le_ops V) x2) idx of (ls, v, v2) \<Rightarrow>
                  let x3 = k_validate (le_ops V) x2 in
                  if x_kstatus x3 \<noteq> KEY_OK then (ERR_KV_STATUS, x3)
                  else if ls \<noteq> LIST_NOT_FOUND then (EXEC_OK, send (send_concat_string (le_util V) (x_strm_ok x3) v v2) x3)
                  else (EXEC_SEND_NIL, x3))
              else (ERR_KV_STATUS, x2)
          | _ \<Rightarrow> (ERR_KV_STATUS, x1)) })"

definition exec_llen :: "'e list_env \<Rightarrow> redis_exec \<Rightarrow> 'e xst \<Rightarrow> (exec_status \<times> 'e xst) option" where
  "exec_llen V ex x = do {
     (st, x1) \<leftarrow> do_key_fetch (le_ops V) ex MD_LIST True x;
     Some (case st of
         KEY_NO_VALUE \<Rightarrow> (ERR_BAD_TYPE, x1)
       | KEY_NOT_FOUND \<Rightarrow> (EXEC_SEND_ZERO, x1)
       | KEY_OK \<Rightarrow>
           let x2 = lx_open_readonly (le_seg V) x1 in
           if x_kstatus x2 = KEY_OK then
             let x3 = k_validate (le_ops V) (x2\<lparr>x_ival := int (ll_count (le_list V) (x_data (le_ops V) x2))\<rparr>) in
             if x_kstatus x3 = KEY_OK then (EXEC_SEND_INT, x3) else (ERR_KV_STATUS, x3)
           else (ERR_KV_STATUS, x2)
       | _ \<Rightarrow> (ERR_KV_STATUS, x1)) }"

text \<open>The ends of a range, negative ones counted from the end, and their clipping; the sums are those of
  64 bits.\<close>

definition range_from :: "nat \<Rightarrow> int \<Rightarrow> int" where
  "range_from n i = min (int n) (max 0 (if i < 0 then to_int64 (int n + i) else i))"

definition range_to :: "nat \<Rightarrow> int \<Rightarrow> int" where
  "range_to n i = min (int n) (max 0 (to_int64 ((if i < 0 then to_int64 (int n + i) else i) + 1)))"

text \<open>The elements one by one; \<open>None\<close> is a stream without memory.\<close>

fun range_loop :: "'e list_env \<Rightarrow> bool \<Rightarrow> byte list \<Rightarrow> int \<Rightarrow> nat \<Rightarrow> nat \<Rightarrow> byte list \<Rightarrow> (nat \<times> byte list) option" where
  "range_loop V ok d from 0 cnt q = Some (cnt, q)"
| "range_loop V ok d from (Suc n) cnt q =
     (case ll_lindex (le_list V) d from of (ls, v, v2) \<Rightarrow>
       if ls \<noteq> LIST_OK then Some (cnt, q)
       else if \<not> ok then None
       else range_loop V ok d (from + 1) n (cnt + 1) (q @ append_string (le_util V) v v2))"

definition lrange_reply :: "'e list_env \<Rightarrow> int \<Rightarrow> int \<Rightarrow> bool \<Rightarrow> 'e xst \<Rightarrow> exec_status \<times> 'e xst" where
  "lrange_reply V a b found x =
     (let d = x_data (le_ops V) x; n = ll_count (le_list V) d; from = range_from n a; upto = range_to n b in
      case (if found \<and> 0 < n then range_loop V (x_strm_ok x) d from (nat (upto - from)) 0 [] else Some (0, [])) of
        None \<Rightarrow> (ERR_ALLOC_FAIL, x)
      | Some (cnt, q) \<Rightarrow>
        let x1 = k_validate (le_ops V) x in
        if x_kstatus x1 = KEY_OK then (EXEC_OK, send (prepend_array (le_util V) cnt q) x1) else (ERR_KV_STATUS, x1))"

definition exec_lrange :: "'e list_env \<Rightarrow> redis_exec \<Rightarrow> 'e xst \<Rightarrow> (exec_status \<times> 'e xst) option" where
  "exec_lrange V ex x =
     (case (get_arg_int (ex_msg ex) 2, get_arg_int (ex_msg ex) 3) of
        (Some a, Some b) \<Rightarrow> do {
          (st, x1) \<leftarrow> do_key_fetch (le_ops V) ex MD_LIST True x;
          Some (case st of
              KEY_NO_VALUE \<Rightarrow> (ERR_BAD_TYPE, x1)
            | KEY_NOT_FOUND \<Rightarrow> lrange_reply V a b False x1
            | KEY_OK \<Rightarrow>
                let x2 = lx_open_readonly (le_seg V) x1 in
                if x_kstatus x2 = KEY_OK then lrange_reply V a b True x2 else (ERR_KV_STATUS, x2)
            | _ \<Rightarrow> (ERR_KV_STATUS, x1)) }
      | _ \<Rightarrow> Some (ERR_BAD_ARGS, x))"

section \<open>Popping\<close>

datatype list_pop = DO_LPOP | DO_BLPOP | DO_RPOP | DO_BRPOP | DO_RPOPLPUSH | DO_LREM | DO_LTRIM

text \<open>LREM: what \<open>scan\<close> finds is removed, until the count or the list is at its end. A count of zero is
  counted down below zero.\<close>

partial_function (option) lrem_fwd :: "list_ops \<Rightarrow> byte list \<Rightarrow> int \<Rightarrow> nat \<Rightarrow> nat \<Rightarrow> byte list \<Rightarrow> (nat \<times> byte list) option" where
  "lrem_fwd L arg ival pos cnt d =
     (case ll_scan_fwd L d arg pos of None \<Rightarrow> Some (cnt, d)
      | Some p \<Rightarrow>
        let d1 = ll_lrem L d p in
        if to_int64 (ival - 1) \<noteq> 0 then lrem_fwd L arg (to_int64 (ival - 1)) p (cnt + 1) d1 else Some (cnt + 1, d1))"

partial_function (option) lrem_rev :: "list_ops \<Rightarrow> byte list \<Rightarrow> int \<Rightarrow> nat \<Rightarrow> nat \<Rightarrow> byte list \<Rightarrow> (nat \<times> byte list) option" where
  "lrem_rev L arg ival pos cnt d =
     (case ll_scan_rev L d arg pos of None \<Rightarrow> Some (cnt, d)
      | Some p \<Rightarrow>
        let d1 = ll_lrem L d p in
        if ival + 1 \<noteq> 0 then lrem_rev L arg (ival + 1) p (cnt + 1) d1 else Some (cnt + 1, d1))"

definition lrem_list :: "'e list_env \<Rightarrow> int \<Rightarrow> byte list \<Rightarrow> 'e xst \<Rightarrow> (exec_status \<times> 'e xst) option" where
  "lrem_list V ival arg x = do {
     (cnt, d) \<leftarrow> (if ival < 0 then lrem_rev (le_list V) arg ival (ll_count (le_list V) (x_data (le_ops V) x)) 0 (x_data (le_ops V) x)
               else lrem_fwd (le_list V) arg ival 0 0 (x_data (le_ops V) x));
     let x1 = (put_data (le_ops V) x d)\<lparr>x_ival := int cnt\<rparr>;
     Some (EXEC_SEND_INT, if cnt > 0 then keyspace_list x1 else x1) }"

definition ltrim_list :: "'e list_env \<Rightarrow> int \<Rightarrow> int \<Rightarrow> 'e xst \<Rightarrow> exec_status \<times> 'e xst" where
  "ltrim_list V a b x =
     (let L = le_list V; d = x_data (le_ops V) x; cnt = ll_count L d;
          start = range_from cnt a; stop = int cnt - range_to cnt b; x1 = keyspace_list x in
      if start > 0 \<or> stop > 0 then
        let d1 = (if start > 0 then ll_ltrim L d (nat start) else d);
            d2 = (if stop > 0 then ll_rtrim L d1 (nat stop) else d1) in
        remove_empty (le_seg V) (start + stop \<ge> int cnt) EXEC_SEND_OK (put_data (le_ops V) x1 d2)
      else (EXEC_SEND_OK, x1))"

text \<open>The key in front of the element, for the commands that block on many keys. It is the argument the
  context of the key was made of.\<close>

definition ctx_key :: "redis_exec \<Rightarrow> 'e xst \<Rightarrow> byte list" where
  "ctx_key ex x = (case get_arg_str (ex_msg ex) (x_argn x) of Some k \<Rightarrow> k | None \<Rightarrow> [])"

definition pop_list :: "'e list_env \<Rightarrow> redis_exec \<Rightarrow> list_pop \<Rightarrow> 'e xst \<Rightarrow> exec_status \<times> 'e xst" where
  "pop_list V ex cmd x =
     (let L = le_list V; d = x_data (le_ops V) x; blk = cmd = DO_BLPOP \<or> cmd = DO_BRPOP in
      case (if cmd = DO_LPOP \<or> cmd = DO_BLPOP then ll_lpop L d else ll_rpop L d) of (ls, (v, v2), d1) \<Rightarrow>
        let x1 = put_data (le_ops V) x d1 in
        if ls = LIST_NOT_FOUND then (if cmd = DO_RPOPLPUSH then EXEC_ABORT_SEND_NIL else EXEC_SEND_NIL, x1)
        else if blk \<and> \<not> x_strm_ok x1 then (ERR_ALLOC_FAIL, x1)
        else
          let x2 = keyspace_list (send (send_concat_string (le_util V) (x_strm_ok x1) v v2)
              (if blk then send ([42, 50] @ crlf @ send_string (le_util V) True (ctx_key ex x)) x1 else x1)) in
          remove_empty (le_seg V) (ll_count L (x_data (le_ops V) x2) = 0) EXEC_OK x2)"

definition pop_new :: "list_pop \<Rightarrow> exec_status" where
  "pop_new cmd = (case cmd of DO_RPOPLPUSH \<Rightarrow> EXEC_ABORT_SEND_NIL | DO_LREM \<Rightarrow> EXEC_SEND_ZERO | DO_LTRIM \<Rightarrow> EXEC_SEND_OK
     | _ \<Rightarrow> EXEC_SEND_NIL)"

definition do_pop :: "'e list_env \<Rightarrow> redis_exec \<Rightarrow> list_pop \<Rightarrow> 'e xst \<Rightarrow> (exec_status \<times> 'e xst) option" where
  "do_pop V ex cmd x =
     (let int2 = get_arg_int (ex_msg ex) 2; int3 = get_arg_int (ex_msg ex) 3; str3 = get_arg_str (ex_msg ex) 3 in
      if cmd = DO_LREM \<and> (int2 = None \<or> str3 = None) \<or> cmd = DO_LTRIM \<and> (int2 = None \<or> int3 = None)
      then Some (ERR_BAD_ARGS, x)
      else do {
        (st, x1) \<leftarrow> do_key_fetch (le_ops V) ex MD_LIST False x;
        (case st of
           KEY_NO_VALUE \<Rightarrow> Some (ERR_BAD_TYPE, x1)
         | KEY_IS_NEW \<Rightarrow> Some (pop_new cmd, x1)
         | KEY_OK \<Rightarrow>
             let x2 = lx_open (le_seg V) x1 in
             if x_kstatus x2 \<noteq> KEY_OK then Some (ERR_KV_STATUS, x2)
             else if cmd = DO_LREM then lrem_list V (the int2) (the str3) x2
             else Some (if cmd = DO_LTRIM then ltrim_list V (the int2) (the int3) x2 else pop_list V ex cmd x2)
         | _ \<Rightarrow> Some (ERR_KV_STATUS, x1)) })"

definition exec_lpop :: "'e list_env \<Rightarrow> redis_exec \<Rightarrow> 'e xst \<Rightarrow> (exec_status \<times> 'e xst) option" where
  "exec_lpop V ex x = do_pop V ex DO_LPOP x"
definition exec_rpop :: "'e list_env \<Rightarrow> redis_exec \<Rightarrow> 'e xst \<Rightarrow> (exec_status \<times> 'e xst) option" where
  "exec_rpop V ex x = do_pop V ex DO_RPOP x"
definition exec_lrem :: "'e list_env \<Rightarrow> redis_exec \<Rightarrow> 'e xst \<Rightarrow> (exec_status \<times> 'e xst) option" where
  "exec_lrem V ex x = do_pop V ex DO_LREM x"
definition exec_ltrim :: "'e list_env \<Rightarrow> redis_exec \<Rightarrow> 'e xst \<Rightarrow> (exec_status \<times> 'e xst) option" where
  "exec_ltrim V ex x = do_pop V ex DO_LTRIM x"

subsection \<open>Blocking, and over two keys\<close>

definition block_pop :: "'e list_env \<Rightarrow> redis_exec \<Rightarrow> list_pop \<Rightarrow> 'e xst \<Rightarrow> (exec_status \<times> 'e xst) option" where
  "block_pop V ex cmd x = do {
     (st, x1) \<leftarrow> do_pop V ex cmd x;
     Some (if st = EXEC_SEND_NIL then (EXEC_BLOCKED, x1\<lparr>x_ival := le_timeout V ex\<rparr>)
       else if st = EXEC_OK then (EXEC_SEND_DATA, x1) else (st, x1)) }"

definition exec_blpop :: "'e list_env \<Rightarrow> redis_exec \<Rightarrow> 'e xst \<Rightarrow> (exec_status \<times> 'e xst) option" where
  "exec_blpop V ex x = block_pop V ex DO_BLPOP x"
definition exec_brpop :: "'e list_env \<Rightarrow> redis_exec \<Rightarrow> 'e xst \<Rightarrow> (exec_status \<times> 'e xst) option" where
  "exec_brpop V ex x = block_pop V ex DO_BRPOP x"

text \<open>The element to push is taken from the output buffer: behind the first line end from the fourth byte
  on, without the two last bytes. \<open>fl\<close> bytes of the stream are flushed and no longer in the buffer.\<close>

function value_start :: "byte list \<Rightarrow> nat \<Rightarrow> nat" where
  "value_start buf i = (if i + 2 < length buf \<and> buf ! (i - 2) \<noteq> 13 then value_start buf (i + 1) else i)"
  by pat_completeness auto
termination by (relation "measure (\<lambda>(buf, i). length buf - i)") auto

declare value_start.simps [simp del]

definition exec_rpoplpush :: "'e list_env \<Rightarrow> redis_exec \<Rightarrow> nat \<Rightarrow> 'e xst \<Rightarrow> (exec_status \<times> 'e xst) option" where
  "exec_rpoplpush V ex fl x =
     (if x_argn x = 1 then do_pop V ex DO_RPOPLPUSH x
      else if key_cnt ex \<noteq> key_done ex + 1 then Some (EXEC_DEPENDS, x)
      else
        let buf = drop fl (x_out x); i = value_start buf 4 in
        if i + 2 < length buf then do_push V ex DO_RPOPLPUSH_DEST False (take (length buf - (i + 2)) (drop i buf)) x
        else Some (EXEC_ABORT_SEND_NIL, x))"

definition exec_brpoplpush :: "'e list_env \<Rightarrow> redis_exec \<Rightarrow> 'e xst list \<Rightarrow> nat \<Rightarrow> 'e xst \<Rightarrow> (exec_status \<times> 'e xst) option" where
  "exec_brpoplpush V ex keys fl x =
     (if x_argn x = 1 then do {
        (st, x1) \<leftarrow> do_pop V ex DO_RPOPLPUSH x;
        Some (if st = EXEC_ABORT_SEND_NIL then (EXEC_BLOCKED, x1\<lparr>x_ival := le_timeout V ex\<rparr>) else (st, x1)) }
      else if key_cnt ex \<noteq> key_done ex + 1 then Some (EXEC_DEPENDS, x)
      else if x_status (keys ! 0) = EXEC_BLOCKED then Some (EXEC_BLOCKED, x\<lparr>x_ival := x_ival (keys ! 0)\<rparr>)
      else exec_rpoplpush V ex fl x)"

definition list_handler :: "'e list_env \<Rightarrow> nat \<Rightarrow> redis_exec \<Rightarrow> 'e xst list \<Rightarrow> nat \<Rightarrow> (exec_status \<times> 'e xst) option" where
  "list_handler V fl ex keys i =
     (let x = keys ! i; nm = cmd_name (cmd_db ! ex_cmd ex) in
      if nm = ''blpop'' then exec_blpop V ex x
      else if nm = ''brpop'' then exec_brpop V ex x
      else if nm = ''brpoplpush'' then exec_brpoplpush V ex keys fl x
      else if nm = ''lindex'' then exec_lindex V ex x
      else if nm = ''linsert'' then exec_linsert V ex x
      else if nm = ''llen'' then exec_llen V ex x
      else if nm = ''lpop'' then exec_lpop V ex x
      else if nm = ''lpush'' then exec_lpush V ex x
      else if nm = ''lpushx'' then exec_lpushx V ex x
      else if nm = ''lrange'' then exec_lrange V ex x
      else if nm = ''lrem'' then exec_lrem V ex x
      else if nm = ''lset'' then exec_lset V ex x
      else if nm = ''ltrim'' then exec_ltrim V ex x
      else if nm = ''rpop'' then exec_rpop V ex x
      else if nm = ''rpoplpush'' then exec_rpoplpush V ex fl x
      else if nm = ''rpush'' then exec_rpush V ex x
      else if nm = ''rpushx'' then exec_rpushx V ex x
      else Some (ERR_BAD_CMD, x))"

section \<open>Lists of byte strings\<close>

text \<open>An index, counted from the end when it is negative, and the list with a value beside a pivot.\<close>

definition index_of :: "nat \<Rightarrow> int \<Rightarrow> nat option" where
  "index_of n i = (let k = (if i < 0 then int n + i else i) in if 0 \<le> k \<and> k < int n then Some (nat k) else None)"

fun put_beside :: "byte list \<Rightarrow> byte list \<Rightarrow> bool \<Rightarrow> byte list list \<Rightarrow> byte list list" where
  "put_beside p v after [] = []"
| "put_beside p v after (x # xs) = (if x = p then if after then x # v # xs else v # x # xs else x # put_beside p v after xs)"

definition del_nth :: "nat \<Rightarrow> 'a list \<Rightarrow> 'a list" where
  "del_nth i xs = take i xs @ drop (i + 1) xs"

text \<open>What the list class promises. An operation that adds has room or says that the list is full.\<close>

locale md_list = container "ll_class L" valid items "[]" room need
  for L :: list_ops and valid :: "byte list \<Rightarrow> bool" and items :: "byte list \<Rightarrow> byte list list"
    and room :: "byte list \<Rightarrow> nat \<Rightarrow> bool" and need :: "nat \<Rightarrow> nat" +
  assumes count: "valid d \<Longrightarrow> ll_count L d = length (items d)"
    and lpush: "valid d \<Longrightarrow> ll_lpush L d v = (st, d') \<Longrightarrow> valid d' \<and> length d' = length d
        \<and> (st = LIST_OK \<and> items d' = v # items d \<or> st = LIST_FULL \<and> items d' = items d \<and> \<not> room d (length v))"
    and rpush: "valid d \<Longrightarrow> ll_rpush L d v = (st, d') \<Longrightarrow> valid d' \<and> length d' = length d
        \<and> (st = LIST_OK \<and> items d' = items d @ [v] \<or> st = LIST_FULL \<and> items d' = items d \<and> \<not> room d (length v))"
    and linsert: "valid d \<Longrightarrow> ll_linsert L d p v after = (st, d') \<Longrightarrow> valid d' \<and> length d' = length d
        \<and> (if p \<in> set (items d)
           then st = LIST_OK \<and> items d' = put_beside p v after (items d) \<or> st = LIST_FULL \<and> items d' = items d \<and> \<not> room d (length v)
           else st = LIST_NOT_FOUND \<and> items d' = items d)"
    and lset: "valid d \<Longrightarrow> ll_lset L d i v = (st, d') \<Longrightarrow> valid d' \<and> length d' = length d
        \<and> (case index_of (length (items d)) i of
             Some k \<Rightarrow> st = LIST_OK \<and> items d' = (items d)[k := v] \<or> st = LIST_FULL \<and> items d' = items d \<and> \<not> room d (length v)
           | None \<Rightarrow> st = LIST_NOT_FOUND \<and> items d' = items d)"
    and lpop: "valid d \<Longrightarrow> ll_lpop L d = (st, (v, v2), d') \<Longrightarrow> valid d' \<and> length d' = length d
        \<and> (case items d of [] \<Rightarrow> st = LIST_NOT_FOUND \<and> items d' = [] | x # xs \<Rightarrow> st = LIST_OK \<and> v @ v2 = x \<and> items d' = xs)"
    and rpop: "valid d \<Longrightarrow> ll_rpop L d = (st, (v, v2), d') \<Longrightarrow> valid d' \<and> length d' = length d
        \<and> (if items d = [] then st = LIST_NOT_FOUND \<and> items d' = []
           else st = LIST_OK \<and> v @ v2 = last (items d) \<and> items d' = butlast (items d))"
    and lindex: "valid d \<Longrightarrow> ll_lindex L d i = (st, v, v2) \<Longrightarrow>
        (case index_of (length (items d)) i of Some k \<Rightarrow> st = LIST_OK \<and> v @ v2 = items d ! k | None \<Rightarrow> st = LIST_NOT_FOUND)"
    and scan_fwd: "valid d \<Longrightarrow> ll_scan_fwd L d v q = Some k \<Longrightarrow> q \<le> k \<and> k < length (items d) \<and> items d ! k = v \<and> v \<notin> set (take (k - q) (drop q (items d)))"
      "valid d \<Longrightarrow> ll_scan_fwd L d v q = None \<Longrightarrow> v \<notin> set (drop q (items d))"
    and scan_rev: "valid d \<Longrightarrow> q \<le> length (items d) \<Longrightarrow> ll_scan_rev L d v q = Some k \<Longrightarrow> k < q \<and> items d ! k = v \<and> v \<notin> set (drop (k + 1) (take q (items d)))"
      "valid d \<Longrightarrow> q \<le> length (items d) \<Longrightarrow> ll_scan_rev L d v q = None \<Longrightarrow> v \<notin> set (take q (items d))"
    and lrem: "valid d \<Longrightarrow> k < length (items d) \<Longrightarrow> valid (ll_lrem L d k) \<and> length (ll_lrem L d k) = length d \<and> items (ll_lrem L d k) = del_nth k (items d)"
    and ltrim: "valid d \<Longrightarrow> valid (ll_ltrim L d n) \<and> length (ll_ltrim L d n) = length d \<and> items (ll_ltrim L d n) = drop n (items d)"
    and rtrim: "valid d \<Longrightarrow> valid (ll_rtrim L d n) \<and> length (ll_rtrim L d n) = length d
        \<and> items (ll_rtrim L d n) = take (length (items d) - n) (items d)"

subsection \<open>A list in memory\<close>

definition first_from :: "nat \<Rightarrow> byte list \<Rightarrow> byte list list \<Rightarrow> nat option" where
  "first_from p v xs = find (\<lambda>i. xs ! i = v) [p..<length xs]"

definition last_to :: "nat \<Rightarrow> byte list \<Rightarrow> byte list list \<Rightarrow> nat option" where
  "last_to p v xs = find (\<lambda>i. xs ! i = v) (rev [0..<p])"

definition mem_list_take :: "byte list \<Rightarrow> byte list list \<Rightarrow> byte list" where
  "mem_list_take d vs = snd (mem_put LIST_OK LIST_FULL d vs)"

definition mem_list :: list_ops where
  "mem_list =
     \<lparr>ll_class = mem_class,
      ll_count = (\<lambda>d. length (mem_items d)),
      ll_lpush = (\<lambda>d v. mem_put LIST_OK LIST_FULL d (v # mem_items d)),
      ll_rpush = (\<lambda>d v. mem_put LIST_OK LIST_FULL d (mem_items d @ [v])),
      ll_linsert = (\<lambda>d p v after. if p \<in> set (mem_items d)
          then mem_put LIST_OK LIST_FULL d (put_beside p v after (mem_items d)) else (LIST_NOT_FOUND, d)),
      ll_lset = (\<lambda>d i v. case index_of (length (mem_items d)) i of None \<Rightarrow> (LIST_NOT_FOUND, d)
          | Some k \<Rightarrow> mem_put LIST_OK LIST_FULL d ((mem_items d)[k := v])),
      ll_lpop = (\<lambda>d. case mem_items d of [] \<Rightarrow> (LIST_NOT_FOUND, ([], []), d) | v # vs \<Rightarrow> (LIST_OK, (v, []), mem_list_take d vs)),
      ll_rpop = (\<lambda>d. if mem_items d = [] then (LIST_NOT_FOUND, ([], []), d)
          else (LIST_OK, (last (mem_items d), []), mem_list_take d (butlast (mem_items d)))),
      ll_lindex = (\<lambda>d i. case index_of (length (mem_items d)) i of None \<Rightarrow> (LIST_NOT_FOUND, [], [])
          | Some k \<Rightarrow> (LIST_OK, mem_items d ! k, [])),
      ll_scan_fwd = (\<lambda>d v p. first_from p v (mem_items d)),
      ll_scan_rev = (\<lambda>d v p. last_to p v (mem_items d)),
      ll_lrem = (\<lambda>d k. mem_list_take d (del_nth k (mem_items d))),
      ll_ltrim = (\<lambda>d n. mem_list_take d (drop n (mem_items d))),
      ll_rtrim = (\<lambda>d n. mem_list_take d (take (length (mem_items d) - n) (mem_items d)))\<rparr>"

lemma first_from_some:
  assumes "first_from p v xs = Some k"
  shows "p \<le> k \<and> k < length xs \<and> xs ! k = v \<and> v \<notin> set (take (k - p) (drop p xs))"
proof -
  obtain i where "p + i < length xs" "k = p + i" "xs ! k = v" "\<forall>j<i. xs ! (p + j) \<noteq> v"
    using that assms by (force simp: first_from_def find_Some_iff)
  then show ?thesis by (auto simp: in_set_conv_nth)
qed

lemma first_from_none: "first_from p v xs = None \<Longrightarrow> v \<notin> set (drop p xs)"
  by (auto simp: first_from_def find_None_iff in_set_conv_nth)

lemma last_to_some:
  assumes "last_to p v xs = Some k" "p \<le> length xs"
  shows "k < p \<and> xs ! k = v \<and> v \<notin> set (drop (k + 1) (take p xs))"
proof -
  obtain i where i: "i < p" "k = p - Suc i" "xs ! k = v" "\<forall>j<i. xs ! (p - Suc j) \<noteq> v"
    using assms by (auto simp: last_to_def find_Some_iff rev_nth)
  have "v \<noteq> xs ! (k + 1 + m)" if "k + 1 + m < p" for m
  proof -
    have "p - Suc (p - Suc (k + 1 + m)) = k + 1 + m" "p - Suc (k + 1 + m) < i" using that i(1,2) by linarith+
    then show ?thesis using i(4) by metis
  qed
  moreover have "v \<in> set (drop (k + 1) (take p xs)) \<Longrightarrow> \<exists>m. k + 1 + m < p \<and> v = xs ! (k + 1 + m)"
    using assms(2) by (auto simp: in_set_conv_nth less_diff_conv2 simp del: drop_take) (metis add.commute add_Suc_right less_diff_conv nat_add_left_cancel_less)
  ultimately have "v \<notin> set (drop (k + 1) (take p xs))" by blast
  moreover have "k < p" using i(1,2) by simp
  ultimately show ?thesis using i(3) by blast
qed

lemma last_to_none: "last_to p v xs = None \<Longrightarrow> p \<le> length xs \<Longrightarrow> v \<notin> set (take p xs)"
  by (auto simp: last_to_def find_None_iff in_set_conv_nth)

lemma mem_list_take_ok:
  assumes "mem_wf d" "length (pack_items vs) \<le> length (pack_items (mem_items d))"
  shows "mem_wf (mem_list_take d vs) \<and> length (mem_list_take d vs) = length d \<and> mem_items (mem_list_take d vs) = vs"
proof -
  have "length (pack_items (mem_items d)) \<le> length d"
    using assms(1) unfolding mem_wf_def fill_def by (metis le_add1 length_append)
  then show ?thesis using assms(2) by (simp add: mem_list_take_def mem_put_def)
qed

lemma put_beside_length: "p \<in> set xs \<Longrightarrow> length (pack_items (put_beside p v after xs)) = length (pack_items xs) + 2 * length v + 1"
  by (induction xs) auto

lemma pack_update: "k < length xs \<Longrightarrow> length (pack_items (xs[k := v])) \<le> length (pack_items xs) + 2 * length v + 1"
proof (induction xs arbitrary: k)
  case (Cons x xs)
  then show ?case by (cases k) force+
qed simp

lemma pack_parts: "length (pack_items (take n xs)) + length (pack_items (drop n xs)) = length (pack_items xs)"
  by (metis append_take_drop_id length_append pack_append)

lemma pack_drop: "n \<le> m \<Longrightarrow> length (pack_items (drop m xs)) \<le> length (pack_items (drop n xs))"
  using pack_parts [of "m - n" "drop n xs"] by simp

lemma pack_take: "length (pack_items (take n xs)) \<le> length (pack_items xs)"
  using pack_parts [of n xs] by simp

text \<open>An operation that adds at most one value.\<close>

lemma mem_list_put:
  assumes "mem_wf d" "mem_put LIST_OK LIST_FULL d vs = (st, d')" "length (pack_items vs) \<le> length (pack_items (mem_items d)) + 2 * k + 1"
  shows "mem_wf d' \<and> length d' = length d \<and> (st = LIST_OK \<and> mem_items d' = vs \<or> st = LIST_FULL \<and> mem_items d' = mem_items d \<and> \<not> mem_room d k)"
  by (rule mem_put_cases [OF assms(1), of LIST_OK LIST_FULL vs]) (use assms in \<open>auto simp: mem_room_def\<close>)

interpretation mem_list: md_list mem_list mem_wf mem_items mem_room "\<lambda>n. n"
proof (unfold_locales, goal_cases)
  case (4 d) then show ?case by (simp add: mem_list_def)
next
  case (5 d v st d') then show ?case using mem_list_put [of d "v # mem_items d" st d' "length v"] by (simp add: mem_list_def)
next
  case (6 d v st d') then show ?case using mem_list_put [of d "mem_items d @ [v]" st d' "length v"] by (simp add: mem_list_def)
next
  case (7 d p v after st d') then show ?case
    using mem_list_put [of d "put_beside p v after (mem_items d)" st d' "length v"] put_beside_length [of p "mem_items d" v after]
    by (auto simp: mem_list_def split: if_splits)
next
  case (8 d i v st d') then show ?case
    using mem_list_put [of d _ st d' "length v"] pack_update [of _ "mem_items d" v]
    by (auto simp: mem_list_def index_of_def Let_def split: option.splits if_splits)
next
  case (9 d st v v2 d') then show ?case
    using mem_list_take_ok [of d] by (auto simp: mem_list_def split: list.splits)
next
  case (10 d st v v2 d') then show ?case
    using mem_list_take_ok [of d "butlast (mem_items d)"] pack_take [of "length (mem_items d) - 1" "mem_items d"]
    by (auto simp: mem_list_def butlast_conv_take split: if_splits)
next
  case (11 d i st v v2) then show ?case by (auto simp: mem_list_def split: option.splits)
next
  case (12 d v q k) then show ?case using first_from_some by (simp add: mem_list_def)
next
  case (13 d v q) then show ?case using first_from_none by (simp add: mem_list_def)
next
  case (14 d q v k) then show ?case using last_to_some by (simp add: mem_list_def)
next
  case (15 d q v) then show ?case using last_to_none by (simp add: mem_list_def)
next
  case (16 d k) then show ?case
    using mem_list_take_ok [of d "del_nth k (mem_items d)"] pack_parts [of k "mem_items d"] pack_drop [of k "k + 1" "mem_items d"]
    by (simp add: mem_list_def del_nth_def)
next
  case (17 d n) then show ?case
    using mem_list_take_ok [of d "drop n (mem_items d)"] pack_drop [of 0 n "mem_items d"] by (simp add: mem_list_def)
next
  case (18 d n) then show ?case
    using mem_list_take_ok [of d "take (length (mem_items d) - n) (mem_items d)"] pack_take by (simp add: mem_list_def)
qed (auto simp: mem_list_def dest: mem_box.init mem_box.copy mem_box.grown)

end
