(* ===== verification/List_Refines.thy ===== *)
theory List_Refines
  imports Redis_List
begin

text \<open>
  The list commands refine operations on lists of byte strings: the laws of the list class and of the key
  store are the locale \<open>list_store\<close>, in which the loops and handlers of \<open>Redis_List\<close> are shown to do what
  \<open>push_spec\<close>, \<open>pop_spec\<close> and \<open>range_of\<close> say; it is interpreted by lists and a store in memory.
\<close>

section \<open>What the pushes do\<close>

definition push_spec :: "list_push \<Rightarrow> push_arg \<Rightarrow> byte list list \<Rightarrow> list_status \<times> byte list list" where
  "push_spec cmd a xs =
     (case cmd of
        DO_LPUSH \<Rightarrow> (LIST_OK, pa_value a # xs)
      | DO_RPOPLPUSH_DEST \<Rightarrow> (LIST_OK, pa_value a # xs)
      | DO_RPUSH \<Rightarrow> (LIST_OK, xs @ [pa_value a])
      | DO_LINSERT \<Rightarrow> if pa_piv a \<in> set xs then (LIST_OK, put_beside (pa_piv a) (pa_value a) (pa_after a) xs) else (LIST_NOT_FOUND, xs)
      | DO_LSET \<Rightarrow> (case index_of (length xs) (pa_pos a) of Some k \<Rightarrow> (LIST_OK, xs[k := pa_value a]) | None \<Rightarrow> (LIST_NOT_FOUND, xs)))"

fun push_all :: "list_push \<Rightarrow> push_arg \<Rightarrow> byte list list \<Rightarrow> byte list list \<Rightarrow> list_status \<times> byte list list" where
  "push_all cmd a [] xs = push_spec cmd a xs"
| "push_all cmd a (v # vs) xs =
     (if cmd = DO_LPUSH \<or> cmd = DO_RPUSH then push_all cmd (a\<lparr>pa_value := v\<rparr>) vs (snd (push_spec cmd a xs)) else push_spec cmd a xs)"

definition push_reply :: "list_push \<Rightarrow> list_status \<Rightarrow> byte list list \<Rightarrow> int \<Rightarrow> exec_status \<times> int" where
  "push_reply cmd st ys iv =
     (case cmd of
        DO_LSET \<Rightarrow> (if st = LIST_OK then EXEC_SEND_OK else ERR_BAD_RANGE, iv)
      | DO_RPOPLPUSH_DEST \<Rightarrow> (EXEC_OK, iv)
      | _ \<Rightarrow> (EXEC_SEND_INT, if st = LIST_OK then int (length ys) else - 1))"

lemma push_all_lpush: "push_all DO_LPUSH a vs xs = (LIST_OK, rev vs @ pa_value a # xs)"
  by (induction vs arbitrary: a xs) (simp_all add: push_spec_def)

lemma push_all_rpush: "push_all DO_RPUSH a vs xs = (LIST_OK, xs @ pa_value a # vs)"
  by (induction vs arbitrary: a xs) (simp_all add: push_spec_def)

text \<open>The loop behind a value that is in, or was refused.\<close>

definition next_value :: "'e list_env \<Rightarrow> redis_exec \<Rightarrow> list_push \<Rightarrow> nat \<Rightarrow> nat \<Rightarrow> push_arg \<Rightarrow> list_status \<Rightarrow> 'e xst \<Rightarrow> (exec_status \<times> 'e xst) option" where
  "next_value V ex cmd argi retry a st x1 =
     (if (cmd = DO_LPUSH \<or> cmd = DO_RPUSH) \<and> argi < argc ex then
         (case get_arg_str (ex_msg ex) argi of None \<Rightarrow> Some (ERR_BAD_ARGS, x1)
          | Some v \<Rightarrow> push_loop V ex cmd (argi + 1) retry (a\<lparr>pa_value := v\<rparr>) x1)
       else Some (push_done V cmd st x1))"

locale list_store = list_ctx "le_ops V" "le_seg V" "ll_class (le_list V)" valid items "[]" room need + md_list "le_list V" valid items room need
  for V :: "'e list_env" and valid :: "byte list \<Rightarrow> bool" and items :: "byte list \<Rightarrow> byte list list"
    and room :: "byte list \<Rightarrow> nat \<Rightarrow> bool" and need :: "nat \<Rightarrow> nat"
begin

abbreviation "data \<equiv> x_data (le_ops V)"

lemma push_op_spec:
  assumes "valid d" "push_op (le_list V) cmd a d = (st, d')"
  shows "valid d' \<and> length d' = length d \<and> ((st, items d') = push_spec cmd a (items d) \<or>
    st = LIST_FULL \<and> items d' = items d \<and> \<not> room d (length (pa_value a)))"
proof (cases cmd)
  case DO_LPUSH
  then show ?thesis using lpush [OF assms(1), of "pa_value a" st d'] assms(2) by (auto simp: push_op_def push_spec_def)
next
  case DO_RPOPLPUSH_DEST
  then show ?thesis using lpush [OF assms(1), of "pa_value a" st d'] assms(2) by (auto simp: push_op_def push_spec_def)
next
  case DO_RPUSH
  then show ?thesis using rpush [OF assms(1), of "pa_value a" st d'] assms(2) by (auto simp: push_op_def push_spec_def)
next
  case DO_LINSERT
  then show ?thesis using linsert [OF assms(1), of "pa_piv a" "pa_value a" "pa_after a" st d'] assms(2) by (auto simp: push_op_def push_spec_def split: if_splits)
next
  case DO_LSET
  then show ?thesis using lset [OF assms(1), of "pa_pos a" "pa_value a" st d'] assms(2) by (auto simp: push_op_def push_spec_def split: option.splits)
qed

text \<open>One value: the list is moved until it takes it, or a move fails.\<close>

lemma push_one:
  assumes "valid (data x)"
  shows "(\<exists>y. push_loop V ex cmd argi retry a x = Some (ERR_KV_STATUS, y) \<and> x_kstatus y \<noteq> KEY_OK \<and> x_out y = x_out x) \<or>
    (\<exists>st y r. push_loop V ex cmd argi retry a x = next_value V ex cmd argi r a st y \<and> valid (data y)
       \<and> (st, items (data y)) = push_spec cmd a (items (data x)) \<and> x_out y = x_out x \<and> x_ival y = x_ival x)"
  using assms
proof (induction "need (length (pa_value a)) - (1 + length (pa_value a) + retry)" arbitrary: x retry rule: less_induct)
  case less
  obtain st d where op: "push_op (le_list V) cmd a (data x) = (st, d)" by force
  note spec = push_op_spec [OF less.prems op]
  define x1 where "x1 = put_data (le_ops V) x d"
  have x1: "data x1 = d" "x_out x1 = x_out x" "x_ival x1 = x_ival x" using spec by (simp_all add: x1_def put_data_data)
  have ok: "push_spec cmd a xs \<noteq> (LIST_FULL, ys)" for xs ys
    by (cases cmd) (auto simp: push_spec_def split: option.splits)
  show ?case
  proof (cases "st = LIST_FULL")
    case False
    then have "push_loop V ex cmd argi retry a x = next_value V ex cmd argi retry a st x1"
      by (subst push_loop.simps) (simp add: op x1_def next_value_def Let_def)
    then show ?thesis using spec False x1 by metis
  next
    case True
    define x2 where "x2 = lx_realloc (ll_class (le_list V)) (le_ops V) (le_seg V) retry (1 + length (pa_value a)) x1"
    have loop: "push_loop V ex cmd argi retry a x =
        (if x_kstatus x2 = KEY_OK then push_loop V ex cmd argi (retry + 16) a x2 else Some (ERR_KV_STATUS, x2))"
      by (subst push_loop.simps) (simp add: op x1_def x2_def True Let_def)
    have out: "x_out x2 = x_out x" "x_ival x2 = x_ival x" using x1 by (simp_all add: x2_def)
    have full: "items d = items (data x)" using spec True ok by metis
    show ?thesis
    proof (cases "x_kstatus x2 = KEY_OK")
      case False
      then show ?thesis using loop out by metis
    next
      case kst: True
      have valid: "valid (data x1)" using spec x1 by simp
      note re = realloc_ok [OF valid kst [unfolded x2_def], folded x2_def]
      have d2: "valid (data x2)" "items (data x2) = items (data x)" using re full x1 by simp_all
      show ?thesis
      proof (cases "need (length (pa_value a)) \<le> 1 + length (pa_value a) + retry")
        case True
        then have room: "room (data x2) (length (pa_value a))" using re by simp
        obtain st2 d3 where op2: "push_op (le_list V) cmd a (data x2) = (st2, d3)" by force
        note spec2 = push_op_spec [OF d2(1) op2]
        define x3 where "x3 = put_data (le_ops V) x2 d3"
        have x3: "data x3 = d3" "x_out x3 = x_out x" "x_ival x3 = x_ival x" using spec2 out by (simp_all add: x3_def put_data_data)
        have st2: "(st2, items d3) = push_spec cmd a (items (data x2))" "st2 \<noteq> LIST_FULL" using spec2 room ok by metis+
        have "push_loop V ex cmd argi retry a x = next_value V ex cmd argi (retry + 16) a st2 x3"
          unfolding loop using kst st2(2) by (subst push_loop.simps) (simp add: op2 x3_def next_value_def Let_def)
        then show ?thesis using st2(1) spec2 x3 d2(2) by metis
      next
        case False
        then have "need (length (pa_value a)) - (1 + length (pa_value a) + (retry + 16)) < need (length (pa_value a)) - (1 + length (pa_value a) + retry)"
          by simp
        note IH = less.hyps [OF this d2(1)]
        then show ?thesis using loop kst d2(2) out by metis
      qed
    qed
  qed
qed

lemma push_loop_spec:
  assumes "valid (data x)" "map (get_arg_str (ex_msg ex)) [argi..<argc ex] = map Some vs"
  shows "\<exists>st y. push_loop V ex cmd argi retry a x = Some (st, y) \<and> x_out y = x_out x \<and>
    (st = ERR_KV_STATUS \<and> x_kstatus y \<noteq> KEY_OK \<or>
     (case push_all cmd a vs (items (data x)) of (ls, ys) \<Rightarrow> valid (data y) \<and> items (data y) = ys \<and> (st, x_ival y) = push_reply cmd ls ys (x_ival x)))"
  using assms
proof (induction vs arbitrary: x argi retry a)
  case Nil
  then have e: "\<not> argi < argc ex" by auto
  show ?case using push_one [OF Nil.prems(1), of ex cmd argi retry a]
  proof (elim disjE exE conjE)
    fix ls y r
    assume n: "push_loop V ex cmd argi retry a x = next_value V ex cmd argi r a ls y" "valid (data y)"
      "(ls, items (data y)) = push_spec cmd a (items (data x))" "x_out y = x_out x" "x_ival y = x_ival x"
    then show ?thesis using e
      by (cases cmd) (auto simp: next_value_def push_done_def push_reply_def count x_data_def split: prod.split)
  qed blast
next
  case (Cons v vs)
  then have e: "argi < argc ex" by (cases "argi < argc ex") simp_all
  then have v: "get_arg_str (ex_msg ex) argi = Some v" "map (get_arg_str (ex_msg ex)) [argi + 1..<argc ex] = map Some vs"
    using Cons.prems(2) by (simp_all add: upt_conv_Cons)
  show ?case using push_one [OF Cons.prems(1), of ex cmd argi retry a]
  proof (elim disjE exE conjE)
    fix ls y r
    assume n: "push_loop V ex cmd argi retry a x = next_value V ex cmd argi r a ls y" "valid (data y)"
      "(ls, items (data y)) = push_spec cmd a (items (data x))" "x_out y = x_out x" "x_ival y = x_ival x"
    show ?thesis
    proof (cases "cmd = DO_LPUSH \<or> cmd = DO_RPUSH")
      case True
      then have l: "push_loop V ex cmd argi retry a x = push_loop V ex cmd (argi + 1) r (a\<lparr>pa_value := v\<rparr>) y"
        using n(1) e v(1) by (simp add: next_value_def)
      have s: "push_all cmd a (v # vs) (items (data x)) = push_all cmd (a\<lparr>pa_value := v\<rparr>) vs (items (data y))"
        using True n(3) by (metis push_all.simps(2) snd_conv)
      have i: "push_reply cmd ls' ys iv = push_reply cmd ls' ys iv'" for ls' ys iv iv' using True by (auto simp: push_reply_def)
      show ?thesis using Cons.IH [OF n(2) v(2), of r "a\<lparr>pa_value := v\<rparr>"] unfolding l s n(4) i [of _ _ "x_ival x" "x_ival y"] by blast
    next
      case False
      then show ?thesis using n
        by (cases cmd) (auto simp: next_value_def push_done_def push_reply_def count x_data_def split: prod.split)
    qed
  qed blast
qed

end

lemma args_size_some: "map (get_arg_str (ex_msg ex)) js = map Some vs \<Longrightarrow> \<exists>n. args_size ex js nd = Some n"
  by (induction js arbitrary: vs nd) auto

context list_store
begin

lemma do_push_spec:
  assumes "push_args ex cmd value = Some (Some a)" "map (get_arg_str (ex_msg ex)) [3..<argc ex] = map Some vs"
    and "do_key_fetch (le_ops V) ex MD_LIST False x = Some (st, x1)" "fetched valid items [] (le_ops V) st x1 xs" "st \<noteq> KEY_NOT_FOUND"
  shows "\<exists>st' y. do_push V ex cmd False value x = Some (st', y) \<and> x_out y = x_out x1 \<and>
    (st' = ERR_KV_STATUS \<and> x_kstatus y \<noteq> KEY_OK \<or>
     (case push_all cmd a vs xs of (ls, ys) \<Rightarrow> valid (data y) \<and> items (data y) = ys \<and> (st', x_ival y) = push_reply cmd ls ys (x_ival x1)))"
proof (cases "st = KEY_OK")
  case True
  let ?x2 = "lx_open (le_seg V) x1"
  have d: "valid (data ?x2)" "items (data ?x2) = xs" using assms(4) True by (simp_all add: fetched_def)
  show ?thesis using push_loop_spec [OF d(1) assms(2), of cmd 0 a, unfolded d(2)] assms(1,3) True
    by (cases "x_kstatus ?x2 = KEY_OK") (simp_all add: do_push_def Let_def)
next
  case False
  then have new: "st = KEY_IS_NEW" "xs = []" using assms(4,5) by (auto simp: fetched_def)
  obtain n where n: "args_size ex [3..<argc ex] (1 + length (pa_value a)) = Some n" using args_size_some [OF assms(2)] by blast
  let ?x2 = "lx_create (ll_class (le_list V)) (le_ops V) MD_LIST (argc ex) n x1"
  show ?thesis
  proof (cases "x_kstatus ?x2 = KEY_OK")
    case True
    note c = create_ok [OF this]
    then show ?thesis using push_loop_spec [OF _ assms(2), of ?x2 cmd 0 a] assms(1,3) True n new
      by (simp add: do_push_def Let_def)
  next
    case False
    then show ?thesis using assms(1,3) n new by (simp add: do_push_def Let_def)
  qed
qed

end

section \<open>What the others do\<close>

fun remove_n :: "nat \<Rightarrow> 'a \<Rightarrow> 'a list \<Rightarrow> 'a list" where
  "remove_n 0 v xs = xs"
| "remove_n (Suc n) v [] = []"
| "remove_n (Suc n) v (x # xs) = (if x = v then remove_n n v xs else x # remove_n (Suc n) v xs)"

text \<open>LREM: so many from the front, from the back when the count is negative, all for a count of zero.\<close>

definition lrem_spec :: "int \<Rightarrow> 'a \<Rightarrow> 'a list \<Rightarrow> 'a list" where
  "lrem_spec i v xs =
     (if i < 0 then rev (remove_n (nat (- i)) v (rev xs)) else if i = 0 then filter (\<lambda>x. x \<noteq> v) xs else remove_n (nat i) v xs)"

text \<open>A range of a list by its ends.\<close>

definition range_of :: "int \<Rightarrow> int \<Rightarrow> 'a list \<Rightarrow> 'a list" where
  "range_of a b xs = take (nat (range_to (length xs) b - range_from (length xs) a)) (drop (nat (range_from (length xs) a)) xs)"

definition pop_spec :: "kv_util \<Rightarrow> redis_exec \<Rightarrow> list_pop \<Rightarrow> 'e xst \<Rightarrow> byte list list \<Rightarrow> exec_status \<times> int \<times> byte list \<times> byte list list" where
  "pop_spec U ex cmd x xs =
     (let iv = x_ival x; nil = if cmd = DO_RPOPLPUSH then EXEC_ABORT_SEND_NIL else EXEC_SEND_NIL;
          key = [42, 50] @ crlf @ send_string U True (ctx_key ex x) in
      case cmd of
        DO_LREM \<Rightarrow> let ys = lrem_spec (the (get_arg_int (ex_msg ex) 2)) (the (get_arg_str (ex_msg ex) 3)) xs in
          (EXEC_SEND_INT, int (length xs - length ys), [], ys)
      | DO_LTRIM \<Rightarrow> (EXEC_SEND_OK, iv, [], range_of (the (get_arg_int (ex_msg ex) 2)) (the (get_arg_int (ex_msg ex) 3)) xs)
      | _ \<Rightarrow> if xs = [] then (nil, iv, [], [])
          else (EXEC_OK, iv, (if cmd = DO_BLPOP \<or> cmd = DO_BRPOP then key else []) @
              send_string U True (if cmd = DO_LPOP \<or> cmd = DO_BLPOP then hd xs else last xs),
            if cmd = DO_LPOP \<or> cmd = DO_BLPOP then tl xs else butlast xs))"

lemma remove_n_skip: "v \<notin> set as \<Longrightarrow> remove_n n v (as @ xs) = as @ remove_n n v xs"
proof (induction as)
  case (Cons a as)
  then show ?case by (cases n) auto
qed simp

text \<open>A counter that is not positive never ends the loop: it removes all there are.\<close>

definition rem_count :: "int \<Rightarrow> 'a \<Rightarrow> 'a list \<Rightarrow> 'a list" where
  "rem_count i v xs = (if 0 < i then remove_n (nat i) v xs else filter (\<lambda>x. x \<noteq> v) xs)"

lemma rem_count_skip:
  assumes "v \<notin> set as"
  shows "rem_count i v (as @ xs) = as @ rem_count i v xs"
proof -
  have "filter (\<lambda>x. x \<noteq> v) as = as" using assms by (induction as) auto
  then show ?thesis using assms by (simp add: rem_count_def remove_n_skip)
qed

lemma rem_count_hit: "rem_count i v (v # xs) = (if i = 1 then xs else rem_count (i - 1) v xs)"
proof (cases "0 < i")
  case True
  then have "nat i = Suc (nat (i - 1))" by simp
  then show ?thesis using True by (auto simp: rem_count_def)
qed (simp add: rem_count_def)

lemma rem_count_none: "v \<notin> set xs \<Longrightarrow> rem_count i v xs = xs"
  using rem_count_skip [of v xs i "[]"] by (cases "nat i") (simp_all add: rem_count_def split: if_splits)

lemma rem_count_le: "length (rem_count i v xs) \<le> length xs"
proof (cases "0 < i")
  case True
  have "length (remove_n n v xs) \<le> length xs" for n by (induction n v xs rule: remove_n.induct) auto
  then show ?thesis using True by (simp add: rem_count_def)
qed (simp add: rem_count_def)

context md_list
begin

lemma lrem_fwd_spec:
  assumes "length (items d) < 2 ^ 62" "- (2 ^ 62) < i - int (length (items d) - p)" "int64_range i"
  shows "valid d \<Longrightarrow> p \<le> length (items d) \<Longrightarrow>
    \<exists>d'. lrem_fwd L v i p cnt d = Some (cnt + (length (items d) - length (items d')), d') \<and> valid d' \<and> length d' = length d
      \<and> items d' = take p (items d) @ rem_count i v (drop p (items d))"
  using assms
proof (induction "length (items d) - p" arbitrary: i p cnt d rule: less_induct)
  case less
  show ?case
  proof (cases "ll_scan_fwd L d v p")
    case None
    then have "v \<notin> set (drop p (items d))" using scan_fwd(2) less.prems by blast
    then show ?thesis using None less.prems by (subst lrem_fwd.simps) (simp add: rem_count_none)
  next
    case (Some k)
    let ?d = "ll_lrem L d k"
    note s = scan_fwd(1) [OF less.prems(1) Some]
    have k: "k < length (items d)" "p \<le> k" using s by blast+
    note r = lrem [OF less.prems(1) k(1)]
    have len: "length (items ?d) = length (items d) - 1" using r k by (simp add: del_nth_def)
    have to: "to_int64 (i - 1) = i - 1" using less.prems(4,5) k s by (intro to_int64_id) (simp add: int64_range_def)
    have parts: "drop p (items d) = take (k - p) (drop p (items d)) @ v # drop (k + 1) (items d)"
      using s k by (metis Cons_nth_drop_Suc Suc_eq_plus1 append_take_drop_id drop_drop le_add_diff_inverse2)
    have tk: "take k (items d) = take p (items d) @ take (k - p) (drop p (items d))"
      using s by (metis le_add_diff_inverse take_add)
    have hit: "take p (items d) @ rem_count i v (drop p (items d)) = take k (items d) @ (if i = 1 then drop (k + 1) (items d) else rem_count (i - 1) v (drop (k + 1) (items d)))"
      using rem_count_skip [of v "take (k - p) (drop p (items d))" i "v # drop (k + 1) (items d)"] s tk
      unfolding parts [symmetric] by (simp add: rem_count_hit del: drop_drop)
    have it: "take k (items ?d) = take k (items d)" "drop k (items ?d) = drop (k + 1) (items d)"
      using r k by (simp_all add: del_nth_def)
    show ?thesis
    proof (cases "i = 1")
      case True
      then have "lrem_fwd L v i p cnt d = Some (cnt + 1, ?d)" using Some to by (subst lrem_fwd.simps) simp
      then show ?thesis using True r hit len k by (auto simp: del_nth_def)
    next
      case False
      then have loop: "lrem_fwd L v i p cnt d = lrem_fwd L v (i - 1) k (cnt + 1) ?d"
        using Some to by (subst lrem_fwd.simps) (simp add: Let_def)
      have "length (items ?d) - k < length (items d) - p" using len k by linarith
      moreover have "- (2 ^ 62) < i - 1 - int (length (items ?d) - k)" using less.prems(4) len k by linarith
      moreover have "int64_range (i - 1)" using less.prems(4,5) k s by (simp add: int64_range_def)
      moreover have kl: "k \<le> length (items ?d)" "length (items ?d) < 2 ^ 62" using len k less.prems(3) by linarith+
      ultimately have "\<exists>d'. lrem_fwd L v (i - 1) k (cnt + 1) ?d = Some (cnt + 1 + (length (items ?d) - length (items d')), d')
          \<and> valid d' \<and> length d' = length ?d \<and> items d' = take k (items ?d) @ rem_count (i - 1) v (drop k (items ?d))"
        using less.hyps r by blast
      then obtain d' where d': "lrem_fwd L v (i - 1) k (cnt + 1) ?d = Some (cnt + 1 + (length (items ?d) - length (items d')), d')"
        "valid d'" "length d' = length ?d" "items d' = take k (items ?d) @ rem_count (i - 1) v (drop k (items ?d))" by blast
      have "length (items d') \<le> length (items ?d)"
        using rem_count_le [of "i - 1" v "drop k (items ?d)"] kl(1) unfolding d'(4) length_append by simp
      then show ?thesis using loop d' r hit it False len k by auto
    qed
  qed
qed

lemma lrem_rev_spec:
  assumes "i < 0"
  shows "valid d \<Longrightarrow> p \<le> length (items d) \<Longrightarrow>
    \<exists>d'. lrem_rev L v i p cnt d = Some (cnt + (length (items d) - length (items d')), d') \<and> valid d' \<and> length d' = length d
      \<and> items d' = rev (remove_n (nat (- i)) v (rev (take p (items d)))) @ drop p (items d)"
  using assms
proof (induction p arbitrary: i cnt d rule: less_induct)
  case (less p)
  have none: "v \<notin> set as \<Longrightarrow> remove_n n v as = as" for n as
    using remove_n_skip [of v as n "[]"] by (cases n) simp_all
  show ?case
  proof (cases "ll_scan_rev L d v p")
    case None
    then have "v \<notin> set (take p (items d))" using scan_rev(2) less.prems by blast
    then show ?thesis using None less.prems none by (subst lrem_rev.simps) simp
  next
    case (Some k)
    let ?d = "ll_lrem L d k"
    note s = scan_rev(1) [OF less.prems(1,2) Some]
    have k: "k < p" "k < length (items d)" using s less.prems(2) by simp_all
    note r = lrem [OF less.prems(1) k(2)]
    define mid where "mid = drop (k + 1) (take p (items d))"
    have parts: "take p (items d) = take k (items d) @ v # mid"
      using s k less.prems(2) id_take_nth_drop [of k "take p (items d)"] by (simp add: min_def mid_def del: drop_take)
    have hit: "rev (remove_n (nat (- i)) v (rev (take p (items d)))) =
        rev (remove_n (nat (- (i + 1))) v (rev (take k (items d)))) @ mid"
    proof -
      have "nat (- i) = Suc (nat (- (i + 1)))" using less.prems(3) by simp
      then show ?thesis using remove_n_skip [of v "rev mid" "nat (- i)" "v # rev (take k (items d))"] s [folded mid_def]
        unfolding parts by simp
    qed
    have it: "take k (items ?d) = take k (items d)" "drop k (items ?d) = mid @ drop p (items d)"
      using r k less.prems(2) by (simp_all add: del_nth_def mid_def drop_take) (metis append_take_drop_id drop_drop le_add_diff_inverse2 Suc_leI add.commute plus_1_eq_Suc)
    have len: "length (items ?d) = length (items d) - 1" using r k by (simp add: del_nth_def)
    show ?thesis
    proof (cases "i + 1 = 0")
      case True
      then have "lrem_rev L v i p cnt d = Some (cnt + 1, ?d)" using Some by (subst lrem_rev.simps) simp
      moreover have "items ?d = take k (items d) @ mid @ drop p (items d)" using it append_take_drop_id [of k "items ?d"] by metis
      ultimately show ?thesis using True r hit len k by auto
    next
      case False
      then have loop: "lrem_rev L v i p cnt d = lrem_rev L v (i + 1) k (cnt + 1) ?d"
        using Some by (subst lrem_rev.simps) (simp add: Let_def)
      have kl: "k \<le> length (items ?d)" "i + 1 < 0" using len k less.prems(3) False by linarith+
      then obtain d' where d': "lrem_rev L v (i + 1) k (cnt + 1) ?d = Some (cnt + 1 + (length (items ?d) - length (items d')), d')"
        "valid d'" "length d' = length ?d" "items d' = rev (remove_n (nat (- (i + 1))) v (rev (take k (items ?d)))) @ drop k (items ?d)"
        using less.IH [OF k(1)] r by blast
      have short: "length (remove_n n v as) \<le> length as" for n as by (induction n v as rule: remove_n.induct) auto
      have "length (items d') = length (remove_n (nat (- (i + 1))) v (rev (take k (items ?d)))) + (length (items ?d) - k)"
        unfolding d'(4) by simp
      moreover have "length (rev (take k (items ?d))) = k" using kl(1) by simp
      ultimately have "length (items d') \<le> length (items ?d)"
        using short [of "nat (- (i + 1))" "rev (take k (items ?d))"] kl(1) by linarith
      then have "cnt + 1 + (length (items ?d) - length (items d')) = cnt + (length (items d) - length (items d'))"
        using len k by linarith
      moreover have "items d' = rev (remove_n (nat (- i)) v (rev (take p (items d)))) @ drop p (items d)"
        unfolding d'(4) hit it by simp
      ultimately show ?thesis using loop d'(1-3) r by auto
    qed
  qed
qed

end

text \<open>The key behind a command that takes elements out: it holds what is left, or an empty list was removed.
  LREM does not remove one.\<close>

definition list_left :: "'e list_env \<Rightarrow> (byte list \<Rightarrow> bool) \<Rightarrow> (byte list \<Rightarrow> byte list list) \<Rightarrow> list_pop \<Rightarrow> byte list list \<Rightarrow> 'e xst
    \<Rightarrow> byte list list \<Rightarrow> bool" where
  "list_left V valid items cmd xs y ys \<longleftrightarrow>
     ys = [] \<and> EKF_KEYSPACE_DEL \<in> x_flags y \<and> (\<exists>e. sg_tombstone (le_seg V) e = (KEY_OK, x_ent y))
     \<or> valid (x_data (le_ops V) y) \<and> items (x_data (le_ops V) y) = ys \<and> (ys = [] \<longrightarrow> xs = [] \<or> cmd = DO_LREM)"

lemma range_bounds: "0 \<le> range_from n a" "range_from n a \<le> int n" "0 \<le> range_to n b" "range_to n b \<le> int n"
  by (simp_all add: range_from_def range_to_def)

text \<open>The result of a command that takes elements out: the key store failed, or it is what the list operation gives.\<close>

definition pop_ok :: "'e list_env \<Rightarrow> (byte list \<Rightarrow> bool) \<Rightarrow> (byte list \<Rightarrow> byte list list) \<Rightarrow> redis_exec \<Rightarrow> list_pop \<Rightarrow> 'e xst \<Rightarrow> byte list list \<Rightarrow> exec_status \<times> 'e xst \<Rightarrow> bool" where
  "pop_ok V valid items ex cmd x xs r \<longleftrightarrow> (case r of (st, y) \<Rightarrow>
     st = ERR_KV_STATUS \<and> x_kstatus y \<noteq> KEY_OK \<or>
     (case pop_spec (le_util V) ex cmd x xs of (st1, iv, out, ys) \<Rightarrow>
        st = st1 \<and> x_ival y = iv \<and> x_out y = x_out x @ out \<and> list_left V valid items cmd xs y ys))"

context list_store
begin

lemma pop_list_ok:
  assumes "valid (data x)" "x_strm_ok x" "cmd \<noteq> DO_LREM" "cmd \<noteq> DO_LTRIM"
  shows "pop_ok V valid items ex cmd x (items (data x)) (pop_list V ex cmd x)"
proof -
  let ?front = "cmd = DO_LPOP \<or> cmd = DO_BLPOP" and ?xs = "items (data x)"
  obtain ls v v2 d where op: "(if ?front then ll_lpop (le_list V) (data x) else ll_rpop (le_list V) (data x)) = (ls, (v, v2), d)"
    by (metis prod_cases3 surj_pair)
  have res: "valid d \<and> length d = length (data x) \<and> (if ?xs = [] then ls = LIST_NOT_FOUND \<and> items d = []
      else ls = LIST_OK \<and> v @ v2 = (if ?front then hd ?xs else last ?xs) \<and> items d = (if ?front then tl ?xs else butlast ?xs))"
    using lpop [OF assms(1), of ls v v2 d] rpop [OF assms(1), of ls v v2 d] op by (cases ?front) (auto split: list.splits)
  define x1 where "x1 = put_data (le_ops V) x d"
  have d: "data x1 = d" "x_out x1 = x_out x" "x_ival x1 = x_ival x" "x_strm_ok x1" "ctx_key ex x1 = ctx_key ex x"
    using res assms(2) by (simp_all add: x1_def put_data_data ctx_key_def)
  show ?thesis
  proof (cases "?xs = []")
    case True
    then have "pop_list V ex cmd x = (if cmd = DO_RPOPLPUSH then EXEC_ABORT_SEND_NIL else EXEC_SEND_NIL, x1)"
      using res op by (simp add: pop_list_def Let_def x1_def)
    then show ?thesis using res d True assms(3,4)
      by (cases cmd) (simp_all add: pop_ok_def pop_spec_def list_left_def)
  next
    case False
    define x2 where "x2 = keyspace_list (send (send_concat_string (le_util V) True v v2)
        (if cmd = DO_BLPOP \<or> cmd = DO_BRPOP then send ([42, 50] @ crlf @ send_string (le_util V) True (ctx_key ex x)) x1 else x1))"
    have x2: "data x2 = d" "x_ival x2 = x_ival x" "x_out x2 = x_out x @ (if cmd = DO_BLPOP \<or> cmd = DO_BRPOP
        then [42, 50] @ crlf @ send_string (le_util V) True (ctx_key ex x) else []) @ send_string (le_util V) True (v @ v2)"
      using d by (simp_all add: x2_def x_data_def send_concat)
    have em: "ll_count (le_list V) (data x2) = 0 \<longleftrightarrow> items d = []" using count res unfolding x2(1) by simp
    have ls: "ls \<noteq> LIST_NOT_FOUND" using res False by simp
    have "pop_list V ex cmd x = remove_empty (le_seg V) (ll_count (le_list V) (data x2) = 0) EXEC_OK x2"
      unfolding pop_list_def Let_def op prod.case x1_def [symmetric] using ls d(4) d(5) by (simp add: x2_def)
    then have eq: "pop_list V ex cmd x = remove_empty (le_seg V) (items d = []) EXEC_OK x2" using em by simp
    show ?thesis unfolding eq
      by (rule remove_empty_cases [of "items d = []" "le_seg V" EXEC_OK x2])
        (use res False x2 assms(3,4) in \<open>cases cmd; auto simp: pop_ok_def pop_spec_def list_left_def\<close>)+
  qed
qed

lemma ltrim_list_ok:
  assumes "valid (data x)" "a = the (get_arg_int (ex_msg ex) 2)" "b = the (get_arg_int (ex_msg ex) 3)"
  shows "pop_ok V valid items ex DO_LTRIM x (items (data x)) (ltrim_list V a b x)"
proof -
  let ?xs = "items (data x)"
  define n s e where "n = length ?xs" and "s = range_from n a" and "e = range_to n b"
  have b: "0 \<le> s" "s \<le> int n" "0 \<le> e" "e \<le> int n" unfolding s_def e_def by (rule range_bounds)+
  define d1 where "d1 = (if s > 0 then ll_ltrim (le_list V) (data x) (nat s) else data x)"
  define d2 where "d2 = (if int n - e > 0 then ll_rtrim (le_list V) d1 (nat (int n - e)) else d1)"
  have d1: "valid d1 \<and> length d1 = length (data x) \<and> items d1 = drop (nat s) ?xs"
    using ltrim [OF assms(1), of "nat s"] assms(1) b by (auto simp: d1_def)
  then have d2: "valid d2 \<and> length d2 = length (data x) \<and> items d2 = take (nat (e - s)) (drop (nat s) ?xs)"
    using rtrim [of d1 "nat (int n - e)"] b by (auto simp: d2_def n_def nat_diff_distrib')
  have cut: "ll_count (le_list V) (data x) = n" using count assms(1) by (simp add: n_def)
  have ys: "range_of a b ?xs = items d2" using d2 by (simp add: range_of_def s_def e_def n_def)
  show ?thesis
  proof (cases "s > 0 \<or> int n - e > 0")
    case False
    then have "ltrim_list V a b x = (EXEC_SEND_OK, keyspace_list x)"
      by (simp add: ltrim_list_def Let_def cut s_def e_def)
    moreover have "items d2 = ?xs" using False b d2 by (simp add: n_def)
    ultimately show ?thesis using assms ys by (simp add: pop_ok_def pop_spec_def list_left_def)
  next
    case True
    define x2 where "x2 = put_data (le_ops V) (keyspace_list x) d2"
    have x2: "data x2 = d2" "x_out x2 = x_out x" "x_ival x2 = x_ival x" using d2 by (simp_all add: x2_def put_data_data)
    have eq: "ltrim_list V a b x = remove_empty (le_seg V) (s + (int n - e) \<ge> int n) EXEC_SEND_OK x2"
      using True by (simp add: ltrim_list_def Let_def cut s_def e_def x2_def d2_def d1_def)
    have em: "s + (int n - e) \<ge> int n \<longleftrightarrow> items d2 = []" using d2 b by (auto simp: n_def)
    show ?thesis unfolding eq em
      by (rule remove_empty_cases [of "items d2 = []" "le_seg V" EXEC_SEND_OK x2])
        (use d2 x2 assms(2,3) ys in \<open>auto simp: pop_ok_def pop_spec_def list_left_def\<close>)
  qed
qed

lemma lrem_list_ok:
  assumes "valid (data x)" "length (items (data x)) < 2 ^ 62" "i = the (get_arg_int (ex_msg ex) 2)" "v = the (get_arg_str (ex_msg ex) 3)"
    and "int64_range i"
  shows "\<exists>r. lrem_list V i v x = Some r \<and> pop_ok V valid items ex DO_LREM x (items (data x)) r"
proof -
  let ?xs = "items (data x)"
  have spec: "lrem_spec i v ?xs = (if i < 0 then rev (remove_n (nat (- i)) v (rev ?xs)) else rem_count i v ?xs)"
    by (simp add: lrem_spec_def rem_count_def)
  have "\<exists>d'. (if i < 0 then lrem_rev (le_list V) v i (ll_count (le_list V) (data x)) 0 (data x) else lrem_fwd (le_list V) v i 0 0 (data x))
      = Some (length ?xs - length (items d'), d') \<and> valid d' \<and> length d' = length (data x) \<and> items d' = lrem_spec i v ?xs"
    using lrem_rev_spec [of i "data x" "length ?xs" v 0] lrem_fwd_spec [of "data x" i 0 v 0] assms(1,2,5) count [OF assms(1)]
    unfolding spec by (auto simp: int64_range_def)
  then obtain d where d: "(if i < 0 then lrem_rev (le_list V) v i (ll_count (le_list V) (data x)) 0 (data x) else lrem_fwd (le_list V) v i 0 0 (data x))
      = Some (length ?xs - length (items d), d)" "valid d" "length d = length (data x)" "items d = lrem_spec i v ?xs" by blast
  define x1 where "x1 = (put_data (le_ops V) x d)\<lparr>x_ival := int (length ?xs - length (items d))\<rparr>"
  have "data x1 = d" "x_out x1 = x_out x" "x_ival x1 = int (length ?xs - length (items d))"
    using d(3) put_data_data [of d x] by (simp_all add: x1_def x_data_def)
  moreover have "lrem_list V i v x = Some (EXEC_SEND_INT, if length ?xs - length (items d) > 0 then keyspace_list x1 else x1)"
    unfolding lrem_list_def d(1) by (simp add: x1_def)
  ultimately show ?thesis using d(2,4) by (simp add: pop_ok_def pop_spec_def list_left_def Let_def flip: assms(3,4))
qed

lemma do_pop_spec:
  assumes "do_key_fetch (le_ops V) ex MD_LIST False x = Some (KEY_OK, x1)" "valid (data x1)" "items (data x1) = xs"
    and "cmd = DO_LREM \<Longrightarrow> get_arg_int (ex_msg ex) 2 = Some i \<and> get_arg_str (ex_msg ex) 3 \<noteq> None \<and> int64_range i"
    and "cmd = DO_LTRIM \<Longrightarrow> get_arg_int (ex_msg ex) 2 \<noteq> None \<and> get_arg_int (ex_msg ex) 3 \<noteq> None"
    and "x_strm_ok x1" "length xs < 2 ^ 62"
  shows "\<exists>r. do_pop V ex cmd x = Some r \<and> pop_ok V valid items ex cmd x1 xs r"
proof -
  let ?x2 = "lx_open (le_seg V) x1"
  have same: "pop_ok V valid items ex cmd ?x2 ys r \<Longrightarrow> pop_ok V valid items ex cmd x1 ys r" for ys r
    by (simp add: pop_ok_def pop_spec_def ctx_key_def Let_def)
  have noargs: "\<not> (cmd = DO_LREM \<and> (get_arg_int (ex_msg ex) 2 = None \<or> get_arg_str (ex_msg ex) 3 = None)
      \<or> cmd = DO_LTRIM \<and> (get_arg_int (ex_msg ex) 2 = None \<or> get_arg_int (ex_msg ex) 3 = None))" using assms(4,5) by auto
  have eq: "do_pop V ex cmd x = (if x_kstatus ?x2 \<noteq> KEY_OK then Some (ERR_KV_STATUS, ?x2)
      else if cmd = DO_LREM then lrem_list V (the (get_arg_int (ex_msg ex) 2)) (the (get_arg_str (ex_msg ex) 3)) ?x2
      else Some (if cmd = DO_LTRIM then ltrim_list V (the (get_arg_int (ex_msg ex) 2)) (the (get_arg_int (ex_msg ex) 3)) ?x2
        else pop_list V ex cmd ?x2))"
    unfolding do_pop_def Let_def if_not_P [OF noargs] by (simp add: assms(1))
  have d: "valid (data ?x2)" "items (data ?x2) = xs" "x_strm_ok ?x2" using assms(2,3,6) by simp_all
  show ?thesis
  proof (cases "x_kstatus ?x2 = KEY_OK")
    case False
    then show ?thesis unfolding eq by (simp add: pop_ok_def)
  next
    case True
    consider "cmd = DO_LREM" | "cmd = DO_LTRIM" | "cmd \<noteq> DO_LREM" "cmd \<noteq> DO_LTRIM" by blast
    then show ?thesis
    proof cases
      case 1
      then show ?thesis using lrem_list_ok [OF d(1), of _ ex] d(2) assms(4,7) True same unfolding eq by fastforce
    next
      case 2
      then show ?thesis using ltrim_list_ok [OF d(1) refl refl, of ex] d(2) True same unfolding eq by simp
    next
      case 3
      then show ?thesis using pop_list_ok [OF d(1,3), of cmd ex] d(2) True same unfolding eq by simp
    qed
  qed
qed

end

section \<open>Ranges\<close>

context list_store
begin

lemma range_loop_spec:
  assumes "valid d"
  shows "k + n \<le> length (items d) \<Longrightarrow> range_loop V True d (int k) n cnt q =
    Some (cnt + n, q @ concat (map (\<lambda>v. append_string (le_util V) v []) (take n (drop k (items d)))))"
proof (induction n arbitrary: k cnt q)
  case (Suc n)
  have k: "k < length (items d)" using Suc.prems by simp
  obtain ls v v2 where l: "ll_lindex (le_list V) d (int k) = (ls, v, v2)" by (metis prod_cases3)
  have "index_of (length (items d)) (int k) = Some k" using k by (simp add: index_of_def)
  then have v: "ls = LIST_OK" "v @ v2 = items d ! k" using lindex [OF assms l] by simp_all
  have a: "append_string (le_util V) v v2 = append_string (le_util V) (items d ! k) []" using append_concat v(2) by metis
  have t: "take (Suc n) (drop k (items d)) = items d ! k # take n (drop (k + 1) (items d))"
    using k by (simp add: Cons_nth_drop_Suc [symmetric])
  show ?case using Suc.IH [of "k + 1" "cnt + 1" "q @ append_string (le_util V) (items d ! k) []"] Suc.prems
    by (simp add: l v(1) a t add.commute)
qed simp

lemma lrange_reply_ok:
  assumes "found \<Longrightarrow> valid (data x) \<and> items (data x) = xs" "\<not> found \<Longrightarrow> xs = []" "x_strm_ok x"
  shows "\<exists>st' y. lrange_reply V a b found x = (st', y) \<and> (st' = ERR_KV_STATUS \<and> x_kstatus y \<noteq> KEY_OK \<or>
    st' = EXEC_OK \<and> x_out y = x_out x @ list_array (le_util V) (range_of a b xs) \<and> x_ent y = x_ent x)"
proof -
  define s e where "s = range_from (length xs) a" and "e = range_to (length xs) b"
  have b: "0 \<le> s" "s \<le> int (length xs)" "0 \<le> e" "e \<le> int (length xs)" unfolding s_def e_def by (rule range_bounds)+
  have r: "range_of a b xs = take (nat (e - s)) (drop (nat s) xs)" by (simp add: range_of_def s_def e_def)
  let ?n = "ll_count (le_list V) (data x)"
  have loop: "(if found \<and> 0 < ?n then range_loop V True (data x) (range_from ?n a) (nat (range_to ?n b - range_from ?n a)) 0 [] else Some (0, []))
    = Some (length (range_of a b xs), concat (map (\<lambda>v. append_string (le_util V) v []) (range_of a b xs)))"
  proof (cases "found \<and> xs \<noteq> []")
    case True
    then have d: "valid (data x)" "items (data x) = xs" using assms(1) by blast+
    have c: "?n = length xs" using count [OF d(1)] d(2) by simp
    have "nat s + nat (e - s) \<le> length xs \<or> nat (e - s) = 0" using b by (cases "s \<le> e") auto
    then have "range_loop V True (data x) s (nat (e - s)) 0 [] =
        Some (nat (e - s), concat (map (\<lambda>v. append_string (le_util V) v []) (range_of a b xs)))"
      using range_loop_spec [OF d(1), of "nat s" "nat (e - s)" 0 "[]"] d(2) b r by auto
    moreover have "length (range_of a b xs) = nat (e - s)" using b unfolding r by auto
    ultimately show ?thesis using True unfolding c s_def e_def by simp
  next
    case False
    then have "xs = []" "\<not> (found \<and> 0 < ?n)" using assms(1,2) count [of "data x"] by auto
    then show ?thesis by (simp only: if_False) (simp add: range_of_def)
  qed
  have ok: "x_strm_ok x = True" using assms(3) by simp
  show ?thesis unfolding lrange_reply_def Let_def ok loop option.case prod.case list_array_def
    by (simp add: k_validate_def)
qed

lemma exec_lrange_spec:
  assumes "get_arg_int (ex_msg ex) 2 = Some a" "get_arg_int (ex_msg ex) 3 = Some b"
    and "do_key_fetch (le_ops V) ex MD_LIST True x = Some (st, x1)" "fetched valid items [] (le_ops V) st x1 xs" "st \<noteq> KEY_IS_NEW"
    and "x_strm_ok x1"
  shows "\<exists>st' y. exec_lrange V ex x = Some (st', y) \<and> (st' = ERR_KV_STATUS \<and> x_kstatus y \<noteq> KEY_OK \<or>
    st' = EXEC_OK \<and> x_out y = x_out x1 @ list_array (le_util V) (range_of a b xs) \<and> x_ent y = x_ent x1)"
proof (cases "st = KEY_OK")
  case True
  then have "valid (data x1) \<and> items (data x1) = xs" using assms(4) by (auto simp: fetched_def)
  then show ?thesis using lrange_reply_ok [of True "lx_open_readonly (le_seg V) x1" xs a b] assms(1-3,6) True
    by (simp add: exec_lrange_def Let_def)
next
  case False
  then have "st = KEY_NOT_FOUND" "xs = []" using assms(4,5) by (auto simp: fetched_def)
  then show ?thesis using lrange_reply_ok [of False x1 xs a b] assms(1-3,6) by (simp add: exec_lrange_def)
qed

end

section \<open>From list to list\<close>

lemma value_start_at:
  assumes "\<And>k. i \<le> k \<Longrightarrow> k < n \<Longrightarrow> buf ! (k - 2) \<noteq> 13" "buf ! (n - 2) = 13" "i \<le> n" "n + 2 \<le> length buf"
  shows "value_start buf i = n"
  using assms(1,3)
proof (induction "n - i" arbitrary: i)
  case 0
  then show ?case using assms(2) by (subst value_start.simps) simp
next
  case (Suc m)
  then have "value_start buf (i + 1) = n" by simp
  then show ?case using Suc assms(4) by (subst value_start.simps) simp
qed

text \<open>The bytes that are read back from the reply of the pop.\<close>

lemma popped_value:
  assumes "kv_format U" "v \<noteq> []" "length v < 2 ^ 64"
  defines "buf \<equiv> send_string U True v"
  shows "value_start buf 4 + 2 < length buf" "take (length buf - (value_start buf 4 + 2)) (drop (value_start buf 4) buf) = v"
proof -
  let ?ds = "uint64_to_string U (length v)"
  have ds: "?ds = dec_nat (length v)" using kv_format.u2s [OF assms(1,3)] .
  have no: "13 \<notin> set ?ds" "?ds \<noteq> []" using dec_nat_digits [of 13 "length v"] unfolding ds by (auto simp: is_digit_def)
  have buf: "buf = 36 # ?ds @ [13, 10] @ v @ [13, 10]" by (simp add: buf_def send_string_def crlf_def)
  have at: "value_start buf 4 = length ?ds + 3"
  proof (rule value_start_at)
    fix k assume k: "4 \<le> k" "k < length ?ds + 3"
    define m where "m = k - 3"
    have m: "k = m + 3" "m < length ?ds" using k by (auto simp: m_def)
    have "buf ! (k - 2) = ?ds ! m" using m unfolding buf by (simp add: nth_append)
    then show "buf ! (k - 2) \<noteq> 13" using no(1) m(2) nth_mem by metis
  next
    show "buf ! (length ?ds + 3 - 2) = 13" unfolding buf by (simp add: nth_append)
  qed (use no(2) in \<open>auto simp: buf Suc_le_eq\<close>)
  show "value_start buf 4 + 2 < length buf" "take (length buf - (value_start buf 4 + 2)) (drop (value_start buf 4) buf) = v"
    using assms(2) drop_append [of "length ?ds + 3" "36 # ?ds @ [13, 10]" "v @ [13, 10]"] unfolding at by (simp_all add: buf)
qed

section \<open>Properties\<close>


definition mem_lists :: "mem_entry list_env" where
  "mem_lists = \<lparr>le_list = mem_list, le_util = int_str_util, le_ops = mem_ops, le_seg = mem_seg, le_timeout = (\<lambda>_. 0)\<rparr>"

lemma mem_lists_sel [simp]:
  "le_list mem_lists = mem_list" "le_util mem_lists = int_str_util" "le_ops mem_lists = mem_ops" "le_seg mem_lists = mem_seg"
  by (simp_all add: mem_lists_def)

interpretation mem_lists: list_store mem_lists mem_wf mem_items mem_room "\<lambda>n. n"
  unfolding list_store_def mem_lists_sel
  using mem_list.md_list_axioms mem_seg.seg_entry_axioms by (simp add: list_ctx_def md_list_def)

text \<open>A key with a list that fills its memory but for some bytes.\<close>

definition sample_list :: "nat \<Rightarrow> byte list list \<Rightarrow> mem_entry xst" where
  "sample_list n vs = (sample_key (fill n (pack_items vs)))\<lparr>x_ent := \<lparr>me_exists = True, me_type = MD_LIST,
     me_data = fill n (pack_items vs), me_expires = 0, me_now = 5\<rparr>\<rparr>"

lemma sample_list_fetch:
  "do_key_fetch mem_ops (sample_write args) MD_LIST False (sample_list n vs) = Some (KEY_OK, (sample_list n vs)\<lparr>x_type := MD_LIST\<rparr>)"
  "do_key_fetch mem_ops (sample_read args) MD_LIST True (sample_list n vs)
    = Some (KEY_OK, (sample_list n vs)\<lparr>x_flags := {EKF_IS_READ_ONLY}, x_type := MD_LIST\<rparr>)"
  "x_data mem_ops (sample_list n vs) = fill n (pack_items vs)"
  "x_strm_ok (sample_list n vs)" "x_out (sample_list n vs) = []" "x_argn (sample_list n vs) = 1"
  by (simp_all add: do_key_fetch_def exec_key_fetch_def acquire_key_def sample_write_def sample_read_def sample_exec_def sample_list_def
      sample_key_def mem_ops_def x_data_def Let_def find_loop.simps)

lemma sample_list_holds:
  "length (pack_items vs) \<le> n \<Longrightarrow> fetched mem_wf mem_items [] mem_ops KEY_OK ((sample_list n vs)\<lparr>x_type := ty\<rparr>) vs"
  "length (pack_items vs) \<le> n \<Longrightarrow> fetched mem_wf mem_items [] mem_ops KEY_OK ((sample_list n vs)\<lparr>x_flags := fl, x_type := ty\<rparr>) vs"
  using sample_list_fetch(3) [of n vs] by (simp_all add: fetched_def x_data_def)



lemma sample_list_at:
  "length (pack_items vs) \<le> n \<Longrightarrow> mem_wf (x_data mem_ops ((sample_list n vs)\<lparr>x_type := ty\<rparr>))"
  "length (pack_items vs) \<le> n \<Longrightarrow> mem_items (x_data mem_ops ((sample_list n vs)\<lparr>x_type := ty\<rparr>)) = vs"
  using sample_list_fetch(3) [of n vs] by (simp_all add: x_data_def)


text \<open>LRANGE replies with the elements of the range, its ends clipped to the list and counted from the end
  when they are negative, as an array of bulk strings; a key that is not there gives an empty array.\<close>

theorem lrange_replies:
  assumes "list_store V valid items room need"
    and "get_arg_int (ex_msg ex) 2 = Some a" "get_arg_int (ex_msg ex) 3 = Some b"
    and "do_key_fetch (le_ops V) ex MD_LIST True x = Some (st, x1)" "fetched valid items [] (le_ops V) st x1 xs" "st \<noteq> KEY_IS_NEW"
    and "x_strm_ok x1"
  shows "\<exists>st' y. exec_lrange V ex x = Some (st', y) \<and> (st' = ERR_KV_STATUS \<and> x_kstatus y \<noteq> KEY_OK \<or>
    st' = EXEC_OK \<and> x_out y = x_out x1 @ list_array (le_util V) (range_of a b xs) \<and> x_ent y = x_ent x1)"
  by (rule list_store.exec_lrange_spec [OF assms])

theorem lrange_replies_witness:
  "\<exists>st y. exec_lrange mem_lists (sample_read [''lrange'', ''k'', ''-2'', ''-1'']) (sample_list 20 [[97], [98], [99]]) = Some (st, y) \<and>
    (st = ERR_KV_STATUS \<and> x_kstatus y \<noteq> KEY_OK \<or> st = EXEC_OK \<and> x_out y = list_array int_str_util [[98], [99]])"
proof -
  let ?ex = "sample_read [''lrange'', ''k'', ''-2'', ''-1'']" and ?xs = "[[97], [98], [99]] :: byte list list"
  have i: "get_arg_int (ex_msg ?ex) 2 = Some (- 2)" "get_arg_int (ex_msg ?ex) 3 = Some (- 1)"
    by (simp_all add: sample_int sample_arg ascii_def) (code_simp, code_simp)
  have r: "range_of (- 2) (- 1) ?xs = [[98], [99]]" by code_simp
  have "\<exists>st' y. exec_lrange mem_lists ?ex (sample_list 20 ?xs) = Some (st', y) \<and> (st' = ERR_KV_STATUS \<and> x_kstatus y \<noteq> KEY_OK \<or>
    st' = EXEC_OK \<and> x_out y = x_out ((sample_list 20 ?xs)\<lparr>x_flags := {EKF_IS_READ_ONLY}, x_type := MD_LIST\<rparr>) @
      list_array (le_util mem_lists) (range_of (- 2) (- 1) ?xs)
    \<and> x_ent y = x_ent ((sample_list 20 ?xs)\<lparr>x_flags := {EKF_IS_READ_ONLY}, x_type := MD_LIST\<rparr>))"
    by (rule lrange_replies [OF mem_lists.list_store_axioms i, where st = KEY_OK])
      (use sample_list_holds(2) [of ?xs 20] in \<open>simp_all add: sample_list_fetch\<close>)
  then show ?thesis by (auto simp: r sample_list_fetch)
qed

text \<open>C21: RPOPLPUSH moves an element. When nothing else waits in the output buffer, the value that the second
  half reads back from the reply of the first is the element that was popped: it leaves the end of one list
  and heads the other.\<close>

theorem rpoplpush_moves:
  assumes "list_store V valid items room need" "kv_format (le_util V)"
    and "x_argn x = 1" "do_key_fetch (le_ops V) ex MD_LIST False x = Some (KEY_OK, x1)" "valid (x_data (le_ops V) x1)"
      "items (x_data (le_ops V) x1) = xs" "xs \<noteq> []" "last xs \<noteq> []" "length (last xs) < 2 ^ 64" "x_strm_ok x1" "length xs < 2 ^ 62"
    and "exec_rpoplpush V ex fl x = Some (EXEC_OK, y)" "fl = length (x_out x1)"
    and "x_argn z = 2" "key_cnt ex' = key_done ex' + 1" "x_out z = x_out y" "map (get_arg_str (ex_msg ex')) [3..<argc ex'] = map Some vs"
      "do_key_fetch (le_ops V) ex' MD_LIST False z = Some (st, z1)" "fetched valid items [] (le_ops V) st z1 ys" "st \<noteq> KEY_NOT_FOUND"
  shows "x_out y = x_out x1 @ send_string (le_util V) True (last xs) \<and> list_left V valid items DO_RPOPLPUSH xs y (butlast xs) \<and>
    (\<exists>st' w. exec_rpoplpush V ex' fl z = Some (st', w) \<and> x_out w = x_out z1 \<and> (st' = ERR_KV_STATUS \<and> x_kstatus w \<noteq> KEY_OK \<or>
      st' = EXEC_OK \<and> valid (x_data (le_ops V) w) \<and> items (x_data (le_ops V) w) = last xs # ys))"
proof -
  have "do_pop V ex DO_RPOPLPUSH x = Some (EXEC_OK, y)" using assms(3,12) by (simp add: exec_rpoplpush_def)
  then have "pop_ok V valid items ex DO_RPOPLPUSH x1 xs (EXEC_OK, y)"
    using list_store.do_pop_spec [OF assms(1,4-6), of DO_RPOPLPUSH] assms(10,11) by auto
  then have y: "x_out y = x_out x1 @ send_string (le_util V) True (last xs)" "list_left V valid items DO_RPOPLPUSH xs y (butlast xs)"
    using assms(7) by (simp_all add: pop_ok_def pop_spec_def Let_def)
  define a where "a = \<lparr>pa_piv = [], pa_after = False, pa_pos = 0, pa_value = last xs\<rparr>"
  have args: "push_args ex' DO_RPOPLPUSH_DEST (last xs) = Some (Some a)" by (simp add: push_args_def a_def)
  have all: "push_all DO_RPOPLPUSH_DEST a vs ys = (LIST_OK, last xs # ys)" by (cases vs) (simp_all add: push_spec_def a_def)
  have "drop fl (x_out z) = send_string (le_util V) True (last xs)" using assms(13,16) y(1) by simp
  then have "exec_rpoplpush V ex' fl z = do_push V ex' DO_RPOPLPUSH_DEST False (last xs) z"
    using popped_value [OF assms(2,8,9)] assms(14,15) by (simp add: exec_rpoplpush_def Let_def)
  then show ?thesis using y list_store.do_push_spec [OF assms(1) args assms(17-20)]
    unfolding all by (auto simp: push_reply_def)
qed

theorem rpoplpush_moves_witness:
  "\<exists>y st w. exec_rpoplpush mem_lists (sample_write [''rpoplpush'', ''k'', ''l'']) 0 (sample_list 20 [[97], [98]]) = Some (EXEC_OK, y) \<and>
    mem_items (x_data mem_ops y) = [[97]] \<and>
    exec_rpoplpush mem_lists ((sample_write [''rpoplpush'', ''k'', ''l''])\<lparr>key_cnt := 2, key_done := 1\<rparr>) 0
      ((sample_list 20 [[99]])\<lparr>x_out := x_out y, x_argn := 2\<rparr>) = Some (st, w) \<and>
    (st = ERR_KV_STATUS \<and> x_kstatus w \<noteq> KEY_OK \<or> st = EXEC_OK \<and> mem_items (x_data mem_ops w) = [[98], [99]])"
proof -
  let ?ex = "sample_write [''rpoplpush'', ''k'', ''l'']" and ?xs = "[[97], [98]] :: byte list list"
  let ?ex1 = "?ex\<lparr>key_cnt := 2, key_done := 1\<rparr>"
  let ?x1 = "(sample_list 20 ?xs)\<lparr>x_type := MD_LIST\<rparr>"
  have d: "mem_wf (x_data mem_ops ?x1)" "mem_items (x_data mem_ops ?x1) = ?xs" by (rule sample_list_at; simp)+
  obtain r where "do_pop mem_lists ?ex DO_RPOPLPUSH (sample_list 20 ?xs) = Some r" "pop_ok mem_lists mem_wf mem_items ?ex DO_RPOPLPUSH ?x1 ?xs r"
    using list_store.do_pop_spec [OF mem_lists.list_store_axioms, of ?ex "sample_list 20 ?xs" ?x1 ?xs DO_RPOPLPUSH] d by (auto simp: sample_list_fetch)
  moreover have "fst r \<noteq> ERR_KV_STATUS \<or> x_kstatus (snd r) = KEY_OK"
    using calculation(1) by (auto simp: do_pop_def sample_list_fetch lx_open_def pop_list_def remove_empty_def lx_tombstone_def Let_def
        mem_seg_def put_data_def set_flags_def split: prod.splits if_splits)
  ultimately obtain y where y: "exec_rpoplpush mem_lists ?ex 0 (sample_list 20 ?xs) = Some (EXEC_OK, y)"
    by (cases r) (auto simp: exec_rpoplpush_def pop_ok_def pop_spec_def Let_def sample_list_fetch)
  let ?z = "(sample_list 20 [[99]])\<lparr>x_out := x_out y, x_argn := 2\<rparr>"
  have "do_key_fetch mem_ops ?ex1 MD_LIST False ?z = Some (KEY_OK, ?z\<lparr>x_type := MD_LIST\<rparr>)"
    by (simp add: do_key_fetch_def exec_key_fetch_def acquire_key_def sample_write_def sample_exec_def sample_list_def
      sample_key_def mem_ops_def Let_def)
  moreover have "fetched mem_wf mem_items [] mem_ops KEY_OK (?z\<lparr>x_type := MD_LIST\<rparr>) [[99]]"
    using sample_list_fetch(3) [of 20 "[[99]]"] by (simp add: fetched_def x_data_def)
  moreover have "map (get_arg_str (ex_msg ?ex1)) [3..<argc ?ex1] = map Some []" by (simp add: sample_write_def sample_exec_def)
  ultimately have "x_out y = x_out ?x1 @ send_string (le_util mem_lists) True (last ?xs) \<and> list_left mem_lists mem_wf mem_items DO_RPOPLPUSH ?xs y (butlast ?xs) \<and>
    (\<exists>st' w. exec_rpoplpush mem_lists ?ex1 0 ?z = Some (st', w) \<and> x_out w = x_out (?z\<lparr>x_type := MD_LIST\<rparr>) \<and>
      (st' = ERR_KV_STATUS \<and> x_kstatus w \<noteq> KEY_OK \<or>
      st' = EXEC_OK \<and> mem_wf (x_data (le_ops mem_lists) w) \<and> mem_items (x_data (le_ops mem_lists) w) = last ?xs # [[99]]))"
    by (intro rpoplpush_moves [OF mem_lists.list_store_axioms _ _ _ _ _ _ _ _ _ _ y, where vs = "[]" and st = KEY_OK])
      (use d fmt.kv_format_axioms in \<open>simp_all add: sample_list_fetch\<close>)
  then show ?thesis using y by (auto simp: list_left_def)
qed

text \<open>The reply of a command in front of it in the buffer, here +OK, is taken with the element; the largest
  end of a range wraps to the front; a command that fails at an argument keeps what it pushed before.\<close>

lemma rpoplpush_takes_reply:
  "let buf = ascii ''+OK'' @ crlf @ send_string int_str_util True (ascii ''x''); i = value_start buf 4
   in take (length buf - (i + 2)) (drop i buf) = ascii ''$1'' @ crlf @ ascii ''x''"
  by code_simp

lemma range_to_largest: "range_to n (2 ^ 63 - 1) = 0"
proof -
  have "to_int64 (2 ^ 63) = - (2 ^ 63)" by code_simp
  then show ?thesis by (simp add: range_to_def)
qed

end
