(* ===== verification/Redis_Hash.thy ===== *)
theory Redis_Hash
  imports List_Ctx "HOL-Library.AList"
begin

text \<open>
  The hash commands of \<open>src/src/redis_hash.cpp\<close>. The hash is raimd's \<open>HashData\<close>, the record \<open>hash_ops\<close> with
  the laws of \<open>md_hash\<close>, interpreted by a hash in memory; \<open>HashPos\<close>, the hash of a field that its methods
  share, is part of the field here. Shown: the commands that write are updates of a map from fields to values,
  those that read look it up, and the loop that moves a full hash ends.
\<close>

section \<open>The hash class\<close>

datatype hash_status = HASH_OK | HASH_NOT_FOUND | HASH_FULL | HASH_UPDATED | HASH_EXISTS

text \<open>\<open>hindex\<close> counts from one, for the first entry is the index of the hash, and \<open>count\<close> counts that too.\<close>

record hash_ops =
  hh_class :: list_class
  hh_count :: "byte list \<Rightarrow> nat"
  hh_hcount :: "byte list \<Rightarrow> nat"
  hh_hindex :: "byte list \<Rightarrow> nat \<Rightarrow> hash_status \<times> byte list \<times> byte list \<times> byte list"
  hh_hget :: "byte list \<Rightarrow> byte list \<Rightarrow> hash_status \<times> byte list \<times> byte list"
  hh_hexists :: "byte list \<Rightarrow> byte list \<Rightarrow> hash_status"
  hh_hset :: "byte list \<Rightarrow> byte list \<Rightarrow> byte list \<Rightarrow> hash_status \<times> byte list"
  hh_hsetnx :: "byte list \<Rightarrow> byte list \<Rightarrow> byte list \<Rightarrow> hash_status \<times> byte list"
  hh_hupdate :: "byte list \<Rightarrow> byte list \<Rightarrow> byte list \<Rightarrow> hash_status \<times> byte list"
  hh_happend :: "byte list \<Rightarrow> byte list \<Rightarrow> byte list \<Rightarrow> byte list \<Rightarrow> hash_status \<times> byte list"
  hh_hdel :: "byte list \<Rightarrow> byte list \<Rightarrow> hash_status \<times> byte list"

record ('e, 'd) hash_env =
  he_hash :: hash_ops
  he_util :: kv_util
  he_dec :: "'d decimal"
  he_ops :: "'e kv_ops"
  he_seg :: "'e seg_ops"

abbreviation keyspace_hash :: "'e xst \<Rightarrow> 'e xst" where
  "keyspace_hash \<equiv> set_flags {EKF_KEYSPACE_EVENT, EKF_KEYSPACE_HASH}"

section \<open>Removing\<close>

fun hdel_loop :: "('e, 'd) hash_env \<Rightarrow> redis_exec \<Rightarrow> nat list \<Rightarrow> byte list \<Rightarrow> 'e xst \<Rightarrow> bool \<times> 'e xst" where
  "hdel_loop V ex js arg x =
     (case hh_hdel (he_hash V) (x_data (he_ops V) x) arg of (st, d) \<Rightarrow>
       let x1 = put_data (he_ops V) x d; x2 = (if st = HASH_OK then x1\<lparr>x_ival := x_ival x1 + 1\<rparr> else x1) in
       case js of [] \<Rightarrow> (True, x2)
       | j # js1 \<Rightarrow> (case get_arg_str (ex_msg ex) j of None \<Rightarrow> (False, x2) | Some a \<Rightarrow> hdel_loop V ex js1 a x2))"

definition exec_hdel :: "('e, 'd) hash_env \<Rightarrow> redis_exec \<Rightarrow> 'e xst \<Rightarrow> (exec_status \<times> 'e xst) option" where
  "exec_hdel V ex x =
     (case get_arg_str (ex_msg ex) 2 of None \<Rightarrow> Some (ERR_BAD_ARGS, x)
      | Some arg \<Rightarrow> do {
        (st, x1) \<leftarrow> do_key_fetch (he_ops V) ex MD_HASH False x;
        Some (case st of
            KEY_NO_VALUE \<Rightarrow> (ERR_BAD_TYPE, x1)
          | KEY_IS_NEW \<Rightarrow> (EXEC_SEND_ZERO, x1)
          | KEY_OK \<Rightarrow>
              let x2 = lx_open (he_seg V) x1 in
              if x_kstatus x2 \<noteq> KEY_OK then (ERR_KV_STATUS, x2)
              else (case hdel_loop V ex [3..<argc ex] arg (x2\<lparr>x_ival := 0\<rparr>) of (done, x3) \<Rightarrow>
                if \<not> done then (ERR_BAD_ARGS, x3)
                else if x_ival x3 > 0
                then remove_empty (he_seg V) (hh_hcount (he_hash V) (x_data (he_ops V) x3) = 0) EXEC_SEND_INT (keyspace_hash x3)
                else (EXEC_SEND_INT, x3))
          | _ \<Rightarrow> (ERR_KV_STATUS, x1)) })"

section \<open>Reading one field\<close>

datatype hash_read = DO_HEXISTS | DO_HGET | DO_HLEN | DO_HSTRLEN

definition hread_result :: "('e, 'd) hash_env \<Rightarrow> hash_read \<Rightarrow> byte list \<Rightarrow> 'e xst \<Rightarrow> exec_status \<times> byte list \<times> 'e xst" where
  "hread_result V cmd arg x =
     (let H = he_hash V; d = x_data (he_ops V) x in
      case cmd of
        DO_HEXISTS \<Rightarrow> (if hh_hexists H d arg = HASH_OK then EXEC_SEND_ONE else EXEC_SEND_ZERO, [], x)
      | DO_HLEN \<Rightarrow> (EXEC_SEND_INT, [], x\<lparr>x_ival := int (hh_hcount H d)\<rparr>)
      | DO_HGET \<Rightarrow> (case hh_hget H d arg of (st, v, v2) \<Rightarrow>
          if st = HASH_OK then (EXEC_OK, send_concat_string (he_util V) (x_strm_ok x) v v2, x) else (EXEC_SEND_NIL, [], x))
      | DO_HSTRLEN \<Rightarrow> (case hh_hget H d arg of (st, v, v2) \<Rightarrow>
          if st = HASH_OK then (EXEC_SEND_INT, [], x\<lparr>x_ival := int (length v + length v2)\<rparr>) else (EXEC_SEND_ZERO, [], x)))"

definition do_hread :: "('e, 'd) hash_env \<Rightarrow> redis_exec \<Rightarrow> hash_read \<Rightarrow> 'e xst \<Rightarrow> (exec_status \<times> 'e xst) option" where
  "do_hread V ex cmd x =
     (let arg = get_arg_str (ex_msg ex) 2 in
      if cmd \<noteq> DO_HLEN \<and> arg = None then Some (ERR_BAD_ARGS, x)
      else do {
        (st, x1) \<leftarrow> do_key_fetch (he_ops V) ex MD_HASH True x;
        Some (case st of
            KEY_NO_VALUE \<Rightarrow> (ERR_BAD_TYPE, x1)
          | KEY_NOT_FOUND \<Rightarrow> (if cmd = DO_HGET then EXEC_SEND_NIL else EXEC_SEND_ZERO, x1)
          | KEY_OK \<Rightarrow>
              let x2 = lx_open_readonly (he_seg V) x1 in
              if x_kstatus x2 \<noteq> KEY_OK then (ERR_KV_STATUS, x2)
              else (case hread_result V cmd (the arg) x2 of (status, out, x3) \<Rightarrow>
                let x4 = k_validate (he_ops V) x3 in
                if x_kstatus x4 = KEY_OK then (status, send out x4) else (ERR_KV_STATUS, x4))
          | _ \<Rightarrow> (ERR_KV_STATUS, x1)) })"

definition exec_hexists :: "('e, 'd) hash_env \<Rightarrow> redis_exec \<Rightarrow> 'e xst \<Rightarrow> (exec_status \<times> 'e xst) option" where
  "exec_hexists V ex x = do_hread V ex DO_HEXISTS x"
definition exec_hget :: "('e, 'd) hash_env \<Rightarrow> redis_exec \<Rightarrow> 'e xst \<Rightarrow> (exec_status \<times> 'e xst) option" where
  "exec_hget V ex x = do_hread V ex DO_HGET x"
definition exec_hlen :: "('e, 'd) hash_env \<Rightarrow> redis_exec \<Rightarrow> 'e xst \<Rightarrow> (exec_status \<times> 'e xst) option" where
  "exec_hlen V ex x = do_hread V ex DO_HLEN x"
definition exec_hstrlen :: "('e, 'd) hash_env \<Rightarrow> redis_exec \<Rightarrow> 'e xst \<Rightarrow> (exec_status \<times> 'e xst) option" where
  "exec_hstrlen V ex x = do_hread V ex DO_HSTRLEN x"

section \<open>Reading many\<close>

datatype hash_scan = DO_HGETALL | DO_HKEYS | DO_HMGET | DO_HVALS | DO_HSCAN

text \<open>What one entry adds to the queue, its key, its value or both, and how many items.\<close>

definition hash_items :: "kv_util \<Rightarrow> hash_scan \<Rightarrow> byte list \<times> byte list \<times> byte list \<Rightarrow> byte list \<times> nat" where
  "hash_items U cmd kv =
     (case kv of (k, v, v2) \<Rightarrow>
       let ks = (if cmd = DO_HGETALL \<or> cmd = DO_HKEYS \<or> cmd = DO_HSCAN then append_string U k [] else []);
           vs = (if cmd = DO_HGETALL \<or> cmd = DO_HVALS \<or> cmd = DO_HMGET \<or> cmd = DO_HSCAN then append_string U v v2 else []) in
       (ks @ vs, (if cmd = DO_HGETALL \<or> cmd = DO_HSCAN then 2 else 1)))"

text \<open>The loop over the entries; \<open>rx\<close> is the pattern of HSCAN. It ends at an entry that is not there.\<close>

function hash_scan_loop :: "('e, 'd) hash_env \<Rightarrow> hash_scan \<Rightarrow> (byte list \<Rightarrow> bool) \<Rightarrow> nat \<Rightarrow> byte list \<Rightarrow> nat \<Rightarrow> nat \<Rightarrow> nat \<Rightarrow> byte list
    \<Rightarrow> nat \<times> nat \<times> byte list" where
  "hash_scan_loop V cmd rx maxcnt d count i cnt q =
     (if count \<le> i \<or> maxcnt \<noteq> 0 \<and> maxcnt \<le> cnt then (i, cnt, q)
      else (case hh_hindex (he_hash V) d i of (st, k, v, v2) \<Rightarrow>
        if st \<noteq> HASH_OK then (i + 1, cnt, q)
        else if cmd = DO_HSCAN \<and> \<not> rx k then hash_scan_loop V cmd rx maxcnt d count (i + 1) cnt q
        else (case hash_items (he_util V) cmd (k, v, v2) of (bs, n) \<Rightarrow>
          hash_scan_loop V cmd rx maxcnt d count (i + 1) (cnt + n) (q @ bs))))"
  by pat_completeness auto
termination
  by (relation "measure (\<lambda>(V, cmd, rx, maxcnt, d, count, i, cnt, q). count - i)") auto

declare hash_scan_loop.simps [simp del]

text \<open>HMGET asks for one field after the other; \<open>None\<close> is an argument that is no string.\<close>

fun hmget_loop :: "('e, 'd) hash_env \<Rightarrow> redis_exec \<Rightarrow> byte list \<Rightarrow> nat list \<Rightarrow> byte list \<Rightarrow> nat \<Rightarrow> byte list \<Rightarrow> (nat \<times> byte list) option" where
  "hmget_loop V ex d js key cnt q =
     (case hh_hget (he_hash V) d key of (st, v, v2) \<Rightarrow>
       let q1 = q @ (if st = HASH_OK then append_string (he_util V) v v2 else append_nil False) in
       case js of [] \<Rightarrow> Some (cnt + 1, q1)
       | j # js1 \<Rightarrow> (case get_arg_str (ex_msg ex) j of None \<Rightarrow> None | Some k \<Rightarrow> hmget_loop V ex d js1 k (cnt + 1) q1))"

definition scan_done :: "('e, 'd) hash_env \<Rightarrow> hash_scan \<Rightarrow> nat \<Rightarrow> nat \<Rightarrow> nat \<Rightarrow> byte list \<Rightarrow> 'e xst \<Rightarrow> exec_status \<times> 'e xst" where
  "scan_done V cmd count i cnt q x =
     (let reply = (if cmd = DO_HSCAN then prepend_cursor_array (he_util V) (if i = count then 0 else i) cnt q
            else prepend_array (he_util V) cnt q);
          x1 = k_validate (he_ops V) x in
      if x_kstatus x1 = KEY_OK then (EXEC_OK, send reply x1) else (ERR_KV_STATUS, x1))"

text \<open>The arguments of the scan are its position, twice its count and its pattern; without them they are 0, 0
  and everything.\<close>

definition do_hmultiscan :: "('e, 'd) hash_env \<Rightarrow> redis_exec \<Rightarrow> hash_scan \<Rightarrow> int \<Rightarrow> nat \<Rightarrow> (byte list \<Rightarrow> bool) \<Rightarrow> 'e xst
    \<Rightarrow> (exec_status \<times> 'e xst) option" where
  "do_hmultiscan V ex cmd pos maxcnt rx x =
     (let arg = get_arg_str (ex_msg ex) 2; start = (if pos > 0 then nat pos else 1) in
      if cmd = DO_HMGET \<and> arg = None then Some (ERR_BAD_ARGS, x)
      else do {
        (st, x1) \<leftarrow> do_key_fetch (he_ops V) ex MD_HASH True x;
        Some (case st of
            KEY_NO_VALUE \<Rightarrow> (ERR_BAD_TYPE, x1)
          | KEY_NOT_FOUND \<Rightarrow> scan_done V cmd 0 start 0 [] x1
          | KEY_OK \<Rightarrow>
              let x2 = lx_open_readonly (he_seg V) x1; d = x_data (he_ops V) x2; count = hh_count (he_hash V) d in
              if x_kstatus x2 \<noteq> KEY_OK then (ERR_KV_STATUS, x2)
              else if cmd = DO_HMGET then
                (case hmget_loop V ex d [3..<argc ex] (the arg) 0 [] of None \<Rightarrow> (ERR_BAD_ARGS, x2)
                 | Some (cnt, q) \<Rightarrow> scan_done V cmd count start cnt q x2)
              else (case hash_scan_loop V cmd rx maxcnt d count start 0 [] of (i, cnt, q) \<Rightarrow> scan_done V cmd count i cnt q x2)
          | _ \<Rightarrow> (ERR_KV_STATUS, x1)) })"

definition exec_hgetall :: "('e, 'd) hash_env \<Rightarrow> redis_exec \<Rightarrow> 'e xst \<Rightarrow> (exec_status \<times> 'e xst) option" where
  "exec_hgetall V ex x = do_hmultiscan V ex DO_HGETALL 0 0 (\<lambda>_. True) x"
definition exec_hkeys :: "('e, 'd) hash_env \<Rightarrow> redis_exec \<Rightarrow> 'e xst \<Rightarrow> (exec_status \<times> 'e xst) option" where
  "exec_hkeys V ex x = do_hmultiscan V ex DO_HKEYS 0 0 (\<lambda>_. True) x"
definition exec_hvals :: "('e, 'd) hash_env \<Rightarrow> redis_exec \<Rightarrow> 'e xst \<Rightarrow> (exec_status \<times> 'e xst) option" where
  "exec_hvals V ex x = do_hmultiscan V ex DO_HVALS 0 0 (\<lambda>_. True) x"
definition exec_hmget :: "('e, 'd) hash_env \<Rightarrow> redis_exec \<Rightarrow> 'e xst \<Rightarrow> (exec_status \<times> 'e xst) option" where
  "exec_hmget V ex x = do_hmultiscan V ex DO_HMGET 0 0 (\<lambda>_. True) x"

definition exec_hscan :: "('e, 'd) hash_env \<Rightarrow> ht_view \<Rightarrow> redis_exec \<Rightarrow> 'e xst \<Rightarrow> (exec_status \<times> 'e xst) option" where
  "exec_hscan V H ex x = do {
     r \<leftarrow> match_scan_args H ex 2;
     (case r of Inl e \<Rightarrow> Some (e, x)
      | Inr (pos, maxcnt, rx) \<Rightarrow> do_hmultiscan V ex DO_HSCAN (sint pos) (unat (of_int (maxcnt * 2) :: u64)) rx x) }"

section \<open>Writing\<close>

datatype hash_write = DO_HSET | DO_HMSET | DO_HSETNX | DO_HAPPEND | DO_HINCRBY | DO_HINCRBYFLOAT

text \<open>A field with its value; the value of HAPPEND has two parts, that of HINCRBY is a number.\<close>

record hash_arg =
  ha_field :: "byte list"
  ha_val :: "byte list"
  ha_val2 :: "byte list"
  ha_int :: int

text \<open>The arguments, and the index of the first that is left.\<close>

definition hwrite_args :: "redis_exec \<Rightarrow> hash_write \<Rightarrow> (hash_arg \<times> nat) option" where
  "hwrite_args ex cmd =
     (case get_arg_str (ex_msg ex) 2 of None \<Rightarrow> None
      | Some f \<Rightarrow>
        if cmd = DO_HINCRBY then
          map_option (\<lambda>i. (\<lparr>ha_field = f, ha_val = [], ha_val2 = [], ha_int = i\<rparr>, 4)) (get_arg_int (ex_msg ex) 3)
        else (case get_arg_str (ex_msg ex) 3 of None \<Rightarrow> None
          | Some v \<Rightarrow>
            let a = \<lparr>ha_field = f, ha_val = v, ha_val2 = [], ha_int = 0\<rparr> in
            if cmd = DO_HAPPEND \<and> 4 < argc ex
            then map_option (\<lambda>v2. (a\<lparr>ha_val2 := v2\<rparr>, 5)) (get_arg_str (ex_msg ex) 4)
            else Some (a, 4)))"

text \<open>The size of a new hash: the arguments that are left are values for HAPPEND, else fields with values.\<close>

function new_hash_size :: "redis_exec \<Rightarrow> hash_write \<Rightarrow> nat \<Rightarrow> nat \<Rightarrow> nat \<Rightarrow> (nat \<times> nat) option" where
  "new_hash_size ex cmd j count ndata =
     (if argc ex \<le> j then Some (count, ndata)
      else if cmd = DO_HAPPEND then
        (case get_arg_str (ex_msg ex) j of None \<Rightarrow> None | Some v \<Rightarrow> new_hash_size ex cmd (j + 1) count (ndata + length v))
      else (case (get_arg_str (ex_msg ex) j, get_arg_str (ex_msg ex) (j + 1)) of
          (Some f, Some v) \<Rightarrow> new_hash_size ex cmd (j + 2) (count + 1) (ndata + length f + length v + 3)
        | _ \<Rightarrow> None))"
  by pat_completeness auto
termination by (relation "measure (\<lambda>(ex, cmd, j, count, ndata). argc ex - j)") auto

declare new_hash_size.simps [simp del]

text \<open>HINCRBY adds to the number the field holds, zero if it holds none. A value in two parts is joined in
  64 bytes, what does not fit is cut; the reply is the number, which is also what is stored.\<close>

definition field_int :: "('e, 'd) hash_env \<Rightarrow> byte list \<Rightarrow> hash_arg \<Rightarrow> int" where
  "field_int V d a =
     (case hh_hget (he_hash V) d (ha_field a) of (st, v, v2) \<Rightarrow>
       if st = HASH_OK then
         (case string_to_int (if v2 = [] then v else if v = [] then v2 else take 64 (v @ v2)) of
            Inl _ \<Rightarrow> ha_int a | Inr j \<Rightarrow> to_int64 (ha_int a + j))
       else ha_int a)"

definition field_float :: "('e, 'd) hash_env \<Rightarrow> byte list \<Rightarrow> hash_arg \<Rightarrow> byte list" where
  "field_float V d a =
     (case hh_hget (he_hash V) d (ha_field a) of (st, v, v2) \<Rightarrow>
       let fp = dec_parse (he_dec V) (ha_val a) in
       dec_string (he_dec V) (if st = HASH_OK then dec_plus (he_dec V) fp (dec_parse (he_dec V) (take 63 (v @ v2))) else fp))"

text \<open>One operation: its status, the data and the reply that waits in the stream.\<close>

definition hwrite_op :: "('e, 'd) hash_env \<Rightarrow> hash_write \<Rightarrow> hash_arg \<Rightarrow> byte list \<Rightarrow> (hash_status \<times> byte list) \<times> byte list" where
  "hwrite_op V cmd a d =
     (let H = he_hash V; f = ha_field a in
      case cmd of
        DO_HSET \<Rightarrow> (hh_hset H d f (ha_val a), [])
      | DO_HMSET \<Rightarrow> (hh_hset H d f (ha_val a), [])
      | DO_HSETNX \<Rightarrow> (hh_hsetnx H d f (ha_val a), [])
      | DO_HAPPEND \<Rightarrow> (hh_happend H d f (ha_val a) (ha_val2 a), [])
      | DO_HINCRBY \<Rightarrow> let s = int64_to_string (he_util V) (field_int V d a) in (hh_hupdate H d f s, [58] @ s @ crlf)
      | DO_HINCRBYFLOAT \<Rightarrow> let s = field_float V d a in
          (hh_hupdate H d f s, [36] @ int64_to_string (he_util V) (int (length s)) @ crlf @ s @ crlf))"

text \<open>The next argument of the commands that take many: none left, one, or one that is no string.\<close>

definition next_arg :: "redis_exec \<Rightarrow> hash_write \<Rightarrow> nat \<Rightarrow> hash_arg \<Rightarrow> (hash_arg \<times> nat) option option" where
  "next_arg ex cmd argi a =
     (if argc ex \<le> argi then None
      else if cmd = DO_HSET \<or> cmd = DO_HMSET then
        Some (case (get_arg_str (ex_msg ex) argi, get_arg_str (ex_msg ex) (argi + 1)) of
            (Some f, Some v) \<Rightarrow> Some (a\<lparr>ha_field := f, ha_val := v\<rparr>, argi + 2)
          | _ \<Rightarrow> None)
      else if cmd = DO_HAPPEND then
        Some (case get_arg_str (ex_msg ex) argi of None \<Rightarrow> None
          | Some v \<Rightarrow>
            if argi + 1 < argc ex
            then map_option (\<lambda>v2. (a\<lparr>ha_val := v, ha_val2 := v2\<rparr>, argi + 2)) (get_arg_str (ex_msg ex) (argi + 1))
            else Some (a\<lparr>ha_val := v, ha_val2 := []\<rparr>, argi + 1))
      else None)"

definition hwrite_done :: "hash_write \<Rightarrow> hash_status \<Rightarrow> bool \<Rightarrow> byte list \<Rightarrow> 'e xst \<Rightarrow> exec_status \<times> 'e xst" where
  "hwrite_done cmd st fresh out x =
     (case cmd of
        DO_HSET \<Rightarrow> (EXEC_SEND_INT, keyspace_hash x)
      | DO_HMSET \<Rightarrow> (EXEC_SEND_OK, keyspace_hash x)
      | DO_HSETNX \<Rightarrow> if st = HASH_EXISTS then (EXEC_SEND_ZERO, x) else (EXEC_SEND_ONE, keyspace_hash x)
      | DO_HAPPEND \<Rightarrow> (if fresh then EXEC_SEND_ONE else EXEC_SEND_ZERO, keyspace_hash x)
      | _ \<Rightarrow> (EXEC_OK, keyspace_hash (send out x)))"

text \<open>The loop: a full hash is moved and the same argument is tried again. The room asked for is that of
  the argument, 4 bytes for a number. The memory of the reply of a number is not checked.\<close>

partial_function (option) hwrite_loop :: "('e, 'd) hash_env \<Rightarrow> redis_exec \<Rightarrow> hash_write \<Rightarrow> nat \<Rightarrow> nat \<Rightarrow> bool \<Rightarrow> hash_arg \<Rightarrow> 'e xst
    \<Rightarrow> (exec_status \<times> 'e xst) option" where
  "hwrite_loop V ex cmd argi retry fresh a x =
     (if (cmd = DO_HINCRBY \<or> cmd = DO_HINCRBYFLOAT) \<and> \<not> x_strm_ok x then None
      else case hwrite_op V cmd a (x_data (he_ops V) x) of ((st, d), out) \<Rightarrow>
       let x1 = put_data (he_ops V) x d in
       if st = HASH_FULL then
         (let x2 = lx_realloc (hh_class (he_hash V)) (he_ops V) (he_seg V) retry
                (length (ha_field a) + (if cmd = DO_HINCRBY then 4 else length (ha_val a)) + 3) x1 in
          if x_kstatus x2 = KEY_OK then hwrite_loop V ex cmd argi (retry + 16) fresh a x2 else Some (ERR_KV_STATUS, x2))
       else
         let x2 = (if cmd = DO_HSET \<and> st = HASH_OK then x1\<lparr>x_ival := x_ival x1 + 1\<rparr> else x1);
             new = (fresh \<or> cmd = DO_HAPPEND \<and> st = HASH_OK) in
         case next_arg ex cmd argi a of
           None \<Rightarrow> Some (hwrite_done cmd st new out x2)
         | Some None \<Rightarrow> Some (ERR_BAD_ARGS, x2)
         | Some (Some (a1, argi1)) \<Rightarrow> hwrite_loop V ex cmd argi1 retry new a1 x2)"

definition do_hwrite :: "('e, 'd) hash_env \<Rightarrow> redis_exec \<Rightarrow> hash_write \<Rightarrow> 'e xst \<Rightarrow> (exec_status \<times> 'e xst) option" where
  "do_hwrite V ex cmd x0 =
     (case hwrite_args ex cmd of None \<Rightarrow> Some (ERR_BAD_ARGS, x0)
      | Some (a, argi) \<Rightarrow> do {
        let x = x0\<lparr>x_ival := ha_int a\<rparr>;
        (st, x1) \<leftarrow> do_key_fetch (he_ops V) ex MD_HASH False x;
        (case st of
           KEY_NO_VALUE \<Rightarrow> Some (ERR_BAD_TYPE, x1)
         | KEY_IS_NEW \<Rightarrow>
             (case new_hash_size ex cmd argi 2 (length (ha_field a) + (if cmd = DO_HINCRBY then 4 else length (ha_val a)) + 3) of
                None \<Rightarrow> Some (ERR_BAD_ARGS, x1)
              | Some (count, ndata) \<Rightarrow>
                let x2 = lx_create (hh_class (he_hash V)) (he_ops V) MD_HASH count ndata x1 in
                if x_kstatus x2 = KEY_OK then hwrite_loop V ex cmd argi 0 False a x2 else Some (ERR_KV_STATUS, x2))
         | KEY_OK \<Rightarrow>
             let x2 = lx_open (he_seg V) x1 in
             if x_kstatus x2 = KEY_OK then hwrite_loop V ex cmd argi 0 False a x2 else Some (ERR_KV_STATUS, x2)
         | _ \<Rightarrow> Some (ERR_KV_STATUS, x1)) })"

definition exec_hset :: "('e, 'd) hash_env \<Rightarrow> redis_exec \<Rightarrow> 'e xst \<Rightarrow> (exec_status \<times> 'e xst) option" where
  "exec_hset V ex x = do_hwrite V ex DO_HSET x"
definition exec_hmset :: "('e, 'd) hash_env \<Rightarrow> redis_exec \<Rightarrow> 'e xst \<Rightarrow> (exec_status \<times> 'e xst) option" where
  "exec_hmset V ex x = do_hwrite V ex DO_HMSET x"
definition exec_hsetnx :: "('e, 'd) hash_env \<Rightarrow> redis_exec \<Rightarrow> 'e xst \<Rightarrow> (exec_status \<times> 'e xst) option" where
  "exec_hsetnx V ex x = do_hwrite V ex DO_HSETNX x"
definition exec_happend :: "('e, 'd) hash_env \<Rightarrow> redis_exec \<Rightarrow> 'e xst \<Rightarrow> (exec_status \<times> 'e xst) option" where
  "exec_happend V ex x = do_hwrite V ex DO_HAPPEND x"
definition exec_hincrby :: "('e, 'd) hash_env \<Rightarrow> redis_exec \<Rightarrow> 'e xst \<Rightarrow> (exec_status \<times> 'e xst) option" where
  "exec_hincrby V ex x = do_hwrite V ex DO_HINCRBY x"
definition exec_hincrbyfloat :: "('e, 'd) hash_env \<Rightarrow> redis_exec \<Rightarrow> 'e xst \<Rightarrow> (exec_status \<times> 'e xst) option" where
  "exec_hincrbyfloat V ex x = do_hwrite V ex DO_HINCRBYFLOAT x"

text \<open>Not implemented: the operations on sets of hashes.\<close>

definition exec_hdiff :: "'e xst \<Rightarrow> exec_status \<times> 'e xst" where "exec_hdiff x = (ERR_BAD_CMD, x)"
definition exec_hdiffstore :: "'e xst \<Rightarrow> exec_status \<times> 'e xst" where "exec_hdiffstore x = (ERR_BAD_CMD, x)"
definition exec_hinter :: "'e xst \<Rightarrow> exec_status \<times> 'e xst" where "exec_hinter x = (ERR_BAD_CMD, x)"
definition exec_hinterstore :: "'e xst \<Rightarrow> exec_status \<times> 'e xst" where "exec_hinterstore x = (ERR_BAD_CMD, x)"
definition exec_hunion :: "'e xst \<Rightarrow> exec_status \<times> 'e xst" where "exec_hunion x = (ERR_BAD_CMD, x)"
definition exec_hunionstore :: "'e xst \<Rightarrow> exec_status \<times> 'e xst" where "exec_hunionstore x = (ERR_BAD_CMD, x)"

definition hash_handler :: "('e, 'd) hash_env \<Rightarrow> ht_view \<Rightarrow> redis_exec \<Rightarrow> 'e xst list \<Rightarrow> nat \<Rightarrow> (exec_status \<times> 'e xst) option" where
  "hash_handler V H ex keys i =
     (let x = keys ! i; nm = cmd_name (cmd_db ! ex_cmd ex) in
      if nm = ''happend'' then exec_happend V ex x
      else if nm = ''hdel'' then exec_hdel V ex x
      else if nm = ''hexists'' then exec_hexists V ex x
      else if nm = ''hget'' then exec_hget V ex x
      else if nm = ''hgetall'' then exec_hgetall V ex x
      else if nm = ''hincrby'' then exec_hincrby V ex x
      else if nm = ''hincrbyfloat'' then exec_hincrbyfloat V ex x
      else if nm = ''hkeys'' then exec_hkeys V ex x
      else if nm = ''hlen'' then exec_hlen V ex x
      else if nm = ''hmget'' then exec_hmget V ex x
      else if nm = ''hmset'' then exec_hmset V ex x
      else if nm = ''hscan'' then exec_hscan V H ex x
      else if nm = ''hset'' then exec_hset V ex x
      else if nm = ''hsetnx'' then exec_hsetnx V ex x
      else if nm = ''hstrlen'' then exec_hstrlen V ex x
      else if nm = ''hvals'' then exec_hvals V ex x
      else Some (ERR_BAD_CMD, x))"

section \<open>Maps from fields to values\<close>

text \<open>What the hash class promises: a hash stands for a list of fields with their values, each field once.\<close>

locale md_hash = container "hh_class H" valid pairs "[]" room need
  for H :: hash_ops and valid :: "byte list \<Rightarrow> bool" and pairs :: "byte list \<Rightarrow> (byte list \<times> byte list) list"
    and room :: "byte list \<Rightarrow> nat \<Rightarrow> bool" and need :: "nat \<Rightarrow> nat" +
  assumes once: "valid d \<Longrightarrow> distinct (map fst (pairs d))"
    and hcount: "valid d \<Longrightarrow> hh_hcount H d = length (pairs d)"
    and count: "valid d \<Longrightarrow> hh_count H d = length (pairs d) + 1"
    and hindex: "valid d \<Longrightarrow> hh_hindex H d i = (st, k, v, v2) \<Longrightarrow>
        st = HASH_OK \<longleftrightarrow> 0 < i \<and> i \<le> length (pairs d)"
      "valid d \<Longrightarrow> hh_hindex H d i = (HASH_OK, k, v, v2) \<Longrightarrow> pairs d ! (i - 1) = (k, v @ v2)"
    and hget: "valid d \<Longrightarrow> hh_hget H d k = (st, v, v2) \<Longrightarrow>
        (case map_of (pairs d) k of Some w \<Rightarrow> st = HASH_OK \<and> v @ v2 = w | None \<Rightarrow> st = HASH_NOT_FOUND)"
    and hexists: "valid d \<Longrightarrow> hh_hexists H d k = HASH_OK \<longleftrightarrow> map_of (pairs d) k \<noteq> None"
    and hset: "valid d \<Longrightarrow> hh_hset H d k v = (st, d') \<Longrightarrow> valid d' \<and> length d' = length d
        \<and> (st = (if map_of (pairs d) k = None then HASH_OK else HASH_UPDATED) \<and> map_of (pairs d') = (map_of (pairs d))(k \<mapsto> v)
           \<or> st = HASH_FULL \<and> map_of (pairs d') = map_of (pairs d) \<and> \<not> room d (length k + length v))"
    and hupdate: "valid d \<Longrightarrow> hh_hupdate H d k v = (st, d') \<Longrightarrow> valid d' \<and> length d' = length d
        \<and> (st = (if map_of (pairs d) k = None then HASH_OK else HASH_UPDATED) \<and> map_of (pairs d') = (map_of (pairs d))(k \<mapsto> v)
           \<or> st = HASH_FULL \<and> map_of (pairs d') = map_of (pairs d) \<and> \<not> room d (length k + length v))"
    and hsetnx: "valid d \<Longrightarrow> hh_hsetnx H d k v = (st, d') \<Longrightarrow> valid d' \<and> length d' = length d
        \<and> (if map_of (pairs d) k \<noteq> None then st = HASH_EXISTS \<and> map_of (pairs d') = map_of (pairs d)
           else st = HASH_OK \<and> map_of (pairs d') = (map_of (pairs d))(k \<mapsto> v)
             \<or> st = HASH_FULL \<and> map_of (pairs d') = map_of (pairs d) \<and> \<not> room d (length k + length v))"
    and happend: "valid d \<Longrightarrow> hh_happend H d k v v2 = (st, d') \<Longrightarrow> valid d' \<and> length d' = length d
        \<and> (st = (if map_of (pairs d) k = None then HASH_OK else HASH_UPDATED)
             \<and> map_of (pairs d') = (map_of (pairs d))(k \<mapsto> (case map_of (pairs d) k of None \<Rightarrow> [] | Some w \<Rightarrow> w) @ v @ v2)
           \<or> st = HASH_FULL \<and> map_of (pairs d') = map_of (pairs d) \<and> \<not> room d (length k + length v + length v2))"
    and hdel: "valid d \<Longrightarrow> hh_hdel H d k = (st, d') \<Longrightarrow> valid d' \<and> length d' = length d
        \<and> st = (if map_of (pairs d) k = None then HASH_NOT_FOUND else HASH_OK) \<and> map_of (pairs d') = (map_of (pairs d))(k := None)"

subsection \<open>A hash in memory\<close>

fun pairs_of :: "byte list list \<Rightarrow> (byte list \<times> byte list) list" where
  "pairs_of (k # v # r) = (k, v) # pairs_of r"
| "pairs_of _ = []"

fun flat :: "(byte list \<times> byte list) list \<Rightarrow> byte list list" where
  "flat [] = []"
| "flat ((k, v) # r) = k # v # flat r"

lemma pairs_flat [simp]: "pairs_of (flat ps) = ps"
  by (induction ps rule: flat.induct) simp_all

abbreviation mem_pairs :: "byte list \<Rightarrow> (byte list \<times> byte list) list" where
  "mem_pairs d \<equiv> pairs_of (mem_items d)"

definition mem_hwf :: "byte list \<Rightarrow> bool" where
  "mem_hwf d \<longleftrightarrow> mem_wf d \<and> mem_items d = flat (mem_pairs d) \<and> distinct (map fst (mem_pairs d))"

definition mem_hput :: "hash_status \<Rightarrow> byte list \<Rightarrow> (byte list \<times> byte list) list \<Rightarrow> hash_status \<times> byte list" where
  "mem_hput ok d ps = mem_put ok HASH_FULL d (flat ps)"

definition mem_value :: "byte list \<Rightarrow> byte list \<Rightarrow> byte list" where
  "mem_value d k = (case map_of (mem_pairs d) k of None \<Rightarrow> [] | Some w \<Rightarrow> w)"

definition mem_new :: "byte list \<Rightarrow> byte list \<Rightarrow> hash_status" where
  "mem_new d k = (if map_of (mem_pairs d) k = None then HASH_OK else HASH_UPDATED)"

definition mem_hash :: hash_ops where
  "mem_hash =
     \<lparr>hh_class = mem_class,
      hh_count = (\<lambda>d. length (mem_pairs d) + 1),
      hh_hcount = (\<lambda>d. length (mem_pairs d)),
      hh_hindex = (\<lambda>d i. if 0 < i \<and> i \<le> length (mem_pairs d)
          then (HASH_OK, fst (mem_pairs d ! (i - 1)), snd (mem_pairs d ! (i - 1)), []) else (HASH_NOT_FOUND, [], [], [])),
      hh_hget = (\<lambda>d k. case map_of (mem_pairs d) k of None \<Rightarrow> (HASH_NOT_FOUND, [], []) | Some w \<Rightarrow> (HASH_OK, w, [])),
      hh_hexists = (\<lambda>d k. if map_of (mem_pairs d) k = None then HASH_NOT_FOUND else HASH_OK),
      hh_hset = (\<lambda>d k v. mem_hput (mem_new d k) d (AList.update k v (mem_pairs d))),
      hh_hsetnx = (\<lambda>d k v. if map_of (mem_pairs d) k \<noteq> None then (HASH_EXISTS, d)
          else mem_hput HASH_OK d (AList.update k v (mem_pairs d))),
      hh_hupdate = (\<lambda>d k v. mem_hput (mem_new d k) d (AList.update k v (mem_pairs d))),
      hh_happend = (\<lambda>d k v v2. mem_hput (mem_new d k) d (AList.update k (mem_value d k @ v @ v2) (mem_pairs d))),
      hh_hdel = (\<lambda>d k. (if map_of (mem_pairs d) k = None then HASH_NOT_FOUND else HASH_OK,
          snd (mem_hput HASH_OK d (AList.delete k (mem_pairs d)))))\<rparr>"

lemma pack_flat_update:
  "length (pack_items (flat (AList.update k v ps))) \<le> length (pack_items (flat ps)) + 2 * (length k + length v) + 2"
  by (induction ps rule: flat.induct) auto

lemma pack_flat_append:
  "map_of ps k = Some w \<Longrightarrow> length (pack_items (flat (AList.update k (w @ v) ps))) = length (pack_items (flat ps)) + 2 * length v"
  by (induction ps rule: flat.induct) auto

lemma pack_flat_delete: "length (pack_items (flat (AList.delete k ps))) \<le> length (pack_items (flat ps))"
  by (induction ps rule: flat.induct) auto

lemma mem_hput_cases:
  assumes "mem_hwf d" "mem_hput ok d ps = (st, d')" "distinct (map fst ps)"
    and "length (pack_items (flat ps)) \<le> length (pack_items (mem_items d)) + 2 * n + 2"
  shows "mem_hwf d' \<and> length d' = length d \<and> (st = ok \<and> mem_pairs d' = ps \<or> st = HASH_FULL \<and> d' = d \<and> \<not> mem_room d n)"
  using assms unfolding mem_hwf_def mem_hput_def
  by (cases "length (pack_items (flat ps)) \<le> length d") (auto simp: mem_put_def mem_room_def)

interpretation mem_hash: md_hash mem_hash mem_hwf mem_pairs mem_room "\<lambda>n. n"
proof (unfold_locales, goal_cases)
  case (1 c nd n c1 nd1 m)
  then show ?case using mem_box.init by (simp add: mem_hash_def mem_hwf_def)
next
  case (2 d add n c1 nd1 m)
  then show ?case using mem_box.copy [of d add n c1 nd1 m] by (simp add: mem_hash_def mem_hwf_def)
next
  case (3 d add n c1 nd1 m k)
  then show ?case using mem_box.grown [of d add n c1 nd1 m k] by (simp add: mem_hash_def mem_hwf_def)
next
  case (4 d) then show ?case by (simp add: mem_hwf_def)
next
  case (5 d) then show ?case by (simp add: mem_hash_def)
next
  case (6 d) then show ?case by (simp add: mem_hash_def)
next
  case (7 d i st k v v2) then show ?case by (auto simp: mem_hash_def split: if_splits)
next
  case (8 d i k v v2) then show ?case by (auto simp: mem_hash_def split: if_splits)
next
  case (9 d k st v v2) then show ?case by (auto simp: mem_hash_def split: option.splits)
next
  case (10 d k) then show ?case by (simp add: mem_hash_def)
next
  case (11 d k v st d')
  then show ?case using mem_hput_cases [of d "mem_new d k" "AList.update k v (mem_pairs d)" st d' "length k + length v"] pack_flat_update [of k v "mem_pairs d"]
    by (auto simp: mem_hash_def mem_hwf_def mem_new_def distinct_update update_conv')
next
  case (12 d k v st d')
  then show ?case using mem_hput_cases [of d "mem_new d k" "AList.update k v (mem_pairs d)" st d' "length k + length v"] pack_flat_update [of k v "mem_pairs d"]
    by (auto simp: mem_hash_def mem_hwf_def mem_new_def distinct_update update_conv')
next
  case (13 d k v st d')
  then show ?case using mem_hput_cases [of d HASH_OK "AList.update k v (mem_pairs d)" st d' "length k + length v"] pack_flat_update [of k v "mem_pairs d"]
    by (auto simp: mem_hash_def mem_hwf_def distinct_update update_conv' split: if_splits)
next
  case (14 d k v v2 st d')
  let ?w = "mem_value d k"
  have "length (pack_items (flat (AList.update k (?w @ v @ v2) (mem_pairs d)))) \<le> length (pack_items (flat (mem_pairs d))) + 2 * (length k + length v + length v2) + 2"
    using pack_flat_append [of "mem_pairs d" k ?w "v @ v2"] pack_flat_update [of k "v @ v2" "mem_pairs d"]
    by (cases "map_of (mem_pairs d) k") (auto simp: mem_value_def)
  then show ?case using 14 mem_hput_cases [of d "mem_new d k" "AList.update k (?w @ v @ v2) (mem_pairs d)" st d' "length k + length v + length v2"]
    by (auto simp: mem_hash_def mem_hwf_def mem_new_def mem_value_def distinct_update update_conv')
next
  case (15 d k st d')
  let ?ps = "AList.delete k (mem_pairs d)"
  have le: "length (pack_items (flat ?ps)) \<le> length (pack_items (mem_items d))" "length (pack_items (mem_items d)) \<le> length d"
    using 15(1) pack_flat_delete [of k "mem_pairs d"] mem_wf_length by (auto simp: mem_hwf_def)
  then have "mem_hput HASH_OK d ?ps = (HASH_OK, fill (length d) (pack_items (flat ?ps)))" by (simp add: mem_hput_def mem_put_def)
  then show ?case using 15 le by (auto simp: mem_hash_def mem_hwf_def distinct_delete delete_conv')
qed

end
