(* ===== verification/Hash_Refines.thy ===== *)
theory Hash_Refines
  imports Redis_Hash
begin

text \<open>
  The hash commands refine a map from fields to values: the laws of the hash class and of the key store are the
  locale \<open>hash_store\<close>, in which the handlers of \<open>Redis_Hash\<close> are shown to do what \<open>write_all\<close> and \<open>read_spec\<close>
  say, and in which a client that follows the cursors of HSCAN sees every entry; it is interpreted by hashes
  and a store in memory.
\<close>

section \<open>What the writes do\<close>

definition field_number :: "(byte list \<Rightarrow> byte list option) \<Rightarrow> hash_arg \<Rightarrow> int" where
  "field_number m a =
     (case m (ha_field a) of None \<Rightarrow> ha_int a
      | Some w \<Rightarrow> (case string_to_int w of Inl _ \<Rightarrow> ha_int a | Inr j \<Rightarrow> to_int64 (ha_int a + j)))"

definition field_decimal :: "'d decimal \<Rightarrow> (byte list \<Rightarrow> byte list option) \<Rightarrow> hash_arg \<Rightarrow> byte list" where
  "field_decimal D m a =
     dec_string D (case m (ha_field a) of None \<Rightarrow> dec_parse D (ha_val a)
       | Some w \<Rightarrow> dec_plus D (dec_parse D (ha_val a)) (dec_parse D w))"

text \<open>One argument on a map: the status and the map.\<close>

definition hfield_write :: "kv_util \<Rightarrow> 'd decimal \<Rightarrow> hash_write \<Rightarrow> hash_arg \<Rightarrow> (byte list \<Rightarrow> byte list option)
    \<Rightarrow> hash_status \<times> (byte list \<Rightarrow> byte list option)" where
  "hfield_write U D cmd a m =
     (let f = ha_field a; st = if m f = None then HASH_OK else HASH_UPDATED in
      case cmd of
        DO_HSETNX \<Rightarrow> if m f = None then (HASH_OK, m(f \<mapsto> ha_val a)) else (HASH_EXISTS, m)
      | DO_HAPPEND \<Rightarrow> (st, m(f \<mapsto> (case m f of None \<Rightarrow> [] | Some w \<Rightarrow> w) @ ha_val a @ ha_val2 a))
      | DO_HINCRBY \<Rightarrow> (st, m(f \<mapsto> int64_to_string U (field_number m a)))
      | DO_HINCRBYFLOAT \<Rightarrow> (st, m(f \<mapsto> field_decimal D m a))
      | _ \<Rightarrow> (st, m(f \<mapsto> ha_val a)))"

text \<open>All arguments, and how many fields are new.\<close>

fun write_all :: "kv_util \<Rightarrow> 'd decimal \<Rightarrow> hash_write \<Rightarrow> hash_arg list \<Rightarrow> (byte list \<Rightarrow> byte list option) \<Rightarrow> byte list \<Rightarrow> byte list option" where
  "write_all U D cmd [] m = m"
| "write_all U D cmd (a # as) m = write_all U D cmd as (snd (hfield_write U D cmd a m))"

fun new_fields :: "hash_arg list \<Rightarrow> (byte list \<Rightarrow> byte list option) \<Rightarrow> nat" where
  "new_fields [] m = 0"
| "new_fields (a # as) m = (if m (ha_field a) = None then 1 else 0) + new_fields as (m(ha_field a \<mapsto> ha_val a))"

lemma new_fields_card: "finite (dom m) \<Longrightarrow> cmd = DO_HSET \<or> cmd = DO_HMSET \<Longrightarrow>
    card (dom (write_all U D cmd as m)) = card (dom m) + new_fields as m"
proof (induction as arbitrary: m)
  case (Cons a as)
  let ?m = "m(ha_field a \<mapsto> ha_val a)"
  have "snd (hfield_write U D cmd a m) = ?m" using Cons.prems(2) by (auto simp: hfield_write_def Let_def)
  moreover have "card (dom ?m) = card (dom m) + (if m (ha_field a) = None then 1 else 0)"
    using Cons.prems(1) by (cases "m (ha_field a)") (simp_all add: card_insert_if domIff del: fun_upd_apply)
  moreover have "card (dom (write_all U D cmd as ?m)) = card (dom ?m) + new_fields as ?m"
    by (rule Cons.IH [OF _ Cons.prems(2)]) (simp only: dom_fun_upd option.distinct if_False finite_insert Cons.prems(1))
  ultimately show ?case by (simp del: fun_upd_apply dom_fun_upd)
qed simp

text \<open>The arguments of a command from the first on; \<open>None\<close> is one that is no string.\<close>

lemma next_arg_less: "next_arg ex cmd argi a = Some (Some (a1, argi1)) \<Longrightarrow> argi < argi1 \<and> argi < argc ex"
  by (auto simp: next_arg_def split: if_splits option.splits)

function arg_list :: "redis_exec \<Rightarrow> hash_write \<Rightarrow> nat \<Rightarrow> hash_arg \<Rightarrow> hash_arg list option" where
  "arg_list ex cmd argi a =
     (case next_arg ex cmd argi a of None \<Rightarrow> Some [a] | Some None \<Rightarrow> None
      | Some (Some (a1, argi1)) \<Rightarrow> map_option ((#) a) (arg_list ex cmd argi1 a1))"
  by pat_completeness auto
termination
  by (relation "measure (\<lambda>(ex, cmd, argi, a). argc ex - argi)") (auto dest!: next_arg_less)

declare arg_list.simps [simp del]

text \<open>The reply: the status, the number of the state and what is sent, for the last argument.\<close>

definition write_reply :: "kv_util \<Rightarrow> 'd decimal \<Rightarrow> hash_write \<Rightarrow> hash_arg list \<Rightarrow> (byte list \<Rightarrow> byte list option) \<Rightarrow> exec_status \<times> byte list" where
  "write_reply U D cmd as m =
     (let f = ha_field (hd as) in
      case cmd of
        DO_HSET \<Rightarrow> (EXEC_SEND_INT, [])
      | DO_HMSET \<Rightarrow> (EXEC_SEND_OK, [])
      | DO_HSETNX \<Rightarrow> (if m f = None then EXEC_SEND_ONE else EXEC_SEND_ZERO, [])
      | DO_HAPPEND \<Rightarrow> (if m f = None then EXEC_SEND_ONE else EXEC_SEND_ZERO, [])
      | DO_HINCRBY \<Rightarrow> (EXEC_OK, [58] @ int64_to_string U (field_number m (hd as)) @ crlf)
      | DO_HINCRBYFLOAT \<Rightarrow> (let s = field_decimal D m (hd as) in
          (EXEC_OK, [36] @ int64_to_string U (int (length s)) @ crlf @ s @ crlf)))"

text \<open>The values that numbers are read from fit the buffer they are joined in.\<close>

definition values_fit :: "hash_write \<Rightarrow> (byte list \<Rightarrow> byte list option) \<Rightarrow> bool" where
  "values_fit cmd m \<longleftrightarrow> (cmd = DO_HINCRBY \<or> cmd = DO_HINCRBYFLOAT) \<longrightarrow> (\<forall>w\<in>ran m. length w \<le> 63)"

text \<open>The bytes an operation needs.\<close>

definition op_bytes :: "('e, 'd) hash_env \<Rightarrow> hash_write \<Rightarrow> hash_arg \<Rightarrow> byte list \<Rightarrow> nat" where
  "op_bytes V cmd a d = length (ha_field a) +
     (case cmd of DO_HINCRBY \<Rightarrow> length (int64_to_string (he_util V) (field_int V d a)) | DO_HINCRBYFLOAT \<Rightarrow> length (field_float V d a)
      | DO_HAPPEND \<Rightarrow> length (ha_val a) + length (ha_val2 a) | _ \<Rightarrow> length (ha_val a))"

locale hash_store = list_ctx "he_ops V" "he_seg V" "hh_class (he_hash V)" valid pairs "[]" room need + md_hash "he_hash V" valid pairs room need
  for V :: "('e, 'd) hash_env" and valid :: "byte list \<Rightarrow> bool" and pairs :: "byte list \<Rightarrow> (byte list \<times> byte list) list"
    and room :: "byte list \<Rightarrow> nat \<Rightarrow> bool" and need :: "nat \<Rightarrow> nat"
begin

abbreviation "data \<equiv> x_data (he_ops V)"
abbreviation "dmap d \<equiv> map_of (pairs d)"

lemma field_int_eq:
  assumes "valid d" "values_fit DO_HINCRBY (dmap d)"
  shows "field_int V d a = field_number (dmap d) a"
proof -
  obtain st v v2 where g: "hh_hget (he_hash V) d (ha_field a) = (st, v, v2)" by (metis prod_cases3)
  note h = hget [OF assms(1) g]
  show ?thesis
  proof (cases "dmap d (ha_field a)")
    case None
    then show ?thesis using h by (simp add: field_int_def field_number_def g)
  next
    case (Some w)
    then have "length w \<le> 63" using assms(2) by (auto simp: values_fit_def ran_def)
    then have "(if v2 = [] then v else if v = [] then v2 else take 64 (v @ v2)) = w" using h Some by auto
    then show ?thesis using h Some by (simp add: field_int_def field_number_def g)
  qed
qed

lemma field_float_eq:
  assumes "valid d" "values_fit DO_HINCRBYFLOAT (dmap d)"
  shows "field_float V d a = field_decimal (he_dec V) (dmap d) a"
proof -
  obtain st v v2 where g: "hh_hget (he_hash V) d (ha_field a) = (st, v, v2)" by (metis prod_cases3)
  note h = hget [OF assms(1) g]
  show ?thesis
  proof (cases "dmap d (ha_field a)")
    case None
    then show ?thesis using h by (simp add: field_float_def field_decimal_def g)
  next
    case (Some w)
    then have "length w \<le> 63" using assms(2) by (auto simp: values_fit_def ran_def)
    then have "take 63 (v @ v2) = w" using h Some by auto
    then show ?thesis using h Some by (simp add: field_float_def field_decimal_def g)
  qed
qed

lemma hwrite_op_spec:
  assumes "valid d" "hwrite_op V cmd a d = ((st, d'), out)" "values_fit cmd (dmap d)"
  shows "valid d' \<and> length d' = length d \<and> ((st, dmap d') = hfield_write (he_util V) (he_dec V) cmd a (dmap d) \<or>
    st = HASH_FULL \<and> dmap d' = dmap d \<and> \<not> room d (op_bytes V cmd a d))"
proof (cases cmd)
  case DO_HSET
  then show ?thesis using hset [OF assms(1), of "ha_field a" "ha_val a" st d'] assms(2)
    by (auto simp: hwrite_op_def hfield_write_def op_bytes_def Let_def)
next
  case DO_HMSET
  then show ?thesis using hset [OF assms(1), of "ha_field a" "ha_val a" st d'] assms(2)
    by (auto simp: hwrite_op_def hfield_write_def op_bytes_def Let_def)
next
  case DO_HSETNX
  then show ?thesis using hsetnx [OF assms(1), of "ha_field a" "ha_val a" st d'] assms(2)
    by (auto simp: hwrite_op_def hfield_write_def op_bytes_def Let_def split: if_splits)
next
  case DO_HAPPEND
  then show ?thesis using happend [OF assms(1), of "ha_field a" "ha_val a" "ha_val2 a" st d'] assms(2)
    by (auto simp: hwrite_op_def hfield_write_def op_bytes_def Let_def add.assoc)
next
  case DO_HINCRBY
  then show ?thesis using hupdate [OF assms(1), of "ha_field a" _ st d'] field_int_eq [OF assms(1)] assms(2,3)
    by (auto simp: hwrite_op_def hfield_write_def op_bytes_def Let_def)
next
  case DO_HINCRBYFLOAT
  then show ?thesis using hupdate [OF assms(1), of "ha_field a" _ st d'] field_float_eq [OF assms(1)] assms(2,3)
    by (auto simp: hwrite_op_def hfield_write_def op_bytes_def Let_def)
qed

lemma hwrite_out:
  assumes "valid d" "values_fit cmd (dmap d)"
  shows "snd (hwrite_op V cmd a d) = snd (write_reply (he_util V) (he_dec V) cmd (a # as) (dmap d))"
  using assms field_int_eq field_float_eq by (cases cmd) (simp_all add: hwrite_op_def write_reply_def Let_def)

end

definition next_write :: "('e, 'd) hash_env \<Rightarrow> redis_exec \<Rightarrow> hash_write \<Rightarrow> nat \<Rightarrow> nat \<Rightarrow> bool \<Rightarrow> hash_arg \<Rightarrow> hash_status \<Rightarrow> byte list
    \<Rightarrow> 'e xst \<Rightarrow> (exec_status \<times> 'e xst) option" where
  "next_write V ex cmd argi retry fresh a st out x1 =
     (let x2 = (if cmd = DO_HSET \<and> st = HASH_OK then x1\<lparr>x_ival := x_ival x1 + 1\<rparr> else x1);
          new = (fresh \<or> cmd = DO_HAPPEND \<and> st = HASH_OK) in
      case next_arg ex cmd argi a of
        None \<Rightarrow> Some (hwrite_done cmd st new out x2)
      | Some None \<Rightarrow> Some (ERR_BAD_ARGS, x2)
      | Some (Some (a1, argi1)) \<Rightarrow> hwrite_loop V ex cmd argi1 retry new a1 x2)"

lemma hfield_write_ok: "hfield_write U D cmd a m \<noteq> (HASH_FULL, m')"
  by (cases cmd) (auto simp: hfield_write_def Let_def)

context hash_store
begin

lemma op_bytes_eq: "valid d \<Longrightarrow> valid d' \<Longrightarrow> values_fit cmd (dmap d) \<Longrightarrow> dmap d = dmap d' \<Longrightarrow> op_bytes V cmd a d = op_bytes V cmd a d'"
  using field_int_eq field_float_eq by (cases cmd) (auto simp: op_bytes_def)

lemma hwrite_one:
  assumes "valid (data x)" "x_strm_ok x" "values_fit cmd (dmap (data x))"
  shows "(\<exists>y. hwrite_loop V ex cmd argi retry fresh a x = Some (ERR_KV_STATUS, y) \<and> x_kstatus y \<noteq> KEY_OK) \<or>
    (\<exists>st y r. hwrite_loop V ex cmd argi retry fresh a x =
         next_write V ex cmd argi r fresh a st (snd (write_reply (he_util V) (he_dec V) cmd (a # as) (dmap (data x)))) y
       \<and> valid (data y) \<and> (st, dmap (data y)) = hfield_write (he_util V) (he_dec V) cmd a (dmap (data x))
       \<and> x_out y = x_out x \<and> x_ival y = x_ival x \<and> x_strm_ok y)"
  using assms
proof (induction "need (op_bytes V cmd a (data x)) - (length (ha_field a) + (if cmd = DO_HINCRBY then 4 else length (ha_val a)) + 3 + retry)"
    arbitrary: x retry rule: less_induct)
  case less
  let ?b = "length (ha_field a) + (if cmd = DO_HINCRBY then 4 else length (ha_val a)) + 3"
  let ?out = "\<lambda>d. snd (write_reply (he_util V) (he_dec V) cmd (a # as) (dmap d))"
  obtain st d out where op: "hwrite_op V cmd a (data x) = ((st, d), out)" by (metis surj_pair)
  note spec = hwrite_op_spec [OF less.prems(1) op less.prems(3)]
  have out: "out = ?out (data x)" using hwrite_out [OF less.prems(1,3), of a as] op by simp
  define x1 where "x1 = put_data (he_ops V) x d"
  have x1: "data x1 = d" "x_out x1 = x_out x" "x_ival x1 = x_ival x" "x_strm_ok x1"
    using spec less.prems(2) by (simp_all add: x1_def put_data_data)
  show ?case
  proof (cases "st = HASH_FULL")
    case False
    then have "hwrite_loop V ex cmd argi retry fresh a x = next_write V ex cmd argi retry fresh a st out x1"
      by (subst hwrite_loop.simps) (simp add: less.prems(2) op x1_def next_write_def Let_def)
    then show ?thesis using spec False x1 out by metis
  next
    case True
    define x2 where "x2 = lx_realloc (hh_class (he_hash V)) (he_ops V) (he_seg V) retry ?b x1"
    have loop: "hwrite_loop V ex cmd argi retry fresh a x =
        (if x_kstatus x2 = KEY_OK then hwrite_loop V ex cmd argi (retry + 16) fresh a x2 else Some (ERR_KV_STATUS, x2))"
      by (subst hwrite_loop.simps) (simp add: less.prems(2) op x1_def x2_def True Let_def)
    have same: "x_out x2 = x_out x" "x_ival x2 = x_ival x" "x_strm_ok x2" using x1 by (simp_all add: x2_def)
    have full: "dmap d = dmap (data x)" using spec True hfield_write_ok by metis
    show ?thesis
    proof (cases "x_kstatus x2 = KEY_OK")
      case False
      then show ?thesis using loop by simp
    next
      case kst: True
      have v1: "valid (data x1)" using spec x1 by simp
      note re = realloc_ok [OF v1 kst [unfolded x2_def], folded x2_def]
      have d2: "valid (data x2)" "dmap (data x2) = dmap (data x)" using re full x1 by simp_all
      have fit: "values_fit cmd (dmap (data x2))" using less.prems(3) d2(2) by simp
      have bytes: "op_bytes V cmd a (data x2) = op_bytes V cmd a (data x)"
        using op_bytes_eq [OF d2(1) less.prems(1) fit d2(2)] .
      show ?thesis
      proof (cases "need (op_bytes V cmd a (data x)) \<le> ?b + retry")
        case True
        then have room: "room (data x2) (op_bytes V cmd a (data x2))" using re bytes by simp
        obtain st2 d3 out2 where op2: "hwrite_op V cmd a (data x2) = ((st2, d3), out2)" by (metis surj_pair)
        note spec2 = hwrite_op_spec [OF d2(1) op2 fit]
        have out2: "out2 = ?out (data x)" using hwrite_out [OF d2(1) fit, of a as] op2 d2(2) by simp
        define x3 where "x3 = put_data (he_ops V) x2 d3"
        have x3: "data x3 = d3" "x_out x3 = x_out x" "x_ival x3 = x_ival x" "x_strm_ok x3" using spec2 same by (simp_all add: x3_def put_data_data)
        have st2: "(st2, dmap d3) = hfield_write (he_util V) (he_dec V) cmd a (dmap (data x2))" "st2 \<noteq> HASH_FULL"
          using spec2 room hfield_write_ok by metis+
        have "hwrite_loop V ex cmd argi retry fresh a x = next_write V ex cmd argi (retry + 16) fresh a st2 out2 x3"
          unfolding loop using kst st2(2) same(3) by (subst hwrite_loop.simps) (simp add: op2 x3_def next_write_def Let_def)
        then show ?thesis using st2(1) spec2 x3 d2(2) out2 by metis
      next
        case False
        then have "need (op_bytes V cmd a (data x2)) - (?b + (retry + 16)) < need (op_bytes V cmd a (data x)) - (?b + retry)"
          using bytes by simp
        note IH = less.hyps [OF this d2(1) same(3) fit]
        then show ?thesis using loop kst d2(2) same by metis
      qed
    qed
  qed
qed

lemma values_fit_many:
  "next_arg ex cmd argi a = Some (Some r) \<Longrightarrow> values_fit cmd m"
  by (auto simp: next_arg_def values_fit_def split: if_splits)

lemma hwrite_loop_spec:
  assumes "arg_list ex cmd argi a = Some as"
  shows "valid (data x) \<Longrightarrow> x_strm_ok x \<Longrightarrow> values_fit cmd (dmap (data x)) \<Longrightarrow>
    \<exists>st y. hwrite_loop V ex cmd argi retry fresh a x = Some (st, y) \<and>
    (st = ERR_KV_STATUS \<and> x_kstatus y \<noteq> KEY_OK \<or>
     (case write_reply (he_util V) (he_dec V) cmd as (dmap (data x)) of (rst, out) \<Rightarrow>
       st = (if fresh \<and> cmd = DO_HAPPEND then EXEC_SEND_ONE else rst) \<and> x_out y = x_out x @ out \<and> valid (data y)
       \<and> dmap (data y) = write_all (he_util V) (he_dec V) cmd as (dmap (data x))
       \<and> x_ival y = x_ival x + (if cmd = DO_HSET then int (new_fields as (dmap (data x))) else 0)))"
  using assms
proof (induction "argc ex - argi" arbitrary: argi a as x retry fresh rule: less_induct)
  case less
  show ?case using hwrite_one [OF less.prems(1-3), of ex argi retry fresh a "tl as"]
  proof (elim disjE exE conjE)
    fix st y r
    let ?m = "dmap (data x)"
    assume n: "hwrite_loop V ex cmd argi retry fresh a x =
        next_write V ex cmd argi r fresh a st (snd (write_reply (he_util V) (he_dec V) cmd (a # tl as) ?m)) y"
      "valid (data y)" "(st, dmap (data y)) = hfield_write (he_util V) (he_dec V) cmd a ?m" "x_out y = x_out x" "x_ival y = x_ival x" "x_strm_ok y"
    show ?thesis
    proof (cases "next_arg ex cmd argi a")
      case None
      then have as: "as = [a]" using less.prems(4) by (subst (asm) arg_list.simps) simp
      show ?thesis using n None
        by (cases cmd) (auto simp: next_write_def hwrite_done_def as write_reply_def hfield_write_def Let_def x_data_def split: if_splits)
    next
      case (Some r1)
      obtain a1 argi1 as1 where nx: "r1 = Some (a1, argi1)" "arg_list ex cmd argi1 a1 = Some as1" "as = a # as1"
        using less.prems(4) Some by (subst (asm) arg_list.simps) (auto split: option.splits)
      have lt: "argc ex - argi1 < argc ex - argi" using next_arg_less [OF Some [unfolded nx(1)]] by linarith
      have cmd: "cmd = DO_HSET \<or> cmd = DO_HMSET \<or> cmd = DO_HAPPEND \<and> ha_field a1 = ha_field a"
        using Some nx(1) by (auto simp: next_arg_def split: if_splits option.splits)
      have hd: "hd as1 = a1" using nx(2) by (subst (asm) arg_list.simps) (auto split: option.splits)
      define x2 where "x2 = (if cmd = DO_HSET \<and> st = HASH_OK then y\<lparr>x_ival := x_ival y + 1\<rparr> else y)"
      have x2: "data x2 = data y" "x_out x2 = x_out x" "x_strm_ok x2" "x_ival x2 = x_ival x + (if cmd = DO_HSET \<and> st = HASH_OK then 1 else 0)"
        using n by (simp_all add: x2_def x_data_def)
      let ?f = "fresh \<or> cmd = DO_HAPPEND \<and> st = HASH_OK"
      have loop: "hwrite_loop V ex cmd argi retry fresh a x = hwrite_loop V ex cmd argi1 r ?f a1 x2"
        unfolding n(1) by (simp add: next_write_def Some nx(1) x2_def Let_def)
      have v: "valid (data x2)" "values_fit cmd (dmap (data x2))" using n(2) x2(1) values_fit_many Some nx(1) by auto
      note IH = less.hyps [OF lt v(1) x2(3) v(2) nx(2), of r ?f, folded loop]
      have m1: "dmap (data x2) = snd (hfield_write (he_util V) (he_dec V) cmd a ?m)"
        "st = HASH_OK \<longleftrightarrow> ?m (ha_field a) = None" using n(3) x2(1) cmd by (auto simp: hfield_write_def Let_def split: if_splits)
      have all: "write_all (he_util V) (he_dec V) cmd as ?m = write_all (he_util V) (he_dec V) cmd as1 (dmap (data x2))"
        using m1(1) nx(3) by simp
      have new: "cmd = DO_HSET \<Longrightarrow> new_fields as ?m = (if st = HASH_OK then 1 else 0) + new_fields as1 (dmap (data x2))"
        using m1 nx(3) by (simp add: hfield_write_def Let_def)
      have reply: "(if fresh \<and> cmd = DO_HAPPEND then EXEC_SEND_ONE else fst (write_reply (he_util V) (he_dec V) cmd as ?m))
          = (if ?f \<and> cmd = DO_HAPPEND then EXEC_SEND_ONE else fst (write_reply (he_util V) (he_dec V) cmd as1 (dmap (data x2))))"
        "snd (write_reply (he_util V) (he_dec V) cmd as ?m) = []" "snd (write_reply (he_util V) (he_dec V) cmd as1 (dmap (data x2))) = []"
        using cmd hd m1 nx(3) by (auto simp: write_reply_def hfield_write_def Let_def)
      show ?thesis using IH x2 all new reply by (auto simp: case_prod_beta split del: if_split) (auto split: if_splits)
    qed
  qed blast
qed

end

lemma arg_list_step:
  assumes "arg_list ex cmd argi a = Some as"
  shows "next_arg ex cmd argi a = None \<or> (\<exists>a1 argi1 as1. next_arg ex cmd argi a = Some (Some (a1, argi1)) \<and> arg_list ex cmd argi1 a1 = Some as1)"
  using assms by (subst (asm) arg_list.simps) (auto split: option.splits)

lemma append_args:
  "arg_list ex DO_HAPPEND argi a = Some as \<Longrightarrow> argi \<le> j \<Longrightarrow> j < argc ex \<Longrightarrow> get_arg_str (ex_msg ex) j \<noteq> None"
proof (induction "argc ex - argi" arbitrary: argi a as rule: less_induct)
  case less
  then obtain a1 argi1 as1 where n: "next_arg ex DO_HAPPEND argi a = Some (Some (a1, argi1))" "arg_list ex DO_HAPPEND argi1 a1 = Some as1"
    using arg_list_step [OF less.prems(1)] by (auto simp: next_arg_def)
  show ?case
  proof (cases "argi1 \<le> j")
    case True
    then show ?thesis using less.hyps [OF _ n(2)] next_arg_less [OF n(1)] less.prems(3) by fastforce
  next
    case False
    then have "j = argi \<or> j = argi + 1 \<and> argi1 = argi + 2"
      using n(1) less.prems(2) by (auto simp: next_arg_def split: if_splits option.splits)
    then show ?thesis using n(1) less.prems(3) by (auto simp: next_arg_def split: if_splits option.splits)
  qed
qed

lemma append_size: "(\<And>k. j \<le> k \<Longrightarrow> k < argc ex \<Longrightarrow> get_arg_str (ex_msg ex) k \<noteq> None) \<Longrightarrow> \<exists>r. new_hash_size ex DO_HAPPEND j c nd = Some r"
proof (induction "argc ex - j" arbitrary: j c nd rule: less_induct)
  case less
  show ?case
  proof (cases "argc ex \<le> j")
    case False
    then obtain v where "get_arg_str (ex_msg ex) j = Some v" using less.prems [of j] by auto
    moreover have "\<exists>r. new_hash_size ex DO_HAPPEND (j + 1) c (nd + length v) = Some r"
      by (rule less.hyps) (use False less.prems in auto)
    ultimately show ?thesis using False by (subst new_hash_size.simps) simp
  qed (subst new_hash_size.simps, simp)
qed

lemma set_size:
  assumes "cmd = DO_HSET \<or> cmd = DO_HMSET"
  shows "arg_list ex cmd argi a = Some as \<Longrightarrow> \<exists>r. new_hash_size ex cmd argi c nd = Some r"
proof (induction "argc ex - argi" arbitrary: argi a as c nd rule: less_induct)
  case less
  show ?case
  proof (cases "argc ex \<le> argi")
    case False
    then obtain a1 argi1 as1 where n: "next_arg ex cmd argi a = Some (Some (a1, argi1))" "arg_list ex cmd argi1 a1 = Some as1"
      using arg_list_step [OF less.prems] assms by (auto simp: next_arg_def)
    then obtain f v where "get_arg_str (ex_msg ex) argi = Some f" "get_arg_str (ex_msg ex) (argi + 1) = Some v" "argi1 = argi + 2"
      using assms by (auto simp: next_arg_def split: if_splits option.splits)
    moreover have "\<exists>r. new_hash_size ex cmd argi1 (c + 1) (nd + length f + length v + 3) = Some r"
      by (rule less.hyps [OF _ n(2)]) (use False calculation in simp)
    ultimately show ?thesis using False assms by (subst new_hash_size.simps) auto
  qed (subst new_hash_size.simps, simp)
qed

lemma new_size_some:
  assumes "arg_list ex cmd argi a = Some as" "cmd = DO_HSETNX \<or> cmd = DO_HINCRBY \<or> cmd = DO_HINCRBYFLOAT \<Longrightarrow> argc ex \<le> argi"
  shows "\<exists>c n. new_hash_size ex cmd argi 2 nd = Some (c, n)"
proof (cases "cmd = DO_HSETNX \<or> cmd = DO_HINCRBY \<or> cmd = DO_HINCRBYFLOAT")
  case True
  then show ?thesis using assms(2) by (subst new_hash_size.simps) auto
next
  case False
  then consider "cmd = DO_HAPPEND" | "cmd = DO_HSET \<or> cmd = DO_HMSET" by (cases cmd) auto
  then have "\<exists>r. new_hash_size ex cmd argi 2 nd = Some r"
  proof cases
    case 1
    then show ?thesis using append_size [of argi ex 2 nd] append_args assms(1) by blast
  next
    case 2
    then show ?thesis using set_size assms(1) by blast
  qed
  then show ?thesis by (auto simp: split_paired_all)
qed

text \<open>The result of a write: the key store failed, or the reply and the map are those of the arguments.\<close>

definition hwrite_ok :: "('e, 'd) hash_env \<Rightarrow> (byte list \<Rightarrow> bool) \<Rightarrow> (byte list \<Rightarrow> (byte list \<times> byte list) list) \<Rightarrow> hash_write \<Rightarrow> hash_arg list
    \<Rightarrow> 'e xst \<Rightarrow> (byte list \<Rightarrow> byte list option) \<Rightarrow> exec_status \<times> 'e xst \<Rightarrow> bool" where
  "hwrite_ok V valid pairs cmd as x m r \<longleftrightarrow> (case r of (st, y) \<Rightarrow>
     st = ERR_KV_STATUS \<and> x_kstatus y \<noteq> KEY_OK \<or>
     (let d = x_data (he_ops V) y; m' = write_all (he_util V) (he_dec V) cmd as m in
      (st, x_out y) = (case write_reply (he_util V) (he_dec V) cmd as m of (rst, out) \<Rightarrow> (rst, x_out x @ out))
      \<and> valid d \<and> map_of (pairs d) = m'
      \<and> x_ival y = x_ival x + (if cmd = DO_HSET then int (card (dom m') - card (dom m)) else 0)))"

context hash_store
begin

lemma loop_ok:
  assumes "arg_list ex cmd argi a = Some as" "valid (data x)" "x_strm_ok x" "values_fit cmd (dmap (data x))"
  shows "\<exists>r. hwrite_loop V ex cmd argi retry False a x = Some r \<and> hwrite_ok V valid pairs cmd as x (dmap (data x)) r"
proof -
  let ?m = "dmap (data x)"
  have "cmd = DO_HSET \<Longrightarrow> card (dom (write_all (he_util V) (he_dec V) cmd as ?m)) - card (dom ?m) = new_fields as ?m"
    using new_fields_card [of ?m cmd "he_util V" "he_dec V" as] by (simp add: finite_dom_map_of)
  then show ?thesis using hwrite_loop_spec [OF assms(1-4), of retry False]
    by (auto simp: hwrite_ok_def Let_def split: prod.splits)
qed

lemma do_hwrite_spec:
  assumes "hwrite_args ex cmd = Some (a, argi)" "arg_list ex cmd argi a = Some as"
    and "cmd = DO_HSETNX \<or> cmd = DO_HINCRBY \<or> cmd = DO_HINCRBYFLOAT \<Longrightarrow> argc ex \<le> argi"
    and "do_key_fetch (he_ops V) ex MD_HASH False (x\<lparr>x_ival := ha_int a\<rparr>) = Some (st, x1)"
    and "fetched valid pairs [] (he_ops V) st x1 ps" "st \<noteq> KEY_NOT_FOUND" "x_strm_ok x1" "values_fit cmd (map_of ps)"
  shows "\<exists>r. do_hwrite V ex cmd x = Some r \<and> hwrite_ok V valid pairs cmd as x1 (map_of ps) r"
proof (cases "st = KEY_OK")
  case True
  let ?x2 = "lx_open (he_seg V) x1"
  have d: "valid (data ?x2)" "dmap (data ?x2) = map_of ps" using assms(5) True by (simp_all add: fetched_def)
  have same: "hwrite_ok V valid pairs cmd as ?x2 m r \<Longrightarrow> hwrite_ok V valid pairs cmd as x1 m r" for m r
    by (simp add: hwrite_ok_def)
  show ?thesis using loop_ok [OF assms(2) d(1), of 0] assms(1,4,7,8) d(2) True same
    by (cases "x_kstatus ?x2 = KEY_OK") (auto simp: do_hwrite_def Let_def hwrite_ok_def [of _ _ _ _ _ _ _ "(ERR_KV_STATUS, _)"])
next
  case False
  then have new: "st = KEY_IS_NEW" "ps = []" using assms(5,6) by (auto simp: fetched_def)
  obtain c n where n: "new_hash_size ex cmd argi 2 (length (ha_field a) + (if cmd = DO_HINCRBY then 4 else length (ha_val a)) + 3) = Some (c, n)"
    using new_size_some [OF assms(2,3)] by blast
  let ?x2 = "lx_create (hh_class (he_hash V)) (he_ops V) MD_HASH c n x1"
  have same: "hwrite_ok V valid pairs cmd as ?x2 m r \<Longrightarrow> hwrite_ok V valid pairs cmd as x1 m r" for m r
    by (simp add: hwrite_ok_def)
  show ?thesis
  proof (cases "x_kstatus ?x2 = KEY_OK")
    case True
    note d = create_ok [OF True]
    then show ?thesis using loop_ok [OF assms(2), of ?x2 0] assms(1,4,7) new n True same
      by (auto simp: do_hwrite_def Let_def values_fit_def)
  next
    case False
    then show ?thesis using assms(1,4) new n by (simp add: do_hwrite_def Let_def hwrite_ok_def)
  qed
qed

end

section \<open>What the reads reply\<close>

definition read_spec :: "kv_util \<Rightarrow> hash_read \<Rightarrow> byte list \<Rightarrow> int \<Rightarrow> (byte list \<times> byte list) list \<Rightarrow> exec_status \<times> int \<times> byte list" where
  "read_spec U cmd f iv ps =
     (case cmd of
        DO_HLEN \<Rightarrow> (EXEC_SEND_INT, int (length ps), [])
      | DO_HEXISTS \<Rightarrow> (if map_of ps f = None then EXEC_SEND_ZERO else EXEC_SEND_ONE, iv, [])
      | DO_HGET \<Rightarrow> (case map_of ps f of None \<Rightarrow> (EXEC_SEND_NIL, iv, []) | Some w \<Rightarrow> (EXEC_OK, iv, send_string U True w))
      | DO_HSTRLEN \<Rightarrow> (case map_of ps f of None \<Rightarrow> (EXEC_SEND_ZERO, iv, []) | Some w \<Rightarrow> (EXEC_SEND_INT, int (length w), [])))"

text \<open>What an entry adds to the reply, and a walk of a client along the cursors of HSCAN; the number bounds
  its calls.\<close>

abbreviation entry_items :: "kv_util \<Rightarrow> hash_scan \<Rightarrow> byte list \<times> byte list \<Rightarrow> byte list" where
  "entry_items U cmd p \<equiv> fst (hash_items U cmd (fst p, snd p, []))"

definition entry_count :: "hash_scan \<Rightarrow> nat" where
  "entry_count cmd = (if cmd = DO_HGETALL \<or> cmd = DO_HSCAN then 2 else 1)"

primrec hscan_walk :: "nat \<Rightarrow> ('e, 'd) hash_env \<Rightarrow> (byte list \<Rightarrow> bool) \<Rightarrow> nat \<Rightarrow> byte list \<Rightarrow> int \<Rightarrow> byte list option" where
  "hscan_walk 0 V rx maxcnt d pos = None"
| "hscan_walk (Suc n) V rx maxcnt d pos =
     (let count = hh_count (he_hash V) d in
      case hash_scan_loop V DO_HSCAN rx maxcnt d count (if pos > 0 then nat pos else 1) 0 [] of (i, cnt, q) \<Rightarrow>
        if i = count then Some q else map_option ((@) q) (hscan_walk n V rx maxcnt d (int i)))"

lemma hash_items_join: "hash_items U cmd (k, v, v2) = (entry_items U cmd (k, v @ v2), entry_count cmd)"
  by (simp add: hash_items_def entry_count_def append_concat [of U v v2] Let_def)

text \<open>The entries a scan shows.\<close>

definition shown :: "hash_scan \<Rightarrow> (byte list \<Rightarrow> bool) \<Rightarrow> (byte list \<times> byte list) list \<Rightarrow> (byte list \<times> byte list) list" where
  "shown cmd rx ps = filter (\<lambda>p. cmd = DO_HSCAN \<longrightarrow> rx (fst p)) ps"

lemma shown_append: "shown cmd rx (as @ bs) = shown cmd rx as @ shown cmd rx bs"
  by (simp add: shown_def)

context hash_store
begin

text \<open>A scan shows the entries between where it starts and where it stops; it stops at the end or when it
  has as many as it may have, and then it has moved.\<close>

lemma hash_scan_loop_spec:
  assumes "valid d" "ps = pairs d" "0 < i" "i \<le> length ps + 1" "hash_scan_loop V cmd rx maxcnt d (length ps + 1) i cnt q = (i', cnt', q')"
  shows "i \<le> i' \<and> i' \<le> length ps + 1 \<and> (let es = shown cmd rx (take (i' - i) (drop (i - 1) ps)) in
      q' = q @ concat (map (entry_items (he_util V) cmd) es) \<and> cnt' = cnt + entry_count cmd * length es)
    \<and> (maxcnt = 0 \<longrightarrow> i' = length ps + 1) \<and> (cnt < maxcnt \<and> i \<le> length ps \<longrightarrow> i < i')"
  using assms(3-)
proof (induction "length ps + 1 - i" arbitrary: i cnt q rule: less_induct)
  case less
  show ?case
  proof (cases "length ps + 1 \<le> i \<or> maxcnt \<noteq> 0 \<and> maxcnt \<le> cnt")
    case True
    then show ?thesis using less.prems by (subst (asm) hash_scan_loop.simps) (auto simp: shown_def)
  next
    case False
    then have i: "i \<le> length ps" "maxcnt = 0 \<or> cnt < maxcnt" by auto
    obtain st k v v2 where h: "hh_hindex (he_hash V) d i = (st, k, v, v2)" by (metis prod_cases4)
    have st: "st = HASH_OK" using hindex(1) [OF assms(1) h] less.prems(1) i(1) assms(2) by simp
    have p: "ps ! (i - 1) = (k, v @ v2)" using hindex(2) [OF assms(1)] h st assms(2) by blast
    have d: "drop (i - 1) ps = (k, v @ v2) # drop i ps"
      using Cons_nth_drop_Suc [of "i - 1" ps] p i(1) less.prems(1) by simp
    define vis where "vis \<longleftrightarrow> \<not> (cmd = DO_HSCAN \<and> \<not> rx k)"
    define c1 q1 where "c1 = (if vis then cnt + entry_count cmd else cnt)"
      and "q1 = (if vis then q @ entry_items (he_util V) cmd (k, v @ v2) else q)"
    have step: "hash_scan_loop V cmd rx maxcnt d (length ps + 1) i cnt q = hash_scan_loop V cmd rx maxcnt d (length ps + 1) (i + 1) c1 q1"
      using False by (subst hash_scan_loop.simps) (auto simp: h st hash_items_join [of "he_util V" cmd k v v2] vis_def c1_def q1_def)
    have IH: "i + 1 \<le> i' \<and> i' \<le> length ps + 1 \<and> (let es = shown cmd rx (take (i' - (i + 1)) (drop (i + 1 - 1) ps)) in
        q' = q1 @ concat (map (entry_items (he_util V) cmd) es) \<and> cnt' = c1 + entry_count cmd * length es)
      \<and> (maxcnt = 0 \<longrightarrow> i' = length ps + 1)"
      using less.hyps [of "i + 1" c1 q1] i(1) less.prems(1,3) step by auto
    have "i' - i = Suc (i' - (i + 1))" using IH by linarith
    then have "take (i' - i) (drop (i - 1) ps) = (k, v @ v2) # take (i' - (i + 1)) (drop i ps)" unfolding d by simp
    then show ?thesis using IH i by (simp add: Let_def shown_def vis_def c1_def q1_def algebra_simps)
  qed
qed

lemma hscan_walk_spec:
  assumes "valid d" "ps = pairs d" "0 < maxcnt"
  shows "0 < i \<Longrightarrow> i \<le> length ps + 1 \<Longrightarrow> length ps + 1 - i < n \<Longrightarrow>
    hscan_walk n V rx maxcnt d (int i) = Some (concat (map (entry_items (he_util V) DO_HSCAN) (shown DO_HSCAN rx (drop (i - 1) ps))))"
proof (induction n arbitrary: i)
  case (Suc n)
  have c: "hh_count (he_hash V) d = length ps + 1" using count assms by simp
  obtain i' cnt q where l: "hash_scan_loop V DO_HSCAN rx maxcnt d (length ps + 1) i 0 [] = (i', cnt, q)" by (metis prod_cases3)
  note s = hash_scan_loop_spec [OF assms(1,2) Suc.prems(1,2) l]
  have q: "q = concat (map (entry_items (he_util V) DO_HSCAN) (shown DO_HSCAN rx (take (i' - i) (drop (i - 1) ps))))"
    using s by (simp add: Let_def)
  have "drop (i - 1) ps = take (i' - i) (drop (i - 1) ps) @ drop (i' - 1) ps"
    using append_take_drop_id [of "i' - i" "drop (i - 1) ps"] s Suc.prems(1) by (simp add: drop_drop)
  then have all: "concat (map (entry_items (he_util V) DO_HSCAN) (shown DO_HSCAN rx (drop (i - 1) ps)))
      = q @ concat (map (entry_items (he_util V) DO_HSCAN) (shown DO_HSCAN rx (drop (i' - 1) ps)))"
    unfolding q by (metis concat_append map_append shown_append)
  have walk: "hscan_walk (Suc n) V rx maxcnt d (int i) =
      (if i' = length ps + 1 then Some q else map_option ((@) q) (hscan_walk n V rx maxcnt d (int i')))"
    unfolding hscan_walk.simps Let_def c using Suc.prems(1) l by simp
  show ?case unfolding walk
  proof (cases "i' = length ps + 1")
    case True
    then have "drop (i' - 1) ps = []" by simp
    then show "(if i' = length ps + 1 then Some q else map_option ((@) q) (hscan_walk n V rx maxcnt d (int i'))) = Some (concat (map (entry_items (he_util V) DO_HSCAN) (shown DO_HSCAN rx (drop (i - 1) ps))))"
      unfolding all using True by (simp add: shown_def)
  next
    case False
    then have "i < i'" "i' \<le> length ps" using s assms(3) by auto
    then have "hscan_walk n V rx maxcnt d (int i') = Some (concat (map (entry_items (he_util V) DO_HSCAN) (shown DO_HSCAN rx (drop (i' - 1) ps))))"
      using Suc.IH [of i'] Suc.prems by simp
    then show "(if i' = length ps + 1 then Some q else map_option ((@) q) (hscan_walk n V rx maxcnt d (int i'))) = Some (concat (map (entry_items (he_util V) DO_HSCAN) (shown DO_HSCAN rx (drop (i - 1) ps))))"
      unfolding all using False by simp
  qed
qed simp

lemma do_hread_spec:
  assumes "cmd \<noteq> DO_HLEN \<Longrightarrow> get_arg_str (ex_msg ex) 2 = Some f"
    and "do_key_fetch (he_ops V) ex MD_HASH True x = Some (st, x1)" "fetched valid pairs [] (he_ops V) st x1 ps" "st \<noteq> KEY_IS_NEW" "x_strm_ok x1"
  shows "\<exists>st' y. do_hread V ex cmd x = Some (st', y) \<and> (st' = ERR_KV_STATUS \<and> x_kstatus y \<noteq> KEY_OK \<or>
    (case read_spec (he_util V) cmd f (x_ival x1) ps of (r, iv, out) \<Rightarrow>
      x_out y = x_out x1 @ out \<and> (st', x_ival y) = (if st = KEY_NOT_FOUND \<and> cmd = DO_HLEN then (EXEC_SEND_ZERO, x_ival x1) else (r, iv))))"
proof -
  have arg: "\<not> (cmd \<noteq> DO_HLEN \<and> get_arg_str (ex_msg ex) 2 = None)" using assms(1) by auto
  show ?thesis
  proof (cases "st = KEY_OK")
    case False
    then have "st = KEY_NOT_FOUND" "ps = []" using assms(3,4) by (auto simp: fetched_def)
    then show ?thesis using assms(2) arg by (cases cmd) (simp_all add: do_hread_def read_spec_def Let_def)
  next
    case True
    let ?x2 = "lx_open_readonly (he_seg V) x1" and ?f = "the (get_arg_str (ex_msg ex) 2)"
    have d: "valid (data x1)" "pairs (data x1) = ps" using assms(3) True by (auto simp: fetched_def)
    obtain s v v2 where g: "hh_hget (he_hash V) (data x1) f = (s, v, v2)" by (metis prod_cases3)
    note h = hget [OF d(1) g]
    obtain r out x3 where res: "hread_result V cmd ?f ?x2 = (r, out, x3)" by (metis prod_cases3)
    have spec: "read_spec (he_util V) cmd f (x_ival x1) ps = (r, x_ival x3, out) \<and> x_out x3 = x_out x1 \<and> x_ent x3 = x_ent x1"
      using res assms(1,5) h g d hcount [OF d(1)] hexists [OF d(1), of f]
      by (cases cmd) (auto simp: hread_result_def read_spec_def send_concat Let_def split: if_splits option.splits)
    have eq: "do_hread V ex cmd x = Some (if x_kstatus ?x2 \<noteq> KEY_OK then (ERR_KV_STATUS, ?x2) else
        (case hread_result V cmd ?f ?x2 of (status, out, x3) \<Rightarrow>
          let x4 = k_validate (he_ops V) x3 in if x_kstatus x4 = KEY_OK then (status, send out x4) else (ERR_KV_STATUS, x4)))"
      unfolding do_hread_def Let_def if_not_P [OF arg] by (simp add: assms(2) True)
    show ?thesis unfolding eq res using spec True by (auto simp: k_validate_def Let_def)
  qed
qed

end

text \<open>A cursor behind the end comes back as it is: after fields were removed a client that follows the
  cursors asks for ever.\<close>

lemma hscan_past_end:
  assumes "int (hh_count (he_hash V) d) < pos"
  shows "hscan_walk n V rx maxcnt d pos = None"
proof (induction n)
  case (Suc n)
  have "hash_scan_loop V DO_HSCAN rx maxcnt d (hh_count (he_hash V) d) (nat pos) 0 [] = (nat pos, 0, [])"
    by (subst hash_scan_loop.simps) (use assms in auto)
  then show ?case using assms Suc by (simp add: Let_def)
qed simp

text \<open>HSCAN of a key that is not there replies with the cursor 1.\<close>

lemma hscan_missing_cursor:
  "do_key_fetch (he_ops V) ex MD_HASH True x = Some (KEY_NOT_FOUND, x1) \<Longrightarrow> x_kstatus (k_validate (he_ops V) x1) = KEY_OK \<Longrightarrow>
   do_hmultiscan V ex DO_HSCAN 1 maxcnt rx x = Some (EXEC_OK, send (prepend_cursor_array (he_util V) 1 0 []) (k_validate (he_ops V) x1))"
  by (simp add: do_hmultiscan_def scan_done_def Let_def)

section \<open>Properties\<close>


definition mem_hashes :: "(mem_entry, int) hash_env" where
  "mem_hashes = \<lparr>he_hash = mem_hash, he_util = int_str_util,
     he_dec = \<lparr>dec_zero = 0, dec_parse = (\<lambda>bs. case string_to_int bs of Inl _ \<Rightarrow> 0 | Inr i \<Rightarrow> i), dec_plus = (+), dec_string = dec_int\<rparr>,
     he_ops = mem_ops, he_seg = mem_seg\<rparr>"

lemma mem_hashes_sel [simp]:
  "he_hash mem_hashes = mem_hash" "he_util mem_hashes = int_str_util" "he_ops mem_hashes = mem_ops" "he_seg mem_hashes = mem_seg"
  by (simp_all add: mem_hashes_def)

interpretation mem_hashes: hash_store mem_hashes mem_hwf mem_pairs mem_room "\<lambda>n. n"
  unfolding hash_store_def mem_hashes_sel
  using mem_hash.md_hash_axioms mem_seg.seg_entry_axioms by (simp add: list_ctx_def md_hash_def)

definition sample_hash :: "nat \<Rightarrow> (byte list \<times> byte list) list \<Rightarrow> mem_entry xst" where
  "sample_hash n ps = (sample_key (fill n (pack_items (flat ps))))\<lparr>x_ent := \<lparr>me_exists = True, me_type = MD_HASH,
     me_data = fill n (pack_items (flat ps)), me_expires = 0, me_now = 5\<rparr>\<rparr>"

lemma sample_hash_fetch:
  "do_key_fetch mem_ops (sample_write args) MD_HASH False ((sample_hash n ps)\<lparr>x_ival := i\<rparr>)
    = Some (KEY_OK, (sample_hash n ps)\<lparr>x_ival := i, x_type := MD_HASH\<rparr>)"
  "x_strm_ok (sample_hash n ps)"
  by (simp_all add: do_key_fetch_def exec_key_fetch_def acquire_key_def sample_write_def sample_exec_def sample_hash_def
      sample_key_def mem_ops_def Let_def)

lemma sample_hash_holds:
  "length (pack_items (flat ps)) \<le> n \<Longrightarrow> distinct (map fst ps) \<Longrightarrow>
    fetched mem_hwf mem_pairs [] mem_ops KEY_OK ((sample_hash n ps)\<lparr>x_ival := i, x_type := ty\<rparr>) ps"
  by (simp add: fetched_def x_data_def sample_hash_def mem_hwf_def) (simp add: mem_ops_def mem_hwf_def)




text \<open>HMGET of a key that is not there replies with an empty array, whatever was asked; HINCRBY of a field that
  holds no number starts at zero.\<close>

lemma hmget_missing_empty:
  "get_arg_str (ex_msg ex) 2 = Some f \<Longrightarrow> do_key_fetch (he_ops V) ex MD_HASH True x = Some (KEY_NOT_FOUND, x1) \<Longrightarrow>
   x_kstatus (k_validate (he_ops V) x1) = KEY_OK \<Longrightarrow>
   exec_hmget V ex x = Some (EXEC_OK, send (prepend_array (he_util V) 0 []) (k_validate (he_ops V) x1))"
  by (simp add: exec_hmget_def do_hmultiscan_def scan_done_def Let_def)

lemma hincrby_replaces_text:
  "m (ha_field a) = Some (ascii ''abc'') \<Longrightarrow> field_number m a = ha_int a"
proof -
  assume m: "m (ha_field a) = Some (ascii ''abc'')"
  have "isl (string_to_int (ascii ''abc''))" by code_simp
  then show ?thesis using m by (cases "string_to_int (ascii ''abc'')") (simp_all add: field_number_def)
qed

end
