(* ===== verification/Set_Bits.thy ===== *)
theory Set_Bits
  imports Int_Str
begin

text \<open>
  The growing bit set of \<open>include/raids/set_bits.h\<close>, which SPOP and SRANDMEMBER mark the chosen
  members in. Words behind \<open>last\<close> are not cleared until an operation reaches them. The set a
  state stands for is \<open>members\<close>; test_set and set insert, next and prev find its neighbours.
  The memory that malloc and realloc return is a parameter: the words of a block of the given
  size, or nothing. A write outside the block gives \<open>None\<close>.
\<close>

record set_bits =
  sb_last :: nat
  sb_size :: nat
  sb_heap :: bool
  sb_bits :: "u64 list"

type_synonym blocks = "nat \<Rightarrow> u64 list option"

section \<open>The operations\<close>

text \<open>The words of \<open>work\<close> are whatever the memory of the object holds, but for the first.\<close>

definition new_bits :: "u64 list \<Rightarrow> set_bits" where
  "new_bits work = \<lparr>sb_last = 0, sb_size = 16, sb_heap = False, sb_bits = work[0 := 0]\<rparr>"

definition reset_bits :: "set_bits \<Rightarrow> set_bits" where
  "reset_bits s = s\<lparr>sb_last := 0, sb_bits := (sb_bits s)[0 := 0]\<rparr>"

definition pow2_size :: "kv_util \<Rightarrow> nat \<Rightarrow> nat" where
  "pow2_size U sz = (if sz AND (sz - 1) \<noteq> 0 then 2 ^ (64 - kv_clzl U (of_nat sz)) else sz)"

definition alloc_bits :: "kv_util \<Rightarrow> blocks \<Rightarrow> nat \<Rightarrow> set_bits \<Rightarrow> (bool \<times> set_bits) option" where
  "alloc_bits U M sz0 s =
     (let sz = pow2_size U sz0 in
      case M sz of
        None \<Rightarrow> Some (False, s)
      | Some p \<Rightarrow>
          if \<not> sb_heap s then
            if sz < 16 then None
            else Some (True, s\<lparr>sb_size := sz, sb_heap := True, sb_bits := take 16 (sb_bits s) @ drop 16 p\<rparr>)
          else Some (True, s\<lparr>sb_size := sz, sb_bits := take sz (sb_bits s) @ drop (length (sb_bits s)) p\<rparr>))"

function clear_upto :: "nat \<Rightarrow> set_bits \<Rightarrow> set_bits option" where
  "clear_upto off s =
     (if sb_last s < off then
        (let l = sb_last s + 1 in
         if l < length (sb_bits s) then clear_upto off (s\<lparr>sb_last := l, sb_bits := (sb_bits s)[l := 0]\<rparr>)
         else None)
      else Some s)"
  by auto
termination by (relation "measure (\<lambda>(off, s). off - sb_last s)") (auto simp: Let_def)

declare clear_upto.simps [simp del]

definition extend_bits :: "kv_util \<Rightarrow> blocks \<Rightarrow> nat \<Rightarrow> set_bits \<Rightarrow> (bool \<times> set_bits) option" where
  "extend_bits U M off s =
     (if off \<ge> sb_size s then
        case alloc_bits U M off s of
          None \<Rightarrow> None
        | Some (False, s1) \<Rightarrow> Some (False, s1)
        | Some (True, s1) \<Rightarrow> map_option (Pair True) (clear_upto off s1)
      else map_option (Pair True) (clear_upto off s))"

definition bit_word :: "nat \<Rightarrow> nat" where
  "bit_word j = drop_bit 6 j"

definition bit_mask :: "nat \<Rightarrow> u64" where
  "bit_mask j = push_bit (j AND 63) 1"

definition or_word_bits :: "nat \<Rightarrow> u64 \<Rightarrow> set_bits \<Rightarrow> set_bits" where
  "or_word_bits off msk s = s\<lparr>sb_bits := (sb_bits s)[off := sb_bits s ! off OR msk]\<rparr>"

definition test_set_bits :: "kv_util \<Rightarrow> blocks \<Rightarrow> nat \<Rightarrow> set_bits \<Rightarrow> (bool \<times> set_bits) option" where
  "test_set_bits U M j s =
     (let off = bit_word j; msk = bit_mask j in
      case extend_bits U M off s of
        None \<Rightarrow> None
      | Some (ok, s1) \<Rightarrow>
          if \<not> ok then Some (False, s1)
          else if sb_bits s1 ! off AND msk \<noteq> 0 then Some (True, s1)
          else Some (False, or_word_bits off msk s1))"

definition set_bits_set :: "kv_util \<Rightarrow> blocks \<Rightarrow> nat \<Rightarrow> set_bits \<Rightarrow> (bool \<times> set_bits) option" where
  "set_bits_set U M j s =
     (let off = bit_word j; msk = bit_mask j in
      case extend_bits U M off s of
        None \<Rightarrow> None
      | Some (ok, s1) \<Rightarrow> if \<not> ok then Some (False, s1) else Some (True, or_word_bits off msk s1))"

text \<open>\<open>1 << ( upto & 63 )\<close> is a shift of an \<open>int\<close>: from 31 on it has no defined value.\<close>

definition flip_word :: "nat \<Rightarrow> nat \<Rightarrow> u64 \<Rightarrow> u64 option" where
  "flip_word up k w =
     (let w1 = NOT w in
      if (k + 1) * 64 > up then
        if up AND 63 < 31 then Some (w1 AND (push_bit (up AND 63) 1 - 1)) else None
      else Some w1)"

function flip_loop :: "nat \<Rightarrow> nat \<Rightarrow> set_bits \<Rightarrow> set_bits option" where
  "flip_loop up k s =
     (if k * 64 < up then
        case flip_word up k (sb_bits s ! k) of
          None \<Rightarrow> None
        | Some w \<Rightarrow> flip_loop up (k + 1) (s\<lparr>sb_bits := (sb_bits s)[k := w]\<rparr>)
      else Some s)"
  by auto
termination by (relation "measure (\<lambda>(up, k, s). up - k)") auto

declare flip_loop.simps [simp del]

definition flip_bits :: "kv_util \<Rightarrow> blocks \<Rightarrow> nat \<Rightarrow> set_bits \<Rightarrow> (bool \<times> set_bits) option" where
  "flip_bits U M up s =
     (case extend_bits U M (bit_word up) s of
        None \<Rightarrow> None
      | Some (ok, s1) \<Rightarrow> if \<not> ok then Some (False, s1) else map_option (Pair True) (flip_loop up 0 s1))"

text \<open>The reference parameter \<open>j\<close> is returned beside the result.\<close>

function next_loop :: "kv_util \<Rightarrow> set_bits \<Rightarrow> nat \<Rightarrow> nat \<Rightarrow> bool \<times> nat" where
  "next_loop U s j k =
     (let w = drop_bit (j AND 63) (sb_bits s ! k); x = kv_ffsl U w in
      if x = 0 then
        (let j1 = push_bit 6 (k + 1) in
         if k + 1 > sb_last s then (False, j1) else next_loop U s j1 (k + 1))
      else (True, j + x - 1))"
  by auto
termination by (relation "measure (\<lambda>(U, s, j, k). sb_last s - k)") auto

declare next_loop.simps [simp del]

definition next_bit :: "kv_util \<Rightarrow> set_bits \<Rightarrow> nat \<Rightarrow> bool \<times> nat" where
  "next_bit U s j = (let k = bit_word j in if k > sb_last s then (False, j) else next_loop U s j k)"

fun prev_loop :: "kv_util \<Rightarrow> set_bits \<Rightarrow> nat \<Rightarrow> nat \<Rightarrow> bool \<times> nat" where
  "prev_loop U s j k =
     (let w0 = sb_bits s ! k; w = (if j AND 63 > 0 then push_bit (64 - (j AND 63)) w0 else w0) in
      if w = 0 then
        (case k of 0 \<Rightarrow> (False, j) | Suc k1 \<Rightarrow> prev_loop U s (push_bit 6 k) k1)
      else (True, j - (kv_clzl U w + 1)))"

declare prev_loop.simps [simp del]

definition prev_bit :: "kv_util \<Rightarrow> set_bits \<Rightarrow> nat \<Rightarrow> bool \<times> nat" where
  "prev_bit U s j =
     (if j = 0 then (False, j)
      else let k = bit_word (j - 1) in
        if k > sb_last s then prev_loop U s (sb_last s * 64 + 64) (sb_last s)
        else prev_loop U s j k)"

section \<open>The set a state stands for\<close>

definition members :: "set_bits \<Rightarrow> nat set" where
  "members s = {j. j div 64 \<le> sb_last s \<and> bit (sb_bits s ! (j div 64)) (j mod 64)}"

definition bits_ok :: "set_bits \<Rightarrow> bool" where
  "bits_ok s \<longleftrightarrow> sb_last s < sb_size s \<and> sb_size s = length (sb_bits s) \<and> 16 \<le> sb_size s
     \<and> (\<not> sb_heap s \<longrightarrow> sb_size s = 16)"

definition blocks_ok :: "blocks \<Rightarrow> bool" where
  "blocks_ok M \<longleftrightarrow> (\<forall>n b. M n = Some b \<longrightarrow> length b = n)"

lemma bit_word_div: "bit_word j = j div 64"
  by (simp add: bit_word_def drop_bit_eq_div)

lemma and_63: "n AND 63 = n mod (64::nat)"
  using take_bit_eq_mask [of 6 n] by (simp add: mask_eq_exp_minus_1 take_bit_eq_mod)

lemma push_6: "push_bit 6 n = 64 * (n::nat)"
  by (simp add: push_bit_eq_mult)

lemma bit_bit_mask: "bit (bit_mask j) n \<longleftrightarrow> n = j mod 64"
proof -
  have "j mod 64 < 64" by simp
  then show ?thesis by (auto simp: bit_mask_def and_63 bit_simps simp del: push_bit_of_1)
qed

lemma and_bit_mask: "w AND bit_mask j \<noteq> 0 \<longleftrightarrow> bit w (j mod 64)"
proof -
  have "bit (w AND bit_mask j) n \<longleftrightarrow> n = j mod 64 \<and> bit w n" for n
    by (auto simp: bit_and_iff bit_bit_mask)
  then show ?thesis by (metis bit_0_eq bot_apply bot_bool_def bit_eqI)
qed

lemma new_members: "length work = 16 \<Longrightarrow> bits_ok (new_bits work) \<and> members (new_bits work) = {}"
  by (auto simp: new_bits_def bits_ok_def members_def)

lemma reset_members: "bits_ok s \<Longrightarrow> bits_ok (reset_bits s) \<and> members (reset_bits s) = {}"
  by (cases "sb_bits s") (auto simp: reset_bits_def bits_ok_def members_def)

text \<open>Clearing up to a word changes nothing of the set, and needs the word to be there.\<close>

lemma members_clear_word:
  "l = sb_last s + 1 \<Longrightarrow> l < length (sb_bits s) \<Longrightarrow>
   members (s\<lparr>sb_last := l, sb_bits := (sb_bits s)[l := 0]\<rparr>) = members s"
  by (auto simp: members_def nth_list_update le_Suc_eq)

lemma clear_upto_ok:
  "off < length (sb_bits s) \<Longrightarrow>
   \<exists>s'. clear_upto off s = Some s' \<and> sb_last s' = max (sb_last s) off \<and> members s' = members s
     \<and> length (sb_bits s') = length (sb_bits s) \<and> sb_size s' = sb_size s
     \<and> sb_heap s' = sb_heap s"
proof (induction off s rule: clear_upto.induct)
  case (1 off s)
  show ?case
  proof (cases "sb_last s < off")
    case True
    then show ?thesis using "1.IH" [OF True refl] "1.prems" members_clear_word [OF refl, of s]
      by (subst clear_upto.simps) (auto simp: Let_def max_def)
  next
    case False
    then show ?thesis by (subst clear_upto.simps) auto
  qed
qed

lemma clear_upto_past: "sb_last s < length (sb_bits s) \<Longrightarrow> length (sb_bits s) \<le> off \<Longrightarrow> clear_upto off s = None"
proof (induction off s rule: clear_upto.induct)
  case (1 off s)
  then have "sb_last s < off" by simp
  then show ?case using "1.IH" [OF _ refl] "1.prems" by (subst clear_upto.simps) (simp add: Let_def)
qed

lemma pow2_size_grows:
  assumes "kv_bitops U" "sz < 2 ^ 64"
  shows "pow2_size U sz = sz \<and> sz AND (sz - 1) = 0 \<or> pow2_size U sz > sz \<and> sz AND (sz - 1) \<noteq> 0"
proof (cases "sz AND (sz - 1) = 0")
  case False
  let ?w = "of_nat sz :: u64" and ?n = "64 - kv_clzl U (of_nat sz)"
  have u: "unat ?w = sz" using assms(2) by (rule u64_of_nat_inverse)
  then have "?w \<noteq> 0" using False by auto
  then have c: "kv_clzl U ?w \<le> 63" "\<And>n. bit ?w n \<Longrightarrow> \<not> 63 - kv_clzl U ?w < n"
    using kv_bitops.clzl [OF assms(1), of ?w] by auto
  have "n < ?n" if "bit ?w n" for n using c(1) c(2) [OF that] by linarith
  then have "take_bit ?n ?w = ?w" by (intro bit_word_eqI) (auto simp: bit_take_bit_iff)
  then have "take_bit ?n (unat ?w) = unat ?w" by (metis unsigned_take_bit_eq)
  then have "sz = take_bit ?n sz" unfolding u by (rule sym)
  then have "sz < 2 ^ ?n" using take_bit_nat_less_exp [of ?n sz] by (rule ssubst)
  then show ?thesis using False by (simp add: pow2_size_def)
qed (simp add: pow2_size_def)

text \<open>The room test of extend: a word at a power of two gets a block that ends just before it.\<close>

definition past_block :: "blocks \<Rightarrow> set_bits \<Rightarrow> nat \<Rightarrow> bool" where
  "past_block M s off \<longleftrightarrow> sb_size s \<le> off \<and> off AND (off - 1) = 0 \<and> M off \<noteq> None"

lemma alloc_grows:
  assumes "bits_ok s" "blocks_ok M" "M (pow2_size U off) = Some p" "sb_size s \<le> pow2_size U off"
  obtains s1 where "alloc_bits U M off s = Some (True, s1)" "sb_size s1 = pow2_size U off"
    "length (sb_bits s1) = pow2_size U off" "sb_last s1 = sb_last s" "members s1 = members s" "sb_heap s1"
proof -
  define sz where "sz = pow2_size U off"
  note sz = assms(3,4) [folded sz_def]
  have p: "length p = sz" using assms(2) sz(1) by (auto simp: blocks_ok_def)
  have b: "sb_last s < length (sb_bits s)" "length (sb_bits s) \<le> sz" "16 \<le> sz"
    "\<not> sb_heap s \<Longrightarrow> length (sb_bits s) = 16" using assms(1) sz(2) by (auto simp: bits_ok_def)
  let ?s = "s\<lparr>sb_size := sz, sb_heap := True, sb_bits := sb_bits s @ drop (length (sb_bits s)) p\<rparr>"
  have "alloc_bits U M off s = Some (True, ?s)"
    using b sz(1) by (cases "sb_heap s") (simp_all add: alloc_bits_def Let_def flip: sz_def)
  moreover have "members ?s = members s" using b by (auto simp: members_def nth_append)
  ultimately show ?thesis using b p by (intro that [of ?s]) (simp_all flip: sz_def)
qed

lemma extend_cases:
  assumes "kv_bitops U" "blocks_ok M" "bits_ok s" "off < 2 ^ 64"
  obtains "extend_bits U M off s = None" "past_block M s off"
  | "extend_bits U M off s = Some (False, s)" "sb_size s \<le> off" "M (pow2_size U off) = None"
  | s1 where "extend_bits U M off s = Some (True, s1)" "\<not> past_block M s off" "bits_ok s1"
      "members s1 = members s" "off \<le> sb_last s1"
proof (cases "sb_size s \<le> off")
  case False
  then obtain s1 where "clear_upto off s = Some s1 \<and> sb_last s1 = max (sb_last s) off \<and> members s1 = members s
     \<and> length (sb_bits s1) = length (sb_bits s) \<and> sb_size s1 = sb_size s \<and> sb_heap s1 = sb_heap s"
    using clear_upto_ok [of off s] assms(3) by (auto simp: bits_ok_def)
  then show ?thesis using False assms(3) that(3) [of s1]
    by (auto simp: extend_bits_def past_block_def bits_ok_def)
next
  case True
  show ?thesis
  proof (cases "M (pow2_size U off)")
    case None
    then show ?thesis using True that(2) by (simp add: extend_bits_def alloc_bits_def)
  next
    case (Some p)
    from pow2_size_grows [OF assms(1,4)] True have g: "sb_size s \<le> pow2_size U off" by auto
    from alloc_grows [OF assms(3,2) Some g] obtain s1
      where a: "alloc_bits U M off s = Some (True, s1)" "sb_size s1 = pow2_size U off"
        "length (sb_bits s1) = pow2_size U off" "sb_last s1 = sb_last s" "members s1 = members s" "sb_heap s1" .
    have e: "extend_bits U M off s = map_option (Pair True) (clear_upto off s1)"
      using True a(1) by (simp add: extend_bits_def)
    show ?thesis
    proof (cases "off AND (off - 1) = 0")
      case z: True
      then have "pow2_size U off = off" by (simp add: pow2_size_def)
      then show ?thesis using clear_upto_past [of s1 off] a g assms(3) e z Some True that(1)
        by (auto simp: bits_ok_def past_block_def)
    next
      case nz: False
      then have "off < length (sb_bits s1)" using pow2_size_grows [OF assms(1,4)] a(3) by auto
      from clear_upto_ok [OF this] obtain s2 where "clear_upto off s1 = Some s2" "sb_last s2 = max (sb_last s1) off"
        "members s2 = members s1" "length (sb_bits s2) = length (sb_bits s1)" "sb_size s2 = sb_size s1"
        "sb_heap s2 = sb_heap s1" by auto
      then show ?thesis using that(3) [of s2] e a nz g assms(3) \<open>off < length (sb_bits s1)\<close>
        by (auto simp: bits_ok_def past_block_def)
    qed
  qed
qed

lemma or_members:
  "j div 64 \<le> sb_last s \<Longrightarrow> sb_last s < length (sb_bits s) \<Longrightarrow>
   members (or_word_bits (j div 64) (bit_mask j) s) = insert j (members s)"
proof -
  assume l: "j div 64 \<le> sb_last s" "sb_last s < length (sb_bits s)"
  have "x \<in> members (or_word_bits (j div 64) (bit_mask j) s) \<longleftrightarrow> x = j \<or> x \<in> members s" for x
  proof (cases "x div 64 = j div 64")
    case True
    then have "x = j \<longleftrightarrow> x mod 64 = j mod 64" by (metis div_mult_mod_eq)
    then show ?thesis using True l by (auto simp: members_def or_word_bits_def bit_or_iff bit_bit_mask)
  next
    case False
    then show ?thesis by (auto simp: members_def or_word_bits_def)
  qed
  then show ?thesis by auto
qed

lemma or_bits_ok: "bits_ok s \<Longrightarrow> bits_ok (or_word_bits off m s)"
  by (auto simp: bits_ok_def or_word_bits_def)

lemma member_bit: "j div 64 \<le> sb_last s \<Longrightarrow> j \<in> members s \<longleftrightarrow> sb_bits s ! (j div 64) AND bit_mask j \<noteq> 0"
  by (simp add: members_def and_bit_mask)

section \<open>What the operations do to the set\<close>

text \<open>C24: The bit set refines a set of numbers. test_set inserts its argument and tells whether it
  was there, set inserts it, or both leave the state as it is and return false when memory is
  short. They write past the block in exactly one case: the word of the argument is a power of
  two, at or behind the end of the block, and the new block is granted.\<close>

theorem bit_set_refines:
  assumes "kv_bitops U" "blocks_ok M" "bits_ok s" "j < 2 ^ 64"
  shows "if past_block M s (j div 64) then test_set_bits U M j s = None \<and> set_bits_set U M j s = None
    else if sb_size s \<le> j div 64 \<and> M (pow2_size U (j div 64)) = None
    then test_set_bits U M j s = Some (False, s) \<and> set_bits_set U M j s = Some (False, s)
    else \<exists>s1 s2. test_set_bits U M j s = Some (j \<in> members s, s1) \<and> set_bits_set U M j s = Some (True, s2)
      \<and> bits_ok s1 \<and> bits_ok s2 \<and> members s1 = insert j (members s) \<and> members s2 = insert j (members s)"
proof -
  have j: "j div 64 < 2 ^ 64" using assms(4) by (meson div_le_dividend le_less_trans)
  show ?thesis
  proof (cases rule: extend_cases [OF assms(1-3) j, case_names past short ok])
    case past
    then show ?thesis by (simp add: test_set_bits_def set_bits_set_def bit_word_div)
  next
    case short
    moreover have "\<not> past_block M s (j div 64)"
    proof
      assume p: "past_block M s (j div 64)"
      then have "pow2_size U (j div 64) = j div 64" by (simp add: past_block_def pow2_size_def)
      with p short(3) show False by (simp add: past_block_def)
    qed
    ultimately show ?thesis by (simp add: test_set_bits_def set_bits_set_def bit_word_div)
  next
    case (ok s1)
    then have l: "sb_last s1 < length (sb_bits s1)" by (simp add: bits_ok_def)
    have "sb_size s \<le> j div 64 \<Longrightarrow> M (pow2_size U (j div 64)) \<noteq> None"
      using ok(1) by (intro notI) (simp add: extend_bits_def alloc_bits_def)
    then show ?thesis using ok member_bit [OF ok(5)] or_members [OF ok(5) l] or_bits_ok [OF ok(3)]
      by (auto simp: test_set_bits_def set_bits_set_def bit_word_div Let_def insert_absorb)
  qed
qed

theorem bit_set_refines_witness:
  "\<exists>s1 s2. test_set_bits (scan_util int_str_util) (\<lambda>n. Some (replicate n 7)) 1100 (new_bits (replicate 16 5)) = Some (False, s1)
     \<and> test_set_bits (scan_util int_str_util) (\<lambda>n. Some (replicate n 7)) 1100 s1 = Some (True, s2) \<and> members s2 = {1100}"
proof -
  let ?M = "\<lambda>n. Some (replicate n (7::u64))"
  have M: "blocks_ok ?M" by (simp add: blocks_ok_def)
  note n = new_members [of "replicate 16 5"]
  have s: "sb_size (new_bits (replicate 16 5)) = 16" by (simp add: new_bits_def)
  have p: "(17 :: nat) AND 16 \<noteq> 0" by simp
  obtain s1 where s1: "test_set_bits (scan_util int_str_util) ?M 1100 (new_bits (replicate 16 5)) = Some (False, s1)"
    "bits_ok s1" "members s1 = {1100}"
    using bit_set_refines [OF scan.kv_bitops_axioms [of int_str_util] M, of "new_bits (replicate 16 5)" 1100] n s p
    by (auto simp: past_block_def)
  obtain s2 where "test_set_bits (scan_util int_str_util) ?M 1100 s1 = Some (True, s2)" "members s2 = {1100}"
    using bit_set_refines [OF scan.kv_bitops_axioms [of int_str_util] M s1(2), of 1100] s1 p
    by (auto simp: past_block_def)
  with s1 show ?thesis by blast
qed

text \<open>A set of one kilobit, asked for its bit 1024: malloc is granted and the word is behind it.\<close>

lemma test_set_1024_past_block:
  "test_set_bits (scan_util U) (\<lambda>n. Some (replicate n 0)) 1024 (new_bits (replicate 16 0)) = None"
proof -
  have "past_block (\<lambda>n. Some (replicate n 0)) (new_bits (replicate 16 0)) (1024 div 64)"
    by (simp add: past_block_def new_bits_def)
  then show ?thesis
    using bit_set_refines [OF scan.kv_bitops_axioms [of U], of "\<lambda>n. Some (replicate n 0)" "new_bits (replicate 16 0)" 1024]
      new_members [of "replicate 16 0"] by (simp add: blocks_ok_def)
qed

section \<open>The neighbours of a position\<close>

lemma word_start: "64 * k \<le> x \<longleftrightarrow> k \<le> x div (64::nat)"
  by (simp add: less_eq_div_iff_mult_less_eq mult.commute)

lemma word_split:
  obtains q r where "j = 64 * q + r" "r < 64" "j div 64 = q" "j mod 64 = (r::nat)"
  by (rule that [of "j div 64" "j mod 64"]) simp_all

lemma word_pos: "j mod 64 + n < 64 \<Longrightarrow> (j + n) div 64 = j div 64 \<and> (j + n) mod 64 = j mod 64 + (n::nat)"
proof -
  assume n: "j mod 64 + n < 64"
  obtain q r where j: "j = 64 * q + r" "j div 64 = q" "j mod 64 = r" by (rule word_split)
  with n have "r + n < 64" by simp
  then have "(64 * q + (r + n)) div 64 = q" "(64 * q + (r + n)) mod 64 = r + n" by simp_all
  then show ?thesis using j by (simp add: add.assoc)
qed

lemma bit_from:
  assumes "j div 64 \<le> sb_last s"
  shows "bit (drop_bit (j AND 63) (sb_bits s ! (j div 64))) n \<longleftrightarrow> j + n \<in> members s \<and> (j + n) div 64 = j div 64"
proof (cases "j mod 64 + n < 64")
  case True
  then show ?thesis using word_pos [OF True] assms by (simp add: members_def and_63 bit_drop_bit_eq add.commute)
next
  case False
  moreover obtain q r where j: "j = 64 * q + r" "j div 64 = q" "j mod 64 = r" by (rule word_split)
  ultimately have "64 * (j div 64 + 1) \<le> j + n" by simp
  then have "(j + n) div 64 \<noteq> j div 64" unfolding word_start by simp
  moreover have "\<not> bit (drop_bit (j AND 63) (sb_bits s ! (j div 64))) n"
    using False bit_imp_le_length [of "sb_bits s ! (j div 64)" "j mod 64 + n"] by (auto simp: and_63 bit_drop_bit_eq)
  ultimately show ?thesis by simp
qed

lemma next_loop_ok:
  "kv_bitops U \<Longrightarrow> k = j div 64 \<Longrightarrow> k \<le> sb_last s \<Longrightarrow> next_loop U s j k = (r, i) \<Longrightarrow>
   (if r then i \<in> members s \<and> j \<le> i \<and> (\<forall>x\<in>members s. j \<le> x \<longrightarrow> i \<le> x) else \<forall>x\<in>members s. x < j)"
proof (induction U s j k rule: next_loop.induct)
  case (1 U s j k)
  define w where "w = drop_bit (j AND 63) (sb_bits s ! k)"
  note unfolded = "1.prems"(4) [unfolded next_loop.simps [of U s j k] Let_def w_def [symmetric]]
  have w: "bit w n \<longleftrightarrow> j + n \<in> members s \<and> (j + n) div 64 = k" for n
    using bit_from [of j s n] "1.prems"(2,3) by (simp add: w_def)
  note ffsl = kv_bitops.ffsl [OF "1.prems"(1), of w]
  show ?case
  proof (cases "w = 0")
    case True
    then have none: "j + n \<notin> members s" if "(j + n) div 64 = k" for n using w [of n] that by simp
    have skip: "64 * (k + 1) \<le> x" if "x \<in> members s" "j \<le> x" for x
    proof -
      have "x div 64 \<noteq> k" using none [of "x - j"] that by auto
      moreover have "k \<le> x div 64" using that "1.prems"(2) by (simp add: div_le_mono)
      ultimately show ?thesis unfolding word_start by simp
    qed
    show ?thesis
    proof (cases "k + 1 > sb_last s")
      case last: True
      have "\<not> j \<le> x" if "x \<in> members s" for x
      proof
        assume "j \<le> x"
        with skip [OF that] have "k + 1 \<le> x div 64" by (simp add: word_start del: mult_Suc_right)
        then show False using that last by (simp add: members_def)
      qed
      then have "\<forall>x\<in>members s. x < j" by (meson not_le)
      then show ?thesis using unfolded last True ffsl by simp
    next
      case False
      have j: "j \<le> 64 * (k + 1)" using "1.prems"(2) word_start [of "k + 1" j] by (metis Suc_eq_plus1 nat_le_linear not_less_eq_eq)
      have IH: "if r then i \<in> members s \<and> 64 * (k + 1) \<le> i \<and> (\<forall>x\<in>members s. 64 * (k + 1) \<le> x \<longrightarrow> i \<le> x)
          else \<forall>x\<in>members s. x < 64 * (k + 1)"
      proof (rule "1.IH" [OF w_def refl _ _ False "1.prems"(1), unfolded push_6])
        show "next_loop U s (64 * (k + 1)) (k + 1) = (r, i)"
          using unfolded False True ffsl unfolding push_6 by (simp only: if_True if_False refl simp_thms)
        show "k + 1 = 64 * (k + 1) div 64" by simp
        show "kv_ffsl U w = 0" using ffsl True by simp
        show "k + 1 \<le> sb_last s" using False by simp
      qed simp_all
      show ?thesis
      proof (cases r)
        case True
        then show ?thesis using IH j skip by auto
      next
        case False
        then show ?thesis using IH skip by (metis not_le)
      qed
    qed
  next
    case False
    then have ct: "kv_ffsl U w = Suc (kv_ctzl U w)" "bit w (kv_ctzl U w)" "\<And>n. n < kv_ctzl U w \<Longrightarrow> \<not> bit w n"
      using ffsl kv_bitops.ctzl [OF "1.prems"(1), of w] by auto
    then have r: "r" "i = j + kv_ctzl U w" using unfolded by auto
    have "i \<le> x" if x: "x \<in> members s" "j \<le> x" for x
    proof (rule ccontr)
      assume "\<not> i \<le> x"
      then have lt: "x - j < kv_ctzl U w" "j + (x - j) = x" "x \<le> i" using r x(2) by auto
      have "i div 64 = k" using ct(2) w r(2) by blast
      then have "x div 64 = k" using div_le_mono [OF lt(3), of 64] div_le_mono [OF x(2), of 64] "1.prems"(2) by simp
      then show False using ct(3) [OF lt(1)] w [of "x - j"] x lt(2) by simp
    qed
    then show ?thesis using r ct(2) w by auto
  qed
qed

text \<open>The word that prev scans holds at its upper end the bits below the position.\<close>

definition below_word :: "set_bits \<Rightarrow> nat \<Rightarrow> nat \<Rightarrow> u64" where
  "below_word s j k =
     (if j AND 63 > 0 then push_bit (64 - (j AND 63)) (sb_bits s ! k) else sb_bits s ! k)"

lemma bit_below:
  assumes "k \<le> sb_last s" "64 * k < j" "j \<le> 64 * k + 64" "n < 64"
  shows "bit (below_word s j k) n \<longleftrightarrow> 64 * k + 64 \<le> j + n \<and> j + n - 64 \<in> members s"
proof -
  obtain r where j: "j = 64 * k + r" "0 < r" "r \<le> 64" using assms(2,3) by (metis less_imp_add_positive nat_add_left_cancel_le)
  have "64 * k + t \<in> members s \<longleftrightarrow> bit (sb_bits s ! k) t" if "t < 64" for t
    using that assms(1) by (simp add: members_def)
  then have m: "64 * k + (r + n - 64) \<in> members s \<longleftrightarrow> bit (sb_bits s ! k) (r + n - 64)"
    using assms(4) j by simp
  have "bit (below_word s j k) n \<longleftrightarrow> 64 \<le> r + n \<and> bit (sb_bits s ! k) (r + n - 64)"
  proof (cases "r = 64")
    case True
    then have "j AND 63 = 0" using j by (simp add: and_63)
    then show ?thesis using True by (simp add: below_word_def)
  next
    case False
    then have r: "j AND 63 = r" using j by (simp add: and_63)
    then show ?thesis using j assms(4)
      by (auto simp: below_word_def bit_push_bit_iff le_diff_conv2 le_diff_conv add.commute)
  qed
  also have "\<dots> \<longleftrightarrow> 64 * k + 64 \<le> j + n \<and> j + n - 64 \<in> members s"
    using m j by (auto simp: algebra_simps)
  finally show ?thesis .
qed

lemma prev_loop_ok:
  "kv_bitops U \<Longrightarrow> k \<le> sb_last s \<Longrightarrow> 64 * k < j \<Longrightarrow> j \<le> 64 * k + 64 \<Longrightarrow> prev_loop U s j k = (r, i) \<Longrightarrow>
   (if r then i \<in> members s \<and> i < j \<and> (\<forall>x\<in>members s. x < j \<longrightarrow> x \<le> i) else \<forall>x\<in>members s. \<not> x < j)"
proof (induction U s j k rule: prev_loop.induct)
  case (1 U s j k)
  define w where "w = below_word s j k"
  have step: "prev_loop U s j k = (if w = 0 then (case k of 0 \<Rightarrow> (False, j) | Suc k1 \<Rightarrow> prev_loop U s (push_bit 6 k) k1)
      else (True, j - (kv_clzl U w + 1)))"
    by (simp add: prev_loop.simps [of U s j k] w_def below_word_def Let_def)
  note w = bit_below [OF "1.prems"(2-4), folded w_def]
  have pos: "x + 64 - j < 64 \<and> 64 * k + 64 \<le> j + (x + 64 - j) \<and> j + (x + 64 - j) - 64 = x" if "x < j" "64 * k \<le> x" for x
    using that "1.prems"(4) by auto
  show ?case
  proof (cases "w = 0")
    case True
    have skip: "x < 64 * k" if "x \<in> members s" "x < j" for x
    proof (rule ccontr)
      assume "\<not> x < 64 * k"
      then show False using w [of "x + 64 - j"] pos [of x] that True by simp
    qed
    show ?thesis
    proof (cases k)
      case 0
      then show ?thesis using step True skip "1.prems"(5) by auto
    next
      case (Suc k1)
      have "if r then i \<in> members s \<and> i < push_bit 6 k \<and> (\<forall>x\<in>members s. x < push_bit 6 k \<longrightarrow> x \<le> i)
          else \<forall>x\<in>members s. \<not> x < push_bit 6 k"
      proof (rule "1.IH" [OF refl refl _ Suc "1.prems"(1)])
        show "prev_loop U s (push_bit 6 k) k1 = (r, i)" using step True Suc "1.prems"(5) by simp
        show "(if 0 < j AND 63 then push_bit (64 - (j AND 63)) (sb_bits s ! k) else sb_bits s ! k) = 0"
          using True by (simp only: w_def below_word_def)
      qed (use "1.prems"(2) Suc in \<open>simp_all add: push_6\<close>)
      then show ?thesis using skip "1.prems"(3) unfolding push_6 by (cases r) auto
    qed
  next
    case False
    define n where "n = 63 - kv_clzl U w"
    have n: "n < 64" "bit w n" "\<And>m. n < m \<Longrightarrow> \<not> bit w m" "j - (kv_clzl U w + 1) = j + n - 64"
      using kv_bitops.clzl [OF "1.prems"(1) False] by (auto simp: n_def)
    then have i: "r" "i = j + n - 64" using step False "1.prems"(5) by auto
    have m: "64 * k + 64 \<le> j + n" "i \<in> members s" using w [OF n(1)] n(2) i by auto
    have "x \<le> i" if x: "x \<in> members s" "x < j" for x
    proof (rule ccontr)
      assume "\<not> x \<le> i"
      then have "n < x + 64 - j" "64 * k \<le> x" using i(2) m(1) by auto
      then show False using n(3) w [of "x + 64 - j"] pos [OF x(2)] x(1) by simp
    qed
    then show ?thesis using i m n(1) by auto
  qed
qed

lemma member_below_end: "x \<in> members s \<Longrightarrow> x < 64 * sb_last s + 64"
proof -
  assume "x \<in> members s"
  then have "\<not> sb_last s + 1 \<le> x div 64" by (simp add: members_def)
  then have "\<not> 64 * (sb_last s + 1) \<le> x" by (simp only: word_start not_False_eq_True)
  then show ?thesis by simp
qed

text \<open>next finds the least member from a position on and prev the greatest before it; they
  return false exactly when there is none.\<close>

theorem bit_set_neighbours:
  assumes "kv_bitops U"
  shows "(case next_bit U s j of
      (True, i) \<Rightarrow> i \<in> members s \<and> j \<le> i \<and> (\<forall>x\<in>members s. j \<le> x \<longrightarrow> i \<le> x)
    | (False, _) \<Rightarrow> \<forall>x\<in>members s. x < j)
    \<and> (case prev_bit U s j of
      (True, i) \<Rightarrow> i \<in> members s \<and> i < j \<and> (\<forall>x\<in>members s. x < j \<longrightarrow> x \<le> i)
    | (False, _) \<Rightarrow> \<forall>x\<in>members s. j \<le> x)"
proof
  obtain r i where n: "next_bit U s j = (r, i)" by fastforce
  have "if r then i \<in> members s \<and> j \<le> i \<and> (\<forall>x\<in>members s. j \<le> x \<longrightarrow> i \<le> x) else \<forall>x\<in>members s. x < j"
  proof (cases "j div 64 > sb_last s")
    case True
    have "x < j" if "x \<in> members s" for x
    proof -
      have "64 * (sb_last s + 1) \<le> j" using True by (simp only: word_start)
      then show ?thesis using member_below_end [OF that] by simp
    qed
    then show ?thesis using True n by (auto simp: next_bit_def bit_word_div)
  next
    case False
    then show ?thesis using n by (intro next_loop_ok [OF assms refl]) (auto simp: next_bit_def bit_word_div)
  qed
  then show "case next_bit U s j of (True, i) \<Rightarrow> i \<in> members s \<and> j \<le> i \<and> (\<forall>x\<in>members s. j \<le> x \<longrightarrow> i \<le> x)
    | (False, _) \<Rightarrow> \<forall>x\<in>members s. x < j" using n by (cases r) auto
next
  obtain r i where p: "prev_bit U s j = (r, i)" by fastforce
  have "if r then i \<in> members s \<and> i < j \<and> (\<forall>x\<in>members s. x < j \<longrightarrow> x \<le> i) else \<forall>x\<in>members s. \<not> x < j"
  proof (cases "j = 0")
    case True
    then show ?thesis using p by (auto simp: prev_bit_def)
  next
    case j: False
    show ?thesis
    proof (cases "(j - 1) div 64 > sb_last s")
      case True
      let ?e = "64 * sb_last s + 64"
      have "64 * (sb_last s + 1) \<le> j - 1" using True by (simp only: word_start)
      then have e: "?e < j" using j by simp
      have "prev_loop U s ?e (sb_last s) = (r, i)" using p True j by (simp add: prev_bit_def bit_word_div mult.commute)
      then have "if r then i \<in> members s \<and> i < ?e \<and> (\<forall>x\<in>members s. x < ?e \<longrightarrow> x \<le> i) else \<forall>x\<in>members s. \<not> x < ?e"
        by (intro prev_loop_ok [OF assms order_refl]) simp_all
      then show ?thesis using member_below_end [of _ s] e by (cases r) (auto dest: less_trans)
    next
      case False
      obtain q t where q: "j - 1 = 64 * q + t" "t < 64" "(j - 1) div 64 = q" by (rule word_split)
      have "prev_loop U s j q = (r, i)" using p False j q(3) by (simp add: prev_bit_def bit_word_div)
      then show ?thesis using False q j by (intro prev_loop_ok [OF assms]) auto
    qed
  qed
  then show "case prev_bit U s j of (True, i) \<Rightarrow> i \<in> members s \<and> i < j \<and> (\<forall>x\<in>members s. x < j \<longrightarrow> x \<le> i)
    | (False, _) \<Rightarrow> \<forall>x\<in>members s. j \<le> x" using p by (cases r) (auto simp: not_less)
qed

theorem bit_set_neighbours_witness:
  "let s = \<lparr>sb_last = 1, sb_size = 16, sb_heap = False, sb_bits = [bit_mask 2, bit_mask 65, 255]\<rparr> in
   next_bit (scan_util int_str_util) s 3 = (True, 65) \<and> prev_bit (scan_util int_str_util) s 65 = (True, 2)
   \<and> fst (next_bit (scan_util int_str_util) s 66) = False"
proof -
  let ?s = "\<lparr>sb_last = 1, sb_size = 16, sb_heap = False, sb_bits = [bit_mask 2, bit_mask 65, 255]\<rparr>"
  have "x \<in> members ?s \<longleftrightarrow> x = 2 \<or> x = 65" for x
  proof -
    obtain q r where x: "x = 64 * q + r" "r < 64" "x div 64 = q" "x mod 64 = r" by (rule word_split)
    consider "q = 0" | "q = 1" | "1 < q" by linarith
    then show ?thesis using x by cases (auto simp: members_def bit_bit_mask)
  qed
  then have m: "members ?s = {2, 65}" by auto
  show ?thesis
    using bit_set_neighbours [OF scan.kv_bitops_axioms [of int_str_util], of ?s 3]
      bit_set_neighbours [OF scan.kv_bitops_axioms [of int_str_util], of ?s 65]
      bit_set_neighbours [OF scan.kv_bitops_axioms [of int_str_util], of ?s 66]
    unfolding m by (auto split: prod.splits bool.splits)
qed

end
