(* ===== verification/Redis_Set.thy ===== *)
theory Redis_Set
  imports List_Ctx Set_Bits
begin

text \<open>
  The set commands of \<open>src/src/redis_set.cpp\<close>. The set is raimd's \<open>SetData\<close>, the record \<open>set_ops\<close> with the
  laws of \<open>md_set\<close>, interpreted by a set in memory; \<open>HashPos\<close>, the hash of a member that its methods share, is
  part of the member here. SPOP and SRANDMEMBER mark what they choose in the bit set of \<open>Set_Bits\<close>.
\<close>

section \<open>The set class\<close>

datatype set_status = SET_OK | SET_NOT_FOUND | SET_FULL | SET_UPDATED

datatype set_merge = MERGE_UNION | MERGE_INTER | MERGE_DIFF

text \<open>Members are counted from one, for the first entry is the index of the set; \<open>count\<close> counts that too. The
  merges go on from where they stopped: that is their context \<open>'m\<close>.\<close>

record 'm set_ops =
  ss_class :: list_class
  ss_count :: "byte list \<Rightarrow> nat"
  ss_hcount :: "byte list \<Rightarrow> nat"
  ss_data_len :: "byte list \<Rightarrow> nat"
  ss_index_mask :: "byte list \<Rightarrow> u64"
  ss_sismember :: "byte list \<Rightarrow> byte list \<Rightarrow> set_status"
  ss_sadd :: "byte list \<Rightarrow> byte list \<Rightarrow> set_status \<times> byte list"
  ss_srem :: "byte list \<Rightarrow> byte list \<Rightarrow> set_status \<times> byte list"
  ss_lindex :: "byte list \<Rightarrow> nat \<Rightarrow> set_status \<times> byte list \<times> byte list"
  ss_spopn :: "byte list \<Rightarrow> nat \<Rightarrow> byte list"
  ss_spopall :: "byte list \<Rightarrow> byte list"
  ss_merge0 :: 'm
  ss_merge :: "set_merge \<Rightarrow> byte list \<Rightarrow> byte list \<Rightarrow> 'm \<Rightarrow> set_status \<times> byte list \<times> 'm"
  ss_empty :: "byte list"

text \<open>What does not change while a command runs. \<open>se_rng\<close> are the numbers that the generator of the context
  gives from now on, \<open>se_work\<close> what the memory of a bit set holds, \<open>se_mem\<close> the memory of a block of the stream;
  a block is not reserved, and \<open>se_shared\<close> tells whether the next one lies at the place of the last.\<close>

record ('e, 'm) set_env =
  se_set :: "'m set_ops"
  se_util :: kv_util
  se_ops :: "'e kv_ops"
  se_seg :: "'e seg_ops"
  se_rng :: "nat \<Rightarrow> u64"
  se_work :: "u64 list"
  se_blocks :: blocks
  se_mem :: "nat \<Rightarrow> byte list"
  se_shared :: "nat \<Rightarrow> nat \<Rightarrow> bool"

abbreviation keyspace_set :: "'e xst \<Rightarrow> 'e xst" where
  "keyspace_set \<equiv> set_flags {EKF_KEYSPACE_EVENT, EKF_KEYSPACE_SET}"

section \<open>Reading\<close>

datatype set_read = DO_SCARD | DO_SISMEMBER

definition do_sread :: "('e, 'm) set_env \<Rightarrow> redis_exec \<Rightarrow> set_read \<Rightarrow> 'e xst \<Rightarrow> (exec_status \<times> 'e xst) option" where
  "do_sread V ex cmd x =
     (let arg = get_arg_str (ex_msg ex) 2 in
      if cmd = DO_SISMEMBER \<and> arg = None then Some (ERR_BAD_ARGS, x)
      else do {
        (st, x1) \<leftarrow> do_key_fetch (se_ops V) ex MD_SET True x;
        Some (case st of
            KEY_NO_VALUE \<Rightarrow> (ERR_BAD_TYPE, x1)
          | KEY_NOT_FOUND \<Rightarrow> (EXEC_SEND_ZERO, x1)
          | KEY_OK \<Rightarrow>
              let x2 = lx_open_readonly (se_seg V) x1; d = x_data (se_ops V) x2 in
              if x_kstatus x2 \<noteq> KEY_OK then (ERR_KV_STATUS, x2)
              else
                let (status, x3) = (case cmd of
                    DO_SCARD \<Rightarrow> (EXEC_SEND_INT, x2\<lparr>x_ival := int (ss_hcount (se_set V) d)\<rparr>)
                  | DO_SISMEMBER \<Rightarrow> (if ss_sismember (se_set V) d (the arg) = SET_OK then EXEC_SEND_ONE else EXEC_SEND_ZERO, x2));
                    x4 = k_validate (se_ops V) x3 in
                if x_kstatus x4 = KEY_OK then (status, x4) else (ERR_KV_STATUS, x4)
          | _ \<Rightarrow> (ERR_KV_STATUS, x1)) })"

definition exec_scard :: "('e, 'm) set_env \<Rightarrow> redis_exec \<Rightarrow> 'e xst \<Rightarrow> (exec_status \<times> 'e xst) option" where
  "exec_scard V ex x = do_sread V ex DO_SCARD x"
definition exec_sismember :: "('e, 'm) set_env \<Rightarrow> redis_exec \<Rightarrow> 'e xst \<Rightarrow> (exec_status \<times> 'e xst) option" where
  "exec_sismember V ex x = do_sread V ex DO_SISMEMBER x"

section \<open>Writing\<close>

datatype set_write = DO_SADD | DO_SREM | DO_SMOVE

fun members_size :: "redis_exec \<Rightarrow> nat list \<Rightarrow> nat \<Rightarrow> nat option" where
  "members_size ex [] nd = Some nd"
| "members_size ex (j # js) nd =
     (case get_arg_str (ex_msg ex) j of None \<Rightarrow> None | Some v \<Rightarrow> members_size ex js (nd + 2 + length v))"

text \<open>The end of SADD and SREM.\<close>

definition swrite_done :: "('e, 'm) set_env \<Rightarrow> set_write \<Rightarrow> 'e xst \<Rightarrow> exec_status \<times> 'e xst" where
  "swrite_done V cmd x =
     (if x_ival x > 0
      then remove_empty (se_seg V) (cmd = DO_SREM \<and> ss_hcount (se_set V) (x_data (se_ops V) x) = 0) EXEC_SEND_INT (keyspace_set x)
      else (EXEC_SEND_INT, x))"

text \<open>SMOVE takes the member out of its first key.\<close>

definition smove_src :: "('e, 'm) set_env \<Rightarrow> byte list \<Rightarrow> 'e xst \<Rightarrow> exec_status \<times> 'e xst" where
  "smove_src V arg x =
     (case ss_srem (se_set V) (x_data (se_ops V) x) arg of (st, d) \<Rightarrow>
       let x1 = put_data (se_ops V) x d in
       if st = SET_OK
       then remove_empty (se_seg V) (ss_hcount (se_set V) (x_data (se_ops V) x1) = 0) EXEC_OK (keyspace_set x1)
       else (EXEC_ABORT_SEND_ZERO, x1))"

text \<open>One member: the status, the data and whether the number of changes grows.\<close>

definition swrite_op :: "'m set_ops \<Rightarrow> set_write \<Rightarrow> byte list \<Rightarrow> byte list \<Rightarrow> set_status \<times> byte list \<times> bool" where
  "swrite_op S cmd d arg =
     (if cmd = DO_SREM then (case ss_srem S d arg of (st, d1) \<Rightarrow> (st, d1, st = SET_OK))
      else (case ss_sadd S d arg of (st, d1) \<Rightarrow> (st, d1, st = SET_UPDATED)))"

partial_function (option) swrite_loop :: "('e, 'm) set_env \<Rightarrow> redis_exec \<Rightarrow> set_write \<Rightarrow> nat \<Rightarrow> nat \<Rightarrow> byte list \<Rightarrow> 'e xst
    \<Rightarrow> (exec_status \<times> 'e xst) option" where
  "swrite_loop V ex cmd argi retry arg x =
     (if cmd = DO_SMOVE \<and> x_argn x = 1 then Some (smove_src V arg x)
      else case swrite_op (se_set V) cmd (x_data (se_ops V) x) arg of (st, d, hit) \<Rightarrow>
       let x1 = put_data (se_ops V) x d; x2 = (if hit then x1\<lparr>x_ival := x_ival x1 + 1\<rparr> else x1) in
       if st = SET_FULL then
         (let x3 = lx_realloc (ss_class (se_set V)) (se_ops V) (se_seg V) retry (length arg + 2) x2 in
          if x_kstatus x3 = KEY_OK then swrite_loop V ex cmd argi (retry + 16) arg x3 else Some (ERR_KV_STATUS, x3))
       else if cmd = DO_SMOVE then Some (EXEC_SEND_ONE, keyspace_set x2)
       else if argc ex = argi then Some (swrite_done V cmd x2)
       else (case get_arg_str (ex_msg ex) argi of None \<Rightarrow> Some (ERR_BAD_ARGS, x2)
         | Some v \<Rightarrow> swrite_loop V ex cmd (argi + 1) retry v x2))"

text \<open>A new set, also in the place of the value of another type that SMOVE moves to.\<close>

definition swrite_new :: "('e, 'm) set_env \<Rightarrow> redis_exec \<Rightarrow> set_write \<Rightarrow> byte list \<Rightarrow> nat \<Rightarrow> nat \<Rightarrow> 'e xst
    \<Rightarrow> (exec_status \<times> 'e xst) option" where
  "swrite_new V ex cmd arg count ndata x =
     (let x1 = lx_create (ss_class (se_set V)) (se_ops V) MD_SET count ndata x in
      if x_kstatus x1 = KEY_OK then swrite_loop V ex cmd 3 0 arg x1 else Some (ERR_KV_STATUS, x1))"

definition do_swrite :: "('e, 'm) set_env \<Rightarrow> redis_exec \<Rightarrow> set_write \<Rightarrow> 'e xst \<Rightarrow> (exec_status \<times> 'e xst) option" where
  "do_swrite V ex cmd x =
     (case get_arg_str (ex_msg ex) (if cmd = DO_SMOVE then 3 else 2) of None \<Rightarrow> Some (ERR_BAD_ARGS, x)
      | Some arg \<Rightarrow> do {
        (st, x1) \<leftarrow> do_key_fetch (se_ops V) ex MD_SET False x;
        (case st of
           KEY_IS_NEW \<Rightarrow>
             if cmd = DO_SREM then Some (EXEC_SEND_ZERO, x1)
             else if cmd = DO_SMOVE \<and> x_argn x1 = 1 then Some (EXEC_ABORT_SEND_ZERO, x1)
             else if cmd = DO_SADD then
               (case members_size ex [3..<argc ex] (2 + length arg) of None \<Rightarrow> Some (ERR_BAD_ARGS, x1)
                | Some ndata \<Rightarrow> swrite_new V ex cmd arg (argc ex) ndata x1)
             else swrite_new V ex cmd arg 2 (2 + length arg) x1
         | KEY_NO_VALUE \<Rightarrow>
             if cmd = DO_SMOVE \<and> x_argn x1 = 2 then swrite_new V ex cmd arg 2 (2 + length arg) x1
             else Some (ERR_BAD_TYPE, x1)
         | KEY_OK \<Rightarrow>
             let x2 = lx_open (se_seg V) x1 in
             if x_kstatus x2 = KEY_OK then swrite_loop V ex cmd 3 0 arg x2 else Some (ERR_KV_STATUS, x2)
         | _ \<Rightarrow> Some (ERR_KV_STATUS, x1)) })"

definition exec_sadd :: "('e, 'm) set_env \<Rightarrow> redis_exec \<Rightarrow> 'e xst \<Rightarrow> (exec_status \<times> 'e xst) option" where
  "exec_sadd V ex x = do_swrite V ex DO_SADD x"
definition exec_srem :: "('e, 'm) set_env \<Rightarrow> redis_exec \<Rightarrow> 'e xst \<Rightarrow> (exec_status \<times> 'e xst) option" where
  "exec_srem V ex x = do_swrite V ex DO_SREM x"
definition exec_smove :: "('e, 'm) set_env \<Rightarrow> redis_exec \<Rightarrow> 'e xst \<Rightarrow> (exec_status \<times> 'e xst) option" where
  "exec_smove V ex x = (if x_argn x = 2 \<and> key_done ex = 0 then Some (EXEC_DEPENDS, x) else do_swrite V ex DO_SMOVE x)"

section \<open>Scanning, and random members\<close>

datatype set_scan = DO_SMEMBERS | DO_SRANDMEMBER | DO_SPOP | DO_SSCAN

text \<open>A number below the count, which is not zero: halved until it is.\<close>

function shrink :: "nat \<Rightarrow> nat \<Rightarrow> nat" where
  "shrink count m = (if count \<le> m \<and> 0 < m then shrink count (drop_bit 1 m) else m)"
  by pat_completeness auto
termination by (relation "measure snd") (auto simp: drop_bit_Suc)

declare shrink.simps [simp del]

text \<open>Four numbers of 16 bits out of one, each marked in the bit set, until enough are new.\<close>

fun pick_word :: "kv_util \<Rightarrow> blocks \<Rightarrow> u64 \<Rightarrow> nat \<Rightarrow> nat \<Rightarrow> u64 \<Rightarrow> int \<Rightarrow> set_bits \<Rightarrow> (bool \<times> int \<times> set_bits) option" where
  "pick_word U M msk count 0 n ival b = Some (False, ival, b)"
| "pick_word U M msk count (Suc k) n ival b = do {
     (was, b1) \<leftarrow> test_set_bits U M (shrink count (unat (n AND msk))) b;
     if was then pick_word U M msk count k (drop_bit 16 n) ival b1
     else if to_int64 (ival - 1) = 0 then Some (True, 0, b1)
     else pick_word U M msk count k (drop_bit 16 n) (to_int64 (ival - 1)) b1 }"

partial_function (option) pick_loop :: "kv_util \<Rightarrow> blocks \<Rightarrow> (nat \<Rightarrow> u64) \<Rightarrow> u64 \<Rightarrow> nat \<Rightarrow> nat \<Rightarrow> int \<Rightarrow> set_bits \<Rightarrow> set_bits option" where
  "pick_loop U M rng msk count i ival b = do {
     (enough, ival1, b1) \<leftarrow> pick_word U M msk count 4 (rng i) ival b;
     if enough then Some b1 else pick_loop U M rng msk count (i + 1) ival1 b1 }"

text \<open>Where the scan starts, how many it takes, and the chosen members if there are more than one. All are taken
  when the count asked for, as an unsigned number, is not less than the set.\<close>

definition pick_members :: "('e, 'm) set_env \<Rightarrow> byte list \<Rightarrow> nat \<Rightarrow> int \<Rightarrow> (nat \<times> nat \<times> bool \<times> set_bits) option" where
  "pick_members V d count ival =
     (let U = se_util V; M = se_blocks V; msk = ss_index_mask (se_set V) d; u = unat (of_int ival :: u64); b = new_bits (se_work V) in
      if count \<le> u then Some (0, 0, False, b)
      else if ival = 1 then Some (shrink count (unat (se_rng V 0 AND msk)), 1, False, b)
      else do {
        b1 \<leftarrow> pick_loop U M (se_rng V) msk count 0 (if count div 2 < u then int count - ival else ival) b;
        b2 \<leftarrow> (if count div 2 < u then map_option snd (flip_bits U M count b1) else Some b1);
        Some (0, 0, True, b2) })"

lemma next_loop_ge: "j div 64 = k \<Longrightarrow> next_loop U s j k = (r, i) \<Longrightarrow> j \<le> i"
proof (induction U s j k arbitrary: r i rule: next_loop.induct)
  case (1 U s j k)
  define x where "x = kv_ffsl U (drop_bit (j AND 63) (sb_bits s ! k))"
  have step: "next_loop U s j k = (if x = 0 then
        if k + 1 > sb_last s then (False, push_bit 6 (k + 1)) else next_loop U s (push_bit 6 (k + 1)) (k + 1)
      else (True, j + x - 1))"
    by (subst next_loop.simps) (simp add: x_def Let_def)
  have j: "j \<le> push_bit 6 (k + 1)" using "1.prems"(1) by (simp add: push_6)
  show ?case
  proof (cases "x = 0 \<and> k + 1 \<le> sb_last s")
    case True
    then have "push_bit 6 (k + 1) \<le> i"
      using "1.IH" [OF refl refl _ refl, of r i] "1.prems"(2) step by (simp add: x_def push_6)
    then show ?thesis using j by simp
  next
    case False
    then show ?thesis using "1.prems"(2) step j by (auto split: if_splits)
  qed
qed

lemma next_bit_ge: "next_bit U s j = (r, i) \<Longrightarrow> j \<le> i"
  using next_loop_ge [OF refl, of U s j] by (auto simp: next_bit_def bit_word_div Let_def split: if_splits)

lemma prev_loop_less: "0 < j \<Longrightarrow> prev_loop U s j k = (True, i) \<Longrightarrow> k \<le> (j - 1) div 64 \<Longrightarrow> i < j"
proof (induction U s j k arbitrary: i rule: prev_loop.induct)
  case (1 U s j k)
  define w where "w = (if j AND 63 > 0 then push_bit (64 - (j AND 63)) (sb_bits s ! k) else sb_bits s ! k)"
  have step: "prev_loop U s j k = (if w = 0 then (case k of 0 \<Rightarrow> (False, j) | Suc k1 \<Rightarrow> prev_loop U s (push_bit 6 k) k1)
      else (True, j - (kv_clzl U w + 1)))"
    by (subst prev_loop.simps) (simp add: w_def Let_def)
  show ?case
  proof (cases "w = 0")
    case True
    then obtain k1 where k: "k = Suc k1" "prev_loop U s (push_bit 6 k) k1 = (True, i)"
      using step "1.prems"(2) by (cases k) auto
    have "i < push_bit 6 k"
      using "1.IH" [OF refl refl _ k(1) _ k(2)] True k(1) by (simp add: w_def push_6)
    also have "push_bit 6 k \<le> j" using "1.prems"(1,3) by (simp add: push_6)
    finally show ?thesis .
  qed (use step "1.prems" in auto)
qed

lemma prev_bit_less: "prev_bit U s j = (True, i) \<Longrightarrow> i < j"
proof (cases "j = 0 \<or> sb_last s < (j - 1) div 64")
  case True
  assume p: "prev_bit U s j = (True, i)"
  then have j: "0 < j" "sb_last s < (j - 1) div 64" using True by (auto simp: prev_bit_def)
  then have "i < sb_last s * 64 + 64"
    using p prev_loop_less [of "sb_last s * 64 + 64" U s "sb_last s" i] by (simp add: prev_bit_def bit_word_div)
  then show ?thesis using j(2) by linarith
next
  case False
  assume "prev_bit U s j = (True, i)"
  then show ?thesis using False prev_loop_less [of j U s "(j - 1) div 64" i] by (simp add: prev_bit_def bit_word_div)
qed

text \<open>The scan; \<open>rx\<close> is the pattern of SSCAN. \<open>None\<close> is a stream without memory.\<close>

function set_scan_loop :: "('e, 'm) set_env \<Rightarrow> bool \<Rightarrow> set_scan \<Rightarrow> (byte list \<Rightarrow> bool) \<Rightarrow> nat \<Rightarrow> byte list \<Rightarrow> nat \<Rightarrow> bool \<Rightarrow> set_bits
    \<Rightarrow> nat \<Rightarrow> nat \<Rightarrow> byte list \<Rightarrow> (nat \<times> nat \<times> byte list) option" where
  "set_scan_loop V ok cmd rx maxcnt d count use b i cnt q =
     (if count \<le> i \<or> maxcnt \<noteq> 0 \<and> maxcnt \<le> cnt then Some (i, cnt, q)
      else case (if use then next_bit (se_util V) b i else (True, i)) of (found, j) \<Rightarrow>
        if \<not> found then Some (j, cnt, q)
        else (case ss_lindex (se_set V) d (j + 1) of (st, v, v2) \<Rightarrow>
          if st \<noteq> SET_OK then Some (j + 1, cnt, q)
          else if cmd = DO_SSCAN \<and> \<not> rx (v @ v2) then set_scan_loop V ok cmd rx maxcnt d count use b (j + 1) cnt q
          else if \<not> ok then None
          else set_scan_loop V ok cmd rx maxcnt d count use b (j + 1) (cnt + 1) (q @ append_string (se_util V) v v2)))"
  by pat_completeness auto
termination
  by (relation "measure (\<lambda>(V, ok, cmd, rx, maxcnt, d, count, use, b, i, cnt, q). count - i)")
    (auto dest!: next_bit_ge [OF sym] split: if_splits)

declare set_scan_loop.simps [simp del]

text \<open>The chosen members are taken out from the last to the first, so that the places of the others stay.\<close>

function pop_loop :: "('e, 'm) set_env \<Rightarrow> set_bits \<Rightarrow> nat \<Rightarrow> byte list \<Rightarrow> byte list" where
  "pop_loop V b j d =
     (case prev_bit (se_util V) b j of (found, i) \<Rightarrow> if \<not> found then d else pop_loop V b i (ss_spopn (se_set V) d (i + 1)))"
  by pat_completeness auto
termination
  by (relation "measure (\<lambda>(V, b, j, d). j)") (auto dest!: prev_bit_less [OF sym])

declare pop_loop.simps [simp del]

definition pop_members :: "('e, 'm) set_env \<Rightarrow> nat \<Rightarrow> set_bits \<Rightarrow> nat \<Rightarrow> nat \<Rightarrow> byte list \<Rightarrow> byte list" where
  "pop_members V count b i cnt d =
     (if cnt = 1 then ss_spopn (se_set V) d i
      else if cnt = count then ss_spopall (se_set V) d
      else pop_loop V b count d)"

definition sscan_done :: "('e, 'm) set_env \<Rightarrow> set_scan \<Rightarrow> nat \<Rightarrow> nat \<Rightarrow> nat \<Rightarrow> byte list \<Rightarrow> 'e xst \<Rightarrow> exec_status \<times> 'e xst" where
  "sscan_done V cmd count i cnt q x =
     (let reply = (if cmd = DO_SSCAN then prepend_cursor_array (se_util V) (if i = count then 0 else i) cnt q
            else prepend_array (se_util V) cnt q);
          x1 = (if cmd = DO_SPOP then x else k_validate (se_ops V) x) in
      if cmd = DO_SPOP \<or> x_kstatus x1 = KEY_OK then (EXEC_OK, send reply x1) else (ERR_KV_STATUS, x1))"

definition smultiscan_open :: "('e, 'm) set_env \<Rightarrow> set_scan \<Rightarrow> int \<Rightarrow> nat \<Rightarrow> nat \<Rightarrow> (byte list \<Rightarrow> bool) \<Rightarrow> 'e xst
    \<Rightarrow> (exec_status \<times> 'e xst) option" where
  "smultiscan_open V cmd ival start maxcnt rx x =
     (let d = x_data (se_ops V) x; count = ss_hcount (se_set V) d in
      if count = 0 then Some (sscan_done V cmd 0 start 0 [] x)
      else do {
        (i0, max1, use, b) \<leftarrow> (if cmd = DO_SRANDMEMBER \<or> cmd = DO_SPOP then pick_members V d count ival
            else Some (start, maxcnt, False, new_bits (se_work V)));
        Some (case set_scan_loop V (x_strm_ok x) cmd rx max1 d count use b i0 0 [] of None \<Rightarrow> (ERR_ALLOC_FAIL, x)
          | Some (i, cnt, q) \<Rightarrow>
            if cmd = DO_SPOP \<and> cnt > 0 then
              let x1 = keyspace_set (put_data (se_ops V) x (pop_members V count b i cnt d)) in
              (case remove_empty (se_seg V) (ss_hcount (se_set V) (x_data (se_ops V) x1) = 0) EXEC_OK x1 of (st, x2) \<Rightarrow>
                if st = EXEC_OK then sscan_done V cmd count i cnt q x2 else (st, x2))
            else sscan_done V cmd count i cnt q x) })"

definition do_smultiscan :: "('e, 'm) set_env \<Rightarrow> redis_exec \<Rightarrow> set_scan \<Rightarrow> int \<Rightarrow> nat \<Rightarrow> (byte list \<Rightarrow> bool) \<Rightarrow> 'e xst
    \<Rightarrow> (exec_status \<times> 'e xst) option" where
  "do_smultiscan V ex cmd pos maxcnt rx x =
     (let start = (if pos > 0 then nat pos else 0) in
      case (if (cmd = DO_SRANDMEMBER \<or> cmd = DO_SPOP) \<and> 2 < argc ex then get_arg_int (ex_msg ex) 2 else Some 1) of
        None \<Rightarrow> Some (ERR_BAD_ARGS, x)
      | Some ival \<Rightarrow> do {
        (st, x1) \<leftarrow> do_key_fetch (se_ops V) ex MD_SET (cmd \<noteq> DO_SPOP) x;
        if st = KEY_NO_VALUE then Some (ERR_BAD_TYPE, x1)
        else if st = (if cmd = DO_SPOP then KEY_IS_NEW else KEY_NOT_FOUND) then Some (sscan_done V cmd 0 start 0 [] x1)
        else if st = KEY_OK then
          let x2 = (if cmd = DO_SPOP then lx_open (se_seg V) x1 else lx_open_readonly (se_seg V) x1) in
          if x_kstatus x2 = KEY_OK then smultiscan_open V cmd ival start maxcnt rx x2 else Some (ERR_KV_STATUS, x2)
        else Some (ERR_KV_STATUS, x1) })"

definition exec_smembers :: "('e, 'm) set_env \<Rightarrow> redis_exec \<Rightarrow> 'e xst \<Rightarrow> (exec_status \<times> 'e xst) option" where
  "exec_smembers V ex x = do_smultiscan V ex DO_SMEMBERS 0 0 (\<lambda>_. True) x"
definition exec_spop :: "('e, 'm) set_env \<Rightarrow> redis_exec \<Rightarrow> 'e xst \<Rightarrow> (exec_status \<times> 'e xst) option" where
  "exec_spop V ex x = do_smultiscan V ex DO_SPOP 0 0 (\<lambda>_. True) x"
definition exec_srandmember :: "('e, 'm) set_env \<Rightarrow> redis_exec \<Rightarrow> 'e xst \<Rightarrow> (exec_status \<times> 'e xst) option" where
  "exec_srandmember V ex x = do_smultiscan V ex DO_SRANDMEMBER 0 0 (\<lambda>_. True) x"

definition exec_sscan :: "('e, 'm) set_env \<Rightarrow> ht_view \<Rightarrow> redis_exec \<Rightarrow> 'e xst \<Rightarrow> (exec_status \<times> 'e xst) option" where
  "exec_sscan V H ex x = do {
     r \<leftarrow> match_scan_args H ex 2;
     (case r of Inl e \<Rightarrow> Some (e, x)
      | Inr (pos, maxcnt, rx) \<Rightarrow> do_smultiscan V ex DO_SSCAN (sint pos) (unat (of_int maxcnt :: u64)) rx x) }"

section \<open>Operations on sets\<close>

datatype set_op = DO_SDIFF | DO_SDIFFSTORE | DO_SINTER | DO_SINTERSTORE | DO_SUNION | DO_SUNIONSTORE

definition op_stores :: "set_op \<Rightarrow> bool" where
  "op_stores cmd \<longleftrightarrow> cmd = DO_SDIFFSTORE \<or> cmd = DO_SINTERSTORE \<or> cmd = DO_SUNIONSTORE"

definition op_merge :: "set_op \<Rightarrow> set_merge" where
  "op_merge cmd = (if cmd = DO_SUNION \<or> cmd = DO_SUNIONSTORE then MERGE_UNION
     else if cmd = DO_SINTER \<or> cmd = DO_SINTERSTORE then MERGE_INTER else MERGE_DIFF)"

text \<open>A source: its bytes are saved, and the last one goes on.\<close>

definition save_source :: "('e, 'm) set_env \<Rightarrow> redis_exec \<Rightarrow> byte list \<Rightarrow> 'e xst \<Rightarrow> bool \<times> exec_status \<times> 'e xst" where
  "save_source V ex data x =
     (case save_data (x_strm_ok x) (if data = [] then ss_empty (se_set V) else data) x of (saved, x1) \<Rightarrow>
       if \<not> saved then (False, ERR_ALLOC_FAIL, x1)
       else let x2 = k_validate (se_ops V) x1 in
         if x_kstatus x2 = KEY_OK then (key_cnt ex = key_done ex + 1, EXEC_OK, x2) else (False, ERR_KV_STATUS, x2))"

definition fetch_source :: "('e, 'm) set_env \<Rightarrow> redis_exec \<Rightarrow> 'e xst \<Rightarrow> (bool \<times> exec_status \<times> 'e xst) option" where
  "fetch_source V ex x = do {
     (st, x1) \<leftarrow> do_key_fetch (se_ops V) ex MD_SET True x;
     Some (case st of
         KEY_NO_VALUE \<Rightarrow> (False, ERR_BAD_TYPE, x1)
       | KEY_OK \<Rightarrow>
           let x2 = k_value (se_ops V) x1 in
           if x_kstatus x2 = KEY_OK then save_source V ex (x_data (se_ops V) x2) x2 else (False, ERR_KV_STATUS, x2)
       | KEY_NOT_FOUND \<Rightarrow> save_source V ex [] x1
       | _ \<Rightarrow> (False, ERR_KV_STATUS, x1)) }"

text \<open>One source is merged; a full set moves to a block of the stream. \<open>held\<close> is the size of the block it lies in
  already: when the next one lies at the same place, the set is overwritten before it is copied. The inner
  \<open>None\<close> is a stream without memory.\<close>

partial_function (option) merge_one :: "('e, 'm) set_env \<Rightarrow> bool \<Rightarrow> set_merge \<Rightarrow> byte list \<Rightarrow> 'm \<Rightarrow> nat \<Rightarrow> nat \<Rightarrow> byte list
    \<Rightarrow> (nat \<times> nat \<times> byte list) option option" where
  "merge_one V ok op d2 c retry held d =
     (case ss_merge (se_set V) op d d2 c of (st, d1, c1) \<Rightarrow>
       if st = SET_OK then Some (Some (retry, held, d1))
       else (case lc_resize_size (ss_class (se_set V)) d1 (ss_count (se_set V) d2 + 2) (ss_data_len (se_set V) d2 + retry) of (n, cnt, nd) \<Rightarrow>
         if \<not> ok then Some None
         else
           let new = lc_init (ss_class (se_set V)) (se_mem V n) cnt nd;
               old = (if 0 < held \<and> se_shared V held n then take (length d1) new @ drop (length new) d1 else d1) in
           merge_one V ok op d2 c1 (retry + 16) n (lc_copy (ss_class (se_set V)) old new)))"

fun merge_all :: "('e, 'm) set_env \<Rightarrow> bool \<Rightarrow> set_merge \<Rightarrow> byte list list \<Rightarrow> nat \<Rightarrow> nat \<Rightarrow> byte list \<Rightarrow> byte list option option" where
  "merge_all V ok op [] retry held d = Some (Some d)"
| "merge_all V ok op (d2 # ds) retry held d = do {
     r \<leftarrow> merge_one V ok op d2 (ss_merge0 (se_set V)) retry held d;
     (case r of None \<Rightarrow> Some None | Some (retry1, held1, d1) \<Rightarrow> merge_all V ok op ds retry1 held1 d1) }"

fun members_loop :: "('e, 'm) set_env \<Rightarrow> bool \<Rightarrow> byte list \<Rightarrow> nat \<Rightarrow> nat \<Rightarrow> nat \<Rightarrow> byte list \<Rightarrow> (nat \<times> byte list) option" where
  "members_loop V ok d i 0 cnt q = Some (cnt, q)"
| "members_loop V ok d i (Suc n) cnt q =
     (case ss_lindex (se_set V) d (i + 1) of (st, v, v2) \<Rightarrow>
       if st \<noteq> SET_OK then Some (cnt, q)
       else if \<not> ok then None
       else members_loop V ok d (i + 1) n (cnt + 1) (q @ append_string (se_util V) v v2))"

definition setop_reply :: "('e, 'm) set_env \<Rightarrow> byte list \<Rightarrow> 'e xst \<Rightarrow> exec_status \<times> 'e xst" where
  "setop_reply V d x =
     (case members_loop V (x_strm_ok x) d 0 (ss_count (se_set V) d) 0 [] of None \<Rightarrow> (ERR_ALLOC_FAIL, x)
      | Some (cnt, q) \<Rightarrow> (EXEC_OK, send (prepend_array (se_util V) cnt q) x))"

definition setop_store :: "('e, 'm) set_env \<Rightarrow> redis_exec \<Rightarrow> byte list \<Rightarrow> 'e xst \<Rightarrow> (exec_status \<times> 'e xst) option" where
  "setop_store V ex d x = do {
     (st, x1) \<leftarrow> get_key_write (se_ops V) ex x MD_SET;
     Some (if st = KEY_NO_VALUE \<or> st = KEY_IS_NEW \<or> st = KEY_OK then
         let x2 = k_resize (se_ops V) (length d) False x1 in
         if x_kstatus x2 = KEY_OK then
           (EXEC_SEND_INT, set_flags {EKF_IS_NEW, EKF_KEYSPACE_EVENT, EKF_KEYSPACE_SET}
             ((put_data (se_ops V) x2 d)\<lparr>x_ival := int (ss_hcount (se_set V) d), x_type := MD_SET\<rparr>))
         else (ERR_KV_STATUS, x2)
       else (ERR_KV_STATUS, x1)) }"

text \<open>The sources are the saved bytes of the keys, without the destination; the first is merged with the others in
  its own place. \<open>None\<close> is a key that saved nothing.\<close>

definition do_ssetop :: "('e, 'm) set_env \<Rightarrow> redis_exec \<Rightarrow> set_op \<Rightarrow> 'e xst list \<Rightarrow> nat \<Rightarrow> (exec_status \<times> 'e xst) option" where
  "do_ssetop V ex cmd keys k =
     (let x = keys ! k; dest = (op_stores cmd \<and> x_argn x = 1) in
      if dest \<and> key_cnt ex \<noteq> key_done ex + 1 then Some (EXEC_DEPENDS, x)
      else do {
        (go, st, x1) \<leftarrow> (if dest then Some (True, EXEC_OK, x) else fetch_source V ex x);
        if \<not> go then Some (st, x1)
        else do {
          parts \<leftarrow> those (if key_cnt ex = 1 then [x_part x1] else map x_part (drop (if dest then 1 else 0) (keys[k := x1])));
          (case parts of [] \<Rightarrow> None
           | d # ds \<Rightarrow> do {
             r \<leftarrow> merge_all V (x_strm_ok x1) (op_merge cmd) ds 0 0 d;
             (case r of None \<Rightarrow> Some (ERR_ALLOC_FAIL, x1)
              | Some d1 \<Rightarrow> if dest then setop_store V ex d1 x1 else Some (setop_reply V d1 x1)) }) } })"

definition exec_sdiff :: "('e, 'm) set_env \<Rightarrow> redis_exec \<Rightarrow> 'e xst list \<Rightarrow> nat \<Rightarrow> (exec_status \<times> 'e xst) option" where
  "exec_sdiff V ex keys k = do_ssetop V ex DO_SDIFF keys k"
definition exec_sdiffstore :: "('e, 'm) set_env \<Rightarrow> redis_exec \<Rightarrow> 'e xst list \<Rightarrow> nat \<Rightarrow> (exec_status \<times> 'e xst) option" where
  "exec_sdiffstore V ex keys k = do_ssetop V ex DO_SDIFFSTORE keys k"
definition exec_sinter :: "('e, 'm) set_env \<Rightarrow> redis_exec \<Rightarrow> 'e xst list \<Rightarrow> nat \<Rightarrow> (exec_status \<times> 'e xst) option" where
  "exec_sinter V ex keys k = do_ssetop V ex DO_SINTER keys k"
definition exec_sinterstore :: "('e, 'm) set_env \<Rightarrow> redis_exec \<Rightarrow> 'e xst list \<Rightarrow> nat \<Rightarrow> (exec_status \<times> 'e xst) option" where
  "exec_sinterstore V ex keys k = do_ssetop V ex DO_SINTERSTORE keys k"
definition exec_sunion :: "('e, 'm) set_env \<Rightarrow> redis_exec \<Rightarrow> 'e xst list \<Rightarrow> nat \<Rightarrow> (exec_status \<times> 'e xst) option" where
  "exec_sunion V ex keys k = do_ssetop V ex DO_SUNION keys k"
definition exec_sunionstore :: "('e, 'm) set_env \<Rightarrow> redis_exec \<Rightarrow> 'e xst list \<Rightarrow> nat \<Rightarrow> (exec_status \<times> 'e xst) option" where
  "exec_sunionstore V ex keys k = do_ssetop V ex DO_SUNIONSTORE keys k"

definition set_handler :: "('e, 'm) set_env \<Rightarrow> ht_view \<Rightarrow> redis_exec \<Rightarrow> 'e xst list \<Rightarrow> nat \<Rightarrow> (exec_status \<times> 'e xst) option" where
  "set_handler V H ex keys i =
     (let x = keys ! i; nm = cmd_name (cmd_db ! ex_cmd ex) in
      if nm = ''sadd'' then exec_sadd V ex x
      else if nm = ''scard'' then exec_scard V ex x
      else if nm = ''sdiff'' then exec_sdiff V ex keys i
      else if nm = ''sdiffstore'' then exec_sdiffstore V ex keys i
      else if nm = ''sinter'' then exec_sinter V ex keys i
      else if nm = ''sinterstore'' then exec_sinterstore V ex keys i
      else if nm = ''sismember'' then exec_sismember V ex x
      else if nm = ''smembers'' then exec_smembers V ex x
      else if nm = ''smove'' then exec_smove V ex x
      else if nm = ''spop'' then exec_spop V ex x
      else if nm = ''srandmember'' then exec_srandmember V ex x
      else if nm = ''srem'' then exec_srem V ex x
      else if nm = ''sunion'' then exec_sunion V ex keys i
      else if nm = ''sunionstore'' then exec_sunionstore V ex keys i
      else if nm = ''sscan'' then exec_sscan V H ex x
      else Some (ERR_BAD_CMD, x))"

section \<open>Sets of byte strings\<close>

definition set_result :: "set_merge \<Rightarrow> 'a set \<Rightarrow> 'a set \<Rightarrow> 'a set" where
  "set_result op A B = (case op of MERGE_UNION \<Rightarrow> A \<union> B | MERGE_INTER \<Rightarrow> A \<inter> B | MERGE_DIFF \<Rightarrow> A - B)"

text \<open>What the set class promises: a set stands for the list of its members, each once. \<open>prog op A B c d\<close> says that
  \<open>d\<close>, with the merge at \<open>c\<close>, is on the way from \<open>A\<close> to the result; a merge that stops has no room for what it
  takes in, and goes on from a copy with room.\<close>

locale md_set = container "ss_class S" valid elems "[]" room need
  for S :: "'m set_ops" and valid :: "byte list \<Rightarrow> bool" and elems :: "byte list \<Rightarrow> byte list list"
    and room :: "byte list \<Rightarrow> nat \<Rightarrow> bool" and need :: "nat \<Rightarrow> nat" +
  fixes prog :: "set_merge \<Rightarrow> byte list set \<Rightarrow> byte list set \<Rightarrow> 'm \<Rightarrow> byte list \<Rightarrow> bool"
    and mroom :: "byte list \<Rightarrow> byte list \<Rightarrow> bool" and slack :: nat
  assumes once: "valid d \<Longrightarrow> distinct (elems d)"
    and hcount: "valid d \<Longrightarrow> ss_hcount S d = length (elems d)"
    and count: "valid d \<Longrightarrow> length (elems d) \<le> ss_count S d"
    and sismember: "valid d \<Longrightarrow> ss_sismember S d v = SET_OK \<longleftrightarrow> v \<in> set (elems d)"
    and sadd: "valid d \<Longrightarrow> ss_sadd S d v = (st, d') \<Longrightarrow> valid d' \<and> length d' = length d
        \<and> (if v \<in> set (elems d) then st \<noteq> SET_UPDATED \<and> st \<noteq> SET_FULL \<and> set (elems d') = set (elems d)
           else st = SET_UPDATED \<and> set (elems d') = insert v (set (elems d))
             \<or> st = SET_FULL \<and> set (elems d') = set (elems d) \<and> \<not> room d (length v))"
    and srem: "valid d \<Longrightarrow> ss_srem S d v = (st, d') \<Longrightarrow> valid d' \<and> length d' = length d
        \<and> st = (if v \<in> set (elems d) then SET_OK else SET_NOT_FOUND) \<and> set (elems d') = set (elems d) - {v}"
    and lindex: "valid d \<Longrightarrow> ss_lindex S d i = (st, v, v2) \<Longrightarrow> st = SET_OK \<longleftrightarrow> 0 < i \<and> i \<le> length (elems d)"
      "valid d \<Longrightarrow> ss_lindex S d i = (SET_OK, v, v2) \<Longrightarrow> v @ v2 = elems d ! (i - 1)"
    and spopn: "valid d \<Longrightarrow> i < length (elems d) \<Longrightarrow> valid (ss_spopn S d (i + 1)) \<and> length (ss_spopn S d (i + 1)) = length d
        \<and> elems (ss_spopn S d (i + 1)) = take i (elems d) @ drop (i + 1) (elems d)"
    and spopall: "valid d \<Longrightarrow> valid (ss_spopall S d) \<and> length (ss_spopall S d) = length d \<and> elems (ss_spopall S d) = []"
    and empty: "valid (ss_empty S) \<and> elems (ss_empty S) = []"
    and merge0: "valid d \<Longrightarrow> prog op (set (elems d)) B (ss_merge0 S) d"
    and merge: "valid d \<Longrightarrow> valid d2 \<Longrightarrow> prog op A (set (elems d2)) c d \<Longrightarrow> ss_merge S op d d2 c = (st, d', c') \<Longrightarrow> valid d'
        \<and> (if st = SET_OK then set (elems d') = set_result op A (set (elems d2))
           else prog op A (set (elems d2)) c' d' \<and> \<not> mroom d d2)"
    and merge_copy: "valid d \<Longrightarrow> lc_resize_size (ss_class S) d cnt nd = (n, c1, nd1) \<Longrightarrow> length m = n
        \<Longrightarrow> (case lc_copy (ss_class S) d (lc_init (ss_class S) m c1 nd1) of d' \<Rightarrow> valid d' \<and> (prog op A B c d \<longrightarrow> prog op A B c d')
          \<and> (cnt = ss_count S d2 + 2 \<and> ss_data_len S d2 + slack \<le> nd \<longrightarrow> mroom d' d2))"

subsection \<open>A set in memory\<close>

definition mem_swf :: "byte list \<Rightarrow> bool" where
  "mem_swf d \<longleftrightarrow> mem_wf d \<and> distinct (mem_items d)"

definition mem_sput :: "set_status \<Rightarrow> byte list \<Rightarrow> byte list list \<Rightarrow> set_status \<times> byte list" where
  "mem_sput ok d vs = mem_put ok SET_FULL d vs"

definition merged_items :: "set_merge \<Rightarrow> 'a list \<Rightarrow> 'a list \<Rightarrow> 'a list" where
  "merged_items op as bs = (case op of MERGE_UNION \<Rightarrow> as @ filter (\<lambda>v. v \<notin> set as) bs
     | MERGE_INTER \<Rightarrow> filter (\<lambda>v. v \<in> set bs) as | MERGE_DIFF \<Rightarrow> filter (\<lambda>v. v \<notin> set bs) as)"

definition mem_set :: "unit set_ops" where
  "mem_set =
     \<lparr>ss_class = mem_class,
      ss_count = (\<lambda>d. length (mem_items d) + 1),
      ss_hcount = (\<lambda>d. length (mem_items d)),
      ss_data_len = (\<lambda>d. length (pack_items (mem_items d))),
      ss_index_mask = (\<lambda>d. 65535),
      ss_sismember = (\<lambda>d v. if v \<in> set (mem_items d) then SET_OK else SET_NOT_FOUND),
      ss_sadd = (\<lambda>d v. if v \<in> set (mem_items d) then (SET_OK, d) else mem_sput SET_UPDATED d (mem_items d @ [v])),
      ss_srem = (\<lambda>d v. (if v \<in> set (mem_items d) then SET_OK else SET_NOT_FOUND, snd (mem_sput SET_OK d (removeAll v (mem_items d))))),
      ss_lindex = (\<lambda>d i. if 0 < i \<and> i \<le> length (mem_items d) then (SET_OK, mem_items d ! (i - 1), []) else (SET_NOT_FOUND, [], [])),
      ss_spopn = (\<lambda>d i. snd (mem_sput SET_OK d (take (i - 1) (mem_items d) @ drop i (mem_items d)))),
      ss_spopall = (\<lambda>d. snd (mem_sput SET_OK d [])),
      ss_merge0 = (),
      ss_merge = (\<lambda>op d d2 c. case mem_sput SET_OK d (merged_items op (mem_items d) (mem_items d2)) of (st, d1) \<Rightarrow> (st, d1, ())),
      ss_empty = []\<rparr>"

lemma pack_filter: "length (pack_items (filter P vs)) \<le> length (pack_items vs)"
  by (induction vs) auto

lemma merged_set: "set (merged_items op as bs) = set_result op (set as) (set bs)"
  by (auto simp: merged_items_def set_result_def split: set_merge.splits)

lemma merged_once: "distinct as \<Longrightarrow> distinct bs \<Longrightarrow> distinct (merged_items op as bs)"
  by (auto simp: merged_items_def split: set_merge.splits)

lemma merged_size: "length (pack_items (merged_items op as bs)) \<le> length (pack_items as) + length (pack_items bs)"
  using pack_filter [of "\<lambda>v. v \<notin> set as" bs] pack_filter [of "\<lambda>v. v \<in> set bs" as] pack_filter [of "\<lambda>v. v \<notin> set bs" as]
  by (auto simp: merged_items_def split: set_merge.splits)

lemma mem_sput_fits:
  assumes "mem_swf d" "length (pack_items vs) \<le> length (pack_items (mem_items d))" "distinct vs"
  shows "mem_sput ok d vs = (ok, fill (length d) (pack_items vs)) \<and> mem_swf (fill (length d) (pack_items vs))
    \<and> length (fill (length d) (pack_items vs)) = length d"
  using assms mem_wf_length [of d] by (simp add: mem_swf_def mem_sput_def mem_put_def)

lemma mem_sput_cases:
  assumes "mem_swf d" "mem_sput ok d vs = (st, d')" "distinct vs"
  shows "mem_swf d' \<and> length d' = length d \<and> (st = ok \<and> mem_items d' = vs \<or> st = SET_FULL \<and> d' = d \<and> length d < length (pack_items vs))"
  using assms by (cases "length (pack_items vs) \<le> length d") (auto simp: mem_swf_def mem_sput_def mem_put_def)

lemma pack_parts_drop: "length (pack_items (take i vs @ drop (Suc i) vs)) \<le> length (pack_items vs)"
proof (induction vs arbitrary: i)
  case (Cons v vs)
  then show ?case by (cases i) (auto intro: le_trans)
qed simp

lemma take_drop_once: "distinct vs \<Longrightarrow> distinct (take i vs @ drop (Suc i) vs)"
  using set_take_disj_set_drop_if_distinct [of vs i "Suc i"] by simp

interpretation mem_set: md_set mem_set mem_swf mem_items mem_room "\<lambda>n. n" "\<lambda>op A B c d. set (mem_items d) = A"
  "\<lambda>d d2. length (pack_items (mem_items d)) + length (pack_items (mem_items d2)) \<le> length d" 0
proof (unfold_locales, goal_cases)
  case (1 c nd n c1 nd1 m)
  then show ?case using mem_box.init by (simp add: mem_set_def mem_swf_def)
next
  case (2 d add n c1 nd1 m)
  then show ?case using mem_box.copy [of d add n c1 nd1 m] by (simp add: mem_set_def mem_swf_def)
next
  case (3 d add n c1 nd1 m k)
  then show ?case using mem_box.grown [of d add n c1 nd1 m k] by (simp add: mem_set_def mem_swf_def)
next
  case (8 d v st d')
  then show ?case using mem_sput_cases [of d SET_UPDATED "mem_items d @ [v]" st d']
    by (auto simp: mem_set_def mem_swf_def mem_room_def split: if_splits)
next
  case (9 d v st d')
  then show ?case using mem_sput_fits [of d "removeAll v (mem_items d)" SET_OK] pack_filter [of "\<lambda>w. v \<noteq> w" "mem_items d"]
    by (auto simp: mem_set_def mem_swf_def removeAll_filter_not_eq)
next
  case (12 d i)
  then show ?case using mem_sput_fits [of d "take i (mem_items d) @ drop (Suc i) (mem_items d)" SET_OK]
      take_drop_once [of "mem_items d" i] pack_parts_drop [of i "mem_items d"]
    by (simp add: mem_set_def mem_swf_def del: pack_append)
next
  case (13 d)
  then show ?case using mem_sput_fits [of d "[]" SET_OK] by (simp add: mem_set_def)
next
  case (16 d d2 op A c st d' c')
  let ?vs = "merged_items op (mem_items d) (mem_items d2)"
  have "distinct ?vs" using 16(1,2) merged_once by (auto simp: mem_swf_def)
  then have "mem_swf d' \<and> (st = SET_OK \<and> mem_items d' = ?vs \<or> st = SET_FULL \<and> d' = d \<and> length d < length (pack_items ?vs))"
    using mem_sput_cases [of d SET_OK ?vs st d'] 16(1,4) by (auto simp: mem_set_def split: prod.splits)
  then show ?case
  proof (elim conjE disjE)
    assume "mem_swf d'" "st = SET_OK" "mem_items d' = ?vs"
    then show ?thesis using 16(3) merged_set [of op "mem_items d" "mem_items d2"] by simp
  next
    assume "mem_swf d'" "st = SET_FULL" "d' = d" "length d < length (pack_items ?vs)"
    then show ?thesis using 16(3) merged_size [of op "mem_items d" "mem_items d2"] by simp
  qed
next
  case (17 d cnt nd n c1 nd1 m op A B c d2)
  then show ?case using mem_wf_length [of d] by (auto simp: mem_set_def mem_class_def mem_swf_def)
qed (auto simp: mem_set_def mem_swf_def mem_wf_def fill_def split: if_splits)

end
