(* ===== verification/Set_Refines.thy ===== *)
theory Set_Refines
  imports Redis_Set
begin

text \<open>
  The set commands refine finite sets of byte strings: the laws of the set class and of the key store are the
  locale \<open>set_store\<close>, interpreted by sets and a store in memory. SADD, SREM and SMOVE are insertions and removals,
  SPOP and SRANDMEMBER choose with the bit set of \<open>Set_Bits\<close>, and the operations over many keys are those on sets.
\<close>

section \<open>What the writes do\<close>

lemma set_keeps [simp]:
  "x_argn (lx_realloc C K S r a x) = x_argn x" "x_argn (lx_tombstone S x) = x_argn x" "x_argn (set_flags f x) = x_argn x"
  by (simp_all add: lx_realloc_def lx_tombstone_def set_flags_def split: prod.split)

locale set_store = list_ctx "se_ops V" "se_seg V" "ss_class (se_set V)" valid elems "[]" room need
    + md_set "se_set V" valid elems room need prog mroom slack
  for V :: "('e, 'm) set_env" and valid :: "byte list \<Rightarrow> bool" and elems :: "byte list \<Rightarrow> byte list list"
    and room :: "byte list \<Rightarrow> nat \<Rightarrow> bool" and need :: "nat \<Rightarrow> nat"
    and prog :: "set_merge \<Rightarrow> byte list set \<Rightarrow> byte list set \<Rightarrow> 'm \<Rightarrow> byte list \<Rightarrow> bool"
    and mroom :: "byte list \<Rightarrow> byte list \<Rightarrow> bool" and slack :: nat

text \<open>One member added or taken out, and how many it changed.\<close>

definition member_write :: "set_write \<Rightarrow> 'a \<Rightarrow> 'a set \<Rightarrow> 'a set" where
  "member_write cmd v A = (if cmd = DO_SREM then A - {v} else insert v A)"

definition member_change :: "set_write \<Rightarrow> 'a \<Rightarrow> 'a set \<Rightarrow> int" where
  "member_change cmd v A = (if v \<in> A \<longleftrightarrow> cmd = DO_SREM then 1 else 0)"

definition members_write :: "set_write \<Rightarrow> 'a list \<Rightarrow> 'a set \<Rightarrow> 'a set" where
  "members_write cmd vs A = (if cmd = DO_SREM then A - set vs else A \<union> set vs)"

text \<open>The loop behind a member that is in, or out.\<close>

definition next_member :: "('e, 'm) set_env \<Rightarrow> redis_exec \<Rightarrow> set_write \<Rightarrow> nat \<Rightarrow> nat \<Rightarrow> 'e xst \<Rightarrow> (exec_status \<times> 'e xst) option" where
  "next_member V ex cmd argi retry x =
     (if cmd = DO_SMOVE then Some (EXEC_SEND_ONE, keyspace_set x)
      else if argc ex = argi then Some (swrite_done V cmd x)
      else (case get_arg_str (ex_msg ex) argi of None \<Rightarrow> Some (ERR_BAD_ARGS, x)
        | Some v \<Rightarrow> swrite_loop V ex cmd (argi + 1) retry v x))"

context set_store
begin

abbreviation "data \<equiv> x_data (se_ops V)"
abbreviation "mems d \<equiv> set (elems d)"

lemma swrite_op_spec:
  assumes "valid d" "swrite_op (se_set V) cmd d arg = (st, d', hit)"
  shows "valid d' \<and> length d' = length d \<and> (st \<noteq> SET_FULL \<and> mems d' = member_write cmd arg (mems d)
      \<and> (if hit then 1 else 0) = member_change cmd arg (mems d)
    \<or> st = SET_FULL \<and> \<not> hit \<and> mems d' = mems d \<and> \<not> room d (length arg))"
proof (cases "cmd = DO_SREM")
  case True
  then have "ss_srem (se_set V) d arg = (st, d')" "hit = (st = SET_OK)" using assms(2) by (auto simp: swrite_op_def split: prod.splits)
  then show ?thesis using srem [OF assms(1), of arg st d'] True by (simp add: member_write_def member_change_def)
next
  case False
  then have "ss_sadd (se_set V) d arg = (st, d')" "hit = (st = SET_UPDATED)" using assms(2) by (auto simp: swrite_op_def split: prod.splits)
  then show ?thesis using sadd [OF assms(1), of arg st d'] False
    by (cases "arg \<in> mems d") (auto simp: member_write_def member_change_def insert_absorb)
qed

lemma swrite_one:
  assumes "valid (data x)" "cmd = DO_SMOVE \<longrightarrow> x_argn x \<noteq> 1"
  shows "(\<exists>y. swrite_loop V ex cmd argi retry arg x = Some (ERR_KV_STATUS, y) \<and> x_kstatus y \<noteq> KEY_OK) \<or>
    (\<exists>y r. swrite_loop V ex cmd argi retry arg x = next_member V ex cmd argi r y
       \<and> valid (data y) \<and> mems (data y) = member_write cmd arg (mems (data x)) \<and> x_argn y = x_argn x
       \<and> x_out y = x_out x \<and> x_ival y = x_ival x + member_change cmd arg (mems (data x)))"
  using assms
proof (induction "need (length arg) - (length arg + 2 + retry)" arbitrary: x retry rule: less_induct)
  case less
  let ?inc = "\<lambda>hit x1. if hit then x1\<lparr>x_ival := x_ival x1 + 1\<rparr> else x1"
  have inc: "data (?inc hit y) = data y" "x_argn (?inc hit y) = x_argn y" "x_out (?inc hit y) = x_out y"
    "x_ival (?inc hit y) = x_ival y + (if hit then 1 else 0)" for hit and y :: "'e xst"
    by (simp_all add: x_data_def)
  obtain st d hit where op: "swrite_op (se_set V) cmd (data x) arg = (st, d, hit)" by (metis prod_cases3)
  note spec = swrite_op_spec [OF less.prems(1) op]
  define x1 where "x1 = ?inc hit (put_data (se_ops V) x d)"
  have x1: "data x1 = d" "x_out x1 = x_out x" "x_argn x1 = x_argn x" "x_ival x1 = x_ival x + (if hit then 1 else 0)"
    unfolding x1_def inc using spec by (simp_all add: put_data_data)
  have move: "\<not> (cmd = DO_SMOVE \<and> x_argn x = 1)" using less.prems(2) by blast
  show ?case
  proof (cases "st = SET_FULL")
    case False
    then have "swrite_loop V ex cmd argi retry arg x = next_member V ex cmd argi retry x1"
      by (subst swrite_loop.simps) (simp only: move if_False op x1_def next_member_def Let_def prod.case)
    then show ?thesis using spec False x1 by metis
  next
    case True
    define x2 where "x2 = lx_realloc (ss_class (se_set V)) (se_ops V) (se_seg V) retry (length arg + 2) x1"
    have loop: "swrite_loop V ex cmd argi retry arg x =
        (if x_kstatus x2 = KEY_OK then swrite_loop V ex cmd argi (retry + 16) arg x2 else Some (ERR_KV_STATUS, x2))"
      by (subst swrite_loop.simps) (simp only: move if_False if_True op x1_def x2_def True Let_def prod.case simp_thms)
    have same: "x_out x2 = x_out x" "x_argn x2 = x_argn x" "x_ival x2 = x_ival x" using x1 True spec by (simp_all add: x2_def)
    show ?thesis
    proof (cases "x_kstatus x2 = KEY_OK")
      case False
      then show ?thesis using loop by simp
    next
      case kst: True
      have v1: "valid (data x1)" using spec x1 by simp
      note re = realloc_ok [OF v1 kst [unfolded x2_def], folded x2_def]
      have d2: "valid (data x2)" "mems (data x2) = mems (data x)" using re spec True x1 by simp_all
      have mv: "cmd = DO_SMOVE \<longrightarrow> x_argn x2 \<noteq> 1" "\<not> (cmd = DO_SMOVE \<and> x_argn x2 = 1)" using less.prems(2) same by simp_all
      show ?thesis
      proof (cases "need (length arg) \<le> length arg + 2 + retry")
        case True
        then have room: "room (data x2) (length arg)" using re by simp
        obtain st2 d3 hit2 where op2: "swrite_op (se_set V) cmd (data x2) arg = (st2, d3, hit2)" by (metis prod_cases3)
        note spec2 = swrite_op_spec [OF d2(1) op2]
        define x3 where "x3 = ?inc hit2 (put_data (se_ops V) x2 d3)"
        have x3: "data x3 = d3" "x_out x3 = x_out x2" "x_argn x3 = x_argn x2" "x_ival x3 = x_ival x2 + (if hit2 then 1 else 0)"
          unfolding x3_def inc using spec2 by (simp_all add: put_data_data)
        have st2: "st2 \<noteq> SET_FULL" using spec2 room by blast
        have "swrite_loop V ex cmd argi retry arg x = next_member V ex cmd argi (retry + 16) x3"
          unfolding loop using kst st2
          by (subst swrite_loop.simps) (simp only: mv(2) if_False if_True op2 x3_def next_member_def Let_def prod.case kst st2 simp_thms)
        moreover have "valid (data x3)" "mems (data x3) = member_write cmd arg (mems (data x))" "x_argn x3 = x_argn x"
            "x_out x3 = x_out x" "x_ival x3 = x_ival x + member_change cmd arg (mems (data x))"
          using spec2 st2 x3 d2(2) same by simp_all
        ultimately show ?thesis by blast
      next
        case False
        then have "need (length arg) - (length arg + 2 + (retry + 16)) < need (length arg) - (length arg + 2 + retry)" by simp
        note IH = less.hyps [OF this d2(1) mv(1)]
        then show ?thesis using loop kst d2(2) same by metis
      qed
    qed
  qed
qed

end

text \<open>The key behind a write: it holds the members, or a set that became empty was removed.\<close>

definition set_left :: "('e, 'm) set_env \<Rightarrow> (byte list \<Rightarrow> bool) \<Rightarrow> (byte list \<Rightarrow> byte list list) \<Rightarrow> bool \<Rightarrow> byte list set \<Rightarrow> 'e xst \<Rightarrow> bool" where
  "set_left V valid elems gone B y \<longleftrightarrow>
     (if gone then B = {} \<and> EKF_KEYSPACE_DEL \<in> x_flags y \<and> (\<exists>e. sg_tombstone (se_seg V) e = (KEY_OK, x_ent y))
      else valid (x_data (se_ops V) y) \<and> set (elems (x_data (se_ops V) y)) = B)"

text \<open>The result of SADD and SREM: the key store failed, or the set is as written, the number is that of the members
  that changed, and SREM of the last member removed the key.\<close>

definition swrite_ok :: "('e, 'm) set_env \<Rightarrow> (byte list \<Rightarrow> bool) \<Rightarrow> (byte list \<Rightarrow> byte list list) \<Rightarrow> set_write \<Rightarrow> byte list list
    \<Rightarrow> 'e xst \<Rightarrow> byte list set \<Rightarrow> exec_status \<times> 'e xst \<Rightarrow> bool" where
  "swrite_ok V valid elems cmd vs x A r \<longleftrightarrow> (case r of (st, y) \<Rightarrow>
     st = ERR_KV_STATUS \<and> x_kstatus y \<noteq> KEY_OK \<or>
     (let B = members_write cmd vs A in
      st = EXEC_SEND_INT \<and> x_out y = x_out x \<and> x_ival y = \<bar>int (card B) - int (card A)\<bar>
      \<and> set_left V valid elems (cmd = DO_SREM \<and> B = {} \<and> A \<noteq> {}) B y))"

lemma members_write_Cons: "members_write cmd (v # vs) A = members_write cmd vs (member_write cmd v A)"
  by (auto simp: members_write_def member_write_def)

lemma members_write_Nil [simp]: "members_write cmd [] A = A"
  by (simp add: members_write_def)

text \<open>The number of changes since the set was \<open>A0\<close>.\<close>

definition changed :: "set_write \<Rightarrow> 'a set \<Rightarrow> 'a set \<Rightarrow> bool" where
  "changed cmd A0 A \<longleftrightarrow> finite A0 \<and> finite A \<and> (if cmd = DO_SREM then A \<subseteq> A0 else A0 \<subseteq> A)"

lemma member_changed:
  assumes "changed cmd A0 A"
  shows "changed cmd A0 (member_write cmd v A)"
    and "\<bar>int (card (member_write cmd v A)) - int (card A0)\<bar> = \<bar>int (card A) - int (card A0)\<bar> + member_change cmd v A"
proof -
  show "changed cmd A0 (member_write cmd v A)" using assms by (auto simp: changed_def member_write_def)
  show "\<bar>int (card (member_write cmd v A)) - int (card A0)\<bar> = \<bar>int (card A) - int (card A0)\<bar> + member_change cmd v A"
  proof (cases "cmd = DO_SREM")
    case True
    then have "card A \<le> card A0" using assms by (auto simp: changed_def card_mono)
    moreover have "v \<in> A \<Longrightarrow> 0 < card A" using assms by (auto simp: changed_def card_gt_0_iff)
    ultimately show ?thesis using True by (cases "v \<in> A") (simp_all add: member_write_def member_change_def)
  next
    case False
    then have "card A0 \<le> card A" using assms by (auto simp: changed_def card_mono)
    then show ?thesis using False assms
      by (cases "v \<in> A") (simp_all add: member_write_def member_change_def insert_absorb changed_def)
  qed
qed

lemma changed_none:
  assumes "changed cmd A0 A"
  shows "\<bar>int (card A) - int (card A0)\<bar> = 0 \<longleftrightarrow> A = A0"
proof -
  have "A = A0" if "card A = card A0"
  proof (cases "cmd = DO_SREM")
    case True
    show ?thesis by (rule card_subset_eq) (use assms that True in \<open>simp_all add: changed_def\<close>)
  next
    case False
    have "A0 = A" by (rule card_subset_eq) (use assms that False in \<open>simp_all add: changed_def\<close>)
    then show ?thesis by simp
  qed
  then show ?thesis by (cases "A = A0") auto
qed

context set_store
begin

lemma swrite_done_ok:
  assumes "valid (data y)" "changed cmd A0 (mems (data y))" "cmd \<noteq> DO_SMOVE" "x_ival y = \<bar>int (card (mems (data y))) - int (card A0)\<bar>"
    and "mems (data y) = members_write cmd vs A0" "x_out y = x_out x"
  shows "swrite_ok V valid elems cmd vs x A0 (swrite_done V cmd y)"
proof -
  let ?B = "mems (data y)"
  have mt: "ss_hcount (se_set V) (data y) = 0 \<longleftrightarrow> ?B = {}" using hcount [OF assms(1)] by simp
  have pos: "x_ival y > 0 \<longleftrightarrow> ?B \<noteq> A0" using changed_none [OF assms(2)] assms(4) by linarith
  note ok = swrite_ok_def [of V valid elems cmd vs x A0] set_left_def [of V valid elems]
  show ?thesis
  proof (cases "?B = A0")
    case True
    then show ?thesis using assms(1,4,6) pos by (simp add: ok swrite_done_def Let_def flip: assms(5))
  next
    case False
    let ?gone = "cmd = DO_SREM \<and> ss_hcount (se_set V) (data y) = 0"
    have g: "?gone \<longleftrightarrow> cmd = DO_SREM \<and> ?B = {} \<and> A0 \<noteq> {}" using False mt by auto
    have fin: "swrite_done V cmd y = remove_empty (se_seg V) ?gone EXEC_SEND_INT (keyspace_set y)"
      using pos False by (simp add: swrite_done_def)
    have "swrite_ok V valid elems cmd vs x A0 (remove_empty (se_seg V) ?gone EXEC_SEND_INT (keyspace_set y))"
    proof (cases rule: remove_empty_cases [of ?gone "se_seg V" EXEC_SEND_INT "keyspace_set y"])
      case 1
      show ?thesis unfolding 1(2) using assms(1,4,6) g 1(1) hcount [OF assms(1)] by (auto simp: ok Let_def simp flip: assms(5))
    next
      case (2 z)
      show ?thesis unfolding 2(2) using 2(3) by (simp add: ok)
    next
      case (3 z e)
      then have "set_left V valid elems True ?B z" using mt by (auto simp: set_left_def)
      then show ?thesis unfolding 3(2) swrite_ok_def Let_def assms(5) [symmetric] using 3(1,3,4) assms(4,6) g by simp
    qed
    then show ?thesis unfolding fin .
  qed
qed

lemma swrite_loop_spec:
  assumes "cmd \<noteq> DO_SMOVE" "map (get_arg_str (ex_msg ex)) [argi..<argc ex] = map Some vs" "argi \<le> argc ex"
    and "valid (data x)" "changed cmd A0 (mems (data x))" "x_ival x = \<bar>int (card (mems (data x))) - int (card A0)\<bar>"
    and "members_write cmd (v # vs) (mems (data x)) = members_write cmd us A0"
  shows "\<exists>r. swrite_loop V ex cmd argi retry v x = Some r \<and> swrite_ok V valid elems cmd us x A0 r"
  using assms(2-)
proof (induction vs arbitrary: argi retry v x)
  case Nil
  then have argi: "argc ex = argi" by auto
  have one: "cmd = DO_SMOVE \<longrightarrow> x_argn x \<noteq> 1" using assms(1) by simp
  show ?case using swrite_one [where cmd = cmd, OF Nil.prems(3) one, where ex = ex and argi = argi and retry = retry and arg = v]
  proof (elim disjE exE conjE, goal_cases)
    case (1 y)
    then show ?case by (auto simp: swrite_ok_def)
  next
    case (2 y r)
    have "swrite_ok V valid elems cmd us x A0 (swrite_done V cmd y)"
      using swrite_done_ok [OF 2(2) _ assms(1), of A0 us x] member_changed [OF Nil.prems(4), of v] Nil.prems(5,6) 2
      by (simp add: members_write_Cons)
    then show ?case using 2(1) assms(1) argi by (simp add: next_member_def)
  qed
next
  case (Cons w vs)
  then have argi: "argi < argc ex" by (cases "argi < argc ex") auto
  then have w: "get_arg_str (ex_msg ex) argi = Some w" "map (get_arg_str (ex_msg ex)) [argi + 1..<argc ex] = map Some vs"
    using Cons.prems(1) by (auto simp: upt_conv_Cons)
  have one: "cmd = DO_SMOVE \<longrightarrow> x_argn x \<noteq> 1" using assms(1) by simp
  show ?case using swrite_one [where cmd = cmd, OF Cons.prems(3) one, where ex = ex and argi = argi and retry = retry and arg = v]
  proof (elim disjE exE conjE, goal_cases)
    case (1 y)
    then show ?case by (auto simp: swrite_ok_def)
  next
    case (2 y r)
    have "\<exists>q. swrite_loop V ex cmd (argi + 1) r w y = Some q \<and> swrite_ok V valid elems cmd us y A0 q"
      using member_changed [OF Cons.prems(4), of v] Cons.prems(5,6) 2 argi w(2)
      by (intro Cons.IH) (simp_all add: members_write_Cons)
    then show ?case using 2 assms(1) argi w(1) by (auto simp: next_member_def swrite_ok_def)
  qed
qed

end

lemma members_size_some: "map (get_arg_str (ex_msg ex)) js = map Some vs \<Longrightarrow> \<exists>n. members_size ex js nd = Some n"
  by (induction js arbitrary: vs nd) auto

context set_store
begin

lemma swrite_new_spec:
  assumes "cmd \<noteq> DO_SMOVE" "map (get_arg_str (ex_msg ex)) [3..<argc ex] = map Some vs" "3 \<le> argc ex" "x_ival x = 0"
  shows "\<exists>r. swrite_new V ex cmd v c nd x = Some r \<and> swrite_ok V valid elems cmd (v # vs) x {} r"
proof -
  let ?x1 = "lx_create (ss_class (se_set V)) (se_ops V) MD_SET c nd x"
  show ?thesis
  proof (cases "x_kstatus ?x1 = KEY_OK")
    case True
    note d = create_ok [OF True]
    have "\<exists>r. swrite_loop V ex cmd 3 0 v ?x1 = Some r \<and> swrite_ok V valid elems cmd (v # vs) ?x1 {} r"
      using d assms(4) by (intro swrite_loop_spec [OF assms(1-3)]) (simp_all add: changed_def)
    then show ?thesis using True by (auto simp: swrite_new_def swrite_ok_def)
  qed (simp add: swrite_new_def swrite_ok_def)
qed

lemma do_swrite_spec:
  assumes "cmd \<noteq> DO_SMOVE" "get_arg_str (ex_msg ex) 2 = Some v" "map (get_arg_str (ex_msg ex)) [3..<argc ex] = map Some vs" "3 \<le> argc ex"
    and "do_key_fetch (se_ops V) ex MD_SET False x = Some (st, x1)" "fetched valid elems [] (se_ops V) st x1 xs" "st \<noteq> KEY_NOT_FOUND"
    and "x_ival x1 = 0"
  shows "\<exists>r. do_swrite V ex cmd x = Some r \<and>
    (if st = KEY_IS_NEW \<and> cmd = DO_SREM then r = (EXEC_SEND_ZERO, x1) else swrite_ok V valid elems cmd (v # vs) x1 (set xs) r)"
proof (cases "st = KEY_OK")
  case True
  let ?x2 = "lx_open (se_seg V) x1"
  have d: "valid (data ?x2)" "elems (data ?x2) = xs" using assms(6) True by (simp_all add: fetched_def)
  show ?thesis
  proof (cases "x_kstatus ?x2 = KEY_OK")
    case kst: True
    have "\<exists>r. swrite_loop V ex cmd 3 0 v ?x2 = Some r \<and> swrite_ok V valid elems cmd (v # vs) ?x2 (set xs) r"
      using d assms(8) by (intro swrite_loop_spec [OF assms(1,3,4)]) (simp_all add: changed_def)
    then show ?thesis using assms(1,2,5) True kst by (auto simp: do_swrite_def swrite_ok_def)
  qed (use assms(1,2,5) True in \<open>simp add: do_swrite_def swrite_ok_def\<close>)
next
  case False
  then have new: "st = KEY_IS_NEW" "xs = []" using assms(6,7) by (auto simp: fetched_def)
  obtain n where "members_size ex [3..<argc ex] (2 + length v) = Some n" using members_size_some [OF assms(3)] by blast
  then show ?thesis using swrite_new_spec [OF assms(1,3,4,8)] assms(1,2,5) new
    by (cases cmd) (simp_all add: do_swrite_def)
qed

text \<open>The two halves of SMOVE. The second one also overwrites a value of another type.\<close>

lemma smove_src_spec:
  assumes "valid (data x)" "elems (data x) = xs"
  shows "case smove_src V v x of (st, y) \<Rightarrow>
    if v \<notin> set xs then st = EXEC_ABORT_SEND_ZERO \<and> set_left V valid elems False (set xs) y
    else st = ERR_KV_STATUS \<and> x_kstatus y \<noteq> KEY_OK \<or>
      st = EXEC_OK \<and> x_out y = x_out x \<and> set_left V valid elems (set xs - {v} = {}) (set xs - {v}) y"
proof -
  obtain st d where r: "ss_srem (se_set V) (data x) v = (st, d)" by force
  note rm = srem [OF assms(1) r]
  let ?x1 = "put_data (se_ops V) x d"
  have x1: "data ?x1 = d" using rm by (simp add: put_data_data)
  have z: "ss_hcount (se_set V) d = 0 \<longleftrightarrow> set xs - {v} = {}" using hcount [of d] rm assms(2) by (metis length_0_conv set_empty)
  show ?thesis
  proof (cases "v \<in> set xs")
    case False
    then show ?thesis using rm x1 assms(2) by (auto simp: smove_src_def r set_left_def)
  next
    case True
    then have s: "smove_src V v x = remove_empty (se_seg V) (ss_hcount (se_set V) d = 0) EXEC_OK (keyspace_set ?x1)"
      using rm x1 assms(2) by (simp add: smove_src_def r Let_def)
    show ?thesis unfolding s
      by (rule remove_empty_cases [of "ss_hcount (se_set V) d = 0" "se_seg V" EXEC_OK "keyspace_set ?x1"])
        (use True rm x1 z assms(2) in \<open>auto simp: set_left_def\<close>)
  qed
qed

lemma smove_dest_spec:
  assumes "x_argn x = 2" "get_arg_str (ex_msg ex) 3 = Some v"
    and "do_key_fetch (se_ops V) ex MD_SET False x = Some (st, x1)" "x_argn x1 = 2"
    and "st = KEY_NO_VALUE \<and> xs = [] \<or> fetched valid elems [] (se_ops V) st x1 xs" "st \<noteq> KEY_NOT_FOUND"
  shows "\<exists>st' y. do_swrite V ex DO_SMOVE x = Some (st', y) \<and> (st' = ERR_KV_STATUS \<and> x_kstatus y \<noteq> KEY_OK \<or>
    st' = EXEC_SEND_ONE \<and> valid (data y) \<and> mems (data y) = insert v (set xs) \<and> x_out y = x_out x1)"
proof -
  have loop: "\<exists>st' y. swrite_loop V ex DO_SMOVE 3 0 v z = Some (st', y) \<and> (st' = ERR_KV_STATUS \<and> x_kstatus y \<noteq> KEY_OK \<or>
      st' = EXEC_SEND_ONE \<and> valid (data y) \<and> mems (data y) = insert v (mems (data z)) \<and> x_out y = x_out z)"
    if "valid (data z)" "x_argn z = 2" for z
    using swrite_one [OF that(1), of DO_SMOVE ex 3 0 v] that(2) by (auto simp: next_member_def member_write_def)
  show ?thesis
  proof (cases "st = KEY_OK")
    case True
    then show ?thesis using loop [of "lx_open (se_seg V) x1"] assms by (auto simp: do_swrite_def fetched_def Let_def)
  next
    case False
    let ?z = "lx_create (ss_class (se_set V)) (se_ops V) MD_SET 2 (2 + length v) x1"
    have xs: "xs = []" "st = KEY_NO_VALUE \<or> st = KEY_IS_NEW" using assms(5,6) False by (auto simp: fetched_def)
    then have d: "do_swrite V ex DO_SMOVE x = swrite_new V ex DO_SMOVE v 2 (2 + length v) x1"
      using assms(2-4) by (auto simp: do_swrite_def)
    show ?thesis
    proof (cases "x_kstatus ?z = KEY_OK")
      case True
      then show ?thesis using loop [of ?z] create_ok [OF True] assms(4) xs(1) unfolding d by (simp add: swrite_new_def Let_def)
    qed (simp add: d swrite_new_def Let_def)
  qed
qed

end

section \<open>Random members\<close>

subsection \<open>Bit sets that need no block\<close>

lemma extend_small:
  assumes "bits_ok s" "off < 16"
  obtains s1 where "extend_bits U M off s = Some (True, s1)" "bits_ok s1" "members s1 = members s" "off \<le> sb_last s1"
proof -
  have off: "off < length (sb_bits s)" "\<not> sb_size s \<le> off" using assms by (auto simp: bits_ok_def)
  from clear_upto_ok [OF off(1)] obtain s1 where "clear_upto off s = Some s1" "sb_last s1 = max (sb_last s) off" "members s1 = members s"
    "length (sb_bits s1) = length (sb_bits s)" "sb_size s1 = sb_size s" "sb_heap s1 = sb_heap s" by auto
  moreover have "bits_ok s1" using calculation assms by (auto simp: bits_ok_def)
  ultimately show thesis using that [of s1] off(2) by (simp add: extend_bits_def)
qed

lemma test_set_small:
  assumes "bits_ok s" "j < 1024"
  obtains s1 where "test_set_bits U M j s = Some (j \<in> members s, s1)" "bits_ok s1" "members s1 = insert j (members s)"
proof -
  have j: "j div 64 < 16" using assms(2) by simp
  obtain s1 where e: "extend_bits U M (j div 64) s = Some (True, s1)" "bits_ok s1" "members s1 = members s" "j div 64 \<le> sb_last s1"
    by (rule extend_small [OF assms(1) j])
  then have l: "sb_last s1 < length (sb_bits s1)" by (simp add: bits_ok_def)
  show thesis
  proof (cases "j \<in> members s")
    case True
    then show thesis using that [of s1] e member_bit [OF e(4)]
      by (simp add: test_set_bits_def bit_word_div Let_def insert_absorb)
  next
    case False
    then show thesis using that [of "or_word_bits (j div 64) (bit_mask j) s1"] e member_bit [OF e(4)] or_members [OF e(4) l] or_bits_ok [OF e(2)]
      by (simp add: test_set_bits_def bit_word_div Let_def)
  qed
qed

text \<open>flip: the words below the end, the last one cut at it.\<close>

lemma flip_word_bit:
  assumes "up mod 64 < 31" "k * 64 < up" "n < 64"
  shows "\<exists>w'. flip_word up k w = Some w' \<and> bit w' n = (\<not> bit w n \<and> 64 * k + n < up)"
proof -
  have m: "(k + 1) * 64 > up \<Longrightarrow> up = 64 * k + up mod 64"
  proof -
    assume "(k + 1) * 64 > up"
    then have "up div 64 = k" using assms(2) by simp
    then show ?thesis by (metis mult_div_mod_eq)
  qed
  have "push_bit (up mod 64) 1 - 1 = (Bit_Operations.mask (up mod 64) :: u64)" by (simp add: mask_eq_exp_minus_1 push_bit_of_1)
  then show ?thesis using assms m
    by (cases "(k + 1) * 64 > up") (auto simp: flip_word_def Let_def and_63 bit_and_iff bit_not_iff bit_mask_iff not_less)
qed

lemma flip_loop_ok:
  assumes "up mod 64 < 31" "\<forall>m. m * 64 < up \<longrightarrow> m < length (sb_bits s)"
  shows "\<exists>s'. flip_loop up k s = Some s' \<and> sb_last s' = sb_last s \<and> sb_size s' = sb_size s \<and> sb_heap s' = sb_heap s
    \<and> length (sb_bits s') = length (sb_bits s)
    \<and> (\<forall>m n. n < 64 \<longrightarrow> bit (sb_bits s' ! m) n =
        (if k \<le> m \<and> m * 64 < up then \<not> bit (sb_bits s ! m) n \<and> 64 * m + n < up else bit (sb_bits s ! m) n))"
  using assms
proof (induction up k s rule: flip_loop.induct)
  case (1 up k s)
  show ?case
  proof (cases "k * 64 < up")
    case False
    then have "\<not> (k \<le> m \<and> m * 64 < up)" for m by auto
    then show ?thesis using False by (subst flip_loop.simps) simp
  next
    case True
    obtain w where w: "flip_word up k (sb_bits s ! k) = Some w" using flip_word_bit [OF "1.prems"(1) True, of 0] by fastforce
    have b: "n < 64 \<Longrightarrow> bit w n = (\<not> bit (sb_bits s ! k) n \<and> 64 * k + n < up)" for n
      using flip_word_bit [OF "1.prems"(1) True, of n "sb_bits s ! k"] w by auto
    let ?s = "s\<lparr>sb_bits := (sb_bits s)[k := w]\<rparr>"
    have k: "k < length (sb_bits s)" using "1.prems"(2) True by blast
    have step: "flip_loop up k s = flip_loop up (k + 1) ?s" by (subst flip_loop.simps) (simp add: True w)
    obtain s' where s': "flip_loop up (k + 1) ?s = Some s'" "sb_last s' = sb_last s" "sb_size s' = sb_size s" "sb_heap s' = sb_heap s"
      "length (sb_bits s') = length (sb_bits s)"
      "\<forall>m n. n < 64 \<longrightarrow> bit (sb_bits s' ! m) n =
        (if k + 1 \<le> m \<and> m * 64 < up then \<not> bit (sb_bits ?s ! m) n \<and> 64 * m + n < up else bit (sb_bits ?s ! m) n)"
      using "1.IH" [OF True w] "1.prems" by auto
    have "bit (sb_bits s' ! m) n = (if k \<le> m \<and> m * 64 < up then \<not> bit (sb_bits s ! m) n \<and> 64 * m + n < up else bit (sb_bits s ! m) n)"
      if "n < 64" for m n
      using s'(6) that b k True by (cases "m = k") auto
    then show ?thesis using step s'(1-5) by auto
  qed
qed

lemma flip_small:
  assumes "bits_ok s" "members s \<subseteq> {..<up}" "up < 1024" "up mod 64 < 31"
  obtains s1 where "flip_bits U M up s = Some (True, s1)" "bits_ok s1" "members s1 = {..<up} - members s"
proof -
  have u: "up div 64 < 16" using assms(3) by simp
  obtain s0 where e: "extend_bits U M (up div 64) s = Some (True, s0)" "bits_ok s0" "members s0 = members s" "up div 64 \<le> sb_last s0"
    by (rule extend_small [OF assms(1) u])
  have m: "m \<le> sb_last s0" if "m * 64 < up" for m
  proof -
    have "m \<le> up div 64" using that by (simp add: less_eq_div_iff_mult_less_eq)
    then show ?thesis using e(4) by simp
  qed
  have "sb_last s0 < length (sb_bits s0)" using e(2) by (simp add: bits_ok_def)
  then have len: "\<forall>m. m * 64 < up \<longrightarrow> m < length (sb_bits s0)" using m by (meson le_less_trans)
  obtain s1 where s1: "flip_loop up 0 s0 = Some s1" "sb_last s1 = sb_last s0" "sb_size s1 = sb_size s0" "sb_heap s1 = sb_heap s0"
      "length (sb_bits s1) = length (sb_bits s0)"
      "\<And>m n. n < 64 \<Longrightarrow> bit (sb_bits s1 ! m) n = (if m * 64 < up then \<not> bit (sb_bits s0 ! m) n \<and> 64 * m + n < up else bit (sb_bits s0 ! m) n)"
    using flip_loop_ok [OF assms(4) len, of 0] by auto
  have "x \<in> members s1 \<longleftrightarrow> x < up \<and> x \<notin> members s" for x
  proof -
    have x: "64 * (x div 64) + x mod 64 = x" "x mod 64 < 64" by simp_all
    have b: "bit (sb_bits s1 ! (x div 64)) (x mod 64) = (if x div 64 * 64 < up then \<not> bit (sb_bits s0 ! (x div 64)) (x mod 64) \<and> x < up
        else bit (sb_bits s0 ! (x div 64)) (x mod 64))" using s1(6) [OF x(2)] x(1) by simp
    show ?thesis
    proof (cases "x div 64 * 64 < up")
      case True
      then show ?thesis using b m [OF True] s1(2) e(3) by (auto simp: members_def)
    next
      case False
      then have "\<not> x < up" using x(1) by linarith
      then show ?thesis using False b s1(2) assms(2) e(3) by (auto simp: members_def)
    qed
  qed
  then have "members s1 = {..<up} - members s" by auto
  moreover have "bits_ok s1" using e(2) s1(2-5) by (auto simp: bits_ok_def)
  moreover have "flip_bits U M up s = Some (True, s1)" using e(1) s1(1) by (simp add: flip_bits_def bit_word_div)
  ultimately show thesis using that by blast
qed

subsection \<open>The draw\<close>

lemma shrink_less: "0 < count \<Longrightarrow> shrink count m < count"
proof (induction count m rule: shrink.induct)
  case (1 count m)
  then show ?case by (subst shrink.simps) auto
qed

text \<open>The numbers that one random number and that many first ones give.\<close>

fun word_draws :: "u64 \<Rightarrow> nat \<Rightarrow> nat \<Rightarrow> u64 \<Rightarrow> nat set" where
  "word_draws msk count 0 n = {}"
| "word_draws msk count (Suc k) n = insert (shrink count (unat (n AND msk))) (word_draws msk count k (drop_bit 16 n))"

definition drawn :: "(nat \<Rightarrow> u64) \<Rightarrow> u64 \<Rightarrow> nat \<Rightarrow> nat \<Rightarrow> nat set" where
  "drawn rng msk count n = (\<Union>i<n. word_draws msk count 4 (rng i))"

lemma pick_word_spec:
  assumes "0 < count" "count \<le> 1024"
  shows "bits_ok b \<Longrightarrow> members b \<subseteq> {..<count} \<Longrightarrow> 0 < ival \<Longrightarrow> ival < 2 ^ 62 \<Longrightarrow>
    \<exists>enough iv b1. pick_word U M msk count k n ival b = Some (enough, iv, b1) \<and> bits_ok b1 \<and> members b1 \<subseteq> {..<count}
      \<and> (if enough then int (card (members b1)) = int (card (members b)) + ival
         else 0 < iv \<and> iv \<le> ival \<and> int (card (members b1)) + iv = int (card (members b)) + ival \<and> members b \<union> word_draws msk count k n \<subseteq> members b1)"
proof (induction k arbitrary: n ival b)
  case (Suc k)
  let ?m = "shrink count (unat (n AND msk))"
  have m: "?m < count" "?m < 1024" using shrink_less [OF assms(1), of "unat (n AND msk)"] assms(2) by auto
  obtain b0 where b0: "test_set_bits U M ?m b = Some (?m \<in> members b, b0)" "bits_ok b0" "members b0 = insert ?m (members b)"
    by (rule test_set_small [OF Suc.prems(1) m(2)])
  have fin: "finite (members b)" using Suc.prems(2) finite_subset by blast
  have sub: "members b0 \<subseteq> {..<count}" using b0(3) Suc.prems(2) m(1) by auto
  have i64: "to_int64 (ival - 1) = ival - 1" using Suc.prems(3,4) by (intro to_int64_id) (simp add: int64_range_def)
  show ?case
  proof (cases "?m \<in> members b")
    case True
    then have "members b0 = members b" using b0(3) by auto
    moreover obtain enough iv b1 where "pick_word U M msk count k (drop_bit 16 n) ival b0 = Some (enough, iv, b1)" "bits_ok b1" "members b1 \<subseteq> {..<count}"
      "if enough then int (card (members b1)) = int (card (members b0)) + ival
         else 0 < iv \<and> iv \<le> ival \<and> int (card (members b1)) + iv = int (card (members b0)) + ival
           \<and> members b0 \<union> word_draws msk count k (drop_bit 16 n) \<subseteq> members b1"
      using Suc.IH [OF b0(2) sub Suc.prems(3,4), of "drop_bit 16 n"] by blast
    ultimately show ?thesis using b0(1) True by (auto split: if_splits)
  next
    case False
    then have c: "int (card (members b0)) = int (card (members b)) + 1" using b0(3) fin by simp
    show ?thesis
    proof (cases "ival = 1")
      case True
      then show ?thesis using False b0 sub c i64 by (intro exI [of _ True] exI [of _ 0] exI [of _ b0]) simp
    next
      case more: False
      then obtain enough iv b1 where "pick_word U M msk count k (drop_bit 16 n) (ival - 1) b0 = Some (enough, iv, b1)" "bits_ok b1" "members b1 \<subseteq> {..<count}"
        "if enough then int (card (members b1)) = int (card (members b0)) + (ival - 1)
         else 0 < iv \<and> iv \<le> ival - 1 \<and> int (card (members b1)) + iv = int (card (members b0)) + (ival - 1)
           \<and> members b0 \<union> word_draws msk count k (drop_bit 16 n) \<subseteq> members b1"
        using Suc.IH [OF b0(2) sub, of "ival - 1" "drop_bit 16 n"] Suc.prems(3,4) by auto
      then show ?thesis using b0(1,3) False c more i64 by (auto split: if_splits)
    qed
  qed
qed (auto intro: exI [of _ False])

lemma pick_loop_spec:
  assumes "0 < count" "count \<le> 1024" "T \<le> card (drawn rng msk count n)"
  shows "i \<le> n \<Longrightarrow> bits_ok b \<Longrightarrow> members b \<subseteq> {..<count} \<Longrightarrow> drawn rng msk count i \<subseteq> members b \<Longrightarrow> 0 < ival \<Longrightarrow> ival < 2 ^ 62
    \<Longrightarrow> int (card (members b)) + ival = int T
    \<Longrightarrow> \<exists>b1. pick_loop U M rng msk count i ival b = Some b1 \<and> bits_ok b1 \<and> members b1 \<subseteq> {..<count} \<and> card (members b1) = T"
proof (induction "n - i" arbitrary: i ival b)
  case 0
  then have "drawn rng msk count n \<subseteq> members b" "finite (members b)" using finite_subset [OF "0.prems"(3)] by simp_all
  then have "T \<le> card (members b)" using assms(3) card_mono [of "members b" "drawn rng msk count n"] by linarith
  then show ?case using "0.prems"(5,7) by simp
next
  case (Suc k)
  obtain enough iv b1 where w: "pick_word U M msk count 4 (rng i) ival b = Some (enough, iv, b1)" "bits_ok b1" "members b1 \<subseteq> {..<count}"
    "if enough then int (card (members b1)) = int (card (members b)) + ival
       else 0 < iv \<and> iv \<le> ival \<and> int (card (members b1)) + iv = int (card (members b)) + ival \<and> members b \<union> word_draws msk count 4 (rng i) \<subseteq> members b1"
    using pick_word_spec [OF assms(1,2) Suc.prems(2,3,5,6)] by blast
  show ?case
  proof (cases enough)
    case True
    then show ?thesis using w Suc.prems(7) by (subst pick_loop.simps) simp
  next
    case False
    have "drawn rng msk count (i + 1) = drawn rng msk count i \<union> word_draws msk count 4 (rng i)" by (auto simp: drawn_def lessThan_Suc)
    then have "\<exists>b2. pick_loop U M rng msk count (i + 1) iv b1 = Some b2 \<and> bits_ok b2 \<and> members b2 \<subseteq> {..<count} \<and> card (members b2) = T"
      using w False Suc.prems Suc.hyps(2) by (intro Suc.hyps(1)) auto
    then show ?thesis using w(1) False by (subst pick_loop.simps) simp
  qed
qed

text \<open>SPOP and SRANDMEMBER with the count 0: the number to mark is never reached.\<close>

lemma pick_word_zero:
  assumes "0 < count" "count \<le> 1024"
  shows "bits_ok b \<Longrightarrow> members b \<subseteq> {..<count} \<Longrightarrow>
    \<exists>b1. pick_word U M msk count k n (- int (card (members b))) b = Some (False, - int (card (members b1)), b1)
      \<and> bits_ok b1 \<and> members b1 \<subseteq> {..<count}"
proof (induction k arbitrary: n b)
  case (Suc k)
  let ?m = "shrink count (unat (n AND msk))"
  have m: "?m < count" "?m < 1024" using shrink_less [OF assms(1), of "unat (n AND msk)"] assms(2) by auto
  obtain b0 where b0: "test_set_bits U M ?m b = Some (?m \<in> members b, b0)" "bits_ok b0" "members b0 = insert ?m (members b)"
    by (rule test_set_small [OF Suc.prems(1) m(2)])
  have fin: "finite (members b)" using Suc.prems(2) finite_subset by blast
  have sub: "members b0 \<subseteq> {..<count}" using b0(3) Suc.prems(2) m(1) by auto
  have c: "card (members b) \<le> 1024" using card_mono [OF _ Suc.prems(2)] assms(2) by simp
  have i64: "to_int64 (- int (card (members b)) - 1) = - int (card (members b)) - 1"
    using c by (intro to_int64_id) (simp add: int64_range_def)
  show ?case
  proof (cases "?m \<in> members b")
    case True
    then have "members b0 = members b" using b0(3) by auto
    then show ?thesis using Suc.IH [OF b0(2) sub, of "drop_bit 16 n"] b0(1) True by simp
  next
    case False
    then have "- int (card (members b0)) = - int (card (members b)) - 1" using b0(3) fin by simp
    then show ?thesis using Suc.IH [OF b0(2) sub, of "drop_bit 16 n"] b0(1) False i64 by simp
  qed
qed auto

lemma pick_loop_zero:
  assumes "0 < count" "count \<le> 1024" "bits_ok b" "members b \<subseteq> {..<count}"
  shows "pick_loop U M rng msk count i (- int (card (members b))) b = None"
proof -
  let ?P = "\<lambda>U M rng msk c i ival b y. c = count \<longrightarrow> bits_ok b \<longrightarrow> members b \<subseteq> {..<count} \<longrightarrow> ival \<noteq> - int (card (members b))"
  have "?P U M rng msk count i ival b y" if "pick_loop U M rng msk count i ival b = Some y" for ival y
  proof (rule pick_loop.raw_induct [where P = ?P, OF _ that], goal_cases)
    case (1 pl U M rng msk c i ival b y)
    show ?case
    proof (intro impI notI)
      assume a: "c = count" "bits_ok b" "members b \<subseteq> {..<count}" "ival = - int (card (members b))"
      obtain b1 where "pick_word U M msk count 4 (rng i) (- int (card (members b))) b = Some (False, - int (card (members b1)), b1)"
        "bits_ok b1" "members b1 \<subseteq> {..<count}" using pick_word_zero [OF assms(1,2) a(2,3)] by blast
      then have "pl U M rng msk count (i + 1) (- int (card (members b1))) b1 = Some y" using 1(2) a by simp
      then show False using 1(1) a(1) \<open>bits_ok b1\<close> \<open>members b1 \<subseteq> {..<count}\<close> by blast
    qed
  qed
  then show ?thesis using assms(3,4) by (cases "pick_loop U M rng msk count i (- int (card (members b))) b") blast+
qed

lemma pick_zero_hangs:
  assumes "0 < count" "count \<le> 1024" "length (se_work V) = 16"
  shows "pick_members V d count 0 = None"
  using pick_loop_zero [OF assms(1,2), of "new_bits (se_work V)"] new_members [OF assms(3)] assms(1)
  by (simp add: pick_members_def Let_def)

subsection \<open>What is read, and what is taken out\<close>

lemma nths_upt: "nths xs T = map ((!) xs) (filter (\<lambda>k. k \<in> T) [0..<length xs])"
proof (induction xs rule: rev_induct)
  case (snoc x xs)
  have "map ((!) (xs @ [x])) (filter (\<lambda>k. k \<in> T) [0..<length xs]) = map ((!) xs) (filter (\<lambda>k. k \<in> T) [0..<length xs])"
    by (auto simp: nth_append)
  then show ?case using snoc by (simp add: nths_append nths_singleton nth_append)
qed simp

lemma take_nths_upt: "j \<le> length xs \<Longrightarrow> take j xs = map ((!) xs) [0..<j]"
  by (rule nth_equalityI) auto

text \<open>The members from a place on.\<close>

definition nths_from :: "nat \<Rightarrow> 'a list \<Rightarrow> nat set \<Rightarrow> 'a list" where
  "nths_from i xs T = map ((!) xs) (filter (\<lambda>k. k \<in> T) [i..<length xs])"

lemma nths_from_none: "(\<And>k. k \<in> T \<Longrightarrow> k < i) \<Longrightarrow> nths_from i xs T = []"
  by (fastforce simp: nths_from_def filter_empty_conv)

lemma upt_split: "i \<le> j \<Longrightarrow> j < n \<Longrightarrow> [i..<n] = [i..<j] @ j # [j + 1..<n]"
  using upt_add_eq_append [of i j "n - j"] upt_conv_Cons [of j n] by simp

lemma nths_from_next:
  assumes "j \<in> T" "i \<le> j" "j < length xs" "\<And>k. k \<in> T \<Longrightarrow> i \<le> k \<Longrightarrow> j \<le> k"
  shows "nths_from i xs T = xs ! j # nths_from (j + 1) xs T"
proof -
  have "[i..<length xs] = [i..<j] @ j # [j + 1..<length xs]" using assms(2,3) by (rule upt_split)
  moreover have "filter (\<lambda>k. k \<in> T) [i..<j] = []" using assms(4) by (fastforce simp: filter_empty_conv)
  ultimately show ?thesis using assms(1) by (simp add: nths_from_def)
qed

context set_store
begin

abbreviation "items vs \<equiv> concat (map (\<lambda>v. append_string (se_util V) v []) vs)"

lemma scan_marked:
  assumes "valid d" "kv_bitops (se_util V)" "cmd \<noteq> DO_SSCAN" "T = (if use then members b else UNIV)" "use \<Longrightarrow> T \<subseteq> {..<length (elems d)}"
  shows "\<exists>i'. set_scan_loop V True cmd rx 0 d (length (elems d)) use b i cnt q
    = Some (i', cnt + length (nths_from i (elems d) T), q @ items (nths_from i (elems d) T))
    \<and> (\<not> use \<and> i \<le> length (elems d) \<longrightarrow> i' = length (elems d))"
proof (induction "length (elems d) - i" arbitrary: i cnt q rule: less_induct)
  case less
  let ?xs = "elems d"
  show ?case
  proof (cases "length ?xs \<le> i")
    case True
    then show ?thesis by (subst set_scan_loop.simps) (simp add: nths_from_def)
  next
    case i: False
    obtain found j where n: "(if use then next_bit (se_util V) b i else (True, i)) = (found, j)" by force
    have nb: "if found then j \<in> T \<and> i \<le> j \<and> j < length ?xs \<and> (\<forall>k\<in>T. i \<le> k \<longrightarrow> j \<le> k) else \<forall>k\<in>T. k < i"
    proof (cases use)
      case False
      then show ?thesis using n i assms(4) by auto
    next
      case True
      then show ?thesis using bit_set_neighbours [OF assms(2), of b i] n assms(4,5) by (auto split: bool.splits)
    qed
    show ?thesis
    proof (cases found)
      case False
      then have "nths_from i ?xs T = []" using nb by (intro nths_from_none) auto
      moreover have use using n False by (auto split: if_splits)
      ultimately show ?thesis using i n False by (subst set_scan_loop.simps) simp
    next
      case True
      then have j: "j \<in> T" "i \<le> j" "j < length ?xs" "\<And>k. k \<in> T \<Longrightarrow> i \<le> k \<Longrightarrow> j \<le> k" using nb by auto
      obtain st v v2 where l: "ss_lindex (se_set V) d (j + 1) = (st, v, v2)" by (metis prod_cases3)
      then have st: "st = SET_OK" using lindex(1) [OF assms(1) l] j(3) by simp
      then have v: "v @ v2 = ?xs ! j" using lindex(2) [OF assms(1)] l by auto
      have a: "append_string (se_util V) v v2 = append_string (se_util V) (?xs ! j) []" using append_concat [of _ v v2] v by simp
      have "set_scan_loop V True cmd rx 0 d (length ?xs) use b i cnt q =
          set_scan_loop V True cmd rx 0 d (length ?xs) use b (j + 1) (cnt + 1) (q @ append_string (se_util V) (?xs ! j) [])"
        using i n True l st assms(3) a by (subst set_scan_loop.simps) simp
      moreover have "length ?xs - (j + 1) < length ?xs - i" using j(2,3) by simp
      moreover obtain i' where "set_scan_loop V True cmd rx 0 d (length ?xs) use b (j + 1) (cnt + 1) (q @ append_string (se_util V) (?xs ! j) [])
          = Some (i', cnt + 1 + length (nths_from (j + 1) ?xs T), (q @ append_string (se_util V) (?xs ! j) []) @ items (nths_from (j + 1) ?xs T))"
          "\<not> use \<and> j + 1 \<le> length ?xs \<longrightarrow> i' = length ?xs"
        using less.hyps [OF calculation(2)] by blast
      ultimately show ?thesis using nths_from_next [OF j] j(3) by simp
    qed
  qed
qed

lemma scan_first:
  assumes "valid d" "i < length (elems d)" "cmd \<noteq> DO_SSCAN"
  shows "set_scan_loop V True cmd rx 1 d (length (elems d)) False b i 0 [] = Some (i + 1, 1, items [elems d ! i])"
proof -
  obtain st v v2 where l: "ss_lindex (se_set V) d (i + 1) = (st, v, v2)" by (metis prod_cases3)
  then have st: "st = SET_OK" using lindex(1) [OF assms(1) l] assms(2) by simp
  then have v: "v @ v2 = elems d ! i" using lindex(2) [OF assms(1)] l by auto
  then have a: "append_string (se_util V) v v2 = append_string (se_util V) (elems d ! i) []" using append_concat [of _ v v2] by simp
  show ?thesis using assms(2,3) l st a by (subst set_scan_loop.simps) (simp, subst set_scan_loop.simps, simp)
qed

lemma pop_loop_spec:
  assumes "kv_bitops (se_util V)"
  shows "valid d \<Longrightarrow> elems d = take j xs @ zs \<Longrightarrow> j \<le> length xs \<Longrightarrow> length d = l \<Longrightarrow>
    valid (pop_loop V b j d) \<and> length (pop_loop V b j d) = l \<and>
    elems (pop_loop V b j d) = map ((!) xs) (filter (\<lambda>k. k \<notin> members b) [0..<j]) @ zs"
proof (induction j arbitrary: d zs rule: less_induct)
  case (less j)
  obtain found i where p: "prev_bit (se_util V) b j = (found, i)" by force
  have nb: "if found then i \<in> members b \<and> i < j \<and> (\<forall>x\<in>members b. x < j \<longrightarrow> x \<le> i) else \<forall>x\<in>members b. j \<le> x"
    using bit_set_neighbours [OF assms, of b j] p by (cases found) auto
  have tk: "take j xs = map ((!) xs) [0..<j]" using take_nths_upt less.prems(3) .
  show ?case
  proof (cases found)
    case False
    then have "filter (\<lambda>k. k \<notin> members b) [0..<j] = [0..<j]" using nb by (auto simp: filter_id_conv)
    then show ?thesis using less.prems False p tk by (subst (1 2 3) pop_loop.simps) simp
  next
    case True
    then have i: "i \<in> members b" "i < j" "\<And>x. x \<in> members b \<Longrightarrow> x < j \<Longrightarrow> x \<le> i" using nb by auto
    then have len: "i < length (elems d)" using less.prems(2,3) by simp
    let ?zs = "map ((!) xs) [i + 1..<j] @ zs"
    have split: "[0..<j] = [0..<i] @ i # [i + 1..<j]" using i(2) by (intro upt_split) simp_all
    have e: "elems (ss_spopn (se_set V) d (i + 1)) = take i xs @ ?zs"
    proof -
      have "take i xs = map ((!) xs) [0..<i]" using i(2) less.prems(3) by (intro take_nths_upt) simp
      moreover have "elems d = map ((!) xs) [0..<i] @ xs ! i # ?zs" using less.prems(2) tk split by simp
      ultimately show ?thesis using spopn [OF less.prems(1) len] by simp
    qed
    have "pop_loop V b j d = pop_loop V b i (ss_spopn (se_set V) d (i + 1))" using p True by (subst pop_loop.simps) simp
    moreover have "filter (\<lambda>k. k \<notin> members b) [i + 1..<j] = [i + 1..<j]" using i(3) by (fastforce simp: filter_id_conv)
    ultimately show ?thesis
      using less.IH [OF i(2) _ e, of ] spopn [OF less.prems(1) len] less.prems(3,4) i split by simp
  qed
qed

end

subsection \<open>SPOP and SRANDMEMBER\<close>

lemma nths_from_all: "nths_from 0 xs T = nths xs T"
  by (simp add: nths_from_def nths_upt)

lemma nths_one:
  assumes "i < length xs"
  shows "nths xs {i} = [xs ! i]" "nths xs (- {i}) = take i xs @ drop (i + 1) xs"
proof -
  have s: "[0..<length xs] = [0..<i] @ i # [i + 1..<length xs]" using assms by (intro upt_split) simp_all
  have f: "filter (\<lambda>k. k = i) [0..<i] = []" "filter (\<lambda>k. k = i) [i + 1..<length xs] = []"
    "filter (\<lambda>k. k \<noteq> i) [0..<i] = [0..<i]" "filter (\<lambda>k. k \<noteq> i) [i + 1..<length xs] = [i + 1..<length xs]"
    by (auto simp: filter_empty_conv filter_id_conv)
  show "nths xs {i} = [xs ! i]" using f by (simp add: nths_upt s)
  have "drop (i + 1) xs = map ((!) xs) [i + 1..<length xs]" by (rule nth_equalityI) auto
  then show "nths xs (- {i}) = take i xs @ drop (i + 1) xs" using f take_nths_upt [of i xs] assms by (simp add: nths_upt s)
qed

text \<open>How many are asked for, as an unsigned number, and the numbers that are marked for it: those of the members,
  or those of the others when more than half are asked for.\<close>

definition asked :: "int \<Rightarrow> nat" where
  "asked ival = unat (of_int ival :: u64)"

definition marks :: "nat \<Rightarrow> nat \<Rightarrow> nat" where
  "marks count u = (if count div 2 < u then count - u else u)"

text \<open>The generator gives enough different numbers for a choice of some but not all, and the end of the bit set that is
  complemented is one that the shift of an \<open>int\<close> can make.\<close>

definition draw_ok :: "(nat \<Rightarrow> u64) \<Rightarrow> u64 \<Rightarrow> nat \<Rightarrow> nat \<Rightarrow> bool" where
  "draw_ok rng msk count u \<longleftrightarrow> (1 < u \<and> u < count \<longrightarrow> (\<exists>n. marks count u \<le> card (drawn rng msk count n)) \<and>
     (count div 2 < u \<longrightarrow> count mod 64 < 31))"

lemma asked_small: "int64_range ival \<Longrightarrow> asked ival < 1024 \<Longrightarrow> ival = int (asked ival)"
proof -
  assume a: "int64_range ival" "asked ival < 1024"
  have u: "int (asked ival) = ival mod 2 ^ 64" by (simp add: asked_def unsigned_of_int take_bit_eq_mod)
  show ?thesis
  proof (cases "0 \<le> ival")
    case True
    then show ?thesis using a(1) u by (simp add: int64_range_def)
  next
    case False
    then have "(ival + 2 ^ 64) mod 2 ^ 64 = ival + 2 ^ 64" using a(1) by (intro mod_pos_pos_trivial) (auto simp: int64_range_def)
    then show ?thesis using u a False by (simp add: int64_range_def)
  qed
qed

context set_store
begin

lemma pick_spec:
  assumes "valid d" "elems d = xs" "xs \<noteq> []" "length xs < 1024" "kv_bitops (se_util V)" "length (se_work V) = 16"
    and "int64_range ival" "ival \<noteq> 0" "draw_ok (se_rng V) (ss_index_mask (se_set V) d) (length xs) (asked ival)" "cmd \<noteq> DO_SSCAN"
  shows "\<exists>i0 mx use b i T. pick_members V d (length xs) ival = Some (i0, mx, use, b)
    \<and> T \<subseteq> {..<length xs} \<and> card T = min (length xs) (asked ival)
    \<and> set_scan_loop V True cmd rx mx d (length xs) use b i0 0 [] = Some (i, card T, items (nths xs T))
    \<and> valid (pop_members V (length xs) b i (card T) d) \<and> length (pop_members V (length xs) b i (card T) d) = length d
    \<and> elems (pop_members V (length xs) b i (card T) d) = nths xs (- T)"
proof -
  let ?n = "length xs" and ?u = "asked ival" and ?b = "new_bits (se_work V)" and ?msk = "ss_index_mask (se_set V) d"
  have u0: "?u \<noteq> 0"
    using assms(7,8) asked_small [OF assms(7)] by (cases "?u = 0") auto
  note nb = new_members [OF assms(6)]
  show ?thesis
  proof (cases "?n \<le> ?u")
    case True
    have p: "pick_members V d ?n ival = Some (0, 0, False, ?b)" using True by (simp add: pick_members_def asked_def Let_def)
    have all: "nths_from 0 xs UNIV = xs" by (simp add: nths_from_def map_nth)
    obtain i where "set_scan_loop V True cmd rx 0 d ?n False ?b 0 0 [] = Some (i, 0 + length (nths_from 0 xs UNIV), [] @ items (nths_from 0 xs UNIV))" "i = ?n"
      using scan_marked [OF assms(1,5,10), where T = UNIV and use = False and b = ?b and rx = rx and i = 0 and cnt = 0 and q = "[]"] assms(2) by auto
    then have s: "set_scan_loop V True cmd rx 0 d ?n False ?b 0 0 [] = Some (?n, ?n, items xs)" unfolding all by simp
    have d: "valid (pop_members V ?n ?b ?n ?n d) \<and> length (pop_members V ?n ?b ?n ?n d) = length d \<and> elems (pop_members V ?n ?b ?n ?n d) = []"
      using spopn [OF assms(1), of 0] spopall [OF assms(1)] assms(2,3) by (simp add: pop_members_def)
    have "nths xs {..<?n} = xs" "nths xs (- {..<?n}) = []" by (simp_all add: nths_upt map_nth filter_empty_conv filter_id_conv)
    then show ?thesis using p s d True
      by (intro exI [of _ 0] exI [of _ 0] exI [of _ False] exI [of _ ?b] exI [of _ ?n] exI [of _ "{..<?n}"]) simp
  next
    case lt: False
    then have iv: "ival = int ?u" using asked_small [OF assms(7)] assms(4) by simp
    show ?thesis
    proof (cases "ival = 1")
      case True
      let ?i = "shrink ?n (unat (se_rng V 0 AND ?msk))"
      have p: "pick_members V d ?n ival = Some (?i, 1, False, ?b)" using lt True by (simp add: pick_members_def asked_def Let_def)
      have i: "?i < ?n" using shrink_less assms(3) by simp
      have s: "set_scan_loop V True cmd rx 1 d ?n False ?b ?i 0 [] = Some (?i + 1, 1, items (nths xs {?i}))"
        using scan_first [OF assms(1) _ assms(10), where i = ?i and rx = rx and b = ?b] i assms(2) nths_one(1) [OF i] by simp
      have d: "valid (pop_members V ?n ?b (?i + 1) 1 d) \<and> length (pop_members V ?n ?b (?i + 1) 1 d) = length d
          \<and> elems (pop_members V ?n ?b (?i + 1) 1 d) = nths xs (- {?i})"
        using spopn [OF assms(1), of ?i] assms(2) i nths_one(2) [OF i] by (simp add: pop_members_def)
      show ?thesis using p s d i lt iv True
        by (intro exI [of _ ?i] exI [of _ 1] exI [of _ False] exI [of _ ?b] exI [of _ "?i + 1"] exI [of _ "{?i}"]) simp
    next
      case False
      then have u: "1 < ?u" "?u < ?n" using u0 iv lt by auto
      let ?k = "marks ?n ?u"
      obtain n where n: "?k \<le> card (drawn (se_rng V) ?msk ?n n)" "?n div 2 < ?u \<longrightarrow> ?n mod 64 < 31"
        using assms(9) u by (auto simp: draw_ok_def)
      have k: "0 < ?k" "?k < 1024" "?k \<le> ?n" using u assms(4) by (auto simp: marks_def)
      obtain b1 where b1: "pick_loop (se_util V) (se_blocks V) (se_rng V) ?msk ?n 0 (int ?k) ?b = Some b1" "bits_ok b1" "members b1 \<subseteq> {..<?n}" "card (members b1) = ?k"
        using pick_loop_spec [of ?n ?k "se_rng V" ?msk n 0 ?b "int ?k" "se_util V" "se_blocks V"] n(1) nb k assms(3,4) by (auto simp: drawn_def)
      obtain b2 where b2: "(if ?n div 2 < ?u then map_option snd (flip_bits (se_util V) (se_blocks V) ?n b1) else Some b1) = Some b2"
        "members b2 \<subseteq> {..<?n}" "card (members b2) = ?u"
      proof (cases "?n div 2 < ?u")
        case True
        obtain b2 where "flip_bits (se_util V) (se_blocks V) ?n b1 = Some (True, b2)" "members b2 = {..<?n} - members b1"
          using flip_small [OF b1(2,3) assms(4)] n(2) True by blast
        moreover have "card ({..<?n} - members b1) = ?u" using b1(3,4) True u by (simp add: card_Diff_subset finite_subset marks_def)
        ultimately show thesis using True by (intro that [of b2]) auto
      next
        case False
        then show thesis using b1 by (intro that [of b1]) (auto simp: marks_def)
      qed
      have k2: "int ?k = (if ?n div 2 < ?u then int ?n - ival else ival)" using iv u by (simp add: marks_def)
      have p: "pick_members V d ?n ival = Some (0, 0, True, b2)"
        using lt False b1(1) [unfolded k2] b2(1) by (cases "?n div 2 < ?u") (auto simp: pick_members_def asked_def Let_def)
      let ?T = "members b2"
      have c: "length (nths xs ?T) = ?u" "length (nths xs ?T) = card ?T"
      proof -
        have "{i. i < ?n \<and> i \<in> ?T} = ?T" using b2(2) by auto
        then show "length (nths xs ?T) = ?u" "length (nths xs ?T) = card ?T" using b2(3) by (simp_all add: length_nths)
      qed
      obtain i where s: "set_scan_loop V True cmd rx 0 d ?n True b2 0 0 [] = Some (i, card ?T, items (nths xs ?T))"
        using scan_marked [OF assms(1,5,10), where T = ?T and use = True and b = b2 and rx = rx and i = 0 and cnt = 0 and q = "[]"] assms(2) b2(2) c by (auto simp: nths_from_all)
      have d: "valid (pop_loop V b2 ?n d) \<and> length (pop_loop V b2 ?n d) = length d \<and> elems (pop_loop V b2 ?n d) = nths xs (- ?T)"
        using pop_loop_spec [OF assms(5,1), of ?n xs "[]" "length d" b2] assms(2) by (simp add: nths_upt)
      show ?thesis using p s d b2(2,3) u
        by (intro exI [of _ 0] exI [of _ 0] exI [of _ True] exI [of _ b2] exI [of _ i] exI [of _ ?T]) (simp add: pop_members_def)
    qed
  qed
qed

end

context set_store
begin

lemma random_members:
  assumes "cmd = DO_SPOP \<or> cmd = DO_SRANDMEMBER" "(if 2 < argc ex then get_arg_int (ex_msg ex) 2 else Some 1) = Some ival" "int64_range ival" "ival \<noteq> 0"
    and "do_key_fetch (se_ops V) ex MD_SET (cmd \<noteq> DO_SPOP) x = Some (KEY_OK, x1)" "valid (data x1)" "elems (data x1) = xs" "xs \<noteq> []" "length xs < 1024"
    and "kv_bitops (se_util V)" "length (se_work V) = 16" "draw_ok (se_rng V) (ss_index_mask (se_set V) (data x1)) (length xs) (asked ival)" "x_strm_ok x1"
  shows "\<exists>st y T. do_smultiscan V ex cmd 0 0 rx x = Some (st, y) \<and> (st = ERR_KV_STATUS \<and> x_kstatus y \<noteq> KEY_OK \<or>
    st = EXEC_OK \<and> T \<subseteq> {..<length xs} \<and> card T = min (length xs) (asked ival) \<and> x_out y = x_out x1 @ list_array (se_util V) (nths xs T) \<and>
    (if cmd = DO_SRANDMEMBER then x_ent y = x_ent x1
     else if nths xs (- T) = [] then EKF_KEYSPACE_DEL \<in> x_flags y \<and> (\<exists>e. sg_tombstone (se_seg V) e = (KEY_OK, x_ent y))
     else valid (data y) \<and> elems (data y) = nths xs (- T)))"
proof -
  let ?x2 = "if cmd = DO_SPOP then lx_open (se_seg V) x1 else lx_open_readonly (se_seg V) x1" and ?n = "length xs"
  have x2: "data ?x2 = data x1" "x_out ?x2 = x_out x1" "x_ent ?x2 = x_ent x1" "x_strm_ok ?x2" using assms(13) by auto
  have scan: "do_smultiscan V ex cmd 0 0 rx x = (if x_kstatus ?x2 = KEY_OK then smultiscan_open V cmd ival 0 0 rx ?x2 else Some (ERR_KV_STATUS, ?x2))"
    using assms(1,2,5) by (auto simp: do_smultiscan_def Let_def)
  have ne: "cmd \<noteq> DO_SSCAN" using assms(1) by auto
  obtain i0 mx use b i T where p: "pick_members V (data x1) ?n ival = Some (i0, mx, use, b)" "T \<subseteq> {..<?n}" "card T = min ?n (asked ival)"
      "set_scan_loop V True cmd rx mx (data x1) ?n use b i0 0 [] = Some (i, card T, items (nths xs T))"
      "valid (pop_members V ?n b i (card T) (data x1))" "length (pop_members V ?n b i (card T) (data x1)) = length (data x1)"
      "elems (pop_members V ?n b i (card T) (data x1)) = nths xs (- T)"
    using pick_spec [OF assms(6-11) assms(3,4,12) ne, of rx] by blast
  define d where "d = pop_members V ?n b i (card T) (data x1)"
  have pos: "card T > 0"
    using p(3) assms(3,4,8) asked_small [OF assms(3)] by (cases "asked ival = 0") auto
  have len: "length (nths xs T) = card T"
  proof -
    have "{i. i < ?n \<and> i \<in> T} = T" using p(2) by auto
    then show ?thesis by (simp add: length_nths)
  qed
  have arr: "prepend_array (se_util V) (card T) (items (nths xs T)) = list_array (se_util V) (nths xs T)" by (simp add: list_array_def len)
  have cnt: "ss_hcount (se_set V) (data x1) = ?n" using hcount [OF assms(6)] assms(7) by simp
  show ?thesis
  proof (cases "x_kstatus ?x2 = KEY_OK")
    case False
    then show ?thesis using scan by auto
  next
    case True
    show ?thesis
    proof (cases "cmd = DO_SPOP")
      case rd: False
      then have "smultiscan_open V cmd ival 0 0 rx ?x2 = Some (sscan_done V cmd ?n i (card T) (items (nths xs T)) ?x2)"
        using assms(1,8,13) p(1,4) cnt by (auto simp: smultiscan_open_def Let_def)
      moreover have "sscan_done V cmd ?n i (card T) (items (nths xs T)) ?x2 = (let z = k_validate (se_ops V) ?x2 in
          if x_kstatus z = KEY_OK then (EXEC_OK, send (list_array (se_util V) (nths xs T)) z) else (ERR_KV_STATUS, z))"
        using rd ne by (simp add: sscan_done_def arr Let_def)
      ultimately show ?thesis using scan True rd assms(1) x2 p(2,3)
        by (cases "x_kstatus (k_validate (se_ops V) ?x2) = KEY_OK") (auto simp: k_validate_def Let_def)
    next
      case spop: True
      let ?x3 = "keyspace_set (put_data (se_ops V) ?x2 d)"
      have d3: "data ?x3 = d" using p(6) x2(1) by (simp add: put_data_data d_def)
      have mt: "ss_hcount (se_set V) d = 0 \<longleftrightarrow> nths xs (- T) = []" using hcount [OF p(5)] p(7) by (simp add: d_def)
      have s: "smultiscan_open V cmd ival 0 0 rx ?x2 = Some (case remove_empty (se_seg V) (nths xs (- T) = []) EXEC_OK ?x3 of (st, y) \<Rightarrow>
          if st = EXEC_OK then sscan_done V cmd ?n i (card T) (items (nths xs T)) y else (st, y))"
        using assms(8,13) p(1,4) cnt pos d3 mt unfolding spop by (auto simp: smultiscan_open_def Let_def split: prod.split simp flip: d_def)
      have fin: "sscan_done V cmd ?n i (card T) (items (nths xs T)) y = (EXEC_OK, send (list_array (se_util V) (nths xs T)) y)" for y
        using spop by (simp add: sscan_done_def arr)
      have out: "x_out (send bs y) = x_out y @ bs" "x_flags (send bs y) = x_flags y" "x_ent (send bs y) = x_ent y" "data (send bs y) = data y" for bs and y :: "'e xst"
        by (simp_all add: x_data_def)
      note scan' = scan [unfolded if_P [OF True] s fin]
      show ?thesis
      proof (rule remove_empty_cases [of "nths xs (- T) = []" "se_seg V" EXEC_OK ?x3])
        assume r: "\<not> nths xs (- T) = []" "remove_empty (se_seg V) (nths xs (- T) = []) EXEC_OK ?x3 = (EXEC_OK, ?x3)"
        then show ?thesis using scan' p(2,3,5,7) d3 x2 spop by (auto simp: out d_def)
      next
        fix y assume "nths xs (- T) = []" "remove_empty (se_seg V) (nths xs (- T) = []) EXEC_OK ?x3 = (ERR_KV_STATUS, y)" "x_kstatus y \<noteq> KEY_OK"
        then show ?thesis using scan' by auto
      next
        fix y e assume r: "nths xs (- T) = []" "remove_empty (se_seg V) (nths xs (- T) = []) EXEC_OK ?x3 = (EXEC_OK, y)" "x_out y = x_out ?x3"
          "x_ival y = x_ival ?x3" "EKF_KEYSPACE_DEL \<in> x_flags y" "sg_tombstone (se_seg V) e = (KEY_OK, x_ent y)"
        then show ?thesis using scan' p(2,3) x2 spop by (auto simp: out)
      qed
    qed
  qed
qed

section \<open>Operations on sets\<close>

lemma merge_one_spec:
  assumes "valid d2" "\<And>m n. \<not> se_shared V m n" "\<And>n. length (se_mem V n) = n"
  shows "valid d \<Longrightarrow> prog op A (mems d2) c d \<Longrightarrow>
    \<exists>r h d'. merge_one V True op d2 c retry held d = Some (Some (r, h, d')) \<and> valid d' \<and> mems d' = set_result op A (mems d2)"
proof (induction "slack - retry" arbitrary: c retry held d rule: less_induct)
  case less
  obtain st d1 c1 where m: "ss_merge (se_set V) op d d2 c = (st, d1, c1)" by (metis prod_cases3)
  note spec = merge [OF less.prems(1) assms(1) less.prems(2) m]
  show ?case
  proof (cases "st = SET_OK")
    case True
    then show ?thesis using spec by (subst merge_one.simps) (simp add: m)
  next
    case False
    obtain n cnt nd where rs: "lc_resize_size (ss_class (se_set V)) d1 (ss_count (se_set V) d2 + 2) (ss_data_len (se_set V) d2 + retry) = (n, cnt, nd)"
      by (metis prod_cases3)
    define new where "new = lc_copy (ss_class (se_set V)) d1 (lc_init (ss_class (se_set V)) (se_mem V n) cnt nd)"
    have v1: "valid d1" "prog op A (mems d2) c1 d1" using spec False by simp_all
    have cp: "valid new" "prog op A (mems d2) c1 new" "slack \<le> retry \<Longrightarrow> mroom new d2"
      using merge_copy [OF v1(1) rs assms(3)] v1(2) by (auto simp: new_def)
    have loop: "merge_one V True op d2 c retry held d = merge_one V True op d2 c1 (retry + 16) n new"
      using False assms(2) by (subst merge_one.simps) (simp add: m rs new_def Let_def del: add_2_eq_Suc')
    show ?thesis
    proof (cases "slack \<le> retry")
      case True
      obtain st2 d3 c3 where m2: "ss_merge (se_set V) op new d2 c1 = (st2, d3, c3)" by (metis prod_cases3)
      note spec2 = merge [OF cp(1) assms(1) cp(2) m2]
      have "st2 = SET_OK" using spec2 cp(3) [OF True] by (auto split: if_splits)
      then show ?thesis unfolding loop using spec2 by (subst merge_one.simps) (simp add: m2)
    next
      case False
      then have "slack - (retry + 16) < slack - retry" by simp
      then show ?thesis unfolding loop using less.hyps cp by blast
    qed
  qed
qed

lemma merge_all_spec:
  assumes "\<And>m n. \<not> se_shared V m n" "\<And>n. length (se_mem V n) = n"
  shows "valid d \<Longrightarrow> list_all valid ds \<Longrightarrow> \<exists>d'. merge_all V True op ds retry held d = Some (Some d') \<and> valid d'
    \<and> mems d' = foldl (set_result op) (mems d) (map mems ds)"
proof (induction ds arbitrary: retry held d)
  case (Cons d2 ds)
  then have v2: "valid d2" by simp
  obtain r h d1 where "merge_one V True op d2 (ss_merge0 (se_set V)) retry held d = Some (Some (r, h, d1))" "valid d1" "mems d1 = set_result op (mems d) (mems d2)"
    using merge_one_spec [OF v2 assms Cons.prems(1) merge0 [OF Cons.prems(1)]] by blast
  then show ?case using Cons.IH [of d1 r h] Cons.prems(2) by simp
qed simp

lemma members_loop_spec:
  "valid d \<Longrightarrow> i \<le> length (elems d) \<Longrightarrow> length (elems d) \<le> i + n \<Longrightarrow>
   members_loop V True d i n cnt q = Some (cnt + (length (elems d) - i), q @ items (drop i (elems d)))"
proof (induction n arbitrary: i cnt q)
  case (Suc n)
  obtain st v v2 where l: "ss_lindex (se_set V) d (i + 1) = (st, v, v2)" by (metis prod_cases3)
  note st = lindex(1) [OF Suc.prems(1) l]
  show ?case
  proof (cases "i < length (elems d)")
    case False
    then show ?thesis using st l Suc.prems(2) by simp
  next
    case True
    then have v: "st = SET_OK" "v @ v2 = elems d ! i" using st lindex(2) [OF Suc.prems(1), of "i + 1" v v2] l by auto
    have "append_string (se_util V) v v2 = append_string (se_util V) (elems d ! i) []" using append_concat [of _ v v2] v(2) by simp
    then show ?thesis using l v(1) Suc.IH [of "i + 1"] Suc.prems True Cons_nth_drop_Suc [OF True, symmetric] by simp
  qed
qed simp

lemma setop_reply_spec:
  assumes "valid d" "x_strm_ok x"
  shows "setop_reply V d x = (EXEC_OK, send (list_array (se_util V) (elems d)) x)"
  using members_loop_spec [OF assms(1), of 0 "ss_count (se_set V) d" 0 "[]"] count [OF assms(1)] assms(2)
  by (simp add: setop_reply_def list_array_def)

lemma setop_store_spec:
  assumes "valid d" "get_key_write (se_ops V) ex x MD_SET = Some (st, x1)" "st = KEY_OK \<or> st = KEY_IS_NEW \<or> st = KEY_NO_VALUE"
  shows "\<exists>st' y. setop_store V ex d x = Some (st', y) \<and> (st' = ERR_KV_STATUS \<and> x_kstatus y \<noteq> KEY_OK \<or>
    st' = EXEC_SEND_INT \<and> data y = d \<and> x_type y = MD_SET \<and> x_ival y = int (card (mems d)) \<and> x_out y = x_out x1)"
proof -
  let ?x2 = "k_resize (se_ops V) (length d) False x1"
  have c: "ss_hcount (se_set V) d = card (mems d)" using hcount [OF assms(1)] distinct_card [OF once [OF assms(1)]] by simp
  show ?thesis
  proof (cases "x_kstatus ?x2 = KEY_OK")
    case True
    then have "length (data ?x2) = length d"
      using resize_length [of "x_ent x1" "length d" False] by (auto simp: k_resize_def x_data_def split: prod.splits)
    then have "data (put_data (se_ops V) ?x2 d) = d" by (simp add: put_data_data)
    then show ?thesis using assms(2,3) True c
      by (auto simp: setop_store_def Let_def x_data_def set_flags_def k_resize_def split: prod.splits)
  next
    case False
    then show ?thesis using assms(2,3) by (auto simp: setop_store_def Let_def)
  qed
qed

end

section \<open>Properties\<close>

text \<open>C20: Writing refines a set. SADD and SREM return, for the loop that moves a full set ends; either the key store
  failed, or the key holds the members with those of the arguments added or taken out, and the reply is the number
  of those that are new or were there. SREM of the last member removes the key, of a key that is not there it
  replies zero.\<close>

theorem set_write_refines:
  assumes "set_store V valid elems room need prog mroom slack" "cmd \<noteq> DO_SMOVE"
    and "get_arg_str (ex_msg ex) 2 = Some v" "map (get_arg_str (ex_msg ex)) [3..<argc ex] = map Some vs" "3 \<le> argc ex"
    and "do_key_fetch (se_ops V) ex MD_SET False x = Some (st, x1)" "fetched valid elems [] (se_ops V) st x1 xs" "st \<noteq> KEY_NOT_FOUND"
    and "x_ival x1 = 0"
  shows "\<exists>r. do_swrite V ex cmd x = Some r \<and>
    (if st = KEY_IS_NEW \<and> cmd = DO_SREM then r = (EXEC_SEND_ZERO, x1) else swrite_ok V valid elems cmd (v # vs) x1 (set xs) r)"
  by (rule set_store.do_swrite_spec [OF assms])

definition mem_sets :: "(mem_entry, unit) set_env" where
  "mem_sets = \<lparr>se_set = mem_set, se_util = scan_util int_str_util, se_ops = mem_ops, se_seg = mem_seg, se_rng = (\<lambda>i. of_nat (7 * i + 1)),
     se_work = replicate 16 5, se_blocks = (\<lambda>n. Some (replicate n 7)), se_mem = (\<lambda>n. replicate n 0), se_shared = (\<lambda>_ _. False)\<rparr>"

lemma mem_sets_sel [simp]:
  "se_set mem_sets = mem_set" "se_util mem_sets = scan_util int_str_util" "se_ops mem_sets = mem_ops" "se_seg mem_sets = mem_seg"
  by (simp_all add: mem_sets_def)

interpretation mem_sets: set_store mem_sets mem_swf mem_items mem_room "\<lambda>n. n" "\<lambda>op A B c d. set (mem_items d) = A"
  "\<lambda>d d2. length (pack_items (mem_items d)) + length (pack_items (mem_items d2)) \<le> length d" 0
  unfolding set_store_def mem_sets_sel
  using mem_set.md_set_axioms mem_seg.seg_entry_axioms by (simp add: list_ctx_def md_set_def)

text \<open>A key with a set in so many bytes.\<close>

definition sample_set :: "nat \<Rightarrow> byte list list \<Rightarrow> mem_entry xst" where
  "sample_set n vs = (sample_key (fill n (pack_items vs)))\<lparr>x_ent := \<lparr>me_exists = True, me_type = MD_SET,
     me_data = fill n (pack_items vs), me_expires = 0, me_now = 5\<rparr>\<rparr>"

lemma sample_set_fetch:
  "do_key_fetch mem_ops (sample_write args) MD_SET False (sample_set n vs) = Some (KEY_OK, (sample_set n vs)\<lparr>x_type := MD_SET\<rparr>)"
  "x_data mem_ops (sample_set n vs) = fill n (pack_items vs)" "x_strm_ok (sample_set n vs)" "x_out (sample_set n vs) = []" "x_ival (sample_set n vs) = 0"
  by (simp_all add: do_key_fetch_def exec_key_fetch_def acquire_key_def sample_write_def sample_exec_def sample_set_def
      sample_key_def mem_ops_def x_data_def Let_def)

lemma sample_set_holds:
  "length (pack_items vs) \<le> n \<Longrightarrow> distinct vs \<Longrightarrow> mem_swf (x_data mem_ops ((sample_set n vs)\<lparr>x_type := ty\<rparr>))"
  "length (pack_items vs) \<le> n \<Longrightarrow> mem_items (x_data mem_ops ((sample_set n vs)\<lparr>x_type := ty\<rparr>)) = vs"
  using sample_set_fetch(2) [of n vs] by (simp_all add: mem_swf_def x_data_def)

theorem set_write_refines_witness:
  "\<exists>st y. exec_sadd mem_sets (sample_write [''sadd'', ''k'', ''b'', ''a'', ''c'']) (sample_set 3 [[97]]) = Some (st, y) \<and>
    (st = ERR_KV_STATUS \<and> x_kstatus y \<noteq> KEY_OK \<or>
     st = EXEC_SEND_INT \<and> x_ival y = 2 \<and> set (mem_items (x_data mem_ops y)) = {[97], [98], [99]})"
proof -
  let ?ex = "sample_write [''sadd'', ''k'', ''b'', ''a'', ''c'']" and ?x1 = "(sample_set 3 [[97]])\<lparr>x_type := MD_SET\<rparr>"
  have n: "argc ?ex = 5" by (simp add: sample_write_def sample_exec_def)
  have v: "get_arg_str (ex_msg ?ex) 2 = Some [98]" by (simp add: sample_arg ascii_def)
  have vs: "map (get_arg_str (ex_msg ?ex)) [3..<argc ?ex] = map Some [[97], [99]]" by (simp add: n sample_arg ascii_def upt_rec)
  have f: "fetched mem_swf mem_items [] (se_ops mem_sets) KEY_OK ?x1 [[97]]"
    using sample_set_holds [of "[[97]]" 3 MD_SET] by (simp add: fetched_def)
  have "\<exists>r. do_swrite mem_sets ?ex DO_SADD (sample_set 3 [[97]]) = Some r \<and>
    (if KEY_OK = KEY_IS_NEW \<and> DO_SADD = DO_SREM then r = (EXEC_SEND_ZERO, ?x1)
     else swrite_ok mem_sets mem_swf mem_items DO_SADD [[98], [97], [99]] ?x1 (set [[97]]) r)"
    by (rule set_write_refines [OF mem_sets.set_store_axioms _ v vs _ _ f]) (simp_all add: n sample_set_fetch)
  then obtain r where "do_swrite mem_sets ?ex DO_SADD (sample_set 3 [[97]]) = Some r"
    "swrite_ok mem_sets mem_swf mem_items DO_SADD [[98], [97], [99]] ?x1 {[97]} r" by auto
  moreover have "members_write DO_SADD [[98], [97], [99]] {[97]} = {[97], [98], [99 :: byte]}" by (auto simp: members_write_def)
  ultimately show ?thesis by (auto simp: exec_sadd_def swrite_ok_def set_left_def)
qed


lemma word_draws_finite: "finite (word_draws msk count k n)"
  by (induction k arbitrary: n) simp_all

lemma drawn_some: "1 \<le> card (drawn rng msk count 1)"
proof -
  have "drawn rng msk count 1 \<noteq> {}" by (simp add: drawn_def eval_nat_numeral)
  then show ?thesis using word_draws_finite by (simp add: drawn_def Suc_le_eq card_gt_0_iff)
qed


lemma those_some: "those (map Some xs) = Some xs"
  by (induction xs) simp_all


text \<open>A key that saved the bytes of a set.\<close>

definition sample_source :: "nat \<Rightarrow> byte list list \<Rightarrow> mem_entry xst" where
  "sample_source n vs = (sample_set n vs)\<lparr>x_part := Some (fill n (pack_items vs)), x_argn := 2\<rparr>"


section \<open>Where the commands fall short\<close>

text \<open>A negative count is more than any set has. A cursor behind the end comes back as it is. When the next block of the
  stream lies at the place of the last one, a union that moves twice loses what it had.\<close>

lemma asked_negative: "int64_range ival \<Longrightarrow> ival < 0 \<Longrightarrow> 2 ^ 63 \<le> asked ival"
proof -
  assume a: "int64_range ival" "ival < 0"
  have "int (asked ival) = ival mod 2 ^ 64" by (simp add: asked_def unsigned_of_int take_bit_eq_mod)
  also have "\<dots> = (ival + 2 ^ 64) mod 2 ^ 64" by simp
  also have "\<dots> = ival + 2 ^ 64" using a by (intro mod_pos_pos_trivial) (auto simp: int64_range_def)
  finally show ?thesis using a(1) by (simp add: int64_range_def)
qed

lemma sscan_past_end:
  assumes "ss_hcount (se_set V) d < i"
  shows "set_scan_loop V ok DO_SSCAN rx maxcnt d (ss_hcount (se_set V) d) False b i 0 [] = Some (i, 0, [])"
  using assms by (subst set_scan_loop.simps) simp

declare merge_one.simps [code]

lemma union_moves_onto_itself:
  "\<exists>d. merge_all (mem_sets\<lparr>se_shared := \<lambda>_ _. True\<rparr>) True MERGE_UNION
      [fill 3 (pack_items [[98]]), fill 21 (pack_items [replicate 10 99])] 0 0 (fill 3 (pack_items [[97]])) = Some (Some d)
    \<and> mem_items d = [replicate 10 99]"
proof -
  have "map_option (map_option mem_items) (merge_all (mem_sets\<lparr>se_shared := \<lambda>_ _. True\<rparr>) True MERGE_UNION
      [fill 3 (pack_items [[98]]), fill 21 (pack_items [replicate 10 99])] 0 0 (fill 3 (pack_items [[97]]))) = Some (Some [replicate 10 99])"
    by code_simp
  then show ?thesis by blast
qed

end
