(* ===== verification/Ws_Frame.thy ===== *)
theory Ws_Frame
  imports Int_Str
begin

text \<open>
  The frames of WebSocket, \<open>include/raids/ws_frame.h\<close>: the header with its three forms of the
  length, its decoder, which is given what has arrived so far, and the masking of the payload in
  chunks of 64 bytes. Words in memory are little endian.
\<close>

record ws_frame =
  payload_len :: u64
  ws_mask :: u32
  ws_opcode :: byte
  ws_fin :: bool

abbreviation WS_TEXT :: byte where "WS_TEXT \<equiv> 1"
abbreviation WS_CLOSE :: byte where "WS_CLOSE \<equiv> 8"
abbreviation WS_PING :: byte where "WS_PING \<equiv> 9"
abbreviation WS_PONG :: byte where "WS_PONG \<equiv> 10"

definition ws_set :: "u64 \<Rightarrow> u32 \<Rightarrow> byte \<Rightarrow> bool \<Rightarrow> ws_frame" where
  "ws_set len msk op fn = \<lparr>payload_len = len, ws_mask = msk, ws_opcode = op, ws_fin = fn\<rparr>"

definition hdr_size :: "ws_frame \<Rightarrow> nat" where
  "hdr_size f =
     (if ws_opcode f = WS_CLOSE then 1
      else (if ws_mask f \<noteq> 0 then 4 else 0)
         + (if payload_len f < 126 then 2 else if payload_len f \<le> 0xffff then 4 else 10))"

definition frame_size :: "ws_frame \<Rightarrow> u64" where
  "frame_size f = of_nat (hdr_size f) + payload_len f"

section \<open>Decoder and encoder\<close>

definition load_word :: "nat \<Rightarrow> nat \<Rightarrow> byte list \<Rightarrow> 'a::len word" where
  "load_word k i bs = of_nat (le_val (take k (drop i bs)))"

text \<open>The length after the second byte: where the header goes on, or nothing when bytes are missing.\<close>

definition decode_len :: "kv_util \<Rightarrow> byte list \<Rightarrow> byte \<Rightarrow> (nat \<times> u64) option" where
  "decode_len U bs n =
     (if n = 126 then
        if length bs < 4 then None else Some (4, ucast (kv_bswap16 U (load_word 2 2 bs)))
      else if n = 127 then
        if length bs < 10 then None else Some (10, kv_bswap64 U (load_word 8 2 bs))
      else Some (2, ucast n))"

definition decode_mask :: "byte list \<Rightarrow> nat \<Rightarrow> ws_frame \<Rightarrow> nat \<times> ws_frame" where
  "decode_mask bs i f =
     (if ws_mask f \<noteq> 0 then
        if length bs < i + 4 then (0, f) else (i + 4, f\<lparr>ws_mask := load_word 4 i bs\<rparr>)
      else (i, f))"

definition decode :: "kv_util \<Rightarrow> byte list \<Rightarrow> ws_frame \<Rightarrow> nat \<times> ws_frame" where
  "decode U bs f =
     (if length bs < 1 then (0, f)
      else
        let x = bs ! 0; f1 = f\<lparr>ws_fin := x AND 0x80 \<noteq> 0, ws_opcode := x AND 0xf\<rparr> in
        if ws_opcode f1 = WS_CLOSE then (1, f1)
        else if length bs < 2 then (0, f1)
        else
          let y = bs ! 1; f2 = f1\<lparr>ws_mask := if y AND 0x80 \<noteq> 0 then 1 else 0\<rparr> in
          case decode_len U bs (y AND 0x7f) of
            None \<Rightarrow> (0, f2)
          | Some (i, n) \<Rightarrow> decode_mask bs i (f2\<lparr>payload_len := n\<rparr>))"

text \<open>The bytes \<open>encode\<close> writes; the size it returns is their number.\<close>

definition len_byte :: "u64 \<Rightarrow> nat \<Rightarrow> byte" where
  "len_byte n k = ucast (drop_bit k n AND 0xff)"

definition encode :: "ws_frame \<Rightarrow> byte list" where
  "encode f =
     (let b0 = (if ws_fin f then 0x80 else 0) OR ws_opcode f;
          m = (if ws_mask f \<noteq> 0 then 0x80 else 0);
          n = payload_len f in
      if ws_opcode f = WS_CLOSE then [b0]
      else
        (b0 #
         (if n < 126 then [ucast n OR m]
          else
            (if n \<le> 0xffff then [126 OR m]
             else [127 OR m, 0, 0, 0, len_byte n 32, len_byte n 24, len_byte n 16])
            @ [len_byte n 8, len_byte n 0]))
        @ (if ws_mask f \<noteq> 0 then le_bytes 4 (unat (ws_mask f)) else []))"

section \<open>Masking\<close>

text \<open>The sixteen words of the chunk \<open>bits\<close>, each combined with the mask.\<close>

definition xor_words :: "u32 \<Rightarrow> byte list \<Rightarrow> byte list" where
  "xor_words m bits = concat (map (\<lambda>k. le_bytes 4 (unat (load_word 4 (4 * k) bits XOR m))) [0..<16])"

function mask_loop :: "u32 \<Rightarrow> byte list \<Rightarrow> nat \<Rightarrow> nat \<Rightarrow> nat \<times> byte list" where
  "mask_loop m p i len =
     (if i + 64 \<le> len then
        mask_loop m (take i p @ xor_words m (take 64 (drop i p)) @ drop (i + 64) p) (i + 64) len
      else (i, p))"
  by auto
termination by (relation "measure (\<lambda>(m, p, i, len). len - i)") auto

declare mask_loop.simps [simp del]

text \<open>
  \<open>bits\<close> is what the chunk holds before it is filled. The subtraction \<open>64 - j\<close> is of \<open>size_t\<close>; its
  callers pass what an earlier call returned, which is below 64.
\<close>

definition mask_head :: "u32 \<Rightarrow> byte list \<Rightarrow> byte list \<Rightarrow> nat \<Rightarrow> nat \<Rightarrow> nat \<times> byte list" where
  "mask_head m bits p j len =
     (if j > 0 then
        let j1 = min (64 - j) len; x = 64 - j1;
            b = xor_words m (take x bits @ take j1 p) in
        (j1, drop x b @ drop j1 p)
      else (0, p))"

definition apply_mask2 :: "ws_frame \<Rightarrow> byte list \<Rightarrow> byte list \<Rightarrow> nat \<Rightarrow> nat \<Rightarrow> nat \<times> byte list" where
  "apply_mask2 f bits p j0 len =
     (case mask_head (ws_mask f) bits p j0 len of (i0, p0) \<Rightarrow>
      case mask_loop (ws_mask f) p0 i0 len of (i, p1) \<Rightarrow>
        let j = len - i in
        if j > 0 then
          (j, take i p1 @ take j (xor_words (ws_mask f) (take j (drop i p1) @ drop j bits)) @ drop len p1)
        else (j, p1))"

definition apply_mask :: "ws_frame \<Rightarrow> byte list \<Rightarrow> byte list \<Rightarrow> byte list" where
  "apply_mask f bits p = snd (apply_mask2 f bits p 0 (unat (payload_len f)))"

section \<open>Masking is bytewise\<close>

text \<open>The reference: byte i of a stream that begins at phase j meets byte \<open>(i + j) mod 4\<close> of the mask.\<close>

definition mask_octet :: "u32 \<Rightarrow> nat \<Rightarrow> byte" where
  "mask_octet m i = le_bytes 4 (unat m) ! (i mod 4)"

definition masked :: "u32 \<Rightarrow> nat \<Rightarrow> byte list \<Rightarrow> byte list" where
  "masked m j p = map (\<lambda>i. p ! i XOR mask_octet m (i + j)) [0..<length p]"

lemma length_masked [simp]: "length (masked m j p) = length p"
  by (simp add: masked_def)

lemma nth_masked [simp]: "i < length p \<Longrightarrow> masked m j p ! i = p ! i XOR mask_octet m (i + j)"
  by (simp add: masked_def)

lemma masked_masked: "masked m j (masked m j p) = p"
  by (rule nth_equalityI) (simp_all add: xor.assoc)

lemma masked_append: "masked m j (p @ q) = masked m j p @ masked m (j + length p) q"
  by (rule nth_equalityI) (simp_all add: nth_append algebra_simps)

lemma mask_byte_mod: "j mod 4 = k mod 4 \<Longrightarrow> mask_octet m (i + j) = mask_octet m (i + k)"
  unfolding mask_octet_def by (metis mod_add_right_eq)

lemma masked_mod: "j mod 4 = k mod 4 \<Longrightarrow> masked m j p = masked m k p"
  by (simp add: masked_def mask_byte_mod [of j k])

lemma nth_le_bytes: "i < k \<Longrightarrow> le_bytes k n ! i = of_nat (n div 256 ^ i)"
proof (induction k arbitrary: n i)
  case (Suc k)
  then show ?case by (cases i) (simp_all add: div_mult2_eq)
qed simp

lemma byte_of_word: "i < 4 \<Longrightarrow> bit (of_nat (unat (w :: u32) div 256 ^ i) :: byte) n \<longleftrightarrow> n < 8 \<and> bit w (8 * i + n)"
proof -
  have "unat w div 256 ^ i = drop_bit (8 * i) (unat w)"
    by (simp add: drop_bit_eq_div power_mult)
  then show ?thesis
    by (simp add: bit_of_nat_iff bit_drop_bit_eq bit_unsigned_iff exp_eq_zero_iff)
qed

lemma le_bytes_xor:
  "i < 4 \<Longrightarrow> le_bytes 4 (unat (v XOR w :: u32)) ! i = le_bytes 4 (unat v) ! i XOR le_bytes 4 (unat w) ! i"
  by (rule bit_word_eqI) (auto simp: nth_le_bytes byte_of_word bit_xor_iff)

lemma le_bytes_load:
  "length (take k (drop i bs)) = k \<Longrightarrow> k * 8 \<le> LENGTH('a) \<Longrightarrow>
   le_bytes k (unat (load_word k i bs :: 'a::len word)) = take k (drop i bs)"
proof -
  assume l: "length (take k (drop i bs)) = k" "k * 8 \<le> LENGTH('a)"
  have "le_val (take k (drop i bs)) < 256 ^ k" using le_val_bound [of "take k (drop i bs)"] l by simp
  also have "256 ^ k = (2::nat) ^ (8 * k)" by (simp add: power_mult)
  also have "\<dots> \<le> 2 ^ LENGTH('a)" using l(2) by (simp add: power_increasing mult.commute)
  finally have "unat (load_word k i bs :: 'a word) = le_val (take k (drop i bs))"
    by (simp add: load_word_def unat_of_nat take_bit_nat_eq_self)
  then show ?thesis using le_bytes_le_val [of "take k (drop i bs)"] l(1) by simp
qed

lemma length_concat_blocks: "(\<And>k. k < n \<Longrightarrow> length (f k) = 4) \<Longrightarrow> length (concat (map f [0..<n])) = 4 * n"
  by (induction n) simp_all

lemma concat_blocks_nth:
  "(\<And>k. k < n \<Longrightarrow> length (f k) = 4) \<Longrightarrow> i < 4 * n \<Longrightarrow> concat (map f [0..<n]) ! i = f (i div 4) ! (i mod 4)"
proof (induction n)
  case (Suc n)
  have l: "length (concat (map f [0..<n])) = 4 * n"
    using Suc.prems(1) by (intro length_concat_blocks) simp
  show ?case
  proof (cases "i < 4 * n")
    case True
    then show ?thesis using Suc l by (simp add: nth_append)
  next
    case False
    then obtain r where i: "i = 4 * n + r" "r < 4" using Suc.prems(2)
      by (metis add_less_cancel_left le_add_diff_inverse linorder_not_less mult_Suc_right add.commute)
    then show ?thesis using l by (simp add: nth_append)
  qed
qed simp

lemma xor_words_masked:
  assumes "length bits = 64"
  shows "xor_words m bits = masked m 0 bits"
proof (rule nth_equalityI)
  have l: "length (xor_words m bits) = 64"
    by (simp add: xor_words_def length_concat comp_def sum_list_triv)
  then show "length (xor_words m bits) = length (masked m 0 bits)" using assms by simp
  fix i assume "i < length (xor_words m bits)"
  then have i: "i < 64" using l by simp
  have "i div 4 < 16" using i by (simp add: less_mult_imp_div_less)
  then have k: "4 * (i div 4) + 4 \<le> length bits" using assms by simp
  have "xor_words m bits ! i = le_bytes 4 (unat (load_word 4 (4 * (i div 4)) bits XOR m)) ! (i mod 4)"
    unfolding xor_words_def using i by (subst concat_blocks_nth) auto
  also have "\<dots> = take 4 (drop (4 * (i div 4)) bits) ! (i mod 4) XOR mask_octet m i"
    using k by (subst le_bytes_xor) (simp_all add: le_bytes_load mask_octet_def)
  also have "take 4 (drop (4 * (i div 4)) bits) ! (i mod 4) = bits ! i"
    using k by (simp add: nth_drop)
  finally show "xor_words m bits ! i = masked m 0 bits ! i" using i assms by simp
qed

lemma mask_loop_masked:
  assumes "i \<le> len" "len \<le> length p"
  shows "\<exists>i'. mask_loop m p i len = (i', take i p @ masked m 0 (take (i' - i) (drop i p)) @ drop i' p)
    \<and> i \<le> i' \<and> i' \<le> len \<and> len < i' + 64 \<and> 64 dvd i' - i"
  using assms
proof (induction m p i len rule: mask_loop.induct)
  case (1 m p i len)
  show ?case
  proof (cases "i + 64 \<le> len")
    case False
    then show ?thesis using "1.prems" by (intro exI [of _ i]) (simp add: mask_loop.simps [of m p i len] masked_def)
  next
    case True
    define q where "q = take 64 (drop i p)"
    define p1 where "p1 = take i p @ masked m 0 q @ drop (i + 64) p"
    have q: "length q = 64" using True "1.prems" by (simp add: q_def)
    have p1: "length p1 = length p" "take (i + 64) p1 = take i p @ masked m 0 q" "\<And>k. drop (i + 64 + k) p1 = drop (i + 64 + k) p"
      using True "1.prems" q by (simp_all add: p1_def add.commute)
    have s: "mask_loop m p i len = mask_loop m p1 (i + 64) len"
      using True xor_words_masked [OF q] by (subst mask_loop.simps) (simp add: p1_def q_def)
    obtain i' where i': "mask_loop m p1 (i + 64) len =
        (i', take (i + 64) p1 @ masked m 0 (take (i' - (i + 64)) (drop (i + 64) p1)) @ drop i' p1)"
      "i + 64 \<le> i'" "i' \<le> len" "len < i' + 64" "64 dvd i' - (i + 64)"
      using "1.IH" [OF True] "1.prems" True p1(1) xor_words_masked [OF q] by (auto simp: p1_def q_def)
    obtain k where k: "i' = i + 64 + k" using i'(2) le_Suc_ex by blast
    have "drop (i + 64) p1 = drop (i + 64) p" using p1(3) [of 0] by simp
    moreover have "take (i' - i) (drop i p) = q @ take k (drop (i + 64) p)"
      using take_add [of 64 k "drop i p"] k by (simp add: q_def add.commute)
    moreover have "masked m 64 (take k (drop (i + 64) p)) = masked m 0 (take k (drop (i + 64) p))"
      by (rule masked_mod) simp
    ultimately have "mask_loop m p i len = (i', take i p @ masked m 0 (take (i' - i) (drop i p)) @ drop i' p)"
      using s i'(1) p1 q k by (simp add: masked_append)
    then show ?thesis using i' k by (intro exI [of _ i']) simp
  qed
qed

lemma masked_tail:
  assumes "length q \<le> 64" "length bits = 64"
  shows "take (length q) (xor_words m (q @ drop (length q) bits)) = masked m 0 q"
  using assms by (simp add: xor_words_masked masked_append)

lemma masked_head:
  assumes "0 < j" "j \<le> 64" "length q = 64 - j" "length bits = 64"
  shows "drop j (xor_words m (take j bits @ q)) = masked m j q"
  using assms by (simp add: xor_words_masked masked_append)

text \<open>One call masks its buffer from phase j on and returns the phase of the next, provided the
  rest of the chunk that an earlier call began fits into the buffer.\<close>

lemma apply_mask2_masked:
  assumes "length bits = 64" "j < 64" "j = 0 \<or> 64 \<le> j + len" "len \<le> length p"
  shows "apply_mask2 f bits p j len = ((j + len) mod 64, masked (ws_mask f) j (take len p) @ drop len p)"
proof -
  let ?m = "ws_mask f"
  obtain i0 where i0: "mask_head ?m bits p j len = (i0, masked ?m j (take i0 p) @ drop i0 p)"
      "i0 \<le> len" "i0 = (if j = 0 then 0 else 64 - j)"
  proof (cases "j = 0")
    case True
    then show ?thesis using that [of 0] by (simp add: mask_head_def masked_def)
  next
    case False
    then have "min (64 - j) len = 64 - j" "64 - (64 - j) = j" using assms by auto
    then show ?thesis using that [of "64 - j"] False assms masked_head [of j "take (64 - j) p" bits ?m]
      by (simp add: mask_head_def Let_def)
  qed
  define p0 where "p0 = masked ?m j (take i0 p) @ drop i0 p"
  have l0: "length p0 = length p" "drop i0 p0 = drop i0 p" "take i0 p0 = masked ?m j (take i0 p)"
    using i0(2) assms(4) by (simp_all add: p0_def)
  obtain i where i: "mask_loop ?m p0 i0 len = (i, take i0 p0 @ masked ?m 0 (take (i - i0) (drop i0 p0)) @ drop i p0)"
    "i0 \<le> i" "i \<le> len" "len < i + 64" "64 dvd i - i0"
    using mask_loop_masked [of i0 len p0 ?m] i0(2) l0(1) assms(4) by auto
  obtain k where k: "i = i0 + k" using i(2) le_Suc_ex by blast
  have d: "drop i p0 = drop i p" using l0(2) k by (metis add.commute drop_drop)
  have ph: "(j + i0) mod 64 = 0" "(j + i) mod 64 = 0"
    using i0(3) assms(2) i(5) k by (auto simp: add.assoc [symmetric] mod_add_left_eq)
  then have ph4: "(j + i0) mod 4 = 0" "(j + i) mod 4 = 0"
    using mod_mod_cancel [of 4 64 "j + i0"] mod_mod_cancel [of 4 64 "j + i"] by auto
  have p1: "take i0 p0 @ masked ?m 0 (take (i - i0) (drop i0 p0)) = masked ?m j (take i p)"
    using k i(3) assms(4) l0 masked_mod [of "j + i0" 0 ?m] ph4
    by (simp add: take_add masked_append)
  have r: "(j + len) mod 64 = len - i"
  proof -
    have "j + len = (j + i) + (len - i)" using i(3) by simp
    then show ?thesis using ph(2) i(4) by (metis add.left_neutral le_add_diff_inverse i(3) mod_add_left_eq mod_less nat_add_left_cancel_less)
  qed
  have t: "take (len - i) (xor_words ?m (take (len - i) (drop i p) @ drop (len - i) bits)) = masked ?m 0 (take (len - i) (drop i p))"
    using masked_tail [of "take (len - i) (drop i p)" bits ?m] i(3,4) assms(1,4) by simp
  have "masked ?m j (take i p) @ masked ?m 0 (take (len - i) (drop i p)) = masked ?m j (take len p)"
  proof -
    have "take len p = take i p @ take (len - i) (drop i p)" using i(3) by (metis le_add_diff_inverse take_add)
    then show ?thesis using i(3) assms(4) masked_mod [of "j + i" 0 ?m] ph4 by (simp add: masked_append)
  qed
  moreover have "apply_mask2 f bits p j len =
      (if len - i > 0 then (len - i, masked ?m j (take i p) @ masked ?m 0 (take (len - i) (drop i p)) @ drop len p)
       else (len - i, masked ?m j (take i p) @ drop i p))"
  proof -
    have "length (masked ?m j (take i p)) = i" using i(3) assms(4) by simp
    then show ?thesis
      unfolding apply_mask2_def i0(1) p0_def [symmetric] prod.case i(1) Let_def append_assoc [symmetric] p1
      using t d i(3) by (cases "i < len") simp_all
  qed
  ultimately show ?thesis using r i(3) by (auto simp: masked_def)
qed


section \<open>Masking a payload that lies in pieces\<close>

text \<open>The loop of \<open>HttpClient::send_request\<close> over the buffers of a frame.\<close>

fun mask_pieces :: "ws_frame \<Rightarrow> byte list \<Rightarrow> nat \<Rightarrow> byte list list \<Rightarrow> byte list list" where
  "mask_pieces f bits j [] = []"
| "mask_pieces f bits j (b # bs) =
     (case apply_mask2 f bits b j (length b) of (j', b') \<Rightarrow> b' # mask_pieces f bits j' bs)"

text \<open>A piece holds at least the rest of the chunk of 64 bytes that the pieces before it began.\<close>

fun pieces_fit :: "nat \<Rightarrow> byte list list \<Rightarrow> bool" where
  "pieces_fit j [] \<longleftrightarrow> True"
| "pieces_fit j (b # bs) \<longleftrightarrow> (j = 0 \<or> 64 \<le> j + length b) \<and> pieces_fit ((j + length b) mod 64) bs"

lemma mask_pieces_masked:
  "length bits = 64 \<Longrightarrow> j < 64 \<Longrightarrow> pieces_fit j bs \<Longrightarrow>
   concat (mask_pieces f bits j bs) = masked (ws_mask f) j (concat bs)"
proof (induction bs arbitrary: j)
  case (Cons b bs)
  have "masked (ws_mask f) ((j + length b) mod 64) (concat bs) = masked (ws_mask f) (j + length b) (concat bs)"
    by (rule masked_mod) (simp add: mod_mod_cancel)
  then show ?case using Cons by (simp add: apply_mask2_masked masked_append)
qed (simp add: masked_def)

text \<open>Masking is undone by masking. A payload that the sender masks piece by piece, as the
  buffers of its stream hold it, and the receiver unmasks as a whole is the payload, provided no
  buffer is shorter than the rest of the chunk before it; both meet byte i of the payload with byte
  i mod 4 of the mask.\<close>

theorem ws_mask_roundtrip:
  assumes "length bits = 64" "length bits' = 64" "pieces_fit 0 bs" "unat (payload_len f) = length (concat bs)"
  shows "concat (mask_pieces f bits 0 bs) = masked (ws_mask f) 0 (concat bs)
    \<and> apply_mask f bits' (concat (mask_pieces f bits 0 bs) @ rest) = concat bs @ rest"
  using mask_pieces_masked [OF assms(1) _ assms(3), of f]
    apply_mask2_masked [OF assms(2), of 0 "length (concat bs)" "concat (mask_pieces f bits 0 bs) @ rest" f] assms(4)
  by (simp add: apply_mask_def masked_masked)

theorem ws_mask_roundtrip_witness:
  "apply_mask (ws_set 70 0x04030201 WS_TEXT True) (replicate 64 9)
     (concat (mask_pieces (ws_set 70 0x04030201 WS_TEXT True) (replicate 64 7) 0 [replicate 10 1, replicate 60 2]) @ [5])
   = replicate 10 1 @ replicate 60 2 @ [5]"
proof -
  let ?f = "ws_set 70 0x04030201 WS_TEXT True" and ?bs = "[replicate 10 1, replicate 60 (2 :: byte)]"
  have "apply_mask ?f (replicate 64 9) (concat (mask_pieces ?f (replicate 64 7) 0 ?bs) @ [5]) = concat ?bs @ [5]"
    by (rule ws_mask_roundtrip [THEN conjunct2]) (simp_all add: ws_set_def)
  then show ?thesis by (simp del: mask_pieces.simps)
qed

text \<open>Two buffers that do not fill one chunk: the second is masked from a wrong byte of the mask on.\<close>

lemma mask_pieces_short:
  "let f = ws_set 3 0x04030201 WS_TEXT True in
   concat (mask_pieces f (replicate 64 0) 0 [[0, 0], [0]]) \<noteq> masked (ws_mask f) 0 [0, 0, 0]"
proof -
  let ?f = "ws_set 3 0x04030201 WS_TEXT True"
  have a: "apply_mask2 ?f (replicate 64 0) [0, 0] 0 2 = (2, masked 0x04030201 0 [0, 0])"
    using apply_mask2_masked [of "replicate 64 0" 0 2 "[0, 0]" ?f] by (simp add: ws_set_def)
  have x: "xor_words 0x04030201 (replicate 64 0) = masked 0x04030201 0 (replicate 64 0)"
    by (rule xor_words_masked) simp
  have l: "mask_loop m p 1 1 = (1, p)" for m p by (subst mask_loop.simps) simp
  have "take 63 (replicate 64 0) @ [0] = replicate 64 (0::byte)" by (simp add: numeral_eq_Suc)
  then have b: "snd (apply_mask2 ?f (replicate 64 0) [0] 2 1) = drop 63 (masked 0x04030201 0 (replicate 64 0))"
    using x l by (simp add: apply_mask2_def mask_head_def ws_set_def Let_def)
  have "masked 0x04030201 0 (replicate 64 0) ! 63 = 4"
    by (simp add: mask_octet_def nth_le_bytes)
  then have "snd (apply_mask2 ?f (replicate 64 0) [0] 2 1) ! 0 = 4" using b by simp
  moreover have "masked 0x04030201 0 [0, 0, 0] ! 2 = 3" by (simp add: mask_octet_def nth_le_bytes)
  moreover obtain j c where c: "apply_mask2 ?f (replicate 64 0) [0] 2 1 = (j, c)" by fastforce
  ultimately have "(masked 0x04030201 0 [0, 0] @ c) ! 2 \<noteq> masked 0x04030201 0 [0, 0, 0] ! 2"
    by (simp add: nth_append)
  moreover have "concat (mask_pieces ?f (replicate 64 0) 0 [[0, 0], [0]]) = masked 0x04030201 0 [0, 0] @ c"
    using a c by (simp add: numeral_2_eq_2)
  ultimately show ?thesis by (auto simp: ws_set_def Let_def)
qed


section \<open>The header\<close>

lemma len_byte_nat: "len_byte n k = of_nat (unat n div 2 ^ k)"
proof (rule bit_word_eqI)
  fix i assume "i < LENGTH(8)"
  moreover have "drop_bit k n AND 0xff = take_bit 8 (drop_bit k n)"
    using take_bit_eq_mask [of 8 "drop_bit k n"] by (simp add: mask_eq_exp_minus_1)
  moreover have "unat n div 2 ^ k = drop_bit k (unat n)" by (simp add: drop_bit_eq_div)
  ultimately show "bit (len_byte n k) i \<longleftrightarrow> bit (of_nat (unat n div 2 ^ k) :: byte) i"
    by (simp only: len_byte_def bit_ucast_iff bit_take_bit_iff bit_drop_bit_eq bit_of_nat_iff bit_unsigned_iff comp_def)
      (auto dest: bit_imp_le_length)
qed

lemma nat_div_256: "n div 2 ^ k div 256 = n div (2::nat) ^ (k + 8)"
  by (simp add: power_add div_mult2_eq)

lemma le_bytes_div: "le_bytes (Suc k) (n div 2 ^ j) = of_nat (n div 2 ^ j) # le_bytes k (n div 2 ^ (j + 8))"
  by (simp only: le_bytes.simps nat_div_256)

lemma le_bytes_0 [simp]: "le_bytes k 0 = replicate k 0"
  by (induction k) simp_all

lemma len_bytes:
  "rev [len_byte n 8, len_byte n 0] = le_bytes 2 (unat n)"
  "unat n < 2 ^ 40 \<Longrightarrow> rev [0, 0, 0, len_byte n 32, len_byte n 24, len_byte n 16, len_byte n 8, len_byte n 0] = le_bytes 8 (unat n)"
proof -
  have "le_bytes 2 m = [of_nat m, of_nat (m div 256)]" for m by (simp add: numeral_2_eq_2)
  then show "rev [len_byte n 8, len_byte n 0] = le_bytes 2 (unat n)" by (simp add: len_byte_nat)
  assume "unat n < 2 ^ 40"
  then have z: "unat n div 2 ^ 40 = 0" by simp
  have "8 = Suc (Suc (Suc (Suc (Suc (3 :: nat)))))" by simp
  then have "le_bytes 8 (unat n div 2 ^ 0) = len_byte n 0 # len_byte n (0 + 8) # len_byte n (0 + 8 + 8) # len_byte n (0 + 8 + 8 + 8)
      # len_byte n (0 + 8 + 8 + 8 + 8) # le_bytes 3 (unat n div 2 ^ (0 + 8 + 8 + 8 + 8 + 8))"
    unfolding len_byte_nat by (simp only: le_bytes_div)
  then show "rev [0, 0, 0, len_byte n 32, len_byte n 24, len_byte n 16, len_byte n 8, len_byte n 0] = le_bytes 8 (unat n)"
    using z by (simp add: numeral_3_eq_3)
qed

lemma word_low: "unat b < 2 ^ n \<Longrightarrow> take_bit n b = (b :: 'a::len word)"
  by (metis unsigned_take_bit_eq take_bit_nat_eq_self word_unat_eq_iff)

lemma byte_low: "b < 128 \<Longrightarrow> take_bit 7 b = (b :: byte)"
  by (rule word_low) (simp add: word_less_nat_alt)

lemma flag_bit:
  fixes b :: byte
  assumes "b < 128"
  shows "((if f then 0x80 else 0) OR b) AND 0x80 \<noteq> 0 \<longleftrightarrow> f"
    "(b OR (if f then 0x80 else 0)) AND 0x80 \<noteq> 0 \<longleftrightarrow> f"
    "(b OR (if f then 0x80 else 0)) AND 0x7f = b"
proof -
  have z: "b AND 0x80 = 0"
  proof -
    have "b AND 0x80 = (b AND mask 7) AND 0x80" using byte_low [OF assms] by (simp add: take_bit_eq_mask)
    also have "\<dots> = b AND (mask 7 AND 0x80)" by (simp only: and.assoc)
    also have "mask 7 AND (0x80 :: byte) = 0" by (simp add: mask_eq_exp_minus_1)
    finally show ?thesis by simp
  qed
  show "((if f then 0x80 else 0) OR b) AND 0x80 \<noteq> 0 \<longleftrightarrow> f" "(b OR (if f then 0x80 else 0)) AND 0x80 \<noteq> 0 \<longleftrightarrow> f"
    using z by (simp_all add: bit.conj_disj_distrib2)
  have "(b OR 0x80) AND 0x7f = take_bit 7 (b OR 0x80)" "b AND 0x7f = take_bit 7 b"
    using take_bit_eq_mask [of 7 "b OR 0x80"] take_bit_eq_mask [of 7 b] by (simp_all add: mask_eq_exp_minus_1)
  then show "(b OR (if f then 0x80 else 0)) AND 0x7f = b"
    using byte_low [OF assms] by (simp add: take_bit_or)
qed

lemma opcode_bits:
  fixes b :: byte
  assumes "b < 16"
  shows "((if f then 0x80 else 0) OR b) AND 0x0f = b"
proof -
  have "take_bit 4 b = b" using assms by (intro word_low) (simp add: word_less_nat_alt)
  moreover have "(c OR b) AND 0x0f = take_bit 4 (c OR b)" for c
    using take_bit_eq_mask [of 4 "c OR b"] by (simp add: mask_eq_exp_minus_1)
  ultimately show ?thesis by (simp add: take_bit_or)
qed


lemma length_encode: "length (encode f) = hdr_size f"
  by (simp add: encode_def hdr_size_def Let_def)

definition frame_ok :: "ws_frame \<Rightarrow> bool" where
  "frame_ok f \<longleftrightarrow> ws_opcode f < 16 \<and> ws_opcode f \<noteq> WS_CLOSE \<and> unat (payload_len f) < 2 ^ 40"

lemma decode_len_encode:
  assumes "kv_bitops U" "unat n < 2 ^ 40"
    and "bs = b0 # (if n < 126 then [ucast n OR m] else (if n \<le> 0xffff then [126 OR m]
             else [127 OR m, 0, 0, 0, len_byte n 32, len_byte n 24, len_byte n 16]) @ [len_byte n 8, len_byte n 0]) @ rest"
    and "m = (if q then 0x80 else 0)"
  shows "bs ! 1 AND 0x80 \<noteq> 0 \<longleftrightarrow> q"
    "decode_len U bs (bs ! 1 AND 0x7f) = Some (if n < 126 then 2 else if n \<le> 0xffff then 4 else 10, n)"
proof -
  have c: "n < 126 \<Longrightarrow> (ucast n :: byte) < 126"
    by (simp add: word_less_nat_alt unsigned_ucast_eq take_bit_nat_eq_self)
  consider "n < 126" | "\<not> n < 126" "n \<le> 0xffff" | "\<not> n \<le> 0xffff" by blast
  then have "(bs ! 1 AND 0x80 \<noteq> 0 \<longleftrightarrow> q)
    \<and> decode_len U bs (bs ! 1 AND 0x7f) = Some (if n < 126 then 2 else if n \<le> 0xffff then 4 else 10, n)"
  proof cases
    case 1
    then have u: "(ucast n :: byte) < 128" using c by (auto simp: word_less_nat_alt)
    have "(ucast (ucast n :: byte) :: u64) = n" using 1 word_low [of n 8]
      by (simp add: word_unat_eq_iff unsigned_ucast_eq take_bit_nat_eq_self word_less_nat_alt)
    then show ?thesis using 1 c flag_bit [OF u, of q] assms(3,4) by (auto simp: decode_len_def)
  next
    case 2
    have k: "unat n < 2 ^ 16" using 2 by (simp add: word_le_nat_alt)
    have "kv_bswap16 U (load_word 2 2 bs) = of_nat (le_val (le_bytes 2 (unat n)))"
      using kv_bitops.bswap16 [OF assms(1), of "[len_byte n 8, len_byte n 0]"] 2 assms(3) len_bytes(1) [of n]
      by (simp add: load_word_def del: le_val.simps)
    then have "(ucast (kv_bswap16 U (load_word 2 2 bs)) :: u64) = n"
      using k le_val_le_bytes [of "unat n" 2] by (simp add: word_unat_eq_iff unsigned_ucast_eq unat_of_nat take_bit_nat_eq_self)
    then show ?thesis using 2 flag_bit [of 126 q] assms(3,4) by (simp add: decode_len_def)
  next
    case 3
    then have "\<not> n < 126" by (auto simp: word_less_nat_alt word_le_nat_alt)
    moreover have "kv_bswap64 U (load_word 8 2 bs) = of_nat (le_val (le_bytes 8 (unat n)))"
      using kv_bitops.bswap64 [OF assms(1), of "[0, 0, 0, len_byte n 32, len_byte n 24, len_byte n 16, len_byte n 8, len_byte n 0]"]
        3 calculation assms(3) len_bytes(2) [OF assms(2)]
      by (simp add: load_word_def del: le_val.simps)
    moreover have "(of_nat (le_val (le_bytes 8 (unat n))) :: u64) = n"
      using assms(2) le_val_le_bytes [of "unat n" 8] by simp
    ultimately show ?thesis using 3 flag_bit [of 127 q] assms(3,4) by (simp add: decode_len_def)
  qed
  then show "bs ! 1 AND 0x80 \<noteq> 0 \<longleftrightarrow> q"
    "decode_len U bs (bs ! 1 AND 0x7f) = Some (if n < 126 then 2 else if n \<le> 0xffff then 4 else 10, n)" by auto
qed


lemma decode_mask_encode:
  assumes "bs = hs @ (if q then le_bytes 4 (unat k) else []) @ rest" "q \<longleftrightarrow> ws_mask f \<noteq> 0"
  shows "decode_mask bs (length hs) f = (if q then (length hs + 4, f\<lparr>ws_mask := k\<rparr>) else (length hs, f))"
proof -
  have "le_val (le_bytes 4 (unat k)) = unat k"
    using unsigned_less [of k] by (intro le_val_le_bytes) simp
  then show ?thesis using assms by (simp add: decode_mask_def load_word_def)
qed

text \<open>What the decoder finds in an encoded header: its first two bytes, where its length ends, and
  the mask behind.\<close>

lemma encode_header:
  assumes "kv_bitops U" "frame_ok f"
  obtains hs where "encode f = hs @ (if ws_mask f \<noteq> 0 then le_bytes 4 (unat (ws_mask f)) else [])" "2 \<le> length hs"
    "hs ! 0 AND 0x80 \<noteq> 0 \<longleftrightarrow> ws_fin f" "hs ! 0 AND 0x0f = ws_opcode f" "hs ! 1 AND 0x80 \<noteq> 0 \<longleftrightarrow> ws_mask f \<noteq> 0"
    "\<And>rest. decode_len U (hs @ rest) (hs ! 1 AND 0x7f) = Some (length hs, payload_len f)"
proof -
  let ?n = "payload_len f" and ?q = "ws_mask f \<noteq> 0"
  define m where "m = (if ?q then 0x80 else (0 :: byte))"
  define b0 where "b0 = (if ws_fin f then 0x80 else 0) OR ws_opcode f"
  define ls where "ls = (if ?n < 126 then [ucast ?n OR m] else (if ?n \<le> 0xffff then [126 OR m]
             else [127 OR m, 0, 0, 0, len_byte ?n 32, len_byte ?n 24, len_byte ?n 16]) @ [len_byte ?n 8, len_byte ?n 0])"
  have op: "ws_opcode f < 16" "ws_opcode f \<noteq> WS_CLOSE" "unat ?n < 2 ^ 40" using assms(2) by (auto simp: frame_ok_def)
  then have e: "encode f = (b0 # ls) @ (if ?q then le_bytes 4 (unat (ws_mask f)) else [])"
    by (simp add: encode_def Let_def b0_def ls_def m_def)
  have "ws_opcode f < 128" using op(1) by (auto simp: word_less_nat_alt)
  then have b0: "b0 AND 0x80 \<noteq> 0 \<longleftrightarrow> ws_fin f" "b0 AND 0x0f = ws_opcode f"
    using flag_bit(1) opcode_bits op(1) by (auto simp: b0_def)
  have l: "1 \<le> length ls" by (simp add: ls_def)
  have d: "ls ! 0 AND 0x80 \<noteq> 0 \<longleftrightarrow> ?q" "decode_len U (b0 # ls @ rest) (ls ! 0 AND 0x7f) = Some (length (b0 # ls), ?n)" for rest
    using decode_len_encode [OF assms(1) op(3), of "b0 # ls @ rest" b0 m rest ?q] l
    by (auto simp: ls_def m_def nth_append)
  show ?thesis using e b0 d l by (intro that [of "b0 # ls"]) simp_all
qed

text \<open>C27: The header round trip. The decoder reads an encoded header back, whatever follows it, and
  says where the payload begins; the size is the one the callers allot. Given any shorter part of
  the header it asks for more. This holds for every operation code but close, with or without a
  mask, and for payloads below a terabyte, 2 to the 40.\<close>

theorem ws_header_roundtrip:
  assumes "kv_bitops U" "frame_ok f"
  shows "decode U (encode f @ rest) g = (hdr_size f, f) \<and> (k < hdr_size f \<longrightarrow> fst (decode U (take k (encode f)) g) = 0)"
proof -
  have op: "ws_opcode f \<noteq> WS_CLOSE" using assms(2) by (simp add: frame_ok_def)
  obtain hs where h: "encode f = hs @ (if ws_mask f \<noteq> 0 then le_bytes 4 (unat (ws_mask f)) else [])" "2 \<le> length hs"
    "hs ! 0 AND 0x80 \<noteq> 0 \<longleftrightarrow> ws_fin f" "hs ! 0 AND 0x0f = ws_opcode f" "hs ! 1 AND 0x80 \<noteq> 0 \<longleftrightarrow> ws_mask f \<noteq> 0"
    "\<And>rest. decode_len U (hs @ rest) (hs ! 1 AND 0x7f) = Some (length hs, payload_len f)"
    using encode_header [OF assms] by blast
  let ?bs = "encode f @ rest"
  have b: "?bs ! 0 = hs ! 0" "?bs ! 1 = hs ! 1" "\<not> length ?bs < 1" "\<not> length ?bs < 2"
    using h(1,2) by (auto simp: nth_append)
  have ne: "encode f \<noteq> []" using h(1,2) by auto
  have "decode_mask ?bs (length hs) v = (if ws_mask f \<noteq> 0 then (length hs + 4, v\<lparr>ws_mask := ws_mask f\<rparr>) else (length hs, v))"
    if "ws_mask f \<noteq> 0 \<longleftrightarrow> ws_mask v \<noteq> 0" for v
    using that h(1) by (intro decode_mask_encode [of _ _ _ _ rest]) simp_all
  moreover have "decode_len U ?bs (?bs ! 1 AND 0x7f) = Some (length hs, payload_len f)"
    using h(6) [of "(if ws_mask f \<noteq> 0 then le_bytes 4 (unat (ws_mask f)) else []) @ rest"] h(1) b(2) by simp
  moreover have "hdr_size f = length hs + (if ws_mask f \<noteq> 0 then 4 else 0)"
    using length_encode [of f] h(1) by (simp split: if_splits)
  ultimately have "decode U ?bs g = (hdr_size f, f)"
    using b ne h(3-5) op by (cases "ws_mask f = 0") (simp_all add: decode_def Let_def del: length_append)
  moreover have "fst (decode U (take k (encode f)) g) = 0" if "k < hdr_size f"
  proof (cases "k < 2")
    case True
    then have "k = 0 \<or> k = 1" by auto
    moreover obtain c cs where c: "encode f = c # cs" using ne by (cases "encode f") auto
    moreover have "c AND 0x0f = ws_opcode f" using b(1) h(4) c by simp
    ultimately show ?thesis using op by (auto simp: decode_def Let_def)
  next
    case False
    let ?t = "take k (encode f)"
    have t: "?t ! 0 = hs ! 0" "?t ! 1 = hs ! 1" "length ?t = k" "\<not> k < 1"
      using False h(1,2) that length_encode [of f] by (auto simp: nth_append)
    have n: "decode_len U ?t y = None \<or> (\<exists>v. decode_len U ?t y = Some (length hs, v))" if "y = hs ! 1 AND 0x7f" for y
      using h(6) [of "[]"] that by (auto simp: decode_len_def split: if_splits)
    have "k < length hs \<Longrightarrow> decode_len U ?t (hs ! 1 AND 0x7f) = None"
      using h(6) [of "[]"] t(3) False by (auto simp: decode_len_def split: if_splits)
    moreover have "\<not> k < length hs \<Longrightarrow> ws_mask f \<noteq> 0 \<and> k < length hs + 4"
      using that length_encode [of f] h(1) by (auto split: if_splits)
    ultimately show ?thesis using n [OF refl] t False op h(3-5)
      by (cases "k < length hs") (auto simp: decode_def Let_def decode_mask_def)
  qed
  ultimately show ?thesis by blast
qed

theorem ws_header_roundtrip_witness:
  "decode (scan_util int_str_util) (encode (ws_set 70000 0x04030201 WS_TEXT True) @ [1, 2]) (ws_set 0 0 0 False)
     = (14, ws_set 70000 0x04030201 WS_TEXT True)
   \<and> fst (decode (scan_util int_str_util) (take 13 (encode (ws_set 70000 0x04030201 WS_TEXT True))) (ws_set 0 0 0 False)) = 0"
  using ws_header_roundtrip [OF scan.kv_bitops_axioms [of int_str_util], of "ws_set 70000 0x04030201 WS_TEXT True" "[1, 2]" "ws_set 0 0 0 False" 13]
  by (simp add: frame_ok_def ws_set_def hdr_size_def word_less_nat_alt word_le_nat_alt)

text \<open>A payload of 2 to the 40 bytes is announced as an empty one.\<close>

lemma encode_terabyte: "encode (ws_set (2 ^ 40) 0 WS_TEXT True) = [0x81, 127, 0, 0, 0, 0, 0, 0, 0, 0]"
  by (simp add: encode_def ws_set_def len_byte_nat word_less_nat_alt word_le_nat_alt)

end
