(* ===== verification/Mc_Msg.thy ===== *)
theory Mc_Msg
  imports Redis_Msg "HOL-Library.Monad_Syntax"
begin

text \<open>
  The requests and results of the memcached protocol, \<open>src/src/memcached_exec.cpp\<close> with
  \<open>include/raids/memcached_exec.h\<close>: the decoder of requests in text and in binary form, the parsers
  of the arguments of each command, and the decoder of results. \<open>None\<close> is a read outside the buffer.
\<close>

section \<open>Statuses, commands and flags\<close>

datatype memcached_status =
    MEMCACHED_OK | MEMCACHED_MSG_PARTIAL | MEMCACHED_EMPTY | MEMCACHED_SETUP_OK | MEMCACHED_SUCCESS
  | MEMCACHED_DEPENDS | MEMCACHED_CONTINUE | MEMCACHED_QUIT | MEMCACHED_VERSION | MEMCACHED_ALLOC_FAIL
  | MEMCACHED_BAD_CMD | MEMCACHED_BAD_ARGS | MEMCACHED_INT_OVERFLOW | MEMCACHED_BAD_INT
  | MEMCACHED_BAD_INCR | MEMCACHED_ERR_KV | MEMCACHED_BAD_TYPE | MEMCACHED_NOT_IMPL | MEMCACHED_BAD_PAD
  | MEMCACHED_BAD_BIN_ARGS | MEMCACHED_BAD_BIN_CMD | MEMCACHED_BAD_RESULT

definition mc_statuses :: "memcached_status list" where
  "mc_statuses =
     [MEMCACHED_OK, MEMCACHED_MSG_PARTIAL, MEMCACHED_EMPTY, MEMCACHED_SETUP_OK, MEMCACHED_SUCCESS,
      MEMCACHED_DEPENDS, MEMCACHED_CONTINUE, MEMCACHED_QUIT, MEMCACHED_VERSION, MEMCACHED_ALLOC_FAIL,
      MEMCACHED_BAD_CMD, MEMCACHED_BAD_ARGS, MEMCACHED_INT_OVERFLOW, MEMCACHED_BAD_INT,
      MEMCACHED_BAD_INCR, MEMCACHED_ERR_KV, MEMCACHED_BAD_TYPE, MEMCACHED_NOT_IMPL, MEMCACHED_BAD_PAD,
      MEMCACHED_BAD_BIN_ARGS, MEMCACHED_BAD_BIN_CMD, MEMCACHED_BAD_RESULT]"

text \<open>The place in the enumeration, which the code compares. Three values are raikv's and stand where
  the enumeration has them.\<close>

definition mc_status_code :: "memcached_status \<Rightarrow> nat" where
  "mc_status_code s = length (takeWhile (\<lambda>t. t \<noteq> s) mc_statuses)"

definition memcached_status_success :: "memcached_status \<Rightarrow> bool" where
  "memcached_status_success s \<longleftrightarrow> mc_status_code s \<le> mc_status_code MEMCACHED_SUCCESS"

datatype memcached_cmd =
    MC_NONE | MC_SET | MC_ADD | MC_REPLACE | MC_APPEND | MC_PREPEND | MC_CAS | MC_GET | MC_GETS
  | MC_DELETE | MC_INCR | MC_DECR | MC_TOUCH | MC_GAT | MC_GATS | MC_SLABS | MC_LRU | MC_LRU_CRAWLER
  | MC_WATCH | MC_STATS | MC_FLUSH_ALL | MC_CACHE_MEMLIMIT | MC_VERSION | MC_QUIT | MC_NO_OP | MC_VERBOSITY

definition mc_commands :: "memcached_cmd list" where
  "mc_commands =
     [MC_NONE, MC_SET, MC_ADD, MC_REPLACE, MC_APPEND, MC_PREPEND, MC_CAS, MC_GET, MC_GETS, MC_DELETE,
      MC_INCR, MC_DECR, MC_TOUCH, MC_GAT, MC_GATS, MC_SLABS, MC_LRU, MC_LRU_CRAWLER, MC_WATCH, MC_STATS,
      MC_FLUSH_ALL, MC_CACHE_MEMLIMIT, MC_VERSION, MC_QUIT, MC_NO_OP, MC_VERBOSITY]"

definition cmd_code :: "memcached_cmd \<Rightarrow> byte" where
  "cmd_code c = of_nat (length (takeWhile (\<lambda>d. d \<noteq> c) mc_commands))"

definition MC_CMD_MASK :: byte where "MC_CMD_MASK = 31"
definition MC_QUIET :: byte where "MC_QUIET = 32"
definition MC_KEY :: byte where "MC_KEY = 64"
definition MC_BINARY :: byte where "MC_BINARY = 128"

section \<open>The message\<close>

text \<open>Arguments are the bytes their pointers and lengths name, \<open>mc_data\<close> those of \<open>msg\<close> and \<open>msglen\<close>.\<close>

record mc_msg =
  mc_args :: "byte list list"
  mc_keycnt :: nat
  mc_first :: nat
  mc_flags :: u32
  mc_ttl :: u64
  mc_cas :: u64
  mc_msglen :: u64
  mc_inc :: u64
  mc_data :: "byte list option"
  mc_cmd :: byte
  mc_opcode :: byte
  mc_res :: nat
  mc_pad :: byte
  mc_opaque :: u32
  mc_ini :: u64

definition command :: "mc_msg \<Rightarrow> memcached_cmd option" where
  "command m = (let n = unat (mc_cmd m AND MC_CMD_MASK) in
     if n < length mc_commands then Some (mc_commands ! n) else None)"

definition is_quiet :: "mc_msg \<Rightarrow> bool" where "is_quiet m \<longleftrightarrow> mc_cmd m AND MC_QUIET \<noteq> 0"
definition is_binary :: "mc_msg \<Rightarrow> bool" where "is_binary m \<longleftrightarrow> mc_cmd m AND MC_BINARY \<noteq> 0"
definition wants_key :: "mc_msg \<Rightarrow> bool" where "wants_key m \<longleftrightarrow> mc_cmd m AND MC_KEY \<noteq> 0"

definition read_only :: "memcached_cmd set" where
  "read_only = {MC_GET, MC_GETS}"

definition mutator :: "memcached_cmd set" where
  "mutator = {MC_SET, MC_ADD, MC_REPLACE, MC_APPEND, MC_PREPEND, MC_CAS, MC_DELETE, MC_INCR, MC_DECR, MC_TOUCH,
     MC_GAT, MC_GATS}"

definition set_quiet :: "bool \<Rightarrow> mc_msg \<Rightarrow> mc_msg" where
  "set_quiet q m = m\<lparr>mc_cmd := mc_cmd m OR (if q then MC_QUIET else 0)\<rparr>"

section \<open>Words of a line\<close>

text \<open>\<open>parse_mcargs\<close>: the array of arguments starts with one place and grows before the place is
  written; \<open>ok\<close> tells whether the scratch memory can be had.\<close>

function mcargs_loop :: "bool \<Rightarrow> nat \<Rightarrow> byte list list \<Rightarrow> byte list \<Rightarrow> byte list list option" where
  "mcargs_loop ok incr args s =
     (if length args \<ge> incr \<or> s = [] then None
      else
        let w = hd s # takeWhile (\<lambda>c. c \<noteq> SP) (tl s);
            r = dropWhile (\<lambda>c. c = SP) (dropWhile (\<lambda>c. c \<noteq> SP) (tl s));
            args1 = args @ [w] in
        if r = [] then Some args1
        else if length args1 = incr then
          (if ok then mcargs_loop ok (incr + (if incr = 1 then ((length r div 8) OR 3) + 1 else 16)) args1 r
           else Some [])
        else mcargs_loop ok incr args1 r)"
  by pat_completeness auto
termination
proof (relation "measure (\<lambda>(ok, incr, args, s). length s)", goal_cases)
  case (2 ok incr args s w r args1)
  have "length r \<le> length (tl s)"
    unfolding 2 by (meson dual_order.trans length_dropWhile_le)
  then show ?case using 2(1) by (cases s) auto
next
  case (3 ok incr args s w r args1)
  have "length r \<le> length (tl s)"
    unfolding 3 by (meson dual_order.trans length_dropWhile_le)
  then show ?case using 3(1) by (cases s) auto
qed simp

declare mcargs_loop.simps [simp del]

definition parse_mcargs :: "bool \<Rightarrow> byte list \<Rightarrow> byte list list option" where
  "parse_mcargs ok s = (let r = dropWhile (\<lambda>c. c = SP) s in if r = [] then Some [] else mcargs_loop ok 1 [] r)"

section \<open>Arguments of the commands\<close>

definition get_u64 :: "byte list \<Rightarrow> memcached_status + u64" where
  "get_u64 s = (case string_to_uint s of
      Inl INT_OVERFLOW \<Rightarrow> Inl MEMCACHED_INT_OVERFLOW
    | Inl _ \<Rightarrow> Inl MEMCACHED_BAD_INT
    | Inr v \<Rightarrow> Inr v)"

definition get_u32 :: "byte list \<Rightarrow> memcached_status + u32" where
  "get_u32 s = (case get_u64 s of Inl r \<Rightarrow> Inl r
     | Inr v \<Rightarrow> if v > 0xffffffff then Inl MEMCACHED_INT_OVERFLOW else Inr (ucast v))"

text \<open>One argument read into a field; the parse goes on only if it is a number.\<close>

definition arg_u64 :: "nat \<Rightarrow> (u64 \<Rightarrow> mc_msg \<Rightarrow> mc_msg) \<Rightarrow> (mc_msg \<Rightarrow> memcached_status \<times> mc_msg) \<Rightarrow> mc_msg
    \<Rightarrow> memcached_status \<times> mc_msg" where
  "arg_u64 i upd k m = (case get_u64 (mc_args m ! i) of Inl r \<Rightarrow> (r, m) | Inr v \<Rightarrow> k (upd v m))"

definition arg_u32 :: "nat \<Rightarrow> (u32 \<Rightarrow> mc_msg \<Rightarrow> mc_msg) \<Rightarrow> (mc_msg \<Rightarrow> memcached_status \<times> mc_msg) \<Rightarrow> mc_msg
    \<Rightarrow> memcached_status \<times> mc_msg" where
  "arg_u32 i upd k m = (case get_u32 (mc_args m ! i) of Inl r \<Rightarrow> (r, m) | Inr v \<Rightarrow> k (upd v m))"

definition parse_store :: "mc_msg \<Rightarrow> memcached_status \<times> mc_msg" where
  "parse_store m =
     (if length (mc_args m) \<noteq> 4 \<and> length (mc_args m) \<noteq> 5 then (MEMCACHED_BAD_ARGS, m)
      else (arg_u32 1 (\<lambda>v. mc_flags_update (\<lambda>_. v))
        (arg_u64 2 (\<lambda>v. mc_ttl_update (\<lambda>_. v))
        (arg_u64 3 (\<lambda>v. mc_msglen_update (\<lambda>_. v))
        (\<lambda>m1. (MEMCACHED_OK, set_quiet (length (mc_args m1) = 5)
           (m1\<lparr>mc_keycnt := 1, mc_first := 0, mc_cas := 0, mc_inc := 0, mc_data := None\<rparr>)))))) m)"

definition parse_cas :: "mc_msg \<Rightarrow> memcached_status \<times> mc_msg" where
  "parse_cas m =
     (if length (mc_args m) \<noteq> 5 \<and> length (mc_args m) \<noteq> 6 then (MEMCACHED_BAD_ARGS, m)
      else (arg_u32 1 (\<lambda>v. mc_flags_update (\<lambda>_. v))
        (arg_u64 2 (\<lambda>v. mc_ttl_update (\<lambda>_. v))
        (arg_u64 3 (\<lambda>v. mc_msglen_update (\<lambda>_. v))
        (arg_u64 4 (\<lambda>v. mc_cas_update (\<lambda>_. v))
        (\<lambda>m1. (MEMCACHED_OK, set_quiet (length (mc_args m1) = 6)
           (m1\<lparr>mc_keycnt := 1, mc_first := 0, mc_inc := 0, mc_data := None\<rparr>))))))) m)"

definition parse_retr :: "mc_msg \<Rightarrow> memcached_status \<times> mc_msg" where
  "parse_retr m =
     (if mc_args m = [] then (MEMCACHED_BAD_ARGS, m)
      else (MEMCACHED_OK, m\<lparr>mc_keycnt := length (mc_args m), mc_first := 0, mc_ttl := 0, mc_cas := 0,
              mc_msglen := 0, mc_inc := 0, mc_data := None\<rparr>))"

definition parse_gat :: "mc_msg \<Rightarrow> memcached_status \<times> mc_msg" where
  "parse_gat m =
     (if length (mc_args m) \<le> 1 then (MEMCACHED_BAD_ARGS, m)
      else arg_u64 0 (\<lambda>v. mc_ttl_update (\<lambda>_. v))
        (\<lambda>m1. (MEMCACHED_OK, m1\<lparr>mc_keycnt := length (mc_args m1) - 1, mc_first := 1, mc_cas := 0,
           mc_msglen := 0, mc_inc := 0, mc_data := None\<rparr>)) m)"

definition parse_del :: "mc_msg \<Rightarrow> memcached_status \<times> mc_msg" where
  "parse_del m =
     (if length (mc_args m) \<noteq> 1 \<and> length (mc_args m) \<noteq> 2 then (MEMCACHED_BAD_ARGS, m)
      else (MEMCACHED_OK, set_quiet (length (mc_args m) = 2)
        (m\<lparr>mc_keycnt := 1, mc_first := 0, mc_ttl := 0, mc_cas := 0, mc_msglen := 0, mc_inc := 0, mc_data := None\<rparr>)))"

definition parse_incr :: "mc_msg \<Rightarrow> memcached_status \<times> mc_msg" where
  "parse_incr m =
     (if length (mc_args m) \<noteq> 2 \<and> length (mc_args m) \<noteq> 3 then (MEMCACHED_BAD_ARGS, m)
      else arg_u64 1 (\<lambda>v. mc_inc_update (\<lambda>_. v))
        (\<lambda>m1. (MEMCACHED_OK, set_quiet (length (mc_args m1) = 3)
          (m1\<lparr>mc_keycnt := 1, mc_first := 0, mc_cas := 0, mc_ttl := 0, mc_msglen := 0, mc_data := None\<rparr>))) m)"

definition parse_touch :: "mc_msg \<Rightarrow> memcached_status \<times> mc_msg" where
  "parse_touch m =
     (if length (mc_args m) \<noteq> 2 \<and> length (mc_args m) \<noteq> 3 then (MEMCACHED_BAD_ARGS, m)
      else arg_u64 1 (\<lambda>v. mc_ttl_update (\<lambda>_. v))
        (\<lambda>m1. (MEMCACHED_OK, set_quiet (length (mc_args m1) = 3)
          (m1\<lparr>mc_keycnt := 1, mc_first := 0, mc_cas := 0, mc_msglen := 0, mc_inc := 0, mc_data := None\<rparr>))) m)"

section \<open>Binary requests\<close>

text \<open>A read of \<open>n\<close> bytes at \<open>i\<close>, and the words a copy from memory gives.\<close>

definition read_at :: "nat \<Rightarrow> nat \<Rightarrow> byte list \<Rightarrow> byte list option" where
  "read_at i n p = (if i + n \<le> length p then Some (take n (drop i p)) else None)"

definition mem_word :: "byte list \<Rightarrow> 'a::len word" where
  "mem_word bs = of_nat (le_val bs)"

record bin_hdr =
  bh_opcode :: byte
  bh_keylen :: u16
  bh_extralen :: byte
  bh_datalen :: u32
  bh_opaque :: u32
  bh_cas :: u64

definition bin_hdr_of :: "byte list \<Rightarrow> bin_hdr" where
  "bin_hdr_of h = \<lparr>bh_opcode = h ! 1, bh_keylen = mem_word (take 2 (drop 2 h)), bh_extralen = h ! 4,
     bh_datalen = mem_word (take 4 (drop 8 h)), bh_opaque = mem_word (take 4 (drop 12 h)),
     bh_cas = mem_word (take 8 (drop 16 h))\<rparr>"

text \<open>\<open>init_op_cmd\<close>: the command of an opcode; the rest of the table is zero.\<close>

definition op_cmds :: "byte list" where
  "op_cmds =
     [cmd_code MC_GET, cmd_code MC_SET, cmd_code MC_ADD, cmd_code MC_REPLACE, cmd_code MC_DELETE,
      cmd_code MC_INCR, cmd_code MC_DECR, cmd_code MC_QUIT, cmd_code MC_FLUSH_ALL, cmd_code MC_GET OR MC_QUIET,
      cmd_code MC_NO_OP, cmd_code MC_VERSION, cmd_code MC_GET OR MC_KEY, cmd_code MC_GET OR MC_KEY OR MC_QUIET,
      cmd_code MC_APPEND, cmd_code MC_PREPEND, cmd_code MC_STATS, cmd_code MC_SET OR MC_QUIET,
      cmd_code MC_ADD OR MC_QUIET, cmd_code MC_REPLACE OR MC_QUIET, cmd_code MC_DELETE OR MC_QUIET,
      cmd_code MC_INCR OR MC_QUIET, cmd_code MC_DECR OR MC_QUIET, cmd_code MC_QUIT OR MC_QUIET,
      cmd_code MC_FLUSH_ALL OR MC_QUIET, cmd_code MC_APPEND OR MC_QUIET, cmd_code MC_PREPEND OR MC_QUIET,
      cmd_code MC_VERBOSITY, cmd_code MC_TOUCH, cmd_code MC_GAT, cmd_code MC_GAT OR MC_QUIET]"

definition op_cmd :: "byte \<Rightarrow> byte" where
  "op_cmd opc = (if unat opc < length op_cmds then op_cmds ! unat opc else 0)"

text \<open>The fields every parser of a binary request with a key sets. The parsers give the status, the
  bytes taken behind the header, and the message.\<close>

definition bin_key :: "byte list \<Rightarrow> mc_msg \<Rightarrow> mc_msg" where
  "bin_key key m = m\<lparr>mc_args := [key], mc_keycnt := 1, mc_first := 0\<rparr>"

definition parse_bin_store :: "kv_util \<Rightarrow> bin_hdr \<Rightarrow> byte list \<Rightarrow> mc_msg \<Rightarrow> (memcached_status \<times> nat \<times> mc_msg) option" where
  "parse_bin_store U b p m =
     (let keylen = unat (kv_bswap16 U (bh_keylen b)); datalen = unat (kv_bswap32 U (bh_datalen b));
          exlen = unat (bh_extralen b) in
      if datalen > length p then Some (MEMCACHED_MSG_PARTIAL, length p, m)
      else if datalen < keylen + exlen \<or> keylen = 0 \<or> exlen \<noteq> 8 then Some (MEMCACHED_BAD_BIN_ARGS, datalen, m)
      else do {
        e0 \<leftarrow> read_at 0 4 p;
        e1 \<leftarrow> read_at 4 4 p;
        key \<leftarrow> read_at 8 keylen p;
        msg \<leftarrow> read_at (8 + keylen) (datalen - (exlen + keylen)) p;
        Some (MEMCACHED_OK, datalen, (bin_key key m)\<lparr>
          mc_flags := kv_bswap32 U (mem_word e0), mc_ttl := ucast (kv_bswap32 U (mem_word e1)),
          mc_cas := kv_bswap64 U (bh_cas b), mc_msglen := of_nat (datalen - (exlen + keylen)), mc_inc := 0,
          mc_data := Some msg\<rparr>) })"

definition parse_bin_pend :: "kv_util \<Rightarrow> bin_hdr \<Rightarrow> byte list \<Rightarrow> mc_msg \<Rightarrow> (memcached_status \<times> nat \<times> mc_msg) option" where
  "parse_bin_pend U b p m =
     (let keylen = unat (kv_bswap16 U (bh_keylen b)); datalen = unat (kv_bswap32 U (bh_datalen b));
          exlen = unat (bh_extralen b) in
      if datalen > length p then Some (MEMCACHED_MSG_PARTIAL, length p, m)
      else if datalen < keylen \<or> keylen = 0 \<or> exlen \<noteq> 0 then Some (MEMCACHED_BAD_BIN_ARGS, datalen, m)
      else do {
        key \<leftarrow> read_at 0 keylen p;
        msg \<leftarrow> read_at keylen (datalen - keylen) p;
        Some (MEMCACHED_OK, datalen, (bin_key key m)\<lparr>mc_flags := 0, mc_ttl := 0, mc_cas := 0,
          mc_msglen := of_nat (datalen - keylen), mc_inc := 0, mc_data := Some msg\<rparr>) })"

definition parse_bin_retr :: "kv_util \<Rightarrow> bin_hdr \<Rightarrow> byte list \<Rightarrow> mc_msg \<Rightarrow> (memcached_status \<times> nat \<times> mc_msg) option" where
  "parse_bin_retr U b p m =
     (let keylen = unat (kv_bswap16 U (bh_keylen b)); datalen = unat (kv_bswap32 U (bh_datalen b));
          exlen = unat (bh_extralen b) in
      if datalen > length p then Some (MEMCACHED_MSG_PARTIAL, length p, m)
      else if datalen \<noteq> keylen \<or> keylen = 0 \<or> exlen \<noteq> 0 then Some (MEMCACHED_BAD_BIN_ARGS, keylen, m)
      else do {
        key \<leftarrow> read_at 0 keylen p;
        Some (MEMCACHED_OK, keylen, (bin_key key m)\<lparr>mc_flags := 0, mc_ttl := 0, mc_cas := 0, mc_msglen := 0,
          mc_inc := 0, mc_data := None\<rparr>) })"

definition parse_bin_touch :: "kv_util \<Rightarrow> bin_hdr \<Rightarrow> byte list \<Rightarrow> mc_msg \<Rightarrow> (memcached_status \<times> nat \<times> mc_msg) option" where
  "parse_bin_touch U b p m =
     (let keylen = unat (kv_bswap16 U (bh_keylen b)); datalen = unat (kv_bswap32 U (bh_datalen b));
          exlen = unat (bh_extralen b) in
      if datalen > length p then Some (MEMCACHED_MSG_PARTIAL, length p, m)
      else if datalen \<noteq> keylen + exlen \<or> keylen = 0 \<or> exlen \<noteq> 4 then Some (MEMCACHED_BAD_BIN_ARGS, datalen, m)
      else do {
        e0 \<leftarrow> read_at 0 4 p;
        key \<leftarrow> read_at 4 keylen p;
        Some (MEMCACHED_OK, datalen, (bin_key key m)\<lparr>mc_flags := 0, mc_ttl := ucast (kv_bswap32 U (mem_word e0)),
          mc_cas := 0, mc_msglen := 0, mc_inc := 0, mc_data := None\<rparr>) })"

definition parse_bin_incr :: "kv_util \<Rightarrow> bin_hdr \<Rightarrow> byte list \<Rightarrow> mc_msg \<Rightarrow> (memcached_status \<times> nat \<times> mc_msg) option" where
  "parse_bin_incr U b p m =
     (let keylen = unat (kv_bswap16 U (bh_keylen b)); datalen = unat (kv_bswap32 U (bh_datalen b));
          exlen = unat (bh_extralen b) in
      if datalen > length p then Some (MEMCACHED_MSG_PARTIAL, length p, m)
      else if datalen \<noteq> keylen + exlen \<or> keylen = 0 \<or> exlen \<noteq> 20 then Some (MEMCACHED_BAD_BIN_ARGS, datalen, m)
      else do {
        e0 \<leftarrow> read_at 0 8 p;
        e1 \<leftarrow> read_at 8 8 p;
        e2 \<leftarrow> read_at 16 4 p;
        key \<leftarrow> read_at 20 keylen p;
        Some (MEMCACHED_OK, datalen, (bin_key key m)\<lparr>mc_flags := 0, mc_inc := kv_bswap64 U (mem_word e0),
          mc_ini := kv_bswap64 U (mem_word e1), mc_ttl := ucast (kv_bswap32 U (mem_word e2)), mc_msglen := 0,
          mc_data := None\<rparr>) })"

definition parse_bin_op :: "kv_util \<Rightarrow> bin_hdr \<Rightarrow> nat \<Rightarrow> byte list \<Rightarrow> mc_msg \<Rightarrow> (memcached_status \<times> nat \<times> mc_msg) option" where
  "parse_bin_op U b extra_sz p m =
     (let keylen = unat (kv_bswap16 U (bh_keylen b)); datalen = unat (kv_bswap32 U (bh_datalen b));
          exlen = unat (bh_extralen b) in
      if datalen > length p then Some (MEMCACHED_MSG_PARTIAL, length p, m)
      else if datalen \<noteq> extra_sz \<or> keylen \<noteq> 0 \<or> exlen \<noteq> extra_sz then Some (MEMCACHED_BAD_BIN_ARGS, datalen, m)
      else do {
        ttl \<leftarrow> (if extra_sz = 4 then map_option (\<lambda>e. ucast (kv_bswap32 U (mem_word e))) (read_at 0 4 p) else Some 0);
        Some (MEMCACHED_OK, datalen, m\<lparr>mc_args := [], mc_keycnt := 0, mc_first := 0, mc_flags := 0, mc_inc := 0,
          mc_ttl := ttl, mc_msglen := 0, mc_data := None\<rparr>) })"

text \<open>The switch over the command of the opcode, and what becomes of an error: the message of a binary
  request that cannot be parsed carries the status to the reply.\<close>

definition parse_bin :: "kv_util \<Rightarrow> bin_hdr \<Rightarrow> byte list \<Rightarrow> mc_msg \<Rightarrow> (memcached_status \<times> nat \<times> mc_msg) option" where
  "parse_bin U b p m =
     (case command m of
        Some c \<Rightarrow>
          if c \<in> {MC_SET, MC_ADD, MC_REPLACE} then parse_bin_store U b p m
          else if c \<in> {MC_APPEND, MC_PREPEND} then parse_bin_pend U b p m
          else if c \<in> {MC_DELETE, MC_GET} then parse_bin_retr U b p m
          else if c \<in> {MC_GAT, MC_TOUCH} then parse_bin_touch U b p m
          else if c \<in> {MC_DECR, MC_INCR} then parse_bin_incr U b p m
          else if c \<in> {MC_FLUSH_ALL, MC_VERBOSITY} then parse_bin_op U b 4 p m
          else if c \<in> {MC_VERSION, MC_QUIT, MC_NO_OP} then parse_bin_op U b 0 p m
          else map_option (\<lambda>(st, r). (if st = MEMCACHED_OK then MEMCACHED_BAD_BIN_CMD else st, r)) (parse_bin_op U b 0 p m)
      | None \<Rightarrow> map_option (\<lambda>(st, r). (if st = MEMCACHED_OK then MEMCACHED_BAD_BIN_CMD else st, r)) (parse_bin_op U b 0 p m))"

definition unpack_bin :: "kv_util \<Rightarrow> byte list \<Rightarrow> nat \<Rightarrow> mc_msg \<Rightarrow> (memcached_status \<times> nat \<times> mc_msg) option" where
  "unpack_bin U b j m =
     (if length b - j < 24 then Some (MEMCACHED_MSG_PARTIAL, length b, m)
      else do {
        let h = bin_hdr_of (take 24 (drop j b));
        let m1 = m\<lparr>mc_opcode := bh_opcode h, mc_opaque := bh_opaque h, mc_cmd := op_cmd (bh_opcode h) OR MC_BINARY\<rparr>;
        (r, n, m2) \<leftarrow> parse_bin U h (drop (j + 24) b) m1;
        Some (if r = MEMCACHED_MSG_PARTIAL then (MEMCACHED_MSG_PARTIAL, length b, m2)
          else (MEMCACHED_OK, j + 24 + n,
            if mc_status_code r \<ge> mc_status_code MEMCACHED_BAD_BIN_ARGS
            then m2\<lparr>mc_cmd := MC_BINARY, mc_res := mc_status_code r\<rparr> else m2)) })"

section \<open>Text requests\<close>

text \<open>\<open>C4_KW\<close>: four letters with the bit of the lower case masked.\<close>

definition c4_kw :: "byte list \<Rightarrow> byte list" where
  "c4_kw s = map (\<lambda>c. c AND 0xdf) (take 4 s)"

definition mc_keywords :: "(byte list \<times> memcached_cmd) list" where
  "mc_keywords = map (\<lambda>(w, c). (c4_kw (ascii w), c))
     [(''SET '', MC_SET), (''ADD '', MC_ADD), (''APPE'', MC_APPEND), (''REPL'', MC_REPLACE), (''PREP'', MC_PREPEND),
      (''CAS '', MC_CAS), (''GET '', MC_GET), (''GETS'', MC_GETS), (''GAT '', MC_GAT), (''GATS'', MC_GATS),
      (''DELE'', MC_DELETE), (''TOUC'', MC_TOUCH), (''DECR'', MC_DECR), (''INCR'', MC_INCR), (''SLAB'', MC_SLABS),
      (''LRU '', MC_LRU), (''LRU_'', MC_LRU_CRAWLER), (''WATC'', MC_WATCH), (''STAT'', MC_STATS), (''FLUS'', MC_FLUSH_ALL),
      (''CACH'', MC_CACHE_MEMLIMIT), (''VERS'', MC_VERSION), (''QUIT'', MC_QUIT), (''NO_O'', MC_NO_OP)]"

definition parse_args :: "memcached_cmd \<Rightarrow> mc_msg \<Rightarrow> memcached_status \<times> mc_msg" where
  "parse_args c m =
     (if c \<in> {MC_SET, MC_ADD, MC_APPEND, MC_REPLACE, MC_PREPEND} then parse_store m
      else if c = MC_CAS then parse_cas m
      else if c \<in> {MC_GET, MC_GETS} then parse_retr m
      else if c \<in> {MC_GAT, MC_GATS} then parse_gat m
      else if c = MC_DELETE then parse_del m
      else if c = MC_TOUCH then parse_touch m
      else if c \<in> {MC_DECR, MC_INCR} then parse_incr m
      else (MEMCACHED_OK, m))"

text \<open>Where the next request starts: lines of spaces are skipped. A line of text is given by its first
  byte that is no space, its end, and the place behind its line feed.\<close>

datatype mc_line = NeedMore | BinAt nat | TextAt nat nat nat

definition find_lf :: "byte list \<Rightarrow> nat \<Rightarrow> nat option" where
  "find_lf b j = (let e = j + length (takeWhile (\<lambda>c. c \<noteq> LF) (drop j b)) in if e < length b then Some e else None)"

text \<open>The end of a line without its line end, and its first byte that is no space.\<close>

definition line_end :: "byte list \<Rightarrow> nat \<Rightarrow> nat" where
  "line_end b e = (if e > 0 \<and> b ! (e - 1) = CR then e - 1 else e)"

definition skip_spaces :: "byte list \<Rightarrow> nat \<Rightarrow> nat \<Rightarrow> nat" where
  "skip_spaces b j i = j + length (takeWhile (\<lambda>c. c = SP) (take (i - j) (drop j b)))"

function scan_request :: "byte list \<Rightarrow> nat \<Rightarrow> mc_line" where
  "scan_request b j =
     (if j \<ge> length b then NeedMore
      else if b ! j = 0x80 then BinAt j
      else (case find_lf b j of None \<Rightarrow> NeedMore
        | Some e \<Rightarrow> if skip_spaces b j (line_end b e) = line_end b e then scan_request b (e + 1)
            else TextAt (skip_spaces b j (line_end b e)) (line_end b e) (e + 1)))"
  by pat_completeness auto
termination
  by (relation "measure (\<lambda>(b, j). length b - j)") (auto simp: find_lf_def Let_def split: if_splits)

declare scan_request.simps [simp del]

text \<open>The data of a store command behind its line, and the line end behind the data: two bytes that
  are, as \<open>char\<close>, below the space.\<close>

definition control_char :: "byte \<Rightarrow> bool" where
  "control_char c \<longleftrightarrow> sint c < 32"

definition unpack_data :: "byte list \<Rightarrow> nat \<Rightarrow> nat \<Rightarrow> mc_msg \<Rightarrow> memcached_status \<times> nat \<times> mc_msg" where
  "unpack_data b j left m =
     (let n = unat (mc_msglen m) in
      if left < n then (MEMCACHED_MSG_PARTIAL, j, m)
      else
        let eat = (if left - n > 0 \<and> control_char (b ! (j + n))
                   then if left - n > 1 \<and> control_char (b ! (j + n + 1)) then 2 else 1 else 0) in
        (MEMCACHED_OK, j + n + eat, m\<lparr>mc_data := Some (take n (drop j b))\<rparr>))"

definition unpack_text :: "bool \<Rightarrow> byte list \<Rightarrow> nat \<Rightarrow> nat \<Rightarrow> nat \<Rightarrow> mc_msg \<Rightarrow> (memcached_status \<times> nat \<times> mc_msg) option" where
  "unpack_text ok b k i j m =
     (let line = take (i - k) (drop k b); w = takeWhile (\<lambda>c. c \<noteq> SP) line in
      if w = line \<and> length w < 4 then Some (MEMCACHED_EMPTY, j, m)
      else do {
        s \<leftarrow> read_at k 4 b;
        args \<leftarrow> parse_mcargs ok (drop (length w) line);
        let m1 = m\<lparr>mc_args := args\<rparr>;
        (case map_of mc_keywords (c4_kw s) of
           None \<Rightarrow> Some (MEMCACHED_BAD_CMD, j, m1\<lparr>mc_cmd := cmd_code MC_NONE\<rparr>)
         | Some c \<Rightarrow>
           (case parse_args c (m1\<lparr>mc_cmd := cmd_code c\<rparr>) of (r, m2) \<Rightarrow>
              Some (if r = MEMCACHED_OK \<and> c \<in> {MC_SET, MC_ADD, MC_APPEND, MC_REPLACE, MC_PREPEND, MC_CAS}
                then unpack_data b j (if w = line then 0 else length b - j) m2
                else (r, j, m2)))) })"

text \<open>\<open>MemcachedMsg::unpack\<close>: the status, the length the caller goes on by, and the message.\<close>

definition mc_unpack :: "kv_util \<Rightarrow> bool \<Rightarrow> byte list \<Rightarrow> mc_msg \<Rightarrow> (memcached_status \<times> nat \<times> mc_msg) option" where
  "mc_unpack U ok b m =
     (let m1 = m\<lparr>mc_cmd := cmd_code MC_NONE\<rparr> in
      case scan_request b 0 of
        NeedMore \<Rightarrow> Some (MEMCACHED_MSG_PARTIAL, length b, m1)
      | BinAt j \<Rightarrow> unpack_bin U b j m1
      | TextAt k i j \<Rightarrow> unpack_text ok b k i j m1)"

text \<open>\<open>MemcachedExec::unpack\<close>: a message out of the memory of the stream, of which some fields are set.\<close>

definition fresh_msg :: "mc_msg \<Rightarrow> mc_msg" where
  "fresh_msg m = m\<lparr>mc_cmd := 0, mc_opcode := 0, mc_res := 0, mc_pad := 0xaa, mc_opaque := 0, mc_ini := 0, mc_keycnt := 0\<rparr>"

definition exec_unpack :: "kv_util \<Rightarrow> bool \<Rightarrow> bool \<Rightarrow> byte list \<Rightarrow> mc_msg \<Rightarrow> (memcached_status \<times> nat \<times> mc_msg) option" where
  "exec_unpack U strm_ok ok b m =
     (if strm_ok then mc_unpack U ok b (fresh_msg m) else Some (MEMCACHED_ALLOC_FAIL, length b, m))"

section \<open>Lemmas on the codes\<close>

lemma mc_code_simps [simp]:
  "cmd_code MC_NONE = 0" "cmd_code MC_SET = 1" "cmd_code MC_ADD = 2" "cmd_code MC_REPLACE = 3" "cmd_code MC_APPEND = 4"
  "cmd_code MC_PREPEND = 5" "cmd_code MC_CAS = 6" "cmd_code MC_GET = 7" "cmd_code MC_GETS = 8" "cmd_code MC_DELETE = 9"
  "cmd_code MC_INCR = 10" "cmd_code MC_DECR = 11" "cmd_code MC_TOUCH = 12" "cmd_code MC_GAT = 13" "cmd_code MC_GATS = 14"
  "cmd_code MC_SLABS = 15" "cmd_code MC_LRU = 16" "cmd_code MC_LRU_CRAWLER = 17" "cmd_code MC_WATCH = 18"
  "cmd_code MC_STATS = 19" "cmd_code MC_FLUSH_ALL = 20" "cmd_code MC_CACHE_MEMLIMIT = 21" "cmd_code MC_VERSION = 22"
  "cmd_code MC_QUIT = 23" "cmd_code MC_NO_OP = 24" "cmd_code MC_VERBOSITY = 25"
  by (simp_all add: cmd_code_def mc_commands_def)

lemma cmd_code_masked: "cmd_code c AND 31 = cmd_code c" "cmd_code c AND 32 = 0" "cmd_code c AND 128 = 0"
  by (cases c; simp)+

lemma nth_cmd_code: "mc_commands ! unat (cmd_code c) = c" "unat (cmd_code c) < length mc_commands"
  by (cases c; simp add: mc_commands_def)+

lemma command_flags:
  assumes "mc_cmd m = cmd_code c OR f" "f AND 31 = 0"
  shows "command m = Some c"
proof -
  have "mc_cmd m AND 31 = cmd_code c" using assms by (simp add: bit.conj_disj_distrib2 cmd_code_masked)
  then show ?thesis by (simp add: command_def MC_CMD_MASK_def nth_cmd_code)
qed

lemma mc_status_code_simps [simp]:
  "mc_status_code MEMCACHED_OK = 0" "mc_status_code MEMCACHED_SUCCESS = 4" "mc_status_code MEMCACHED_BAD_BIN_ARGS = 19"
  "mc_status_code MEMCACHED_BAD_BIN_CMD = 20" "mc_status_code MEMCACHED_BAD_RESULT = 21"
  by (simp_all add: mc_status_code_def mc_statuses_def)

section \<open>Words\<close>

definition plain_word :: "byte list \<Rightarrow> bool" where
  "plain_word w \<longleftrightarrow> w \<noteq> [] \<and> SP \<notin> set w \<and> CR \<notin> set w \<and> LF \<notin> set w"

definition args_text :: "byte list list \<Rightarrow> byte list" where
  "args_text ws = concat (map (\<lambda>w. SP # w) ws)"

lemma takeWhile_no: "SP \<notin> set w \<Longrightarrow> takeWhile (\<lambda>c. c \<noteq> SP) (w @ r) = w @ takeWhile (\<lambda>c. c \<noteq> SP) r"
  by (induction w) auto

lemma dropWhile_no: "SP \<notin> set w \<Longrightarrow> dropWhile (\<lambda>c. c \<noteq> SP) (w @ r) = dropWhile (\<lambda>c. c \<noteq> SP) r"
  by (induction w) auto

lemma args_text_word: "takeWhile (\<lambda>c. c \<noteq> SP) (args_text ws) = []" "dropWhile (\<lambda>c. c \<noteq> SP) (args_text ws) = args_text ws"
  by (cases ws; simp add: args_text_def)+

lemma skip_args_text: "\<forall>w \<in> set ws. plain_word w \<Longrightarrow> ws \<noteq> []
    \<Longrightarrow> dropWhile (\<lambda>c. c = SP) (args_text ws) = hd ws @ args_text (tl ws)"
proof (cases ws)
  case (Cons w ws')
  moreover assume "\<forall>w \<in> set ws. plain_word w"
  ultimately have "plain_word w" by simp
  then obtain c w' where "w = c # w'" "c \<noteq> SP" by (cases w) (auto simp: plain_word_def)
  with Cons show ?thesis by (simp add: args_text_def)
qed simp

lemma mcargs_loop_words:
  assumes "\<forall>w \<in> set ws. plain_word w" "ws \<noteq> []" "length args < incr"
  shows "mcargs_loop True incr args (hd ws @ args_text (tl ws)) = Some (args @ ws)"
  using assms
proof (induction ws arbitrary: incr args)
  case (Cons w ws)
  then have w: "plain_word w" by simp
  then obtain c w' where c: "w = c # w'" "SP \<notin> set w'" by (cases w) (auto simp: plain_word_def)
  show ?case
  proof (cases "ws = []")
    case True
    have tw: "takeWhile (\<lambda>c. c \<noteq> SP) w' = w'" "dropWhile (\<lambda>c. c \<noteq> SP) w' = []"
      using takeWhile_no [OF c(2), of "[]"] dropWhile_no [OF c(2), of "[]"] by simp_all
    show ?thesis using Cons.prems(3) c(1) True
      by (subst mcargs_loop.simps) (simp add: tw args_text_def Let_def del: dropWhile_eq_Nil_conv takeWhile_eq_all_conv)
  next
    case False
    let ?r = "hd ws @ args_text (tl ws)"
    have r: "dropWhile (\<lambda>c. c = SP) (args_text ws) = ?r" using skip_args_text Cons.prems(1) False by simp
    have ne: "hd ws \<noteq> []" using Cons.prems(1) False by (cases ws) (auto simp: plain_word_def)
    have step: "mcargs_loop True i (args @ [w]) ?r = Some ((args @ [w]) @ ws)" if "length (args @ [w]) < i" for i
      using Cons.IH [OF _ False that] Cons.prems(1) by simp
    have grow: "length (args @ [w]) < incr + (if incr = 1 then ((length ?r div 8) OR 3) + 1 else 16)"
      if "length (args @ [w]) = incr" using that by simp
    show ?thesis
      using Cons.prems(3) c step [of incr] step [OF grow] ne
      by (subst mcargs_loop.simps) (simp add: takeWhile_no dropWhile_no args_text_word r Let_def)
  qed
qed simp

lemma parse_mcargs_words:
  assumes "\<forall>w \<in> set ws. plain_word w"
  shows "parse_mcargs True (args_text ws) = Some ws"
proof (cases "ws = []")
  case False
  then obtain w ws' where "ws = w # ws'" by (cases ws) auto
  then show ?thesis using assms skip_args_text [OF assms False] mcargs_loop_words [OF assms False, of "[]" 1]
    by (simp add: parse_mcargs_def plain_word_def)
qed (simp add: parse_mcargs_def args_text_def)

text \<open>The array never overflows, whatever the line.\<close>

lemma mcargs_loop_some: "length args < incr \<Longrightarrow> s \<noteq> [] \<Longrightarrow> \<exists>r. mcargs_loop ok incr args s = Some r"
proof (induction ok incr args s rule: mcargs_loop.induct)
  case (1 ok incr args s)
  let ?w = "hd s # takeWhile (\<lambda>c. c \<noteq> SP) (tl s)"
  let ?r = "dropWhile (\<lambda>c. c = SP) (dropWhile (\<lambda>c. c \<noteq> SP) (tl s))"
  let ?a = "args @ [?w]"
  have ok: "\<not> (incr \<le> length args \<or> s = [])" using "1.prems" by simp
  note step = mcargs_loop.simps [of ok incr args s, unfolded Let_def]
  show ?case
  proof (cases "?r = []")
    case True
    then show ?thesis unfolding step using ok by (simp del: dropWhile_eq_Nil_conv)
  next
    case False
    show ?thesis
    proof (cases "length ?a = incr")
      case True
      show ?thesis
      proof (cases ok)
        case True
        let ?i = "incr + (if incr = 1 then ((length ?r div 8) OR 3) + 1 else 16)"
        have "length ?a < ?i" using \<open>length ?a = incr\<close> by simp
        then have "\<exists>r. mcargs_loop True ?i ?a ?r = Some r"
          using "1.IH"(1) [OF ok refl refl refl False \<open>length ?a = incr\<close> True _ False] True by simp
        then show ?thesis unfolding step using ok False \<open>length ?a = incr\<close> True by (simp del: dropWhile_eq_Nil_conv)
      next
        case no: False
        then show ?thesis unfolding step using ok False True by (simp del: dropWhile_eq_Nil_conv)
      qed
    next
      case other: False
      have "length ?a < incr" using "1.prems" other by simp
      then have "\<exists>r. mcargs_loop ok incr ?a ?r = Some r"
        by (rule "1.IH"(2) [OF ok refl refl refl False other _ False])
      then show ?thesis unfolding step using ok False other by (simp del: dropWhile_eq_Nil_conv)
    qed
  qed
qed

lemma parse_mcargs_some: "\<exists>r. parse_mcargs ok s = Some r"
  using mcargs_loop_some [of "[]" 1 "dropWhile (\<lambda>c. c = SP) s" ok] by (auto simp: parse_mcargs_def Let_def)

section \<open>The scan for a request\<close>

lemma find_lf_bounds: "find_lf b j = Some e \<Longrightarrow> j \<le> e \<and> e < length b \<and> b ! e = LF"
proof -
  assume f: "find_lf b j = Some e"
  let ?n = "length (takeWhile (\<lambda>c. c \<noteq> LF) (drop j b))"
  have e: "e = j + ?n" "e < length b" using f by (auto simp: find_lf_def Let_def split: if_splits)
  then have "?n < length (drop j b)" by simp
  from nth_length_takeWhile [OF this] e show ?thesis by simp
qed

lemma find_lf_line: "LF \<notin> set l \<Longrightarrow> find_lf (p @ l @ LF # r) (length p) = Some (length p + length l)"
proof -
  assume l: "LF \<notin> set l"
  then have "\<And>x. x \<in> set l \<Longrightarrow> x \<noteq> LF" by auto
  then have "takeWhile (\<lambda>c. c \<noteq> LF) (l @ LF # r) = l" by (simp add: takeWhile_append2)
  then show ?thesis by (simp add: find_lf_def)
qed

lemma find_lf_none: "LF \<notin> set b \<Longrightarrow> find_lf b j = None"
proof -
  assume b: "LF \<notin> set b"
  then have "\<forall>x \<in> set (drop j b). x \<noteq> LF" using in_set_dropD by fastforce
  then have "takeWhile (\<lambda>c. c \<noteq> LF) (drop j b) = drop j b" by (simp add: takeWhile_eq_all_conv)
  then show ?thesis by (auto simp: find_lf_def Let_def simp del: takeWhile_eq_all_conv)
qed

lemma skip_spaces_bounds:
  assumes "j \<le> i" "i \<le> length b"
  shows "skip_spaces b j i \<le> i" "skip_spaces b j i \<noteq> i \<Longrightarrow> b ! skip_spaces b j i \<noteq> SP"
proof -
  let ?l = "take (i - j) (drop j b)" and ?n = "length (takeWhile (\<lambda>c. c = SP) (take (i - j) (drop j b)))"
  have l: "length ?l = i - j" using assms by simp
  moreover have "?n \<le> length ?l" by (rule length_takeWhile_le)
  ultimately show le: "skip_spaces b j i \<le> i" using assms by (simp add: skip_spaces_def)
  assume "skip_spaces b j i \<noteq> i"
  then have "?n < length ?l" using le l assms by (simp add: skip_spaces_def)
  from nth_length_takeWhile [OF this] this l assms show "b ! skip_spaces b j i \<noteq> SP"
    by (simp add: skip_spaces_def)
qed

lemmas scan_request_step = scan_request.simps

text \<open>Scans start at the front or behind a line feed.\<close>

definition at_start :: "byte list \<Rightarrow> nat \<Rightarrow> bool" where
  "at_start b j \<longleftrightarrow> j = 0 \<or> b ! (j - 1) = LF"

lemma line_end_bounds: "at_start b j \<Longrightarrow> j \<le> e \<Longrightarrow> e < length b \<Longrightarrow> j \<le> line_end b e \<and> line_end b e \<le> e"
  by (cases "j = e") (auto simp: at_start_def line_end_def)

lemma scan_request_text:
  "at_start b j \<Longrightarrow> scan_request b j = TextAt k i n \<Longrightarrow>
     j \<le> k \<and> k < i \<and> i < n \<and> n \<le> length b \<and> b ! (n - 1) = LF \<and> b ! k \<noteq> SP \<and> i = line_end b (n - 1)"
proof (induction b j rule: scan_request.induct)
  case (1 b j)
  then have j: "\<not> length b \<le> j" "b ! j \<noteq> 0x80" by (auto simp: scan_request_step [of b j] split: if_splits)
  then obtain e where e: "find_lf b j = Some e"
    using "1.prems" by (auto simp: scan_request_step [of b j] split: option.splits)
  note eb = find_lf_bounds [OF e]
  have l: "j \<le> line_end b e" "line_end b e \<le> e" using line_end_bounds "1.prems"(1) eb by blast+
  let ?k = "skip_spaces b j (line_end b e)"
  have k: "?k \<le> line_end b e" "?k \<noteq> line_end b e \<Longrightarrow> b ! ?k \<noteq> SP"
    using skip_spaces_bounds [OF l(1)] l(2) eb by auto
  show ?case
  proof (cases "?k = line_end b e")
    case True
    then have s: "scan_request b (e + 1) = TextAt k i n" using "1.prems" j e by (simp add: scan_request_step [of b j])
    have "at_start b (e + 1)" using eb by (simp add: at_start_def)
    then have "e + 1 \<le> k \<and> k < i \<and> i < n \<and> n \<le> length b \<and> b ! (n - 1) = LF \<and> b ! k \<noteq> SP \<and> i = line_end b (n - 1)"
      using "1.IH" [OF j e, OF True _ s] by simp
    then show ?thesis using eb by simp
  next
    case False
    then have "k = ?k" "i = line_end b e" "n = e + 1"
      using "1.prems"(2) j e by (auto simp: scan_request_step [of b j])
    then show ?thesis using k False l eb by (auto simp: skip_spaces_def)
  qed
qed

lemma scan_request_bin: "scan_request b j = BinAt k \<Longrightarrow> k < length b"
proof (induction b j rule: scan_request.induct)
  case (1 b j)
  show ?case
  proof (cases "length b \<le> j \<or> b ! j = 0x80")
    case True
    then show ?thesis using "1.prems" by (auto simp: scan_request_step [of b j] split: if_splits)
  next
    case False
    then have j: "\<not> length b \<le> j" "b ! j \<noteq> 0x80" by simp_all
    then obtain e where e: "find_lf b j = Some e" and
      s: "skip_spaces b j (line_end b e) = line_end b e" "scan_request b (e + 1) = BinAt k"
      using "1.prems" by (auto simp: scan_request_step [of b j] split: option.splits if_splits)
    from "1.IH" [OF j e, OF s] show ?thesis .
  qed
qed

section \<open>The decoder stays inside its buffer\<close>

lemma read_at_some [simp]: "i + n \<le> length p \<Longrightarrow> read_at i n p = Some (take n (drop i p))"
  by (simp add: read_at_def)

definition bin_result :: "byte list \<Rightarrow> (memcached_status \<times> nat \<times> mc_msg) option \<Rightarrow> bool" where
  "bin_result p r \<longleftrightarrow> (\<exists>st n m. r = Some (st, n, m) \<and> (n \<le> length p \<or> st = MEMCACHED_BAD_BIN_ARGS))"

lemma bin_parsers:
  "bin_result p (parse_bin_store U b p m)" "bin_result p (parse_bin_pend U b p m)" "bin_result p (parse_bin_retr U b p m)"
  "bin_result p (parse_bin_touch U b p m)" "bin_result p (parse_bin_incr U b p m)"
  by (auto simp: bin_result_def parse_bin_store_def parse_bin_pend_def parse_bin_retr_def parse_bin_touch_def
      parse_bin_incr_def Let_def)

lemma bin_op: "bin_result p (parse_bin_op U b x p m)"
  by (auto simp: bin_result_def parse_bin_op_def Let_def)

lemma bin_result_map:
  "bin_result p r \<Longrightarrow> bin_result p (map_option (\<lambda>(st, x). (if st = MEMCACHED_OK then MEMCACHED_BAD_BIN_CMD else st, x)) r)"
  by (cases r; cases "fst (the r) = MEMCACHED_OK") (auto simp: bin_result_def)

lemma bin_parse: "bin_result p (parse_bin U b p m)"
  by (simp add: parse_bin_def bin_parsers bin_op bin_result_map split: option.splits)

lemma unpack_bin_bounds:
  "j < length b \<Longrightarrow> \<exists>st n m'. unpack_bin U b j m = Some (st, n, m')
     \<and> (n \<le> length b \<or> mc_cmd m' = MC_BINARY \<and> mc_res m' = mc_status_code MEMCACHED_BAD_BIN_ARGS)"
proof -
  assume "j < length b"
  let ?h = "bin_hdr_of (take 24 (drop j b))"
  let ?m = "m\<lparr>mc_opcode := bh_opcode ?h, mc_opaque := bh_opaque ?h, mc_cmd := op_cmd (bh_opcode ?h) OR MC_BINARY\<rparr>"
  obtain st n m' where "parse_bin U ?h (drop (j + 24) b) ?m = Some (st, n, m')"
    "n \<le> length b - (j + 24) \<or> st = MEMCACHED_BAD_BIN_ARGS"
    using bin_parse [of "drop (j + 24) b" U ?h ?m] by (auto simp: bin_result_def)
  then show ?thesis by (auto simp: unpack_bin_def Let_def)
qed

lemma unpack_data_bounds: "j \<le> length b \<Longrightarrow> left = 0 \<or> left = length b - j \<Longrightarrow> fst (snd (unpack_data b j left m)) \<le> length b"
  by (auto simp: unpack_data_def Let_def)

lemma unpack_text_cases:
  assumes "k < i" "i < n" "n \<le> length b" "b ! (n - 1) = LF" "b ! k \<noteq> SP"
  shows "(case unpack_text ok b k i n m of None \<Rightarrow> \<exists>p c. b = p @ [c, SP, LF] | Some (st, l, m') \<Rightarrow> l \<le> length b)"
proof -
  let ?line = "take (i - k) (drop k b)"
  let ?w = "takeWhile (\<lambda>c. c \<noteq> SP) ?line"
  have len: "length ?line = i - k" using assms by simp
  have fit: "k + 4 \<le> length b \<or> (\<exists>p c. b = p @ [c, SP, LF])" if "\<not> (?w = ?line \<and> length ?w < 4)"
  proof (cases "?w = ?line")
    case True
    have "length ?w = i - k" using arg_cong [OF True, of length] len by (simp only:)
    then have "4 \<le> i - k" using that True by (auto simp only:)
    then have "k + 4 \<le> length b" using assms(1-3) by linarith
    then show ?thesis ..
  next
    case False
    then have l: "length ?w < length ?line"
      by (metis le_neq_implies_less length_takeWhile_le takeWhile_eq_take take_all_iff)
    have sp: "?line ! length ?w = SP" using nth_length_takeWhile [OF l] by simp
    have "?line ! 0 \<noteq> SP" using assms by simp
    then have pos: "0 < length ?w" using sp by (metis gr0I)
    show ?thesis
    proof (cases "k + 4 \<le> length b")
      case False
      then have e: "length ?w = 1" "i = k + 2" "n = k + 3" "length b = k + 3" using assms l len pos by linarith+
      then have "n - 1 = k + 2" by simp
      then have s: "b ! (k + 1) = SP" "b ! (k + 2) = LF" using e sp assms(3,4) by (simp_all add: numeral_eq_Suc)
      have "b = take k b @ drop k b" by simp
      also have "drop k b = [b ! k, b ! (k + 1), b ! (k + 2)]"
        using e(4) by (simp add: Cons_nth_drop_Suc [symmetric] numeral_eq_Suc)
      finally show ?thesis using s by metis
    qed simp
  qed
  show ?thesis
  proof (cases "?w = ?line \<and> length ?w < 4")
    case True
    then show ?thesis using assms by (simp add: unpack_text_def Let_def)
  next
    case no: False
    obtain args where a: "parse_mcargs ok (drop (length ?w) ?line) = Some args" using parse_mcargs_some by blast
    show ?thesis
    proof (cases "k + 4 \<le> length b")
      case True
      show ?thesis
      proof (cases "map_of mc_keywords (c4_kw (take 4 (drop k b)))")
        case None
        then show ?thesis using no a True assms(3) by (simp add: unpack_text_def Let_def)
      next
        case (Some c)
        obtain r m2 where p: "parse_args c (m\<lparr>mc_args := args, mc_cmd := cmd_code c\<rparr>) = (r, m2)" by force
        let ?left = "if ?w = ?line then 0 else length b - n"
        obtain st l m3 where u: "unpack_data b n ?left m2 = (st, l, m3)" by (metis prod_cases3)
        then have "l \<le> length b" using unpack_data_bounds [of n b ?left m2] assms(3) by auto
        then show ?thesis using no a True Some p u assms(3) by (auto simp: unpack_text_def Let_def)
      qed
    next
      case False
      then have "read_at k 4 b = None" by (simp add: read_at_def)
      moreover have "\<exists>p c. b = p @ [c, SP, LF]" using fit [OF no] False by blast
      ultimately show ?thesis using no assms(3) by (auto simp: unpack_text_def Let_def)
    qed
  qed
qed

lemma mc_unpack_bounds:
  "(case mc_unpack U ok b m of None \<Rightarrow> \<exists>p c. b = p @ [c, SP, LF]
    | Some (st, n, m') \<Rightarrow> n \<le> length b \<or> mc_cmd m' = MC_BINARY \<and> mc_res m' = mc_status_code MEMCACHED_BAD_BIN_ARGS)"
proof (cases "scan_request b 0")
  case (BinAt j)
  let ?m = "m\<lparr>mc_cmd := cmd_code MC_NONE\<rparr>"
  obtain st n m' where "unpack_bin U b j ?m = Some (st, n, m')"
    "n \<le> length b \<or> mc_cmd m' = MC_BINARY \<and> mc_res m' = mc_status_code MEMCACHED_BAD_BIN_ARGS"
    using unpack_bin_bounds [OF scan_request_bin [OF BinAt]] by blast
  then show ?thesis using BinAt by (auto simp: mc_unpack_def Let_def)
next
  case (TextAt k i n)
  have s: "k < i" "i < n" "n \<le> length b" "b ! (n - 1) = LF" "b ! k \<noteq> SP"
    using scan_request_text [OF _ TextAt] by (auto simp: at_start_def)
  from unpack_text_cases [OF this, of ok "m\<lparr>mc_cmd := cmd_code MC_NONE\<rparr>"]
  show ?thesis using TextAt by (auto simp: mc_unpack_def Let_def split: option.splits)
qed (simp add: mc_unpack_def)

section \<open>A text request\<close>

definition request_line :: "byte list \<Rightarrow> byte list list \<Rightarrow> byte list" where
  "request_line w ws = w @ args_text ws @ crlf"

lemma args_text_plain: "\<forall>w \<in> set ws. plain_word w \<Longrightarrow> LF \<notin> set (args_text ws) \<and> CR \<notin> set (args_text ws)"
  by (induction ws) (auto simp: args_text_def plain_word_def)

lemma request_line_ends:
  assumes "plain_word w" "\<forall>a \<in> set ws. plain_word a"
  shows "find_lf (request_line w ws @ rest) 0 = Some (length (w @ args_text ws) + 1)"
    "line_end (request_line w ws @ rest) (length (w @ args_text ws) + 1) = length (w @ args_text ws)"
    "take (length (w @ args_text ws)) (request_line w ws @ rest) = w @ args_text ws"
proof -
  let ?l = "w @ args_text ws" and ?b = "request_line w ws @ rest"
  have b: "?b = ?l @ CR # LF # rest" by (simp add: request_line_def crlf_def)
  have "LF \<notin> set (?l @ [CR])" using assms(1) args_text_plain [OF assms(2)] by (simp add: plain_word_def)
  from find_lf_line [OF this, of "[]" rest] show "find_lf ?b 0 = Some (length ?l + 1)" by (simp add: b)
  show "line_end ?b (length ?l + 1) = length ?l"
    using nth_append_length [of ?l CR "LF # rest"] by (simp add: line_end_def b)
  show "take (length ?l) ?b = ?l" by (simp add: request_line_def)
qed

lemma scan_request_line:
  assumes "plain_word w" "\<forall>a \<in> set ws. plain_word a" "hd w \<noteq> 0x80"
  shows "scan_request (request_line w ws @ rest) 0
    = TextAt 0 (length w + length (args_text ws)) (length (request_line w ws))"
proof -
  let ?l = "w @ args_text ws" and ?b = "request_line w ws @ rest"
  have b: "?b = ?l @ CR # LF # rest" by (simp add: request_line_def crlf_def)
  obtain c w' where w: "w = c # w'" "c \<noteq> SP" using assms(1) by (cases w) (auto simp: plain_word_def)
  have k: "skip_spaces ?b 0 (length ?l) = 0" unfolding b using w by (simp add: skip_spaces_def)
  have "?b ! 0 \<noteq> 0x80" "\<not> length ?b \<le> 0" unfolding b using w assms(3) by simp_all
  then show ?thesis using request_line_ends [OF assms(1,2), of rest] k w
    by (subst scan_request_step) (simp add: request_line_def)
qed

text \<open>What the decoder makes of a line of words, with what follows it in the buffer.\<close>

lemma unpack_words:
  assumes "plain_word w" "\<forall>a \<in> set ws. plain_word a" "ws \<noteq> []" "hd w \<noteq> 0x80" "3 \<le> length w"
    "map_of mc_keywords (c4_kw (w @ [SP])) = Some c"
    "parse_args c (m\<lparr>mc_args := ws, mc_cmd := cmd_code c\<rparr>) = (r, m2)"
  shows "mc_unpack U True (request_line w ws @ rest) m =
    Some (if r = MEMCACHED_OK \<and> c \<in> {MC_SET, MC_ADD, MC_APPEND, MC_REPLACE, MC_PREPEND, MC_CAS}
      then unpack_data (request_line w ws @ rest) (length (request_line w ws)) (length rest) m2
      else (r, length (request_line w ws), m2))"
proof -
  let ?l = "w @ args_text ws" and ?b = "request_line w ws @ rest"
  have line: "take (length w + length (args_text ws) - 0) (drop 0 ?b) = ?l" by (simp add: request_line_def)
  obtain a ws' where ws: "ws = a # ws'" using assms(3) by (cases ws) auto
  have tw: "takeWhile (\<lambda>c. c \<noteq> SP) ?l = w"
    using takeWhile_no [of w "args_text ws"] assms(1) by (simp add: plain_word_def args_text_word)
  have ne: "w \<noteq> ?l" by (simp add: ws args_text_def)
  have "take 4 ?b = take 4 (w @ SP # a @ args_text ws' @ crlf @ rest)" by (simp add: request_line_def ws args_text_def)
  also have "\<dots> = take 4 (w @ [SP])" using assms(5) by (simp add: take_Cons')
  finally have "c4_kw (take 4 ?b) = c4_kw (w @ [SP])" by (simp only: c4_kw_def take_take min.idem)
  then have kw: "c4_kw (take 4 (drop 0 ?b)) = c4_kw (w @ [SP])" by simp
  have four: "4 \<le> length ?b" using assms(5) by (simp add: request_line_def)
  have dl: "drop (length w) ?l = args_text ws" by simp
  define b where "b = ?b"
  have "scan_request b 0 = TextAt 0 (length ?l) (length (request_line w ws))"
    unfolding b_def scan_request_line [OF assms(1,2,4)] by simp
  moreover have "take (length ?l) b = ?l" "length b - length (request_line w ws) = length rest"
    unfolding b_def using line by simp_all
  ultimately show ?thesis
    using ne four kw assms(6,7) parse_mcargs_words [OF assms(2)] tw
    unfolding mc_unpack_def unpack_text_def b_def [symmetric]
    by (auto simp: Let_def simp del: takeWhile_eq_all_conv append_self_conv append_self_conv2)
qed

section \<open>Properties of the decoder\<close>

fun cmd_word :: "memcached_cmd \<Rightarrow> string" where
  "cmd_word MC_SET = ''SET''"
| "cmd_word MC_ADD = ''ADD''"
| "cmd_word MC_REPLACE = ''REPLACE''"
| "cmd_word MC_APPEND = ''APPEND''"
| "cmd_word MC_PREPEND = ''PREPEND''"
| "cmd_word MC_CAS = ''CAS''"
| "cmd_word MC_GET = ''GET''"
| "cmd_word MC_GETS = ''GETS''"
| "cmd_word MC_GAT = ''GAT''"
| "cmd_word MC_GATS = ''GATS''"
| "cmd_word MC_DELETE = ''DELETE''"
| "cmd_word MC_TOUCH = ''TOUCH''"
| "cmd_word MC_INCR = ''INCR''"
| "cmd_word MC_DECR = ''DECR''"
| "cmd_word _ = []"

text \<open>The word in any case.\<close>

definition word_of :: "memcached_cmd \<Rightarrow> byte list \<Rightarrow> bool" where
  "word_of c w \<longleftrightarrow> cmd_word c \<noteq> [] \<and> map (\<lambda>x. x AND 0xdf) w = ascii (cmd_word c)"

lemma word_of_letters: "word_of c w \<Longrightarrow> x \<in> set w \<Longrightarrow> x AND 0xdf \<notin> {0, 10, 13, 0x80}"
proof -
  assume w: "word_of c w" and "x \<in> set w"
  then have "x AND 0xdf \<in> set (ascii (cmd_word c))" by (metis word_of_def image_eqI set_map)
  then show ?thesis using w by (cases c) (auto simp: word_of_def)
qed

lemma word_of_plain:
  assumes "word_of c w"
  shows "plain_word w" "hd w \<noteq> 0x80" "3 \<le> length w" "map_of mc_keywords (c4_kw (w @ SP # r)) = Some c"
proof -
  have len: "length w = length (cmd_word c)" using assms unfolding word_of_def by (metis ascii_def length_map)
  then show three: "3 \<le> length w" using assms by (cases c) (auto simp: word_of_def)
  then have ne: "w \<noteq> []" by auto
  have "x AND 0xdf \<notin> {0, 10, 13, 0x80}" if "x \<in> set w" for x using word_of_letters [OF assms that] .
  moreover have "SP AND 0xdf = 0" "CR AND 0xdf = 13" "LF AND 0xdf = 10" "(0x80 :: byte) AND 0xdf = 0x80" by simp_all
  ultimately have "x \<noteq> SP \<and> x \<noteq> CR \<and> x \<noteq> LF \<and> x \<noteq> 0x80" if "x \<in> set w" for x using that by blast
  then show "plain_word w" "hd w \<noteq> 0x80" using ne by (auto simp: plain_word_def)
  have "c4_kw (w @ SP # r) = take 4 (map (\<lambda>x. x AND 0xdf) w @ 0 # map (\<lambda>x. x AND 0xdf) r)"
    by (simp add: c4_kw_def take_map [symmetric])
  also have "map (\<lambda>x. x AND 0xdf) w = ascii (cmd_word c)" using assms by (simp add: word_of_def)
  finally show "map_of mc_keywords (c4_kw (w @ SP # r)) = Some c"
    using assms by (cases c) (simp_all add: word_of_def mc_keywords_def c4_kw_def)
qed

lemma dec_nat_plain: "plain_word (dec_nat n)"
  using dec_nat_digits [of SP n] dec_nat_digits [of CR n] dec_nat_digits [of LF n] by (auto simp: plain_word_def is_digit_def)

lemma get_u64_dec: "n < 2 ^ 64 \<Longrightarrow> get_u64 (dec_nat n) = Inr (of_nat n)"
  by (simp add: get_u64_def string_to_uint_dec_nat)

lemma get_u64_word: "get_u64 (dec_nat (unat v)) = Inr v"
  using get_u64_dec [of "unat v"] unsigned_less [of v] by simp

lemma get_u32_word: "get_u32 (dec_nat (unat v)) = Inr v"
proof -
  have b: "unat v < 2 ^ 32" using unsigned_less [of v] by simp
  then have "get_u64 (dec_nat (unat v)) = Inr (of_nat (unat v))" by (intro get_u64_dec) simp
  moreover have u: "unat (of_nat (unat v) :: u64) = unat v" using b by (intro u64_of_nat_inverse) simp
  moreover have "\<not> (of_nat (unat v) :: u64) > 0xffffffff"
    unfolding word_less_nat_alt u using b by simp
  moreover have "ucast (of_nat (unat v) :: u64) = v"
    unfolding word_unat_eq_iff unsigned_ucast_eq u using take_bit_nat_eq_self [OF b] by simp
  ultimately show ?thesis by (simp add: get_u32_def)
qed

text \<open>The line of a store command: the fields of SET, and a word more to be quiet.\<close>

definition store_line :: "byte list \<Rightarrow> byte list \<Rightarrow> u32 \<Rightarrow> u64 \<Rightarrow> nat \<Rightarrow> byte list option \<Rightarrow> byte list" where
  "store_line w key flags ttl len quiet =
     request_line w ([key, dec_nat (unat flags), dec_nat (unat ttl), dec_nat len] @ (case quiet of None \<Rightarrow> [] | Some q \<Rightarrow> [q]))"

definition store_msg :: "memcached_cmd \<Rightarrow> byte list \<Rightarrow> u32 \<Rightarrow> u64 \<Rightarrow> byte list \<Rightarrow> bool \<Rightarrow> mc_msg \<Rightarrow> bool" where
  "store_msg c key flags ttl data quiet m \<longleftrightarrow> command m = Some c \<and> is_quiet m = quiet \<and> \<not> is_binary m
     \<and> mc_args m \<noteq> [] \<and> mc_args m ! 0 = key \<and> mc_first m = 0 \<and> mc_keycnt m = 1 \<and> mc_flags m = flags \<and> mc_ttl m = ttl \<and> mc_cas m = 0
     \<and> mc_msglen m = of_nat (length data) \<and> mc_data m = Some data \<and> mc_pad m = 0xaa"

lemma parse_store_words:
  assumes "len < 2 ^ 64" "mc_args m = [key, dec_nat (unat flags), dec_nat (unat ttl), dec_nat len] @ (case quiet of None \<Rightarrow> [] | Some q \<Rightarrow> [q])"
  shows "parse_store m = (MEMCACHED_OK, set_quiet (quiet \<noteq> None)
    (m\<lparr>mc_flags := flags, mc_ttl := ttl, mc_msglen := of_nat len, mc_keycnt := 1, mc_first := 0, mc_cas := 0, mc_inc := 0, mc_data := None\<rparr>))"
  using assms by (cases quiet)
    (simp_all add: parse_store_def arg_u32_def arg_u64_def get_u64_word get_u32_word get_u64_dec)

lemma cmd_quiet:
  "mc_cmd m = cmd_code c OR MC_QUIET \<Longrightarrow> command m = Some c \<and> is_quiet m \<and> \<not> is_binary m"
  using command_flags [of m c MC_QUIET]
  by (simp add: is_quiet_def is_binary_def MC_QUIET_def MC_BINARY_def bit.conj_disj_distrib2 cmd_code_masked)

lemma cmd_loud:
  "mc_cmd m = cmd_code c \<Longrightarrow> command m = Some c \<and> \<not> is_quiet m \<and> \<not> is_binary m"
  using command_flags [of m c 0]
  by (simp add: is_quiet_def is_binary_def MC_QUIET_def MC_BINARY_def cmd_code_masked)

definition store_cmds :: "memcached_cmd set" where
  "store_cmds = {MC_SET, MC_ADD, MC_REPLACE, MC_APPEND, MC_PREPEND}"

lemma unpack_store:
  assumes "c \<in> store_cmds" "word_of c w" "plain_word key" "\<forall>q \<in> set_option quiet. plain_word q" "len < 2 ^ 64"
  shows "mc_unpack U True (store_line w key flags ttl len quiet @ rest) m =
    Some (unpack_data (store_line w key flags ttl len quiet @ rest) (length (store_line w key flags ttl len quiet)) (length rest)
      (set_quiet (quiet \<noteq> None) (m\<lparr>mc_args := [key, dec_nat (unat flags), dec_nat (unat ttl), dec_nat len] @ (case quiet of None \<Rightarrow> [] | Some q \<Rightarrow> [q]),
         mc_cmd := cmd_code c, mc_flags := flags, mc_ttl := ttl, mc_msglen := of_nat len, mc_keycnt := 1, mc_first := 0,
         mc_cas := 0, mc_inc := 0, mc_data := None\<rparr>)))"
proof -
  let ?ws = "[key, dec_nat (unat flags), dec_nat (unat ttl), dec_nat len] @ (case quiet of None \<Rightarrow> [] | Some q \<Rightarrow> [q])"
  have ws: "\<forall>a \<in> set ?ws. plain_word a" "?ws \<noteq> []" using assms(3,4) by (auto simp: dec_nat_plain split: option.splits)
  have p: "parse_args c (m\<lparr>mc_args := ?ws, mc_cmd := cmd_code c\<rparr>) = (MEMCACHED_OK, set_quiet (quiet \<noteq> None)
    (m\<lparr>mc_args := ?ws, mc_cmd := cmd_code c, mc_flags := flags, mc_ttl := ttl, mc_msglen := of_nat len, mc_keycnt := 1,
       mc_first := 0, mc_cas := 0, mc_inc := 0, mc_data := None\<rparr>))"
    using assms(1) parse_store_words [OF assms(5), of "m\<lparr>mc_args := ?ws, mc_cmd := cmd_code c\<rparr>"]
    by (auto simp: parse_args_def store_cmds_def)
  show ?thesis
    using unpack_words [OF word_of_plain(1) [OF assms(2)] ws word_of_plain(2,3) [OF assms(2)]
      word_of_plain(4) [OF assms(2), of "[]"] p, of U rest] assms(1)
    unfolding store_line_def store_cmds_def by auto
qed

lemma store_line_last:
  assumes "word_of c w" "plain_word key" "\<forall>q \<in> set_option quiet. plain_word q"
  obtains l where "store_line w key flags ttl len quiet = l @ [LF]" "LF \<notin> set l" "store_line w key flags ttl len quiet ! 0 = hd w"
proof -
  let ?ws = "[key, dec_nat (unat flags), dec_nat (unat ttl), dec_nat len] @ (case quiet of None \<Rightarrow> [] | Some q \<Rightarrow> [q])"
  have ws: "\<forall>a \<in> set ?ws. plain_word a" using assms(2,3) by (auto simp: dec_nat_plain split: option.splits)
  have w: "plain_word w" using word_of_plain [OF assms(1)] by simp
  then have "w \<noteq> []" "LF \<notin> set w" by (simp_all add: plain_word_def)
  then show thesis using args_text_plain [OF ws]
    by (intro that [of "w @ args_text ?ws @ [CR]"])
      (simp_all add: store_line_def request_line_def crlf_def hd_conv_nth nth_append)
qed

lemma unpack_store_request:
  assumes "c \<in> store_cmds" "word_of c w" "plain_word key" "\<forall>q \<in> set_option quiet. plain_word q" "length data < 2 ^ 64"
  shows "\<exists>m'. exec_unpack U True True (store_line w key flags ttl (length data) quiet @ data @ crlf @ rest) m =
        Some (MEMCACHED_OK, length (store_line w key flags ttl (length data) quiet) + length data + 2, m')
      \<and> store_msg c key flags ttl data (quiet \<noteq> None) m'"
proof -
  let ?l = "store_line w key flags ttl (length data) quiet"
  note u = unpack_store [OF assms(1-5), where U = U and flags = flags and ttl = ttl and m = "fresh_msg m"]
  have len: "unat (of_nat (length data) :: u64) = length data" using assms(5) by (rule u64_of_nat_inverse)
  have cc: "control_char CR" "control_char LF" by (simp_all add: control_char_def sint_byte)
  show ?thesis
    using u [of "data @ crlf @ rest"] cc
    by (simp add: cmd_quiet cmd_loud exec_unpack_def unpack_data_def Let_def len set_quiet_def store_msg_def fresh_msg_def crlf_def nth_append)
qed

text \<open>C26: A text request is one message. SET, ADD, REPLACE, APPEND and PREPEND in any case, with any key
  without spaces, flags, time to live and data of any bytes, are decoded to exactly these fields, the bytes
  taken end behind the line end of the data, and the word after the length makes the command quiet. A request
  cut anywhere before the end of its data asks for more bytes.\<close>

theorem mc_store_request:
  assumes "c \<in> store_cmds" "word_of c w" "plain_word key" "\<forall>q \<in> set_option quiet. plain_word q" "length data < 2 ^ 64"
  shows "(\<exists>m'. exec_unpack U True True (store_line w key flags ttl (length data) quiet @ data @ crlf @ rest) m =
        Some (MEMCACHED_OK, length (store_line w key flags ttl (length data) quiet) + length data + 2, m')
      \<and> store_msg c key flags ttl data (quiet \<noteq> None) m')
    \<and> (\<forall>n < length (store_line w key flags ttl (length data) quiet @ data).
         \<exists>k m'. exec_unpack U True True (take n (store_line w key flags ttl (length data) quiet @ data)) m
            = Some (MEMCACHED_MSG_PARTIAL, k, m'))"
proof (intro conjI allI impI)
  let ?l = "store_line w key flags ttl (length data) quiet"
  note u = unpack_store [OF assms(1-5), where U = U and flags = flags and ttl = ttl and m = "fresh_msg m"]
  have len: "unat (of_nat (length data) :: u64) = length data" using assms(5) by (rule u64_of_nat_inverse)
  show "\<exists>m'. exec_unpack U True True (?l @ data @ crlf @ rest) m = Some (MEMCACHED_OK, length ?l + length data + 2, m')
      \<and> store_msg c key flags ttl data (quiet \<noteq> None) m'"
    by (rule unpack_store_request [OF assms])
  fix n assume n: "n < length (?l @ data)"
  show "\<exists>k m'. exec_unpack U True True (take n (?l @ data)) m = Some (MEMCACHED_MSG_PARTIAL, k, m')"
  proof (cases "n < length ?l")
    case False
    then have "take n (?l @ data) = ?l @ take (n - length ?l) data" by simp
    moreover have "n - length ?l < length data" using n False by simp
    ultimately show ?thesis using u [of "take (n - length ?l) data"]
      by (simp add: exec_unpack_def unpack_data_def Let_def len set_quiet_def)
  next
    case True
    obtain l' where l: "?l = l' @ [LF]" "LF \<notin> set l'" "?l ! 0 = hd w" by (rule store_line_last [OF assms(2-4)])
    have "LF \<notin> set (take n (?l @ data))" using True l(1,2) in_set_takeD [of LF n l'] by (auto simp: less_Suc_eq_le)
    then have f: "find_lf (take n (?l @ data)) 0 = None" by (rule find_lf_none)
    have "take n (?l @ data) ! 0 \<noteq> 0x80 \<or> n = 0" using l(3) word_of_plain(2) [OF assms(2)] True by (cases n) (auto simp: nth_append)
    then have "scan_request (take n (?l @ data)) 0 = NeedMore" using f by (subst scan_request_step) auto
    then show ?thesis by (simp add: exec_unpack_def mc_unpack_def Let_def)
  qed
qed

definition sample_mc :: mc_msg where
  "sample_mc = \<lparr>mc_args = [], mc_keycnt = 7, mc_first = 7, mc_flags = 7, mc_ttl = 7, mc_cas = 7, mc_msglen = 7, mc_inc = 7,
     mc_data = None, mc_cmd = 7, mc_opcode = 7, mc_res = 7, mc_pad = 7, mc_opaque = 7, mc_ini = 7\<rparr>"

theorem mc_store_request_witness:
  "(\<exists>m'. exec_unpack int_str_util True True (store_line (ascii ''add'') (ascii ''k'') 5 60 3 None @ [13, 10, 0] @ crlf @ []) sample_mc
       = Some (MEMCACHED_OK, length (store_line (ascii ''add'') (ascii ''k'') 5 60 3 None) + 3 + 2, m')
     \<and> store_msg MC_ADD (ascii ''k'') 5 60 [13, 10, 0] False m')
   \<and> (\<exists>k m'. exec_unpack int_str_util True True (take 12 (store_line (ascii ''add'') (ascii ''k'') 5 60 3 None @ [13, 10, 0])) sample_mc
       = Some (MEMCACHED_MSG_PARTIAL, k, m'))"
proof -
  have c: "MC_ADD \<in> store_cmds" "word_of MC_ADD (ascii ''add'')" "plain_word (ascii ''k'')"
    "\<forall>q \<in> set_option None. plain_word q" "length [13, 10, 0 :: byte] < 2 ^ 64"
    by (simp_all add: store_cmds_def word_of_def plain_word_def)
  have n: "12 < length (store_line (ascii ''add'') (ascii ''k'') 5 60 (length [13, 10, 0 :: byte]) None @ [13, 10, 0])"
    by (simp add: store_line_def request_line_def args_text_def dec_nat.simps)
  show ?thesis
    using mc_store_request [OF c, of int_str_util 5 60 "[]" sample_mc, THEN conjunct1]
      mc_store_request [OF c, of int_str_util 5 60 "[]" sample_mc, THEN conjunct2, rule_format, OF n]
    by (simp add: numeral_eq_Suc)
qed

text \<open>Memory safety of the decoder. Whatever the bytes and whatever is left of the last message, the
  decoder reads inside its buffer, but for a buffer that ends in a line of one byte and a space, whose keyword
  is read one byte beyond. The bytes it takes are in the buffer, but for a binary request that is refused for
  its lengths.\<close>

theorem mc_unpack_in_buffer:
  "case mc_unpack U ok b m of None \<Rightarrow> \<exists>p c. b = p @ [c, SP, LF]
   | Some (st, n, m') \<Rightarrow> n \<le> length b \<or> mc_cmd m' = MC_BINARY \<and> mc_res m' = mc_status_code MEMCACHED_BAD_BIN_ARGS"
  using mc_unpack_bounds [of b U ok m] by (auto split: option.splits)

theorem mc_unpack_in_buffer_witness:
  "(\<exists>n m'. mc_unpack int_str_util True (store_line (ascii ''add'') (ascii ''k'') 5 60 3 None @ [13, 10, 0]) sample_mc
      = Some (MEMCACHED_OK, n, m') \<and> n \<le> length (store_line (ascii ''add'') (ascii ''k'') 5 60 3 None) + 3)
   \<and> mc_unpack int_str_util True (ascii ''x '' @ [LF]) sample_mc = None \<and> (\<exists>p c. ascii ''x '' @ [LF] = p @ [c, SP, LF])"
proof -
  let ?b = "store_line (ascii ''add'') (ascii ''k'') 5 60 3 None @ [13, 10, 0]"
  have c: "MC_ADD \<in> store_cmds" "word_of MC_ADD (ascii ''add'')" "plain_word (ascii ''k'')" "\<forall>q \<in> set_option None. plain_word q"
    by (simp_all add: store_cmds_def word_of_def plain_word_def)
  obtain n m' where u: "mc_unpack int_str_util True ?b sample_mc = Some (MEMCACHED_OK, n, m')" "mc_cmd m' \<noteq> MC_BINARY"
    using unpack_store [OF c, of 3 int_str_util 5 60 "[13, 10, 0]" sample_mc]
    by (simp add: unpack_data_def set_quiet_def Let_def MC_BINARY_def)
  have "find_lf [120, SP, LF] 0 = Some 2" by (simp add: find_lf_def)
  then have s: "scan_request [120, SP, LF] 0 = TextAt 0 2 3"
    by (simp add: scan_request_step [of _ 0] line_end_def skip_spaces_def)
  then have x: "mc_unpack int_str_util True (ascii ''x '' @ [LF]) sample_mc = None"
    by (simp add: mc_unpack_def unpack_text_def read_at_def)
  show ?thesis
    using u x mc_unpack_in_buffer [where U = int_str_util and ok = True and b = ?b and m = sample_mc]
      mc_unpack_in_buffer [where U = int_str_util and ok = True and b = "ascii ''x '' @ [LF]" and m = sample_mc]
    by simp
qed

text \<open>The header of a GET alone, with a key length: the bytes taken reach beyond the buffer, and the service
  goes on there.\<close>

lemma bin_get_takes_too_much:
  assumes "kv_bitops U"
  shows "\<exists>m'. mc_unpack U ok ([0x80, 0, 0xff, 0xff] @ replicate 20 0) m = Some (MEMCACHED_OK, 24 + 65535, m')"
proof -
  let ?b = "[0x80, 0, 0xff, 0xff] @ replicate 20 (0 :: byte)"
  have len: "length ?b = 24" by simp
  have h: "bin_hdr_of ?b = \<lparr>bh_opcode = 0, bh_keylen = of_nat (le_val [0xff, 0xff]), bh_extralen = 0,
      bh_datalen = of_nat (le_val [0, 0, 0, 0]), bh_opaque = 0, bh_cas = 0\<rparr>"
    by (simp add: bin_hdr_of_def mem_word_def numeral_eq_Suc)
  have "unat (kv_bswap16 U (of_nat (le_val [0xff, 0xff]))) = 65535" "unat (kv_bswap32 U (of_nat (le_val [0, 0, 0, 0]))) = 0"
    using kv_bitops.bswap16 [OF assms, of "[0xff, 0xff]"] kv_bitops.bswap32 [OF assms, of "[0, 0, 0, 0]"] by simp_all
  then have p: "parse_bin_retr U (bin_hdr_of ?b) [] n = Some (MEMCACHED_BAD_BIN_ARGS, 65535, n)" for n
    unfolding parse_bin_retr_def h by (simp add: Let_def)
  have c: "command (n\<lparr>mc_cmd := 7 OR MC_BINARY\<rparr>) = Some MC_GET" for n
    by (rule command_flags [of _ _ MC_BINARY]) (simp_all add: MC_BINARY_def)
  have o: "bh_opcode (bin_hdr_of ?b) = 0" unfolding h by simp
  have s: "scan_request ?b 0 = BinAt 0" by (subst scan_request_step) simp
  have t: "take 24 (drop 0 ?b) = ?b" "drop (0 + 24) ?b = []" using len by simp_all
  show ?thesis
    unfolding mc_unpack_def s unpack_bin_def t len
    using p c o by (simp add: parse_bin_def op_cmd_def op_cmds_def Let_def)
qed

end
