(* ===== verification/Mc_Reply.thy ===== *)
theory Mc_Reply
  imports Mc_Msg Redis_Store
begin

text \<open>
  The replies of the memcached protocol: what \<open>memcached_exec.cpp\<close> writes, the lines, the values and the
  binary headers with \<open>send_err\<close>, and \<open>MemcachedRes::unpack\<close>, the decoder of results on the side of a
  client. \<open>ok\<close> tells whether the stream gives memory; without it nothing is written.
\<close>

section \<open>Lines and values\<close>

definition mc_string :: "bool \<Rightarrow> byte list \<Rightarrow> byte list" where
  "mc_string ok s = (if ok then s @ crlf else [])"

text \<open>\<open>format_value\<close>: the line, the data, and the end of the reply to a single key.\<close>

definition format_value :: "kv_util \<Rightarrow> byte list \<Rightarrow> u32 \<Rightarrow> byte list \<Rightarrow> u64 \<Rightarrow> bool \<Rightarrow> byte list" where
  "format_value U key flags data cas is_end =
     ascii ''VALUE'' @ SP # key @ SP # uint64_to_string U (unat flags) @ SP # uint64_to_string U (length data)
     @ (if cas \<noteq> 0 then SP # uint64_to_string U (unat cas) else []) @ crlf @ data
     @ (if is_end then crlf @ ascii ''END'' else []) @ crlf"

section \<open>Binary replies\<close>

definition MS_OK :: u16 where "MS_OK = 0"
definition MS_NOT_FOUND :: u16 where "MS_NOT_FOUND = 1"
definition MS_EXISTS :: u16 where "MS_EXISTS = 2"
definition MS_BAD_ARGS :: u16 where "MS_BAD_ARGS = 4"
definition MS_NOT_STORED :: u16 where "MS_NOT_STORED = 5"
definition MS_BAD_INCR_VALUE :: u16 where "MS_BAD_INCR_VALUE = 6"
definition MS_UNKNOWN_COMMAND :: u16 where "MS_UNKNOWN_COMMAND = 129"
definition MS_ALLOC_FAIL :: u16 where "MS_ALLOC_FAIL = 130"
definition MS_NOT_SUPPORTED :: u16 where "MS_NOT_SUPPORTED = 131"
definition MS_INTERNAL_ERROR :: u16 where "MS_INTERNAL_ERROR = 132"

definition bin_status_text :: "u16 \<Rightarrow> byte list" where
  "bin_status_text st = ascii (
     if st = 0 then ''Ok''
     else if st = 1 then ''Not found''
     else if st = 3 then ''Too large.''
     else if st = 4 then ''Invalid arguments''
     else if st = 2 then ''Data exists for key.''
     else if st = 5 then ''Not stored.''
     else if st = 6 then ''Non-numeric server-side value for incr or decr''
     else if st = 7 then ''Bad vbucket''
     else if st = 8 then ''Auth failure.''
     else if st = 9 then ''Continue''
     else if st = 129 then ''Unknown command''
     else if st = 130 then ''Out of memory''
     else if st = 131 then ''Not supported''
     else if st = 132 then ''Internal error''
     else if st = 133 then ''Busy''
     else if st = 134 then ''Temporary failure''
     else ''Unknown'')"

text \<open>A header as it lies in memory: the words little-endian, what goes out swapped before.\<close>

definition word_bytes :: "nat \<Rightarrow> 'a::len word \<Rightarrow> byte list" where
  "word_bytes n w = le_bytes n (unat w)"

definition bin_reply_hdr :: "kv_util \<Rightarrow> mc_msg \<Rightarrow> u16 \<Rightarrow> u16 \<Rightarrow> byte \<Rightarrow> u32 \<Rightarrow> u64 \<Rightarrow> byte list" where
  "bin_reply_hdr U m keylen status extralen datalen cas =
     [0x81, mc_opcode m] @ word_bytes 2 (kv_bswap16 U keylen) @ [extralen, 0] @ word_bytes 2 (kv_bswap16 U status)
     @ word_bytes 4 (kv_bswap32 U datalen) @ word_bytes 4 (mc_opaque m) @ word_bytes 8 (kv_bswap64 U cas)"

text \<open>\<open>send_bin_status\<close>: without a text the one of the status; a text of length zero is measured.\<close>

definition send_bin_status :: "kv_util \<Rightarrow> bool \<Rightarrow> mc_msg \<Rightarrow> u16 \<Rightarrow> byte list option \<Rightarrow> byte list" where
  "send_bin_status U ok m status s =
     (let t = (case s of None \<Rightarrow> bin_status_text status | Some t \<Rightarrow> t) in
      if ok then bin_reply_hdr U m 0 status 0 (of_nat (length t)) 0 @ t else [])"

definition send_bin_status_key :: "kv_util \<Rightarrow> bool \<Rightarrow> mc_msg \<Rightarrow> u16 \<Rightarrow> byte list \<Rightarrow> byte list" where
  "send_bin_status_key U ok m status key =
     (if ok then bin_reply_hdr U m (of_nat (length key)) status 0 (of_nat (length key)) 0 @ key else [])"

section \<open>Errors\<close>

text \<open>The texts of the key store are parameters: the status as a number, its name and its description.\<close>

definition send_err_kv :: "bool \<Rightarrow> (key_status \<Rightarrow> byte list) \<Rightarrow> key_status \<Rightarrow> byte list" where
  "send_err_kv ok kv_text st = (if ok then take 255 (ascii ''SERVER_ERROR KeyCtx '' @ kv_text st @ crlf) else [])"

definition send_err :: "kv_util \<Rightarrow> bool \<Rightarrow> (key_status \<Rightarrow> byte list) \<Rightarrow> mc_msg \<Rightarrow> memcached_status \<Rightarrow> key_status \<Rightarrow> byte list" where
  "send_err U ok kv_text m status kst =
     (let both = (\<lambda>code text. if is_binary m then send_bin_status U ok m code None else mc_string ok (ascii text)) in
      case status of
        MEMCACHED_ALLOC_FAIL \<Rightarrow> both MS_ALLOC_FAIL ''SERVER_ERROR alloc failed''
      | MEMCACHED_BAD_CMD \<Rightarrow> mc_string ok (ascii ''CLIENT_ERROR bad command'')
      | MEMCACHED_BAD_ARGS \<Rightarrow> mc_string ok (ascii ''CLIENT_ERROR bad args'')
      | MEMCACHED_BAD_INT \<Rightarrow> mc_string ok (ascii ''CLIENT_ERROR bad integer'')
      | MEMCACHED_INT_OVERFLOW \<Rightarrow> mc_string ok (ascii ''CLIENT_ERROR integer overflow'')
      | MEMCACHED_BAD_TYPE \<Rightarrow> mc_string ok (ascii ''CLIENT_ERROR bad type'')
      | MEMCACHED_NOT_IMPL \<Rightarrow> both MS_NOT_SUPPORTED ''SERVER_ERROR not implemented''
      | MEMCACHED_BAD_INCR \<Rightarrow> mc_string ok (ascii ''CLIENT_ERROR cannot increment or decrement non-numeric value'')
      | MEMCACHED_BAD_PAD \<Rightarrow> both MS_INTERNAL_ERROR ''SERVER_ERROR bad pad''
      | MEMCACHED_BAD_BIN_ARGS \<Rightarrow> send_bin_status U ok m MS_BAD_ARGS None
      | MEMCACHED_BAD_BIN_CMD \<Rightarrow> send_bin_status U ok m MS_UNKNOWN_COMMAND None
      | MEMCACHED_ERR_KV \<Rightarrow> if is_binary m then send_bin_status U ok m MS_INTERNAL_ERROR None else send_err_kv ok kv_text kst
      | _ \<Rightarrow> [])"

section \<open>Results\<close>

datatype memcached_result =
    MR_NONE | MR_END | MR_DELETED | MR_STORED | MR_VALUE | MR_INT | MR_TOUCHED | MR_NOT_FOUND | MR_NOT_STORED
  | MR_EXISTS | MR_ERROR | MR_CLIENT_ERROR | MR_SERVER_ERROR | MR_BUSY | MR_BADCLASS | MR_NOSPARE | MR_NOTFULL
  | MR_UNSAFE | MR_SAME | MR_OK | MR_STAT | MR_VERSION

text \<open>\<open>rs_msg\<close> is the place of the data in the buffer.\<close>

record mc_result =
  rs_args :: "byte list list"
  rs_flags :: u32
  rs_ival :: u64
  rs_cas :: u64
  rs_msglen :: u64
  rs_msg :: "nat option"
  rs_key :: "byte list"
  rs_res :: memcached_result
  rs_is_err :: bool
  rs_keylen :: u16

definition zero_result :: "memcached_result \<Rightarrow> mc_result" where
  "zero_result r = \<lparr>rs_args = [], rs_flags = 0, rs_ival = 0, rs_cas = 0, rs_msglen = 0, rs_msg = None, rs_key = [],
     rs_res = r, rs_is_err = False, rs_keylen = 0\<rparr>"

definition result_kws :: "(byte list \<times> memcached_result) list" where
  "result_kws = map (\<lambda>(w, r). (c4_kw (ascii w), r))
     [(''DELE'', MR_DELETED), (''STOR'', MR_STORED), (''VALU'', MR_VALUE), (''TOUC'', MR_TOUCHED), (''EXIS'', MR_EXISTS),
      (''ERRO'', MR_ERROR), (''CLIE'', MR_CLIENT_ERROR), (''SERV'', MR_SERVER_ERROR), (''BUSY'', MR_BUSY),
      (''BADC'', MR_BADCLASS), (''NOSP'', MR_NOSPARE), (''NOTF'', MR_NOTFULL), (''UNSA'', MR_UNSAFE), (''SAME'', MR_SAME),
      (''STAT'', MR_STAT), (''VERS'', MR_VERSION)]"

text \<open>The first test looks at two bytes where one is meant. All reads are before the line feed or at it.\<close>

definition str_to_result :: "byte list \<Rightarrow> nat \<Rightarrow> memcached_result" where
  "str_to_result s sz =
     (if sz > 0 \<and> sint (s ! 0) \<ge> 48 \<and> sint (s ! 1) \<le> 57 then MR_INT
      else if sz < 4 then
        if sz = 2 \<and> c4_kw (take 2 s) = c4_kw (ascii ''OK'') then MR_OK
        else if sz = 3 \<and> c4_kw (take 3 s) = c4_kw (ascii ''END'') then MR_END
        else MR_NONE
      else if c4_kw (take 4 s) = c4_kw (ascii ''NOT_'') then
        if s ! 4 = of_char CHR ''F'' \<or> s ! 4 = of_char CHR ''f'' then MR_NOT_FOUND else MR_NOT_STORED
      else (case map_of result_kws (c4_kw (take 4 s)) of Some r \<Rightarrow> r | None \<Rightarrow> MR_NONE))"

text \<open>\<open>parse_value_result\<close>: the parse of the fourth argument takes the place of the status before.\<close>

definition parse_value_result :: "mc_result \<Rightarrow> memcached_status \<times> mc_result" where
  "parse_value_result rs =
     (if length (rs_args rs) \<noteq> 3 \<and> length (rs_args rs) \<noteq> 4 then (MEMCACHED_BAD_ARGS, rs)
      else
        let rs1 = rs\<lparr>rs_key := rs_args rs ! 0, rs_keylen := of_nat (length (rs_args rs ! 0))\<rparr>;
            (r2, rs2) = (case get_u32 (rs_args rs ! 1) of Inl r \<Rightarrow> (r, rs1) | Inr v \<Rightarrow> (MEMCACHED_OK, rs1\<lparr>rs_flags := v\<rparr>));
            (r3, rs3) = (if r2 = MEMCACHED_OK
              then (case get_u64 (rs_args rs ! 2) of Inl r \<Rightarrow> (r, rs2) | Inr v \<Rightarrow> (MEMCACHED_OK, rs2\<lparr>rs_msglen := v\<rparr>))
              else (r2, rs2)) in
        if length (rs_args rs) = 4
        then (case get_u64 (rs_args rs ! 3) of Inl r \<Rightarrow> (r, rs3) | Inr v \<Rightarrow> (MEMCACHED_OK, rs3\<lparr>rs_cas := v\<rparr>))
        else (r3, rs3))"

text \<open>The test whether the data is there adds in \<open>size_t\<close>.\<close>

definition res_unpack :: "bool \<Rightarrow> byte list \<Rightarrow> mc_result \<Rightarrow> (memcached_status \<times> u64 \<times> mc_result) option" where
  "res_unpack ok b rs =
     (case find_lf b 0 of
        None \<Rightarrow> Some (MEMCACHED_MSG_PARTIAL, of_nat (length b), rs)
      | Some e \<Rightarrow>
        let i = line_end b e; j = of_nat (e + 1) :: u64; result = str_to_result b i in
        if result = MR_NONE then Some (MEMCACHED_BAD_RESULT, j, rs)
        else if result = MR_VALUE \<or> result = MR_STAT \<or> result = MR_VERSION then do {
          args \<leftarrow> parse_mcargs ok (drop 1 (dropWhile (\<lambda>c. c \<noteq> SP) (drop 4 (take i b))));
          let rs1 = (zero_result result)\<lparr>rs_args := args\<rparr>;
          if result = MR_VALUE then
            (case parse_value_result rs1 of (r, rs2) \<Rightarrow>
               Some (if r = MEMCACHED_OK then
                   if j + rs_msglen rs2 + 2 > of_nat (length b) then (MEMCACHED_MSG_PARTIAL, of_nat (length b), rs2)
                   else (MEMCACHED_OK, j + (rs_msglen rs2 + 2), rs2\<lparr>rs_msg := Some (e + 1)\<rparr>)
                 else (r, j, rs2)))
          else Some (MEMCACHED_OK, j, rs1) }
        else if result = MR_INT then
          Some (case get_u64 (take i b) of
              Inl r \<Rightarrow> (r, j, zero_result result)
            | Inr v \<Rightarrow> (MEMCACHED_OK, j, (zero_result result)\<lparr>rs_ival := v\<rparr>))
        else Some (MEMCACHED_OK, j, (zero_result result)\<lparr>rs_is_err := result \<in> {MR_ERROR, MR_CLIENT_ERROR, MR_SERVER_ERROR}\<rparr>))"

section \<open>Names\<close>

definition memcached_cmd_string :: "byte \<Rightarrow> string" where
  "memcached_cmd_string c =
     (let n = unat (c AND MC_CMD_MASK) in
      if n < 26 then
        [''NONE'', ''SET'', ''ADD'', ''REPLACE'', ''APPEND'', ''PREPEND'', ''CAS'', ''GET'', ''GETS'', ''DELETE'', ''INCR'', ''DECR'',
         ''TOUCH'', ''GAT'', ''GATS'', ''SLABS'', ''LRU'', ''LRU_CRAWLER'', ''WATCH'', ''STATS'', ''FLUSH_ALL'',
         ''CACHE_MEMLIMIT'', ''VERSION'', ''QUIT'', ''NO_OP'', ''VERBOSITY''] ! n
      else ''unknown'')"

fun memcached_res_string :: "memcached_result \<Rightarrow> string" where
  "memcached_res_string MR_NONE = ''NONE''"
| "memcached_res_string MR_END = ''END''"
| "memcached_res_string MR_DELETED = ''DELETED''"
| "memcached_res_string MR_STORED = ''STORED''"
| "memcached_res_string MR_VALUE = ''VALUE''"
| "memcached_res_string MR_INT = ''INT''"
| "memcached_res_string MR_TOUCHED = ''TOUCHED''"
| "memcached_res_string MR_NOT_FOUND = ''NOT_FOUND''"
| "memcached_res_string MR_NOT_STORED = ''NOT_STORED''"
| "memcached_res_string MR_EXISTS = ''EXISTS''"
| "memcached_res_string MR_ERROR = ''ERROR''"
| "memcached_res_string MR_CLIENT_ERROR = ''CLIENT_ERROR''"
| "memcached_res_string MR_SERVER_ERROR = ''SERVER_ERROR''"
| "memcached_res_string MR_BUSY = ''BUSY''"
| "memcached_res_string MR_BADCLASS = ''BADCLASS''"
| "memcached_res_string MR_NOSPARE = ''NOSPARE''"
| "memcached_res_string MR_NOTFULL = ''NOTFULL''"
| "memcached_res_string MR_UNSAFE = ''UNSAFE''"
| "memcached_res_string MR_SAME = ''SAME''"
| "memcached_res_string MR_OK = ''OK''"
| "memcached_res_string MR_STAT = ''STAT''"
| "memcached_res_string MR_VERSION = ''VERSION''"

text \<open>A status line reads back as its result.\<close>

lemma res_string_result:
  "r \<notin> {MR_NONE, MR_INT} \<Longrightarrow> str_to_result (ascii (memcached_res_string r) @ crlf @ rest) (length (memcached_res_string r)) = r"
  by (cases r) (simp_all add: str_to_result_def result_kws_def c4_kw_def sint_byte crlf_def)

section \<open>A value that is sent and read\<close>

definition value_words :: "byte list \<Rightarrow> u32 \<Rightarrow> nat \<Rightarrow> u64 \<Rightarrow> byte list list" where
  "value_words key flags len cas =
     [key, dec_nat (unat flags), dec_nat len] @ (if cas \<noteq> 0 then [dec_nat (unat cas)] else [])"

lemma format_value_line:
  assumes "kv_format U" "length data < 2 ^ 64"
  shows "format_value U key flags data cas is_end = request_line (ascii ''VALUE'') (value_words key flags (length data) cas)
    @ data @ crlf @ (if is_end then ascii ''END'' @ crlf else [])"
proof -
  have "unat flags < 2 ^ LENGTH(32)" "unat cas < 2 ^ LENGTH(64)" by (rule unsigned_less)+
  then show ?thesis using assms
    by (simp add: format_value_def request_line_def args_text_def value_words_def kv_format.u2s)
qed

lemma drop_args_text: "ws \<noteq> [] \<Longrightarrow> parse_mcargs ok (drop 1 (args_text ws)) = parse_mcargs ok (args_text ws)"
  by (cases ws) (simp_all add: args_text_def parse_mcargs_def)

lemma parse_value_words:
  assumes "len < 2 ^ 64" "rs_args rs = value_words key flags len cas" "rs_cas rs = 0"
  shows "parse_value_result rs = (MEMCACHED_OK, rs\<lparr>rs_key := key, rs_keylen := of_nat (length key), rs_flags := flags,
    rs_msglen := of_nat len, rs_cas := cas\<rparr>)"
  using assms by (cases "cas = 0")
    (simp_all add: parse_value_result_def value_words_def get_u64_word get_u32_word get_u64_dec Let_def)

definition value_result :: "byte list \<Rightarrow> u32 \<Rightarrow> byte list \<Rightarrow> u64 \<Rightarrow> nat \<Rightarrow> mc_result" where
  "value_result key flags data cas at = (zero_result MR_VALUE)\<lparr>rs_args := value_words key flags (length data) cas, rs_key := key,
     rs_keylen := of_nat (length key), rs_flags := flags, rs_msglen := of_nat (length data), rs_cas := cas, rs_msg := Some at\<rparr>"

text \<open>A value on its way to a client. What the server prints for a key, its flags, any data and the
  number for CAS is decoded by \<open>MemcachedRes::unpack\<close> to exactly these, the data lies where the result points
  to, and what comes after the line end of the data is left: the END of a single key, or the next value.\<close>

theorem mc_value_roundtrip:
  assumes "kv_format U" "plain_word key" "length key < 2 ^ 16"
    "length (format_value U key flags data cas is_end @ rest) < 2 ^ 64"
  shows "\<exists>n at. res_unpack True (format_value U key flags data cas is_end @ rest) rs
        = Some (MEMCACHED_OK, of_nat n, value_result key flags data cas at)
    \<and> take (length data) (drop at (format_value U key flags data cas is_end @ rest)) = data
    \<and> drop n (format_value U key flags data cas is_end @ rest) = (if is_end then ascii ''END'' @ crlf else []) @ rest"
proof -
  let ?ws = "value_words key flags (length data) cas"
  let ?e = "(if is_end then ascii ''END'' @ crlf else []) @ rest"
  let ?l = "ascii ''VALUE'' @ args_text ?ws" and ?h = "request_line (ascii ''VALUE'') ?ws"
  have ld: "length data < 2 ^ 64" using assms(4) by (simp add: format_value_def)
  have b: "format_value U key flags data cas is_end @ rest = ?h @ data @ crlf @ ?e" (is "?b = _")
    by (simp add: format_value_line [OF assms(1) ld])
  have ws: "\<forall>a \<in> set ?ws. plain_word a" "?ws \<noteq> []" using assms(2) by (auto simp: value_words_def dec_nat_plain)
  have v: "plain_word (ascii ''VALUE'')" by (simp add: plain_word_def)
  note ends = request_line_ends [OF v ws(1), of "data @ crlf @ ?e", folded b]
  have hl: "length ?h = length ?l + 2" by (simp add: request_line_def)
  have res: "str_to_result ?b (length ?l) = MR_VALUE"
    by (simp add: b request_line_def str_to_result_def sint_byte result_kws_def c4_kw_def)
  have args: "parse_mcargs True (drop 1 (dropWhile (\<lambda>c. c \<noteq> SP) (drop 4 ?l))) = Some ?ws"
    using parse_mcargs_words [OF ws(1)] drop_args_text [OF ws(2)] by (simp add: args_text_word)
  have tot: "length ?h + length data + 2 \<le> length ?b" "length ?b < 2 ^ 64" using assms(4) b by simp_all
  have room: "\<not> of_nat (length ?h) + (of_nat (length data) :: u64) + 2 > of_nat (length ?b)"
  proof -
    have "of_nat (length ?h) + (of_nat (length data) :: u64) + 2 = of_nat (length ?h + length data + 2)" by simp
    moreover have "length ?h + length data + 2 < 2 ^ 64" using tot by linarith
    ultimately show ?thesis using tot by (simp only: word_less_nat_alt u64_of_nat_inverse not_less)
  qed
  have "res_unpack True ?b rs = Some (MEMCACHED_OK, of_nat (length ?h + length data + 2), value_result key flags data cas (length ?h))"
    using ends res args room parse_value_words [OF ld, of "(zero_result MR_VALUE)\<lparr>rs_args := ?ws\<rparr>" key flags cas] hl
    by (simp add: res_unpack_def Let_def zero_result_def value_result_def)
  moreover have "take (length data) (drop (length ?h) ?b) = data" "drop (length ?h + length data + 2) ?b = ?e"
    by (simp_all add: b crlf_def)
  ultimately show ?thesis by blast
qed

theorem mc_value_roundtrip_witness:
  "\<exists>n at. res_unpack True (format_value int_str_util (ascii ''k'') 5 [13, 10, 7] 9 True @ []) (zero_result MR_NONE)
        = Some (MEMCACHED_OK, of_nat n, value_result (ascii ''k'') 5 [13, 10, 7] 9 at)
    \<and> take (length [13, 10, 7 :: byte]) (drop at (format_value int_str_util (ascii ''k'') 5 [13, 10, 7] 9 True @ [])) = [13, 10, 7]
    \<and> drop n (format_value int_str_util (ascii ''k'') 5 [13, 10, 7] 9 True @ []) = (if True then ascii ''END'' @ crlf else []) @ []"
proof (rule mc_value_roundtrip [OF fmt.kv_format_axioms])
  show "plain_word (ascii ''k'')" "length (ascii ''k'') < 2 ^ 16" by (simp_all add: plain_word_def)
  show "length (format_value int_str_util (ascii ''k'') 5 [13, 10, 7] 9 True @ []) < 2 ^ 64"
    by (simp add: format_value_line [OF fmt.kv_format_axioms] request_line_def args_text_def value_words_def dec_nat.simps)
qed

text \<open>A length just below 2 to the 64 wraps in the test, and the result claims data that is not there.\<close>

lemma value_length_wraps:
  "case res_unpack True (request_line (ascii ''VALUE'') [ascii ''k'', dec_nat 0, dec_nat (2 ^ 64 - 2)]) rs of
     Some (st, n, r) \<Rightarrow> st = MEMCACHED_OK \<and> rs_msglen r = 2 ^ 64 - 2 | None \<Rightarrow> False"
proof -
  let ?ws = "value_words (ascii ''k'') 0 (2 ^ 64 - 2) 0"
  let ?l = "ascii ''VALUE'' @ args_text ?ws" and ?h = "request_line (ascii ''VALUE'') ?ws"
  have v: "plain_word (ascii ''VALUE'')" "\<forall>a \<in> set ?ws. plain_word a"
    by (auto simp: value_words_def dec_nat_plain) (simp_all add: plain_word_def)
  note ends = request_line_ends [OF v, of "[]", unfolded append_Nil2]
  have res: "str_to_result ?h (length ?l) = MR_VALUE"
    by (simp add: request_line_def str_to_result_def sint_byte result_kws_def c4_kw_def)
  have args: "parse_mcargs True (drop 1 (dropWhile (\<lambda>c. c \<noteq> SP) (drop 4 ?l))) = Some ?ws"
    using parse_mcargs_words [OF v(2)] drop_args_text [of ?ws] by (simp add: args_text_word value_words_def)
  have len: "length ?h = length ?l + 2" by (simp add: request_line_def)
  have wrap: "(18446744073709551623 :: u64) = 7" by simp
  show ?thesis
    using ends res args parse_value_words [of "2 ^ 64 - 2" "(zero_result MR_VALUE)\<lparr>rs_args := ?ws\<rparr>" "ascii ''k''" 0 0] len
    by (simp add: res_unpack_def Let_def zero_result_def value_words_def wrap)
qed

end
