(* ===== verification/Mc_Exec.thy ===== *)
theory Mc_Exec
  imports Mc_Reply Redis_String
begin

text \<open>
  The commands of the memcached protocol on a key, \<open>src/src/memcached_exec.cpp\<close> from \<open>exec_key_fetch\<close> to
  \<open>exec_bin_incr\<close>. The entry of the key and its operations are those of \<open>Redis_Store\<close>; what memcached uses
  beyond them, the flags of a value, the number for CAS and the tombstone, is the record \<open>mc_ops\<close>. A handler
  gives the status and the new state of the key, or \<open>None\<close> where the code writes through a null pointer.
\<close>

section \<open>The state of a command on its key\<close>

record mc_stat =
  st_get_cnt :: u64
  st_set_cnt :: u64
  st_touch_cnt :: u64
  st_get_hit :: u64
  st_get_miss :: u64
  st_delete_miss :: u64
  st_delete_hit :: u64
  st_incr_miss :: u64
  st_incr_hit :: u64
  st_decr_miss :: u64
  st_decr_hit :: u64
  st_cas_miss :: u64
  st_cas_hit :: u64
  st_cas_badval :: u64
  st_touch_hit :: u64
  st_touch_miss :: u64

text \<open>\<open>mo_serial\<close> is the serial number of the context less the masked one of the key.\<close>

record 'e mc_ops =
  mo_get_val :: "'e \<Rightarrow> u32"
  mo_set_val :: "'e \<Rightarrow> u32 \<Rightarrow> 'e"
  mo_serial :: "'e \<Rightarrow> u64"
  mo_tombstone :: "'e \<Rightarrow> 'e"

text \<open>\<open>y_part\<close> is the memory for the result of a key of many: its size and what is in it.\<close>

record 'e mst =
  y_ent :: 'e
  y_kstatus :: key_status
  y_status :: memcached_status
  y_type :: md_type
  y_flags :: "ekf set"
  y_dep :: nat
  y_part :: "(nat \<times> byte list) option"
  y_key :: "byte list"
  y_out :: "byte list"
  y_stat :: mc_stat

record 'e mc_env =
  v_ops :: "'e kv_ops"
  v_mc :: "'e mc_ops"
  v_util :: kv_util
  v_ok :: bool
  v_kv_text :: "key_status \<Rightarrow> byte list"

abbreviation mc_reply :: "byte list \<Rightarrow> 'e mst \<Rightarrow> 'e mst" where
  "mc_reply bs y \<equiv> y\<lparr>y_out := y_out y @ bs\<rparr>"

abbreviation mc_say :: "'e mc_env \<Rightarrow> string \<Rightarrow> 'e mst \<Rightarrow> 'e mst" where
  "mc_say V s y \<equiv> mc_reply (mc_string (v_ok V) (ascii s)) y"

text \<open>A reply that a quiet command does not send.\<close>

definition unless_quiet :: "mc_msg \<Rightarrow> ('e mst \<Rightarrow> 'e mst) \<Rightarrow> 'e mst \<Rightarrow> 'e mst" where
  "unless_quiet m f y = (if is_quiet m then y else f y)"

definition count :: "(mc_stat \<Rightarrow> mc_stat) \<Rightarrow> 'e mst \<Rightarrow> 'e mst" where
  "count f y = y\<lparr>y_stat := f (y_stat y)\<rparr>"

definition y_new :: "'e mst \<Rightarrow> bool" where "y_new y \<longleftrightarrow> EKF_IS_NEW \<in> y_flags y"
definition y_data :: "'e mc_env \<Rightarrow> 'e mst \<Rightarrow> byte list" where "y_data V y = op_data (v_ops V) (y_ent y)"

definition y_value :: "'e mc_env \<Rightarrow> 'e mst \<Rightarrow> 'e mst" where
  "y_value V y = y\<lparr>y_kstatus := op_value (v_ops V) (y_ent y)\<rparr>"

definition y_validate :: "'e mc_env \<Rightarrow> 'e mst \<Rightarrow> 'e mst" where
  "y_validate V y = y\<lparr>y_kstatus := op_validate (v_ops V) (y_ent y)\<rparr>"

definition y_resize :: "'e mc_env \<Rightarrow> nat \<Rightarrow> bool \<Rightarrow> 'e mst \<Rightarrow> 'e mst" where
  "y_resize V n cp y = (case op_resize (v_ops V) (y_ent y) n cp of (st, e) \<Rightarrow> y\<lparr>y_kstatus := st, y_ent := e\<rparr>)"

definition y_put :: "'e mc_env \<Rightarrow> byte list \<Rightarrow> 'e mst \<Rightarrow> 'e mst" where
  "y_put V bs y = y\<lparr>y_ent := op_set_data (v_ops V) (y_ent y) bs\<rparr>"

definition cas_number :: "'e mc_env \<Rightarrow> 'e mst \<Rightarrow> u64" where
  "cas_number V y = 1 + mo_serial (v_mc V) (y_ent y)"

section \<open>Fetching the key\<close>

definition test_read_only :: "mc_msg \<Rightarrow> bool" where
  "test_read_only m \<longleftrightarrow> command m \<in> Some ` read_only"

definition test_mutator :: "mc_msg \<Rightarrow> bool" where
  "test_mutator m \<longleftrightarrow> command m \<in> Some ` mutator"

text \<open>Unlike that of the Redis commands, this fetch does not look whether the entry has expired.\<close>

definition mc_key_fetch :: "'e mc_env \<Rightarrow> mc_msg \<Rightarrow> bool \<Rightarrow> 'e mst \<Rightarrow> key_status \<times> 'e mst" where
  "mc_key_fetch V m force_read y =
     (let y1 =
        (if test_read_only m \<or> force_read then
           (case op_find (v_ops V) (y_ent y) of (st, e) \<Rightarrow>
              y\<lparr>y_kstatus := st, y_ent := e, y_flags := y_flags y \<union> {EKF_IS_READ_ONLY}\<rparr>)
         else if test_mutator m then
           (case op_acquire (v_ops V) (y_ent y) of (st, e) \<Rightarrow>
              y\<lparr>y_kstatus := st, y_ent := e,
                y_flags := (y_flags y \<union> (if st = KEY_IS_NEW then {EKF_IS_NEW} else {})) - {EKF_IS_READ_ONLY}\<rparr>)
         else y\<lparr>y_kstatus := KEY_NO_VALUE, y_status := MEMCACHED_BAD_CMD, y_flags := y_flags y \<union> {EKF_IS_READ_ONLY}\<rparr>);
        y2 = (if y_kstatus y1 = KEY_OK then y1\<lparr>y_type := op_get_type (v_ops V) (y_ent y1)\<rparr> else y1) in
      (y_kstatus y2, y2))"

definition mc_key_write :: "'e mc_env \<Rightarrow> mc_msg \<Rightarrow> 'e mst \<Rightarrow> md_type \<Rightarrow> key_status \<times> 'e mst" where
  "mc_key_write V m y ty =
     (case mc_key_fetch V m False y of (st, y1) \<Rightarrow>
        if st = KEY_OK \<and> y_type y1 \<noteq> ty then
          if y_type y1 = MD_NODATA then (KEY_IS_NEW, y1\<lparr>y_flags := y_flags y1 \<union> {EKF_IS_NEW}\<rparr>) else (KEY_NO_VALUE, y1)
        else (st, y1))"

definition mc_key_read :: "'e mc_env \<Rightarrow> mc_msg \<Rightarrow> 'e mst \<Rightarrow> md_type \<Rightarrow> key_status \<times> 'e mst" where
  "mc_key_read V m y ty =
     (case mc_key_fetch V m True y of (st, y1) \<Rightarrow>
        if st = KEY_OK \<and> y_type y1 \<noteq> ty then (if y_type y1 = MD_NODATA then KEY_NOT_FOUND else KEY_NO_VALUE, y1)
        else (st, y1))"

text \<open>The time to live of a message: seconds from now, or a time of the clock.\<close>

definition mc_ttl_stamp :: "'e mc_env \<Rightarrow> mc_msg \<Rightarrow> 'e mst \<Rightarrow> 'e mst" where
  "mc_ttl_stamp V m y =
     (if mc_ttl m \<noteq> 0 then
        let ns = mc_ttl m * (1000 * 1000 * 1000); now = op_current_stamp (v_ops V) (y_ent y) in
        y\<lparr>y_ent := op_update_stamps (v_ops V) (y_ent y) (if ns < now then ns + now else ns) 0\<rparr>
      else y\<lparr>y_ent := op_clear_stamps (v_ops V) (y_ent y) True False\<rparr>)"

section \<open>Storing\<close>

datatype store_flag = MC_MUST_NOT_EXIST | MC_MUST_EXIST | MC_DO_PEND | MC_DO_CAS
datatype store_refusal = NotFound | NotStored | Exists

definition store_flags :: "mc_msg \<Rightarrow> store_flag set" where
  "store_flags m =
     (case command m of
        Some MC_ADD \<Rightarrow> {MC_MUST_NOT_EXIST}
      | Some MC_CAS \<Rightarrow> {MC_DO_CAS, MC_MUST_EXIST}
      | Some MC_APPEND \<Rightarrow> {MC_DO_PEND, MC_MUST_EXIST}
      | Some MC_PREPEND \<Rightarrow> {MC_DO_PEND, MC_MUST_EXIST}
      | Some MC_REPLACE \<Rightarrow> {MC_MUST_EXIST}
      | _ \<Rightarrow> {}) \<union> (if mc_cas m \<noteq> 0 then {MC_DO_CAS} else {})"

text \<open>The test whether the key may be stored. An ADD to a key that exists is refused in different words
  by the text and the binary form.\<close>

definition store_test :: "'e mc_env \<Rightarrow> mc_msg \<Rightarrow> store_refusal \<Rightarrow> 'e mst \<Rightarrow> store_refusal option \<times> 'e mst" where
  "store_test V m add_refusal y =
     (let flags = store_flags m;
          (r, y1) =
            (if y_new y then
               if MC_MUST_EXIST \<in> flags then
                 if MC_DO_CAS \<in> flags then (Some NotFound, count (\<lambda>s. s\<lparr>st_cas_miss := st_cas_miss s + 1\<rparr>) y)
                 else (Some NotStored, y)
               else (None, y)
             else if MC_MUST_NOT_EXIST \<in> flags then (Some add_refusal, y)
             else (None, y)) in
      if r = None \<and> MC_DO_CAS \<in> flags then
        if cas_number V y1 \<noteq> mc_cas m then (Some Exists, count (\<lambda>s. s\<lparr>st_cas_badval := st_cas_badval s + 1\<rparr>) y1)
        else (None, count (\<lambda>s. s\<lparr>st_cas_hit := st_cas_hit s + 1\<rparr>) y1)
      else (r, y1))"

text \<open>The new memory and what is copied to it; APPEND and PREPEND keep the old data.\<close>

definition store_data :: "'e mc_env \<Rightarrow> mc_msg \<Rightarrow> 'e mst \<Rightarrow> 'e mst option" where
  "store_data V m y =
     (let val = (case mc_data m of Some d \<Rightarrow> d | None \<Rightarrow> []); curlen = length (y_data V y) in
      if MC_DO_PEND \<in> store_flags m then
        let y1 = y\<lparr>y_kstatus := op_get_size (v_ops V) (y_ent y)\<rparr>;
            y2 = (if y_kstatus y1 = KEY_OK then y_resize V (curlen + length val) True y1 else y1) in
        if y_kstatus y2 \<noteq> KEY_OK then Some y2
        else if command m = Some MC_PREPEND then do {
          d1 \<leftarrow> mem_copy (length val) (take curlen (y_data V y2)) (y_data V y2);
          d2 \<leftarrow> mem_copy 0 val d1;
          Some (y_put V d2 y2) }
        else do {
          d1 \<leftarrow> mem_copy curlen val (y_data V y2);
          Some (y_put V d1 y2) }
      else
        let y2 = y_resize V (length val) False y in
        if y_kstatus y2 \<noteq> KEY_OK then Some y2
        else do {
          d1 \<leftarrow> mem_copy 0 val (y_data V y2);
          Some (y_put V d1 y2) })"

definition y_set_val :: "'e mc_env \<Rightarrow> u32 \<Rightarrow> 'e mst \<Rightarrow> 'e mst" where
  "y_set_val V v y = y\<lparr>y_ent := mo_set_val (v_mc V) (y_ent y) v\<rparr>"

definition refusal_text :: "store_refusal \<Rightarrow> string" where
  "refusal_text r = (case r of NotFound \<Rightarrow> ''NOT_FOUND'' | NotStored \<Rightarrow> ''NOT_STORED'' | Exists \<Rightarrow> ''EXISTS'')"

definition refusal_code :: "store_refusal \<Rightarrow> u16" where
  "refusal_code r = (case r of NotFound \<Rightarrow> MS_NOT_FOUND | NotStored \<Rightarrow> MS_NOT_STORED | Exists \<Rightarrow> MS_EXISTS)"

text \<open>A key of another type is overwritten.\<close>

definition overwrite :: "key_status \<Rightarrow> 'e mst \<Rightarrow> 'e mst" where
  "overwrite st y = (if st = KEY_NO_VALUE then y\<lparr>y_flags := y_flags y \<union> {EKF_IS_NEW}, y_type := MD_STRING\<rparr> else y)"

definition mc_store :: "'e mc_env \<Rightarrow> mc_msg \<Rightarrow> 'e mst \<Rightarrow> (memcached_status \<times> 'e mst) option" where
  "mc_store V m y =
     (case mc_key_write V m (count (\<lambda>s. s\<lparr>st_set_cnt := st_set_cnt s + 1\<rparr>) y) MD_STRING of (st, y1) \<Rightarrow>
        if st \<noteq> KEY_NO_VALUE \<and> st \<noteq> KEY_OK \<and> st \<noteq> KEY_IS_NEW then Some (MEMCACHED_ERR_KV, y1)
        else
          (case store_test V m NotStored (overwrite st y1) of
             (Some r, y2) \<Rightarrow> Some (MEMCACHED_OK, unless_quiet m (mc_say V (refusal_text r)) y2)
           | (None, y2) \<Rightarrow> do {
               y3 \<leftarrow> store_data V m (mc_ttl_stamp V m y2);
               Some (if y_kstatus y3 = KEY_OK
                 then (MEMCACHED_OK, unless_quiet m (mc_say V ''STORED'') (y_set_val V (mc_flags m) y3))
                 else (MEMCACHED_ERR_KV, y3)) }))"

definition mc_bin_store :: "'e mc_env \<Rightarrow> mc_msg \<Rightarrow> 'e mst \<Rightarrow> (memcached_status \<times> 'e mst) option" where
  "mc_bin_store V m y =
     (case mc_key_write V m (count (\<lambda>s. s\<lparr>st_set_cnt := st_set_cnt s + 1\<rparr>) y) MD_STRING of (st, y1) \<Rightarrow>
        if st \<noteq> KEY_NO_VALUE \<and> st \<noteq> KEY_OK \<and> st \<noteq> KEY_IS_NEW then Some (MEMCACHED_ERR_KV, y1)
        else
          (case store_test V m Exists (overwrite st y1) of
             (Some r, y2) \<Rightarrow>
               Some (MEMCACHED_OK, unless_quiet m (mc_reply (send_bin_status (v_util V) (v_ok V) m (refusal_code r) None)) y2)
           | (None, y2) \<Rightarrow> do {
               let pend = MC_DO_PEND \<in> store_flags m;
               y3 \<leftarrow> store_data V m (if pend then y2 else mc_ttl_stamp V m y2);
               let y4 = (if pend then y3 else y_set_val V (mc_flags m) y3);
               Some (if y_kstatus y3 = KEY_OK
                 then (MEMCACHED_OK, unless_quiet m (mc_reply (if v_ok V
                         then bin_reply_hdr (v_util V) m 0 0 0 0 (cas_number V y4) else [])) y4)
                 else (MEMCACHED_ERR_KV, y3)) }))"

section \<open>Reading\<close>

definition value_cas :: "'e mc_env \<Rightarrow> mc_msg \<Rightarrow> 'e mst \<Rightarrow> u64" where
  "value_cas V m y = (if command m = Some MC_GETS \<or> command m = Some MC_GATS then cas_number V y else 0)"

definition send_value :: "'e mc_env \<Rightarrow> mc_msg \<Rightarrow> byte list \<Rightarrow> 'e mst \<Rightarrow> byte list" where
  "send_value V m data y =
     (if v_ok V then format_value (v_util V) (y_key y) (mo_get_val (v_mc V) (y_ent y)) data (value_cas V m y) True else [])"

definition send_bin_value :: "'e mc_env \<Rightarrow> mc_msg \<Rightarrow> byte list \<Rightarrow> 'e mst \<Rightarrow> byte list" where
  "send_bin_value V m data y =
     (if v_ok V then
        let key = (if wants_key m then y_key y else []) in
        bin_reply_hdr (v_util V) m (of_nat (length key)) 0 4 (of_nat (length data + 4)) (cas_number V y)
        @ word_bytes 4 (kv_bswap32 (v_util V) (mo_get_val (v_mc V) (y_ent y))) @ key @ data
      else [])"

text \<open>\<open>save_value\<close>: the room is that of the line and the data, without the header of the block.\<close>

definition save_value :: "'e mc_env \<Rightarrow> mc_msg \<Rightarrow> byte list \<Rightarrow> 'e mst \<Rightarrow> bool \<times> 'e mst" where
  "save_value V m data y =
     (let msz = 5 + length (y_key y) + length data + 64;
          str = format_value (v_util V) (y_key y) (mo_get_val (v_mc V) (y_ent y)) data (value_cas V m y) False in
      case y_part y of
        None \<Rightarrow> if v_ok V then (True, y\<lparr>y_part := Some (msz, str)\<rparr>) else (False, y)
      | Some (mem, _) \<Rightarrow>
          if msz > mem then (if v_ok V then (True, y\<lparr>y_part := Some (msz, str)\<rparr>) else (False, y))
          else (True, y\<lparr>y_part := Some (mem, str)\<rparr>))"

definition mc_retr :: "'e mc_env \<Rightarrow> mc_msg \<Rightarrow> nat \<Rightarrow> 'e mst \<Rightarrow> (memcached_status \<times> 'e mst) option" where
  "mc_retr V m nkeys y =
     (case mc_key_read V m (count (\<lambda>s. s\<lparr>st_get_cnt := st_get_cnt s + 1\<rparr>) y) MD_STRING of (st, y1) \<Rightarrow>
        Some (if st = KEY_OK then
            let y2 = y_value V (count (\<lambda>s. s\<lparr>st_get_hit := st_get_hit s + 1\<rparr>) y1) in
            if y_kstatus y2 \<noteq> KEY_OK then (MEMCACHED_ERR_KV, y2)
            else
              let sz = (if nkeys = 1 then send_value V m (y_data V y2) y2 else []);
                  (saved, y3) = (if nkeys = 1 then (True, y2) else save_value V m (y_data V y2) y2);
                  y4 = y_validate V y3 in
              if \<not> saved then (MEMCACHED_ALLOC_FAIL, y3)
              else if y_kstatus y4 = KEY_OK then (MEMCACHED_OK, mc_reply sz y4)
              else (MEMCACHED_ERR_KV, y4)
          else if st = KEY_NOT_FOUND \<or> st = KEY_NO_VALUE then
            let y2 = count (\<lambda>s. s\<lparr>st_get_miss := st_get_miss s + 1\<rparr>) y1 in
            (MEMCACHED_OK, if nkeys = 1 then mc_say V ''END'' y2 else y2)
          else (MEMCACHED_ERR_KV, y1)))"

definition bin_not_found :: "'e mc_env \<Rightarrow> mc_msg \<Rightarrow> 'e mst \<Rightarrow> 'e mst" where
  "bin_not_found V m y = unless_quiet m (mc_reply
     (if wants_key m then send_bin_status_key (v_util V) (v_ok V) m MS_NOT_FOUND (y_key y)
      else send_bin_status (v_util V) (v_ok V) m MS_NOT_FOUND None)) y"

definition mc_bin_retr :: "'e mc_env \<Rightarrow> mc_msg \<Rightarrow> 'e mst \<Rightarrow> (memcached_status \<times> 'e mst) option" where
  "mc_bin_retr V m y =
     (case mc_key_read V m (count (\<lambda>s. s\<lparr>st_get_cnt := st_get_cnt s + 1\<rparr>) y) MD_STRING of (st, y1) \<Rightarrow>
        Some (if st = KEY_OK then
            let y2 = y_value V (count (\<lambda>s. s\<lparr>st_get_hit := st_get_hit s + 1\<rparr>) y1);
                sz = send_bin_value V m (y_data V y2) y2;
                y3 = y_validate V y2 in
            if y_kstatus y2 \<noteq> KEY_OK then (MEMCACHED_ERR_KV, y2)
            else if y_kstatus y3 = KEY_OK then (MEMCACHED_OK, mc_reply sz y3)
            else (MEMCACHED_ERR_KV, y3)
          else if st = KEY_NOT_FOUND \<or> st = KEY_NO_VALUE then
            (MEMCACHED_OK, bin_not_found V m (count (\<lambda>s. s\<lparr>st_get_miss := st_get_miss s + 1\<rparr>) y1))
          else (MEMCACHED_ERR_KV, y1)))"

text \<open>GAT with many keys: behind the saved value the switch falls through to the error.\<close>

definition mc_retr_touch :: "'e mc_env \<Rightarrow> mc_msg \<Rightarrow> nat \<Rightarrow> 'e mst \<Rightarrow> (memcached_status \<times> 'e mst) option" where
  "mc_retr_touch V m nkeys y =
     (case mc_key_write V m (count (\<lambda>s. s\<lparr>st_touch_cnt := st_touch_cnt s + 1\<rparr>) y) MD_STRING of (st, y1) \<Rightarrow>
        Some (if st = KEY_OK then
            let y2 = y_value V (count (\<lambda>s. s\<lparr>st_touch_hit := st_touch_hit s + 1\<rparr>) y1) in
            if y_kstatus y2 \<noteq> KEY_OK then (MEMCACHED_ERR_KV, y2)
            else
              let y3 = mc_ttl_stamp V m y2 in
              if nkeys = 1 then (MEMCACHED_OK, mc_reply (send_value V m (y_data V y2) y3) y3)
              else (case save_value V m (y_data V y2) y3 of (saved, y4) \<Rightarrow>
                (if saved then MEMCACHED_ERR_KV else MEMCACHED_ALLOC_FAIL, y4))
          else if st = KEY_IS_NEW \<or> st = KEY_NO_VALUE then
            let y2 = count (\<lambda>s. s\<lparr>st_touch_miss := st_touch_miss s + 1\<rparr>) y1 in
            (MEMCACHED_OK, if nkeys = 1 then mc_say V ''END'' y2 else y2)
          else (MEMCACHED_ERR_KV, y1)))"

definition mc_bin_retr_touch :: "'e mc_env \<Rightarrow> mc_msg \<Rightarrow> 'e mst \<Rightarrow> (memcached_status \<times> 'e mst) option" where
  "mc_bin_retr_touch V m y =
     (case mc_key_write V m (count (\<lambda>s. s\<lparr>st_touch_cnt := st_touch_cnt s + 1\<rparr>) y) MD_STRING of (st, y1) \<Rightarrow>
        Some (if st = KEY_OK then
            let y2 = y_value V (count (\<lambda>s. s\<lparr>st_touch_hit := st_touch_hit s + 1\<rparr>) y1) in
            if y_kstatus y2 \<noteq> KEY_OK then (MEMCACHED_ERR_KV, y2)
            else let y3 = mc_ttl_stamp V m y2 in (MEMCACHED_OK, mc_reply (send_bin_value V m (y_data V y2) y3) y3)
          else if st = KEY_IS_NEW \<or> st = KEY_NO_VALUE then
            (MEMCACHED_OK, bin_not_found V m (count (\<lambda>s. s\<lparr>st_touch_miss := st_touch_miss s + 1\<rparr>) y1))
          else (MEMCACHED_ERR_KV, y1)))"

section \<open>Removing and touching\<close>

text \<open>The key is read first, so that a miss does not make an entry.\<close>

definition del_key :: "'e mc_env \<Rightarrow> mc_msg \<Rightarrow> 'e mst \<Rightarrow> bool \<times> 'e mst" where
  "del_key V m y =
     (case mc_key_fetch V m True y of (st, y1) \<Rightarrow>
        let (del, y2) =
          (if st = KEY_OK then
             (case mc_key_fetch V m False y1 of (st2, y2) \<Rightarrow>
                if st2 = KEY_OK then (True, y2\<lparr>y_ent := mo_tombstone (v_mc V) (y_ent y2)\<rparr>) else (False, y2))
           else (False, y1)) in
        (del, count (\<lambda>s. if del then s\<lparr>st_delete_hit := st_delete_hit s + 1\<rparr>
                         else s\<lparr>st_delete_miss := st_delete_miss s + 1\<rparr>) y2))"

definition mc_del :: "'e mc_env \<Rightarrow> mc_msg \<Rightarrow> 'e mst \<Rightarrow> (memcached_status \<times> 'e mst) option" where
  "mc_del V m y =
     (case del_key V m y of (del, y1) \<Rightarrow>
        Some (MEMCACHED_OK, unless_quiet m (mc_say V (if del then ''DELETED'' else ''NOT_FOUND'')) y1))"

definition mc_bin_del :: "'e mc_env \<Rightarrow> mc_msg \<Rightarrow> 'e mst \<Rightarrow> (memcached_status \<times> 'e mst) option" where
  "mc_bin_del V m y =
     (case del_key V m y of (del, y1) \<Rightarrow>
        Some (MEMCACHED_OK, unless_quiet m (mc_reply
          (if del then if v_ok V then bin_reply_hdr (v_util V) m 0 0 0 0 0 else []
           else send_bin_status (v_util V) (v_ok V) m MS_NOT_FOUND None)) y1))"

text \<open>TOUCH: whether the key was there, or nothing when the key store fails.\<close>

definition touch_key :: "'e mc_env \<Rightarrow> mc_msg \<Rightarrow> 'e mst \<Rightarrow> bool option \<times> 'e mst" where
  "touch_key V m y =
     (case mc_key_write V m (count (\<lambda>s. s\<lparr>st_touch_cnt := st_touch_cnt s + 1\<rparr>) y) MD_STRING of (st, y1) \<Rightarrow>
        if st = KEY_OK then (Some True, mc_ttl_stamp V m (count (\<lambda>s. s\<lparr>st_touch_hit := st_touch_hit s + 1\<rparr>) y1))
        else if st = KEY_IS_NEW \<or> st = KEY_NO_VALUE then
          (Some False, count (\<lambda>s. s\<lparr>st_touch_miss := st_touch_miss s + 1\<rparr>) y1)
        else (None, y1))"

definition mc_touch :: "'e mc_env \<Rightarrow> mc_msg \<Rightarrow> 'e mst \<Rightarrow> (memcached_status \<times> 'e mst) option" where
  "mc_touch V m y =
     (case touch_key V m y of
        (None, y1) \<Rightarrow> Some (MEMCACHED_ERR_KV, y1)
      | (Some hit, y1) \<Rightarrow>
          Some (MEMCACHED_OK, unless_quiet m (mc_say V (if hit then ''TOUCHED'' else ''NOT_FOUND'')) y1))"

definition mc_bin_touch :: "'e mc_env \<Rightarrow> mc_msg \<Rightarrow> 'e mst \<Rightarrow> (memcached_status \<times> 'e mst) option" where
  "mc_bin_touch V m y =
     (case touch_key V m y of
        (None, y1) \<Rightarrow> Some (MEMCACHED_ERR_KV, y1)
      | (Some hit, y1) \<Rightarrow>
          Some (MEMCACHED_OK, unless_quiet m (mc_reply
            (if hit then send_bin_value V m [] y1
             else send_bin_status (v_util V) (v_ok V) m MS_NOT_FOUND None)) y1))"

section \<open>Counting\<close>

definition add_to :: "mc_msg \<Rightarrow> u64 \<Rightarrow> u64" where
  "add_to m ival =
     (if command m = Some MC_INCR then ival + mc_inc m
      else if ival > mc_inc m then ival - mc_inc m else 0)"

definition count_hit :: "mc_msg \<Rightarrow> 'e mst \<Rightarrow> 'e mst" where
  "count_hit m = count (\<lambda>s. if command m = Some MC_INCR then s\<lparr>st_incr_hit := st_incr_hit s + 1\<rparr>
                             else s\<lparr>st_decr_hit := st_decr_hit s + 1\<rparr>)"

definition count_miss :: "mc_msg \<Rightarrow> 'e mst \<Rightarrow> 'e mst" where
  "count_miss m = count (\<lambda>s. if command m = Some MC_INCR then s\<lparr>st_incr_miss := st_incr_miss s + 1\<rparr>
                              else s\<lparr>st_decr_miss := st_decr_miss s + 1\<rparr>)"

text \<open>The result is printed to the stream without a test of the memory. The NOT_FOUND of a miss is
  written but not counted as output, so it is not sent.\<close>

definition mc_incr :: "'e mc_env \<Rightarrow> mc_msg \<Rightarrow> 'e mst \<Rightarrow> (memcached_status \<times> 'e mst) option" where
  "mc_incr V m y =
     (case mc_key_write V m y MD_STRING of (st, y1) \<Rightarrow>
        if st = KEY_OK then
          let y2 = y_value V y1 in
          if y_kstatus y2 \<noteq> KEY_OK then Some (MEMCACHED_ERR_KV, y2)
          else (case string_to_uint (y_data V y2) of
              Inl _ \<Rightarrow> Some (MEMCACHED_OK, mc_reply (send_err (v_util V) (v_ok V) (v_kv_text V) m MEMCACHED_BAD_INCR KEY_OK) y2)
            | Inr ival \<Rightarrow>
                if \<not> v_ok V then None
                else
                  let str = uint64_to_string (v_util V) (unat (add_to m ival));
                      y3 = y_resize V (length str) False (count_hit m y2) in
                  if y_kstatus y3 \<noteq> KEY_OK then Some (MEMCACHED_ERR_KV, y3)
                  else do {
                    d \<leftarrow> mem_copy 0 str (y_data V y3);
                    Some (MEMCACHED_OK, mc_reply (str @ crlf) (y_put V d y3)) })
        else if st = KEY_IS_NEW \<or> st = KEY_NO_VALUE then Some (MEMCACHED_OK, count_miss m y1)
        else Some (MEMCACHED_ERR_KV, y1))"

definition bin_incr_store :: "'e mc_env \<Rightarrow> mc_msg \<Rightarrow> u64 \<Rightarrow> 'e mst \<Rightarrow> (memcached_status \<times> 'e mst) option" where
  "bin_incr_store V m ival y =
     (let str = uint64_to_string (v_util V) (unat ival); y1 = y_resize V (length str) False y in
      if y_kstatus y1 \<noteq> KEY_OK then Some (MEMCACHED_ERR_KV, y1)
      else do {
        d \<leftarrow> mem_copy 0 str (y_data V y1);
        let y2 = y_put V d y1;
        Some (MEMCACHED_OK, mc_reply (if v_ok V
          then bin_reply_hdr (v_util V) m 0 0 0 8 (cas_number V y2) @ word_bytes 8 (kv_bswap64 (v_util V) ival) else []) y2) })"

definition mc_bin_incr :: "'e mc_env \<Rightarrow> mc_msg \<Rightarrow> 'e mst \<Rightarrow> (memcached_status \<times> 'e mst) option" where
  "mc_bin_incr V m y =
     (case mc_key_write V m y MD_STRING of (st, y1) \<Rightarrow>
        if st = KEY_OK then
          let y2 = y_value V y1 in
          if y_kstatus y2 \<noteq> KEY_OK then Some (MEMCACHED_ERR_KV, y2)
          else (case string_to_uint (y_data V y2) of
              Inl _ \<Rightarrow> Some (MEMCACHED_OK, mc_reply (send_bin_status (v_util V) (v_ok V) m MS_BAD_INCR_VALUE None) y2)
            | Inr ival \<Rightarrow> bin_incr_store V m (add_to m ival) (count_hit m y2))
        else if st = KEY_IS_NEW \<or> st = KEY_NO_VALUE then bin_incr_store V m (mc_ini m) (count_miss m y1)
        else Some (MEMCACHED_ERR_KV, y1))"

section \<open>The switch\<close>

definition mc_handler :: "'e mc_env \<Rightarrow> mc_msg \<Rightarrow> nat \<Rightarrow> 'e mst \<Rightarrow> (memcached_status \<times> 'e mst) option" where
  "mc_handler V m nkeys y =
     (case command m of
        None \<Rightarrow> Some (MEMCACHED_NOT_IMPL, y)
      | Some c \<Rightarrow>
        if c \<in> {MC_SET, MC_ADD, MC_APPEND, MC_REPLACE, MC_PREPEND, MC_CAS}
        then (if is_binary m then mc_bin_store V m y else mc_store V m y)
        else if c \<in> {MC_GET, MC_GETS} then (if is_binary m then mc_bin_retr V m y else mc_retr V m nkeys y)
        else if c \<in> {MC_GAT, MC_GATS} then (if is_binary m then mc_bin_retr_touch V m y else mc_retr_touch V m nkeys y)
        else if c = MC_DELETE then (if is_binary m then mc_bin_del V m y else mc_del V m y)
        else if c = MC_TOUCH then (if is_binary m then mc_bin_touch V m y else mc_touch V m y)
        else if c \<in> {MC_DECR, MC_INCR} then (if is_binary m then mc_bin_incr V m y else mc_incr V m y)
        else Some (MEMCACHED_NOT_IMPL, y))"

text \<open>A key that was written gets its type and is released; the handler runs again while a read saw
  the key change.\<close>

definition mc_after :: "'e mc_env \<Rightarrow> 'e mst \<Rightarrow> 'e mst" where
  "mc_after V y =
     (if EKF_IS_READ_ONLY \<in> y_flags y then y
      else
        let y1 = (if y_new y \<and> memcached_status_success (y_status y)
              then y\<lparr>y_ent := op_set_type (v_ops V) (y_ent y) (if y_type y = MD_NODATA then MD_STRING else y_type y)\<rparr> else y) in
        y1\<lparr>y_ent := op_release (v_ops V) (y_ent y1)\<rparr>)"

partial_function (option) mc_run_key :: "'e mc_env \<Rightarrow> mc_msg \<Rightarrow> nat \<Rightarrow> 'e mst \<Rightarrow> (bool \<times> 'e mst) option" where
  "mc_run_key V m nkeys y =
     (case mc_handler V m nkeys y of
        None \<Rightarrow> None
      | Some (st, y1) \<Rightarrow>
        let y2 = mc_after V (y1\<lparr>y_status := st\<rparr>) in
        if st = MEMCACHED_DEPENDS then Some (True, y2\<lparr>y_dep := y_dep y2 + 1\<rparr>)
        else if st \<noteq> MEMCACHED_ERR_KV \<or> y_kstatus y2 \<noteq> KEY_MUTATED then Some (False, y2)
        else mc_run_key V m nkeys y2)"

section \<open>A command over its keys\<close>

record 'e mc_run =
  n_msg :: mc_msg
  n_keys :: "'e mst list"
  n_done :: nat
  n_out :: "byte list"
  n_stat :: mc_stat

abbreviation mc_set_key :: "nat \<Rightarrow> 'e mst \<Rightarrow> 'e mc_run \<Rightarrow> 'e mc_run" where
  "mc_set_key i y r \<equiv> r\<lparr>n_keys := (n_keys r)[i := y]\<rparr>"

text \<open>The saved values in the order of the keys, and the end.\<close>

definition multi_get_send :: "'e mc_env \<Rightarrow> 'e mst list \<Rightarrow> byte list" where
  "multi_get_send V ys =
     concat (map (\<lambda>y. case y_part y of None \<Rightarrow> [] | Some (_, s) \<Rightarrow> s) ys) @ mc_string (v_ok V) (ascii ''END'')"

definition mc_err :: "'e mc_env \<Rightarrow> 'e mc_run \<Rightarrow> memcached_status \<Rightarrow> key_status \<Rightarrow> 'e mc_run" where
  "mc_err V r st kst =
     r\<lparr>n_out := n_out r @ (if st = MEMCACHED_OK then [] else send_err (v_util V) (v_ok V) (v_kv_text V) (n_msg r) st kst)\<rparr>"

definition mc_key_finished :: "'e mc_env \<Rightarrow> 'e mc_run \<Rightarrow> nat \<Rightarrow> memcached_status \<times> 'e mc_run" where
  "mc_key_finished V r0 i =
     (let r = r0\<lparr>n_done := n_done r0 + 1\<rparr>; y = n_keys r ! i; cnt = length (n_keys r) in
      if n_done r < cnt then
        if memcached_status_success (y_status y) then (MEMCACHED_CONTINUE, r)
        else (MEMCACHED_CONTINUE, mc_err V (r\<lparr>n_keys := map (\<lambda>z. z\<lparr>y_status := y_status y\<rparr>) (n_keys r)\<rparr>) (y_status y) (y_kstatus y))
      else if cnt > 1 then
        (MEMCACHED_SUCCESS,
          if memcached_status_success (y_status y) then r\<lparr>n_out := n_out r @ multi_get_send V (n_keys r)\<rparr> else r)
      else (MEMCACHED_SUCCESS, mc_err V r (y_status y) (y_kstatus y)))"

definition mc_active :: "'e mst \<Rightarrow> bool" where
  "mc_active y \<longleftrightarrow> y_status y = MEMCACHED_CONTINUE \<or> y_status y = MEMCACHED_DEPENDS"

definition mc_key_continue :: "'e mc_env \<Rightarrow> 'e mc_run \<Rightarrow> nat \<Rightarrow> (memcached_status \<times> 'e mc_run) option" where
  "mc_key_continue V r i =
     (let y = n_keys r ! i in
      if mc_pad (n_msg r) \<noteq> 0xaa then Some (mc_key_finished V (mc_set_key i (y\<lparr>y_status := MEMCACHED_BAD_PAD\<rparr>) r) i)
      else if \<not> mc_active y then
        Some (if n_done r + 1 < length (n_keys r) then MEMCACHED_CONTINUE else MEMCACHED_SUCCESS, r\<lparr>n_done := n_done r + 1\<rparr>)
      else
        (case mc_run_key V (n_msg r) (length (n_keys r)) (y\<lparr>y_out := n_out r, y_stat := n_stat r\<rparr>) of
           None \<Rightarrow> None
         | Some (depends, y1) \<Rightarrow>
           let r1 = mc_set_key i y1 (r\<lparr>n_out := y_out y1, n_stat := y_stat y1\<rparr>) in
           Some (if depends then (MEMCACHED_DEPENDS, r1) else mc_key_finished V r1 i)))"

partial_function (option) mc_run_single :: "'e mc_env \<Rightarrow> 'e mc_run \<Rightarrow> 'e mc_run option" where
  "mc_run_single V r =
     (if mc_active (n_keys r ! 0) then
        (case mc_key_continue V r 0 of None \<Rightarrow> None
         | Some (st, r1) \<Rightarrow> if st = MEMCACHED_SUCCESS then Some r1 else mc_run_single V r1)
      else Some r)"

partial_function (option) mc_run_cycle :: "'e mc_env \<Rightarrow> 'e mc_run \<Rightarrow> nat \<Rightarrow> nat \<Rightarrow> 'e mc_run option" where
  "mc_run_cycle V r i j =
     (let cnt = length (n_keys r); next = (if i + 1 = cnt then 0 else i + 1) in
      if mc_active (n_keys r ! i) then
        (case mc_key_continue V r i of None \<Rightarrow> None
         | Some (st, r1) \<Rightarrow> if st = MEMCACHED_SUCCESS then Some r1 else mc_run_cycle V r1 next 0)
      else if j + 1 = cnt then Some r
      else mc_run_cycle V r next (j + 1))"

definition mc_run_to_completion :: "'e mc_env \<Rightarrow> 'e mc_run \<Rightarrow> 'e mc_run option" where
  "mc_run_to_completion V r = (if length (n_keys r) = 1 then mc_run_single V r else mc_run_cycle V r 0 0)"

section \<open>What the handlers rely on\<close>

locale mc_entry = kv_entry K for K :: "'e kv_ops" +
  fixes M :: "'e mc_ops"
  assumes get_set_val: "mo_get_val M (mo_set_val M e v) = v"
    and mo_val_data: "op_data K (mo_set_val M e v) = op_data K e"
    and mo_val_type: "op_get_type K (mo_set_val M e v) = op_get_type K e"
    and type_set: "op_get_type K (op_set_type K e t) = t"
    and type_val: "mo_get_val M (op_set_type K e t) = mo_get_val M e"
    and resize_type: "op_resize K e n cp = (KEY_OK, e') \<Longrightarrow> op_get_type K e' = op_get_type K e"
    and put_type: "op_get_type K (op_set_data K e bs) = op_get_type K e"
    and update_type: "op_get_type K (op_update_stamps K e a b) = op_get_type K e"
    and clear_type: "op_get_type K (op_clear_stamps K e x y) = op_get_type K e"
    and found_again: "op_find K (op_release K e) = (KEY_OK, e') \<Longrightarrow>
          op_data K e' = op_data K e \<and> mo_get_val M e' = mo_get_val M e \<and> op_get_type K e' = op_get_type K e"

text \<open>The key store has memory for every size.\<close>

definition roomy :: "'e kv_ops \<Rightarrow> bool" where
  "roomy K \<longleftrightarrow> (\<forall>e n cp. fst (op_resize K e n cp) = KEY_OK) \<and> (\<forall>e. op_get_size K e = KEY_OK)"

lemma roomyE:
  assumes "roomy K"
  obtains e' where "op_resize K e n cp = (KEY_OK, e')"
  using assms unfolding roomy_def by (metis prod.collapse)

lemma y_sel [simp]:
  "y_kstatus (count f y) = y_kstatus y" "y_ent (count f y) = y_ent y" "y_flags (count f y) = y_flags y"
  "y_type (count f y) = y_type y" "y_out (count f y) = y_out y" "y_key (count f y) = y_key y" "y_part (count f y) = y_part y"
  "y_new (count f y) = y_new y" "y_data V (count f y) = y_data V y"
  by (simp_all add: count_def y_new_def y_data_def)

lemma y_stamp_sel [simp]:
  "y_flags (mc_ttl_stamp V m y) = y_flags y" "y_type (mc_ttl_stamp V m y) = y_type y" "y_out (mc_ttl_stamp V m y) = y_out y"
  "y_key (mc_ttl_stamp V m y) = y_key y"
  by (simp_all add: mc_ttl_stamp_def Let_def)

lemma y_set_val_sel [simp]:
  "y_flags (y_set_val V v y) = y_flags y" "y_type (y_set_val V v y) = y_type y" "y_out (y_set_val V v y) = y_out y"
  "y_ent (y_set_val V v y) = mo_set_val (v_mc V) (y_ent y) v"
  by (simp_all add: y_set_val_def)

lemma y_put_sel [simp]:
  "y_flags (y_put V bs y) = y_flags y" "y_type (y_put V bs y) = y_type y" "y_out (y_put V bs y) = y_out y"
  "y_kstatus (y_put V bs y) = y_kstatus y" "y_ent (y_put V bs y) = op_set_data (v_ops V) (y_ent y) bs"
  by (simp_all add: y_put_def)

lemma stamp_data: "kv_entry (v_ops V) \<Longrightarrow> y_data V (mc_ttl_stamp V m y) = y_data V y"
  by (simp add: mc_ttl_stamp_def y_data_def Let_def kv_entry.update_stamps kv_entry.clear_stamps)

lemma stamp_type: "mc_entry (v_ops V) (v_mc V) \<Longrightarrow>
    op_get_type (v_ops V) (y_ent (mc_ttl_stamp V m y)) = op_get_type (v_ops V) (y_ent y)"
  by (simp add: mc_ttl_stamp_def Let_def mc_entry.update_type mc_entry.clear_type)

text \<open>The access to write, and what is there of old.\<close>

definition mc_old :: "'e kv_ops \<Rightarrow> key_status \<Rightarrow> 'e \<Rightarrow> byte list option" where
  "mc_old K st e = (if st = KEY_OK \<and> op_get_type K e = MD_STRING then Some (op_data K e) else None)"

lemma store_is_write: "command m = Some c \<Longrightarrow> c \<in> store_cmds \<Longrightarrow> \<not> test_read_only m \<and> test_mutator m"
  by (auto simp: test_read_only_def test_mutator_def read_only_def mutator_def store_cmds_def)

lemma key_write_string:
  assumes "\<not> test_read_only m \<and> test_mutator m" "op_acquire (v_ops V) (y_ent y) = (st, e)" "st = KEY_OK \<or> st = KEY_IS_NEW"
    "EKF_IS_NEW \<notin> y_flags y"
  obtains st' y1 where "mc_key_write V m y MD_STRING = (st', y1)" "st' = KEY_NO_VALUE \<or> st' = KEY_OK \<or> st' = KEY_IS_NEW"
    "y_ent (overwrite st' y1) = e" "y_out (overwrite st' y1) = y_out y" "y_stat (overwrite st' y1) = y_stat y"
    "EKF_IS_READ_ONLY \<notin> y_flags (overwrite st' y1)" "y_key (overwrite st' y1) = y_key y"
    "y_new (overwrite st' y1) \<longleftrightarrow> mc_old (v_ops V) st e = None"
    "st' = KEY_OK \<longleftrightarrow> mc_old (v_ops V) st e \<noteq> None"
    "y_type y = MD_NODATA \<longrightarrow> y_new (overwrite st' y1) \<longrightarrow> y_type (overwrite st' y1) \<in> {MD_NODATA, MD_STRING}"
proof -
  let ?y = "y\<lparr>y_kstatus := st, y_ent := e,
      y_flags := (y_flags y \<union> (if st = KEY_IS_NEW then {EKF_IS_NEW} else {})) - {EKF_IS_READ_ONLY}\<rparr>"
  let ?z = "if st = KEY_OK then ?y\<lparr>y_type := op_get_type (v_ops V) e\<rparr> else ?y"
  have f: "mc_key_fetch V m False y = (st, ?z)" using assms(1,2) by (simp add: mc_key_fetch_def Let_def)
  show thesis
    using assms(3,4)
    by (intro that [of "fst (mc_key_write V m y MD_STRING)" "snd (mc_key_write V m y MD_STRING)"])
      (auto simp: mc_key_write_def f overwrite_def y_new_def mc_old_def split: if_splits)
qed

lemma store_data_ok:
  assumes "mc_entry (v_ops V) (v_mc V)" "roomy (v_ops V)" "mc_data m = Some val"
  obtains y' where "store_data V m y = Some y'" "y_kstatus y' = KEY_OK" "y_flags y' = y_flags y" "y_out y' = y_out y"
    "y_type y' = y_type y" "op_get_type (v_ops V) (y_ent y') = op_get_type (v_ops V) (y_ent y)"
    "y_data V y' = (if MC_DO_PEND \<in> store_flags m
       then if command m = Some MC_PREPEND then val @ y_data V y else y_data V y @ val else val)"
proof -
  let ?K = "v_ops V"
  have K: "kv_entry ?K" using assms(1) by (rule mc_entry.axioms)
  note type = mc_entry.resize_type [OF assms(1)] mc_entry.put_type [OF assms(1)]
  show thesis
  proof (cases "MC_DO_PEND \<in> store_flags m")
    case False
    obtain e where e: "op_resize ?K (y_ent y) (length val) False = (KEY_OK, e)" by (rule roomyE [OF assms(2)])
    have l: "length (op_data ?K e) = length val" by (rule kv_entry.resize_length [OF K e])
    show thesis
      by (rule that [of "y_put V val (y\<lparr>y_kstatus := KEY_OK, y_ent := e\<rparr>)"])
        (simp_all add: store_data_def Let_def False assms(3) y_resize_def e y_data_def mem_copy_def l type type(1) [OF e]
          kv_entry.set_data [OF K])
  next
    case True
    let ?n = "length (op_data ?K (y_ent y))"
    have g: "op_get_size ?K (y_ent y) = KEY_OK" using assms(2) by (simp add: roomy_def)
    obtain e where e: "op_resize ?K (y_ent y) (?n + length val) True = (KEY_OK, e)" by (rule roomyE [OF assms(2)])
    have l: "length (op_data ?K e) = ?n + length val" by (rule kv_entry.resize_length [OF K e])
    have old: "take ?n (op_data ?K e) = op_data ?K (y_ent y)" using kv_entry.resize_take [OF K e, of ?n] by simp
    let ?y = "y\<lparr>y_kstatus := KEY_OK, y_ent := e\<rparr>"
    show thesis
    proof (cases "command m = Some MC_PREPEND")
      case False
      show thesis
        by (rule that [of "y_put V (op_data ?K (y_ent y) @ val) ?y"])
          (simp_all add: store_data_def Let_def True False assms(3) y_resize_def g e y_data_def mem_copy_def l old type
            type(1) [OF e] kv_entry.set_data [OF K])
    next
      case p: True
      have c: "mem_copy (length val) (take ?n (op_data ?K e)) (op_data ?K e) = Some (take (length val) (op_data ?K e) @ op_data ?K (y_ent y))"
        by (simp add: mem_copy_def l old)
      show thesis
        by (rule that [of "y_put V (val @ op_data ?K (y_ent y)) ?y"])
          (simp_all add: store_data_def Let_def True p assms(3) y_resize_def g e y_data_def c l type
            type(1) [OF e] kv_entry.set_data [OF K], simp add: mem_copy_def l)
    qed
  qed
qed

text \<open>What each command stores, given what is there: nothing where it refuses.\<close>

fun store_spec :: "memcached_cmd \<Rightarrow> byte list option \<Rightarrow> byte list \<Rightarrow> byte list option" where
  "store_spec MC_SET old v = Some v"
| "store_spec MC_ADD old v = (case old of None \<Rightarrow> Some v | Some _ \<Rightarrow> None)"
| "store_spec MC_REPLACE old v = (case old of None \<Rightarrow> None | Some _ \<Rightarrow> Some v)"
| "store_spec MC_APPEND old v = map_option (\<lambda>d. d @ v) old"
| "store_spec MC_PREPEND old v = map_option (\<lambda>d. v @ d) old"
| "store_spec _ old v = None"

lemma store_test_spec:
  assumes "command m = Some c" "c \<in> store_cmds" "mc_cas m = 0"
  shows "store_test V m r y = (if store_spec c (if y_new y then None else Some d) v = None
    then (Some (if y_new y then NotStored else r), y) else (None, y))"
  using assms by (auto simp: store_cmds_def store_test_def store_flags_def Let_def)

lemma mc_store_ok:
  assumes "mc_entry (v_ops V) (v_mc V)" "roomy (v_ops V)" "v_ok V" "c \<in> store_cmds" "store_msg c key flags ttl val quiet m"
    "op_acquire (v_ops V) (y_ent y) = (st, e)" "st = KEY_OK \<or> st = KEY_IS_NEW" "EKF_IS_NEW \<notin> y_flags y"
  shows "\<exists>y'. mc_store V m y = Some (MEMCACHED_OK, y') \<and> EKF_IS_READ_ONLY \<notin> y_flags y'
    \<and> (y_new y' \<longleftrightarrow> mc_old (v_ops V) st e = None)
    \<and> (y_type y = MD_NODATA \<longrightarrow> y_new y' \<longrightarrow> y_type y' \<in> {MD_NODATA, MD_STRING})
    \<and> (case store_spec c (mc_old (v_ops V) st e) val of
         None \<Rightarrow> y_ent y' = e \<and> y_out y' = y_out y @ (if quiet then [] else ascii ''NOT_STORED'' @ crlf)
       | Some d \<Rightarrow> op_data (v_ops V) (y_ent y') = d \<and> mo_get_val (v_mc V) (y_ent y') = flags
           \<and> op_get_type (v_ops V) (y_ent y') = op_get_type (v_ops V) e
           \<and> y_out y' = y_out y @ (if quiet then [] else ascii ''STORED'' @ crlf))"
proof -
  let ?K = "v_ops V" and ?y0 = "count (\<lambda>s. s\<lparr>st_set_cnt := st_set_cnt s + 1\<rparr>) y"
  have K: "kv_entry ?K" using assms(1) by (rule mc_entry.axioms)
  have m: "command m = Some c" "mc_cas m = 0" "mc_data m = Some val" "is_quiet m = quiet" "mc_flags m = flags"
    using assms(5) by (simp_all add: store_msg_def)
  have y0: "op_acquire ?K (y_ent ?y0) = (st, e)" "EKF_IS_NEW \<notin> y_flags ?y0" using assms(6,8) by simp_all
  obtain st' y1 where w: "mc_key_write V m ?y0 MD_STRING = (st', y1)" "st' = KEY_NO_VALUE \<or> st' = KEY_OK \<or> st' = KEY_IS_NEW"
    "y_ent (overwrite st' y1) = e" "y_out (overwrite st' y1) = y_out ?y0" "y_stat (overwrite st' y1) = y_stat ?y0"
    "EKF_IS_READ_ONLY \<notin> y_flags (overwrite st' y1)" "y_key (overwrite st' y1) = y_key ?y0"
    "y_new (overwrite st' y1) \<longleftrightarrow> mc_old ?K st e = None"
    "st' = KEY_OK \<longleftrightarrow> mc_old ?K st e \<noteq> None"
    "y_type ?y0 = MD_NODATA \<longrightarrow> y_new (overwrite st' y1) \<longrightarrow> y_type (overwrite st' y1) \<in> {MD_NODATA, MD_STRING}"
    by (rule key_write_string [OF store_is_write [OF m(1) assms(4)] y0(1) assms(7) y0(2)])
  let ?y = "overwrite st' y1"
  have old: "(if y_new ?y then None else Some (op_data ?K e)) = mc_old ?K st e"
    using w(8) by (auto simp: mc_old_def)
  note t = store_test_spec [OF m(1) assms(4) m(2), where V = V and r = NotStored and y = ?y and d = "op_data ?K e" and v = val, unfolded old]
  show ?thesis
  proof (cases "store_spec c (mc_old ?K st e) val")
    case None
    then show ?thesis using w t m assms(3)
      by (cases quiet) (simp_all add: mc_store_def unless_quiet_def refusal_text_def mc_string_def y_new_def)
  next
    case (Some d)
    obtain y3 where y3: "store_data V m (mc_ttl_stamp V m ?y) = Some y3" "y_kstatus y3 = KEY_OK" "y_flags y3 = y_flags ?y"
      "y_out y3 = y_out ?y" "y_type y3 = y_type ?y" "op_get_type ?K (y_ent y3) = op_get_type ?K e"
      "y_data V y3 = (if MC_DO_PEND \<in> store_flags m
         then if command m = Some MC_PREPEND then val @ op_data ?K e else op_data ?K e @ val else val)"
      using store_data_ok [OF assms(1,2) m(3), of "mc_ttl_stamp V m ?y"] stamp_data [OF K, of m ?y] stamp_type [OF assms(1), of m ?y] w(3)
      by (metis y_data_def y_stamp_sel(1-3))
    have "y_data V y3 = d"
      using y3(7) Some m(1,2) assms(4) by (auto simp: store_cmds_def store_flags_def mc_old_def split: option.splits if_splits)
    then have d: "op_data ?K (y_ent y3) = d" by (simp add: y_data_def)
    let ?y4 = "y_set_val V flags y3"
    have st: "\<not> (st' \<noteq> KEY_NO_VALUE \<and> st' \<noteq> KEY_OK \<and> st' \<noteq> KEY_IS_NEW)" using w(2) by blast
    have s: "mc_store V m y = Some (MEMCACHED_OK, unless_quiet m (mc_say V ''STORED'') ?y4)"
      using w(1) st t Some y3(1,2) m(5) by (simp add: mc_store_def)
    show ?thesis
      unfolding s using w(4,6,8,10) y3(3-6) d m(4) assms(3) Some
      by (auto simp: unless_quiet_def mc_string_def y_new_def mc_entry.get_set_val [OF assms(1)] mc_entry.mo_val_data [OF assms(1)]
          mc_entry.mo_val_type [OF assms(1)])
  qed
qed

end
