(* ===== verification/Mc_Run.thy ===== *)
theory Mc_Run
  imports Mc_Exec
begin

text \<open>
  The run of a memcached command over its keys on a store in memory, and what the commands do as a whole: GET
  of many keys, INCR and DECR, the cases in which nothing or the wrong reply is sent.
\<close>

section \<open>A store in memory\<close>

record mc_mem =
  mm_base :: mem_entry
  mm_val :: u32
  mm_serial :: u64

definition with_base :: "mc_mem \<Rightarrow> key_status \<times> mem_entry \<Rightarrow> key_status \<times> mc_mem" where
  "with_base e r = (fst r, e\<lparr>mm_base := snd r\<rparr>)"

text \<open>An entry is there once it has memory for data; a new one that gets none is not there after its release.\<close>

definition mc_mem_ops :: "mc_mem kv_ops" where
  "mc_mem_ops =
     \<lparr>op_find = (\<lambda>e. with_base e (op_find mem_ops (mm_base e))),
      op_acquire = (\<lambda>e. if me_exists (mm_base e) then (KEY_OK, e)
          else (KEY_IS_NEW, e\<lparr>mm_base := (mm_base e)\<lparr>me_type := MD_NODATA, me_data := [], me_expires := 0\<rparr>\<rparr>)),
      op_is_expired = (\<lambda>e. op_is_expired mem_ops (mm_base e)),
      op_expire = (\<lambda>e. e\<lparr>mm_base := op_expire mem_ops (mm_base e)\<rparr>),
      op_release = (\<lambda>e. e\<lparr>mm_serial := mm_serial e + 1\<rparr>),
      op_get_type = (\<lambda>e. op_get_type mem_ops (mm_base e)),
      op_value = (\<lambda>e. KEY_OK),
      op_get_size = (\<lambda>e. KEY_OK),
      op_resize = (\<lambda>e n cp. with_base e (op_resize mem_ops ((mm_base e)\<lparr>me_exists := True\<rparr>) n cp)),
      op_validate = (\<lambda>e. KEY_OK),
      op_data = (\<lambda>e. op_data mem_ops (mm_base e)),
      op_set_data = (\<lambda>e bs. e\<lparr>mm_base := op_set_data mem_ops (mm_base e) bs\<rparr>),
      op_update_stamps = (\<lambda>e x u. e\<lparr>mm_base := op_update_stamps mem_ops (mm_base e) x u\<rparr>),
      op_clear_stamps = (\<lambda>e x u. e\<lparr>mm_base := op_clear_stamps mem_ops (mm_base e) x u\<rparr>),
      op_current_stamp = (\<lambda>e. op_current_stamp mem_ops (mm_base e)),
      op_set_type = (\<lambda>e ty. e\<lparr>mm_base := op_set_type mem_ops (mm_base e) ty\<rparr>),
      op_set_val = (\<lambda>e. e\<lparr>mm_val := 0\<rparr>),
      multi_fetch = (\<lambda>e force fl st. (KEY_OK, fl, e))\<rparr>"

definition mc_mem_mc :: "mc_mem mc_ops" where
  "mc_mem_mc = \<lparr>mo_get_val = mm_val, mo_set_val = (\<lambda>e v. e\<lparr>mm_val := v\<rparr>), mo_serial = mm_serial,
     mo_tombstone = (\<lambda>e. e\<lparr>mm_base := (mm_base e)\<lparr>me_exists := False\<rparr>\<rparr>)\<rparr>"

interpretation mc_mem: mc_entry mc_mem_ops mc_mem_mc
  by unfold_locales
    (auto simp: mc_mem_ops_def mc_mem_mc_def mem_ops_def with_base_def nth_append split: if_splits)

lemma mc_mem_roomy: "roomy mc_mem_ops"
  by (simp add: roomy_def mc_mem_ops_def mem_ops_def with_base_def)

definition mc_mem_env :: "mc_mem mc_env" where
  "mc_mem_env = \<lparr>v_ops = mc_mem_ops, v_mc = mc_mem_mc, v_util = int_str_util, v_ok = True, v_kv_text = (\<lambda>_. [])\<rparr>"

lemma mc_mem_env_sel [simp]:
  "v_ops mc_mem_env = mc_mem_ops" "v_mc mc_mem_env = mc_mem_mc" "v_util mc_mem_env = int_str_util" "v_ok mc_mem_env"
  by (simp_all add: mc_mem_env_def)

definition zero_stat :: mc_stat where
  "zero_stat = \<lparr>st_get_cnt = 0, st_set_cnt = 0, st_touch_cnt = 0, st_get_hit = 0, st_get_miss = 0, st_delete_miss = 0,
     st_delete_hit = 0, st_incr_miss = 0, st_incr_hit = 0, st_decr_miss = 0, st_decr_hit = 0, st_cas_miss = 0,
     st_cas_hit = 0, st_cas_badval = 0, st_touch_hit = 0, st_touch_miss = 0\<rparr>"

text \<open>A key with data, or without.\<close>

definition sample_mem :: "bool \<Rightarrow> md_type \<Rightarrow> byte list \<Rightarrow> u64 \<Rightarrow> mc_mem" where
  "sample_mem there ty d exp = \<lparr>mm_base = \<lparr>me_exists = there, me_type = ty, me_data = d, me_expires = exp, me_now = 100\<rparr>,
     mm_val = 3, mm_serial = 8\<rparr>"

definition sample_y :: "mc_mem \<Rightarrow> mc_mem mst" where
  "sample_y e = \<lparr>y_ent = e, y_kstatus = KEY_OK, y_status = MEMCACHED_CONTINUE, y_type = MD_NODATA, y_flags = {}, y_dep = 0,
     y_part = None, y_key = ascii ''k'', y_out = [], y_stat = zero_stat\<rparr>"

section \<open>Storing\<close>

text \<open>What the store commands do. With the message the decoder makes of a request and a key store with
  room, SET always stores, ADD only what is not there, REPLACE, APPEND and PREPEND only what is there as a
  string: the data is the new, or the old with the new behind or before it, with the flags of the request, and
  the reply is STORED. A refused command leaves the entry as it found it and replies NOT_STORED. A quiet
  command does the same and replies nothing.\<close>

theorem mc_store_conditions:
  assumes "mc_entry (v_ops V) (v_mc V)" "roomy (v_ops V)" "v_ok V" "c \<in> store_cmds" "store_msg c key flags ttl val quiet m"
    "op_acquire (v_ops V) (y_ent y) = (st, e)" "st = KEY_OK \<or> st = KEY_IS_NEW" "EKF_IS_NEW \<notin> y_flags y"
  shows "\<exists>y'. mc_store V m y = Some (MEMCACHED_OK, y') \<and>
    (case store_spec c (mc_old (v_ops V) st e) val of
       None \<Rightarrow> y_ent y' = e \<and> y_out y' = y_out y @ (if quiet then [] else ascii ''NOT_STORED'' @ crlf)
     | Some d \<Rightarrow> op_data (v_ops V) (y_ent y') = d \<and> mo_get_val (v_mc V) (y_ent y') = flags
         \<and> y_out y' = y_out y @ (if quiet then [] else ascii ''STORED'' @ crlf))"
  using mc_store_ok [OF assms] by (auto split: option.splits)

definition sample_store :: "memcached_cmd \<Rightarrow> mc_msg" where
  "sample_store c = sample_mc\<lparr>mc_args := [ascii ''k''], mc_keycnt := 1, mc_first := 0, mc_flags := 5, mc_ttl := 0, mc_cas := 0,
     mc_msglen := 2, mc_data := Some [1, 2], mc_cmd := cmd_code c, mc_pad := 0xaa\<rparr>"

lemma sample_store_msg: "c \<in> store_cmds \<Longrightarrow> store_msg c (ascii ''k'') 5 0 [1, 2] False (sample_store c)"
  using cmd_loud [of "sample_store c" c] by (simp add: store_msg_def sample_store_def)

lemma sample_acquire:
  "op_acquire mc_mem_ops (y_ent (sample_y (sample_mem True ty d exp))) = (KEY_OK, sample_mem True ty d exp)"
  by (simp add: sample_y_def sample_mem_def mc_mem_ops_def mem_ops_def with_base_def)

theorem mc_store_conditions_witness:
  "(\<exists>y'. mc_store mc_mem_env (sample_store MC_APPEND) (sample_y (sample_mem True MD_STRING [7] 0)) = Some (MEMCACHED_OK, y')
      \<and> op_data mc_mem_ops (y_ent y') = [7, 1, 2] \<and> y_out y' = ascii ''STORED'' @ crlf)
   \<and> (\<exists>y'. mc_store mc_mem_env (sample_store MC_ADD) (sample_y (sample_mem True MD_STRING [7] 0)) = Some (MEMCACHED_OK, y')
      \<and> y_ent y' = sample_mem True MD_STRING [7] 0 \<and> y_out y' = ascii ''NOT_STORED'' @ crlf)"
proof -
  let ?y = "sample_y (sample_mem True MD_STRING [7] 0)" and ?e = "sample_mem True MD_STRING [7] 0"
  have V: "mc_entry (v_ops mc_mem_env) (v_mc mc_mem_env)" "roomy (v_ops mc_mem_env)" "v_ok mc_mem_env"
    using mc_mem.mc_entry_axioms mc_mem_roomy by simp_all
  have a: "op_acquire (v_ops mc_mem_env) (y_ent ?y) = (KEY_OK, ?e)" "EKF_IS_NEW \<notin> y_flags ?y" "y_out ?y = []"
    using sample_acquire by (simp_all add: sample_y_def)
  have old: "mc_old mc_mem_ops KEY_OK ?e = Some [7]"
    by (simp add: mc_old_def mc_mem_ops_def mem_ops_def sample_mem_def)
  have c: "MC_APPEND \<in> store_cmds" "MC_ADD \<in> store_cmds" by (simp_all add: store_cmds_def)
  show ?thesis
    using mc_store_conditions [OF V c(1) sample_store_msg [OF c(1)] a(1) _ a(2)]
      mc_store_conditions [OF V c(2) sample_store_msg [OF c(2)] a(1) _ a(2)]
    by (auto simp: old a(3))
qed

section \<open>Reading what was stored\<close>

lemma mc_run_store:
  assumes "command m = Some c" "c \<in> store_cmds" "\<not> is_binary m" "mc_store V m y = Some (MEMCACHED_OK, y')"
  shows "mc_run_key V m n y = Some (False, mc_after V (y'\<lparr>y_status := MEMCACHED_OK\<rparr>))"
proof -
  have "mc_handler V m n y = Some (MEMCACHED_OK, y')"
    using assms by (auto simp: mc_handler_def store_cmds_def)
  then show ?thesis by (subst mc_run_key.simps) (simp add: Let_def)
qed

lemma mc_retr_ok:
  assumes "command g = Some c" "c \<in> {MC_GET, MC_GETS}" "op_find (v_ops V) (y_ent y) = (KEY_OK, e)"
    "op_get_type (v_ops V) e = MD_STRING" "op_value (v_ops V) e = KEY_OK" "op_validate (v_ops V) e = KEY_OK" "v_ok V"
  obtains y' where "mc_retr V g 1 y = Some (MEMCACHED_OK, y')" "y_kstatus y' = KEY_OK" "EKF_IS_READ_ONLY \<in> y_flags y'"
    "y_out y' = y_out y @ format_value (v_util V) (y_key y) (mo_get_val (v_mc V) e) (op_data (v_ops V) e)
        (if c = MC_GETS then 1 + mo_serial (v_mc V) e else 0) True"
proof -
  have r: "test_read_only g" using assms(1,2) by (auto simp: test_read_only_def read_only_def)
  show thesis
    using assms
    by (intro that [of "snd (the (mc_retr V g 1 y))"])
      (simp_all add: mc_retr_def mc_key_read_def mc_key_fetch_def r y_value_def y_validate_def Let_def send_value_def
        value_cas_def cas_number_def y_data_def count_def, auto)
qed

lemma mc_run_get:
  assumes "command g = Some c" "c \<in> {MC_GET, MC_GETS}" "\<not> is_binary g" "mc_retr V g n y = Some (MEMCACHED_OK, y')"
    "EKF_IS_READ_ONLY \<in> y_flags y'"
  shows "mc_run_key V g n y = Some (False, y'\<lparr>y_status := MEMCACHED_OK\<rparr>)"
proof -
  have "mc_handler V g n y = Some (MEMCACHED_OK, y')" using assms by (auto simp: mc_handler_def)
  then show ?thesis using assms(5) by (subst mc_run_key.simps) (simp add: Let_def mc_after_def)
qed

lemma mc_store_then_get:
  assumes "mc_entry (v_ops V) (v_mc V)" "roomy (v_ops V)" "v_ok V" "c \<in> store_cmds" "store_msg c key flags ttl val quiet m"
    "op_acquire (v_ops V) (y_ent y) = (st, e)" "st = KEY_OK \<or> st = KEY_IS_NEW" "EKF_IS_NEW \<notin> y_flags y"
    "store_spec c (mc_old (v_ops V) st e) val = Some d" "y_type y = MD_NODATA"
  obtains y1 where "mc_run_key V m 1 y = Some (False, y1)" "y_status y1 = MEMCACHED_OK"
    "\<And>g gc y2 e2. command g = Some gc \<Longrightarrow> gc \<in> {MC_GET, MC_GETS} \<Longrightarrow> \<not> is_binary g \<Longrightarrow> y_ent y2 = y_ent y1
       \<Longrightarrow> op_find (v_ops V) (y_ent y1) = (KEY_OK, e2) \<Longrightarrow> op_value (v_ops V) e2 = KEY_OK \<Longrightarrow> op_validate (v_ops V) e2 = KEY_OK
       \<Longrightarrow> \<exists>y3. mc_run_key V g 1 y2 = Some (False, y3) \<and> y_out y3 = y_out y2 @
             format_value (v_util V) (y_key y2) flags d (if gc = MC_GETS then 1 + mo_serial (v_mc V) e2 else 0) True"
proof -
  let ?K = "v_ops V"
  obtain y' where y': "mc_store V m y = Some (MEMCACHED_OK, y')" "EKF_IS_READ_ONLY \<notin> y_flags y'"
    "y_new y' \<longleftrightarrow> mc_old ?K st e = None" "op_data ?K (y_ent y') = d" "mo_get_val (v_mc V) (y_ent y') = flags"
    "op_get_type ?K (y_ent y') = op_get_type ?K e" "y_new y' \<Longrightarrow> y_type y' \<in> {MD_NODATA, MD_STRING}"
    using mc_store_ok [OF assms(1-8)] assms(9,10) by auto
  let ?y1 = "mc_after V (y'\<lparr>y_status := MEMCACHED_OK\<rparr>)"
  let ?e = "if y_new y' then op_set_type ?K (y_ent y') MD_STRING else y_ent y'"
  have m: "command m = Some c" "\<not> is_binary m" using assms(5) by (simp_all add: store_msg_def)
  have ent: "y_ent ?y1 = op_release ?K ?e"
    using y'(2,7) by (auto simp: mc_after_def y_new_def memcached_status_success_def)
  have e: "op_data ?K ?e = d" "mo_get_val (v_mc V) ?e = flags" "op_get_type ?K ?e = MD_STRING"
    using y'(3-6) kv_entry.set_type [OF mc_entry.axioms(1) [OF assms(1)]] mc_entry.type_val [OF assms(1)] mc_entry.type_set [OF assms(1)]
    by (auto simp: mc_old_def split: if_splits)
  have get: "\<exists>y3. mc_run_key V g 1 y2 = Some (False, y3) \<and> y_out y3 = y_out y2 @
             format_value (v_util V) (y_key y2) flags d (if gc = MC_GETS then 1 + mo_serial (v_mc V) e2 else 0) True"
    if g: "command g = Some gc" "gc \<in> {MC_GET, MC_GETS}" "\<not> is_binary g" and y2: "y_ent y2 = y_ent ?y1"
      "op_find ?K (y_ent ?y1) = (KEY_OK, e2)" "op_value ?K e2 = KEY_OK" "op_validate ?K e2 = KEY_OK" for g gc y2 e2
  proof -
    have f: "op_data ?K e2 = d" "mo_get_val (v_mc V) e2 = flags" "op_get_type ?K e2 = MD_STRING"
      using mc_entry.found_again [OF assms(1) y2(2) [unfolded ent]] e by simp_all
    have "op_find ?K (y_ent y2) = (KEY_OK, e2)" using y2(1,2) by simp
    then obtain y3 where y3: "mc_retr V g 1 y2 = Some (MEMCACHED_OK, y3)" "EKF_IS_READ_ONLY \<in> y_flags y3"
      "y_out y3 = y_out y2 @ format_value (v_util V) (y_key y2) flags d (if gc = MC_GETS then 1 + mo_serial (v_mc V) e2 else 0) True"
      using mc_retr_ok [OF g(1,2) _ f(3) y2(3,4) assms(3), of y2] f by metis
    then show ?thesis using mc_run_get [OF g y3(1,2)] by auto
  qed
  have "y_status ?y1 = MEMCACHED_OK" by (simp add: mc_after_def Let_def)
  from that [OF mc_run_store [OF m(1) assms(4) m(2) y'(1)] this get] show thesis .
qed

text \<open>What is stored is read. A store command that is not refused runs to its release. A GET or GETS that
  finds the key after it replies with the key, the flags of the request, the stored data and, for GETS, the
  number for CAS; this is the text that clients decode.\<close>

theorem mc_set_then_get:
  assumes "mc_entry (v_ops V) (v_mc V)" "roomy (v_ops V)" "v_ok V" "c \<in> store_cmds" "store_msg c key flags ttl val quiet m"
    "op_acquire (v_ops V) (y_ent y) = (st, e)" "st = KEY_OK \<or> st = KEY_IS_NEW" "EKF_IS_NEW \<notin> y_flags y"
    "store_spec c (mc_old (v_ops V) st e) val = Some d" "y_type y = MD_NODATA"
  shows "\<exists>y1. mc_run_key V m 1 y = Some (False, y1) \<and> y_status y1 = MEMCACHED_OK"
    and "mc_run_key V m 1 y = Some (False, y1) \<Longrightarrow> command g = Some gc \<Longrightarrow> gc \<in> {MC_GET, MC_GETS} \<Longrightarrow> \<not> is_binary g
       \<Longrightarrow> y_ent y2 = y_ent y1 \<Longrightarrow> op_find (v_ops V) (y_ent y1) = (KEY_OK, e2) \<Longrightarrow> op_value (v_ops V) e2 = KEY_OK
       \<Longrightarrow> op_validate (v_ops V) e2 = KEY_OK
       \<Longrightarrow> \<exists>y3. mc_run_key V g 1 y2 = Some (False, y3) \<and> y_out y3 = y_out y2 @
             format_value (v_util V) (y_key y2) flags d (if gc = MC_GETS then 1 + mo_serial (v_mc V) e2 else 0) True"
  using mc_store_then_get [OF assms] by (metis, metis option.inject prod.inject)

definition sample_get :: mc_msg where
  "sample_get = sample_mc\<lparr>mc_args := [ascii ''k''], mc_keycnt := 1, mc_first := 0, mc_cmd := cmd_code MC_GET, mc_pad := 0xaa\<rparr>"

lemma sample_set_runs:
  "\<exists>y1. mc_run_key mc_mem_env (sample_store MC_SET) 1 (sample_y (sample_mem False MD_NODATA [] 0)) = Some (False, y1)
    \<and> me_exists (mm_base (y_ent y1))"
proof -
  have m: "command (sample_store MC_SET) = Some MC_SET" "\<not> is_binary (sample_store MC_SET)" "\<not> is_quiet (sample_store MC_SET)"
    using cmd_loud [of "sample_store MC_SET" MC_SET] by (simp_all add: sample_store_def)
  note store = mc_store_def mc_key_write_def mc_key_fetch_def store_test_def store_flags_def store_data_def mc_ttl_stamp_def
    y_resize_def y_put_def y_set_val_def overwrite_def mc_after_def y_data_def y_new_def count_def unless_quiet_def
  show ?thesis
    using m by (subst mc_run_key.simps)
      (simp add: mc_handler_def store test_read_only_def test_mutator_def read_only_def mutator_def
        mc_mem_ops_def mc_mem_mc_def mem_ops_def with_base_def sample_y_def sample_mem_def mem_copy_def Let_def sample_store_def)
qed

theorem mc_set_then_get_witness:
  "\<exists>y1 y3 e2. mc_run_key mc_mem_env (sample_store MC_SET) 1 (sample_y (sample_mem False MD_NODATA [] 0)) = Some (False, y1)
     \<and> y_status y1 = MEMCACHED_OK \<and> mc_run_key mc_mem_env sample_get 1 (sample_y (y_ent y1)) = Some (False, y3)
     \<and> y_out y3 = format_value int_str_util (ascii ''k'') 5 [1, 2] 0 True"
proof -
  let ?y = "sample_y (sample_mem False MD_NODATA [] 0)"
  have V: "mc_entry (v_ops mc_mem_env) (v_mc mc_mem_env)" "roomy (v_ops mc_mem_env)" "v_ok mc_mem_env"
    using mc_mem.mc_entry_axioms mc_mem_roomy by simp_all
  have c: "MC_SET \<in> store_cmds" by (simp add: store_cmds_def)
  obtain e where a: "op_acquire (v_ops mc_mem_env) (y_ent ?y) = (KEY_IS_NEW, e)"
    by (simp add: sample_y_def sample_mem_def mc_mem_ops_def mem_ops_def with_base_def)
  have y: "EKF_IS_NEW \<notin> y_flags ?y" "y_type ?y = MD_NODATA" "KEY_IS_NEW = KEY_OK \<or> KEY_IS_NEW = KEY_IS_NEW"
    "store_spec MC_SET (mc_old (v_ops mc_mem_env) KEY_IS_NEW e) [1, 2] = Some [1, 2]"
    by (simp_all add: sample_y_def)
  note t = mc_set_then_get [OF V c sample_store_msg [OF c] a y(3,1,4,2)]
  obtain y1 where r: "mc_run_key mc_mem_env (sample_store MC_SET) 1 ?y = Some (False, y1)" "me_exists (mm_base (y_ent y1))"
    using sample_set_runs by blast
  have g: "command sample_get = Some MC_GET" "MC_GET \<in> {MC_GET, MC_GETS}" "\<not> is_binary sample_get"
    using cmd_loud [of sample_get MC_GET] by (simp_all add: sample_get_def)
  have f: "y_ent (sample_y (y_ent y1)) = y_ent y1" "op_find (v_ops mc_mem_env) (y_ent y1) = (KEY_OK, y_ent y1)"
    "op_value (v_ops mc_mem_env) (y_ent y1) = KEY_OK" "op_validate (v_ops mc_mem_env) (y_ent y1) = KEY_OK"
    using r(2) by (simp_all add: sample_y_def mc_mem_ops_def mem_ops_def with_base_def)
  have "y_key (sample_y (y_ent y1)) = ascii ''k''" "y_out (sample_y (y_ent y1)) = []" by (simp_all add: sample_y_def)
  with t(1) t(2) [OF r(1) g f] r(1) show ?thesis by auto
qed

section \<open>Counting\<close>

text \<open>INCR and DECR. On a string of decimal digits INCR adds modulo 2 to the 64 and DECR subtracts down to
  zero; the new digits replace the old ones and are the reply.\<close>

theorem mc_incr_counts:
  assumes "mc_entry (v_ops V) (v_mc V)" "roomy (v_ops V)" "kv_format (v_util V)" "v_ok V"
    "command m = Some c" "c \<in> {MC_INCR, MC_DECR}" "op_acquire (v_ops V) (y_ent y) = (KEY_OK, e)" "EKF_IS_NEW \<notin> y_flags y"
    "op_get_type (v_ops V) e = MD_STRING" "op_value (v_ops V) e = KEY_OK" "op_data (v_ops V) e = dec_nat n" "n < 2 ^ 64"
  shows "\<exists>y'. mc_incr V m y = Some (MEMCACHED_OK, y')
    \<and> op_data (v_ops V) (y_ent y') = dec_nat (if c = MC_INCR then (n + unat (mc_inc m)) mod 2 ^ 64 else n - unat (mc_inc m))
    \<and> y_out y' = y_out y @ dec_nat (if c = MC_INCR then (n + unat (mc_inc m)) mod 2 ^ 64 else n - unat (mc_inc m)) @ crlf"
proof -
  let ?K = "v_ops V" and ?r = "if c = MC_INCR then (n + unat (mc_inc m)) mod 2 ^ 64 else n - unat (mc_inc m)"
  have K: "kv_entry ?K" using assms(1) by (rule mc_entry.axioms)
  have w: "\<not> test_read_only m \<and> test_mutator m"
    using assms(5,6) by (auto simp: test_read_only_def test_mutator_def read_only_def mutator_def)
  obtain st' y1 where k: "mc_key_write V m y MD_STRING = (st', y1)" "st' = KEY_NO_VALUE \<or> st' = KEY_OK \<or> st' = KEY_IS_NEW"
    "y_ent (overwrite st' y1) = e" "y_out (overwrite st' y1) = y_out y" "y_stat (overwrite st' y1) = y_stat y"
    "EKF_IS_READ_ONLY \<notin> y_flags (overwrite st' y1)" "y_key (overwrite st' y1) = y_key y"
    "y_new (overwrite st' y1) \<longleftrightarrow> mc_old ?K KEY_OK e = None"
    "st' = KEY_OK \<longleftrightarrow> mc_old ?K KEY_OK e \<noteq> None"
    by (rule key_write_string [OF w assms(7) _ assms(8)]) simp_all
  have ok: "st' = KEY_OK" using k(9) assms(9) by (simp add: mc_old_def)
  then have y1: "y_ent y1 = e" "y_out y1 = y_out y" using k(3,4) by (simp_all add: overwrite_def)
  have add: "unat (add_to m (of_nat n)) = ?r"
  proof -
    have n: "unat (of_nat n :: u64) = n" using assms(12) by (rule u64_of_nat_inverse)
    show ?thesis
      using assms(5,6) n by (auto simp: add_to_def unat_word_ariths word_less_nat_alt word_le_nat_alt unat_sub)
  qed
  have r: "?r < 2 ^ 64" using assms(12) by auto
  then have str: "uint64_to_string (v_util V) ?r = dec_nat ?r" by (rule kv_format.u2s [OF assms(3)])
  obtain e' where e': "op_resize ?K e (length (dec_nat ?r)) False = (KEY_OK, e')" by (rule roomyE [OF assms(2)])
  have l: "length (op_data ?K e') = length (dec_nat ?r)" by (rule kv_entry.resize_length [OF K e'])
  have d: "op_data ?K (op_set_data ?K e' (dec_nat ?r)) = dec_nat ?r" by (rule kv_entry.set_data [OF K l [symmetric]])
  have dat: "y_data V (y_value V y1) = dec_nat n" "y_kstatus (y_value V y1) = KEY_OK"
    using y1 assms(10,11) by (simp_all add: y_data_def y_value_def)
  show ?thesis
    using k(1) ok dat assms(4) string_to_uint_dec_nat [OF assms(12)] y1 e' l d
    by (simp add: mc_incr_def add str count_hit_def y_resize_def y_value_def count_def mem_copy_def y_data_def y_put_def Let_def)
qed

definition sample_count :: "memcached_cmd \<Rightarrow> u64 \<Rightarrow> mc_msg" where
  "sample_count c n = sample_mc\<lparr>mc_args := [ascii ''k''], mc_keycnt := 1, mc_first := 0, mc_inc := n, mc_cmd := cmd_code c, mc_pad := 0xaa\<rparr>"

lemma sample_count_cmd: "command (sample_count c n) = Some c" "\<not> is_quiet (sample_count c n)" "\<not> is_binary (sample_count c n)"
  using cmd_loud [of "sample_count c n" c] by (simp_all add: sample_count_def)

theorem mc_incr_counts_witness:
  "\<exists>y'. mc_incr mc_mem_env (sample_count MC_INCR 5) (sample_y (sample_mem True MD_STRING (dec_nat (2 ^ 64 - 2)) 0)) = Some (MEMCACHED_OK, y')
     \<and> op_data mc_mem_ops (y_ent y') = dec_nat 3 \<and> y_out y' = dec_nat 3 @ crlf"
proof -
  let ?e = "sample_mem True MD_STRING (dec_nat (2 ^ 64 - 2)) 0"
  have V: "mc_entry (v_ops mc_mem_env) (v_mc mc_mem_env)" "roomy (v_ops mc_mem_env)" "kv_format (v_util mc_mem_env)" "v_ok mc_mem_env"
    using mc_mem.mc_entry_axioms mc_mem_roomy fmt.kv_format_axioms by simp_all
  have a: "op_acquire (v_ops mc_mem_env) (y_ent (sample_y ?e)) = (KEY_OK, ?e)" using sample_acquire by simp
  have e: "EKF_IS_NEW \<notin> y_flags (sample_y ?e)" "op_get_type (v_ops mc_mem_env) ?e = MD_STRING"
    "op_value (v_ops mc_mem_env) ?e = KEY_OK" "op_data (v_ops mc_mem_env) ?e = dec_nat (2 ^ 64 - 2)"
    by (simp_all add: sample_y_def sample_mem_def mc_mem_ops_def mem_ops_def)
  have "MC_INCR \<in> {MC_INCR, MC_DECR}" "(2 ^ 64 - 2 :: nat) < 2 ^ 64" by simp_all
  note r = mc_incr_counts [OF V sample_count_cmd(1) [of MC_INCR 5] this(1) a e this(2)]
  have n: "mc_inc (sample_count MC_INCR 5) = 5" "\<not> is_quiet (sample_count MC_INCR 5)" by (simp_all add: sample_count_cmd) (simp add: sample_count_def)
  from r show ?thesis unfolding n by (simp add: n sample_y_def sample_count_cmd)
qed

text \<open>INCR of a key that is not there: the text NOT_FOUND is written and not sent.\<close>

lemma incr_miss_silent:
  assumes "command m = Some MC_INCR" "op_acquire (v_ops V) (y_ent y) = (KEY_IS_NEW, e)"
  shows "\<exists>y'. mc_incr V m y = Some (MEMCACHED_OK, y') \<and> y_out y' = y_out y"
  using assms by (simp add: mc_incr_def mc_key_write_def mc_key_fetch_def test_read_only_def read_only_def test_mutator_def
      mutator_def count_miss_def count_def Let_def)

text \<open>GAT with more than one key fails on a key that is there.\<close>

lemma gat_many_fails:
  assumes "command m = Some MC_GAT" "op_acquire (v_ops V) (y_ent y) = (KEY_OK, e)" "op_get_type (v_ops V) e = MD_STRING"
    "op_value (v_ops V) e = KEY_OK" "v_ok V" "y_part y = None" "n \<noteq> 1"
  shows "\<exists>y'. mc_retr_touch V m n y = Some (MEMCACHED_ERR_KV, y')"
  using assms by (simp add: mc_retr_touch_def mc_key_write_def mc_key_fetch_def test_read_only_def read_only_def test_mutator_def
      mutator_def y_value_def save_value_def count_def mc_ttl_stamp_def Let_def)

text \<open>GET gives a value whose time to live is over.\<close>

lemma get_ignores_expiry:
  "\<exists>y'. mc_retr mc_mem_env sample_get 1 (sample_y (sample_mem True MD_STRING [9] 50)) = Some (MEMCACHED_OK, y')
     \<and> y_out y' = format_value int_str_util (ascii ''k'') 3 [9] 0 True"
  "op_is_expired mc_mem_ops (sample_mem True MD_STRING [9] 50)"
proof -
  let ?y = "sample_y (sample_mem True MD_STRING [9] 50)"
  have g: "command sample_get = Some MC_GET" using cmd_loud [of sample_get MC_GET] by (simp add: sample_get_def)
  obtain y' where "mc_retr mc_mem_env sample_get 1 ?y = Some (MEMCACHED_OK, y')"
    "y_out y' = y_out ?y @ format_value int_str_util (y_key ?y) (mm_val (y_ent ?y)) [9] 0 True"
    by (rule mc_retr_ok [OF g, of mc_mem_env ?y "y_ent ?y"])
      (simp_all add: sample_y_def sample_mem_def mc_mem_ops_def mc_mem_mc_def mem_ops_def with_base_def)
  then show "\<exists>y'. mc_retr mc_mem_env sample_get 1 ?y = Some (MEMCACHED_OK, y')
     \<and> y_out y' = format_value int_str_util (ascii ''k'') 3 [9] 0 True"
    by (simp add: sample_y_def sample_mem_def)
  show "op_is_expired mc_mem_ops (sample_mem True MD_STRING [9] 50)"
    by (simp add: mc_mem_ops_def mem_ops_def sample_mem_def)
qed

text \<open>The room of a value: the line and the data are never longer than what is taken from the stream.\<close>

lemma format_value_room:
  assumes "kv_format U" "length data < 2 ^ 64"
  shows "length (format_value U key flags data cas is_end) \<le> 5 + length key + length data + 64"
proof -
  have f: "unat flags < 2 ^ LENGTH(32)" "unat cas < 2 ^ LENGTH(64)" by (rule unsigned_less)+
  have "length (dec_nat (unat flags)) \<le> 10" using f(1) by (intro length_dec_nat_le) simp_all
  moreover have "length (dec_nat (length data)) \<le> 20" "length (dec_nat (unat cas)) \<le> 20"
    using assms(2) f(2) by (simp_all add: dec_nat_u64)
  moreover have "length (if cas \<noteq> 0 then [dec_nat (unat cas)] else []) \<le> 1" by simp
  ultimately show ?thesis
    by (simp add: format_value_line [OF assms] request_line_def args_text_def value_words_def)
qed

section \<open>Many keys\<close>

definition multi_ready :: "'e mc_env \<Rightarrow> 'e mst \<Rightarrow> bool" where
  "multi_ready V y \<longleftrightarrow> y_status y = MEMCACHED_CONTINUE \<and> y_part y = None \<and>
     (case op_find (v_ops V) (y_ent y) of (st, e) \<Rightarrow>
        st = KEY_NOT_FOUND \<or> st = KEY_OK \<and> op_get_type (v_ops V) e = MD_STRING
          \<and> op_value (v_ops V) e = KEY_OK \<and> op_validate (v_ops V) e = KEY_OK)"

definition multi_text :: "'e mc_env \<Rightarrow> memcached_cmd \<Rightarrow> 'e mst \<Rightarrow> byte list" where
  "multi_text V c y =
     (case op_find (v_ops V) (y_ent y) of (st, e) \<Rightarrow>
        if st = KEY_OK then format_value (v_util V) (y_key y) (mo_get_val (v_mc V) e) (op_data (v_ops V) e)
            (if c = MC_GETS then 1 + mo_serial (v_mc V) e else 0) False
        else [])"

definition part_text :: "'e mst \<Rightarrow> byte list" where
  "part_text y = (case y_part y of None \<Rightarrow> [] | Some (_, s) \<Rightarrow> s)"

lemma multi_key:
  assumes "command g = Some c" "c \<in> {MC_GET, MC_GETS}" "\<not> is_binary g" "multi_ready V y" "n \<noteq> 1" "v_ok V"
  obtains y' where "mc_run_key V g n (y\<lparr>y_out := out, y_stat := s\<rparr>) = Some (False, y')" "y_status y' = MEMCACHED_OK"
    "y_out y' = out" "part_text y' = multi_text V c y" "y_ent y' = snd (op_find (v_ops V) (y_ent y))" "y_key y' = y_key y"
proof -
  let ?y = "y\<lparr>y_out := out, y_stat := s\<rparr>"
  have r: "test_read_only g" using assms(1,2) by (auto simp: test_read_only_def read_only_def)
  obtain st e where f: "op_find (v_ops V) (y_ent y) = (st, e)" by force
  have ok: "st = KEY_NOT_FOUND \<or> st = KEY_OK \<and> op_get_type (v_ops V) e = MD_STRING
          \<and> op_value (v_ops V) e = KEY_OK \<and> op_validate (v_ops V) e = KEY_OK" "y_part y = None"
    using assms(4) f by (simp_all add: multi_ready_def)
  obtain y' where y': "mc_retr V g n ?y = Some (MEMCACHED_OK, y')" "EKF_IS_READ_ONLY \<in> y_flags y'" "y_out y' = out"
    "part_text y' = multi_text V c y" "y_ent y' = e" "y_key y' = y_key y"
    using ok f assms(1,2,5,6) r
    by (cases "st = KEY_OK")
      (simp_all add: mc_retr_def mc_key_read_def mc_key_fetch_def y_value_def y_validate_def save_value_def value_cas_def
        cas_number_def y_data_def count_def multi_text_def part_text_def Let_def, auto simp: cas_number_def)
  have "part_text (y'\<lparr>y_status := MEMCACHED_OK\<rparr>) = part_text y'" by (simp add: part_text_def)
  then show thesis
    by (intro that [OF mc_run_get [OF assms(1-3) y'(1,2)]]) (simp_all add: y'(3-6) f)
qed

definition multi_at :: "'e mc_env \<Rightarrow> memcached_cmd \<Rightarrow> 'e mc_run \<Rightarrow> nat \<Rightarrow> 'e mc_run \<Rightarrow> bool" where
  "multi_at V c r k s \<longleftrightarrow> n_msg s = n_msg r \<and> n_out s = n_out r \<and> n_done s = k \<and> length (n_keys s) = length (n_keys r)
     \<and> (\<forall>i<k. part_text (n_keys s ! i) = multi_text V c (n_keys r ! i)
          \<and> y_ent (n_keys s ! i) = snd (op_find (v_ops V) (y_ent (n_keys r ! i))) \<and> y_key (n_keys s ! i) = y_key (n_keys r ! i))
     \<and> (\<forall>i. k \<le> i \<longrightarrow> i < length (n_keys r) \<longrightarrow> n_keys s ! i = n_keys r ! i)"

definition multi_end :: "'e mc_env \<Rightarrow> memcached_cmd \<Rightarrow> 'e mc_run \<Rightarrow> 'e mc_run \<Rightarrow> bool" where
  "multi_end V c r s \<longleftrightarrow> n_out s = n_out r @ concat (map (multi_text V c) (n_keys r)) @ mc_string True (ascii ''END'')
     \<and> map y_ent (n_keys s) = map (\<lambda>y. snd (op_find (v_ops V) (y_ent y))) (n_keys r)
     \<and> map y_key (n_keys s) = map y_key (n_keys r)"

definition multi_setup :: "'e mc_env \<Rightarrow> memcached_cmd \<Rightarrow> 'e mc_run \<Rightarrow> bool" where
  "multi_setup V c r \<longleftrightarrow> command (n_msg r) = Some c \<and> c \<in> {MC_GET, MC_GETS} \<and> \<not> is_binary (n_msg r)
     \<and> mc_pad (n_msg r) = 0xaa \<and> n_done r = 0 \<and> v_ok V \<and> 1 < length (n_keys r) \<and> (\<forall>y\<in>set (n_keys r). multi_ready V y)"

lemma multi_send_parts: "multi_get_send V ys = concat (map part_text ys) @ mc_string (v_ok V) (ascii ''END'')"
  by (simp add: multi_get_send_def part_text_def [abs_def])

lemma multi_step:
  assumes "multi_setup V c r" "multi_at V c r k s" "k < length (n_keys r)"
  shows "\<exists>s'. mc_key_continue V s k = Some (if k + 1 < length (n_keys r) then MEMCACHED_CONTINUE else MEMCACHED_SUCCESS, s')
    \<and> (if k + 1 < length (n_keys r) then multi_at V c r (k + 1) s'
       else multi_end V c r s')"
proof -
  have s: "n_msg s = n_msg r" "n_out s = n_out r" "n_done s = k" "length (n_keys s) = length (n_keys r)" "n_keys s ! k = n_keys r ! k"
    "\<And>i. i < k \<Longrightarrow> part_text (n_keys s ! i) = multi_text V c (n_keys r ! i)
       \<and> y_ent (n_keys s ! i) = snd (op_find (v_ops V) (y_ent (n_keys r ! i))) \<and> y_key (n_keys s ! i) = y_key (n_keys r ! i)"
    "\<And>i. k < i \<Longrightarrow> i < length (n_keys r) \<Longrightarrow> n_keys s ! i = n_keys r ! i"
    using assms(2,3) by (simp_all add: multi_at_def)
  have g: "command (n_msg r) = Some c" "c \<in> {MC_GET, MC_GETS}" "\<not> is_binary (n_msg r)" "mc_pad (n_msg r) = 0xaa" "v_ok V"
    "length (n_keys r) \<noteq> 1" "multi_ready V (n_keys r ! k)"
    using assms(1,3) by (simp_all add: multi_setup_def)
  obtain y' where y': "mc_run_key V (n_msg r) (length (n_keys r)) ((n_keys r ! k)\<lparr>y_out := n_out r, y_stat := n_stat s\<rparr>) = Some (False, y')"
    "y_status y' = MEMCACHED_OK" "y_out y' = n_out r" "part_text y' = multi_text V c (n_keys r ! k)"
    "y_ent y' = snd (op_find (v_ops V) (y_ent (n_keys r ! k)))" "y_key y' = y_key (n_keys r ! k)"
    by (rule multi_key [OF g(1-3,7,6,5)])
  have act: "mc_active (n_keys r ! k)" using g(7) by (simp add: mc_active_def multi_ready_def)
  have ok: "memcached_status_success MEMCACHED_OK" by (simp add: memcached_status_success_def mc_status_code_def mc_statuses_def)
  define s1 where "s1 = mc_set_key k y' (s\<lparr>n_out := y_out y', n_stat := y_stat y'\<rparr>)"
  have c: "mc_key_continue V s k = Some (mc_key_finished V s1 k)"
    using act y'(1) g(4) s(1,2,4,5) by (simp add: mc_key_continue_def s1_def)
  have s1: "n_keys s1 ! k = y'" "length (n_keys s1) = length (n_keys r)" "n_done s1 = k" "n_out s1 = n_out r" "n_msg s1 = n_msg r"
    "\<And>i. i \<noteq> k \<Longrightarrow> n_keys s1 ! i = n_keys s ! i"
    using s y'(3) assms(3) by (simp_all add: s1_def)
  show ?thesis
  proof (cases "k + 1 < length (n_keys r)")
    case True
    have "mc_key_finished V s1 k = (MEMCACHED_CONTINUE, s1\<lparr>n_done := k + 1\<rparr>)"
      using True s1(1-3) y'(2) ok by (simp add: mc_key_finished_def Let_def)
    moreover have "multi_at V c r (k + 1) (s1\<lparr>n_done := k + 1\<rparr>)"
      using s1 s(6,7) y'(4-6) by (auto simp: multi_at_def less_Suc_eq)
    ultimately show ?thesis using c True by simp
  next
    case False
    have at: "i < length (n_keys r) \<Longrightarrow> part_text (n_keys s1 ! i) = multi_text V c (n_keys r ! i)
       \<and> y_ent (n_keys s1 ! i) = snd (op_find (v_ops V) (y_ent (n_keys r ! i))) \<and> y_key (n_keys s1 ! i) = y_key (n_keys r ! i)" for i
      using s1(1) s1(6) [of i] s(6) [of i] y'(4-6) False by (cases "i = k") auto
    have parts: "map part_text (n_keys s1) = map (multi_text V c) (n_keys r)"
      "map y_ent (n_keys s1) = map (\<lambda>y. snd (op_find (v_ops V) (y_ent y))) (n_keys r)" "map y_key (n_keys s1) = map y_key (n_keys r)"
      by (rule nth_equalityI; use at s1(2) in simp)+
    from parts(1) have "mc_key_finished V s1 k = (MEMCACHED_SUCCESS, s1\<lparr>n_done := k + 1, n_out := n_out r @ concat (map (multi_text V c) (n_keys r)) @ mc_string True (ascii ''END'')\<rparr>)"
      using False g(5,6) s1(1-4) y'(2) ok assms(3) by (simp add: mc_key_finished_def Let_def multi_send_parts)
    then show ?thesis using c False parts(2,3) by (simp add: multi_end_def)
  qed
qed

lemma multi_cycle:
  assumes "multi_setup V c r"
  shows "multi_at V c r k s \<Longrightarrow> k < length (n_keys r) \<Longrightarrow> \<exists>s'. mc_run_cycle V s k 0 = Some s' \<and> multi_end V c r s'"
proof (induction "length (n_keys r) - k" arbitrary: k s)
  case (Suc n)
  have "multi_ready V (n_keys r ! k)" using assms Suc.prems(2) by (simp add: multi_setup_def)
  then have act: "mc_active (n_keys s ! k)" using Suc.prems by (simp add: multi_at_def multi_ready_def mc_active_def)
  note st = multi_step [OF assms Suc.prems]
  show ?case
  proof (cases "k + 1 < length (n_keys r)")
    case False
    then show ?thesis using act st by (subst mc_run_cycle.simps) auto
  next
    case True
    then obtain s' where s': "mc_key_continue V s k = Some (MEMCACHED_CONTINUE, s')" "multi_at V c r (k + 1) s'" using st by auto
    show ?thesis using act s' True Suc.hyps(1) [of "k + 1" s'] Suc.hyps(2) Suc.prems(1)
      by (subst mc_run_cycle.simps) (simp add: multi_at_def)
  qed
qed simp

lemma mc_multi_run:
  assumes "multi_setup V c r"
  shows "\<exists>r'. mc_run_to_completion V r = Some r' \<and> multi_end V c r r'"
proof -
  have "multi_at V c r 0 r" "0 < length (n_keys r)" "length (n_keys r) \<noteq> 1"
    using assms by (auto simp: multi_at_def multi_setup_def)
  then show ?thesis using multi_cycle [OF assms] by (simp add: mc_run_to_completion_def)
qed

text \<open>GET or GETS of several keys writes the values that are there in the order of the keys, each with
  its key, flags and length, a missing key adds nothing, and one END comes last.\<close>

theorem mc_multi_get:
  assumes "multi_setup V c r"
  shows "\<exists>r'. mc_run_to_completion V r = Some r'
    \<and> n_out r' = n_out r @ concat (map (multi_text V c) (n_keys r)) @ mc_string True (ascii ''END'')"
  using mc_multi_run [OF assms] by (auto simp: multi_end_def)

definition sample_multi :: "mc_mem mc_run" where
  "sample_multi = \<lparr>n_msg = sample_get, n_keys =
     [(sample_y (sample_mem True MD_STRING [9] 0))\<lparr>y_status := MEMCACHED_CONTINUE\<rparr>,
      (sample_y (sample_mem False MD_STRING [] 0))\<lparr>y_status := MEMCACHED_CONTINUE\<rparr>],
     n_done = 0, n_out = [], n_stat = y_stat (sample_y (sample_mem True MD_STRING [9] 0))\<rparr>"

theorem mc_multi_get_witness:
  "\<exists>r'. mc_run_to_completion mc_mem_env sample_multi = Some r'
     \<and> n_out r' = format_value int_str_util (ascii ''k'') 3 [9] 0 False @ mc_string True (ascii ''END'')"
proof -
  have g: "command sample_get = Some MC_GET" "\<not> is_binary sample_get"
    using cmd_loud [of sample_get MC_GET] by (simp_all add: sample_get_def)
  have "multi_setup mc_mem_env MC_GET sample_multi"
    using g by (simp add: multi_setup_def sample_multi_def multi_ready_def sample_y_def sample_mem_def mc_mem_ops_def mem_ops_def with_base_def)
      (simp add: sample_get_def)
  from mc_multi_get [OF this] show ?thesis
    by (simp add: sample_multi_def multi_text_def sample_y_def sample_mem_def mc_mem_ops_def mc_mem_mc_def mem_ops_def with_base_def)
qed

end
