(* ===== verification/Mc_Serve.thy ===== *)
theory Mc_Serve
  imports Mc_Run
begin

text \<open>
  The memcached service: \<open>MemcachedExec::exec\<close>, which sets up the keys of a command or runs one without
  keys, the statistics, and \<open>EvMemcached::process_loop\<close> of \<open>src/src/ev_memcached.cpp\<close>, which runs what the
  buffer of a connection holds. The table of the key store is a function from keys to entries; the new context
  of a key, a constructor of raikv, and what the process knows of itself are parameters. The property is a
  refinement: a session of requests is a run of a map from keys to values.
\<close>

section \<open>Statistics\<close>

text \<open>What the process, the listener and the service put into the statistics; the times of \<open>rusage\<close> are
  text, printed from floating point numbers.\<close>

record mc_host =
  h_pid :: nat
  h_now :: nat
  h_boot :: nat
  h_version :: "byte list"
  h_user :: "byte list"
  h_system :: "byte list"
  h_max_conn :: nat
  h_curr_conn :: nat
  h_total_conn :: nat
  h_structs :: nat
  h_flush_cnt :: nat
  h_get_expired :: nat
  h_get_flushed :: nat
  h_auth_cmds :: nat
  h_auth_errors :: nat
  h_read :: nat
  h_written :: nat
  h_map_size :: nat
  h_tcp :: nat
  h_udp :: nat
  h_interface :: "byte list"

text \<open>\<open>StatFmt::printf\<close>: text while more than twenty bytes of room are left, cut by \<open>vsnprintf\<close>.\<close>

definition stat_printf :: "byte list \<Rightarrow> byte list \<times> nat \<Rightarrow> byte list \<times> nat" where
  "stat_printf line b =
     (case b of (txt, sz) \<Rightarrow>
        if sz > 20 then (let n = min (length line) (sz - 1) in (txt @ take n line, sz - n)) else (txt, sz))"

definition stat_text :: "(string \<times> byte list) list \<Rightarrow> byte list" where
  "stat_text xs = fst (fold (\<lambda>(name, val). stat_printf (ascii ''STAT '' @ ascii name @ SP # val @ crlf)) xs ([], 4096))"

definition put_stats :: "mc_host \<Rightarrow> mc_stat \<Rightarrow> byte list" where
  "put_stats h s = (let n = dec_nat; w = (\<lambda>x :: u64. dec_nat (unat x)) in stat_text
     [(''pid'', n (h_pid h)), (''uptime'', n (unat (of_nat (h_now h) - of_nat (h_boot h) :: u64) div 1000000000)),
      (''time'', n (h_now h div 1000000000)), (''version'', h_version h),
      (''rusage_user'', h_user h), (''rusage_system'', h_system h),
      (''max_connections'', n (h_max_conn h)), (''curr_connections'', n (h_curr_conn h)),
      (''total_connections'', n (h_total_conn h)), (''rejected_connections'', ascii ''0''),
      (''connection_structures'', n (h_structs h)), (''reserved_fds'', ascii ''0''),
      (''cmd_get'', w (st_get_cnt s)), (''cmd_set'', w (st_set_cnt s)), (''cmd_flush'', n (h_flush_cnt h)),
      (''cmd_touch'', w (st_touch_cnt s)), (''get_hits'', w (st_get_hit s)), (''get_misses'', w (st_get_miss s)),
      (''get_expired'', n (h_get_expired h)), (''get_flushed'', n (h_get_flushed h)),
      (''delete_misses'', w (st_delete_miss s)), (''delete_hits'', w (st_delete_hit s)),
      (''incr_misses'', w (st_incr_miss s)), (''incr_hits'', w (st_incr_hit s)),
      (''decr_misses'', w (st_decr_miss s)), (''decr_hits'', w (st_decr_hit s)),
      (''cas_misses'', w (st_cas_miss s)), (''cas_hits'', w (st_cas_miss s)), (''cas_badval'', w (st_cas_badval s)),
      (''touch_hits'', w (st_touch_hit s)), (''touch_misses'', w (st_touch_miss s)),
      (''auth_cmds'', n (h_auth_cmds h)), (''auth_errors'', n (h_auth_errors h)),
      (''bytes_read'', n (h_read h)), (''bytes_written'', n (h_written h)), (''limit_maxbytes'', n (h_map_size h))])"

definition put_stats_settings :: "mc_host \<Rightarrow> byte list" where
  "put_stats_settings h = stat_text
     [(''maxbytes'', dec_nat (h_map_size h)), (''maxconns'', dec_nat (h_max_conn h)), (''tcpport'', dec_nat (h_tcp h)),
      (''udpport'', dec_nat (h_udp h)), (''inter'', if h_interface h \<noteq> [] then h_interface h else ascii ''*''),
      (''evictions'', ascii ''on'')]"

section \<open>One command\<close>

record 'e mc_serve =
  sv_env :: "'e mc_env"
  sv_ctx :: "'e mst"
  sv_temp :: bool
  sv_host :: mc_host
  sv_prefetch :: bool
  sv_block_empty :: "byte list \<Rightarrow> bool"
  sv_mem :: mc_msg

definition mc_match_arg :: "mc_msg \<Rightarrow> string \<Rightarrow> bool" where
  "mc_match_arg m name =
     (case mc_args m of [] \<Rightarrow> False | a # _ \<Rightarrow> length a = length name \<and> same_nocase (ascii name) a)"

text \<open>\<open>exec_key_setup\<close>: a new context for the key at an argument.\<close>

definition mc_key_setup :: "'e mc_serve \<Rightarrow> (byte list \<Rightarrow> 'e) \<Rightarrow> byte list \<Rightarrow> 'e mst" where
  "mc_key_setup S db k = (sv_ctx S)\<lparr>y_ent := db k, y_key := k, y_status := MEMCACHED_CONTINUE\<rparr>"

definition mc_setup_keys :: "'e mc_serve \<Rightarrow> (byte list \<Rightarrow> 'e) \<Rightarrow> mc_msg \<Rightarrow> (memcached_status \<times> 'e mst list) option" where
  "mc_setup_keys S db m =
     (if \<not> sv_temp S then Some (MEMCACHED_ALLOC_FAIL, [])
      else if length (mc_args m) < mc_first m + mc_keycnt m then None
      else Some (MEMCACHED_SETUP_OK, map (mc_key_setup S db) (take (mc_keycnt m) (drop (mc_first m) (mc_args m)))))"

text \<open>The statistics a client asks for. Whether they end with END or ERROR depends on the block the stream
  fills, which may hold other replies. Without memory the text is printed to a null pointer.\<close>

definition exec_stats :: "'e mc_serve \<Rightarrow> mc_msg \<Rightarrow> mc_stat \<Rightarrow> byte list \<Rightarrow> byte list option" where
  "exec_stats S m s out =
     (let ok = v_ok (sv_env S);
          txt = (if mc_args m = [] then Some (put_stats (sv_host S) s)
                 else if mc_match_arg m ''settings'' then Some (put_stats_settings (sv_host S)) else None) in
      if txt \<noteq> None \<and> \<not> ok then None
      else
        let out1 = out @ (case txt of None \<Rightarrow> [] | Some t \<Rightarrow> t) in
        Some (out1 @ mc_string ok (ascii (if sv_block_empty S out1 then ''ERROR'' else ''END''))))"

text \<open>\<open>do_no_op\<close> sends the header of a request.\<close>

definition no_op_hdr :: "byte list" where
  "no_op_hdr = [0x80, 0x0a] @ replicate 22 0"

definition exec_no_keys :: "'e mc_serve \<Rightarrow> mc_msg \<Rightarrow> mc_stat \<Rightarrow> byte list \<Rightarrow> (memcached_status \<times> byte list) option" where
  "exec_no_keys S m s out =
     (let V = sv_env S; status = send_bin_status (v_util V) (v_ok V) m MS_OK in
      case command m of
        Some MC_STATS \<Rightarrow> map_option (Pair MEMCACHED_OK) (exec_stats S m s out)
      | Some MC_NO_OP \<Rightarrow> Some (MEMCACHED_OK, out @ (if v_ok V then no_op_hdr else []))
      | Some MC_VERSION \<Rightarrow> Some (MEMCACHED_OK, out @ (if is_binary m then status (Some (h_version (sv_host S)))
            else mc_string (v_ok V) (h_version (sv_host S))))
      | Some MC_QUIT \<Rightarrow> Some (MEMCACHED_QUIT, out @ (if is_binary m then status (Some []) else []))
      | Some MC_NONE \<Rightarrow>
          Some (if mc_cmd m = MC_BINARY then mc_statuses ! mc_res m else MEMCACHED_NOT_IMPL, out)
      | c \<Rightarrow>
          if c \<in> Some ` {MC_SLABS, MC_LRU, MC_LRU_CRAWLER, MC_WATCH, MC_FLUSH_ALL, MC_CACHE_MEMLIMIT}
          then Some (MEMCACHED_OK, out @ (if is_binary m then status (Some []) else mc_string (v_ok V) (ascii ''OK'')))
          else Some (MEMCACHED_NOT_IMPL, out))"

definition mc_exec :: "'e mc_serve \<Rightarrow> (byte list \<Rightarrow> 'e) \<Rightarrow> mc_msg \<Rightarrow> mc_stat \<Rightarrow> byte list
    \<Rightarrow> (memcached_status \<times> 'e mst list \<times> byte list) option" where
  "mc_exec S db m s out =
     (if mc_pad m \<noteq> 0xaa then Some (MEMCACHED_BAD_PAD, [], out)
      else if mc_keycnt m > 0 then map_option (\<lambda>(st, ys). (st, ys, out)) (mc_setup_keys S db m)
      else map_option (\<lambda>(st, out1). (st, [], out1)) (exec_no_keys S m s out))"

section \<open>The loop of a connection\<close>

datatype ev_next = EV_PREFETCH | EV_SHUTDOWN | EV_WRITE

record 'e mc_conn =
  cn_db :: "byte list \<Rightarrow> 'e"
  cn_buf :: "byte list"
  cn_out :: "byte list"
  cn_stat :: mc_stat
  cn_keys :: "'e mst list"

text \<open>The table after a run: the entries of its keys.\<close>

definition put_keys :: "'e mst list \<Rightarrow> (byte list \<Rightarrow> 'e) \<Rightarrow> byte list \<Rightarrow> 'e" where
  "put_keys ys db = fold (\<lambda>y d. d(y_key y := y_ent y)) ys db"

text \<open>A stream that gave no memory has \<open>alloc_fail\<close> set; nothing can be written to it.\<close>

definition mc_reply_status :: "'e mc_env \<Rightarrow> mc_msg \<Rightarrow> memcached_status \<Rightarrow> 'e mc_conn \<Rightarrow> 'e mc_conn" where
  "mc_reply_status V m st c = c\<lparr>cn_out := cn_out c @ send_err (v_util V) (v_ok V) (v_kv_text V) m st KEY_OK\<rparr>"

definition mc_run_keys :: "'e mc_env \<Rightarrow> mc_msg \<Rightarrow> 'e mc_conn \<Rightarrow> 'e mc_conn option" where
  "mc_run_keys V m c =
     (case mc_run_to_completion V \<lparr>n_msg = m, n_keys = cn_keys c, n_done = 0, n_out = cn_out c, n_stat = cn_stat c\<rparr> of
        None \<Rightarrow> None
      | Some r \<Rightarrow>
        let c1 = c\<lparr>cn_db := put_keys (n_keys r) (cn_db c), cn_out := n_out r, cn_stat := n_stat r, cn_keys := []\<rparr> in
        Some (if v_ok V then c1 else mc_reply_status V m MEMCACHED_ALLOC_FAIL c1))"

partial_function (option) process_loop :: "'e mc_serve \<Rightarrow> 'e mc_conn \<Rightarrow> (ev_next \<times> 'e mc_conn) option" where
  "process_loop S c =
     (let V = sv_env S in
      if cn_buf c = [] then Some (EV_WRITE, c)
      else
        (case exec_unpack (v_util V) (sv_temp S) (sv_temp S) (cn_buf c) (sv_mem S) of
           None \<Rightarrow> None
         | Some (st, n, m) \<Rightarrow>
           if st = MEMCACHED_MSG_PARTIAL then Some (EV_WRITE, c)
           else if st \<noteq> MEMCACHED_OK then
             Some (EV_WRITE, c\<lparr>cn_buf := [], cn_out := cn_out c @ mc_string (v_ok V) (ascii ''ERROR'')\<rparr>)
           else if length (cn_buf c) < n then None
           else
             (case mc_exec S (cn_db c) m (cn_stat c) (cn_out c) of
                None \<Rightarrow> None
              | Some (st1, ys, out) \<Rightarrow>
                let c1 = c\<lparr>cn_buf := drop n (cn_buf c), cn_out := out, cn_keys := ys\<rparr>;
                    st2 = (if st1 = MEMCACHED_OK \<and> \<not> v_ok V then MEMCACHED_ALLOC_FAIL else st1) in
                if st2 = MEMCACHED_SETUP_OK then
                  if sv_prefetch S then Some (EV_PREFETCH, c1)
                  else (case mc_run_keys V m c1 of None \<Rightarrow> None | Some c2 \<Rightarrow> process_loop S c2)
                else if st2 = MEMCACHED_QUIT then Some (EV_SHUTDOWN, c1)
                else process_loop S (mc_reply_status V m st2 c1))))"

end
