(* ===== verification/Mc_Session.thy ===== *)
theory Mc_Session
  imports Mc_Serve
begin

text \<open>
  The refinement of the memcached service: what the table of the key store promises as a locale, the map from
  keys to values that a table stands for, and a session of requests, from the bytes received to the bytes sent,
  as a run of that map.
\<close>

section \<open>What the table promises\<close>

definition kept :: "'e kv_ops \<Rightarrow> 'e \<Rightarrow> bool" where
  "kept K e \<longleftrightarrow> fst (op_find K (op_release K e)) = KEY_OK"

text \<open>A table that no other process changes. An entry is found after its release when it was there or got
  memory for a value; a new one without is not.\<close>

locale mc_table = mc_entry K M for K :: "'e kv_ops" and M :: "'e mc_ops" +
  assumes find_status: "op_find K e = (st, e1) \<Longrightarrow> st = KEY_OK \<or> st = KEY_NOT_FOUND"
    and find_twice: "op_find K e = (st, e1) \<Longrightarrow> op_find K e1 = (st, e1)"
    and steady: "op_value K e = KEY_OK" "op_validate K e = KEY_OK"
    and acquire_old: "op_find K e = (KEY_OK, e1) \<Longrightarrow> \<exists>e2. op_acquire K e = (KEY_OK, e2) \<and> op_data K e2 = op_data K e1
          \<and> mo_get_val M e2 = mo_get_val M e1 \<and> op_get_type K e2 = op_get_type K e1"
    and acquire_new: "op_find K e = (KEY_NOT_FOUND, e1) \<Longrightarrow> fst (op_acquire K e) = KEY_IS_NEW"
    and acquired_kept: "op_acquire K e = (KEY_OK, e2) \<Longrightarrow> kept K e2"
    and unused_dropped: "op_acquire K e = (KEY_IS_NEW, e2) \<Longrightarrow> \<not> kept K (op_set_type K e2 t)"
    and resized_kept: "op_resize K e n cp = (KEY_OK, e2) \<Longrightarrow> kept K e2"
    and data_kept: "kept K e \<Longrightarrow> kept K (op_set_data K e bs)"
    and val_kept: "kept K e \<Longrightarrow> kept K (mo_set_val M e v)"
    and type_kept: "kept K e \<Longrightarrow> kept K (op_set_type K e t)"
    and tombstone_dropped: "\<not> kept K (mo_tombstone M e)"

interpretation mc_mem: mc_table mc_mem_ops mc_mem_mc
  by unfold_locales (auto simp: kept_def mc_mem_ops_def mc_mem_mc_def mem_ops_def with_base_def split: if_splits)

text \<open>The value of a key: its flags and its data.\<close>

definition mc_abs :: "'e kv_ops \<Rightarrow> 'e mc_ops \<Rightarrow> 'e \<Rightarrow> (u32 \<times> byte list) option" where
  "mc_abs K M e = (case op_find K e of (st, e1) \<Rightarrow>
     if st = KEY_OK \<and> op_get_type K e1 = MD_STRING then Some (mo_get_val M e1, op_data K e1) else None)"

text \<open>What memcached clients alone leave in the table: keys that are there are strings.\<close>

definition mc_strings :: "'e kv_ops \<Rightarrow> 'e \<Rightarrow> bool" where
  "mc_strings K e \<longleftrightarrow> (case op_find K e of (st, e1) \<Rightarrow> st = KEY_OK \<longrightarrow> op_get_type K e1 = MD_STRING)"

context mc_table
begin

lemma abs_kept:
  assumes "kept K e" "op_get_type K e = MD_STRING"
  shows "mc_abs K M (op_release K e) = Some (mo_get_val M e, op_data K e)" "mc_strings K (op_release K e)"
proof -
  obtain e1 where f: "op_find K (op_release K e) = (KEY_OK, e1)"
    using assms(1) unfolding kept_def by (metis prod.collapse)
  from found_again [OF this] show "mc_abs K M (op_release K e) = Some (mo_get_val M e, op_data K e)" "mc_strings K (op_release K e)"
    using assms(2) f by (simp_all add: mc_abs_def mc_strings_def)
qed

lemma abs_dropped:
  assumes "\<not> kept K e"
  shows "mc_abs K M (op_release K e) = None" "mc_strings K (op_release K e)"
  using assms by (auto simp: kept_def mc_abs_def mc_strings_def split: prod.splits)

text \<open>The access to write sees what the value is.\<close>

lemma acquire_abs:
  assumes "mc_strings K e"
  obtains st e2 where "op_acquire K e = (st, e2)" "st = KEY_OK \<or> st = KEY_IS_NEW" "st = KEY_OK \<longleftrightarrow> mc_abs K M e \<noteq> None"
    "mc_old K st e2 = map_option snd (mc_abs K M e)"
    "\<And>f d. mc_abs K M e = Some (f, d) \<Longrightarrow> op_get_type K e2 = MD_STRING \<and> mo_get_val M e2 = f \<and> op_data K e2 = d"
proof -
  obtain st1 e1 where f: "op_find K e = (st1, e1)" by force
  show thesis
  proof (cases "st1 = KEY_OK")
    case True
    then obtain e2 where "op_acquire K e = (KEY_OK, e2)" "op_data K e2 = op_data K e1" "mo_get_val M e2 = mo_get_val M e1"
      "op_get_type K e2 = op_get_type K e1"
      using acquire_old f by blast
    then show thesis using True assms f by (intro that [of KEY_OK e2]) (auto simp: mc_abs_def mc_old_def mc_strings_def)
  next
    case False
    then have "st1 = KEY_NOT_FOUND" using find_status [OF f] by simp
    then obtain e2 where "op_acquire K e = (KEY_IS_NEW, e2)" using acquire_new [of e e1] f by (metis prod.collapse)
    then show thesis using False f by (intro that [of KEY_IS_NEW e2]) (auto simp: mc_abs_def mc_old_def)
  qed
qed

lemma find_abs:
  assumes "mc_strings K e"
  obtains st e1 where "op_find K e = (st, e1)" "st = KEY_OK \<or> st = KEY_NOT_FOUND" "st = KEY_OK \<longleftrightarrow> mc_abs K M e \<noteq> None"
    "mc_abs K M e1 = mc_abs K M e" "mc_strings K e1"
    "\<And>f d. mc_abs K M e = Some (f, d) \<Longrightarrow> op_get_type K e1 = MD_STRING \<and> mo_get_val M e1 = f \<and> op_data K e1 = d"
proof -
  obtain st e1 where f: "op_find K e = (st, e1)" by force
  show thesis
    using find_status [OF f] find_twice [OF f] assms f by (intro that [of st e1]) (auto simp: mc_abs_def mc_strings_def)
qed

end

section \<open>One command on one key\<close>

lemma store_data_keeps:
  assumes "mc_table (v_ops V) (v_mc V)" "store_data V m y = Some y'" "y_kstatus y' = KEY_OK"
  shows "kept (v_ops V) (y_ent y') \<and> y_key y' = y_key y"
  using assms(2,3) mc_table.resized_kept [OF assms(1)] mc_table.data_kept [OF assms(1)]
  by (auto simp: store_data_def Let_def y_resize_def y_put_def split: if_splits Option.bind_splits prod.splits)

lemma key_same [simp]:
  "mc_key_fetch V m b y = (st, y1) \<Longrightarrow> y_key y1 = y_key y"
  "mc_key_write V m y ty = (st, y1) \<Longrightarrow> y_key y1 = y_key y"
  "y_key (overwrite st y) = y_key y"
  by (auto simp: mc_key_write_def mc_key_fetch_def Let_def overwrite_def split: if_splits prod.splits)

lemma mc_store_keeps:
  assumes "mc_table (v_ops V) (v_mc V)" "mc_store V m y = Some (MEMCACHED_OK, y')"
    "command m = Some c" "c \<in> store_cmds" "mc_cas m = 0"
    "mc_key_write V m (count (\<lambda>s. s\<lparr>st_set_cnt := st_set_cnt s + 1\<rparr>) y) MD_STRING = (st', y1)"
  shows "y_key y' = y_key y \<and> (store_spec c (if y_new (overwrite st' y1) then None else Some d) v \<noteq> None \<longrightarrow> kept (v_ops V) (y_ent y'))"
proof -
  have k: "y_key y1 = y_key y" using key_same(2) [OF assms(6)] by simp
  note t = store_test_spec [OF assms(3-5), where V = V and r = NotStored and y = "overwrite st' y1" and d = d and v = v]
  show ?thesis
  proof (cases "store_spec c (if y_new (overwrite st' y1) then None else Some d) v = None")
    case True
    then show ?thesis using assms(2,6) t k
      by (simp add: mc_store_def unless_quiet_def split: if_splits) auto
  next
    case False
    then have t2: "store_test V m NotStored (overwrite st' y1) = (None, overwrite st' y1)" using t by simp
    obtain y3 where y3: "store_data V m (mc_ttl_stamp V m (overwrite st' y1)) = Some y3" "y_kstatus y3 = KEY_OK"
      "y' = unless_quiet m (mc_say V ''STORED'') (y_set_val V (mc_flags m) y3)"
      using assms(2) unfolding mc_store_def assms(6) prod.case t2 option.case
      by (cases "store_data V m (mc_ttl_stamp V m (overwrite st' y1))") (auto split: if_splits)
    have "kept (v_ops V) (y_ent y3)" "y_key y3 = y_key y"
      using store_data_keeps [OF assms(1) y3(1,2)] k by simp_all
    then show ?thesis using mc_table.val_kept [OF assms(1)] by (simp add: y3(3) unless_quiet_def y_set_val_def)
  qed
qed

text \<open>What a store command makes of the value of its key.\<close>

definition stored_value :: "memcached_cmd \<Rightarrow> u32 \<Rightarrow> byte list \<Rightarrow> (u32 \<times> byte list) option \<Rightarrow> (u32 \<times> byte list) option" where
  "stored_value c f v old = (case store_spec c (map_option snd old) v of None \<Rightarrow> old | Some d \<Rightarrow> Some (f, d))"

definition stored_reply :: "memcached_cmd \<Rightarrow> bool \<Rightarrow> byte list \<Rightarrow> (u32 \<times> byte list) option \<Rightarrow> byte list" where
  "stored_reply c quiet v old =
     (if quiet then []
      else ascii (if store_spec c (map_option snd old) v = None then ''NOT_STORED'' else ''STORED'') @ crlf)"

lemma store_run:
  assumes "mc_table (v_ops V) (v_mc V)" "roomy (v_ops V)" "v_ok V" "c \<in> store_cmds" "store_msg c key flags ttl val quiet m"
    "mc_strings (v_ops V) (y_ent y)" "EKF_IS_NEW \<notin> y_flags y" "y_type y = MD_NODATA"
  obtains y1 where "mc_run_key V m n y = Some (False, y1)" "y_status y1 = MEMCACHED_OK" "y_key y1 = y_key y"
    "mc_abs (v_ops V) (v_mc V) (y_ent y1) = stored_value c flags val (mc_abs (v_ops V) (v_mc V) (y_ent y))"
    "mc_strings (v_ops V) (y_ent y1)"
    "y_out y1 = y_out y @ stored_reply c quiet val (mc_abs (v_ops V) (v_mc V) (y_ent y))"
proof -
  let ?K = "v_ops V" and ?M = "v_mc V" and ?a = "mc_abs (v_ops V) (v_mc V) (y_ent y)"
  have E: "mc_entry ?K ?M" using assms(1) by (rule mc_table.axioms)
  have m: "command m = Some c" "\<not> is_binary m" "mc_cas m = 0" using assms(5) by (simp_all add: store_msg_def)
  obtain st e where a: "op_acquire ?K (y_ent y) = (st, e)" "st = KEY_OK \<or> st = KEY_IS_NEW" "st = KEY_OK \<longleftrightarrow> ?a \<noteq> None"
    "mc_old ?K st e = map_option snd ?a"
    "\<And>f d. ?a = Some (f, d) \<Longrightarrow> op_get_type ?K e = MD_STRING \<and> mo_get_val ?M e = f \<and> op_data ?K e = d"
    by (rule mc_table.acquire_abs [OF assms(1,6)]) blast
  obtain y' where y': "mc_store V m y = Some (MEMCACHED_OK, y')" "EKF_IS_READ_ONLY \<notin> y_flags y'" "y_new y' \<longleftrightarrow> ?a = None"
    "y_new y' \<longrightarrow> y_type y' \<in> {MD_NODATA, MD_STRING}"
    "case store_spec c (map_option snd ?a) val of
         None \<Rightarrow> y_ent y' = e \<and> y_out y' = y_out y @ (if quiet then [] else ascii ''NOT_STORED'' @ crlf)
       | Some d \<Rightarrow> op_data ?K (y_ent y') = d \<and> mo_get_val ?M (y_ent y') = flags \<and> op_get_type ?K (y_ent y') = op_get_type ?K e
           \<and> y_out y' = y_out y @ (if quiet then [] else ascii ''STORED'' @ crlf)"
    using mc_store_ok [OF E assms(2-5) a(1,2) assms(7)] assms(8) unfolding a(4) by auto
  let ?y0 = "count (\<lambda>s. s\<lparr>st_set_cnt := st_set_cnt s + 1\<rparr>) y"
  have y0: "op_acquire ?K (y_ent ?y0) = (st, e)" "EKF_IS_NEW \<notin> y_flags ?y0" using a(1) assms(7) by simp_all
  obtain st' y1 where w: "mc_key_write V m ?y0 MD_STRING = (st', y1)" "y_new (overwrite st' y1) \<longleftrightarrow> mc_old ?K st e = None"
    by (rule key_write_string [OF store_is_write [OF m(1) assms(4)] y0(1) a(2) y0(2)]) (rule that; assumption)
  have old: "(if y_new (overwrite st' y1) then None else Some (snd (the ?a))) = map_option snd ?a"
    using w(2) a(4) by (cases ?a) auto
  note k = mc_store_keeps [OF assms(1) y'(1) m(1) assms(4) m(3) w(1), of "snd (the ?a)" val, unfolded old]
  let ?z = "mc_after V (y'\<lparr>y_status := MEMCACHED_OK\<rparr>)"
  let ?e = "if y_new y' then op_set_type ?K (y_ent y') MD_STRING else y_ent y'"
  have z: "y_ent ?z = op_release ?K ?e" "y_status ?z = MEMCACHED_OK" "y_key ?z = y_key y" "y_out ?z = y_out y'"
    using y'(2,4) k by (auto simp: mc_after_def y_new_def memcached_status_success_def Let_def)
  have "mc_abs ?K ?M (op_release ?K ?e) = stored_value c flags val ?a \<and> mc_strings ?K (op_release ?K ?e)"
  proof (cases "store_spec c (map_option snd ?a) val")
    case (Some d)
    have "kept ?K ?e" using k Some mc_table.type_kept [OF assms(1)] by auto
    moreover have "op_get_type ?K ?e = MD_STRING" "op_data ?K ?e = d" "mo_get_val ?M ?e = flags"
      using y'(3,5) Some a(5) kv_entry.set_type [OF mc_entry.axioms(1) [OF E]] mc_entry.type_val [OF E] mc_entry.type_set [OF E]
      by (cases ?a; auto)+
    ultimately show ?thesis using mc_table.abs_kept [OF assms(1)] Some by (simp add: stored_value_def)
  next
    case None
    show ?thesis
    proof (cases ?a)
      case n: None
      have "st = KEY_IS_NEW" using a(2,3) n by auto
      then have "\<not> kept ?K ?e" using mc_table.unused_dropped [OF assms(1)] a(1) y'(3,5) None n by auto
      then show ?thesis using mc_table.abs_dropped [OF assms(1)] None n by (simp add: stored_value_def)
    next
      case (Some p)
      then obtain f d where p: "?a = Some (f, d)" by (cases p) auto
      have "st = KEY_OK" using a(3) Some by simp
      then have "kept ?K ?e" "op_get_type ?K ?e = MD_STRING" "mo_get_val ?M ?e = f" "op_data ?K ?e = d"
        using mc_table.acquired_kept [OF assms(1)] a(1) y'(3,5) None Some a(5) [OF p] by auto
      then show ?thesis using mc_table.abs_kept [OF assms(1)] None p by (simp add: stored_value_def)
    qed
  qed
  moreover have "y_out y' = y_out y @ stored_reply c quiet val ?a"
    using y'(5) by (auto simp: stored_reply_def split: option.splits)
  moreover have "mc_run_key V m n y = Some (False, ?z)"
    by (rule mc_run_store [OF m(1) assms(4) m(2) y'(1)])
  ultimately show thesis using that [of ?z] z by simp
qed

text \<open>The text of a key that is read, and the reply to a removal.\<close>

definition value_text :: "kv_util \<Rightarrow> byte list \<Rightarrow> (u32 \<times> byte list) option \<Rightarrow> byte list" where
  "value_text U k a = (case a of None \<Rightarrow> [] | Some (f, d) \<Rightarrow> format_value U k f d 0 False)"

definition deleted_reply :: "bool \<Rightarrow> 'a option \<Rightarrow> byte list" where
  "deleted_reply quiet a = (if quiet then [] else ascii (if a = None then ''NOT_FOUND'' else ''DELETED'') @ crlf)"

lemma format_value_end: "format_value U k f d c True = format_value U k f d c False @ ascii ''END'' @ crlf"
  by (simp add: format_value_def)

lemma get_run:
  assumes "mc_table (v_ops V) (v_mc V)" "v_ok V" "command m = Some MC_GET" "\<not> is_binary m" "mc_strings (v_ops V) (y_ent y)"
  obtains y1 where "mc_run_key V m 1 y = Some (False, y1)" "y_status y1 = MEMCACHED_OK" "y_key y1 = y_key y"
    "mc_abs (v_ops V) (v_mc V) (y_ent y1) = mc_abs (v_ops V) (v_mc V) (y_ent y)" "mc_strings (v_ops V) (y_ent y1)"
    "y_out y1 = y_out y @ value_text (v_util V) (y_key y) (mc_abs (v_ops V) (v_mc V) (y_ent y)) @ ascii ''END'' @ crlf"
proof -
  let ?K = "v_ops V" and ?M = "v_mc V" and ?a = "mc_abs (v_ops V) (v_mc V) (y_ent y)"
  obtain st e where f: "op_find ?K (y_ent y) = (st, e)" "st = KEY_OK \<or> st = KEY_NOT_FOUND" "st = KEY_OK \<longleftrightarrow> ?a \<noteq> None"
    "mc_abs ?K ?M e = ?a" "mc_strings ?K e"
    "\<And>f d. ?a = Some (f, d) \<Longrightarrow> op_get_type ?K e = MD_STRING \<and> mo_get_val ?M e = f \<and> op_data ?K e = d"
    by (rule mc_table.find_abs [OF assms(1,5)]) blast
  have r: "test_read_only m" using assms(3) by (simp add: test_read_only_def read_only_def)
  note handler = mc_retr_def mc_key_read_def mc_key_fetch_def r y_value_def y_validate_def Let_def send_value_def value_cas_def
    y_data_def count_def mc_table.steady [OF assms(1)] assms(2,3) f(1)
  have "\<exists>y1. mc_retr V m 1 y = Some (MEMCACHED_OK, y1) \<and> EKF_IS_READ_ONLY \<in> y_flags y1 \<and> y_ent y1 = e \<and> y_key y1 = y_key y
    \<and> y_out y1 = y_out y @ value_text (v_util V) (y_key y) ?a @ ascii ''END'' @ crlf"
  proof (cases ?a)
    case None
    then have st: "st = KEY_NOT_FOUND" using f(2,3) by simp
    show ?thesis by (simp add: handler None st value_text_def mc_string_def)
  next
    case (Some p)
    then obtain g d where p: "?a = Some (g, d)" by (cases p) auto
    then have st: "st = KEY_OK" using f(3) by simp
    show ?thesis by (simp add: handler f(6) [OF p] p st value_text_def format_value_end)
  qed
  then obtain y1 where y1: "mc_retr V m 1 y = Some (MEMCACHED_OK, y1)" "EKF_IS_READ_ONLY \<in> y_flags y1" "y_ent y1 = e" "y_key y1 = y_key y"
    "y_out y1 = y_out y @ value_text (v_util V) (y_key y) ?a @ ascii ''END'' @ crlf"
    by blast
  show thesis
    by (rule that [OF mc_run_get [OF assms(3) _ assms(4) y1(1,2)]]) (simp_all add: y1 f(4,5))
qed

lemma delete_run:
  assumes "mc_table (v_ops V) (v_mc V)" "v_ok V" "command m = Some MC_DELETE" "\<not> is_binary m" "mc_strings (v_ops V) (y_ent y)"
    "EKF_IS_NEW \<notin> y_flags y"
  obtains y1 where "mc_run_key V m n y = Some (False, y1)" "y_status y1 = MEMCACHED_OK" "y_key y1 = y_key y"
    "mc_abs (v_ops V) (v_mc V) (y_ent y1) = None" "mc_strings (v_ops V) (y_ent y1)"
    "y_out y1 = y_out y @ deleted_reply (is_quiet m) (mc_abs (v_ops V) (v_mc V) (y_ent y))"
proof -
  let ?K = "v_ops V" and ?M = "v_mc V" and ?a = "mc_abs (v_ops V) (v_mc V) (y_ent y)"
  obtain st e where f: "op_find ?K (y_ent y) = (st, e)" "st = KEY_OK \<or> st = KEY_NOT_FOUND" "st = KEY_OK \<longleftrightarrow> ?a \<noteq> None"
    "mc_abs ?K ?M e = ?a" "mc_strings ?K e"
    by (rule mc_table.find_abs [OF assms(1,5)]) blast
  have w: "\<not> test_read_only m" "test_mutator m" using assms(3) by (simp_all add: test_read_only_def read_only_def test_mutator_def mutator_def)
  have h: "mc_handler V m n z = mc_del V m z" for z using assms(3,4) by (simp add: mc_handler_def)
  note handler = mc_del_def del_key_def mc_key_fetch_def w Let_def count_def assms(2) f(1) unless_quiet_def mc_string_def deleted_reply_def
  show thesis
  proof (cases ?a)
    case None
    have st: "st = KEY_NOT_FOUND" using None f(2,3) by simp
    have "\<exists>y1. mc_del V m y = Some (MEMCACHED_OK, y1) \<and> EKF_IS_READ_ONLY \<in> y_flags y1 \<and> y_ent y1 = e \<and> y_key y1 = y_key y
      \<and> y_out y1 = y_out y @ deleted_reply (is_quiet m) ?a"
      by (simp add: handler None st)
    then obtain y1 where "mc_del V m y = Some (MEMCACHED_OK, y1)" "EKF_IS_READ_ONLY \<in> y_flags y1" "y_ent y1 = e" "y_key y1 = y_key y"
      "y_out y1 = y_out y @ deleted_reply (is_quiet m) ?a"
      by blast
    moreover from this have "mc_run_key V m n y = Some (False, y1\<lparr>y_status := MEMCACHED_OK\<rparr>)"
      by (subst mc_run_key.simps) (simp add: h mc_after_def Let_def)
    ultimately show thesis using f(4,5) None by (intro that [of "y1\<lparr>y_status := MEMCACHED_OK\<rparr>"]) simp_all
  next
    case (Some p)
    obtain st2 e2 where a: "op_acquire ?K e = (st2, e2)" "st2 = KEY_OK \<or> st2 = KEY_IS_NEW" "st2 = KEY_OK \<longleftrightarrow> ?a \<noteq> None"
      by (rule mc_table.acquire_abs [OF assms(1) f(5)]) (simp add: f(4) that)
    have st: "st = KEY_OK" "st2 = KEY_OK" using f(3) a(3) Some by simp_all
    have "\<exists>y1. mc_del V m y = Some (MEMCACHED_OK, y1) \<and> EKF_IS_READ_ONLY \<notin> y_flags y1 \<and> EKF_IS_NEW \<notin> y_flags y1
      \<and> y_ent y1 = mo_tombstone ?M e2 \<and> y_key y1 = y_key y \<and> y_out y1 = y_out y @ deleted_reply (is_quiet m) ?a"
      by (simp add: handler st a(1) Some assms(6))
    then obtain y1 where "mc_del V m y = Some (MEMCACHED_OK, y1)" "EKF_IS_READ_ONLY \<notin> y_flags y1" "EKF_IS_NEW \<notin> y_flags y1"
      "y_ent y1 = mo_tombstone ?M e2" "y_key y1 = y_key y" "y_out y1 = y_out y @ deleted_reply (is_quiet m) ?a"
      by blast
    moreover from this have "mc_run_key V m n y = Some (False, y1\<lparr>y_status := MEMCACHED_OK, y_ent := op_release ?K (y_ent y1)\<rparr>)"
      by (subst mc_run_key.simps) (simp add: h mc_after_def y_new_def Let_def)
    ultimately show thesis using mc_table.abs_dropped [OF assms(1) mc_table.tombstone_dropped [OF assms(1), of e2]]
      by (intro that [of "y1\<lparr>y_status := MEMCACHED_OK, y_ent := op_release ?K (y_ent y1)\<rparr>"]) simp_all
  qed
qed

text \<open>The run of a command with one key.\<close>

lemma mc_run_one:
  assumes "n_keys r = [y]" "n_done r = 0" "mc_active y" "mc_pad (n_msg r) = 0xaa"
    "mc_run_key V (n_msg r) 1 (y\<lparr>y_out := n_out r, y_stat := n_stat r\<rparr>) = Some (False, y1)" "y_status y1 = MEMCACHED_OK"
  shows "\<exists>r'. mc_run_to_completion V r = Some r' \<and> n_keys r' = [y1] \<and> n_out r' = y_out y1"
  using assms by (simp add: mc_run_to_completion_def)
    (subst mc_run_single.simps, simp add: mc_key_continue_def Let_def mc_key_finished_def mc_err_def)

section \<open>Sessions\<close>

datatype mc_req =
    StoreReq memcached_cmd "byte list" "byte list" u32 u64 "byte list" "byte list option"
  | GetReq "byte list" "byte list list"
  | DeleteReq "byte list" "byte list" "byte list option"

fun req_text :: "mc_req \<Rightarrow> byte list" where
  "req_text (StoreReq c w k f t d q) = store_line w k f t (length d) q @ d @ crlf"
| "req_text (GetReq w ks) = request_line w ks"
| "req_text (DeleteReq w k q) = request_line w (k # (case q of None \<Rightarrow> [] | Some x \<Rightarrow> [x]))"

fun req_valid :: "mc_req \<Rightarrow> bool" where
  "req_valid (StoreReq c w k f t d q) \<longleftrightarrow> c \<in> store_cmds \<and> word_of c w \<and> plain_word k \<and> list_all plain_word (case q of None \<Rightarrow> [] | Some x \<Rightarrow> [x])
     \<and> length d < 2 ^ 64"
| "req_valid (GetReq w ks) \<longleftrightarrow> word_of MC_GET w \<and> ks \<noteq> [] \<and> list_all plain_word ks"
| "req_valid (DeleteReq w k q) \<longleftrightarrow> word_of MC_DELETE w \<and> plain_word k \<and> list_all plain_word (case q of None \<Rightarrow> [] | Some x \<Rightarrow> [x])"

type_synonym mc_map = "byte list \<Rightarrow> (u32 \<times> byte list) option"

text \<open>The service as its clients see it: a map, and the replies.\<close>

fun req_step :: "kv_util \<Rightarrow> mc_req \<Rightarrow> mc_map \<Rightarrow> mc_map \<times> byte list" where
  "req_step U (StoreReq c w k f t d q) T = (T(k := stored_value c f d (T k)), stored_reply c (q \<noteq> None) d (T k))"
| "req_step U (GetReq w ks) T = (T, concat (map (\<lambda>k. value_text U k (T k)) ks) @ ascii ''END'' @ crlf)"
| "req_step U (DeleteReq w k q) T = (T(k := None), deleted_reply (q \<noteq> None) (T k))"

fun session :: "kv_util \<Rightarrow> mc_req list \<Rightarrow> mc_map \<Rightarrow> mc_map \<times> byte list" where
  "session U [] T = (T, [])"
| "session U (q # qs) T = (case req_step U q T of (T1, r) \<Rightarrow> case session U qs T1 of (T2, rs) \<Rightarrow> (T2, r @ rs))"

definition served :: "'e mc_serve \<Rightarrow> bool" where
  "served S \<longleftrightarrow> mc_table (v_ops (sv_env S)) (v_mc (sv_env S)) \<and> roomy (v_ops (sv_env S)) \<and> v_ok (sv_env S) \<and> sv_temp S
     \<and> \<not> sv_prefetch S \<and> y_type (sv_ctx S) = MD_NODATA \<and> EKF_IS_NEW \<notin> y_flags (sv_ctx S) \<and> y_part (sv_ctx S) = None"

definition conn_abs :: "'e mc_serve \<Rightarrow> 'e mc_conn \<Rightarrow> mc_map" where
  "conn_abs S c k = mc_abs (v_ops (sv_env S)) (v_mc (sv_env S)) (cn_db c k)"

definition conn_ok :: "'e mc_serve \<Rightarrow> 'e mc_conn \<Rightarrow> bool" where
  "conn_ok S c \<longleftrightarrow> (\<forall>k. mc_strings (v_ops (sv_env S)) (cn_db c k))"

text \<open>One turn of the loop, for a command on keys.\<close>

lemma loop_turn:
  assumes "served S" "exec_unpack (v_util (sv_env S)) True True (cn_buf c) (sv_mem S) = Some (MEMCACHED_OK, n, m)"
    "n \<le> length (cn_buf c)" "cn_buf c \<noteq> []" "mc_pad m = 0xaa" "0 < mc_keycnt m" "mc_first m + mc_keycnt m \<le> length (mc_args m)"
    "mc_run_to_completion (sv_env S) \<lparr>n_msg = m, n_keys = map (mc_key_setup S (cn_db c)) (take (mc_keycnt m) (drop (mc_first m) (mc_args m))),
        n_done = 0, n_out = cn_out c, n_stat = cn_stat c\<rparr> = Some r"
  shows "process_loop S c = process_loop S (c\<lparr>cn_buf := drop n (cn_buf c), cn_db := put_keys (n_keys r) (cn_db c), cn_out := n_out r,
    cn_stat := n_stat r, cn_keys := []\<rparr>)"
proof -
  have x: "mc_exec S (cn_db c) m (cn_stat c) (cn_out c)
      = Some (MEMCACHED_SETUP_OK, map (mc_key_setup S (cn_db c)) (take (mc_keycnt m) (drop (mc_first m) (mc_args m))), cn_out c)"
    using assms(1,5-7) by (simp add: mc_exec_def mc_setup_keys_def served_def)
  show ?thesis
    using assms(1-4) by (subst process_loop.simps) (simp add: served_def Let_def x mc_run_keys_def assms(8))
qed

lemma unpack_get:
  assumes "word_of MC_GET w" "ks \<noteq> []" "list_all plain_word ks"
  obtains m' where "exec_unpack U True True (request_line w ks @ rest) m = Some (MEMCACHED_OK, length (request_line w ks), m')"
    "command m' = Some MC_GET" "\<not> is_binary m'" "mc_pad m' = 0xaa" "mc_args m' = ks" "mc_first m' = 0" "mc_keycnt m' = length ks"
proof -
  let ?m = "(fresh_msg m)\<lparr>mc_args := ks, mc_cmd := cmd_code MC_GET\<rparr>"
  let ?m' = "?m\<lparr>mc_keycnt := length ks, mc_first := 0, mc_ttl := 0, mc_cas := 0, mc_msglen := 0, mc_inc := 0, mc_data := None\<rparr>"
  have ks: "\<forall>a\<in>set ks. plain_word a" using assms(3) by (simp add: list_all_iff)
  have p: "parse_args MC_GET ?m = (MEMCACHED_OK, ?m')" using assms(2) by (simp add: parse_args_def parse_retr_def)
  have c: "command ?m' = Some MC_GET" "\<not> is_binary ?m'" using cmd_loud [of ?m' MC_GET] by simp_all
  show thesis
    using unpack_words [OF word_of_plain(1) [OF assms(1)] ks assms(2) word_of_plain(2,3) [OF assms(1)]
        word_of_plain(4) [OF assms(1), of "[]"] p, of U rest] c
    by (intro that [of ?m']) (simp_all add: exec_unpack_def fresh_msg_def)
qed

lemma unpack_delete:
  assumes "word_of MC_DELETE w" "plain_word k" "list_all plain_word (case q of None \<Rightarrow> [] | Some x \<Rightarrow> [x])"
  obtains m' where "exec_unpack U True True (req_text (DeleteReq w k q) @ rest) m = Some (MEMCACHED_OK, length (req_text (DeleteReq w k q)), m')"
    "command m' = Some MC_DELETE" "\<not> is_binary m'" "is_quiet m' \<longleftrightarrow> q \<noteq> None" "mc_pad m' = 0xaa" "mc_args m' ! 0 = k"
    "mc_args m' \<noteq> []" "mc_first m' = 0" "mc_keycnt m' = 1"
proof -
  let ?ks = "k # (case q of None \<Rightarrow> [] | Some x \<Rightarrow> [x])"
  let ?m = "(fresh_msg m)\<lparr>mc_args := ?ks, mc_cmd := cmd_code MC_DELETE\<rparr>"
  let ?m' = "set_quiet (q \<noteq> None) (?m\<lparr>mc_keycnt := 1, mc_first := 0, mc_ttl := 0, mc_cas := 0, mc_msglen := 0, mc_inc := 0, mc_data := None\<rparr>)"
  have ks: "\<forall>a\<in>set ?ks. plain_word a" using assms(2,3) by (simp add: list_all_iff)
  have p: "parse_args MC_DELETE ?m = (MEMCACHED_OK, ?m')" by (cases q) (simp_all add: parse_args_def parse_del_def)
  have c: "command ?m' = Some MC_DELETE" "\<not> is_binary ?m'" "is_quiet ?m' \<longleftrightarrow> q \<noteq> None"
  proof -
    have "mc_cmd ?m' = (if q \<noteq> None then cmd_code MC_DELETE OR MC_QUIET else cmd_code MC_DELETE)" by (simp add: set_quiet_def)
    then show "command ?m' = Some MC_DELETE" "\<not> is_binary ?m'" "is_quiet ?m' \<longleftrightarrow> q \<noteq> None"
      using cmd_loud [of ?m' MC_DELETE] cmd_quiet [of ?m' MC_DELETE] by (metis, metis, metis)
  qed
  show thesis
    using unpack_words [OF word_of_plain(1) [OF assms(1)] ks _ word_of_plain(2,3) [OF assms(1)]
        word_of_plain(4) [OF assms(1), of "[]"] p, of U rest] c
    by (intro that [of ?m']) (simp_all add: exec_unpack_def fresh_msg_def set_quiet_def)
qed

lemma put_keys_one [simp]: "put_keys [y] db = db(y_key y := y_ent y)"
  by (simp add: put_keys_def)

definition turned :: "'e mc_serve \<Rightarrow> mc_req \<Rightarrow> byte list \<Rightarrow> 'e mc_conn \<Rightarrow> 'e mc_conn \<Rightarrow> bool" where
  "turned S q rest c c1 \<longleftrightarrow> process_loop S c = process_loop S c1 \<and> cn_buf c1 = rest \<and> conn_ok S c1
     \<and> (conn_abs S c1, cn_out c1) = (case req_step (v_util (sv_env S)) q (conn_abs S c) of (T, r) \<Rightarrow> (T, cn_out c @ r))"

text \<open>A turn on one key, from its run.\<close>

lemma turn_one:
  assumes "served S" "conn_ok S c" "exec_unpack (v_util (sv_env S)) True True (cn_buf c) (sv_mem S) = Some (MEMCACHED_OK, length (req_text q), m)"
    "cn_buf c = req_text q @ rest" "req_text q \<noteq> []" "mc_pad m = 0xaa" "mc_args m \<noteq> []" "mc_args m ! 0 = k" "mc_first m = 0" "mc_keycnt m = 1"
    "mc_run_key (sv_env S) m 1 ((mc_key_setup S (cn_db c) k)\<lparr>y_out := cn_out c, y_stat := cn_stat c\<rparr>) = Some (False, y1)"
    "y_status y1 = MEMCACHED_OK" "y_key y1 = k" "mc_strings (v_ops (sv_env S)) (y_ent y1)"
    "req_step (v_util (sv_env S)) q (conn_abs S c) = ((conn_abs S c)(k := mc_abs (v_ops (sv_env S)) (v_mc (sv_env S)) (y_ent y1)), r)"
    "y_out y1 = cn_out c @ r"
  shows "\<exists>c1. turned S q rest c c1"
proof -
  let ?y = "mc_key_setup S (cn_db c) k"
  have a: "take (mc_keycnt m) (drop (mc_first m) (mc_args m)) = [k]" using assms(7-10) by (cases "mc_args m") auto
  have act: "mc_active ?y" by (simp add: mc_active_def mc_key_setup_def)
  obtain x where x: "mc_run_to_completion (sv_env S) \<lparr>n_msg = m, n_keys = [?y], n_done = 0, n_out = cn_out c, n_stat = cn_stat c\<rparr> = Some x"
    "n_keys x = [y1]" "n_out x = y_out y1"
    using mc_run_one [of "\<lparr>n_msg = m, n_keys = [?y], n_done = 0, n_out = cn_out c, n_stat = cn_stat c\<rparr>" ?y "sv_env S" y1]
      act assms(6,11,12) by auto
  let ?c = "c\<lparr>cn_buf := rest, cn_db := (cn_db c)(k := y_ent y1), cn_out := cn_out c @ r, cn_stat := n_stat x, cn_keys := []\<rparr>"
  have "process_loop S c = process_loop S ?c"
    using loop_turn [OF assms(1,3), of x] assms(4-7,9,10,13,16) a x by (cases "mc_args m") simp_all
  then show ?thesis using assms(2,14,15)
    by (intro exI [of _ ?c]) (auto simp: turned_def conn_ok_def conn_abs_def fun_eq_iff)
qed

lemma key_setup_sel [simp]:
  "y_ent (mc_key_setup S db k) = db k" "y_key (mc_key_setup S db k) = k" "y_flags (mc_key_setup S db k) = y_flags (sv_ctx S)"
  "y_type (mc_key_setup S db k) = y_type (sv_ctx S)" "y_part (mc_key_setup S db k) = y_part (sv_ctx S)"
  "y_status (mc_key_setup S db k) = MEMCACHED_CONTINUE"
  by (simp_all add: mc_key_setup_def)

lemma turn_store:
  assumes "served S" "conn_ok S c" "cn_buf c = req_text (StoreReq sc w k f t d q) @ rest" "req_valid (StoreReq sc w k f t d q)"
  shows "\<exists>c1. turned S (StoreReq sc w k f t d q) rest c c1"
proof -
  let ?V = "sv_env S" and ?l = "store_line w k f t (length d) q"
  have v: "sc \<in> store_cmds" "word_of sc w" "plain_word k" "\<forall>x \<in> set_option q. plain_word x" "length d < 2 ^ 64"
    using assms(4) by (cases q; simp)+
  obtain m where m: "exec_unpack (v_util ?V) True True (?l @ d @ crlf @ rest) (sv_mem S) = Some (MEMCACHED_OK, length ?l + length d + 2, m)"
    "store_msg sc k f t d (q \<noteq> None) m"
    using unpack_store_request [OF v] by metis
  have sm: "mc_pad m = 0xaa" "mc_args m \<noteq> []" "mc_args m ! 0 = k" "mc_first m = 0" "mc_keycnt m = 1"
    using m(2) by (simp_all add: store_msg_def)
  have u: "exec_unpack (v_util ?V) True True (cn_buf c) (sv_mem S) = Some (MEMCACHED_OK, length (req_text (StoreReq sc w k f t d q)), m)"
    using m(1) assms(3) by (simp add: crlf_def)
  have S: "mc_table (v_ops ?V) (v_mc ?V)" "roomy (v_ops ?V)" "v_ok ?V" "y_type (sv_ctx S) = MD_NODATA" "EKF_IS_NEW \<notin> y_flags (sv_ctx S)"
    using assms(1) by (simp_all add: served_def)
  let ?y = "(mc_key_setup S (cn_db c) k)\<lparr>y_out := cn_out c, y_stat := cn_stat c\<rparr>"
  have y: "mc_strings (v_ops ?V) (y_ent ?y)" "EKF_IS_NEW \<notin> y_flags ?y" "y_type ?y = MD_NODATA"
    using assms(2) S(4,5) by (simp_all add: conn_ok_def)
  obtain y1 where y1: "mc_run_key ?V m 1 ?y = Some (False, y1)" "y_status y1 = MEMCACHED_OK" "y_key y1 = y_key ?y"
    "mc_abs (v_ops ?V) (v_mc ?V) (y_ent y1) = stored_value sc f d (mc_abs (v_ops ?V) (v_mc ?V) (y_ent ?y))"
    "mc_strings (v_ops ?V) (y_ent y1)"
    "y_out y1 = y_out ?y @ stored_reply sc (q \<noteq> None) d (mc_abs (v_ops ?V) (v_mc ?V) (y_ent ?y))"
    by (rule store_run [OF S(1-3) v(1) m(2) y])
  show ?thesis
    by (rule turn_one [OF assms(1,2) u assms(3) _ sm y1(1,2) _ y1(5)])
      (use y1(3,4,6) in \<open>simp_all add: conn_abs_def crlf_def\<close>)
qed

lemma turn_delete:
  assumes "served S" "conn_ok S c" "cn_buf c = req_text (DeleteReq w k q) @ rest" "req_valid (DeleteReq w k q)"
  shows "\<exists>c1. turned S (DeleteReq w k q) rest c c1"
proof -
  let ?V = "sv_env S"
  have v: "word_of MC_DELETE w" "plain_word k" "list_all plain_word (case q of None \<Rightarrow> [] | Some x \<Rightarrow> [x])" using assms(4) by simp_all
  obtain m where m: "exec_unpack (v_util ?V) True True (req_text (DeleteReq w k q) @ rest) (sv_mem S) = Some (MEMCACHED_OK, length (req_text (DeleteReq w k q)), m)"
    "command m = Some MC_DELETE" "\<not> is_binary m" "is_quiet m \<longleftrightarrow> q \<noteq> None" "mc_pad m = 0xaa" "mc_args m ! 0 = k"
    "mc_args m \<noteq> []" "mc_first m = 0" "mc_keycnt m = 1"
    by (rule unpack_delete [OF v])
  have S: "mc_table (v_ops ?V) (v_mc ?V)" "v_ok ?V" "EKF_IS_NEW \<notin> y_flags (sv_ctx S)"
    using assms(1) by (simp_all add: served_def)
  let ?y = "(mc_key_setup S (cn_db c) k)\<lparr>y_out := cn_out c, y_stat := cn_stat c\<rparr>"
  have y: "mc_strings (v_ops ?V) (y_ent ?y)" "EKF_IS_NEW \<notin> y_flags ?y"
    using assms(2) S(3) by (simp_all add: conn_ok_def)
  obtain y1 where y1: "mc_run_key ?V m 1 ?y = Some (False, y1)" "y_status y1 = MEMCACHED_OK" "y_key y1 = y_key ?y"
    "mc_abs (v_ops ?V) (v_mc ?V) (y_ent y1) = None" "mc_strings (v_ops ?V) (y_ent y1)"
    "y_out y1 = y_out ?y @ deleted_reply (is_quiet m) (mc_abs (v_ops ?V) (v_mc ?V) (y_ent ?y))"
    by (rule delete_run [OF S(1,2) m(2,3) y])
  show ?thesis
    by (rule turn_one [OF assms(1,2) m(1) [folded assms(3)] assms(3) _ m(5,7,6,8,9) y1(1,2) _ y1(5)])
      (use y1(3,4,6) m(4) in \<open>simp_all add: conn_abs_def request_line_def crlf_def\<close>)
qed

lemma put_keys_values:
  "\<forall>y\<in>set ys. y_ent y = g (y_key y) \<Longrightarrow> put_keys ys db k \<in> {db k, g k}"
proof (induction ys arbitrary: db)
  case (Cons y ys)
  have "put_keys (y # ys) db = put_keys ys (db(y_key y := y_ent y))" by (simp add: put_keys_def)
  moreover have "put_keys ys (db(y_key y := y_ent y)) k \<in> {(db(y_key y := y_ent y)) k, g k}"
    by (rule Cons.IH) (use Cons.prems in simp)
  ultimately show ?case using Cons.prems by (cases "k = y_key y") auto
qed (simp add: put_keys_def)

lemma turn_get:
  assumes "served S" "conn_ok S c" "cn_buf c = req_text (GetReq w ks) @ rest" "req_valid (GetReq w ks)"
  shows "\<exists>c1. turned S (GetReq w ks) rest c c1"
proof -
  let ?V = "sv_env S"
  let ?K = "v_ops ?V" and ?M = "v_mc ?V"
  have v: "word_of MC_GET w" "ks \<noteq> []" "list_all plain_word ks" using assms(4) by simp_all
  obtain m where m: "exec_unpack (v_util ?V) True True (request_line w ks @ rest) (sv_mem S) = Some (MEMCACHED_OK, length (request_line w ks), m)"
    "command m = Some MC_GET" "\<not> is_binary m" "mc_pad m = 0xaa" "mc_args m = ks" "mc_first m = 0" "mc_keycnt m = length ks"
    by (rule unpack_get [OF v])
  have S: "mc_table ?K ?M" "v_ok ?V" "y_part (sv_ctx S) = None" using assms(1) by (simp_all add: served_def)
  have str: "mc_strings ?K (cn_db c k)" for k using assms(2) by (simp add: conn_ok_def)
  show ?thesis
  proof (cases "length ks = 1")
    case True
    then obtain k where k: "ks = [k]" by (cases ks) auto
    let ?y = "(mc_key_setup S (cn_db c) k)\<lparr>y_out := cn_out c, y_stat := cn_stat c\<rparr>"
    have y: "mc_strings ?K (y_ent ?y)" using str by simp
    obtain y1 where y1: "mc_run_key ?V m 1 ?y = Some (False, y1)" "y_status y1 = MEMCACHED_OK" "y_key y1 = y_key ?y"
      "mc_abs ?K ?M (y_ent y1) = mc_abs ?K ?M (y_ent ?y)" "mc_strings ?K (y_ent y1)"
      "y_out y1 = y_out ?y @ value_text (v_util ?V) (y_key ?y) (mc_abs ?K ?M (y_ent ?y)) @ ascii ''END'' @ crlf"
      by (rule get_run [OF S(1,2) m(2,3) y])
    have a: "mc_args m \<noteq> []" "mc_args m ! 0 = k" "mc_keycnt m = 1" using m(5,7) k by simp_all
    have u: "exec_unpack (v_util ?V) True True (cn_buf c) (sv_mem S) = Some (MEMCACHED_OK, length (req_text (GetReq w ks)), m)"
      using m(1) assms(3) by simp
    show ?thesis
      by (rule turn_one [OF assms(1,2) u assms(3) _ m(4) a(1,2) m(6) a(3) y1(1,2) _ y1(5)])
        (use y1(3,4,6) k in \<open>simp_all add: conn_abs_def request_line_def crlf_def fun_eq_iff\<close>)
  next
    case False
    define r where "r = \<lparr>n_msg = m, n_keys = map (mc_key_setup S (cn_db c)) ks, n_done = 0, n_out = cn_out c, n_stat = cn_stat c\<rparr>"
    have ready: "multi_ready ?V (mc_key_setup S (cn_db c) k)" for k
      using str [of k] S(3) mc_table.find_status [OF S(1), of "cn_db c k"] mc_table.steady [OF S(1)]
      by (auto simp: multi_ready_def mc_strings_def split: prod.splits)
    have set_up: "multi_setup ?V MC_GET r"
      using m(2-4) S(2) v(2) False ready by (cases ks) (auto simp: multi_setup_def r_def)
    obtain x where x: "mc_run_to_completion ?V r = Some x" "multi_end ?V MC_GET r x" using mc_multi_run [OF set_up] by blast
    have vtext: "multi_text ?V MC_GET (mc_key_setup S (cn_db c) k) = value_text (v_util ?V) k (conn_abs S c k)" for k
      using str [of k] by (auto simp: multi_text_def value_text_def conn_abs_def mc_abs_def mc_strings_def split: prod.splits)
    have out: "n_out x = cn_out c @ concat (map (\<lambda>k. value_text (v_util ?V) k (conn_abs S c k)) ks) @ ascii ''END'' @ crlf"
      using x(2) vtext by (simp add: multi_end_def r_def mc_string_def comp_def)
    have ents: "map y_ent (n_keys x) = map (\<lambda>k. snd (op_find ?K (cn_db c k))) (map y_key (n_keys x))"
      using x(2) by (simp add: multi_end_def r_def comp_def)
    then have db: "put_keys (n_keys x) (cn_db c) k \<in> {cn_db c k, snd (op_find ?K (cn_db c k))}" for k
      by (intro put_keys_values) simp
    let ?c = "c\<lparr>cn_buf := rest, cn_db := put_keys (n_keys x) (cn_db c), cn_out := n_out x, cn_stat := n_stat x, cn_keys := []\<rparr>"
    have find: "mc_abs ?K ?M (snd (op_find ?K (cn_db c k))) = mc_abs ?K ?M (cn_db c k) \<and> mc_strings ?K (snd (op_find ?K (cn_db c k)))" for k
      by (rule mc_table.find_abs [OF S(1) str [of k]]) simp
    have "mc_abs ?K ?M (cn_db ?c k) = mc_abs ?K ?M (cn_db c k) \<and> mc_strings ?K (cn_db ?c k)" for k
      using db [of k] find [of k] str [of k] by auto
    moreover have "process_loop S c = process_loop S ?c"
      using loop_turn [OF assms(1), of c "length (request_line w ks)" m x] m v(2) assms(3) x(1)
      by (simp add: r_def request_line_def crlf_def)
    ultimately show ?thesis using out
      by (intro exI [of _ ?c]) (simp add: turned_def conn_ok_def conn_abs_def fun_eq_iff)
  qed
qed

lemma turn_req:
  assumes "served S" "conn_ok S c" "cn_buf c = req_text q @ rest" "req_valid q"
  shows "\<exists>c1. turned S q rest c c1"
  using assms
proof (cases q)
  case (StoreReq sc w k f t d o')
  show ?thesis unfolding StoreReq by (rule turn_store [OF assms [unfolded StoreReq]])
next
  case (GetReq w ks)
  show ?thesis unfolding GetReq by (rule turn_get [OF assms [unfolded GetReq]])
next
  case (DeleteReq w k o')
  show ?thesis unfolding DeleteReq by (rule turn_delete [OF assms [unfolded DeleteReq]])
qed

lemma turn_session:
  assumes "served S"
  shows "conn_ok S c \<Longrightarrow> cn_buf c = concat (map req_text qs) @ rest \<Longrightarrow> list_all req_valid qs \<Longrightarrow>
    \<exists>c1. process_loop S c = process_loop S c1 \<and> cn_buf c1 = rest \<and> conn_ok S c1
     \<and> (conn_abs S c1, cn_out c1) = (case session (v_util (sv_env S)) qs (conn_abs S c) of (T, r) \<Rightarrow> (T, cn_out c @ r))"
proof (induction qs arbitrary: c)
  case Nil
  then show ?case by (intro exI [of _ c]) simp
next
  case (Cons q qs)
  obtain c1 where c1: "turned S q (concat (map req_text qs) @ rest) c c1"
    using turn_req [OF assms Cons.prems(1), of q "concat (map req_text qs) @ rest"] Cons.prems(2,3) by auto
  obtain c2 where "process_loop S c1 = process_loop S c2" "cn_buf c2 = rest" "conn_ok S c2"
    "(conn_abs S c2, cn_out c2) = (case session (v_util (sv_env S)) qs (conn_abs S c1) of (T, r) \<Rightarrow> (T, cn_out c1 @ r))"
    using Cons.IH [of c1] c1 Cons.prems(3) by (auto simp: turned_def)
  then show ?case using c1 by (intro exI [of _ c2]) (auto simp: turned_def split: prod.splits)
qed


definition sample_host :: mc_host where
  "sample_host = \<lparr>h_pid = 1, h_now = 5, h_boot = 2, h_version = ascii ''1'', h_user = [], h_system = [], h_max_conn = 1,
     h_curr_conn = 1, h_total_conn = 1, h_structs = 1, h_flush_cnt = 0, h_get_expired = 0, h_get_flushed = 0, h_auth_cmds = 0,
     h_auth_errors = 0, h_read = 0, h_written = 0, h_map_size = 0, h_tcp = 11211, h_udp = 0, h_interface = []\<rparr>"

definition sample_serve :: "mc_mem mc_serve" where
  "sample_serve = \<lparr>sv_env = mc_mem_env, sv_ctx = sample_y (sample_mem False MD_NODATA [] 0), sv_temp = True,
     sv_host = sample_host, sv_prefetch = False, sv_block_empty = (\<lambda>out. out = []), sv_mem = sample_mc\<rparr>"

definition sample_reqs :: "mc_req list" where
  "sample_reqs = [StoreReq MC_SET (ascii ''set'') (ascii ''k'') 5 0 [1, 2] None,
     StoreReq MC_ADD (ascii ''add'') (ascii ''k'') 6 0 [3] None,
     GetReq (ascii ''get'') [ascii ''q'', ascii ''k''], DeleteReq (ascii ''delete'') (ascii ''k'') None]"

definition sample_conn :: "mc_mem mc_conn" where
  "sample_conn = \<lparr>cn_db = (\<lambda>k. sample_mem False MD_NODATA [] 0), cn_buf = concat (map req_text sample_reqs) @ ascii ''ge'',
     cn_out = [], cn_stat = zero_stat, cn_keys = []\<rparr>"

lemma sample_rest:
  "exec_unpack int_str_util True True (ascii ''ge'') m = Some (MEMCACHED_MSG_PARTIAL, 2, (fresh_msg m)\<lparr>mc_cmd := cmd_code MC_NONE\<rparr>)"
  by (simp add: exec_unpack_def mc_unpack_def scan_request.simps find_lf_def)


end
