(* ===== verification/Mc_Udp.thy ===== *)
theory Mc_Udp
  imports Mc_Session "HOL-Library.Multiset"
begin

text \<open>
  Memcached over UDP, \<open>src/src/ev_memcached.cpp\<close>: the header of a frame, the merge of the frames of a
  request with what was saved of them before, and the split of replies into frames. A message of the array
  of \<open>recvmmsg\<close> is its bytes, an empty one has \<open>msg_len\<close> zero; lengths are far below the width of their
  types. \<open>mem\<close> tells which sizes the allocator gives. \<open>None\<close> is a run that does not end or that leaves its
  memory.
\<close>

section \<open>Headers\<close>

definition MC_HDR_SIZE :: nat where "MC_HDR_SIZE = 8"

text \<open>The words of \<open>MemcachedHdr\<close>, as they lie in memory.\<close>

definition hdr_word :: "nat \<Rightarrow> byte list \<Rightarrow> u16" where
  "hdr_word i f = mem_word (take 2 (drop i f))"

definition req_id :: "byte list \<Rightarrow> u16" where "req_id f = hdr_word 0 f"
definition seq_no :: "kv_util \<Rightarrow> byte list \<Rightarrow> nat" where "seq_no U f = unat (kv_bswap16 U (hdr_word 2 f))"
definition frame_total :: "kv_util \<Rightarrow> byte list \<Rightarrow> nat" where "frame_total U f = unat (kv_bswap16 U (hdr_word 4 f))"

definition set_hdr :: "u16 \<Rightarrow> u16 \<Rightarrow> byte list \<Rightarrow> byte list" where
  "set_hdr seqno tot f = take 2 f @ word_bytes 2 seqno @ word_bytes 2 tot @ drop 6 f"

text \<open>A frame of the request: it has more than a header and the id.\<close>

definition has_req :: "u16 \<Rightarrow> byte list \<Rightarrow> bool" where
  "has_req req f \<longleftrightarrow> length f > MC_HDR_SIZE \<and> req_id f = req"

section \<open>Merging\<close>

definition count_frames :: "u16 \<Rightarrow> byte list list \<Rightarrow> nat \<times> nat \<Rightarrow> nat \<times> nat" where
  "count_frames req fs n = fold (\<lambda>f (cnt, sz). if has_req req f then (cnt + 1, sz + (length f - MC_HDR_SIZE)) else (cnt, sz)) fs n"

text \<open>The search for the next frame. Frames of the request that are late are emptied on the way. The index
  is where the search stopped, the number of messages when it failed.\<close>

function find_frame :: "kv_util \<Rightarrow> u16 \<Rightarrow> nat \<Rightarrow> nat \<Rightarrow> nat \<Rightarrow> byte list list \<Rightarrow> nat \<times> byte list option \<times> byte list list" where
  "find_frame U req seqno nmsgs j fs =
     (if nmsgs \<le> j then (j, None, fs)
      else if has_req req (fs ! j) \<and> seq_no U (fs ! j) \<le> seqno then
        if seq_no U (fs ! j) = seqno then (j, Some (fs ! j), fs[j := []])
        else find_frame U req seqno nmsgs (j + 1) (fs[j := []])
      else find_frame U req seqno nmsgs (j + 1) fs)"
  by pat_completeness auto
termination
  by (relation "measure (\<lambda>(U, req, seqno, nmsgs, j, fs). nmsgs - j)") auto

declare find_frame.simps [simp del]

definition saved_frame :: "kv_util \<Rightarrow> byte list list \<Rightarrow> u16 \<Rightarrow> nat \<Rightarrow> byte list option" where
  "saved_frame U sav req seqno =
     (if seqno < length sav \<and> has_req req (sav ! seqno) \<and> hdr_word 2 (sav ! seqno) = kv_bswap16 U (of_nat seqno)
      then Some (sav ! seqno) else None)"

text \<open>The loop over the numbers of the frames. When no frame has the number it turns again with nothing
  changed; the index behind the last message is written when the frame came from the saved ones.\<close>

partial_function (option) merge_loop :: "kv_util \<Rightarrow> u16 \<Rightarrow> nat \<Rightarrow> nat \<Rightarrow> nat \<Rightarrow> nat \<Rightarrow> byte list list \<Rightarrow> nat \<Rightarrow> byte list
    \<Rightarrow> byte list list \<Rightarrow> (bool \<times> byte list list) option" where
  "merge_loop U req idx nmsgs tot sz sav seqno buf fs =
     (if tot \<le> seqno then Some (False, fs)
      else (case find_frame U req seqno nmsgs idx fs of (j, h, fs1) \<Rightarrow>
        (case (if h = None then saved_frame U sav req seqno else h) of
           None \<Rightarrow> merge_loop U req idx nmsgs tot sz sav seqno buf fs1
         | Some f \<Rightarrow>
           let buf1 = buf @ (if buf = [] then set_hdr 0 (kv_bswap16 U 1) f else drop MC_HDR_SIZE f) in
           if sz < length buf1 then Some (False, fs1)
           else if length fs1 \<le> j then None
           else if seqno + 1 = tot \<and> length buf1 = sz then Some (True, (fs1[j := []])[idx := buf1])
           else merge_loop U req idx nmsgs tot sz sav (seqno + 1) buf1 (fs1[j := []]))))"

text \<open>What is left of an incomplete request is saved by its numbers.\<close>

fun save_frames :: "kv_util \<Rightarrow> (nat \<Rightarrow> bool) \<Rightarrow> u16 \<Rightarrow> nat \<Rightarrow> byte list list \<Rightarrow> byte list list \<Rightarrow> byte list list \<times> byte list list" where
  "save_frames U mem req tot [] sav = ([], sav)"
| "save_frames U mem req tot (f # fs) sav =
     (if has_req req f then
        (case save_frames U mem req tot fs
            (if seq_no U f < tot \<and> mem (length f) then sav[seq_no U f := f] else sav) of (fs1, sav1) \<Rightarrow> ([] # fs1, sav1))
      else (case save_frames U mem req tot fs sav of (fs1, sav1) \<Rightarrow> (f # fs1, sav1)))"

text \<open>The array is resized to the total; a total of zero frees it and keeps the pointer.\<close>

definition save_request :: "kv_util \<Rightarrow> (nat \<Rightarrow> bool) \<Rightarrow> u16 \<Rightarrow> nat \<Rightarrow> nat \<Rightarrow> nat \<Rightarrow> byte list list \<Rightarrow> byte list list
    \<Rightarrow> (byte list list \<times> byte list list) option" where
  "save_request U mem req idx nmsgs tot fs sav =
     (if tot = 0 \<and> sav \<noteq> [] then None
      else if \<not> mem (16 * tot) then Some (fs, take tot sav @ replicate (length sav - tot) [])
      else (case save_frames U mem req tot (take (nmsgs - idx) (drop idx fs)) (take tot sav @ replicate (tot - length sav) []) of
        (fs1, sav1) \<Rightarrow> Some (take idx fs @ fs1 @ drop nmsgs fs, sav1)))"

definition merge_frames :: "kv_util \<Rightarrow> (nat \<Rightarrow> bool) \<Rightarrow> byte list list \<Rightarrow> nat \<Rightarrow> byte list list \<Rightarrow> u16 \<Rightarrow> nat \<Rightarrow> nat \<Rightarrow> nat
    \<Rightarrow> (bool \<times> byte list list \<times> byte list list) option" where
  "merge_frames U mem fs nmsgs sav req idx tot sz0 =
     (let (cnt1, sz1) = count_frames req (take (nmsgs - (idx + 1)) (drop (idx + 1) fs)) (1, sz0);
          (cnt, sz) = (if cnt1 < tot then count_frames req sav (cnt1, sz1) else (cnt1, sz1)) in
      case (if cnt < tot then Some (False, fs)
            else if \<not> mem sz then None
            else merge_loop U req idx nmsgs tot sz sav 0 [] fs) of
        None \<Rightarrow> None
      | Some (True, fs1) \<Rightarrow> Some (True, fs1, sav)
      | Some (False, fs1) \<Rightarrow>
          (case save_request U mem req idx nmsgs tot fs1 sav of None \<Rightarrow> None | Some (fs2, sav2) \<Rightarrow> Some (False, fs2, sav2)))"

section \<open>Running the requests\<close>

text \<open>The received messages one by one: a request in one frame runs with a header of its reply, frames of
  a longer one are merged and the merged one is tried again. The replies are by the index of the message.\<close>

partial_function (option) udp_process :: "'e mc_serve \<Rightarrow> (nat \<Rightarrow> bool) \<Rightarrow> nat \<Rightarrow> nat \<Rightarrow> byte list list \<Rightarrow> byte list list \<Rightarrow> 'e mc_conn
    \<Rightarrow> byte list list \<Rightarrow> ('e mc_conn \<times> byte list list \<times> byte list list) option" where
  "udp_process S mem nmsgs i fs sav c outs =
     (if nmsgs \<le> i then Some (c, sav, outs)
      else
        let f = fs ! i; tot = frame_total (v_util (sv_env S)) f in
        if length f \<le> MC_HDR_SIZE then udp_process S mem nmsgs (i + 1) fs sav c (outs @ [[]])
        else if tot \<noteq> 1 then
          (case merge_frames (v_util (sv_env S)) mem fs nmsgs sav (req_id f) i tot (length f) of
             None \<Rightarrow> None
           | Some (merged, fs1, sav1) \<Rightarrow>
             if merged then udp_process S mem nmsgs i fs1 sav1 c outs
             else udp_process S mem nmsgs (i + 1) fs1 sav1 c (outs @ [[]]))
        else
          (case process_loop S (c\<lparr>cn_buf := drop MC_HDR_SIZE f,
                cn_out := take MC_HDR_SIZE (set_hdr 0 (kv_bswap16 (v_util (sv_env S)) 1) f)\<rparr>) of
             None \<Rightarrow> None
           | Some (_, c1) \<Rightarrow> udp_process S mem nmsgs (i + 1) fs sav c1 (outs @ [cn_out c1])))"

section \<open>Splitting the replies\<close>

text \<open>The first pass over a reply counts its frames and segments. What is left of the segments is a list;
  \<open>len\<close> bytes of the \<open>next\<close> of a frame are filled.\<close>

definition split_seg :: "nat \<Rightarrow> byte list \<Rightarrow> byte list list \<Rightarrow> byte list list" where
  "split_seg sz seg rest = (if length seg = sz then rest else drop sz seg # rest)"

partial_function (option) count_loop :: "nat \<Rightarrow> byte list list \<Rightarrow> nat \<Rightarrow> nat \<Rightarrow> nat \<times> nat \<times> bool \<Rightarrow> (nat \<times> nat \<times> bool) option" where
  "count_loop fsz segs len nxt n =
     (case segs of [] \<Rightarrow> Some n
      | seg # rest \<Rightarrow>
        let (nm, ic, sp) = (if len = 0 \<and> nxt = fsz - MC_HDR_SIZE then (fst n + 1, fst (snd n) + 1, True) else n) in
        if length seg + len < nxt then count_loop fsz rest (len + length seg) nxt (nm, ic + 1, sp)
        else count_loop fsz (split_seg (nxt - len) seg rest) 0 (fsz - MC_HDR_SIZE) (nm, ic + 1, sp))"

text \<open>The second pass makes the frames; \<open>cnt\<close> counts their segments with the headers. The first frame has
  its header, the others are here without.\<close>

definition add_last :: "byte list \<Rightarrow> byte list list \<Rightarrow> byte list list" where
  "add_last p fr = butlast fr @ [last fr @ p]"

partial_function (option) frame_loop :: "nat \<Rightarrow> byte list list \<Rightarrow> nat \<Rightarrow> nat \<Rightarrow> nat \<Rightarrow> byte list list \<Rightarrow> (nat \<times> byte list list) option" where
  "frame_loop fsz segs len nxt cnt fr =
     (case segs of [] \<Rightarrow> Some (cnt, fr)
      | seg # rest \<Rightarrow>
        let (cnt1, fr1) = (if len = 0 \<and> nxt = fsz - MC_HDR_SIZE then (cnt + 1, fr @ [[]]) else (cnt, fr)) in
        if length seg + len < nxt then frame_loop fsz rest (len + length seg) nxt (cnt1 + 1) (add_last seg fr1)
        else frame_loop fsz (split_seg (nxt - len) seg rest) 0 (fsz - MC_HDR_SIZE) (cnt1 + 1) (add_last (take (nxt - len) seg) fr1))"

text \<open>The headers: each is that of the first with its number, when there is more than one segment.\<close>

definition number_frames :: "kv_util \<Rightarrow> nat \<Rightarrow> byte list list \<Rightarrow> byte list list" where
  "number_frames U cnt fr =
     (if cnt > 1 then
        let h = set_hdr (hdr_word 2 (hd fr)) (kv_bswap16 U (of_nat (length fr))) (hd fr) in
        h # map (\<lambda>x. take MC_HDR_SIZE (set_hdr (kv_bswap16 U (of_nat x)) (hdr_word 4 h) h) @ fr ! x) [1..<length fr]
      else fr)"

definition split_reply :: "kv_util \<Rightarrow> nat \<Rightarrow> byte list list \<Rightarrow> (nat \<times> byte list list) option" where
  "split_reply U fsz segs = map_option (\<lambda>(cnt, fr). (cnt, number_frames U cnt fr)) (frame_loop fsz segs 0 fsz 0 [[]])"

definition count_replies :: "nat \<Rightarrow> byte list list list \<Rightarrow> (nat \<times> nat \<times> bool) option" where
  "count_replies fsz rs = fold (\<lambda>segs n. if segs = [] then n
     else (case n of None \<Rightarrow> None | Some (nm, ic, sp) \<Rightarrow> count_loop fsz segs 0 fsz (nm + 1, ic, sp))) rs (Some (0, 0, False))"

fun split_replies :: "kv_util \<Rightarrow> nat \<Rightarrow> nat \<Rightarrow> byte list list list \<Rightarrow> (nat \<times> byte list) list option" where
  "split_replies U fsz i [] = Some []"
| "split_replies U fsz i (segs # rs) =
     (if segs = [] then split_replies U fsz (i + 1) rs
      else (case split_reply U fsz segs of None \<Rightarrow> None
        | Some (_, fr) \<Rightarrow> map_option (\<lambda>ps. map (Pair i) fr @ ps) (split_replies U fsz (i + 1) rs)))"

text \<open>The frames that go out, each with the message whose sender gets it.\<close>

definition construct_frames :: "kv_util \<Rightarrow> nat \<Rightarrow> byte list list list \<Rightarrow> (nat \<times> byte list) list option" where
  "construct_frames U fsz rs =
     (case count_replies fsz rs of None \<Rightarrow> None
      | Some (nm, ic, sp) \<Rightarrow>
        if sp then split_replies U fsz 0 rs
        else Some (concat (map (\<lambda>(i, segs). if segs = [] then [] else [(i, concat segs)]) (enumerate 0 rs))))"

section \<open>The merge of a complete request\<close>

text \<open>The messages from an index on, and the frames of a request in their order.\<close>

definition msgs_from :: "nat \<Rightarrow> nat \<Rightarrow> byte list list \<Rightarrow> byte list list" where
  "msgs_from idx nmsgs fs = take (nmsgs - idx) (drop idx fs)"

definition request_frames :: "kv_util \<Rightarrow> u16 \<Rightarrow> byte list list \<Rightarrow> bool" where
  "request_frames U req frames \<longleftrightarrow> (\<forall>s<length frames. has_req req (frames ! s) \<and> seq_no U (frames ! s) = s)"

definition merged :: "kv_util \<Rightarrow> byte list list \<Rightarrow> byte list" where
  "merged U frames = (case frames of [] \<Rightarrow> [] | f # fs \<Rightarrow> set_hdr 0 (kv_bswap16 U 1) f @ concat (map (drop MC_HDR_SIZE) fs))"

lemma count_frames_eq:
  "count_frames req fs (n, z) = (n + length (filter (has_req req) fs), z + sum_list (map (\<lambda>f. length f - MC_HDR_SIZE) (filter (has_req req) fs)))"
  by (induction fs arbitrary: n z) (simp_all add: count_frames_def)

lemma find_frame_at:
  assumes "\<forall>x\<in>set xs. has_req req x \<longrightarrow> k < seq_no U x" "has_req req f" "seq_no U f = k" "length pre + length xs < nmsgs"
  shows "find_frame U req k nmsgs (length pre) (pre @ xs @ f # ys) = (length pre + length xs, Some f, pre @ xs @ [] # ys)"
  using assms
proof (induction xs arbitrary: pre)
  case Nil
  then show ?case by (subst find_frame.simps) simp
next
  case (Cons x xs)
  have "find_frame U req k nmsgs (length (pre @ [x])) ((pre @ [x]) @ xs @ f # ys)
      = (length (pre @ [x]) + length xs, Some f, (pre @ [x]) @ xs @ [] # ys)"
    by (rule Cons.IH) (use Cons.prems in auto)
  then show ?case using Cons.prems by (subst find_frame.simps) (auto simp: nth_append)
qed

lemma set_hdr_length: "6 \<le> length f \<Longrightarrow> length (set_hdr a b f) = length f"
  by (simp add: set_hdr_def word_bytes_def)

lemma has_req_length: "has_req req f \<Longrightarrow> 8 < length f"
  by (simp add: has_req_def MC_HDR_SIZE_def)

lemma merged_take:
  assumes "request_frames U req frames" "k < length frames"
  shows "merged U (take (k + 1) frames) = merged U (take k frames) @
      (if k = 0 then set_hdr 0 (kv_bswap16 U 1) (frames ! 0) else drop MC_HDR_SIZE (frames ! k))"
    "merged U (take k frames) = [] \<longleftrightarrow> k = 0"
proof -
  obtain f fs where fr: "frames = f # fs" using assms(2) by (cases frames) auto
  have "has_req req f" using assms fr unfolding request_frames_def by (metis length_Cons nth_Cons_0 zero_less_Suc)
  then have "8 < length f" by (rule has_req_length)
  then have "length (set_hdr a b f) \<noteq> 0" for a b using set_hdr_length [of f a b] by linarith
  then have f: "set_hdr a b f \<noteq> []" for a b using length_0_conv by blast
  show "merged U (take (k + 1) frames) = merged U (take k frames) @
      (if k = 0 then set_hdr 0 (kv_bswap16 U 1) (frames ! 0) else drop MC_HDR_SIZE (frames ! k))"
    using assms(2) by (cases k) (simp_all add: fr merged_def take_Suc_conv_app_nth)
  show "merged U (take k frames) = [] \<longleftrightarrow> k = 0" using f by (cases k) (simp_all add: fr merged_def)
qed

lemma merged_mono:
  assumes "request_frames U req frames" "k \<le> n" "n \<le> length frames"
  shows "length (merged U (take k frames)) \<le> length (merged U (take n frames))"
  using assms(2,3)
proof (induction n rule: dec_induct)
  case (step n)
  then show ?case using merged_take(1) [OF assms(1), of n] by simp
qed simp

text \<open>What the loop has done before the frame \<open>k\<close>: of the request the messages still hold the other frames.\<close>

definition merging :: "u16 \<Rightarrow> nat \<Rightarrow> nat \<Rightarrow> byte list list \<Rightarrow> byte list list \<Rightarrow> nat \<Rightarrow> byte list list \<Rightarrow> bool" where
  "merging req idx nmsgs frames fs k fs1 \<longleftrightarrow> length fs1 = length fs \<and> k \<le> length frames
     \<and> (\<forall>j. fs1 ! j = fs ! j \<or> fs1 ! j = [] \<and> idx \<le> j \<and> j < nmsgs \<and> has_req req (fs ! j))
     \<and> mset (filter (has_req req) (msgs_from idx nmsgs fs1)) = mset (drop k frames)"

lemma msgs_parts: "idx \<le> nmsgs \<Longrightarrow> fs = take idx fs @ msgs_from idx nmsgs fs @ drop nmsgs fs"
  unfolding msgs_from_def by (metis append_take_drop_id drop_drop le_add_diff_inverse2)

lemma merging_step:
  assumes "request_frames U req frames" "merging req idx nmsgs frames fs k fs1" "k < length frames" "idx \<le> nmsgs" "nmsgs \<le> length fs"
  obtains j fs2 where "find_frame U req k nmsgs idx fs1 = (j, Some (frames ! k), fs2)" "j < length fs2" "fs2[j := []] = fs2"
    "merging req idx nmsgs frames fs (k + 1) fs2"
proof -
  let ?f = "frames ! k" and ?L = "msgs_from idx nmsgs fs1"
  have m: "length fs1 = length fs" "\<And>j. fs1 ! j = fs ! j \<or> fs1 ! j = [] \<and> idx \<le> j \<and> j < nmsgs \<and> has_req req (fs ! j)"
    "mset (filter (has_req req) ?L) = mset (drop k frames)"
    using assms(2) unfolding merging_def by blast+
  have fr: "s < length frames \<Longrightarrow> has_req req (frames ! s) \<and> seq_no U (frames ! s) = s" for s
    using assms(1) by (simp add: request_frames_def)
  have d: "drop k frames = ?f # drop (k + 1) frames" using assms(3) by (simp add: Cons_nth_drop_Suc)
  have "?f \<in># mset (filter (has_req req) ?L)" unfolding m(3) d by simp
  then have "?f \<in> set ?L" by simp
  then obtain xs ys where L: "?L = xs @ ?f # ys" "?f \<notin> set xs" by (metis split_list_first)
  have late: "k < seq_no U x" if x: "x \<in> set xs" "has_req req x" for x
  proof -
    have "x \<in># mset (drop k frames)" unfolding m(3) [symmetric] using x L(1) by simp
    then have "x \<in> set (drop (k + 1) frames)" using L(2) x(1) unfolding d by auto
    then obtain i where i: "i < length (drop (k + 1) frames)" "x = drop (k + 1) frames ! i" by (metis in_set_conv_nth)
    then have "x = frames ! (k + 1 + i)" "k + 1 + i < length frames" by auto
    then show ?thesis using fr [of "k + 1 + i"] by simp
  qed
  obtain P Q where all: "fs1 = P @ xs @ ?f # (ys @ Q)" and p: "length P = idx"
    using that [of "take idx fs1" "drop nmsgs fs1"] msgs_parts [OF assms(4), of fs1] L(1) assms(4,5) m(1) by simp
  have len: "length ?L = nmsgs - idx" using assms(4,5) m(1) by (simp add: msgs_from_def)
  then have j: "idx + length xs < nmsgs" using L(1) assms(4) by simp
  let ?fs2 = "P @ xs @ [] # (ys @ Q)"
  have found: "find_frame U req k nmsgs idx fs1 = (idx + length xs, Some ?f, ?fs2)"
    unfolding all using find_frame_at [of xs req k U ?f P nmsgs "ys @ Q"] late fr [OF assms(3)] j p by simp
  have fs2: "?fs2 = fs1[idx + length xs := []]" unfolding all p [symmetric] by (simp add: list_update_append)
  have at: "fs1 ! (idx + length xs) = ?f" unfolding all p [symmetric] by (simp add: nth_append)
  have "nmsgs - idx = length xs + Suc (length ys)" using len unfolding L(1) by simp
  then have seg: "msgs_from idx nmsgs ?fs2 = xs @ [] # ys" unfolding msgs_from_def p [symmetric] by simp
  have nil: "\<not> has_req req []" by (simp add: has_req_def)
  have "merging req idx nmsgs frames fs (k + 1) ?fs2"
    unfolding merging_def
  proof (intro conjI allI)
    show "length ?fs2 = length fs" unfolding fs2 using m(1) by simp
    show "k + 1 \<le> length frames" using assms(3) by simp
    show "mset (filter (has_req req) (msgs_from idx nmsgs ?fs2)) = mset (drop (k + 1) frames)"
      using m(3) fr [OF assms(3)] nil unfolding seg L(1) d by simp
    fix i
    show "?fs2 ! i = fs ! i \<or> ?fs2 ! i = [] \<and> idx \<le> i \<and> i < nmsgs \<and> has_req req (fs ! i)"
    proof (cases "i = idx + length xs")
      case True
      have "fs ! i = ?f" using m(2) [of i] at nil fr [OF assms(3)] True by auto
      then show ?thesis unfolding fs2 using True j fr [OF assms(3)] assms(5) m(1) by simp
    next
      case False
      then show ?thesis unfolding fs2 using m(2) [of i] by simp
    qed
  qed
  moreover have "?fs2[idx + length xs := []] = ?fs2" unfolding fs2 by simp
  moreover have "idx + length xs < length ?fs2" unfolding fs2 using j assms(5) m(1) by simp
  ultimately show thesis using that found by blast
qed

lemma merge_loop_all:
  assumes "request_frames U req frames" "idx < nmsgs" "nmsgs \<le> length fs"
  shows "merging req idx nmsgs frames fs k fs1 \<Longrightarrow> k < length frames \<Longrightarrow>
    \<exists>fs2. merge_loop U req idx nmsgs (length frames) (length (merged U frames)) sav k (merged U (take k frames)) fs1
        = Some (True, fs2[idx := merged U frames]) \<and> merging req idx nmsgs frames fs (length frames) fs2"
proof (induction "length frames - k" arbitrary: k fs1)
  case (Suc n)
  obtain j fs2 where f: "find_frame U req k nmsgs idx fs1 = (j, Some (frames ! k), fs2)" "j < length fs2" "fs2[j := []] = fs2"
    "merging req idx nmsgs frames fs (k + 1) fs2"
    by (rule merging_step [OF assms(1) Suc.prems]) (use assms in auto)
  let ?b = "merged U (take (k + 1) frames)"
  have b: "merged U (take k frames) @ (if merged U (take k frames) = [] then set_hdr 0 (kv_bswap16 U 1) (frames ! k)
      else drop MC_HDR_SIZE (frames ! k)) = ?b"
    using merged_take [OF assms(1) Suc.prems(2)] by simp
  have le: "length ?b \<le> length (merged U frames)"
    using merged_mono [OF assms(1), of "k + 1" "length frames"] Suc.prems(2) by simp
  have go: "merge_loop U req idx nmsgs (length frames) (length (merged U frames)) sav k (merged U (take k frames)) fs1
     = (if k + 1 = length frames \<and> length ?b = length (merged U frames) then Some (True, fs2[idx := ?b])
        else merge_loop U req idx nmsgs (length frames) (length (merged U frames)) sav (k + 1) ?b fs2)"
    using Suc.prems(2) f(1-3) le b by (subst merge_loop.simps) (simp add: Let_def not_less [symmetric] linorder_not_le)
  show ?case
  proof (cases "k + 1 = length frames")
    case True
    then have "?b = merged U frames" by simp
    then show ?thesis using True go f(4) by auto
  next
    case False
    then have "n = length frames - (k + 1)" "k + 1 < length frames" using Suc.hyps(2) Suc.prems(2) by auto
    then show ?thesis using Suc.hyps(1) [of "k + 1" fs2] f(4) go False by auto
  qed
qed simp

lemma merged_length:
  assumes "request_frames U req frames" "frames \<noteq> []"
  shows "length (merged U frames) = MC_HDR_SIZE + sum_list (map (\<lambda>f. length f - MC_HDR_SIZE) frames)"
proof -
  obtain f fs where fr: "frames = f # fs" using assms(2) by (cases frames) auto
  have "has_req req f" using assms(1) fr unfolding request_frames_def by (metis length_Cons nth_Cons_0 zero_less_Suc)
  then have f: "8 < length f" by (rule has_req_length)
  have "length (set_hdr 0 (kv_bswap16 U 1) f) = length f" using f by (intro set_hdr_length) simp
  then show ?thesis using f by (simp add: fr merged_def MC_HDR_SIZE_def length_concat comp_def)
qed

lemma merge_complete:
  assumes "request_frames U req frames" "frames \<noteq> []" "idx < nmsgs" "nmsgs \<le> length fs" "has_req req (fs ! idx)"
    "mset (filter (has_req req) (msgs_from idx nmsgs fs)) = mset frames" "mem (length (merged U frames))"
  shows "\<exists>fs'. merge_frames U mem fs nmsgs sav req idx (length frames) (length (fs ! idx)) = Some (True, fs', sav)
    \<and> fs' ! idx = merged U frames \<and> length fs' = length fs
    \<and> (\<forall>j. j \<noteq> idx \<longrightarrow> fs' ! j = (if idx \<le> j \<and> j < nmsgs \<and> has_req req (fs ! j) then [] else fs ! j))"
proof -
  let ?R = "take (nmsgs - (idx + 1)) (drop (idx + 1) fs)"
  have seg: "msgs_from idx nmsgs fs = fs ! idx # ?R"
    using assms(3,4) by (simp add: msgs_from_def Cons_nth_drop_Suc [symmetric] take_Cons' Suc_diff_Suc)
  have R: "mset (fs ! idx # filter (has_req req) ?R) = mset frames" using assms(5,6) unfolding seg by simp
  have "length (filter (has_req req) ?R) + 1 = length frames" using arg_cong [OF R, of size] by (simp only: size_mset length_Cons)
  moreover have "length (fs ! idx) + sum_list (map (\<lambda>f. length f - MC_HDR_SIZE) (filter (has_req req) ?R)) = length (merged U frames)"
  proof -
    have "sum_list (map (\<lambda>f. length f - MC_HDR_SIZE) (fs ! idx # filter (has_req req) ?R)) = sum_list (map (\<lambda>f. length f - MC_HDR_SIZE) frames)"
    proof -
      let ?g = "\<lambda>f :: byte list. length f - MC_HDR_SIZE"
      have "sum_mset (image_mset ?g (mset (fs ! idx # filter (has_req req) ?R))) = sum_mset (image_mset ?g (mset frames))" unfolding R ..
      then show ?thesis by (simp only: mset_map [symmetric] sum_mset_sum_list)
    qed
    then show ?thesis using merged_length [OF assms(1,2)] has_req_length [OF assms(5)] by (simp add: MC_HDR_SIZE_def)
  qed
  ultimately have cnt: "count_frames req ?R (1, length (fs ! idx)) = (length frames, length (merged U frames))"
    by (simp add: count_frames_eq)
  have m0: "merging req idx nmsgs frames fs 0 fs" using assms(6) by (simp add: merging_def)
  have "0 < length frames" using assms(2) by simp
  then obtain fs2 where l: "merge_loop U req idx nmsgs (length frames) (length (merged U frames)) sav 0 [] fs
        = Some (True, fs2[idx := merged U frames])" "merging req idx nmsgs frames fs (length frames) fs2"
    using merge_loop_all [OF assms(1,3,4) m0] by (auto simp: merged_def)
  have m: "length fs2 = length fs" "\<And>j. fs2 ! j = fs ! j \<or> fs2 ! j = [] \<and> idx \<le> j \<and> j < nmsgs \<and> has_req req (fs ! j)"
    "filter (has_req req) (msgs_from idx nmsgs fs2) = []"
    using l(2) unfolding merging_def by auto
  have other: "fs2 ! j = (if idx \<le> j \<and> j < nmsgs \<and> has_req req (fs ! j) then [] else fs ! j)" for j
  proof (cases "idx \<le> j \<and> j < nmsgs \<and> has_req req (fs ! j)")
    case True
    then have "j - idx < length (msgs_from idx nmsgs fs2)" "msgs_from idx nmsgs fs2 ! (j - idx) = fs2 ! j"
      using assms(4) m(1) by (auto simp: msgs_from_def)
    then have "fs2 ! j \<in> set (msgs_from idx nmsgs fs2)" by (metis nth_mem)
    then have "\<not> has_req req (fs2 ! j)" using m(3) by (simp add: filter_empty_conv)
    then show ?thesis using m(2) [of j] True by auto
  qed (use m(2) in auto)
  have "merge_frames U mem fs nmsgs sav req idx (length frames) (length (fs ! idx)) = Some (True, fs2[idx := merged U frames], sav)"
    using cnt assms(7) l(1) by (simp add: merge_frames_def)
  then show ?thesis using other m(1) assms(3,4) by auto
qed

section \<open>Where the merge does not end\<close>

text \<open>The search only empties messages.\<close>

lemma find_frame_empties:
  "find_frame U req k nmsgs j fs = (i, h, fs1) \<Longrightarrow> length fs1 = length fs \<and> (\<forall>n. fs1 ! n = fs ! n \<or> fs1 ! n = [])
     \<and> (h = None \<longrightarrow> i = max j nmsgs) \<and> (\<forall>f. h = Some f \<longrightarrow> has_req req f \<and> seq_no U f = k \<and> f \<in> set (msgs_from j nmsgs fs) \<or> \<not> nmsgs \<le> length fs)"
proof (induction U req k nmsgs j fs arbitrary: i h fs1 rule: find_frame.induct)
  case (1 U req k nmsgs j fs)
  show ?case
  proof (cases "nmsgs \<le> j")
    case True
    then show ?thesis using "1.prems" by (subst (asm) find_frame.simps) auto
  next
    case False
    have sub: "set (msgs_from (j + 1) nmsgs gs) \<subseteq> set (msgs_from j nmsgs gs)" for gs
      using False set_drop_subset [of 1 "msgs_from j nmsgs gs"] by (simp add: msgs_from_def drop_take)
    have upd: "set (msgs_from (j + 1) nmsgs (fs[j := []])) = set (msgs_from (j + 1) nmsgs fs)" by (simp add: msgs_from_def)
    have here: "nmsgs \<le> length fs \<Longrightarrow> fs ! j \<in> set (msgs_from j nmsgs fs)"
      using False by (auto simp: msgs_from_def Cons_nth_drop_Suc [symmetric] take_Cons')
    have el: "fs[j := []] ! n = fs ! n \<or> fs[j := []] ! n = []" for n
      by (cases "j < length fs"; cases "n = j") (auto simp: list_update_beyond)
    consider "has_req req (fs ! j)" "seq_no U (fs ! j) = k" | "has_req req (fs ! j)" "seq_no U (fs ! j) < k"
      | "\<not> (has_req req (fs ! j) \<and> seq_no U (fs ! j) \<le> k)" by linarith
    then show ?thesis
    proof cases
      case 1
      then show ?thesis using "1.prems" False el here by (subst (asm) find_frame.simps) auto
    next
      case 2
      then have "find_frame U req k nmsgs (j + 1) (fs[j := []]) = (i, h, fs1)" using "1.prems" False by (subst (asm) find_frame.simps) simp
      from "1.IH"(1) [OF False _ _ this] 2 show ?thesis using el sub [of "fs[j := []]"] upd sub [of fs] False by (auto; metis)
    next
      case 3
      then have "find_frame U req k nmsgs (j + 1) fs = (i, h, fs1)" using "1.prems" False by (subst (asm) find_frame.simps) auto
      from "1.IH"(2) [OF False 3 this] show ?thesis using sub [of fs] False by auto
    qed
  qed
qed

text \<open>Without the frame of a number the loop never ends.\<close>

definition number_lost :: "kv_util \<Rightarrow> u16 \<Rightarrow> nat \<Rightarrow> nat \<Rightarrow> byte list list \<Rightarrow> nat \<Rightarrow> byte list list \<Rightarrow> bool" where
  "number_lost U req idx nmsgs sav k fs \<longleftrightarrow> nmsgs \<le> length fs \<and> saved_frame U sav req k = None
     \<and> (\<forall>f \<in> set (msgs_from idx nmsgs fs). f = [] \<or> seq_no U f \<noteq> k)"

lemma merge_loop_hangs:
  assumes "number_lost U req idx nmsgs sav k fs" "k < tot"
  shows "merge_loop U req idx nmsgs tot sz sav k buf fs = None"
proof -
  have "k < tot \<longrightarrow> \<not> number_lost U req idx nmsgs sav k fs" if "merge_loop U req idx nmsgs tot sz sav k buf fs = Some y" for y
    using that
  proof (induction rule: merge_loop.raw_induct [rotated, consumes 1, case_names step])
    case (step ml U req idx nmsgs tot sz sav k buf fs y)
    show ?case
    proof (intro impI notI)
      assume k: "k < tot" and n: "number_lost U req idx nmsgs sav k fs"
      obtain i h fs1 where f: "find_frame U req k nmsgs idx fs = (i, h, fs1)" by (metis prod_cases3)
      note e = find_frame_empties [OF f]
      have nil: "\<not> has_req req []" by (simp add: has_req_def)
      have h: "h = None" using n e nil by (cases h) (auto simp: number_lost_def)
      have "number_lost U req idx nmsgs sav k fs1"
        unfolding number_lost_def
      proof (intro conjI ballI)
        show "nmsgs \<le> length fs1" "saved_frame U sav req k = None" using n e by (simp_all add: number_lost_def)
        fix g assume "g \<in> set (msgs_from idx nmsgs fs1)"
        then obtain m where m: "m < length (msgs_from idx nmsgs fs1)" "g = msgs_from idx nmsgs fs1 ! m" by (metis in_set_conv_nth)
        then have "g = fs1 ! (idx + m)" "m < length (msgs_from idx nmsgs fs)" "msgs_from idx nmsgs fs ! m = fs ! (idx + m)"
          using e by (auto simp: msgs_from_def)
        moreover from this have "fs ! (idx + m) \<in> set (msgs_from idx nmsgs fs)" by (metis nth_mem)
        ultimately show "g = [] \<or> seq_no U g \<noteq> k" using n e by (metis number_lost_def)
      qed
      moreover have "ml U req idx nmsgs tot sz sav k buf fs1 = Some y"
        using step(2) k n f h by (simp add: number_lost_def)
      ultimately show False using step(1) k by blast
    qed
  qed
  then show ?thesis using assms by (cases "merge_loop U req idx nmsgs tot sz sav k buf fs") auto
qed

text \<open>Two frames with the number of the first, of a request of two: the service does not come back.\<close>

lemma merge_duplicate_hangs:
  assumes "has_req req f" "seq_no U f = 0" "mem (length f + (length f - MC_HDR_SIZE))"
  shows "merge_frames U mem [f, f] 2 [] req 0 2 (length f) = None"
proof -
  have f: "8 < length f" using has_req_length [OF assms(1)] .
  have nil: "\<not> has_req req []" by (simp add: has_req_def)
  have one: "find_frame U req 0 2 0 [f, f] = (0, Some f, [[], f])" using assms(1,2) by (subst find_frame.simps) simp
  have l: "length (set_hdr 0 (kv_bswap16 U 1) f) = length f" using f by (simp add: set_hdr_length)
  have "number_lost U req 0 2 [] 1 [[], f]"
    using assms(2) by (simp add: number_lost_def saved_frame_def msgs_from_def)
  then have "merge_loop U req 0 2 2 (length f + (length f - MC_HDR_SIZE)) [] (Suc 0) (set_hdr 0 (kv_bswap16 U 1) f) [[], f] = None"
    using merge_loop_hangs [of U req 0 2 "[]" 1] by simp
  then have "merge_loop U req 0 2 2 (length f + (length f - MC_HDR_SIZE)) [] 0 [] [f, f] = None"
    using l f by (subst merge_loop.simps) (simp add: one Let_def MC_HDR_SIZE_def)
  then show ?thesis
    using assms(1,3) by (simp add: merge_frames_def count_frames_def)
qed

text \<open>The second frame of two, when the first was saved before: the length of a message behind the last is
  set to zero.\<close>

lemma merge_saved_past_array:
  assumes "has_req req f" "seq_no U f = 1" "has_req req g" "hdr_word 2 g = kv_bswap16 U 0" "mem (length f + (length g - MC_HDR_SIZE))"
  shows "merge_frames U mem [f] 1 [g] req 0 2 (length f) = None"
proof -
  have f: "8 < length f" "8 < length g" using has_req_length assms(1,3) by blast+
  have n: "find_frame U req 0 (Suc 0) 0 [f] = (Suc 0, None, [f])"
    using assms(2) by (subst find_frame.simps, subst find_frame.simps) simp
  have l: "length (set_hdr 0 (kv_bswap16 U 1) g) = length g" using f(2) by (simp add: set_hdr_length)
  have "merge_loop U req 0 (Suc 0) 2 (length f + (length g - MC_HDR_SIZE)) [g] 0 [] [f] = None"
    using l f assms(3,4) by (subst merge_loop.simps) (simp add: n saved_frame_def Let_def MC_HDR_SIZE_def)
  then show ?thesis
    using assms(3,5) by (simp add: merge_frames_def count_frames_def)
qed

end
