(* ===== verification/Mc_Frames.thy ===== *)
theory Mc_Frames
  imports Mc_Udp
begin

text \<open>
  What the frames of UDP promise: a reply that is split has frames that fit and that make up its bytes, as many
  as were counted before; and a request in frames, in whatever order they came, runs as a session does and is
  answered once.
\<close>

section \<open>The frames of a reply\<close>

text \<open>The first frame has its header inside and is full when others follow; those have room for theirs.\<close>

definition frames_fit :: "nat \<Rightarrow> byte list list \<Rightarrow> byte list \<Rightarrow> bool" where
  "frames_fit fsz done cur \<longleftrightarrow> (case done of [] \<Rightarrow> length cur \<le> fsz
     | f # fs \<Rightarrow> length f = fsz \<and> (\<forall>g\<in>set fs. g \<noteq> [] \<and> length g \<le> fsz - MC_HDR_SIZE) \<and> length cur \<le> fsz - MC_HDR_SIZE)"

text \<open>The state of the loop: a frame is open, or the last is full and the next segment starts another.\<close>

definition splitting :: "nat \<Rightarrow> nat \<Rightarrow> nat \<Rightarrow> byte list list \<Rightarrow> bool" where
  "splitting fsz len nxt fr \<longleftrightarrow> (\<exists>done cur. fr = done @ [cur] \<and> frames_fit fsz done cur \<and>
     (len = length cur \<and> len < nxt \<and> nxt = (if done = [] then fsz else fsz - MC_HDR_SIZE) \<and> (done \<noteq> [] \<longrightarrow> cur \<noteq> [])
      \<or> len = 0 \<and> nxt = fsz - MC_HDR_SIZE \<and> cur \<noteq> [] \<and> (done = [] \<longrightarrow> length cur = fsz)))"

lemma split_seg_concat: "n \<le> length seg \<Longrightarrow> take n seg @ concat (split_seg n seg rest) = concat (seg # rest)"
  by (simp add: split_seg_def)

lemma split_seg_plain: "n \<le> length seg \<Longrightarrow> [] \<notin> set rest \<Longrightarrow> [] \<notin> set (split_seg n seg rest)"
  by (simp add: split_seg_def)

lemma frame_loop_splits:
  assumes "MC_HDR_SIZE < fsz"
  shows "[] \<notin> set segs \<Longrightarrow> splitting fsz len nxt fr \<Longrightarrow>
    \<exists>cnt' fr'. frame_loop fsz segs len nxt cnt fr = Some (cnt', fr') \<and> concat fr' = concat fr @ concat segs
      \<and> (\<exists>len' nxt'. splitting fsz len' nxt' fr') \<and> length fr \<le> length fr' \<and> cnt + 2 * (length fr' - length fr) \<le> cnt'
      \<and> count_loop fsz segs len nxt (nm, ic, sp) = Some (nm + (length fr' - length fr), ic + (cnt' - cnt), sp \<or> length fr < length fr')"
proof (induction "length (concat segs)" arbitrary: segs len nxt fr cnt nm ic sp rule: less_induct)
  case less
  show ?case
  proof (cases segs)
    case Nil
    then show ?thesis using less.prems by (subst frame_loop.simps, subst count_loop.simps) auto
  next
    case (Cons seg rest)
    have seg: "seg \<noteq> []" "[] \<notin> set rest" using less.prems(1) Cons by auto
    define new where "new \<longleftrightarrow> len = 0 \<and> nxt = fsz - MC_HDR_SIZE"
    define fr1 where "fr1 = (if new then fr @ [[]] else fr)"
    obtain full cur where s: "fr1 = full @ [cur]" "frames_fit fsz full cur" "len = length cur" "len < nxt"
      "nxt = (if full = [] then fsz else fsz - MC_HDR_SIZE)"
    proof -
      obtain d c where fr: "fr = d @ [c]" "frames_fit fsz d c" "len = length c \<and> len < nxt \<and> nxt = (if d = [] then fsz else fsz - MC_HDR_SIZE) \<and> (d \<noteq> [] \<longrightarrow> c \<noteq> [])
        \<or> len = 0 \<and> nxt = fsz - MC_HDR_SIZE \<and> c \<noteq> [] \<and> (d = [] \<longrightarrow> length c = fsz)"
        using less.prems(2) unfolding splitting_def by blast
      show thesis
      proof (cases new)
        case True
        then have "c \<noteq> []" "d = [] \<longrightarrow> length c = fsz" using fr(3) assms by (auto simp: new_def MC_HDR_SIZE_def split: if_splits)
        then have "frames_fit fsz fr []" using fr(1,2) by (cases d) (auto simp: frames_fit_def)
        then show thesis using that [of fr "[]"] True fr(1) assms by (auto simp: fr1_def new_def)
      next
        case False
        then show thesis using that [of d c] fr by (auto simp: fr1_def new_def)
      qed
    qed
    have cat: "concat fr1 = concat fr" "length fr1 = length fr + (if new then 1 else 0)" by (simp_all add: fr1_def)
    have add: "add_last p fr1 = full @ [cur @ p]" for p by (simp add: add_last_def s(1))
    have new: "fst (if len = 0 \<and> nxt = fsz - MC_HDR_SIZE then (cnt + 1, fr @ [[]]) else (cnt, fr)) = (if new then cnt + 1 else cnt)"
      "snd (if len = 0 \<and> nxt = fsz - MC_HDR_SIZE then (cnt + 1, fr @ [[]]) else (cnt, fr)) = fr1"
      by (simp_all add: new_def fr1_def)
    define c1 where "c1 = (if new then cnt + 1 else cnt)"
    show ?thesis
    proof (cases "length seg + len < nxt")
      case True
      have "splitting fsz (len + length seg) nxt (full @ [cur @ seg])"
        using s True seg(1) by (auto simp: splitting_def frames_fit_def split: list.splits)
      moreover have "length (concat rest) < length (concat segs)" using Cons seg(1) by simp
      ultimately obtain cnt' fr' where r: "frame_loop fsz rest (len + length seg) nxt (c1 + 1) (full @ [cur @ seg]) = Some (cnt', fr')"
        "concat fr' = concat (full @ [cur @ seg]) @ concat rest" "\<exists>len' nxt'. splitting fsz len' nxt' fr'"
        "length (full @ [cur @ seg]) \<le> length fr'" "c1 + 1 + 2 * (length fr' - length (full @ [cur @ seg])) \<le> cnt'"
        "count_loop fsz rest (len + length seg) nxt (if new then nm + 1 else nm, (if new then ic + 1 else ic) + 1, sp \<or> new)
          = Some ((if new then nm + 1 else nm) + (length fr' - length (full @ [cur @ seg])), (if new then ic + 1 else ic) + 1 + (cnt' - (c1 + 1)),
              (sp \<or> new) \<or> length (full @ [cur @ seg]) < length fr')"
        using less.hyps [of rest "len + length seg" nxt "full @ [cur @ seg]" "c1 + 1"] seg(2) by blast
      have "frame_loop fsz segs len nxt cnt fr = Some (cnt', fr')"
        using True r(1) add [of seg] unfolding Cons
        by (subst frame_loop.simps) (auto simp: c1_def new_def fr1_def split: if_splits)
      moreover have "count_loop fsz segs len nxt (nm, ic, sp) = Some (nm + (length fr' - length fr), ic + (cnt' - cnt), sp \<or> length fr < length fr')"
        using True r(4-6) cat(2) s(1) unfolding Cons
        by (subst count_loop.simps) (auto simp: c1_def new_def split: if_splits)
      moreover have "concat fr' = concat fr @ concat segs" using r(2) cat(1) s(1) Cons by simp
      ultimately show ?thesis using r(3-5) cat(2) s(1) by (auto simp: c1_def split: if_splits)
    next
      case False
      let ?n = "nxt - len"
      let ?fr = "full @ [cur @ take ?n seg]"
      have n: "0 < ?n" "?n \<le> length seg" using s(4) False by auto
      have "splitting fsz 0 (fsz - MC_HDR_SIZE) ?fr"
        unfolding splitting_def by (rule exI [of _ full], rule exI [of _ "cur @ take ?n seg"])
          (use s n in \<open>auto simp: frames_fit_def split: list.splits\<close>)
      moreover have "length (concat (split_seg ?n seg rest)) < length (concat segs)"
        using arg_cong [OF split_seg_concat [OF n(2), of rest], of length] n Cons by simp
      ultimately obtain cnt' fr' where r: "frame_loop fsz (split_seg ?n seg rest) 0 (fsz - MC_HDR_SIZE) (c1 + 1) ?fr = Some (cnt', fr')"
        "concat fr' = concat ?fr @ concat (split_seg ?n seg rest)" "\<exists>len' nxt'. splitting fsz len' nxt' fr'"
        "length ?fr \<le> length fr'" "c1 + 1 + 2 * (length fr' - length ?fr) \<le> cnt'"
        "count_loop fsz (split_seg ?n seg rest) 0 (fsz - MC_HDR_SIZE) (if new then nm + 1 else nm, (if new then ic + 1 else ic) + 1, sp \<or> new)
          = Some ((if new then nm + 1 else nm) + (length fr' - length ?fr), (if new then ic + 1 else ic) + 1 + (cnt' - (c1 + 1)),
              (sp \<or> new) \<or> length ?fr < length fr')"
        using less.hyps [of "split_seg ?n seg rest" 0 "fsz - MC_HDR_SIZE" ?fr "c1 + 1"] split_seg_plain [OF n(2) seg(2)] by blast
      have "frame_loop fsz segs len nxt cnt fr = Some (cnt', fr')"
        using False r(1) add [of "take ?n seg"] unfolding Cons
        by (subst frame_loop.simps) (auto simp: c1_def new_def fr1_def split: if_splits)
      moreover have "count_loop fsz segs len nxt (nm, ic, sp) = Some (nm + (length fr' - length fr), ic + (cnt' - cnt), sp \<or> length fr < length fr')"
        using False r(4-6) cat(2) s(1) unfolding Cons
        by (subst count_loop.simps) (auto simp: c1_def new_def split: if_splits)
      moreover have "concat fr' = concat fr @ concat segs"
        using r(2) cat(1) s(1) Cons split_seg_concat [OF n(2), of rest] by simp
      ultimately show ?thesis using r(3-5) cat(2) s(1) by (auto simp: c1_def split: if_splits)
    qed
  qed
qed

section \<open>Numbers in the headers\<close>

lemma bswap16_twice: "kv_bitops U \<Longrightarrow> kv_bswap16 U (kv_bswap16 U w) = w"
proof -
  assume U: "kv_bitops U"
  let ?b = "le_bytes 2 (unat w)"
  have "unat w < 2 ^ LENGTH(16)" by (rule unsigned_less)
  then have "le_val ?b = unat w" by (intro le_val_le_bytes) simp
  then have w: "w = of_nat (le_val ?b)" by simp
  have "kv_bswap16 U w = of_nat (le_val (rev ?b))" by (subst w, rule kv_bitops.bswap16 [OF U]) simp
  then have "kv_bswap16 U (kv_bswap16 U w) = of_nat (le_val (rev (rev ?b)))"
    using kv_bitops.bswap16 [OF U, of "rev ?b"] by simp
  then show ?thesis using w by simp
qed

lemma bswap16_zero: "kv_bitops U \<Longrightarrow> kv_bswap16 U 0 = 0"
  using kv_bitops.bswap16 [of U "[0, 0]"] by simp

lemma word_bytes_mem: "length bs = 2 \<Longrightarrow> word_bytes 2 (mem_word bs :: u16) = bs"
proof -
  assume l: "length bs = 2"
  have "le_val bs < 256 ^ 2" using le_val_bound [of bs] l by simp
  then have "unat (of_nat (le_val bs) :: u16) = le_val bs" by (simp add: unsigned_of_nat take_bit_nat_eq_self)
  then show ?thesis using le_bytes_le_val [of bs] l by (simp add: word_bytes_def mem_word_def)
qed

lemma mem_word_bytes: "mem_word (word_bytes 2 w) = (w :: u16)"
proof -
  have "unat w < 2 ^ LENGTH(16)" by (rule unsigned_less)
  then have "le_val (le_bytes 2 (unat w)) = unat w" by (intro le_val_le_bytes) simp
  then show ?thesis by (simp add: word_bytes_def mem_word_def)
qed

lemma length_word_bytes [simp]: "length (word_bytes n w) = n"
  by (simp add: word_bytes_def)

lemma set_hdr_words:
  assumes "8 \<le> length f"
  shows "req_id (set_hdr a b f @ r) = req_id f" "hdr_word 2 (set_hdr a b f @ r) = a" "hdr_word 4 (set_hdr a b f @ r) = b"
    "drop 8 (set_hdr a b f) = drop 8 f" "set_hdr c d (set_hdr a b f @ r) = set_hdr c d f @ r"
  using assms by (simp_all add: set_hdr_def req_id_def hdr_word_def mem_word_bytes)

lemma take_hdr_words:
  assumes "8 \<le> length f"
  shows "req_id (take 8 f @ r) = req_id f" "i \<le> 6 \<Longrightarrow> hdr_word i (take 8 f @ r) = hdr_word i f"
  using assms by (auto simp: req_id_def hdr_word_def drop_take min_def)

lemma set_hdr_same:
  assumes "8 \<le> length f"
  shows "set_hdr (hdr_word 2 f) (hdr_word 4 f) f = f"
proof -
  have "word_bytes 2 (hdr_word 2 f) = take 2 (drop 2 f)" "word_bytes 2 (hdr_word 4 f) = take 2 (drop 4 f)"
    using assms by (simp_all add: hdr_word_def word_bytes_mem)
  then show ?thesis using append_take_drop_id [of 2 f] append_take_drop_id [of 2 "drop 2 f"] append_take_drop_id [of 2 "drop 4 f"]
    by (simp add: set_hdr_def)
qed

text \<open>A header of a request in one frame.\<close>

definition single_hdr :: "kv_util \<Rightarrow> byte list \<Rightarrow> bool" where
  "single_hdr U f \<longleftrightarrow> 8 \<le> length f \<and> hdr_word 2 f = 0 \<and> hdr_word 4 f = kv_bswap16 U 1"

lemma numbered_frames:
  assumes "kv_bitops U" "single_hdr U f" "fs \<noteq> []" "[] \<notin> set fs" "length (f # fs) < 2 ^ 16" "1 < cnt" "8 < length f"
  shows "request_frames U (req_id f) (number_frames U cnt (f # fs))" "merged U (number_frames U cnt (f # fs)) = f @ concat fs"
    "length (number_frames U cnt (f # fs)) = length (f # fs)"
    "\<forall>g\<in>set (number_frames U cnt (f # fs)). frame_total U g = length (f # fs)"
proof -
  let ?n = "length (f # fs)"
  define tot :: u16 where "tot = kv_bswap16 U (of_nat ?n)"
  define h where "h = set_hdr 0 tot f"
  have f: "8 \<le> length f" "hdr_word 2 f = 0" "hdr_word 4 f = kv_bswap16 U 1" using assms(2) by (simp_all add: single_hdr_def)
  define fr where "fr = h # map (\<lambda>x. take 8 (set_hdr (kv_bswap16 U (of_nat x)) tot h) @ (f # fs) ! x) [1..<?n]"
  have hw: "req_id h = req_id f" "hdr_word 2 h = 0" "hdr_word 4 h = tot" "length h = length f" "8 \<le> length h"
    using set_hdr_words(1-3) [OF f(1), of 0 tot "[]"] set_hdr_length [of f 0 tot] f(1) by (simp_all add: h_def)
  have fr: "number_frames U cnt (f # fs) = fr"
    using assms(6) f(2) hw(3) by (simp add: number_frames_def fr_def h_def tot_def Let_def MC_HDR_SIZE_def)
  have at: "fr ! 0 = h" "length fr = ?n" by (simp_all add: fr_def del: upt_Suc)
  have at2: "fr ! x = take 8 (set_hdr (kv_bswap16 U (of_nat x)) tot h) @ (f # fs) ! x" if "0 < x" "x < ?n" for x
    using that by (cases x) (simp_all add: fr_def del: upt_Suc)
  have num: "unat (kv_bswap16 U (kv_bswap16 U (of_nat x))) = x" if "x \<le> ?n" for x
    using bswap16_twice [OF assms(1), of "of_nat x"] that assms(5) by (simp add: unsigned_of_nat take_bit_nat_eq_self)
  have word: "req_id (fr ! x) = req_id f \<and> hdr_word 2 (fr ! x) = kv_bswap16 U (of_nat x) \<and> hdr_word 4 (fr ! x) = tot \<and> 8 < length (fr ! x)"
    if x: "x < ?n" for x
  proof (cases "x = 0")
    case True
    then show ?thesis using hw at(1) bswap16_zero [OF assms(1)] assms(7) by simp
  next
    case False
    let ?g = "set_hdr (kv_bswap16 U (of_nat x)) tot h"
    have g: "8 \<le> length ?g" "req_id ?g = req_id f" "hdr_word 2 ?g = kv_bswap16 U (of_nat x)" "hdr_word 4 ?g = tot"
      using set_hdr_words(1-3) [OF hw(5), of "kv_bswap16 U (of_nat x)" tot "[]"] set_hdr_length [of h "kv_bswap16 U (of_nat x)" tot] hw by simp_all
    have "(f # fs) ! x \<noteq> []" using False x assms(4) by (cases x) (auto simp: in_set_conv_nth)
    then show ?thesis using at2 [of x] False x g take_hdr_words [OF g(1)] by simp
  qed
  show "request_frames U (req_id f) (number_frames U cnt (f # fs))"
    using word num unfolding fr by (simp add: request_frames_def at(2) has_req_def MC_HDR_SIZE_def seq_no_def)
  have "map (drop 8) (tl fr) = fs"
  proof (rule nth_equalityI)
    show "length (map (drop 8) (tl fr)) = length fs" using at(2) by simp
    fix i assume "i < length (map (drop 8) (tl fr))"
    then have i: "i < length fs" using at(2) by simp
    have "length (take 8 (set_hdr (kv_bswap16 U (of_nat (Suc i))) tot h)) = 8" using set_hdr_length [of h "kv_bswap16 U (of_nat (Suc i))" tot] hw(5) by simp
    then have "drop 8 (fr ! Suc i) = fs ! i" using at2 [of "Suc i"] i by simp
    then show "map (drop 8) (tl fr) ! i = fs ! i" using i at(2) by (simp add: nth_tl)
  qed
  moreover have "set_hdr 0 (kv_bswap16 U 1) h = f"
    using set_hdr_words(5) [OF f(1), of 0 "kv_bswap16 U 1" 0 tot "[]"] set_hdr_same [OF f(1)] f(2,3) by (simp add: h_def)
  ultimately show "merged U (number_frames U cnt (f # fs)) = f @ concat fs"
    unfolding fr by (simp add: merged_def fr_def MC_HDR_SIZE_def [abs_def])
  show "length (number_frames U cnt (f # fs)) = length (f # fs)" unfolding fr using at(2) by simp
  show "\<forall>g\<in>set (number_frames U cnt (f # fs)). frame_total U g = length (f # fs)"
    unfolding fr using word num [of ?n] at(2) by (auto simp: in_set_conv_nth frame_total_def tot_def)
qed

section \<open>What goes out\<close>

lemma splitting_fit:
  assumes "splitting fsz len nxt fr"
  shows "frames_fit fsz (butlast fr) (last fr)" "fr \<noteq> []"
  using assms by (auto simp: splitting_def)

lemma frames_fit_parts:
  assumes "splitting fsz len nxt (f # fs)" "MC_HDR_SIZE < fsz"
  shows "length f \<le> fsz" "\<forall>g\<in>set fs. length g \<le> fsz - MC_HDR_SIZE" "fs \<noteq> [] \<Longrightarrow> length f = fsz"
    "[] \<notin> set fs"
proof -
  obtain d c where d: "f # fs = d @ [c]" "frames_fit fsz d c" "(d \<noteq> [] \<longrightarrow> c \<noteq> []) \<or> c \<noteq> []"
    using assms(1) unfolding splitting_def by blast
  then show "length f \<le> fsz" "\<forall>g\<in>set fs. length g \<le> fsz - MC_HDR_SIZE" "fs \<noteq> [] \<Longrightarrow> length f = fsz" "[] \<notin> set fs"
    by (cases d; auto simp: frames_fit_def)+
qed

text \<open>One reply: its frames, with what the first pass counted.\<close>

lemma split_reply_ok:
  assumes "MC_HDR_SIZE < fsz" "[] \<notin> set segs"
  obtains cnt f fs where "split_reply U fsz segs = Some (cnt, number_frames U cnt (f # fs))" "f @ concat fs = concat segs"
    "length f \<le> fsz" "\<forall>g\<in>set fs. length g \<le> fsz - MC_HDR_SIZE" "fs \<noteq> [] \<Longrightarrow> length f = fsz \<and> 1 < cnt" "[] \<notin> set fs"
    "\<And>nm ic sp. count_loop fsz segs 0 fsz (nm, ic, sp) = Some (nm + length fs, ic + cnt, sp \<or> fs \<noteq> [])"
proof -
  have s0: "splitting fsz 0 fsz [[]]"
    unfolding splitting_def using assms(1) by (intro exI [of _ "[]"]) (simp add: frames_fit_def)
  obtain cnt fr len nxt where r: "frame_loop fsz segs 0 fsz 0 [[]] = Some (cnt, fr)" "concat fr = concat segs" "splitting fsz len nxt fr"
    "2 * (length fr - 1) \<le> cnt"
    using frame_loop_splits [OF assms s0, of 0] by fastforce
  have c: "count_loop fsz segs 0 fsz (nm, ic, sp) = Some (nm + (length fr - 1), ic + cnt, sp \<or> 1 < length fr)" for nm ic sp
    using frame_loop_splits [OF assms s0, of 0 nm ic sp] r(1) by auto
  obtain f fs where fr: "fr = f # fs" using splitting_fit(2) [OF r(3)] by (cases fr) auto
  note p = frames_fit_parts [OF r(3) [unfolded fr] assms(1)]
  show thesis
  proof (rule that [of cnt f fs])
    show "split_reply U fsz segs = Some (cnt, number_frames U cnt (f # fs))" using r(1) fr by (simp add: split_reply_def)
    show "fs \<noteq> [] \<Longrightarrow> length f = fsz \<and> 1 < cnt" using p(3) r(4) fr by (cases fs) auto
    show "count_loop fsz segs 0 fsz (nm, ic, sp) = Some (nm + length fs, ic + cnt, sp \<or> fs \<noteq> [])" for nm ic sp
      using c [of nm ic sp] fr by auto
  qed (use r(2) fr p in auto)
qed

lemma number_frames_lengths:
  assumes "MC_HDR_SIZE \<le> length f"
  shows "map length (number_frames U cnt (f # fs)) = length f # map (\<lambda>g. (if 1 < cnt then MC_HDR_SIZE else 0) + length g) fs"
proof (cases "1 < cnt")
  case True
  let ?h = "set_hdr (hdr_word 2 f) (kv_bswap16 U (of_nat (length (f # fs)))) f"
  have h: "length ?h = length f" using assms by (intro set_hdr_length) (simp add: MC_HDR_SIZE_def)
  have t: "length (take MC_HDR_SIZE (set_hdr a b ?h)) = MC_HDR_SIZE" for a b
    using assms h set_hdr_length [of ?h a b] by (simp add: MC_HDR_SIZE_def)
  show ?thesis
  proof (rule nth_equalityI)
    fix i assume "i < length (map length (number_frames U cnt (f # fs)))"
    then show "map length (number_frames U cnt (f # fs)) ! i = (length f # map (\<lambda>g. (if 1 < cnt then MC_HDR_SIZE else 0) + length g) fs) ! i"
      using True h t by (cases i) (simp_all add: number_frames_def Let_def del: upt_Suc)
  qed (use True in \<open>simp add: number_frames_def Let_def del: upt_Suc\<close>)
qed (simp add: number_frames_def)

text \<open>A reply starts with a header and has no empty segments.\<close>

definition reply_segs :: "byte list list \<Rightarrow> bool" where
  "reply_segs segs \<longleftrightarrow> [] \<notin> set segs \<and> (segs \<noteq> [] \<longrightarrow> MC_HDR_SIZE \<le> length (concat segs))"

definition reply_cnt :: "kv_util \<Rightarrow> nat \<Rightarrow> byte list list \<Rightarrow> nat" where
  "reply_cnt U fsz segs = (if segs = [] then 0 else case split_reply U fsz segs of None \<Rightarrow> 0 | Some (cnt, _) \<Rightarrow> cnt)"

lemma split_replies_ok:
  assumes "MC_HDR_SIZE < fsz"
  shows "list_all reply_segs rs \<Longrightarrow> \<exists>out sp'. split_replies U fsz i rs = Some out \<and> (\<forall>p\<in>set out. length (snd p) \<le> fsz)
    \<and> fold (\<lambda>segs n. if segs = [] then n else (case n of None \<Rightarrow> None | Some (nm, ic, sp) \<Rightarrow> count_loop fsz segs 0 fsz (nm + 1, ic, sp))) rs
        (Some (nm, ic, sp)) = Some (nm + length out, ic + sum_list (map (reply_cnt U fsz) rs), sp \<or> sp')
    \<and> (\<not> sp' \<longrightarrow> length out = length (filter (\<lambda>segs. segs \<noteq> []) rs) \<and> (\<forall>segs\<in>set rs. length (concat segs) \<le> fsz))"
proof (induction rs arbitrary: i nm ic sp)
  case (Cons segs rs)
  show ?case
  proof (cases "segs = []")
    case True
    then show ?thesis using Cons.IH [of "i + 1" nm ic sp] Cons.prems by (auto simp: reply_cnt_def)
  next
    case False
    have segs: "[] \<notin> set segs" "MC_HDR_SIZE \<le> length (concat segs)" using Cons.prems False by (simp_all add: reply_segs_def)
    obtain cnt f fs where s: "split_reply U fsz segs = Some (cnt, number_frames U cnt (f # fs))" "f @ concat fs = concat segs"
      "length f \<le> fsz" "\<forall>g\<in>set fs. length g \<le> fsz - MC_HDR_SIZE" "fs \<noteq> [] \<Longrightarrow> length f = fsz \<and> 1 < cnt" "[] \<notin> set fs"
      "\<And>nm ic sp. count_loop fsz segs 0 fsz (nm, ic, sp) = Some (nm + length fs, ic + cnt, sp \<or> fs \<noteq> [])"
      by (rule split_reply_ok [OF assms segs(1)]) blast
    let ?fr = "number_frames U cnt (f # fs)"
    have f: "MC_HDR_SIZE \<le> length f" using segs(2) s(2,5) assms by (cases fs) auto
    note l = number_frames_lengths [OF f, of U cnt fs]
    have len: "length ?fr = Suc (length fs)" using arg_cong [OF l, of length] by simp
    have fit: "length g \<le> fsz" if "g \<in> set ?fr" for g
    proof -
      have "length g \<in> set (map length ?fr)" using that by simp
      then show ?thesis unfolding l using s(3,4) assms by (auto split: if_splits)
    qed
    obtain out sp' where r: "split_replies U fsz (i + 1) rs = Some out" "\<forall>p\<in>set out. length (snd p) \<le> fsz"
      "fold (\<lambda>segs n. if segs = [] then n else (case n of None \<Rightarrow> None | Some (nm, ic, sp) \<Rightarrow> count_loop fsz segs 0 fsz (nm + 1, ic, sp))) rs
        (Some (nm + 1 + length fs, ic + cnt, sp \<or> fs \<noteq> [])) = Some (nm + 1 + length fs + length out, ic + cnt + sum_list (map (reply_cnt U fsz) rs), (sp \<or> fs \<noteq> []) \<or> sp')"
      "\<not> sp' \<longrightarrow> length out = length (filter (\<lambda>segs. segs \<noteq> []) rs) \<and> (\<forall>segs\<in>set rs. length (concat segs) \<le> fsz)"
      using Cons.IH [of "i + 1" "nm + 1 + length fs" "ic + cnt" "sp \<or> fs \<noteq> []"] Cons.prems by auto
    have c: "reply_cnt U fsz segs = cnt" using False s(1) by (simp add: reply_cnt_def)
    have one: "fs = [] \<Longrightarrow> length (concat segs) \<le> fsz" using s(2,3) by simp
    show ?thesis
      using False s(1,7) r len fit one c
      by (intro exI [of _ "map (Pair i) ?fr @ out"] exI [of _ "fs \<noteq> [] \<or> sp'"]) auto
  qed
qed (auto intro: exI [of _ False])

text \<open>C25: The frames of the replies. Splitting ends, no frame is longer than it may be, and the frames and
  segments that are written are as many as the first pass counted, for which the arrays have room.\<close>

theorem udp_frames_fit:
  assumes "MC_HDR_SIZE < fsz" "list_all reply_segs rs"
  shows "\<exists>nm sp out. count_replies fsz rs = Some (nm, sum_list (map (reply_cnt U fsz) rs), sp)
    \<and> construct_frames U fsz rs = Some out \<and> length out = nm \<and> (\<forall>p\<in>set out. length (snd p) \<le> fsz)"
proof -
  obtain out sp where o: "split_replies U fsz 0 rs = Some out" "\<forall>p\<in>set out. length (snd p) \<le> fsz"
    "count_replies fsz rs = Some (length out, sum_list (map (reply_cnt U fsz) rs), sp)"
    "\<not> sp \<longrightarrow> length out = length (filter (\<lambda>segs. segs \<noteq> []) rs) \<and> (\<forall>segs\<in>set rs. length (concat segs) \<le> fsz)"
    using split_replies_ok [OF assms, of U 0 0 0 False] by (auto simp: count_replies_def)
  show ?thesis
  proof (cases sp)
    case True
    then show ?thesis using o by (auto simp: construct_frames_def)
  next
    case False
    let ?out = "\<lambda>k rs. concat (map (\<lambda>(i, segs). if segs = [] then [] else [(i, concat segs)]) (enumerate k rs))"
    have l: "length (?out k xs) = length (filter (\<lambda>segs. segs \<noteq> []) xs)" for k xs by (induction xs arbitrary: k) auto
    have "\<forall>p\<in>set (?out 0 rs). length (snd p) \<le> fsz"
      using o(4) False by (auto simp: in_set_enumerate_eq split: if_splits)
    moreover have "construct_frames U fsz rs = Some (?out 0 rs)" "count_replies fsz rs = Some (length out, sum_list (map (reply_cnt U fsz) rs), False)"
      "length out = length (filter (\<lambda>segs. segs \<noteq> []) rs)"
      using o(3,4) False by (simp_all add: construct_frames_def)
    ultimately show ?thesis by (intro exI [of _ "length out"] exI [of _ False] exI [of _ "?out 0 rs"]) (simp add: l)
  qed
qed

definition sample_reply :: "byte list list" where
  "sample_reply = [[0, 7, 0, 0, 0, 1, 0, 0], [1, 2, 3, 4, 5], [6, 7]]"

theorem udp_frames_fit_witness:
  "\<exists>nm sp out. count_replies 12 [sample_reply, []] = Some (nm, sum_list (map (reply_cnt int_str_util 12) [sample_reply, []]), sp)
    \<and> construct_frames int_str_util 12 [sample_reply, []] = Some out \<and> length out = nm \<and> (\<forall>p\<in>set out. length (snd p) \<le> 12)"
  by (rule udp_frames_fit) (simp_all add: MC_HDR_SIZE_def reply_segs_def sample_reply_def)

section \<open>A request in many frames\<close>

lemma session_whole:
  assumes "served S" "conn_ok S c" "cn_buf c = concat (map req_text qs)" "list_all req_valid qs"
  obtains c1 where "process_loop S c = Some (EV_WRITE, c1)" "conn_ok S c1"
    "(conn_abs S c1, cn_out c1) = (case session (v_util (sv_env S)) qs (conn_abs S c) of (T, r) \<Rightarrow> (T, cn_out c @ r))"
proof -
  obtain c1 where c1: "process_loop S c = process_loop S c1" "cn_buf c1 = []" "conn_ok S c1"
    "(conn_abs S c1, cn_out c1) = (case session (v_util (sv_env S)) qs (conn_abs S c) of (T, r) \<Rightarrow> (T, cn_out c @ r))"
    using turn_session [OF assms(1,2), of qs "[]"] assms(3,4) by auto
  have "process_loop S c1 = Some (EV_WRITE, c1)" using c1(2) by (subst process_loop.simps) (simp add: Let_def)
  then show thesis using that [of c1] c1 by simp
qed

lemma udp_rest:
  assumes "\<forall>j. i \<le> j \<and> j < nmsgs \<longrightarrow> fs ! j = []"
  shows "udp_process S mem nmsgs i fs sav c outs = Some (c, sav, outs @ replicate (nmsgs - i) [])"
  using assms
proof (induction "nmsgs - i" arbitrary: i outs)
  case 0
  then show ?case by (subst udp_process.simps) simp
next
  case (Suc n)
  then have "udp_process S mem nmsgs (i + 1) fs sav c (outs @ [[]]) = Some (c, sav, (outs @ [[]]) @ replicate (nmsgs - (i + 1)) [])"
    by (intro Suc.hyps(1)) auto
  moreover have "nmsgs - i = Suc (nmsgs - (i + 1))" "fs ! i = []" "\<not> nmsgs \<le> i" using Suc.hyps(2) Suc.prems by auto
  ultimately show ?case by (subst udp_process.simps) simp
qed

text \<open>C4: A request over UDP. A request that was split into frames, which arrive together in any order, is
  put together again, runs as one session, and gets one reply behind the header of a request in one frame;
  the other messages get none.\<close>

theorem udp_request_refines:
  assumes "served S" "conn_ok S c" "kv_bitops (v_util (sv_env S))" "MC_HDR_SIZE < fsz" "[] \<notin> set segs"
    "concat segs = hdr @ concat (map req_text qs)" "length hdr = MC_HDR_SIZE" "single_hdr (v_util (sv_env S)) hdr" "list_all req_valid qs"
    "split_reply (v_util (sv_env S)) fsz segs = Some (cnt, frames)" "1 < length frames" "length frames < 2 ^ 16"
    "mset msgs = mset frames" "mem (length (concat segs))"
  shows "\<exists>c1. udp_process S mem (length msgs) 0 msgs sav c [] = Some (c1, sav, cn_out c1 # replicate (length msgs - 1) []) \<and> conn_ok S c1
    \<and> (conn_abs S c1, cn_out c1) = (case session (v_util (sv_env S)) qs (conn_abs S c) of (T, r) \<Rightarrow> (T, hdr @ r))"
proof -
  let ?U = "v_util (sv_env S)"
  obtain cnt' f fs where s: "split_reply ?U fsz segs = Some (cnt', number_frames ?U cnt' (f # fs))" "f @ concat fs = concat segs"
    "fs \<noteq> [] \<Longrightarrow> length f = fsz \<and> 1 < cnt'" "[] \<notin> set fs"
    by (rule split_reply_ok [OF assms(4,5)]) blast
  have fr: "frames = number_frames ?U cnt (f # fs)" "cnt' = cnt" using s(1) assms(10) by simp_all
  have fs: "fs \<noteq> []" using assms(11) fr(1) by (auto simp: number_frames_def split: if_splits)
  have f: "8 < length f" "1 < cnt" using s(3) fs fr(2) assms(4) by (simp_all add: MC_HDR_SIZE_def)
  have hd: "take 8 f = hdr" using arg_cong [OF s(2), of "take 8"] assms(6,7) f(1) by (simp add: MC_HDR_SIZE_def)
  have words: "hdr_word i f = hdr_word i hdr" if "i \<le> 6" for i
    using take_hdr_words(2) [of f i "[]"] that f(1) hd by simp
  have f1: "single_hdr ?U f" using words [of 2] words [of 4] assms(8) f(1) by (simp add: single_hdr_def)
  have len: "length (f # fs) < 2 ^ 16"
    using assms(12) arg_cong [OF number_frames_lengths, of f length ?U cnt fs] f(1) unfolding fr(1) by (simp add: MC_HDR_SIZE_def)
  note nf = numbered_frames [OF assms(3) f1 fs s(4) len f(2,1), folded fr(1)]
  let ?req = "req_id f"
  have req: "request_frames ?U ?req frames" "merged ?U frames = concat segs" "length frames = length (f # fs)"
    using nf(1-3) s(2) by simp_all
  have all: "has_req ?req g" "frame_total ?U g = length frames" if "g \<in> set msgs" for g
  proof -
    have g: "g \<in> set frames" using that mset_eq_setD [OF assms(13)] by simp
    then show "has_req ?req g" using req(1) by (auto simp: in_set_conv_nth request_frames_def)
    show "frame_total ?U g = length frames" using g nf(4) req(3) by simp
  qed
  have n: "length msgs = length frames" using arg_cong [OF assms(13), of size] by simp
  then have "0 < length msgs" "frames \<noteq> []" using assms(11) by auto
  note ne = this(2,1) nth_mem [OF this(1)]
  have "msgs_from 0 (length msgs) msgs = msgs" by (simp add: msgs_from_def)
  moreover have "filter (has_req ?req) msgs = msgs" using all(1) by simp
  ultimately obtain fs' where m: "merge_frames ?U mem msgs (length msgs) sav ?req 0 (length frames) (length (msgs ! 0)) = Some (True, fs', sav)"
    "fs' ! 0 = concat segs" "\<forall>j. j \<noteq> 0 \<longrightarrow> fs' ! j = (if 0 \<le> j \<and> j < length msgs \<and> has_req ?req (msgs ! j) then [] else msgs ! j)"
    using merge_complete [OF req(1) ne(1) ne(2) _ all(1) [OF ne(3)], where mem = mem and sav = sav] req(2) assms(13,14) by auto
  let ?c = "c\<lparr>cn_buf := concat (map req_text qs), cn_out := hdr\<rparr>"
  have c: "conn_ok S ?c" "conn_abs S ?c = conn_abs S c" using assms(2) by (simp_all add: conn_ok_def conn_abs_def fun_eq_iff)
  obtain c1 where c1: "process_loop S ?c = Some (EV_WRITE, c1)" "conn_ok S c1"
    "(conn_abs S c1, cn_out c1) = (case session ?U qs (conn_abs S c) of (T, r) \<Rightarrow> (T, hdr @ r))"
    by (rule session_whole [OF assms(1) c(1) _ assms(9)]) (simp_all add: c(2))
  let ?w = "concat segs"
  have w: "8 < length ?w" "hdr_word 2 ?w = 0" "hdr_word 4 ?w = kv_bswap16 ?U 1"
    using s(2) f(1) f1 take_hdr_words(2) [of f] hd
  proof -
    show "8 < length ?w" using s(2) f(1) by (metis length_append trans_less_add1)
    have "hdr_word i ?w = hdr_word i f" if "i \<le> 6" for i
      using that f(1) unfolding s(2) [symmetric] by (simp add: hdr_word_def)
    then show "hdr_word 2 ?w = 0" "hdr_word 4 ?w = kv_bswap16 ?U 1" using f1 by (simp_all add: single_hdr_def)
  qed
  have tot: "frame_total ?U ?w = 1" using w(3) bswap16_twice [OF assms(3), of 1] by (simp add: frame_total_def)
  have out: "take MC_HDR_SIZE (set_hdr 0 (kv_bswap16 ?U 1) ?w) = hdr" "drop MC_HDR_SIZE ?w = concat (map req_text qs)"
    using set_hdr_same [of ?w] w assms(6,7) by (simp_all add: MC_HDR_SIZE_def)
  have m0: "\<not> length (msgs ! 0) \<le> MC_HDR_SIZE" "req_id (msgs ! 0) = ?req" using all(1) [OF ne(3)] by (simp_all add: has_req_def)
  have "udp_process S mem (length msgs) 0 msgs sav c [] = udp_process S mem (length msgs) 0 fs' sav c []"
    using m0 m(1) all(2) [OF ne(3)] ne(2) assms(11) by (subst udp_process.simps) (simp add: Let_def)
  also have "\<dots> = udp_process S mem (length msgs) 1 fs' sav c1 [cn_out c1]"
    using m(2) tot w(1) out c1(1) ne(2) by (subst udp_process.simps) (simp add: Let_def MC_HDR_SIZE_def)
  also have "\<dots> = Some (c1, sav, [cn_out c1] @ replicate (length msgs - 1) [])"
    by (rule udp_rest) (use m(3) all(1) in auto)
  finally show ?thesis using c1(2,3) by auto
qed

definition sample_segs :: "byte list list" where
  "sample_segs = [[0, 7, 0, 0, 0, 1, 0, 0] @ req_text (GetReq (ascii ''get'') [ascii ''k''])]"

definition sample_frames :: "byte list list" where
  "sample_frames = [[0, 7, 0, 0, 0, 2, 0, 0] @ ascii ''get '', [0, 7, 0, 1, 0, 2, 0, 0] @ ascii ''k'' @ crlf]"

lemma sample_split: "split_reply int_str_util 12 sample_segs = Some (3, sample_frames)"
proof -
  have b: "kv_bswap16 int_str_util 2 = 0x200" "kv_bswap16 int_str_util 1 = 0x100"
    using kv_bitops.bswap16 [OF bits.kv_bitops_axioms, of "[2, 0]"] kv_bitops.bswap16 [OF bits.kv_bitops_axioms, of "[1, 0]"]
    by (simp_all add: int_str_util_def)
  have "sample_segs = [[0, 7, 0, 0, 0, 1, 0, 0, 103, 101, 116, 32, 107, 13, 10]]"
    by (simp add: sample_segs_def request_line_def args_text_def crlf_def)
  note segs = this
  have "frame_loop 12 sample_segs 0 12 0 [[]] = Some (3, [[0, 7, 0, 0, 0, 1, 0, 0, 103, 101, 116, 32], [107, 13, 10]])"
    unfolding segs by ((subst frame_loop.simps, simp add: MC_HDR_SIZE_def split_seg_def add_last_def)+)
  moreover have "le_bytes 2 n = [of_nat n, of_nat (n div 256)]" for n by (simp add: numeral_2_eq_2)
  ultimately show ?thesis
    by (simp add: split_reply_def number_frames_def Let_def b set_hdr_def hdr_word_def mem_word_def word_bytes_def MC_HDR_SIZE_def
        sample_frames_def crlf_def)
qed

theorem udp_request_refines_witness:
  "\<exists>c1. udp_process sample_serve (\<lambda>_. True) 2 0 (rev sample_frames) [] sample_conn [] = Some (c1, [], [cn_out c1, []])
    \<and> cn_out c1 = [0, 7, 0, 0, 0, 1, 0, 0] @ ascii ''END'' @ crlf"
proof -
  let ?h = "[0, 7, 0, 0, 0, 1, 0, 0] :: byte list"
  have S: "served sample_serve" "v_util (sv_env sample_serve) = int_str_util"
    using mc_mem.mc_table_axioms mc_mem_roomy by (simp_all add: served_def sample_serve_def sample_y_def)
  have ok: "conn_ok sample_serve sample_conn" "conn_abs sample_serve sample_conn = (\<lambda>k. None)"
    by (simp_all add: conn_ok_def conn_abs_def mc_abs_def sample_conn_def mc_strings_def sample_serve_def mc_mem_ops_def mem_ops_def
        with_base_def sample_mem_def fun_eq_iff)
  have one: "kv_bswap16 int_str_util 1 = 0x100"
    using kv_bitops.bswap16 [OF bits.kv_bitops_axioms, of "[1, 0]"] by simp
  have h: "single_hdr int_str_util ?h" by (simp add: single_hdr_def hdr_word_def mem_word_def one numeral_eq_Suc)
  have "\<exists>c1. udp_process sample_serve (\<lambda>_. True) (length (rev sample_frames)) 0 (rev sample_frames) [] sample_conn []
      = Some (c1, [], cn_out c1 # replicate (length (rev sample_frames) - 1) []) \<and> conn_ok sample_serve c1
    \<and> (conn_abs sample_serve c1, cn_out c1) = (case session (v_util (sv_env sample_serve)) [GetReq (ascii ''get'') [ascii ''k'']]
        (conn_abs sample_serve sample_conn) of (T, r) \<Rightarrow> (T, ?h @ r))"
  proof (rule udp_request_refines [OF S(1) ok(1)])
    show "split_reply (v_util (sv_env sample_serve)) 12 sample_segs = Some (3, sample_frames)" using sample_split S(2) by simp
    show "list_all req_valid [GetReq (ascii ''get'') [ascii ''k'']]" by (simp add: word_of_def plain_word_def)
  qed (use h S(2) bits.kv_bitops_axioms in \<open>simp_all add: sample_segs_def sample_frames_def MC_HDR_SIZE_def\<close>)
  then show ?thesis unfolding ok(2) by (auto simp: sample_frames_def value_text_def numeral_eq_Suc)
qed

end
