(* ===== verification/Spec2Isabelle.thy ===== *)
theory Spec2Isabelle
  imports Json Transaction_Watch Redis_Key List_Refines Hash_Refines Set_Refines Ws_Frame Mc_Frames
begin

text \<open>
  A development of raids, a server of the Redis protocol over a key store in shared memory.

  \<^bold>\<open>How the parts fit.\<close> Bytes of a connection become messages (\<open>src/src/redis_msg.cpp\<close>), a message names
  a row of the command table (\<open>src/include/raids/redis_cmd.h\<close>), the row tells which arguments are keys
  (\<open>src/src/redis_exec.cpp\<close>), each key gets a context and its handler runs on the entry in the key store
  (\<open>src/src/redis_string.cpp\<close>), and a status or the handler itself puts the reply, again a message, on the
  output stream. Between MULTI and EXEC the commands are queued (\<open>src/src/redis_transaction.cpp\<close>).

  \<^bold>\<open>Theories.\<close>
  \<^item> \<open>Raids_Prelude\<close>, \<open>Kv_Util\<close>: bytes, decimals, and the helpers of raikv as a parameter with laws.
  \<^item> \<open>Int_Str\<close>: \<open>int_str.h\<close> and the integer parsers; they agree with reference readings of decimals.
  \<^item> \<open>Redis_Msg\<close>: encoder, bounded encoder, decoder with inline commands; round trip, cut messages, safety.
  \<^item> \<open>Json\<close>: the JSON form, the printer with the buffer it fills and the parser; round trip for strings that need
    no escape the parser misses, the byte the printer writes behind its counted size, the room of the string parser.
  \<^item> \<open>Redis_Cmd\<close>: the command table and its hash. \<open>Redis_Exec\<close>: from the arguments to the keys of a command.
  \<^item> \<open>Redis_Store\<close>: the entry of a key, its fetch and expiry; the store is a record of operations with the
    laws of \<open>kv_entry\<close>, interpreted by a store in memory.
  \<^item> \<open>Redis_Reply\<close>: statuses and results as bytes; every reply is one message that the decoder reads back.
  \<^item> \<open>Redis_String\<close>, \<open>Redis_Bits\<close>, \<open>Redis_Bitfield\<close>: the string commands, handler by handler.
  \<^item> \<open>Redis_Run\<close>: the loop over the keys of a command up to its reply, and MGET as a whole. The loop is
    shown to end for handlers that wait for other keys only in their first round.
  \<^item> \<open>Redis_Transaction\<close>, \<open>Transaction_Locks\<close>, \<open>Transaction_Exec\<close>, \<open>Transaction_Watch\<close>: the queue, the
    locks and EXEC; the states a client reaches are a step relation with its invariant, EXEC gives back every lock
    it takes, and it runs the queued commands if and only if every watched key still has the serial and hash it had.
  \<^item> \<open>Redis_Key\<close>: the commands on keys (\<open>redis_key.cpp\<close>): times to live, RENAME over two keys, SCAN as a session.
  \<^item> \<open>List_Ctx\<close>: the context of the container commands (\<open>exec_list_ctx.h\<close>): fetch by type, creation, growth.
  \<^item> \<open>Redis_List\<close>, \<open>List_Refines\<close>: the list commands (\<open>redis_list.cpp\<close>) over the contract \<open>md_list\<close> of the list
    class; they refine lists of byte strings, and RPOPLPUSH moves an element between two keys.
  \<^item> \<open>Redis_Hash\<close>, \<open>Hash_Refines\<close>: the hash commands (\<open>redis_hash.cpp\<close>) over \<open>md_hash\<close>; they refine a map from
    fields to values, and HSCAN visits every field.
  \<^item> \<open>Set_Bits\<close>: the bit set of \<open>set_bits.h\<close> as a refinement of a set of numbers.
  \<^item> \<open>Redis_Set\<close>, \<open>Set_Refines\<close>: the set commands (\<open>redis_set.cpp\<close>) over \<open>md_set\<close>; SADD and SREM refine
    sets of byte strings, SPOP and SRANDMEMBER choose with the bit set, SUNION, SINTER and SDIFF over many keys.
  \<^item> \<open>Ws_Frame\<close>: the frames of WebSocket (\<open>ws_frame.h\<close>): round trips of the header and of the mask.
  \<^item> \<open>Mc_Msg\<close>, \<open>Mc_Reply\<close>: the memcached protocol (\<open>memcached_exec.cpp\<close>), its requests in text and in
    binary, and its replies. \<open>Mc_Exec\<close>, \<open>Mc_Run\<close>: the commands on a key and the loop over keys.
  \<^item> \<open>Mc_Serve\<close>, \<open>Mc_Session\<close>: the loop of a connection (\<open>ev_memcached.cpp\<close>); a session of requests, from
    bytes to bytes, refines a map from keys to values, over the table contract \<open>mc_table\<close>.
  \<^item> \<open>Mc_Udp\<close>, \<open>Mc_Frames\<close>: memcached over UDP; a request in frames that come in any order runs as one
    session, and a reply is split into frames that fit.

  \<^bold>\<open>Conventions.\<close> A handler takes the state of its command and of its key and returns a status and the new
  state of the key; \<open>None\<close> is a run that does not return or leaves its memory. Machine integers are words, or
  integers with the conversion written out. Loops that may not end are partial functions; that they end is
  stated apart. The model has no bound and no fuel: its recursion follows the data or has a measure. The walk of a
  client along the cursors of HSCAN (\<open>hscan_walk\<close>) counts its calls; one more than there are fields is enough.

  \<^bold>\<open>Parameters.\<close> raikv, raimd, h3, pcre and rdbparser are submodules without sources here. What the code
  calls of them is a record of operations: \<open>kv_util\<close>, \<open>kv_ops\<close>, \<open>seg_ops\<close>, \<open>mc_ops\<close>, \<open>lock_ops\<close>,
  \<open>list_class\<close>, \<open>list_ops\<close>, \<open>hash_ops\<close>, \<open>set_ops\<close>, \<open>decimal\<close>; \<open>mem\<close> tells which sizes the allocator gives.

  \<^bold>\<open>Not modelled.\<close> The commands on sorted sets, streams, places and HyperLogLog; publishing uses the
  routes of raikv; the services are event loops over sockets.
\<close>

end
